(* ===== verification/Prelude.thy ===== *)
theory Prelude
  imports Main "HOL-Library.Word" "HOL-Library.Char_ord" "HOL-Library.List_Lexorder"
begin

text \<open>
  Shared vocabulary of the development: Python exceptions as values, the error monad that threads
  them, Python's list slicing and indexing on \<^typ>\<open>int\<close> positions, the ceiling division
  of src/vllm/utils/math_utils.py, and the generic list lemmas the components use.

  Python integers are unbounded and are modelled by \<^typ>\<open>int\<close>; byte strings are lists of
  8-bit words. A raised exception ends the call: the model returns the exception and no state,
  because the callers of the code modelled here do not resume after one.
\<close>

section \<open>Automation collections\<close>

named_theorems err_simps \<open>evaluation of the error monad\<close>
named_theorems py_simps \<open>Python arithmetic and slicing in terms of library functions\<close>

section \<open>Exceptions as values\<close>

datatype py_error =
    AssertionError
  | ValueError
  | RuntimeError
  | IndexError
  | KeyError
  | OverflowError
  | ZeroDivisionError
  | NotImplementedError
  | StopIteration

type_synonym 'a res = "py_error + 'a"
type_synonym byte = "8 word"
type_synonym bytes = "8 word list"
type_synonym token = int
type_synonym req_id = string

definition bindE :: "'a res \<Rightarrow> ('a \<Rightarrow> 'b res) \<Rightarrow> 'b res" where
  "bindE m f = (case m of Inl e \<Rightarrow> Inl e | Inr x \<Rightarrow> f x)"

definition assertE :: "bool \<Rightarrow> 'a res \<Rightarrow> 'a res" where
  "assertE b k = (if b then k else Inl AssertionError)"

lemma bindE_simps [simp, err_simps]:
  "bindE (Inl e) f = Inl e"
  "bindE (Inr x) f = f x"
  by (simp_all add: bindE_def)

lemma bindE_eq_Inr [simp]: "bindE m f = Inr y \<longleftrightarrow> (\<exists>x. m = Inr x \<and> f x = Inr y)"
  by (cases m) auto

lemma bindE_eq_Inl: "bindE m f = Inl e \<longleftrightarrow> m = Inl e \<or> (\<exists>x. m = Inr x \<and> f x = Inl e)"
  by (cases m) auto

lemma bindE_assoc: "bindE (bindE m f) g = bindE m (\<lambda>x. bindE (f x) g)"
  by (cases m) auto

lemma bindE_cong [fundef_cong]:
  "m = m' \<Longrightarrow> (\<And>x. m' = Inr x \<Longrightarrow> f x = f' x) \<Longrightarrow> bindE m f = bindE m' f'"
  by (cases m') auto

lemma assertE_simps [simp, err_simps]:
  "assertE True k = k"
  "assertE False k = Inl AssertionError"
  by (simp_all add: assertE_def)

lemma assertE_eq_Inr [simp]: "assertE b k = Inr y \<longleftrightarrow> b \<and> k = Inr y"
  by (simp add: assertE_def)

lemma assertE_cong [fundef_cong]: "b = b' \<Longrightarrow> (b' \<Longrightarrow> k = k') \<Longrightarrow> assertE b k = assertE b' k'"
  by (simp add: assertE_def)

text \<open>A loop body that may raise, run over a list with a state (a Python \<^verbatim>\<open>for\<close> loop).\<close>

fun foldE :: "('a \<Rightarrow> 's \<Rightarrow> 's res) \<Rightarrow> 'a list \<Rightarrow> 's \<Rightarrow> 's res" where
  "foldE f [] s = Inr s"
| "foldE f (x # xs) s = bindE (f x s) (foldE f xs)"

fun mapE :: "('a \<Rightarrow> 'b res) \<Rightarrow> 'a list \<Rightarrow> 'b list res" where
  "mapE f [] = Inr []"
| "mapE f (x # xs) = bindE (f x) (\<lambda>y. bindE (mapE f xs) (\<lambda>ys. Inr (y # ys)))"

lemma foldE_append: "foldE f (xs @ ys) s = bindE (foldE f xs s) (foldE f ys)"
  by (induction xs arbitrary: s) (auto simp: bindE_assoc intro: bindE_cong)

lemma foldE_invariant:
  assumes "foldE f xs s = Inr t" "P s"
    and "\<And>x s s'. x \<in> set xs \<Longrightarrow> P s \<Longrightarrow> f x s = Inr s' \<Longrightarrow> P s'"
  shows "P t"
  using assms
proof (induction xs arbitrary: s)
  case Nil
  then show ?case by simp
next
  case (Cons x xs)
  from Cons.prems(1) obtain s' where s': "f x s = Inr s'" "foldE f xs s' = Inr t" by auto
  have "P s'" using Cons.prems(2,3) s'(1) by auto
  with s'(2) show ?case using Cons.IH Cons.prems(3) by auto
qed

lemma mapE_eq_Inr: "mapE f xs = Inr ys \<longleftrightarrow> list_all2 (\<lambda>x y. f x = Inr y) xs ys"
  by (induction xs arbitrary: ys) (auto simp: list_all2_Cons1)

lemma mapE_Inr [simp]: "mapE (\<lambda>x. Inr (f x)) xs = Inr (map f xs)"
  by (induction xs) auto

text \<open>Two results agree when they are the same exception or related values: the relation of
  the refinement theorems.\<close>

fun rel_res :: "('a \<Rightarrow> 'b \<Rightarrow> bool) \<Rightarrow> 'a res \<Rightarrow> 'b res \<Rightarrow> bool" where
  "rel_res R (Inl e) (Inl e') \<longleftrightarrow> e = e'"
| "rel_res R (Inr x) (Inr y) \<longleftrightarrow> R x y"
| "rel_res R _ _ \<longleftrightarrow> False"

lemma rel_res_Inr: "rel_res R m (Inr y) \<longleftrightarrow> (\<exists>x. m = Inr x \<and> R x y)"
  by (cases m) auto

section \<open>Python slices and indexing\<close>

definition py_clip :: "int \<Rightarrow> int \<Rightarrow> int" where
  "py_clip n i = (if i < 0 then max 0 (n + i) else min i n)"

definition py_slice :: "'a list \<Rightarrow> int \<Rightarrow> int \<Rightarrow> 'a list" where
  "py_slice xs a b =
     (let n = int (length xs); a' = py_clip n a; b' = py_clip n b
      in take (nat (b' - a')) (drop (nat a') xs))"

definition py_from :: "'a list \<Rightarrow> int \<Rightarrow> 'a list" where
  "py_from xs a = drop (nat (py_clip (int (length xs)) a)) xs"

definition py_upto :: "'a list \<Rightarrow> int \<Rightarrow> 'a list" where
  "py_upto xs b = take (nat (py_clip (int (length xs)) b)) xs"

definition py_get :: "'a list \<Rightarrow> int \<Rightarrow> 'a res" where
  "py_get lst i =
     (let pos = i + (if i < 0 then int (length lst) else 0)
      in if pos < 0 \<or> int (length lst) \<le> pos then Inl IndexError else Inr (lst ! nat pos))"

lemma py_slice_nonneg [py_simps]:
  "0 \<le> a \<Longrightarrow> 0 \<le> b \<Longrightarrow> py_slice xs a b = take (nat b - nat a) (drop (nat a) xs)"
  by (cases "nat a \<le> length xs"; cases "nat b \<le> length xs")
    (auto simp: py_slice_def py_clip_def Let_def min_def nat_diff_distrib' not_le)

lemma py_from_nonneg [py_simps]: "0 \<le> a \<Longrightarrow> py_from xs a = drop (nat a) xs"
  by (auto simp: py_from_def py_clip_def min_def)

lemma py_upto_nonneg [py_simps]: "0 \<le> b \<Longrightarrow> py_upto xs b = take (nat b) xs"
  by (auto simp: py_upto_def py_clip_def min_def)

lemma py_get_nonneg [py_simps]:
  "0 \<le> i \<Longrightarrow> py_get xs i = (if nat i < length xs then Inr (xs ! nat i) else Inl IndexError)"
  by (auto simp: py_get_def Let_def)

lemma py_get_int [simp]:
  "py_get xs (int i) = (if i < length xs then Inr (xs ! i) else Inl IndexError)"
  by (simp add: py_get_def)

section \<open>Integer helpers of src/vllm/utils/math\_utils.py\<close>

definition cdiv :: "int \<Rightarrow> int \<Rightarrow> int" where
  "cdiv a b = - (a div (- b))"

definition round_up :: "int \<Rightarrow> int \<Rightarrow> int" where
  "round_up x y = ((x + y - 1) div y) * y"

definition round_down :: "int \<Rightarrow> int \<Rightarrow> int" where
  "round_down x y = (x div y) * y"

lemma cdiv_eq_ceiling: "0 < b \<Longrightarrow> cdiv a b = (a + b - 1) div b"
proof -
  assume b: "0 < b"
  have "a div (- b) = (- a) div b" by (simp add: div_minus_right)
  moreover have "- ((- a) div b) = (a + b - 1) div b"
  proof -
    have "(- a) div b = - ((a + b - 1) div b)"
    proof -
      have "a + b - 1 = b * ((a + b - 1) div b) + (a + b - 1) mod b" by simp
      moreover have "0 \<le> (a + b - 1) mod b" "(a + b - 1) mod b < b" using b by auto
      ultimately have "- a = b * (- ((a + b - 1) div b)) + (b - 1 - (a + b - 1) mod b)"
        and "0 \<le> b - 1 - (a + b - 1) mod b" and "b - 1 - (a + b - 1) mod b < b"
        by (auto simp: algebra_simps)
      then show ?thesis by (metis div_mult_self4 div_pos_pos_trivial b add.commute
            add.right_neutral div_add_self1 less_irrefl mult.commute)
    qed
    then show ?thesis by simp
  qed
  ultimately show ?thesis by (simp add: cdiv_def)
qed

lemma cdiv_bounds: "0 < b \<Longrightarrow> a \<le> cdiv a b * b \<and> cdiv a b * b < a + b"
proof -
  assume b: "0 < b"
  have "a + b - 1 = (a + b - 1) div b * b + (a + b - 1) mod b" by simp
  moreover have "0 \<le> (a + b - 1) mod b" "(a + b - 1) mod b < b" using b by auto
  ultimately show ?thesis unfolding cdiv_eq_ceiling [OF b] by linarith
qed

lemma cdiv_nonneg: "0 < b \<Longrightarrow> 0 \<le> a \<Longrightarrow> 0 \<le> cdiv a b"
  by (simp add: cdiv_eq_ceiling pos_imp_zdiv_nonneg_iff)

lemma cdiv_least: "0 < b \<Longrightarrow> a \<le> k * b \<longleftrightarrow> cdiv a b \<le> k"
proof
  assume b: "0 < b" and k: "a \<le> k * b"
  have "cdiv a b * b < a + b" using cdiv_bounds [OF b] by simp
  with k have "cdiv a b * b < (k + 1) * b" by (simp add: algebra_simps)
  then show "cdiv a b \<le> k" using b by (simp add: mult_less_cancel_right)
next
  assume b: "0 < b" and k: "cdiv a b \<le> k"
  have "a \<le> cdiv a b * b" using cdiv_bounds [OF b] by simp
  also have "\<dots> \<le> k * b" using k b by (simp add: mult_right_mono)
  finally show "a \<le> k * b" .
qed

lemma cdiv_mono: "0 < b \<Longrightarrow> a \<le> a' \<Longrightarrow> cdiv a b \<le> cdiv a' b"
  by (simp add: cdiv_eq_ceiling zdiv_mono1)

lemma div_less_int: "0 < b \<Longrightarrow> a div b < k \<longleftrightarrow> a < k * (b :: int)"
proof -
  assume b: "0 < b"
  have a: "a = a div b * b + a mod b" and m: "0 \<le> a mod b" "a mod b < b" using b by simp_all
  show ?thesis
  proof
    assume "a div b < k"
    then have "(a div b + 1) * b \<le> k * b" using b by (intro mult_right_mono) auto
    then have "a div b * b + b \<le> k * b" by (simp add: algebra_simps)
    then show "a < k * b" using a m by linarith
  next
    assume "a < k * b"
    then have "a div b * b < k * b" using a m by linarith
    then show "a div b < k" using b by simp
  qed
qed

lemma div_le_int: "0 < b \<Longrightarrow> k \<le> a div b \<longleftrightarrow> k * b \<le> (a :: int)"
  using div_less_int [of b a k] by linarith

section \<open>Generic list lemmas\<close>

lemma upto_map_int: "[0..int n - 1] = map int [0..<n]"
proof (induction n)
  case 0
  then show ?case by simp
next
  case (Suc n)
  have "[0..int n] = [0..int n - 1] @ [int n]" by (simp add: upto_rec2)
  with Suc show ?case by simp
qed

lemma mapE_map: "mapE f (map g xs) = mapE (\<lambda>x. f (g x)) xs"
  by (induction xs) auto

lemma mapE_all_Inr: "(\<And>x. x \<in> set xs \<Longrightarrow> f x = Inr (g x)) \<Longrightarrow> mapE f xs = Inr (map g xs)"
  by (induction xs) auto

lemma drop_nth_tl: "i < length xs \<Longrightarrow> drop i xs = xs ! i # drop (Suc i) xs"
  by (simp add: Cons_nth_drop_Suc)

lemma remove1_append_iff: "distinct (xs @ x # ys) \<Longrightarrow> remove1 x (xs @ x # ys) = xs @ ys"
  by (simp add: remove1_append)

lemma distinct_set_remove1: "distinct xs \<Longrightarrow> set (remove1 x xs) = set xs - {x}"
  by simp

end
