(* ===== verification/Free_Queue.thy ===== *)
theory Free_Queue
  imports Prelude
begin

text \<open>
  The free block queue of src/vllm/v1/core/kv\_cache\_utils.py (\<^verbatim>\<open>KVCacheBlock\<close> and
  \<^verbatim>\<open>FreeKVCacheBlockQueue\<close>): a doubly linked list threaded through the block objects
  themselves, between a fake head and a fake tail. The objects live in a store from addresses to
  records and every assignment of the source is an update of that store. The queue is shown to
  implement a list of block ids; the locale \<open>block_queue\<close> is the contract the block pool relies
  on.
\<close>

section \<open>Blocks and the store of block objects\<close>

text \<open>An object is addressed by \<^verbatim>\<open>Blk i\<close> (the \<open>i\<close>-th element of the pool's block list) or is
  one of the two fake blocks.\<close>

datatype bref = Blk nat | FakeHead | FakeTail

record kv_cache_block =
  block_id :: int
  ref_cnt :: int
  block_hash :: "bytes option"
  prev_free_block :: "bref option"
  next_free_block :: "bref option"
  is_null :: bool

type_synonym block_store = "bref \<Rightarrow> kv_cache_block"

definition new_block :: "int \<Rightarrow> kv_cache_block" where
  "new_block i = \<lparr>block_id = i, ref_cnt = 0, block_hash = None,
     prev_free_block = None, next_free_block = None, is_null = False\<rparr>"

definition set_block_hash :: "bytes \<Rightarrow> kv_cache_block \<Rightarrow> kv_cache_block res" where
  "set_block_hash h b = assertE (block_hash b = None) (Inr (b\<lparr>block_hash := Some h\<rparr>))"

definition reset_hash :: "kv_cache_block \<Rightarrow> kv_cache_block" where
  "reset_hash b = b\<lparr>block_hash := None\<rparr>"

record free_queue =
  store :: block_store
  num_free_blocks :: int

definition set_prev :: "bref \<Rightarrow> bref option \<Rightarrow> block_store \<Rightarrow> block_store" where
  "set_prev r v s = s(r := (s r)\<lparr>prev_free_block := v\<rparr>)"

definition set_next :: "bref \<Rightarrow> bref option \<Rightarrow> block_store \<Rightarrow> block_store" where
  "set_next r v s = s(r := (s r)\<lparr>next_free_block := v\<rparr>)"

section \<open>The operations of the queue\<close>

text \<open>\<^verbatim>\<open>__init__\<close>: link consecutive blocks, then the fake ends.\<close>

definition init_links :: "nat \<Rightarrow> block_store \<Rightarrow> nat \<Rightarrow> block_store" where
  "init_links n s i =
     (let s1 = (if i > 0 then set_prev (Blk i) (Some (Blk (i - 1))) s else s)
      in if i + 1 < n then set_next (Blk i) (Some (Blk (i + 1))) s1 else s1)"

definition init_queue :: "nat \<Rightarrow> block_store \<Rightarrow> free_queue" where
  "init_queue n s =
     (let s1 = foldl (init_links n) s [0..<n];
          s2 = s1(FakeHead := new_block (-1), FakeTail := new_block (-1));
          s3 = (if n > 0
                then set_next (Blk (n - 1)) (Some FakeTail)
                       (set_prev FakeTail (Some (Blk (n - 1)))
                         (set_prev (Blk 0) (Some FakeHead)
                           (set_next FakeHead (Some (Blk 0)) s2)))
                else set_prev FakeTail (Some FakeHead) (set_next FakeHead (Some FakeTail) s2))
      in \<lparr>store = s3, num_free_blocks = int n\<rparr>)"

definition popleft :: "free_queue \<Rightarrow> (bref \<times> free_queue) res" where
  "popleft q =
     (let s = store q in
      case next_free_block (s FakeHead) of
        None \<Rightarrow> assertE (num_free_blocks q = 0) (Inl ValueError)
      | Some first \<Rightarrow>
          if first = FakeTail then assertE (num_free_blocks q = 0) (Inl ValueError)
          else (case next_free_block (s first) of
                  None \<Rightarrow> Inl RuntimeError
                | Some nx \<Rightarrow>
                    (let s1 = set_next FakeHead (Some nx) s;
                         s2 = set_prev nx (Some FakeHead) s1;
                         s3 = set_next first None (set_prev first None s2)
                     in Inr (first, \<lparr>store = s3, num_free_blocks = num_free_blocks q - 1\<rparr>))))"

text \<open>The loop of \<^verbatim>\<open>popleft_n\<close>: collect \<open>n\<close> blocks and clear their links.\<close>

fun popleft_loop :: "nat \<Rightarrow> bref option \<Rightarrow> block_store \<Rightarrow> (bref list \<times> bref option \<times> block_store) res" where
  "popleft_loop 0 cur s = Inr ([], cur, s)"
| "popleft_loop (Suc k) None s = Inl AssertionError"
| "popleft_loop (Suc k) (Some b) s =
     bindE (popleft_loop k (next_free_block (s b)) (set_next b None (set_prev b None s)))
       (\<lambda>(ret, cur, s'). Inr (b # ret, cur, s'))"

definition popleft_n :: "int \<Rightarrow> free_queue \<Rightarrow> (bref list \<times> free_queue) res" where
  "popleft_n n q =
     (if n = 0 then Inr ([], q)
      else assertE (num_free_blocks q \<ge> n)
        (bindE (popleft_loop (nat n) (next_free_block (store q FakeHead)) (store q))
          (\<lambda>(ret, cur, s).
             let s' = (case cur of
                         None \<Rightarrow> s
                       | Some c \<Rightarrow> set_prev c (Some FakeHead) (set_next FakeHead (Some c) s))
             in Inr (ret, \<lparr>store = s', num_free_blocks = num_free_blocks q - n\<rparr>))))"

definition remove :: "bref \<Rightarrow> free_queue \<Rightarrow> free_queue res" where
  "remove b q =
     (let s = store q in
      case (prev_free_block (s b), next_free_block (s b)) of
        (Some p, Some nx) \<Rightarrow>
          (let s1 = set_next p (Some nx) s;
               s2 = set_prev nx (Some p) s1;
               s3 = set_next b None (set_prev b None s2)
           in Inr \<lparr>store = s3, num_free_blocks = num_free_blocks q - 1\<rparr>)
      | _ \<Rightarrow> Inl RuntimeError)"

definition append_block :: "bref \<Rightarrow> free_queue \<Rightarrow> free_queue res" where
  "append_block b q =
     (let s = store q in
      case prev_free_block (s FakeTail) of
        None \<Rightarrow> Inl RuntimeError
      | Some l \<Rightarrow>
          (let s1 = set_next l (Some b) s;
               s2 = set_prev b (Some l) s1;
               s3 = set_next b (Some FakeTail) s2;
               s4 = set_prev FakeTail (Some b) s3
           in Inr \<lparr>store = s4, num_free_blocks = num_free_blocks q + 1\<rparr>))"

fun append_loop :: "bref list \<Rightarrow> bref \<Rightarrow> block_store \<Rightarrow> bref \<times> block_store" where
  "append_loop [] l s = (l, s)"
| "append_loop (b # bs) l s = append_loop bs b (set_next l (Some b) (set_prev b (Some l) s))"

definition append_n :: "bref list \<Rightarrow> free_queue \<Rightarrow> free_queue res" where
  "append_n bs q =
     (if bs = [] then Inr q
      else (case prev_free_block (store q FakeTail) of
              None \<Rightarrow> Inl AssertionError
            | Some l \<Rightarrow>
                (let (l', s1) = append_loop bs l (store q);
                     s2 = set_next l' (Some FakeTail) s1;
                     s3 = set_prev FakeTail (Some l') s2
                 in Inr \<lparr>store = s3, num_free_blocks = num_free_blocks q + int (length bs)\<rparr>)))"

text \<open>\<^verbatim>\<open>get_all_free_blocks\<close> walks the list until a block without successor; on a cyclic list the
  walk does not end, which is the value \<open>None\<close>.\<close>

partial_function (option) walk_blocks :: "block_store \<Rightarrow> bref \<Rightarrow> bref list option" where
  "walk_blocks s b =
     (case next_free_block (s b) of
        None \<Rightarrow> Some []
      | Some nx \<Rightarrow> Option.bind (walk_blocks s nx) (\<lambda>rest. Some (b # rest)))"

definition get_all_free_blocks :: "free_queue \<Rightarrow> bref list res option" where
  "get_all_free_blocks q =
     (case next_free_block (store q FakeHead) of
        None \<Rightarrow> Some (Inl RuntimeError)
      | Some first \<Rightarrow> map_option Inr (walk_blocks (store q) first))"

section \<open>The queue as a list\<close>

text \<open>Consecutive elements of a list of addresses point at each other.\<close>

fun linked :: "block_store \<Rightarrow> bref list \<Rightarrow> bool" where
  "linked s (a # b # r) \<longleftrightarrow>
     next_free_block (s a) = Some b \<and> prev_free_block (s b) = Some a \<and> linked s (b # r)"
| "linked s _ \<longleftrightarrow> True"

definition queue_repr :: "free_queue \<Rightarrow> bref list \<Rightarrow> bool" where
  "queue_repr q xs \<longleftrightarrow>
     linked (store q) (FakeHead # xs @ [FakeTail]) \<and>
     distinct xs \<and> FakeHead \<notin> set xs \<and> FakeTail \<notin> set xs \<and>
     num_free_blocks q = int (length xs) \<and>
     next_free_block (store q FakeTail) = None \<and>
     (\<forall>b. b \<notin> set xs \<and> b \<noteq> FakeHead \<and> b \<noteq> FakeTail \<longrightarrow>
        prev_free_block (store q b) = None \<and> next_free_block (store q b) = None)"

fun walk_n :: "nat \<Rightarrow> block_store \<Rightarrow> bref option \<Rightarrow> bref list" where
  "walk_n 0 s r = []"
| "walk_n (Suc k) s None = []"
| "walk_n (Suc k) s (Some b) = b # walk_n k s (next_free_block (s b))"

definition free_list :: "free_queue \<Rightarrow> bref list" where
  "free_list q = walk_n (nat (num_free_blocks q)) (store q) (next_free_block (store q FakeHead))"

definition queue_inv :: "free_queue \<Rightarrow> bool" where
  "queue_inv q \<longleftrightarrow> queue_repr q (free_list q)"


section \<open>Lemmas on links\<close>

lemma link_access [simp]:
  "prev_free_block (set_prev r v s x) = (if x = r then v else prev_free_block (s x))"
  "next_free_block (set_prev r v s x) = next_free_block (s x)"
  "prev_free_block (set_next r v s x) = prev_free_block (s x)"
  "next_free_block (set_next r v s x) = (if x = r then v else next_free_block (s x))"
  by (simp_all add: set_prev_def set_next_def)

text \<open>What the queue never writes: everything of a block but its two links.\<close>

definition meta :: "block_store \<Rightarrow> bref \<Rightarrow> kv_cache_block" where
  "meta s b = (s b)\<lparr>prev_free_block := None, next_free_block := None\<rparr>"

lemma meta_set_link [simp]: "meta (set_prev r v s) = meta s" "meta (set_next r v s) = meta s"
  by (auto simp: meta_def set_prev_def set_next_def fun_eq_iff)

lemma meta_fields:
  assumes "meta s' = meta s"
  shows "block_id (s' b) = block_id (s b)" "ref_cnt (s' b) = ref_cnt (s b)"
    "block_hash (s' b) = block_hash (s b)" "is_null (s' b) = is_null (s b)"
proof -
  from assms have "meta s' b = meta s b" by simp
  then show "block_id (s' b) = block_id (s b)" "ref_cnt (s' b) = ref_cnt (s b)"
    "block_hash (s' b) = block_hash (s b)" "is_null (s' b) = is_null (s b)"
    by (cases "s b"; cases "s' b"; simp add: meta_def)+
qed

lemma linked_append: "linked s (xs @ a # ys) \<longleftrightarrow> linked s (xs @ [a]) \<and> linked s (a # ys)"
proof (induction xs)
  case Nil
  then show ?case by simp
next
  case (Cons x xs)
  then show ?case by (cases xs) auto
qed

lemma linked_set_next: "a \<notin> set (butlast xs) \<Longrightarrow> linked (set_next a v s) xs = linked s xs"
  by (induction s xs rule: linked.induct) auto

lemma linked_set_prev: "a \<notin> set (tl xs) \<Longrightarrow> linked (set_prev a v s) xs = linked s xs"
proof (induction s xs rule: linked.induct)
  case (1 s a b r)
  then show ?case by (cases r) auto
qed auto

lemma linked_set_notin:
  "a \<notin> set xs \<Longrightarrow> linked (set_next a v s) xs = linked s xs"
  "a \<notin> set xs \<Longrightarrow> linked (set_prev a v s) xs = linked s xs"
  by (auto intro!: linked_set_next linked_set_prev dest: in_set_butlastD list.set_sel(2))
     (metis linked_set_prev list.set_sel(2) list.sel(2))+

lemma linked_next_snoc: "a \<notin> set xs \<Longrightarrow> linked (set_next a v s) (xs @ [l]) = linked s (xs @ [l])"
  by (simp add: linked_set_next)

lemma linked_prev_Cons: "a \<notin> set xs \<Longrightarrow> linked (set_prev a v s) (x # xs) = linked s (x # xs)"
  by (simp add: linked_set_prev)

lemmas linked_frame = linked_set_notin linked_next_snoc linked_prev_Cons

lemma linked_splice:
  assumes "linked s (as @ p # b # n # bs)" "distinct (as @ p # b # n # bs)"
  shows "linked (set_next b None (set_prev b None (set_prev n (Some p) (set_next p (Some n) s))))
           (as @ p # n # bs)" (is "linked ?s _")
proof -
  from assms(1) have l: "linked s (as @ [p])" "linked s (n # bs)"
    using linked_append [of s as p "b # n # bs"] by simp_all
  have "linked ?s (as @ [p])" using l(1) assms(2) by (auto simp: linked_frame)
  moreover have "linked ?s (n # bs)" using l(2) assms(2) by (auto simp: linked_frame)
  ultimately show ?thesis
    using assms(2) by (subst linked_append) auto
qed

lemma linked_snoc_end:
  assumes "linked s (xs @ [l])" "distinct (xs @ [l])" "t \<notin> set (xs @ [l])"
  shows "linked (set_prev t (Some l) (set_next l (Some t) s)) (xs @ [l, t])" (is "linked ?s _")
proof -
  have "linked ?s (xs @ [l])" using assms by (auto simp: linked_frame)
  then show ?thesis using linked_append [of ?s xs l "[t]"] by simp
qed

lemma walk_n_linked:
  "linked s (a # xs @ [t]) \<Longrightarrow> walk_n (length xs) s (next_free_block (s a)) = xs"
  by (induction xs arbitrary: a) auto

lemma walk_blocks_linked:
  "linked s (xs @ [t]) \<Longrightarrow> next_free_block (s t) = None \<Longrightarrow> walk_blocks s (hd (xs @ [t])) = Some xs"
proof (induction xs)
  case Nil
  then show ?case by (simp add: walk_blocks.simps)
next
  case (Cons x xs)
  then show ?case by (cases xs) (subst walk_blocks.simps, auto)+
qed

section \<open>Every operation implements its list counterpart\<close>

lemma queue_repr_free_list: "queue_repr q xs \<Longrightarrow> free_list q = xs"
  by (auto simp: queue_repr_def free_list_def walk_n_linked)

lemma queue_repr_inv: "queue_repr q xs \<Longrightarrow> queue_inv q"
  by (simp add: queue_inv_def queue_repr_free_list)

lemma queue_repr_distinct: "queue_repr q xs \<Longrightarrow> distinct (FakeHead # xs @ [FakeTail])"
  by (auto simp: queue_repr_def)

lemma popleft_repr:
  assumes "queue_repr q (x # xs)"
  shows "\<exists>q'. popleft q = Inr (x, q') \<and> queue_repr q' xs \<and> meta (store q') = meta (store q)"
proof -
  let ?s = "store q"
  obtain n ys where n: "xs @ [FakeTail] = n # ys" by (cases "xs @ [FakeTail]") auto
  have l: "linked ?s ([] @ FakeHead # x # n # ys)" and d: "distinct ([] @ FakeHead # x # n # ys)"
    using assms queue_repr_distinct [OF assms] unfolding queue_repr_def n [symmetric] by auto
  let ?s' = "set_next x None (set_prev x None (set_prev n (Some FakeHead) (set_next FakeHead (Some n) ?s)))"
  have sp: "linked ?s' (FakeHead # xs @ [FakeTail])" using linked_splice [OF l d] n by simp
  have nm: "n = FakeTail \<or> n \<in> set xs" using n by (cases xs) auto
  have "x \<noteq> FakeTail" using assms by (auto simp: queue_repr_def)
  moreover have "next_free_block (?s FakeHead) = Some x" "next_free_block (?s x) = Some n"
    using l by auto
  ultimately have "popleft q = Inr (x, \<lparr>store = ?s', num_free_blocks = num_free_blocks q - 1\<rparr>)"
    by (simp add: popleft_def)
  moreover have "queue_repr \<lparr>store = ?s', num_free_blocks = num_free_blocks q - 1\<rparr> xs"
    using assms sp nm by (auto simp: queue_repr_def)
  ultimately show ?thesis by simp
qed

lemma popleft_empty: "queue_repr q [] \<Longrightarrow> popleft q = Inl ValueError"
  by (auto simp: popleft_def queue_repr_def)

lemma remove_repr:
  assumes "queue_repr q (ys @ b # zs)"
  shows "\<exists>q'. remove b q = Inr q' \<and> queue_repr q' (ys @ zs) \<and> meta (store q') = meta (store q)"
proof -
  let ?s = "store q"
  obtain n ws where n: "zs @ [FakeTail] = n # ws" by (cases "zs @ [FakeTail]") auto
  obtain as p where p: "FakeHead # ys = as @ [p]" by (cases "FakeHead # ys" rule: rev_cases) auto
  have e: "FakeHead # (ys @ b # zs) @ [FakeTail] = as @ p # b # n # ws"
    using n p by (metis append.assoc append_Cons append_Nil)
  have e': "FakeHead # (ys @ zs) @ [FakeTail] = as @ p # n # ws"
    using n p by (metis append.assoc append_Cons append_Nil)
  have l: "linked ?s (as @ p # b # n # ws)" and d: "distinct (as @ p # b # n # ws)"
    using assms queue_repr_distinct [OF assms] unfolding queue_repr_def e [symmetric] by blast+
  have pn: "prev_free_block (?s b) = Some p" "next_free_block (?s b) = Some n"
    using l linked_append [of ?s as p "b # n # ws"] by simp_all
  have pm: "p = FakeHead \<or> p \<in> set ys" using p by (cases as rule: rev_cases; cases ys rule: rev_cases) auto
  have nm: "n = FakeTail \<or> n \<in> set zs" using n by (cases zs) auto
  show ?thesis
    using linked_splice [OF l d] pn assms pm nm d
    by (auto simp: remove_def Let_def queue_repr_def e' simp flip: append_assoc)
qed

lemma remove_absent:
  "queue_repr q xs \<Longrightarrow> b \<notin> set xs \<Longrightarrow> b \<noteq> FakeHead \<Longrightarrow> b \<noteq> FakeTail \<Longrightarrow> remove b q = Inl RuntimeError"
  by (simp add: queue_repr_def remove_def)

subsection \<open>Popping several blocks\<close>

fun clear_links :: "bref list \<Rightarrow> block_store \<Rightarrow> block_store" where
  "clear_links [] s = s"
| "clear_links (b # bs) s = clear_links bs (set_next b None (set_prev b None s))"

lemma clear_links_access [simp]:
  "prev_free_block (clear_links bs s x) = (if x \<in> set bs then None else prev_free_block (s x))"
  "next_free_block (clear_links bs s x) = (if x \<in> set bs then None else next_free_block (s x))"
  "meta (clear_links bs s) = meta s"
  by (induction bs arbitrary: s) auto

lemma linked_clear_links: "set bs \<inter> set xs = {} \<Longrightarrow> linked (clear_links bs s) xs = linked s xs"
  by (induction bs arbitrary: s) (auto simp: linked_frame)

lemma popleft_loop_linked:
  "linked s (ys @ [c]) \<Longrightarrow> distinct (ys @ [c]) \<Longrightarrow>
   popleft_loop (length ys) (Some (hd (ys @ [c]))) s = Inr (ys, Some c, clear_links ys s)"
proof (induction ys arbitrary: s)
  case Nil
  then show ?case by simp
next
  case (Cons y ys)
  let ?s = "set_next y None (set_prev y None s)"
  have "linked s (ys @ [c])" using Cons.prems(1) by (cases ys) auto
  then have l: "linked ?s (ys @ [c])" using Cons.prems(2) by (auto simp: linked_frame)
  have "next_free_block (s y) = Some (hd (ys @ [c]))" using Cons.prems(1) by (cases ys) auto
  then show ?case using Cons.IH [OF l] Cons.prems(2) by simp
qed

lemma popleft_n_repr:
  assumes "queue_repr q (ys @ zs)"
  shows "\<exists>q'. popleft_n (int (length ys)) q = Inr (ys, q') \<and> queue_repr q' zs
            \<and> meta (store q') = meta (store q)"
proof (cases "ys = []")
  case True
  with assms show ?thesis by (auto simp: popleft_n_def)
next
  case False
  let ?s = "store q"
  obtain c ws where c: "zs @ [FakeTail] = c # ws" by (cases "zs @ [FakeTail]") auto
  have e: "FakeHead # (ys @ zs) @ [FakeTail] = (FakeHead # ys) @ c # ws" using c by simp
  have l: "linked ?s ((FakeHead # ys) @ c # ws)" and d: "distinct ((FakeHead # ys) @ c # ws)"
    using assms queue_repr_distinct [OF assms] unfolding queue_repr_def e [symmetric] by auto
  have ls: "linked ?s (FakeHead # ys @ [c])" "linked ?s (c # ws)"
    using l linked_append [of ?s "FakeHead # ys" c ws] by simp_all
  have hd: "next_free_block (?s FakeHead) = Some (hd (ys @ [c]))" and l1: "linked ?s (ys @ [c])"
    using ls(1) by (cases ys; simp)+
  let ?s' = "set_prev c (Some FakeHead) (set_next FakeHead (Some c) (clear_links ys ?s))"
  have loop: "popleft_loop (length ys) (Some (hd (ys @ [c]))) ?s = Inr (ys, Some c, clear_links ys ?s)"
    using popleft_loop_linked [OF l1] d by simp
  have nm: "c = FakeTail \<or> c \<in> set zs" using c by (cases zs) auto
  have "linked ?s' (c # ws)"
    using ls(2) d by (auto simp: linked_frame linked_clear_links)
  then have lk: "linked ?s' (FakeHead # zs @ [FakeTail])"
    using d unfolding c by auto
  have "popleft_n (int (length ys)) q = Inr (ys, \<lparr>store = ?s', num_free_blocks = num_free_blocks q - int (length ys)\<rparr>)"
    using False loop hd assms by (simp add: popleft_n_def queue_repr_def)
  moreover have "queue_repr \<lparr>store = ?s', num_free_blocks = num_free_blocks q - int (length ys)\<rparr> zs"
    using assms lk nm d by (auto simp: queue_repr_def)
  ultimately show ?thesis by simp
qed

lemma popleft_n_too_many:
  "queue_repr q xs \<Longrightarrow> int (length xs) < n \<Longrightarrow> popleft_n n q = Inl AssertionError"
  by (auto simp: popleft_n_def queue_repr_def)

subsection \<open>Appending blocks\<close>

lemma append_loop_linked:
  assumes "linked s (xs @ [l])" "distinct (xs @ l # bs)"
  shows "\<exists>s'. append_loop bs l s = (last (l # bs), s') \<and> linked s' (xs @ l # bs)
     \<and> (\<forall>x. x \<notin> set (l # bs) \<longrightarrow> prev_free_block (s' x) = prev_free_block (s x)
                                \<and> next_free_block (s' x) = next_free_block (s x))
     \<and> meta s' = meta s"
  using assms
proof (induction bs arbitrary: xs l s)
  case Nil
  then show ?case by simp
next
  case (Cons b bs)
  let ?s = "set_next l (Some b) (set_prev b (Some l) s)"
  have "linked (set_prev b (Some l) (set_next l (Some b) s)) (xs @ [l, b])"
    using Cons.prems by (intro linked_snoc_end) auto
  moreover have "set_prev b (Some l) (set_next l (Some b) s) = ?s"
    using Cons.prems(2) by (auto simp: set_prev_def set_next_def)
  ultimately have "linked ?s ((xs @ [l]) @ [b])" by simp
  moreover have "distinct ((xs @ [l]) @ b # bs)" using Cons.prems(2) by simp
  ultimately obtain s' where s': "append_loop bs b ?s = (last (b # bs), s')"
    "linked s' ((xs @ [l]) @ b # bs)" "meta s' = meta ?s"
    "\<forall>x. x \<notin> set (b # bs) \<longrightarrow> prev_free_block (s' x) = prev_free_block (?s x)
                                \<and> next_free_block (s' x) = next_free_block (?s x)"
    using Cons.IH [of ?s "xs @ [l]" b] by blast
  then show ?case by auto
qed

lemma append_n_repr:
  assumes "queue_repr q xs" "distinct bs" "set bs \<inter> set xs = {}" "FakeHead \<notin> set bs" "FakeTail \<notin> set bs"
  shows "\<exists>q'. append_n bs q = Inr q' \<and> queue_repr q' (xs @ bs) \<and> meta (store q') = meta (store q)"
proof (cases "bs = []")
  case True
  with assms show ?thesis by (simp add: append_n_def)
next
  case False
  let ?s = "store q"
  obtain as l where l: "FakeHead # xs = as @ [l]" by (cases "FakeHead # xs" rule: rev_cases) auto
  have lm: "l = FakeHead \<or> l \<in> set xs" using l by (metis in_set_conv_decomp set_ConsD)
  have e: "FakeHead # xs @ [FakeTail] = as @ [l, FakeTail]" using l by simp
  have "linked ?s (as @ l # [FakeTail])" using assms(1) e by (simp add: queue_repr_def)
  then have la: "linked ?s (as @ [l])" and pt: "prev_free_block (?s FakeTail) = Some l"
    using linked_append [of ?s as l "[FakeTail]"] by simp_all
  have "distinct (FakeHead # xs @ bs @ [FakeTail])"
    using assms queue_repr_distinct [OF assms(1)] by auto
  moreover have ee: "FakeHead # xs @ bs @ [FakeTail] = as @ l # bs @ [FakeTail]" using l by simp
  ultimately have d: "distinct (as @ l # bs)" "FakeTail \<notin> set (as @ l # bs)" by auto
  obtain s1 where s1: "append_loop bs l ?s = (last (l # bs), s1)" "linked s1 (as @ l # bs)"
    "meta s1 = meta ?s"
    "\<forall>x. x \<notin> set (l # bs) \<longrightarrow> prev_free_block (s1 x) = prev_free_block (?s x)
                                \<and> next_free_block (s1 x) = next_free_block (?s x)"
    using append_loop_linked [OF la d(1)] by blast
  let ?l = "last (l # bs)"
  let ?s' = "set_prev FakeTail (Some ?l) (set_next ?l (Some FakeTail) s1)"
  have bl: "as @ l # bs = butlast (as @ l # bs) @ [?l]" by (metis append_is_Nil_conv append_butlast_last_id last_append list.distinct(1))
  have "linked ?s' (butlast (as @ l # bs) @ [?l, FakeTail])"
    using s1(2) d bl by (intro linked_snoc_end) metis+
  then have lk: "linked ?s' (FakeHead # (xs @ bs) @ [FakeTail])"
    using bl ee by (metis append.assoc append_Cons append_Nil)
  have "?l \<in> set bs" using False by simp
  then have rep: "queue_repr \<lparr>store = ?s', num_free_blocks = num_free_blocks q + int (length bs)\<rparr> (xs @ bs)"
    using assms lk s1(4) lm d(2) by (auto simp: queue_repr_def)
  have "append_n bs q = Inr \<lparr>store = ?s', num_free_blocks = num_free_blocks q + int (length bs)\<rparr>"
    using False pt s1(1) by (simp add: append_n_def)
  with rep s1(3) show ?thesis by simp
qed

lemma append_block_repr:
  assumes "queue_repr q xs" "b \<notin> set xs" "b \<noteq> FakeHead" "b \<noteq> FakeTail"
  shows "\<exists>q'. append_block b q = Inr q' \<and> queue_repr q' (xs @ [b]) \<and> meta (store q') = meta (store q)"
proof -
  obtain as l where l: "FakeHead # xs = as @ [l]" by (cases "FakeHead # xs" rule: rev_cases) auto
  have e: "FakeHead # xs @ [FakeTail] = as @ [l, FakeTail]" using l by simp
  have "linked (store q) (as @ l # [FakeTail])" using assms(1) e by (simp add: queue_repr_def)
  then have pt: "prev_free_block (store q FakeTail) = Some l"
    using linked_append [of "store q" as l "[FakeTail]"] by simp
  have "l \<noteq> b" using l assms by (metis in_set_conv_decomp set_ConsD)
  then have "append_block b q = append_n [b] q"
    using pt by (auto simp: append_block_def append_n_def Let_def set_prev_def set_next_def fun_eq_iff)
  then show ?thesis using append_n_repr [of q xs "[b]"] assms by auto
qed

lemma get_all_free_blocks_repr: "queue_repr q xs \<Longrightarrow> get_all_free_blocks q = Some (Inr xs)"
proof -
  assume r: "queue_repr q xs"
  then have l: "linked (store q) (FakeHead # xs @ [FakeTail])" "next_free_block (store q FakeTail) = None"
    by (auto simp: queue_repr_def)
  then have "next_free_block (store q FakeHead) = Some (hd (xs @ [FakeTail]))" "linked (store q) (xs @ [FakeTail])"
    by (cases xs; simp)+
  then show ?thesis using l(2) walk_blocks_linked by (auto simp: get_all_free_blocks_def)
qed

section \<open>The contract of the queue\<close>

text \<open>
  What a client of the queue relies on: the queue holds a list of distinct blocks; blocks leave at
  the front or from anywhere, and come back at the end; the counter is the length; nothing but the
  order is written. The client lemmas below are about whole loops over blocks.
\<close>

locale block_queue =
  fixes inv :: "'q \<Rightarrow> bool"
    and blocks :: "'q \<Rightarrow> bref list"
    and size_of :: "'q \<Rightarrow> int"
    and info :: "'q \<Rightarrow> bref \<Rightarrow> kv_cache_block"
    and pop_n :: "int \<Rightarrow> 'q \<Rightarrow> (bref list \<times> 'q) res"
    and del :: "bref \<Rightarrow> 'q \<Rightarrow> 'q res"
    and add_n :: "bref list \<Rightarrow> 'q \<Rightarrow> 'q res"
    and real :: "bref \<Rightarrow> bool"
  assumes size_law: "inv q \<Longrightarrow> size_of q = int (length (blocks q))"
    and distinct_law: "inv q \<Longrightarrow> distinct (blocks q)"
    and real_law: "inv q \<Longrightarrow> b \<in> set (blocks q) \<Longrightarrow> real b"
    and pop_law: "inv q \<Longrightarrow> n \<le> length (blocks q) \<Longrightarrow>
      \<exists>q'. pop_n (int n) q = Inr (take n (blocks q), q') \<and> inv q'
         \<and> blocks q' = drop n (blocks q) \<and> info q' = info q"
    and del_law: "inv q \<Longrightarrow> b \<in> set (blocks q) \<Longrightarrow>
      \<exists>q'. del b q = Inr q' \<and> inv q' \<and> blocks q' = remove1 b (blocks q) \<and> info q' = info q"
    and del_absent_law: "inv q \<Longrightarrow> real b \<Longrightarrow> b \<notin> set (blocks q) \<Longrightarrow> del b q = Inl RuntimeError"
    and add_law: "inv q \<Longrightarrow> distinct bs \<Longrightarrow> set bs \<inter> set (blocks q) = {} \<Longrightarrow> \<forall>b\<in>set bs. real b \<Longrightarrow>
      \<exists>q'. add_n bs q = Inr q' \<and> inv q' \<and> blocks q' = blocks q @ bs \<and> info q' = info q"
begin

text \<open>Removing several blocks one by one keeps the order of the others.\<close>

lemma del_all:
  "inv q \<Longrightarrow> distinct bs \<Longrightarrow> set bs \<subseteq> set (blocks q) \<Longrightarrow>
   \<exists>q'. foldE del bs q = Inr q' \<and> inv q' \<and> blocks q' = filter (\<lambda>b. b \<notin> set bs) (blocks q)
      \<and> info q' = info q"
proof (induction bs arbitrary: q)
  case Nil
  then show ?case by simp
next
  case (Cons b bs)
  obtain q1 where q1: "del b q = Inr q1" "inv q1" "blocks q1 = remove1 b (blocks q)" "info q1 = info q"
    using del_law [of q b] Cons.prems by auto
  have d: "distinct (blocks q)" using distinct_law Cons.prems(1) .
  have "set bs \<subseteq> set (blocks q1)" using Cons.prems q1(3) d by auto
  then obtain q' where q': "foldE del bs q1 = Inr q'" "inv q'"
    "blocks q' = filter (\<lambda>b. b \<notin> set bs) (blocks q1)" "info q' = info q1"
    using Cons.IH [OF q1(2)] Cons.prems(2) by auto
  have "filter (\<lambda>c. c \<notin> set bs) (remove1 b (blocks q)) = filter (\<lambda>c. c \<notin> set (b # bs)) (blocks q)"
    using d by (simp add: distinct_remove1_removeAll removeAll_filter_not_eq) (rule filter_cong; auto)
  with q' q1 show ?case by simp
qed

text \<open>Blocks that are taken and put back end up at the end of the queue, in the given order: the
  least recently returned block is the next one handed out.\<close>

lemma pop_then_add:
  assumes "inv q" "n \<le> length (blocks q)"
  shows "\<exists>taken q1 q2. pop_n (int n) q = Inr (taken, q1) \<and> add_n (rev taken) q1 = Inr q2 \<and> inv q2
     \<and> blocks q2 = drop n (blocks q) @ rev (take n (blocks q)) \<and> size_of q2 = size_of q"
proof -
  obtain q1 where q1: "pop_n (int n) q = Inr (take n (blocks q), q1)" "inv q1"
    "blocks q1 = drop n (blocks q)" using pop_law [OF assms] by auto
  have d: "distinct (blocks q)" using distinct_law [OF assms(1)] .
  have disj: "set (rev (take n (blocks q))) \<inter> set (blocks q1) = {}"
    using d q1(3) set_take_disj_set_drop_if_distinct by auto
  have "\<forall>b\<in>set (rev (take n (blocks q))). real b"
    using real_law [OF assms(1)] by (auto dest: in_set_takeD)
  then obtain q2 where q2: "add_n (rev (take n (blocks q))) q1 = Inr q2" "inv q2"
    "blocks q2 = blocks q1 @ rev (take n (blocks q))"
    using add_law [OF q1(2) _ disj] d by auto
  have "size_of q2 = size_of q"
    using size_law [OF q2(2)] size_law [OF assms(1)] q2(3) q1(3) by simp
  then show ?thesis using q1 q2 by auto
qed

end

abbreviation real_block :: "bref \<Rightarrow> bool" where
  "real_block b \<equiv> b \<noteq> FakeHead \<and> b \<noteq> FakeTail"

interpretation fq: block_queue queue_inv free_list num_free_blocks "\<lambda>q. meta (store q)"
  popleft_n remove append_n real_block
proof (unfold_locales, goal_cases)
  case (1 q)
  then show ?case by (simp add: queue_inv_def queue_repr_def)
next
  case (2 q)
  then show ?case by (simp add: queue_inv_def queue_repr_def)
next
  case (3 q b)
  then show ?case by (auto simp: queue_inv_def queue_repr_def)
next
  case (4 q n)
  let ?ys = "take n (free_list q)" and ?zs = "drop n (free_list q)"
  have r: "queue_repr q (?ys @ ?zs)" and n: "int (length ?ys) = int n"
    using 4 by (simp_all add: queue_inv_def)
  obtain q' where "popleft_n (int n) q = Inr (?ys, q')" "queue_repr q' ?zs" "meta (store q') = meta (store q)"
    using popleft_n_repr [OF r] unfolding n by blast
  then show ?case using queue_repr_inv queue_repr_free_list by blast
next
  case (5 q b)
  then obtain ys zs where e: "free_list q = ys @ b # zs" by (meson split_list)
  with 5 have r: "queue_repr q (ys @ b # zs)" by (simp add: queue_inv_def)
  then have "distinct (ys @ b # zs)" by (simp add: queue_repr_def)
  then have rm: "remove1 b (free_list q) = ys @ zs" using e by (simp add: remove1_append)
  obtain q' where "remove b q = Inr q'" "queue_repr q' (ys @ zs)" "meta (store q') = meta (store q)"
    using remove_repr [OF r] by blast
  then show ?case unfolding rm using queue_repr_inv queue_repr_free_list by blast
next
  case (6 q b)
  then show ?case using remove_absent by (auto simp: queue_inv_def)
next
  case (7 q bs)
  then obtain q' where "append_n bs q = Inr q'" "queue_repr q' (free_list q @ bs)"
    "meta (store q') = meta (store q)"
    using append_n_repr [of q "free_list q" bs] unfolding queue_inv_def by blast
  then show ?case using queue_repr_inv queue_repr_free_list by blast
qed

section \<open>A fresh queue\<close>

text \<open>The store before the queue is built: every block is new.\<close>

definition fresh_store :: block_store where
  "fresh_store r = (case r of Blk i \<Rightarrow> new_block (int i) | _ \<Rightarrow> new_block (-1))"

lemma init_links_access [simp]:
  "prev_free_block (init_links n s i r) =
     (if r = Blk i \<and> 0 < i then Some (Blk (i - 1)) else prev_free_block (s r))"
  "next_free_block (init_links n s i r) =
     (if r = Blk i \<and> i + 1 < n then Some (Blk (i + 1)) else next_free_block (s r))"
  "meta (init_links n s i) = meta s"
  by (simp_all add: init_links_def Let_def)

lemma init_links_fold:
  assumes "k \<le> n"
  shows "prev_free_block (foldl (init_links n) fresh_store [0..<k] r) =
           (case r of Blk i \<Rightarrow> if 0 < i \<and> i < k then Some (Blk (i - 1)) else None | _ \<Rightarrow> None)"
    and "next_free_block (foldl (init_links n) fresh_store [0..<k] r) =
           (case r of Blk i \<Rightarrow> if i + 1 < n \<and> i < k then Some (Blk (i + 1)) else None | _ \<Rightarrow> None)"
    and "meta (foldl (init_links n) fresh_store [0..<k]) = meta fresh_store"
  using assms
proof (induction k)
  case 0
  { case 1 show ?case by (simp add: fresh_store_def new_block_def split: bref.splits) }
  { case 2 show ?case by (simp add: fresh_store_def new_block_def split: bref.splits) }
  { case 3 show ?case by simp }
next
  case (Suc k)
  { case 1 with Suc show ?case by (auto split: bref.splits) }
  { case 2 with Suc show ?case by (auto split: bref.splits) }
  { case 3 with Suc show ?case by simp }
qed

lemma linked_chain:
  assumes "\<And>i. i < m \<Longrightarrow> next_free_block (s (Blk i)) = Some (Blk (Suc i))"
    and "\<And>i. i < m \<Longrightarrow> prev_free_block (s (Blk (Suc i))) = Some (Blk i)"
  shows "linked s (map Blk [0..<m] @ [Blk m])"
  using assms
proof (induction m)
  case 0
  then show ?case by simp
next
  case (Suc m)
  then have "linked s (map Blk [0..<m] @ [Blk m])" by simp
  then show ?case
    using linked_append [of s "map Blk [0..<m]" "Blk m" "[Blk (Suc m)]"] Suc.prems [of m] by simp
qed

lemma meta_upd_same: "meta s r = meta s' r \<Longrightarrow> meta (s(r := s' r)) = meta s"
  by (auto simp: meta_def fun_eq_iff)

lemma init_queue_repr:
  assumes "0 < n"
  shows "queue_repr (init_queue n fresh_store) (map Blk [0..<n])"
    and "meta (store (init_queue n fresh_store)) = meta fresh_store"
proof -
  let ?s1 = "foldl (init_links n) fresh_store [0..<n]"
  let ?s2 = "?s1(FakeHead := new_block (-1), FakeTail := new_block (-1))"
  let ?q = "init_queue n fresh_store"
  note f = init_links_fold [of n n, OF order.refl]
  obtain m where m: "n = m + 1" using assms by (metis Suc_eq_plus1 gr0_implies_Suc)
  have nx: "next_free_block (store ?q r) =
      (case r of Blk i \<Rightarrow> if i + 1 < n then Some (Blk (i + 1)) else if i + 1 = n then Some FakeTail else None
       | FakeHead \<Rightarrow> Some (Blk 0) | FakeTail \<Rightarrow> None)" for r
    using assms by (auto simp: init_queue_def Let_def f new_block_def split: bref.splits)
  have pv: "prev_free_block (store ?q r) =
      (case r of Blk i \<Rightarrow> if i = 0 then Some FakeHead else if i < n then Some (Blk (i - 1)) else None
       | FakeHead \<Rightarrow> None | FakeTail \<Rightarrow> Some (Blk (n - 1)))" for r
    using assms by (auto simp: init_queue_def Let_def f new_block_def split: bref.splits)
  have c: "linked (store ?q) (map Blk [0..<m] @ [Blk m])"
    by (rule linked_chain) (simp_all only: nx pv, simp_all add: m)
  have "next_free_block (store ?q (Blk m)) = Some FakeTail" "prev_free_block (store ?q FakeTail) = Some (Blk m)"
    unfolding nx pv by (simp_all add: m)
  then have "linked (store ?q) (map Blk [0..<m] @ Blk m # [FakeTail])"
    using c linked_append [of "store ?q" "map Blk [0..<m]" "Blk m" "[FakeTail]"] by simp
  moreover obtain rest where r: "map Blk [0..<m] @ Blk m # [FakeTail] = Blk 0 # rest"
    by (cases m) (simp_all add: upt_conv_Cons del: upt_Suc)
  moreover have "next_free_block (store ?q FakeHead) = Some (Blk 0)"
    "prev_free_block (store ?q (Blk 0)) = Some FakeHead"
    unfolding nx pv by simp_all
  ultimately have "linked (store ?q) (FakeHead # map Blk [0..<m] @ Blk m # [FakeTail])"
    unfolding r by simp
  then have "linked (store ?q) (FakeHead # map Blk [0..<n] @ [FakeTail])" by (simp add: m)
  moreover have "num_free_blocks ?q = int n" by (simp add: init_queue_def Let_def)
  ultimately show "queue_repr ?q (map Blk [0..<n])"
    using nx pv assms by (auto simp: queue_repr_def distinct_map inj_on_def split: bref.splits)
  have "meta ?s2 = meta fresh_store"
    using f(3) by (auto simp: meta_def fun_eq_iff fresh_store_def new_block_def)
  then show "meta (store ?q) = meta fresh_store" using assms by (simp add: init_queue_def Let_def)
qed

section \<open>The queue implements a list\<close>

text \<open>The abstract queue: a list of blocks.\<close>

definition list_popleft :: "bref list \<Rightarrow> (bref \<times> bref list) res" where
  "list_popleft xs = (case xs of [] \<Rightarrow> Inl ValueError | x # ys \<Rightarrow> Inr (x, ys))"

definition list_popleft_n :: "nat \<Rightarrow> bref list \<Rightarrow> (bref list \<times> bref list) res" where
  "list_popleft_n n xs = (if n > length xs then Inl AssertionError else Inr (take n xs, drop n xs))"

definition list_remove :: "bref \<Rightarrow> bref list \<Rightarrow> bref list res" where
  "list_remove b xs = (if b \<in> set xs then Inr (remove1 b xs) else Inl RuntimeError)"

lemma queue_ops_refine:
  assumes "queue_repr q xs" "real_block b"
  shows "rel_res (rel_prod (=) (\<lambda>q' ys. queue_repr q' ys \<and> meta (store q') = meta (store q)))
           (popleft q) (list_popleft xs)"
    and "rel_res (rel_prod (=) (\<lambda>q' ys. queue_repr q' ys \<and> meta (store q') = meta (store q)))
           (popleft_n (int n) q) (list_popleft_n n xs)"
    and "rel_res (\<lambda>q' ys. queue_repr q' ys \<and> meta (store q') = meta (store q)) (remove b q) (list_remove b xs)"
    and "b \<notin> set xs \<Longrightarrow>
         rel_res (\<lambda>q' ys. queue_repr q' ys \<and> meta (store q') = meta (store q)) (append_block b q) (Inr (xs @ [b]))"
    and "distinct bs \<Longrightarrow> set bs \<inter> set xs = {} \<Longrightarrow> FakeHead \<notin> set bs \<Longrightarrow> FakeTail \<notin> set bs \<Longrightarrow>
         rel_res (\<lambda>q' ys. queue_repr q' ys \<and> meta (store q') = meta (store q)) (append_n bs q) (Inr (xs @ bs))"
    and "get_all_free_blocks q = Some (Inr xs)"
proof -
  show "rel_res (rel_prod (=) (\<lambda>q' ys. queue_repr q' ys \<and> meta (store q') = meta (store q))) (popleft q) (list_popleft xs)"
    using assms(1) popleft_empty popleft_repr by (cases xs) (fastforce simp: list_popleft_def)+
  show "rel_res (rel_prod (=) (\<lambda>q' ys. queue_repr q' ys \<and> meta (store q') = meta (store q)))
           (popleft_n (int n) q) (list_popleft_n n xs)"
  proof (cases "n > length xs")
    case True
    then show ?thesis using popleft_n_too_many [OF assms(1), of "int n"] by (simp add: list_popleft_n_def)
  next
    case False
    then have "int (length (take n xs)) = int n" "queue_repr q (take n xs @ drop n xs)" using assms(1) by simp_all
    then obtain q' where "popleft_n (int n) q = Inr (take n xs, q')" "queue_repr q' (drop n xs)" "meta (store q') = meta (store q)"
      using popleft_n_repr [of q "take n xs" "drop n xs"] by metis
    then show ?thesis using False by (simp add: list_popleft_n_def)
  qed
  show "rel_res (\<lambda>q' ys. queue_repr q' ys \<and> meta (store q') = meta (store q)) (remove b q) (list_remove b xs)"
  proof (cases "b \<in> set xs")
    case True
    then obtain ys zs where xs: "xs = ys @ b # zs" by (meson split_list)
    then have "remove1 b xs = ys @ zs" using assms(1) by (simp add: queue_repr_def remove1_append)
    then show ?thesis using True remove_repr [of q ys b zs] assms(1) xs by (auto simp: list_remove_def)
  next
    case False
    then show ?thesis using remove_absent [OF assms(1)] assms(2) by (simp add: list_remove_def)
  qed
  show "rel_res (\<lambda>q' ys. queue_repr q' ys \<and> meta (store q') = meta (store q)) (append_block b q) (Inr (xs @ [b]))"
    if "b \<notin> set xs" using append_block_repr [OF assms(1) that] assms(2) by auto
  show "rel_res (\<lambda>q' ys. queue_repr q' ys \<and> meta (store q') = meta (store q)) (append_n bs q) (Inr (xs @ bs))"
    if "distinct bs" "set bs \<inter> set xs = {}" "FakeHead \<notin> set bs" "FakeTail \<notin> set bs"
    using append_n_repr [OF assms(1), of bs] that by (auto simp: Int_commute)
  show "get_all_free_blocks q = Some (Inr xs)" using get_all_free_blocks_repr [OF assms(1)] .
qed

text \<open>C21 (free_queue_refines_list): on a well-formed queue that holds the list \<open>xs\<close>, every operation of
  the doubly linked queue has the result of the list operation, errors included, leaves a well-formed
  queue that holds the resulting list, and changes no reference count, hash or flag of any block.\<close>

theorem free_queue_refines_list:
  assumes "queue_repr q xs" "real_block b"
  defines "R \<equiv> \<lambda>q' ys. queue_repr q' ys \<and> meta (store q') = meta (store q)"
  shows "rel_res (rel_prod (=) R) (popleft q) (list_popleft xs)
    \<and> rel_res (rel_prod (=) R) (popleft_n (int n) q) (list_popleft_n n xs)
    \<and> rel_res R (remove b q) (list_remove b xs)
    \<and> (b \<notin> set xs \<longrightarrow> rel_res R (append_block b q) (Inr (xs @ [b])))
    \<and> (distinct bs \<and> set bs \<inter> set xs = {} \<and> FakeHead \<notin> set bs \<and> FakeTail \<notin> set bs \<longrightarrow>
         rel_res R (append_n bs q) (Inr (xs @ bs)))
    \<and> get_all_free_blocks q = Some (Inr xs)"
  using queue_ops_refine [OF assms(1,2)] unfolding R_def by blast

theorem free_queue_refines_list_witness:
  "rel_res (rel_prod (=) queue_repr)
     (popleft_n 2 (init_queue 3 fresh_store)) (Inr ([Blk 0, Blk 1], [Blk 2]))
   \<and> get_all_free_blocks (init_queue 3 fresh_store) = Some (Inr [Blk 0, Blk 1, Blk 2])"
proof -
  have "queue_repr (init_queue 3 fresh_store) [Blk 0, Blk 1, Blk 2]"
    using init_queue_repr(1) [of 3] by (simp add: upt_rec numeral_2_eq_2)
  then show ?thesis
    using free_queue_refines_list[of "init_queue 3 fresh_store" "[Blk 0, Blk 1, Blk 2]" "Blk 7" 2 "[]"]
    by (cases "popleft_n 2 (init_queue 3 fresh_store)") (auto simp: list_popleft_n_def)
qed

end
