(* ===== verification/Block_Map.thy ===== *)
theory Block_Map
  imports Free_Queue
begin

text \<open>
  The prefix-cache index \<^verbatim>\<open>BlockHashToBlockMap\<close> of src/vllm/v1/core/block\_pool.py: a dict from
  block keys to either one block or a dict from block ids to blocks. The dicts of Python keep their
  insertion order, so the inner dict is an association list. The index implements a finite family of
  duplicate-free block lists; the locale \<open>block_index\<close> states what the pool relies on.
\<close>

section \<open>Insertion-ordered dicts\<close>

fun dict_set :: "'k \<Rightarrow> 'v \<Rightarrow> ('k \<times> 'v) list \<Rightarrow> ('k \<times> 'v) list" where
  "dict_set k v [] = [(k, v)]"
| "dict_set k v ((k', v') # d) = (if k' = k then (k, v) # d else (k', v') # dict_set k v d)"

definition dict_del :: "'k \<Rightarrow> ('k \<times> 'v) list \<Rightarrow> ('k \<times> 'v) list" where
  "dict_del k d = filter (\<lambda>p. fst p \<noteq> k) d"

definition dict_pop :: "'k \<Rightarrow> ('k \<times> 'v) list \<Rightarrow> ('v \<times> ('k \<times> 'v) list) res" where
  "dict_pop k d = (case map_of d k of None \<Rightarrow> Inl KeyError | Some v \<Rightarrow> Inr (v, dict_del k d))"

lemma dict_set_fresh: "k \<notin> fst ` set d \<Longrightarrow> dict_set k v d = d @ [(k, v)]"
  by (induction d) auto

lemma dict_set_same: "distinct (map fst d) \<Longrightarrow> (k, v) \<in> set d \<Longrightarrow> dict_set k v d = d"
proof (induction d)
  case Nil
  then show ?case by simp
next
  case (Cons p d)
  then show ?case by (cases p) (force simp: image_iff)
qed

section \<open>The index\<close>

datatype cached_blocks = OneBlock bref | BlockDict "(int \<times> bref) list"

type_synonym block_map = "bytes \<rightharpoonup> cached_blocks"

definition get_one_block :: "bytes \<Rightarrow> block_map \<Rightarrow> bref option res" where
  "get_one_block key m =
     (case m key of
        None \<Rightarrow> Inr None
      | Some (OneBlock b) \<Rightarrow> Inr (Some b)
      | Some (BlockDict d) \<Rightarrow> (case d of [] \<Rightarrow> Inl StopIteration | p # _ \<Rightarrow> Inr (Some (snd p))))"

text \<open>\<open>bid\<close> reads the \<^verbatim>\<open>block_id\<close> of a block object.\<close>

definition map_insert :: "(bref \<Rightarrow> int) \<Rightarrow> bytes \<Rightarrow> bref \<Rightarrow> block_map \<Rightarrow> block_map" where
  "map_insert bid key b m =
     (case m key of
        None \<Rightarrow> m(key \<mapsto> OneBlock b)
      | Some (OneBlock b0) \<Rightarrow> m(key \<mapsto> BlockDict (dict_set (bid b) b [(bid b0, b0)]))
      | Some (BlockDict d) \<Rightarrow> m(key \<mapsto> BlockDict (dict_set (bid b) b d)))"

definition map_pop :: "(bref \<Rightarrow> int) \<Rightarrow> bytes \<Rightarrow> int \<Rightarrow> block_map \<Rightarrow> bref option \<times> block_map" where
  "map_pop bid key i m =
     (case m key of
        None \<Rightarrow> (None, m)
      | Some (OneBlock b) \<Rightarrow> if bid b = i then (Some b, m(key := None)) else (None, m)
      | Some (BlockDict d) \<Rightarrow>
          (let d' = dict_del i d
           in (map_of d i, if length d' > 0 then m(key \<mapsto> BlockDict d') else m(key := None))))"

section \<open>Abstraction\<close>

definition blocks_of :: "block_map \<Rightarrow> bytes \<Rightarrow> bref list" where
  "blocks_of m key =
     (case m key of None \<Rightarrow> [] | Some (OneBlock b) \<Rightarrow> [b] | Some (BlockDict d) \<Rightarrow> map snd d)"

definition map_inv :: "(bref \<Rightarrow> int) \<Rightarrow> block_map \<Rightarrow> bool" where
  "map_inv bid m \<longleftrightarrow>
     (\<forall>key. \<forall>b\<in>set (blocks_of m key). real_block b) \<and>
     (\<forall>key d. m key = Some (BlockDict d) \<longrightarrow>
        d \<noteq> [] \<and> distinct (map fst d) \<and> (\<forall>p\<in>set d. fst p = bid (snd p)))"

lemma map_inv_dict:
  assumes "map_inv bid m" "m key = Some (BlockDict d)"
  shows "d \<noteq> []" "distinct (map fst d)" "d = map (\<lambda>b. (bid b, b)) (map snd d)" "distinct (map snd d)"
proof -
  show "d \<noteq> []" "distinct (map fst d)" using assms by (auto simp: map_inv_def)
  have "\<forall>p\<in>set d. p = (bid (snd p), snd p)" using assms by (auto simp: map_inv_def prod_eq_iff)
  then have "map (\<lambda>p. (bid (snd p), snd p)) d = d" by (intro map_idI) auto
  then show e: "d = map (\<lambda>b. (bid b, b)) (map snd d)" by (simp add: o_def)
  have "map fst d = map bid (map snd d)" by (subst e) simp
  then show "distinct (map snd d)" using \<open>distinct (map fst d)\<close> by (metis distinct_map)
qed

lemma map_inv_real: "map_inv bid m \<Longrightarrow> b \<in> set (blocks_of m key) \<Longrightarrow> real_block b"
  by (simp add: map_inv_def)

text \<open>An entry with several blocks, written from the list of its blocks.\<close>

abbreviation entry :: "(bref \<Rightarrow> int) \<Rightarrow> bref list \<Rightarrow> cached_blocks" where
  "entry bid bs \<equiv> BlockDict (map (\<lambda>b. (bid b, b)) bs)"

lemma blocks_of_entry [simp]: "blocks_of (m(key \<mapsto> entry bid bs)) = (blocks_of m)(key := bs)"
  by (auto simp: blocks_of_def fun_eq_iff o_def)

lemma blocks_of_del [simp]: "blocks_of (m(key := None)) = (blocks_of m)(key := [])"
  by (auto simp: blocks_of_def fun_eq_iff)

lemma map_inv_del: "map_inv bid m \<Longrightarrow> map_inv bid (m(key := None))"
  by (simp add: map_inv_def)

lemma map_inv_entry:
  assumes "map_inv bid m" "bs \<noteq> []" "distinct (map bid bs)" "\<forall>b\<in>set bs. real_block b"
  shows "map_inv bid (m(key \<mapsto> entry bid bs))"
proof -
  have "map fst (map (\<lambda>b. (bid b, b)) bs) = map bid bs" by simp
  then show ?thesis using assms unfolding map_inv_def by (simp add: o_def)
qed

lemma map_inv_empty [simp]: "map_inv bid Map.empty"
  by (simp add: map_inv_def blocks_of_def)

lemma blocks_of_empty [simp]: "blocks_of Map.empty key = []"
  by (simp add: blocks_of_def)

lemma blocks_of_distinct: "map_inv bid m \<Longrightarrow> distinct (blocks_of m key)"
  using map_inv_dict(4) by (fastforce simp: blocks_of_def split: option.splits cached_blocks.splits)

lemma get_one_block_blocks:
  "map_inv bid m \<Longrightarrow>
   get_one_block key m = Inr (case blocks_of m key of [] \<Rightarrow> None | b # _ \<Rightarrow> Some b)"
  using map_inv_dict(1) [of bid m key]
  by (auto simp: get_one_block_def blocks_of_def split: option.splits cached_blocks.splits list.splits)

section \<open>The contract of the index\<close>

text \<open>
  What the pool relies on: the index keeps a duplicate-free list of blocks per key, a lookup returns
  the oldest block of the key, an insertion adds the block at the end of its list and a removal by
  block id takes out exactly that block.
\<close>

locale block_index =
  fixes inv :: "'m \<Rightarrow> bool"
    and under :: "'m \<Rightarrow> bytes \<Rightarrow> bref list"
    and look :: "bytes \<Rightarrow> 'm \<Rightarrow> bref option res"
    and ins :: "bytes \<Rightarrow> bref \<Rightarrow> 'm \<Rightarrow> 'm"
    and take_out :: "bytes \<Rightarrow> bref \<Rightarrow> 'm \<Rightarrow> bref option \<times> 'm"
    and ok_block :: "bref \<Rightarrow> bool"
  assumes distinct_law: "inv m \<Longrightarrow> distinct (under m k)"
    and block_law: "inv m \<Longrightarrow> b \<in> set (under m k) \<Longrightarrow> ok_block b"
    and look_law: "inv m \<Longrightarrow> look k m = Inr (case under m k of [] \<Rightarrow> None | b # _ \<Rightarrow> Some b)"
    and ins_law: "inv m \<Longrightarrow> ok_block b \<Longrightarrow> inv (ins k b m) \<and>
      under (ins k b m) = (under m)(k := (if b \<in> set (under m k) then under m k else under m k @ [b]))"
    and take_law: "inv m \<Longrightarrow> ok_block b \<Longrightarrow>
      fst (take_out k b m) = (if b \<in> set (under m k) then Some b else None) \<and> inv (snd (take_out k b m))
      \<and> under (snd (take_out k b m)) = (under m)(k := remove1 b (under m k))"
begin

text \<open>The index agrees with an assignment of keys to blocks when a key lists exactly the blocks that
  carry it.\<close>

definition agrees :: "'m \<Rightarrow> (bref \<Rightarrow> bytes option) \<Rightarrow> bool" where
  "agrees m key_of \<longleftrightarrow> (\<forall>k b. b \<in> set (under m k) \<longleftrightarrow> ok_block b \<and> key_of b = Some k)"

lemma agrees_insert:
  assumes "inv m" "agrees m key_of" "ok_block b" "key_of b = None"
  shows "inv (ins k b m) \<and> agrees (ins k b m) (key_of(b := Some k))"
  using ins_law [OF assms(1,3), of k] assms(2-4) by (auto simp: agrees_def)

lemma agrees_take:
  assumes "inv m" "agrees m key_of" "ok_block b" "key_of b = Some k"
  shows "fst (take_out k b m) = Some b \<and> inv (snd (take_out k b m)) \<and> agrees (snd (take_out k b m)) (key_of(b := None))"
proof -
  have u: "under (snd (take_out k b m)) = (under m)(k := remove1 b (under m k))"
    and f: "fst (take_out k b m) = (if b \<in> set (under m k) then Some b else None)"
    and i: "inv (snd (take_out k b m))"
    using take_law [OF assms(1,3), of k] by auto
  have "b \<in> set (under m k)" using assms(2-4) by (simp add: agrees_def)
  moreover have "agrees (snd (take_out k b m)) (key_of(b := None))"
    using assms(2,4) distinct_law [OF assms(1), of k] unfolding agrees_def u by auto
  ultimately show ?thesis using f i by simp
qed

lemma agrees_look:
  assumes "inv m" "agrees m key_of"
  shows "\<exists>hit. look k m = Inr hit \<and> (case hit of Some b \<Rightarrow> ok_block b \<and> key_of b = Some k
                                        | None \<Rightarrow> (\<forall>b. ok_block b \<longrightarrow> key_of b \<noteq> Some k))"
proof (cases "under m k")
  case Nil
  have "\<not> (ok_block b \<and> key_of b = Some k)" for b
    using assms(2) Nil unfolding agrees_def by (metis empty_iff list.set(1))
  moreover have "look k m = Inr None" using look_law [OF assms(1), of k] Nil by simp
  ultimately show ?thesis by auto
next
  case (Cons b bs)
  then have "b \<in> set (under m k)" by simp
  then have "ok_block b \<and> key_of b = Some k" using assms(2) unfolding agrees_def by blast
  moreover have "look k m = Inr (Some b)" using look_law [OF assms(1), of k] Cons by simp
  ultimately show ?thesis by auto
qed

end

lemma map_inv_blocks:
  assumes "map_inv bid m" "m key = Some c" "inj_on bid {b. real_block b}" "real_block b"
  shows "\<exists>bs. blocks_of m key = bs \<and> bs \<noteq> [] \<and> distinct (map bid bs) \<and> (\<forall>c\<in>set bs. real_block c)
    \<and> (\<forall>c\<in>set bs. bid c = bid b \<longleftrightarrow> c = b) \<and> (c = entry bid bs \<or> (\<exists>b0. c = OneBlock b0 \<and> bs = [b0]))"
proof (cases c)
  case (OneBlock b0)
  then have bl: "blocks_of m key = [b0]" using assms(2) by (simp add: blocks_of_def)
  then have "real_block b0" by (intro map_inv_real [OF assms(1), of _ key]) simp
  then have "bid b0 = bid b \<longleftrightarrow> b0 = b" using assms(3,4) by (auto dest: inj_onD)
  with bl \<open>real_block b0\<close> OneBlock show ?thesis by simp
next
  case (BlockDict d)
  note d = map_inv_dict [OF assms(1) assms(2) [unfolded BlockDict]]
  have bl: "blocks_of m key = map snd d" using assms(2) BlockDict by (simp add: blocks_of_def)
  have rb: "\<forall>c\<in>set (map snd d). real_block c" using map_inv_real [OF assms(1), of _ key] unfolding bl by blast
  then have "\<forall>c\<in>set (map snd d). bid c = bid b \<longleftrightarrow> c = b" using assms(3,4) by (auto dest: inj_onD)
  moreover have "map bid (map snd d) = map fst d" by (subst (2) d(3)) simp
  moreover have "c = entry bid (map snd d)" unfolding BlockDict using d(3) by simp
  ultimately show ?thesis
    using bl rb d(1,2) by (intro exI [of _ "map snd d"] conjI) (simp_all only: map_is_Nil_conv simp_thms)
qed

lemma map_insert_inv:
  assumes "map_inv bid m" "inj_on bid {b. real_block b}" "real_block b"
  shows "map_inv bid (map_insert bid key b m) \<and>
    blocks_of (map_insert bid key b m) =
      (blocks_of m)(key := (if b \<in> set (blocks_of m key) then blocks_of m key else blocks_of m key @ [b]))"
proof (cases "m key")
  case None
  then have bl: "blocks_of m key = []" by (simp add: blocks_of_def)
  have "blocks_of (m(key \<mapsto> OneBlock b)) = (blocks_of m)(key := [b])" by (auto simp: blocks_of_def fun_eq_iff)
  then show ?thesis using None assms bl by (simp add: map_insert_def map_inv_def)
next
  case (Some c)
  obtain bs where bs: "blocks_of m key = bs" "bs \<noteq> []" "distinct (map bid bs)" "\<forall>c\<in>set bs. real_block c"
    "\<forall>c\<in>set bs. bid c = bid b \<longleftrightarrow> c = b" "c = entry bid bs \<or> (\<exists>b0. c = OneBlock b0 \<and> bs = [b0])"
    using map_inv_blocks [OF assms(1) Some assms(2,3)] by auto
  define bs' where "bs' = (if b \<in> set bs then bs else bs @ [b])"
  have "dict_set (bid b) b (map (\<lambda>b. (bid b, b)) bs) = map (\<lambda>b. (bid b, b)) bs'"
  proof (cases "b \<in> set bs")
    case True
    then show ?thesis using bs(3) dict_set_same [of "map (\<lambda>b. (bid b, b)) bs" "bid b" b] by (simp add: bs'_def o_def)
  next
    case False
    then have "bid b \<notin> fst ` set (map (\<lambda>b. (bid b, b)) bs)" using bs(5) by fastforce
    from dict_set_fresh [OF this] False show ?thesis by (simp add: bs'_def)
  qed
  moreover have "map_insert bid key b m = m(key \<mapsto> BlockDict (dict_set (bid b) b (map (\<lambda>b. (bid b, b)) bs)))"
    using Some bs(6) by (auto simp: map_insert_def)
  ultimately have "map_insert bid key b m = m(key \<mapsto> entry bid bs')" by simp
  moreover have "map_inv bid (m(key \<mapsto> entry bid bs'))"
    using bs(2-5) assms(3) by (intro map_inv_entry assms(1)) (auto simp: bs'_def)
  ultimately show ?thesis using bs(1) by (simp add: bs'_def)
qed

lemma map_pop_inv:
  assumes "map_inv bid m" "inj_on bid {b. real_block b}" "real_block b"
  shows "fst (map_pop bid key (bid b) m) = (if b \<in> set (blocks_of m key) then Some b else None)
    \<and> map_inv bid (snd (map_pop bid key (bid b) m))
    \<and> blocks_of (snd (map_pop bid key (bid b) m)) = (blocks_of m)(key := remove1 b (blocks_of m key))"
proof (cases "m key")
  case None
  then show ?thesis using assms(1) by (auto simp: map_pop_def blocks_of_def fun_eq_iff)
next
  case (Some c)
  obtain bs where bs: "blocks_of m key = bs" "bs \<noteq> []" "distinct (map bid bs)" "\<forall>c\<in>set bs. real_block c"
    "\<forall>c\<in>set bs. bid c = bid b \<longleftrightarrow> c = b" "c = entry bid bs \<or> (\<exists>b0. c = OneBlock b0 \<and> bs = [b0])"
    using map_inv_blocks [OF assms(1) Some assms(2,3)] by auto
  have di: "distinct bs" using bs(3) by (simp add: distinct_map)
  have same: "(blocks_of m)(key := bs) = blocks_of m" using bs(1) by (simp add: fun_eq_iff)
  from bs(6) show ?thesis
  proof
    assume "\<exists>b0. c = OneBlock b0 \<and> bs = [b0]"
    then obtain b0 where e: "c = OneBlock b0" "bs = [b0]" by auto
    then have "bid b0 = bid b \<longleftrightarrow> b0 = b" using bs(5) by simp
    then show ?thesis
      using Some bs(1) same assms(1) map_inv_del [OF assms(1), of key] unfolding e
      by (auto simp: map_pop_def)
  next
    assume c: "c = entry bid bs"
    have del: "dict_del (bid b) (map (\<lambda>b. (bid b, b)) bs) = map (\<lambda>b. (bid b, b)) (remove1 b bs)"
      using bs(5) di by (simp add: dict_del_def filter_map o_def distinct_remove1_removeAll
          removeAll_filter_not_eq) (metis (mono_tags, lifting) filter_cong)
    have get: "map_of (map (\<lambda>b. (bid b, b)) bs) (bid b) = (if b \<in> set bs then Some b else None)"
      using bs(5) by (induction bs) auto
    have "map_inv bid (m(key \<mapsto> entry bid (remove1 b bs)))" if "remove1 b bs \<noteq> []"
    proof (intro map_inv_entry assms(1) that)
      show "distinct (map bid (remove1 b bs))"
        using bs(3) set_remove1_subset [of b bs] by (auto simp: distinct_map intro: inj_on_subset)
    qed (use bs(4) notin_set_remove1 in \<open>meson\<close>)
    then show ?thesis
      using Some get bs(1) map_inv_del [OF assms(1)] unfolding c
      by (cases "remove1 b bs = []") (simp_all add: map_pop_def Let_def del)
  qed
qed

text \<open>The id a block is constructed with: its position in the pool, and -1 for the fake blocks.\<close>

fun ref_id :: "bref \<Rightarrow> int" where
  "ref_id (Blk i) = int i"
| "ref_id _ = -1"

lemma ref_id_inj: "inj_on ref_id {b. real_block b}"
proof (rule inj_onI)
  fix a b assume "a \<in> {b. real_block b}" "b \<in> {b. real_block b}" "ref_id a = ref_id b"
  then show "a = b" by (cases a; cases b) auto
qed

interpretation bm: block_index "map_inv ref_id" blocks_of get_one_block "map_insert ref_id"
  "\<lambda>k b. map_pop ref_id k (ref_id b)" real_block
proof (unfold_locales, goal_cases)
  case (1 m k)
  then show ?case by (rule blocks_of_distinct)
next
  case (2 m b k)
  then show ?case by (auto simp: map_inv_def)
next
  case (3 m k)
  then show ?case by (rule get_one_block_blocks)
next
  case (4 m b k)
  then show ?case by (intro map_insert_inv ref_id_inj)
next
  case (5 m b k)
  then show ?case by (intro map_pop_inv ref_id_inj)
qed

text \<open>the prefix-cache index, with its two kinds of entries, implements one
  duplicate-free list of blocks per key: a lookup returns the oldest block of the key, an insertion appends,
  removing by id takes out exactly that block, and no other key changes.\<close>

theorem block_map_refines_lists:
  assumes "map_inv ref_id m" "real_block b"
  shows "get_one_block k m = Inr (case blocks_of m k of [] \<Rightarrow> None | c # _ \<Rightarrow> Some c)
    \<and> map_inv ref_id (map_insert ref_id k b m)
    \<and> blocks_of (map_insert ref_id k b m) =
        (blocks_of m)(k := (if b \<in> set (blocks_of m k) then blocks_of m k else blocks_of m k @ [b]))
    \<and> fst (map_pop ref_id k (ref_id b) m) = (if b \<in> set (blocks_of m k) then Some b else None)
    \<and> map_inv ref_id (snd (map_pop ref_id k (ref_id b) m))
    \<and> blocks_of (snd (map_pop ref_id k (ref_id b) m)) = (blocks_of m)(k := remove1 b (blocks_of m k))"
  using bm.look_law [OF assms(1), of k] bm.ins_law [OF assms, of k] bm.take_law [OF assms, of k] by blast

theorem block_map_refines_lists_witness:
  "blocks_of (map_insert ref_id [1] (Blk 4) [[1] \<mapsto> OneBlock (Blk 2)]) [1] = [Blk 2, Blk 4]
   \<and> get_one_block [1] [[1] \<mapsto> OneBlock (Blk 2)] = Inr (Some (Blk 2))"
proof -
  have i: "map_inv ref_id [[1] \<mapsto> OneBlock (Blk 2)]" by (simp add: map_inv_def blocks_of_def)
  show ?thesis
    using block_map_refines_lists [OF i, of "Blk 4" "[1]"] by (simp add: blocks_of_def)
qed

end
