(* ===== verification/Request.thy ===== *)
theory Request
  imports Prelude
begin

text \<open>
  The request object of src/vllm/v1/request.py, its status life cycle, and the stop checks of
  src/vllm/v1/core/sched/utils.py. Fields that only travel through the scheduler (trace headers,
  event logs, client payloads) are left out; floating-point arrival times are integers, since they
  are only compared.
\<close>

section \<open>Status\<close>

datatype request_status =
    WAITING
  | WAITING_FOR_STRUCTURED_OUTPUT_GRAMMAR
  | WAITING_FOR_REMOTE_KVS
  | WAITING_FOR_STREAMING_REQ
  | RUNNING
  | PREEMPTED
  | FINISHED_STOPPED
  | FINISHED_LENGTH_CAPPED
  | FINISHED_ABORTED
  | FINISHED_IGNORED
  | FINISHED_ERROR
  | FINISHED_REPETITION

text \<open>\<^verbatim>\<open>enum.auto()\<close> numbers the members from 1 in the order of the class body.\<close>

fun status_value :: "request_status \<Rightarrow> int" where
  "status_value WAITING = 1"
| "status_value WAITING_FOR_STRUCTURED_OUTPUT_GRAMMAR = 2"
| "status_value WAITING_FOR_REMOTE_KVS = 3"
| "status_value WAITING_FOR_STREAMING_REQ = 4"
| "status_value RUNNING = 5"
| "status_value PREEMPTED = 6"
| "status_value FINISHED_STOPPED = 7"
| "status_value FINISHED_LENGTH_CAPPED = 8"
| "status_value FINISHED_ABORTED = 9"
| "status_value FINISHED_IGNORED = 10"
| "status_value FINISHED_ERROR = 11"
| "status_value FINISHED_REPETITION = 12"

definition is_finished_status :: "request_status \<Rightarrow> bool" where
  "is_finished_status st \<longleftrightarrow> status_value st > status_value PREEMPTED"

datatype finish_reason = FR_STOP | FR_LENGTH | FR_ABORT | FR_ERROR | FR_REPETITION

fun finished_reason_map :: "request_status \<Rightarrow> finish_reason option" where
  "finished_reason_map FINISHED_STOPPED = Some FR_STOP"
| "finished_reason_map FINISHED_LENGTH_CAPPED = Some FR_LENGTH"
| "finished_reason_map FINISHED_ABORTED = Some FR_ABORT"
| "finished_reason_map FINISHED_IGNORED = Some FR_LENGTH"
| "finished_reason_map FINISHED_ERROR = Some FR_ERROR"
| "finished_reason_map WAITING_FOR_STREAMING_REQ = Some FR_STOP"
| "finished_reason_map FINISHED_REPETITION = Some FR_REPETITION"
| "finished_reason_map _ = None"

lemma is_finished_status_simps [simp]:
  "\<not> is_finished_status WAITING" "\<not> is_finished_status WAITING_FOR_STRUCTURED_OUTPUT_GRAMMAR"
  "\<not> is_finished_status WAITING_FOR_REMOTE_KVS" "\<not> is_finished_status WAITING_FOR_STREAMING_REQ"
  "\<not> is_finished_status RUNNING" "\<not> is_finished_status PREEMPTED"
  "is_finished_status FINISHED_STOPPED" "is_finished_status FINISHED_LENGTH_CAPPED"
  "is_finished_status FINISHED_ABORTED" "is_finished_status FINISHED_IGNORED"
  "is_finished_status FINISHED_ERROR" "is_finished_status FINISHED_REPETITION"
  by (simp_all add: is_finished_status_def)

section \<open>Parameters and multi-modal inputs\<close>

record repetition_params =
  max_pattern_size :: int
  min_pattern_size :: int
  min_count :: int

definition repetition_params_post_init :: "repetition_params \<Rightarrow> repetition_params res" where
  "repetition_params_post_init p =
     (if max_pattern_size p < 0 \<or> min_pattern_size p < 0 \<or> min_pattern_size p > max_pattern_size p
      then Inl ValueError
      else if max_pattern_size p > 0 \<and> min_count p < 2 then Inl ValueError
      else Inr p)"

text \<open>Of the sampling parameters the core reads the length limits, the stop tokens, the repetition
  detector, the prefix-cache opt-out and whether a structured-output constraint is set.\<close>

record sampling_params =
  sp_max_tokens :: "int option"
  sp_min_tokens :: int
  sp_eos_token_id :: "token option"
  sp_stop_token_ids :: "token list"
  sp_repetition_detection :: "repetition_params option"
  sp_skip_reading_prefix_cache :: "bool option"
  sp_structured :: bool

record pooling_params =
  pp_skip_reading_prefix_cache :: "bool option"

record lora_request =
  lora_name :: string
  adapter_id :: int

record placeholder_range =
  pr_offset :: int
  pr_length :: int
  pr_is_embed :: "bool list option"

record mm_feature =
  mm_identifier :: string
  mm_position :: placeholder_range

text \<open>The running count of embedding positions, as \<^verbatim>\<open>is_embed.cumsum\<close>.\<close>

fun cumsum :: "int \<Rightarrow> bool list \<Rightarrow> int list" where
  "cumsum acc [] = []"
| "cumsum acc (b # bs) = (let a = acc + (if b then 1 else 0) in a # cumsum a bs)"

definition embeds_cumsum :: "placeholder_range \<Rightarrow> int list option" where
  "embeds_cumsum p = map_option (cumsum 0) (pr_is_embed p)"

definition get_num_embeds :: "placeholder_range \<Rightarrow> int res" where
  "get_num_embeds p =
     (case embeds_cumsum p of None \<Rightarrow> Inr (pr_length p) | Some c \<Rightarrow> py_get c (-1))"

definition get_embeds_indices_in_range :: "placeholder_range \<Rightarrow> int \<Rightarrow> int \<Rightarrow> (int \<times> int) res" where
  "get_embeds_indices_in_range p s e =
     (case embeds_cumsum p of
        None \<Rightarrow> Inr (s, e)
      | Some c \<Rightarrow>
          bindE (if s > 0 then py_get c (s - 1) else Inr 0) (\<lambda>a.
          bindE (py_get c (e - 1)) (\<lambda>b. Inr (a, b))))"

section \<open>The request\<close>

datatype stop_reason = StopToken token | StopString string

record streaming_update =
  su_mm_features :: "mm_feature list option"
  su_prompt_token_ids :: "token list option"
  su_max_tokens :: int
  su_arrival_time :: int
  su_sampling_params :: "sampling_params option"

record request =
  request_id :: req_id
  client_index :: int
  priority :: int
  sampling :: "sampling_params option"
  pooling :: "pooling_params option"
  lora :: "lora_request option"
  structured_output :: bool
  arrival_time :: int
  status :: request_status
  stop_reason_of :: "stop_reason option"
  max_tokens :: int
  prompt_token_ids :: "token list option"
  prompt_embeds :: "int list list option"
  embeds_memo :: "(int \<times> int) \<Rightarrow> bytes option"
  num_prompt_tokens :: int
  output_token_ids :: "token list"
  all_token_ids :: "token list"
  num_output_placeholders :: int
  discard_latest_async_tokens :: bool
  spec_token_ids :: "token list"
  num_computed_tokens :: int
  cache_salt :: "string option"
  mm_features :: "mm_feature list"
  num_cached_tokens :: int
  is_prefill_chunk :: bool
  num_nans_in_logits :: int
  num_preemptions :: int
  num_external_computed_tokens :: int
  block_hashes :: "bytes list"
  skip_reading_prefix_cache :: bool
  resumable :: bool
  streaming_queue :: "streaming_update option list option"

abbreviation num_tokens :: "request \<Rightarrow> int" where
  "num_tokens r \<equiv> int (length (all_token_ids r))"

abbreviation num_tokens_with_spec :: "request \<Rightarrow> int" where
  "num_tokens_with_spec r \<equiv> int (length (all_token_ids r)) + int (length (spec_token_ids r))"

abbreviation num_output_tokens :: "request \<Rightarrow> int" where
  "num_output_tokens r \<equiv> int (length (output_token_ids r))"

definition is_finished :: "request \<Rightarrow> bool" where
  "is_finished r = is_finished_status (status r)"

definition get_finished_reason :: "request \<Rightarrow> finish_reason option" where
  "get_finished_reason r = finished_reason_map (status r)"

definition get_num_encoder_embeds :: "request \<Rightarrow> int \<Rightarrow> int res" where
  "get_num_encoder_embeds r i =
     assertE (i < int (length (mm_features r)))
       (bindE (py_get (mm_features r) i) (\<lambda>f. get_num_embeds (mm_position f)))"

definition length_from_prompt :: "token list option \<Rightarrow> int list list option \<Rightarrow> int res" where
  "length_from_prompt toks embeds =
     (case toks of
        None \<Rightarrow> (case embeds of None \<Rightarrow> Inl ValueError | Some e \<Rightarrow> Inr (int (length e)))
      | Some t \<Rightarrow>
          (case embeds of
             None \<Rightarrow> Inr (int (length t))
           | Some e \<Rightarrow> if length e \<noteq> length t then Inl ValueError else Inr (int (length t))))"

definition get_skip_reading_prefix_cache :: "request \<Rightarrow> bool" where
  "get_skip_reading_prefix_cache r =
     (case Option.bind (sampling r) sp_skip_reading_prefix_cache of
        Some b \<Rightarrow> b
      | None \<Rightarrow>
          (case Option.bind (pooling r) pp_skip_reading_prefix_cache of Some b \<Rightarrow> b | None \<Rightarrow> False))"

text \<open>The block hasher is a function of the request that returns the new hashes and the updated
  request (it fills the memo of prompt-embedding digests).\<close>

type_synonym block_hasher = "request \<Rightarrow> (bytes list \<times> request) res"

definition update_block_hashes :: "block_hasher option \<Rightarrow> request \<Rightarrow> request res" where
  "update_block_hashes hasher r =
     (case hasher of
        None \<Rightarrow> Inr r
      | Some h \<Rightarrow> bindE (h r) (\<lambda>(hs, r'). Inr (r'\<lparr>block_hashes := block_hashes r' @ hs\<rparr>)))"

definition append_output_token_ids :: "block_hasher option \<Rightarrow> token list \<Rightarrow> request \<Rightarrow> request res" where
  "append_output_token_ids hasher toks r =
     update_block_hashes hasher
       (r\<lparr>output_token_ids := output_token_ids r @ toks, all_token_ids := all_token_ids r @ toks\<rparr>)"

text \<open>\<^verbatim>\<open>Request.__init__\<close>.\<close>

definition init_request ::
  "block_hasher option \<Rightarrow> req_id \<Rightarrow> token list option \<Rightarrow> sampling_params option \<Rightarrow> pooling_params option \<Rightarrow>
   int \<Rightarrow> int \<Rightarrow> int list list option \<Rightarrow> mm_feature list option \<Rightarrow> lora_request option \<Rightarrow> string option \<Rightarrow>
   int \<Rightarrow> bool \<Rightarrow> request res" where
  "init_request hasher rid toks samp pool client arrival embeds mms lor salt prio resum =
     (let structured = (case samp of None \<Rightarrow> False | Some sp \<Rightarrow> sp_structured sp) in
      bindE
        (case pool of
           Some _ \<Rightarrow> Inr (1, WAITING)
         | None \<Rightarrow>
             (case samp of
                None \<Rightarrow> Inl ValueError
              | Some sp \<Rightarrow>
                  (case sp_max_tokens sp of
                     None \<Rightarrow> Inl AssertionError
                   | Some m \<Rightarrow>
                       Inr (m, if structured then WAITING_FOR_STRUCTURED_OUTPUT_GRAMMAR else WAITING))))
        (\<lambda>(mx, st).
      bindE (length_from_prompt toks embeds) (\<lambda>npt.
      bindE
        (update_block_hashes hasher
           \<lparr>request_id = rid, client_index = client, priority = prio, sampling = samp, pooling = pool,
            lora = lor, structured_output = structured, arrival_time = arrival, status = st,
            stop_reason_of = None, max_tokens = mx, prompt_token_ids = toks, prompt_embeds = embeds,
            embeds_memo = (\<lambda>_. None), num_prompt_tokens = npt, output_token_ids = [],
            all_token_ids = (case toks of Some t \<Rightarrow> t | None \<Rightarrow> replicate (nat npt) 0),
            num_output_placeholders = 0, discard_latest_async_tokens = False, spec_token_ids = [],
            num_computed_tokens = 0, cache_salt = salt,
            mm_features = (case mms of Some m \<Rightarrow> m | None \<Rightarrow> []),
            num_cached_tokens = -1, is_prefill_chunk = False, num_nans_in_logits = 0,
            num_preemptions = 0, num_external_computed_tokens = 0, block_hashes = [],
            skip_reading_prefix_cache = False, resumable = resum, streaming_queue = None\<rparr>)
        (\<lambda>r. Inr (r\<lparr>skip_reading_prefix_cache := get_skip_reading_prefix_cache r\<rparr>)))))"

definition streaming_update_from_request :: "request \<Rightarrow> streaming_update option" where
  "streaming_update_from_request r =
     (if \<not> resumable r then None
      else Some \<lparr>su_mm_features = Some (mm_features r), su_prompt_token_ids = prompt_token_ids r,
             su_max_tokens = max_tokens r, su_arrival_time = arrival_time r,
             su_sampling_params = sampling r\<rparr>)"

text \<open>\<^verbatim>\<open>Request.__lt__\<close>; two different objects with equal keys are ordered by address, which the
  caller supplies.\<close>

definition request_lt :: "(request \<Rightarrow> int) \<Rightarrow> request \<Rightarrow> request \<Rightarrow> bool" where
  "request_lt addr a b =
     (if priority a \<noteq> priority b then priority a < priority b
      else if arrival_time a \<noteq> arrival_time b then arrival_time a < arrival_time b
      else if request_id a \<noteq> request_id b then request_id a < request_id b
      else addr a < addr b)"

section \<open>Stop checks\<close>

fun repeats_at :: "token list \<Rightarrow> int \<Rightarrow> int \<Rightarrow> token \<Rightarrow> int list \<Rightarrow> bool res" where
  "repeats_at toks plen n target [] = Inr True"
| "repeats_at toks plen n target (m # ms) =
     bindE (py_get toks (- (plen * m + n))) (\<lambda>t.
       if t \<noteq> target then Inr False else repeats_at toks plen n target ms)"

fun has_repeating_loop :: "token list \<Rightarrow> int \<Rightarrow> int \<Rightarrow> int list \<Rightarrow> bool res" where
  "has_repeating_loop toks plen cnt [] = Inr True"
| "has_repeating_loop toks plen cnt (n # ns) =
     bindE (py_get toks (- n)) (\<lambda>target.
     bindE (repeats_at toks plen n target [1..cnt - 1]) (\<lambda>ok.
       if \<not> ok then Inr False else has_repeating_loop toks plen cnt ns))"

definition has_repeating_pattern :: "token list \<Rightarrow> int \<Rightarrow> int \<Rightarrow> bool res" where
  "has_repeating_pattern toks plen cnt = has_repeating_loop toks plen cnt [1..plen]"

fun repetition_loop :: "token list \<Rightarrow> int \<Rightarrow> int list \<Rightarrow> bool res" where
  "repetition_loop toks cnt [] = Inr False"
| "repetition_loop toks cnt (p # ps) =
     (if p * cnt > int (length toks) then Inr False
      else bindE (has_repeating_pattern toks p cnt) (\<lambda>b.
        if b then Inr True else repetition_loop toks cnt ps))"

definition check_sequence_repetition :: "token list \<Rightarrow> repetition_params \<Rightarrow> bool res" where
  "check_sequence_repetition toks p =
     (let mx = max_pattern_size p;
          mn = (if min_pattern_size p \<le> 0 then 1 else min_pattern_size p);
          cnt = min_count p
      in if mx \<le> 0 \<or> cnt < 2 \<or> mn > mx then Inr False
         else repetition_loop toks cnt [mn..mx])"

definition remove_all :: "'a list \<Rightarrow> 'a list \<Rightarrow> 'a list" where
  "remove_all lst items =
     (case remdups items of
        [] \<Rightarrow> lst
      | [x] \<Rightarrow> remove1 x lst
      | _ \<Rightarrow> filter (\<lambda>y. y \<notin> set items) lst)"

definition check_stop :: "request \<Rightarrow> int \<Rightarrow> (bool \<times> request) res" where
  "check_stop r max_model_len =
     assertE (pooling r = None)
       (case sampling r of
          None \<Rightarrow> Inl AssertionError
        | Some sp \<Rightarrow>
            if num_output_tokens r < sp_min_tokens sp then Inr (False, r)
            else bindE (py_get (output_token_ids r) (-1)) (\<lambda>t.
              if Some t = sp_eos_token_id sp then Inr (True, r\<lparr>status := FINISHED_STOPPED\<rparr>)
              else if t \<in> set (sp_stop_token_ids sp)
                then Inr (True, r\<lparr>status := FINISHED_STOPPED, stop_reason_of := Some (StopToken t)\<rparr>)
              else if num_tokens r \<ge> max_model_len \<or> num_output_tokens r \<ge> max_tokens r
                then Inr (True, r\<lparr>status := FINISHED_LENGTH_CAPPED\<rparr>)
              else (case sp_repetition_detection sp of
                      None \<Rightarrow> Inr (False, r)
                    | Some rp \<Rightarrow>
                        bindE (check_sequence_repetition (output_token_ids r) rp) (\<lambda>rep.
                          if rep then Inr (True, r\<lparr>status := FINISHED_REPETITION,
                              stop_reason_of := Some (StopString ''repetition_detected'')\<rparr>)
                          else Inr (False, r)))))"

section \<open>A plain text request\<close>

text \<open>The request that \<^verbatim>\<open>__init__\<close> builds from token ids and sampling parameters alone; the concrete
  instances below use it.\<close>

definition greedy_params :: "int \<Rightarrow> sampling_params" where
  "greedy_params n = \<lparr>sp_max_tokens = Some n, sp_min_tokens = 0, sp_eos_token_id = None, sp_stop_token_ids = [],
     sp_repetition_detection = None, sp_skip_reading_prefix_cache = None, sp_structured = False\<rparr>"

definition plain_request :: "req_id \<Rightarrow> token list \<Rightarrow> int \<Rightarrow> request" where
  "plain_request rid toks n =
     \<lparr>request_id = rid, client_index = 0, priority = 0, sampling = Some (greedy_params n), pooling = None,
      lora = None, structured_output = False, arrival_time = 0, status = WAITING,
      stop_reason_of = None, max_tokens = n, prompt_token_ids = Some toks, prompt_embeds = None,
      embeds_memo = (\<lambda>_. None), num_prompt_tokens = int (length toks), output_token_ids = [],
      all_token_ids = toks, num_output_placeholders = 0, discard_latest_async_tokens = False,
      spec_token_ids = [], num_computed_tokens = 0, cache_salt = None, mm_features = [],
      num_cached_tokens = -1, is_prefill_chunk = False, num_nans_in_logits = 0,
      num_preemptions = 0, num_external_computed_tokens = 0, block_hashes = [],
      skip_reading_prefix_cache = False, resumable = False, streaming_queue = None\<rparr>"

lemma init_request_plain:
  "init_request None rid (Some toks) (Some (greedy_params n)) None 0 0 None None None None 0 False
     = Inr (plain_request rid toks n)"
  by (simp add: init_request_def plain_request_def greedy_params_def length_from_prompt_def
      update_block_hashes_def get_skip_reading_prefix_cache_def)

section \<open>The repetition detector finds exactly the repeated tails\<close>

text \<open>Reference: the last \<open>c * p\<close> tokens are \<open>c\<close> copies of the last \<open>p\<close>.\<close>

definition repeated_tail :: "token list \<Rightarrow> nat \<Rightarrow> nat \<Rightarrow> bool" where
  "repeated_tail toks p c \<longleftrightarrow>
     c * p \<le> length toks \<and>
     drop (length toks - c * p) toks = concat (replicate c (drop (length toks - p) toks))"

lemma length_concat_replicate [simp]: "length (concat (replicate c w)) = c * length w"
  by (induction c) auto

lemma nth_concat_replicate:
  "i < c * length w \<Longrightarrow> concat (replicate c w) ! i = w ! (i mod length w)"
proof (induction c arbitrary: i)
  case 0
  then show ?case by simp
next
  case (Suc c)
  show ?case
  proof (cases "i < length w")
    case True
    then show ?thesis by (simp add: nth_append)
  next
    case False
    then show ?thesis using Suc by (simp add: nth_append le_mod_geq)
  qed
qed

lemma py_get_neg: "1 \<le> k \<Longrightarrow> k \<le> int (length xs) \<Longrightarrow> py_get xs (- k) = Inr (xs ! (length xs - nat k))"
  by (simp add: py_get_def Let_def nat_diff_distrib)

lemma repeats_at_eq:
  assumes "\<And>m. m \<in> set ms \<Longrightarrow> 1 \<le> p * m + n \<and> p * m + n \<le> int (length toks)"
  shows "repeats_at toks p n t ms = Inr (\<forall>m\<in>set ms. toks ! (length toks - nat (p * m + n)) = t)"
  using assms
proof (induction ms)
  case Nil
  then show ?case by simp
next
  case (Cons m ms)
  have "py_get toks (- (p * m + n)) = Inr (toks ! (length toks - nat (p * m + n)))"
    using Cons.prems by (intro py_get_neg) auto
  then show ?case using Cons by (auto simp del: minus_add_distrib)
qed

lemma has_repeating_loop_eq:
  assumes "0 < p" "p * c \<le> int (length toks)" "0 \<le> c" "\<And>n. n \<in> set ns \<Longrightarrow> 1 \<le> n \<and> n \<le> p"
    "1 \<le> c"
  shows "has_repeating_loop toks p c ns =
    Inr (\<forall>n\<in>set ns. \<forall>m\<in>{1..c - 1}.
           toks ! (length toks - nat (p * m + n)) = toks ! (length toks - nat n))"
  using assms(4)
proof (induction ns)
  case Nil
  then show ?case by simp
next
  case (Cons n ns)
  have n: "1 \<le> n" "n \<le> p" using Cons.prems by auto
  have "p * 1 \<le> p * c" using assms by (intro mult_left_mono) auto
  then have nl: "n \<le> int (length toks)" using n assms(2) by linarith
  have "1 \<le> p * m + n \<and> p * m + n \<le> int (length toks)" if "m \<in> set [1..c - 1]" for m
  proof -
    have "p * m \<le> p * (c - 1)" using that assms(1) by (intro mult_left_mono) auto
    then have "p * m + n \<le> p * c" using n by (simp add: algebra_simps)
    moreover have "0 \<le> p * m" using that assms(1) by auto
    ultimately show ?thesis using n assms(2) by auto
  qed
  from repeats_at_eq [of "[1..c - 1]" p n toks, OF this]
  show ?case using Cons n nl by (auto simp: py_get_neg)
qed

lemma repeated_tail_iff:
  assumes "0 < p" "1 \<le> c" "c * p \<le> length toks"
  shows "repeated_tail toks p c \<longleftrightarrow>
    (\<forall>n\<in>{1..p}. \<forall>m\<in>{1..c - 1}. toks ! (length toks - (p * m + n)) = toks ! (length toks - n))"
proof -
  let ?L = "length toks" and ?w = "drop (length toks - p) toks"
  have pL: "p \<le> ?L" using assms by (metis le_trans mult_le_mono1 nat_mult_1)
  have lw: "length ?w = p" using pL by simp
  have "repeated_tail toks p c \<longleftrightarrow> (\<forall>i < c * p. toks ! (?L - c * p + i) = toks ! (?L - p + i mod p))"
  proof -
    have "repeated_tail toks p c \<longleftrightarrow>
        (\<forall>i < c * p. drop (?L - c * p) toks ! i = concat (replicate c ?w) ! i)"
      using assms(3) lw unfolding repeated_tail_def list_eq_iff_nth_eq length_concat_replicate
      by (simp del: length_concat)
    also have "\<dots> \<longleftrightarrow> (\<forall>i < c * p. toks ! (?L - c * p + i) = toks ! (?L - p + i mod p))"
      using assms pL lw by (auto simp: nth_concat_replicate)
    finally show ?thesis .
  qed
  also have "\<dots> \<longleftrightarrow> (\<forall>n\<in>{1..p}. \<forall>m\<in>{1..c - 1}. toks ! (?L - (p * m + n)) = toks ! (?L - n))"
  proof (intro iffI ballI allI impI)
    fix n m assume h: "\<forall>i < c * p. toks ! (?L - c * p + i) = toks ! (?L - p + i mod p)"
      and nm: "n \<in> {1..p}" "m \<in> {1..c - 1}"
    let ?i = "p * (c - 1 - m) + (p - n)"
    have s: "?i + (p * m + n) = c * p"
    proof -
      have "p * (c - 1 - m) + p * m = p * (c - 1)" 
        using nm by (metis atLeastAtMost_iff distrib_left le_add_diff_inverse2)
      moreover have "p * (c - 1) + p = c * p" using assms(2) by (cases c) (simp_all add: algebra_simps)
      ultimately show ?thesis using nm by simp
    qed
    have md: "?i mod p = p - n"
      using nm assms(1) mod_mult_self4 [of p "c - 1 - m" "p - n"] by simp
    have "?i < c * p" using s nm unfolding atLeastAtMost_iff by linarith
    with h have "toks ! (?L - c * p + ?i) = toks ! (?L - p + ?i mod p)" by blast
    moreover have "?L - c * p + ?i = ?L - (p * m + n)" using s assms(3) by linarith
    moreover have "?L - p + ?i mod p = ?L - n" using pL nm unfolding md by simp
    ultimately show "toks ! (?L - (p * m + n)) = toks ! (?L - n)" by simp
  next
    fix i assume h: "\<forall>n\<in>{1..p}. \<forall>m\<in>{1..c - 1}. toks ! (?L - (p * m + n)) = toks ! (?L - n)"
      and i: "i < c * p"
    let ?n = "p - i mod p" and ?m = "c - 1 - i div p"
    have "i mod p < p" "i div p < c" using i assms(1) by (simp_all add: less_mult_imp_div_less)
    then have n: "?n \<in> {1..p}" and m: "?m \<le> c - 1" and dv: "i div p \<le> c - 1" by auto
    have s: "i + (p * ?m + ?n) = c * p"
    proof -
      have "p * ?m + p * (i div p) = p * (c - 1)" 
        using dv by (metis distrib_left le_add_diff_inverse2)
      moreover have "p * (c - 1) + p = c * p" using assms(2) by (cases c) (simp_all add: algebra_simps)
      moreover have "p * (i div p) + i mod p = i" by simp
      ultimately show ?thesis using \<open>i mod p < p\<close> by linarith
    qed
    have e: "toks ! (?L - (p * ?m + ?n)) = toks ! (?L - ?n)"
    proof (cases "?m = 0")
      case True
      then show ?thesis by (simp only: mult_0_right add_0)
    next
      case False
      then have "?m \<in> {1..c - 1}" using m by simp
      then show ?thesis using h n by blast
    qed
    moreover have "?L - c * p + i = ?L - (p * ?m + ?n)" using s assms(3) by linarith
    moreover have "?L - p + i mod p = ?L - ?n" using pL \<open>i mod p < p\<close> by linarith
    ultimately show "toks ! (?L - c * p + i) = toks ! (?L - p + i mod p)" by simp
  qed
  finally show ?thesis .
qed

lemma has_repeating_pattern_eq:
  assumes "0 < p" "2 \<le> c" "c * p \<le> length toks"
  shows "has_repeating_pattern toks (int p) (int c) = Inr (repeated_tail toks p c)"
proof -
  have "int p * int c \<le> int (length toks)" using assms(3)
    by (metis mult.commute of_nat_le_iff of_nat_mult)
  moreover have "{1..int c - 1} = int ` {1..c - 1}" using assms(2)
    by (simp add: image_int_atLeastAtMost of_nat_diff)
  moreover have "{1..int p} = int ` {1..p}" by (simp add: image_int_atLeastAtMost)
  moreover have "nat (int p * int m + int n) = p * m + n" for m n by (simp add: nat_eq_iff)
  moreover have "n \<in> set [1..int p] \<Longrightarrow> 1 \<le> n \<and> n \<le> int p" for n by simp
  ultimately show ?thesis
    using assms has_repeating_loop_eq [of "int p" "int c" toks "[1..int p]"] repeated_tail_iff [of p c toks]
    by (simp add: has_repeating_pattern_def ball_simps)
qed

lemma repetition_loop_eq:
  assumes "2 \<le> c" "0 < a"
  shows "repetition_loop toks (int c) [int a..int b] = Inr (\<exists>p. a \<le> p \<and> p \<le> b \<and> repeated_tail toks p c)"
  using assms(2)
proof (induction "Suc b - a" arbitrary: a)
  case 0
  then show ?case by (auto simp: upto.simps)
next
  case (Suc k)
  then have ab: "a \<le> b" by simp
  have IH: "repetition_loop toks (int c) [int (Suc a)..int b] = Inr (\<exists>p. Suc a \<le> p \<and> p \<le> b \<and> repeated_tail toks p c)"
    using Suc by (intro Suc.hyps(1)) auto
  have up: "[int a..int b] = int a # [int (Suc a)..int b]" using ab by (simp add: upto.simps add.commute)
  show ?case
  proof (cases "c * a \<le> length toks")
    case False
    have "\<not> repeated_tail toks p c" if "a \<le> p" for p
    proof -
      have "c * a \<le> c * p" using that by simp
      then show ?thesis using False unfolding repeated_tail_def by linarith
    qed
    moreover have "int a * int c > int (length toks)" using False
      by (metis mult.commute not_le of_nat_less_iff of_nat_mult)
    ultimately show ?thesis by (simp add: up)
  next
    case True
    then have "\<not> int a * int c > int (length toks)"
      by (metis mult.commute not_le of_nat_le_iff of_nat_mult)
    moreover have "has_repeating_pattern toks (int a) (int c) = Inr (repeated_tail toks a c)"
      using has_repeating_pattern_eq [of a c toks] True Suc.prems assms(1) by simp
    moreover have "(\<exists>p. a \<le> p \<and> p \<le> b \<and> repeated_tail toks p c) \<longleftrightarrow>
      repeated_tail toks a c \<or> (\<exists>p. Suc a \<le> p \<and> p \<le> b \<and> repeated_tail toks p c)"
      using ab by (metis Suc_leD le_antisym not_less_eq_eq order_refl)
    ultimately show ?thesis using IH unfolding up by simp
  qed
qed

lemma check_sequence_repetition_eq:
  "check_sequence_repetition toks p =
     Inr (max_pattern_size p > 0 \<and> min_count p \<ge> 2 \<and>
       (\<exists>k. max 1 (min_pattern_size p) \<le> int k \<and> int k \<le> max_pattern_size p
            \<and> repeated_tail toks k (nat (min_count p))))"
proof (cases "max_pattern_size p \<le> 0 \<or> min_count p < 2 \<or> max 1 (min_pattern_size p) > max_pattern_size p")
  case True
  then show ?thesis by (auto simp: check_sequence_repetition_def Let_def)
next
  case False
  define a b c where "a = nat (max 1 (min_pattern_size p))" and "b = nat (max_pattern_size p)" and "c = nat (min_count p)"
  have e: "max 1 (min_pattern_size p) = int a" "max_pattern_size p = int b" "min_count p = int c"
    using False by (auto simp: a_def b_def c_def)
  have c2: "2 \<le> c" and a0: "0 < a" using False e by auto
  have mn: "(if min_pattern_size p \<le> 0 then 1 else min_pattern_size p) = int a"
    using e(1) by (simp add: max_def split: if_splits)
  have "check_sequence_repetition toks p = repetition_loop toks (int c) [int a..int b]"
    using False e unfolding check_sequence_repetition_def Let_def mn by auto
  then show ?thesis
    using repetition_loop_eq [OF c2 a0] False e by auto
qed

text \<open>the detector never raises and returns true exactly when, for some
  pattern length between the configured minimum (at least 1) and maximum, the tail of the output consists of
  \<open>min_count\<close> copies of the last tokens of that length; the early return on too short outputs loses
  nothing.\<close>

theorem check_sequence_repetition_correct:
  "check_sequence_repetition toks p =
     Inr (max_pattern_size p > 0 \<and> min_count p \<ge> 2 \<and>
       (\<exists>k. max 1 (min_pattern_size p) \<le> int k \<and> int k \<le> max_pattern_size p
            \<and> repeated_tail toks k (nat (min_count p))))"
  by (rule check_sequence_repetition_eq)

section \<open>Stopping\<close>

text \<open>What repetition detection is meant to find.\<close>

definition tail_repeats :: "token list \<Rightarrow> repetition_params \<Rightarrow> bool" where
  "tail_repeats toks p \<longleftrightarrow> max_pattern_size p > 0 \<and> min_count p \<ge> 2 \<and>
     (\<exists>k. max 1 (min_pattern_size p) \<le> int k \<and> int k \<le> max_pattern_size p \<and> repeated_tail toks k (nat (min_count p)))"

text \<open>C26 (check_stop_correct): for a generation request that has produced at least one token, the stop check never
  raises. It stops the request exactly when \<^verbatim>\<open>min_tokens\<close> are reached and the last token is the
  end-of-sequence token (\<open>eos\<close>) or a stop token (\<open>stop\<close>), a length limit is reached (\<open>full\<close>), or the
  output ends in the configured number of copies of a pattern of allowed length (\<open>loop\<close>). The first of
  these in this order decides: the first two give FINISHED_STOPPED, with the stop token as stop reason only in
  the second case, the third FINISHED_LENGTH_CAPPED, the last FINISHED_REPETITION with its reason, and
  nothing else of the request changes; a request that is not stopped is unchanged.\<close>

theorem check_stop_correct:
  fixes max_len :: int
  assumes "pooling r = None" "sampling r = Some sp" "output_token_ids r \<noteq> []"
  defines "eos \<equiv> Some (last (output_token_ids r)) = sp_eos_token_id sp"
    and "stop \<equiv> last (output_token_ids r) \<in> set (sp_stop_token_ids sp)"
    and "full \<equiv> num_tokens r \<ge> max_len \<or> num_output_tokens r \<ge> max_tokens r"
    and "loop \<equiv> (case sp_repetition_detection sp of None \<Rightarrow> False | Some p \<Rightarrow> tail_repeats (output_token_ids r) p)"
  shows "\<exists>b r'. check_stop r max_len = Inr (b, r')
    \<and> (b \<longleftrightarrow> num_output_tokens r \<ge> sp_min_tokens sp \<and> (eos \<or> stop \<or> full \<or> loop))
    \<and> (\<not> b \<longrightarrow> r' = r)
    \<and> (b \<longrightarrow> is_finished r'
         \<and> get_finished_reason r' = Some (if eos \<or> stop then FR_STOP else if full then FR_LENGTH else FR_REPETITION)
         \<and> r' = r\<lparr>status := if eos \<or> stop then FINISHED_STOPPED else if full then FINISHED_LENGTH_CAPPED else FINISHED_REPETITION,
                  stop_reason_of := if eos then stop_reason_of r
                    else if stop then Some (StopToken (last (output_token_ids r)))
                    else if full then stop_reason_of r else Some (StopString ''repetition_detected'')\<rparr>)"
proof -
  have g: "py_get (output_token_ids r) (-1) = Inr (last (output_token_ids r))"
    using assms(3) py_get_neg [of 1 "output_token_ids r"] by (simp add: last_conv_nth Suc_leI)
  have rep: "check_sequence_repetition (output_token_ids r) p = Inr (tail_repeats (output_token_ids r) p)" for p
    unfolding tail_repeats_def by (rule check_sequence_repetition_eq)
  show ?thesis
    using assms(1-2) g
    by (auto simp: check_stop_def is_finished_def get_finished_reason_def rep eos_def stop_def full_def loop_def split: option.splits)
qed

theorem check_stop_correct_witness:
  "\<exists>r'. check_stop (plain_request ''a'' [1, 2, 3] 2\<lparr>output_token_ids := [7, 7], all_token_ids := [1, 2, 3, 7, 7]\<rparr>) 100 = Inr (True, r')
     \<and> status r' = FINISHED_LENGTH_CAPPED \<and> get_finished_reason r' = Some FR_LENGTH \<and> stop_reason_of r' = None"
  using check_stop_correct [of "plain_request ''a'' [1, 2, 3] 2\<lparr>output_token_ids := [7, 7], all_token_ids := [1, 2, 3, 7, 7]\<rparr>"
      "greedy_params 2" 100]
  by (auto simp: plain_request_def greedy_params_def)

end
