(* ===== verification/Block_Hash.thy ===== *)
theory Block_Hash
  imports Request
begin

text \<open>
  Block hashing for prefix caching, from src/vllm/v1/core/kv\_cache\_utils.py: the packing of a block
  hash with its cache-group id, the extra keys of a block (LoRA name, multi-modal inputs, cache salt,
  prompt embeddings), the chained hash of a block and the incremental hasher of a request, and the
  view of a hash list at a coarser block size.

  The hash function (sha256 or xxhash over pickle or CBOR), the digest of prompt embeddings and the
  hash seed are parameters of the model.
\<close>

section \<open>Keys of the prefix cache\<close>

text \<open>\<^verbatim>\<open>group_id.to_bytes(4, "big", signed=False)\<close>.\<close>

definition to_bytes4 :: "int \<Rightarrow> bytes res" where
  "to_bytes4 g =
     (if g < 0 \<or> g \<ge> 2 ^ 32 then Inl OverflowError
      else Inr [word_of_int (g div 2 ^ 24), word_of_int (g div 2 ^ 16), word_of_int (g div 2 ^ 8), word_of_int g])"

fun from_bytes_acc :: "int \<Rightarrow> bytes \<Rightarrow> int" where
  "from_bytes_acc acc [] = acc"
| "from_bytes_acc acc (b # bs) = from_bytes_acc (acc * 256 + uint b) bs"

definition from_bytes :: "bytes \<Rightarrow> int" where
  "from_bytes bs = from_bytes_acc 0 bs"

definition make_block_hash_with_group_id :: "bytes \<Rightarrow> int \<Rightarrow> bytes res" where
  "make_block_hash_with_group_id h g = bindE (to_bytes4 g) (\<lambda>bs. Inr (h @ bs))"

definition get_block_hash :: "bytes \<Rightarrow> bytes" where
  "get_block_hash key = py_upto key (-4)"

definition get_group_id :: "bytes \<Rightarrow> int" where
  "get_group_id key = from_bytes (py_from key (-4))"

datatype external_hash = ExtBytes bytes | ExtInt int

text \<open>\<^verbatim>\<open>envs.VLLM_KV_EVENTS_USE_INT_BLOCK_HASHES\<close> is the flag; the mask keeps the low 64 bits.\<close>

definition maybe_convert_block_hash :: "bool \<Rightarrow> bytes \<Rightarrow> external_hash" where
  "maybe_convert_block_hash use_int h =
     (if \<not> use_int then ExtBytes h else ExtInt (from_bytes h mod 2 ^ 64))"

section \<open>Extra keys\<close>

text \<open>A LoRA name and a cache salt are both Python strings, a multi-modal key is a pair, an embedding
  digest is a byte string.\<close>

datatype extra_key = KStr string | KMM string int | KBytes bytes

type_synonym hash_fn = "bytes \<times> token list \<times> extra_key list option \<Rightarrow> bytes"

definition need_extra_keys :: "request \<Rightarrow> bool" where
  "need_extra_keys r \<longleftrightarrow> mm_features r \<noteq> [] \<or> lora r \<noteq> None \<or> cache_salt r \<noteq> None"

function mm_keys_loop :: "mm_feature list \<Rightarrow> int \<Rightarrow> int \<Rightarrow> nat \<Rightarrow> extra_key list \<times> nat" where
  "mm_keys_loop feats s e i =
     (if i < length feats then
        (let f = feats ! i; off = pr_offset (mm_position f); len = pr_length (mm_position f) in
         if e > off then
           if s \<ge> off + len then mm_keys_loop feats s e (Suc i)
           else if e \<ge> off + len
             then (let (ks, j) = mm_keys_loop feats s e (Suc i) in (KMM (mm_identifier f) (off - s) # ks, j))
             else ([KMM (mm_identifier f) (off - s)], i)
         else ([], i))
      else ([], i))"
  by pat_completeness auto
termination
  by (relation "measure (\<lambda>(feats, s, e, i). length feats - i)") auto

declare mm_keys_loop.simps [simp del]

definition gen_mm_extra_hash_keys :: "request \<Rightarrow> int \<Rightarrow> int \<Rightarrow> int \<Rightarrow> (extra_key list \<times> int) res" where
  "gen_mm_extra_hash_keys r s e start_mm =
     (let feats = mm_features r in
      if feats = [] then Inr ([], start_mm)
      else if pr_offset (mm_position (last feats)) + pr_length (mm_position (last feats)) \<le> s
        then Inr ([], start_mm)
      else if start_mm < 0 \<and> \<not> (- start_mm \<le> int (length feats)) then Inl AssertionError
      else (let i0 = (if start_mm < 0 then int (length feats) + start_mm else start_mm);
                (ks, j) = mm_keys_loop feats s e (nat i0)
            in Inr (ks, int j)))"

definition gen_lora_extra_hash_keys :: "request \<Rightarrow> extra_key list" where
  "gen_lora_extra_hash_keys r = (case lora r of None \<Rightarrow> [] | Some l \<Rightarrow> [KStr (lora_name l)])"

text \<open>\<open>digest\<close> is sha256 over the raw data of a slice of the embeddings. The memo of the request is
  filled on a miss.\<close>

definition gen_prompt_embeds_extra_hash_keys ::
  "(int list list \<Rightarrow> bytes) \<Rightarrow> request \<Rightarrow> int \<Rightarrow> int \<Rightarrow> extra_key list \<times> request" where
  "gen_prompt_embeds_extra_hash_keys digest r s e =
     (case prompt_embeds r of
        None \<Rightarrow> ([], r)
      | Some emb \<Rightarrow>
          (case embeds_memo r (s, e) of
             Some h \<Rightarrow> ([KBytes h], r)
           | None \<Rightarrow>
               (let h = digest (py_slice emb s e)
                in ([KBytes h], r\<lparr>embeds_memo := (embeds_memo r)((s, e) \<mapsto> h)\<rparr>))))"

definition generate_block_hash_extra_keys ::
  "(int list list \<Rightarrow> bytes) \<Rightarrow> request \<Rightarrow> int \<Rightarrow> int \<Rightarrow> int \<Rightarrow> (extra_key list option \<times> int \<times> request) res" where
  "generate_block_hash_extra_keys digest r s e start_mm =
     bindE (gen_mm_extra_hash_keys r s e start_mm) (\<lambda>(mm_keys, new_mm).
       let lora_keys = gen_lora_extra_hash_keys r;
           salt_keys = (case cache_salt r of
                          Some c \<Rightarrow> if s = 0 \<and> c \<noteq> '''' then [KStr c] else []
                        | None \<Rightarrow> []);
           (emb_keys, r') = gen_prompt_embeds_extra_hash_keys digest r s e;
           keys = lora_keys @ mm_keys @ salt_keys @ emb_keys
       in Inr (if keys = [] then None else Some keys, new_mm, r'))"

section \<open>The chained hash of a block and the request hasher\<close>

definition hash_block_tokens ::
  "hash_fn \<Rightarrow> bytes \<Rightarrow> bytes option \<Rightarrow> token list \<Rightarrow> extra_key list option \<Rightarrow> bytes" where
  "hash_block_tokens H none_hash parent toks keys =
     H (case parent of None \<Rightarrow> none_hash | Some p \<Rightarrow> if p = [] then none_hash else p, toks, keys)"

text \<open>The \<^verbatim>\<open>while True\<close> loop of the hasher. Block sizes are positive (the loop of the source
  would not end on a block size of zero; the configuration excludes it), which the guard keeps.\<close>

function hash_loop ::
  "hash_fn \<Rightarrow> bytes \<Rightarrow> (int list list \<Rightarrow> bytes) \<Rightarrow> int \<Rightarrow> int \<Rightarrow> request \<Rightarrow> int \<Rightarrow> int \<Rightarrow> bytes option \<Rightarrow> (bytes list \<times> request) res" where
  "hash_loop H none_hash digest bs nt r start mm prev =
     (if bs \<le> 0 \<or> start + bs > nt then Inr ([], r)
      else (case generate_block_hash_extra_keys digest r start (start + bs) mm of
              Inl e \<Rightarrow> Inl e
            | Inr (keys, mm', r') \<Rightarrow>
                (let h = hash_block_tokens H none_hash prev (py_slice (all_token_ids r) start (start + bs)) keys
                 in (case hash_loop H none_hash digest bs nt r' (start + bs) mm' (Some h) of
                       Inl e \<Rightarrow> Inl e
                     | Inr (hs, r'') \<Rightarrow> Inr (h # hs, r'')))))"
  by pat_completeness auto
termination
  by (relation "measure (\<lambda>(H, n, d, bs, nt, r, start, mm, prev). nat (nt - start))") auto

declare hash_loop.simps [simp del]

definition request_block_hasher ::
  "int \<Rightarrow> hash_fn \<Rightarrow> bytes \<Rightarrow> (int list list \<Rightarrow> bytes) \<Rightarrow> block_hasher" where
  "request_block_hasher bs H none_hash digest r =
     (let start = int (length (block_hashes r)) * bs; nt = num_tokens r in
      if start + bs > nt then Inr ([], r)
      else hash_loop H none_hash digest bs nt r start (if start > 0 then -1 else 0)
             (if block_hashes r = [] then None else Some (last (block_hashes r))))"

section \<open>Hash lists at a coarser block size\<close>

record hash_view =
  hv_hashes :: "bytes list"
  scale_factor :: int

definition hash_list_with_block_size :: "bytes list \<Rightarrow> int \<Rightarrow> int \<Rightarrow> hash_view res" where
  "hash_list_with_block_size hs hbs tbs =
     (if hbs = 0 then Inl ZeroDivisionError
      else assertE (tbs mod hbs = 0) (Inr \<lparr>hv_hashes = hs, scale_factor = tbs div hbs\<rparr>))"

definition hv_len :: "hash_view \<Rightarrow> int" where
  "hv_len v = int (length (hv_hashes v)) div scale_factor v"

definition get_value_at :: "hash_view \<Rightarrow> int \<Rightarrow> bytes res" where
  "get_value_at v i =
     (let base = i * scale_factor v; fin = base + scale_factor v in
      bindE (py_get (hv_hashes v) base) (\<lambda>h0.
        foldE (\<lambda>j acc. bindE (py_get (hv_hashes v) j) (\<lambda>h. Inr (acc @ h))) [base + 1..fin - 1] h0))"

definition hv_from :: "hash_view \<Rightarrow> int \<Rightarrow> bytes list res" where
  "hv_from v start =
     mapE (get_value_at v) [py_clip (hv_len v) start..hv_len v - 1]"

definition hv_iter :: "hash_view \<Rightarrow> bytes list res" where
  "hv_iter v = mapE (get_value_at v) [0..hv_len v - 1]"

section \<open>Packing and unpacking keys\<close>

lemma from_bytes_acc_append: "from_bytes_acc a (xs @ [b]) = from_bytes_acc a xs * 256 + uint b"
  by (induction xs arbitrary: a) auto

lemma uint_byte: "uint (word_of_int x :: 8 word) = x mod 256"
  by (simp add: uint_word_of_int)

lemma from_to_bytes4: "to_bytes4 g = Inr bs \<Longrightarrow> from_bytes bs = g \<and> length bs = 4"
proof -
  assume "to_bytes4 g = Inr bs"
  then have g: "0 \<le> g" "g < 2 ^ 32"
    and bs: "bs = [word_of_int (g div 2 ^ 24), word_of_int (g div 2 ^ 16), word_of_int (g div 2 ^ 8), word_of_int g]"
    by (auto simp: to_bytes4_def split: if_splits)
  define q1 q2 q3 where "q1 = g div 256" and "q2 = q1 div 256" and "q3 = q2 div 256"
  have q2: "g div 65536 = q2" using zdiv_zmult2_eq [of 256 g 256] by (simp add: q1_def q2_def)
  have q3: "g div 16777216 = q3"
    using zdiv_zmult2_eq [of 256 g 65536] q2 by (simp add: q3_def)
  have "q3 mod 256 = q3" using g unfolding q3 [symmetric] by (intro mod_pos_pos_trivial) auto
  moreover have "q3 * 256 + q2 mod 256 = q2" unfolding q3_def by (rule div_mult_mod_eq)
  moreover have "q2 * 256 + q1 mod 256 = q1" unfolding q2_def by (rule div_mult_mod_eq)
  moreover have "q1 * 256 + g mod 256 = g" unfolding q1_def by (rule div_mult_mod_eq)
  ultimately have "((g div 16777216 mod 256 * 256 + g div 65536 mod 256) * 256 + g div 256 mod 256) * 256 + g mod 256 = g"
    unfolding q2 q3 q1_def [symmetric] by (simp only:)
  moreover have "(2 :: int) ^ 24 = 16777216" "(2 :: int) ^ 16 = 65536" "(2 :: int) ^ 8 = 256" by simp_all
  ultimately have "from_bytes bs = g"
    unfolding bs from_bytes_def from_bytes_acc.simps uint_byte by (simp only: mult_zero_left add_0)
  then show ?thesis by (simp add: bs)
qed

lemma unpack_key:
  assumes "length bs = 4"
  shows "py_upto (h @ bs) (-4) = h" "py_from (h @ bs) (-4) = bs"
  using assms by (simp_all add: py_upto_def py_from_def py_clip_def)

lemma make_key_Inr:
  "make_block_hash_with_group_id h g = Inr k \<Longrightarrow> get_block_hash k = h \<and> get_group_id k = g"
  using from_to_bytes4 [of g]
  by (auto simp: make_block_hash_with_group_id_def get_block_hash_def get_group_id_def unpack_key)

lemma make_key_inj:
  "make_block_hash_with_group_id h g = Inr k \<Longrightarrow> make_block_hash_with_group_id h' g' = Inr k \<Longrightarrow> h = h' \<and> g = g'"
  using make_key_Inr by metis

lemma make_key_total:
  "0 \<le> g \<Longrightarrow> g < 2 ^ 32 \<Longrightarrow> \<exists>k. make_block_hash_with_group_id h g = Inr k"
  by (simp add: make_block_hash_with_group_id_def to_bytes4_def)

text \<open>packing a block hash with a group id succeeds exactly for ids of 32 bits
  (other ids raise OverflowError), and unpacking returns both components.\<close>

theorem block_key_roundtrip:
  "(case make_block_hash_with_group_id h g of
      Inr k \<Rightarrow> 0 \<le> g \<and> g < 2 ^ 32 \<and> get_block_hash k = h \<and> get_group_id k = g
    | Inl e \<Rightarrow> e = OverflowError \<and> (g < 0 \<or> g \<ge> 2 ^ 32))"
proof (cases "make_block_hash_with_group_id h g")
  case (Inl e)
  then show ?thesis by (auto simp: make_block_hash_with_group_id_def to_bytes4_def split: if_splits)
next
  case (Inr k)
  then have "to_bytes4 g \<noteq> Inl OverflowError" by (auto simp: make_block_hash_with_group_id_def)
  then have "0 \<le> g" "g < 2 ^ 32" by (auto simp: to_bytes4_def split: if_splits)
  with Inr show ?thesis using make_key_Inr by simp
qed

section \<open>The coarser view\<close>

lemma get_value_at_eq:
  assumes "scale_factor v = int s" "0 < s" "Suc i * s \<le> length (hv_hashes v)"
  shows "get_value_at v (int i) = Inr (concat (take s (drop (i * s) (hv_hashes v))))"
proof -
  let ?hs = "hv_hashes v"
  have loop: "foldE (\<lambda>j acc. bindE (py_get ?hs j) (\<lambda>h. Inr (acc @ h))) [int a..int b - 1] acc
      = Inr (acc @ concat (take (b - a) (drop a ?hs)))" if "b \<le> length ?hs" "a \<le> b" for a b acc
    using that
  proof (induction "b - a" arbitrary: a acc)
    case 0
    then show ?case by simp
  next
    case (Suc k)
    then have ab: "a < b" by simp
    have "[int a..int b - 1] = int a # [int (Suc a)..int b - 1]"
      using ab by (simp add: upto.simps add.commute)
    moreover have "take (b - a) (drop a ?hs) = ?hs ! a # take (b - Suc a) (drop (Suc a) ?hs)"
      using ab Suc.prems by (simp add: drop_nth_tl take_Cons' Suc_diff_Suc)
    ultimately show ?case using Suc.hyps(1) [of "Suc a"] Suc.hyps(2) Suc.prems ab by simp
  qed
  have base: "i * s < length ?hs" using assms by (metis add_lessD1 le_add2 less_le_trans mult_Suc add.commute less_add_same_cancel1)
  have "get_value_at v (int i) = bindE (py_get ?hs (int (i * s))) (\<lambda>h0.
     foldE (\<lambda>j acc. bindE (py_get ?hs j) (\<lambda>h. Inr (acc @ h))) [int (Suc (i * s))..int (i * s + s) - 1] h0)"
    using assms(1) by (simp add: get_value_at_def Let_def add.commute)
  also have "\<dots> = Inr (?hs ! (i * s) @ concat (take (i * s + s - Suc (i * s)) (drop (Suc (i * s)) ?hs)))"
    using base assms loop [of "i * s + s" "Suc (i * s)"] py_get_int [of ?hs "i * s"]
    by (simp del: py_get_int of_nat_mult)
  also have "\<dots> = Inr (concat (take s (drop (i * s) ?hs)))"
    using base assms(2) by (cases s) (simp_all add: drop_nth_tl)
  finally show ?thesis .
qed

text \<open>viewing a list of block hashes at a multiple \<open>s\<close> of the hash block size never
  raises, has one entry per \<open>s\<close> full hashes, and its \<open>i\<close>-th entry is the concatenation of the hashes
  \<open>i*s .. i*s+s-1\<close>.\<close>

theorem hash_view_iter:
  assumes "0 < hbs" "tbs = int s * hbs" "0 < s"
  shows "\<exists>v. hash_list_with_block_size hs hbs tbs = Inr v \<and> hv_len v = int (length hs div s)
    \<and> hv_iter v = Inr (map (\<lambda>i. concat (take s (drop (i * s) hs))) [0..<length hs div s])"
proof -
  let ?v = "\<lparr>hv_hashes = hs, scale_factor = int s\<rparr>"
  have v: "hash_list_with_block_size hs hbs tbs = Inr ?v"
    using assms by (simp add: hash_list_with_block_size_def)
  have len: "hv_len ?v = int (length hs div s)" by (simp add: hv_len_def zdiv_int)
  have "get_value_at ?v (int i) = Inr (concat (take s (drop (i * s) hs)))"
    if "i < length hs div s" for i
  proof -
    have "Suc i * s \<le> length hs div s * s" using that by (intro mult_le_mono1) simp
    also have "\<dots> \<le> length hs" by (rule div_times_less_eq_dividend)
    finally show ?thesis using get_value_at_eq [of ?v s i] assms(3) by simp
  qed
  then have "hv_iter ?v = Inr (map (\<lambda>i. concat (take s (drop (i * s) hs))) [0..<length hs div s])"
    unfolding hv_iter_def len upto_map_int mapE_map by (intro mapE_all_Inr) simp
  with v len show ?thesis by blast
qed

section \<open>The hasher computes the chain of block hashes\<close>

text \<open>Reference: the extra keys of block \<open>i\<close> from the whole feature list and without memo, and the
  hash chain by recursion on the block index.\<close>

definition mm_end :: "mm_feature \<Rightarrow> int" where
  "mm_end f = pr_offset (mm_position f) + pr_length (mm_position f)"

definition block_keys :: "(int list list \<Rightarrow> bytes) \<Rightarrow> request \<Rightarrow> int \<Rightarrow> int \<Rightarrow> extra_key list option" where
  "block_keys digest r s e =
     (let keys = gen_lora_extra_hash_keys r @ fst (mm_keys_loop (mm_features r) s e 0)
                 @ (case cache_salt r of Some c \<Rightarrow> if s = 0 \<and> c \<noteq> '''' then [KStr c] else [] | None \<Rightarrow> [])
                 @ (case prompt_embeds r of None \<Rightarrow> [] | Some emb \<Rightarrow> [KBytes (digest (py_slice emb s e))])
      in if keys = [] then None else Some keys)"

definition block_input :: "(int list list \<Rightarrow> bytes) \<Rightarrow> int \<Rightarrow> request \<Rightarrow> nat \<Rightarrow> token list \<times> extra_key list option" where
  "block_input digest bs r i =
     (py_slice (all_token_ids r) (int i * bs) (int i * bs + bs), block_keys digest r (int i * bs) (int i * bs + bs))"

primrec ref_hash :: "hash_fn \<Rightarrow> bytes \<Rightarrow> (int list list \<Rightarrow> bytes) \<Rightarrow> int \<Rightarrow> request \<Rightarrow> nat \<Rightarrow> bytes" where
  "ref_hash H none_hash digest bs r 0 =
     hash_block_tokens H none_hash None (fst (block_input digest bs r 0)) (snd (block_input digest bs r 0))"
| "ref_hash H none_hash digest bs r (Suc i) =
     hash_block_tokens H none_hash (Some (ref_hash H none_hash digest bs r i))
       (fst (block_input digest bs r (Suc i))) (snd (block_input digest bs r (Suc i)))"

text \<open>Multi-modal inputs come in order and do not have negative lengths; the memo holds digests of
  the request's own embeddings.\<close>

definition wf_mm :: "request \<Rightarrow> bool" where
  "wf_mm r \<longleftrightarrow> sorted (map mm_end (mm_features r)) \<and> (\<forall>f\<in>set (mm_features r). 0 \<le> pr_length (mm_position f))"

definition memo_ok :: "(int list list \<Rightarrow> bytes) \<Rightarrow> request \<Rightarrow> bool" where
  "memo_ok digest r \<longleftrightarrow>
     (\<forall>emb s e h. prompt_embeds r = Some emb \<longrightarrow> embeds_memo r (s, e) = Some h \<longrightarrow> h = digest (py_slice emb s e))"

definition mm_index :: "mm_feature list \<Rightarrow> int \<Rightarrow> int" where
  "mm_index feats mm = (if mm < 0 then int (length feats) + mm else mm)"

text \<open>Every feature before the current index ends at or before position \<open>s\<close>.\<close>

definition idx_ok :: "mm_feature list \<Rightarrow> int \<Rightarrow> int \<Rightarrow> bool" where
  "idx_ok feats s mm \<longleftrightarrow> feats = [] \<or>
     (0 \<le> mm_index feats mm \<and> (\<forall>k < length feats. int k < mm_index feats mm \<longrightarrow> mm_end (feats ! k) \<le> s))"

lemma idx_ok_mono: "idx_ok feats s mm \<Longrightarrow> s \<le> t \<Longrightarrow> idx_ok feats t mm"
  by (force simp: idx_ok_def)

lemma mm_loop_skip:
  assumes "\<forall>f\<in>set feats. 0 \<le> pr_length (mm_position f)" "s < e" "j \<le> length feats"
    and "\<forall>k<j. mm_end (feats ! k) \<le> s"
  shows "mm_keys_loop feats s e 0 = mm_keys_loop feats s e j"
  using assms(3,4)
proof (induction j)
  case 0
  then show ?case by simp
next
  case (Suc j)
  let ?f = "feats ! j"
  have "0 \<le> pr_length (mm_position ?f)" using assms(1) Suc.prems(1) by simp
  moreover have "mm_end ?f \<le> s" using Suc.prems(2) by simp
  ultimately have "mm_keys_loop feats s e j = mm_keys_loop feats s e (Suc j)"
    using Suc.prems(1) assms(2) by (subst mm_keys_loop.simps) (simp add: mm_end_def Let_def)
  with Suc show ?case by simp
qed

lemma mm_loop_next:
  assumes "mm_keys_loop feats s e i = (ks, j)" "s < e" "i \<le> length feats"
  shows "i \<le> j \<and> j \<le> length feats \<and> (\<forall>k. i \<le> k \<and> k < j \<longrightarrow> mm_end (feats ! k) \<le> e)"
  using assms
proof (induction feats s e i arbitrary: ks j rule: mm_keys_loop.induct)
  case (1 feats s e i)
  let ?off = "pr_offset (mm_position (feats ! i))" and ?len = "pr_length (mm_position (feats ! i))"
  note eq = mm_keys_loop.simps [of feats s e i]
  consider (stop) "j = i" | (skip) "i < length feats" "e > ?off" "s \<ge> ?off + ?len" "mm_keys_loop feats s e (Suc i) = (ks, j)"
    | (take) ks' where "i < length feats" "e > ?off" "\<not> s \<ge> ?off + ?len" "e \<ge> ?off + ?len" "mm_keys_loop feats s e (Suc i) = (ks', j)"
    using "1.prems"(1) unfolding eq Let_def by (auto split: if_splits prod.splits)
  then show ?case
  proof cases
    case stop
    then show ?thesis using "1.prems" by simp
  next
    case skip
    then have "Suc i \<le> j \<and> j \<le> length feats \<and> (\<forall>k. Suc i \<le> k \<and> k < j \<longrightarrow> mm_end (feats ! k) \<le> e)"
      using "1.IH"(1) "1.prems"(2) by (metis Suc_leI)
    moreover have "mm_end (feats ! i) \<le> e" using skip "1.prems"(2) by (simp add: mm_end_def)
    ultimately show ?thesis by (metis Suc_leD Suc_leI le_neq_implies_less)
  next
    case take
    then have "Suc i \<le> j \<and> j \<le> length feats \<and> (\<forall>k. Suc i \<le> k \<and> k < j \<longrightarrow> mm_end (feats ! k) \<le> e)"
      using "1.IH"(2) "1.prems"(2) by (metis Suc_leI)
    moreover have "mm_end (feats ! i) \<le> e" using take by (simp add: mm_end_def)
    ultimately show ?thesis by (metis Suc_leD Suc_leI le_neq_implies_less)
  qed
qed

lemma mm_loop_past:
  assumes "\<forall>f\<in>set feats. 0 \<le> pr_length (mm_position f)" "s < e" "\<forall>f\<in>set feats. mm_end f \<le> s"
  shows "fst (mm_keys_loop feats s e 0) = []"
  using mm_loop_skip [OF assms(1,2), of "length feats"] assms(3)
  by (simp add: mm_keys_loop.simps [of _ _ _ "length feats"])

lemma gen_mm_keys:
  assumes "wf_mm r" "s < e" "idx_ok (mm_features r) s mm"
  shows "\<exists>mm'. gen_mm_extra_hash_keys r s e mm = Inr (fst (mm_keys_loop (mm_features r) s e 0), mm')
            \<and> idx_ok (mm_features r) e mm'"
proof -
  let ?F = "mm_features r"
  have len: "\<forall>f\<in>set ?F. 0 \<le> pr_length (mm_position f)" using assms(1) by (simp add: wf_mm_def)
  consider (nil) "?F = []" | (past) "?F \<noteq> []" "mm_end (last ?F) \<le> s" | (look) "?F \<noteq> []" "\<not> mm_end (last ?F) \<le> s"
    by blast
  then show ?thesis
  proof cases
    case nil
    then show ?thesis by (simp add: gen_mm_extra_hash_keys_def idx_ok_def mm_keys_loop.simps [of "[]"])
  next
    case past
    have "mm_end f \<le> s" if "f \<in> set ?F" for f
    proof -
      from that obtain k where k: "k < length ?F" "f = ?F ! k" by (auto simp: in_set_conv_nth)
      have "map mm_end ?F ! k \<le> map mm_end ?F ! (length ?F - 1)"
        using assms(1) k by (intro sorted_nth_mono) (auto simp: wf_mm_def)
      then show ?thesis using k past by (simp add: last_conv_nth)
    qed
    then have "fst (mm_keys_loop ?F s e 0) = []" using mm_loop_past [OF len assms(2)] by simp
    then show ?thesis using past idx_ok_mono [OF assms(3)] assms(2)
      by (simp add: gen_mm_extra_hash_keys_def mm_end_def Let_def)
  next
    case look
    define i where "i = nat (mm_index ?F mm)"
    have i0: "0 \<le> mm_index ?F mm" and ends: "\<forall>k < length ?F. k < i \<longrightarrow> mm_end (?F ! k) \<le> s"
      using assms(3) look by (auto simp: idx_ok_def i_def)
    have il: "i \<le> length ?F - 1"
    proof (rule ccontr)
      assume "\<not> i \<le> length ?F - 1"
      then have "mm_end (last ?F) \<le> s" using ends look(1) by (simp add: last_conv_nth)
      with look(2) show False by simp
    qed
    obtain ks j where kj: "mm_keys_loop ?F s e i = (ks, j)" by fastforce
    have "mm_keys_loop ?F s e 0 = (ks, j)"
      using mm_loop_skip [OF len assms(2), of i] il ends kj by auto
    moreover have nx: "i \<le> j \<and> j \<le> length ?F \<and> (\<forall>k. i \<le> k \<and> k < j \<longrightarrow> mm_end (?F ! k) \<le> e)"
      using mm_loop_next [OF kj assms(2)] il by simp
    moreover have "idx_ok ?F e (int j)"
    proof -
      have "mm_end (?F ! k) \<le> e" if "k < length ?F" "k < j" for k
      proof (cases "i \<le> k")
        case True
        then show ?thesis using that nx by blast
      next
        case False
        then have "mm_end (?F ! k) \<le> s" using that ends by auto
        then show ?thesis using assms(2) by simp
      qed
      then show ?thesis by (auto simp: idx_ok_def mm_index_def)
    qed
    moreover have "gen_mm_extra_hash_keys r s e mm = Inr (ks, int j)"
      using look i0 kj by (simp add: gen_mm_extra_hash_keys_def mm_end_def mm_index_def i_def Let_def split: if_splits)
    ultimately show ?thesis by simp
  qed
qed

definition same_content :: "request \<Rightarrow> request \<Rightarrow> bool" where
  "same_content r r' \<longleftrightarrow> (\<exists>m. r' = r\<lparr>embeds_memo := m\<rparr>)"

lemma same_content_fields:
  assumes "same_content r r'"
  shows "all_token_ids r' = all_token_ids r" "mm_features r' = mm_features r" "block_hashes r' = block_hashes r"
    "wf_mm r' = wf_mm r" "block_keys digest r' = block_keys digest r" "block_input digest bs r' = block_input digest bs r"
    "output_token_ids r' = output_token_ids r"
proof -
  obtain m where r': "r' = r\<lparr>embeds_memo := m\<rparr>" using assms by (auto simp: same_content_def)
  show "all_token_ids r' = all_token_ids r" "mm_features r' = mm_features r" "block_hashes r' = block_hashes r"
    "wf_mm r' = wf_mm r" "output_token_ids r' = output_token_ids r" "block_keys digest r' = block_keys digest r"
    by (simp_all add: r' wf_mm_def block_keys_def fun_eq_iff gen_lora_extra_hash_keys_def)
  then show "block_input digest bs r' = block_input digest bs r" by (simp add: block_input_def fun_eq_iff)
qed

lemma same_content_trans: "same_content a b \<Longrightarrow> same_content b c \<Longrightarrow> same_content a c"
  by (auto simp: same_content_def)

lemma same_content_refl: "same_content r r"
  unfolding same_content_def by (rule exI [of _ "embeds_memo r"]) simp

lemma gen_embeds_keys:
  assumes "memo_ok digest r" "gen_prompt_embeds_extra_hash_keys digest r s e = (ek, r')"
  shows "ek = (case prompt_embeds r of None \<Rightarrow> [] | Some emb \<Rightarrow> [KBytes (digest (py_slice emb s e))])"
    "memo_ok digest r'" "same_content r r'"
proof -
  note u = gen_prompt_embeds_extra_hash_keys_def Let_def
  have "ek = (case prompt_embeds r of None \<Rightarrow> [] | Some emb \<Rightarrow> [KBytes (digest (py_slice emb s e))])
    \<and> memo_ok digest r' \<and> same_content r r'"
  proof (cases "prompt_embeds r")
    case None
    then have "ek = []" "r' = r" using assms(2) by (simp_all only: u option.case prod.inject)
    then show ?thesis using None assms(1) same_content_refl by simp
  next
    case (Some emb)
    show ?thesis
    proof (cases "embeds_memo r (s, e)")
      case None
      have "ek = [KBytes (digest (py_slice emb s e))]"
        and r': "r' = r\<lparr>embeds_memo := (embeds_memo r)((s, e) \<mapsto> digest (py_slice emb s e))\<rparr>"
        using assms(2) by (simp_all only: u Some None option.case prod.inject)
      moreover have "memo_ok digest r'" using assms(1) Some by (simp add: memo_ok_def r')
      ultimately show ?thesis using Some by (auto simp only: same_content_def option.case)
    next
      case (Some h)
      have "ek = [KBytes h]" and r': "r' = r"
        using assms(2) by (simp_all only: u \<open>prompt_embeds r = Some emb\<close> Some option.case prod.inject)
      then show ?thesis
        using assms(1) Some \<open>prompt_embeds r = Some emb\<close> same_content_refl by (simp add: memo_ok_def)
    qed
  qed
  then show "ek = (case prompt_embeds r of None \<Rightarrow> [] | Some emb \<Rightarrow> [KBytes (digest (py_slice emb s e))])"
    "memo_ok digest r'" "same_content r r'" by simp_all
qed

lemma generate_keys:
  assumes "wf_mm r" "s < e" "idx_ok (mm_features r) s mm" "memo_ok digest r"
  shows "\<exists>mm' r'. generate_block_hash_extra_keys digest r s e mm = Inr (block_keys digest r s e, mm', r')
     \<and> idx_ok (mm_features r) e mm' \<and> memo_ok digest r' \<and> same_content r r'"
proof -
  obtain mm' where mm': "gen_mm_extra_hash_keys r s e mm = Inr (fst (mm_keys_loop (mm_features r) s e 0), mm')"
    "idx_ok (mm_features r) e mm'" using gen_mm_keys [OF assms(1-3)] by blast
  obtain ek r' where g: "gen_prompt_embeds_extra_hash_keys digest r s e = (ek, r')" by fastforce
  have "ek = (case prompt_embeds r of None \<Rightarrow> [] | Some emb \<Rightarrow> [KBytes (digest (py_slice emb s e))])
      \<and> memo_ok digest r' \<and> same_content r r'"
    using gen_embeds_keys [OF assms(4) g] by simp
  then show ?thesis using mm' g
    by (simp add: generate_block_hash_extra_keys_def block_keys_def Let_def)
qed

lemma ref_hash_same: "same_content r r' \<Longrightarrow> ref_hash H n digest bs r' i = ref_hash H n digest bs r i"
  by (induction i) (simp_all add: same_content_fields)

lemma hash_loop_ref:
  assumes "0 < bs" "wf_mm r" "memo_ok digest r" "idx_ok (mm_features r) (int i * bs) mm"
    and "prev = (if i = 0 then None else Some (ref_hash H n digest bs r (i - 1)))"
  shows "\<exists>r'. hash_loop H n digest bs nt r (int i * bs) mm prev
               = Inr (map (ref_hash H n digest bs r) [i..<nat (nt div bs)], r')
            \<and> memo_ok digest r' \<and> same_content r r'"
  using assms(2-)
proof (induction "nat (nt div bs) - i" arbitrary: i r mm prev)
  case 0
  have "nt div bs < int i + 1" using 0 by linarith
  then have "nt < (int i + 1) * bs" by (simp only: div_less_int [OF assms(1)])
  then have "int i * bs + bs > nt" by (simp add: algebra_simps)
  moreover have "[i..<nat (nt div bs)] = []" using 0 by simp
  ultimately show ?case using 0 assms(1) same_content_refl by (auto simp: hash_loop.simps [of H n])
next
  case (Suc k)
  have i: "int i + 1 \<le> nt div bs" using Suc.hyps(2) by linarith
  then have "(int i + 1) * bs \<le> nt" using div_le_int [OF assms(1)] by simp
  then have run: "\<not> int i * bs + bs > nt" by (simp add: algebra_simps)
  let ?s = "int i * bs"
  obtain mm' r1 where g: "generate_block_hash_extra_keys digest r ?s (?s + bs) mm = Inr (block_keys digest r ?s (?s + bs), mm', r1)"
    and idx: "idx_ok (mm_features r) (?s + bs) mm'" and m1: "memo_ok digest r1" and sc: "same_content r r1"
    using generate_keys [OF Suc.prems(1) _ Suc.prems(3,2)] assms(1) by (metis less_add_same_cancel1)
  let ?h = "ref_hash H n digest bs r i"
  have h: "hash_block_tokens H n prev (py_slice (all_token_ids r) ?s (?s + bs)) (block_keys digest r ?s (?s + bs)) = ?h"
    using Suc.prems(4) by (cases i) (simp_all add: block_input_def)
  have s1: "?s + bs = int (Suc i) * bs" by (simp add: algebra_simps)
  have "\<exists>r'. hash_loop H n digest bs nt r1 (int (Suc i) * bs) mm' (Some ?h)
          = Inr (map (ref_hash H n digest bs r1) [Suc i..<nat (nt div bs)], r') \<and> memo_ok digest r' \<and> same_content r1 r'"
  proof (rule Suc.hyps(1))
    show "k = nat (nt div bs) - Suc i" using Suc.hyps(2) by simp
    show "wf_mm r1" using Suc.prems(1) same_content_fields [OF sc] by simp
    show "idx_ok (mm_features r1) (int (Suc i) * bs) mm'" using idx same_content_fields [OF sc] s1 by simp
    show "Some ?h = (if Suc i = 0 then None else Some (ref_hash H n digest bs r1 (Suc i - 1)))"
      using ref_hash_same [OF sc] by simp
  qed (rule m1)
  then obtain r' where r': "hash_loop H n digest bs nt r1 (int (Suc i) * bs) mm' (Some ?h)
          = Inr (map (ref_hash H n digest bs r1) [Suc i..<nat (nt div bs)], r')" "memo_ok digest r'" "same_content r1 r'"
    by blast
  have "map (ref_hash H n digest bs r1) [Suc i..<nat (nt div bs)] = map (ref_hash H n digest bs r) [Suc i..<nat (nt div bs)]"
    using ref_hash_same [OF sc] by simp
  moreover have "[i..<nat (nt div bs)] = i # [Suc i..<nat (nt div bs)]" using i by (simp add: upt_conv_Cons)
  ultimately have "hash_loop H n digest bs nt r ?s mm prev = Inr (map (ref_hash H n digest bs r) [i..<nat (nt div bs)], r')"
    using run assms(1) g h r'(1) s1 by (subst hash_loop.simps) (simp add: Let_def)
  then show ?case using r' same_content_trans [OF sc] by blast
qed

text \<open>What is true of the hashes of a request after every update: one hash per full block, each the
  chained hash of the request's prefix.\<close>

definition hashes_ok :: "hash_fn \<Rightarrow> bytes \<Rightarrow> (int list list \<Rightarrow> bytes) \<Rightarrow> int \<Rightarrow> request \<Rightarrow> bool" where
  "hashes_ok H n digest bs r \<longleftrightarrow>
     block_hashes r = map (ref_hash H n digest bs r) [0..<nat (num_tokens r div bs)] \<and> memo_ok digest r \<and> wf_mm r"

definition partial_hashes_ok :: "hash_fn \<Rightarrow> bytes \<Rightarrow> (int list list \<Rightarrow> bytes) \<Rightarrow> int \<Rightarrow> request \<Rightarrow> bool" where
  "partial_hashes_ok H n digest bs r \<longleftrightarrow>
     block_hashes r = map (ref_hash H n digest bs r) [0..<length (block_hashes r)] \<and> memo_ok digest r \<and> wf_mm r
     \<and> int (length (block_hashes r)) \<le> num_tokens r div bs"

text \<open>Where the hasher resumes after the first block it looks at the last multi-modal input only, so
  the earlier ones must end before the first block that is not hashed yet.\<close>

definition mm_settled :: "int \<Rightarrow> request \<Rightarrow> bool" where
  "mm_settled bs r \<longleftrightarrow> (block_hashes r \<noteq> [] \<longrightarrow>
     (\<forall>f\<in>set (butlast (mm_features r)). mm_end f \<le> int (length (block_hashes r)) * bs))"

lemma update_block_hashes_ok:
  assumes "0 < bs" "partial_hashes_ok H n digest bs r" "mm_settled bs r"
  shows "\<exists>r'. update_block_hashes (Some (request_block_hasher bs H n digest)) r = Inr r' \<and> hashes_ok H n digest bs r'
     \<and> all_token_ids r' = all_token_ids r \<and> output_token_ids r' = output_token_ids r \<and> mm_features r' = mm_features r"
proof -
  let ?i = "length (block_hashes r)" and ?nt = "num_tokens r"
  let ?n = "nat (?nt div bs)" and ?ref = "ref_hash H n digest bs r"
  have bh: "block_hashes r = map ?ref [0..<?i]" and mo: "memo_ok digest r" and wf: "wf_mm r" and le: "?i \<le> ?n"
    using assms(2) by (auto simp: partial_hashes_ok_def)
  have "\<exists>r'. request_block_hasher bs H n digest r = Inr (map ?ref [?i..<?n], r') \<and> memo_ok digest r' \<and> same_content r r'"
  proof (cases "int ?i * bs + bs > ?nt")
    case True
    then have "?nt < (int ?i + 1) * bs" by (simp add: algebra_simps)
    then have "?nt div bs < int ?i + 1" by (simp only: div_less_int [OF assms(1)])
    then have "[?i..<?n] = []" by simp
    with True mo show ?thesis by (auto simp: request_block_hasher_def same_content_def intro: exI [of _ "embeds_memo r"])
  next
    case False
    let ?prev = "if block_hashes r = [] then None else Some (last (block_hashes r))"
    have prev: "?prev = (if ?i = 0 then None else Some (?ref (?i - 1)))"
    proof (cases "?i = 0")
      case False
      have "?i - 1 < ?i" using False by (simp add: length_greater_0_conv [symmetric] del: length_greater_0_conv)
      then have "block_hashes r ! (?i - 1) = ?ref (?i - 1)"
        using arg_cong [OF bh, of "\<lambda>xs. xs ! (?i - 1)"] by simp
      with False show ?thesis by (simp add: last_conv_nth)
    qed simp
    have idx: "idx_ok (mm_features r) (int ?i * bs) (if int ?i * bs > 0 then -1 else 0)"
    proof (cases "?i = 0 \<or> mm_features r = []")
      case True
      then show ?thesis using assms(1) by (auto simp: idx_ok_def mm_index_def zero_less_mult_iff)
    next
      case f: False
      then have "int ?i * bs > 0" using assms(1) by simp
      moreover have "mm_end (mm_features r ! k) \<le> int ?i * bs" if "int k < int (length (mm_features r)) - 1" for k
      proof -
        have "mm_features r ! k = butlast (mm_features r) ! k" "k < length (butlast (mm_features r))"
          using that by (simp_all add: nth_butlast)
        then show ?thesis using assms(3) f by (metis length_0_conv mm_settled_def nth_mem)
      qed
      ultimately show ?thesis using f by (auto simp: idx_ok_def mm_index_def Suc_leI)
    qed
    from hash_loop_ref [OF assms(1) wf mo idx prev, of ?nt] show ?thesis
      using False by (simp add: request_block_hasher_def Let_def)
  qed
  then obtain r' where r': "request_block_hasher bs H n digest r = Inr (map ?ref [?i..<?n], r')" "memo_ok digest r'"
    "same_content r r'" by blast
  let ?r = "r'\<lparr>block_hashes := block_hashes r' @ map ?ref [?i..<?n]\<rparr>"
  obtain m where m: "r' = r\<lparr>embeds_memo := m\<rparr>" using r'(3) by (auto simp: same_content_def)
  have keys: "block_keys digest ?r = block_keys digest r"
    by (simp add: m block_keys_def fun_eq_iff gen_lora_extra_hash_keys_def)
  have inp: "block_input digest bs ?r = block_input digest bs r"
    by (simp add: block_input_def keys fun_eq_iff) (simp add: m)
  have ref: "ref_hash H n digest bs ?r j = ?ref j" for j
    by (induction j) (simp_all add: inp)
  have "block_hashes ?r = map ?ref ([0..<?i] @ [?i..<?n])" using bh by (simp add: m)
  also have "[0..<?i] @ [?i..<?n] = [0..<?n]" using le by (metis le_add_diff_inverse upt_add_eq_append zero_le)
  also have "map ?ref [0..<?n] = map (ref_hash H n digest bs ?r) [0..<?n]"
    by (intro map_cong refl ref [symmetric])
  finally have "block_hashes ?r = map (ref_hash H n digest bs ?r) [0..<?n]" .
  moreover have "memo_ok digest ?r" "wf_mm ?r" "num_tokens ?r = ?nt"
    using r'(2) wf by (simp_all add: memo_ok_def wf_mm_def m)
  ultimately have "hashes_ok H n digest bs ?r" by (simp only: hashes_ok_def simp_thms)
  then show ?thesis using r'(1) by (simp add: update_block_hashes_def) (simp add: m)
qed

section \<open>Appending tokens\<close>

lemma block_input_append:
  assumes "0 < bs" "int i < num_tokens r div bs"
  shows "block_input digest bs (r\<lparr>output_token_ids := outs, all_token_ids := all_token_ids r @ toks\<rparr>) i
         = block_input digest bs r i"
proof -
  have "(int i + 1) * bs \<le> num_tokens r" using assms by (simp add: div_le_int [symmetric])
  then have e: "int i * bs + bs \<le> num_tokens r" by (simp add: algebra_simps)
  have "0 \<le> int i * bs" using assms(1) by simp
  then have "py_slice (all_token_ids r @ toks) (int i * bs) (int i * bs + bs)
      = py_slice (all_token_ids r) (int i * bs) (int i * bs + bs)"
    using e assms(1) by (simp add: py_slice_nonneg)
  then show ?thesis
    by (simp add: block_input_def block_keys_def gen_lora_extra_hash_keys_def)
qed

lemma ref_hash_append:
  assumes "0 < bs" "int i < num_tokens r div bs"
  shows "ref_hash H n digest bs (r\<lparr>output_token_ids := outs, all_token_ids := all_token_ids r @ toks\<rparr>) i
         = ref_hash H n digest bs r i"
  using assms(2) by (induction i) (simp_all add: block_input_append [OF assms(1)])

lemma append_hashes_ok:
  assumes "0 < bs" "hashes_ok H n digest bs r" "mm_settled bs r"
  shows "\<exists>r'. append_output_token_ids (Some (request_block_hasher bs H n digest)) toks r = Inr r'
    \<and> hashes_ok H n digest bs r' \<and> all_token_ids r' = all_token_ids r @ toks
    \<and> output_token_ids r' = output_token_ids r @ toks \<and> mm_features r' = mm_features r"
proof -
  let ?r = "r\<lparr>output_token_ids := output_token_ids r @ toks, all_token_ids := all_token_ids r @ toks\<rparr>"
  let ?k = "nat (num_tokens r div bs)"
  have bh: "block_hashes r = map (ref_hash H n digest bs r) [0..<?k]" and m: "memo_ok digest r" and w: "wf_mm r"
    using assms(2) by (auto simp: hashes_ok_def)
  have "length (block_hashes r) = ?k" using bh by (metis length_map length_upt diff_zero)
  moreover have "map (ref_hash H n digest bs ?r) [0..<?k] = map (ref_hash H n digest bs r) [0..<?k]"
    using ref_hash_append [OF assms(1)] by simp
  moreover have "num_tokens r div bs \<le> num_tokens ?r div bs"
    using assms(1) by (intro zdiv_mono1) auto
  moreover have "0 \<le> num_tokens r div bs" using assms(1) by (simp add: pos_imp_zdiv_nonneg_iff)
  ultimately have "partial_hashes_ok H n digest bs ?r"
    using bh m w by (simp add: partial_hashes_ok_def memo_ok_def wf_mm_def)
  moreover have "mm_settled bs ?r" using assms(3) by (simp add: mm_settled_def)
  ultimately show ?thesis
    using update_block_hashes_ok [OF assms(1), of H n digest ?r] by (auto simp: append_output_token_ids_def)
qed

text \<open>C22 (append_keeps_hashes): if the multi-modal inputs of a request are in order and, when some block is
  already hashed, all but the last of them end before the first block that is not, then after output tokens
  are appended a request whose hashes were the chained hashes of its full blocks still has exactly one chained
  hash per full block of the longer token list, so hashing incrementally gives what hashing from scratch
  gives. (Without the condition on the inputs this fails: see \<^verbatim>\<open>earlier_image_missing_from_hash\<close>.)\<close>

theorem append_keeps_hashes:
  assumes "0 < bs" "hashes_ok H n digest bs r" "mm_settled bs r"
  shows "\<exists>r'. append_output_token_ids (Some (request_block_hasher bs H n digest)) toks r = Inr r'
    \<and> hashes_ok H n digest bs r' \<and> all_token_ids r' = all_token_ids r @ toks
    \<and> output_token_ids r' = output_token_ids r @ toks"
  using append_hashes_ok [OF assms] by blast

section \<open>Requests hashed by the code\<close>

text \<open>A request as the engine holds it: constructed with the hasher and extended with output tokens. The inputs
  are in order and inside the prompt, and all but the last end before the first block that the constructor
  cannot hash yet.\<close>

inductive hashed_request :: "int \<Rightarrow> hash_fn \<Rightarrow> bytes \<Rightarrow> (int list list \<Rightarrow> bytes) \<Rightarrow> request \<Rightarrow> bool" for bs H n digest where
  hashed_new: "\<lbrakk>init_request (Some (request_block_hasher bs H n digest)) rid toks samp pool client arrival embeds mms lor salt prio resum = Inr r;
     wf_mm r; \<forall>f\<in>set (mm_features r). mm_end f \<le> num_tokens r; mm_settled bs r\<rbrakk> \<Longrightarrow> hashed_request bs H n digest r"
| hashed_append: "\<lbrakk>hashed_request bs H n digest r;
     append_output_token_ids (Some (request_block_hasher bs H n digest)) toks r = Inr r'\<rbrakk> \<Longrightarrow> hashed_request bs H n digest r'"

lemma same_content_memo: "same_content r (r\<lparr>embeds_memo := m\<rparr>)"
  by (auto simp: same_content_def)

lemma generate_same:
  assumes "generate_block_hash_extra_keys digest r s e mm = Inr (ks, mm', r')"
  shows "same_content r r'"
proof -
  have "same_content r (snd (gen_prompt_embeds_extra_hash_keys digest r s e))"
    by (simp add: gen_prompt_embeds_extra_hash_keys_def Let_def same_content_refl same_content_memo split: option.split)
  then show ?thesis using assms
    by (cases "gen_prompt_embeds_extra_hash_keys digest r s e") (auto simp: generate_block_hash_extra_keys_def Let_def)
qed

lemma hash_loop_same: "hash_loop H n digest bs nt r start mm prev = Inr (hs, r') \<Longrightarrow> same_content r r'"
proof (induction "nat (nt - start)" arbitrary: r start mm prev hs rule: less_induct)
  case less
  show ?case
  proof (cases "bs \<le> 0 \<or> start + bs > nt")
    case True
    then show ?thesis using less.prems same_content_refl by (simp add: hash_loop.simps [of _ _ _ _ _ _ start])
  next
    case False
    then obtain ks mm' r1 h hs' where g: "generate_block_hash_extra_keys digest r start (start + bs) mm = Inr (ks, mm', r1)"
      "hash_loop H n digest bs nt r1 (start + bs) mm' (Some h) = Inr (hs', r')"
      using less.prems by (auto simp: hash_loop.simps [of _ _ _ _ _ _ start] Let_def split: sum.splits prod.splits)
    have "nat (nt - (start + bs)) < nat (nt - start)" using False by auto
    then show ?thesis using less.hyps [OF _ g(2)] same_content_trans [OF generate_same [OF g(1)]] by blast
  qed
qed

lemma update_keeps_mms:
  assumes "update_block_hashes (Some (request_block_hasher bs H n digest)) r = Inr r'"
  shows "mm_features r' = mm_features r"
proof -
  obtain hs r1 where "request_block_hasher bs H n digest r = Inr (hs, r1)" "mm_features r' = mm_features r1"
    using assms by (auto simp: update_block_hashes_def)
  moreover from this(1) have "same_content r r1"
    by (auto simp: request_block_hasher_def Let_def same_content_refl split: if_splits dest: hash_loop_same)
  ultimately show ?thesis using same_content_fields by simp
qed

lemma init_request_update:
  assumes "init_request hasher rid toks samp pool client arrival embeds mms lor salt prio resum = Inr r"
  shows "\<exists>r0 r1 b. update_block_hashes hasher r0 = Inr r1 \<and>
      block_hashes r0 = [] \<and> embeds_memo r0 = Map.empty \<and> r = r1\<lparr>skip_reading_prefix_cache := b\<rparr>"
  using assms unfolding init_request_def Let_def
  by (elim bindE_eq_Inr [THEN iffD1, elim_format] exE conjE) (auto split: prod.splits, (intro exI conjI, assumption, simp_all)+)
lemma hashes_ok_skip: "hashes_ok H n digest bs (r\<lparr>skip_reading_prefix_cache := b\<rparr>) = hashes_ok H n digest bs r"
proof -
  have k: "block_keys digest (r\<lparr>skip_reading_prefix_cache := b\<rparr>) = block_keys digest r"
    by (simp add: block_keys_def fun_eq_iff gen_lora_extra_hash_keys_def)
  have "ref_hash H n digest bs (r\<lparr>skip_reading_prefix_cache := b\<rparr>) i = ref_hash H n digest bs r i" for i
    by (induction i) (simp_all add: block_input_def k)
  then have "ref_hash H n digest bs (r\<lparr>skip_reading_prefix_cache := b\<rparr>) = ref_hash H n digest bs r" by (rule ext)
  then show ?thesis by (simp add: hashes_ok_def memo_ok_def wf_mm_def)
qed

lemma init_request_hashes_ok:
  assumes bs: "0 < bs" and wf: "wf_mm r"
    and r: "init_request (Some (request_block_hasher bs H n digest)) rid toks samp pool client arrival embeds mms lor salt prio resum = Inr r"
  shows "hashes_ok H n digest bs r"
proof -
  obtain r0 r1 b where u: "update_block_hashes (Some (request_block_hasher bs H n digest)) r0 = Inr r1"
    "block_hashes r0 = []" "embeds_memo r0 = Map.empty" "r = r1\<lparr>skip_reading_prefix_cache := b\<rparr>"
    using init_request_update [OF r] by blast
  have "0 \<le> num_tokens r0 div bs" using bs by (simp add: pos_imp_zdiv_nonneg_iff)
  then have p: "partial_hashes_ok H n digest bs r0"
    using u wf update_keeps_mms [OF u(1)] by (simp add: partial_hashes_ok_def memo_ok_def wf_mm_def)
  have "mm_settled bs r0" using u(2) by (simp add: mm_settled_def)
  from update_block_hashes_ok [OF bs p this] u(1,4) show ?thesis by (auto simp: hashes_ok_skip)
qed

lemma settled_later:
  assumes "0 < bs" "hashes_ok H n digest bs r" "hashes_ok H n digest bs r'" "mm_settled bs r"
    "\<forall>f\<in>set (mm_features r). mm_end f \<le> num_tokens r" "num_tokens r \<le> num_tokens r'" "mm_features r' = mm_features r"
  shows "mm_settled bs r'"
proof -
  have len: "length (block_hashes x) = nat (num_tokens x div bs)" if "hashes_ok H n digest bs x" for x
    using that by (metis diff_zero hashes_ok_def length_map length_upt)
  have le: "num_tokens r div bs \<le> num_tokens r' div bs" using assms(1,6) by (simp add: zdiv_mono1)
  show ?thesis
    unfolding mm_settled_def assms(7)
  proof (intro impI ballI)
    fix f assume ne: "block_hashes r' \<noteq> []" and f: "f \<in> set (butlast (mm_features r))"
    show "mm_end f \<le> int (length (block_hashes r')) * bs"
    proof (cases "block_hashes r = []")
      case False
      then have "mm_end f \<le> int (length (block_hashes r)) * bs" using assms(4) f by (simp add: mm_settled_def)
      also have "\<dots> \<le> int (length (block_hashes r')) * bs"
        using le assms(1) unfolding len [OF assms(2)] len [OF assms(3)] by (intro mult_right_mono) auto
      finally show ?thesis .
    next
      case True
      then have "num_tokens r div bs < 1" using len [OF assms(2)] by simp
      then have "num_tokens r < bs" using div_less_int [OF assms(1), of "num_tokens r" 1] by simp
      moreover have "mm_end f \<le> num_tokens r" using assms(5) f in_set_butlastD by fast
      moreover have "1 * bs \<le> int (length (block_hashes r')) * bs"
        using ne assms(1) by (intro mult_right_mono) (auto simp: Suc_le_eq simp flip: length_greater_0_conv)
      ultimately show ?thesis by linarith
    qed
  qed
qed

lemma hashed_request_ok:
  assumes "hashed_request bs H n digest r" "0 < bs"
  shows "hashes_ok H n digest bs r \<and> mm_settled bs r \<and> (\<forall>f\<in>set (mm_features r). mm_end f \<le> num_tokens r)"
  using assms(1)
proof induction
  case (hashed_new rid toks samp pool client arrival embeds mms lor salt prio resum r)
  then show ?case using init_request_hashes_ok [OF assms(2) hashed_new(2,1)] by blast
next
  case (hashed_append r toks r')
  from append_hashes_ok [OF assms(2), of H n digest r toks] hashed_append
  have r': "hashes_ok H n digest bs r'" "all_token_ids r' = all_token_ids r @ toks" "mm_features r' = mm_features r" by auto
  then show ?case using settled_later [OF assms(2) _ r'(1)] hashed_append.IH by force
qed

section \<open>Equal hashes mean equal prefixes\<close>

text \<open>The hash inputs of a request, block by block, and the documented behaviour of a collision
  resistant hash on them: no two inputs of the two requests collide, digests are not empty, and the
  seed is no digest of theirs.\<close>

definition hash_input :: "hash_fn \<Rightarrow> bytes \<Rightarrow> (int list list \<Rightarrow> bytes) \<Rightarrow> int \<Rightarrow> request \<Rightarrow> nat \<Rightarrow> bytes \<times> token list \<times> extra_key list option" where
  "hash_input H n digest bs r i =
     (if i = 0 then n else ref_hash H n digest bs r (i - 1), block_input digest bs r i)"

definition hash_inputs :: "hash_fn \<Rightarrow> bytes \<Rightarrow> (int list list \<Rightarrow> bytes) \<Rightarrow> int \<Rightarrow> request \<Rightarrow> (bytes \<times> token list \<times> extra_key list option) set" where
  "hash_inputs H n digest bs r = hash_input H n digest bs r ` {..<nat (num_tokens r div bs)}"

definition collision_free :: "hash_fn \<Rightarrow> bytes \<Rightarrow> (int list list \<Rightarrow> bytes) \<Rightarrow> int \<Rightarrow> request \<Rightarrow> request \<Rightarrow> bool" where
  "collision_free H n digest bs r1 r2 \<longleftrightarrow>
     inj_on H (hash_inputs H n digest bs r1 \<union> hash_inputs H n digest bs r2) \<and>
     (\<forall>x. H x \<noteq> []) \<and> n \<notin> H ` (hash_inputs H n digest bs r1 \<union> hash_inputs H n digest bs r2)"

lemma ref_hash_input:
  "\<forall>x. H x \<noteq> [] \<Longrightarrow> ref_hash H n digest bs r i = H (hash_input H n digest bs r i)"
proof (induction i)
  case 0
  then show ?case by (simp add: hash_input_def hash_block_tokens_def)
next
  case (Suc i)
  then have "ref_hash H n digest bs r i \<noteq> []" by metis
  then show ?case by (simp add: hash_input_def hash_block_tokens_def)
qed

lemma collision_free_input:
  assumes "collision_free H n digest bs r1 r2" "ref_hash H n digest bs r1 i = ref_hash H n digest bs r2 j"
    and "int i < num_tokens r1 div bs" "int j < num_tokens r2 div bs"
  shows "hash_input H n digest bs r1 i = hash_input H n digest bs r2 j"
proof -
  have ne: "\<forall>x. H x \<noteq> []" and inj: "inj_on H (hash_inputs H n digest bs r1 \<union> hash_inputs H n digest bs r2)"
    using assms(1) unfolding collision_free_def by blast+
  have "H (hash_input H n digest bs r1 i) = H (hash_input H n digest bs r2 j)"
    using assms(2) unfolding ref_hash_input [OF ne] .
  moreover have "hash_input H n digest bs r1 i \<in> hash_inputs H n digest bs r1"
    "hash_input H n digest bs r2 j \<in> hash_inputs H n digest bs r2"
    using assms(3,4) by (auto simp: hash_inputs_def)
  ultimately show ?thesis by (intro inj_onD [OF inj]) auto
qed

lemma ref_hash_not_seed:
  assumes "collision_free H n digest bs r1 r2" "r = r1 \<or> r = r2" "int i < num_tokens r div bs"
  shows "ref_hash H n digest bs r i \<noteq> n"
proof -
  have ne: "\<forall>x. H x \<noteq> []" using assms(1) unfolding collision_free_def by blast
  have "hash_input H n digest bs r i \<in> hash_inputs H n digest bs r" using assms(3) by (auto simp: hash_inputs_def)
  then show ?thesis using assms(1,2) ref_hash_input [OF ne] unfolding collision_free_def by (metis UnI1 UnI2 imageI)
qed

lemma equal_hash_equal_prefix:
  assumes "collision_free H n digest bs r1 r2" "ref_hash H n digest bs r1 i = ref_hash H n digest bs r2 j"
    and "int i < num_tokens r1 div bs" "int j < num_tokens r2 div bs"
  shows "i = j \<and> (\<forall>k\<le>i. block_input digest bs r1 k = block_input digest bs r2 k)"
  using assms(2-)
proof (induction i arbitrary: j)
  case 0
  have eq: "hash_input H n digest bs r1 0 = hash_input H n digest bs r2 j"
    using collision_free_input [OF assms(1) 0] .
  show ?case
  proof (cases j)
    case (Suc k)
    then have "ref_hash H n digest bs r2 k = n" using eq by (simp add: hash_input_def)
    then show ?thesis using ref_hash_not_seed [OF assms(1), of r2 k] 0 Suc by simp
  qed (use eq in \<open>simp add: hash_input_def\<close>)
next
  case (Suc i)
  have eq: "hash_input H n digest bs r1 (Suc i) = hash_input H n digest bs r2 j"
    using collision_free_input [OF assms(1) Suc.prems] .
  show ?case
  proof (cases j)
    case 0
    then have "ref_hash H n digest bs r1 i = n" using eq by (simp add: hash_input_def)
    then show ?thesis using ref_hash_not_seed [OF assms(1), of r1 i] Suc.prems by simp
  next
    case (Suc k)
    then have e: "ref_hash H n digest bs r1 i = ref_hash H n digest bs r2 k"
      and b: "block_input digest bs r1 (Suc i) = block_input digest bs r2 (Suc k)"
      using eq by (auto simp: hash_input_def)
    have "i = k \<and> (\<forall>l\<le>i. block_input digest bs r1 l = block_input digest bs r2 l)"
      using Suc.IH [OF e] Suc.prems Suc by simp
    then show ?thesis using Suc b by (auto simp: le_Suc_eq)
  qed
qed

lemma block_inputs_prefix:
  assumes "0 < bs" "int k * bs \<le> num_tokens r1" "int k * bs \<le> num_tokens r2"
    and "\<And>i. i < k \<Longrightarrow> block_input digest bs r1 i = block_input digest bs r2 i"
  shows "take (k * nat bs) (all_token_ids r1) = take (k * nat bs) (all_token_ids r2)"
  using assms(2-)
proof (induction k)
  case 0
  then show ?case by simp
next
  case (Suc k)
  have "int k * bs \<le> int (Suc k) * bs" using assms(1) by (intro mult_right_mono) auto
  then have IH: "take (k * nat bs) (all_token_ids r1) = take (k * nat bs) (all_token_ids r2)"
    using Suc by auto
  have "py_slice (all_token_ids r1) (int k * bs) (int k * bs + bs) = py_slice (all_token_ids r2) (int k * bs) (int k * bs + bs)"
    using Suc.prems(3) [of k] by (simp add: block_input_def)
  moreover have "nat (int k * bs) = k * nat bs" "nat (int k * bs + bs) - nat (int k * bs) = nat bs"
    using assms(1) by (simp_all add: nat_mult_distrib nat_add_distrib)
  ultimately have "take (nat bs) (drop (k * nat bs) (all_token_ids r1)) = take (nat bs) (drop (k * nat bs) (all_token_ids r2))"
    using assms(1) by (simp add: py_slice_nonneg)
  with IH show ?case by (simp add: take_add add.commute [of "nat bs"])
qed

lemma equal_hashes_equal_content:
  assumes "0 < bs" "collision_free H n digest bs r1 r2" "hashes_ok H n digest bs r1" "hashes_ok H n digest bs r2"
    and "i < length (block_hashes r1)" "j < length (block_hashes r2)" "block_hashes r1 ! i = block_hashes r2 ! j"
  shows "i = j \<and> take (Suc i * nat bs) (all_token_ids r1) = take (Suc i * nat bs) (all_token_ids r2)
    \<and> (\<forall>k\<le>i. block_keys digest r1 (int k * bs) (int k * bs + bs) = block_keys digest r2 (int k * bs) (int k * bs + bs))"
proof -
  have l1: "i < nat (num_tokens r1 div bs)" and l2: "j < nat (num_tokens r2 div bs)"
    using assms(3-6) unfolding hashes_ok_def by (metis length_map length_upt diff_zero)+
  then have "ref_hash H n digest bs r1 i = ref_hash H n digest bs r2 j"
    using assms(3,4,7) by (simp add: hashes_ok_def)
  then have ij: "i = j" and inp: "\<forall>k\<le>i. block_input digest bs r1 k = block_input digest bs r2 k"
    using equal_hash_equal_prefix [OF assms(2)] l1 l2 by auto
  have "int (Suc i) \<le> num_tokens r1 div bs" "int (Suc i) \<le> num_tokens r2 div bs" using l1 l2 ij by auto
  then have "int (Suc i) * bs \<le> num_tokens r1" "int (Suc i) * bs \<le> num_tokens r2"
    by (simp_all only: div_le_int [OF assms(1)])
  then have "take (Suc i * nat bs) (all_token_ids r1) = take (Suc i * nat bs) (all_token_ids r2)"
    using inp block_inputs_prefix [OF assms(1), of "Suc i" r1 r2 digest] by simp
  then show ?thesis using ij inp by (auto simp: block_input_def)
qed

text \<open>C5 (hash_hit_means_same_prefix): take two requests whose hashes were computed by the request hasher, at
  construction and after every append of output tokens, with multi-modal inputs that are in order, inside the
  prompt, and all but the last before the first block the constructor cannot hash. With a hash function
  that does not collide on their inputs, a block of the one has the same hash as a block of the other only if
  they are blocks with the same index and the two requests agree on all tokens and on the extra keys of every
  block up to and including that one. (What the extra keys fail to tell apart is stated by
  \<^verbatim>\<open>lora_name_and_cache_salt_collide\<close> and \<^verbatim>\<open>earlier_image_missing_from_hash\<close>.)\<close>

theorem hash_hit_means_same_prefix:
  assumes "0 < bs" "collision_free H n digest bs r1 r2"
    and "hashed_request bs H n digest r1" "hashed_request bs H n digest r2"
    and "i < length (block_hashes r1)" "j < length (block_hashes r2)" "block_hashes r1 ! i = block_hashes r2 ! j"
  shows "i = j \<and> take (Suc i * nat bs) (all_token_ids r1) = take (Suc i * nat bs) (all_token_ids r2)
    \<and> (\<forall>k\<le>i. block_keys digest r1 (int k * bs) (int k * bs + bs) = block_keys digest r2 (int k * bs) (int k * bs + bs))"
  using equal_hashes_equal_content [OF assms(1,2) _ _ assms(5-7)] hashed_request_ok [OF assms(3,1)] hashed_request_ok [OF assms(4,1)]
  by blast

section \<open>Concrete instances\<close>

text \<open>A toy hash for the instances: a tag byte, then the parent, the tokens and the keys written out.\<close>

definition key_bytes :: "extra_key \<Rightarrow> bytes" where
  "key_bytes k = (case k of KStr s \<Rightarrow> map (\<lambda>c. word_of_int (of_char c)) s
     | KMM s i \<Rightarrow> word_of_int i # map (\<lambda>c. word_of_int (of_char c)) s | KBytes b \<Rightarrow> b)"

definition toy_hash :: hash_fn where
  "toy_hash x = 1 # fst x @ map word_of_int (fst (snd x)) @ concat (map key_bytes (case snd (snd x) of None \<Rightarrow> [] | Some ks \<Rightarrow> ks))"

lemma plain_hash_fields [simp]:
  "block_hashes (plain_request rid toks n) = []" "all_token_ids (plain_request rid toks n) = toks"
  "mm_features (plain_request rid toks n) = []" "prompt_embeds (plain_request rid toks n) = None"
  "lora (plain_request rid toks n) = None" "cache_salt (plain_request rid toks n) = None"
  "output_token_ids (plain_request rid toks n) = []"
  by (simp_all add: plain_request_def)

lemma plain_block_keys [simp]: "block_keys digest (plain_request rid toks n) s e = None"
  by (simp add: block_keys_def gen_lora_extra_hash_keys_def mm_keys_loop.simps)

lemma plain_hashes_ok: "int (length toks) < bs \<Longrightarrow> hashes_ok H none_hash digest bs (plain_request rid toks n)"
  by (simp add: hashes_ok_def memo_ok_def wf_mm_def)

theorem append_keeps_hashes_witness:
  "\<exists>r'. append_output_token_ids (Some (request_block_hasher 2 toy_hash [9] (\<lambda>_. [0]))) [5, 6] (plain_request ''a'' [4] 10) = Inr r'
    \<and> hashes_ok toy_hash [9] (\<lambda>_. [0]) 2 r' \<and> all_token_ids r' = [4, 5, 6] \<and> length (block_hashes r') = 1"
proof -
  have "hashes_ok toy_hash [9] (\<lambda>_. [0]) 2 (plain_request ''a'' [4] 10)" by (rule plain_hashes_ok) simp
  moreover have "mm_settled 2 (plain_request ''a'' [4] 10)" by (simp add: mm_settled_def)
  ultimately obtain r' where r': "append_output_token_ids (Some (request_block_hasher 2 toy_hash [9] (\<lambda>_. [0]))) [5, 6] (plain_request ''a'' [4] 10) = Inr r'"
    "hashes_ok toy_hash [9] (\<lambda>_. [0]) 2 r'" "all_token_ids r' = [4, 5, 6]"
    using append_keeps_hashes [of 2 toy_hash "[9]" "\<lambda>_. [0]" "plain_request ''a'' [4] 10" "[5, 6]"] by auto
  have "length (block_hashes r') = nat (num_tokens r' div 2)" using r'(2) by (auto simp: hashes_ok_def)
  with r' show ?thesis by auto
qed

text \<open>One request is constructed with a full block, the other completes it with a generated token.\<close>

abbreviation toy_hasher :: "int \<Rightarrow> block_hasher" where
  "toy_hasher bs \<equiv> request_block_hasher bs toy_hash [9] (\<lambda>_. [0])"

abbreviation toy_block :: bytes where
  "toy_block \<equiv> [1, 9, 4, 5]"

lemma toy_hash_loop:
  assumes "all_token_ids r = 4 # 5 # rest" "length rest < 2" "lora r = None" "cache_salt r = None" "mm_features r = []" "prompt_embeds r = None"
  shows "hash_loop toy_hash [9] (\<lambda>_. [0]) 2 (num_tokens r) r 0 0 None = Inr ([toy_block], r)"
  using assms
  by (simp add: hash_loop.simps [of _ _ _ _ _ _ 0] hash_loop.simps [of _ _ _ _ _ _ 2] generate_block_hash_extra_keys_def
      gen_mm_extra_hash_keys_def gen_lora_extra_hash_keys_def gen_prompt_embeds_extra_hash_keys_def Let_def hash_block_tokens_def
      toy_hash_def py_slice_def py_clip_def)

lemma toy_requests:
  "hashed_request 2 toy_hash [9] (\<lambda>_. [0]) ((plain_request ''a'' [4] 10)\<lparr>output_token_ids := [5], all_token_ids := [4, 5], block_hashes := [toy_block]\<rparr>)"
  "hashed_request 2 toy_hash [9] (\<lambda>_. [0]) ((plain_request ''b'' [4, 5, 6] 10)\<lparr>block_hashes := [toy_block]\<rparr>)"
proof -
  note unf = init_request_def length_from_prompt_def update_block_hashes_def get_skip_reading_prefix_cache_def request_block_hasher_def
    plain_request_def greedy_params_def
  have "init_request (Some (toy_hasher 2)) ''a'' (Some [4]) (Some (greedy_params 10)) None 0 0 None None None None 0 False = Inr (plain_request ''a'' [4] 10)"
    by (simp add: unf)
  then have "hashed_request 2 toy_hash [9] (\<lambda>_. [0]) (plain_request ''a'' [4] 10)"
    by (rule hashed_new) (simp_all add: wf_mm_def mm_settled_def)
  then show "hashed_request 2 toy_hash [9] (\<lambda>_. [0]) ((plain_request ''a'' [4] 10)\<lparr>output_token_ids := [5], all_token_ids := [4, 5], block_hashes := [toy_block]\<rparr>)"
  proof (rule hashed_append)
    show "append_output_token_ids (Some (toy_hasher 2)) [5] (plain_request ''a'' [4] 10) =
      Inr ((plain_request ''a'' [4] 10)\<lparr>output_token_ids := [5], all_token_ids := [4, 5], block_hashes := [toy_block]\<rparr>)"
      using toy_hash_loop [of "(plain_request ''a'' [4] 10)\<lparr>output_token_ids := [5], all_token_ids := [4, 5]\<rparr>" "[]"]
      by (simp add: append_output_token_ids_def update_block_hashes_def request_block_hasher_def)
  qed
  have "init_request (Some (toy_hasher 2)) ''b'' (Some [4, 5, 6]) (Some (greedy_params 10)) None 0 0 None None None None 0 False =
      Inr ((plain_request ''b'' [4, 5, 6] 10)\<lparr>block_hashes := [toy_block]\<rparr>)"
    using toy_hash_loop [of "plain_request ''b'' [4, 5, 6] 10" "[6]"] by (simp add: unf)
  then show "hashed_request 2 toy_hash [9] (\<lambda>_. [0]) ((plain_request ''b'' [4, 5, 6] 10)\<lparr>block_hashes := [toy_block]\<rparr>)"
    by (rule hashed_new) (simp_all add: wf_mm_def mm_settled_def)
qed

theorem hash_hit_means_same_prefix_witness:
  "\<exists>r1 r2. hashed_request 2 toy_hash [9] (\<lambda>_. [0]) r1 \<and> hashed_request 2 toy_hash [9] (\<lambda>_. [0]) r2 \<and> output_token_ids r1 = [5]
     \<and> block_hashes r1 = [toy_block] \<and> block_hashes r2 = [toy_block] \<and> take 2 (all_token_ids r1) = take 2 (all_token_ids r2)"
proof -
  let ?H = toy_hash and ?d = "\<lambda>_. [0]"
  define r1 where "r1 = (plain_request ''a'' [4] 10)\<lparr>output_token_ids := [5], all_token_ids := [4, 5], block_hashes := [toy_block]\<rparr>"
  define r2 where "r2 = (plain_request ''b'' [4, 5, 6] 10)\<lparr>block_hashes := [toy_block]\<rparr>"
  have keys: "block_keys ?d r1 s e = None" "block_keys ?d r2 s e = None" for s e
    by (simp_all add: r1_def r2_def block_keys_def gen_lora_extra_hash_keys_def mm_keys_loop.simps)
  have inp: "block_input ?d 2 r1 0 = ([4, 5], None)" "block_input ?d 2 r2 0 = ([4, 5], None)"
    unfolding block_input_def keys by (simp_all add: r1_def r2_def py_slice_def py_clip_def)
  have nt: "nat (num_tokens r1 div 2) = 1" "nat (num_tokens r2 div 2) = 1" by (simp_all add: r1_def r2_def)
  have in1: "hash_inputs ?H [9] ?d 2 r1 = {([9], [4, 5], None)}" "hash_inputs ?H [9] ?d 2 r2 = {([9], [4, 5], None)}"
    unfolding hash_inputs_def nt by (simp_all add: hash_input_def inp lessThan_Suc)
  have "collision_free ?H [9] ?d 2 r1 r2"
    unfolding collision_free_def in1 by (simp add: toy_hash_def)
  from hash_hit_means_same_prefix [OF _ this toy_requests [folded r1_def r2_def], of 0 0]
  have "take (Suc 0 * nat 2) (all_token_ids r1) = take (Suc 0 * nat 2) (all_token_ids r2)" by (simp add: r1_def r2_def)
  then show ?thesis using toy_requests [folded r1_def r2_def] by (intro exI [of _ r1] exI [of _ r2]) (simp add: r1_def r2_def)
qed

theorem hash_view_iter_witness:
  "\<exists>v. hash_list_with_block_size [[1], [2], [3], [4], [5]] 16 32 = Inr v \<and> hv_len v = 2 \<and> hv_iter v = Inr [[1, 2], [3, 4]]"
  using hash_view_iter [of 16 32 2 "[[1], [2], [3], [4], [5]]"] by (simp add: upt_rec)

section \<open>Where the extra keys do not separate requests\<close>

lemma first_block_hash:
  assumes "0 < bs" "bs \<le> num_tokens r" "mm_features r = []" "prompt_embeds r = None" "block_hashes r = []"
  shows "\<exists>t r'. request_block_hasher bs H n digest r = Inr (ref_hash H n digest bs r 0 # t, r')"
proof -
  have wf: "wf_mm r" and mo: "memo_ok digest r" using assms by (simp_all add: wf_mm_def memo_ok_def)
  have "idx_ok (mm_features r) (int 0 * bs) 0" using assms by (simp add: idx_ok_def)
  then obtain r' where "hash_loop H n digest bs (num_tokens r) r 0 0 None
      = Inr (map (ref_hash H n digest bs r) [0..<nat (num_tokens r div bs)], r')"
    using hash_loop_ref [OF assms(1) wf mo, of 0 0 None H n "num_tokens r"] by auto
  moreover have "0 < nat (num_tokens r div bs)" using assms(1,2) div_le_int [OF assms(1), of 1 "num_tokens r"] by simp
  ultimately show ?thesis
    using assms by (simp add: request_block_hasher_def upt_conv_Cons)
qed

text \<open>C27 (lora_name_and_cache_salt_collide): the LoRA name and the cache salt enter the extra keys as bare
  strings, so the first block of a request that uses the adapter named \<open>x\<close> and the first block of a
  request for the base model whose cache salt is \<open>x\<close> get the same hash for the same tokens, whatever
  the hash function: the prefix cache then shares a block computed with the adapter.\<close>

theorem lora_name_and_cache_salt_collide:
  assumes "0 < bs" "bs \<le> num_tokens r" "mm_features r = []" "prompt_embeds r = None" "block_hashes r = []"
    and "lora_name l \<noteq> []"
  shows "\<exists>h t1 t2 r1 r2.
     request_block_hasher bs H n digest (r\<lparr>lora := Some l, cache_salt := None\<rparr>) = Inr (h # t1, r1)
   \<and> request_block_hasher bs H n digest (r\<lparr>lora := None, cache_salt := Some (lora_name l)\<rparr>) = Inr (h # t2, r2)"
proof -
  let ?a = "r\<lparr>lora := Some l, cache_salt := None\<rparr>" and ?b = "r\<lparr>lora := None, cache_salt := Some (lora_name l)\<rparr>"
  have "block_input digest bs ?a 0 = block_input digest bs ?b 0"
    using assms by (simp add: block_input_def block_keys_def gen_lora_extra_hash_keys_def mm_keys_loop.simps [of "[]"])
  then have "ref_hash H n digest bs ?a 0 = ref_hash H n digest bs ?b 0" by simp
  moreover have "\<exists>t r'. request_block_hasher bs H n digest ?a = Inr (ref_hash H n digest bs ?a 0 # t, r')"
    using assms by (intro first_block_hash) auto
  moreover have "\<exists>t r'. request_block_hasher bs H n digest ?b = Inr (ref_hash H n digest bs ?b 0 # t, r')"
    using assms by (intro first_block_hash) auto
  ultimately show ?thesis by metis
qed

theorem lora_name_and_cache_salt_collide_witness:
  "\<exists>h t1 t2 r1 r2.
     request_block_hasher 2 toy_hash [9] (\<lambda>_. [0]) ((plain_request ''a'' [4, 5] 10)\<lparr>lora := Some \<lparr>lora_name = ''x'', adapter_id = 1\<rparr>, cache_salt := None\<rparr>) = Inr (h # t1, r1)
   \<and> request_block_hasher 2 toy_hash [9] (\<lambda>_. [0]) ((plain_request ''a'' [4, 5] 10)\<lparr>lora := None, cache_salt := Some ''x''\<rparr>) = Inr (h # t2, r2)"
  using lora_name_and_cache_salt_collide [of 2 "plain_request ''a'' [4, 5] 10" "\<lparr>lora_name = ''x'', adapter_id = 1\<rparr>" toy_hash "[9]" "\<lambda>_. [0]"]
  by simp

text \<open>From the last input on, the walk over the multi-modal inputs does not read the earlier ones.\<close>

lemma mm_loop_from_last:
  assumes "length fs = length gs" "length fs \<le> i"
  shows "mm_keys_loop (fs @ [l]) s e i = mm_keys_loop (gs @ [l]) s e i \<and> length fs \<le> snd (mm_keys_loop (gs @ [l]) s e i)"
proof (cases "i = length fs")
  case True
  have "(fs @ [l]) ! length gs = l" by (metis assms(1) nth_append_length)
  then show ?thesis
    using True assms by (simp add: mm_keys_loop.simps [of _ s e "length gs"] mm_keys_loop.simps [of _ s e "Suc (length gs)"] Let_def)
qed (use assms in \<open>simp add: mm_keys_loop.simps [of _ s e i]\<close>)

lemma gen_mm_from_last:
  assumes "length fs = length gs" "mm = -1 \<or> int (length fs) \<le> mm"
  shows "\<exists>ks mm'. gen_mm_extra_hash_keys (r\<lparr>mm_features := fs @ [l]\<rparr>) s e mm = Inr (ks, mm')
    \<and> gen_mm_extra_hash_keys (r\<lparr>mm_features := gs @ [l]\<rparr>) s e mm = Inr (ks, mm') \<and> (mm' = -1 \<or> int (length fs) \<le> mm')"
proof -
  let ?i = "nat (if mm < 0 then int (length (fs @ [l])) + mm else mm)"
  have "length fs \<le> ?i" using assms(2) by auto
  note L = mm_loop_from_last [OF assms(1) this, of l s e]
  obtain ks j where kj: "mm_keys_loop (gs @ [l]) s e ?i = (ks, j)" by fastforce
  then have "mm_keys_loop (fs @ [l]) s e ?i = (ks, j)" "length fs \<le> j" using L by simp_all
  then show ?thesis
    using assms kj unfolding gen_mm_extra_hash_keys_def Let_def
    by (cases "mm_end l \<le> s") (auto simp: mm_end_def)
qed

lemma embeds_mm_features:
  "gen_prompt_embeds_extra_hash_keys digest (r\<lparr>mm_features := fs\<rparr>) s e =
     (let (ks, r') = gen_prompt_embeds_extra_hash_keys digest r s e in (ks, r'\<lparr>mm_features := fs\<rparr>))"
  by (simp add: gen_prompt_embeds_extra_hash_keys_def Let_def split: option.split)

lemma hash_loop_from_last:
  assumes "length fs = length gs" "mm = -1 \<or> int (length fs) \<le> mm"
  shows "\<exists>hs r'. hash_loop H n digest bs nt (r\<lparr>mm_features := fs @ [l]\<rparr>) start mm prev = Inr (hs, r'\<lparr>mm_features := fs @ [l]\<rparr>)
    \<and> hash_loop H n digest bs nt (r\<lparr>mm_features := gs @ [l]\<rparr>) start mm prev = Inr (hs, r'\<lparr>mm_features := gs @ [l]\<rparr>)
    \<and> block_hashes r' = block_hashes r"
  using assms(2)
proof (induction "nat (nt - start)" arbitrary: start mm prev r rule: less_induct)
  case less
  show ?case
  proof (cases "bs \<le> 0 \<or> start + bs > nt")
    case True
    then show ?thesis by (intro exI [of _ "[]"] exI [of _ r]) (simp add: hash_loop.simps [of _ _ _ _ _ _ start])
  next
    case False
    let ?e = "start + bs"
    obtain ks mm' where g: "gen_mm_extra_hash_keys (r\<lparr>mm_features := fs @ [l]\<rparr>) start ?e mm = Inr (ks, mm')"
      "gen_mm_extra_hash_keys (r\<lparr>mm_features := gs @ [l]\<rparr>) start ?e mm = Inr (ks, mm')" "mm' = -1 \<or> int (length fs) \<le> mm'"
      using gen_mm_from_last [OF assms(1) less.prems] by blast
    obtain es r1 where e: "gen_prompt_embeds_extra_hash_keys digest r start ?e = (es, r1)" by fastforce
    have r1: "block_hashes r1 = block_hashes r"
      using e by (auto simp: gen_prompt_embeds_extra_hash_keys_def Let_def split: option.splits)
    define keys where "keys = gen_lora_extra_hash_keys r @ ks @
      (case cache_salt r of Some c \<Rightarrow> if start = 0 \<and> c \<noteq> '''' then [KStr c] else [] | None \<Rightarrow> []) @ es"
    let ?k = "if keys = [] then None else Some keys"
    have k: "generate_block_hash_extra_keys digest (r\<lparr>mm_features := xs\<rparr>) start ?e mm = Inr (?k, mm', r1\<lparr>mm_features := xs\<rparr>)"
      if "gen_mm_extra_hash_keys (r\<lparr>mm_features := xs\<rparr>) start ?e mm = Inr (ks, mm')" for xs
      by (simp add: generate_block_hash_extra_keys_def that embeds_mm_features e Let_def keys_def gen_lora_extra_hash_keys_def)
    let ?h = "hash_block_tokens H n prev (py_slice (all_token_ids r) start ?e) ?k"
    have "nat (nt - ?e) < nat (nt - start)" using False by auto
    from less.hyps [OF this g(3), of r1 "Some ?h"] obtain hs r' where
      "hash_loop H n digest bs nt (r1\<lparr>mm_features := fs @ [l]\<rparr>) ?e mm' (Some ?h) = Inr (hs, r'\<lparr>mm_features := fs @ [l]\<rparr>)"
      "hash_loop H n digest bs nt (r1\<lparr>mm_features := gs @ [l]\<rparr>) ?e mm' (Some ?h) = Inr (hs, r'\<lparr>mm_features := gs @ [l]\<rparr>)"
      "block_hashes r' = block_hashes r1" by blast
    then show ?thesis
      using False k [OF g(1)] k [OF g(2)] r1
      by (intro exI [of _ "?h # hs"] exI [of _ r']) (simp add: hash_loop.simps [of _ _ _ _ _ _ start] Let_def)
  qed
qed

text \<open>C28 (earlier_image_missing_from_hash): when a request has a hashed block and output tokens are appended,
  the hasher resumes at the last multi-modal input of the request, wherever the others end. So of two requests
  that agree on the last input and on the number of inputs, but have any other inputs before it, the new
  blocks get the same hashes, whatever the hash function: the inputs that end in the part of the prompt
  not yet hashed, except the last, are missing from the hash of their block.\<close>

theorem earlier_image_missing_from_hash:
  assumes "0 < bs" "block_hashes r \<noteq> []" "length fs = length gs"
  shows "\<exists>r1 r2. append_output_token_ids (Some (request_block_hasher bs H n digest)) toks (r\<lparr>mm_features := fs @ [l]\<rparr>) = Inr r1
    \<and> append_output_token_ids (Some (request_block_hasher bs H n digest)) toks (r\<lparr>mm_features := gs @ [l]\<rparr>) = Inr r2
    \<and> mm_features r1 = fs @ [l] \<and> mm_features r2 = gs @ [l] \<and> block_hashes r1 = block_hashes r2"
proof -
  define q where "q = r\<lparr>output_token_ids := output_token_ids r @ toks, all_token_ids := all_token_ids r @ toks\<rparr>"
  let ?s = "int (length (block_hashes r)) * bs"
  have q: "append_output_token_ids h toks (r\<lparr>mm_features := xs\<rparr>) = update_block_hashes h (q\<lparr>mm_features := xs\<rparr>)"
    "block_hashes q = block_hashes r" for h xs
  proof -
    have "r\<lparr>mm_features := xs, output_token_ids := output_token_ids r @ toks, all_token_ids := all_token_ids r @ toks\<rparr> = q\<lparr>mm_features := xs\<rparr>"
      by (simp add: q_def)
    then show "append_output_token_ids h toks (r\<lparr>mm_features := xs\<rparr>) = update_block_hashes h (q\<lparr>mm_features := xs\<rparr>)"
      by (simp add: append_output_token_ids_def)
  qed (simp add: q_def)
  have "0 < ?s" using assms(1,2) by simp
  obtain hs q' where h: "hash_loop H n digest bs (num_tokens q) (q\<lparr>mm_features := fs @ [l]\<rparr>) ?s (-1) (Some (last (block_hashes r))) = Inr (hs, q'\<lparr>mm_features := fs @ [l]\<rparr>)"
    "hash_loop H n digest bs (num_tokens q) (q\<lparr>mm_features := gs @ [l]\<rparr>) ?s (-1) (Some (last (block_hashes r))) = Inr (hs, q'\<lparr>mm_features := gs @ [l]\<rparr>)"
    "block_hashes q' = block_hashes q"
    using hash_loop_from_last [OF assms(3), of "-1" H n digest bs "num_tokens q" l q ?s "Some (last (block_hashes r))"] by blast
  show ?thesis
  proof (cases "?s + bs > num_tokens q")
    case True
    then show ?thesis by (simp add: q update_block_hashes_def request_block_hasher_def)
  next
    case False
    then show ?thesis using h \<open>0 < ?s\<close> assms(2) by (simp add: q update_block_hashes_def request_block_hasher_def Let_def)
  qed
qed

definition one_token_image :: "string \<Rightarrow> int \<Rightarrow> mm_feature" where
  "one_token_image ident off =
     \<lparr>mm_identifier = ident, mm_position = \<lparr>pr_offset = off, pr_length = 1, pr_is_embed = None\<rparr>\<rparr>"

theorem earlier_image_missing_from_hash_witness:
  "\<exists>r1 r2. append_output_token_ids (Some (request_block_hasher 4 toy_hash [9] (\<lambda>_. [0]))) [7, 8]
        ((plain_request ''q'' [1, 2, 3, 4, 0, 0] 10)\<lparr>block_hashes := [[5]], mm_features := [one_token_image ''cat'' 4, one_token_image ''z'' 5]\<rparr>) = Inr r1
    \<and> append_output_token_ids (Some (request_block_hasher 4 toy_hash [9] (\<lambda>_. [0]))) [7, 8]
        ((plain_request ''q'' [1, 2, 3, 4, 0, 0] 10)\<lparr>block_hashes := [[5]], mm_features := [one_token_image ''dog'' 4, one_token_image ''z'' 5]\<rparr>) = Inr r2
    \<and> block_hashes r1 = block_hashes r2 \<and> mm_features r1 \<noteq> mm_features r2"
  using earlier_image_missing_from_hash [of 4 "(plain_request ''q'' [1, 2, 3, 4, 0, 0] 10)\<lparr>block_hashes := [[5]]\<rparr>"
      "[one_token_image ''cat'' 4]" "[one_token_image ''dog'' 4]" toy_hash "[9]" "\<lambda>_. [0]" "[7, 8]" "one_token_image ''z'' 5"]
  by (auto simp: one_token_image_def)

end
