(* ===== verification/Cache_Metrics.thy ===== *)
theory Cache_Metrics
  imports Prelude
begin

text \<open>
  The block residency metrics of src/vllm/v1/core/kv\_cache\_metrics.py. Python reads a random number
  and the monotonic clock; here both are supplied: \<open>draw\<close> gives the outcome of each sampling decision
  \<^verbatim>\<open>random.random() < sample_rate\<close> and \<open>clock\<close> each reading of \<^verbatim>\<open>time.monotonic_ns()\<close>, in the
  order in which they are requested. Durations stay in nanoseconds (the source divides by 1e9 when it
  reports).
\<close>

record block_metrics_state =
  birth_time_ns :: int
  last_access_ns :: int
  access_history :: "int list"

record eviction_event =
  lifetime_ns :: int
  idle_ns :: int
  reuse_gaps_ns :: "int list"

record metrics_collector =
  block_metrics :: "int \<rightharpoonup> block_metrics_state"
  eviction_events :: "eviction_event list"
  draw :: "nat \<Rightarrow> bool"
  draws :: nat
  clock :: "nat \<Rightarrow> int"
  ticks :: nat

definition monotonic_ns :: "metrics_collector \<Rightarrow> int \<times> metrics_collector" where
  "monotonic_ns c = (clock c (ticks c), c\<lparr>ticks := Suc (ticks c)\<rparr>)"

definition should_sample_block :: "metrics_collector \<Rightarrow> bool \<times> metrics_collector" where
  "should_sample_block c = (draw c (draws c), c\<lparr>draws := Suc (draws c)\<rparr>)"

definition new_metrics_state :: "int \<Rightarrow> block_metrics_state" where
  "new_metrics_state now = \<lparr>birth_time_ns = now, last_access_ns = now, access_history = []\<rparr>"

text \<open>\<^verbatim>\<open>deque(maxlen=4)\<close> drops from the left.\<close>

definition deque4_append :: "int \<Rightarrow> int list \<Rightarrow> int list" where
  "deque4_append x h = (let h' = h @ [x] in drop (length h' - 4) h')"

definition record_access :: "int \<Rightarrow> block_metrics_state \<Rightarrow> block_metrics_state" where
  "record_access now s = s\<lparr>last_access_ns := now, access_history := deque4_append now (access_history s)\<rparr>"

definition get_reuse_gaps :: "block_metrics_state \<Rightarrow> int list" where
  "get_reuse_gaps s =
     (if length (access_history s) < 2 then []
      else map (\<lambda>i. access_history s ! i - access_history s ! (i - 1)) [1..<length (access_history s)])"

definition on_block_allocated :: "int \<Rightarrow> metrics_collector \<Rightarrow> metrics_collector" where
  "on_block_allocated bid c =
     (let (sampled, c1) = should_sample_block c in
      if sampled then
        (let (now, c2) = monotonic_ns c1
         in c2\<lparr>block_metrics := (block_metrics c2)(bid \<mapsto> new_metrics_state now)\<rparr>)
      else c1)"

definition on_block_accessed :: "int \<Rightarrow> metrics_collector \<Rightarrow> metrics_collector" where
  "on_block_accessed bid c =
     (case block_metrics c bid of
        None \<Rightarrow> c
      | Some s \<Rightarrow>
          (let (now, c1) = monotonic_ns c
           in c1\<lparr>block_metrics := (block_metrics c1)(bid \<mapsto> record_access now s)\<rparr>))"

definition on_block_evicted :: "int \<Rightarrow> metrics_collector \<Rightarrow> metrics_collector" where
  "on_block_evicted bid c =
     (case block_metrics c bid of
        None \<Rightarrow> c
      | Some s \<Rightarrow>
          (let c0 = c\<lparr>block_metrics := (block_metrics c)(bid := None)\<rparr>;
               (now1, c1) = monotonic_ns c0;
               (now2, c2) = monotonic_ns c1
           in c2\<lparr>eviction_events := eviction_events c2 @
                  [\<lparr>lifetime_ns = now1 - birth_time_ns s, idle_ns = now2 - last_access_ns s,
                    reuse_gaps_ns = get_reuse_gaps s\<rparr>]\<rparr>))"

definition reset_metrics :: "metrics_collector \<Rightarrow> metrics_collector" where
  "reset_metrics c = c\<lparr>block_metrics := Map.empty, eviction_events := []\<rparr>"

definition drain_events :: "metrics_collector \<Rightarrow> eviction_event list \<times> metrics_collector" where
  "drain_events c = (eviction_events c, c\<lparr>eviction_events := []\<rparr>)"

section \<open>Time does not run backwards in the reports\<close>

text \<open>A tracked block was born before its last access, its accesses are in order and not newer than the
  last access, and nothing recorded is newer than the next clock reading.\<close>

definition state_ok :: "int \<Rightarrow> block_metrics_state \<Rightarrow> bool" where
  "state_ok t s \<longleftrightarrow> birth_time_ns s \<le> last_access_ns s \<and> last_access_ns s \<le> t
     \<and> sorted (access_history s) \<and> (\<forall>x\<in>set (access_history s). x \<le> last_access_ns s)
     \<and> length (access_history s) \<le> 4"

definition event_ok :: "eviction_event \<Rightarrow> bool" where
  "event_ok e \<longleftrightarrow> 0 \<le> idle_ns e \<and> 0 \<le> lifetime_ns e
     \<and> length (reuse_gaps_ns e) \<le> 3 \<and> (\<forall>g\<in>set (reuse_gaps_ns e). 0 \<le> g)"

definition metrics_inv :: "metrics_collector \<Rightarrow> bool" where
  "metrics_inv c \<longleftrightarrow> mono (clock c)
     \<and> (\<forall>b s. block_metrics c b = Some s \<longrightarrow> state_ok (clock c (ticks c)) s)
     \<and> (\<forall>e\<in>set (eviction_events c). event_ok e)"

lemma state_ok_mono: "state_ok t s \<Longrightarrow> t \<le> t' \<Longrightarrow> state_ok t' s"
  by (auto simp: state_ok_def)

lemma clock_step: "metrics_inv c \<Longrightarrow> clock c (ticks c) \<le> clock c (Suc (ticks c))"
  by (auto simp: metrics_inv_def dest: monoD [of _ "ticks c" "Suc (ticks c)"])

lemma deque4_sorted:
  "sorted h \<Longrightarrow> \<forall>y\<in>set h. y \<le> x \<Longrightarrow>
   sorted (deque4_append x h) \<and> (\<forall>y\<in>set (deque4_append x h). y \<le> x) \<and> length (deque4_append x h) \<le> 4"
  unfolding deque4_append_def Let_def
  by (auto simp: sorted_append sorted_wrt_drop dest: in_set_dropD)

lemma record_access_ok: "state_ok t s \<Longrightarrow> state_ok t (record_access t s)"
  using deque4_sorted [of "access_history s" t] by (fastforce simp: state_ok_def record_access_def)

lemma reuse_gaps_ok:
  assumes "sorted h" "length h \<le> 4"
  shows "\<forall>g\<in>set (map (\<lambda>i. h ! i - h ! (i - 1)) [1..<length h]). 0 \<le> (g :: int)"
proof
  fix g assume "g \<in> set (map (\<lambda>i. h ! i - h ! (i - 1)) [1..<length h])"
  then obtain i where i: "1 \<le> i" "i < length h" "g = h ! i - h ! (i - 1)" by auto
  then have "h ! (i - 1) \<le> h ! i" using assms(1) by (intro sorted_nth_mono) auto
  then show "0 \<le> g" using i by simp
qed

lemma eviction_event_ok:
  assumes "state_ok t s" "t \<le> t'"
  shows "event_ok \<lparr>lifetime_ns = t - birth_time_ns s, idle_ns = t' - last_access_ns s, reuse_gaps_ns = get_reuse_gaps s\<rparr>"
  using assms reuse_gaps_ok [of "access_history s"] by (auto simp: event_ok_def state_ok_def get_reuse_gaps_def)

text \<open>with a monotonic clock every operation of the metrics collector keeps its
  invariant: at most four accesses are remembered per block, in order, and every reported lifetime, idle
  time and reuse gap is non-negative, with at most three gaps.\<close>

theorem metrics_ops_keep_inv:
  assumes "metrics_inv c"
  shows "metrics_inv (on_block_allocated b c) \<and> metrics_inv (on_block_accessed b c)
    \<and> metrics_inv (on_block_evicted b c) \<and> metrics_inv (reset_metrics c) \<and> metrics_inv (snd (drain_events c))
    \<and> (\<forall>e\<in>set (fst (drain_events c)). event_ok e)"
proof -
  let ?t = "clock c (ticks c)" and ?t' = "clock c (Suc (ticks c))"
  have mono: "mono (clock c)" and ok: "\<And>b s. block_metrics c b = Some s \<Longrightarrow> state_ok ?t s"
    and ev: "\<forall>e\<in>set (eviction_events c). event_ok e"
    using assms by (auto simp: metrics_inv_def)
  note t1 = clock_step [OF assms]
  have t2: "?t' \<le> clock c (Suc (Suc (ticks c)))" using mono by (intro monoD [OF mono]) simp
  have later: "state_ok ?t' s" "state_ok (clock c (Suc (Suc (ticks c)))) s" if "state_ok ?t s" for s
    using state_ok_mono [OF that t1] state_ok_mono [OF state_ok_mono [OF that t1] t2] .
  have new: "state_ok ?t (new_metrics_state ?t)" by (simp add: state_ok_def new_metrics_state_def)
  have "metrics_inv (on_block_allocated b c)"
    using mono ok ev new later
    by (auto simp: metrics_inv_def on_block_allocated_def should_sample_block_def monotonic_ns_def)
  moreover have "metrics_inv (on_block_accessed b c)"
  proof (cases "block_metrics c b")
    case (Some s)
    then show ?thesis using mono ok ev later record_access_ok
      by (auto simp: metrics_inv_def on_block_accessed_def monotonic_ns_def)
  qed (use assms in \<open>simp add: on_block_accessed_def\<close>)
  moreover have "metrics_inv (on_block_evicted b c)"
  proof (cases "block_metrics c b")
    case (Some s)
    then show ?thesis using mono ok ev later eviction_event_ok [OF ok [OF Some] t1]
      by (auto simp: metrics_inv_def on_block_evicted_def monotonic_ns_def)
  qed (use assms in \<open>simp add: on_block_evicted_def\<close>)
  ultimately show ?thesis using mono ok ev by (simp add: metrics_inv_def reset_metrics_def drain_events_def)
qed

definition sample_collector :: metrics_collector where
  "sample_collector = \<lparr>block_metrics = [7 \<mapsto> new_metrics_state 3], eviction_events = [],
     draw = (\<lambda>_. True), draws = 0, clock = (\<lambda>n. 10 + int n), ticks = 0\<rparr>"

theorem metrics_ops_keep_inv_witness:
  "metrics_inv (on_block_evicted 7 sample_collector)
   \<and> map idle_ns (eviction_events (on_block_evicted 7 sample_collector)) = [8]"
proof -
  have "metrics_inv sample_collector"
    by (simp add: metrics_inv_def sample_collector_def mono_def state_ok_def new_metrics_state_def)
  from metrics_ops_keep_inv [OF this, of 7] show ?thesis
    by (simp add: on_block_evicted_def sample_collector_def monotonic_ns_def new_metrics_state_def)
qed

end
