(* ===== verification/Block_Pool.thy ===== *)
theory Block_Pool
  imports Complex_Main Block_Map Block_Hash Cache_Metrics
begin

text \<open>
  The block pool of src/vllm/v1/core/block\_pool.py: allocation, reference counting, the prefix cache and
  its eviction, and the cache event log. The pool owns the store of block objects (inside the free queue),
  the index of cached blocks and the event queue. The invariant \<open>pool_inv\<close> says that the free queue
  holds exactly the blocks without references, that the index lists exactly the blocks that carry a key,
  and that the null block is outside of both.
\<close>

section \<open>State\<close>

text \<open>A list of block hashes is plain or a view at a coarser block size.\<close>

datatype block_hash_list = HashList "bytes list" | HashView hash_view

fun bhl_from :: "block_hash_list \<Rightarrow> int \<Rightarrow> bytes list res" where
  "bhl_from (HashList hs) i = Inr (py_from hs i)"
| "bhl_from (HashView v) i = hv_from v i"

fun bhl_get :: "block_hash_list \<Rightarrow> int \<Rightarrow> bytes res" where
  "bhl_get (HashList hs) i = py_get hs i"
| "bhl_get (HashView v) i = get_value_at v i"

record block_stored =
  st_block_hashes :: "external_hash list"
  st_parent_block_hash :: "external_hash option"
  st_token_ids :: "token list"
  st_block_size :: int
  st_lora_id :: "int option"
  st_medium :: string
  st_lora_name :: "string option"
  st_extra_keys :: "extra_key list option list option"

datatype kv_cache_event =
    BlockStored block_stored
  | BlockRemoved "external_hash list" string
  | AllBlocksCleared

text \<open>\<open>env_int_hashes\<close> is the environment flag read by the hash conversion and \<open>env_digest\<close> the digest
  of prompt embeddings; both are fixed for the life of the process.\<close>

record block_pool =
  num_gpu_blocks :: int
  enable_caching :: bool
  hash_block_size :: int
  free_block_queue :: free_queue
  cached_block_hash_to_block :: block_map
  null_block :: bref
  enable_kv_cache_events :: bool
  kv_event_queue :: "kv_cache_event list"
  metrics :: "metrics_collector option"
  env_int_hashes :: bool
  env_digest :: "int list list \<Rightarrow> bytes"

definition blk :: "block_pool \<Rightarrow> bref \<Rightarrow> kv_cache_block" where
  "blk p b = store (free_block_queue p) b"

definition upd_block :: "bref \<Rightarrow> (kv_cache_block \<Rightarrow> kv_cache_block) \<Rightarrow> block_pool \<Rightarrow> block_pool" where
  "upd_block b f p =
     (let q = free_block_queue p
      in p\<lparr>free_block_queue := q\<lparr>store := (store q)(b := f (store q b))\<rparr>\<rparr>)"

definition with_metrics :: "(metrics_collector \<Rightarrow> metrics_collector) \<Rightarrow> block_pool \<Rightarrow> block_pool" where
  "with_metrics f p = p\<lparr>metrics := map_option f (metrics p)\<rparr>"

definition emit :: "kv_cache_event \<Rightarrow> block_pool \<Rightarrow> block_pool" where
  "emit e p = p\<lparr>kv_event_queue := kv_event_queue p @ [e]\<rparr>"

section \<open>Operations\<close>

definition init_pool ::
  "int \<Rightarrow> bool \<Rightarrow> int \<Rightarrow> bool \<Rightarrow> metrics_collector option \<Rightarrow> bool \<Rightarrow> (int list list \<Rightarrow> bytes) \<Rightarrow> block_pool res" where
  "init_pool n caching hbs events mc int_hashes digest =
     assertE (n > 0)
       (let q0 = init_queue (nat n) fresh_store in
        bindE (popleft q0) (\<lambda>(nb, q).
          Inr (upd_block nb (\<lambda>b. b\<lparr>is_null := True\<rparr>)
             \<lparr>num_gpu_blocks = n, enable_caching = caching, hash_block_size = hbs, free_block_queue = q,
              cached_block_hash_to_block = Map.empty, null_block = nb, enable_kv_cache_events = events,
              kv_event_queue = [], metrics = mc, env_int_hashes = int_hashes, env_digest = digest\<rparr>)))"

fun get_cached_block :: "block_pool \<Rightarrow> bytes \<Rightarrow> int list \<Rightarrow> bref list option res" where
  "get_cached_block p h [] = Inr (Some [])"
| "get_cached_block p h (g # gs) =
     bindE (make_block_hash_with_group_id h g) (\<lambda>key.
     bindE (get_one_block key (cached_block_hash_to_block p)) (\<lambda>hit.
       case hit of
         None \<Rightarrow> Inr None
       | Some b \<Rightarrow> bindE (get_cached_block p h gs) (\<lambda>rest. Inr (map_option ((#) b) rest))))"

fun cache_loop :: "int \<Rightarrow> bytes list \<Rightarrow> int \<Rightarrow> bref list \<Rightarrow> block_pool \<Rightarrow> (block_pool \<times> external_hash list) res" where
  "cache_loop gid hs i [] p = Inr (p, [])"
| "cache_loop gid hs i (b # bs) p =
     (if is_null (blk p b) then cache_loop gid hs (i + 1) bs p
      else assertE (block_hash (blk p b) = None)
        (bindE (py_get hs i) (\<lambda>h.
         bindE (make_block_hash_with_group_id h gid) (\<lambda>key.
         bindE (set_block_hash key (blk p b)) (\<lambda>blk'.
         let p1 = upd_block b (\<lambda>_. blk') p;
             p2 = p1\<lparr>cached_block_hash_to_block :=
                       map_insert (\<lambda>r. block_id (blk p1 r)) key b (cached_block_hash_to_block p1)\<rparr>
         in bindE (cache_loop gid hs (i + 1) bs p2) (\<lambda>(p3, ext).
              Inr (p3, maybe_convert_block_hash (env_int_hashes p) h # ext)))))))"

text \<open>The extra keys reported with a \<^verbatim>\<open>BlockStored\<close> event, one entry per cached block.\<close>

fun stored_keys_loop ::
  "block_pool \<Rightarrow> bref list \<Rightarrow> int \<Rightarrow> int list \<Rightarrow> int \<Rightarrow> request \<Rightarrow> (extra_key list option list \<times> request) res" where
  "stored_keys_loop p blocks bs [] mm r = Inr ([], r)"
| "stored_keys_loop p blocks bs (i # is) mm r =
     bindE (py_get blocks i) (\<lambda>b.
       if is_null (blk p b) then stored_keys_loop p blocks bs is mm r
       else bindE (generate_block_hash_extra_keys (env_digest p) r (i * bs) (i * bs + bs) mm) (\<lambda>(keys, mm', r').
            bindE (stored_keys_loop p blocks bs is mm' r') (\<lambda>(rest, r''). Inr (keys # rest, r''))))"

definition hashes_at :: "block_pool \<Rightarrow> request \<Rightarrow> int \<Rightarrow> block_hash_list res" where
  "hashes_at p r bs =
     (if bs = hash_block_size p then Inr (HashList (block_hashes r))
      else if hash_block_size p = 0 then Inl ZeroDivisionError
      else assertE (bs mod hash_block_size p = 0)
        (bindE (hash_list_with_block_size (block_hashes r) (hash_block_size p) bs) (\<lambda>v. Inr (HashView v))))"

definition cache_full_blocks ::
  "request \<Rightarrow> bref list \<Rightarrow> int \<Rightarrow> int \<Rightarrow> int \<Rightarrow> int \<Rightarrow> block_pool \<Rightarrow> (block_pool \<times> request) res" where
  "cache_full_blocks r blocks ncached nfull bs gid p =
     (if ncached \<ge> nfull then Inr (p, r)
      else assertE (int (length (block_hashes r)) \<ge> nfull)
        (bindE (hashes_at p r bs) (\<lambda>bhl.
         bindE (bhl_from bhl ncached) (\<lambda>new_hashes.
         bindE (cache_loop gid new_hashes 0 (py_slice blocks ncached nfull) p) (\<lambda>(p1, ext).
           if \<not> enable_kv_cache_events p1 then Inr (p1, r)
           else
             bindE (if ncached = 0 then Inr None
                    else bindE (bhl_get bhl (ncached - 1)) (\<lambda>h.
                         Inr (Some (maybe_convert_block_hash (env_int_hashes p1) h)))) (\<lambda>parent.
             bindE (stored_keys_loop p1 blocks bs [ncached..nfull - 1] 0 r) (\<lambda>(keys, r').
             Inr (emit (BlockStored
                    \<lparr>st_block_hashes = ext, st_parent_block_hash = parent,
                     st_token_ids = py_slice (all_token_ids r) (ncached * bs) (nfull * bs),
                     st_block_size = bs, st_lora_id = map_option adapter_id (lora r), st_medium = ''GPU'',
                     st_lora_name = map_option lora_name (lora r),
                     st_extra_keys = (if keys = [] then None else Some keys)\<rparr>) p1, r'))))))))"

definition maybe_evict_cached_block :: "bref \<Rightarrow> block_pool \<Rightarrow> bool \<times> block_pool" where
  "maybe_evict_cached_block b p0 =
     (let p = with_metrics (on_block_evicted (block_id (blk p0 b))) p0 in
      case block_hash (blk p b) of
        None \<Rightarrow> (False, p)
      | Some key \<Rightarrow>
          (let (found, m) = map_pop (\<lambda>r. block_id (blk p r)) key (block_id (blk p b)) (cached_block_hash_to_block p);
               p1 = p\<lparr>cached_block_hash_to_block := m\<rparr>
           in case found of
                None \<Rightarrow> (False, p1)
              | Some _ \<Rightarrow>
                  (let p2 = upd_block b reset_hash p1
                   in (True,
                       if enable_kv_cache_events p2
                       then emit (BlockRemoved [maybe_convert_block_hash (env_int_hashes p2) (get_block_hash key)] ''GPU'') p2
                       else p2))))"

definition alloc_block :: "bref \<Rightarrow> block_pool \<Rightarrow> block_pool res" where
  "alloc_block b p =
     (let p1 = (if enable_caching p then snd (maybe_evict_cached_block b p) else p) in
      assertE (ref_cnt (blk p1 b) = 0)
        (let p2 = upd_block b (\<lambda>k. k\<lparr>ref_cnt := ref_cnt k + 1\<rparr>) p1
         in Inr (with_metrics (on_block_allocated (block_id (blk p2 b))) p2)))"

definition get_num_free_blocks :: "block_pool \<Rightarrow> int" where
  "get_num_free_blocks p = num_free_blocks (free_block_queue p)"

definition get_new_blocks :: "int \<Rightarrow> block_pool \<Rightarrow> (bref list \<times> block_pool) res" where
  "get_new_blocks n p =
     (if n > get_num_free_blocks p then Inl ValueError
      else bindE (popleft_n n (free_block_queue p)) (\<lambda>(ret, q).
           bindE (foldE alloc_block ret (p\<lparr>free_block_queue := q\<rparr>)) (\<lambda>p'. Inr (ret, p'))))"

definition touch_block :: "bref \<Rightarrow> block_pool \<Rightarrow> block_pool res" where
  "touch_block b p =
     bindE (if ref_cnt (blk p b) = 0 \<and> \<not> is_null (blk p b)
            then bindE (remove b (free_block_queue p)) (\<lambda>q. Inr (p\<lparr>free_block_queue := q\<rparr>))
            else Inr p) (\<lambda>p1.
       let p2 = upd_block b (\<lambda>k. k\<lparr>ref_cnt := ref_cnt k + 1\<rparr>) p1
       in Inr (with_metrics (on_block_accessed (block_id (blk p2 b))) p2))"

definition touch :: "bref list \<Rightarrow> block_pool \<Rightarrow> block_pool res" where
  "touch bs p = foldE touch_block bs p"

definition dec_refs :: "bref list \<Rightarrow> block_pool \<Rightarrow> block_pool" where
  "dec_refs bs p = foldl (\<lambda>p b. upd_block b (\<lambda>k. k\<lparr>ref_cnt := ref_cnt k - 1\<rparr>) p) p bs"

definition free_blocks :: "bref list \<Rightarrow> block_pool \<Rightarrow> block_pool res" where
  "free_blocks bs p =
     (let p1 = dec_refs bs p in
      bindE (append_n (filter (\<lambda>b. ref_cnt (blk p1 b) = 0 \<and> \<not> is_null (blk p1 b)) bs) (free_block_queue p1))
        (\<lambda>q. Inr (p1\<lparr>free_block_queue := q\<rparr>)))"

text \<open>\<open>ids\<close> lists the set of block ids in the order of iteration. \<^verbatim>\<open>self.blocks[block_id]\<close> accepts a
  negative id and counts it from the end.\<close>

definition evict_blocks :: "int list \<Rightarrow> block_pool \<Rightarrow> block_pool res" where
  "evict_blocks ids p =
     foldE (\<lambda>i p. assertE (i < num_gpu_blocks p)
              (bindE (py_get (map Blk [0..<nat (num_gpu_blocks p)]) i) (\<lambda>b.
                Inr (snd (maybe_evict_cached_block b p))))) ids p"

definition reset_prefix_cache :: "block_pool \<Rightarrow> bool \<times> block_pool" where
  "reset_prefix_cache p =
     (if num_gpu_blocks p - get_num_free_blocks p \<noteq> 1 then (False, p)
      else (let p1 = p\<lparr>cached_block_hash_to_block := Map.empty\<rparr>;
                p2 = foldl (\<lambda>p i. upd_block (Blk i) reset_hash p) p1 [0..<nat (num_gpu_blocks p)];
                p3 = with_metrics reset_metrics p2
            in (True, if enable_kv_cache_events p3 then emit AllBlocksCleared p3 else p3)))"

definition get_usage :: "block_pool \<Rightarrow> rat" where
  "get_usage p =
     (let total = num_gpu_blocks p - 1
      in if total = 0 then 0 else 1 - of_int (get_num_free_blocks p) / of_int total)"

definition take_events :: "block_pool \<Rightarrow> kv_cache_event list \<times> block_pool" where
  "take_events p =
     (if \<not> enable_kv_cache_events p then ([], p) else (kv_event_queue p, p\<lparr>kv_event_queue := []\<rparr>))"

section \<open>Invariant and abstract view\<close>

definition usable :: "block_pool \<Rightarrow> bref set" where
  "usable p = Blk ` {1..<nat (num_gpu_blocks p)}"

abbreviation free_of :: "block_pool \<Rightarrow> bref list" where
  "free_of p \<equiv> free_list (free_block_queue p)"

abbreviation ref_of :: "block_pool \<Rightarrow> bref \<Rightarrow> int" where
  "ref_of p b \<equiv> ref_cnt (blk p b)"

abbreviation hash_of :: "block_pool \<Rightarrow> bref \<Rightarrow> bytes option" where
  "hash_of p b \<equiv> block_hash (blk p b)"

text \<open>The invariant, relative to a set \<open>X\<close> of blocks that were taken from the queue and are not
  referenced yet (inside an allocation).\<close>

definition pool_except :: "bref set \<Rightarrow> block_pool \<Rightarrow> bool" where
  "pool_except X p \<longleftrightarrow>
     0 < num_gpu_blocks p \<and> queue_inv (free_block_queue p) \<and> null_block p = Blk 0 \<and>
     (\<forall>r. block_id (blk p r) = ref_id r) \<and> (\<forall>r. is_null (blk p r) \<longleftrightarrow> r = Blk 0) \<and>
     set (free_of p) = {b \<in> usable p. ref_of p b = 0 \<and> b \<notin> X} \<and>
     (\<forall>b\<in>usable p. 0 \<le> ref_of p b) \<and>
     map_inv ref_id (cached_block_hash_to_block p) \<and>
     bm.agrees (cached_block_hash_to_block p) (hash_of p) \<and>
     (\<forall>b. hash_of p b \<noteq> None \<longrightarrow> b \<in> usable p)"

abbreviation pool_inv :: "block_pool \<Rightarrow> bool" where
  "pool_inv p \<equiv> pool_except {} p"

text \<open>What the clients of the pool see: the eviction order of the free blocks, the reference counts and
  the cache keys; and the configuration, which no operation changes.\<close>

record pool_view =
  pv_free :: "bref list"
  pv_ref :: "bref \<Rightarrow> int"
  pv_hash :: "bref \<Rightarrow> bytes option"

definition view :: "block_pool \<Rightarrow> pool_view" where
  "view p = \<lparr>pv_free = free_of p, pv_ref = ref_of p, pv_hash = hash_of p\<rparr>"

definition config :: "block_pool \<Rightarrow> int \<times> bool \<times> int \<times> bref \<times> bool \<times> bool \<times> (int list list \<Rightarrow> bytes)" where
  "config p = (num_gpu_blocks p, enable_caching p, hash_block_size p, null_block p,
     enable_kv_cache_events p, env_int_hashes p, env_digest p)"

lemma view_simps [simp]:
  "pv_free (view p) = free_of p" "pv_ref (view p) = ref_of p" "pv_hash (view p) = hash_of p"
  by (simp_all add: view_def)

lemma config_eqD:
  assumes "config p' = config p"
  shows "num_gpu_blocks p' = num_gpu_blocks p" "enable_caching p' = enable_caching p"
    "hash_block_size p' = hash_block_size p" "null_block p' = null_block p"
    "enable_kv_cache_events p' = enable_kv_cache_events p" "usable p' = usable p"
  using assms by (simp_all add: config_def usable_def)

lemma usable_real: "b \<in> usable p \<Longrightarrow> real_block b" and usable_not_null: "b \<in> usable p \<Longrightarrow> b \<noteq> Blk 0"
  by (auto simp: usable_def)

lemma pool_exceptD:
  assumes "pool_except X p"
  shows "queue_inv (free_block_queue p)" "block_id (blk p r) = ref_id r" "is_null (blk p r) \<longleftrightarrow> r = Blk 0"
    "set (free_of p) = {b \<in> usable p. ref_of p b = 0 \<and> b \<notin> X}" "b \<in> usable p \<Longrightarrow> 0 \<le> ref_of p b"
    "map_inv ref_id (cached_block_hash_to_block p)" "bm.agrees (cached_block_hash_to_block p) (hash_of p)"
    "hash_of p b \<noteq> None \<Longrightarrow> b \<in> usable p" "distinct (free_of p)" "0 < num_gpu_blocks p" "null_block p = Blk 0"
  using assms fq.distinct_law unfolding pool_except_def by blast+

lemma block_ids: "pool_except X p \<Longrightarrow> (\<lambda>r. block_id (blk p r)) = ref_id"
  using pool_exceptD(2) by (intro ext) blast

section \<open>Effects of the primitive updates\<close>

text \<open>Writing a block without touching its links keeps the queue.\<close>

lemma linked_cong:
  "(\<And>r. prev_free_block (s' r) = prev_free_block (s r)) \<Longrightarrow>
   (\<And>r. next_free_block (s' r) = next_free_block (s r)) \<Longrightarrow> linked s' xs = linked s xs"
  by (induction s xs rule: linked.induct) auto

lemma queue_repr_cong:
  assumes "\<And>r. prev_free_block (s' r) = prev_free_block (store q r)"
    and "\<And>r. next_free_block (s' r) = next_free_block (store q r)"
  shows "queue_repr (q\<lparr>store := s'\<rparr>) xs = queue_repr q xs"
  using linked_cong [of s' "store q", OF assms] assms by (simp add: queue_repr_def)

lemma queue_inv_upd:
  assumes "\<And>r. prev_free_block (s' r) = prev_free_block (store q r)"
    and "\<And>r. next_free_block (s' r) = next_free_block (store q r)" "queue_inv q"
  shows "queue_inv (q\<lparr>store := s'\<rparr>) \<and> free_list (q\<lparr>store := s'\<rparr>) = free_list q"
proof -
  have "queue_repr (q\<lparr>store := s'\<rparr>) (free_list q)"
    using assms(3) queue_repr_cong [of s' q, OF assms(1,2)] by (simp add: queue_inv_def)
  then show ?thesis using queue_repr_inv queue_repr_free_list by blast
qed

definition keeps_links :: "(kv_cache_block \<Rightarrow> kv_cache_block) \<Rightarrow> bool" where
  "keeps_links f \<longleftrightarrow> (\<forall>k. prev_free_block (f k) = prev_free_block k \<and> next_free_block (f k) = next_free_block k
     \<and> block_id (f k) = block_id k \<and> is_null (f k) = is_null k)"

lemma blk_upd [simp]: "blk (upd_block b f p) c = (if c = b then f (blk p b) else blk p c)"
  by (simp add: blk_def upd_block_def Let_def)

lemma upd_block_fields [simp]:
  "cached_block_hash_to_block (upd_block b f p) = cached_block_hash_to_block p"
  "config (upd_block b f p) = config p" "kv_event_queue (upd_block b f p) = kv_event_queue p"
  "num_gpu_blocks (upd_block b f p) = num_gpu_blocks p" "null_block (upd_block b f p) = null_block p"
  "enable_kv_cache_events (upd_block b f p) = enable_kv_cache_events p"
  "enable_caching (upd_block b f p) = enable_caching p" "usable (upd_block b f p) = usable p"
  by (simp_all add: upd_block_def config_def Let_def usable_def)

lemma upd_block_queue:
  assumes "keeps_links f" "queue_inv (free_block_queue p)"
  shows "queue_inv (free_block_queue (upd_block b f p))" "free_of (upd_block b f p) = free_of p"
  using queue_inv_upd [of "(store (free_block_queue p))(b := f (store (free_block_queue p) b))" "free_block_queue p"] assms
  by (auto simp: upd_block_def Let_def keeps_links_def)

lemma keeps_links_simps [simp]:
  "keeps_links (\<lambda>k. k\<lparr>ref_cnt := g k\<rparr>)" "keeps_links reset_hash" "keeps_links (\<lambda>k. k\<lparr>block_hash := h k\<rparr>)"
  by (simp_all add: keeps_links_def reset_hash_def)

lemma frame_simps [simp]:
  "blk (with_metrics f p) = blk p" "free_block_queue (with_metrics f p) = free_block_queue p"
  "cached_block_hash_to_block (with_metrics f p) = cached_block_hash_to_block p" "config (with_metrics f p) = config p"
  "usable (with_metrics f p) = usable p" "pool_except X (with_metrics f p) = pool_except X p"
  "view (with_metrics f p) = view p" "kv_event_queue (with_metrics f p) = kv_event_queue p"
  "enable_kv_cache_events (with_metrics f p) = enable_kv_cache_events p"
  "enable_caching (with_metrics f p) = enable_caching p"
  "blk (emit e p) = blk p" "free_block_queue (emit e p) = free_block_queue p"
  "cached_block_hash_to_block (emit e p) = cached_block_hash_to_block p" "config (emit e p) = config p"
  "usable (emit e p) = usable p" "pool_except X (emit e p) = pool_except X p" "view (emit e p) = view p"
  by (simp_all add: with_metrics_def emit_def blk_def fun_eq_iff config_def usable_def pool_except_def view_def)

lemma set_map_simps [simp]:
  "blk (p\<lparr>cached_block_hash_to_block := m\<rparr>) = blk p"
  "config (p\<lparr>cached_block_hash_to_block := m\<rparr>) = config p"
  "usable (p\<lparr>cached_block_hash_to_block := m\<rparr>) = usable p"
  by (simp_all add: blk_def fun_eq_iff config_def usable_def)

section \<open>Allocation and eviction\<close>

lemma block_hash_reset [simp]: "block_hash (reset_hash k) = None" "ref_cnt (reset_hash k) = ref_cnt k"
  "is_null (reset_hash k) = is_null k" "block_id (reset_hash k) = block_id k"
  by (simp_all add: reset_hash_def)

lemma hash_of_upd_ref: "hash_of (upd_block b (\<lambda>k. k\<lparr>ref_cnt := g k\<rparr>) p) = hash_of p"
  by (auto simp: fun_eq_iff)

lemma pool_except_change:
  assumes "pool_except X p" "config p' = config p" "queue_inv (free_block_queue p')"
    and "\<And>r. block_id (blk p' r) = block_id (blk p r)" "\<And>r. is_null (blk p' r) = is_null (blk p r)"
    and "set (free_of p') = {b \<in> usable p. ref_of p' b = 0 \<and> b \<notin> Y}" "\<And>b. b \<in> usable p \<Longrightarrow> 0 \<le> ref_of p' b"
    and "map_inv ref_id (cached_block_hash_to_block p')" "bm.agrees (cached_block_hash_to_block p') (hash_of p')"
    and "\<And>b. hash_of p' b \<noteq> None \<Longrightarrow> b \<in> usable p"
  shows "pool_except Y p'"
  unfolding pool_except_def config_eqD [OF assms(2)] assms(4,5)
  using assms(3,6-) pool_exceptD [OF assms(1)] by blast

text \<open>Changing one reference count: a block that gains a reference is no longer in hand, a block that
  loses one is in hand until it is put back.\<close>

lemma inc_ref_except:
  assumes "pool_except X p" "b \<in> usable p \<Longrightarrow> ref_of p b = 0 \<Longrightarrow> b \<in> X"
  shows "pool_except (X - {b}) (upd_block b (\<lambda>k. k\<lparr>ref_cnt := ref_cnt k + 1\<rparr>) p)"
proof -
  let ?p = "upd_block b (\<lambda>k. k\<lparr>ref_cnt := ref_cnt k + 1\<rparr>) p"
  note P = pool_exceptD [OF assms(1)]
  have q: "queue_inv (free_block_queue ?p)" "free_of ?p = free_of p" using upd_block_queue P(1) by simp_all
  show ?thesis
  proof (rule pool_except_change [OF assms(1)])
    show "set (free_of ?p) = {c \<in> usable p. ref_of ?p c = 0 \<and> c \<notin> X - {b}}"
      unfolding q(2) P(4) using assms(2) P(5) by (fastforce split: if_splits)
    show "0 \<le> ref_of ?p c" if "c \<in> usable p" for c using P(5) [OF that] by auto
    show "bm.agrees (cached_block_hash_to_block ?p) (hash_of ?p)" unfolding hash_of_upd_ref using P(7) by simp
    show "c \<in> usable p" if "hash_of ?p c \<noteq> None" for c using that P(8) by (auto split: if_splits)
  qed (use q P in auto)
qed

lemma dec_ref_except:
  assumes "pool_except X p" "b \<in> usable p \<Longrightarrow> 1 \<le> ref_of p b"
  shows "pool_except (insert b X) (upd_block b (\<lambda>k. k\<lparr>ref_cnt := ref_cnt k - 1\<rparr>) p)"
proof -
  let ?p = "upd_block b (\<lambda>k. k\<lparr>ref_cnt := ref_cnt k - 1\<rparr>) p"
  note P = pool_exceptD [OF assms(1)]
  have q: "queue_inv (free_block_queue ?p)" "free_of ?p = free_of p" using upd_block_queue P(1) by simp_all
  show ?thesis
  proof (rule pool_except_change [OF assms(1)])
    show "set (free_of ?p) = {c \<in> usable p. ref_of ?p c = 0 \<and> c \<notin> insert b X}"
      unfolding q(2) P(4) using assms(2) by (auto split: if_splits)
    show "0 \<le> ref_of ?p c" if "c \<in> usable p" for c using P(5) [OF that] assms(2) that by auto
    show "bm.agrees (cached_block_hash_to_block ?p) (hash_of ?p)" unfolding hash_of_upd_ref using P(7) by simp
    show "c \<in> usable p" if "hash_of ?p c \<noteq> None" for c using that P(8) by (auto split: if_splits)
  qed (use q P in auto)
qed

lemma maybe_evict_effect:
  assumes "pool_except X p" "real_block b"
  shows "fst (maybe_evict_cached_block b p) \<longleftrightarrow> hash_of p b \<noteq> None"
    and "pool_except X (snd (maybe_evict_cached_block b p))"
    and "view (snd (maybe_evict_cached_block b p)) = (view p)\<lparr>pv_hash := (hash_of p)(b := None)\<rparr>"
    and "config (snd (maybe_evict_cached_block b p)) = config p"
proof -
  let ?p = "with_metrics (on_block_evicted (block_id (blk p b))) p"
  note P = pool_exceptD [OF assms(1)]
  have "(fst (maybe_evict_cached_block b p) \<longleftrightarrow> hash_of p b \<noteq> None) \<and> pool_except X (snd (maybe_evict_cached_block b p))
    \<and> view (snd (maybe_evict_cached_block b p)) = (view p)\<lparr>pv_hash := (hash_of p)(b := None)\<rparr>
    \<and> config (snd (maybe_evict_cached_block b p)) = config p"
  proof (cases "hash_of p b")
    case None
    then have "maybe_evict_cached_block b p = (False, ?p)" by (simp add: maybe_evict_cached_block_def Let_def)
    moreover have "(hash_of p)(b := None) = hash_of p" using None by auto
    ultimately show ?thesis using assms(1) None by (simp add: view_def)
  next
    case (Some key)
    let ?m = "cached_block_hash_to_block p"
    obtain found m' where pop: "map_pop ref_id key (ref_id b) ?m = (found, m')" by fastforce
    have t: "found = Some b" "map_inv ref_id m'" "bm.agrees m' ((hash_of p)(b := None))"
      using bm.agrees_take [OF P(6,7) assms(2) Some] pop by simp_all
    define p2 where "p2 = upd_block b reset_hash (?p\<lparr>cached_block_hash_to_block := m'\<rparr>)"
    have ev: "maybe_evict_cached_block b p = (True, if enable_kv_cache_events p2
        then emit (BlockRemoved [maybe_convert_block_hash (env_int_hashes p2) (get_block_hash key)] ''GPU'') p2 else p2)"
      using Some pop t(1) block_ids [OF assms(1)] P(2) [of b]
      by (simp add: maybe_evict_cached_block_def Let_def p2_def)
    have h: "hash_of p2 = (hash_of p)(b := None)" by (auto simp: p2_def fun_eq_iff)
    have r: "ref_of p2 c = ref_of p c" for c by (simp add: p2_def)
    have fq: "free_block_queue (?p\<lparr>cached_block_hash_to_block := m'\<rparr>) = free_block_queue p" by simp
    have q: "queue_inv (free_block_queue p2)" "free_of p2 = free_of p"
      using upd_block_queue [of reset_hash "?p\<lparr>cached_block_hash_to_block := m'\<rparr>" b] P(1) unfolding p2_def fq by simp_all
    have c: "config p2 = config p" by (simp add: p2_def)
    have "pool_except X p2"
    proof (rule pool_except_change [OF assms(1) c q(1)])
      show "set (free_of p2) = {b \<in> usable p. ref_of p2 b = 0 \<and> b \<notin> X}" unfolding q(2) r by (rule P(4))
      show "bm.agrees (cached_block_hash_to_block p2) (hash_of p2)" unfolding h using t(3) by (simp add: p2_def)
      show "c \<in> usable p" if "hash_of p2 c \<noteq> None" for c using that P(8) by (auto simp: p2_def split: if_splits)
    qed (use P(5) t(2) in \<open>auto simp: p2_def\<close>)
    moreover have "view p2 = (view p)\<lparr>pv_hash := (hash_of p)(b := None)\<rparr>"
      unfolding view_def h q(2) r by simp
    ultimately show ?thesis unfolding ev using Some c by simp
  qed
  then show "fst (maybe_evict_cached_block b p) \<longleftrightarrow> hash_of p b \<noteq> None"
    "pool_except X (snd (maybe_evict_cached_block b p))"
    "view (snd (maybe_evict_cached_block b p)) = (view p)\<lparr>pv_hash := (hash_of p)(b := None)\<rparr>"
    "config (snd (maybe_evict_cached_block b p)) = config p" by blast+
qed

lemma view_eqD:
  "view p' = v \<Longrightarrow> free_of p' = pv_free v" "view p' = v \<Longrightarrow> ref_of p' = pv_ref v" "view p' = v \<Longrightarrow> hash_of p' = pv_hash v"
  by auto

lemma view_upd_ref:
  "queue_inv (free_block_queue p) \<Longrightarrow>
   view (upd_block b (\<lambda>k. k\<lparr>ref_cnt := ref_cnt k + d\<rparr>) p) = (view p)\<lparr>pv_ref := (ref_of p)(b := ref_of p b + d)\<rparr>"
  using upd_block_queue(2) [of "\<lambda>k. k\<lparr>ref_cnt := ref_cnt k + d\<rparr>" p b] by (auto simp: view_def fun_eq_iff)

lemma alloc_block_effect:
  assumes "pool_except X p" "b \<in> X" "b \<in> usable p" "ref_of p b = 0"
  shows "\<exists>p'. alloc_block b p = Inr p' \<and> pool_except (X - {b}) p' \<and> config p' = config p
    \<and> view p' = (view p)\<lparr>pv_ref := (ref_of p)(b := 1),
                        pv_hash := (if enable_caching p then (hash_of p)(b := None) else hash_of p)\<rparr>"
proof -
  define p1 where "p1 = (if enable_caching p then snd (maybe_evict_cached_block b p) else p)"
  have p1: "pool_except X p1" "config p1 = config p"
    "view p1 = (view p)\<lparr>pv_hash := (if enable_caching p then (hash_of p)(b := None) else hash_of p)\<rparr>"
    using maybe_evict_effect [OF assms(1) usable_real [OF assms(3)]] assms(1) by (simp_all add: p1_def view_def)
  have r1: "ref_of p1 = ref_of p" and f1: "free_of p1 = free_of p"
    using view_eqD [OF p1(3)] by simp_all
  define p2 where "p2 = upd_block b (\<lambda>k. k\<lparr>ref_cnt := ref_cnt k + 1\<rparr>) p1"
  have rb: "ref_of p1 b = 0" using r1 assms(4) by (simp add: fun_eq_iff)
  have "pool_except (X - {b}) p2"
    unfolding p2_def by (rule inc_ref_except [OF p1(1)]) (rule assms(2))
  moreover have "view p2 = (view p1)\<lparr>pv_ref := (ref_of p)(b := 1)\<rparr>"
    using view_upd_ref [of p1 b 1] pool_exceptD(1) [OF p1(1)] rb r1 by (simp add: p2_def)
  moreover have "alloc_block b p = Inr (with_metrics (on_block_allocated (block_id (blk p2 b))) p2)"
    using rb by (simp add: alloc_block_def p1_def [symmetric] p2_def Let_def)
  ultimately show ?thesis using p1 by (simp add: p2_def)
qed

lemma alloc_all_effect:
  assumes "pool_except (set bs) p" "distinct bs" "set bs \<subseteq> usable p" "\<forall>b\<in>set bs. ref_of p b = 0"
  shows "\<exists>p'. foldE alloc_block bs p = Inr p' \<and> pool_inv p' \<and> config p' = config p
    \<and> view p' = (view p)\<lparr>pv_ref := (\<lambda>b. if b \<in> set bs then 1 else ref_of p b),
         pv_hash := (\<lambda>b. if enable_caching p \<and> b \<in> set bs then None else hash_of p b)\<rparr>"
  using assms
proof (induction bs arbitrary: p)
  case Nil
  then show ?case by (simp add: view_def)
next
  case (Cons b bs)
  obtain p1 where p1: "alloc_block b p = Inr p1" "pool_except (set (b # bs) - {b}) p1" "config p1 = config p"
    "view p1 = (view p)\<lparr>pv_ref := (ref_of p)(b := 1),
       pv_hash := (if enable_caching p then (hash_of p)(b := None) else hash_of p)\<rparr>"
    using alloc_block_effect [OF Cons.prems(1), of b] Cons.prems by auto
  have s: "set (b # bs) - {b} = set bs" using Cons.prems(2) by auto
  have r1: "ref_of p1 = (ref_of p)(b := 1)"
    and h1: "hash_of p1 = (if enable_caching p then (hash_of p)(b := None) else hash_of p)"
    using view_eqD(2,3) [OF p1(4)] by simp_all
  have "pool_except (set bs) p1" "distinct bs" "set bs \<subseteq> usable p1" "\<forall>c\<in>set bs. ref_of p1 c = 0"
    using p1(2) s Cons.prems config_eqD(6) [OF p1(3)] fun_cong [OF r1] by (auto simp: fun_upd_def)
  from Cons.IH [OF this] obtain p' where p': "foldE alloc_block bs p1 = Inr p'" "pool_inv p'" "config p' = config p1"
    "view p' = (view p1)\<lparr>pv_ref := (\<lambda>c. if c \<in> set bs then 1 else ref_of p1 c),
         pv_hash := (\<lambda>c. if enable_caching p1 \<and> c \<in> set bs then None else hash_of p1 c)\<rparr>" by blast
  have "view p' = (view p)\<lparr>pv_ref := (\<lambda>c. if c \<in> set (b # bs) then 1 else ref_of p c),
         pv_hash := (\<lambda>c. if enable_caching p \<and> c \<in> set (b # bs) then None else hash_of p c)\<rparr>"
    unfolding p'(4) config_eqD(2) [OF p1(3)] using fun_cong [OF r1] fun_cong [OF h1] p1(4)
    by (auto simp: fun_eq_iff)
  with p1(1,3) p' show ?case by simp
qed

lemma set_queue_simps [simp]:
  "config (p\<lparr>free_block_queue := q\<rparr>) = config p" "usable (p\<lparr>free_block_queue := q\<rparr>) = usable p"
  "blk (p\<lparr>free_block_queue := q\<rparr>) r = store q r"
  by (simp_all add: config_def usable_def blk_def)

text \<open>Replacing the queue by one with the same block data.\<close>

lemma set_queue_except:
  assumes "pool_except X p" "queue_inv q" "meta (store q) = meta (store (free_block_queue p))"
    and "set (free_list q) = {b \<in> usable p. ref_of p b = 0 \<and> b \<notin> Y}"
  shows "pool_except Y (p\<lparr>free_block_queue := q\<rparr>)"
    and "view (p\<lparr>free_block_queue := q\<rparr>) = (view p)\<lparr>pv_free := free_list q\<rparr>"
proof -
  note P = pool_exceptD [OF assms(1)]
  note m = meta_fields [OF assms(3), folded blk_def]
  have h: "(\<lambda>b. block_hash (store q b)) = hash_of p" using m(3) by (intro ext)
  have ag: "bm.agrees (cached_block_hash_to_block p) (hash_of p)" by (rule P(7))
  show "pool_except Y (p\<lparr>free_block_queue := q\<rparr>)"
  proof (rule pool_except_change [OF assms(1)])
    show "bm.agrees (cached_block_hash_to_block (p\<lparr>free_block_queue := q\<rparr>)) (hash_of (p\<lparr>free_block_queue := q\<rparr>))"
      unfolding set_queue_simps h using ag by simp
  qed (use assms(2,4) P m in auto)
  show "view (p\<lparr>free_block_queue := q\<rparr>) = (view p)\<lparr>pv_free := free_list q\<rparr>"
    unfolding view_def set_queue_simps m by simp
qed

text \<open>The abstract operations on views.\<close>

definition view_alloc :: "bool \<Rightarrow> nat \<Rightarrow> pool_view \<Rightarrow> pool_view" where
  "view_alloc caching n v =
     (let new = set (take n (pv_free v))
      in v\<lparr>pv_free := drop n (pv_free v),
           pv_ref := (\<lambda>b. if b \<in> new then 1 else pv_ref v b),
           pv_hash := (\<lambda>b. if caching \<and> b \<in> new then None else pv_hash v b)\<rparr>)"

definition view_touch :: "bref list \<Rightarrow> pool_view \<Rightarrow> pool_view" where
  "view_touch bs v = v\<lparr>pv_free := filter (\<lambda>b. b \<notin> set bs) (pv_free v),
     pv_ref := (\<lambda>b. pv_ref v b + int (count_list bs b))\<rparr>"

definition view_free :: "bref list \<Rightarrow> pool_view \<Rightarrow> pool_view" where
  "view_free bs v =
     (let ref' = (\<lambda>b. pv_ref v b - int (count_list bs b))
      in v\<lparr>pv_free := pv_free v @ filter (\<lambda>b. ref' b = 0 \<and> b \<noteq> Blk 0) bs, pv_ref := ref'\<rparr>)"

lemma num_free_length: "pool_except X p \<Longrightarrow> get_num_free_blocks p = int (length (free_of p))"
  using fq.size_law [OF pool_exceptD(1)] by (simp add: get_num_free_blocks_def)

lemma get_new_blocks_effect:
  assumes "pool_inv p" "n \<le> length (free_of p)"
  shows "\<exists>p'. get_new_blocks (int n) p = Inr (take n (free_of p), p') \<and> pool_inv p' \<and> config p' = config p
    \<and> view p' = view_alloc (enable_caching p) n (view p)"
proof -
  note P = pool_exceptD [OF assms(1)]
  let ?new = "take n (free_of p)"
  obtain q where q: "popleft_n (int n) (free_block_queue p) = Inr (?new, q)" "queue_inv q"
    "free_list q = drop n (free_of p)" "meta (store q) = meta (store (free_block_queue p))"
    using fq.pop_law [OF P(1) assms(2)] by blast
  let ?p = "p\<lparr>free_block_queue := q\<rparr>"
  have "set (take n (free_of p)) \<union> set (drop n (free_of p)) = set (free_of p)"
    by (metis append_take_drop_id set_append)
  moreover have "set (take n (free_of p)) \<inter> set (drop n (free_of p)) = {}"
    using P(9) by (simp add: set_take_disj_set_drop_if_distinct)
  ultimately have s: "set (free_list q) = {b \<in> usable p. ref_of p b = 0 \<and> b \<notin> set ?new}"
    unfolding q(3) using P(4) by auto
  note sq = set_queue_except [OF assms(1) q(2,4) s]
  have r: "ref_of ?p = ref_of p" and h: "hash_of ?p = hash_of p" using view_eqD(2,3) [OF sq(2)] by simp_all
  have new: "distinct ?new" "set ?new \<subseteq> usable ?p" "\<forall>b\<in>set ?new. ref_of ?p b = 0"
    using P(4,9) fun_cong [OF r] by (auto dest: in_set_takeD)
  obtain p' where p': "foldE alloc_block ?new ?p = Inr p'" "pool_inv p'" "config p' = config ?p"
    "view p' = (view ?p)\<lparr>pv_ref := (\<lambda>b. if b \<in> set ?new then 1 else ref_of ?p b),
         pv_hash := (\<lambda>b. if enable_caching ?p \<and> b \<in> set ?new then None else hash_of ?p b)\<rparr>"
    using alloc_all_effect [OF sq(1) new] by blast
  have "view p' = view_alloc (enable_caching p) n (view p)"
    unfolding p'(4) sq(2) using q(3) fun_cong [OF r] fun_cong [OF h]
    by (auto simp: view_alloc_def Let_def view_def fun_eq_iff)
  moreover have "get_new_blocks (int n) p = Inr (?new, p')"
    using q(1) p'(1) num_free_length [OF assms(1)] assms(2) by (simp add: get_new_blocks_def)
  ultimately show ?thesis using p' by simp
qed

lemma touch_block_effect:
  assumes "pool_inv p" "b \<in> usable p \<or> b = Blk 0"
  shows "\<exists>p'. touch_block b p = Inr p' \<and> pool_inv p' \<and> config p' = config p
    \<and> view p' = (view p)\<lparr>pv_free := filter (\<lambda>c. c \<noteq> b) (free_of p), pv_ref := (ref_of p)(b := ref_of p b + 1)\<rparr>"
proof -
  note P = pool_exceptD [OF assms(1)]
  let ?take = "ref_of p b = 0 \<and> \<not> is_null (blk p b)"
  have "\<exists>p1. (if ?take then bindE (remove b (free_block_queue p)) (\<lambda>q. Inr (p\<lparr>free_block_queue := q\<rparr>)) else Inr p) = Inr p1
    \<and> pool_except {b} p1 \<and> config p1 = config p \<and> view p1 = (view p)\<lparr>pv_free := filter (\<lambda>c. c \<noteq> b) (free_of p)\<rparr>"
  proof (cases ?take)
    case True
    then have b: "b \<in> set (free_of p)" using P(3,4) assms(2) by auto
    obtain q where q: "remove b (free_block_queue p) = Inr q" "queue_inv q"
      "free_list q = remove1 b (free_of p)" "meta (store q) = meta (store (free_block_queue p))"
      using fq.del_law [OF P(1) b] by blast
    have "set (free_list q) = {c \<in> usable p. ref_of p c = 0 \<and> c \<notin> {b}}"
      unfolding q(3) using P(4,9) by auto
    note sq = set_queue_except [OF assms(1) q(2,4) this]
    have "remove1 b (free_of p) = filter (\<lambda>c. c \<noteq> b) (free_of p)"
      using P(9) by (simp add: distinct_remove1_removeAll removeAll_filter_not_eq) (rule filter_cong, auto)
    then show ?thesis using True q(1,3) sq by simp
  next
    case False
    then have nb: "b \<notin> set (free_of p)" using P(3,4) usable_not_null by auto
    then have f: "filter (\<lambda>c. c \<noteq> b) (free_of p) = free_of p" by (intro filter_True) auto
    have "set (free_of p) = {c \<in> usable p. ref_of p c = 0 \<and> c \<notin> {b}}" using P(4) nb by auto
    then have "pool_except {b} p"
      by (rule pool_except_change [OF assms(1) refl P(1) refl refl]) (rule P; assumption)+
    then show ?thesis unfolding if_not_P [OF False] f by (simp add: view_def)
  qed
  then obtain p1 where p1: "(if ?take then bindE (remove b (free_block_queue p)) (\<lambda>q. Inr (p\<lparr>free_block_queue := q\<rparr>)) else Inr p) = Inr p1"
    "pool_except {b} p1" "config p1 = config p" "view p1 = (view p)\<lparr>pv_free := filter (\<lambda>c. c \<noteq> b) (free_of p)\<rparr>" by blast
  let ?p2 = "upd_block b (\<lambda>k. k\<lparr>ref_cnt := ref_cnt k + 1\<rparr>) p1"
  have "touch_block b p = Inr (with_metrics (on_block_accessed (block_id (blk ?p2 b))) ?p2)"
    unfolding touch_block_def p1(1) by (simp add: Let_def)
  moreover have "pool_inv ?p2" using inc_ref_except [OF p1(2), of b] by simp
  moreover have "ref_of p1 = ref_of p" using view_eqD(2) [OF p1(4)] by simp
  then have "view ?p2 = (view p)\<lparr>pv_free := filter (\<lambda>c. c \<noteq> b) (free_of p), pv_ref := (ref_of p)(b := ref_of p b + 1)\<rparr>"
    using view_upd_ref [of p1 b 1] pool_exceptD(1) [OF p1(2)] p1(4) by (simp add: fun_eq_iff)
  ultimately show ?thesis using p1(3) by simp
qed

lemma touch_effect:
  assumes "pool_inv p" "set bs \<subseteq> insert (Blk 0) (usable p)"
  shows "\<exists>p'. touch bs p = Inr p' \<and> pool_inv p' \<and> config p' = config p \<and> view p' = view_touch bs (view p)"
  using assms unfolding touch_def
proof (induction bs arbitrary: p)
  case Nil
  then show ?case by (simp add: view_touch_def)
next
  case (Cons b bs)
  obtain p1 where p1: "touch_block b p = Inr p1" "pool_inv p1" "config p1 = config p"
    "view p1 = (view p)\<lparr>pv_free := filter (\<lambda>c. c \<noteq> b) (free_of p), pv_ref := (ref_of p)(b := ref_of p b + 1)\<rparr>"
    using touch_block_effect [of p b] Cons.prems by auto
  have "set bs \<subseteq> insert (Blk 0) (usable p1)" using Cons.prems(2) config_eqD(6) [OF p1(3)] by simp
  from Cons.IH [OF p1(2) this] obtain p' where p': "foldE touch_block bs p1 = Inr p'" "pool_inv p'"
    "config p' = config p1" "view p' = view_touch bs (view p1)" by blast
  have "view_touch bs (view p1) = view_touch (b # bs) (view p)"
    unfolding p1(4) view_touch_def by (auto simp: fun_eq_iff conj_commute)
  with p1 p' show ?case by simp
qed

section \<open>Freeing\<close>

lemma dec_refs_Cons: "dec_refs (b # bs) p = dec_refs bs (upd_block b (\<lambda>k. k\<lparr>ref_cnt := ref_cnt k - 1\<rparr>) p)"
  by (simp add: dec_refs_def)

lemma dec_refs_effect:
  assumes "pool_except X p" "\<forall>b\<in>set bs. b \<in> usable p \<longrightarrow> int (count_list bs b) \<le> ref_of p b"
  shows "pool_except (X \<union> set bs) (dec_refs bs p) \<and> config (dec_refs bs p) = config p
    \<and> view (dec_refs bs p) = (view p)\<lparr>pv_ref := (\<lambda>b. ref_of p b - int (count_list bs b))\<rparr>"
  using assms
proof (induction bs arbitrary: p X)
  case Nil
  then show ?case by (simp add: dec_refs_def view_def)
next
  case (Cons b bs)
  let ?p = "upd_block b (\<lambda>k. k\<lparr>ref_cnt := ref_cnt k - 1\<rparr>) p"
  have "1 \<le> ref_of p b" if "b \<in> usable p" using Cons.prems(2) that by auto
  then have p1: "pool_except (insert b X) ?p" by (rule dec_ref_except [OF Cons.prems(1)])
  have "\<forall>c\<in>set bs. c \<in> usable ?p \<longrightarrow> int (count_list bs c) \<le> ref_of ?p c"
    using Cons.prems(2) by auto
  note IH = Cons.IH [OF p1 this]
  have v: "view ?p = (view p)\<lparr>pv_ref := (ref_of p)(b := ref_of p b - 1)\<rparr>"
    using view_upd_ref [of p b "-1"] pool_exceptD(1) [OF Cons.prems(1)] by simp
  have "view (dec_refs (b # bs) p) = (view ?p)\<lparr>pv_ref := (\<lambda>c. ref_of ?p c - int (count_list bs c))\<rparr>"
    using IH by (simp add: dec_refs_Cons)
  also have "\<dots> = (view p)\<lparr>pv_ref := (\<lambda>c. ref_of p c - int (count_list (b # bs) c))\<rparr>"
    unfolding v by (auto simp: fun_eq_iff)
  finally show ?case using IH by (simp add: dec_refs_Cons Un_commute)
qed

lemma count_list_distinct_filter:
  "distinct (filter P bs) \<Longrightarrow> P b \<Longrightarrow> b \<in> set bs \<Longrightarrow> count_list bs b = 1"
  by (induction bs) (auto simp: count_list_0_iff split: if_splits)

lemma free_blocks_effect:
  assumes "pool_inv p" "distinct (filter (\<lambda>b. b \<noteq> Blk 0) bs)" "\<forall>b\<in>set bs. b = Blk 0 \<or> b \<in> usable p \<and> 1 \<le> ref_of p b"
  shows "\<exists>p'. free_blocks bs p = Inr p' \<and> pool_inv p' \<and> config p' = config p \<and> view p' = view_free bs (view p)"
proof -
  note P = pool_exceptD [OF assms(1)]
  have "\<forall>b\<in>set bs. b \<in> usable p \<longrightarrow> int (count_list bs b) \<le> ref_of p b"
  proof (intro ballI impI)
    fix b assume b: "b \<in> set bs" "b \<in> usable p"
    then have "b \<noteq> Blk 0" using usable_not_null by blast
    then show "int (count_list bs b) \<le> ref_of p b"
      using count_list_distinct_filter [OF assms(2), of b] b(1) assms(3) by auto
  qed
  then have d: "pool_except (set bs) (dec_refs bs p)" "config (dec_refs bs p) = config p"
    "view (dec_refs bs p) = (view p)\<lparr>pv_ref := (\<lambda>b. ref_of p b - int (count_list bs b))\<rparr>"
    using dec_refs_effect [OF assms(1), of bs] by auto
  let ?p = "dec_refs bs p"
  note D = pool_exceptD [OF d(1)]
  let ?ys = "filter (\<lambda>b. ref_of ?p b = 0 \<and> \<not> is_null (blk ?p b)) bs"
  have ys: "?ys = filter (\<lambda>b. ref_of p b - int (count_list bs b) = 0 \<and> b \<noteq> Blk 0) bs"
    using fun_cong [OF view_eqD(2) [OF d(3)]] D(3) by simp
  have u: "usable ?p = usable p" using config_eqD(6) [OF d(2)] .
  have sy: "set ?ys = {b \<in> usable ?p. ref_of ?p b = 0 \<and> b \<in> set bs}"
    using D(3) assms(3) usable_not_null by (auto simp: u)
  have "distinct ?ys"
    using distinct_filter [OF assms(2), of "\<lambda>b. ref_of ?p b = 0"] D(3) by (simp add: conj_commute)
  moreover have "set ?ys \<inter> set (free_of ?p) = {}" unfolding sy D(4) by auto
  moreover have "\<forall>b\<in>set ?ys. real_block b" unfolding sy using usable_real by blast
  ultimately obtain q where q: "append_n ?ys (free_block_queue ?p) = Inr q" "queue_inv q"
    "free_list q = free_of ?p @ ?ys" "meta (store q) = meta (store (free_block_queue ?p))"
    using fq.add_law [OF D(1)] by blast
  have "set (free_list q) = {b \<in> usable ?p. ref_of ?p b = 0 \<and> b \<notin> {}}"
    unfolding q(3) set_append sy D(4) by auto
  note sq = set_queue_except [OF d(1) q(2,4) this]
  have "free_blocks bs p = Inr (?p\<lparr>free_block_queue := q\<rparr>)" using q(1) by (simp add: free_blocks_def Let_def)
  moreover have "view (?p\<lparr>free_block_queue := q\<rparr>) = view_free bs (view p)"
    unfolding sq(2) q(3) d(3) ys view_free_def Let_def using view_eqD(1) [OF d(3)] by simp
  ultimately show ?thesis using sq(1) d(2) by simp
qed

section \<open>Eviction and reset\<close>

lemma evict_blocks_effect:
  assumes "pool_inv p" "\<forall>i\<in>set ids. 0 \<le> i \<and> i < num_gpu_blocks p"
  shows "\<exists>p'. evict_blocks ids p = Inr p' \<and> pool_inv p' \<and> config p' = config p
    \<and> view p' = (view p)\<lparr>pv_hash := (\<lambda>b. if ref_id b \<in> set ids then None else hash_of p b)\<rparr>"
  using assms unfolding evict_blocks_def
proof (induction ids arbitrary: p)
  case Nil
  then show ?case by (simp add: view_def)
next
  case (Cons i ids)
  have i: "0 \<le> i" "i < num_gpu_blocks p" using Cons.prems(2) by auto
  let ?b = "Blk (nat i)" and ?p = "snd (maybe_evict_cached_block (Blk (nat i)) p)"
  note e = maybe_evict_effect [OF Cons.prems(1), of ?b]
  have c: "config ?p = config p" using e(4) by simp
  have v: "view ?p = (view p)\<lparr>pv_hash := (hash_of p)(?b := None)\<rparr>" using e(3) by simp
  have g: "py_get (map Blk [0..<nat (num_gpu_blocks p)]) i = Inr ?b" using i by (simp add: py_get_nonneg nat_less_iff)
  obtain p' where p': "foldE (\<lambda>i p. assertE (i < num_gpu_blocks p)
              (bindE (py_get (map Blk [0..<nat (num_gpu_blocks p)]) i) (\<lambda>b.
                Inr (snd (maybe_evict_cached_block b p))))) ids ?p = Inr p'"
    "pool_inv p'" "config p' = config ?p"
    "view p' = (view ?p)\<lparr>pv_hash := (\<lambda>b. if ref_id b \<in> set ids then None else hash_of ?p b)\<rparr>"
    using Cons.IH [of ?p] e(2) config_eqD(1) [OF c] Cons.prems(2) by auto
  have id: "ref_id b = i \<longleftrightarrow> b = ?b" for b using i(1) by (cases b) auto
  have "view p' = (view p)\<lparr>pv_hash := (\<lambda>b. if ref_id b \<in> set (i # ids) then None else hash_of p b)\<rparr>"
    unfolding p'(4) v using fun_cong [OF view_eqD(3) [OF v]] id by (auto simp: fun_eq_iff)
  then show ?case using p' g i(2) c by simp
qed

lemma reset_all_hashes:
  fixes n :: nat
  assumes "queue_inv (free_block_queue p)"
  defines "p' \<equiv> foldl (\<lambda>p i. upd_block (Blk i) reset_hash p) p [0..<n]"
  shows "queue_inv (free_block_queue p') \<and> free_of p' = free_of p \<and> config p' = config p
    \<and> cached_block_hash_to_block p' = cached_block_hash_to_block p
    \<and> (\<forall>r. blk p' r = (if r \<in> Blk ` {..<n} then reset_hash (blk p r) else blk p r))"
  unfolding p'_def
proof (induction n)
  case 0
  then show ?case using assms(1) by simp
next
  case (Suc n)
  then show ?case
    using upd_block_queue [of reset_hash "foldl (\<lambda>p i. upd_block (Blk i) reset_hash p) p [0..<n]" "Blk n"]
    by (auto simp: lessThan_Suc)
qed

lemma reset_prefix_cache_effect:
  assumes "pool_inv p"
  shows "fst (reset_prefix_cache p) \<longleftrightarrow> (\<forall>b\<in>usable p. ref_of p b = 0)"
    and "pool_inv (snd (reset_prefix_cache p))" and "config (snd (reset_prefix_cache p)) = config p"
    and "view (snd (reset_prefix_cache p)) =
      (if fst (reset_prefix_cache p) then (view p)\<lparr>pv_hash := (\<lambda>_. None)\<rparr> else view p)"
proof -
  note P = pool_exceptD [OF assms]
  have card: "card (usable p) = nat (num_gpu_blocks p) - 1" by (simp add: usable_def card_image inj_on_def)
  have sub: "set (free_of p) \<subseteq> usable p" using P(4) by auto
  have fin: "finite (usable p)" by (simp add: usable_def)
  have lf: "length (free_of p) = card (set (free_of p))" using P(9) by (simp add: distinct_card)
  have "num_gpu_blocks p - get_num_free_blocks p = 1 \<longleftrightarrow> length (free_of p) = card (usable p)"
    unfolding num_free_length [OF assms] card using P(10) by auto
  also have "\<dots> \<longleftrightarrow> set (free_of p) = usable p"
    unfolding lf using card_subset_eq [OF fin sub] by auto
  also have "\<dots> \<longleftrightarrow> (\<forall>b\<in>usable p. ref_of p b = 0)" using P(4) by auto
  finally have ok: "num_gpu_blocks p - get_num_free_blocks p = 1 \<longleftrightarrow> (\<forall>b\<in>usable p. ref_of p b = 0)" .
  then show "fst (reset_prefix_cache p) \<longleftrightarrow> (\<forall>b\<in>usable p. ref_of p b = 0)"
    by (simp add: reset_prefix_cache_def Let_def)
  let ?p1 = "p\<lparr>cached_block_hash_to_block := Map.empty\<rparr>"
  define p2 where "p2 = foldl (\<lambda>p i. upd_block (Blk i) reset_hash p) ?p1 [0..<nat (num_gpu_blocks p)]"
  have p2: "queue_inv (free_block_queue p2)" "free_of p2 = free_of p" "config p2 = config p"
    "cached_block_hash_to_block p2 = Map.empty"
    "blk p2 r = (if r \<in> Blk ` {..<nat (num_gpu_blocks p)} then reset_hash (blk p r) else blk p r)" for r
    using reset_all_hashes [of ?p1 "nat (num_gpu_blocks p)"] P(1) unfolding p2_def by simp_all
  have h: "hash_of p2 = (\<lambda>_. None)"
  proof
    fix r
    have "r \<in> Blk ` {..<nat (num_gpu_blocks p)}" if "hash_of p r \<noteq> None" using P(8) [OF that] by (auto simp: usable_def)
    then show "hash_of p2 r = None" by (cases "hash_of p r = None") (auto simp: p2(5))
  qed
  have r: "ref_of p2 b = ref_of p b" for b by (simp add: p2(5))
  have i2: "pool_inv p2"
  proof (rule pool_except_change [OF assms p2(3,1)])
    show "set (free_of p2) = {b \<in> usable p. ref_of p2 b = 0 \<and> b \<notin> {}}" unfolding p2(2) r using P(4) .
    show "bm.agrees (cached_block_hash_to_block p2) (hash_of p2)" unfolding h p2(4) by (simp add: bm.agrees_def)
    show "b \<in> usable p" if "hash_of p2 b \<noteq> None" for b using that fun_cong [OF h, of b] by simp
  qed (use P(5) p2(4,5) r in auto)
  have v2: "view p2 = (view p)\<lparr>pv_hash := (\<lambda>_. None)\<rparr>" unfolding view_def h p2(2) r by simp
  have res: "reset_prefix_cache p = (if \<forall>b\<in>usable p. ref_of p b = 0
      then (True, (\<lambda>p3. if enable_kv_cache_events p3 then emit AllBlocksCleared p3 else p3) (with_metrics reset_metrics p2))
      else (False, p))"
    using ok by (simp add: reset_prefix_cache_def p2_def Let_def)
  show "pool_inv (snd (reset_prefix_cache p))" "config (snd (reset_prefix_cache p)) = config p"
    "view (snd (reset_prefix_cache p)) =
      (if fst (reset_prefix_cache p) then (view p)\<lparr>pv_hash := (\<lambda>_. None)\<rparr> else view p)"
    unfolding res using assms i2 v2 p2(3) by auto
qed

section \<open>Caching\<close>

definition group_key :: "bytes \<Rightarrow> int \<Rightarrow> bytes" where
  "group_key h g = (case make_block_hash_with_group_id h g of Inr k \<Rightarrow> k | Inl _ \<Rightarrow> [])"

definition valid_group :: "int \<Rightarrow> bool" where
  "valid_group g \<longleftrightarrow> 0 \<le> g \<and> g < 2 ^ 32"

lemma make_group_key: "valid_group g \<Longrightarrow> make_block_hash_with_group_id h g = Inr (group_key h g)"
  using make_key_total [of g h] by (auto simp: group_key_def valid_group_def)

lemma group_key_inj:
  "valid_group g \<Longrightarrow> valid_group g' \<Longrightarrow> group_key h g = group_key h' g' \<Longrightarrow> h = h' \<and> g = g'"
  using make_key_inj make_group_key by metis

lemma get_cached_block_effect:
  assumes "pool_except X p" "\<forall>g\<in>set gs. valid_group g"
  shows "\<exists>hit. get_cached_block p h gs = Inr hit \<and>
    (case hit of Some bs \<Rightarrow> list_all2 (\<lambda>g b. b \<in> usable p \<and> hash_of p b = Some (group_key h g)) gs bs
     | None \<Rightarrow> (\<exists>g\<in>set gs. \<forall>b. hash_of p b \<noteq> Some (group_key h g)))"
  using assms(2)
proof (induction gs)
  case Nil
  then show ?case by simp
next
  case (Cons g gs)
  note P = pool_exceptD [OF assms(1)]
  have key: "make_block_hash_with_group_id h g = Inr (group_key h g)" using make_group_key Cons.prems by simp
  obtain hit where hit: "get_one_block (group_key h g) (cached_block_hash_to_block p) = Inr hit"
    "case hit of Some b \<Rightarrow> real_block b \<and> hash_of p b = Some (group_key h g)
     | None \<Rightarrow> (\<forall>b. real_block b \<longrightarrow> hash_of p b \<noteq> Some (group_key h g))"
    using bm.agrees_look [OF P(6,7), of "group_key h g"] by blast
  obtain rest where rest: "get_cached_block p h gs = Inr rest"
    "case rest of Some bs \<Rightarrow> list_all2 (\<lambda>g b. b \<in> usable p \<and> hash_of p b = Some (group_key h g)) gs bs
     | None \<Rightarrow> (\<exists>g\<in>set gs. \<forall>b. hash_of p b \<noteq> Some (group_key h g))"
    using Cons.IH Cons.prems by auto
  show ?case
  proof (cases hit)
    case None
    then have "hash_of p b \<noteq> Some (group_key h g)" for b
      using hit(2) P(8) [of b] usable_real [of b] by (cases "hash_of p b") auto
    then show ?thesis using key hit(1) None by auto
  next
    case (Some b)
    then have "b \<in> usable p" "hash_of p b = Some (group_key h g)" using hit(2) P(8) [of b] by auto
    then show ?thesis using key hit(1) Some rest by (cases rest) auto
  qed
qed

text \<open>The keys that caching assigns: block \<open>j\<close> of the list gets hash \<open>j\<close>, the null block gets none.\<close>

definition new_keys :: "int \<Rightarrow> bref list \<Rightarrow> bytes list \<Rightarrow> (bref \<times> bytes) list" where
  "new_keys gid bs hs = filter (\<lambda>x. fst x \<noteq> Blk 0) (zip bs (map (\<lambda>h. group_key h gid) hs))"

lemma cache_loop_effect:
  assumes "pool_except X p" "valid_group gid" "0 \<le> i" "nat i + length bs \<le> length hs"
    and "distinct (filter (\<lambda>b. b \<noteq> Blk 0) bs)" "\<forall>b\<in>set bs. b = Blk 0 \<or> b \<in> usable p \<and> hash_of p b = None"
  shows "\<exists>p' ext. cache_loop gid hs i bs p = Inr (p', ext) \<and> pool_except X p' \<and> config p' = config p
    \<and> view p' = (view p)\<lparr>pv_hash := hash_of p ++ map_of (new_keys gid bs (drop (nat i) hs))\<rparr>
    \<and> kv_event_queue p' = kv_event_queue p"
  using assms
proof (induction bs arbitrary: i p)
  case Nil
  then show ?case by (simp add: view_def new_keys_def)
next
  case (Cons b bs)
  note P = pool_exceptD [OF Cons.prems(1)]
  have dr: "drop (nat i) hs = hs ! nat i # drop (nat (i + 1)) hs"
    using Cons.prems(3,4) by (simp add: Cons_nth_drop_Suc nat_add_distrib)
  show ?case
  proof (cases "b = Blk 0")
    case True
    have "new_keys gid (b # bs) (drop (nat i) hs) = new_keys gid bs (drop (nat (i + 1)) hs)"
      unfolding dr by (simp add: new_keys_def True)
    moreover have "cache_loop gid hs i (b # bs) p = cache_loop gid hs (i + 1) bs p" using True P(3) by simp
    ultimately show ?thesis
      using Cons.IH [OF Cons.prems(1,2), of "i + 1"] Cons.prems(3-) True by (simp add: nat_add_distrib)
  next
    case False
    let ?key = "group_key (hs ! nat i) gid"
    have b: "b \<in> usable p" "hash_of p b = None" and nb: "b \<notin> set bs"
      using Cons.prems(5,6) False by auto
    define p1 where "p1 = upd_block b (\<lambda>_. (blk p b)\<lparr>block_hash := Some ?key\<rparr>) p"
    have p1eq: "p1 = upd_block b (\<lambda>k. k\<lparr>block_hash := Some ?key\<rparr>) p"
      by (simp add: p1_def upd_block_def blk_def Let_def)
    define p2 where "p2 = p1\<lparr>cached_block_hash_to_block := map_insert ref_id ?key b (cached_block_hash_to_block p1)\<rparr>"
    have h: "hash_of p2 = (hash_of p)(b := Some ?key)" by (auto simp: p2_def p1eq fun_eq_iff)
    have r: "ref_of p2 c = ref_of p c" for c by (simp add: p2_def p1eq)
    have q: "queue_inv (free_block_queue p2)" "free_of p2 = free_of p"
      using upd_block_queue [of "\<lambda>k. k\<lparr>block_hash := Some ?key\<rparr>" p b] P(1) by (simp_all add: p2_def p1eq)
    have c: "config p2 = config p" by (simp add: p2_def p1eq)
    have i2: "pool_except X p2"
    proof (rule pool_except_change [OF Cons.prems(1) c q(1)])
      show "set (free_of p2) = {b \<in> usable p. ref_of p2 b = 0 \<and> b \<notin> X}" unfolding q(2) r by (rule P(4))
      have "map_inv ref_id (cached_block_hash_to_block p2) \<and> bm.agrees (cached_block_hash_to_block p2) ((hash_of p)(b := Some ?key))"
        using bm.agrees_insert [OF P(6,7) usable_real [OF b(1)] b(2)] by (simp add: p2_def p1eq)
      then show "map_inv ref_id (cached_block_hash_to_block p2)"
        "bm.agrees (cached_block_hash_to_block p2) (hash_of p2)" unfolding h by auto
      show "d \<in> usable p" if "hash_of p2 d \<noteq> None" for d
        using that P(8) [of d] b(1) fun_cong [OF h, of d] by (auto split: if_splits)
    qed (use P(5) r in \<open>auto simp: p2_def p1eq\<close>)
    have v2: "view p2 = (view p)\<lparr>pv_hash := (hash_of p)(b := Some ?key)\<rparr>" unfolding view_def h q(2) r by simp
    have "\<forall>d\<in>set bs. d = Blk 0 \<or> d \<in> usable p2 \<and> hash_of p2 d = None"
      using Cons.prems(6) nb fun_cong [OF h] config_eqD(6) [OF c] by auto
    moreover have "nat (i + 1) + length bs \<le> length hs" using Cons.prems(3,4) by (simp add: nat_add_distrib)
    ultimately obtain p' ext where p': "cache_loop gid hs (i + 1) bs p2 = Inr (p', ext)" "pool_except X p'" "config p' = config p2"
      "view p' = (view p2)\<lparr>pv_hash := hash_of p2 ++ map_of (new_keys gid bs (drop (nat (i + 1)) hs))\<rparr>"
      "kv_event_queue p' = kv_event_queue p2"
      using Cons.IH [OF i2 Cons.prems(2), of "i + 1"] Cons.prems(3,5) False by auto
    have nk: "new_keys gid (b # bs) (drop (nat i) hs) = (b, ?key) # new_keys gid bs (drop (nat (i + 1)) hs)"
      unfolding dr by (simp add: new_keys_def False)
    have "b \<notin> fst ` set (new_keys gid bs (drop (nat (i + 1)) hs))"
      using nb by (auto simp: new_keys_def dest: set_zip_leftD)
    then have "map_of (new_keys gid bs (drop (nat (i + 1)) hs)) b = None" by (simp add: map_of_eq_None_iff)
    then have "hash_of p2 ++ map_of (new_keys gid bs (drop (nat (i + 1)) hs)) = hash_of p ++ map_of (new_keys gid (b # bs) (drop (nat i) hs))"
      unfolding h nk by (auto simp: map_add_def fun_eq_iff split: option.splits)
    moreover have "cache_loop gid hs i (b # bs) p = bindE (cache_loop gid hs (i + 1) bs p2) (\<lambda>(p3, ext).
              Inr (p3, maybe_convert_block_hash (env_int_hashes p) (hs ! nat i) # ext))"
    proof -
      have "(\<lambda>r. block_id (if r = b then (blk p b)\<lparr>block_hash := Some ?key\<rparr> else blk p r)) = ref_id"
        using P(2) by (auto simp: fun_eq_iff)
      moreover have "py_get hs i = Inr (hs ! nat i)" using Cons.prems(3,4) by (simp add: py_get_nonneg)
      ultimately show ?thesis
        unfolding p2_def p1_def using False b P(3) make_group_key [OF Cons.prems(2)]
        by (simp add: set_block_hash_def Let_def)
    qed
    ultimately show ?thesis using p' v2 c by (simp add: p2_def p1eq)
  qed
qed

text \<open>The hashes of a request at a block size that is a multiple of the hash block size.\<close>

definition hashes_for :: "int \<Rightarrow> int \<Rightarrow> bytes list \<Rightarrow> bytes list" where
  "hashes_for hbs bs hs =
     (if bs = hbs then hs
      else (let s = nat (bs div hbs) in map (\<lambda>i. concat (take s (drop (i * s) hs))) [0..<length hs div s]))"

lemma mapE_range:
  "(\<And>i. a \<le> i \<Longrightarrow> i < n \<Longrightarrow> f (int i) = Inr (g i)) \<Longrightarrow> a \<le> n \<Longrightarrow> mapE f [int a..int n - 1] = Inr (map g [a..<n])"
proof (induction "n - a" arbitrary: a)
  case 0
  then show ?case by simp
next
  case (Suc k)
  then have an: "a < n" by simp
  have "[int a..int n - 1] = int a # [int (Suc a)..int n - 1]" using an by (simp add: upto.simps add.commute)
  moreover have "mapE f [int (Suc a)..int n - 1] = Inr (map g [Suc a..<n])"
    using Suc an by (intro Suc.hyps(1)) auto
  ultimately show ?case using Suc.prems(1) [of a] an by (simp add: upt_conv_Cons)
qed

lemma hashes_at_effect:
  fixes r :: request
  assumes "0 < hash_block_size p" "0 < bs" "hash_block_size p dvd bs"
  defines "L \<equiv> hashes_for (hash_block_size p) bs (block_hashes r)"
  shows "\<exists>bhl. hashes_at p r bs = Inr bhl \<and> (\<forall>i\<le>length L. bhl_from bhl (int i) = Inr (drop i L))
    \<and> (\<forall>i<length L. bhl_get bhl (int i) = Inr (L ! i))"
proof (cases "bs = hash_block_size p")
  case True
  then show ?thesis by (simp add: hashes_at_def L_def hashes_for_def py_from_nonneg)
next
  case False
  define s where "s = nat (bs div hash_block_size p)"
  have s: "bs = int s * hash_block_size p" "0 < s"
    using assms(1-3) by (auto simp: s_def pos_imp_zdiv_pos_iff pos_imp_zdiv_nonneg_iff zdvd_imp_le)
  let ?hs = "block_hashes r"
  let ?v = "\<lparr>hv_hashes = ?hs, scale_factor = int s\<rparr>"
  have L: "L = map (\<lambda>i. concat (take s (drop (i * s) ?hs))) [0..<length ?hs div s]"
    using False by (simp add: L_def hashes_for_def s_def Let_def)
  have at: "hashes_at p r bs = Inr (HashView ?v)"
    using False assms(1) s by (simp add: hashes_at_def hash_list_with_block_size_def)
  have len: "hv_len ?v = int (length L)" by (simp add: hv_len_def zdiv_int L)
  have get: "get_value_at ?v (int i) = Inr (L ! i)" if "i < length L" for i
  proof -
    have i: "i < length ?hs div s" using that by (simp add: L)
    then have "Suc i * s \<le> length ?hs div s * s" by (intro mult_le_mono1) simp
    also have "\<dots> \<le> length ?hs" by (rule div_times_less_eq_dividend)
    finally show ?thesis using get_value_at_eq [of ?v s i] s(2) i by (simp add: L)
  qed
  have "hv_from ?v (int i) = Inr (drop i L)" if "i \<le> length L" for i
  proof -
    have "hv_from ?v (int i) = mapE (get_value_at ?v) [int i..int (length L) - 1]"
      unfolding hv_from_def len using that by (simp add: py_clip_def)
    also have "\<dots> = Inr (map ((!) L) [i..<length L])" using get that by (intro mapE_range) auto
    also have "map ((!) L) [i..<length L] = drop i L" by (rule nth_equalityI) auto
    finally show ?thesis .
  qed
  then show ?thesis using at get by simp
qed

lemma generate_keys_total:
  assumes "0 \<le> mm"
  shows "\<exists>keys mm' r'. generate_block_hash_extra_keys digest r s e mm = Inr (keys, mm', r') \<and> 0 \<le> mm' \<and> same_content r r'"
proof -
  obtain ks mm' where 1: "gen_mm_extra_hash_keys r s e mm = Inr (ks, mm')" "0 \<le> mm'"
  proof -
    obtain l j where "mm_keys_loop (mm_features r) s e (nat mm) = (l, j)" by fastforce
    then have "\<exists>ks mm'. gen_mm_extra_hash_keys r s e mm = Inr (ks, mm') \<and> 0 \<le> mm'"
      using assms by (auto simp: gen_mm_extra_hash_keys_def Let_def)
    then show ?thesis using that by blast
  qed
  obtain ek r' where 2: "gen_prompt_embeds_extra_hash_keys digest r s e = (ek, r')" by fastforce
  have "same_content r r'"
  proof (cases "prompt_embeds r = None \<or> embeds_memo r (s, e) \<noteq> None")
    case True
    then have "r' = r" using 2 by (auto simp: gen_prompt_embeds_extra_hash_keys_def split: option.splits)
    then show ?thesis using same_content_refl by simp
  next
    case False
    then show ?thesis using 2
      by (auto simp: gen_prompt_embeds_extra_hash_keys_def Let_def same_content_def split: option.splits)
  qed
  then show ?thesis using 1 2 by (simp add: generate_block_hash_extra_keys_def Let_def)
qed

lemma stored_keys_total:
  assumes "0 \<le> mm" "\<forall>i\<in>set is. 0 \<le> i \<and> i < int (length blocks)"
  shows "\<exists>keys r'. stored_keys_loop p blocks bs is mm r = Inr (keys, r') \<and> same_content r r'"
  using assms
proof (induction "is" arbitrary: mm r)
  case Nil
  then show ?case by (simp add: same_content_refl)
next
  case (Cons i "is")
  have g: "py_get blocks i = Inr (blocks ! nat i)" using Cons.prems(2) by (simp add: py_get_nonneg nat_less_iff)
  obtain keys mm' r1 where k: "generate_block_hash_extra_keys (env_digest p) r (i * bs) (i * bs + bs) mm = Inr (keys, mm', r1)"
    "0 \<le> mm'" "same_content r r1" using generate_keys_total [OF Cons.prems(1)] by blast
  obtain rest r2 where 2: "stored_keys_loop p blocks bs is mm' r1 = Inr (rest, r2)" "same_content r1 r2"
    using Cons.IH [OF k(2)] Cons.prems(2) by (meson list.set_intros(2))
  show ?case
  proof (cases "is_null (blk p (blocks ! nat i))")
    case True
    then show ?thesis using Cons.IH [OF Cons.prems(1)] Cons.prems(2) g by simp
  next
    case False
    then show ?thesis using g k 2 same_content_trans [OF k(3) 2(2)] by simp
  qed
qed

lemma cache_full_blocks_effect:
  assumes "pool_inv p" "valid_group gid" "0 < hash_block_size p" "0 < bs" "hash_block_size p dvd bs"
    and "nfull \<le> length blocks" "ncached < nfull" "nfull \<le> length (hashes_for (hash_block_size p) bs (block_hashes r))"
    and "distinct (filter (\<lambda>b. b \<noteq> Blk 0) (drop ncached (take nfull blocks)))"
    and "\<forall>b\<in>set (drop ncached (take nfull blocks)). b = Blk 0 \<or> b \<in> usable p \<and> hash_of p b = None"
  shows "\<exists>p' r'. cache_full_blocks r blocks (int ncached) (int nfull) bs gid p = Inr (p', r') \<and> pool_inv p' \<and> config p' = config p
    \<and> same_content r r'
    \<and> view p' = (view p)\<lparr>pv_hash := hash_of p ++ map_of (new_keys gid (drop ncached (take nfull blocks))
                            (drop ncached (hashes_for (hash_block_size p) bs (block_hashes r))))\<rparr>"
proof -
  define L where "L = hashes_for (hash_block_size p) bs (block_hashes r)"
  let ?new = "drop ncached (take nfull blocks)"
  obtain bhl where bhl: "hashes_at p r bs = Inr bhl" "\<forall>i\<le>length L. bhl_from bhl (int i) = Inr (drop i L)"
    "\<forall>i<length L. bhl_get bhl (int i) = Inr (L ! i)"
    using hashes_at_effect [OF assms(3-5), of r] unfolding L_def by blast
  have lenL: "length L \<le> length (block_hashes r)" by (simp add: L_def hashes_for_def Let_def)
  have sl: "py_slice blocks (int ncached) (int nfull) = ?new" by (simp add: py_slice_nonneg drop_take)
  have "nat 0 + length ?new \<le> length (drop ncached L)" using assms(6-8) by (simp add: L_def)
  then obtain p1 ext where p1: "cache_loop gid (drop ncached L) 0 ?new p = Inr (p1, ext)" "pool_inv p1" "config p1 = config p"
    "view p1 = (view p)\<lparr>pv_hash := hash_of p ++ map_of (new_keys gid ?new (drop ncached L))\<rparr>"
    using cache_loop_effect [OF assms(1,2), of 0 ?new "drop ncached L"] assms(9,10) by auto
  have fr: "bhl_from bhl (int ncached) = Inr (drop ncached L)" using bhl(2) assms(7,8) by (simp add: L_def)
  have enough: "int nfull \<le> int (length (block_hashes r))" using assms(8) lenL by (simp add: L_def)
  have par: "\<exists>par. (if int ncached = 0 then Inr None
                    else bindE (bhl_get bhl (int ncached - 1)) (\<lambda>h.
                         Inr (Some (maybe_convert_block_hash (env_int_hashes p1) h)))) = Inr par"
  proof (cases ncached)
    case (Suc k)
    then have "bhl_get bhl (int k) = Inr (L ! k)" using bhl(3) assms(7,8) by (simp add: L_def)
    then show ?thesis using Suc by simp
  qed simp
  obtain keys r' where st: "stored_keys_loop p1 blocks bs [int ncached..int nfull - 1] 0 r = Inr (keys, r')" "same_content r r'"
    using stored_keys_total [of 0 "[int ncached..int nfull - 1]" blocks p1 bs r] assms(6) by auto
  show ?thesis
    using p1 par st same_content_refl [of r] assms(7) enough bhl(1) fr sl
    by (cases "enable_kv_cache_events p1") (auto simp: cache_full_blocks_def L_def [symmetric])
qed

section \<open>A fresh pool\<close>

lemma init_pool_effect:
  assumes "0 < n"
  shows "\<exists>p. init_pool n caching hbs events mc ih digest = Inr p \<and> pool_inv p
    \<and> num_gpu_blocks p = n \<and> enable_caching p = caching \<and> hash_block_size p = hbs
    \<and> view p = \<lparr>pv_free = map Blk [1..<nat n], pv_ref = (\<lambda>_. 0), pv_hash = (\<lambda>_. None)\<rparr>"
proof -
  let ?q0 = "init_queue (nat n) fresh_store"
  have n: "0 < nat n" using assms by simp
  have "map Blk [0..<nat n] = Blk 0 # map Blk [1..<nat n]" using n by (simp add: upt_conv_Cons)
  then have "queue_repr ?q0 (Blk 0 # map Blk [1..<nat n])" using init_queue_repr(1) [OF n] by simp
  then obtain q where q: "popleft ?q0 = Inr (Blk 0, q)" "queue_repr q (map Blk [1..<nat n])" "meta (store q) = meta (store ?q0)"
    using popleft_repr by blast
  have m: "meta (store q) = meta fresh_store" using q(3) init_queue_repr(2) [OF n] by simp
  define p where "p = upd_block (Blk 0) (\<lambda>b. b\<lparr>is_null := True\<rparr>)
     \<lparr>num_gpu_blocks = n, enable_caching = caching, hash_block_size = hbs, free_block_queue = q,
      cached_block_hash_to_block = Map.empty, null_block = Blk 0, enable_kv_cache_events = events,
      kv_event_queue = [], metrics = mc, env_int_hashes = ih, env_digest = digest\<rparr>"
  have init: "init_pool n caching hbs events mc ih digest = Inr p"
    using assms q(1) by (simp add: init_pool_def p_def)
  have b: "block_id (blk p r) = ref_id r" "ref_of p r = 0" "hash_of p r = None" "is_null (blk p r) \<longleftrightarrow> r = Blk 0" for r
    using meta_fields [OF m, of r]
    by (auto simp: p_def upd_block_def blk_def Let_def fresh_store_def new_block_def split: bref.splits)
  have q': "queue_repr (free_block_queue p) (map Blk [1..<nat n])"
    using q(2) queue_repr_cong [of "(store q)(Blk 0 := (store q (Blk 0))\<lparr>is_null := True\<rparr>)" q]
    by (simp add: p_def upd_block_def Let_def)
  have f: "free_of p = map Blk [1..<nat n]" and qi: "queue_inv (free_block_queue p)"
    using queue_repr_free_list [OF q'] queue_repr_inv [OF q'] .
  have c: "num_gpu_blocks p = n" "enable_caching p = caching" "hash_block_size p = hbs" "null_block p = Blk 0"
    "cached_block_hash_to_block p = Map.empty" "usable p = Blk ` {1..<nat n}"
    by (simp_all add: p_def upd_block_def Let_def usable_def)
  have "pool_inv p"
    unfolding pool_except_def f c b using qi assms by (auto simp: bm.agrees_def)
  moreover have "view p = \<lparr>pv_free = map Blk [1..<nat n], pv_ref = (\<lambda>_. 0), pv_hash = (\<lambda>_. None)\<rparr>"
    unfolding view_def f b by simp
  ultimately show ?thesis using init c by blast
qed

section \<open>Correctness of the pool\<close>

text \<open>a new pool of \<open>n > 0\<close> blocks satisfies the pool invariant, holds blocks
  \<open>1 .. n-1\<close> in that order in the free queue, keeps block 0 as the null block, has no references and an
  empty prefix cache; for \<open>n \<le> 0\<close> the constructor raises AssertionError.\<close>

theorem init_pool_correct:
  "if 0 < n
   then \<exists>p. init_pool n caching hbs events mc ih digest = Inr p \<and> pool_inv p \<and> null_block p = Blk 0
     \<and> view p = \<lparr>pv_free = map Blk [1..<nat n], pv_ref = (\<lambda>_. 0), pv_hash = (\<lambda>_. None)\<rparr>
     \<and> (\<forall>k. cached_block_hash_to_block p k = None)
   else init_pool n caching hbs events mc ih digest = Inl AssertionError"
proof (cases "0 < n")
  case True
  obtain p where p: "init_pool n caching hbs events mc ih digest = Inr p" "pool_inv p"
    "view p = \<lparr>pv_free = map Blk [1..<nat n], pv_ref = (\<lambda>_. 0), pv_hash = (\<lambda>_. None)\<rparr>"
    using init_pool_effect [OF True] by blast
  have "cached_block_hash_to_block p = Map.empty"
    using p(1) True by (auto simp: init_pool_def Let_def)
  then show ?thesis using True p pool_exceptD(11) [OF p(2)] by auto
next
  case False
  then show ?thesis by (simp add: init_pool_def)
qed

text \<open>C16 (get_new_blocks_correct): asking a well-formed pool for \<open>n\<close> blocks raises ValueError exactly when
  fewer than \<open>n\<close> are free, and otherwise hands out the first \<open>n\<close> blocks of the free queue, each with one
  reference and, with caching, evicted from the prefix cache; the other blocks, their order and the
  invariant are kept.\<close>

theorem get_new_blocks_correct:
  assumes "pool_inv p"
  shows "if n \<le> length (free_of p)
    then \<exists>p'. get_new_blocks (int n) p = Inr (take n (free_of p), p') \<and> pool_inv p' \<and> config p' = config p
           \<and> view p' = view_alloc (enable_caching p) n (view p)
    else get_new_blocks (int n) p = Inl ValueError"
  using get_new_blocks_effect [OF assms] num_free_length [OF assms] by (simp add: get_new_blocks_def)

text \<open>C17 (touch_free_correct): \<^verbatim>\<open>touch\<close> adds one reference per occurrence and takes the touched blocks
  out of the free queue; \<^verbatim>\<open>free_blocks\<close> takes the references back and appends, in the given order, exactly
  the blocks that reached zero. Both keep the invariant, in particular that the free queue holds exactly the
  unreferenced blocks, and never touch a cache key.\<close>

theorem touch_free_correct:
  assumes "pool_inv p" "set bs \<subseteq> insert (Blk 0) (usable p)"
  shows "(\<exists>p'. touch bs p = Inr p' \<and> pool_inv p' \<and> config p' = config p \<and> view p' = view_touch bs (view p))
    \<and> (distinct (filter (\<lambda>b. b \<noteq> Blk 0) bs) \<and> (\<forall>b\<in>set bs. b \<noteq> Blk 0 \<longrightarrow> 1 \<le> ref_of p b) \<longrightarrow>
        (\<exists>p'. free_blocks bs p = Inr p' \<and> pool_inv p' \<and> config p' = config p \<and> view p' = view_free bs (view p)))"
proof -
  have "b = Blk 0 \<or> b \<in> usable p" if "b \<in> set bs" for b using assms(2) that by blast
  then show ?thesis using touch_effect [OF assms] free_blocks_effect [OF assms(1), of bs] by auto
qed

text \<open>after the full blocks of a request are cached, looking up the hash of any
  of them in its group returns a block that carries exactly this hash and group; a lookup in any well-formed
  pool returns only such blocks, and reports a miss only if no block carries the key.\<close>

theorem cache_lookup_roundtrip:
  assumes "pool_inv p" "valid_group gid" "0 < hash_block_size p" "0 < bs" "hash_block_size p dvd bs"
    and "nfull \<le> length blocks" "ncached < nfull" "nfull \<le> length (hashes_for (hash_block_size p) bs (block_hashes r))"
    and "distinct (filter (\<lambda>b. b \<noteq> Blk 0) (drop ncached (take nfull blocks)))"
    and "\<forall>b\<in>set (drop ncached (take nfull blocks)). b = Blk 0 \<or> b \<in> usable p \<and> hash_of p b = None"
    and "ncached \<le> i" "i < nfull" "blocks ! i \<noteq> Blk 0"
  shows "\<exists>p' r' b. cache_full_blocks r blocks (int ncached) (int nfull) bs gid p = Inr (p', r') \<and> pool_inv p'
    \<and> get_cached_block p' (hashes_for (hash_block_size p) bs (block_hashes r) ! i) [gid] = Inr (Some [b])
    \<and> hash_of p' b = Some (group_key (hashes_for (hash_block_size p) bs (block_hashes r) ! i) gid)
    \<and> hash_of p' (blocks ! i) = hash_of p' b"
proof -
  define L where "L = hashes_for (hash_block_size p) bs (block_hashes r)"
  let ?new = "drop ncached (take nfull blocks)" and ?key = "group_key (L ! i) gid"
  obtain p' r' where p': "cache_full_blocks r blocks (int ncached) (int nfull) bs gid p = Inr (p', r')" "pool_inv p'"
    "view p' = (view p)\<lparr>pv_hash := hash_of p ++ map_of (new_keys gid ?new (drop ncached L))\<rparr>"
    using cache_full_blocks_effect [OF assms(1-10)] unfolding L_def by blast
  let ?ks = "map (\<lambda>h. group_key h gid) (drop ncached L)" and ?k = "i - ncached"
  have k: "?k < length ?new" "?k < length ?ks" "?new ! ?k = blocks ! i" "?ks ! ?k = ?key"
    using assms(6-8,11,12) by (simp_all add: L_def)
  then have "(blocks ! i, ?key) \<in> set (new_keys gid ?new (drop ncached L))"
    using assms(13) unfolding new_keys_def by (auto simp: in_set_zip intro!: exI [of _ ?k])
  moreover have "distinct (map fst (new_keys gid ?new (drop ncached L)))"
  proof -
    have "length ?new \<le> length ?ks" using assms(6,8) by (simp add: L_def)
    then have "map fst (zip ?new ?ks) = ?new" by (simp add: map_fst_zip_take)
    then have "map fst (filter (\<lambda>x. fst x \<noteq> Blk 0) (zip ?new ?ks)) = filter (\<lambda>b. b \<noteq> Blk 0) ?new"
      by (metis (mono_tags, lifting) comp_apply filter_cong filter_map)
    then show ?thesis using assms(9) by (simp add: new_keys_def)
  qed
  ultimately have "map_of (new_keys gid ?new (drop ncached L)) (blocks ! i) = Some ?key" by simp
  then have hi: "hash_of p' (blocks ! i) = Some ?key" using fun_cong [OF view_eqD(3) [OF p'(3)], of "blocks ! i"] by simp
  obtain hit where hit: "get_cached_block p' (L ! i) [gid] = Inr hit"
    "case hit of Some bs \<Rightarrow> list_all2 (\<lambda>g b. b \<in> usable p' \<and> hash_of p' b = Some (group_key (L ! i) g)) [gid] bs
     | None \<Rightarrow> (\<exists>g\<in>set [gid]. \<forall>b. hash_of p' b \<noteq> Some (group_key (L ! i) g))"
    using get_cached_block_effect [OF p'(2), of "[gid]" "L ! i"] assms(2) by auto
  then obtain b where "hit = Some [b]" "hash_of p' b = Some ?key"
    using hi by (cases hit) (auto simp: list_all2_Cons1)
  then show ?thesis using p'(1,2) hit(1) hi unfolding L_def [symmetric] by auto
qed

text \<open>resetting the prefix cache succeeds exactly when no request holds a
  block; it then removes every key (and leaves the queue and the references alone), otherwise it changes
  nothing.\<close>

theorem reset_prefix_cache_correct:
  assumes "pool_inv p"
  shows "(fst (reset_prefix_cache p) \<longleftrightarrow> (\<forall>b. b \<in> usable p \<longrightarrow> ref_of p b = 0)) \<and> pool_inv (snd (reset_prefix_cache p))
    \<and> view (snd (reset_prefix_cache p)) = (if fst (reset_prefix_cache p) then (view p)\<lparr>pv_hash := (\<lambda>_. None)\<rparr> else view p)
    \<and> (if fst (reset_prefix_cache p) then valid_group g \<longrightarrow> get_cached_block (snd (reset_prefix_cache p)) h [g] = Inr None
       else snd (reset_prefix_cache p) = p)"
proof -
  note e = reset_prefix_cache_effect [OF assms]
  have "get_cached_block (snd (reset_prefix_cache p)) h [g] = Inr None"
    if reset: "fst (reset_prefix_cache p)" and vg: "valid_group g"
  proof -
    obtain hit where hit: "get_cached_block (snd (reset_prefix_cache p)) h [g] = Inr hit"
      "case hit of Some bs \<Rightarrow> list_all2 (\<lambda>g b. b \<in> usable (snd (reset_prefix_cache p))
          \<and> hash_of (snd (reset_prefix_cache p)) b = Some (group_key h g)) [g] bs | None \<Rightarrow> True"
      using get_cached_block_effect [OF e(2), of "[g]" h] vg by (auto split: option.splits)
    have "hash_of (snd (reset_prefix_cache p)) = (\<lambda>_. None)" using view_eqD(3) [OF e(4)] reset by simp
    then have "hash_of (snd (reset_prefix_cache p)) b \<noteq> Some k" for b k by (metis option.distinct(1))
    then have "hit = None" using hit(2) by (cases hit) (auto simp: list_all2_Cons1)
    then show ?thesis using hit(1) by simp
  qed
  moreover have "snd (reset_prefix_cache p) = p" if "\<not> fst (reset_prefix_cache p)"
    using that by (auto simp: reset_prefix_cache_def Let_def split: if_splits)
  ultimately show ?thesis using e by auto
qed

text \<open>evicting block ids removes exactly their keys from the prefix cache and keeps
  queue, references and invariant; an id that is not below the number of blocks raises AssertionError.\<close>

theorem evict_blocks_correct:
  assumes "pool_inv p" "\<forall>i\<in>set ids. 0 \<le> i"
  shows "if \<forall>i\<in>set ids. i < num_gpu_blocks p
    then \<exists>p'. evict_blocks ids p = Inr p' \<and> pool_inv p' \<and> config p' = config p
         \<and> view p' = (view p)\<lparr>pv_hash := (\<lambda>b. if ref_id b \<in> set ids then None else hash_of p b)\<rparr>
    else evict_blocks ids p = Inl AssertionError"
proof (cases "\<forall>i\<in>set ids. i < num_gpu_blocks p")
  case True
  then show ?thesis using evict_blocks_effect [OF assms(1), of ids] assms(2) by simp
next
  case False
  then obtain js i ks where ids: "ids = js @ i # ks" "\<forall>j\<in>set js. j < num_gpu_blocks p" "\<not> i < num_gpu_blocks p"
    using split_list_first_prop [of ids "\<lambda>i. \<not> i < num_gpu_blocks p"] by blast
  obtain p' where p': "evict_blocks js p = Inr p'" "config p' = config p"
    using evict_blocks_effect [OF assms(1), of js] ids assms(2) by auto
  have "evict_blocks ids p = Inl AssertionError"
    using p'(1) ids(3) config_eqD(1) [OF p'(2)] unfolding ids(1) evict_blocks_def foldE_append by simp
  then show ?thesis using False by simp
qed

section \<open>Concrete pools\<close>

lemma sample_pool:
  "\<exists>p. init_pool 4 True 2 False None False (\<lambda>_. []) = Inr p \<and> pool_inv p \<and> num_gpu_blocks p = 4 \<and> enable_caching p
     \<and> hash_block_size p = 2 \<and> free_of p = [Blk 1, Blk 2, Blk 3] \<and> ref_of p = (\<lambda>_. 0) \<and> hash_of p = (\<lambda>_. None)
     \<and> usable p = {Blk 1, Blk 2, Blk 3}"
proof -
  obtain p where p: "init_pool 4 True 2 False None False (\<lambda>_. []) = Inr p" "pool_inv p" "num_gpu_blocks p = 4" "enable_caching p"
    "hash_block_size p = 2" "view p = \<lparr>pv_free = map Blk [1..<nat 4], pv_ref = (\<lambda>_. 0), pv_hash = (\<lambda>_. None)\<rparr>"
    using init_pool_effect [of 4 True 2 False None False "\<lambda>_. []"] by auto
  have "usable p = {Blk 1, Blk 2, Blk 3}"
    unfolding usable_def p(3) by (auto simp: numeral_eq_Suc less_Suc_eq atLeastLessThan_def)
  then show ?thesis using p view_eqD [OF p(6)] by (auto simp: upt_rec numeral_eq_Suc)
qed

theorem get_new_blocks_correct_witness:
  "\<exists>p p'. init_pool 4 True 2 False None False (\<lambda>_. []) = Inr p \<and> get_new_blocks 2 p = Inr ([Blk 1, Blk 2], p') \<and> pool_inv p'
     \<and> get_new_blocks 5 p = Inl ValueError"
proof -
  obtain p where p: "init_pool 4 True 2 False None False (\<lambda>_. []) = Inr p" "pool_inv p" "free_of p = [Blk 1, Blk 2, Blk 3]"
    using sample_pool by blast
  show ?thesis
    using get_new_blocks_correct [OF p(2), of 2] get_new_blocks_correct [OF p(2), of 5] p by (auto simp: numeral_eq_Suc)
qed

theorem touch_free_correct_witness:
  "\<exists>p p'. init_pool 4 True 2 False None False (\<lambda>_. []) = Inr p \<and> touch [Blk 2, Blk 0] p = Inr p' \<and> pool_inv p'
     \<and> free_of p' = [Blk 1, Blk 3] \<and> ref_of p' (Blk 2) = 1"
proof -
  obtain p where p: "init_pool 4 True 2 False None False (\<lambda>_. []) = Inr p" "pool_inv p" "free_of p = [Blk 1, Blk 2, Blk 3]"
    "usable p = {Blk 1, Blk 2, Blk 3}" "ref_of p = (\<lambda>_. 0)"
    using sample_pool by blast
  obtain p' where p': "touch [Blk 2, Blk 0] p = Inr p'" "pool_inv p'" "view p' = view_touch [Blk 2, Blk 0] (view p)"
    using touch_free_correct [OF p(2), of "[Blk 2, Blk 0]"] p(4) by auto
  have "free_of p' = [Blk 1, Blk 3]" "ref_of p' (Blk 2) = 1"
    using view_eqD(1,2) [OF p'(3)] p(3) fun_cong [OF p(5)] by (auto simp: view_touch_def fun_eq_iff)
  then show ?thesis using p(1) p'(1,2) by blast
qed

theorem reset_prefix_cache_correct_witness:
  "\<exists>p. init_pool 4 True 2 False None False (\<lambda>_. []) = Inr p \<and> fst (reset_prefix_cache p)
     \<and> get_cached_block (snd (reset_prefix_cache p)) [1] [0] = Inr None"
proof -
  obtain p where p: "init_pool 4 True 2 False None False (\<lambda>_. []) = Inr p" "pool_inv p" "ref_of p = (\<lambda>_. 0)"
    using sample_pool by blast
  show ?thesis
    using reset_prefix_cache_correct [OF p(2), of 0 "[1]"] p(1) fun_cong [OF p(3)] by (auto simp: valid_group_def)
qed

theorem evict_blocks_correct_witness:
  "\<exists>p p'. init_pool 4 True 2 False None False (\<lambda>_. []) = Inr p \<and> evict_blocks [1, 3] p = Inr p' \<and> pool_inv p'
     \<and> evict_blocks [1, 4] p = Inl AssertionError"
proof -
  obtain p where p: "init_pool 4 True 2 False None False (\<lambda>_. []) = Inr p" "pool_inv p" "num_gpu_blocks p = 4"
    using sample_pool by blast
  show ?thesis
    using evict_blocks_correct [OF p(2), of "[1, 3]"] evict_blocks_correct [OF p(2), of "[1, 4]"] p by auto
qed

theorem cache_lookup_roundtrip_witness:
  "\<exists>p p' r' b. init_pool 4 True 2 False None False (\<lambda>_. []) = Inr p
     \<and> cache_full_blocks ((plain_request ''a'' [4, 5] 10)\<lparr>block_hashes := [[7]]\<rparr>) [Blk 3] 0 1 2 0 p = Inr (p', r')
     \<and> pool_inv p' \<and> get_cached_block p' [7] [0] = Inr (Some [b]) \<and> hash_of p' (Blk 3) = hash_of p' b"
proof -
  obtain p where p: "init_pool 4 True 2 False None False (\<lambda>_. []) = Inr p" "pool_inv p" "hash_block_size p = 2"
    "usable p = {Blk 1, Blk 2, Blk 3}" "hash_of p = (\<lambda>_. None)"
    using sample_pool by blast
  let ?r = "(plain_request ''a'' [4, 5] 10)\<lparr>block_hashes := [[7]]\<rparr>"
  show ?thesis
    using cache_lookup_roundtrip [OF p(2), of 0 2 1 "[Blk 3]" 0 ?r 0] p fun_cong [OF p(5)]
    by (auto simp: hashes_for_def valid_group_def)
qed

end
