(* ===== verification/KV_Spec.thy ===== *)
theory KV_Spec
  imports Prelude
begin

text \<open>
  The per-layer cache formats of src/vllm/v1/kv\_cache\_interface.py. A torch dtype is its name and its
  size in bytes (what \<^verbatim>\<open>get_dtype_size\<close> returns); of the engine configuration the formats read the
  fields of \<open>vllm_config\<close> below.
\<close>

section \<open>Formats\<close>

record torch_dtype =
  dt_name :: string
  dt_size :: int

record attention_fields =
  af_block_size :: int
  num_kv_heads :: int
  head_size :: int
  dtype :: torch_dtype
  af_page_size_padded :: "int option"

record mamba_fields =
  mf_block_size :: int
  shapes :: "int list list"
  dtypes :: "torch_dtype list"
  mf_page_size_padded :: "int option"
  mamba_type :: string
  mamba_cache_mode :: string
  num_speculative_blocks :: int

datatype kv_cache_spec =
    FullAttentionSpec attention_fields (fa_head_size_v: int) (fa_window: "int option") (fa_chunk: "int option")
  | MLAAttentionSpec attention_fields int "int option" "int option" (mla_cache_dtype: "string option")
  | SinkFullAttentionSpec attention_fields int "int option" "int option" (sink_len: "int option")
  | ChunkedLocalAttentionSpec attention_fields (chunk_size: int)
  | SlidingWindowSpec attention_fields (window_size: int)
  | EncoderOnlyAttentionSpec attention_fields
  | CrossAttentionSpec attention_fields
  | MambaSpec mamba_fields
  | UniformTypeKVCacheSpecs int "(string \<times> kv_cache_spec) list"

record vllm_config =
  max_model_len :: int
  max_num_batched_tokens :: int
  max_num_encoder_input_tokens :: int
  dcp_world_size :: int
  pcp_world_size :: int
  cfg_mamba_cache_mode :: string

fun block_size :: "kv_cache_spec \<Rightarrow> int" where
  "block_size (FullAttentionSpec a hv w c) = af_block_size a"
| "block_size (MLAAttentionSpec a hv w c d) = af_block_size a"
| "block_size (SinkFullAttentionSpec a hv w c s) = af_block_size a"
| "block_size (ChunkedLocalAttentionSpec a c) = af_block_size a"
| "block_size (SlidingWindowSpec a w) = af_block_size a"
| "block_size (EncoderOnlyAttentionSpec a) = af_block_size a"
| "block_size (CrossAttentionSpec a) = af_block_size a"
| "block_size (MambaSpec m) = mf_block_size m"
| "block_size (UniformTypeKVCacheSpecs bs specs) = bs"

text \<open>\<^verbatim>\<open>isinstance(spec, FullAttentionSpec)\<close> includes the two subclasses.\<close>

fun is_full_attention :: "kv_cache_spec \<Rightarrow> bool" where
  "is_full_attention (FullAttentionSpec a hv w c) = True"
| "is_full_attention (MLAAttentionSpec a hv w c d) = True"
| "is_full_attention (SinkFullAttentionSpec a hv w c s) = True"
| "is_full_attention _ = False"

fun is_exactly_full :: "kv_cache_spec \<Rightarrow> bool" where
  "is_exactly_full (FullAttentionSpec a hv w c) = True"
| "is_exactly_full _ = False"

definition padded_page :: "int option \<Rightarrow> int \<Rightarrow> int res" where
  "padded_page pad sz = (case pad of None \<Rightarrow> Inr sz | Some p \<Rightarrow> assertE (p \<ge> sz) (Inr p))"

definition attention_page :: "attention_fields \<Rightarrow> int" where
  "attention_page a = 2 * af_block_size a * num_kv_heads a * head_size a * dt_size (dtype a)"

definition full_page :: "attention_fields \<Rightarrow> int \<Rightarrow> int" where
  "full_page a hv = af_block_size a * num_kv_heads a * (head_size a + hv) * dt_size (dtype a)"

definition mla_page :: "attention_fields \<Rightarrow> string option \<Rightarrow> int" where
  "mla_page a cd =
     (if cd = Some ''fp8_ds_mla'' then af_block_size a * 656
      else af_block_size a * num_kv_heads a * head_size a * dt_size (dtype a))"

definition mamba_page :: "mamba_fields \<Rightarrow> int" where
  "mamba_page m = (\<Sum>(shape, dt)\<leftarrow>zip (shapes m) (dtypes m). prod_list shape * dt_size dt)"

fun page_size_bytes :: "kv_cache_spec \<Rightarrow> int res" where
  "page_size_bytes (FullAttentionSpec a hv w c) = padded_page (af_page_size_padded a) (full_page a hv)"
| "page_size_bytes (MLAAttentionSpec a hv w c d) = padded_page (af_page_size_padded a) (mla_page a d)"
| "page_size_bytes (SinkFullAttentionSpec a hv w c s) = padded_page (af_page_size_padded a) (full_page a hv)"
| "page_size_bytes (ChunkedLocalAttentionSpec a c) = padded_page (af_page_size_padded a) (attention_page a)"
| "page_size_bytes (SlidingWindowSpec a w) = padded_page (af_page_size_padded a) (attention_page a)"
| "page_size_bytes (EncoderOnlyAttentionSpec a) = padded_page (af_page_size_padded a) (attention_page a)"
| "page_size_bytes (CrossAttentionSpec a) = padded_page (af_page_size_padded a) (attention_page a)"
| "page_size_bytes (MambaSpec m) = padded_page (mf_page_size_padded m) (mamba_page m)"
| "page_size_bytes (UniformTypeKVCacheSpecs bs specs) =
     foldE (\<lambda>p acc. bindE p (\<lambda>x. Inr (acc + x))) (map (\<lambda>s. page_size_bytes (snd s)) specs) 0"

text \<open>The number of pages one request can need, times the page size.\<close>

definition full_max_memory :: "vllm_config \<Rightarrow> int \<Rightarrow> int \<Rightarrow> int" where
  "full_max_memory c bs page =
     (let world = dcp_world_size c * pcp_world_size c;
          len = (if world > 1 then cdiv (max_model_len c) world else max_model_len c)
      in cdiv len bs * page)"

fun max_memory_usage_bytes :: "vllm_config \<Rightarrow> kv_cache_spec \<Rightarrow> int res" where
  "max_memory_usage_bytes c (FullAttentionSpec a hv w ch) =
     bindE (page_size_bytes (FullAttentionSpec a hv w ch)) (\<lambda>pg. Inr (full_max_memory c (af_block_size a) pg))"
| "max_memory_usage_bytes c (MLAAttentionSpec a hv w ch d) =
     bindE (page_size_bytes (MLAAttentionSpec a hv w ch d)) (\<lambda>pg. Inr (full_max_memory c (af_block_size a) pg))"
| "max_memory_usage_bytes c (SinkFullAttentionSpec a hv w ch s) =
     bindE (page_size_bytes (SinkFullAttentionSpec a hv w ch s)) (\<lambda>pg. Inr (full_max_memory c (af_block_size a) pg))"
| "max_memory_usage_bytes c (ChunkedLocalAttentionSpec a ch) =
     bindE (page_size_bytes (ChunkedLocalAttentionSpec a ch)) (\<lambda>pg.
       Inr (cdiv (min (ch + max_num_batched_tokens c) (max_model_len c)) (af_block_size a) * pg))"
| "max_memory_usage_bytes c (SlidingWindowSpec a w) =
     assertE (dcp_world_size c = 1)
       (bindE (page_size_bytes (SlidingWindowSpec a w)) (\<lambda>pg.
          Inr ((cdiv (min (w - 1 + max_num_batched_tokens c) (max_model_len c)) (af_block_size a) + 1) * pg)))"
| "max_memory_usage_bytes c (EncoderOnlyAttentionSpec a) = Inr 0"
| "max_memory_usage_bytes c (CrossAttentionSpec a) =
     bindE (page_size_bytes (CrossAttentionSpec a)) (\<lambda>pg.
       Inr (cdiv (max_num_encoder_input_tokens c) (af_block_size a) * pg))"
| "max_memory_usage_bytes c (MambaSpec m) =
     bindE (page_size_bytes (MambaSpec m)) (\<lambda>pg.
       Inr (if cfg_mamba_cache_mode c = ''all'' then cdiv (max_model_len c) (mf_block_size m) * pg
            else if cfg_mamba_cache_mode c = ''align'' then pg * (2 + num_speculative_blocks m)
            else pg * (1 + num_speculative_blocks m)))"
| "max_memory_usage_bytes c (UniformTypeKVCacheSpecs bs specs) =
     bindE (foldE (\<lambda>p acc. bindE p (\<lambda>x. Inr (acc @ [x])))
              (map (\<lambda>s. bindE (max_memory_usage_bytes c (snd s)) (\<lambda>m.
                         bindE (page_size_bytes (snd s)) (\<lambda>pg.
                           if pg = 0 then Inl ZeroDivisionError else Inr (cdiv m pg)))) specs) [])
       (\<lambda>pages. if pages = [] then Inl ValueError
          else bindE (page_size_bytes (UniformTypeKVCacheSpecs bs specs)) (\<lambda>pg. Inr (Max (set pages) * pg)))"

section \<open>Groups and the cache configuration\<close>

record kv_cache_group =
  layer_names :: "string list"
  group_spec :: kv_cache_spec

record kv_cache_tensor =
  tensor_size :: int
  shared_by :: "string list"

record kv_cache_config =
  num_blocks :: int
  kv_cache_tensors :: "kv_cache_tensor list"
  kv_cache_groups :: "kv_cache_group list"

fun is_mamba :: "kv_cache_spec \<Rightarrow> bool" where
  "is_mamba (MambaSpec m) = True"
| "is_mamba _ = False"

definition has_mamba_layers :: "kv_cache_config \<Rightarrow> bool" where
  "has_mamba_layers c = list_ex (\<lambda>g. is_mamba (group_spec g)) (kv_cache_groups c)"

section \<open>Uniform types\<close>

fun same_type :: "kv_cache_spec \<Rightarrow> kv_cache_spec \<Rightarrow> bool" where
  "same_type (CrossAttentionSpec a) s = (case s of CrossAttentionSpec _ \<Rightarrow> True | _ \<Rightarrow> False)"
| "same_type (SlidingWindowSpec a w) s = (case s of SlidingWindowSpec _ w' \<Rightarrow> w' = w | _ \<Rightarrow> False)"
| "same_type (ChunkedLocalAttentionSpec a c) s = (case s of ChunkedLocalAttentionSpec _ c' \<Rightarrow> c' = c | _ \<Rightarrow> False)"
| "same_type (MambaSpec m) s =
     (case s of MambaSpec m' \<Rightarrow> num_speculative_blocks m' = num_speculative_blocks m | _ \<Rightarrow> False)"
| "same_type one s = (is_full_attention one \<and> is_full_attention s)"

fun supported_type :: "kv_cache_spec \<Rightarrow> bool" where
  "supported_type (EncoderOnlyAttentionSpec a) = False"
| "supported_type (UniformTypeKVCacheSpecs bs ss) = False"
| "supported_type _ = True"

definition is_uniform_type :: "(string \<times> kv_cache_spec) list \<Rightarrow> bool res" where
  "is_uniform_type specs =
     (if card (block_size ` snd ` set specs) > 1 then Inr False
      else (case specs of
              [] \<Rightarrow> Inl StopIteration
            | (_, one) # _ \<Rightarrow>
                if \<not> supported_type one then Inl NotImplementedError
                else Inr (list_all (\<lambda>s. same_type one (snd s)) specs)))"

definition from_specs :: "(string \<times> kv_cache_spec) list \<Rightarrow> kv_cache_spec option res" where
  "from_specs specs =
     bindE (is_uniform_type specs) (\<lambda>u.
       if u then (case specs of [] \<Rightarrow> Inl StopIteration
                  | s # _ \<Rightarrow> Inr (Some (UniformTypeKVCacheSpecs (block_size (snd s)) specs)))
       else Inr None)"

text \<open>Two formats of the same type need the same number of token slots.\<close>

section \<open>Merging the formats of a group\<close>

definition merge_window_sizes :: "int option list \<Rightarrow> int option res" where
  "merge_window_sizes ws =
     (case remdups (List.map_filter id ws) of
        [] \<Rightarrow> Inr None
      | [w] \<Rightarrow> Inr (Some w)
      | _ \<Rightarrow> Inl ValueError)"

fun attn_of :: "kv_cache_spec \<Rightarrow> attention_fields option" where
  "attn_of (FullAttentionSpec a hv w c) = Some a"
| "attn_of (MLAAttentionSpec a hv w c d) = Some a"
| "attn_of (SinkFullAttentionSpec a hv w c s) = Some a"
| "attn_of (ChunkedLocalAttentionSpec a c) = Some a"
| "attn_of (SlidingWindowSpec a w) = Some a"
| "attn_of (EncoderOnlyAttentionSpec a) = Some a"
| "attn_of (CrossAttentionSpec a) = Some a"
| "attn_of _ = None"

fun full_window :: "kv_cache_spec \<Rightarrow> int option" where
  "full_window (FullAttentionSpec a hv w c) = w"
| "full_window (MLAAttentionSpec a hv w c d) = w"
| "full_window (SinkFullAttentionSpec a hv w c s) = w"
| "full_window _ = None"

fun full_chunk :: "kv_cache_spec \<Rightarrow> int option" where
  "full_chunk (FullAttentionSpec a hv w c) = c"
| "full_chunk (MLAAttentionSpec a hv w c d) = c"
| "full_chunk (SinkFullAttentionSpec a hv w c s) = c"
| "full_chunk _ = None"

fun is_mla :: "kv_cache_spec \<Rightarrow> bool" where
  "is_mla (MLAAttentionSpec a hv w c d) = True"
| "is_mla _ = False"

text \<open>The checks and window sizes that the two full-attention merges share.\<close>

definition merge_full_windows :: "kv_cache_spec list \<Rightarrow> (int option \<times> int option) res" where
  "merge_full_windows specs =
     assertE (list_all is_full_attention specs)
       (assertE (\<not> list_ex is_mla specs)
          (bindE (merge_window_sizes (map full_window specs)) (\<lambda>w.
           bindE (merge_window_sizes (map full_chunk specs)) (\<lambda>c. Inr (w, c)))))"

definition merged_ok :: "kv_cache_spec \<Rightarrow> attention_fields \<Rightarrow> int option \<Rightarrow> int option \<Rightarrow> kv_cache_spec list \<Rightarrow> kv_cache_spec res" where
  "merged_ok m a w c specs =
     assertE (list_all (\<lambda>s. attn_of s = Some a) specs)
       (assertE (\<not> (w \<noteq> None \<and> c \<noteq> None)) (Inr m))"

text \<open>\<^verbatim>\<open>cls.merge(specs)\<close>, where \<^verbatim>\<open>cls\<close> is the class of the first spec.\<close>

fun merge :: "kv_cache_spec list \<Rightarrow> kv_cache_spec res" where
  "merge [] = Inl IndexError"
| "merge (FullAttentionSpec a hv w0 c0 # rest) =
     (let specs = FullAttentionSpec a hv w0 c0 # rest in
      bindE (merge_full_windows specs) (\<lambda>(w, c). merged_ok (FullAttentionSpec a hv w c) a w c specs))"
| "merge (SinkFullAttentionSpec a hv w0 c0 s # rest) =
     (let specs = SinkFullAttentionSpec a hv w0 c0 s # rest in
      bindE (merge_full_windows specs) (\<lambda>(w, c). merged_ok (SinkFullAttentionSpec a hv w c s) a w c specs))"
| "merge (MLAAttentionSpec a hv w0 c0 d # rest) =
     (let specs = MLAAttentionSpec a hv w0 c0 d # rest in
      assertE (list_all is_mla specs)
        (assertE (list_all (\<lambda>s. mla_cache_dtype s = d) specs)
           (Inr (MLAAttentionSpec a (head_size a) None None d))))"
| "merge (s # rest) = assertE (list_all (\<lambda>t. t = s) rest) (Inr s)"

definition copy_with_new_block_size :: "kv_cache_spec \<Rightarrow> int \<Rightarrow> kv_cache_spec" where
  "copy_with_new_block_size s bs =
     (case s of
        FullAttentionSpec a hv w c \<Rightarrow> FullAttentionSpec (a\<lparr>af_block_size := bs\<rparr>) hv w c
      | MLAAttentionSpec a hv w c d \<Rightarrow> MLAAttentionSpec (a\<lparr>af_block_size := bs\<rparr>) hv w c d
      | SinkFullAttentionSpec a hv w c k \<Rightarrow> SinkFullAttentionSpec (a\<lparr>af_block_size := bs\<rparr>) hv w c k
      | ChunkedLocalAttentionSpec a c \<Rightarrow> ChunkedLocalAttentionSpec (a\<lparr>af_block_size := bs\<rparr>) c
      | SlidingWindowSpec a w \<Rightarrow> SlidingWindowSpec (a\<lparr>af_block_size := bs\<rparr>) w
      | EncoderOnlyAttentionSpec a \<Rightarrow> EncoderOnlyAttentionSpec (a\<lparr>af_block_size := bs\<rparr>)
      | CrossAttentionSpec a \<Rightarrow> CrossAttentionSpec (a\<lparr>af_block_size := bs\<rparr>)
      | MambaSpec m \<Rightarrow> MambaSpec (m\<lparr>mf_block_size := bs\<rparr>)
      | UniformTypeKVCacheSpecs _ ss \<Rightarrow> UniformTypeKVCacheSpecs bs ss)"

end
