(* ===== verification/Single_Type.thy ===== *)
theory Single_Type
  imports Block_Pool KV_Spec
begin

text \<open>
  The managers of one cache group in src/vllm/v1/core/single\_type\_kv\_cache\_manager.py: which blocks each
  request holds, how many must be allocated for a number of tokens, what can be given back when tokens leave
  the attention window, and the search for the longest cached prefix. The class hierarchy is a dispatch on
  the manager class; the base class methods are the definitions whose name starts with \<^verbatim>\<open>base_\<close>. The
  block pool is shared by all managers and is passed explicitly.
\<close>

section \<open>State\<close>

datatype manager_class =
    FullAttentionManager
  | SlidingWindowManager
  | ChunkedLocalAttentionManager
  | MambaManager
  | CrossAttentionManager
  | SinkFullAttentionManager

text \<open>\<^verbatim>\<open>spec_manager_map\<close>, looked up by the exact type of the spec.\<close>

fun spec_manager_map :: "kv_cache_spec \<Rightarrow> manager_class option" where
  "spec_manager_map (FullAttentionSpec a hv w c) = Some FullAttentionManager"
| "spec_manager_map (MLAAttentionSpec a hv w c d) = Some FullAttentionManager"
| "spec_manager_map (SlidingWindowSpec a w) = Some SlidingWindowManager"
| "spec_manager_map (ChunkedLocalAttentionSpec a c) = Some ChunkedLocalAttentionManager"
| "spec_manager_map (MambaSpec m) = Some MambaManager"
| "spec_manager_map (CrossAttentionSpec a) = Some CrossAttentionManager"
| "spec_manager_map (SinkFullAttentionSpec a hv w c s) = Some SinkFullAttentionManager"
| "spec_manager_map _ = None"

record manager =
  m_class :: manager_class
  m_spec :: kv_cache_spec
  m_block_size :: int
  m_enable_caching :: bool
  m_group_id :: int
  m_null_block :: bref
  new_block_ids :: "int list"
  req_to_blocks :: "(req_id \<times> bref list) list"
  num_cached_block :: "req_id \<rightharpoonup> int"
  cached_blocks_this_step :: "bytes list"
  last_state_block_idx :: "req_id \<rightharpoonup> int"
  allocated_block_reqs :: "req_id list"
  sink_blocks :: "bref list"

text \<open>\<open>blocks_get\<close> is \<^verbatim>\<open>dict.get(k, [])\<close>; \<open>touch_req\<close> is the entry that an index access creates in a
  \<^verbatim>\<open>defaultdict\<close>; \<open>blocks_set\<close> replaces the list of a request.\<close>

definition blocks_get :: "req_id \<Rightarrow> manager \<Rightarrow> bref list" where
  "blocks_get rid m = (case map_of (req_to_blocks m) rid of Some bs \<Rightarrow> bs | None \<Rightarrow> [])"

definition blocks_set :: "req_id \<Rightarrow> bref list \<Rightarrow> manager \<Rightarrow> manager" where
  "blocks_set rid bs m = m\<lparr>req_to_blocks := dict_set rid bs (req_to_blocks m)\<rparr>"

definition touch_req :: "req_id \<Rightarrow> manager \<Rightarrow> manager" where
  "touch_req rid m = blocks_set rid (blocks_get rid m) m"

fun sliding_window_of :: "kv_cache_spec \<Rightarrow> int" where
  "sliding_window_of (SlidingWindowSpec a w) = w"
| "sliding_window_of _ = 0"

fun chunk_size_of :: "kv_cache_spec \<Rightarrow> int" where
  "chunk_size_of (ChunkedLocalAttentionSpec a c) = c"
| "chunk_size_of _ = 0"

fun mamba_of :: "kv_cache_spec \<Rightarrow> mamba_fields option" where
  "mamba_of (MambaSpec m) = Some m"
| "mamba_of _ = None"

definition num_spec_blocks :: "manager \<Rightarrow> int" where
  "num_spec_blocks m = (case mamba_of (m_spec m) of Some f \<Rightarrow> num_speculative_blocks f | None \<Rightarrow> 0)"

definition align_mode :: "manager \<Rightarrow> bool" where
  "align_mode m = (case mamba_of (m_spec m) of Some f \<Rightarrow> mamba_cache_mode f = ''align'' | None \<Rightarrow> False)"

section \<open>Construction\<close>

definition base_init :: "manager_class \<Rightarrow> kv_cache_spec \<Rightarrow> bool \<Rightarrow> int \<Rightarrow> int \<Rightarrow> int \<Rightarrow> block_pool \<Rightarrow> manager" where
  "base_init cls spec caching gid dcp pcp p =
     \<lparr>m_class = cls, m_spec = spec,
      m_block_size = (if dcp * pcp > 1 then block_size spec * (dcp * pcp) else block_size spec),
      m_enable_caching = caching, m_group_id = gid, m_null_block = null_block p, new_block_ids = [],
      req_to_blocks = [], num_cached_block = Map.empty, cached_blocks_this_step = [],
      last_state_block_idx = Map.empty, allocated_block_reqs = [], sink_blocks = []\<rparr>"

definition sink_init :: "manager \<Rightarrow> block_pool \<Rightarrow> (manager \<times> block_pool) res" where
  "sink_init m p =
     (case m_spec m of
        SinkFullAttentionSpec a hv w c (Some len) \<Rightarrow>
          (if m_block_size m = 0 then Inl ZeroDivisionError
           else assertE (len > 0 \<and> len mod m_block_size m = 0)
             (bindE (popleft_n (len div m_block_size m) (free_block_queue p)) (\<lambda>(bs, q).
                Inr (m\<lparr>sink_blocks := bs\<rparr>, p\<lparr>free_block_queue := q\<rparr>))))
      | _ \<Rightarrow> Inl AssertionError)"

definition get_manager_for_kv_cache_spec ::
  "kv_cache_spec \<Rightarrow> bool \<Rightarrow> int \<Rightarrow> int \<Rightarrow> int \<Rightarrow> block_pool \<Rightarrow> (manager \<times> block_pool) res" where
  "get_manager_for_kv_cache_spec spec caching gid dcp pcp p =
     (case spec_manager_map spec of
        None \<Rightarrow> Inl KeyError
      | Some cls \<Rightarrow>
          (let m = base_init cls spec caching gid dcp pcp p
           in if cls = SinkFullAttentionManager then sink_init m p else Inr (m, p)))"

section \<open>How many blocks a request needs\<close>

definition get_num_skipped_tokens :: "manager \<Rightarrow> int \<Rightarrow> int" where
  "get_num_skipped_tokens m n =
     (case m_class m of
        SlidingWindowManager \<Rightarrow> max 0 (n - sliding_window_of (m_spec m) + 1)
      | ChunkedLocalAttentionManager \<Rightarrow> (n div chunk_size_of (m_spec m)) * chunk_size_of (m_spec m)
      | MambaManager \<Rightarrow> n - 1
      | _ \<Rightarrow> 0)"

definition get_num_evictable_blocks :: "block_pool \<Rightarrow> bref list \<Rightarrow> int" where
  "get_num_evictable_blocks p bs = int (length (filter (\<lambda>b. ref_of p b = 0 \<and> \<not> is_null (blk p b)) bs))"

definition base_num_blocks_to_allocate :: "req_id \<Rightarrow> int \<Rightarrow> bref list \<Rightarrow> int \<Rightarrow> manager \<Rightarrow> block_pool \<Rightarrow> int res" where
  "base_num_blocks_to_allocate rid nt new_computed total_computed m p =
     (let required = cdiv nt (m_block_size m);
          nreq = int (length (blocks_get rid m))
      in if num_cached_block m rid \<noteq> None
         then assertE (new_computed = []) (Inr (max (required - nreq) 0))
         else (let skipped = get_num_skipped_tokens m total_computed div m_block_size m;
                   local = int (length new_computed) + nreq;
                   new = max (required - max skipped local) 0;
                   skipped_new = max 0 (skipped - nreq)
               in Inr (new + get_num_evictable_blocks p (py_from new_computed skipped_new))))"

definition mamba_num_blocks_to_allocate ::
  "req_id \<Rightarrow> int \<Rightarrow> bref list \<Rightarrow> int \<Rightarrow> int \<Rightarrow> manager \<Rightarrow> block_pool \<Rightarrow> (int \<times> manager) res" where
  "mamba_num_blocks_to_allocate rid nt new_computed total_computed nt_main m p =
     (if new_computed \<noteq> [] \<and> (\<exists>k\<in>set (cached_blocks_this_step m). hash_of p (last new_computed) = Some k)
      then Inr (num_gpu_blocks p + 1, m)
      else if \<not> align_mode m
      then bindE (base_num_blocks_to_allocate rid
                    (if num_spec_blocks m > 0 then nt + block_size (m_spec m) * num_spec_blocks m else nt)
                    new_computed total_computed m p) (\<lambda>n. Inr (n, m))
      else (let required = cdiv nt_main (m_block_size m) + num_spec_blocks m;
                m1 = touch_req rid m;
                new = required - int (length new_computed) - int (length (blocks_get rid m));
                new' = (if new > 0 then (if rid \<in> set (allocated_block_reqs m) then 1 else 1 + num_spec_blocks m) else new)
            in Inr (new' + get_num_evictable_blocks p new_computed, m1)))"

definition get_num_blocks_to_allocate ::
  "req_id \<Rightarrow> int \<Rightarrow> bref list \<Rightarrow> int \<Rightarrow> int \<Rightarrow> manager \<Rightarrow> block_pool \<Rightarrow> (int \<times> manager) res" where
  "get_num_blocks_to_allocate rid nt new_computed total_computed nt_main m p =
     (if m_class m = MambaManager then mamba_num_blocks_to_allocate rid nt new_computed total_computed nt_main m p
      else bindE (base_num_blocks_to_allocate rid nt new_computed total_computed m p) (\<lambda>n. Inr (n, m)))"

section \<open>Giving blocks to a request\<close>

definition note_new_ids :: "bref list \<Rightarrow> block_pool \<Rightarrow> manager \<Rightarrow> manager" where
  "note_new_ids bs p m =
     (if is_exactly_full (m_spec m) then m\<lparr>new_block_ids := new_block_ids m @ map (\<lambda>b. block_id (blk p b)) bs\<rparr> else m)"

definition base_allocate_new_computed_blocks ::
  "req_id \<Rightarrow> bref list \<Rightarrow> int \<Rightarrow> int \<Rightarrow> manager \<Rightarrow> block_pool \<Rightarrow> (manager \<times> block_pool) res" where
  "base_allocate_new_computed_blocks rid new_computed nlocal nexternal m p =
     (if num_cached_block m rid \<noteq> None then assertE (new_computed = []) (Inr (m, p))
      else assertE (blocks_get rid m = [])
        (let ncomp = nlocal + nexternal;
             skipped_tokens = get_num_skipped_tokens m ncomp;
             skipped = skipped_tokens div m_block_size m;
             computed = (if skipped > 0 then py_from new_computed skipped else new_computed);
             external = (if skipped > 0 then min (ncomp - skipped_tokens) nexternal else nexternal)
         in bindE (if m_enable_caching m then touch computed p else assertE (computed = []) (Inr p)) (\<lambda>p1.
              let req_blocks = replicate (nat skipped) (m_null_block m) @ computed;
                  m1 = blocks_set rid req_blocks m;
                  m2 = m1\<lparr>num_cached_block := (num_cached_block m1)(rid \<mapsto> int (length req_blocks))\<rparr>
              in if external > 0
                 then bindE (get_new_blocks (cdiv ncomp (m_block_size m) - int (length req_blocks)) p1) (\<lambda>(new, p2).
                        Inr (note_new_ids new p2 (blocks_set rid (req_blocks @ new) m2), p2))
                 else Inr (m2, p1))))"

definition allocate_new_computed_blocks ::
  "req_id \<Rightarrow> bref list \<Rightarrow> int \<Rightarrow> int \<Rightarrow> manager \<Rightarrow> block_pool \<Rightarrow> (manager \<times> block_pool) res" where
  "allocate_new_computed_blocks rid new_computed nlocal nexternal m p =
     (if m_class m = CrossAttentionManager then assertE (new_computed = []) (Inr (m, p))
      else base_allocate_new_computed_blocks rid new_computed nlocal nexternal m p)"

definition base_allocate_new_blocks :: "req_id \<Rightarrow> int \<Rightarrow> manager \<Rightarrow> block_pool \<Rightarrow> (bref list \<times> manager \<times> block_pool) res" where
  "base_allocate_new_blocks rid nt m p =
     (let req_blocks = blocks_get rid m;
          m1 = touch_req rid m;
          new = cdiv nt (m_block_size m) - int (length req_blocks)
      in if new \<le> 0 then Inr ([], m1, p)
         else bindE (get_new_blocks new p) (\<lambda>(bs, p').
                Inr (bs, note_new_ids bs p' (blocks_set rid (req_blocks @ bs) m1), p')))"

text \<open>The reuse of the speculative blocks of the previous step: block \<open>i\<close> moves to the end of the list and
  its place is taken by the null block.\<close>

fun reuse_spec_blocks :: "bref \<Rightarrow> int \<Rightarrow> int list \<Rightarrow> bref list \<Rightarrow> bref list res" where
  "reuse_spec_blocks nb nskip [] bs = Inr bs"
| "reuse_spec_blocks nb nskip (i # is) bs =
     (if i < nskip
      then bindE (py_get bs i) (\<lambda>b.
             let bs' = bs @ [b]
             in reuse_spec_blocks nb nskip is (bs'[nat (if i < 0 then int (length bs') + i else i) := nb]))
      else Inr bs)"

definition mamba_allocate_new_blocks ::
  "req_id \<Rightarrow> int \<Rightarrow> int \<Rightarrow> manager \<Rightarrow> block_pool \<Rightarrow> (bref list \<times> manager \<times> block_pool) res" where
  "mamba_allocate_new_blocks rid nt nt_main m p =
     (let nspec = num_spec_blocks m in
      if \<not> align_mode m
      then base_allocate_new_blocks rid (if nspec > 0 then nt + m_block_size m * nspec else nt) m p
      else
        (let req_blocks = blocks_get rid m;
             m1 = touch_req rid m;
             required = cdiv nt_main (m_block_size m) + nspec;
             prev = int (length req_blocks);
             had = rid \<in> set (allocated_block_reqs m1)
         in if required = prev then Inr ([], m1, p)
            else assertE (required > prev)
              (let m2 = (if had then m1\<lparr>last_state_block_idx := (last_state_block_idx m1)(rid \<mapsto> prev - 1 - nspec)\<rparr>
                         else if prev > 0 then m1\<lparr>last_state_block_idx := (last_state_block_idx m1)(rid \<mapsto> prev - 1)\<rparr>
                         else m1);
                   nskip = required - nspec - 1;
                   padded = req_blocks @ replicate (nat (nskip - prev)) (m_null_block m)
               in bindE (if had then reuse_spec_blocks (m_null_block m) nskip [prev - nspec..prev - 1] padded else Inr padded) (\<lambda>bs.
                  let new = required - int (length bs)
                  in assertE (if had then new \<le> 1 else new \<le> nspec + 1)
                       (bindE (get_new_blocks new p) (\<lambda>(nbs, p').
                          let bs' = bs @ nbs;
                              m3 = blocks_set rid bs' m2;
                              m4 = m3\<lparr>allocated_block_reqs := List.insert rid (allocated_block_reqs m3)\<rparr>
                          in Inr (py_from bs' prev, m4, p')))))))"

definition allocate_new_blocks ::
  "req_id \<Rightarrow> int \<Rightarrow> int \<Rightarrow> manager \<Rightarrow> block_pool \<Rightarrow> (bref list \<times> manager \<times> block_pool) res" where
  "allocate_new_blocks rid nt nt_main m p =
     (if m_class m = MambaManager then mamba_allocate_new_blocks rid nt nt_main m p
      else base_allocate_new_blocks rid nt m p)"

definition take_new_block_ids :: "manager \<Rightarrow> int list \<times> manager" where
  "take_new_block_ids m = (new_block_ids m, m\<lparr>new_block_ids := []\<rparr>)"

section \<open>Caching and giving blocks back\<close>

definition num_cached :: "req_id \<Rightarrow> manager \<Rightarrow> int" where
  "num_cached rid m = (case num_cached_block m rid of Some n \<Rightarrow> n | None \<Rightarrow> 0)"

definition base_cache_blocks :: "request \<Rightarrow> int \<Rightarrow> manager \<Rightarrow> block_pool \<Rightarrow> (manager \<times> block_pool \<times> request) res" where
  "base_cache_blocks r nt m p =
     (let ncached = num_cached (request_id r) m;
          nfull = nt div m_block_size m
      in if ncached \<ge> nfull then Inr (m, p, r)
         else (let m1 = touch_req (request_id r) m in
               bindE (cache_full_blocks r (blocks_get (request_id r) m1) ncached nfull (m_block_size m) (m_group_id m) p) (\<lambda>(p', r').
                 Inr (m1\<lparr>num_cached_block := (num_cached_block m1)(request_id r \<mapsto> nfull)\<rparr>, p', r'))))"

fun note_cached_this_step :: "block_pool \<Rightarrow> bref list \<Rightarrow> bytes list \<Rightarrow> bytes list res" where
  "note_cached_this_step p [] acc = Inr acc"
| "note_cached_this_step p (b # bs) acc =
     (if is_null (blk p b) then note_cached_this_step p bs acc
      else (case hash_of p b of
              None \<Rightarrow> Inl AssertionError
            | Some k \<Rightarrow> note_cached_this_step p bs (List.insert k acc)))"

definition cache_blocks :: "request \<Rightarrow> int \<Rightarrow> manager \<Rightarrow> block_pool \<Rightarrow> (manager \<times> block_pool \<times> request) res" where
  "cache_blocks r nt m p =
     (case m_class m of
        CrossAttentionManager \<Rightarrow> Inl ValueError
      | MambaManager \<Rightarrow>
          (let cached_before = num_cached (request_id r) m in
           bindE (base_cache_blocks r nt m p) (\<lambda>(m1, p1, r1).
             let after = num_cached (request_id r) m1
             in if after > cached_before
                then bindE (note_cached_this_step p1 (py_slice (blocks_get (request_id r) m1) cached_before after) (cached_blocks_this_step m1)) (\<lambda>ks.
                       Inr (m1\<lparr>cached_blocks_this_step := ks\<rparr>, p1, r1))
                else Inr (m1, p1, r1)))
      | _ \<Rightarrow> base_cache_blocks r nt m p)"

definition base_free :: "req_id \<Rightarrow> manager \<Rightarrow> block_pool \<Rightarrow> (manager \<times> block_pool) res" where
  "base_free rid m p =
     bindE (free_blocks (rev (blocks_get rid m)) p) (\<lambda>p'.
       Inr (m\<lparr>req_to_blocks := dict_del rid (req_to_blocks m),
              num_cached_block := (num_cached_block m)(rid := None)\<rparr>, p'))"

definition free_request_blocks :: "req_id \<Rightarrow> manager \<Rightarrow> block_pool \<Rightarrow> (manager \<times> block_pool) res" where
  "free_request_blocks rid m p =
     base_free rid
       (if m_class m = MambaManager \<and> align_mode m
        then m\<lparr>allocated_block_reqs := removeAll rid (allocated_block_reqs m),
               last_state_block_idx := (last_state_block_idx m)(rid := None)\<rparr>
        else m) p"

text \<open>Walking down from index \<open>n - 1\<close> until a null block: the removed blocks in that order and the new list.\<close>

fun drop_skipped :: "bref \<Rightarrow> nat \<Rightarrow> bref list \<Rightarrow> bref list \<times> bref list" where
  "drop_skipped nb 0 bs = ([], bs)"
| "drop_skipped nb (Suc i) bs =
     (if bs ! i = nb then ([], bs)
      else (let (removed, bs') = drop_skipped nb i (bs[i := nb]) in (bs ! i # removed, bs')))"

definition base_remove_skipped_blocks :: "req_id \<Rightarrow> int \<Rightarrow> manager \<Rightarrow> block_pool \<Rightarrow> (manager \<times> block_pool) res" where
  "base_remove_skipped_blocks rid ncomp m p =
     (let skipped_tokens = get_num_skipped_tokens m ncomp
      in if skipped_tokens \<le> 0 then Inr (m, p)
         else (let bs = blocks_get rid m;
                   n = min (skipped_tokens div m_block_size m) (int (length bs));
                   (removed, bs') = drop_skipped (m_null_block m) (nat n) bs
               in bindE (free_blocks removed p) (\<lambda>p'. Inr (blocks_set rid bs' m, p'))))"

definition remove_skipped_blocks :: "req_id \<Rightarrow> int \<Rightarrow> manager \<Rightarrow> block_pool \<Rightarrow> (manager \<times> block_pool) res" where
  "remove_skipped_blocks rid ncomp m p =
     (if m_class m = MambaManager
      then (let n = max 0 (ncomp - num_spec_blocks m) in
            bindE (base_remove_skipped_blocks rid n m p) (\<lambda>(m1, p1).
              if \<not> align_mode m1 then Inr (m1, p1)
              else (case last_state_block_idx m1 rid of
                      None \<Rightarrow> Inr (m1, p1)
                    | Some idx \<Rightarrow>
                        if idx < cdiv n (m_block_size m1) - 1
                        then (let m2 = touch_req rid m1; bs = blocks_get rid m2 in
                              bindE (py_get bs idx) (\<lambda>b.
                                if b \<noteq> m_null_block m2
                                then bindE (free_blocks [b] p1) (\<lambda>p2.
                                       Inr (blocks_set rid (bs[nat (if idx < 0 then int (length bs) + idx else idx) := m_null_block m2]) m2, p2))
                                else Inr (m2, p1)))
                        else Inr (m1, p1))))
      else base_remove_skipped_blocks rid ncomp m p)"

definition new_step_starts :: "manager \<Rightarrow> manager" where
  "new_step_starts m = (if m_class m = MambaManager then m\<lparr>cached_blocks_this_step := []\<rparr> else m)"

definition get_num_common_prefix_blocks :: "req_id \<Rightarrow> manager \<Rightarrow> block_pool \<Rightarrow> int \<times> manager" where
  "get_num_common_prefix_blocks rid m p =
     (if m_class m \<in> {FullAttentionManager, SinkFullAttentionManager}
      then (let m1 = touch_req rid m
            in (int (length (takeWhile (\<lambda>b. ref_of p b = int (length (req_to_blocks m1))) (blocks_get rid m1))), m1))
      else (0, m))"

end
