(* ===== verification/Manager_Inv.thy ===== *)
theory Manager_Inv
  imports Single_Type
begin

text \<open>
  The books of the managers: the reference count of a block is the number of times the requests hold it.
  \<open>books_ok\<close> is the invariant of one manager beside the shared pool and \<open>step_ok\<close> what one operation
  guarantees about the manager, the pool and the blocks that other managers hold.
\<close>

section \<open>Dictionary lemmas\<close>

lemma map_of_dict_set [simp]: "map_of (dict_set k v d) = (map_of d)(k \<mapsto> v)"
  by (induction d) (auto simp: fun_eq_iff)

lemma dict_set_fst: "map fst (dict_set k v d) = (if k \<in> fst ` set d then map fst d else map fst d @ [k])"
  by (induction d) (auto, force)

lemma dict_set_keys: "distinct (map fst d) \<Longrightarrow> distinct (map fst (dict_set k v d))"
  by (simp add: dict_set_fst)

lemma map_of_dict_del [simp]: "map_of (dict_del k d) = (map_of d)(k := None)"
  by (induction d) (auto simp: dict_del_def fun_eq_iff)

lemma dict_del_keys: "distinct (map fst d) \<Longrightarrow> distinct (map fst (dict_del k d))"
  by (simp add: dict_del_def distinct_map_filter)

lemma dict_del_absent: "k \<notin> fst ` set d \<Longrightarrow> dict_del k d = d"
  unfolding dict_del_def by (rule filter_True) auto

section \<open>Holdings\<close>

definition hold_sum :: "(req_id \<times> bref list) list \<Rightarrow> bref \<Rightarrow> int" where
  "hold_sum d b = (\<Sum>x\<leftarrow>d. int (count_list (snd x) b))"

abbreviation holds :: "manager \<Rightarrow> bref \<Rightarrow> int" where
  "holds m b \<equiv> hold_sum (req_to_blocks m) b"

definition dget :: "req_id \<Rightarrow> (req_id \<times> bref list) list \<Rightarrow> bref list" where
  "dget k d = (case map_of d k of Some bs \<Rightarrow> bs | None \<Rightarrow> [])"

lemma blocks_get_dget: "blocks_get rid m = dget rid (req_to_blocks m)"
  by (simp add: blocks_get_def dget_def)

lemma hold_sum_set: "hold_sum (dict_set k v d) b = hold_sum d b - int (count_list (dget k d) b) + int (count_list v b)"
  by (induction d) (auto simp: hold_sum_def dget_def)

lemma hold_sum_del: "distinct (map fst d) \<Longrightarrow> hold_sum (dict_del k d) b = hold_sum d b - int (count_list (dget k d) b)"
proof (induction d)
  case Nil
  then show ?case by (simp add: hold_sum_def dict_del_def dget_def)
next
  case (Cons x d)
  show ?case
  proof (cases "fst x = k")
    case True
    then have "dict_del k (x # d) = d" using Cons.prems dict_del_absent [of k d] by (auto simp: dict_del_def)
    then show ?thesis using True by (cases x) (simp add: hold_sum_def dget_def)
  next
    case False
    then show ?thesis using Cons by (cases x) (simp add: hold_sum_def dget_def dict_del_def)
  qed
qed

lemma hold_sum_nonneg: "0 \<le> hold_sum d b"
  by (induction d) (simp_all add: hold_sum_def)

lemma hold_sum_ge: "int (count_list (dget k d) b) \<le> hold_sum d b"
proof (induction d)
  case Nil
  then show ?case by (simp add: hold_sum_def dget_def)
next
  case (Cons x d)
  with hold_sum_nonneg [of d b] show ?case by (cases x) (auto simp: hold_sum_def dget_def)
qed

lemma blocks_get_set [simp]: "blocks_get rid' (blocks_set rid bs m) = (if rid' = rid then bs else blocks_get rid' m)"
  by (simp add: blocks_get_def blocks_set_def)

lemma blocks_get_touch [simp]: "blocks_get rid' (touch_req rid m) = blocks_get rid' m"
  by (simp add: touch_req_def)

lemma holds_set: "holds (blocks_set rid bs m) b = holds m b - int (count_list (blocks_get rid m) b) + int (count_list bs b)"
  by (simp add: blocks_set_def hold_sum_set blocks_get_dget)

lemma holds_touch [simp]: "holds (touch_req rid m) b = holds m b"
  by (simp add: touch_req_def holds_set)

lemma holds_ge: "int (count_list (blocks_get rid m) b) \<le> holds m b"
  by (simp add: blocks_get_dget hold_sum_ge)

section \<open>The invariant\<close>

abbreviation nonnull :: "bref list \<Rightarrow> bref list" where
  "nonnull bs \<equiv> filter (\<lambda>b. b \<noteq> Blk 0) bs"

definition static :: "manager \<Rightarrow> manager_class \<times> kv_cache_spec \<times> int \<times> bool \<times> int \<times> bref" where
  "static m = (m_class m, m_spec m, m_block_size m, m_enable_caching m, m_group_id m, m_null_block m)"

definition manager_ok :: "block_pool \<Rightarrow> manager \<Rightarrow> bool" where
  "manager_ok p m \<longleftrightarrow>
     distinct (map fst (req_to_blocks m)) \<and> m_null_block m = Blk 0 \<and> 0 < m_block_size m \<and> valid_group (m_group_id m) \<and>
     m_enable_caching m = enable_caching p \<and>
     (\<forall>rid. distinct (nonnull (blocks_get rid m)) \<and> set (blocks_get rid m) \<subseteq> insert (Blk 0) (usable p)
          \<and> 0 \<le> num_cached rid m)"

text \<open>A block behind the cached part of a request is held once and carries no key yet.\<close>

definition fresh_tail :: "block_pool \<Rightarrow> manager \<Rightarrow> bool" where
  "fresh_tail p m \<longleftrightarrow>
     (\<forall>rid i. num_cached rid m \<le> int i \<longrightarrow> i < length (blocks_get rid m) \<longrightarrow> blocks_get rid m ! i \<noteq> Blk 0 \<longrightarrow>
        ref_of p (blocks_get rid m ! i) = 1 \<and> hash_of p (blocks_get rid m ! i) = None)"

definition books_ok :: "manager \<Rightarrow> block_pool \<Rightarrow> bool" where
  "books_ok m p \<longleftrightarrow> pool_inv p \<and> manager_ok p m \<and> fresh_tail p m \<and> (\<forall>b\<in>usable p. holds m b \<le> ref_of p b)
     \<and> (enable_caching p \<or> (\<forall>b. hash_of p b = None))"

text \<open>One operation: the manager stays well-formed, its holdings and the reference counts change by the same
  amounts, and a block without key that only other managers hold is left alone.\<close>

definition step_ok :: "manager \<Rightarrow> block_pool \<Rightarrow> manager \<Rightarrow> block_pool \<Rightarrow> bool" where
  "step_ok m p m' p' \<longleftrightarrow>
     books_ok m' p' \<and> config p' = config p \<and> static m' = static m \<and>
     (\<forall>b\<in>usable p. ref_of p' b - holds m' b = ref_of p b - holds m b) \<and>
     (\<forall>b\<in>usable p. holds m b = 0 \<longrightarrow> 1 \<le> ref_of p b \<longrightarrow> hash_of p b = None \<longrightarrow>
        ref_of p' b = ref_of p b \<and> hash_of p' b = None)"

lemma books_okD:
  assumes "books_ok m p"
  shows "pool_inv p" "manager_ok p m" "fresh_tail p m" "b \<in> usable p \<Longrightarrow> holds m b \<le> ref_of p b"
    "enable_caching p \<or> hash_of p b = None" "m_null_block m = Blk 0" "0 < m_block_size m"
    "distinct (map fst (req_to_blocks m))" "distinct (nonnull (blocks_get rid m))"
    "set (blocks_get rid m) \<subseteq> insert (Blk 0) (usable p)" "m_enable_caching m = enable_caching p" "0 \<le> num_cached rid m"
    "valid_group (m_group_id m)"
  using assms by (simp_all add: books_ok_def manager_ok_def) auto

lemma usable_count:
  assumes "books_ok m p" "b \<in> set (blocks_get rid m)" "b \<noteq> Blk 0"
  shows "b \<in> usable p" "1 \<le> ref_of p b" "count_list (blocks_get rid m) b = 1"
proof -
  note B = books_okD [OF assms(1)]
  show u: "b \<in> usable p" using B(10) assms(2,3) by blast
  show c: "count_list (blocks_get rid m) b = 1" using count_list_distinct_filter [OF B(9)] assms(2,3) by simp
  show "1 \<le> ref_of p b" using holds_ge [of rid m b] B(4) [OF u] c by simp
qed

lemma free_not_held:
  assumes "books_ok m p" "b \<in> set (free_of p)"
  shows "b \<in> usable p" "ref_of p b = 0" "holds m b = 0" "b \<noteq> Blk 0" "b \<notin> set (blocks_get rid m)"
proof -
  note B = books_okD [OF assms(1)]
  show u: "b \<in> usable p" and r: "ref_of p b = 0" using pool_exceptD(4) [OF B(1)] assms(2) by auto
  show n: "b \<noteq> Blk 0" using usable_not_null u .
  show "holds m b = 0" using B(4) [OF u] r hold_sum_nonneg [of "req_to_blocks m" b] by simp
  show "b \<notin> set (blocks_get rid m)" using usable_count(2) [OF assms(1) _ n] r by fastforce
qed

lemma num_cached_set [simp]:
  "num_cached rid' (blocks_set rid bs m) = num_cached rid' m" "num_cached rid' (touch_req rid m) = num_cached rid' m"
  "static (blocks_set rid bs m) = static m" "static (touch_req rid m) = static m"
  by (simp_all add: num_cached_def blocks_set_def touch_req_def static_def)

lemma static_eqD:
  assumes "static m' = static m"
  shows "m_class m' = m_class m" "m_spec m' = m_spec m" "m_block_size m' = m_block_size m"
    "m_enable_caching m' = m_enable_caching m" "m_group_id m' = m_group_id m" "m_null_block m' = m_null_block m"
  using assms by (simp_all add: static_def)

lemma two_holders: "rid \<noteq> rid' \<Longrightarrow> int (count_list (blocks_get rid m) b) + int (count_list (blocks_get rid' m) b) \<le> holds m b"
proof -
  assume ne: "rid \<noteq> rid'"
  have "hold_sum (dict_set rid [] (req_to_blocks m)) b = holds m b - int (count_list (blocks_get rid m) b)"
    by (simp add: hold_sum_set blocks_get_dget)
  moreover have "dget rid' (dict_set rid [] (req_to_blocks m)) = blocks_get rid' m"
    using ne by (simp add: dget_def blocks_get_def)
  ultimately show ?thesis using hold_sum_ge [of rid' "dict_set rid [] (req_to_blocks m)" b] by simp
qed

section \<open>A generic step: one request gets a new block list\<close>

definition replaces :: "req_id \<Rightarrow> bref list \<Rightarrow> int \<Rightarrow> manager \<Rightarrow> manager \<Rightarrow> bool" where
  "replaces rid bs n m m' \<longleftrightarrow> static m' = static m \<and> distinct (map fst (req_to_blocks m')) \<and>
     (\<forall>rid'. blocks_get rid' m' = (if rid' = rid then bs else blocks_get rid' m)) \<and>
     (\<forall>b. holds m' b = holds m b - int (count_list (blocks_get rid m) b) + int (count_list bs b)) \<and>
     (\<forall>rid'. num_cached rid' m' = (if rid' = rid then n else num_cached rid' m))"

lemma step_replace:
  assumes B: "books_ok m p" and R: "replaces rid bs n m m'"
    and P: "pool_inv p'" "config p' = config p"
    and L: "distinct (nonnull bs)" "set bs \<subseteq> insert (Blk 0) (usable p)" "0 \<le> n"
    and refs: "\<And>b. b \<in> usable p \<Longrightarrow> ref_of p' b = ref_of p b - int (count_list (blocks_get rid m) b) + int (count_list bs b)"
    and hash: "\<And>b. b \<in> usable p \<Longrightarrow> hash_of p b = None \<Longrightarrow> 1 \<le> ref_of p b \<Longrightarrow> b \<notin> set (blocks_get rid m) \<Longrightarrow> hash_of p' b = None"
    and new: "\<And>b. b \<in> set bs \<Longrightarrow> b \<notin> set (blocks_get rid m) \<Longrightarrow> b \<noteq> Blk 0 \<Longrightarrow> ref_of p b = 0 \<or> hash_of p b \<noteq> None"
    and fresh: "\<And>i. n \<le> int i \<Longrightarrow> i < length bs \<Longrightarrow> bs ! i \<noteq> Blk 0 \<Longrightarrow> ref_of p' (bs ! i) = 1 \<and> hash_of p' (bs ! i) = None"
    and caching: "enable_caching p \<or> (\<forall>b. hash_of p' b = None)"
  shows "step_ok m p m' p'"
proof -
  note D = books_okD [OF B]
  note S = static_eqD [OF R [unfolded replaces_def, THEN conjunct1]]
  note C = config_eqD [OF P(2)]
  have st: "static m' = static m" and keys: "distinct (map fst (req_to_blocks m'))"
    and get: "blocks_get rid' m' = (if rid' = rid then bs else blocks_get rid' m)"
    and hold: "holds m' b = holds m b - int (count_list (blocks_get rid m) b) + int (count_list bs b)"
    and nc: "num_cached rid' m' = (if rid' = rid then n else num_cached rid' m)" for rid' b
    using R unfolding replaces_def by blast+
  have same: "ref_of p' b = ref_of p b \<and> hash_of p' b = None"
    if b: "b \<in> usable p" "b \<notin> set (blocks_get rid m)" "1 \<le> ref_of p b" "hash_of p b = None" for b
  proof -
    have "b \<notin> set bs" using new [of b] that usable_not_null by fastforce
    then show ?thesis using refs [OF b(1)] hash [OF b(1,4,3,2)] b(2) by (simp add: count_list_0_iff)
  qed
  have diff: "ref_of p' b - holds m' b = ref_of p b - holds m b" if "b \<in> usable p" for b
    using refs [OF that] hold [of b] by simp
  have "fresh_tail p' m'"
    unfolding fresh_tail_def
  proof (intro allI impI)
    fix rid' i
    assume a: "num_cached rid' m' \<le> int i" "i < length (blocks_get rid' m')" "blocks_get rid' m' ! i \<noteq> Blk 0"
    let ?b = "blocks_get rid' m' ! i"
    show "ref_of p' ?b = 1 \<and> hash_of p' ?b = None"
    proof (cases "rid' = rid")
      case True
      then show ?thesis using fresh [of i] a get nc by simp
    next
      case False
      then have b: "?b = blocks_get rid' m ! i" "?b \<in> set (blocks_get rid' m)" using a(2) get by auto
      have f: "ref_of p ?b = 1" "hash_of p ?b = None"
        using D(3) False a get nc unfolding fresh_tail_def by auto
      note u = usable_count [OF B b(2) a(3)]
      have "?b \<notin> set (blocks_get rid m)"
        using two_holders [of rid rid' m ?b] False u(3) D(4) [OF u(1)] f(1)
        by (auto simp: count_list_0_iff [symmetric] simp del: count_list_0_iff)
      then show ?thesis using same [OF u(1)] f by simp
    qed
  qed
  moreover have "manager_ok p' m'"
    unfolding manager_ok_def C S using keys get nc L D by auto
  moreover have "\<forall>b\<in>usable p'. holds m' b \<le> ref_of p' b"
    unfolding C(6) using diff D(4) by fastforce
  ultimately have "books_ok m' p'" using P(1) caching unfolding books_ok_def C by blast
  moreover have "ref_of p' b = ref_of p b \<and> hash_of p' b = None"
    if "b \<in> usable p" "holds m b = 0" "1 \<le> ref_of p b" "hash_of p b = None" for b
  proof (rule same [OF that(1) _ that(3,4)])
    show "b \<notin> set (blocks_get rid m)" using holds_ge [of rid m b] that(2) by (auto simp: count_list_0_iff [symmetric] simp del: count_list_0_iff)
  qed
  ultimately show ?thesis using P(2) st diff unfolding step_ok_def by blast
qed

lemma replaces_set:
  "distinct (map fst (req_to_blocks m)) \<Longrightarrow> replaces rid bs (num_cached rid m) m (blocks_set rid bs m)"
  by (simp add: replaces_def holds_set) (simp add: blocks_set_def dict_set_keys)

lemma replaces_cong:
  assumes "replaces rid bs n m m'" "static m'' = static m'" "req_to_blocks m'' = req_to_blocks m'"
    and "num_cached_block m'' = num_cached_block m'"
  shows "replaces rid bs n m m''"
  using assms unfolding replaces_def by (simp add: blocks_get_def num_cached_def)

lemma note_new_ids_fields [simp]:
  "req_to_blocks (note_new_ids bs p m) = req_to_blocks m" "num_cached_block (note_new_ids bs p m) = num_cached_block m"
  "static (note_new_ids bs p m) = static m" "blocks_get rid (note_new_ids bs p m) = blocks_get rid m"
  by (simp_all add: note_new_ids_def static_def blocks_get_def)

section \<open>Allocation of new blocks\<close>

lemma count_list_append_int: "int (count_list (xs @ ys) b) = int (count_list xs b) + int (count_list ys b)"
  by simp

lemma count_list_distinct: "distinct xs \<Longrightarrow> count_list xs b = (if b \<in> set xs then 1 else 0)"
  by (induction xs) auto

text \<open>Appending fresh blocks from the pool to the list of a request.\<close>

lemma extend_with_new:
  assumes B: "books_ok m p" and k: "k \<le> length (free_of p)"
    and R: "replaces rid (blocks_get rid m @ take k (free_of p)) (num_cached rid m) m m'"
  shows "\<exists>p'. get_new_blocks (int k) p = Inr (take k (free_of p), p') \<and> step_ok m p m' p'
    \<and> free_of p' = drop k (free_of p)"
proof -
  note D = books_okD [OF B]
  let ?new = "take k (free_of p)"
  obtain p' where p': "get_new_blocks (int k) p = Inr (?new, p')" "pool_inv p'" "config p' = config p"
    "view p' = view_alloc (enable_caching p) k (view p)"
    using get_new_blocks_effect [OF D(1) k] by blast
  have r: "ref_of p' b = (if b \<in> set ?new then 1 else ref_of p b)"
    and h: "hash_of p' b = (if enable_caching p \<and> b \<in> set ?new then None else hash_of p b)"
    and f: "free_of p' = drop k (free_of p)" for b
    using view_eqD [OF p'(4)] by (simp_all add: view_alloc_def Let_def fun_eq_iff)
  have dn: "distinct ?new" using pool_exceptD(9) [OF D(1)] by simp
  have nf: "b \<in> usable p" "ref_of p b = 0" "b \<noteq> Blk 0" "b \<notin> set (blocks_get rid m)" if "b \<in> set ?new" for b
    using free_not_held [OF B in_set_takeD [OF that]] by blast+
  have hn: "hash_of p' b = None" if "b \<in> set ?new" for b using h [of b] that D(5) [of b] by auto
  have cn: "int (count_list ?new b) = (if b \<in> set ?new then 1 else 0)" for b using count_list_distinct [OF dn] by simp
  have "step_ok m p m' p'"
  proof (rule step_replace [OF B R p'(2,3)])
    show "distinct (nonnull (blocks_get rid m @ ?new))"
      using D(9) dn nf(4) by auto
    show "set (blocks_get rid m @ ?new) \<subseteq> insert (Blk 0) (usable p)" using D(10) nf(1) by auto
    show "0 \<le> num_cached rid m" using D(12) .
    show "ref_of p' b = ref_of p b - int (count_list (blocks_get rid m) b) + int (count_list (blocks_get rid m @ ?new) b)"
      if "b \<in> usable p" for b
      unfolding r count_list_append_int cn using nf(2) [of b] by simp
    show "hash_of p' b = None" if "b \<in> usable p" "hash_of p b = None" "1 \<le> ref_of p b" "b \<notin> set (blocks_get rid m)" for b
      using h [of b] that by simp
    show "ref_of p b = 0 \<or> hash_of p b \<noteq> None" if "b \<in> set (blocks_get rid m @ ?new)" "b \<notin> set (blocks_get rid m)" for b
      using nf(2) [of b] that by auto
    show "ref_of p' ((blocks_get rid m @ ?new) ! i) = 1 \<and> hash_of p' ((blocks_get rid m @ ?new) ! i) = None"
      if i: "num_cached rid m \<le> int i" "i < length (blocks_get rid m @ ?new)" "(blocks_get rid m @ ?new) ! i \<noteq> Blk 0" for i
    proof (cases "i < length (blocks_get rid m)")
      case True
      let ?b = "blocks_get rid m ! i"
      have "ref_of p ?b = 1" "hash_of p ?b = None" "?b \<notin> set ?new"
        using D(3) i True nf(4) [of ?b] nth_mem [OF True] unfolding fresh_tail_def by (auto simp: nth_append)
      then show ?thesis using True r [of ?b] h [of ?b] by (simp add: nth_append)
    next
      case False
      then have l: "i - length (blocks_get rid m) < length ?new" using i(2) by (simp only: length_append)
      have "(blocks_get rid m @ ?new) ! i = ?new ! (i - length (blocks_get rid m))"
        using False by (simp only: nth_append if_False)
      then have "(blocks_get rid m @ ?new) ! i \<in> set ?new" using nth_mem [OF l] by (simp only:)
      then show ?thesis using r hn by simp
    qed
    show "enable_caching p \<or> (\<forall>b. hash_of p' b = None)" using h D(5) by auto
  qed
  then show ?thesis using p'(1) f by blast
qed

lemma base_allocate_new_blocks_step:
  fixes nt :: int and rid :: req_id
  assumes B: "books_ok m p"
  defines "need \<equiv> cdiv nt (m_block_size m) - int (length (blocks_get rid m))"
  shows "if need \<le> int (length (free_of p))
    then \<exists>m' p'. base_allocate_new_blocks rid nt m p = Inr (take (nat need) (free_of p), m', p') \<and> step_ok m p m' p'
         \<and> blocks_get rid m' = blocks_get rid m @ take (nat need) (free_of p)
         \<and> num_cached_block m' = num_cached_block m \<and> free_of p' = drop (nat need) (free_of p)
    else base_allocate_new_blocks rid nt m p = Inl ValueError"
proof -
  note D = books_okD [OF B]
  let ?old = "blocks_get rid m"
  have keys: "distinct (map fst (req_to_blocks (touch_req rid m)))"
    using D(8) by (simp add: touch_req_def blocks_set_def dict_set_keys)
  have t: "replaces rid ?old (num_cached rid m) m (touch_req rid m)" unfolding touch_req_def by (rule replaces_set [OF D(8)])
  have nct: "num_cached_block (touch_req rid m) = num_cached_block m" by (simp add: touch_req_def blocks_set_def)
  consider (none) "need \<le> 0" | (some) "0 < need" "need \<le> int (length (free_of p))" | (fail) "int (length (free_of p)) < need" "0 < need"
    by linarith
  then show ?thesis
  proof cases
    case none
    have "step_ok m p (touch_req rid m) p"
      by (rule step_replace [OF B t D(1) refl])
        (use D in \<open>auto simp: fresh_tail_def\<close>)
    then show ?thesis using none nct by (simp add: base_allocate_new_blocks_def need_def Let_def)
  next
    case some
    define k where "k = nat need"
    have k: "int k = need" "k \<le> length (free_of p)" using some by (simp_all add: k_def)
    let ?new = "take k (free_of p)"
    define m1 where "m1 = blocks_set rid (?old @ ?new) (touch_req rid m)"
    have "replaces rid (?old @ ?new) (num_cached rid m) m m1"
      using t keys unfolding replaces_def m1_def
      by (simp add: holds_set) (simp add: blocks_set_def dict_set_keys)
    then have "replaces rid (?old @ ?new) (num_cached rid m) m (note_new_ids ?new q m1)" for q
      by (rule replaces_cong) simp_all
    then obtain p' where p': "get_new_blocks need p = Inr (?new, p')" "step_ok m p (note_new_ids ?new p' m1) p'"
      "free_of p' = drop k (free_of p)"
      using extend_with_new [OF B k(2)] unfolding k(1) by (metis Inr_inject prod.inject)
    have "base_allocate_new_blocks rid nt m p = Inr (?new, note_new_ids ?new p' m1, p')"
      using some p'(1) by (simp add: base_allocate_new_blocks_def need_def Let_def m1_def)
    moreover have "blocks_get rid (note_new_ids ?new p' m1) = ?old @ ?new"
      by (simp add: m1_def)
    moreover have "num_cached_block (note_new_ids ?new p' m1) = num_cached_block m"
      using nct by (simp add: m1_def blocks_set_def)
    ultimately show ?thesis using some p' by (simp add: k_def)
  next
    case fail
    then show ?thesis
      using num_free_length [OF D(1)] by (simp add: base_allocate_new_blocks_def need_def Let_def get_new_blocks_def)
  qed
qed

section \<open>Freeing a request\<close>

lemma count_list_rev [simp]: "count_list (rev xs) b = count_list xs b"
  by (induction xs) auto

lemma held_blocks_freeable:
  assumes "books_ok m p" "set bs \<subseteq> set (blocks_get rid m)"
  shows "\<forall>b\<in>set bs. b = Blk 0 \<or> b \<in> usable p \<and> 1 \<le> ref_of p b"
  using usable_count(1,2) [OF assms(1), of _ rid] assms(2) by blast

lemma base_free_step:
  assumes B: "books_ok m p"
  shows "\<exists>m' p'. base_free rid m p = Inr (m', p') \<and> step_ok m p m' p' \<and> map_of (req_to_blocks m') rid = None
    \<and> num_cached_block m' rid = None
    \<and> req_to_blocks m' = dict_del rid (req_to_blocks m)
    \<and> free_of p' = free_of p @ filter (\<lambda>b. ref_of p b = 1 \<and> b \<noteq> Blk 0) (rev (blocks_get rid m))"
proof -
  note D = books_okD [OF B]
  let ?old = "blocks_get rid m"
  have "distinct (nonnull (rev ?old))" using D(9) [of rid] by (simp add: rev_filter [symmetric])
  moreover have "\<forall>b\<in>set (rev ?old). b = Blk 0 \<or> b \<in> usable p \<and> 1 \<le> ref_of p b"
    using held_blocks_freeable [OF B, of "rev ?old" rid] by simp
  ultimately obtain p' where p': "free_blocks (rev ?old) p = Inr p'" "pool_inv p'" "config p' = config p"
    "view p' = view_free (rev ?old) (view p)"
    using free_blocks_effect [OF D(1)] by blast
  have r: "ref_of p' b = ref_of p b - int (count_list ?old b)" and h: "hash_of p' b = hash_of p b" for b
    using view_eqD(2,3) [OF p'(4)] by (simp_all add: view_free_def Let_def fun_eq_iff)
  define m' where "m' = m\<lparr>req_to_blocks := dict_del rid (req_to_blocks m), num_cached_block := (num_cached_block m)(rid := None)\<rparr>"
  have R: "replaces rid [] 0 m m'"
    unfolding replaces_def using D(8)
    by (simp add: m'_def static_def dict_del_keys hold_sum_del blocks_get_def dget_def num_cached_def)
  have "step_ok m p m' p'"
  proof (rule step_replace [OF B R p'(2,3)])
    show "enable_caching p \<or> (\<forall>b. hash_of p' b = None)" unfolding h using D(5) by blast
  qed (use r h in auto)
  moreover have "filter (\<lambda>b. ref_of p b - int (count_list (rev ?old) b) = 0 \<and> b \<noteq> Blk 0) (rev ?old)
      = filter (\<lambda>b. ref_of p b = 1 \<and> b \<noteq> Blk 0) (rev ?old)"
    using usable_count(3) [OF B, of _ rid] by (intro filter_cong) auto
  then have "free_of p' = free_of p @ filter (\<lambda>b. ref_of p b = 1 \<and> b \<noteq> Blk 0) (rev ?old)"
    using view_eqD(1) [OF p'(4)] by (simp add: view_free_def Let_def)
  moreover have "base_free rid m p = Inr (m', p')" using p'(1) by (simp add: base_free_def m'_def)
  ultimately show ?thesis by (simp add: m'_def)
qed

section \<open>Blocks that leave the window\<close>

lemma drop_skipped_spec:
  assumes "i \<le> length bs" "drop_skipped nb i bs = (removed, bs')"
  shows "length bs' = length bs \<and> (\<exists>j\<le>i. removed = rev (take (i - j) (drop j bs)) \<and> nb \<notin> set removed
      \<and> bs' = take j bs @ replicate (i - j) nb @ drop i bs \<and> (0 < j \<longrightarrow> bs ! (j - 1) = nb))"
  using assms
proof (induction i arbitrary: bs removed bs')
  case 0
  then show ?case by auto
next
  case (Suc i)
  show ?case
  proof (cases "bs ! i = nb")
    case True
    then have "removed = []" "bs' = bs" using Suc.prems(2) by simp_all
    then show ?thesis using True Suc.prems(1) by (intro conjI exI [of _ "Suc i"]) auto
  next
    case False
    let ?bs = "bs[i := nb]"
    obtain rm bs2 where rec: "drop_skipped nb i ?bs = (rm, bs2)" by fastforce
    then have e: "removed = bs ! i # rm" "bs' = bs2" using Suc.prems(2) False by simp_all
    obtain j where j: "length bs2 = length bs" "j \<le> i" "rm = rev (take (i - j) (drop j ?bs))" "nb \<notin> set rm"
      "bs2 = take j ?bs @ replicate (i - j) nb @ drop i ?bs" "0 < j \<longrightarrow> ?bs ! (j - 1) = nb"
      using Suc.IH [OF _ rec] Suc.prems(1) unfolding length_list_update by (meson Suc_leD)
    have t: "take (i - j) (drop j ?bs) = take (i - j) (drop j bs)"
      using j(2) by (metis drop_take le_refl take_update_cancel)
    have tj: "take j ?bs = take j bs" using j(2) by simp
    have "take (Suc i - j) (drop j bs) = take (i - j) (drop j bs) @ [bs ! i]"
      using j(2) Suc.prems(1) by (simp add: Suc_diff_le take_Suc_conv_app_nth)
    then have "removed = rev (take (Suc i - j) (drop j bs))" unfolding e j(3) t by simp
    moreover have "drop i ?bs = nb # drop (Suc i) bs"
      using Suc.prems(1) by (simp add: drop_update_swap Cons_nth_drop_Suc [symmetric])
    then have "bs' = take j bs @ replicate (Suc i - j) nb @ drop (Suc i) bs"
      unfolding e j(5) tj using j(2) by (simp add: Suc_diff_le replicate_app_Cons_same)
    moreover have "0 < j \<longrightarrow> bs ! (j - 1) = nb" using j(2,6) by auto
    moreover have "nb \<notin> set removed" using j(4) False e(1) by auto
    moreover have "length bs' = length bs" "j \<le> Suc i" using j(1,2) e(2) by auto
    ultimately show ?thesis by blast
  qed
qed

lemma count_split: "count_list (xs @ ys) b = count_list xs b + count_list ys b"
  by simp

lemma count_replicate_other [simp]: "b \<noteq> x \<Longrightarrow> count_list (replicate n x) b = 0"
  by (induction n) auto

lemma base_remove_skipped_step:
  assumes B: "books_ok m p"
  shows "\<exists>m' p'. base_remove_skipped_blocks rid t m p = Inr (m', p') \<and> step_ok m p m' p'
    \<and> length (blocks_get rid m') = length (blocks_get rid m) \<and> num_cached_block m' = num_cached_block m
    \<and> (\<forall>k<length (blocks_get rid m). blocks_get rid m' ! k = blocks_get rid m ! k
         \<or> blocks_get rid m' ! k = Blk 0 \<and> int k < get_num_skipped_tokens m t div m_block_size m)
    \<and> set (free_of p) \<subseteq> set (free_of p') \<and> (\<forall>b. hash_of p' b = hash_of p b)"
proof (cases "get_num_skipped_tokens m t \<le> 0")
  case True
  note D = books_okD [OF B]
  have "step_ok m p m p" using B by (simp add: step_ok_def)
  then show ?thesis using True by (simp add: base_remove_skipped_blocks_def)
next
  case False
  note D = books_okD [OF B]
  let ?bs = "blocks_get rid m"
  define i where "i = nat (min (get_num_skipped_tokens m t div m_block_size m) (int (length ?bs)))"
  have i: "i \<le> length ?bs" "\<And>k. k < i \<Longrightarrow> int k < get_num_skipped_tokens m t div m_block_size m" by (auto simp: i_def)
  obtain removed bs' where ds: "drop_skipped (Blk 0) i ?bs = (removed, bs')" by fastforce
  obtain j where j: "length bs' = length ?bs" "j \<le> i" "removed = rev (take (i - j) (drop j ?bs))" "Blk 0 \<notin> set removed"
    "bs' = take j ?bs @ replicate (i - j) (Blk 0) @ drop i ?bs"
    using drop_skipped_spec [OF i(1) ds] by blast
  have parts: "?bs = take j ?bs @ take (i - j) (drop j ?bs) @ drop i ?bs"
    using j(2) by (metis append_assoc append_take_drop_id drop_drop le_add_diff_inverse2 take_add le_add_diff_inverse add.commute)
  have cnt: "int (count_list bs' b) = int (count_list ?bs b) - int (count_list removed b)" if "b \<noteq> Blk 0" for b
  proof -
    have "count_list ?bs b = count_list (take j ?bs) b + (count_list (take (i - j) (drop j ?bs)) b + count_list (drop i ?bs) b)"
      by (subst parts) (simp only: count_split)
    moreover have "count_list bs' b = count_list (take j ?bs) b + count_list (drop i ?bs) b"
      unfolding j(5) using that by simp
    moreover have "count_list removed b = count_list (take (i - j) (drop j ?bs)) b" unfolding j(3) by simp
    ultimately show ?thesis by simp
  qed
  have rsub: "set removed \<subseteq> set ?bs" unfolding j(3) by (auto dest: in_set_takeD in_set_dropD)
  have "set bs' \<subseteq> insert (Blk 0) (set ?bs)" unfolding j(5) by (auto dest: in_set_takeD in_set_dropD)
  then have bsub: "set bs' \<subseteq> insert (Blk 0) (set ?bs)" .
  have "distinct (nonnull (take j ?bs @ take (i - j) (drop j ?bs) @ drop i ?bs))" using D(9) parts by metis
  then have db: "distinct (nonnull bs')" and dr: "distinct (nonnull removed)"
    unfolding j(3,5) by (auto simp: rev_filter [symmetric])
  obtain p' where p': "free_blocks removed p = Inr p'" "pool_inv p'" "config p' = config p" "view p' = view_free removed (view p)"
    using free_blocks_effect [OF D(1) dr held_blocks_freeable [OF B rsub]] by blast
  have r: "ref_of p' b = ref_of p b - int (count_list removed b)" and h: "hash_of p' b = hash_of p b" for b
    using view_eqD(2,3) [OF p'(4)] by (simp_all add: view_free_def Let_def fun_eq_iff)
  have at: "bs' ! k = ?bs ! k \<or> bs' ! k = Blk 0 \<and> k < i" if "k < length ?bs" for k
  proof -
    have "(take j ?bs @ take (i - j) (drop j ?bs) @ drop i ?bs) ! k = ?bs ! k" using parts by simp
    moreover have "length (take (i - j) (drop j ?bs)) = i - j" using i(1) j(2) by simp
    ultimately show ?thesis unfolding j(5) using that i(1) j(2) by (auto simp: nth_append)
  qed
  define m' where "m' = blocks_set rid bs' m"
  have R: "replaces rid bs' (num_cached rid m) m m'" unfolding m'_def by (rule replaces_set [OF D(8)])
  have "step_ok m p m' p'"
  proof (rule step_replace [OF B R p'(2,3) db])
    show "set bs' \<subseteq> insert (Blk 0) (usable p)" using bsub D(10) by blast
    show "0 \<le> num_cached rid m" using D(12) .
    show "ref_of p' b = ref_of p b - int (count_list ?bs b) + int (count_list bs' b)" if "b \<in> usable p" for b
      using cnt [of b] usable_not_null [OF that] r [of b] by simp
    show "ref_of p b = 0 \<or> hash_of p b \<noteq> None" if "b \<in> set bs'" "b \<notin> set ?bs" "b \<noteq> Blk 0" for b using that bsub by blast
    show "ref_of p' (bs' ! k) = 1 \<and> hash_of p' (bs' ! k) = None"
      if k: "num_cached rid m \<le> int k" "k < length bs'" "bs' ! k \<noteq> Blk 0" for k
    proof -
      have e: "bs' ! k = ?bs ! k" using at [of k] k j(1) by auto
      then have f: "ref_of p (bs' ! k) = 1" "hash_of p (bs' ! k) = None"
        using D(3) k j(1) unfolding fresh_tail_def by auto
      have "count_list bs' (bs' ! k) \<noteq> 0" using nth_mem [OF k(2)] by (simp add: count_list_0_iff)
      moreover have "count_list ?bs (bs' ! k) = 1" using usable_count(3) [OF B _ k(3)] e k(2) j(1) by simp
      ultimately have "count_list removed (bs' ! k) = 0" using cnt [OF k(3)] by simp
      then show ?thesis using f r h by simp
    qed
    show "enable_caching p \<or> (\<forall>b. hash_of p' b = None)" unfolding h using D(5) by blast
  qed (use h in auto)
  moreover have "base_remove_skipped_blocks rid t m p = Inr (m', p')"
    using False ds p'(1) D(6) by (simp add: base_remove_skipped_blocks_def i_def [symmetric] Let_def m'_def)
  moreover have "\<forall>k<length ?bs. bs' ! k = ?bs ! k \<or> bs' ! k = Blk 0 \<and> int k < get_num_skipped_tokens m t div m_block_size m"
    using at i(2) by blast
  moreover have "set (free_of p) \<subseteq> set (free_of p')" using view_eqD(1) [OF p'(4)] by (auto simp: view_free_def Let_def)
  ultimately show ?thesis using j(1) h by (intro exI [of _ m'] exI [of _ p']) (simp add: m'_def, simp add: blocks_set_def)
qed

section \<open>Prefix-cache hits\<close>

lemma step_ok_trans:
  assumes "step_ok m p m1 p1" "step_ok m1 p1 m2 p2"
  shows "step_ok m p m2 p2"
proof -
  note A = assms(1) [unfolded step_ok_def] and C = assms(2) [unfolded step_ok_def]
  have c1: "config p1 = config p" and u: "usable p1 = usable p" using A config_eqD(6) by blast+
  have "ref_of p2 b = ref_of p b \<and> hash_of p2 b = None"
    if b: "b \<in> usable p" "holds m b = 0" "1 \<le> ref_of p b" "hash_of p b = None" for b
  proof -
    have r1: "ref_of p1 b = ref_of p b" "hash_of p1 b = None" using A b by blast+
    have "ref_of p1 b - holds m1 b = ref_of p b - holds m b" using A b(1) by blast
    then have "holds m1 b = 0" using r1(1) b(2) by simp
    then show ?thesis using C r1 b u by (metis (no_types, lifting))
  qed
  moreover have "ref_of p2 b - holds m2 b = ref_of p b - holds m b" if "b \<in> usable p" for b
    using A C that u by (metis (no_types, lifting))
  ultimately show ?thesis using A C c1 unfolding step_ok_def by (metis (no_types, lifting))
qed

lemma step_okD: "step_ok m p m' p' \<Longrightarrow> books_ok m' p'" "step_ok m p m' p' \<Longrightarrow> config p' = config p"
  "step_ok m p m' p' \<Longrightarrow> static m' = static m"
  by (simp_all add: step_ok_def)

lemma evictable_count:
  assumes "pool_inv p" "set bs \<subseteq> insert (Blk 0) (usable p)" "distinct (nonnull bs)"
  shows "get_num_evictable_blocks p bs = int (length (free_of p)) - int (length (filter (\<lambda>b. b \<notin> set bs) (free_of p)))"
proof -
  note P = pool_exceptD [OF assms(1)]
  have e: "filter (\<lambda>b. ref_of p b = 0 \<and> \<not> is_null (blk p b)) bs = filter (\<lambda>b. b \<in> set (free_of p)) (nonnull bs)"
    using P(3,4) assms(2) by (auto simp: filter_filter intro!: filter_cong)
  have "length (filter (\<lambda>b. b \<in> set (free_of p)) (nonnull bs)) = card (set (nonnull bs) \<inter> set (free_of p))"
    using assms(3) by (metis distinct_card distinct_filter set_filter Int_def Collect_cong mem_Collect_eq)
  moreover have "set (nonnull bs) \<inter> set (free_of p) = {b \<in> set (free_of p). b \<in> set bs}"
    using P(4) usable_not_null by auto
  moreover have "length (filter (\<lambda>b. b \<in> set bs) (free_of p)) = card {b \<in> set (free_of p). b \<in> set bs}"
    using P(9) by (metis distinct_card distinct_filter set_filter)
  ultimately have "length (filter (\<lambda>b. ref_of p b = 0 \<and> \<not> is_null (blk p b)) bs) = length (filter (\<lambda>b. b \<in> set bs) (free_of p))"
    unfolding e by simp
  then show ?thesis using sum_length_filter_compl [of "\<lambda>b. b \<in> set bs" "free_of p"] by (simp add: get_num_evictable_blocks_def)
qed

text \<open>The hits a search can return: blocks of the pool that carry a key, each at most once, or null.\<close>

definition hits_ok :: "block_pool \<Rightarrow> bref list \<Rightarrow> bool" where
  "hits_ok p bs \<longleftrightarrow> distinct (nonnull bs) \<and> (\<forall>b\<in>set bs. b = Blk 0 \<or> b \<in> usable p \<and> hash_of p b \<noteq> None)"

lemma hits_ok_drop: "hits_ok p bs \<Longrightarrow> hits_ok p (drop n bs)"
proof -
  assume h: "hits_ok p bs"
  have "nonnull bs = nonnull (take n bs) @ nonnull (drop n bs)" by (metis append_take_drop_id filter_append)
  then have "distinct (nonnull (drop n bs))" using h by (metis distinct_append hits_ok_def)
  then show ?thesis using h by (auto simp: hits_ok_def dest: in_set_dropD)
qed

lemma adopt_hits_step:
  assumes B: "books_ok m p" and hits: "hits_ok p c" and caching: "enable_caching p \<or> c = []"
    and new: "blocks_get rid m = []"
    and R: "replaces rid (replicate k (Blk 0) @ c) (int k + int (length c)) m m'"
  shows "\<exists>p'. (if m_enable_caching m then touch c p else assertE (c = []) (Inr p)) = Inr p' \<and> step_ok m p m' p'
    \<and> free_of p' = filter (\<lambda>b. b \<notin> set c) (free_of p) \<and> (\<forall>b. hash_of p' b = hash_of p b)"
proof -
  note D = books_okD [OF B]
  have csub: "set c \<subseteq> insert (Blk 0) (usable p)" using hits by (auto simp: hits_ok_def)
  obtain p1 where p1: "touch c p = Inr p1" "pool_inv p1" "config p1 = config p" "view p1 = view_touch c (view p)"
    using touch_effect [OF D(1) csub] by blast
  define p' where "p' = (if m_enable_caching m then p1 else p)"
  have ok: "(if m_enable_caching m then touch c p else assertE (c = []) (Inr p)) = Inr p'"
    using p1(1) caching D(11) by (auto simp: p'_def)
  have P: "pool_inv p'" "config p' = config p" using p1 D(1) by (auto simp: p'_def)
  have v: "view p' = view_touch c (view p)"
    using p1(4) caching D(11) by (auto simp: p'_def view_touch_def)
  have r: "ref_of p' b = ref_of p b + int (count_list c b)" and h: "hash_of p' b = hash_of p b" for b
    using view_eqD(2,3) [OF v] by (simp_all add: view_touch_def fun_eq_iff)
  have "step_ok m p m' p'"
  proof (rule step_replace [OF B R P])
    show "ref_of p' b = ref_of p b - int (count_list (blocks_get rid m) b) + int (count_list (replicate k (Blk 0) @ c) b)"
      if "b \<in> usable p" for b using r [of b] new usable_not_null [OF that] by simp
    show "enable_caching p \<or> (\<forall>b. hash_of p' b = None)" unfolding h using D(5) by blast
  qed (use hits csub h in \<open>auto simp: hits_ok_def\<close>)
  moreover have "free_of p' = filter (\<lambda>b. b \<notin> set c) (free_of p)" using view_eqD(1) [OF v] by (simp add: view_touch_def)
  ultimately show ?thesis using ok h by blast
qed

text \<open>The blocks that \<^verbatim>\<open>allocate_new_computed_blocks\<close> keeps of the hits, and the number of leading null
  blocks.\<close>

definition kept_hits :: "manager \<Rightarrow> bref list \<Rightarrow> int \<Rightarrow> bref list" where
  "kept_hits m c t = drop (nat (get_num_skipped_tokens m t div m_block_size m)) c"

definition lead_nulls :: "manager \<Rightarrow> int \<Rightarrow> nat" where
  "lead_nulls m t = nat (get_num_skipped_tokens m t div m_block_size m)"

lemma base_allocate_computed_step:
  fixes nl ne :: int
  assumes B: "books_ok m p" and hits: "hits_ok p c" and caching: "enable_caching p \<or> c = []"
    and first: "num_cached_block m rid = None" "blocks_get rid m = []"
  defines "t \<equiv> nl + ne" and "kept \<equiv> kept_hits m c (nl + ne)" and "k \<equiv> lead_nulls m (nl + ne)"
  defines "free1 \<equiv> filter (\<lambda>b. b \<notin> set (kept_hits m c (nl + ne))) (free_of p)"
  defines "ext \<equiv> (if ne > 0 \<and> (k = 0 \<or> t > get_num_skipped_tokens m t)
      then cdiv t (m_block_size m) - int k - int (length kept) else 0)"
  assumes room: "0 \<le> ext" "ext \<le> int (length free1)"
  shows "\<exists>m' p'. base_allocate_new_computed_blocks rid c nl ne m p = Inr (m', p') \<and> step_ok m p m' p'
    \<and> blocks_get rid m' = replicate k (Blk 0) @ kept @ take (nat ext) free1
    \<and> num_cached_block m' rid \<noteq> None \<and> free_of p' = drop (nat ext) free1
    \<and> num_cached rid m' \<le> int k + int (length kept) \<and> (ne \<le> 0 \<longrightarrow> (\<forall>b. hash_of p' b = hash_of p b))"
proof -
  note D = books_okD [OF B]
  let ?sk = "get_num_skipped_tokens m t div m_block_size m"
  have kept: "(if ?sk > 0 then py_from c ?sk else c) = kept"
    by (auto simp: kept_def kept_hits_def t_def py_from_nonneg)
  have hk: "hits_ok p kept" unfolding kept_def kept_hits_def by (rule hits_ok_drop [OF hits])
  have ck: "enable_caching p \<or> kept = []" using caching by (auto simp: kept_def kept_hits_def)
  let ?rb = "replicate k (Blk 0) @ kept"
  define m1 where "m1 = (blocks_set rid ?rb m)\<lparr>num_cached_block := (num_cached_block (blocks_set rid ?rb m))(rid \<mapsto> int (length ?rb))\<rparr>"
  have R1: "replaces rid ?rb (int k + int (length kept)) m m1"
    unfolding replaces_def m1_def using D(8)
    by (simp add: blocks_set_def dict_set_keys static_def hold_sum_set blocks_get_def num_cached_def dget_def)
  obtain p1 where p1: "(if m_enable_caching m then touch kept p else assertE (kept = []) (Inr p)) = Inr p1"
    "step_ok m p m1 p1" "free_of p1 = free1" "\<forall>b. hash_of p1 b = hash_of p b"
    using adopt_hits_step [OF B hk ck first(2) R1] unfolding free1_def kept_def by blast
  note B1 = step_okD(1) [OF p1(2)]
  have g1: "blocks_get rid m1 = ?rb" by (simp add: m1_def blocks_get_def blocks_set_def)
  have cond: "(if ?sk > 0 then min (t - get_num_skipped_tokens m t) ne else ne) > 0 \<longleftrightarrow>
      ne > 0 \<and> (k = 0 \<or> t > get_num_skipped_tokens m t)"
    by (auto simp: k_def lead_nulls_def t_def)
  have rbl: "replicate (nat ?sk) (m_null_block m) @ kept = ?rb" using D(6) by (simp add: k_def lead_nulls_def t_def)
  have unf: "base_allocate_new_computed_blocks rid c nl ne m p =
      (if ne > 0 \<and> (k = 0 \<or> t > get_num_skipped_tokens m t)
       then bindE (get_new_blocks (cdiv t (m_block_size m) - int (length ?rb)) p1) (\<lambda>(new, p2).
              Inr (note_new_ids new p2 (blocks_set rid (?rb @ new) m1), p2))
       else Inr (m1, p1))"
    using first p1(1) unfolding base_allocate_new_computed_blocks_def Let_def t_def [symmetric] kept cond rbl m1_def [symmetric]
    by simp
  show ?thesis
  proof (cases "ne > 0 \<and> (k = 0 \<or> t > get_num_skipped_tokens m t)")
    case False
    then have "ext = 0" unfolding ext_def by (simp only: if_False)
    moreover have "base_allocate_new_computed_blocks rid c nl ne m p = Inr (m1, p1)"
      unfolding unf by (simp only: False if_False)
    moreover have "num_cached_block m1 rid \<noteq> None" "num_cached rid m1 = int k + int (length kept)"
      by (simp_all add: m1_def num_cached_def)
    ultimately show ?thesis using p1(2-4) g1 by simp
  next
    case True
    then have e: "ext = cdiv t (m_block_size m) - int (length ?rb)" unfolding ext_def by simp
    let ?n = "nat ext" let ?new = "take ?n free1"
    have n: "int ?n = ext" "?n \<le> length (free_of p1)" using room p1(3) by auto
    have "replaces rid (blocks_get rid m1 @ take ?n (free_of p1)) (num_cached rid m1) m1 (blocks_set rid (?rb @ ?new) m1)"
      unfolding g1 p1(3) by (rule replaces_set [OF books_okD(8) [OF B1]])
    then have "replaces rid (blocks_get rid m1 @ take ?n (free_of p1)) (num_cached rid m1) m1
        (note_new_ids ?new q (blocks_set rid (?rb @ ?new) m1))" for q
      by (rule replaces_cong) simp_all
    then obtain p2 where p2: "get_new_blocks ext p1 = Inr (?new, p2)"
      "step_ok m1 p1 (note_new_ids ?new p2 (blocks_set rid (?rb @ ?new) m1)) p2" "free_of p2 = drop ?n free1"
      using extend_with_new [OF B1 n(2)] unfolding n(1) p1(3) by (metis Inr_inject prod.inject)
    have "base_allocate_new_computed_blocks rid c nl ne m p = Inr (note_new_ids ?new p2 (blocks_set rid (?rb @ ?new) m1), p2)"
      unfolding unf using True p2(1) e by simp
    moreover have "num_cached_block (note_new_ids ?new p2 (blocks_set rid (?rb @ ?new) m1)) rid \<noteq> None"
      "num_cached rid (note_new_ids ?new p2 (blocks_set rid (?rb @ ?new) m1)) = int k + int (length kept)"
      by (simp_all add: blocks_set_def m1_def num_cached_def)
    ultimately show ?thesis using step_ok_trans [OF p1(2) p2(2)] p2(3) True by simp
  qed
qed

section \<open>Caching the blocks of a request\<close>

lemma base_cache_step:
  assumes B: "books_ok m p" and "0 < hash_block_size p" "hash_block_size p dvd m_block_size m" "enable_caching p"
    and full: "nt div m_block_size m \<le> int (length (blocks_get (request_id r) m))"
    and hs: "nt div m_block_size m \<le> int (length (hashes_for (hash_block_size p) (m_block_size m) (block_hashes r)))"
  shows "\<exists>m' p' r'. base_cache_blocks r nt m p = Inr (m', p', r') \<and> step_ok m p m' p' \<and> same_content r r'
    \<and> req_to_blocks (m') = (if num_cached (request_id r) m \<ge> nt div m_block_size m then req_to_blocks m
                             else req_to_blocks (touch_req (request_id r) m))
    \<and> free_of p' = free_of p"
proof -
  note D = books_okD [OF B]
  let ?rid = "request_id r" and ?bs = "m_block_size m"
  let ?blocks = "blocks_get ?rid m" and ?L = "hashes_for (hash_block_size p) (m_block_size m) (block_hashes r)"
  show ?thesis
  proof (cases "num_cached ?rid m \<ge> nt div ?bs")
    case True
    then show ?thesis using B same_content_refl [of r] by (simp add: base_cache_blocks_def step_ok_def)
  next
    case False
    define nf nc where "nf = nat (nt div ?bs)" and "nc = nat (num_cached ?rid m)"
    have n: "int nf = nt div ?bs" "int nc = num_cached ?rid m" "nc < nf" "nf \<le> length ?blocks" "nf \<le> length ?L"
      using False D(12) [of ?rid] full hs by (simp_all add: nf_def nc_def)
    let ?new = "drop nc (take nf ?blocks)"
    have fresh: "ref_of p b = 1 \<and> hash_of p b = None" if b: "b \<in> set (drop nc ?blocks)" "b \<noteq> Blk 0" for b
    proof -
      obtain i where "b = drop nc ?blocks ! i" "i < length (drop nc ?blocks)" using b(1) by (metis in_set_conv_nth)
      then have i: "b = ?blocks ! (nc + i)" "nc + i < length ?blocks" by (auto simp: less_diff_conv add.commute)
      then have "?blocks ! (nc + i) \<noteq> Blk 0" "num_cached ?rid m \<le> int (nc + i)" using b(2) n(2) by auto
      then show ?thesis using D(3) i(2) unfolding fresh_tail_def i(1) by blast
    qed
    have "take nc ?blocks @ ?new = take nf ?blocks"
      using n(3) append_take_drop_id [of nc "take nf ?blocks"] by (simp add: min_def)
    then have "(take nc ?blocks @ ?new) @ drop nf ?blocks = ?blocks" by (simp only: append_take_drop_id)
    then have split: "take nc ?blocks @ ?new @ drop nf ?blocks = ?blocks" by (simp only: append_assoc)
    have dd: "distinct (nonnull (take nc ?blocks @ ?new @ drop nf ?blocks))" using D(9) [of ?rid] by (simp only: split)
    then have dn: "distinct (nonnull ?new)" by simp
    have subn: "set ?new \<subseteq> set (drop nc ?blocks)" by (metis drop_take set_take_subset)
    have ok: "\<forall>b\<in>set ?new. b = Blk 0 \<or> b \<in> usable p \<and> hash_of p b = None"
    proof
      fix b assume "b \<in> set ?new"
      then have "b \<in> set (drop nc ?blocks)" "b \<in> set ?blocks" using subn in_set_dropD by fast+
      then show "b = Blk 0 \<or> b \<in> usable p \<and> hash_of p b = None" using fresh [of b] D(10) [of ?rid] by blast
    qed
    obtain p' r' where c: "cache_full_blocks r ?blocks (int nc) (int nf) ?bs (m_group_id m) p = Inr (p', r')" "pool_inv p'"
      "config p' = config p" "same_content r r'"
      "view p' = (view p)\<lparr>pv_hash := hash_of p ++ map_of (new_keys (m_group_id m) ?new (drop nc ?L))\<rparr>"
      using cache_full_blocks_effect [OF D(1,13) assms(2) D(7) assms(3) n(4,3,5) dn ok] by blast
    have r: "ref_of p' b = ref_of p b" and f: "free_of p' = free_of p" for b
      using view_eqD(1,2) [OF c(5)] by (simp_all add: fun_eq_iff)
    have h: "hash_of p' b = hash_of p b" if "b \<notin> set ?new" for b
    proof -
      have "b \<notin> fst ` set (new_keys (m_group_id m) ?new (drop nc ?L))" using that by (auto simp: new_keys_def dest: set_zip_leftD)
      then have "map_of (new_keys (m_group_id m) ?new (drop nc ?L)) b = None" by (simp add: map_of_eq_None_iff)
      then show ?thesis using fun_cong [OF view_eqD(3) [OF c(5)], of b] by (simp add: map_add_def)
    qed
    define m1 where "m1 = touch_req ?rid m"
    define m' where "m' = m1\<lparr>num_cached_block := (num_cached_block m1)(?rid \<mapsto> nt div ?bs)\<rparr>"
    have "replaces ?rid ?blocks (num_cached ?rid m) m m1" unfolding m1_def touch_req_def by (rule replaces_set [OF D(8)])
    then have R: "replaces ?rid ?blocks (int nf) m m'"
      unfolding replaces_def m'_def n(1) by (simp add: static_def blocks_get_def num_cached_def)
    have nn: "set ?new \<subseteq> set ?blocks" using subn in_set_dropD by fast
    have "step_ok m p m' p'"
    proof (rule step_replace [OF B R c(2,3)])
      show "distinct (nonnull ?blocks)" "set ?blocks \<subseteq> insert (Blk 0) (usable p)" "0 \<le> int nf" using D(9,10) by auto
      show "hash_of p' b = None" if "hash_of p b = None" "b \<notin> set ?blocks" for b using h [of b] that nn by auto
      show "ref_of p' (?blocks ! i) = 1 \<and> hash_of p' (?blocks ! i) = None"
        if i: "int nf \<le> int i" "i < length ?blocks" "?blocks ! i \<noteq> Blk 0" for i
      proof -
        have "?blocks ! i = drop nf ?blocks ! (i - nf)" "i - nf < length (drop nf ?blocks)" using i by auto
        then have m2: "?blocks ! i \<in> set (drop nf ?blocks)" by (metis nth_mem)
        then have "?blocks ! i \<notin> set ?new" using dd i(3) by auto
        moreover have "?blocks ! i \<in> set (drop nc ?blocks)"
          using m2 n(3) by (metis less_imp_le_nat set_drop_subset_set_drop subsetD)
        ultimately show ?thesis using fresh i(3) r h by simp
      qed
    qed (use r assms(4) in auto)
    moreover have "base_cache_blocks r nt m p = Inr (m', p', r')"
      using False c(1) n(1,2) by (simp add: base_cache_blocks_def Let_def m'_def m1_def num_cached_def)
    ultimately show ?thesis using False c(4) f by (simp add: m'_def m1_def)
  qed
qed

end
