(* ===== verification/Cache_Hit.thy ===== *)
theory Cache_Hit
  imports Single_Type
begin

text \<open>
  The search for the longest cached prefix, one per attention type
  (\<^verbatim>\<open>find_longest_cache_hit\<close> in src/vllm/v1/core/single\_type\_kv\_cache\_manager.py). The hit must be
  usable by the attention type: all blocks of the prefix for full attention, the blocks inside the window for
  sliding windows and chunks, and the last state for Mamba.
\<close>

section \<open>The longest cached prefix\<close>

definition append_each :: "bref list list \<Rightarrow> bref list \<Rightarrow> bref list list" where
  "append_each computed cached = map2 (\<lambda>c b. c @ [b]) computed cached"

text \<open>\<^verbatim>\<open>itertools.islice(block_hashes, n)\<close>.\<close>

fun bhl_islice :: "block_hash_list \<Rightarrow> int \<Rightarrow> bytes list res" where
  "bhl_islice (HashList hs) n = (if n < 0 then Inl ValueError else Inr (take (nat n) hs))"
| "bhl_islice (HashView v) n =
     (if n < 0 then Inl ValueError else mapE (get_value_at v) [0..min n (hv_len v) - 1])"

fun scan_hits :: "block_pool \<Rightarrow> int list \<Rightarrow> bytes list \<Rightarrow> bref list list \<Rightarrow> bref list list res" where
  "scan_hits p gids [] computed = Inr computed"
| "scan_hits p gids (h # hs) computed =
     bindE (get_cached_block p h gids) (\<lambda>hit.
       case hit of
         Some (b # bs) \<Rightarrow> scan_hits p gids hs (append_each computed (b # bs))
       | _ \<Rightarrow> Inr computed)"

text \<open>Dropping blocks until the hit length is a multiple of the alignment. An empty list is aligned, so the
  loop ends.\<close>

function align_hits :: "int \<Rightarrow> int \<Rightarrow> bref list list \<Rightarrow> bref list list" where
  "align_hits bs align [] = []"
| "align_hits bs align (c # cs) =
     (if bs \<noteq> align \<and> c \<noteq> [] \<and> int (length c) * bs mod align \<noteq> 0
      then align_hits bs align (map butlast (c # cs)) else c # cs)"
  by pat_completeness auto
termination
  by (relation "measure (\<lambda>(bs, align, computed). case computed of [] \<Rightarrow> 0 | c # _ \<Rightarrow> length c)") auto

declare align_hits.simps [simp del]

definition drop_last_hit :: "bref list list \<Rightarrow> bref list list" where
  "drop_last_hit computed = map butlast computed"

definition full_find_hit ::
  "block_hash_list \<Rightarrow> int \<Rightarrow> int list \<Rightarrow> block_pool \<Rightarrow> kv_cache_spec \<Rightarrow> bool \<Rightarrow> int \<Rightarrow> int \<Rightarrow> int \<Rightarrow> bref list list res" where
  "full_find_hit bhl max_length gids p spec eagle align dcp pcp =
     assertE (is_full_attention spec \<or> spec_manager_map spec = Some ChunkedLocalAttentionManager)
       (let bs = (if dcp * pcp > 1 then block_size spec * (dcp * pcp) else block_size spec) in
        bindE (bhl_islice bhl (max_length div bs)) (\<lambda>hs.
        bindE (scan_hits p gids hs (replicate (length gids) [])) (\<lambda>computed.
          if computed = [] then (if eagle \<or> bs \<noteq> align then Inl IndexError else Inr [])
          else (let c1 = (if eagle \<and> hd computed \<noteq> [] then drop_last_hit computed else computed)
                in if bs \<noteq> align \<and> align = 0 then Inl ZeroDivisionError else Inr (align_hits bs align c1)))))"

fun sliding_scan ::
  "block_pool \<Rightarrow> block_hash_list \<Rightarrow> int list \<Rightarrow> int \<Rightarrow> int \<Rightarrow> int \<Rightarrow> nat \<Rightarrow> bref list list \<Rightarrow> nat \<Rightarrow>
   (bref list list \<times> nat \<times> bool) res" where
  "sliding_scan p bhl gids bs align need 0 computed nc = Inr (computed, nc, False)"
| "sliding_scan p bhl gids bs align need (Suc i) computed nc =
     bindE (bhl_get bhl (int i)) (\<lambda>h.
     bindE (get_cached_block p h gids) (\<lambda>hit.
       case hit of
         Some (b # cached) \<Rightarrow>
           (if nc = 0 \<and> bs \<noteq> align \<and> (int i + 1) * bs mod align \<noteq> 0
            then sliding_scan p bhl gids bs align need i computed nc
            else (let c' = map2 (\<lambda>c x. c[i := x]) computed (b # cached)
                  in if int (Suc nc) \<ge> need
                     then Inr (map (take (i + Suc nc)) c', Suc nc, True)
                     else sliding_scan p bhl gids bs align need i c' (Suc nc)))
       | _ \<Rightarrow> sliding_scan p bhl gids bs align need i computed 0))"

definition sliding_find_hit ::
  "block_hash_list \<Rightarrow> int \<Rightarrow> int list \<Rightarrow> block_pool \<Rightarrow> kv_cache_spec \<Rightarrow> bool \<Rightarrow> int \<Rightarrow> int \<Rightarrow> int \<Rightarrow> bref list list res" where
  "sliding_find_hit bhl max_length gids p spec eagle align dcp pcp =
     assertE (spec_manager_map spec = Some SlidingWindowManager)
       (assertE (dcp = 1) (assertE (pcp = 1)
          (let bs = block_size spec;
               need = cdiv (sliding_window_of spec - 1) bs + (if eagle then 1 else 0);
               n = nat (max_length div bs)
           in bindE (sliding_scan p bhl gids bs align need n (replicate (length gids) (replicate n (null_block p))) 0) (\<lambda>(c, nc, found).
                let c1 = (if found then c else align_hits bs align (map (take nc) c))
                in if c1 = [] then (if eagle \<or> bs \<noteq> align then Inl IndexError else Inr [])
                   else if eagle \<and> hd c1 \<noteq> [] then assertE (bs = align) (Inr (drop_last_hit c1))
                   else Inr c1))))"

fun chunked_scan :: "block_pool \<Rightarrow> block_hash_list \<Rightarrow> int list \<Rightarrow> int list \<Rightarrow> bref list list \<Rightarrow> bref list list res" where
  "chunked_scan p bhl gids [] computed = Inr computed"
| "chunked_scan p bhl gids (i # is) computed =
     bindE (bhl_get bhl i) (\<lambda>h.
     bindE (get_cached_block p h gids) (\<lambda>hit.
       case hit of
         Some (b # bs) \<Rightarrow> chunked_scan p bhl gids is (append_each computed (b # bs))
       | _ \<Rightarrow> Inr computed))"

definition chunked_find_hit ::
  "block_hash_list \<Rightarrow> int \<Rightarrow> int list \<Rightarrow> block_pool \<Rightarrow> kv_cache_spec \<Rightarrow> bool \<Rightarrow> int \<Rightarrow> int \<Rightarrow> int \<Rightarrow> bref list list res" where
  "chunked_find_hit bhl max_length gids p spec eagle align dcp pcp =
     assertE (spec_manager_map spec = Some ChunkedLocalAttentionManager)
       (assertE (\<not> eagle) (assertE (dcp = 1) (assertE (pcp = 1) (assertE (block_size spec = align)
          (let bs = block_size spec;
               chunk = chunk_size_of spec;
               start = (if max_length > 0 then max_length div chunk * chunk else 0) div bs
           in chunked_scan p bhl gids [start..max_length div bs - 1]
                (replicate (length gids) (replicate (nat start) (null_block p))))))))"

fun mamba_scan ::
  "block_pool \<Rightarrow> block_hash_list \<Rightarrow> int list \<Rightarrow> int \<Rightarrow> int \<Rightarrow> nat \<Rightarrow> bref list list res" where
  "mamba_scan p bhl gids bs align 0 = Inr (replicate (length gids) [])"
| "mamba_scan p bhl gids bs align (Suc i) =
     bindE (bhl_get bhl (int i)) (\<lambda>h.
     bindE (get_cached_block p h gids) (\<lambda>hit.
       case hit of
         Some (b # cached) \<Rightarrow>
           (if bs \<noteq> align \<and> (int i + 1) * bs mod align \<noteq> 0 then mamba_scan p bhl gids bs align i
            else Inr (map (\<lambda>x. replicate i (null_block p) @ [x]) (b # cached)))
       | _ \<Rightarrow> mamba_scan p bhl gids bs align i))"

definition mamba_find_hit ::
  "block_hash_list \<Rightarrow> int \<Rightarrow> int list \<Rightarrow> block_pool \<Rightarrow> kv_cache_spec \<Rightarrow> bool \<Rightarrow> int \<Rightarrow> int \<Rightarrow> int \<Rightarrow> bref list list res" where
  "mamba_find_hit bhl max_length gids p spec eagle align dcp pcp =
     assertE (is_mamba spec) (assertE (dcp = 1) (assertE (pcp = 1)
       (mamba_scan p bhl gids (block_size spec) align (nat (max_length div block_size spec)))))"

definition find_longest_cache_hit ::
  "manager_class \<Rightarrow> block_hash_list \<Rightarrow> int \<Rightarrow> int list \<Rightarrow> block_pool \<Rightarrow> kv_cache_spec \<Rightarrow> bool \<Rightarrow> int \<Rightarrow> int \<Rightarrow> int \<Rightarrow>
   bref list list res" where
  "find_longest_cache_hit cls bhl max_length gids p spec eagle align dcp pcp =
     (case cls of
        FullAttentionManager \<Rightarrow> full_find_hit bhl max_length gids p spec eagle align dcp pcp
      | SinkFullAttentionManager \<Rightarrow> full_find_hit bhl max_length gids p spec eagle align dcp pcp
      | SlidingWindowManager \<Rightarrow> sliding_find_hit bhl max_length gids p spec eagle align dcp pcp
      | ChunkedLocalAttentionManager \<Rightarrow> chunked_find_hit bhl max_length gids p spec eagle align dcp pcp
      | MambaManager \<Rightarrow> mamba_find_hit bhl max_length gids p spec eagle align dcp pcp
      | CrossAttentionManager \<Rightarrow>
          assertE (spec_manager_map spec = Some CrossAttentionManager) (Inl NotImplementedError))"

end
