(* ===== verification/Coordinator.thy ===== *)
theory Coordinator
  imports Manager_Inv Cache_Hit
begin

text \<open>
  The coordinator of src/vllm/v1/core/kv\_cache\_coordinator.py: one pool, one manager per cache group, every
  operation forwarded to all managers in order, and the search for a prefix that is cached in all groups. The
  three subclasses are the three values of \<open>coordinator_kind\<close>.
\<close>

section \<open>State and construction\<close>

datatype coordinator_kind = NoPrefixCacheCoordinator | UnitaryCoordinator | HybridCoordinator

type_synonym attention_group = "kv_cache_spec \<times> nat list \<times> manager_class"

record coordinator =
  c_kind :: coordinator_kind
  c_config :: kv_cache_config
  c_max_model_len :: int
  c_enable_caching :: bool
  c_use_eagle :: bool
  c_pool :: block_pool
  managers :: "manager list"
  c_hash_block_size :: int
  c_dcp :: int
  c_pcp :: int
  attention_groups :: "attention_group list"
  lcm_block_size :: int

text \<open>The environment of the pool: metrics collector, integer-hash flag and embedding digest.\<close>

type_synonym pool_env = "metrics_collector option \<times> bool \<times> (int list list \<Rightarrow> bytes)"

fun make_managers :: "kv_cache_group list \<Rightarrow> bool \<Rightarrow> int \<Rightarrow> int \<Rightarrow> int \<Rightarrow> block_pool \<Rightarrow> (manager list \<times> block_pool) res" where
  "make_managers [] caching i dcp pcp p = Inr ([], p)"
| "make_managers (g # gs) caching i dcp pcp p =
     bindE (get_manager_for_kv_cache_spec (group_spec g) caching i dcp pcp p) (\<lambda>(m, p1).
     bindE (make_managers gs caching (i + 1) dcp pcp p1) (\<lambda>(ms, p2). Inr (m # ms, p2)))"

text \<open>\<^verbatim>\<open>verify_and_split_kv_cache_groups\<close>: groups with equal specs are searched together.\<close>

fun add_to_group :: "kv_cache_spec \<Rightarrow> nat \<Rightarrow> manager_class \<Rightarrow> attention_group list \<Rightarrow> attention_group list res" where
  "add_to_group spec i cls [] = Inr [(spec, [i], cls)]"
| "add_to_group spec i cls ((s, ids, c) # gs) =
     (if s = spec then assertE (cls = c) (Inr ((s, ids @ [i], c) # gs))
      else bindE (add_to_group spec i cls gs) (\<lambda>gs'. Inr ((s, ids, c) # gs')))"

fun split_groups :: "(kv_cache_group \<times> manager) list \<Rightarrow> nat \<Rightarrow> attention_group list \<Rightarrow> attention_group list res" where
  "split_groups [] i acc = Inr acc"
| "split_groups ((g, m) # gms) i acc =
     bindE (add_to_group (group_spec g) i (m_class m) acc) (split_groups gms (Suc i))"

definition full_first :: "attention_group list \<Rightarrow> attention_group list" where
  "full_first gs = filter (\<lambda>g. is_full_attention (fst g)) gs @ filter (\<lambda>g. \<not> is_full_attention (fst g)) gs"

definition base_coordinator ::
  "coordinator_kind \<Rightarrow> kv_cache_config \<Rightarrow> int \<Rightarrow> bool \<Rightarrow> bool \<Rightarrow> bool \<Rightarrow> int \<Rightarrow> int \<Rightarrow> int \<Rightarrow> pool_env \<Rightarrow> coordinator res" where
  "base_coordinator kind cfg mml eagle caching events dcp pcp hbs env =
     (case env of (mc, ih, digest) \<Rightarrow>
      bindE (init_pool (num_blocks cfg) caching hbs events mc ih digest) (\<lambda>p.
      bindE (make_managers (kv_cache_groups cfg) caching 0 dcp pcp p) (\<lambda>(ms, p1).
        Inr \<lparr>c_kind = kind, c_config = cfg, c_max_model_len = mml, c_enable_caching = caching, c_use_eagle = eagle,
             c_pool = p1, managers = ms, c_hash_block_size = hbs, c_dcp = dcp, c_pcp = pcp,
             attention_groups = [], lcm_block_size = 0\<rparr>)))"

definition unitary_block_size :: "coordinator \<Rightarrow> int" where
  "unitary_block_size c =
     block_size (group_spec (hd (kv_cache_groups (c_config c))))
       * (if c_dcp c > 1 then c_dcp c else 1) * (if c_pcp c > 1 then c_pcp c else 1)"

definition unitary_checks :: "coordinator \<Rightarrow> coordinator res" where
  "unitary_checks c =
     (if kv_cache_groups (c_config c) = [] then Inl IndexError
      else assertE (\<not> c_enable_caching c \<or> c_hash_block_size c = unitary_block_size c)
        (assertE (length (kv_cache_groups (c_config c)) = 1) (Inr c)))"

definition hybrid_checks :: "coordinator \<Rightarrow> coordinator res" where
  "hybrid_checks c =
     (if c_hash_block_size c = 0 \<and> kv_cache_groups (c_config c) \<noteq> [] then Inl ZeroDivisionError
      else assertE (list_all (\<lambda>g. block_size (group_spec g) mod c_hash_block_size c = 0) (kv_cache_groups (c_config c)))
        (assertE (c_dcp c = 1) (assertE (c_pcp c = 1)
          (bindE (split_groups (zip (kv_cache_groups (c_config c)) (managers c)) 0 []) (\<lambda>gs.
             assertE (length gs > 1)
               (Inr (c\<lparr>attention_groups := full_first gs,
                       lcm_block_size := fold lcm (map (\<lambda>g. block_size (fst g)) gs) 1\<rparr>)))))))"

definition get_kv_cache_coordinator ::
  "kv_cache_config \<Rightarrow> int \<Rightarrow> bool \<Rightarrow> bool \<Rightarrow> bool \<Rightarrow> int \<Rightarrow> int \<Rightarrow> int \<Rightarrow> pool_env \<Rightarrow> coordinator res" where
  "get_kv_cache_coordinator cfg mml eagle caching events dcp pcp hbs env =
     (if \<not> caching then base_coordinator NoPrefixCacheCoordinator cfg mml eagle False events dcp pcp hbs env
      else if length (kv_cache_groups cfg) = 1
      then bindE (base_coordinator UnitaryCoordinator cfg mml eagle caching events dcp pcp hbs env) unitary_checks
      else bindE (base_coordinator HybridCoordinator cfg mml eagle caching events dcp pcp hbs env) hybrid_checks)"

section \<open>Operations forwarded to the managers\<close>

fun each_manager ::
  "(nat \<Rightarrow> manager \<Rightarrow> block_pool \<Rightarrow> ('a \<times> manager \<times> block_pool) res) \<Rightarrow> nat \<Rightarrow> manager list \<Rightarrow> block_pool \<Rightarrow>
   ('a list \<times> manager list \<times> block_pool) res" where
  "each_manager f i [] p = Inr ([], [], p)"
| "each_manager f i (m # ms) p =
     bindE (f i m p) (\<lambda>(a, m', p').
     bindE (each_manager f (Suc i) ms p') (\<lambda>(as, ms', p''). Inr (a # as, m' # ms', p'')))"

definition on_managers ::
  "(nat \<Rightarrow> manager \<Rightarrow> block_pool \<Rightarrow> ('a \<times> manager \<times> block_pool) res) \<Rightarrow> coordinator \<Rightarrow> ('a list \<times> coordinator) res" where
  "on_managers f c =
     bindE (each_manager f 0 (managers c) (c_pool c)) (\<lambda>(as, ms, p). Inr (as, c\<lparr>managers := ms, c_pool := p\<rparr>))"

definition is_cross :: "manager \<Rightarrow> bool" where
  "is_cross m \<longleftrightarrow> m_class m = CrossAttentionManager"

definition nth_or_raise :: "'a list \<Rightarrow> nat \<Rightarrow> 'a res" where
  "nth_or_raise xs i = (if i < length xs then Inr (xs ! i) else Inl IndexError)"

definition coord_num_blocks_to_allocate ::
  "req_id \<Rightarrow> int \<Rightarrow> bref list list \<Rightarrow> int \<Rightarrow> int \<Rightarrow> int \<Rightarrow> coordinator \<Rightarrow> (int \<times> coordinator) res" where
  "coord_num_blocks_to_allocate rid nt new_computed n_enc tot nt_main c =
     bindE (on_managers (\<lambda>i m p.
              bindE (if is_cross m then get_num_blocks_to_allocate rid n_enc [] 0 n_enc m p
                     else bindE (nth_or_raise new_computed i) (\<lambda>nc.
                          get_num_blocks_to_allocate rid nt nc tot nt_main m p))
                (\<lambda>(n, m'). Inr (n, m', p))) c)
       (\<lambda>(ns, c'). Inr (sum_list ns, c'))"

definition coord_allocate_new_computed_blocks ::
  "req_id \<Rightarrow> bref list list \<Rightarrow> int \<Rightarrow> int \<Rightarrow> coordinator \<Rightarrow> coordinator res" where
  "coord_allocate_new_computed_blocks rid new_computed nlocal nexternal c =
     bindE (on_managers (\<lambda>i m p.
              bindE (nth_or_raise new_computed i) (\<lambda>nc.
              bindE (allocate_new_computed_blocks rid nc nlocal nexternal m p) (\<lambda>(m', p'). Inr ((), m', p')))) c)
       (\<lambda>(_, c'). Inr c')"

definition coord_allocate_new_blocks ::
  "req_id \<Rightarrow> int \<Rightarrow> int \<Rightarrow> int \<Rightarrow> coordinator \<Rightarrow> (bref list list \<times> coordinator) res" where
  "coord_allocate_new_blocks rid nt nt_main n_enc c =
     on_managers (\<lambda>i m p. allocate_new_blocks rid (if is_cross m then n_enc else nt) nt_main m p) c"

fun cache_each :: "request \<Rightarrow> int \<Rightarrow> manager list \<Rightarrow> block_pool \<Rightarrow> (manager list \<times> block_pool \<times> request) res" where
  "cache_each r nt [] p = Inr ([], p, r)"
| "cache_each r nt (m # ms) p =
     bindE (cache_blocks r nt m p) (\<lambda>(m', p', r').
     bindE (cache_each r' nt ms p') (\<lambda>(ms', p'', r''). Inr (m' # ms', p'', r'')))"

definition coord_cache_blocks :: "request \<Rightarrow> int \<Rightarrow> coordinator \<Rightarrow> (coordinator \<times> request) res" where
  "coord_cache_blocks r nt c =
     bindE (cache_each r nt (managers c) (c_pool c)) (\<lambda>(ms, p, r'). Inr (c\<lparr>managers := ms, c_pool := p\<rparr>, r'))"

definition coord_free :: "req_id \<Rightarrow> coordinator \<Rightarrow> coordinator res" where
  "coord_free rid c =
     bindE (on_managers (\<lambda>i m p. bindE (free_request_blocks rid m p) (\<lambda>(m', p'). Inr ((), m', p'))) c) (\<lambda>(_, c'). Inr c')"

definition coord_num_common_prefix_blocks :: "req_id \<Rightarrow> coordinator \<Rightarrow> (int list \<times> coordinator) res" where
  "coord_num_common_prefix_blocks rid c =
     (if c_kind c = NoPrefixCacheCoordinator then Inr (replicate (length (managers c)) 0, c)
      else on_managers (\<lambda>i m p. let (n, m') = get_num_common_prefix_blocks rid m p in Inr (n, m', p)) c)"

definition coord_remove_skipped_blocks :: "req_id \<Rightarrow> int \<Rightarrow> coordinator \<Rightarrow> coordinator res" where
  "coord_remove_skipped_blocks rid tot c =
     bindE (on_managers (\<lambda>i m p. bindE (remove_skipped_blocks rid tot m p) (\<lambda>(m', p'). Inr ((), m', p'))) c)
       (\<lambda>(_, c'). Inr c')"

definition coord_get_blocks :: "req_id \<Rightarrow> coordinator \<Rightarrow> bref list list" where
  "coord_get_blocks rid c = map (blocks_get rid) (managers c)"

definition coord_new_step_starts :: "coordinator \<Rightarrow> coordinator" where
  "coord_new_step_starts c = c\<lparr>managers := map new_step_starts (managers c)\<rparr>"

section \<open>The longest prefix that all groups have cached\<close>

definition unitary_find_hit :: "bytes list \<Rightarrow> int \<Rightarrow> coordinator \<Rightarrow> (bref list list \<times> int) res" where
  "unitary_find_hit hs max_len c =
     (case managers c of
        [] \<Rightarrow> Inl IndexError
      | m # _ \<Rightarrow>
          bindE (find_longest_cache_hit (m_class m) (HashList hs) max_len [0] (c_pool c)
                   (group_spec (hd (kv_cache_groups (c_config c)))) (c_use_eagle c) (unitary_block_size c) (c_dcp c) (c_pcp c))
            (\<lambda>hit. if hit = [] then Inl IndexError else Inr (hit, int (length (hd hit)) * unitary_block_size c)))"

definition hashes_for_spec :: "bytes list \<Rightarrow> kv_cache_spec \<Rightarrow> coordinator \<Rightarrow> block_hash_list res" where
  "hashes_for_spec hs spec c =
     (if block_size spec = c_hash_block_size c then Inr (HashList hs)
      else bindE (hash_list_with_block_size hs (c_hash_block_size c) (block_size spec)) (\<lambda>v. Inr (HashView v)))"

definition set_hits :: "nat list \<Rightarrow> bref list list \<Rightarrow> bref list option list \<Rightarrow> bref list option list" where
  "set_hits ids blocks hits = foldl (\<lambda>h (g, b). h[g := Some b]) hits (zip ids blocks)"

text \<open>One pass over the attention groups; the candidate length shrinks from group to group.\<close>

definition hit_group ::
  "bytes list \<Rightarrow> coordinator \<Rightarrow> attention_group \<Rightarrow> int \<times> bref list option list \<Rightarrow> (int \<times> bref list option list) res" where
  "hit_group hs c g st =
     (case (g, st) of ((spec, ids, cls), (cur, hits)) \<Rightarrow>
        (if is_full_attention spec \<and> hits ! hd ids \<noteq> None
         then Inr (cur div block_size spec * block_size spec, hits)
         else
           bindE (hashes_for_spec hs spec c) (\<lambda>bhl.
           bindE (find_longest_cache_hit cls bhl cur (map int ids) (c_pool c) spec (c_use_eagle c) (lcm_block_size c) 1 1) (\<lambda>hb.
             if hb = [] then Inl IndexError
             else Inr (int (length (hd hb)) * block_size spec, set_hits ids hb hits)))))"

definition is_simple_hybrid :: "coordinator \<Rightarrow> bool" where
  "is_simple_hybrid c \<longleftrightarrow> length (attention_groups c) = 2 \<and> is_full_attention (fst (hd (attention_groups c)))"

text \<open>The loop: the candidate is non-negative and shrinks in every further round, which the test on
  \<^term>\<open>nat cur < nat hit_length\<close> makes explicit.\<close>

function hit_loop :: "bytes list \<Rightarrow> coordinator \<Rightarrow> int \<Rightarrow> bref list option list \<Rightarrow> (int \<times> bref list option list) res" where
  "hit_loop hs c hit_length hits =
     (case foldE (hit_group hs c) (attention_groups c) (hit_length, hits) of
        Inl e \<Rightarrow> Inl e
      | Inr (cur, hits') \<Rightarrow>
          if cur \<ge> hit_length then Inr (hit_length, hits')
          else if is_simple_hybrid c then Inr (cur, hits')
          else if nat cur < nat hit_length then hit_loop hs c cur hits'
          else Inr (cur, hits'))"
  by pat_completeness auto
termination
  by (relation "measure (\<lambda>(hs, c, hit_length, hits). nat hit_length)") auto

declare hit_loop.simps [simp del]

definition truncate_full :: "coordinator \<Rightarrow> int \<Rightarrow> bref list option list \<Rightarrow> bref list option list" where
  "truncate_full c hit_length hits =
     (case attention_groups c of
        [] \<Rightarrow> hits
      | (spec, ids, _) # _ \<Rightarrow>
          if is_full_attention spec
          then foldl (\<lambda>h g. h[g := map_option (\<lambda>b. py_upto b (hit_length div block_size spec)) (h ! g)]) hits ids
          else hits)"

definition hybrid_find_hit :: "bytes list \<Rightarrow> int \<Rightarrow> coordinator \<Rightarrow> (bref list list \<times> int) res" where
  "hybrid_find_hit hs max_len c =
     bindE (hit_loop hs c max_len (replicate (length (kv_cache_groups (c_config c))) None)) (\<lambda>(hit_length, hits).
       Inr (map (\<lambda>h. case h of Some b \<Rightarrow> b | None \<Rightarrow> []) (truncate_full c hit_length hits), hit_length))"

definition coord_find_longest_cache_hit :: "bytes list \<Rightarrow> int \<Rightarrow> coordinator \<Rightarrow> (bref list list \<times> int) res" where
  "coord_find_longest_cache_hit hs max_len c =
     (case c_kind c of
        NoPrefixCacheCoordinator \<Rightarrow> Inr (replicate (length (managers c)) [], 0)
      | UnitaryCoordinator \<Rightarrow> unitary_find_hit hs max_len c
      | HybridCoordinator \<Rightarrow> hybrid_find_hit hs max_len c)"

end
