(* ===== verification/KV_Manager.thy ===== *)
theory KV_Manager
  imports Coordinator
begin

text \<open>
  The interface of the scheduler to the cache, \<^verbatim>\<open>KVCacheManager\<close> of src/vllm/v1/core/kv\_cache\_manager.py:
  looking up a cached prefix, checking capacity, allocating slots for the next tokens of a request, and
  freeing it. \<open>KVEmpty\<close> is the shared empty result object, which the code recognises by identity.
\<close>

datatype kv_cache_blocks = KVEmpty | KVBlocks "bref list list"

record prefix_cache_stats =
  stats_reset :: bool
  requests :: int
  queries :: int
  hits :: int
  preempted_requests :: int
  preempted_queries :: int
  preempted_hits :: int

definition new_stats :: prefix_cache_stats where
  "new_stats = \<lparr>stats_reset = False, requests = 0, queries = 0, hits = 0, preempted_requests = 0,
     preempted_queries = 0, preempted_hits = 0\<rparr>"

definition record_stats :: "int \<Rightarrow> int \<Rightarrow> bool \<Rightarrow> prefix_cache_stats \<Rightarrow> prefix_cache_stats" where
  "record_stats nt nh preempted s =
     (if preempted
      then s\<lparr>preempted_requests := preempted_requests s + 1, preempted_queries := preempted_queries s + nt,
             preempted_hits := preempted_hits s + nh\<rparr>
      else s\<lparr>requests := requests s + 1, queries := queries s + nt, hits := hits s + nh\<rparr>)"

record kv_manager =
  k_max_model_len :: int
  k_enable_caching :: bool
  k_use_eagle :: bool
  log_stats :: bool
  prefix_stats :: "prefix_cache_stats option"
  coord :: coordinator
  num_kv_cache_groups :: nat

section \<open>Results\<close>

definition kv_lists :: "kv_manager \<Rightarrow> kv_cache_blocks \<Rightarrow> bref list list" where
  "kv_lists k b = (case b of KVEmpty \<Rightarrow> replicate (num_kv_cache_groups k) [] | KVBlocks bs \<Rightarrow> bs)"

definition create_kv_cache_blocks :: "bref list list \<Rightarrow> kv_cache_blocks" where
  "create_kv_cache_blocks bs = (if list_ex (\<lambda>g. g \<noteq> []) bs then KVBlocks bs else KVEmpty)"

definition add_blocks :: "bref list list \<Rightarrow> bref list list \<Rightarrow> bref list list" where
  "add_blocks a b = map2 (@) a b"

definition blocks_ids :: "block_pool \<Rightarrow> bref list list \<Rightarrow> int list list" where
  "blocks_ids p bs = map (map (\<lambda>b. block_id (blk p b))) bs"

definition blocks_ids_or_none :: "block_pool \<Rightarrow> bref list list \<Rightarrow> int list list option" where
  "blocks_ids_or_none p bs = (if list_all (\<lambda>g. g = []) bs then None else Some (blocks_ids p bs))"

definition get_unhashed_block_ids :: "block_pool \<Rightarrow> bref list list \<Rightarrow> int list res" where
  "get_unhashed_block_ids p bs =
     assertE (length bs = 1) (Inr (map (\<lambda>b. block_id (blk p b)) (filter (\<lambda>b. hash_of p b = None) (hd bs))))"

definition get_unhashed_block_ids_all_groups :: "block_pool \<Rightarrow> bref list list \<Rightarrow> int list list" where
  "get_unhashed_block_ids_all_groups p bs =
     map (\<lambda>g. map (\<lambda>b. block_id (blk p b)) (filter (\<lambda>b. hash_of p b = None \<and> \<not> is_null (blk p b)) g)) bs"

section \<open>The manager\<close>

definition init_kv_manager ::
  "kv_cache_config \<Rightarrow> int \<Rightarrow> int \<Rightarrow> bool \<Rightarrow> bool \<Rightarrow> bool \<Rightarrow> bool \<Rightarrow> int \<Rightarrow> int \<Rightarrow> pool_env \<Rightarrow> kv_manager res" where
  "init_kv_manager cfg mml hbs caching eagle stats events dcp pcp env =
     bindE (get_kv_cache_coordinator cfg mml eagle caching events dcp pcp hbs env) (\<lambda>c.
       Inr \<lparr>k_max_model_len = mml, k_enable_caching = caching, k_use_eagle = eagle, log_stats = stats,
            prefix_stats = (if stats then Some new_stats else None), coord = c,
            num_kv_cache_groups = length (kv_cache_groups cfg)\<rparr>)"

definition pool_of :: "kv_manager \<Rightarrow> block_pool" where
  "pool_of k = c_pool (coord k)"

definition with_pool :: "block_pool \<Rightarrow> kv_manager \<Rightarrow> kv_manager" where
  "with_pool p k = k\<lparr>coord := (coord k)\<lparr>c_pool := p\<rparr>\<rparr>"

definition usage :: "kv_manager \<Rightarrow> rat" where
  "usage k = get_usage (pool_of k)"

definition make_prefix_cache_stats :: "kv_manager \<Rightarrow> prefix_cache_stats option \<times> kv_manager" where
  "make_prefix_cache_stats k =
     (if \<not> log_stats k then (None, k) else (prefix_stats k, k\<lparr>prefix_stats := Some new_stats\<rparr>))"

definition get_computed_blocks :: "request \<Rightarrow> kv_manager \<Rightarrow> ((kv_cache_blocks \<times> int) \<times> kv_manager) res" where
  "get_computed_blocks r k =
     (if \<not> k_enable_caching k \<or> skip_reading_prefix_cache r then Inr ((KVEmpty, 0), k)
      else bindE (coord_find_longest_cache_hit (block_hashes r) (num_tokens r - 1) (coord k)) (\<lambda>(computed, n).
           bindE (if log_stats k
                  then (case prefix_stats k of
                          None \<Rightarrow> Inl AssertionError
                        | Some s \<Rightarrow> Inr (k\<lparr>prefix_stats := Some (record_stats (num_tokens r) n (num_preemptions r > 0) s)\<rparr>))
                  else Inr k) (\<lambda>k'.
             Inr ((create_kv_cache_blocks computed, n), k'))))"

definition can_fit_full_sequence ::
  "request \<Rightarrow> int \<Rightarrow> kv_cache_blocks option \<Rightarrow> int \<Rightarrow> int \<Rightarrow> kv_manager \<Rightarrow> (bool \<times> kv_manager) res" where
  "can_fit_full_sequence r nnew computed next n_enc k =
     (let lists = kv_lists k (case computed of Some b \<Rightarrow> b | None \<Rightarrow> KVEmpty);
          nlocal = num_computed_tokens r + nnew;
          tot = min (nlocal + next) (k_max_model_len k);
          full = min (num_tokens r) (k_max_model_len k)
      in bindE (coord_num_blocks_to_allocate (request_id r) full lists n_enc tot full (coord k)) (\<lambda>(n, c).
           Inr (n \<le> get_num_free_blocks (c_pool c), k\<lparr>coord := c\<rparr>)))"

definition allocate_slots ::
  "request \<Rightarrow> int \<Rightarrow> int \<Rightarrow> kv_cache_blocks option \<Rightarrow> int \<Rightarrow> int \<Rightarrow> bool \<Rightarrow> int \<Rightarrow> kv_manager \<Rightarrow>
   (kv_cache_blocks option \<times> request \<times> kv_manager) res" where
  "allocate_slots r n_new nnc computed n_look n_ext delay n_enc k =
     (if n_new = 0 \<and> n_ext = 0 then Inl ValueError
      else
        (let cb = (case computed of Some b \<Rightarrow> b | None \<Rightarrow> KVEmpty);
             lists = kv_lists k cb;
             rid = request_id r;
             nlocal = num_computed_tokens r + nnc;
             tot = min (nlocal + n_ext) (k_max_model_len k);
             nt_main = tot + n_new;
             nt_slot = min (nt_main + n_look) (k_max_model_len k)
         in bindE (coord_remove_skipped_blocks rid tot (coord k)) (\<lambda>c1.
            bindE (coord_num_blocks_to_allocate rid nt_slot lists n_enc (nlocal + n_ext) nt_main c1) (\<lambda>(n, c2).
            if n > get_num_free_blocks (c_pool c2) then Inr (None, r, k\<lparr>coord := c2\<rparr>)
            else
              bindE (if cb \<noteq> KVEmpty \<or> n_ext > 0
                     then coord_allocate_new_computed_blocks rid lists nlocal n_ext c2 else Inr c2) (\<lambda>c3.
              bindE (coord_allocate_new_blocks rid nt_slot nt_main n_enc c3) (\<lambda>(new, c4).
                if \<not> k_enable_caching k \<or> delay
                then Inr (Some (create_kv_cache_blocks new), r, k\<lparr>coord := c4\<rparr>)
                else bindE (coord_cache_blocks r (min (tot + n_new) (num_tokens r)) c4) (\<lambda>(c5, r').
                       Inr (Some (create_kv_cache_blocks new), r', k\<lparr>coord := c5\<rparr>))))))))"

definition kv_free :: "request \<Rightarrow> kv_manager \<Rightarrow> kv_manager res" where
  "kv_free r k = bindE (coord_free (request_id r) (coord k)) (\<lambda>c. Inr (k\<lparr>coord := c\<rparr>))"

definition kv_remove_skipped_blocks :: "req_id \<Rightarrow> int \<Rightarrow> kv_manager \<Rightarrow> kv_manager res" where
  "kv_remove_skipped_blocks rid tot k =
     bindE (coord_remove_skipped_blocks rid tot (coord k)) (\<lambda>c. Inr (k\<lparr>coord := c\<rparr>))"

definition kv_evict_blocks :: "int list \<Rightarrow> kv_manager \<Rightarrow> kv_manager res" where
  "kv_evict_blocks ids k = bindE (evict_blocks ids (pool_of k)) (\<lambda>p. Inr (with_pool p k))"

definition kv_reset_prefix_cache :: "kv_manager \<Rightarrow> (bool \<times> kv_manager) res" where
  "kv_reset_prefix_cache k =
     (let (ok, p) = reset_prefix_cache (pool_of k); k1 = with_pool p k
      in if \<not> ok then Inr (False, k1)
         else if log_stats k1
         then (case prefix_stats k1 of
                 None \<Rightarrow> Inl AssertionError
               | Some s \<Rightarrow> Inr (True, k1\<lparr>prefix_stats := Some (s\<lparr>stats_reset := True\<rparr>)\<rparr>))
         else Inr (True, k1))"

definition kv_num_common_prefix_blocks :: "req_id \<Rightarrow> kv_manager \<Rightarrow> (int list \<times> kv_manager) res" where
  "kv_num_common_prefix_blocks rid k =
     bindE (coord_num_common_prefix_blocks rid (coord k)) (\<lambda>(ns, c). Inr (ns, k\<lparr>coord := c\<rparr>))"

definition kv_take_events :: "kv_manager \<Rightarrow> kv_cache_event list \<times> kv_manager" where
  "kv_take_events k = (let (es, p) = take_events (pool_of k) in (es, with_pool p k))"

definition kv_get_blocks :: "req_id \<Rightarrow> kv_manager \<Rightarrow> kv_cache_blocks" where
  "kv_get_blocks rid k = create_kv_cache_blocks (coord_get_blocks rid (coord k))"

definition kv_get_block_ids :: "req_id \<Rightarrow> kv_manager \<Rightarrow> int list list" where
  "kv_get_block_ids rid k = blocks_ids (pool_of k) (kv_lists k (kv_get_blocks rid k))"

definition kv_cache_blocks_of :: "request \<Rightarrow> int \<Rightarrow> kv_manager \<Rightarrow> (request \<times> kv_manager) res" where
  "kv_cache_blocks_of r n k =
     (if k_enable_caching k then bindE (coord_cache_blocks r n (coord k)) (\<lambda>(c, r'). Inr (r', k\<lparr>coord := c\<rparr>))
      else Inr (r, k))"

definition kv_take_new_block_ids :: "kv_manager \<Rightarrow> int list \<times> kv_manager" where
  "kv_take_new_block_ids k =
     (let c = coord k
      in (concat (map new_block_ids (managers c)),
          k\<lparr>coord := c\<lparr>managers := map (\<lambda>m. snd (take_new_block_ids m)) (managers c)\<rparr>\<rparr>))"

definition kv_new_step_starts :: "kv_manager \<Rightarrow> kv_manager" where
  "kv_new_step_starts k = k\<lparr>coord := coord_new_step_starts (coord k)\<rparr>"

end
