(* ===== verification/Coord_Inv.thy ===== *)
theory Coord_Inv
  imports KV_Manager
begin

text \<open>
  The invariant of the whole cache: one pool shared by the managers of all groups. \<open>sys_ok\<close> says that the
  reference count of every block is exactly the number of times it is held, over all managers and requests.
  The locale \<open>manager_pass\<close> is the contract between the coordinator and one operation of a manager: what the
  operation does beside the pool is enough for the loop over all managers.
\<close>

section \<open>The books of all managers\<close>

definition total_holds :: "manager list \<Rightarrow> bref \<Rightarrow> int" where
  "total_holds ms b = (\<Sum>m\<leftarrow>ms. holds m b)"

definition sys_ok :: "manager list \<Rightarrow> block_pool \<Rightarrow> bool" where
  "sys_ok ms p \<longleftrightarrow> pool_inv p \<and> (\<forall>m\<in>set ms. manager_ok p m \<and> fresh_tail p m) \<and>
     (\<forall>b\<in>usable p. ref_of p b = total_holds ms b) \<and> (enable_caching p \<or> (\<forall>b. hash_of p b = None))"

lemma total_holds_simps [simp]: "total_holds [] b = 0" "total_holds (m # ms) b = holds m b + total_holds ms b"
  "total_holds (xs @ ys) b = total_holds xs b + total_holds ys b"
  by (simp_all add: total_holds_def)

lemma total_holds_nonneg: "0 \<le> total_holds ms b"
  using hold_sum_nonneg by (induction ms) (simp_all add: add_nonneg_nonneg)

lemma total_holds_ge: "m \<in> set ms \<Longrightarrow> holds m b \<le> total_holds ms b"
proof (induction ms)
  case (Cons n ms)
  then show ?case using total_holds_nonneg [of ms b] hold_sum_nonneg [of "req_to_blocks n" b] by auto
qed simp

lemma sys_books: "sys_ok ms p \<Longrightarrow> m \<in> set ms \<Longrightarrow> books_ok m p"
  using total_holds_ge [of m ms] by (auto simp: sys_ok_def books_ok_def)

lemma manager_ok_config: "config p' = config p \<Longrightarrow> manager_ok p' m = manager_ok p m"
  by (simp add: manager_ok_def config_eqD [of p' p])

lemma sys_step:
  assumes S: "sys_ok (xs @ m # ys) p" and st: "step_ok m p m' p'"
  shows "sys_ok (xs @ m' # ys) p'"
proof -
  note A = st [unfolded step_ok_def] and B' = books_okD [OF step_okD(1) [OF st]]
  note C = step_okD(2) [OF st]
  have u: "usable p' = usable p" and ec: "enable_caching p' = enable_caching p" using config_eqD [OF C] by simp_all
  have tot: "ref_of p b = holds m b + total_holds (xs @ ys) b" if "b \<in> usable p" for b
    using S that by (simp add: sys_ok_def)
  have other: "fresh_tail p' n" if n: "n \<in> set (xs @ ys)" for n
    unfolding fresh_tail_def
  proof (intro allI impI)
    fix rid i
    assume i: "num_cached rid n \<le> int i" "i < length (blocks_get rid n)" "blocks_get rid n ! i \<noteq> Blk 0"
    let ?b = "blocks_get rid n ! i"
    have nin: "n \<in> set (xs @ m # ys)" using n by auto
    note u1 = usable_count [OF sys_books [OF S nin] nth_mem [OF i(2)] i(3)]
    have f: "ref_of p ?b = 1" "hash_of p ?b = None"
      using S nin i unfolding sys_ok_def fresh_tail_def by blast+
    have "1 \<le> total_holds (xs @ ys) ?b" using total_holds_ge [OF n, of ?b] holds_ge [of rid n ?b] u1(3) by simp
    then have "holds m ?b = 0" using tot [OF u1(1)] f(1) hold_sum_nonneg [of "req_to_blocks m" ?b] by simp
    then show "ref_of p' ?b = 1 \<and> hash_of p' ?b = None" using A u1(1) f by auto
  qed
  have "ref_of p' b = total_holds (xs @ m' # ys) b" if "b \<in> usable p" for b
  proof -
    have "ref_of p' b - holds m' b = ref_of p b - holds m b" using A that by blast
    then show ?thesis using tot [OF that] by simp
  qed
  moreover have "manager_ok p' n" if "n \<in> set (xs @ ys)" for n
    using S that manager_ok_config [OF C] by (auto simp: sys_ok_def)
  ultimately show ?thesis unfolding sys_ok_def u using other B'(1-3) B'(5) by auto
qed

section \<open>One pass over the managers\<close>

text \<open>The part of the coordinator that no operation changes.\<close>

definition frame ::
  "coordinator \<Rightarrow> coordinator_kind \<times> kv_cache_config \<times> int \<times> bool \<times> bool \<times> int \<times> int \<times> int \<times> attention_group list \<times> int" where
  "frame c = (c_kind c, c_config c, c_max_model_len c, c_enable_caching c, c_use_eagle c, c_hash_block_size c,
     c_dcp c, c_pcp c, attention_groups c, lcm_block_size c)"

lemma frame_update [simp]: "frame (c\<lparr>managers := ms, c_pool := p\<rparr>) = frame c"
  by (simp add: frame_def)

text \<open>Everything but the books of the managers and the contents of the pool is fixed.\<close>

definition same_shape :: "coordinator \<Rightarrow> coordinator \<Rightarrow> bool" where
  "same_shape c c' \<longleftrightarrow> frame c' = frame c \<and> config (c_pool c') = config (c_pool c)
     \<and> length (managers c') = length (managers c)
     \<and> (\<forall>j<length (managers c). static (managers c' ! j) = static (managers c ! j))"

lemma same_shape_refl [simp]: "same_shape c c"
  by (simp add: same_shape_def)

lemma same_shape_trans: "same_shape a b \<Longrightarrow> same_shape b c \<Longrightarrow> same_shape a c"
  by (simp add: same_shape_def)

text \<open>\<open>R i ms p\<close> is what the remaining managers (from position \<open>i\<close> on) need of the pool; \<open>Q\<close> relates a manager
  before and after its turn.\<close>

locale manager_pass =
  fixes f :: "nat \<Rightarrow> manager \<Rightarrow> block_pool \<Rightarrow> ('a \<times> manager \<times> block_pool) res"
    and R :: "nat \<Rightarrow> manager list \<Rightarrow> block_pool \<Rightarrow> bool"
    and Q :: "nat \<Rightarrow> manager \<Rightarrow> 'a \<Rightarrow> manager \<Rightarrow> bool"
  assumes turn: "books_ok m p \<Longrightarrow> R i (m # ms) p \<Longrightarrow>
    \<exists>a m' p'. f i m p = Inr (a, m', p') \<and> step_ok m p m' p' \<and> Q i m a m' \<and> R (Suc i) ms p'"
begin

lemma pass:
  assumes "sys_ok (xs @ ms) p" "R i ms p"
  shows "\<exists>as ms' p'. each_manager f i ms p = Inr (as, ms', p') \<and> sys_ok (xs @ ms') p' \<and> config p' = config p
    \<and> length as = length ms \<and> length ms' = length ms \<and> R (i + length ms) [] p'
    \<and> (\<forall>j<length ms. static (ms' ! j) = static (ms ! j) \<and> Q (i + j) (ms ! j) (as ! j) (ms' ! j))"
  using assms
proof (induction ms arbitrary: xs p i)
  case Nil
  then show ?case by simp
next
  case (Cons m ms)
  obtain a m' p1 where m: "f i m p = Inr (a, m', p1)" "step_ok m p m' p1" "Q i m a m'" "R (Suc i) ms p1"
    using turn [OF sys_books [OF Cons.prems(1)] Cons.prems(2)] by auto
  have "sys_ok ((xs @ [m']) @ ms) p1" using sys_step [OF Cons.prems(1) m(2)] by simp
  from Cons.IH [OF this m(4)] obtain as ms' p' where r: "each_manager f (Suc i) ms p1 = Inr (as, ms', p')"
    "sys_ok (xs @ m' # ms') p'" "config p' = config p1" "length as = length ms" "length ms' = length ms"
    "R (Suc i + length ms) [] p'"
    "\<And>j. j < length ms \<Longrightarrow> static (ms' ! j) = static (ms ! j) \<and> Q (Suc i + j) (ms ! j) (as ! j) (ms' ! j)"
    by auto
  have "static ((m' # ms') ! j) = static ((m # ms) ! j) \<and> Q (i + j) ((m # ms) ! j) ((a # as) ! j) ((m' # ms') ! j)"
    if "j < length (m # ms)" for j
    using r(7) [of "j - 1"] step_okD(3) [OF m(2)] m(3) that by (cases j) auto
  then show ?case using m(1) r(1-6) step_okD(2) [OF m(2)] by auto
qed

lemma pass_on:
  assumes "sys_ok (managers c) (c_pool c)" "R 0 (managers c) (c_pool c)"
  shows "\<exists>as c'. on_managers f c = Inr (as, c') \<and> sys_ok (managers c') (c_pool c') \<and> same_shape c c'
    \<and> length as = length (managers c) \<and> R (length (managers c)) [] (c_pool c')
    \<and> (\<forall>j<length (managers c). Q j (managers c ! j) (as ! j) (managers c' ! j))"
proof -
  obtain as ms' p' where r: "each_manager f 0 (managers c) (c_pool c) = Inr (as, ms', p')" "sys_ok ms' p'"
    "config p' = config (c_pool c)" "length as = length (managers c)" "length ms' = length (managers c)"
    "R (length (managers c)) [] p'"
    "\<forall>j<length (managers c). static (ms' ! j) = static (managers c ! j) \<and> Q j (managers c ! j) (as ! j) (ms' ! j)"
    using pass [where xs = "[]" and i = 0, OF _ assms(2)] assms(1) by auto
  show ?thesis
    by (intro exI [of _ as] exI [of _ "c\<lparr>managers := ms', c_pool := p'\<rparr>"]) (use r in \<open>simp add: on_managers_def same_shape_def\<close>)
qed

end

section \<open>Freeing a request and giving back skipped blocks\<close>

lemma books_ok_cong:
  assumes "static m' = static m" "req_to_blocks m' = req_to_blocks m" "num_cached_block m' = num_cached_block m"
  shows "books_ok m' p = books_ok m p" "step_ok m' p n q = step_ok m p n q"
proof -
  have g: "blocks_get rid m' = blocks_get rid m" "num_cached rid m' = num_cached rid m" for rid
    using assms by (simp_all add: blocks_get_def num_cached_def)
  show "books_ok m' p = books_ok m p"
    using static_eqD [OF assms(1)] g assms(2) by (simp add: books_ok_def manager_ok_def fresh_tail_def)
  show "step_ok m' p n q = step_ok m p n q" using assms by (simp add: step_ok_def)
qed

lemma free_request_step:
  assumes "books_ok m p"
  shows "\<exists>m' p'. free_request_blocks rid m p = Inr (m', p') \<and> step_ok m p m' p' \<and> num_cached_block m' rid = None
    \<and> req_to_blocks m' = dict_del rid (req_to_blocks m)"
proof -
  let ?m = "if m_class m = MambaManager \<and> align_mode m
        then m\<lparr>allocated_block_reqs := removeAll rid (allocated_block_reqs m),
               last_state_block_idx := (last_state_block_idx m)(rid := None)\<rparr>
        else m"
  have c: "static ?m = static m" "req_to_blocks ?m = req_to_blocks m" "num_cached_block ?m = num_cached_block m"
    by (simp_all add: static_def)
  show ?thesis
    using base_free_step [of ?m p rid] assms unfolding books_ok_cong [OF c] c free_request_blocks_def by blast
qed

interpretation free_pass: manager_pass
  "\<lambda>i m p. bindE (free_request_blocks rid m p) (\<lambda>(m', p'). Inr ((), m', p'))"
  "\<lambda>i ms p. True"
  "\<lambda>i m a m'. num_cached_block m' rid = None \<and> req_to_blocks m' = dict_del rid (req_to_blocks m)"
  for rid
proof
  show "\<exists>a m' p'. bindE (free_request_blocks rid m p) (\<lambda>(m', p'). Inr ((), m', p')) = Inr (a, m', p') \<and> step_ok m p m' p'
      \<and> (num_cached_block m' rid = None \<and> req_to_blocks m' = dict_del rid (req_to_blocks m)) \<and> True"
    if "books_ok m p" for m p i ms
    using free_request_step [OF that, of rid] by auto
qed

text \<open>\<open>kept_blocks\<close>: a block list after blocks that left the window were replaced by null.\<close>

definition kept_blocks :: "int \<Rightarrow> bref list \<Rightarrow> bref list \<Rightarrow> bool" where
  "kept_blocks n bs bs' \<longleftrightarrow> length bs' = length bs \<and>
     (\<forall>k<length bs. bs' ! k = bs ! k \<or> bs' ! k = Blk 0 \<and> int k < n)"

abbreviation skipped_blocks :: "manager \<Rightarrow> int \<Rightarrow> int" where
  "skipped_blocks m t \<equiv> get_num_skipped_tokens m t div m_block_size m"

interpretation skip_pass: manager_pass
  "\<lambda>i m p. bindE (remove_skipped_blocks rid t m p) (\<lambda>(m', p'). Inr ((), m', p'))"
  "\<lambda>i ms p. (\<forall>m\<in>set ms. m_class m \<noteq> MambaManager) \<and> (\<forall>b. hash_of p b = H b)"
  "\<lambda>i m a m'. num_cached_block m' = num_cached_block m
     \<and> kept_blocks (skipped_blocks m t) (blocks_get rid m) (blocks_get rid m')"
  for rid t H
proof
  show "\<exists>a m' p'. bindE (remove_skipped_blocks rid t m p) (\<lambda>(m', p'). Inr ((), m', p')) = Inr (a, m', p') \<and> step_ok m p m' p'
      \<and> (num_cached_block m' = num_cached_block m \<and> kept_blocks (skipped_blocks m t) (blocks_get rid m) (blocks_get rid m'))
      \<and> (\<forall>m\<in>set ms. m_class m \<noteq> MambaManager) \<and> (\<forall>b. hash_of p' b = H b)"
    if "books_ok m p" "(\<forall>m\<in>set (m # ms). m_class m \<noteq> MambaManager) \<and> (\<forall>b. hash_of p b = H b)" for m p i ms
    using base_remove_skipped_step [OF that(1), of rid t] that(2)
    by (auto simp: remove_skipped_blocks_def kept_blocks_def)
qed

section \<open>New blocks for a request in all groups\<close>

definition grow :: "req_id \<Rightarrow> int \<Rightarrow> int \<Rightarrow> manager \<Rightarrow> int" where
  "grow rid nt n_enc m =
     max 0 (cdiv (if is_cross m then n_enc else nt) (m_block_size m) - int (length (blocks_get rid m)))"

interpretation new_pass: manager_pass
  "\<lambda>i m p. allocate_new_blocks rid (if is_cross m then n_enc else nt) nt_main m p"
  "\<lambda>i ms p. (\<forall>m\<in>set ms. m_class m \<noteq> MambaManager) \<and> 0 \<le> K
     \<and> int (length (free_of p)) = K + (\<Sum>m\<leftarrow>ms. grow rid nt n_enc m)"
  "\<lambda>i m a m'. blocks_get rid m' = blocks_get rid m @ a \<and> int (length a) = grow rid nt n_enc m
     \<and> num_cached_block m' = num_cached_block m"
  for rid nt nt_main n_enc K
proof
  fix m p i ms
  assume B: "books_ok m p"
    and R: "(\<forall>m\<in>set (m # ms). m_class m \<noteq> MambaManager) \<and> 0 \<le> K
      \<and> int (length (free_of p)) = K + (\<Sum>m\<leftarrow>m # ms. grow rid nt n_enc m)"
  let ?nt = "if is_cross m then n_enc else nt"
  define need where "need = cdiv ?nt (m_block_size m) - int (length (blocks_get rid m))"
  have g: "grow rid nt n_enc m = max 0 need" by (simp add: grow_def need_def)
  have "0 \<le> (\<Sum>m\<leftarrow>ms. grow rid nt n_enc m)" by (rule sum_list_nonneg) (auto simp: grow_def)
  moreover have "int (length (free_of p)) = K + (max 0 need + (\<Sum>m\<leftarrow>ms. grow rid nt n_enc m))" "0 \<le> K"
    using R g by auto
  ultimately have "need \<le> int (length (free_of p))" by linarith
  then have len: "int (length (take (nat need) (free_of p))) = max 0 need"
    "int (length (free_of p) - nat need) = int (length (free_of p)) - max 0 need" by simp_all
  obtain m' p' where "base_allocate_new_blocks rid ?nt m p = Inr (take (nat need) (free_of p), m', p')" "step_ok m p m' p'"
    "blocks_get rid m' = blocks_get rid m @ take (nat need) (free_of p)"
    "num_cached_block m' = num_cached_block m" "free_of p' = drop (nat need) (free_of p)"
    using base_allocate_new_blocks_step [OF B, where nt = ?nt and rid = rid] \<open>need \<le> int (length (free_of p))\<close>
    unfolding need_def by auto
  then show "\<exists>a m' p'. allocate_new_blocks rid ?nt nt_main m p = Inr (a, m', p') \<and> step_ok m p m' p'
      \<and> (blocks_get rid m' = blocks_get rid m @ a \<and> int (length a) = grow rid nt n_enc m \<and> num_cached_block m' = num_cached_block m)
      \<and> ((\<forall>m\<in>set ms. m_class m \<noteq> MambaManager) \<and> 0 \<le> K \<and> int (length (free_of p')) = K + (\<Sum>m\<leftarrow>ms. grow rid nt n_enc m))"
    using R g len by (simp add: allocate_new_blocks_def del: length_take)
qed

section \<open>Prefix-cache hits of a new request in all groups\<close>

text \<open>Blocks for tokens that a connector will load, behind the hits of the own cache.\<close>

definition ext_blocks :: "int \<Rightarrow> int \<Rightarrow> manager \<Rightarrow> bref list \<Rightarrow> int" where
  "ext_blocks nl ne m c =
     (if ne > 0 \<and> (lead_nulls m (nl + ne) = 0 \<or> nl + ne > get_num_skipped_tokens m (nl + ne))
      then cdiv (nl + ne) (m_block_size m) - int (lead_nulls m (nl + ne)) - int (length (kept_hits m c (nl + ne))) else 0)"

definition adopt_cost :: "int \<Rightarrow> int \<Rightarrow> block_pool \<Rightarrow> manager \<times> bref list \<Rightarrow> int" where
  "adopt_cost nl ne p mc =
     (case mc of (m, c) \<Rightarrow> get_num_evictable_blocks p (kept_hits m c (nl + ne)) + ext_blocks nl ne m c)"

definition adoptable :: "req_id \<Rightarrow> int \<Rightarrow> int \<Rightarrow> block_pool \<Rightarrow> manager \<times> bref list \<Rightarrow> bool" where
  "adoptable rid nl ne p mc =
     (case mc of (m, c) \<Rightarrow> m_class m \<notin> {MambaManager, CrossAttentionManager} \<and> hits_ok p c \<and> (enable_caching p \<or> c = [])
        \<and> num_cached_block m rid = None \<and> blocks_get rid m = [] \<and> 0 \<le> ext_blocks nl ne m c)"

definition disjoint_hits :: "bref list list \<Rightarrow> bool" where
  "disjoint_hits cs \<longleftrightarrow> distinct (concat (map nonnull cs))"

lemma evictable_hits:
  "pool_inv p \<Longrightarrow> hits_ok p c \<Longrightarrow>
     get_num_evictable_blocks p c = int (length (free_of p)) - int (length (filter (\<lambda>b. b \<notin> set c) (free_of p)))"
  by (rule evictable_count) (auto simp: hits_ok_def)

lemma adopt_step:
  assumes B: "books_ok m p" and A: "adoptable rid nl ne p (m, c)" and cost: "adopt_cost nl ne p (m, c) \<le> int (length (free_of p))"
  shows "\<exists>m' p'. allocate_new_computed_blocks rid c nl ne m p = Inr (m', p') \<and> step_ok m p m' p'
    \<and> (\<exists>new. blocks_get rid m' = replicate (lead_nulls m (nl + ne)) (Blk 0) @ kept_hits m c (nl + ne) @ new
         \<and> int (length new) = ext_blocks nl ne m c)
    \<and> num_cached rid m' \<le> int (lead_nulls m (nl + ne)) + int (length (kept_hits m c (nl + ne)))
    \<and> free_of p' = drop (nat (ext_blocks nl ne m c)) (filter (\<lambda>b. b \<notin> set (kept_hits m c (nl + ne))) (free_of p))
    \<and> (ne \<le> 0 \<longrightarrow> (\<forall>b. hash_of p' b = hash_of p b))"
proof -
  let ?kept = "kept_hits m c (nl + ne)"
  have a: "m_class m \<noteq> CrossAttentionManager" "hits_ok p c" "enable_caching p \<or> c = []" "num_cached_block m rid = None"
    "blocks_get rid m = []" "0 \<le> ext_blocks nl ne m c" using A by (auto simp: adoptable_def)
  have hk: "hits_ok p ?kept" unfolding kept_hits_def by (rule hits_ok_drop [OF a(2)])
  then have "get_num_evictable_blocks p ?kept = int (length (free_of p)) - int (length (filter (\<lambda>b. b \<notin> set ?kept) (free_of p)))"
    by (rule evictable_hits [OF books_okD(1) [OF B]])
  then have room: "ext_blocks nl ne m c \<le> int (length (filter (\<lambda>b. b \<notin> set ?kept) (free_of p)))"
    using cost by (simp add: adopt_cost_def)
  then have "int (length (take (nat (ext_blocks nl ne m c)) (filter (\<lambda>b. b \<notin> set ?kept) (free_of p)))) = ext_blocks nl ne m c"
    using a(6) by simp
  then show ?thesis
    using base_allocate_computed_step [OF B a(2-5), where nl = nl and ne = ne, folded ext_blocks_def, OF a(6) room] a(1)
    unfolding allocate_new_computed_blocks_def by auto
qed

text \<open>The cost of a later group is not changed by the adoption of disjoint hits.\<close>

lemma adopt_cost_other:
  assumes P: "pool_inv p" "pool_inv p'" "config p' = config p" and h: "hits_ok p c" "hits_ok p' c"
    and f: "free_of p' = filter (\<lambda>b. b \<notin> set ks) (free_of p)" and d: "set (nonnull ks) \<inter> set (nonnull c) = {}"
  shows "adopt_cost nl ne p' (m, c) = adopt_cost nl ne p (m, c)"
proof -
  let ?kept = "kept_hits m c (nl + ne)"
  have k: "hits_ok p ?kept" "hits_ok p' ?kept" unfolding kept_hits_def using h hits_ok_drop by blast+
  have e: "get_num_evictable_blocks q ?kept = int (length (filter (\<lambda>b. b \<in> set ?kept) (free_of q)))"
    if "pool_inv q" "hits_ok q ?kept" for q
    using evictable_hits [OF that] sum_length_filter_compl [of "\<lambda>b. b \<in> set ?kept" "free_of q"] by simp
  have "b \<notin> set ks" if "b \<in> set (free_of p)" "b \<in> set ?kept" for b
  proof -
    have "b \<noteq> Blk 0" using that(1) pool_exceptD(4) [OF P(1)] usable_not_null by auto
    moreover have "b \<in> set c" using that(2) by (auto simp: kept_hits_def dest: in_set_dropD)
    ultimately show ?thesis using d by auto
  qed
  then have "filter (\<lambda>b. b \<in> set ?kept) (free_of p') = filter (\<lambda>b. b \<in> set ?kept) (free_of p)"
    unfolding f filter_filter by (intro filter_cong) auto
  then show ?thesis using e [OF P(1) k(1)] e [OF P(2) k(2)] by (simp add: adopt_cost_def)
qed

definition all_adoptable :: "req_id \<Rightarrow> int \<Rightarrow> int \<Rightarrow> bref list list \<Rightarrow> int \<Rightarrow> nat \<Rightarrow> manager list \<Rightarrow> block_pool \<Rightarrow> bool" where
  "all_adoptable rid nl ne cs K i ms p \<longleftrightarrow>
     length (drop i cs) = length ms \<and> disjoint_hits (drop i cs) \<and> (ne \<le> 0 \<or> length ms \<le> 1) \<and> 0 \<le> K
     \<and> (\<forall>mc\<in>set (zip ms (drop i cs)). adoptable rid nl ne p mc)
     \<and> int (length (free_of p)) = K + (\<Sum>mc\<leftarrow>zip ms (drop i cs). adopt_cost nl ne p mc)"

lemma adopt_cost_nonneg: "adoptable rid nl ne p mc \<Longrightarrow> 0 \<le> adopt_cost nl ne p mc"
  by (auto simp: adoptable_def adopt_cost_def get_num_evictable_blocks_def split: prod.splits)

lemma hits_ok_hash: "hits_ok p c \<Longrightarrow> \<forall>b. hash_of p' b = hash_of p b \<Longrightarrow> config p' = config p \<Longrightarrow> hits_ok p' c"
  by (simp add: hits_ok_def config_eqD(6) [of p' p])

lemma adopt_turn:
  assumes B: "books_ok m p" and R: "all_adoptable rid nl ne cs K i (m # ms) p"
  shows "\<exists>m' p'. nth_or_raise cs i = Inr (cs ! i) \<and> allocate_new_computed_blocks rid (cs ! i) nl ne m p = Inr (m', p')
    \<and> step_ok m p m' p'
    \<and> (\<exists>new. blocks_get rid m' = replicate (lead_nulls m (nl + ne)) (Blk 0) @ kept_hits m (cs ! i) (nl + ne) @ new
         \<and> int (length new) = ext_blocks nl ne m (cs ! i))
    \<and> num_cached rid m' \<le> int (lead_nulls m (nl + ne)) + int (length (kept_hits m (cs ! i) (nl + ne)))
    \<and> all_adoptable rid nl ne cs K (Suc i) ms p'"
proof -
  let ?c = "cs ! i" and ?kept = "kept_hits m (cs ! i) (nl + ne)"
  note R' = R [unfolded all_adoptable_def]
  have len: "length (drop i cs) = Suc (length ms)" using R' by simp
  then have i: "i < length cs" by simp
  have cs: "drop i cs = ?c # drop (Suc i) cs" using i by (simp add: Cons_nth_drop_Suc)
  have A: "adoptable rid nl ne p (m, ?c)" and As: "\<forall>mc\<in>set (zip ms (drop (Suc i) cs)). adoptable rid nl ne p mc"
    using R' unfolding cs by auto
  let ?rest = "\<Sum>mc\<leftarrow>zip ms (drop (Suc i) cs). adopt_cost nl ne p mc"
  have eq: "int (length (free_of p)) = K + (adopt_cost nl ne p (m, ?c) + ?rest)" and K: "0 \<le> K"
    using R' unfolding cs by simp_all
  have "0 \<le> ?rest" by (rule sum_list_nonneg) (use As adopt_cost_nonneg in auto)
  then have cost: "adopt_cost nl ne p (m, ?c) \<le> int (length (free_of p))" using eq K by linarith
  obtain m' p' where s: "allocate_new_computed_blocks rid ?c nl ne m p = Inr (m', p')" "step_ok m p m' p'"
    "\<exists>new. blocks_get rid m' = replicate (lead_nulls m (nl + ne)) (Blk 0) @ ?kept @ new \<and> int (length new) = ext_blocks nl ne m ?c"
    "num_cached rid m' \<le> int (lead_nulls m (nl + ne)) + int (length ?kept)"
    "free_of p' = drop (nat (ext_blocks nl ne m ?c)) (filter (\<lambda>b. b \<notin> set ?kept) (free_of p))"
    "ne \<le> 0 \<longrightarrow> (\<forall>b. hash_of p' b = hash_of p b)"
    using adopt_step [OF B A cost] by blast
  have P: "pool_inv p" "pool_inv p'" "config p' = config p"
    using books_okD(1) [OF B] books_okD(1) [OF step_okD(1) [OF s(2)]] step_okD(2) [OF s(2)] by blast+
  have ext0: "0 \<le> ext_blocks nl ne m ?c" and hc: "hits_ok p ?c" using A by (simp_all add: adoptable_def)
  have hk: "hits_ok p ?kept" unfolding kept_hits_def by (rule hits_ok_drop [OF hc])
  then have ev: "get_num_evictable_blocks p ?kept = int (length (free_of p)) - int (length (filter (\<lambda>b. b \<notin> set ?kept) (free_of p)))"
    by (rule evictable_hits [OF P(1)])
  then have fl: "int (length (free_of p')) = int (length (free_of p)) - adopt_cost nl ne p (m, ?c)"
    unfolding s(5) using ext0 cost by (simp add: adopt_cost_def)
  have dis: "disjoint_hits (drop (Suc i) cs)" using R' unfolding cs by (simp add: disjoint_hits_def)
  have one: "adoptable rid nl ne p' mc \<and> adopt_cost nl ne p' mc = adopt_cost nl ne p mc" if mc: "mc \<in> set (zip ms (drop (Suc i) cs))" for mc
  proof -
    have ne: "ne \<le> 0" using R' mc by (cases ms) auto
    obtain n d where nd: "mc = (n, d)" "d \<in> set (drop (Suc i) cs)" using mc by (metis surj_pair set_zip_rightD)
    have an: "adoptable rid nl ne p (n, d)" using As mc nd(1) by blast
    then have hd: "hits_ok p d" by (simp add: adoptable_def)
    have hd': "hits_ok p' d" using hits_ok_hash [OF hd _ P(3)] s(6) ne by blast
    have "set (nonnull ?c) \<inter> set (nonnull d) = {}"
      using R' nd(2) unfolding cs by (auto simp: disjoint_hits_def)
    then have "set (nonnull ?kept) \<inter> set (nonnull d) = {}" by (auto simp: kept_hits_def dest: in_set_dropD)
    then have "adopt_cost nl ne p' (n, d) = adopt_cost nl ne p (n, d)"
      using ne s(5) by (intro adopt_cost_other [OF P hd hd']) (auto simp: ext_blocks_def)
    then show ?thesis using an hd' nd(1) config_eqD(2) [OF P(3)] by (simp add: adoptable_def)
  qed
  have "all_adoptable rid nl ne cs K (Suc i) ms p'"
    unfolding all_adoptable_def
  proof (intro conjI)
    show "length (drop (Suc i) cs) = length ms" using len by simp
    show "disjoint_hits (drop (Suc i) cs)" by (rule dis)
    show "ne \<le> 0 \<or> length ms \<le> 1" using R' by auto
    show "0 \<le> K" by (rule K)
    show "\<forall>mc\<in>set (zip ms (drop (Suc i) cs)). adoptable rid nl ne p' mc" using one by blast
    have "(\<Sum>mc\<leftarrow>zip ms (drop (Suc i) cs). adopt_cost nl ne p' mc) = ?rest"
      using one by (intro arg_cong [where f = sum_list] map_cong) auto
    then show "int (length (free_of p')) = K + (\<Sum>mc\<leftarrow>zip ms (drop (Suc i) cs). adopt_cost nl ne p' mc)" using fl eq by simp
  qed
  then show ?thesis using s i by (auto simp: nth_or_raise_def)
qed

interpretation adopt_pass: manager_pass
  "\<lambda>i m p. bindE (nth_or_raise cs i) (\<lambda>nc. bindE (allocate_new_computed_blocks rid nc nl ne m p) (\<lambda>(m', p'). Inr ((), m', p')))"
  "all_adoptable rid nl ne cs K"
  "\<lambda>i m a m'. (\<exists>new. blocks_get rid m' = replicate (lead_nulls m (nl + ne)) (Blk 0) @ kept_hits m (cs ! i) (nl + ne) @ new
         \<and> int (length new) = ext_blocks nl ne m (cs ! i))
     \<and> num_cached rid m' \<le> int (lead_nulls m (nl + ne)) + int (length (kept_hits m (cs ! i) (nl + ne)))"
  for rid nl ne cs K
  by unfold_locales (use adopt_turn in fastforce)

section \<open>Caching the full blocks in all groups\<close>

lemma length_hashes_for:
  assumes "0 < hbs" "0 < bs" "hbs dvd bs" "int (length hs) = n div hbs"
  shows "int (length (hashes_for hbs bs hs)) = n div bs"
proof (cases "bs = hbs")
  case True
  then show ?thesis using assms by (simp add: hashes_for_def)
next
  case False
  obtain s where s: "bs = hbs * s" using assms(3) by blast
  then have sp: "0 < s" using assms(1,2) zero_less_mult_pos by blast
  have "int (length (hashes_for hbs bs hs)) = int (length hs div nat s)"
    using False assms(1) s by (simp add: hashes_for_def Let_def)
  also have "\<dots> = n div hbs div s" using assms(4) sp by (simp add: zdiv_int)
  also have "\<dots> = n div bs" unfolding s using sp by (simp add: zdiv_zmult2_eq)
  finally show ?thesis .
qed

definition cacheable :: "request \<Rightarrow> int \<Rightarrow> block_pool \<Rightarrow> manager \<Rightarrow> bool" where
  "cacheable r nt p m \<longleftrightarrow> m_class m \<notin> {MambaManager, CrossAttentionManager} \<and> hash_block_size p dvd m_block_size m
     \<and> nt div m_block_size m \<le> int (length (blocks_get (request_id r) m))
     \<and> nt div m_block_size m \<le> int (length (hashes_for (hash_block_size p) (m_block_size m) (block_hashes r)))"

lemma cache_each_ok:
  assumes "sys_ok (xs @ ms) p" "0 < hash_block_size p" "enable_caching p" "\<forall>m\<in>set ms. cacheable r nt p m"
  shows "\<exists>ms' p' r'. cache_each r nt ms p = Inr (ms', p', r') \<and> sys_ok (xs @ ms') p' \<and> config p' = config p
    \<and> same_content r r' \<and> free_of p' = free_of p \<and> length ms' = length ms
    \<and> (\<forall>j<length ms. static (ms' ! j) = static (ms ! j)
         \<and> (\<forall>rid. blocks_get rid (ms' ! j) = blocks_get rid (ms ! j)))"
  using assms
proof (induction ms arbitrary: xs p r)
  case Nil
  then show ?case using same_content_refl by simp
next
  case (Cons m ms)
  have cm: "m_class m \<notin> {MambaManager, CrossAttentionManager}" "hash_block_size p dvd m_block_size m"
    "nt div m_block_size m \<le> int (length (blocks_get (request_id r) m))"
    "nt div m_block_size m \<le> int (length (hashes_for (hash_block_size p) (m_block_size m) (block_hashes r)))"
    using Cons.prems(4) by (simp_all add: cacheable_def)
  have "books_ok m p" using sys_books [OF Cons.prems(1)] by simp
  from base_cache_step [OF this Cons.prems(2) cm(2) Cons.prems(3) cm(3,4)] obtain m' p1 r1 where
    s: "base_cache_blocks r nt m p = Inr (m', p1, r1)" "step_ok m p m' p1" "same_content r r1"
      "req_to_blocks m' = (if num_cached (request_id r) m \<ge> nt div m_block_size m then req_to_blocks m
                             else req_to_blocks (touch_req (request_id r) m))" "free_of p1 = free_of p"
    by blast
  have g: "blocks_get rid m' = blocks_get rid m" for rid
    using s(4) blocks_get_touch [of rid "request_id r" m] by (simp add: blocks_get_def split: if_splits)
  have c: "cache_blocks r nt m p = Inr (m', p1, r1)" using s(1) cm(1) by (simp add: cache_blocks_def split: manager_class.split)
  have S: "sys_ok ((xs @ [m']) @ ms) p1" using sys_step [OF Cons.prems(1) s(2)] by simp
  have cfg: "config p1 = config p" by (rule step_okD(2) [OF s(2)])
  have rr: "request_id r1 = request_id r" "block_hashes r1 = block_hashes r"
    using s(3) by (auto simp: same_content_def)
  have "\<forall>m\<in>set ms. cacheable r1 nt p1 m" using Cons.prems(4) by (simp add: cacheable_def rr config_eqD [OF cfg])
  from Cons.IH [OF S _ _ this] obtain ms' p' r' where t: "cache_each r1 nt ms p1 = Inr (ms', p', r')" "sys_ok (xs @ m' # ms') p'"
    "config p' = config p1" "same_content r1 r'" "free_of p' = free_of p1" "length ms' = length ms"
    "\<And>j. j < length ms \<Longrightarrow> static (ms' ! j) = static (ms ! j) \<and> (\<forall>rid. blocks_get rid (ms' ! j) = blocks_get rid (ms ! j))"
    using Cons.prems(2,3) config_eqD [OF cfg] by auto
  have "static ((m' # ms') ! j) = static ((m # ms) ! j) \<and> (\<forall>rid. blocks_get rid ((m' # ms') ! j) = blocks_get rid ((m # ms) ! j))"
    if "j < length (m # ms)" for j
    using that t(7) [of "j - 1"] step_okD(3) [OF s(2)] g by (cases j) auto
  then show ?case using c t(1-6) cfg s(5) same_content_trans [OF s(3) t(4)] by auto
qed

section \<open>The number of blocks a request needs\<close>

definition decoder_group :: "manager \<Rightarrow> bool" where
  "decoder_group m \<longleftrightarrow> m_class m = FullAttentionManager
     \<or> m_class m = SlidingWindowManager \<and> 1 \<le> sliding_window_of (m_spec m)
     \<or> m_class m = ChunkedLocalAttentionManager \<and> 0 < chunk_size_of (m_spec m)"

lemma decoder_class:
  "decoder_group m \<Longrightarrow> m_class m \<noteq> MambaManager" "decoder_group m \<Longrightarrow> m_class m \<noteq> CrossAttentionManager"
  "decoder_group m \<Longrightarrow> \<not> is_cross m"
  by (auto simp: decoder_group_def is_cross_def)

lemma div_mult_le_int: "0 < b \<Longrightarrow> a div b * b \<le> (a :: int)"
  using pos_mod_sign [of b a] minus_mod_eq_div_mult [of a b] by linarith

lemma skipped_bounds: "decoder_group m \<Longrightarrow> 0 \<le> t \<Longrightarrow> 0 \<le> get_num_skipped_tokens m t \<and> get_num_skipped_tokens m t \<le> t"
  by (auto simp: decoder_group_def get_num_skipped_tokens_def div_mult_le_int pos_imp_zdiv_nonneg_iff)

text \<open>A running request, whose blocks cover its computed tokens, and a request that is about to adopt hits.\<close>

lemma running_demand:
  assumes "decoder_group m" "0 \<le> t" "0 < m_block_size m" "t \<le> int (length (blocks_get rid m)) * m_block_size m"
  shows "get_num_blocks_to_allocate rid nt [] t nt_main m p = Inr (grow rid nt n_enc m, m)"
proof -
  have "skipped_blocks m t \<le> t div m_block_size m"
    using skipped_bounds [OF assms(1,2)] assms(3) by (simp add: zdiv_mono1)
  also have "\<dots> \<le> int (length (blocks_get rid m))"
    using assms(3,4) by (metis nonzero_mult_div_cancel_right less_irrefl zdiv_mono1)
  finally show ?thesis
    using decoder_class [OF assms(1)]
    by (auto simp: get_num_blocks_to_allocate_def base_num_blocks_to_allocate_def grow_def Let_def get_num_evictable_blocks_def
        py_from_nonneg max_def)
qed

lemma adopted_length:
  "int (lead_nulls m t) + int (length (kept_hits m c t)) = max (int (lead_nulls m t)) (int (length c))"
  by (auto simp: kept_hits_def lead_nulls_def)

lemma adopt_demand:
  assumes "decoder_group m" "0 \<le> nl" "0 \<le> ne" "0 < m_block_size m" "nl + ne \<le> nt" "int (length c) * m_block_size m \<le> nl"
    and "num_cached_block m rid = None" "blocks_get rid m = []"
  shows "0 \<le> ext_blocks nl ne m c"
    and "get_num_blocks_to_allocate rid nt c (nl + ne) nt_main m p =
      Inr (adopt_cost nl ne p (m, c) + max 0 (cdiv nt (m_block_size m) - max (int (lead_nulls m (nl + ne))) (int (length c))
             - ext_blocks nl ne m c), m)"
proof -
  let ?bs = "m_block_size m" and ?t = "nl + ne"
  let ?L = "max (int (lead_nulls m ?t)) (int (length c))"
  have sk: "0 \<le> get_num_skipped_tokens m ?t" "get_num_skipped_tokens m ?t \<le> ?t"
    using skipped_bounds [OF assms(1), of ?t] assms(2,3) by simp_all
  have k: "int (lead_nulls m ?t) = skipped_blocks m ?t" using sk(1) assms(4) by (simp add: lead_nulls_def pos_imp_zdiv_nonneg_iff)
  have b: "?t \<le> cdiv ?t ?bs * ?bs" using cdiv_bounds [OF assms(4)] by simp
  have "skipped_blocks m ?t * ?bs \<le> get_num_skipped_tokens m ?t" using assms(4) by (rule div_mult_le_int)
  then have "skipped_blocks m ?t * ?bs \<le> cdiv ?t ?bs * ?bs" using sk(2) b by linarith
  moreover have "int (length c) * ?bs \<le> cdiv ?t ?bs * ?bs" using assms(3,6) b by linarith
  ultimately have L: "?L \<le> cdiv ?t ?bs" using assms(4) k by (simp add: mult_le_cancel_right)
  have m: "cdiv ?t ?bs \<le> cdiv nt ?bs" by (rule cdiv_mono [OF assms(4,5)])
  have e: "ext_blocks nl ne m c = 0 \<or> ext_blocks nl ne m c = cdiv ?t ?bs - ?L"
    unfolding ext_blocks_def adopted_length [symmetric] by simp
  then show "0 \<le> ext_blocks nl ne m c" using L by auto
  have sum: "ext_blocks nl ne m c + max 0 (cdiv nt ?bs - ?L - ext_blocks nl ne m c) = max (cdiv nt ?bs - ?L) 0"
    using e L m by auto
  have "get_num_blocks_to_allocate rid nt c ?t nt_main m p =
      Inr (max (cdiv nt ?bs - ?L) 0 + get_num_evictable_blocks p (kept_hits m c ?t), m)"
    using decoder_class [OF assms(1)] assms(7,8) k sk(1) assms(4)
    by (simp add: get_num_blocks_to_allocate_def base_num_blocks_to_allocate_def Let_def kept_hits_def py_from_nonneg
        pos_imp_zdiv_nonneg_iff lead_nulls_def)
  then show "get_num_blocks_to_allocate rid nt c ?t nt_main m p =
      Inr (adopt_cost nl ne p (m, c) + max 0 (cdiv nt ?bs - ?L - ext_blocks nl ne m c), m)"
    unfolding sum [symmetric] by (simp add: adopt_cost_def)
qed

end
