(* ===== verification/Slots.thy ===== *)
theory Slots
  imports Coord_Inv
begin

text \<open>
  Correctness of the allocation interface of \<^verbatim>\<open>KVCacheManager\<close>: \<open>kv_ok\<close> is the invariant of the whole cache
  manager, and every operation the scheduler calls keeps it. The main result is about \<^verbatim>\<open>allocate_slots\<close>: it
  never raises on the calls the scheduler makes, it refuses exactly when the demand exceeds the free blocks,
  and otherwise the request ends up with a slot for every token in every group.
\<close>

section \<open>The demand of all groups\<close>

lemma each_manager_same:
  "(\<And>j. j < length ms \<Longrightarrow> f (i + j) (ms ! j) p = Inr (d (i + j), ms ! j, p)) \<Longrightarrow>
     each_manager f i ms p = Inr (map d [i..<i + length ms], ms, p)"
proof (induction ms arbitrary: i)
  case (Cons m ms)
  have "f i m p = Inr (d i, m, p)" using Cons.prems [of 0] by simp
  moreover have "each_manager f (Suc i) ms p = Inr (map d [Suc i..<Suc i + length ms], ms, p)"
    using Cons.prems [of "Suc j" for j] by (intro Cons.IH) simp
  ultimately show ?case by (simp add: upt_conv_Cons del: upt_Suc)
qed simp

lemma coord_demand:
  assumes "\<And>j. j < length (managers c) \<Longrightarrow> decoder_group (managers c ! j)" "length cs = length (managers c)"
    and "\<And>j. j < length (managers c) \<Longrightarrow>
      get_num_blocks_to_allocate rid nt (cs ! j) t nt_main (managers c ! j) (c_pool c) = Inr (d j, managers c ! j)"
  shows "coord_num_blocks_to_allocate rid nt cs n_enc t nt_main c = Inr (\<Sum>j\<leftarrow>[0..<length (managers c)]. d j, c)"
proof -
  have "each_manager (\<lambda>i m p.
              bindE (if is_cross m then get_num_blocks_to_allocate rid n_enc [] 0 n_enc m p
                     else bindE (nth_or_raise cs i) (\<lambda>nc. get_num_blocks_to_allocate rid nt nc t nt_main m p))
                (\<lambda>(n, m'). Inr (n, m', p))) 0 (managers c) (c_pool c)
      = Inr (map d [0..<0 + length (managers c)], managers c, c_pool c)"
    using assms decoder_class(3) by (intro each_manager_same) (simp add: nth_or_raise_def)
  then show ?thesis by (simp add: coord_num_blocks_to_allocate_def on_managers_def)
qed

lemma sum_list_nth: "length xs = n \<Longrightarrow> (\<Sum>x\<leftarrow>xs. f x) = (\<Sum>j\<leftarrow>[0..<n]. f (xs ! j))"
  by (auto intro!: arg_cong [where f = sum_list] nth_equalityI)

lemma zip_nth_map: "length xs = n \<Longrightarrow> length ys = n \<Longrightarrow> zip xs ys = map (\<lambda>j. (xs ! j, ys ! j)) [0..<n]"
  by (rule nth_equalityI) simp_all

section \<open>The invariant of the cache manager\<close>

definition kv_ok :: "kv_manager \<Rightarrow> bool" where
  "kv_ok k \<longleftrightarrow> sys_ok (managers (coord k)) (pool_of k) \<and> length (managers (coord k)) = num_kv_cache_groups k
     \<and> k_enable_caching k = enable_caching (pool_of k) \<and> 0 < hash_block_size (pool_of k)
     \<and> (\<forall>m\<in>set (managers (coord k)). decoder_group m \<and> hash_block_size (pool_of k) dvd m_block_size m)"

lemma decoder_static: "static m' = static m \<Longrightarrow> decoder_group m' = decoder_group m"
  using static_eqD [of m' m] by (simp add: decoder_group_def)

lemma same_shape_forall:
  assumes "same_shape c c'" "\<forall>m\<in>set (managers c). P m" "\<And>m m'. static m' = static m \<Longrightarrow> P m \<Longrightarrow> P m'"
  shows "\<forall>m\<in>set (managers c'). P m"
proof
  fix m assume "m \<in> set (managers c')"
  then obtain j where "j < length (managers c')" "m = managers c' ! j" by (metis in_set_conv_nth)
  then show "P m" using assms by (auto simp: same_shape_def)
qed

lemma kv_ok_shape:
  assumes "kv_ok k" "same_shape (coord k) c" "sys_ok (managers c) (c_pool c)"
  shows "kv_ok (k\<lparr>coord := c\<rparr>)"
proof -
  note C = config_eqD [of "c_pool c" "c_pool (coord k)"]
  have cfg: "config (c_pool c) = config (c_pool (coord k))" using assms(2) by (simp add: same_shape_def)
  have "\<forall>m\<in>set (managers c). decoder_group m \<and> hash_block_size (c_pool (coord k)) dvd m_block_size m"
  proof (rule same_shape_forall [OF assms(2)])
    show "\<forall>m\<in>set (managers (coord k)). decoder_group m \<and> hash_block_size (c_pool (coord k)) dvd m_block_size m"
      using assms(1) by (simp add: kv_ok_def pool_of_def)
    show "decoder_group m' \<and> hash_block_size (c_pool (coord k)) dvd m_block_size m'"
      if "static m' = static m" "decoder_group m \<and> hash_block_size (c_pool (coord k)) dvd m_block_size m" for m m'
      using that decoder_static [OF that(1)] static_eqD(3) [OF that(1)] by simp
  qed
  then show ?thesis
    using assms C [OF cfg] by (simp add: kv_ok_def pool_of_def same_shape_def)
qed

section \<open>The phases of an allocation\<close>

abbreviation free_len :: "coordinator \<Rightarrow> int" where
  "free_len c \<equiv> int (length (free_of (c_pool c)))"

abbreviation all_decoder :: "coordinator \<Rightarrow> bool" where
  "all_decoder c \<equiv> \<forall>m\<in>set (managers c). decoder_group m"

lemma skip_phase:
  assumes "sys_ok (managers c) (c_pool c)" "all_decoder c"
  shows "\<exists>c1. coord_remove_skipped_blocks rid t c = Inr c1 \<and> sys_ok (managers c1) (c_pool c1) \<and> same_shape c c1
    \<and> (\<forall>b. hash_of (c_pool c1) b = hash_of (c_pool c) b)
    \<and> (\<forall>j<length (managers c). num_cached_block (managers c1 ! j) = num_cached_block (managers c ! j)
         \<and> kept_blocks (skipped_blocks (managers c ! j) t) (blocks_get rid (managers c ! j)) (blocks_get rid (managers c1 ! j)))"
proof -
  have "\<forall>m\<in>set (managers c). m_class m \<noteq> MambaManager" using assms(2) decoder_class(1) by blast
  then show ?thesis
    using skip_pass.pass_on [OF assms(1), of "hash_of (c_pool c)" rid t]
    by (auto simp: coord_remove_skipped_blocks_def)
qed

lemma running_phase:
  assumes "all_decoder c" "\<forall>m\<in>set (managers c). 0 < m_block_size m" "0 \<le> t"
    and "\<forall>m\<in>set (managers c). t \<le> int (length (blocks_get rid m)) * m_block_size m"
  shows "coord_num_blocks_to_allocate rid nt (replicate (length (managers c)) []) n_enc t nt_main c =
    Inr (\<Sum>m\<leftarrow>managers c. grow rid nt n_enc m, c)"
proof -
  have "coord_num_blocks_to_allocate rid nt (replicate (length (managers c)) []) n_enc t nt_main c =
      Inr (\<Sum>j\<leftarrow>[0..<length (managers c)]. grow rid nt n_enc (managers c ! j), c)"
    using assms by (intro coord_demand) (auto intro: running_demand)
  then show ?thesis using sum_list_nth [of "managers c" "length (managers c)" "grow rid nt n_enc"] by simp
qed

text \<open>The demand computed before the hits are adopted is what adopting them takes from the queue plus what the
  request still lacks afterwards.\<close>

lemma adopt_phase:
  assumes S: "sys_ok (managers c) (c_pool c)" and dec: "all_decoder c" and bounds: "0 \<le> nl" "0 \<le> ne" "nl + ne \<le> nt"
    and cs: "length cs = length (managers c)" "disjoint_hits cs" "ne = 0 \<or> length cs \<le> 1"
    and each: "\<And>j. j < length cs \<Longrightarrow> hits_ok (c_pool c) (cs ! j) \<and> (enable_caching (c_pool c) \<or> cs ! j = [])
      \<and> int (length (cs ! j)) * m_block_size (managers c ! j) \<le> nl
      \<and> num_cached_block (managers c ! j) rid = None \<and> blocks_get rid (managers c ! j) = []"
  shows "\<exists>n. coord_num_blocks_to_allocate rid nt cs n_enc (nl + ne) nt_main c = Inr (n, c)
    \<and> (n \<le> free_len c \<longrightarrow> (\<exists>c'. coord_allocate_new_computed_blocks rid cs nl ne c = Inr c'
         \<and> sys_ok (managers c') (c_pool c') \<and> same_shape c c'
         \<and> free_len c' = free_len c - n + (\<Sum>m\<leftarrow>managers c'. grow rid nt n_enc m)))"
proof -
  let ?ms = "managers c" and ?p = "c_pool c" and ?n = "length (managers c)"
  define a where "a j = adopt_cost nl ne ?p (?ms ! j, cs ! j)" for j
  define g where "g j = max 0 (cdiv nt (m_block_size (?ms ! j))
     - max (int (lead_nulls (?ms ! j) (nl + ne))) (int (length (cs ! j))) - ext_blocks nl ne (?ms ! j) (cs ! j))" for j
  have dj: "decoder_group (?ms ! j)" "0 < m_block_size (?ms ! j)" if "j < ?n" for j
    using dec books_okD(7) [OF sys_books [OF S]] that by auto
  have ext: "0 \<le> ext_blocks nl ne (?ms ! j) (cs ! j)"
    and num: "get_num_blocks_to_allocate rid nt (cs ! j) (nl + ne) nt_main (?ms ! j) ?p = Inr (a j + g j, ?ms ! j)" if "j < ?n" for j
  proof -
    have e: "int (length (cs ! j)) * m_block_size (?ms ! j) \<le> nl" "num_cached_block (?ms ! j) rid = None" "blocks_get rid (?ms ! j) = []"
      using each [of j] that cs(1) by auto
    note ad = adopt_demand [OF dj(1) [OF that] bounds(1,2) dj(2) [OF that] bounds(3) e]
    show "0 \<le> ext_blocks nl ne (?ms ! j) (cs ! j)" by (rule ad(1))
    show "get_num_blocks_to_allocate rid nt (cs ! j) (nl + ne) nt_main (?ms ! j) ?p = Inr (a j + g j, ?ms ! j)"
      unfolding a_def g_def by (rule ad(2))
  qed
  define A where "A = (\<Sum>j\<leftarrow>[0..<?n]. a j)"
  define G where "G = (\<Sum>j\<leftarrow>[0..<?n]. g j)"
  have "coord_num_blocks_to_allocate rid nt cs n_enc (nl + ne) nt_main c = Inr (A + G, c)"
    using coord_demand [of c cs rid nt "nl + ne" nt_main "\<lambda>j. a j + g j"] dj num cs(1)
    by (simp add: A_def G_def sum_list_addf)
  moreover have "\<exists>c'. coord_allocate_new_computed_blocks rid cs nl ne c = Inr c'
         \<and> sys_ok (managers c') (c_pool c') \<and> same_shape c c'
         \<and> free_len c' = free_len c - (A + G) + (\<Sum>m\<leftarrow>managers c'. grow rid nt n_enc m)" if le: "A + G \<le> free_len c"
  proof -
    have "0 \<le> G" unfolding G_def by (rule sum_list_nonneg) (auto simp: g_def)
    have z: "zip ?ms cs = map (\<lambda>j. (?ms ! j, cs ! j)) [0..<?n]" by (rule zip_nth_map [OF refl cs(1)])
    have "all_adoptable rid nl ne cs (free_len c - A) 0 ?ms ?p"
      using cs each ext dj decoder_class \<open>0 \<le> G\<close> le unfolding all_adoptable_def
      by (auto simp: z A_def a_def adoptable_def comp_def)
    from adopt_pass.pass_on [OF S this] obtain c' where c': "coord_allocate_new_computed_blocks rid cs nl ne c = Inr c'"
      "sys_ok (managers c') (c_pool c')" "same_shape c c'" "all_adoptable rid nl ne cs (free_len c - A) ?n [] (c_pool c')"
      "\<And>j. j < ?n \<Longrightarrow> \<exists>new. blocks_get rid (managers c' ! j) = replicate (lead_nulls (?ms ! j) (nl + ne)) (Blk 0)
             @ kept_hits (?ms ! j) (cs ! j) (nl + ne) @ new \<and> int (length new) = ext_blocks nl ne (?ms ! j) (cs ! j)"
      by (auto simp: coord_allocate_new_computed_blocks_def)
    have fl: "free_len c' = free_len c - A" using c'(4) by (simp add: all_adoptable_def)
    have "grow rid nt n_enc (managers c' ! j) = g j" if j: "j < ?n" for j
    proof -
      have st: "static (managers c' ! j) = static (?ms ! j)" using c'(3) j by (simp add: same_shape_def)
      then have "\<not> is_cross (managers c' ! j)" using decoder_class(3) dj(1) [OF j] decoder_static by blast
      moreover obtain new where "blocks_get rid (managers c' ! j) = replicate (lead_nulls (?ms ! j) (nl + ne)) (Blk 0)
             @ kept_hits (?ms ! j) (cs ! j) (nl + ne) @ new" "int (length new) = ext_blocks nl ne (?ms ! j) (cs ! j)"
        using c'(5) [OF j] by blast
      then have "int (length (blocks_get rid (managers c' ! j))) =
          max (int (lead_nulls (?ms ! j) (nl + ne))) (int (length (cs ! j))) + ext_blocks nl ne (?ms ! j) (cs ! j)"
        using adopted_length [of "?ms ! j" "nl + ne" "cs ! j"] by simp
      ultimately show ?thesis using static_eqD(3) [OF st] by (simp add: grow_def g_def algebra_simps)
    qed
    then have "(\<Sum>m\<leftarrow>managers c'. grow rid nt n_enc m) = G"
      using sum_list_nth [of "managers c'" ?n "grow rid nt n_enc"] c'(3)
      by (auto simp: G_def same_shape_def intro!: arg_cong [where f = sum_list])
    then show ?thesis using c'(1-3) fl by auto
  qed
  ultimately show ?thesis by blast
qed

text \<open>The new blocks, and with them a slot for every token in every group.\<close>

lemma new_phase:
  assumes S: "sys_ok (managers c) (c_pool c)" and dec: "all_decoder c" and K: "0 \<le> K"
    and free: "free_len c = K + (\<Sum>m\<leftarrow>managers c. grow rid nt n_enc m)"
  shows "\<exists>new c'. coord_allocate_new_blocks rid nt nt_main n_enc c = Inr (new, c') \<and> sys_ok (managers c') (c_pool c')
    \<and> same_shape c c' \<and> free_len c' = K \<and> length new = length (managers c)
    \<and> (\<forall>j<length (managers c). blocks_get rid (managers c' ! j) = blocks_get rid (managers c ! j) @ new ! j
         \<and> cdiv nt (m_block_size (managers c' ! j)) \<le> int (length (blocks_get rid (managers c' ! j))))"
proof -
  have "(\<forall>m\<in>set (managers c). m_class m \<noteq> MambaManager) \<and> 0 \<le> K
     \<and> free_len c = K + (\<Sum>m\<leftarrow>managers c. grow rid nt n_enc m)" using dec decoder_class(1) K free by blast
  from new_pass.pass_on [OF S this, where nt_main = nt_main] obtain new c' where c': "coord_allocate_new_blocks rid nt nt_main n_enc c = Inr (new, c')"
    "sys_ok (managers c') (c_pool c')" "same_shape c c'" "length new = length (managers c)" "free_len c' = K"
    "\<And>j. j < length (managers c) \<Longrightarrow> blocks_get rid (managers c' ! j) = blocks_get rid (managers c ! j) @ new ! j
       \<and> int (length (new ! j)) = grow rid nt n_enc (managers c ! j)"
    by (auto simp: coord_allocate_new_blocks_def)
  have "cdiv nt (m_block_size (managers c' ! j)) \<le> int (length (blocks_get rid (managers c' ! j)))" if j: "j < length (managers c)" for j
  proof -
    have "m_block_size (managers c' ! j) = m_block_size (managers c ! j)"
      using c'(3) j static_eqD(3) unfolding same_shape_def by blast
    moreover have "\<not> is_cross (managers c ! j)" using dec decoder_class(3) j by simp
    ultimately show ?thesis using c'(6) [OF j] by (simp add: grow_def)
  qed
  then show ?thesis using c' by blast
qed

lemma cache_phase:
  assumes S: "sys_ok (managers c) (c_pool c)" and dec: "all_decoder c" and hbs: "0 < hash_block_size (c_pool c)"
    and ec: "enable_caching (c_pool c)" and dvd: "\<forall>m\<in>set (managers c). hash_block_size (c_pool c) dvd m_block_size m"
    and hashes: "int (length (block_hashes r)) = num_tokens r div hash_block_size (c_pool c)" and nt: "nt \<le> num_tokens r"
    and cover: "\<forall>m\<in>set (managers c). nt \<le> int (length (blocks_get (request_id r) m)) * m_block_size m"
  shows "\<exists>c' r'. coord_cache_blocks r nt c = Inr (c', r') \<and> sys_ok (managers c') (c_pool c') \<and> same_shape c c'
    \<and> same_content r r' \<and> free_len c' = free_len c
    \<and> (\<forall>j<length (managers c). \<forall>rid. blocks_get rid (managers c' ! j) = blocks_get rid (managers c ! j))"
proof -
  have "cacheable r nt (c_pool c) m" if m: "m \<in> set (managers c)" for m
  proof -
    have bs: "0 < m_block_size m" using books_okD(7) [OF sys_books [OF S m]] .
    have "nt div m_block_size m \<le> num_tokens r div m_block_size m" using nt bs by (simp add: zdiv_mono1)
    moreover have "nt div m_block_size m \<le> int (length (blocks_get (request_id r) m))"
      using cover m bs zdiv_mono1 [of nt "int (length (blocks_get (request_id r) m)) * m_block_size m" "m_block_size m"] by auto
    ultimately show ?thesis
      using m dec decoder_class dvd length_hashes_for [OF hbs bs _ hashes] by (simp add: cacheable_def)
  qed
  then obtain ms' p' r' where r: "cache_each r nt (managers c) (c_pool c) = Inr (ms', p', r')" "sys_ok ms' p'"
    "config p' = config (c_pool c)" "same_content r r'" "free_of p' = free_of (c_pool c)" "length ms' = length (managers c)"
    "\<forall>j<length (managers c). static (ms' ! j) = static (managers c ! j)
       \<and> (\<forall>rid. blocks_get rid (ms' ! j) = blocks_get rid (managers c ! j))"
    using cache_each_ok [of "[]" "managers c" "c_pool c" r nt] S hbs ec by auto
  show ?thesis
    by (intro exI [of _ "c\<lparr>managers := ms', c_pool := p'\<rparr>"] exI [of _ r'])
      (use r in \<open>simp add: coord_cache_blocks_def same_shape_def\<close>)
qed

section \<open>Allocation of slots\<close>

text \<open>The calls the scheduler makes. A request that adopts hits (of the prefix cache or of a connector) is new
  to every group; the hits are distinct cached blocks, aligned below the number of local tokens; tokens of a
  connector come with a single group. Any other request has blocks for all tokens computed so far.\<close>

definition slots_ready :: "request \<Rightarrow> int \<Rightarrow> kv_cache_blocks \<Rightarrow> int \<Rightarrow> kv_manager \<Rightarrow> bool" where
  "slots_ready r nnc cb n_ext k \<longleftrightarrow>
     (let nl = num_computed_tokens r + nnc; cs = kv_lists k cb; rid = request_id r; ms = managers (coord k)
      in 0 \<le> nl \<and> 0 \<le> n_ext \<and> nl + n_ext \<le> k_max_model_len k \<and> num_tokens r \<le> k_max_model_len k
         \<and> (k_enable_caching k \<longrightarrow> int (length (block_hashes r)) = num_tokens r div hash_block_size (pool_of k))
         \<and> length cs = length ms
         \<and> (if cb \<noteq> KVEmpty \<or> n_ext > 0
            then disjoint_hits cs \<and> (n_ext = 0 \<or> length cs \<le> 1)
              \<and> (\<forall>j<length cs. hits_ok (pool_of k) (cs ! j) \<and> (k_enable_caching k \<or> cs ! j = [])
                  \<and> int (length (cs ! j)) * m_block_size (ms ! j) \<le> nl
                  \<and> num_cached_block (ms ! j) rid = None \<and> blocks_get rid (ms ! j) = [])
            else (\<forall>m\<in>set ms. nl \<le> int (length (blocks_get rid m)) * m_block_size m)))"

definition slot_tokens :: "request \<Rightarrow> int \<Rightarrow> int \<Rightarrow> int \<Rightarrow> int \<Rightarrow> kv_manager \<Rightarrow> int" where
  "slot_tokens r n_new nnc n_look n_ext k =
     min (min (num_computed_tokens r + nnc + n_ext) (k_max_model_len k) + n_new + n_look) (k_max_model_len k)"

text \<open>The first two stages: blocks that left the window are given back, then the demand is compared with the
  free blocks; if there are enough, the hits are adopted.\<close>

lemma allocate_prefix:
  assumes K: "kv_ok k" and R: "slots_ready r nnc cb n_ext k" and n: "0 \<le> n_new" "0 \<le> n_look"
  defines "rid \<equiv> request_id r" and "nl \<equiv> num_computed_tokens r + nnc" and "nt \<equiv> slot_tokens r n_new nnc n_look n_ext k"
  shows "\<exists>c1 d. coord_remove_skipped_blocks rid (min (nl + n_ext) (k_max_model_len k)) (coord k) = Inr c1
    \<and> sys_ok (managers c1) (c_pool c1) \<and> same_shape (coord k) c1
    \<and> coord_num_blocks_to_allocate rid nt (kv_lists k cb) n_enc (nl + n_ext) nt_main c1 = Inr (d, c1)
    \<and> (d \<le> free_len c1 \<longrightarrow>
        (\<exists>c3. (if cb \<noteq> KVEmpty \<or> n_ext > 0 then coord_allocate_new_computed_blocks rid (kv_lists k cb) nl n_ext c1 else Inr c1) = Inr c3
           \<and> sys_ok (managers c3) (c_pool c3) \<and> same_shape c1 c3
           \<and> free_len c3 = free_len c1 - d + (\<Sum>m\<leftarrow>managers c3. grow rid nt n_enc m)))"
proof -
  let ?ms = "managers (coord k)" and ?cs = "kv_lists k cb"
  have S: "sys_ok ?ms (c_pool (coord k))" and dec: "all_decoder (coord k)" and ce: "k_enable_caching k = enable_caching (c_pool (coord k))"
    and lk: "length ?ms = num_kv_cache_groups k" using K by (auto simp: kv_ok_def pool_of_def)
  note R' = R [unfolded slots_ready_def Let_def, folded nl_def rid_def]
  have b: "0 \<le> nl" "0 \<le> n_ext" "nl + n_ext \<le> k_max_model_len k" "length ?cs = length ?ms" using R' by auto
  have t: "nl + n_ext \<le> nt" using b(3) n unfolding nt_def slot_tokens_def nl_def by linarith
  obtain c1 where c1: "coord_remove_skipped_blocks rid (min (nl + n_ext) (k_max_model_len k)) (coord k) = Inr c1"
    "sys_ok (managers c1) (c_pool c1)" "same_shape (coord k) c1" "\<forall>b. hash_of (c_pool c1) b = hash_of (c_pool (coord k)) b"
    "\<And>j. j < length ?ms \<Longrightarrow> num_cached_block (managers c1 ! j) = num_cached_block (?ms ! j)
       \<and> length (blocks_get rid (managers c1 ! j)) = length (blocks_get rid (?ms ! j))"
    using skip_phase [OF S dec, of rid "min (nl + n_ext) (k_max_model_len k)"] by (auto simp: kept_blocks_def)
  have l1: "length (managers c1) = length ?ms" and cfg: "config (c_pool c1) = config (c_pool (coord k))"
    and st: "\<And>j. j < length ?ms \<Longrightarrow> m_block_size (managers c1 ! j) = m_block_size (?ms ! j)"
    using c1(3) by (simp_all add: same_shape_def static_def)
  have dec1: "all_decoder c1" by (rule same_shape_forall [OF c1(3) dec]) (rule decoder_static [THEN iffD2])
  show ?thesis
  proof (cases "cb \<noteq> KVEmpty \<or> n_ext > 0")
    case True
    then have h: "disjoint_hits ?cs" "n_ext = 0 \<or> length ?cs \<le> 1"
      and e: "\<And>j. j < length ?cs \<Longrightarrow> hits_ok (c_pool (coord k)) (?cs ! j) \<and> (enable_caching (c_pool (coord k)) \<or> ?cs ! j = [])
        \<and> int (length (?cs ! j)) * m_block_size (?ms ! j) \<le> nl \<and> num_cached_block (?ms ! j) rid = None \<and> blocks_get rid (?ms ! j) = []"
      using R' ce by (auto simp: pool_of_def)
    have e1: "hits_ok (c_pool c1) (?cs ! j) \<and> (enable_caching (c_pool c1) \<or> ?cs ! j = [])
        \<and> int (length (?cs ! j)) * m_block_size (managers c1 ! j) \<le> nl
        \<and> num_cached_block (managers c1 ! j) rid = None \<and> blocks_get rid (managers c1 ! j) = []" if "j < length ?cs" for j
      using e [OF that] hits_ok_hash [OF _ c1(4) cfg] c1(5) [of j] st [of j] that b(4) config_eqD(2) [OF cfg] by auto
    show ?thesis
      using adopt_phase [OF c1(2) dec1 b(1,2) t _ h e1, where n_enc = n_enc and nt_main = nt_main] b(4) l1 c1(1-3) True by auto
  next
    case False
    then have cb: "?cs = replicate (length (managers c1)) []" and ne: "n_ext = 0" using lk l1 b(2) by (auto simp: kv_lists_def)
    have cov: "\<forall>m\<in>set (managers c1). nl + n_ext \<le> int (length (blocks_get rid m)) * m_block_size m"
    proof
      fix m assume "m \<in> set (managers c1)"
      then obtain j where "j < length ?ms" "m = managers c1 ! j" using l1 by (metis in_set_conv_nth)
      then show "nl + n_ext \<le> int (length (blocks_get rid m)) * m_block_size m" using R' False ne c1(5) [of j] st [of j] by simp
    qed
    have "0 \<le> nl + n_ext" "\<forall>m\<in>set (managers c1). 0 < m_block_size m"
      using b(1,2) books_okD(7) [OF sys_books [OF c1(2)]] by auto
    then show ?thesis
      using running_phase [OF dec1 _ _ cov, of nt n_enc nt_main] c1(1-3) False cb by auto
  qed
qed

lemma free_count: "sys_ok ms p \<Longrightarrow> get_num_free_blocks p = int (length (free_of p))"
  using num_free_length [of "{}" p] by (simp add: sys_ok_def get_num_free_blocks_def)

text \<open>The last two stages on a state with room for all new blocks.\<close>

lemma allocate_suffix:
  assumes K: "kv_ok k" and R: "slots_ready r nnc cb n_ext k" and n: "0 \<le> n_new" "0 \<le> n_look"
    and c3: "sys_ok (managers c) (c_pool c)" "same_shape (coord k) c" "0 \<le> F"
  defines "rid \<equiv> request_id r" and "nt \<equiv> slot_tokens r n_new nnc n_look n_ext k"
    and "nc \<equiv> min (min (num_computed_tokens r + nnc + n_ext) (k_max_model_len k) + n_new) (num_tokens r)"
  assumes free: "free_len c = F + (\<Sum>m\<leftarrow>managers c. grow rid nt n_enc m)"
  shows "\<exists>new c4 c5 r'. coord_allocate_new_blocks rid nt nt_main n_enc c = Inr (new, c4)
    \<and> (if \<not> k_enable_caching k \<or> delay then c5 = c4 \<and> r' = r else coord_cache_blocks r nc c4 = Inr (c5, r'))
    \<and> kv_ok (k\<lparr>coord := c4\<rparr>) \<and> kv_ok (k\<lparr>coord := c5\<rparr>) \<and> same_content r r' \<and> free_len c5 = F \<and> same_shape (coord k) c5
    \<and> length new = length (managers c)
    \<and> (\<forall>j<length (managers c). blocks_get rid (managers c5 ! j) = blocks_get rid (managers c ! j) @ new ! j
         \<and> nt \<le> int (length (blocks_get rid (managers c5 ! j))) * m_block_size (managers c5 ! j))"
proof -
  have dec: "all_decoder (coord k)" using K by (simp add: kv_ok_def)
  have decc: "all_decoder c" by (rule same_shape_forall [OF c3(2) dec]) (rule decoder_static [THEN iffD2])
  obtain new c4 where c4: "coord_allocate_new_blocks rid nt nt_main n_enc c = Inr (new, c4)" "sys_ok (managers c4) (c_pool c4)"
    "same_shape c c4" "free_len c4 = F" "length new = length (managers c)"
    "\<And>j. j < length (managers c) \<Longrightarrow> blocks_get rid (managers c4 ! j) = blocks_get rid (managers c ! j) @ new ! j
         \<and> cdiv nt (m_block_size (managers c4 ! j)) \<le> int (length (blocks_get rid (managers c4 ! j)))"
    using new_phase [OF c3(1) decc c3(3) free, of nt_main] by blast
  have sh4: "same_shape (coord k) c4" by (rule same_shape_trans [OF c3(2) c4(3)])
  have k4: "kv_ok (k\<lparr>coord := c4\<rparr>)" by (rule kv_ok_shape [OF K sh4 c4(2)])
  have l4: "length (managers c4) = length (managers c)" using c4(3) by (simp add: same_shape_def)
  have cover: "nt \<le> int (length (blocks_get rid (managers c4 ! j))) * m_block_size (managers c4 ! j)" if "j < length (managers c)" for j
  proof -
    have "0 < m_block_size (managers c4 ! j)" using books_okD(7) [OF sys_books [OF c4(2) nth_mem]] that l4 by simp
    then show ?thesis using c4(6) [OF that] cdiv_least by blast
  qed
  show ?thesis
  proof (cases "\<not> k_enable_caching k \<or> delay")
    case True
    then show ?thesis using c4(1,4,5,6) k4 cover same_content_refl [of r] sh4 by auto
  next
    case False
    note k4' = k4 [unfolded kv_ok_def pool_of_def, simplified]
    have hashes: "int (length (block_hashes r)) = num_tokens r div hash_block_size (c_pool c4)" and "num_tokens r \<le> k_max_model_len k"
      using R False config_eqD(3) [of "c_pool c4" "c_pool (coord k)"] sh4
      by (simp_all add: slots_ready_def Let_def pool_of_def same_shape_def)
    then have "nc \<le> nt" using n unfolding nc_def nt_def slot_tokens_def by linarith
    then have cov: "\<forall>m\<in>set (managers c4). nc \<le> int (length (blocks_get (request_id r) m)) * m_block_size m"
      unfolding all_set_conv_all_nth l4 using order_trans [OF _ cover] unfolding rid_def by blast
    have "all_decoder c4" "0 < hash_block_size (c_pool c4)" "enable_caching (c_pool c4)"
      "\<forall>m\<in>set (managers c4). hash_block_size (c_pool c4) dvd m_block_size m" "nc \<le> num_tokens r"
      using k4' False by (auto simp: nc_def)
    from cache_phase [OF c4(2) this(1-4) hashes this(5) cov] obtain c5 r' where c5: "coord_cache_blocks r nc c4 = Inr (c5, r')"
      "sys_ok (managers c5) (c_pool c5)" "same_shape c4 c5" "same_content r r'" "free_len c5 = free_len c4"
      "\<forall>j<length (managers c4). \<forall>rid. blocks_get rid (managers c5 ! j) = blocks_get rid (managers c4 ! j)" by blast
    have sh5: "same_shape (coord k) c5" by (rule same_shape_trans [OF sh4 c5(3)])
    have "m_block_size (managers c5 ! j) = m_block_size (managers c4 ! j)" if "j < length (managers c)" for j
      using c5(3) that l4 by (simp add: same_shape_def static_def)
    then have "\<forall>j<length (managers c). blocks_get rid (managers c5 ! j) = blocks_get rid (managers c ! j) @ new ! j
         \<and> nt \<le> int (length (blocks_get rid (managers c5 ! j))) * m_block_size (managers c5 ! j)"
      using c4(6) c5(6) cover l4 by simp
    then show ?thesis using c4(1,4,5) c5(1,4,5) k4 kv_ok_shape [OF K sh5 c5(2)] sh5 False by auto
  qed
qed

lemma allocate_slots_effect:
  assumes "kv_ok k" "slots_ready r nnc (case computed of Some b \<Rightarrow> b | None \<Rightarrow> KVEmpty) n_ext k"
    and "0 \<le> n_new" "0 \<le> n_look" "n_new \<noteq> 0 \<or> n_ext \<noteq> 0"
  shows "\<exists>c1 d. coord_remove_skipped_blocks (request_id r)
        (min (num_computed_tokens r + nnc + n_ext) (k_max_model_len k)) (coord k) = Inr c1
    \<and> coord_num_blocks_to_allocate (request_id r) (slot_tokens r n_new nnc n_look n_ext k)
        (kv_lists k (case computed of Some b \<Rightarrow> b | None \<Rightarrow> KVEmpty)) n_enc (num_computed_tokens r + nnc + n_ext)
        (min (num_computed_tokens r + nnc + n_ext) (k_max_model_len k) + n_new) c1 = Inr (d, c1)
    \<and> (if d > get_num_free_blocks (c_pool c1)
       then allocate_slots r n_new nnc computed n_look n_ext delay n_enc k = Inr (None, r, k\<lparr>coord := c1\<rparr>)
         \<and> kv_ok (k\<lparr>coord := c1\<rparr>)
       else \<exists>new r' k'. allocate_slots r n_new nnc computed n_look n_ext delay n_enc k = Inr (Some (create_kv_cache_blocks new), r', k')
         \<and> kv_ok k' \<and> same_content r r' \<and> get_num_free_blocks (pool_of k') = get_num_free_blocks (c_pool c1) - d
         \<and> length new = length (managers (coord k'))
         \<and> (\<forall>j<length new. (\<exists>old. blocks_get (request_id r) (managers (coord k') ! j) = old @ new ! j)
              \<and> slot_tokens r n_new nnc n_look n_ext k
                  \<le> int (length (blocks_get (request_id r) (managers (coord k') ! j))) * m_block_size (managers (coord k') ! j)))"
proof -
  define cb where "cb = (case computed of Some b \<Rightarrow> b | None \<Rightarrow> KVEmpty)"
  define nt where "nt = slot_tokens r n_new nnc n_look n_ext k"
  let ?rid = "request_id r" and ?nl = "num_computed_tokens r + nnc"
  let ?t = "min (?nl + n_ext) (k_max_model_len k)"
  have R: "slots_ready r nnc cb n_ext k" using assms(2) by (simp add: cb_def)
  obtain c1 d where c1: "coord_remove_skipped_blocks ?rid ?t (coord k) = Inr c1" "sys_ok (managers c1) (c_pool c1)"
    "same_shape (coord k) c1" "coord_num_blocks_to_allocate ?rid nt (kv_lists k cb) n_enc (?nl + n_ext) (?t + n_new) c1 = Inr (d, c1)"
    "d \<le> free_len c1 \<Longrightarrow> \<exists>c3. (if cb \<noteq> KVEmpty \<or> n_ext > 0 then coord_allocate_new_computed_blocks ?rid (kv_lists k cb) ?nl n_ext c1 else Inr c1) = Inr c3
           \<and> sys_ok (managers c3) (c_pool c3) \<and> same_shape c1 c3
           \<and> free_len c3 = free_len c1 - d + (\<Sum>m\<leftarrow>managers c3. grow ?rid nt n_enc m)"
    using allocate_prefix [OF assms(1) R assms(3,4), of n_enc "?t + n_new"] unfolding nt_def by blast
  have fc: "get_num_free_blocks (c_pool c1) = free_len c1" by (rule free_count [OF c1(2)])
  have slot: "nt = min (?t + n_new + n_look) (k_max_model_len k)" by (simp add: nt_def slot_tokens_def)
  have guard: "\<not> (n_new = 0 \<and> n_ext = 0)" using assms(5) by blast
  note unf = allocate_slots_def [of r n_new nnc computed n_look n_ext delay n_enc k, folded cb_def, unfolded Let_def, folded slot]
  show ?thesis
  proof (cases "d > free_len c1")
    case True
    then have "allocate_slots r n_new nnc computed n_look n_ext delay n_enc k = Inr (None, r, k\<lparr>coord := c1\<rparr>)"
      using guard c1(1,4) fc unfolding unf by simp
    then show ?thesis using True fc c1(1,4) kv_ok_shape [OF assms(1) c1(3,2)] unfolding cb_def [symmetric] nt_def [symmetric] by auto
  next
    case False
    then obtain c3 where c3: "(if cb \<noteq> KVEmpty \<or> n_ext > 0 then coord_allocate_new_computed_blocks ?rid (kv_lists k cb) ?nl n_ext c1 else Inr c1) = Inr c3"
      "sys_ok (managers c3) (c_pool c3)" "same_shape c1 c3" "free_len c3 = free_len c1 - d + (\<Sum>m\<leftarrow>managers c3. grow ?rid nt n_enc m)"
      using c1(5) by auto
    have sh3: "same_shape (coord k) c3" by (rule same_shape_trans [OF c1(3) c3(3)])
    have F: "0 \<le> free_len c1 - d" using False by simp
    obtain new c4 c5 r' where s: "coord_allocate_new_blocks ?rid nt (?t + n_new) n_enc c3 = Inr (new, c4)"
      "if \<not> k_enable_caching k \<or> delay then c5 = c4 \<and> r' = r else coord_cache_blocks r (min (?t + n_new) (num_tokens r)) c4 = Inr (c5, r')"
      "kv_ok (k\<lparr>coord := c5\<rparr>)" "same_content r r'" "free_len c5 = free_len c1 - d" "same_shape (coord k) c5"
      "length new = length (managers c3)"
      "\<forall>j<length (managers c3). blocks_get ?rid (managers c5 ! j) = blocks_get ?rid (managers c3 ! j) @ new ! j
         \<and> nt \<le> int (length (blocks_get ?rid (managers c5 ! j))) * m_block_size (managers c5 ! j)"
      using allocate_suffix [OF assms(1) R assms(3,4) c3(2) sh3 F, of n_enc "?t + n_new" delay] c3(4) unfolding nt_def by blast
    have "allocate_slots r n_new nnc computed n_look n_ext delay n_enc k = Inr (Some (create_kv_cache_blocks new), r', k\<lparr>coord := c5\<rparr>)"
      using guard c1(1,4) fc False c3(1) s(1,2) unfolding unf by (auto split: if_splits)
    moreover have "length (managers c5) = length (managers c3)" using s(6) sh3 by (simp add: same_shape_def)
    moreover have "get_num_free_blocks (c_pool c5) = free_len c1 - d"
      using free_count [of "managers c5" "c_pool c5"] s(3,5) by (simp add: kv_ok_def pool_of_def)
    moreover have "\<forall>j<length new. (\<exists>old. blocks_get ?rid (managers c5 ! j) = old @ new ! j)
        \<and> nt \<le> int (length (blocks_get ?rid (managers c5 ! j))) * m_block_size (managers c5 ! j)"
      using s(7,8) by auto
    ultimately have "\<exists>new r' k'. allocate_slots r n_new nnc computed n_look n_ext delay n_enc k = Inr (Some (create_kv_cache_blocks new), r', k')
         \<and> kv_ok k' \<and> same_content r r' \<and> get_num_free_blocks (pool_of k') = get_num_free_blocks (c_pool c1) - d
         \<and> length new = length (managers (coord k'))
         \<and> (\<forall>j<length new. (\<exists>old. blocks_get ?rid (managers (coord k') ! j) = old @ new ! j)
              \<and> nt \<le> int (length (blocks_get ?rid (managers (coord k') ! j))) * m_block_size (managers (coord k') ! j))"
      using fc s(3,4,7) by (intro exI [of _ new] exI [of _ r'] exI [of _ "k\<lparr>coord := c5\<rparr>"]) (simp add: pool_of_def)
    moreover have "\<not> d > get_num_free_blocks (c_pool c1)" using False fc by simp
    ultimately show ?thesis using c1(1,4) unfolding cb_def [symmetric] nt_def [symmetric]
      by (intro exI [of _ c1] exI [of _ d]) (simp only: if_False simp_thms)
  qed
qed

end
