(* ===== verification/Lifecycle.thy ===== *)
theory Lifecycle
  imports Slots
begin

text \<open>
  The cache manager as a state machine: \<open>kv_step\<close> has one rule per method of \<^verbatim>\<open>KVCacheManager\<close> that changes
  state (allocate_slots, cache_blocks, free, remove_skipped_blocks, evict_blocks, reset_prefix_cache,
  get_computed_blocks, can_fit_full_sequence, get_num_common_prefix_blocks, make_prefix_cache_stats,
  take_events, take_new_block_ids, new_step_starts). The premises of a rule are what the scheduler's calls
  satisfy: block ids to evict exist, and the request of an allocation or of cache_blocks has one hash per
  full block of its tokens and, for cache_blocks, slots for the tokens to be cached. The invariant \<open>kv_ok\<close>
  is stated for groups of full, multi-head latent, sliding-window and chunked-local attention without
  context parallelism. It holds after construction and after every sequence of steps, so in every
  reachable state a block is either free and held by nobody, or held by as many requests as its reference
  count says.
\<close>

section \<open>Operations that leave the books alone\<close>

lemma sys_ok_view:
  assumes "sys_ok ms p" "pool_inv p'" "config p' = config p" "\<And>b. ref_of p' b = ref_of p b"
    and "\<And>b. hash_of p' b = hash_of p b \<or> hash_of p' b = None"
  shows "sys_ok ms p'"
proof -
  note C = config_eqD [OF assms(3)]
  have "fresh_tail p' m" if "fresh_tail p m" for m
    using that assms(4,5) unfolding fresh_tail_def by metis
  moreover have "manager_ok p' m = manager_ok p m" for m by (rule manager_ok_config [OF assms(3)])
  moreover have "enable_caching p' \<or> (\<forall>b. hash_of p' b = None)" using assms(1,5) C(2) unfolding sys_ok_def by metis
  ultimately show ?thesis using assms(1,2,4) unfolding sys_ok_def C(6) by auto
qed

definition same_books :: "manager \<Rightarrow> manager \<Rightarrow> bool" where
  "same_books m m' \<longleftrightarrow> static m' = static m \<and> req_to_blocks m' = req_to_blocks m \<and> num_cached_block m' = num_cached_block m"

lemma sys_ok_map:
  assumes "sys_ok ms p" "\<And>m. same_books m (f m)"
  shows "sys_ok (map f ms) p"
proof -
  have h: "total_holds (map f ms) b = total_holds ms b" for b
    using assms(2) by (induction ms) (simp_all add: same_books_def)
  have "manager_ok p (f m) \<and> fresh_tail p (f m)" if "m \<in> set ms" for m
  proof -
    have "books_ok (f m) p" using books_ok_cong(1) [of "f m" m p] sys_books [OF assms(1) that] assms(2) [of m]
      by (simp add: same_books_def)
    then show ?thesis by (simp add: books_ok_def)
  qed
  then show ?thesis using assms(1) h by (auto simp: sys_ok_def)
qed

lemma kv_ok_managers:
  assumes "kv_ok k" "\<And>m. same_books m (f m)"
  shows "kv_ok (k\<lparr>coord := (coord k)\<lparr>managers := map f (managers (coord k))\<rparr>\<rparr>)"
proof (rule kv_ok_shape [OF assms(1)])
  show "same_shape (coord k) ((coord k)\<lparr>managers := map f (managers (coord k))\<rparr>)"
    using assms(2) by (simp add: same_shape_def frame_def same_books_def)
  show "sys_ok (managers ((coord k)\<lparr>managers := map f (managers (coord k))\<rparr>)) (c_pool ((coord k)\<lparr>managers := map f (managers (coord k))\<rparr>))"
    using sys_ok_map [OF _ assms(2), of "managers (coord k)" "c_pool (coord k)"] assms(1) by (simp add: kv_ok_def pool_of_def)
qed

lemma kv_ok_pool:
  assumes "kv_ok k" "pool_inv p'" "config p' = config (pool_of k)" "\<And>b. ref_of p' b = ref_of (pool_of k) b"
    and "\<And>b. hash_of p' b = hash_of (pool_of k) b \<or> hash_of p' b = None"
  shows "kv_ok (with_pool p' k)"
proof -
  have "kv_ok (k\<lparr>coord := (coord k)\<lparr>c_pool := p'\<rparr>\<rparr>)"
  proof (rule kv_ok_shape [OF assms(1)])
    show "same_shape (coord k) ((coord k)\<lparr>c_pool := p'\<rparr>)" using assms(3) by (simp add: same_shape_def frame_def pool_of_def)
    show "sys_ok (managers ((coord k)\<lparr>c_pool := p'\<rparr>)) (c_pool ((coord k)\<lparr>c_pool := p'\<rparr>))"
      using sys_ok_view [of "managers (coord k)" "pool_of k" p'] assms by (simp add: kv_ok_def)
  qed
  then show ?thesis by (simp add: with_pool_def)
qed

lemma kv_ok_stats [simp]: "kv_ok (k\<lparr>prefix_stats := s\<rparr>) = kv_ok k"
  by (simp add: kv_ok_def pool_of_def)

section \<open>Each method keeps the invariant\<close>


lemma touch_step:
  assumes B: "books_ok m p"
  shows "step_ok m p (touch_req rid m) p"
proof -
  note D = books_okD [OF B]
  have "replaces rid (blocks_get rid m) (num_cached rid m) m (touch_req rid m)"
    unfolding touch_req_def by (rule replaces_set [OF D(8)])
  then show ?thesis by (rule step_replace [OF B _ D(1) refl]) (use D in \<open>auto simp: fresh_tail_def\<close>)
qed

interpretation common_pass: manager_pass
  "\<lambda>i m p. let (n, m') = get_num_common_prefix_blocks rid m p in Inr (n, m', p)" "\<lambda>i ms p. True" "\<lambda>i m a m'. True"
  for rid
proof
  show "\<exists>a m' p'. (let (n, m') = get_num_common_prefix_blocks rid m p in Inr (n, m', p)) = Inr (a, m', p') \<and> step_ok m p m' p'
      \<and> True \<and> True" if "books_ok m p" for m p i ms
    using that touch_step [OF that, of rid] by (simp add: get_num_common_prefix_blocks_def Let_def step_ok_def)
qed

lemma coord_free_ok:
  assumes "sys_ok (managers c) (c_pool c)"
  shows "\<exists>c'. coord_free rid c = Inr c' \<and> sys_ok (managers c') (c_pool c') \<and> same_shape c c'
    \<and> (\<forall>j<length (managers c). num_cached_block (managers c' ! j) rid = None
         \<and> req_to_blocks (managers c' ! j) = dict_del rid (req_to_blocks (managers c ! j)))"
  using free_pass.pass_on [OF assms, of rid] by (auto simp: coord_free_def)

lemma kv_free_ok:
  assumes "kv_ok k"
  shows "\<exists>k'. kv_free r k = Inr k' \<and> kv_ok k' \<and> config (pool_of k') = config (pool_of k)
    \<and> length (managers (coord k')) = length (managers (coord k))
    \<and> (\<forall>j<length (managers (coord k)). num_cached_block (managers (coord k') ! j) (request_id r) = None
         \<and> req_to_blocks (managers (coord k') ! j) = dict_del (request_id r) (req_to_blocks (managers (coord k) ! j)))"
proof -
  have "sys_ok (managers (coord k)) (c_pool (coord k))" using assms by (simp add: kv_ok_def pool_of_def)
  from coord_free_ok [OF this, of "request_id r"] obtain c' where c': "coord_free (request_id r) (coord k) = Inr c'"
    "sys_ok (managers c') (c_pool c')" "same_shape (coord k) c'"
    "\<forall>j<length (managers (coord k)). num_cached_block (managers c' ! j) (request_id r) = None
         \<and> req_to_blocks (managers c' ! j) = dict_del (request_id r) (req_to_blocks (managers (coord k) ! j))" by blast
  show ?thesis
    by (intro exI [of _ "k\<lparr>coord := c'\<rparr>"])
      (use c' kv_ok_shape [OF assms c'(3,2)] in \<open>simp add: kv_free_def pool_of_def same_shape_def\<close>)
qed

lemma kv_skip_ok:
  assumes "kv_ok k"
  shows "\<exists>k'. kv_remove_skipped_blocks rid t k = Inr k' \<and> kv_ok k'"
proof -
  have "sys_ok (managers (coord k)) (c_pool (coord k))" "all_decoder (coord k)" using assms by (simp_all add: kv_ok_def pool_of_def)
  from skip_phase [OF this, of rid t] show ?thesis
    using kv_ok_shape [OF assms] by (auto simp: kv_remove_skipped_blocks_def)
qed

lemma kv_common_ok:
  assumes "kv_ok k"
  shows "\<exists>ns k'. kv_num_common_prefix_blocks rid k = Inr (ns, k') \<and> kv_ok k'"
proof (cases "c_kind (coord k) = NoPrefixCacheCoordinator")
  case True
  then show ?thesis using assms by (simp add: kv_num_common_prefix_blocks_def coord_num_common_prefix_blocks_def)
next
  case False
  have "sys_ok (managers (coord k)) (c_pool (coord k))" using assms by (simp add: kv_ok_def pool_of_def)
  from common_pass.pass_on [OF this, of rid] show ?thesis
    using kv_ok_shape [OF assms] False by (auto simp: kv_num_common_prefix_blocks_def coord_num_common_prefix_blocks_def)
qed

lemma kv_evict_ok:
  assumes "kv_ok k" "\<forall>i\<in>set ids. 0 \<le> i \<and> i < num_gpu_blocks (pool_of k)"
  shows "\<exists>k'. kv_evict_blocks ids k = Inr k' \<and> kv_ok k'"
proof -
  have P: "pool_inv (pool_of k)" using assms(1) by (simp add: kv_ok_def sys_ok_def)
  obtain p' where p': "evict_blocks ids (pool_of k) = Inr p'" "pool_inv p'" "config p' = config (pool_of k)"
    "view p' = (view (pool_of k))\<lparr>pv_hash := (\<lambda>b. if ref_id b \<in> set ids then None else hash_of (pool_of k) b)\<rparr>"
    using evict_blocks_effect [OF P assms(2)] by blast
  have "ref_of p' b = ref_of (pool_of k) b" "hash_of p' b = hash_of (pool_of k) b \<or> hash_of p' b = None" for b
    using fun_cong [OF view_eqD(2) [OF p'(4)], of b] fun_cong [OF view_eqD(3) [OF p'(4)], of b] by auto
  then have "kv_ok (with_pool p' k)" by (intro kv_ok_pool [OF assms(1) p'(2,3)])
  then show ?thesis using p'(1) by (simp add: kv_evict_blocks_def)
qed

lemma kv_reset_ok:
  assumes "kv_ok k" "kv_reset_prefix_cache k = Inr (ok, k')"
  shows "kv_ok k'"
proof -
  let ?p = "pool_of k" and ?p' = "snd (reset_prefix_cache (pool_of k))"
  have P: "pool_inv ?p" using assms(1) by (simp add: kv_ok_def sys_ok_def)
  note e = reset_prefix_cache_effect [OF P]
  have "ref_of ?p' b = ref_of ?p b" "hash_of ?p' b = hash_of ?p b \<or> hash_of ?p' b = None" for b
    using fun_cong [OF view_eqD(2) [OF e(4)], of b] fun_cong [OF view_eqD(3) [OF e(4)], of b] by (auto split: if_splits)
  then have "kv_ok (with_pool ?p' k)" by (intro kv_ok_pool [OF assms(1) e(2,3)])
  then show ?thesis
    using assms(2) by (auto simp: kv_reset_prefix_cache_def Let_def split: prod.splits if_splits option.splits)
qed

lemma kv_lookup_ok: "kv_ok k \<Longrightarrow> get_computed_blocks r k = Inr (res, k') \<Longrightarrow> kv_ok k'"
  by (auto simp: get_computed_blocks_def split: if_splits option.splits)

lemma kv_events_ok:
  assumes "kv_ok k"
  shows "kv_ok (snd (kv_take_events k))"
proof -
  let ?p' = "snd (take_events (pool_of k))"
  have v: "view ?p' = view (pool_of k)" "config ?p' = config (pool_of k)" and "pool_inv ?p' = pool_inv (pool_of k)"
    by (simp_all add: take_events_def view_def config_def pool_except_def usable_def blk_def)
  then have "kv_ok (with_pool ?p' k)"
    using assms fun_cong [OF view_eqD(2) [OF v(1)]] fun_cong [OF view_eqD(3) [OF v(1)]]
    by (intro kv_ok_pool [OF assms]) (simp_all add: kv_ok_def sys_ok_def)
  then show ?thesis by (simp add: kv_take_events_def case_prod_unfold Let_def)
qed

lemma each_manager_keeps:
  assumes "each_manager f i ms p = Inr (as, ms', p')" "\<And>i m p a m' p'. m \<in> set ms \<Longrightarrow> f i m p = Inr (a, m', p') \<Longrightarrow> m' = m \<and> p' = p"
  shows "ms' = ms \<and> p' = p"
  using assms
proof (induction ms arbitrary: i p as ms')
  case (Cons m ms)
  then obtain a m' p1 bs ns where s: "f i m p = Inr (a, m', p1)" "each_manager f (Suc i) ms p1 = Inr (bs, ns, p')" "ms' = m' # ns"
    by (auto split: prod.splits)
  then have "m' = m" "p1 = p" using Cons.prems(2) [of m i p a m' p1] by simp_all
  moreover have "ns = ms \<and> p' = p1" by (rule Cons.IH [OF s(2)]) (rule Cons.prems(2), simp_all)
  ultimately show ?case using s(3) by simp
qed simp

lemma kv_fit_ok:
  assumes "kv_ok k" "can_fit_full_sequence r nn computed ne n_enc k = Inr (b, k')"
  shows "k' = k"
proof -
  have dec: "m_class m \<noteq> MambaManager" if "m \<in> set (managers (coord k))" for m
    using assms(1) that decoder_class(1) by (auto simp: kv_ok_def)
  have "c' = coord k" if num: "coord_num_blocks_to_allocate rid nt cs n_enc t nm (coord k) = Inr (n, c')" for rid nt cs t nm n c'
  proof -
    define F where "F = (\<lambda>i m p. bindE (if is_cross m then get_num_blocks_to_allocate rid n_enc [] 0 n_enc m p
                     else bindE (nth_or_raise cs i) (\<lambda>nc. get_num_blocks_to_allocate rid nt nc t nm m p))
                (\<lambda>(n, m'). Inr (n, m', p)))"
    obtain as ms p where e: "each_manager F 0 (managers (coord k)) (c_pool (coord k)) = Inr (as, ms, p)"
      "c' = (coord k)\<lparr>managers := ms, c_pool := p\<rparr>"
      using num [unfolded coord_num_blocks_to_allocate_def, folded F_def] by (auto simp: on_managers_def)
    have "ms = managers (coord k) \<and> p = c_pool (coord k)"
      by (rule each_manager_keeps [OF e(1)]) (use dec in \<open>auto simp: F_def get_num_blocks_to_allocate_def split: if_splits\<close>)
    then show ?thesis using e(2) by simp
  qed
  then show ?thesis using assms(2) by (fastforce simp: can_fit_full_sequence_def Let_def)
qed

lemma kv_cache_ok:
  assumes K: "kv_ok k" and "k_enable_caching k \<longrightarrow> int (length (block_hashes r)) = num_tokens r div hash_block_size (pool_of k)"
    and "n \<le> num_tokens r" "\<forall>m\<in>set (managers (coord k)). n \<le> int (length (blocks_get (request_id r) m)) * m_block_size m"
  shows "\<exists>r' k'. kv_cache_blocks_of r n k = Inr (r', k') \<and> kv_ok k'"
proof (cases "k_enable_caching k")
  case True
  have "sys_ok (managers (coord k)) (c_pool (coord k))" "all_decoder (coord k)" "0 < hash_block_size (c_pool (coord k))"
    "enable_caching (c_pool (coord k))" "\<forall>m\<in>set (managers (coord k)). hash_block_size (c_pool (coord k)) dvd m_block_size m"
    using K True by (auto simp: kv_ok_def pool_of_def)
  from cache_phase [OF this _ assms(3,4)] show ?thesis
    using assms(2) True kv_ok_shape [OF K] by (auto simp: kv_cache_blocks_of_def pool_of_def)
qed (use K in \<open>simp add: kv_cache_blocks_of_def\<close>)

section \<open>The state machine\<close>

inductive kv_step :: "kv_manager \<Rightarrow> kv_manager \<Rightarrow> bool" where
  step_alloc: "slots_ready r nnc (case computed of Some b \<Rightarrow> b | None \<Rightarrow> KVEmpty) n_ext k \<Longrightarrow> 0 \<le> n_new \<Longrightarrow> 0 \<le> n_look \<Longrightarrow>
     allocate_slots r n_new nnc computed n_look n_ext delay n_enc k = Inr (res, r', k') \<Longrightarrow> kv_step k k'"
| step_cache: "(k_enable_caching k \<longrightarrow> int (length (block_hashes r)) = num_tokens r div hash_block_size (pool_of k)) \<Longrightarrow>
     n \<le> num_tokens r \<Longrightarrow>
     \<forall>m\<in>set (managers (coord k)). n \<le> int (length (blocks_get (request_id r) m)) * m_block_size m \<Longrightarrow>
     kv_cache_blocks_of r n k = Inr (r', k') \<Longrightarrow> kv_step k k'"
| step_free: "kv_free r k = Inr k' \<Longrightarrow> kv_step k k'"
| step_skip: "kv_remove_skipped_blocks rid t k = Inr k' \<Longrightarrow> kv_step k k'"
| step_evict: "\<forall>i\<in>set ids. 0 \<le> i \<and> i < num_gpu_blocks (pool_of k) \<Longrightarrow> kv_evict_blocks ids k = Inr k' \<Longrightarrow> kv_step k k'"
| step_reset: "kv_reset_prefix_cache k = Inr (ok, k') \<Longrightarrow> kv_step k k'"
| step_lookup: "get_computed_blocks r k = Inr (res, k') \<Longrightarrow> kv_step k k'"
| step_fit: "can_fit_full_sequence r nn computed ne n_enc k = Inr (b, k') \<Longrightarrow> kv_step k k'"
| step_common: "kv_num_common_prefix_blocks rid k = Inr (ns, k') \<Longrightarrow> kv_step k k'"
| step_stats: "kv_step k (snd (make_prefix_cache_stats k))"
| step_events: "kv_step k (snd (kv_take_events k))"
| step_new_ids: "kv_step k (snd (kv_take_new_block_ids k))"
| step_begin: "kv_step k (kv_new_step_starts k)"

lemma kv_alloc_ok:
  assumes "kv_ok k" "slots_ready r nnc (case computed of Some b \<Rightarrow> b | None \<Rightarrow> KVEmpty) n_ext k" "0 \<le> n_new" "0 \<le> n_look"
    and "allocate_slots r n_new nnc computed n_look n_ext delay n_enc k = Inr (res, r', k')"
  shows "kv_ok k'"
proof -
  have "n_new \<noteq> 0 \<or> n_ext \<noteq> 0" using assms(5) by (auto simp: allocate_slots_def)
  from allocate_slots_effect [OF assms(1-4) this, of n_enc delay] show ?thesis
    using assms(5) by (auto split: if_splits)
qed

lemma kv_step_ok: "kv_step k k' \<Longrightarrow> kv_ok k \<Longrightarrow> kv_ok k'"
proof (induction rule: kv_step.induct)
  case (step_alloc r nnc computed n_ext k n_new n_look delay n_enc res r' k')
  then show ?case using kv_alloc_ok by blast
next
  case (step_cache k r n r' k')
  then show ?case using kv_cache_ok [of k r n] by auto
next
  case (step_free r k k')
  then show ?case using kv_free_ok [of k r] by auto
next
  case (step_skip rid t k k')
  then show ?case using kv_skip_ok [of k rid t] by auto
next
  case (step_evict ids k k')
  then show ?case using kv_evict_ok [of k ids] by auto
next
  case (step_reset k ok k')
  then show ?case using kv_reset_ok by blast
next
  case (step_lookup r k res k')
  then show ?case using kv_lookup_ok by blast
next
  case (step_fit r nn computed ne n_enc k b k')
  then show ?case using kv_fit_ok by blast
next
  case (step_common rid k ns k')
  then show ?case using kv_common_ok [of k rid] by auto
next
  case (step_stats k)
  then show ?case by (simp add: make_prefix_cache_stats_def)
next
  case (step_events k)
  then show ?case by (rule kv_events_ok)
next
  case (step_new_ids k)
  then show ?case
    using kv_ok_managers [of k "\<lambda>m. snd (take_new_block_ids m)"]
    by (simp add: kv_take_new_block_ids_def Let_def same_books_def take_new_block_ids_def static_def)
next
  case (step_begin k)
  then show ?case
    using kv_ok_managers [of k new_step_starts]
    by (simp add: kv_new_step_starts_def coord_new_step_starts_def same_books_def new_step_starts_def static_def)
qed

section \<open>Construction\<close>

text \<open>The configurations covered: decoder groups whose block sizes are multiples of the hash block size, without
  context parallelism. Prefix caching with one group needs equal block sizes, with several groups at least
  two different specs, as the constructors assert.\<close>

definition decoder_spec :: "kv_cache_spec \<Rightarrow> bool" where
  "decoder_spec s = (case s of
      FullAttentionSpec a hv w c \<Rightarrow> True
    | MLAAttentionSpec a hv w c d \<Rightarrow> True
    | SlidingWindowSpec a w \<Rightarrow> 1 \<le> w
    | ChunkedLocalAttentionSpec a c \<Rightarrow> 0 < c
    | _ \<Rightarrow> False)"

definition wf_config :: "kv_cache_config \<Rightarrow> bool \<Rightarrow> int \<Rightarrow> bool" where
  "wf_config cfg caching hbs \<longleftrightarrow> 0 < num_blocks cfg \<and> 0 < hbs \<and> int (length (kv_cache_groups cfg)) < 2 ^ 32
     \<and> (\<forall>g\<in>set (kv_cache_groups cfg). decoder_spec (group_spec g) \<and> 0 < block_size (group_spec g) \<and> hbs dvd block_size (group_spec g))
     \<and> (caching \<longrightarrow>
          (if length (kv_cache_groups cfg) = 1 then hbs = block_size (group_spec (hd (kv_cache_groups cfg)))
           else \<exists>g\<in>set (kv_cache_groups cfg). \<exists>h\<in>set (kv_cache_groups cfg). group_spec g \<noteq> group_spec h))"

definition fresh_manager :: "kv_cache_spec \<Rightarrow> bool \<Rightarrow> int \<Rightarrow> block_pool \<Rightarrow> manager" where
  "fresh_manager spec caching i p = base_init (the (spec_manager_map spec)) spec caching i 1 1 p"

lemma decoder_spec_class:
  assumes "decoder_spec s"
  shows "\<exists>cls. spec_manager_map s = Some cls \<and> cls \<noteq> SinkFullAttentionManager \<and> decoder_group (fresh_manager s caching i p)"
  using assms by (cases s) (auto simp: decoder_spec_def fresh_manager_def base_init_def decoder_group_def)

lemma make_managers_ok:
  assumes "\<forall>g\<in>set gs. decoder_spec (group_spec g)"
  shows "make_managers gs caching i 1 1 p =
    Inr (map (\<lambda>j. fresh_manager (group_spec (gs ! j)) caching (i + int j) p) [0..<length gs], p)"
  using assms
proof (induction gs arbitrary: i)
  case (Cons g gs)
  obtain cls where cls: "spec_manager_map (group_spec g) = Some cls" "cls \<noteq> SinkFullAttentionManager"
    using decoder_spec_class [of "group_spec g" caching i p] Cons.prems by auto
  have "get_manager_for_kv_cache_spec (group_spec g) caching i 1 1 p = Inr (fresh_manager (group_spec g) caching i p, p)"
    using cls by (simp add: get_manager_for_kv_cache_spec_def fresh_manager_def Let_def)
  moreover have "make_managers gs caching (i + 1) 1 1 p =
      Inr (map (\<lambda>j. fresh_manager (group_spec (gs ! j)) caching (i + 1 + int j) p) [0..<length gs], p)"
    using Cons by simp
  moreover have "[0..<length (g # gs)] = 0 # map Suc [0..<length gs]" by (simp add: upt_conv_Cons map_Suc_upt del: upt_Suc)
  ultimately show ?case by (simp add: comp_def add.assoc del: upt_Suc)
qed simp

lemma fresh_sys_ok:
  assumes p: "pool_inv p" "\<And>b. ref_of p b = 0" "\<And>b. hash_of p b = None"
    and ms: "\<And>m. m \<in> set ms \<Longrightarrow> req_to_blocks m = [] \<and> num_cached_block m = Map.empty \<and> m_null_block m = Blk 0
      \<and> 0 < m_block_size m \<and> valid_group (m_group_id m) \<and> m_enable_caching m = enable_caching p"
  shows "sys_ok ms p"
proof -
  have "total_holds ms b = 0" for b using ms by (induction ms) (auto simp: hold_sum_def)
  moreover have "manager_ok p m \<and> fresh_tail p m" if "m \<in> set ms" for m
    using ms [OF that] by (auto simp: manager_ok_def fresh_tail_def blocks_get_def num_cached_def)
  ultimately show ?thesis using p by (auto simp: sys_ok_def)
qed

text \<open>A coordinator without requests, its groups as in the configuration.\<close>

definition fresh_coordinator :: "kv_cache_config \<Rightarrow> bool \<Rightarrow> int \<Rightarrow> coordinator \<Rightarrow> bool" where
  "fresh_coordinator cfg caching hbs c \<longleftrightarrow> sys_ok (managers c) (c_pool c)
     \<and> num_gpu_blocks (c_pool c) = num_blocks cfg \<and> enable_caching (c_pool c) = caching \<and> hash_block_size (c_pool c) = hbs
     \<and> c_config c = cfg \<and> c_enable_caching c = caching \<and> c_hash_block_size c = hbs \<and> c_dcp c = 1 \<and> c_pcp c = 1
     \<and> managers c = map (\<lambda>j. fresh_manager (group_spec (kv_cache_groups cfg ! j)) caching (int j) (c_pool c)) [0..<length (kv_cache_groups cfg)]
     \<and> length (free_of (c_pool c)) = nat (num_blocks cfg) - 1"

lemma base_coordinator_ok:
  assumes wf: "wf_config cfg caching hbs"
  shows "\<exists>c. base_coordinator kind cfg mml eagle caching events 1 1 hbs env = Inr c \<and> fresh_coordinator cfg caching hbs c"
proof -
  obtain mc ih digest where env: "env = (mc, ih, digest)" by (cases env)
  have w: "0 < num_blocks cfg" "int (length (kv_cache_groups cfg)) < 2 ^ 32"
    "\<forall>g\<in>set (kv_cache_groups cfg). decoder_spec (group_spec g)" "\<forall>g\<in>set (kv_cache_groups cfg). 0 < block_size (group_spec g)"
    using wf by (auto simp: wf_config_def)
  obtain p where p: "init_pool (num_blocks cfg) caching hbs events mc ih digest = Inr p" "pool_inv p"
    "num_gpu_blocks p = num_blocks cfg" "enable_caching p = caching" "hash_block_size p = hbs"
    "view p = \<lparr>pv_free = map Blk [1..<nat (num_blocks cfg)], pv_ref = (\<lambda>_. 0), pv_hash = (\<lambda>_. None)\<rparr>"
    using init_pool_effect [OF w(1)] by blast
  let ?ms = "map (\<lambda>j. fresh_manager (group_spec (kv_cache_groups cfg ! j)) caching (int j) p) [0..<length (kv_cache_groups cfg)]"
  have mk: "make_managers (kv_cache_groups cfg) caching 0 1 1 p = Inr (?ms, p)" using make_managers_ok [OF w(3)] by simp
  have "ref_of p b = 0" "hash_of p b = None" for b
    using fun_cong [OF view_eqD(2) [OF p(6)], of b] fun_cong [OF view_eqD(3) [OF p(6)], of b] by simp_all
  then have "sys_ok ?ms p"
    using p(2,4) pool_exceptD(11) [OF p(2)] w(2,4)
    by (intro fresh_sys_ok) (auto simp: fresh_manager_def base_init_def valid_group_def)
  then show ?thesis
    using p(1,3-5) mk view_eqD(1) [OF p(6)] by (simp add: base_coordinator_def env fresh_coordinator_def)
qed

text \<open>The grouping of equal specs succeeds and keeps every spec.\<close>

definition classed :: "attention_group list \<Rightarrow> bool" where
  "classed gs \<longleftrightarrow> (\<forall>(s, ids, c)\<in>set gs. spec_manager_map s = Some c)"

lemma add_to_group_ok:
  "classed gs \<Longrightarrow> spec_manager_map spec = Some cls \<Longrightarrow>
     \<exists>gs'. add_to_group spec i cls gs = Inr gs' \<and> classed gs' \<and> fst ` set gs' = insert spec (fst ` set gs)"
proof (induction gs)
  case Nil
  then show ?case by (simp add: classed_def)
next
  case (Cons g gs)
  obtain s ids c where g: "g = (s, ids, c)" by (cases g)
  show ?case
  proof (cases "s = spec")
    case True
    then show ?thesis using Cons.prems g by (auto simp: classed_def)
  next
    case False
    have "classed gs" using Cons.prems(1) by (simp add: classed_def)
    then obtain gs' where "add_to_group spec i cls gs = Inr gs'" "classed gs'" "fst ` set gs' = insert spec (fst ` set gs)"
      using Cons.IH Cons.prems(2) by blast
    then show ?thesis using False g Cons.prems(1) by (auto simp: classed_def)
  qed
qed

lemma split_groups_ok:
  "classed acc \<Longrightarrow> (\<And>g m. (g, m) \<in> set gms \<Longrightarrow> spec_manager_map (group_spec g) = Some (m_class m)) \<Longrightarrow>
     \<exists>gs. split_groups gms i acc = Inr gs \<and> fst ` set gs = fst ` set acc \<union> (\<lambda>(g, m). group_spec g) ` set gms"
proof (induction gms arbitrary: i acc)
  case Nil
  then show ?case by simp
next
  case (Cons gm gms)
  obtain g m where gm: "gm = (g, m)" by (cases gm)
  obtain acc' where acc': "add_to_group (group_spec g) i (m_class m) acc = Inr acc'" "classed acc'"
    "fst ` set acc' = insert (group_spec g) (fst ` set acc)"
    using add_to_group_ok [OF Cons.prems(1)] Cons.prems(2) gm by (metis list.set_intros(1))
  obtain gs where "split_groups gms (Suc i) acc' = Inr gs" "fst ` set gs = fst ` set acc' \<union> (\<lambda>(g, m). group_spec g) ` set gms"
    using Cons.IH [OF acc'(2)] Cons.prems(2) by (metis list.set_intros(2))
  then show ?case using acc' gm by auto
qed

lemma get_coordinator_ok:
  assumes wf: "wf_config cfg caching hbs"
  shows "\<exists>c. get_kv_cache_coordinator cfg mml eagle caching events 1 1 hbs env = Inr c \<and> fresh_coordinator cfg caching hbs c"
proof -
  let ?gs = "kv_cache_groups cfg"
  obtain c where c: "base_coordinator (if \<not> caching then NoPrefixCacheCoordinator else if length ?gs = 1 then UnitaryCoordinator
      else HybridCoordinator) cfg mml eagle caching events 1 1 hbs env = Inr c" "fresh_coordinator cfg caching hbs c"
    using base_coordinator_ok [OF wf] by blast
  note F = c(2) [unfolded fresh_coordinator_def]
  consider (none) "\<not> caching" | (one) "caching" "length ?gs = 1" | (many) "caching" "length ?gs \<noteq> 1" by blast
  then show ?thesis
  proof cases
    case none
    then show ?thesis using c by (simp add: get_kv_cache_coordinator_def)
  next
    case one
    then have "unitary_checks c = Inr c" using F wf by (auto simp: unitary_checks_def unitary_block_size_def wf_config_def)
    then show ?thesis using one c by (simp add: get_kv_cache_coordinator_def)
  next
    case many
    have "spec_manager_map (group_spec g) = Some (m_class m)" if gm: "(g, m) \<in> set (zip ?gs (managers c))" for g m
    proof -
      obtain j where j: "j < length ?gs" "g = ?gs ! j" "m = managers c ! j" using gm by (auto simp: in_set_zip)
      then have "m = fresh_manager (group_spec g) caching (int j) (c_pool c)" using F by simp
      moreover have "decoder_spec (group_spec g)" using wf j by (simp add: wf_config_def)
      ultimately show ?thesis
        using decoder_spec_class [of "group_spec g" caching "int j" "c_pool c"] by (auto simp: fresh_manager_def base_init_def)
    qed
    then obtain gs where gs: "split_groups (zip ?gs (managers c)) 0 [] = Inr gs"
      "fst ` set gs = (\<lambda>(g, m). group_spec g) ` set (zip ?gs (managers c))"
      using split_groups_ok [of "[]" "zip ?gs (managers c)" 0] by (auto simp: classed_def)
    have "length (managers c) = length ?gs" using F by simp
    then have "fst ` set (zip ?gs (managers c)) = set ?gs" by (metis list.set_map map_fst_zip)
    moreover have "(\<lambda>(g, m). group_spec g) ` set (zip ?gs (managers c)) = group_spec ` fst ` set (zip ?gs (managers c))" by force
    ultimately have specs: "fst ` set gs = group_spec ` set ?gs" using gs(2) by simp
    obtain g h where gh: "g \<in> set ?gs" "h \<in> set ?gs" "group_spec g \<noteq> group_spec h" using wf many by (auto simp: wf_config_def)
    have "length gs > 1"
    proof (rule ccontr)
      assume "\<not> length gs > 1"
      then have "gs = [] \<or> (\<exists>x. gs = [x])" by (cases gs; cases "tl gs") auto
      then have "\<exists>x. group_spec ` set ?gs \<subseteq> {x}" unfolding specs [symmetric] by auto
      then show False using gh by auto
    qed
    then have "\<exists>c'. hybrid_checks c = Inr c' \<and> fresh_coordinator cfg caching hbs c'"
      using F wf gs(1) by (auto simp: hybrid_checks_def wf_config_def list_all_iff dvd_eq_mod_eq_0 fresh_coordinator_def)
    then show ?thesis using many c by (simp add: get_kv_cache_coordinator_def)
  qed
qed

lemma fresh_kv_ok:
  assumes wf: "wf_config cfg caching hbs"
  shows "\<exists>k. init_kv_manager cfg mml hbs caching eagle stats events 1 1 env = Inr k \<and> kv_ok k
    \<and> k_max_model_len k = mml \<and> fresh_coordinator cfg caching hbs (coord k)"
proof -
  obtain c where c: "get_kv_cache_coordinator cfg mml eagle caching events 1 1 hbs env = Inr c" "fresh_coordinator cfg caching hbs c"
    using get_coordinator_ok [OF wf] by blast
  have "decoder_group (fresh_manager (group_spec g) caching i p) \<and> hbs dvd m_block_size (fresh_manager (group_spec g) caching i p)"
    if "g \<in> set (kv_cache_groups cfg)" for g i p
    using decoder_spec_class [of "group_spec g" caching i p] wf that by (auto simp: wf_config_def fresh_manager_def base_init_def)
  then show ?thesis
    using c wf by (auto simp: init_kv_manager_def kv_ok_def pool_of_def fresh_coordinator_def wf_config_def)
qed

section \<open>Properties\<close>

text \<open>on a well-formed configuration the constructor succeeds, for every kind of coordinator; the new
  cache manager satisfies the invariant, no request holds a block, and all blocks but the null block are free.\<close>

theorem kv_init_correct:
  assumes "wf_config cfg caching hbs"
  shows "\<exists>k. init_kv_manager cfg mml hbs caching eagle stats events 1 1 env = Inr k \<and> kv_ok k
    \<and> get_num_free_blocks (pool_of k) = num_blocks cfg - 1 \<and> (\<forall>rid. kv_get_blocks rid k = KVEmpty)"
proof -
  obtain k where k: "init_kv_manager cfg mml hbs caching eagle stats events 1 1 env = Inr k" "kv_ok k"
    "fresh_coordinator cfg caching hbs (coord k)" using fresh_kv_ok [OF assms] by blast
  have "blocks_get rid m = []" if "m \<in> set (managers (coord k))" for rid m
    using k(3) that by (auto simp: fresh_coordinator_def fresh_manager_def base_init_def blocks_get_def)
  then have "kv_get_blocks rid k = KVEmpty" for rid
    by (auto simp: kv_get_blocks_def create_kv_cache_blocks_def coord_get_blocks_def list_ex_iff)
  moreover have "get_num_free_blocks (pool_of k) = int (length (free_of (c_pool (coord k))))"
    using free_count [of "managers (coord k)" "pool_of k"] k(2) by (simp add: kv_ok_def pool_of_def)
  moreover have "length (free_of (c_pool (coord k))) = nat (num_blocks cfg) - 1" "0 < num_blocks cfg"
    using k(3) assms by (simp_all add: fresh_coordinator_def wf_config_def)
  ultimately have "kv_get_blocks rid k = KVEmpty" "get_num_free_blocks (pool_of k) = num_blocks cfg - 1" for rid by auto
  then show ?thesis using k by blast
qed


text \<open>C3 (reachable_no_leak): For groups of full, multi-head latent, sliding-window and chunked-local attention, with or
  without prefix caching and without context parallelism: after any sequence of calls on a new cache manager
  (allocations and caching as the scheduler requests them, external tokens only when there is a single group; frees,
  window trimming, evictions, resets, lookups, statistics and event queries), the reference count of every block is
  the number of entries for it in the block lists of all requests in all groups, a block is in the free queue exactly
  when nobody holds it, and it is queued there once.\<close>

theorem reachable_no_leak:
  assumes "wf_config cfg caching hbs" "init_kv_manager cfg mml hbs caching eagle stats events 1 1 env = Inr k0"
    and "kv_step\<^sup>*\<^sup>* k0 k" "b \<in> usable (pool_of k)"
  shows "ref_of (pool_of k) b = total_holds (managers (coord k)) b
    \<and> (b \<in> set (free_of (pool_of k)) \<longleftrightarrow> total_holds (managers (coord k)) b = 0)
    \<and> distinct (free_of (pool_of k))"
proof -
  have "kv_ok k0" using fresh_kv_ok [OF assms(1)] assms(2) by (metis Inr_inject)
  with assms(3) have "kv_ok k" by (induction rule: rtranclp_induct) (auto intro: kv_step_ok)
  then have "sys_ok (managers (coord k)) (pool_of k)" by (simp add: kv_ok_def)
  then show ?thesis using assms(4) pool_exceptD(4,9) [of "{}" "pool_of k"] by (auto simp: sys_ok_def)
qed

lemma free_each_ok:
  assumes "kv_ok k"
  shows "\<exists>k'. foldE kv_free rs k = Inr k' \<and> kv_ok k' \<and> config (pool_of k') = config (pool_of k)
    \<and> length (managers (coord k')) = length (managers (coord k))
    \<and> (\<forall>j<length (managers (coord k)).
         fst ` set (req_to_blocks (managers (coord k') ! j)) \<subseteq> fst ` set (req_to_blocks (managers (coord k) ! j)) - request_id ` set rs)"
  using assms
proof (induction rs arbitrary: k)
  case Nil
  then show ?case by simp
next
  case (Cons r rs)
  obtain k1 where k1: "kv_free r k = Inr k1" "kv_ok k1" "config (pool_of k1) = config (pool_of k)"
    "length (managers (coord k1)) = length (managers (coord k))"
    "\<forall>j<length (managers (coord k)). req_to_blocks (managers (coord k1) ! j) = dict_del (request_id r) (req_to_blocks (managers (coord k) ! j))"
    using kv_free_ok [OF Cons.prems, of r] by auto
  obtain k' where k': "foldE kv_free rs k1 = Inr k'" "kv_ok k'" "config (pool_of k') = config (pool_of k1)"
    "length (managers (coord k')) = length (managers (coord k1))"
    "\<forall>j<length (managers (coord k1)).
         fst ` set (req_to_blocks (managers (coord k') ! j)) \<subseteq> fst ` set (req_to_blocks (managers (coord k1) ! j)) - request_id ` set rs"
    using Cons.IH [OF k1(2)] by blast
  have "fst ` set (req_to_blocks (managers (coord k1) ! j)) = fst ` set (req_to_blocks (managers (coord k) ! j)) - {request_id r}"
    if "j < length (managers (coord k))" for j using k1(5) that by (auto simp: dict_del_def)
  then have "fst ` set (req_to_blocks (managers (coord k') ! j)) \<subseteq> fst ` set (req_to_blocks (managers (coord k) ! j)) - request_id ` set (r # rs)"
    if "j < length (managers (coord k))" for j
    unfolding list.set image_insert by (subst Diff_insert2) (use k'(5) k1(4) that in simp)
  then show ?case using k1(1,3,4) k'(1-4) by simp
qed

text \<open>C23 (free_all_restores): On a consistent cache (groups of full, multi-head latent, sliding-window and chunked-local
  attention, no context parallelism) freeing every request that has blocks never fails, in any order and with
  repetitions, and afterwards all blocks but the null block are back in the free queue and no request holds anything.\<close>

theorem free_all_restores:
  assumes "kv_ok k" "\<forall>m\<in>set (managers (coord k)). fst ` set (req_to_blocks m) \<subseteq> request_id ` set rs"
  shows "\<exists>k'. foldE kv_free rs k = Inr k' \<and> kv_ok k' \<and> get_num_free_blocks (pool_of k') = num_gpu_blocks (pool_of k) - 1
    \<and> (\<forall>rid. kv_get_blocks rid k' = KVEmpty)"
proof -
  obtain k' where k': "foldE kv_free rs k = Inr k'" "kv_ok k'" "config (pool_of k') = config (pool_of k)"
    "length (managers (coord k')) = length (managers (coord k))"
    "\<forall>j<length (managers (coord k)).
         fst ` set (req_to_blocks (managers (coord k') ! j)) \<subseteq> fst ` set (req_to_blocks (managers (coord k) ! j)) - request_id ` set rs"
    using free_each_ok [OF assms(1), of rs] by blast
  have none: "req_to_blocks m = []" if m: "m \<in> set (managers (coord k'))" for m
  proof -
    obtain j where j: "j < length (managers (coord k))" "m = managers (coord k') ! j"
      using m unfolding in_set_conv_nth k'(4) by blast
    then have "fst ` set (req_to_blocks (managers (coord k) ! j)) \<subseteq> request_id ` set rs" using assms(2) by simp
    moreover have "fst ` set (req_to_blocks m) \<subseteq> fst ` set (req_to_blocks (managers (coord k) ! j)) - request_id ` set rs"
      using k'(5) j by simp
    ultimately have "fst ` set (req_to_blocks m) = {}" by (metis Diff_eq_empty_iff subset_empty)
    then show ?thesis by simp
  qed
  then have "kv_get_blocks rid k' = KVEmpty" for rid
    by (auto simp: kv_get_blocks_def create_kv_cache_blocks_def coord_get_blocks_def list_ex_iff blocks_get_def)
  moreover have S: "sys_ok (managers (coord k')) (pool_of k')" using k'(2) by (simp add: kv_ok_def)
  have "total_holds (managers (coord k')) b = 0" for b
    using none by (simp add: total_holds_def hold_sum_def cong: map_cong)
  then have "set (free_of (pool_of k')) = usable (pool_of k')"
    using S pool_exceptD(4) [of "{}" "pool_of k'"] by (auto simp: sys_ok_def)
  then have "card (usable (pool_of k')) = length (free_of (pool_of k'))"
    using S pool_exceptD(9) [of "{}" "pool_of k'"] distinct_card by (metis sys_ok_def)
  moreover have "card (usable (pool_of k')) = nat (num_gpu_blocks (pool_of k')) - 1" by (simp add: usable_def card_image inj_on_def)
  moreover have "0 < num_gpu_blocks (pool_of k')" using S pool_exceptD(10) [of "{}" "pool_of k'"] by (simp add: sys_ok_def)
  ultimately show ?thesis using k'(1,2) free_count [OF S] config_eqD(1) [OF k'(3)] by auto
qed

section \<open>A small cache\<close>

text \<open>Three usable blocks of two tokens, one full-attention group, and a request of three tokens.\<close>

definition sample_config :: kv_cache_config where
  "sample_config = \<lparr>num_blocks = 4, kv_cache_tensors = [],
     kv_cache_groups = [\<lparr>layer_names = [''l0''], group_spec = FullAttentionSpec
       \<lparr>af_block_size = 2, num_kv_heads = 1, head_size = 4, dtype = \<lparr>dt_name = ''bf16'', dt_size = 2\<rparr>, af_page_size_padded = None\<rparr> 4 None None\<rparr>]\<rparr>"

definition sample_request :: request where
  "sample_request = (plain_request ''a'' [4, 5, 6] 10)\<lparr>block_hashes := [[1, 9, 4, 5]]\<rparr>"

abbreviation sample_init :: "kv_manager res" where
  "sample_init \<equiv> init_kv_manager sample_config 16 2 True False False False 1 1 (None, False, \<lambda>_. [])"

lemma sample_wf: "wf_config sample_config True 2"
  by (simp add: wf_config_def sample_config_def decoder_spec_def)

lemma sample_kv:
  "\<exists>k p. sample_init = Inr k \<and> kv_ok k \<and> k_max_model_len k = 16 \<and> pool_of k = p \<and> hash_block_size p = 2 \<and> num_gpu_blocks p = 4
     \<and> get_num_free_blocks p = 3 \<and> managers (coord k) = [fresh_manager (group_spec (hd (kv_cache_groups sample_config))) True 0 p]
     \<and> slots_ready sample_request 0 KVEmpty 0 k"
proof -
  obtain k where k: "sample_init = Inr k" "kv_ok k" "k_max_model_len k = 16" "fresh_coordinator sample_config True 2 (coord k)"
    using fresh_kv_ok [OF sample_wf] by blast
  have m: "managers (coord k) = [fresh_manager (group_spec (hd (kv_cache_groups sample_config))) True 0 (pool_of k)]"
    using k(4) by (simp add: fresh_coordinator_def sample_config_def pool_of_def)
  have "get_num_free_blocks (pool_of k) = 3"
    using k(2,4) free_count [of "managers (coord k)" "pool_of k"] by (simp add: kv_ok_def fresh_coordinator_def pool_of_def sample_config_def)
  moreover have "slots_ready sample_request 0 KVEmpty 0 k"
  proof -
    have n: "num_kv_cache_groups k = 1" using k(2) m by (simp add: kv_ok_def)
    have h: "hash_block_size (pool_of k) = 2" using k(4) by (simp add: fresh_coordinator_def pool_of_def)
    show ?thesis
      unfolding slots_ready_def Let_def m k(3) h
      by (simp add: sample_request_def plain_request_def kv_lists_def n fresh_manager_def base_init_def sample_config_def)
  qed
  ultimately show ?thesis using k m by (simp add: fresh_coordinator_def pool_of_def sample_config_def)
qed

text \<open>Caching one block of a pool under the hash \<^term>\<open>[7 :: 8 word]\<close>.\<close>

lemma cache_one_block:
  assumes "pool_inv p" "hash_block_size p = 2" "b \<in> usable p" "hash_of p b = None" "valid_group g"
  shows "\<exists>p'. pool_inv p' \<and> config p' = config p \<and> view p' = (view p)\<lparr>pv_hash := (hash_of p)(b \<mapsto> group_key [7] g)\<rparr>"
proof -
  let ?r = "(plain_request ''a'' [4, 5] 10)\<lparr>block_hashes := [[7]]\<rparr>"
  have "\<exists>p' r'. cache_full_blocks ?r [b] (int 0) (int 1) 2 g p = Inr (p', r') \<and> pool_inv p' \<and> config p' = config p
      \<and> same_content ?r r' \<and> view p' = (view p)\<lparr>pv_hash := hash_of p ++ map_of (new_keys g (drop 0 (take 1 [b])) (drop 0 (hashes_for (hash_block_size p) 2 (block_hashes ?r))))\<rparr>"
    using assms by (intro cache_full_blocks_effect) (auto simp: hashes_for_def)
  moreover have "new_keys g [b] [[7]] = [(b, group_key [7] g)]" using usable_not_null [OF assms(3)] by (simp add: new_keys_def)
  ultimately show ?thesis using assms(2) by (auto simp: hashes_for_def)
qed

theorem kv_init_correct_witness:
  "\<exists>k. sample_init = Inr k \<and> kv_ok k \<and> get_num_free_blocks (pool_of k) = 3 \<and> kv_get_blocks ''a'' k = KVEmpty"
  using kv_init_correct [OF sample_wf, of 16 False False False "(None, False, \<lambda>_. [])"] by (auto simp: sample_config_def)


text \<open>After the allocation for the three tokens of the sample request it holds two blocks, and one is left.\<close>

lemma sample_alloc:
  "case sample_init of Inl _ \<Rightarrow> False
   | Inr k \<Rightarrow> (case allocate_slots sample_request 3 0 None 0 0 False 0 k of
       Inr (res, r', k') \<Rightarrow> get_num_free_blocks (pool_of k') = 1 \<and> num_gpu_blocks (pool_of k') = 4
         \<and> map req_to_blocks (managers (coord k')) = [[(''a'', [Blk 1, Blk 2])]] \<and> ref_of (pool_of k') (Blk 1) = 1
     | _ \<Rightarrow> False)"
  by code_simp

lemma sample_alloc_run:
  "\<exists>k0 k. sample_init = Inr k0 \<and> kv_step\<^sup>*\<^sup>* k0 k \<and> kv_ok k \<and> get_num_free_blocks (pool_of k) = 1
     \<and> num_gpu_blocks (pool_of k) = 4 \<and> ref_of (pool_of k) (Blk 1) = 1
     \<and> map req_to_blocks (managers (coord k)) = [[(''a'', [Blk 1, Blk 2])]]"
proof -
  obtain k0 where k0: "sample_init = Inr k0" "kv_ok k0" "slots_ready sample_request 0 KVEmpty 0 k0" using sample_kv by blast
  obtain res r' k where k: "allocate_slots sample_request 3 0 None 0 0 False 0 k0 = Inr (res, r', k)"
    "get_num_free_blocks (pool_of k) = 1" "num_gpu_blocks (pool_of k) = 4" "ref_of (pool_of k) (Blk 1) = 1"
    "map req_to_blocks (managers (coord k)) = [[(''a'', [Blk 1, Blk 2])]]"
    using sample_alloc k0(1) by (auto split: sum.splits prod.splits)
  have "kv_step k0 k" by (rule step_alloc [OF _ _ _ k(1)]) (use k0(3) in simp_all)
  then have "kv_step\<^sup>*\<^sup>* k0 k" "kv_ok k" using kv_step_ok k0(2) by blast+
  then show ?thesis using k0(1) k(2-5) by metis
qed

theorem reachable_no_leak_witness:
  "\<exists>k0 k. sample_init = Inr k0 \<and> kv_step\<^sup>*\<^sup>* k0 k \<and> total_holds (managers (coord k)) (Blk 1) = 1 \<and> Blk 1 \<notin> set (free_of (pool_of k))"
proof -
  obtain k0 k where k: "sample_init = Inr k0" "kv_step\<^sup>*\<^sup>* k0 k" "num_gpu_blocks (pool_of k) = 4" "ref_of (pool_of k) (Blk 1) = 1"
    using sample_alloc_run by (elim exE conjE) (rule that, assumption+)
  have "Blk 1 \<in> usable (pool_of k)" using k(3) by (auto simp: usable_def)
  from reachable_no_leak [OF sample_wf k(1,2) this] have
    "total_holds (managers (coord k)) (Blk 1) = 1" "Blk 1 \<notin> set (free_of (pool_of k))" unfolding k(4) by (metis zero_neq_one)+
  then show ?thesis using k(1,2) by blast
qed

theorem free_all_restores_witness:
  "\<exists>k0 k k'. sample_init = Inr k0 \<and> kv_step\<^sup>*\<^sup>* k0 k \<and> get_num_free_blocks (pool_of k) = 1
     \<and> foldE kv_free [sample_request] k = Inr k' \<and> get_num_free_blocks (pool_of k') = 3 \<and> kv_get_blocks ''a'' k' = KVEmpty"
proof -
  obtain k0 k where k: "sample_init = Inr k0" "kv_step\<^sup>*\<^sup>* k0 k" "kv_ok k" "get_num_free_blocks (pool_of k) = 1"
    "num_gpu_blocks (pool_of k) = 4" "map req_to_blocks (managers (coord k)) = [[(''a'', [Blk 1, Blk 2])]]"
    using sample_alloc_run by (elim exE conjE) (rule that, assumption+)
  have "fst ` set (req_to_blocks m) \<subseteq> request_id ` set [sample_request]" if "m \<in> set (managers (coord k))" for m
  proof -
    have "req_to_blocks m \<in> set (map req_to_blocks (managers (coord k)))" using that by simp
    then show ?thesis unfolding k(6) by (simp add: sample_request_def plain_request_def)
  qed
  then have "\<forall>m\<in>set (managers (coord k)). fst ` set (req_to_blocks m) \<subseteq> request_id ` set [sample_request]" by blast
  from free_all_restores [OF k(3) this] obtain k' where
    "foldE kv_free [sample_request] k = Inr k'" "get_num_free_blocks (pool_of k') = 3" "kv_get_blocks ''a'' k' = KVEmpty"
    unfolding k(5) by auto
  then show ?thesis using k(1,2,4) by metis
qed

end
