(* ===== verification/Hit_Correct.thy ===== *)
theory Hit_Correct
  imports Manager_Inv Cache_Hit
begin

text \<open>
  What a prefix search returns. A block hash is cached in a set of groups if every group has a block with the
  key of that hash; the search for full attention returns the longest such prefix (cut to the alignment), the
  search for a sliding window the longest prefix whose last window is cached.
\<close>

section \<open>Columns and rows of hits\<close>

definition cached_in :: "block_pool \<Rightarrow> int list \<Rightarrow> bytes \<Rightarrow> bool" where
  "cached_in p gs h \<longleftrightarrow> (\<forall>g\<in>set gs. \<exists>b. hash_of p b = Some (group_key h g))"

definition carries :: "block_pool \<Rightarrow> int \<Rightarrow> bytes \<Rightarrow> bref \<Rightarrow> bool" where
  "carries p g h b \<longleftrightarrow> b \<in> usable p \<and> hash_of p b = Some (group_key h g)"

lemma lookup_column:
  assumes "pool_inv p" "\<forall>g\<in>set gs. valid_group g" "gs \<noteq> []"
  shows "if cached_in p gs h
    then \<exists>b bs. get_cached_block p h gs = Inr (Some (b # bs)) \<and> list_all2 (\<lambda>g. carries p g h) gs (b # bs)
    else get_cached_block p h gs = Inr None"
proof -
  obtain hit where hit: "get_cached_block p h gs = Inr hit"
    "case hit of Some bs \<Rightarrow> list_all2 (\<lambda>g. carries p g h) gs bs | None \<Rightarrow> (\<exists>g\<in>set gs. \<forall>b. hash_of p b \<noteq> Some (group_key h g))"
    using get_cached_block_effect [OF assms(1,2), of h] unfolding carries_def by blast
  show ?thesis
  proof (cases hit)
    case None
    then show ?thesis using hit by (auto simp: cached_in_def)
  next
    case (Some bs)
    then have l: "list_all2 (\<lambda>g. carries p g h) gs bs" using hit(2) by simp
    then have "\<forall>g\<in>set gs. \<exists>b. carries p g h b" by (metis list_all2_conv_all_nth in_set_conv_nth)
    then have "cached_in p gs h" by (auto simp: cached_in_def carries_def)
    moreover obtain b bs' where "bs = b # bs'" using l assms(3) by (cases bs) auto
    ultimately show ?thesis using hit(1) l Some by auto
  qed
qed

text \<open>One row per group, one column per hash.\<close>

definition rows :: "block_pool \<Rightarrow> int list \<Rightarrow> bytes list \<Rightarrow> bref list list \<Rightarrow> bool" where
  "rows p gs hs cs \<longleftrightarrow> list_all2 (\<lambda>g c. list_all2 (carries p g) hs c) gs cs"

lemma rows_empty: "rows p gs [] (replicate (length gs) [])"
  by (simp add: rows_def list_all2_conv_all_nth)

lemma rows_append:
  assumes "rows p gs hs cs" "list_all2 (\<lambda>g. carries p g h) gs col"
  shows "rows p gs (hs @ [h]) (append_each cs col)"
  using assms by (auto simp: rows_def append_each_def list_all2_conv_all_nth nth_append less_Suc_eq)

lemma rows_take: "rows p gs hs cs \<Longrightarrow> rows p gs (take n hs) (map (take n) cs)"
  by (auto simp: rows_def list_all2_conv_all_nth)

lemma rows_length: "rows p gs hs cs \<Longrightarrow> c \<in> set cs \<Longrightarrow> length c = length hs"
  by (auto simp: rows_def list_all2_conv_all_nth in_set_conv_nth)

lemma scan_hits_ok:
  assumes "pool_inv p" "\<forall>g\<in>set gs. valid_group g" "gs \<noteq> []" "rows p gs pre cs"
  shows "\<exists>cs'. scan_hits p gs hs cs = Inr cs' \<and> rows p gs (pre @ takeWhile (cached_in p gs) hs) cs'"
  using assms(4)
proof (induction hs arbitrary: pre cs)
  case Nil
  then show ?case by simp
next
  case (Cons h hs)
  note L = lookup_column [OF assms(1-3), of h]
  show ?case
  proof (cases "cached_in p gs h")
    case True
    then obtain b bs where b: "get_cached_block p h gs = Inr (Some (b # bs))" "list_all2 (\<lambda>g. carries p g h) gs (b # bs)"
      using L by auto
    show ?thesis using Cons.IH [OF rows_append [OF Cons.prems b(2)]] b(1) True by auto
  next
    case False
    then show ?thesis using L Cons.prems by simp
  qed
qed

section \<open>Alignment\<close>

definition aligned :: "int \<Rightarrow> int \<Rightarrow> nat \<Rightarrow> bool" where
  "aligned bs al n \<longleftrightarrow> bs = al \<or> int n * bs mod al = 0"

text \<open>The longest aligned length up to \<open>m\<close>.\<close>

definition longest_aligned :: "int \<Rightarrow> int \<Rightarrow> nat \<Rightarrow> nat \<Rightarrow> bool" where
  "longest_aligned bs al m n \<longleftrightarrow> n \<le> m \<and> aligned bs al n \<and> (\<forall>n'. n < n' \<longrightarrow> n' \<le> m \<longrightarrow> \<not> aligned bs al n')"

lemma align_hits_ok:
  "cs \<noteq> [] \<Longrightarrow> \<forall>c\<in>set cs. length c = L \<Longrightarrow> \<exists>n. align_hits bs al cs = map (take n) cs \<and> longest_aligned bs al L n"
proof (induction L arbitrary: cs)
  case 0
  then obtain c cs' where cs: "cs = c # cs'" "c = []" by (cases cs) auto
  then have "align_hits bs al cs = map (take 0) cs"
  proof -
    have "map (take 0) cs = cs" by (rule map_idI) (use 0(2) in auto)
    then show ?thesis using cs by (simp add: align_hits.simps)
  qed
  then show ?case by (intro exI [of _ 0]) (simp add: longest_aligned_def aligned_def)
next
  case (Suc L)
  then obtain c cs' where cs: "cs = c # cs'" and c: "length c = Suc L" by (cases cs) auto
  show ?case
  proof (cases "aligned bs al (Suc L)")
    case True
    moreover have "map (take (Suc L)) cs = cs" using Suc.prems(2) by (intro map_idI) simp
    ultimately show ?thesis
      using c by (intro exI [of _ "Suc L"]) (auto simp: cs align_hits.simps(2) [of bs al c cs'] aligned_def longest_aligned_def)
  next
    case False
    have len: "\<forall>c\<in>set (map butlast cs). length c = L" using Suc.prems(2) by auto
    obtain n where n: "align_hits bs al (map butlast cs) = map (take n) (map butlast cs)" "longest_aligned bs al L n"
      using Suc.IH [OF _ len] Suc.prems(1) by auto
    have "align_hits bs al cs = align_hits bs al (map butlast cs)"
      using False c by (auto simp: cs align_hits.simps(2) [of bs al c cs'] aligned_def)
    moreover have "take n (butlast x) = take n x" if "x \<in> set cs" for x
      using that Suc.prems(2) n(2) by (simp add: longest_aligned_def take_butlast)
    ultimately have "align_hits bs al cs = map (take n) cs" using n(1) by simp
    moreover have "longest_aligned bs al (Suc L) n"
      using n(2) False by (auto simp: longest_aligned_def le_Suc_eq)
    ultimately show ?thesis by blast
  qed
qed

section \<open>Full attention\<close>

lemma full_find_hit_ok:
  assumes P: "pool_inv p" "\<forall>g\<in>set gs. valid_group g" "gs \<noteq> []" and al: "0 < al"
    and spec: "is_full_attention spec" and hs: "bhl_islice bhl (max_len div block_size spec) = Inr hs"
  defines "run \<equiv> takeWhile (cached_in p gs) hs"
  shows "\<exists>cs n. full_find_hit bhl max_len gs p spec eagle al 1 1 = Inr cs \<and> rows p gs (take n hs) cs
    \<and> longest_aligned (block_size spec) al (length run - (if eagle then 1 else 0)) n"
proof -
  let ?bs = "block_size spec" and ?m = "length run - (if eagle then 1 else 0)"
  obtain cs where cs: "scan_hits p gs hs (replicate (length gs) []) = Inr cs" "rows p gs run cs"
    using scan_hits_ok [OF P rows_empty, of hs] unfolding run_def by auto
  have ne: "cs \<noteq> []" using cs(2) P(3) by (auto simp: rows_def)
  have len: "length c = length run" if "c \<in> set cs" for c using rows_length [OF cs(2) that] .
  define c1 where "c1 = (if eagle \<and> hd cs \<noteq> [] then drop_last_hit cs else cs)"
  have "take ?m c = (if eagle \<and> hd cs \<noteq> [] then butlast c else c)" if "c \<in> set cs" for c
    using len [OF that] len [of "hd cs"] ne by (auto simp: butlast_conv_take)
  then have c1: "c1 = map (take ?m) cs"
    by (auto simp: c1_def drop_last_hit_def intro: map_cong) (auto intro!: nth_equalityI)
  have "\<forall>c\<in>set c1. length c = ?m" using len by (auto simp: c1)
  then obtain n where n: "align_hits ?bs al c1 = map (take n) c1" "longest_aligned ?bs al ?m n"
    using align_hits_ok [of c1 ?m ?bs al] ne by (auto simp: c1)
  have nm: "n \<le> ?m" "n \<le> length run" using n(2) by (auto simp: longest_aligned_def)
  then have "map (take n) c1 = map (take n) cs" by (simp add: c1 min_absorb1 min_def)
  moreover have "take n run = take n hs"
    using nm(2) unfolding run_def by (metis takeWhile_eq_take take_take min_absorb1)
  ultimately have "rows p gs (take n hs) (align_hits ?bs al c1)" using rows_take [OF cs(2), of n] n(1) by simp
  moreover have "full_find_hit bhl max_len gs p spec eagle al 1 1 = Inr (align_hits ?bs al c1)"
    using spec hs cs(1) ne al by (simp add: full_find_hit_def Let_def c1_def)
  ultimately show ?thesis using n(2) by blast
qed

section \<open>Sliding windows\<close>

text \<open>A prefix of \<open>n\<close> blocks is usable if its last \<open>w\<close> blocks are cached.\<close>

definition window_hit :: "block_pool \<Rightarrow> int list \<Rightarrow> (nat \<Rightarrow> bytes) \<Rightarrow> nat \<Rightarrow> nat \<Rightarrow> bool" where
  "window_hit p gs h w n \<longleftrightarrow> (\<forall>k<n. n \<le> k + w \<longrightarrow> cached_in p gs (h k))"

definition window_row :: "block_pool \<Rightarrow> (nat \<Rightarrow> bytes) \<Rightarrow> nat \<Rightarrow> nat \<Rightarrow> int \<Rightarrow> bref list \<Rightarrow> bool" where
  "window_row p h w n g c \<longleftrightarrow> length c = n \<and> (\<forall>k<n. if n \<le> k + w then carries p g (h k) (c ! k) else c ! k = null_block p)"

text \<open>The state of the scan before it looks at index \<open>i - 1\<close>: a run of \<open>nc\<close> hits starts at \<open>i\<close>.\<close>

definition scan_row :: "block_pool \<Rightarrow> (nat \<Rightarrow> bytes) \<Rightarrow> nat \<Rightarrow> nat \<Rightarrow> nat \<Rightarrow> int \<Rightarrow> bref list \<Rightarrow> bool" where
  "scan_row p h N i nc g c \<longleftrightarrow> length c = N \<and> (\<forall>k<i. c ! k = null_block p) \<and> (\<forall>k. i \<le> k \<longrightarrow> k < i + nc \<longrightarrow> carries p g (h k) (c ! k))"

definition scan_inv :: "block_pool \<Rightarrow> int list \<Rightarrow> (nat \<Rightarrow> bytes) \<Rightarrow> int \<Rightarrow> int \<Rightarrow> nat \<Rightarrow> nat \<Rightarrow> nat \<Rightarrow> nat \<Rightarrow> bref list list \<Rightarrow> bool" where
  "scan_inv p gs h bs al w N i nc cs \<longleftrightarrow> list_all2 (scan_row p h N i nc) gs cs \<and> i + nc \<le> N \<and> nc < w
     \<and> (0 < nc \<longrightarrow> aligned bs al (i + nc))
     \<and> (\<forall>n. aligned bs al n \<longrightarrow> n \<le> N \<longrightarrow> window_hit p gs h w n \<longrightarrow> n \<le> i + nc)"

lemma list_all2_map2:
  assumes "list_all2 P gs cs" "list_all2 Q gs col" "\<And>g c b. P g c \<Longrightarrow> Q g b \<Longrightarrow> R g (f c b)"
  shows "list_all2 R gs (map2 f cs col)"
  using assms by (auto simp: list_all2_conv_all_nth)

lemma list_all2_map_right: "list_all2 P gs cs \<Longrightarrow> (\<And>g c. P g c \<Longrightarrow> Q g (f c)) \<Longrightarrow> list_all2 Q gs (map f cs)"
  by (auto simp: list_all2_conv_all_nth)

lemma sliding_scan_ok:
  assumes P: "pool_inv p" "\<forall>g\<in>set gs. valid_group g" "gs \<noteq> []"
    and h: "\<And>k. k < N \<Longrightarrow> bhl_get bhl (int k) = Inr (h k)" and w: "w = nat (max need 1)"
    and "scan_inv p gs h bs al w N i nc cs"
  shows "\<exists>cs' n found. sliding_scan p bhl gs bs al need i cs nc = Inr (cs', n, found)
    \<and> (if found then \<exists>n. n \<le> N \<and> list_all2 (window_row p h w n) gs cs' \<and> aligned bs al n
            \<and> (\<forall>n'. aligned bs al n' \<longrightarrow> n' \<le> N \<longrightarrow> window_hit p gs h w n' \<longrightarrow> n' \<le> n)
       else scan_inv p gs h bs al w N 0 n cs')"
  using assms(6)
proof (induction i arbitrary: nc cs)
  case 0
  then show ?case by (intro exI [of _ cs] exI [of _ nc] exI [of _ False]) simp
next
  case (Suc i)
  note I = Suc.prems [unfolded scan_inv_def]
  have iN: "i < N" and nw: "nc < w" using I by auto
  have max: "n \<le> Suc i + nc" if "aligned bs al n" "n \<le> N" "window_hit p gs h w n" for n using I that by blast
  note L = lookup_column [OF P, of "h i"]
  consider (miss) "\<not> cached_in p gs (h i)" | (skip) "cached_in p gs (h i)" "nc = 0" "\<not> aligned bs al (Suc i)"
    | (hit) "cached_in p gs (h i)" "nc = 0 \<longrightarrow> aligned bs al (Suc i)" by blast
  then show ?case
  proof cases
    case miss
    have "list_all2 (scan_row p h N i 0) gs cs" using I by (auto simp: scan_row_def elim!: list_all2_mono)
    moreover have "n \<le> i" if n: "aligned bs al n" "n \<le> N" "window_hit p gs h w n" for n
    proof (rule ccontr)
      assume "\<not> n \<le> i"
      then have "i < n" "n \<le> i + w" using max [OF n] nw by auto
      then show False using n(3) miss by (auto simp: window_hit_def)
    qed
    ultimately have "scan_inv p gs h bs al w N i 0 cs" using iN nw by (simp add: scan_inv_def)
    then show ?thesis using Suc.IH [of 0 cs] miss L h [OF iN] by simp
  next
    case skip
    have "list_all2 (scan_row p h N i 0) gs cs" using I by (auto simp: scan_row_def elim!: list_all2_mono)
    moreover have "n \<le> i" if n: "aligned bs al n" "n \<le> N" "window_hit p gs h w n" for n
      using max [OF n] skip n(1) by (cases "n = Suc i") auto
    ultimately have "scan_inv p gs h bs al w N i 0 cs" using iN nw by (simp add: scan_inv_def)
    moreover have "bs \<noteq> al" "(int i + 1) * bs mod al \<noteq> 0" using skip(3) by (auto simp: aligned_def add.commute)
    moreover from this have "sliding_scan p bhl gs bs al need (Suc i) cs nc = sliding_scan p bhl gs bs al need i cs 0"
      using skip L h [OF iN] by auto
    ultimately show ?thesis using Suc.IH [of 0 cs] by simp
  next
    case hit
    then obtain b bl where b: "get_cached_block p (h i) gs = Inr (Some (b # bl))" "list_all2 (\<lambda>g. carries p g (h i)) gs (b # bl)"
      using L by auto
    let ?c = "map2 (\<lambda>c x. c[i := x]) cs (b # bl)"
    have row: "list_all2 (scan_row p h N i (Suc nc)) gs ?c"
    proof (rule list_all2_map2 [OF I [THEN conjunct1] b(2)])
      show "scan_row p h N i (Suc nc) g (c[i := x])" if r: "scan_row p h N (Suc i) nc g c" and x: "carries p g (h i) x" for g c x
        using r x iN by (auto simp: scan_row_def nth_list_update)
    qed
    have al': "aligned bs al (i + Suc nc)" using I hit(2) by (cases "nc = 0") auto
    have cond: "\<not> (nc = 0 \<and> bs \<noteq> al \<and> (int i + 1) * bs mod al \<noteq> 0)" using hit(2) by (auto simp: aligned_def add.commute)
    show ?thesis
    proof (cases "int (Suc nc) \<ge> need")
      case True
      then have ws: "w = Suc nc" using nw w by auto
      have "list_all2 (window_row p h w (i + Suc nc)) gs (map (take (i + Suc nc)) ?c)"
        by (rule list_all2_map_right [OF row]) (use I in \<open>auto simp: scan_row_def window_row_def ws\<close>)
      moreover have "sliding_scan p bhl gs bs al need (Suc i) cs nc = Inr (map (take (i + Suc nc)) ?c, Suc nc, True)"
        using True b(1) h [OF iN] cond by (auto simp: Let_def simp del: list.map)
      moreover have "i + Suc nc \<le> N" using I by auto
      ultimately show ?thesis using al' max by auto
    next
      case False
      then have "Suc nc < w" using w by auto
      then have "scan_inv p gs h bs al w N i (Suc nc) ?c" using row al' I by (auto simp: scan_inv_def)
      from Suc.IH [OF this] show ?thesis
        using False b(1) h [OF iN] cond by (auto simp: Let_def simp del: list.map)
    qed
  qed
qed

text \<open>With eagle one more block must be cached, and the last one is dropped again.\<close>

lemma window_row_butlast: "window_row p h w n g c \<Longrightarrow> n \<noteq> 0 \<Longrightarrow> window_row p h (w - 1) (n - 1) g (butlast c)"
  by (auto simp: window_row_def nth_butlast)

lemma window_row_hit:
  assumes "list_all2 (window_row p h w n) gs cs"
  shows "window_hit p gs h w n"
  unfolding window_hit_def cached_in_def
proof (intro allI impI ballI)
  fix k g
  assume k: "k < n" "n \<le> k + w" and "g \<in> set gs"
  then obtain c where "window_row p h w n g c" using assms by (metis list_all2_conv_all_nth in_set_conv_nth)
  then have "carries p g (h k) (c ! k)" using k by (simp add: window_row_def)
  then show "\<exists>b. hash_of p b = Some (group_key (h k) g)" by (auto simp: carries_def)
qed

lemma sliding_find_hit_ok:
  assumes P: "pool_inv p" "\<forall>g\<in>set gs. valid_group g" "gs \<noteq> []"
    and spec: "spec = SlidingWindowSpec a win" and eagle: "eagle \<longrightarrow> block_size spec = al"
    and h: "\<And>k. k < N \<Longrightarrow> bhl_get bhl (int k) = Inr (h k)" and N: "N = nat (max_len div block_size spec)"
  defines "e \<equiv> (if eagle then 1 else 0 :: nat)"
  defines "w \<equiv> nat (max (cdiv (win - 1) (block_size spec) + int e) 1)"
  shows "\<exists>cs n. sliding_find_hit bhl max_len gs p spec eagle al 1 1 = Inr cs \<and> n \<le> N \<and> aligned (block_size spec) al n
    \<and> window_hit p gs h w n \<and> list_all2 (window_row p h (w - e) (n - e)) gs cs
    \<and> (\<forall>n'. aligned (block_size spec) al n' \<longrightarrow> n' \<le> N \<longrightarrow> window_hit p gs h w n' \<longrightarrow> n' \<le> n)"
proof -
  let ?bs = "block_size spec" and ?cs = "replicate (length gs) (replicate N (null_block p))"
  let ?drop = "\<lambda>c. if eagle \<and> hd c \<noteq> [] then drop_last_hit c else c"
  have "scan_inv p gs h ?bs al w N N 0 ?cs"
    by (auto simp: scan_inv_def scan_row_def list_all2_conv_all_nth w_def)
  from sliding_scan_ok [OF P h w_def [THEN meta_eq_to_obj_eq] this] obtain cs' nc found where
    s: "sliding_scan p bhl gs ?bs al (cdiv (win - 1) ?bs + int e) N ?cs 0 = Inr (cs', nc, found)"
      "if found then \<exists>n. n \<le> N \<and> list_all2 (window_row p h w n) gs cs' \<and> aligned ?bs al n
            \<and> (\<forall>n'. aligned ?bs al n' \<longrightarrow> n' \<le> N \<longrightarrow> window_hit p gs h w n' \<longrightarrow> n' \<le> n)
       else scan_inv p gs h ?bs al w N 0 nc cs'" by blast
  have ne: "cs' \<noteq> []" using s(2) P(3) by (auto simp: scan_inv_def split: if_splits)
  have unf: "sliding_find_hit bhl max_len gs p spec eagle al 1 1 = Inr (?drop c)"
    if "c = (if found then cs' else align_hits ?bs al (map (take nc) cs'))" "c \<noteq> []" for c
  proof -
    have bs: "block_size spec = af_block_size a" "cdiv (sliding_window_of spec - 1) ?bs + (if eagle then 1 else 0) = cdiv (win - 1) ?bs + int e"
      "spec_manager_map spec = Some SlidingWindowManager"
      by (simp_all add: spec e_def)
    have "sliding_find_hit bhl max_len gs p spec eagle al 1 1 =
        (if eagle \<and> hd c \<noteq> [] then assertE (?bs = al) (Inr (drop_last_hit c)) else Inr c)"
      unfolding sliding_find_hit_def bs(2,3) Let_def N [symmetric] s(1)
      using that(2) by (simp only: assertE_def bindE_simps prod.case that(1) [symmetric] refl if_True if_False)
    then show ?thesis using eagle by (simp add: assertE_def)
  qed
  have "\<exists>c n. c = (if found then cs' else align_hits ?bs al (map (take nc) cs')) \<and> n \<le> N \<and> aligned ?bs al n
    \<and> list_all2 (window_row p h w n) gs c
    \<and> (\<forall>n'. aligned ?bs al n' \<longrightarrow> n' \<le> N \<longrightarrow> window_hit p gs h w n' \<longrightarrow> n' \<le> n)"
  proof (cases found)
    case True
    then show ?thesis using s(2) by auto
  next
    case False
    then have I: "scan_inv p gs h ?bs al w N 0 nc cs'" using s(2) by simp
    have len: "\<forall>c\<in>set (map (take nc) cs'). length c = nc"
      using I by (auto simp: scan_inv_def scan_row_def list_all2_conv_all_nth in_set_conv_nth)
    obtain n where n: "align_hits ?bs al (map (take nc) cs') = map (take n) (map (take nc) cs')" "longest_aligned ?bs al nc n"
      using align_hits_ok [OF _ len, of ?bs al] ne by auto
    have "aligned ?bs al nc" using I by (cases "nc = 0") (auto simp: scan_inv_def aligned_def)
    then have "n = nc" using n(2) by (metis longest_aligned_def le_neq_implies_less order_refl)
    then have a: "align_hits ?bs al (map (take nc) cs') = map (take nc) cs'" using n(1) by simp
    have "list_all2 (window_row p h w nc) gs (map (take nc) cs')"
      by (rule list_all2_map_right [OF I [unfolded scan_inv_def, THEN conjunct1]])
        (use I in \<open>auto simp: scan_row_def window_row_def scan_inv_def\<close>)
    then show ?thesis using a False I \<open>aligned ?bs al nc\<close> by (auto simp: scan_inv_def)
  qed
  then obtain c n where c: "c = (if found then cs' else align_hits ?bs al (map (take nc) cs'))" "n \<le> N" "aligned ?bs al n"
    "list_all2 (window_row p h w n) gs c"
    "\<forall>n'. aligned ?bs al n' \<longrightarrow> n' \<le> N \<longrightarrow> window_hit p gs h w n' \<longrightarrow> n' \<le> n" by blast
  have cne: "c \<noteq> []" using c(4) P(3) by auto
  have hd: "length (hd c) = n" using c(4) cne by (cases c; cases gs) (auto simp: window_row_def)
  have "list_all2 (window_row p h (w - e) (n - e)) gs (?drop c)"
  proof (cases "eagle \<and> n \<noteq> 0")
    case True
    then have "list_all2 (window_row p h (w - 1) (n - 1)) gs (map butlast c)"
      by (intro list_all2_map_right [OF c(4)] window_row_butlast) simp_all
    then show ?thesis using True hd by (auto simp: e_def drop_last_hit_def)
  next
    case False
    then have "window_row p h (w - e) (n - e) g x" if "window_row p h w n g x" for g x
      using that by (auto simp: e_def window_row_def)
    then have "list_all2 (window_row p h (w - e) (n - e)) gs c" using c(4) by (rule list_all2_mono [rotated])
    then show ?thesis using False hd by auto
  qed
  then show ?thesis using unf [OF c(1) cne] c(2,3,5) window_row_hit [OF c(4)] by blast
qed

end
