(* ===== verification/Lookup.thy ===== *)
theory Lookup
  imports Lifecycle Hit_Correct
begin

text \<open>
  The prefix lookup of the cache manager and its composition with the allocation: what \<^verbatim>\<open>get_computed_blocks\<close>
  returns for a new request meets the precondition of \<^verbatim>\<open>allocate_slots\<close>.
\<close>

section \<open>Hits as input of an allocation\<close>

lemma carries_hits_ok:
  assumes "valid_group g" "distinct hs" "list_all2 (carries p g) hs c"
  shows "hits_ok p c" "distinct (nonnull c)"
proof -
  have l: "length c = length hs" and at: "\<And>i. i < length hs \<Longrightarrow> carries p g (hs ! i) (c ! i)"
    using assms(3) by (auto simp: list_all2_conv_all_nth)
  have "c ! i \<noteq> c ! j" if ij: "i < length c" "j < length c" "i \<noteq> j" for i j
  proof
    assume eq: "c ! i = c ! j"
    have "group_key (hs ! i) g = group_key (hs ! j) g" using at [of i] at [of j] ij l eq by (simp add: carries_def)
    then have "hs ! i = hs ! j" using group_key_inj [OF assms(1,1)] by blast
    then show False using assms(2) ij l by (simp add: nth_eq_iff_index_eq)
  qed
  then have "distinct c" by (simp add: distinct_conv_nth)
  then show d: "distinct (nonnull c)" by simp
  have "b \<in> usable p \<and> hash_of p b \<noteq> None" if "b \<in> set c" for b
    using that at l by (auto simp: in_set_conv_nth carries_def)
  then show "hits_ok p c" using d by (simp add: hits_ok_def)
qed

text \<open>A cache manager with prefix caching and one full-attention group, as the constructor builds it.\<close>

definition unitary_full :: "kv_manager \<Rightarrow> bool" where
  "unitary_full k \<longleftrightarrow> c_kind (coord k) = UnitaryCoordinator \<and> c_dcp (coord k) = 1 \<and> c_pcp (coord k) = 1
     \<and> (case (managers (coord k), kv_cache_groups (c_config (coord k))) of
          ([m], [g]) \<Rightarrow> group_spec g = m_spec m \<and> m_class m = FullAttentionManager \<and> is_full_attention (m_spec m)
            \<and> m_block_size m = block_size (m_spec m) \<and> hash_block_size (pool_of k) = m_block_size m
        | _ \<Rightarrow> False)"

definition new_request :: "request \<Rightarrow> kv_manager \<Rightarrow> bool" where
  "new_request r k \<longleftrightarrow> num_computed_tokens r = 0 \<and> 0 < num_tokens r \<and> num_tokens r \<le> k_max_model_len k
     \<and> int (length (block_hashes r)) = num_tokens r div hash_block_size (pool_of k) \<and> distinct (block_hashes r)
     \<and> (\<forall>m\<in>set (managers (coord k)). num_cached_block m (request_id r) = None \<and> blocks_get (request_id r) m = [])"

lemma empty_ready: "new_request r k \<Longrightarrow> kv_ok k \<Longrightarrow> slots_ready r 0 KVEmpty 0 k"
  by (auto simp: slots_ready_def new_request_def kv_lists_def kv_ok_def)

lemma unitary_lookup:
  assumes K: "kv_ok k" and U: "unitary_full k" and R: "new_request r k"
  shows "\<exists>c. coord_find_longest_cache_hit (block_hashes r) (num_tokens r - 1) (coord k)
        = Inr ([c], int (length c) * hash_block_size (pool_of k))
    \<and> hits_ok (pool_of k) c \<and> int (length c) * hash_block_size (pool_of k) < num_tokens r"
proof -
  obtain m g where m: "managers (coord k) = [m]" "kv_cache_groups (c_config (coord k)) = [g]" "group_spec g = m_spec m"
    "m_class m = FullAttentionManager" "is_full_attention (m_spec m)" "m_block_size m = block_size (m_spec m)"
    "hash_block_size (pool_of k) = m_block_size m" "c_kind (coord k) = UnitaryCoordinator" "c_dcp (coord k) = 1" "c_pcp (coord k) = 1"
    using U by (auto simp: unitary_full_def split: list.splits)
  let ?p = "pool_of k" and ?bs = "block_size (m_spec m)" and ?hs = "block_hashes r" and ?M = "num_tokens r - 1"
  have bs: "0 < ?bs" using K m by (simp add: kv_ok_def)
  have P: "pool_inv ?p" using K by (simp add: kv_ok_def sys_ok_def)
  have ub: "unitary_block_size (coord k) = ?bs" using m by (simp add: unitary_block_size_def)
  have "0 \<le> ?M" using R by (simp add: new_request_def)
  then have sl: "bhl_islice (HashList ?hs) (?M div ?bs) = Inr (take (nat (?M div ?bs)) ?hs)"
    using bs by (simp add: pos_imp_zdiv_nonneg_iff not_less)
  obtain cs n where f: "full_find_hit (HashList ?hs) ?M [0] ?p (m_spec m) (c_use_eagle (coord k)) ?bs 1 1 = Inr cs"
    "rows ?p [0] (take n (take (nat (?M div ?bs)) ?hs)) cs"
    using full_find_hit_ok [OF P _ _ bs m(5) sl, of "[0]" "c_use_eagle (coord k)"] by (auto simp: valid_group_def)
  then obtain c where c: "cs = [c]" "list_all2 (carries ?p 0) (take n (take (nat (?M div ?bs)) ?hs)) c"
    by (auto simp: rows_def list_all2_Cons1)
  have len: "length c \<le> nat (?M div ?bs)" using list_all2_lengthD [OF c(2)] by simp
  have "distinct (take n (take (nat (?M div ?bs)) ?hs))" using R by (simp add: new_request_def)
  then have "hits_ok ?p c" using carries_hits_ok(1) [OF _ _ c(2)] by (simp add: valid_group_def)
  moreover have "int (length c) * ?bs < num_tokens r"
  proof -
    have "int (length c) \<le> ?M div ?bs" using len \<open>0 \<le> ?M\<close> bs pos_imp_zdiv_nonneg_iff [OF bs, of ?M] by linarith
    then have "int (length c) * ?bs \<le> ?M div ?bs * ?bs" using bs by (simp add: mult_right_mono)
    then show ?thesis using div_mult_le_int [OF bs, of ?M] by linarith
  qed
  moreover have "coord_find_longest_cache_hit ?hs ?M (coord k) = Inr ([c], int (length c) * ?bs)"
    using m(1-4,8-10) f(1) c(1) ub by (simp add: coord_find_longest_cache_hit_def unitary_find_hit_def find_longest_cache_hit_def pool_of_def)
  ultimately show ?thesis using m(6,7) by auto
qed

section \<open>Properties\<close>

text \<open>C19 (lookup_then_allocate): for a manager with one full-attention group (the unitary coordinator, with or without
  eagle, no context parallelism) and a new request, which has no blocks yet and pairwise distinct block hashes, looking
  up the prefix cache never raises; it keeps the invariant, the number of computed tokens it returns is a multiple of
  the block size and smaller than the number of tokens (so at least one token is computed), and its result meets the
  precondition of the allocation that follows: the hits are distinct cached blocks.\<close>

theorem lookup_then_allocate:
  assumes "kv_ok k" "unitary_full k" "new_request r k" "log_stats k \<longrightarrow> prefix_stats k \<noteq> None"
  shows "\<exists>cb n k'. get_computed_blocks r k = Inr ((cb, n), k') \<and> kv_ok k' \<and> slots_ready r n cb 0 k'
    \<and> 0 \<le> n \<and> n < num_tokens r \<and> n mod hash_block_size (pool_of k) = 0"
proof (cases "\<not> k_enable_caching k \<or> skip_reading_prefix_cache r")
  case True
  then have "get_computed_blocks r k = Inr ((KVEmpty, 0), k)" by (simp add: get_computed_blocks_def)
  then show ?thesis using empty_ready [OF assms(3,1)] assms(1,3) by (auto simp: new_request_def)
next
  case False
  let ?bs = "hash_block_size (pool_of k)"
  obtain c where c: "coord_find_longest_cache_hit (block_hashes r) (num_tokens r - 1) (coord k) = Inr ([c], int (length c) * ?bs)"
    "hits_ok (pool_of k) c" "int (length c) * ?bs < num_tokens r"
    using unitary_lookup [OF assms(1-3)] by blast
  obtain m where m: "managers (coord k) = [m]" "m_block_size m = ?bs"
    using assms(2) by (auto simp: unitary_full_def split: list.splits)
  have b: "0 < ?bs" using assms(1) by (simp add: kv_ok_def)
  define k' where "k' = (if log_stats k then k\<lparr>prefix_stats := Some (record_stats (num_tokens r) (int (length c) * ?bs)
      (num_preemptions r > 0) (the (prefix_stats k)))\<rparr> else k)"
  have k': "get_computed_blocks r k = Inr ((create_kv_cache_blocks [c], int (length c) * ?bs), k')"
    using False c(1) assms(4) by (auto simp: get_computed_blocks_def k'_def)
  have ks: "kv_ok k'" "coord k' = coord k" "pool_of k' = pool_of k" "k_max_model_len k' = k_max_model_len k"
    "k_enable_caching k' = k_enable_caching k" "num_kv_cache_groups k' = num_kv_cache_groups k"
    using assms(1) by (simp_all add: k'_def pool_of_def)
  have "num_kv_cache_groups k = 1" using assms(1) m by (simp add: kv_ok_def)
  then have "slots_ready r (int (length c) * ?bs) (create_kv_cache_blocks [c]) 0 k'"
    using assms(3) c(2,3) m False b ks
    by (auto simp: slots_ready_def Let_def create_kv_cache_blocks_def kv_lists_def new_request_def disjoint_hits_def hits_ok_def)
  then show ?thesis using k' ks(1) c(3) b by (intro exI conjI) auto
qed

text \<open>C11 (full_hit_correct): for full attention the search returns, for every group, the blocks that carry the keys of the first
  \<open>n\<close> hashes, where \<open>n\<close> is the largest aligned length within the run of hashes cached in all groups (one less with eagle).\<close>

theorem full_hit_correct:
  assumes "pool_inv p" "\<forall>g\<in>set gs. valid_group g" "gs \<noteq> []" "0 < al" "is_full_attention spec" "0 < block_size spec" "0 \<le> max_len"
  shows "\<exists>cs n. full_find_hit (HashList hs) max_len gs p spec eagle al 1 1 = Inr cs \<and> rows p gs (take n hs) cs
    \<and> longest_aligned (block_size spec) al
        (length (takeWhile (cached_in p gs) (take (nat (max_len div block_size spec)) hs)) - (if eagle then 1 else 0)) n"
proof -
  let ?N = "nat (max_len div block_size spec)"
  have "bhl_islice (HashList hs) (max_len div block_size spec) = Inr (take ?N hs)"
    using assms(6,7) by (simp add: pos_imp_zdiv_nonneg_iff not_less)
  from full_find_hit_ok [OF assms(1-5) this, of eagle] obtain cs n where f: "full_find_hit (HashList hs) max_len gs p spec eagle al 1 1 = Inr cs"
    "rows p gs (take n (take ?N hs)) cs"
    "longest_aligned (block_size spec) al (length (takeWhile (cached_in p gs) (take ?N hs)) - (if eagle then 1 else 0)) n" by blast
  have "n \<le> length (take ?N hs)"
    using f(3) length_takeWhile_le [of "cached_in p gs" "take ?N hs"] by (auto simp: longest_aligned_def)
  then have "take n (take ?N hs) = take n hs" by (simp add: min.absorb1)
  then show ?thesis using f by auto
qed

text \<open>C24 (sliding_hit_correct): For a sliding window, with or without eagle, let \<open>w\<close> be the number of blocks the window
  needs, plus one with eagle, and at least one. The search (in any set of groups; the code asserts that there is no
  context parallelism, and with eagle that the alignment is the block size) never raises. With \<open>n\<close> the length of the
  longest aligned prefix whose last \<open>w\<close> blocks are cached in all groups it returns that prefix, with eagle without
  its last block: the last blocks of each row carry the keys of their hashes, all earlier entries are the null
  block.\<close>

theorem sliding_hit_correct:
  assumes "pool_inv p" "\<forall>g\<in>set gs. valid_group g" "gs \<noteq> []" "nat (max_len div af_block_size a) \<le> length hs"
    and "eagle \<longrightarrow> af_block_size a = al"
    and "e = (if eagle then 1 else 0)" "w = nat (max (cdiv (win - 1) (af_block_size a) + int e) 1)"
  shows "\<exists>cs n. sliding_find_hit (HashList hs) max_len gs p (SlidingWindowSpec a win) eagle al 1 1 = Inr cs
    \<and> n \<le> nat (max_len div af_block_size a) \<and> aligned (af_block_size a) al n
    \<and> window_hit p gs (\<lambda>k. hs ! k) w n \<and> list_all2 (window_row p (\<lambda>k. hs ! k) (w - e) (n - e)) gs cs
    \<and> (\<forall>n'. aligned (af_block_size a) al n' \<longrightarrow> n' \<le> nat (max_len div af_block_size a) \<longrightarrow>
         window_hit p gs (\<lambda>k. hs ! k) w n' \<longrightarrow> n' \<le> n)"
proof -
  have h: "bhl_get (HashList hs) (int k) = Inr (hs ! k)" if "k < nat (max_len div af_block_size a)" for k
    using that assms(4) by simp
  have "nat (max_len div af_block_size a) = nat (max_len div block_size (SlidingWindowSpec a win))" by simp
  from sliding_find_hit_ok [OF assms(1-3) refl _ h this, of eagle al] show ?thesis
    using assms(5) unfolding block_size.simps assms(6,7) by blast
qed

section \<open>Witnesses\<close>

lemma init_kind:
  assumes "init_kv_manager cfg mml hbs caching eagle stats events 1 1 env = Inr k"
  shows "log_stats k = stats" "caching \<Longrightarrow> length (kv_cache_groups cfg) = 1 \<Longrightarrow> c_kind (coord k) = UnitaryCoordinator"
  using assms by (auto simp: init_kv_manager_def get_kv_cache_coordinator_def base_coordinator_def unitary_checks_def
      assertE_def split: if_splits prod.splits)

lemma sample_unitary:
  "\<exists>k. sample_init = Inr k \<and> kv_ok k \<and> unitary_full k \<and> new_request sample_request k \<and> \<not> log_stats k \<and> hash_block_size (pool_of k) = 2"
proof -
  obtain k where k: "sample_init = Inr k" "kv_ok k" "k_max_model_len k = 16" "fresh_coordinator sample_config True 2 (coord k)"
    using fresh_kv_ok [OF sample_wf] by blast
  note F = k(4) [unfolded fresh_coordinator_def]
  have h: "hash_block_size (pool_of k) = 2" "c_dcp (coord k) = 1" "c_pcp (coord k) = 1" "c_config (coord k) = sample_config"
    using F by (auto simp: pool_of_def)
  have m: "managers (coord k) = [fresh_manager (group_spec (hd (kv_cache_groups sample_config))) True 0 (c_pool (coord k))]"
    using F by (simp add: sample_config_def)
  have "c_kind (coord k) = UnitaryCoordinator" using init_kind(2) [OF k(1)] by (simp add: sample_config_def)
  then have "unitary_full k"
    unfolding unitary_full_def m h by (simp add: sample_config_def fresh_manager_def base_init_def)
  moreover have "new_request sample_request k"
    unfolding new_request_def m h k(3)
    by (simp add: sample_request_def plain_request_def fresh_manager_def base_init_def blocks_get_def)
  ultimately show ?thesis using k(1,2) h(1) init_kind(1) [OF k(1)] by blast
qed

theorem lookup_then_allocate_witness:
  "\<exists>k cb n k'. sample_init = Inr k \<and> get_computed_blocks sample_request k = Inr ((cb, n), k') \<and> slots_ready sample_request n cb 0 k' \<and> n < 3"
proof -
  obtain k where k: "sample_init = Inr k" "kv_ok k" "unitary_full k" "new_request sample_request k" "\<not> log_stats k"
    using sample_unitary by blast
  have "num_tokens sample_request = 3" by (simp add: sample_request_def plain_request_def)
  then show ?thesis using lookup_then_allocate [OF k(2-4)] k(1,5) by auto
qed

text \<open>A pool in which block 3 is cached under the hash \<^term>\<open>[7 :: 8 word]\<close> of group 0.\<close>

lemma cached_sample:
  "\<exists>p. pool_inv p \<and> hash_of p (Blk 3) = Some (group_key [7] 0)"
proof -
  obtain p where p: "init_pool 4 True 2 False None False (\<lambda>_. []) = Inr p" "pool_inv p" "hash_block_size p = 2"
    "usable p = {Blk 1, Blk 2, Blk 3}" "hash_of p = (\<lambda>_. None)" using sample_pool by blast
  obtain p' where "pool_inv p'" "view p' = (view p)\<lparr>pv_hash := (hash_of p)(Blk 3 \<mapsto> group_key [7] 0)\<rparr>"
    using cache_one_block [OF p(2,3), of "Blk 3" 0] p(4) fun_cong [OF p(5)] by (auto simp: valid_group_def)
  then show ?thesis using fun_cong [OF view_eqD(3), of p' _ "Blk 3"] by auto
qed

theorem full_hit_correct_witness:
  "\<exists>p cs n. cached_in p [0] [7] \<and> full_find_hit (HashList [[7], [8]]) 4 [0] p (group_spec (hd (kv_cache_groups sample_config))) False 2 1 1 = Inr cs
     \<and> rows p [0] (take n [[7], [8]]) cs"
proof -
  obtain p where p: "pool_inv p" "hash_of p (Blk 3) = Some (group_key [7] 0)" using cached_sample by blast
  have "cached_in p [0] [7]" using p(2) by (auto simp: cached_in_def)
  moreover have "\<exists>cs n. full_find_hit (HashList [[7], [8]]) 4 [0] p (group_spec (hd (kv_cache_groups sample_config))) False 2 1 1 = Inr cs
     \<and> rows p [0] (take n [[7], [8]]) cs"
    using full_hit_correct [OF p(1), of "[0]" 2 "group_spec (hd (kv_cache_groups sample_config))" 4 "[[7], [8]]" False]
    by (auto simp: valid_group_def sample_config_def)
  ultimately show ?thesis by blast
qed

abbreviation sample_attention :: attention_fields where
  "sample_attention \<equiv> \<lparr>af_block_size = 2, num_kv_heads = 1, head_size = 4, dtype = \<lparr>dt_name = ''bf16'', dt_size = 2\<rparr>, af_page_size_padded = None\<rparr>"

text \<open>With eagle, a window of one token, and the second of two hashes cached: both blocks match, and the first, which is
  outside the window, is what remains.\<close>

theorem sliding_hit_correct_witness:
  "\<exists>p cs. cached_in p [0] [7] \<and>
     sliding_find_hit (HashList [[6], [7]]) 4 [0] p (SlidingWindowSpec sample_attention 1) True 2 1 1 = Inr cs
     \<and> list_all2 (window_row p (\<lambda>k. [[6], [7]] ! k) 0 1) [0] cs"
proof -
  obtain p where p: "pool_inv p" "hash_of p (Blk 3) = Some (group_key [7] 0)" using cached_sample by blast
  have c: "cached_in p [0] [7]" using p(2) by (auto simp: cached_in_def)
  have w: "nat (max (cdiv (1 - 1) (af_block_size sample_attention) + int 1) 1) = 1" by (simp add: cdiv_def)
  have side: "\<forall>g\<in>set [0]. valid_group g" "[0 :: int] \<noteq> []" "nat (4 div af_block_size sample_attention) \<le> length [[6], [7 :: 8 word]]"
    "True \<longrightarrow> af_block_size sample_attention = 2" "1 = (if True then 1 else 0 :: nat)" by (simp_all add: valid_group_def)
  obtain cs n where s: "sliding_find_hit (HashList [[6], [7]]) 4 [0] p (SlidingWindowSpec sample_attention 1) True 2 1 1 = Inr cs"
    "n \<le> 2" "list_all2 (window_row p (\<lambda>k. [[6], [7]] ! k) (1 - 1) (n - 1)) [0] cs"
    "\<forall>n'. aligned 2 2 n' \<longrightarrow> n' \<le> 2 \<longrightarrow> window_hit p [0] (\<lambda>k. [[6], [7]] ! k) 1 n' \<longrightarrow> n' \<le> n"
    using sliding_hit_correct [OF p(1) side w [symmetric]] by auto
  have "window_hit p [0] (\<lambda>k. [[6], [7]] ! k) 1 2" using c by (auto simp: window_hit_def less_Suc_eq numeral_2_eq_2)
  then have "n = 2" using s(2,4) by (auto simp: aligned_def)
  then show ?thesis using c s(1,3) by auto
qed

end
