(* ===== verification/External_Tokens.thy ===== *)
theory External_Tokens
  imports Lifecycle
begin

text \<open>
  Tokens of a connector with several cache groups. \<^verbatim>\<open>allocate_new_computed_blocks\<close> of the coordinator runs group
  by group: the first group touches its hits and then already takes new blocks for the external tokens, while
  the hits of the second group are still free. Such a hit can be handed out as a new block of the first group.
\<close>

lemma cdiv_double: "0 < b \<Longrightarrow> cdiv (b + b) b = 2"
  using cdiv_least [of b "b + b" 2] cdiv_least [of b "b + b" 1] by auto

lemma second_group_adopts:
  assumes P: "pool_inv p" "enable_caching p" and m: "m_class m = FullAttentionManager" "0 < m_block_size m" "m_enable_caching m"
      "num_cached_block m rid = None" "blocks_get rid m = []"
    and b: "b \<in> usable p" "b \<notin> set (free_of p)" "free_of p = x # rest" "ref_of p b = 1" "hash_of p b = None"
  shows "\<exists>m' p'. allocate_new_computed_blocks rid [b] (m_block_size m) (m_block_size m) m p = Inr (m', p')
    \<and> blocks_get rid m' = [b, x] \<and> ref_of p' b = 2 \<and> hash_of p' b = None"
proof -
  let ?bs = "m_block_size m"
  obtain p1 where p1: "touch [b] p = Inr p1" "pool_inv p1" "config p1 = config p" "view p1 = view_touch [b] (view p)"
    using touch_effect [OF P(1), of "[b]"] b(1) by auto
  have f1: "free_of p1 = x # rest" and r1: "ref_of p1 b = 2" and h1: "hash_of p1 b = None"
  proof -
    have "filter (\<lambda>y. y \<noteq> b) rest = rest" using b(2,3) by (intro filter_True) auto
    then show "free_of p1 = x # rest" "ref_of p1 b = 2" "hash_of p1 b = None"
      using view_eqD [OF p1(4)] b(2-5) by (auto simp: view_touch_def fun_eq_iff)
  qed
  obtain p2 where p2: "get_new_blocks (int 1) p1 = Inr (take 1 (free_of p1), p2)" "view p2 = view_alloc (enable_caching p1) 1 (view p1)"
    using get_new_blocks_effect [OF p1(2), of 1] f1 by auto
  have bx: "b \<noteq> x" using b(2,3) by auto
  have "ref_of p2 b = 2" "hash_of p2 b = None"
    using view_eqD(2,3) [OF p2(2)] f1 r1 h1 bx by (auto simp: view_alloc_def Let_def fun_eq_iff)
  moreover have "cdiv (?bs + ?bs) ?bs - 1 = 1" using cdiv_double [OF m(2)] by simp
  ultimately show ?thesis
    using m p1(1) p2(1) f1
    by (simp add: allocate_new_computed_blocks_def base_allocate_new_computed_blocks_def get_num_skipped_tokens_def Let_def)
qed

text \<open>C31 (external_tokens_share_block): two full-attention groups, a prefix hit of one block in each, and as many external tokens. If the hit
  of the second group is the next free block, the call gives this block to both groups: the first group holds it as a new block,
  its cache key is gone, and the second group still counts it as its cached prefix.\<close>

theorem external_tokens_share_block:
  assumes S: "sys_ok (managers c) (c_pool c)" and ms: "managers c = [m0, m1]"
    and cls: "m_class m0 = FullAttentionManager" "m_class m1 = FullAttentionManager" "m_block_size m0 = m_block_size m1"
    and new: "num_cached_block m0 rid = None" "blocks_get rid m0 = []" "num_cached_block m1 rid = None" "blocks_get rid m1 = []"
    and hits: "enable_caching (c_pool c)" "hits_ok (c_pool c) [a]" "hits_ok (c_pool c) [b]" "a \<noteq> Blk 0"
    and free: "filter (\<lambda>y. y \<noteq> a) (free_of (c_pool c)) = b # x # rest"
  shows "\<exists>c'. coord_allocate_new_computed_blocks rid [[a], [b]] (m_block_size m0) (m_block_size m0) c = Inr c'
    \<and> coord_get_blocks rid c' = [[a, b], [b, x]] \<and> ref_of (c_pool c') b = 2 \<and> hash_of (c_pool c') b = None"
proof -
  let ?p = "c_pool c" and ?bs = "m_block_size m0"
  have B: "books_ok m0 ?p" "books_ok m1 ?p" using sys_books [OF S] ms by auto
  have bs: "0 < ?bs" by (rule books_okD(7) [OF B(1)])
  have two: "cdiv (?bs + ?bs) ?bs = 2" by (rule cdiv_double [OF bs])
  have z: "lead_nulls m0 (?bs + ?bs) = 0" "kept_hits m0 [a] (?bs + ?bs) = [a]"
    using cls(1) by (simp_all add: lead_nulls_def kept_hits_def get_num_skipped_tokens_def)
  have f1: "filter (\<lambda>y. y \<notin> set [a]) (free_of ?p) = b # x # rest" using free by simp
  have "\<exists>m0' p1. base_allocate_new_computed_blocks rid [a] ?bs ?bs m0 ?p = Inr (m0', p1) \<and> step_ok m0 ?p m0' p1
      \<and> blocks_get rid m0' = [a, b] \<and> num_cached rid m0' \<le> 1 \<and> free_of p1 = x # rest"
    using base_allocate_computed_step [OF B(1) hits(2) _ new(1,2), where nl = ?bs and ne = ?bs] hits(1) bs
    unfolding z f1 two by auto
  then obtain m0' p1 where s: "base_allocate_new_computed_blocks rid [a] ?bs ?bs m0 ?p = Inr (m0', p1)" "step_ok m0 ?p m0' p1"
    "blocks_get rid m0' = [a, b]" "num_cached rid m0' \<le> 1" "free_of p1 = x # rest" by blast
  have "b \<in> set (free_of ?p)" using arg_cong [OF free, of set] by auto
  then have bu: "b \<in> usable ?p" "b \<noteq> Blk 0" using free_not_held(1,4) [OF B(1)] by auto
  have D: "pool_inv p1" "fresh_tail p1 m0'" using books_okD(1,3) [OF step_okD(1) [OF s(2)]] by blast+
  have f: "ref_of p1 b = 1" "hash_of p1 b = None"
    using D(2) [unfolded fresh_tail_def, rule_format, of rid 1] s(3,4) bu(2) by auto
  have C: "config p1 = config ?p" by (rule step_okD(2) [OF s(2)])
  have "b \<notin> set (free_of p1)" using pool_exceptD(4) [OF D(1)] f(1) by auto
  from second_group_adopts [OF D(1) _ cls(2) _ _ new(3,4) _ this s(5) f] obtain m1' p2 where
    t: "allocate_new_computed_blocks rid [b] (m_block_size m1) (m_block_size m1) m1 p1 = Inr (m1', p2)"
      "blocks_get rid m1' = [b, x]" "ref_of p2 b = 2" "hash_of p2 b = None"
    using books_okD(7,11) [OF B(2)] hits(1) bu(1) config_eqD(2,6) [OF C] by auto
  show ?thesis
    using s(1,3) t cls ms
    by (simp add: coord_allocate_new_computed_blocks_def on_managers_def nth_or_raise_def coord_get_blocks_def
        allocate_new_computed_blocks_def)
qed

section \<open>Witness\<close>

definition two_groups :: "block_pool \<Rightarrow> coordinator" where
  "two_groups p =
     \<lparr>c_kind = HybridCoordinator, c_config = sample_config, c_max_model_len = 16, c_enable_caching = True, c_use_eagle = False,
      c_pool = p,
      managers = [fresh_manager (group_spec (hd (kv_cache_groups sample_config))) True 0 p,
                  fresh_manager (group_spec (hd (kv_cache_groups sample_config))) True 1 p],
      c_hash_block_size = 2, c_dcp = 1, c_pcp = 1, attention_groups = [], lcm_block_size = 2\<rparr>"

lemma two_groups_ok:
  "\<exists>p. sys_ok (managers (two_groups p)) p \<and> enable_caching p \<and> free_of p = map Blk [1, 2, 3, 4, 5]
     \<and> usable p = Blk ` {1, 2, 3, 4, 5} \<and> hash_of p (Blk 2) \<noteq> None \<and> hash_of p (Blk 1) \<noteq> None"
proof -
  obtain p where p: "init_pool 6 True 2 False None False (\<lambda>_. []) = Inr p" "pool_inv p" "num_gpu_blocks p = 6" "enable_caching p"
    "hash_block_size p = 2" "view p = \<lparr>pv_free = map Blk [1..<nat 6], pv_ref = (\<lambda>_. 0), pv_hash = (\<lambda>_. None)\<rparr>"
    using init_pool_effect [of 6 True 2 False None False "\<lambda>_. []"] by auto
  have u: "usable p = Blk ` {1, 2, 3, 4, 5}" unfolding usable_def p(3) by (auto simp: numeral_eq_Suc less_Suc_eq atLeastLessThan_def)
  have h: "hash_of p b = None" for b using fun_cong [OF view_eqD(3) [OF p(6)], of b] by simp
  obtain p1 where p1: "pool_inv p1" "config p1 = config p" "view p1 = (view p)\<lparr>pv_hash := (hash_of p)(Blk 2 \<mapsto> group_key [7] 0)\<rparr>"
    using cache_one_block [OF p(2,5), of "Blk 2" 0] u h by (auto simp: valid_group_def)
  have h1: "hash_of p1 = (hash_of p)(Blk 2 \<mapsto> group_key [7] 0)" using view_eqD(3) [OF p1(3)] by simp
  obtain p2 where p2: "pool_inv p2" "config p2 = config p1" "view p2 = (view p1)\<lparr>pv_hash := (hash_of p1)(Blk 1 \<mapsto> group_key [7] 1)\<rparr>"
    using cache_one_block [OF p1(1), of "Blk 1" 1] config_eqD(3,6) [OF p1(2)] p(5) u h fun_cong [OF h1, of "Blk 1"] by (auto simp: valid_group_def)
  have v: "free_of p2 = map Blk [1, 2, 3, 4, 5]" "ref_of p2 b = 0" "hash_of p2 (Blk 1) = Some (group_key [7] 1)" "hash_of p2 (Blk 2) = Some (group_key [7] 0)" for b
    using view_eqD(1) [OF p2(3)] fun_cong [OF view_eqD(2) [OF p2(3)], of b] fun_cong [OF view_eqD(3) [OF p2(3)], of "Blk 1"]
      fun_cong [OF view_eqD(3) [OF p2(3)], of "Blk 2"] view_eqD(1) [OF p1(3)] fun_cong [OF view_eqD(2) [OF p1(3)], of b]
      fun_cong [OF h1, of "Blk 2"] view_eqD(1) [OF p(6)] fun_cong [OF view_eqD(2) [OF p(6)], of b] by (simp_all add: upt_rec numeral_eq_Suc)
  have c: "enable_caching p2" "usable p2 = usable p" "num_gpu_blocks p2 = 6" "null_block p2 = Blk 0"
    using config_eqD [OF p2(2)] config_eqD [OF p1(2)] p(3,4) pool_exceptD(11) [OF p2(1)] by auto
  have "manager_ok p2 m \<and> fresh_tail p2 m \<and> holds m b = 0" if "m \<in> set (managers (two_groups p2))" for m b
    using that c by (auto simp: two_groups_def fresh_manager_def base_init_def sample_config_def manager_ok_def fresh_tail_def
        blocks_get_def num_cached_def valid_group_def hold_sum_def)
  then have "sys_ok (managers (two_groups p2)) p2"
    using p2(1) v(2) c(1) by (auto simp: sys_ok_def two_groups_def)
  then show ?thesis using v c u by auto
qed

theorem external_tokens_share_block_witness:
  "\<exists>p c'. coord_allocate_new_computed_blocks ''r'' [[Blk 2], [Blk 1]] 2 2 (two_groups p) = Inr c'
     \<and> coord_get_blocks ''r'' c' = [[Blk 2, Blk 1], [Blk 1, Blk 3]]"
proof -
  obtain p where p: "sys_ok (managers (two_groups p)) p" "enable_caching p" "free_of p = map Blk [1, 2, 3, 4, 5]"
    "usable p = Blk ` {1, 2, 3, 4, 5}" "hash_of p (Blk 2) \<noteq> None" "hash_of p (Blk 1) \<noteq> None" using two_groups_ok by blast
  let ?m = "\<lambda>i. fresh_manager (group_spec (hd (kv_cache_groups sample_config))) True i p"
  have m: "managers (two_groups p) = [?m 0, ?m 1]" "c_pool (two_groups p) = p" by (simp_all add: two_groups_def)
  have f: "m_class (?m i) = FullAttentionManager" "m_block_size (?m i) = 2" "num_cached_block (?m i) ''r'' = None" "blocks_get ''r'' (?m i) = []" for i
    by (simp_all add: fresh_manager_def base_init_def sample_config_def blocks_get_def)
  have "hits_ok p [Blk 2]" "hits_ok p [Blk 1]" using p(4-6) by (auto simp: hits_ok_def)
  then show ?thesis
    using external_tokens_share_block [of "two_groups p" "?m 0" "?m 1" "''r''" "Blk 2" "Blk 1" "Blk 3" "map Blk [4, 5]"] p(1-3) f m by auto
qed

end
