(* ===== verification/Memory_Bounds.thy ===== *)
theory Memory_Bounds
  imports Manager_Inv
begin

text \<open>
  The memory bounds of the layout specs against what the managers hold. A request whose first \<open>t\<close> tokens are
  computed and that has slots for \<open>nt\<close> tokens keeps the blocks behind the skipped ones; the bound of its spec,
  which the start-up check uses, has to cover them. Also: what merging the specs of a group preserves, and the
  cost of sink blocks.
\<close>

section \<open>Live blocks\<close>

lemma cdiv_minus_mult: "0 < b \<Longrightarrow> cdiv a b - k = cdiv (a - k * b) b"
proof -
  assume b: "0 < b"
  have "(a - k * b + b - 1) div b = (a + b - 1 + (- k) * b) div b" by (simp add: algebra_simps)
  also have "\<dots> = - k + (a + b - 1) div b" using b by (subst div_mult_self1) auto
  finally show ?thesis using b by (simp add: cdiv_eq_ceiling)
qed

lemma cdiv_plus_one: "0 < b \<Longrightarrow> cdiv (a + b) b = cdiv a b + 1"
  using cdiv_minus_mult [of b "a + b" 1] by simp

lemma div_bracket: "0 < b \<Longrightarrow> a div b * b \<le> a \<and> a < a div b * b + (b :: int)"
  using pos_mod_sign [of b a] pos_mod_bound [of b a] div_mult_mod_eq [of a b] by linarith

text \<open>The blocks in the list of a request, without the null block.\<close>

definition live_blocks :: "req_id \<Rightarrow> manager \<Rightarrow> int" where
  "live_blocks rid m = int (length (filter (\<lambda>b. b \<noteq> m_null_block m) (blocks_get rid m)))"

text \<open>The blocks that left the window are at the front of the list.\<close>

definition nulls_first :: "bref \<Rightarrow> bref list \<Rightarrow> bool" where
  "nulls_first nb bs \<longleftrightarrow> (\<exists>k xs. bs = replicate k nb @ xs \<and> nb \<notin> set xs)"

lemma drop_skipped_prefix:
  assumes "i \<le> length bs" "\<And>j. j < k \<Longrightarrow> j < i \<Longrightarrow> bs ! j = nb" "\<And>j. k \<le> j \<Longrightarrow> j < i \<Longrightarrow> bs ! j \<noteq> nb"
  shows "snd (drop_skipped nb i bs) = replicate i nb @ drop i bs"
  using assms
proof (induction i arbitrary: bs)
  case (Suc i)
  show ?case
  proof (cases "i < k")
    case True
    then have "take (Suc i) bs = replicate (Suc i) nb"
      using Suc.prems(1,2) by (intro nth_equalityI) (auto simp del: replicate_Suc)
    then have "bs = replicate (Suc i) nb @ drop (Suc i) bs" by (metis append_take_drop_id)
    moreover have "bs ! i = nb" using True Suc.prems(2) by simp
    ultimately show ?thesis by simp
  next
    case False
    let ?bs = "bs[i := nb]"
    have "snd (drop_skipped nb i ?bs) = replicate i nb @ drop i ?bs"
      by (rule Suc.IH) (use Suc.prems in auto)
    moreover have "drop i ?bs = nb # drop (Suc i) bs"
      using Suc.prems(1) by (simp add: drop_update_swap Cons_nth_drop_Suc [symmetric])
    moreover have "bs ! i \<noteq> nb" using False Suc.prems(3) by simp
    ultimately show ?thesis by (simp add: case_prod_unfold Let_def replicate_app_Cons_same)
  qed
qed simp

lemma remove_skipped_list:
  assumes B: "books_ok m p" and m: "m_class m \<noteq> MambaManager" and nf: "nulls_first (m_null_block m) (blocks_get rid m)"
    and len: "get_num_skipped_tokens m t div m_block_size m \<le> int (length (blocks_get rid m))"
    and r: "remove_skipped_blocks rid t m p = Inr (m1, p1)"
  shows "books_ok m1 p1 \<and> static m1 = static m \<and>
    (let n = nat (get_num_skipped_tokens m t div m_block_size m) in
     blocks_get rid m1 = replicate n (m_null_block m) @ drop n (blocks_get rid m))"
proof -
  let ?s = "get_num_skipped_tokens m t" and ?bs = "m_block_size m"
  have b0: "0 < ?bs" using books_okD(7) [OF B] .
  have r': "base_remove_skipped_blocks rid t m p = Inr (m1, p1)" using r m by (simp add: remove_skipped_blocks_def)
  have st: "books_ok m1 p1" "static m1 = static m"
    using base_remove_skipped_step [OF B, of rid t] r' by (auto simp: step_ok_def)
  show ?thesis
  proof (cases "?s \<le> 0")
    case True
    then have "nat (?s div ?bs) = 0" using b0 zdiv_mono1 [OF True b0] by simp
    then show ?thesis using True r' st by (simp add: base_remove_skipped_blocks_def)
  next
    case False
    let ?n = "nat (?s div ?bs)"
    obtain k xs where k: "blocks_get rid m = replicate k (m_null_block m) @ xs" "m_null_block m \<notin> set xs"
      using nf by (auto simp: nulls_first_def)
    obtain rm bs' where d: "drop_skipped (m_null_block m) ?n (blocks_get rid m) = (rm, bs')" by fastforce
    have "m1 = blocks_set rid bs' m" using r' False len d by (auto simp: base_remove_skipped_blocks_def Let_def min_def)
    moreover have "bs' = replicate ?n (m_null_block m) @ drop ?n (blocks_get rid m)"
    proof -
      have "snd (drop_skipped (m_null_block m) ?n (blocks_get rid m)) = replicate ?n (m_null_block m) @ drop ?n (blocks_get rid m)"
      proof (rule drop_skipped_prefix)
        show n: "?n \<le> length (blocks_get rid m)" using len by linarith
        show "blocks_get rid m ! j = m_null_block m" if "j < k" for j using that k by (simp add: nth_append)
        show "blocks_get rid m ! j \<noteq> m_null_block m" if "k \<le> j" "j < ?n" for j
        proof -
          have "xs ! (j - k) \<in> set xs" using that n k(1) by (intro nth_mem) auto
          then show ?thesis using that k by (auto simp: nth_append)
        qed
      qed
      then show ?thesis using d by simp
    qed
    moreover have "blocks_get rid (blocks_set rid bs' m) = bs'" by simp
    ultimately show ?thesis using st by simp
  qed
qed

text \<open>What a request holds after its skipped blocks were given back and after new ones were allocated, if it
  never has slots beyond the token \<^verbatim>\<open>reach\<close>.\<close>

lemma live_after_step:
  assumes B: "books_ok m p" and nf: "nulls_first (m_null_block m) (blocks_get rid m)" and cls: "m_class m \<noteq> MambaManager"
    and sk: "0 \<le> get_num_skipped_tokens m t" "get_num_skipped_tokens m t \<le> int (length (blocks_get rid m)) * m_block_size m"
    and reach: "nt \<le> reach" "int (length (blocks_get rid m)) \<le> cdiv reach (m_block_size m)"
    and ops: "remove_skipped_blocks rid t m p = Inr (m1, p1)" "allocate_new_blocks rid nt nt_main m1 p1 = Inr (new, m2, p2)"
  shows "live_blocks rid m1 \<le> cdiv reach (m_block_size m) - get_num_skipped_tokens m t div m_block_size m"
    "live_blocks rid m2 \<le> cdiv reach (m_block_size m) - get_num_skipped_tokens m t div m_block_size m"
    "nulls_first (m_null_block m2) (blocks_get rid m2)"
proof -
  let ?b = "m_block_size m" and ?s = "get_num_skipped_tokens m t"
  have b0: "0 < ?b" using books_okD(7) [OF B] .
  define n where "n = nat (?s div ?b)"
  have n: "int n = ?s div ?b" using sk(1) b0 by (simp add: n_def pos_imp_zdiv_nonneg_iff)
  have "?s div ?b * ?b \<le> int (length (blocks_get rid m)) * ?b" using div_bracket [OF b0, of ?s] sk(2) by linarith
  then have len: "?s div ?b \<le> int (length (blocks_get rid m))" using b0 by simp
  obtain k xs where k: "blocks_get rid m = replicate k (m_null_block m) @ xs" "m_null_block m \<notin> set xs"
    using nf by (auto simp: nulls_first_def)
  have m1: "books_ok m1 p1" "static m1 = static m" "blocks_get rid m1 = replicate n (m_null_block m) @ drop n (blocks_get rid m)"
    using remove_skipped_list [OF B cls nf len ops(1)] by (simp_all add: Let_def n_def)
  have st1: "m_null_block m1 = Blk 0" "m_null_block m = Blk 0" "m_block_size m1 = ?b" "m_class m1 = m_class m"
    using m1(2) books_okD(6) [OF m1(1)] books_okD(6) [OF B] static_eqD(1,3) by (metis)+
  define need where "need = cdiv nt (m_block_size m1) - int (length (blocks_get rid m1))"
  have alloc: "base_allocate_new_blocks rid nt m1 p1 = Inr (new, m2, p2)" using ops(2) st1(4) cls by (simp add: allocate_new_blocks_def)
  have m2: "blocks_get rid m2 = blocks_get rid m1 @ take (nat need) (free_of p1)" "step_ok m1 p1 m2 p2"
    using base_allocate_new_blocks_step [OF m1(1), of nt rid, folded need_def] alloc by (auto split: if_splits)
  have st2: "m_null_block m2 = Blk 0" using m2(2) books_okD(6) by (auto simp: step_ok_def)
  have "set (take (nat need) (free_of p1)) \<subseteq> usable p1"
    using pool_exceptD(4) [of "{}" p1] books_okD(1) [OF m1(1)] set_take_subset by fastforce
  then have new: "Blk 0 \<notin> set (take (nat need) (free_of p1))" using usable_not_null by blast
  have l1: "length (blocks_get rid m1) = length (blocks_get rid m)" using m1(3) len n by simp
  have shape: "blocks_get rid m2 = replicate (max n k) (Blk 0) @ drop (n - k) xs @ take (nat need) (free_of p1)"
    unfolding m2(1) m1(3) k(1) st1(2) by (simp add: replicate_add [symmetric] max_def)
  show "nulls_first (m_null_block m2) (blocks_get rid m2)"
    unfolding nulls_first_def shape st2 using k(2) new st1(2)
    by - (rule exI, rule exI, rule conjI, rule refl, auto dest: in_set_dropD)
  have live: "int (length (filter (\<lambda>b. b \<noteq> Blk 0) (replicate i (Blk 0) @ ys))) \<le> int (length (replicate i (Blk 0) @ ys)) - int i" for i ys
    by simp
  have "live_blocks rid m1 \<le> int (length (blocks_get rid m1)) - int n"
    unfolding live_blocks_def m1(3) st1 by (rule live)
  then show "live_blocks rid m1 \<le> cdiv reach ?b - ?s div ?b" unfolding l1 n using reach(2) by linarith
  have "live_blocks rid m2 \<le> int (length (blocks_get rid m2)) - int n"
    unfolding live_blocks_def m2(1) m1(3) st1 st2 append_assoc by (rule live)
  moreover have "cdiv nt ?b \<le> cdiv reach ?b" using cdiv_mono [OF b0 reach(1)] .
  moreover have "int (length (blocks_get rid m2)) \<le> max (int (length (blocks_get rid m))) (cdiv nt ?b)"
    unfolding m2(1) using l1 st1(3) by (auto simp: need_def)
  ultimately show "live_blocks rid m2 \<le> cdiv reach ?b - ?s div ?b" unfolding n using reach(2) by linarith
qed

text \<open>C29 (sliding_window_bound): a step of a sliding-window request first gives back the blocks that left the window
  and then allocates slots. If the request has slots for its \<open>t\<close> computed tokens, and neither has nor asks for slots
  (scheduled and lookahead tokens together) beyond \<^verbatim>\<open>max_num_batched_tokens\<close> after them or beyond the maximum model
  length, then at both points the blocks in its block list other than the null block take no more memory than
  \<^verbatim>\<open>SlidingWindowSpec.max_memory_usage_bytes\<close> accounts for; and the null blocks stay at the front of its list.\<close>

theorem sliding_window_bound:
  assumes "books_ok m p" "nulls_first (m_null_block m) (blocks_get rid m)"
    and "m_class m = SlidingWindowManager" "m_spec m = SlidingWindowSpec a w" "m_block_size m = af_block_size a" "1 \<le> w"
    and "0 \<le> t" "t \<le> int (length (blocks_get rid m)) * af_block_size a"
    and "reach = min (t + max_num_batched_tokens c) (max_model_len c)"
    and "nt \<le> reach" "int (length (blocks_get rid m)) \<le> cdiv reach (af_block_size a)"
    and "remove_skipped_blocks rid t m p = Inr (m1, p1)" "allocate_new_blocks rid nt nt_main m1 p1 = Inr (new, m2, p2)"
    and "page_size_bytes (SlidingWindowSpec a w) = Inr pg" "0 \<le> pg" "dcp_world_size c = 1"
  shows "\<exists>bound. max_memory_usage_bytes c (SlidingWindowSpec a w) = Inr bound
    \<and> live_blocks rid m1 * pg \<le> bound \<and> live_blocks rid m2 * pg \<le> bound \<and> nulls_first (m_null_block m2) (blocks_get rid m2)"
proof -
  let ?b = "af_block_size a" and ?X = "min (w - 1 + max_num_batched_tokens c) (max_model_len c)" and ?s = "max 0 (t - w + 1)"
  have b0: "0 < ?b" using books_okD(7) [OF assms(1)] assms(5) by simp
  have sk: "get_num_skipped_tokens m t = ?s" using assms(3,4) by (simp add: get_num_skipped_tokens_def)
  have "cdiv reach ?b - ?s div ?b \<le> cdiv ?X ?b + 1"
  proof -
    have s: "?s div ?b * ?b \<le> ?s" "?s < ?s div ?b * ?b + ?b" using div_bracket [OF b0, of ?s] by simp_all
    have "reach - ?s div ?b * ?b \<le> ?X + ?b"
    proof (cases "w - 1 + max_num_batched_tokens c \<le> max_model_len c")
      case True
      then show ?thesis using s(2) assms(6,7,9) by auto
    next
      case False
      have "0 \<le> ?s div ?b * ?b" using b0 by (simp add: pos_imp_zdiv_nonneg_iff)
      then show ?thesis using False b0 assms(9) by auto
    qed
    then show ?thesis
      using cdiv_mono [OF b0] cdiv_minus_mult [OF b0, of reach "?s div ?b"] cdiv_plus_one [OF b0, of ?X] by metis
  qed
  moreover have "m_class m \<noteq> MambaManager" "0 \<le> get_num_skipped_tokens m t"
    "get_num_skipped_tokens m t \<le> int (length (blocks_get rid m)) * m_block_size m" "int (length (blocks_get rid m)) \<le> cdiv reach (m_block_size m)"
    using assms(3,5-8,11) sk by auto
  note L = live_after_step [OF assms(1,2) this(1-3) assms(10) this(4) assms(12,13)]
  ultimately have "live_blocks rid m1 \<le> cdiv ?X ?b + 1" "live_blocks rid m2 \<le> cdiv ?X ?b + 1"
    using L(1,2) unfolding sk assms(5) by linarith+
  then have "live_blocks rid m1 * pg \<le> (cdiv ?X ?b + 1) * pg" "live_blocks rid m2 * pg \<le> (cdiv ?X ?b + 1) * pg"
    using assms(15) by (simp_all add: mult_right_mono)
  then show ?thesis using assms(14,16) L(3) by simp
qed

text \<open>The same for chunked local attention, if the chunk size is a multiple of the block size.\<close>

theorem chunked_local_bound:
  assumes "books_ok m p" "nulls_first (m_null_block m) (blocks_get rid m)"
    and "m_class m = ChunkedLocalAttentionManager" "m_spec m = ChunkedLocalAttentionSpec a ch" "m_block_size m = af_block_size a"
    and "0 < ch" "af_block_size a dvd ch" "0 \<le> t" "t \<le> int (length (blocks_get rid m)) * af_block_size a"
    and "reach = min (t + max_num_batched_tokens c) (max_model_len c)"
    and "nt \<le> reach" "int (length (blocks_get rid m)) \<le> cdiv reach (af_block_size a)"
    and "remove_skipped_blocks rid t m p = Inr (m1, p1)" "allocate_new_blocks rid nt nt_main m1 p1 = Inr (new, m2, p2)"
    and "page_size_bytes (ChunkedLocalAttentionSpec a ch) = Inr pg" "0 \<le> pg"
  shows "\<exists>bound. max_memory_usage_bytes c (ChunkedLocalAttentionSpec a ch) = Inr bound
    \<and> live_blocks rid m1 * pg \<le> bound \<and> live_blocks rid m2 * pg \<le> bound"
proof -
  let ?b = "af_block_size a" and ?X = "min (ch + max_num_batched_tokens c) (max_model_len c)" and ?s = "t div ch * ch"
  have b0: "0 < ?b" using books_okD(7) [OF assms(1)] assms(5) by simp
  have s: "?s \<le> t" "t < ?s + ch" "0 \<le> ?s"
    using div_bracket [OF assms(6), of t] assms(6,8) by (simp_all add: pos_imp_zdiv_nonneg_iff)
  have sk: "get_num_skipped_tokens m t = ?s" using assms(3,4) by (simp add: get_num_skipped_tokens_def)
  have "?b dvd ?s" using assms(7) by simp
  then have sb: "?s div ?b * ?b = ?s" by simp
  have "cdiv reach ?b - ?s div ?b = cdiv (reach - ?s) ?b" using cdiv_minus_mult [OF b0, of reach "?s div ?b"] sb by simp
  also have "\<dots> \<le> cdiv ?X ?b" using s assms(10) by (intro cdiv_mono [OF b0]) auto
  finally have X: "cdiv reach ?b - ?s div ?b \<le> cdiv ?X ?b" .
  have "m_class m \<noteq> MambaManager" "0 \<le> get_num_skipped_tokens m t"
    "get_num_skipped_tokens m t \<le> int (length (blocks_get rid m)) * m_block_size m" "int (length (blocks_get rid m)) \<le> cdiv reach (m_block_size m)"
    using assms(3,5,9,12) sk s by auto
  note L = live_after_step [OF assms(1,2) this(1-3) assms(11) this(4) assms(13,14)]
  have "live_blocks rid m1 \<le> cdiv ?X ?b" "live_blocks rid m2 \<le> cdiv ?X ?b"
    using L(1,2) X unfolding sk assms(5) by linarith+
  then have "live_blocks rid m1 * pg \<le> cdiv ?X ?b * pg" "live_blocks rid m2 * pg \<le> cdiv ?X ?b * pg"
    using assms(16) by (simp_all add: mult_right_mono)
  then show ?thesis using assms(15) by simp
qed

text \<open>A request of 11 computed tokens in blocks of four goes on to \<^verbatim>\<open>nt\<close> tokens.\<close>

definition window_run :: "manager_class \<Rightarrow> kv_cache_spec \<Rightarrow> int \<Rightarrow> (manager \<times> block_pool \<times> manager \<times> block_pool \<times> manager \<times> block_pool) res" where
  "window_run cls spec nt =
     bindE (init_pool 10 False 4 False None False (\<lambda>_. [])) (\<lambda>p0.
     bindE (allocate_new_blocks ''a'' 11 11 (base_init cls spec False 0 1 1 p0) p0) (\<lambda>(_, m, p).
     bindE (remove_skipped_blocks ''a'' 11 m p) (\<lambda>(m1, p1).
     bindE (allocate_new_blocks ''a'' nt nt m1 p1) (\<lambda>(_, m2, p2). Inr (m, p, m1, p1, m2, p2)))))"

text \<open>Without that divisibility the bound is too small. With a chunk of 6 tokens, blocks of 4 and two
  scheduled tokens, a request with 11 computed tokens holds three blocks, and the bound of its spec covers two.\<close>

theorem chunked_local_bound_too_small:
  defines "a \<equiv> \<lparr>af_block_size = 4, num_kv_heads = 1, head_size = 64, dtype = \<lparr>dt_name = ''bfloat16'', dt_size = 2\<rparr>, af_page_size_padded = None\<rparr>"
  defines "c \<equiv> \<lparr>max_model_len = 100, max_num_batched_tokens = 2, max_num_encoder_input_tokens = 0, dcp_world_size = 1, pcp_world_size = 1, cfg_mamba_cache_mode = ''none''\<rparr>"
  shows "page_size_bytes (ChunkedLocalAttentionSpec a 6) = Inr 1024
    \<and> max_memory_usage_bytes c (ChunkedLocalAttentionSpec a 6) = Inr (2 * 1024)
    \<and> (\<exists>m p m1 p1 m2 p2. window_run ChunkedLocalAttentionManager (ChunkedLocalAttentionSpec a 6) 13 = Inr (m, p, m1, p1, m2, p2)
         \<and> live_blocks ''a'' m2 * 1024 = 3 * 1024)"
proof -
  have "(case window_run ChunkedLocalAttentionManager (ChunkedLocalAttentionSpec a 6) 13 of
      Inr (m, p, m1, p1, m2, p2) \<Rightarrow> Some (live_blocks ''a'' m2) | Inl e \<Rightarrow> None) = Some 3"
    unfolding a_def by code_simp
  then have "\<exists>m p m1 p1 m2 p2. window_run ChunkedLocalAttentionManager (ChunkedLocalAttentionSpec a 6) 13 = Inr (m, p, m1, p1, m2, p2)
         \<and> live_blocks ''a'' m2 * 1024 = 3 * 1024"
    by (auto split: sum.splits)
  then show ?thesis by (simp add: a_def c_def padded_page_def attention_page_def cdiv_def)
qed

section \<open>Merging the specs of a group\<close>

lemma list_all_mem: "list_all P xs \<Longrightarrow> x \<in> set xs \<Longrightarrow> P x"
  by (simp add: list_all_iff)

lemma attn_block_size: "attn_of s = Some a \<Longrightarrow> block_size s = af_block_size a"
  by (cases s) auto

lemma merge_window_sizes_mem: "merge_window_sizes ws = Inr w \<Longrightarrow> v \<in> set ws \<Longrightarrow> v = None \<or> v = w"
proof -
  assume w: "merge_window_sizes ws = Inr w" and v: "v \<in> set ws"
  have set: "set (remdups (List.map_filter id ws)) = {x. Some x \<in> set ws}"
    by (induction ws) (auto simp: List.map_filter_def)
  show ?thesis
  proof (cases v)
    case (Some x)
    then have "x \<in> set (remdups (List.map_filter id ws))" using v unfolding set by simp
    then show ?thesis using w Some by (auto simp: merge_window_sizes_def simp del: set_remdups split: list.splits)
  qed simp
qed

text \<open>C30 (merge_sound): what a successful merge of the specs of a group guarantees for every layer. If the merged
  spec is not full attention, all layers have exactly this spec. If it is multi-head latent attention, so are all
  layers, with its cache dtype (nothing else is compared). If it is full attention of another kind, so are all
  layers, with the block size, the heads, the head size, the dtype and the padding of the merged spec; a layer
  with a window or a chunk size has that of the merged spec, which does not have both.\<close>

theorem merge_sound:
  assumes "merge specs = Inr m" "s \<in> set specs"
  shows "(\<not> is_full_attention m \<longrightarrow> s = m)
    \<and> (is_mla m \<longrightarrow> is_mla s \<and> mla_cache_dtype s = mla_cache_dtype m)
    \<and> (is_full_attention m \<and> \<not> is_mla m \<longrightarrow> is_full_attention s \<and> \<not> is_mla s \<and> attn_of s = attn_of m \<and> block_size s = block_size m
         \<and> full_window s \<in> {None, full_window m} \<and> full_chunk s \<in> {None, full_chunk m}
         \<and> (full_window m = None \<or> full_chunk m = None))"
proof (cases specs)
  case Nil
  then show ?thesis using assms(2) by simp
next
  case (Cons x rest)
  show ?thesis
  proof (cases "is_full_attention x")
    case True
    show ?thesis
    proof (cases "is_mla x")
      case True
      then show ?thesis using assms Cons by (cases x) (auto simp: Let_def assertE_def list_all_iff split: if_splits)
    next
      case False
      then obtain a w c where m: "list_all is_full_attention specs" "\<not> list_ex is_mla specs" "list_all (\<lambda>s. attn_of s = Some a) specs"
        "merge_window_sizes (map full_window specs) = Inr w" "merge_window_sizes (map full_chunk specs) = Inr c"
        "attn_of m = Some a" "is_full_attention m" "\<not> is_mla m" "block_size m = af_block_size a" "full_window m = w" "full_chunk m = c" "w = None \<or> c = None"
        using assms(1) Cons True
        by (cases x) (auto simp: Let_def merge_full_windows_def merged_ok_def assertE_def split: if_splits)
      then show ?thesis using assms(2) attn_block_size [of s a] merge_window_sizes_mem [OF m(4), of "full_window s"]
        merge_window_sizes_mem [OF m(5), of "full_chunk s"] by (auto simp: list_all_iff list_ex_iff)
    qed
  next
    case False
    then have "m = x \<and> list_all (\<lambda>t. t = x) rest" using assms(1) Cons by (cases x) (auto simp: assertE_def split: if_splits)
    then show ?thesis using assms(2) Cons False by (cases x) (auto simp: list_all_iff)
  qed
qed

text \<open>the value head size of a full-attention layer is not compared. Two layers that differ in it merge, and
  the page size of the merged spec is too small for the second one.\<close>

theorem merge_ignores_value_head_size:
  defines "a \<equiv> \<lparr>af_block_size = 16, num_kv_heads = 1, head_size = 64, dtype = \<lparr>dt_name = ''bfloat16'', dt_size = 2\<rparr>, af_page_size_padded = None\<rparr>"
  shows "merge [FullAttentionSpec a 64 None None, FullAttentionSpec a 128 None None] = Inr (FullAttentionSpec a 64 None None)
    \<and> page_size_bytes (FullAttentionSpec a 64 None None) = Inr 4096 \<and> page_size_bytes (FullAttentionSpec a 128 None None) = Inr 6144"
  by (simp add: a_def merge_full_windows_def merged_ok_def merge_window_sizes_def padded_page_def full_page_def)

section \<open>Sink blocks\<close>

text \<open>The manager for attention sinks takes its blocks directly from the free queue, without a reference. In the
  state this leaves the free queue does not hold all blocks but one, so \<^verbatim>\<open>reset_prefix_cache\<close> reports failure and
  changes nothing, although no request holds a block.\<close>

theorem sink_blocks_disable_reset:
  assumes "pool_inv p" "sink_init m p = Inr (m', p')" "0 < m_block_size m"
  shows "reset_prefix_cache p' = (False, p') \<and> sink_blocks m' \<noteq> []"
proof -
  obtain a hv w c len where s: "m_spec m = SinkFullAttentionSpec a hv w c (Some len)" "0 < len" "len mod m_block_size m = 0"
    using assms(2,3) by (auto simp: sink_init_def assertE_def split: kv_cache_spec.splits option.splits if_splits)
  define n where "n = nat (len div m_block_size m)"
  have "m_block_size m \<le> len" using s(2,3) by (intro zdvd_imp_le) (auto simp: dvd_eq_mod_eq_0)
  then have "0 < len div m_block_size m" using assms(3) by (simp add: pos_imp_zdiv_pos_iff)
  then have n: "int n = len div m_block_size m" "0 < n" by (simp_all add: n_def)
  obtain bs q where q: "popleft_n (int n) (free_block_queue p) = Inr (bs, q)" "m' = m\<lparr>sink_blocks := bs\<rparr>" "p' = p\<lparr>free_block_queue := q\<rparr>"
    using assms(2,3) s unfolding n(1) by (auto simp: sink_init_def)
  note P = pool_exceptD [OF assms(1)]
  have le: "n \<le> length (free_of p)"
    using popleft_n_too_many [OF P(1) [unfolded queue_inv_def], of "int n"] q(1) by (cases "n \<le> length (free_of p)") auto
  then obtain q' where q': "popleft_n (int n) (free_block_queue p) = Inr (take n (free_of p), q')" "queue_inv q'" "free_list q' = drop n (free_of p)"
    using fq.pop_law [OF P(1)] by blast
  then have e: "q = q'" "bs = take n (free_of p)" using q(1) by auto
  have "set (free_of p) \<subseteq> usable p" using P(4) by auto
  then have "length (free_of p) \<le> card (usable p)"
    using P(9) by (metis card_mono distinct_card finite_imageI finite_atLeastLessThan usable_def)
  then have "int (length (free_of p)) \<le> num_gpu_blocks p - 1"
    using P(10) by (simp add: usable_def card_image inj_on_def)
  moreover have "get_num_free_blocks p' = int (length (free_of p)) - int n"
    using fq.size_law [OF q'(2)] q'(3) e(1) q(3) le by (simp add: get_num_free_blocks_def)
  ultimately have "num_gpu_blocks p' - get_num_free_blocks p' \<noteq> 1" using n(2) q(3) by simp
  moreover have "bs \<noteq> []" using e(2) le n(2) by auto
  ultimately show ?thesis using q(2) by (simp add: reset_prefix_cache_def)
qed

section \<open>Witnesses\<close>

abbreviation small_fields :: attention_fields where
  "small_fields \<equiv> \<lparr>af_block_size = 4, num_kv_heads = 1, head_size = 8, dtype = \<lparr>dt_name = ''bfloat16'', dt_size = 2\<rparr>, af_page_size_padded = None\<rparr>"

abbreviation small_engine :: vllm_config where
  "small_engine \<equiv> \<lparr>max_model_len = 100, max_num_batched_tokens = 8, max_num_encoder_input_tokens = 0, dcp_world_size = 1,
     pcp_world_size = 1, cfg_mamba_cache_mode = ''none''\<rparr>"

lemma window_run_result:
  "(case window_run SlidingWindowManager (SlidingWindowSpec small_fields 6) 19 of
      Inr (m, p, m1, p1, m2, p2) \<Rightarrow>
        Some (length (blocks_get ''a'' m), live_blocks ''a'' m1, live_blocks ''a'' m2, list_ex (\<lambda>b. b = Blk 0) (blocks_get ''a'' m),
          m_class m, m_spec m, m_block_size m, m_null_block m)
    | Inl e \<Rightarrow> None) = Some (3, 2, 4, False, SlidingWindowManager, SlidingWindowSpec small_fields 6, 4, Blk 0)"
  by code_simp

theorem sliding_window_bound_witness:
  "\<exists>m p m1 p1 m2 p2. window_run SlidingWindowManager (SlidingWindowSpec small_fields 6) 19 = Inr (m, p, m1, p1, m2, p2)
     \<and> live_blocks ''a'' m1 = 2 \<and> live_blocks ''a'' m2 = 4
     \<and> (\<exists>bound. max_memory_usage_bytes small_engine (SlidingWindowSpec small_fields 6) = Inr bound \<and> live_blocks ''a'' m2 * 128 \<le> bound)"
proof -
  obtain m p m1 p1 m2 p2 where run: "window_run SlidingWindowManager (SlidingWindowSpec small_fields 6) 19 = Inr (m, p, m1, p1, m2, p2)"
    and v: "length (blocks_get ''a'' m) = 3" "live_blocks ''a'' m1 = 2" "live_blocks ''a'' m2 = 4" "Blk 0 \<notin> set (blocks_get ''a'' m)"
      "m_class m = SlidingWindowManager" "m_spec m = SlidingWindowSpec small_fields 6" "m_block_size m = 4" "m_null_block m = Blk 0"
    using window_run_result by (auto simp: list_ex_iff split: sum.splits)
  obtain p0 nw nw2 where p0: "init_pool 10 False 4 False None False (\<lambda>_. []) = Inr p0"
    and r: "allocate_new_blocks ''a'' 11 11 (base_init SlidingWindowManager (SlidingWindowSpec small_fields 6) False 0 1 1 p0) p0 = Inr (nw, m, p)"
      "remove_skipped_blocks ''a'' 11 m p = Inr (m1, p1)" "allocate_new_blocks ''a'' 19 19 m1 p1 = Inr (nw2, m2, p2)"
    using run by (auto simp: window_run_def split: prod.splits)
  let ?m = "base_init SlidingWindowManager (SlidingWindowSpec small_fields 6) False 0 1 1 p0"
  obtain p' where p': "init_pool 10 False 4 False None False (\<lambda>_. []) = Inr p'" "pool_inv p'" "enable_caching p' = False"
    "view p' = \<lparr>pv_free = map Blk [1..<nat 10], pv_ref = (\<lambda>_. 0), pv_hash = (\<lambda>_. None)\<rparr>"
    using init_pool_effect [of 10 False 4 False None False "\<lambda>_. []"] by auto
  have "p' = p0" using p0 p'(1) by simp
  then have "books_ok ?m p0"
    using p'(2-4) pool_exceptD(11) [OF p'(2)] fun_cong [OF view_eqD(2) [OF p'(4)]] fun_cong [OF view_eqD(3) [OF p'(4)]]
    by (auto simp: books_ok_def manager_ok_def fresh_tail_def base_init_def valid_group_def blocks_get_def num_cached_def hold_sum_def)
  from base_allocate_new_blocks_step [OF this, of 11 "''a''"] r(1) have B: "books_ok m p"
    by (auto simp: allocate_new_blocks_def base_init_def step_ok_def split: if_splits)
  have nf: "nulls_first (m_null_block m) (blocks_get ''a'' m)"
    unfolding nulls_first_def by (intro exI [of _ 0] exI [of _ "blocks_get ''a'' m"]) (simp add: v)
  have "\<exists>bound. max_memory_usage_bytes small_engine (SlidingWindowSpec small_fields 6) = Inr bound
    \<and> live_blocks ''a'' m1 * 128 \<le> bound \<and> live_blocks ''a'' m2 * 128 \<le> bound \<and> nulls_first (m_null_block m2) (blocks_get ''a'' m2)"
    by (rule sliding_window_bound [OF B nf v(5,6) _ _ _ _ refl _ _ r(2,3)])
      (simp_all add: v padded_page_def attention_page_def cdiv_def)
  then show ?thesis using run v(2,3) by auto
qed

theorem merge_sound_witness:
  "merge [FullAttentionSpec small_fields 8 None None, FullAttentionSpec small_fields 8 (Some 5) None] = Inr (FullAttentionSpec small_fields 8 (Some 5) None)
   \<and> attn_of (FullAttentionSpec small_fields 8 None None) = attn_of (FullAttentionSpec small_fields 8 (Some 5) None)"
proof -
  have m: "merge [FullAttentionSpec small_fields 8 None None, FullAttentionSpec small_fields 8 (Some 5) None] = Inr (FullAttentionSpec small_fields 8 (Some 5) None)"
    by (simp add: merge_full_windows_def merged_ok_def merge_window_sizes_def)
  from merge_sound [OF m, of "FullAttentionSpec small_fields 8 None None"] m show ?thesis by simp
qed

theorem sink_blocks_disable_reset_witness:
  "\<exists>p m' p'. init_pool 4 True 4 False None False (\<lambda>_. []) = Inr p
     \<and> get_manager_for_kv_cache_spec (SinkFullAttentionSpec small_fields 8 None None (Some 4)) True 0 1 1 p = Inr (m', p')
     \<and> reset_prefix_cache p' = (False, p')"
proof -
  obtain p where p: "init_pool 4 True 4 False None False (\<lambda>_. []) = Inr p" "pool_inv p"
    "view p = \<lparr>pv_free = map Blk [1..<nat 4], pv_ref = (\<lambda>_. 0), pv_hash = (\<lambda>_. None)\<rparr>"
    using init_pool_effect [of 4 True 4 False None False "\<lambda>_. []"] by auto
  let ?m = "base_init SinkFullAttentionManager (SinkFullAttentionSpec small_fields 8 None None (Some 4)) True 0 1 1 p"
  have "length (free_of p) = 3" using view_eqD(1) [OF p(3)] by simp
  then obtain q where "popleft_n (int 1) (free_block_queue p) = Inr (take 1 (free_of p), q)"
    using fq.pop_law [OF pool_exceptD(1) [OF p(2)], of 1] by auto
  then have s: "sink_init ?m p = Inr (?m\<lparr>sink_blocks := take 1 (free_of p)\<rparr>, p\<lparr>free_block_queue := q\<rparr>)"
    by (simp add: sink_init_def base_init_def)
  have "reset_prefix_cache (p\<lparr>free_block_queue := q\<rparr>) = (False, p\<lparr>free_block_queue := q\<rparr>)"
    using sink_blocks_disable_reset [OF p(2) s] by (simp add: base_init_def)
  then show ?thesis using p(1) s by (auto simp: get_manager_for_kv_cache_spec_def Let_def)
qed

end
