(* ===== verification/Encoder_Cache.thy ===== *)
theory Encoder_Cache
  imports Request Block_Map
begin

text \<open>
  The encoder cache of src/vllm/v1/core/encoder\_cache\_manager.py: which multi-modal inputs have
  their encoder output in the workers' memory, which requests need it, and which outputs may be
  evicted. Sizes are numbers of embeddings. The dictionary \<^verbatim>\<open>cached\<close> is a map from content hashes to
  sets of request ids, the ordered dictionary \<^verbatim>\<open>freeable\<close> an association list in insertion order.

  The lemmas show that the two slot counters always agree with the dictionaries, that the eviction
  loop ends before the ordered dictionary is empty, and that outputs in use are never evicted.
\<close>

section \<open>State\<close>

record encoder_cache =
  cache_size :: int
  num_free_slots :: int
  num_freeable_slots :: int
  cached :: "string \<rightharpoonup> req_id set"
  freeable :: "(string \<times> int) list"
  freed :: "string list"

definition init_encoder_cache :: "int \<Rightarrow> encoder_cache" where
  "init_encoder_cache n =
     \<lparr>cache_size = n, num_free_slots = n, num_freeable_slots = n, cached = Map.empty, freeable = [],
      freed = []\<rparr>"

definition enc_reset :: "encoder_cache \<Rightarrow> encoder_cache" where
  "enc_reset ec =
     ec\<lparr>cached := Map.empty, freeable := [], freed := [], num_free_slots := cache_size ec,
        num_freeable_slots := cache_size ec\<rparr>"

section \<open>Operations\<close>

definition mm_hash_of :: "request \<Rightarrow> int \<Rightarrow> string res" where
  "mm_hash_of r i = bindE (py_get (mm_features r) i) (\<lambda>f. Inr (mm_identifier f))"

definition check_and_update_cache :: "request \<Rightarrow> int \<Rightarrow> encoder_cache \<Rightarrow> (bool \<times> encoder_cache) res" where
  "check_and_update_cache r i ec =
     bindE (mm_hash_of r i) (\<lambda>h.
       case cached ec h of
         None \<Rightarrow> Inr (False, ec)
       | Some ids \<Rightarrow>
           bindE
             (if ids = {}
              then bindE (dict_pop h (freeable ec)) (\<lambda>(n, od).
                Inr (ec\<lparr>freeable := od, num_freeable_slots := num_freeable_slots ec - n\<rparr>))
              else Inr ec) (\<lambda>ec'.
           Inr (True, ec'\<lparr>cached := (cached ec')(h \<mapsto> insert (request_id r) ids)\<rparr>)))"

text \<open>The eviction loop takes the entries from the old end of the ordered dictionary;
  \<^verbatim>\<open>popitem\<close> on an empty one and \<^verbatim>\<open>del\<close> of a missing key raise.\<close>

fun evict_loop :: "int \<Rightarrow> (string \<times> int) list \<Rightarrow> encoder_cache \<Rightarrow> encoder_cache res" where
  "evict_loop need [] ec = (if need > num_free_slots ec then Inl KeyError else Inr ec)"
| "evict_loop need ((h, n) # od) ec =
     (if need > num_free_slots ec
      then (if cached ec h = None then Inl KeyError
            else evict_loop need od
              (ec\<lparr>freeable := od, cached := (cached ec)(h := None), freed := freed ec @ [h],
                  num_free_slots := num_free_slots ec + n\<rparr>))
      else Inr ec)"

definition can_allocate ::
  "request \<Rightarrow> int \<Rightarrow> int \<Rightarrow> int \<Rightarrow> encoder_cache \<Rightarrow> (bool \<times> encoder_cache) res" where
  "can_allocate r i budget scheduled ec =
     bindE (get_num_encoder_embeds r i) (\<lambda>n.
       if n > budget then Inr (False, ec)
       else
         let need = n + scheduled in
         if need \<le> num_free_slots ec then Inr (True, ec)
         else if need > num_freeable_slots ec then Inr (False, ec)
         else bindE (evict_loop need (freeable ec) ec) (\<lambda>ec'. Inr (True, ec')))"

definition enc_allocate :: "request \<Rightarrow> int \<Rightarrow> encoder_cache \<Rightarrow> encoder_cache res" where
  "enc_allocate r i ec =
     bindE (mm_hash_of r i) (\<lambda>h.
     bindE (get_num_encoder_embeds r i) (\<lambda>n.
       assertE (num_free_slots ec \<ge> n)
         (assertE (num_freeable_slots ec \<ge> n)
           (Inr (ec\<lparr>cached :=
                      (cached ec)(h \<mapsto> insert (request_id r) (case cached ec h of None \<Rightarrow> {} | Some s \<Rightarrow> s)),
                    num_free_slots := num_free_slots ec - n,
                    num_freeable_slots := num_freeable_slots ec - n\<rparr>)))))"

definition get_cached_input_ids :: "request \<Rightarrow> encoder_cache \<Rightarrow> int set" where
  "get_cached_input_ids r ec =
     set (filter (\<lambda>i. cached ec (mm_identifier (mm_features r ! nat i)) \<noteq> None)
       [0..int (length (mm_features r)) - 1])"

definition free_encoder_input :: "request \<Rightarrow> int \<Rightarrow> encoder_cache \<Rightarrow> encoder_cache res" where
  "free_encoder_input r i ec =
     bindE (mm_hash_of r i) (\<lambda>h.
       case cached ec h of
         None \<Rightarrow> Inr ec
       | Some ids \<Rightarrow>
           if ids = {} then Inr ec
           else
             let ids' = ids - {request_id r}; ec' = ec\<lparr>cached := (cached ec)(h \<mapsto> ids')\<rparr> in
             if ids' = {}
             then bindE (get_num_encoder_embeds r i) (\<lambda>n.
               Inr (ec'\<lparr>freeable := dict_set h n (freeable ec'),
                        num_freeable_slots := num_freeable_slots ec' + n\<rparr>))
             else Inr ec')"

text \<open>\<^verbatim>\<open>free\<close> iterates over a set; the order in which the interpreter enumerates it is the argument
  \<^verbatim>\<open>order\<close>.\<close>

definition enc_free :: "(int set \<Rightarrow> int list) \<Rightarrow> request \<Rightarrow> encoder_cache \<Rightarrow> encoder_cache res" where
  "enc_free order r ec = foldE (free_encoder_input r) (order (get_cached_input_ids r ec)) ec"

definition get_freed_mm_hashes :: "encoder_cache \<Rightarrow> string list \<times> encoder_cache" where
  "get_freed_mm_hashes ec = (freed ec, ec\<lparr>freed := []\<rparr>)"

section \<open>Budget\<close>

record scheduler_budget =
  disable_chunked_mm_input :: bool
  max_num_batched_tokens :: int
  max_num_encoder_input_tokens :: int
  encoder_cache_size :: int

definition compute_mm_encoder_budget :: "scheduler_budget \<Rightarrow> (string \<times> int) list \<Rightarrow> (int \<times> int) res" where
  "compute_mm_encoder_budget sc toks =
     (if toks = [] then Inr (0, 0)
      else
        let mx = Max (set (map snd toks)) in
        if disable_chunked_mm_input sc \<and> mx > max_num_batched_tokens sc then Inl ValueError
        else Inr (max (max_num_encoder_input_tokens sc) mx, max (encoder_cache_size sc) mx))"

section \<open>Encoder-decoder models\<close>

record encdec_cache =
  ed_cache_size :: int
  ed_num_free_slots :: int
  allocated :: "string list"
  to_free :: "string list"

definition init_encdec_cache :: "int \<Rightarrow> encdec_cache" where
  "init_encdec_cache n = \<lparr>ed_cache_size = n, ed_num_free_slots = n, allocated = [], to_free = []\<rparr>"

definition ed_reset :: "encdec_cache \<Rightarrow> encdec_cache" where
  "ed_reset ec = ec\<lparr>ed_num_free_slots := ed_cache_size ec, allocated := [], to_free := []\<rparr>"

definition ed_check_and_update_cache :: "request \<Rightarrow> int \<Rightarrow> encdec_cache \<Rightarrow> bool \<times> encdec_cache" where
  "ed_check_and_update_cache r i ec = (False, ec)"

definition ed_can_allocate :: "request \<Rightarrow> int \<Rightarrow> int \<Rightarrow> int \<Rightarrow> encdec_cache \<Rightarrow> bool res" where
  "ed_can_allocate r i budget scheduled ec =
     bindE (get_num_encoder_embeds r i) (\<lambda>n.
       if n > budget then Inr False else Inr (n + scheduled \<le> ed_num_free_slots ec))"

definition ed_allocate :: "request \<Rightarrow> int \<Rightarrow> encdec_cache \<Rightarrow> encdec_cache res" where
  "ed_allocate r i ec =
     bindE (get_num_encoder_embeds r i) (\<lambda>n.
     bindE (mm_hash_of r i) (\<lambda>h.
       Inr (ec\<lparr>ed_num_free_slots := ed_num_free_slots ec - n, allocated := allocated ec @ [h]\<rparr>)))"

definition ed_free_encoder_input :: "request \<Rightarrow> int \<Rightarrow> encdec_cache \<Rightarrow> encdec_cache res" where
  "ed_free_encoder_input r i ec =
     bindE (get_num_encoder_embeds r i) (\<lambda>n.
       Inr (ec\<lparr>ed_num_free_slots := ed_num_free_slots ec + n\<rparr>))"

definition ed_free :: "request \<Rightarrow> encdec_cache \<Rightarrow> encdec_cache res" where
  "ed_free r ec = foldE (ed_free_encoder_input r) [0..int (length (mm_features r)) - 1] ec"

definition ed_get_cached_input_ids :: "request \<Rightarrow> int set" where
  "ed_get_cached_input_ids r = set [0..int (length (mm_features r)) - 1]"

definition ed_get_freed_mm_hashes :: "encdec_cache \<Rightarrow> string list \<times> encdec_cache" where
  "ed_get_freed_mm_hashes ec =
     (to_free ec, ec\<lparr>to_free := allocated ec, allocated := []\<rparr>)"

section \<open>The invariant\<close>

text \<open>The number of embeddings of an item depends on its content hash only: \<^verbatim>\<open>sz\<close> is that number.
  Its sum over the cached items is what the free slots leave of the capacity.\<close>

definition used_slots :: "(string \<Rightarrow> int) \<Rightarrow> encoder_cache \<Rightarrow> int" where
  "used_slots sz ec = sum sz (dom (cached ec))"

definition idle_slots :: "encoder_cache \<Rightarrow> int" where
  "idle_slots ec = sum_list (map snd (freeable ec))"

definition enc_inv :: "(string \<Rightarrow> int) \<Rightarrow> encoder_cache \<Rightarrow> bool" where
  "enc_inv sz ec \<longleftrightarrow>
     finite (dom (cached ec)) \<and> (\<forall>h. 0 \<le> sz h) \<and>
     num_free_slots ec + used_slots sz ec = cache_size ec \<and>
     num_freeable_slots ec = num_free_slots ec + idle_slots ec \<and>
     0 \<le> num_free_slots ec \<and>
     distinct (map fst (freeable ec)) \<and>
     (\<forall>(h, n) \<in> set (freeable ec). n = sz h) \<and>
     fst ` set (freeable ec) = {h. cached ec h = Some {}}"

definition sized :: "(string \<Rightarrow> int) \<Rightarrow> request \<Rightarrow> bool" where
  "sized sz r \<longleftrightarrow>
     (\<forall>i < length (mm_features r).
        get_num_encoder_embeds r (int i) = Inr (sz (mm_identifier (mm_features r ! i))))"

lemma mm_hash_of_nat:
  "i < length (mm_features r) \<Longrightarrow> mm_hash_of r (int i) = Inr (mm_identifier (mm_features r ! i))"
  by (simp add: mm_hash_of_def)

lemma sizedD:
  "sized sz r \<Longrightarrow> i < length (mm_features r) \<Longrightarrow>
   get_num_encoder_embeds r (int i) = Inr (sz (mm_identifier (mm_features r ! i)))"
  by (simp add: sized_def)

lemma enc_invD:
  assumes "enc_inv sz ec"
  shows "finite (dom (cached ec))" "0 \<le> sz h"
    "num_free_slots ec + used_slots sz ec = cache_size ec"
    "num_freeable_slots ec = num_free_slots ec + idle_slots ec"
    "0 \<le> num_free_slots ec" "distinct (map fst (freeable ec))"
    "(h, n) \<in> set (freeable ec) \<Longrightarrow> n = sz h"
    "fst ` set (freeable ec) = {h. cached ec h = Some {}}"
  using assms by (auto simp: enc_inv_def)

lemma enc_init_inv: "0 \<le> n \<Longrightarrow> (\<And>h. 0 \<le> sz h) \<Longrightarrow> enc_inv sz (init_encoder_cache n)"
  by (simp add: enc_inv_def init_encoder_cache_def used_slots_def idle_slots_def)

lemma enc_reset_inv: "enc_inv sz ec \<Longrightarrow> enc_inv sz (enc_reset ec)"
proof -
  assume inv: "enc_inv sz ec"
  have "0 \<le> used_slots sz ec" unfolding used_slots_def by (intro sum_nonneg) (simp add: enc_invD(2) [OF inv])
  then show ?thesis using inv by (simp add: enc_inv_def enc_reset_def used_slots_def idle_slots_def)
qed

lemma freeable_map_of:
  assumes inv: "enc_inv sz ec"
  shows "map_of (freeable ec) h = (if cached ec h = Some {} then Some (sz h) else None)"
proof (cases "cached ec h = Some {}")
  case True
  then have "h \<in> fst ` set (freeable ec)" using enc_invD(8) [OF inv] by simp
  then obtain n where n: "(h, n) \<in> set (freeable ec)" by force
  then have "map_of (freeable ec) h = Some n" using enc_invD(6) [OF inv] by simp
  then show ?thesis using True enc_invD(7) [OF inv n] by simp
next
  case False
  then have "h \<notin> fst ` set (freeable ec)" using enc_invD(8) [OF inv] by simp
  then show ?thesis using False by (simp add: map_of_eq_None_iff)
qed

lemma idle_without:
  "distinct (map fst od) \<Longrightarrow> map_of od h = Some n \<Longrightarrow>
   sum_list (map snd (filter (\<lambda>e. fst e \<noteq> h) od)) = sum_list (map snd od) - (n :: int)"
proof (induction od)
  case (Cons e od)
  show ?case
  proof (cases "fst e = h")
    case True
    then have "\<forall>x \<in> set od. fst x \<noteq> h" using Cons.prems(1) by (auto simp: image_iff)
    then have "filter (\<lambda>e. fst e \<noteq> h) od = od" by (rule filter_True)
    then show ?thesis using True Cons.prems by (cases e) simp
  next
    case False
    then show ?thesis using Cons by auto
  qed
qed simp

lemma used_slots_upd [simp]:
  "used_slots sz (ec\<lparr>freeable := a\<rparr>) = used_slots sz ec"
  "used_slots sz (ec\<lparr>num_freeable_slots := b\<rparr>) = used_slots sz ec"
  "used_slots sz (ec\<lparr>num_free_slots := b\<rparr>) = used_slots sz ec"
  "used_slots sz (ec\<lparr>freed := c\<rparr>) = used_slots sz ec"
  by (simp_all add: used_slots_def)

lemma used_slots_cached:
  "cached ec h = Some ids \<Longrightarrow> used_slots sz (ec\<lparr>cached := (cached ec)(h \<mapsto> ids')\<rparr>) = used_slots sz ec"
  by (simp add: used_slots_def insert_absorb domI)

lemma used_slots_add:
  "finite (dom (cached ec)) \<Longrightarrow> cached ec h = None \<Longrightarrow>
   used_slots sz (ec\<lparr>cached := (cached ec)(h \<mapsto> ids)\<rparr>) = used_slots sz ec + sz h"
  by (simp add: used_slots_def domIff)

lemma used_slots_del:
  "finite (dom (cached ec)) \<Longrightarrow> cached ec h \<noteq> None \<Longrightarrow>
   used_slots sz (ec\<lparr>cached := (cached ec)(h := None)\<rparr>) = used_slots sz ec - sz h"
  by (simp add: used_slots_def domIff sum_diff1)

section \<open>The operations keep the invariant\<close>

text \<open>What a request finds: a cached item gets the request as a user and is no longer evictable.\<close>

lemma check_and_update_cache_effect:
  assumes inv: "enc_inv sz ec" and i: "i < length (mm_features r)"
    and h: "h = mm_identifier (mm_features r ! i)"
  shows "\<exists>ec'. check_and_update_cache r (int i) ec = Inr (cached ec h \<noteq> None, ec') \<and> enc_inv sz ec' \<and>
           cached ec' = (case cached ec h of None \<Rightarrow> cached ec
                         | Some ids \<Rightarrow> (cached ec)(h \<mapsto> insert (request_id r) ids)) \<and>
           freed ec' = freed ec \<and> cache_size ec' = cache_size ec"
proof (cases "cached ec h")
  case None
  then show ?thesis using inv i h by (simp add: check_and_update_cache_def mm_hash_of_nat)
next
  case (Some ids)
  show ?thesis
  proof (cases "ids = {}")
    case True
    let ?od = "filter (\<lambda>e. fst e \<noteq> h) (freeable ec)"
    let ?ec = "ec\<lparr>freeable := ?od, num_freeable_slots := num_freeable_slots ec - sz h,
                 cached := (cached ec)(h \<mapsto> {request_id r})\<rparr>"
    have m: "map_of (freeable ec) h = Some (sz h)"
      using freeable_map_of [OF inv] Some True by simp
    have r: "check_and_update_cache r (int i) ec = Inr (True, ?ec)"
      using Some True i h m enc_invD(6) [OF inv]
      by (simp add: check_and_update_cache_def mm_hash_of_nat dict_pop_def dict_del_def)
    have "fst ` set ?od = {h'. cached ?ec h' = Some {}}"
      using enc_invD(8) [OF inv] by (auto simp: image_iff)
    moreover have "idle_slots ?ec = idle_slots ec - sz h"
      using idle_without [OF enc_invD(6) [OF inv] m] by (simp add: idle_slots_def)
    moreover have "used_slots sz ?ec = used_slots sz ec"
      using Some by (simp add: used_slots_def insert_absorb domI)
    moreover have "distinct (map fst ?od)" using enc_invD(6) [OF inv] by (rule distinct_map_filter)
    ultimately have "enc_inv sz ?ec"
      using inv by (auto simp: enc_inv_def)
    then show ?thesis using r Some True by simp
  next
    case False
    let ?ec = "ec\<lparr>cached := (cached ec)(h \<mapsto> insert (request_id r) ids)\<rparr>"
    have r: "check_and_update_cache r (int i) ec = Inr (True, ?ec)"
      using Some False i h by (simp add: check_and_update_cache_def mm_hash_of_nat)
    have "{h'. cached ?ec h' = Some {}} = {h'. cached ec h' = Some {}}" using Some False by auto
    moreover have "idle_slots ?ec = idle_slots ec" by (simp add: idle_slots_def)
    ultimately have "enc_inv sz ?ec"
      using inv used_slots_cached [OF Some, of sz] by (simp add: enc_inv_def)
    then show ?thesis using r Some by simp
  qed
qed

text \<open>One turn of the eviction loop.\<close>

lemma evict_one_inv:
  assumes inv: "enc_inv sz ec" and f: "freeable ec = (h, n) # od"
  shows "cached ec h = Some {}"
    and "enc_inv sz (ec\<lparr>freeable := od, cached := (cached ec)(h := None), freed := freed ec @ [h],
                        num_free_slots := num_free_slots ec + n\<rparr>)"
proof -
  let ?ec = "ec\<lparr>freeable := od, cached := (cached ec)(h := None), freed := freed ec @ [h],
               num_free_slots := num_free_slots ec + n\<rparr>"
  show c: "cached ec h = Some {}" using enc_invD(8) [OF inv] f by auto
  have n: "n = sz h" using enc_invD(7) [OF inv] f by simp
  have h: "h \<notin> fst ` set od" using enc_invD(6) [OF inv] f by simp
  have "fst ` set od = {h'. cached ?ec h' = Some {}}"
    using enc_invD(8) [OF inv] f h by auto
  moreover have "used_slots sz ?ec = used_slots sz ec - sz h"
    using used_slots_del [OF enc_invD(1) [OF inv], of h sz] c by (simp add: used_slots_def)
  moreover have "idle_slots ?ec = idle_slots ec - n" by (simp add: idle_slots_def f)
  moreover have "distinct (map fst od)" using enc_invD(6) [OF inv] f by simp
  ultimately show "enc_inv sz ?ec"
    using inv n f enc_invD(2) [OF inv, of h] by (simp add: enc_inv_def)
qed

lemma evict_loop_effect:
  assumes "enc_inv sz ec" "need \<le> num_freeable_slots ec"
  shows "\<exists>ec' k. evict_loop need (freeable ec) ec = Inr ec' \<and> enc_inv sz ec' \<and>
           need \<le> num_free_slots ec' \<and> k \<le> length (freeable ec) \<and>
           freeable ec' = drop k (freeable ec) \<and>
           freed ec' = freed ec @ map fst (take k (freeable ec)) \<and>
           cached ec' = (\<lambda>h. if h \<in> fst ` set (take k (freeable ec)) then None else cached ec h) \<and>
           num_freeable_slots ec' = num_freeable_slots ec \<and> cache_size ec' = cache_size ec \<and>
           (\<forall>j < k. num_free_slots ec + sum_list (map snd (take j (freeable ec))) < need)"
  using assms
proof (induction "freeable ec" arbitrary: ec)
  case Nil
  then have "idle_slots ec = 0" by (simp add: idle_slots_def)
  then have "need \<le> num_free_slots ec" using Nil.prems enc_invD(4) by fastforce
  then show ?case using Nil by (intro exI [of _ ec] exI [of _ 0]) (simp flip: Nil.hyps)
next
  case (Cons e od)
  obtain h n where e: "e = (h, n)" by force
  have f: "freeable ec = (h, n) # od" using Cons.hyps(2) e by simp
  show ?case
  proof (cases "need \<le> num_free_slots ec")
    case True
    then show ?thesis using Cons.prems f by (intro exI [of _ ec] exI [of _ 0]) simp
  next
    case False
    define e1 where "e1 = ec\<lparr>freeable := od, cached := (cached ec)(h := None), freed := freed ec @ [h],
                            num_free_slots := num_free_slots ec + n\<rparr>"
    have c: "cached ec h = Some {}" and inv1: "enc_inv sz e1"
      using evict_one_inv [OF Cons.prems(1) f] unfolding e1_def by auto
    have s: "evict_loop need (freeable ec) ec = evict_loop need od e1"
      using False f c by (simp add: e1_def)
    have f1: "freeable e1 = od" and n1: "num_freeable_slots e1 = num_freeable_slots ec"
      and s1: "cache_size e1 = cache_size ec" "freed e1 = freed ec @ [h]"
        "cached e1 = (cached ec)(h := None)" "num_free_slots e1 = num_free_slots ec + n"
      by (simp_all add: e1_def)
    have "need \<le> num_freeable_slots e1" using Cons.prems(2) n1 by simp
    from Cons.hyps(1) [OF f1 [symmetric] inv1 this] obtain e2 k where
      r: "evict_loop need od e1 = Inr e2" "enc_inv sz e2" "need \<le> num_free_slots e2" "k \<le> length od"
        "freeable e2 = drop k od" "freed e2 = freed e1 @ map fst (take k od)"
        "cached e2 = (\<lambda>h. if h \<in> fst ` set (take k od) then None else cached e1 h)"
        "num_freeable_slots e2 = num_freeable_slots e1" "cache_size e2 = cache_size e1"
        "\<forall>j < k. num_free_slots e1 + sum_list (map snd (take j od)) < need"
      unfolding f1 by blast
    have "\<forall>j < Suc k. num_free_slots ec + sum_list (map snd (take j (freeable ec))) < need"
      using r(10) False f s1(4) by (auto simp: less_Suc_eq_0_disj add.assoc)
    then show ?thesis
      using r s n1 s1 f by (intro exI [of _ e2] exI [of _ "Suc k"]) (auto simp: fun_eq_iff)
  qed
qed

lemma can_allocate_effect:
  assumes inv: "enc_inv sz ec" and r: "sized sz r" and i: "i < length (mm_features r)"
    and h: "h = mm_identifier (mm_features r ! i)"
  shows "\<exists>ok ec' k. can_allocate r (int i) budget scheduled ec = Inr (ok, ec') \<and> enc_inv sz ec' \<and>
           (ok \<longleftrightarrow> sz h \<le> budget \<and> sz h + scheduled \<le> num_freeable_slots ec) \<and>
           (ok \<longrightarrow> sz h + scheduled \<le> num_free_slots ec') \<and> (\<not> ok \<longrightarrow> ec' = ec) \<and>
           freeable ec' = drop k (freeable ec) \<and>
           freed ec' = freed ec @ map fst (take k (freeable ec)) \<and>
           cached ec' = (\<lambda>h. if h \<in> fst ` set (take k (freeable ec)) then None else cached ec h) \<and>
           num_freeable_slots ec' = num_freeable_slots ec \<and> cache_size ec' = cache_size ec \<and>
           (\<forall>j < k. num_free_slots ec + sum_list (map snd (take j (freeable ec))) < sz h + scheduled)"
proof -
  have n: "get_num_encoder_embeds r (int i) = Inr (sz h)" using sizedD [OF r i] h by simp
  have le: "num_free_slots ec \<le> num_freeable_slots ec"
  proof -
    have "0 \<le> idle_slots ec"
      unfolding idle_slots_def by (intro sum_list_nonneg) (auto dest: enc_invD(7) [OF inv] simp: enc_invD(2) [OF inv])
    then show ?thesis using enc_invD(4) [OF inv] by simp
  qed
  consider (budget) "budget < sz h" | (free) "sz h \<le> budget" "sz h + scheduled \<le> num_free_slots ec"
    | (full) "sz h \<le> budget" "num_freeable_slots ec < sz h + scheduled"
    | (evict) "sz h \<le> budget" "num_free_slots ec < sz h + scheduled"
        "sz h + scheduled \<le> num_freeable_slots ec" by linarith
  then show ?thesis
  proof cases
    case evict
    obtain ec' k where "evict_loop (sz h + scheduled) (freeable ec) ec = Inr ec'" "enc_inv sz ec'"
      "sz h + scheduled \<le> num_free_slots ec'" "freeable ec' = drop k (freeable ec)"
      "freed ec' = freed ec @ map fst (take k (freeable ec))"
      "cached ec' = (\<lambda>h. if h \<in> fst ` set (take k (freeable ec)) then None else cached ec h)"
      "num_freeable_slots ec' = num_freeable_slots ec" "cache_size ec' = cache_size ec"
      "\<forall>j < k. num_free_slots ec + sum_list (map snd (take j (freeable ec))) < sz h + scheduled"
      using evict_loop_effect [OF inv evict(3)] by blast
    then show ?thesis
      using evict n by (intro exI [of _ True] exI [of _ ec'] exI [of _ k]) (simp add: can_allocate_def)
  qed (use n inv le in \<open>auto simp: can_allocate_def intro!: exI [of _ 0]\<close>)
qed

lemma enc_allocate_effect:
  assumes inv: "enc_inv sz ec" and r: "sized sz r" and i: "i < length (mm_features r)"
    and h: "h = mm_identifier (mm_features r ! i)"
    and new: "cached ec h = None" and room: "sz h \<le> num_free_slots ec"
  shows "\<exists>ec'. enc_allocate r (int i) ec = Inr ec' \<and> enc_inv sz ec' \<and>
           cached ec' = (cached ec)(h \<mapsto> {request_id r}) \<and> freeable ec' = freeable ec \<and>
           freed ec' = freed ec \<and> cache_size ec' = cache_size ec \<and>
           num_free_slots ec' = num_free_slots ec - sz h"
proof -
  let ?ec = "ec\<lparr>cached := (cached ec)(h \<mapsto> {request_id r}), num_free_slots := num_free_slots ec - sz h,
               num_freeable_slots := num_freeable_slots ec - sz h\<rparr>"
  have "0 \<le> idle_slots ec"
    unfolding idle_slots_def by (intro sum_list_nonneg) (auto dest: enc_invD(7) [OF inv] simp: enc_invD(2) [OF inv])
  then have fr: "sz h \<le> num_freeable_slots ec" using enc_invD(4) [OF inv] room by simp
  have "enc_allocate r (int i) ec = Inr ?ec"
    using i h new room fr sizedD [OF r i] by (simp add: enc_allocate_def mm_hash_of_nat)
  moreover have "{h'. cached ?ec h' = Some {}} = {h'. cached ec h' = Some {}}" using new by auto
  moreover have "used_slots sz ?ec = used_slots sz ec + sz h"
    using used_slots_add [OF enc_invD(1) [OF inv] new, of sz] by (simp add: used_slots_def)
  moreover have "idle_slots ?ec = idle_slots ec" by (simp add: idle_slots_def)
  ultimately show ?thesis using inv room by (simp add: enc_inv_def)
qed

text \<open>Giving a reference back: the last user leaves the item at the young end of the eviction
  order.\<close>

lemma free_encoder_input_effect:
  assumes inv: "enc_inv sz ec" and r: "sized sz r" and i: "i < length (mm_features r)"
    and h: "h = mm_identifier (mm_features r ! i)"
  shows "\<exists>ec'. free_encoder_input r (int i) ec = Inr ec' \<and> enc_inv sz ec' \<and>
           cached ec' = (cached ec)(h := map_option (\<lambda>ids. ids - {request_id r}) (cached ec h)) \<and>
           freed ec' = freed ec \<and> cache_size ec' = cache_size ec \<and>
           num_free_slots ec' = num_free_slots ec"
proof (cases "cached ec h = None \<or> cached ec h = Some {}")
  case True
  then have "free_encoder_input r (int i) ec = Inr ec"
    using i h by (auto simp: free_encoder_input_def mm_hash_of_nat)
  moreover have "(cached ec)(h := map_option (\<lambda>ids. ids - {request_id r}) (cached ec h)) = cached ec"
    using True by auto
  ultimately show ?thesis using inv by simp
next
  case False
  then obtain ids where ids: "cached ec h = Some ids" "ids \<noteq> {}" by auto
  have fr: "h \<notin> fst ` set (freeable ec)" using ids enc_invD(8) [OF inv] by simp
  show ?thesis
  proof (cases "ids - {request_id r} = {}")
    case True
    let ?ec = "ec\<lparr>cached := (cached ec)(h \<mapsto> {}), freeable := freeable ec @ [(h, sz h)],
                 num_freeable_slots := num_freeable_slots ec + sz h\<rparr>"
    have one: "ids = {request_id r}" using ids True by auto
    have "free_encoder_input r (int i) ec = Inr ?ec"
      using i h ids(1) sizedD [OF r i] fr unfolding one
      by (simp add: free_encoder_input_def mm_hash_of_nat dict_set_fresh)
    moreover have "fst ` set (freeable ?ec) = {h'. cached ?ec h' = Some {}}"
      using enc_invD(8) [OF inv] by auto
    moreover have "idle_slots ?ec = idle_slots ec + sz h" by (simp add: idle_slots_def)
    moreover have "used_slots sz ?ec = used_slots sz ec"
      using ids by (simp add: used_slots_def insert_absorb domI)
    ultimately have "enc_inv sz ?ec" using inv fr by (auto simp: enc_inv_def)
    with \<open>free_encoder_input r (int i) ec = Inr ?ec\<close> show ?thesis using ids one by simp
  next
    case False
    let ?ec = "ec\<lparr>cached := (cached ec)(h \<mapsto> ids - {request_id r})\<rparr>"
    have "free_encoder_input r (int i) ec = Inr ?ec"
      using i h ids False by (simp add: free_encoder_input_def mm_hash_of_nat)
    moreover have "{h'. cached ?ec h' = Some {}} = {h'. cached ec h' = Some {}}" using ids False by auto
    moreover have "idle_slots ?ec = idle_slots ec" by (simp add: idle_slots_def)
    ultimately show ?thesis
      using inv ids used_slots_cached [OF ids(1), of sz] by (simp add: enc_inv_def)
  qed
qed

definition item_hashes :: "request \<Rightarrow> string set" where
  "item_hashes r = mm_identifier ` set (mm_features r)"

lemma free_inputs_effect:
  assumes "enc_inv sz ec" "sized sz r" "set is \<subseteq> {0..<int (length (mm_features r))}"
  shows "\<exists>ec'. foldE (free_encoder_input r) is ec = Inr ec' \<and> enc_inv sz ec' \<and>
           cached ec' = (\<lambda>h. if h \<in> (\<lambda>i. mm_identifier (mm_features r ! nat i)) ` set is
                         then map_option (\<lambda>ids. ids - {request_id r}) (cached ec h) else cached ec h) \<and>
           freed ec' = freed ec \<and> cache_size ec' = cache_size ec \<and>
           num_free_slots ec' = num_free_slots ec"
  using assms
proof (induction "is" arbitrary: ec)
  case Nil
  then show ?case by simp
next
  case (Cons i "is")
  let ?h = "mm_identifier (mm_features r ! nat i)"
  have i: "nat i < length (mm_features r)" "int (nat i) = i" using Cons.prems(3) by auto
  obtain e1 where e1: "free_encoder_input r i ec = Inr e1" "enc_inv sz e1"
    "cached e1 = (cached ec)(?h := map_option (\<lambda>ids. ids - {request_id r}) (cached ec ?h))"
    "freed e1 = freed ec" "cache_size e1 = cache_size ec" "num_free_slots e1 = num_free_slots ec"
    using free_encoder_input_effect [OF Cons.prems(1,2) i(1) refl] unfolding i(2) by blast
  obtain e2 where e2: "foldE (free_encoder_input r) is e1 = Inr e2" "enc_inv sz e2"
    "cached e2 = (\<lambda>h. if h \<in> (\<lambda>i. mm_identifier (mm_features r ! nat i)) ` set is
                    then map_option (\<lambda>ids. ids - {request_id r}) (cached e1 h) else cached e1 h)"
    "freed e2 = freed e1" "cache_size e2 = cache_size e1" "num_free_slots e2 = num_free_slots e1"
    using Cons.IH [OF e1(2) Cons.prems(2)] Cons.prems(3) by auto
  have "cached e2 = (\<lambda>h. if h \<in> (\<lambda>i. mm_identifier (mm_features r ! nat i)) ` set (i # is)
                    then map_option (\<lambda>ids. ids - {request_id r}) (cached ec h) else cached ec h)"
    unfolding e2(3) e1(3) by (rule ext) (auto simp: option.map_comp comp_def)
  then show ?case using e1 e2 by simp
qed

lemma enc_free_effect:
  assumes inv: "enc_inv sz ec" and r: "sized sz r"
    and order: "set (order (get_cached_input_ids r ec)) = get_cached_input_ids r ec"
  shows "\<exists>ec'. enc_free order r ec = Inr ec' \<and> enc_inv sz ec' \<and>
           cached ec' = (\<lambda>h. if h \<in> item_hashes r
                         then map_option (\<lambda>ids. ids - {request_id r}) (cached ec h) else cached ec h) \<and>
           freed ec' = freed ec \<and> cache_size ec' = cache_size ec \<and>
           num_free_slots ec' = num_free_slots ec"
proof -
  let ?is = "order (get_cached_input_ids r ec)"
  let ?f = "\<lambda>h. map_option (\<lambda>ids. ids - {request_id r}) (cached ec h)"
  have "set ?is \<subseteq> {0..<int (length (mm_features r))}"
    unfolding order by (auto simp: get_cached_input_ids_def)
  from free_inputs_effect [OF inv r this] obtain ec' where
    e: "enc_free order r ec = Inr ec'" "enc_inv sz ec'"
      "cached ec' = (\<lambda>h. if h \<in> (\<lambda>i. mm_identifier (mm_features r ! nat i)) ` get_cached_input_ids r ec
                       then ?f h else cached ec h)"
      "freed ec' = freed ec" "cache_size ec' = cache_size ec" "num_free_slots ec' = num_free_slots ec"
    unfolding enc_free_def order by blast
  have "(if h \<in> (\<lambda>i. mm_identifier (mm_features r ! nat i)) ` get_cached_input_ids r ec
         then ?f h else cached ec h) = (if h \<in> item_hashes r then ?f h else cached ec h)" for h
  proof (cases "cached ec h")
    case (Some ids)
    have "h \<in> item_hashes r \<longleftrightarrow>
        h \<in> (\<lambda>i. mm_identifier (mm_features r ! nat i)) ` get_cached_input_ids r ec"
    proof
      assume "h \<in> item_hashes r"
      then obtain i where i: "i < length (mm_features r)" "h = mm_identifier (mm_features r ! i)"
        unfolding item_hashes_def by (auto simp: in_set_conv_nth)
      then have "int i \<in> get_cached_input_ids r ec" using Some by (simp add: get_cached_input_ids_def)
      then show "h \<in> (\<lambda>i. mm_identifier (mm_features r ! nat i)) ` get_cached_input_ids r ec"
        using i by (intro image_eqI [of h _ "int i"]) simp_all
    qed (auto simp: item_hashes_def get_cached_input_ids_def)
    then show ?thesis by simp
  qed simp
  then show ?thesis using e by auto
qed

section \<open>The workers' memory\<close>

text \<open>The model runner keeps the encoder outputs under their hashes. In a step it drops the reported
  hashes first and then stores the outputs of the inputs scheduled in the step.\<close>

definition drop_encoder_outputs :: "string list \<Rightarrow> string set \<Rightarrow> string set" where
  "drop_encoder_outputs dropped w = w - set dropped"

definition store_encoder_outputs :: "string list \<Rightarrow> string set \<Rightarrow> string set" where
  "store_encoder_outputs computed w = w \<union> set computed"

definition worker_encoder_step :: "string list \<Rightarrow> string list \<Rightarrow> string set \<Rightarrow> string set" where
  "worker_encoder_step dropped computed w = store_encoder_outputs computed (drop_encoder_outputs dropped w)"

lemma worker_encoder_step_eq: "worker_encoder_step dropped computed w = (w - set dropped) \<union> set computed"
  by (simp add: worker_encoder_step_def store_encoder_outputs_def drop_encoder_outputs_def)

text \<open>The manager, the workers' memory, and the inputs the scheduler has planned for the coming step,
  each with the request it was planned for.\<close>

record enc_system =
  es_manager :: encoder_cache
  es_worker :: "string set"
  es_planned :: "(req_id \<times> string) list"

definition init_enc_system :: "int \<Rightarrow> enc_system" where
  "init_enc_system n = \<lparr>es_manager = init_encoder_cache n, es_worker = {}, es_planned = []\<rparr>"

definition execute_step :: "enc_system \<Rightarrow> enc_system" where
  "execute_step s =
     (let (dropped, m) = get_freed_mm_hashes (es_manager s) in
      s\<lparr>es_manager := m,
        es_worker := worker_encoder_step dropped (map snd (es_planned s)) (es_worker s),
        es_planned := []\<rparr>)"

text \<open>Under the priority policy a request that was scheduled earlier in the step may be preempted: its
  encoder inputs are taken out of the step and its references are given back.\<close>

definition withdraw_planned :: "(int set \<Rightarrow> int list) \<Rightarrow> request \<Rightarrow> enc_system \<Rightarrow> enc_system res" where
  "withdraw_planned order r s =
     bindE (enc_free order r (es_manager s)) (\<lambda>m.
       Inr (s\<lparr>es_manager := m, es_planned := filter (\<lambda>(q, h). q \<noteq> request_id r) (es_planned s)\<rparr>))"

text \<open>The scheduler looks an input up, makes room for it, reserves it when it is not cached, gives the
  references of a request back (one by one as its inputs are passed, all at its end or its
  preemption), and, under the priority policy only, withdraws a request it has planned inputs for. The
  first-come-first-served policy preempts the last running request, which the step has not reached
  yet, so nothing is planned for it. The parameter tells whether the policy is the priority
  policy.\<close>

inductive enc_step :: "(string \<Rightarrow> int) \<Rightarrow> bool \<Rightarrow> enc_system \<Rightarrow> enc_system \<Rightarrow> bool" for sz prio where
  enc_lookup:
    "sized sz r \<Longrightarrow> i < length (mm_features r) \<Longrightarrow>
     check_and_update_cache r (int i) (es_manager s) = Inr (hit, m) \<Longrightarrow>
     enc_step sz prio s (s\<lparr>es_manager := m\<rparr>)"
| enc_room:
    "sized sz r \<Longrightarrow> i < length (mm_features r) \<Longrightarrow>
     can_allocate r (int i) budget scheduled (es_manager s) = Inr (ok, m) \<Longrightarrow>
     enc_step sz prio s (s\<lparr>es_manager := m\<rparr>)"
| enc_reserve:
    "sized sz r \<Longrightarrow> i < length (mm_features r) \<Longrightarrow> h = mm_identifier (mm_features r ! i) \<Longrightarrow>
     cached (es_manager s) h = None \<Longrightarrow> sz h \<le> num_free_slots (es_manager s) \<Longrightarrow>
     enc_allocate r (int i) (es_manager s) = Inr m \<Longrightarrow>
     enc_step sz prio s (s\<lparr>es_manager := m, es_planned := es_planned s @ [(request_id r, h)]\<rparr>)"
| enc_release_input:
    "sized sz r \<Longrightarrow> i < length (mm_features r) \<Longrightarrow> request_id r \<notin> fst ` set (es_planned s) \<Longrightarrow>
     free_encoder_input r (int i) (es_manager s) = Inr m \<Longrightarrow>
     enc_step sz prio s (s\<lparr>es_manager := m\<rparr>)"
| enc_release:
    "sized sz r \<Longrightarrow> request_id r \<notin> fst ` set (es_planned s) \<Longrightarrow>
     set (order (get_cached_input_ids r (es_manager s))) = get_cached_input_ids r (es_manager s) \<Longrightarrow>
     enc_free order r (es_manager s) = Inr m \<Longrightarrow>
     enc_step sz prio s (s\<lparr>es_manager := m\<rparr>)"
| enc_withdraw:
    "prio \<Longrightarrow> sized sz r \<Longrightarrow>
     set (order (get_cached_input_ids r (es_manager s))) = get_cached_input_ids r (es_manager s) \<Longrightarrow>
     withdraw_planned order r s = Inr t \<Longrightarrow> enc_step sz prio s t"
| enc_execute: "enc_step sz prio s (execute_step s)"
| enc_reset_all:
    "es_planned s = [] \<Longrightarrow>
     enc_step sz prio s (s\<lparr>es_manager := enc_reset (es_manager s), es_worker := {}\<rparr>)"

definition enc_sys_inv :: "(string \<Rightarrow> int) \<Rightarrow> bool \<Rightarrow> enc_system \<Rightarrow> bool" where
  "enc_sys_inv sz prio s \<longleftrightarrow>
     enc_inv sz (es_manager s) \<and>
     (\<forall>(q, h) \<in> set (es_planned s). \<exists>ids. cached (es_manager s) h = Some ids \<and> q \<in> ids) \<and>
     (es_worker s - set (freed (es_manager s))) \<union> snd ` set (es_planned s) \<subseteq> dom (cached (es_manager s)) \<and>
     (\<not> prio \<longrightarrow>
       dom (cached (es_manager s)) \<subseteq> (es_worker s - set (freed (es_manager s))) \<union> snd ` set (es_planned s))"

lemma enc_sys_inv_same_dom:
  assumes "enc_sys_inv sz prio s" "enc_inv sz m" "dom (cached m) = dom (cached (es_manager s))"
    "freed m = freed (es_manager s)"
    "\<And>q h ids. (q, h) \<in> set (es_planned s) \<Longrightarrow> cached (es_manager s) h = Some ids \<Longrightarrow> q \<in> ids \<Longrightarrow>
       \<exists>ids'. cached m h = Some ids' \<and> q \<in> ids'"
  shows "enc_sys_inv sz prio (s\<lparr>es_manager := m\<rparr>)"
  using assms by (fastforce simp: enc_sys_inv_def)

lemma enc_step_inv:
  assumes "enc_step sz prio s t" and inv: "enc_sys_inv sz prio s"
  shows "enc_sys_inv sz prio t"
  using assms(1)
proof cases
  case (enc_lookup r i hit m)
  have e: "enc_inv sz (es_manager s)" using inv by (simp add: enc_sys_inv_def)
  have m: "enc_inv sz m" "freed m = freed (es_manager s)"
    "cached m = (case cached (es_manager s) (mm_identifier (mm_features r ! i)) of
                   None \<Rightarrow> cached (es_manager s)
                 | Some ids \<Rightarrow> (cached (es_manager s))
                     (mm_identifier (mm_features r ! i) \<mapsto> insert (request_id r) ids))"
    using check_and_update_cache_effect [OF e enc_lookup(3) refl] enc_lookup(4) by auto
  show ?thesis unfolding enc_lookup(1) using inv m(1) _ m(2)
    by (rule enc_sys_inv_same_dom) (auto simp: m(3) split: option.splits)
next
  case (enc_room r i budget scheduled ok m)
  have e: "enc_inv sz (es_manager s)" using inv by (simp add: enc_sys_inv_def)
  obtain k where m: "enc_inv sz m"
    "freed m = freed (es_manager s) @ map fst (take k (freeable (es_manager s)))"
    "cached m = (\<lambda>h. if h \<in> fst ` set (take k (freeable (es_manager s))) then None
                    else cached (es_manager s) h)"
    using can_allocate_effect [OF e enc_room(2,3) refl, of budget scheduled] enc_room(4) by auto
  define ev where "ev = fst ` set (take k (freeable (es_manager s)))"
  have c: "cached m h = (if h \<in> ev then None else cached (es_manager s) h)" for h
    by (simp add: m(3) ev_def)
  have fr: "set (freed m) = set (freed (es_manager s)) \<union> ev" by (simp add: m(2) ev_def)
  have ev: "cached (es_manager s) h = Some {}" if "h \<in> ev" for h
    using that enc_invD(8) [OF e] set_take_subset [of k "freeable (es_manager s)"]
    unfolding ev_def by blast
  have pl: "h \<notin> ev" if "(q, h) \<in> set (es_planned s)" for q h
    using that inv ev by (fastforce simp: enc_sys_inv_def)
  have d: "dom (cached m) = dom (cached (es_manager s)) - ev" by (rule set_eqI) (simp add: c domIff)
  have "(es_worker s - set (freed m)) \<union> snd ` set (es_planned s) \<subseteq> dom (cached m)"
    using inv pl unfolding d fr enc_sys_inv_def by auto
  moreover have "\<not> prio \<longrightarrow> dom (cached m) \<subseteq> (es_worker s - set (freed m)) \<union> snd ` set (es_planned s)"
    using inv unfolding d fr enc_sys_inv_def by auto
  moreover have "\<forall>(q, h) \<in> set (es_planned s). \<exists>ids. cached m h = Some ids \<and> q \<in> ids"
    using inv pl by (fastforce simp: enc_sys_inv_def c)
  ultimately show ?thesis using m(1) unfolding enc_room(1) by (simp add: enc_sys_inv_def)
next
  case (enc_reserve r i h m)
  have e: "enc_inv sz (es_manager s)" using inv by (simp add: enc_sys_inv_def)
  have m: "enc_inv sz m" "freed m = freed (es_manager s)"
    "cached m = (cached (es_manager s))(h \<mapsto> {request_id r})"
    using enc_allocate_effect [OF e enc_reserve(2-6)] enc_reserve(7) by auto
  have "(es_worker s - set (freed m)) \<union> insert h (snd ` set (es_planned s)) \<subseteq> dom (cached m)"
    "\<not> prio \<longrightarrow> dom (cached m) \<subseteq> (es_worker s - set (freed m)) \<union> insert h (snd ` set (es_planned s))"
    using inv by (auto simp: enc_sys_inv_def m(2,3))
  moreover have "\<exists>ids. cached m h' = Some ids \<and> q \<in> ids" if "(q, h') \<in> set (es_planned s)" for q h'
    using that inv enc_reserve(5) by (fastforce simp: enc_sys_inv_def m(3))
  moreover have "cached m h = Some {request_id r}" by (simp add: m(3))
  ultimately show ?thesis unfolding enc_reserve(1) using m(1) by (auto simp: enc_sys_inv_def)
next
  case (enc_release_input r i m)
  have e: "enc_inv sz (es_manager s)" using inv by (simp add: enc_sys_inv_def)
  let ?h = "mm_identifier (mm_features r ! i)"
  have m: "enc_inv sz m" "freed m = freed (es_manager s)"
    "cached m = (cached (es_manager s))
       (?h := map_option (\<lambda>ids. ids - {request_id r}) (cached (es_manager s) ?h))"
    using free_encoder_input_effect [OF e enc_release_input(2,3) refl] enc_release_input(5) by auto
  have "q \<noteq> request_id r" if "(q, h) \<in> set (es_planned s)" for q h
    using that enc_release_input(4) by force
  then show ?thesis unfolding enc_release_input(1) using inv m(1) _ m(2)
    by (intro enc_sys_inv_same_dom) (auto simp: m(3) split: if_splits)
next
  case (enc_release r order m)
  have e: "enc_inv sz (es_manager s)" using inv by (simp add: enc_sys_inv_def)
  have m: "enc_inv sz m" "freed m = freed (es_manager s)"
    "cached m = (\<lambda>h. if h \<in> item_hashes r
       then map_option (\<lambda>ids. ids - {request_id r}) (cached (es_manager s) h) else cached (es_manager s) h)"
    using enc_free_effect [of sz "es_manager s" r order, OF e enc_release(2,4)] enc_release(5) by auto
  have "q \<noteq> request_id r" if "(q, h) \<in> set (es_planned s)" for q h
    using that enc_release(3) by force
  then show ?thesis unfolding enc_release(1) using inv m(1) _ m(2)
    by (intro enc_sys_inv_same_dom) (auto simp: m(3) split: if_splits)
next
  case (enc_withdraw r order)
  have e: "enc_inv sz (es_manager s)" using inv by (simp add: enc_sys_inv_def)
  obtain m where m: "enc_inv sz m" "freed m = freed (es_manager s)"
    "cached m = (\<lambda>h. if h \<in> item_hashes r
       then map_option (\<lambda>ids. ids - {request_id r}) (cached (es_manager s) h) else cached (es_manager s) h)"
    "t = s\<lparr>es_manager := m, es_planned := filter (\<lambda>(q, h). q \<noteq> request_id r) (es_planned s)\<rparr>"
    using enc_free_effect [of sz "es_manager s" r order, OF e enc_withdraw(2,3)] enc_withdraw(4)
    by (auto simp: withdraw_planned_def)
  have "dom (cached m) = dom (cached (es_manager s))" by (rule set_eqI) (simp add: m(3) domIff)
  moreover have "\<exists>ids. cached m h = Some ids \<and> q \<in> ids"
    if "(q, h) \<in> set (es_planned s)" "q \<noteq> request_id r" for q h
    using that inv by (fastforce simp: enc_sys_inv_def m(3))
  ultimately show ?thesis
    using inv m(1,2) enc_withdraw(1) unfolding m(4) by (fastforce simp: enc_sys_inv_def)
next
  case enc_execute
  then show ?thesis
    using inv by (auto simp: enc_sys_inv_def execute_step_def get_freed_mm_hashes_def
        worker_encoder_step_eq enc_inv_def used_slots_def idle_slots_def)
next
  case enc_reset_all
  then show ?thesis
    using inv enc_reset_inv by (auto simp: enc_sys_inv_def) (auto simp: enc_reset_def)
qed

lemma evict_loop_size: "evict_loop need od ec = Inr ec' \<Longrightarrow> cache_size ec' = cache_size ec"
proof (induction od arbitrary: ec)
  case Nil
  then show ?case by (cases "num_free_slots ec < need") auto
next
  case (Cons e od)
  obtain h n where e: "e = (h, n)" by force
  let ?ec = "ec\<lparr>freeable := od, cached := (cached ec)(h := None),
    freed := freed ec @ [h], num_free_slots := num_free_slots ec + n\<rparr>"
  show ?case
  proof (cases "num_free_slots ec < need")
    case True
    then have "evict_loop need od ?ec = Inr ec'"
      using Cons.prems e by (cases "cached ec h = None") simp_all
    then have "cache_size ec' = cache_size ?ec" by (rule Cons.IH)
    then show ?thesis by simp
  qed (use Cons.prems e in auto)
qed

lemma free_encoder_input_size: "free_encoder_input r i ec = Inr ec' \<Longrightarrow> cache_size ec' = cache_size ec"
  by (cases "mm_hash_of r i"; simp add: free_encoder_input_def Let_def split: option.splits if_splits;
      clarsimp)

lemma enc_free_size: "enc_free order r ec = Inr ec' \<Longrightarrow> cache_size ec' = cache_size ec"
  unfolding enc_free_def
  by (rule foldE_invariant [where P = "\<lambda>e. cache_size e = cache_size ec"])
    (auto dest: free_encoder_input_size)

lemma check_and_update_cache_size:
  "check_and_update_cache r i ec = Inr (hit, ec') \<Longrightarrow> cache_size ec' = cache_size ec"
  by (cases "mm_hash_of r i"; simp add: check_and_update_cache_def split: option.splits if_splits;
      clarsimp)

lemma can_allocate_size:
  "can_allocate r i budget scheduled ec = Inr (ok, ec') \<Longrightarrow> cache_size ec' = cache_size ec"
  by (cases "get_num_encoder_embeds r i"; simp add: can_allocate_def Let_def split: if_splits;
      clarsimp simp: evict_loop_size)

lemma enc_allocate_size: "enc_allocate r i ec = Inr ec' \<Longrightarrow> cache_size ec' = cache_size ec"
  by (auto simp: enc_allocate_def)

lemmas enc_sizes = enc_free_size free_encoder_input_size check_and_update_cache_size
  can_allocate_size enc_allocate_size

lemma enc_step_size:
  assumes "enc_step sz prio s t"
  shows "cache_size (es_manager t) = cache_size (es_manager s)"
  using assms
proof cases
  case (enc_withdraw r order)
  then obtain m where "enc_free order r (es_manager s) = Inr m" "es_manager t = m"
    by (cases "enc_free order r (es_manager s)") (auto simp: withdraw_planned_def)
  then show ?thesis using enc_free_size by blast
qed (auto dest: enc_sizes simp: execute_step_def get_freed_mm_hashes_def enc_reset_def)

lemma enc_reachable_inv:
  assumes "(enc_step sz prio)\<^sup>*\<^sup>* (init_enc_system n) s" "0 \<le> n" "\<And>h. 0 \<le> sz h"
  shows "enc_sys_inv sz prio s \<and> cache_size (es_manager s) = n"
  using assms(1)
proof (induction rule: rtranclp_induct)
  case base
  then show ?case
    using enc_init_inv [OF assms(2,3)] by (simp add: enc_sys_inv_def init_enc_system_def)
      (simp add: init_encoder_cache_def)
next
  case (step s t)
  then show ?case using enc_step_inv enc_step_size by auto
qed

text \<open>What is planned was not in the workers' memory, and is planned once.\<close>

definition planned_new :: "enc_system \<Rightarrow> bool" where
  "planned_new s \<longleftrightarrow> distinct (map snd (es_planned s)) \<and>
     (\<forall>h \<in> snd ` set (es_planned s). h \<in> es_worker s \<longrightarrow> h \<in> set (freed (es_manager s)))"

lemma planned_new_step:
  assumes "enc_step sz prio s t" "enc_sys_inv sz prio s" "planned_new s"
  shows "planned_new t"
  using assms(1)
proof cases
  case (enc_lookup r i hit m)
  then have "freed m = freed (es_manager s)"
    by (cases "mm_hash_of r (int i)"; simp add: check_and_update_cache_def split: option.splits if_splits; clarsimp)
  then show ?thesis using assms(3) enc_lookup(1) by (simp add: planned_new_def)
next
  case (enc_room r i budget scheduled ok m)
  have e: "enc_inv sz (es_manager s)" using assms(2) by (simp add: enc_sys_inv_def)
  obtain k where "freed m = freed (es_manager s) @ map fst (take k (freeable (es_manager s)))"
    using can_allocate_effect [OF e enc_room(2,3) refl, of budget scheduled] enc_room(4) by auto
  then show ?thesis using assms(3) enc_room(1) by (auto simp: planned_new_def)
next
  case (enc_reserve r i h m)
  have e: "enc_inv sz (es_manager s)" using assms(2) by (simp add: enc_sys_inv_def)
  have m: "freed m = freed (es_manager s)"
    using enc_allocate_effect [OF e enc_reserve(2-6)] enc_reserve(7) by auto
  have "h \<notin> (es_worker s - set (freed (es_manager s))) \<union> snd ` set (es_planned s)"
  proof
    assume "h \<in> (es_worker s - set (freed (es_manager s))) \<union> snd ` set (es_planned s)"
    then have "h \<in> dom (cached (es_manager s))"
      using assms(2) unfolding enc_sys_inv_def by (elim conjE) (rule subsetD)
    then show False using enc_reserve(5) by (simp add: domIff)
  qed
  then show ?thesis using assms(3) enc_reserve(1) m by (auto simp: planned_new_def)
next
  case (enc_release_input r i m)
  have e: "enc_inv sz (es_manager s)" using assms(2) by (simp add: enc_sys_inv_def)
  have "freed m = freed (es_manager s)"
    using free_encoder_input_effect [OF e enc_release_input(2,3) refl] enc_release_input(5) by auto
  then show ?thesis using assms(3) enc_release_input(1) by (simp add: planned_new_def)
next
  case (enc_release r order m)
  have e: "enc_inv sz (es_manager s)" using assms(2) by (simp add: enc_sys_inv_def)
  have "freed m = freed (es_manager s)"
    using enc_free_effect [of sz "es_manager s" r order, OF e enc_release(2,4)] enc_release(5) by auto
  then show ?thesis using assms(3) enc_release(1) by (simp add: planned_new_def)
next
  case (enc_withdraw r order)
  have e: "enc_inv sz (es_manager s)" using assms(2) by (simp add: enc_sys_inv_def)
  have "es_worker t = es_worker s \<and> freed (es_manager t) = freed (es_manager s) \<and>
    es_planned t = filter (\<lambda>(q, h). q \<noteq> request_id r) (es_planned s)"
    using enc_free_effect [of sz "es_manager s" r order, OF e enc_withdraw(2,3)] enc_withdraw(4)
    by (auto simp: withdraw_planned_def)
  then show ?thesis using assms(3)
    by (auto simp: planned_new_def intro: distinct_map_filter)
next
  case enc_execute
  then show ?thesis by (simp add: planned_new_def execute_step_def get_freed_mm_hashes_def)
next
  case enc_reset_all
  then show ?thesis by (simp add: planned_new_def)
qed

lemma enc_reachable_planned:
  assumes "(enc_step sz prio)\<^sup>*\<^sup>* (init_enc_system n) s" "0 \<le> n" "\<And>h. 0 \<le> sz h"
  shows "planned_new s"
  using assms(1)
proof (induction rule: rtranclp_induct)
  case base
  then show ?case by (simp add: planned_new_def init_enc_system_def)
next
  case (step s t)
  then show ?case using planned_new_step enc_reachable_inv [OF step(1) assms(2,3)] by blast
qed

lemma idle_slots_sum:
  assumes inv: "enc_inv sz ec"
  shows "idle_slots ec = sum sz {h. cached ec h = Some {}}"
proof -
  have "idle_slots ec = sum_list (map (sz \<circ> fst) (freeable ec))"
    unfolding idle_slots_def
    by (rule arg_cong [of _ _ sum_list], rule map_cong) (auto dest: enc_invD(7) [OF inv])
  also have "\<dots> = sum sz (fst ` set (freeable ec))"
    using enc_invD(6) [OF inv] sum_list_distinct_conv_sum_set [of "map fst (freeable ec)" sz]
    by (simp add: comp_def)
  finally show ?thesis using enc_invD(8) [OF inv] by simp
qed

section \<open>Properties\<close>

text \<open>C33 (encoder_can_allocate_correct): On a consistent cache can_allocate never raises. It answers
  true exactly when the item fits the compute budget and, with what is already planned, the free and
  reclaimable slots. It then has that many free slots, has evicted the shortest sufficient prefix of
  the least recently released items and reported it for the workers, and has kept every item in use;
  a refusal changes nothing.\<close>

theorem encoder_can_allocate_correct:
  assumes "enc_inv sz ec" "sized sz r" "i < length (mm_features r)"
    "n = sz (mm_identifier (mm_features r ! i))"
  shows "\<exists>ok ec' k. can_allocate r (int i) budget scheduled ec = Inr (ok, ec') \<and> enc_inv sz ec' \<and>
           (ok \<longleftrightarrow> n \<le> budget \<and> n + scheduled \<le> num_freeable_slots ec) \<and>
           (ok \<longrightarrow> n + scheduled \<le> num_free_slots ec') \<and> (\<not> ok \<longrightarrow> ec' = ec) \<and>
           (\<forall>h ids. cached ec h = Some ids \<and> ids \<noteq> {} \<longrightarrow> cached ec' h = Some ids) \<and>
           freeable ec' = drop k (freeable ec) \<and>
           freed ec' = freed ec @ map fst (take k (freeable ec)) \<and>
           (\<forall>j < k. num_free_slots ec + sum_list (map snd (take j (freeable ec))) < n + scheduled)"
proof -
  obtain ok ec' k where e: "can_allocate r (int i) budget scheduled ec = Inr (ok, ec')" "enc_inv sz ec'"
    "ok \<longleftrightarrow> n \<le> budget \<and> n + scheduled \<le> num_freeable_slots ec"
    "ok \<longrightarrow> n + scheduled \<le> num_free_slots ec'" "\<not> ok \<longrightarrow> ec' = ec"
    "freeable ec' = drop k (freeable ec)" "freed ec' = freed ec @ map fst (take k (freeable ec))"
    "cached ec' = (\<lambda>h. if h \<in> fst ` set (take k (freeable ec)) then None else cached ec h)"
    "\<forall>j < k. num_free_slots ec + sum_list (map snd (take j (freeable ec))) < n + scheduled"
    using can_allocate_effect [OF assms(1-3) refl, of budget scheduled] unfolding assms(4) by blast
  have "cached ec' h = Some ids" if h: "cached ec h = Some ids" "ids \<noteq> {}" for h ids
  proof -
    have "h \<notin> fst ` set (freeable ec)" using h enc_invD(8) [OF assms(1)] by simp
    then have "h \<notin> fst ` set (take k (freeable ec))" using set_take_subset [of k "freeable ec"] by blast
    then show ?thesis using e(8) h(1) by simp
  qed
  then show ?thesis using e by blast
qed

text \<open>C13 (encoder_workers_in_step): In every state the scheduler can bring the encoder cache to, under either
  policy, the sizes of the cached items and the free slots add up to the capacity, the reclaimable slots
  are the free ones and those of the items no request uses, and everything in the workers' memory and
  not reported for removal, and everything planned for the next step, is believed to be cached, each
  planned item by the request it is planned for. So after the step has run the workers' memory holds
  cached items only, and no more than fits. Without the priority policy the converse holds too: the
  workers have exactly the cached items. (For the priority policy it does not, see
  \<^verbatim>\<open>preempted_input_never_computed\<close>.)\<close>

theorem encoder_workers_in_step:
  assumes "(enc_step sz prio)\<^sup>*\<^sup>* (init_enc_system n) s" "0 \<le> n" "\<And>h. 0 \<le> sz h"
  shows "num_free_slots (es_manager s) + sum sz (dom (cached (es_manager s))) = n \<and>
         0 \<le> num_free_slots (es_manager s) \<and>
         num_freeable_slots (es_manager s) =
           num_free_slots (es_manager s) + sum sz {h. cached (es_manager s) h = Some {}} \<and>
         (\<forall>(q, h) \<in> set (es_planned s). \<exists>ids. cached (es_manager s) h = Some ids \<and> q \<in> ids) \<and>
         (es_worker s - set (freed (es_manager s))) \<union> snd ` set (es_planned s)
           \<subseteq> dom (cached (es_manager s)) \<and>
         es_worker (execute_step s) \<subseteq> dom (cached (es_manager s)) \<and>
         sum sz (es_worker (execute_step s)) \<le> n \<and>
         (\<not> prio \<longrightarrow>
           dom (cached (es_manager s)) =
             (es_worker s - set (freed (es_manager s))) \<union> snd ` set (es_planned s) \<and>
           es_worker (execute_step s) = dom (cached (es_manager s)))"
proof -
  have inv: "enc_sys_inv sz prio s" "cache_size (es_manager s) = n"
    using enc_reachable_inv [OF assms] by auto
  let ?D = "dom (cached (es_manager s))"
  let ?W = "(es_worker s - set (freed (es_manager s))) \<union> snd ` set (es_planned s)"
  have e: "enc_inv sz (es_manager s)" using inv by (simp add: enc_sys_inv_def)
  have w: "es_worker (execute_step s) = ?W"
    by (simp add: execute_step_def get_freed_mm_hashes_def worker_encoder_step_eq)
  have u: "num_free_slots (es_manager s) + sum sz ?D = n"
    using enc_invD(3) [OF e] inv(2) by (simp add: used_slots_def)
  have d: "?W \<subseteq> ?D" "\<not> prio \<longrightarrow> ?D \<subseteq> ?W" using inv(1) by (auto simp: enc_sys_inv_def)
  have "sum sz ?W \<le> sum sz ?D" using enc_invD(1) [OF e] d(1) assms(3) by (intro sum_mono2) auto
  then have "sum sz ?W \<le> n" using u enc_invD(5) [OF e] by simp
  moreover have "\<forall>(q, h) \<in> set (es_planned s). \<exists>ids. cached (es_manager s) h = Some ids \<and> q \<in> ids"
    using inv(1) by (simp add: enc_sys_inv_def)
  ultimately show ?thesis
    using u d w enc_invD(4,5) [OF e] idle_slots_sum [OF e] by auto
qed

text \<open>C14 (preempted_input_never_computed): In a state reached under the priority policy, when a request
  for which an encoder input was planned is preempted in the same step, the input stays in the scheduler's cache although no worker computes it: after the step
  the workers do not have it, and a lookup for any request with this input succeeds, so it will not be
  scheduled again.\<close>

theorem preempted_input_never_computed:
  assumes "(enc_step sz True)\<^sup>*\<^sup>* (init_enc_system n) s" "0 \<le> n" "\<And>h. 0 \<le> sz h"
    and "(request_id r, h) \<in> set (es_planned s)" "sized sz r"
    and "set (order (get_cached_input_ids r (es_manager s))) = get_cached_input_ids r (es_manager s)"
    and "i < length (mm_features r')" "mm_identifier (mm_features r' ! i) = h"
  shows "\<exists>s1 ec. withdraw_planned order r s = Inr s1 \<and> (enc_step sz True)\<^sup>*\<^sup>* (init_enc_system n) (execute_step s1)
    \<and> h \<in> dom (cached (es_manager (execute_step s1)))
    \<and> h \<notin> es_worker (execute_step s1)
    \<and> check_and_update_cache r' (int i) (es_manager (execute_step s1)) = Inr (True, ec)"
proof -
  have inv: "enc_sys_inv sz True s" using enc_reachable_inv [OF assms(1-3)] by blast
  have new: "planned_new s" using enc_reachable_planned [OF assms(1-3)] .
  have e: "enc_inv sz (es_manager s)" using inv by (simp add: enc_sys_inv_def)
  obtain m where m: "enc_free order r (es_manager s) = Inr m" "enc_inv sz m" "freed m = freed (es_manager s)"
    "cached m = (\<lambda>h. if h \<in> item_hashes r
       then map_option (\<lambda>ids. ids - {request_id r}) (cached (es_manager s) h) else cached (es_manager s) h)"
    using enc_free_effect [of sz "es_manager s" r order, OF e assms(5,6)] by auto
  define pl where "pl = filter (\<lambda>(q, h). q \<noteq> request_id r) (es_planned s)"
  define s1 where "s1 = s\<lparr>es_manager := m, es_planned := pl\<rparr>"
  have w: "withdraw_planned order r s = Inr s1" by (simp add: withdraw_planned_def m(1) s1_def pl_def)
  have "cached (es_manager s) h \<noteq> None" using inv assms(4) by (auto simp: enc_sys_inv_def)
  then have c: "h \<in> dom (cached m)" by (auto simp: m(4))
  have "h \<notin> snd ` set pl"
  proof
    assume "h \<in> snd ` set pl"
    then obtain q where q: "(q, h) \<in> set (es_planned s)" "q \<noteq> request_id r" by (auto simp: pl_def)
    have "inj_on snd (set (es_planned s))" using new by (simp add: planned_new_def distinct_map)
    from inj_onD [OF this, of "(q, h)" "(request_id r, h)"] have "(q, h) = (request_id r, h)"
      using q(1) assms(4) by simp
    then show False using q(2) by simp
  qed
  moreover have "h \<in> es_worker s \<longrightarrow> h \<in> set (freed m)" using new assms(4) m(3) by (force simp: planned_new_def)
  ultimately have nw: "h \<notin> es_worker (execute_step s1)"
    by (auto simp: execute_step_def get_freed_mm_hashes_def worker_encoder_step_eq s1_def)
  have x: "cached (es_manager (execute_step s1)) = cached m"
    by (simp add: execute_step_def get_freed_mm_hashes_def s1_def)
  have "enc_inv sz (es_manager (execute_step s1))"
    using m(2) by (auto simp: execute_step_def get_freed_mm_hashes_def s1_def enc_inv_def used_slots_def idle_slots_def)
  from check_and_update_cache_effect [OF this assms(7) refl, of] c
  have "\<exists>ec. check_and_update_cache r' (int i) (es_manager (execute_step s1)) = Inr (True, ec)"
    unfolding assms(8) x by (auto split: option.splits)
  moreover have "enc_step sz True s s1" by (rule enc_withdraw [OF _ assms(5,6) w]) simp
  then have "(enc_step sz True)\<^sup>*\<^sup>* (init_enc_system n) (execute_step s1)"
    using assms(1) enc_execute [of sz True s1] by (meson rtranclp.rtrancl_into_rtrancl)
  ultimately show ?thesis using w c nw x by auto
qed

text \<open>The budgets computed from the configuration let every item of
  an allowed size into an encoder cache of the computed capacity: whenever no request uses a cached
  item and nothing is planned, can_allocate with the full compute budget answers true.\<close>

theorem encoder_budget_fits_items:
  assumes "compute_mm_encoder_budget sc toks = Inr (compute, space)"
    and "(m, mx) \<in> set toks" "n \<le> mx" "n = sz (mm_identifier (mm_features r ! i))"
    and "enc_inv sz ec" "cache_size ec = space" "\<And>h ids. cached ec h = Some ids \<Longrightarrow> ids = {}"
    and "sized sz r" "i < length (mm_features r)"
  shows "\<exists>ec'. can_allocate r (int i) compute 0 ec = Inr (True, ec') \<and> n \<le> num_free_slots ec'"
proof -
  have "mx \<in> snd ` set toks" using assms(2) by force
  then have "mx \<le> Max (set (map snd toks))" by (intro Max_ge) auto
  then have mx: "mx \<le> compute" "mx \<le> space"
    using assms(1,2) by (auto simp: compute_mm_encoder_budget_def Let_def split: if_splits)
  have "{h. cached ec h = Some {}} = dom (cached ec)" using assms(7) by force
  then have "num_freeable_slots ec = cache_size ec"
    using enc_invD(3,4) [OF assms(5)] idle_slots_sum [OF assms(5)] by (simp add: used_slots_def)
  then have "n \<le> compute" "n + 0 \<le> num_freeable_slots ec" using mx assms(3,6) by auto
  then show ?thesis
    using can_allocate_effect [OF assms(5,8,9) refl, of compute 0] assms(4) by auto
qed

definition image_request :: "req_id \<Rightarrow> (string \<times> int) list \<Rightarrow> request" where
  "image_request q items =
     (plain_request q [1, 2, 3] 10)
       \<lparr>mm_features := map (\<lambda>(h, n). \<lparr>mm_identifier = h,
           mm_position = \<lparr>pr_offset = 0, pr_length = n, pr_is_embed = None\<rparr>\<rparr>) items\<rparr>"

definition two_images :: request where
  "two_images = image_request ''q'' [(''cat'', 4), (''dog'', 4)]"

definition image_size :: "string \<Rightarrow> int" where
  "image_size h = (if h = ''cat'' \<or> h = ''dog'' then 4 else 0)"

lemma image_size_nonneg: "0 \<le> image_size h"
  by (simp add: image_size_def)

lemma two_images_sized: "sized image_size two_images"
  by (auto simp: sized_def two_images_def image_request_def image_size_def get_num_encoder_embeds_def
      get_num_embeds_def embeds_cumsum_def less_Suc_eq numeral_2_eq_2)

text \<open>A cache for one image that holds the unused image cat.\<close>

definition idle_cat :: encoder_cache where
  "idle_cat = \<lparr>cache_size = 5, num_free_slots = 1, num_freeable_slots = 5, cached = [''cat'' \<mapsto> {}],
               freeable = [(''cat'', 4)], freed = []\<rparr>"

lemma idle_cat_inv: "enc_inv image_size idle_cat"
  by (auto simp: enc_inv_def idle_cat_def used_slots_def idle_slots_def image_size_def)

theorem encoder_can_allocate_correct_witness:
  "\<exists>ec'. can_allocate two_images 1 10 0 idle_cat = Inr (True, ec') \<and> freed ec' = [''cat''] \<and>
         4 \<le> num_free_slots ec'"
proof -
  have i: "1 < length (mm_features two_images)"
    "image_size (mm_identifier (mm_features two_images ! 1)) = 4"
    by (simp_all add: two_images_def image_request_def image_size_def)
  obtain ok ec' k where "can_allocate two_images (int 1) 10 0 idle_cat = Inr (ok, ec')"
    "ok \<longleftrightarrow> (4::int) \<le> 10 \<and> 4 + 0 \<le> num_freeable_slots idle_cat" "ok \<longrightarrow> 4 + 0 \<le> num_free_slots ec'"
    using encoder_can_allocate_correct [OF idle_cat_inv two_images_sized i(1) i(2) [symmetric], of 10 0]
    by blast
  moreover have "can_allocate two_images 1 10 0 idle_cat =
    Inr (True, idle_cat\<lparr>freeable := [], cached := Map.empty, freed := [''cat''], num_free_slots := 5\<rparr>)"
    by (simp add: can_allocate_def two_images_def image_request_def get_num_encoder_embeds_def
        get_num_embeds_def embeds_cumsum_def idle_cat_def plain_request_def py_get_def fun_eq_iff)
  ultimately show ?thesis by (auto simp: idle_cat_def)
qed

text \<open>The image cat is reserved and planned for the request in an empty cache.\<close>

definition cat_planned :: enc_system where
  "cat_planned = \<lparr>es_manager = (init_encoder_cache 5)\<lparr>cached := [''cat'' \<mapsto> {''q''}],
     num_free_slots := 1, num_freeable_slots := 1\<rparr>, es_worker = {}, es_planned = [(''q'', ''cat'')]\<rparr>"

lemma cat_planned_reachable: "(enc_step image_size prio)\<^sup>*\<^sup>* (init_enc_system 5) cat_planned"
proof -
  have q: "request_id two_images = ''q''" "mm_identifier (mm_features two_images ! 0) = ''cat''"
    "0 < length (mm_features two_images)"
    by (simp_all add: two_images_def image_request_def plain_request_def)
  have "get_num_encoder_embeds two_images 0 = Inr 4"
    by (simp add: two_images_def image_request_def get_num_encoder_embeds_def get_num_embeds_def
        embeds_cumsum_def py_get_def)
  then have a: "enc_allocate two_images (int 0) (es_manager (init_enc_system 5)) = Inr (es_manager cat_planned)"
    using mm_hash_of_nat [OF q(3)] q
    by (simp add: enc_allocate_def cat_planned_def init_enc_system_def init_encoder_cache_def)
  have "enc_step image_size prio (init_enc_system 5)
      ((init_enc_system 5)\<lparr>es_manager := es_manager cat_planned,
         es_planned := es_planned (init_enc_system 5) @ [(request_id two_images, ''cat'')]\<rparr>)"
    by (rule enc_step.enc_reserve [OF two_images_sized q(3) q(2) [symmetric] _ _ a])
      (simp_all add: init_enc_system_def init_encoder_cache_def image_size_def)
  then show ?thesis
    by (intro r_into_rtranclp) (simp add: cat_planned_def q init_enc_system_def)
qed

theorem encoder_workers_in_step_witness:
  "(enc_step image_size False)\<^sup>*\<^sup>* (init_enc_system 5) cat_planned \<and>
   es_worker (execute_step cat_planned) = {''cat''} \<and> sum image_size (es_worker (execute_step cat_planned)) \<le> 5"
  using encoder_workers_in_step [OF cat_planned_reachable [of False]] cat_planned_reachable [of False]
  by (simp add: image_size_def) (simp add: cat_planned_def image_size_def)

theorem preempted_input_never_computed_witness:
  "\<exists>s1 ec. withdraw_planned sorted_list_of_set two_images cat_planned = Inr s1 \<and>
     ''cat'' \<in> dom (cached (es_manager (execute_step s1))) \<and> ''cat'' \<notin> es_worker (execute_step s1) \<and>
     check_and_update_cache two_images 0 (es_manager (execute_step s1)) = Inr (True, ec)"
proof -
  have q: "(request_id two_images, ''cat'') \<in> set (es_planned cat_planned)" "0 < length (mm_features two_images)"
    "mm_identifier (mm_features two_images ! 0) = ''cat''"
    by (simp_all add: cat_planned_def two_images_def image_request_def plain_request_def)
  have "finite (get_cached_input_ids two_images (es_manager cat_planned))"
    by (rule finite_subset [of _ "{0..<int (length (mm_features two_images))}"])
      (auto simp: get_cached_input_ids_def)
  then have f: "set (sorted_list_of_set (get_cached_input_ids two_images (es_manager cat_planned))) =
      get_cached_input_ids two_images (es_manager cat_planned)"
    by simp
  show ?thesis
    using preempted_input_never_computed 
      [where order = sorted_list_of_set, OF cat_planned_reachable _ _ q(1) two_images_sized f q(2,3)]
      image_size_nonneg by auto
qed

theorem encoder_budget_fits_items_witness:
  "\<exists>ec'. can_allocate two_images 1 4 0 idle_cat = Inr (True, ec') \<and> 4 \<le> num_free_slots ec'"
proof -
  let ?sc = "\<lparr>disable_chunked_mm_input = True, max_num_batched_tokens = 8,
             max_num_encoder_input_tokens = 2, encoder_cache_size = 5\<rparr>"
  have b: "compute_mm_encoder_budget ?sc [(''image'', 4)] = Inr (4, 5)"
    by (simp add: compute_mm_encoder_budget_def)
  have i: "Suc 0 < length (mm_features two_images)"
    "4 = image_size (mm_identifier (mm_features two_images ! Suc 0))"
    by (simp_all add: two_images_def image_request_def image_size_def)
  have idle: "ids = {}" if "cached idle_cat h = Some ids" for h ids
    using that by (simp add: idle_cat_def split: if_splits)
  have "cache_size idle_cat = 5" by (simp add: idle_cat_def)
  then show ?thesis
    using encoder_budget_fits_items [OF b _ _ i(2) idle_cat_inv _ idle two_images_sized i(1), of "''image''" 4]
    by simp
qed

end
