(* ===== verification/Heapq.thy ===== *)
theory Heapq
  imports Prelude "HOL-Library.Multiset"
begin

text \<open>
  Binary heaps in lists, as the module \<^verbatim>\<open>heapq\<close> of Python's standard library keeps them: the functions
  the priority queue of src/vllm/v1/core/sched/request\_queue.py calls, with their two loops (the
  element on the move is held aside and its place is a hole). The comparison is an argument, as the
  library only uses \<^verbatim>\<open>__lt__\<close>; the lemmas need it to be a strict weak order, which the locale
  \<^verbatim>\<open>strict_weak_order\<close> states.
\<close>

section \<open>Operations\<close>

definition parent :: "nat \<Rightarrow> nat" where
  "parent i = (i - 1) div 2"

lemma parent_less: "0 < i \<Longrightarrow> parent i < i"
  by (simp add: parent_def)

lemma parent_bound: "i < n \<Longrightarrow> parent i < n"
  by (simp add: parent_def)

lemma parent_neq: "0 < i \<Longrightarrow> parent i \<noteq> i"
  using parent_less [of i] by simp

lemma parent_eq: "parent i = p \<Longrightarrow> 0 < i \<Longrightarrow> i = 2 * p + 1 \<or> i = 2 * p + 2"
  unfolding parent_def by presburger

lemma parent_child [simp]: "parent (2 * p + 1) = p" "parent (2 * p + 2) = p"
  by (simp_all add: parent_def)

lemma parent_ge: "s \<le> parent i \<Longrightarrow> 0 < i \<Longrightarrow> s < i"
  using parent_less [of i] by simp

function siftdown_loop :: "('a \<Rightarrow> 'a \<Rightarrow> bool) \<Rightarrow> nat \<Rightarrow> 'a \<Rightarrow> nat \<Rightarrow> 'a list \<Rightarrow> 'a list \<times> nat" where
  "siftdown_loop lt start new pos h =
     (if pos > start
      then if lt new (h ! parent pos)
           then siftdown_loop lt start new (parent pos) (h[pos := h ! parent pos])
           else (h, pos)
      else (h, pos))"
  by pat_completeness auto
termination by (relation "measure (\<lambda>(lt, start, new, pos, h). pos)") (auto simp: parent_less)

declare siftdown_loop.simps [simp del]

definition siftdown :: "('a \<Rightarrow> 'a \<Rightarrow> bool) \<Rightarrow> 'a list \<Rightarrow> nat \<Rightarrow> nat \<Rightarrow> 'a list" where
  "siftdown lt h start pos =
     (let new = h ! pos; (h', p) = siftdown_loop lt start new pos h in h'[p := new])"

definition smaller_child :: "('a \<Rightarrow> 'a \<Rightarrow> bool) \<Rightarrow> 'a list \<Rightarrow> nat \<Rightarrow> nat" where
  "smaller_child lt h pos =
     (let c = 2 * pos + 1; r = c + 1 in if r < length h \<and> \<not> lt (h ! c) (h ! r) then r else c)"

function siftup_loop :: "('a \<Rightarrow> 'a \<Rightarrow> bool) \<Rightarrow> nat \<Rightarrow> 'a list \<Rightarrow> 'a list \<times> nat" where
  "siftup_loop lt pos h =
     (if 2 * pos + 1 < length h
      then let c = smaller_child lt h pos in siftup_loop lt c (h[pos := h ! c])
      else (h, pos))"
  by pat_completeness auto
termination
  by (relation "measure (\<lambda>(lt, pos, h). length h - pos)") (auto simp: smaller_child_def Let_def)

declare siftup_loop.simps [simp del]

definition siftup :: "('a \<Rightarrow> 'a \<Rightarrow> bool) \<Rightarrow> 'a list \<Rightarrow> nat \<Rightarrow> 'a list" where
  "siftup lt h pos =
     (let new = h ! pos; (h', p) = siftup_loop lt pos h in siftdown lt (h'[p := new]) pos p)"

definition heappush :: "('a \<Rightarrow> 'a \<Rightarrow> bool) \<Rightarrow> 'a list \<Rightarrow> 'a \<Rightarrow> 'a list" where
  "heappush lt h x = siftdown lt (h @ [x]) 0 (length h)"

definition heappop :: "('a \<Rightarrow> 'a \<Rightarrow> bool) \<Rightarrow> 'a list \<Rightarrow> ('a \<times> 'a list) res" where
  "heappop lt h =
     (if h = [] then Inl IndexError
      else
        let x = last h; h' = butlast h in
        if h' = [] then Inr (x, []) else Inr (h' ! 0, siftup lt (h'[0 := x]) 0))"

definition heapify :: "('a \<Rightarrow> 'a \<Rightarrow> bool) \<Rightarrow> 'a list \<Rightarrow> 'a list" where
  "heapify lt h = fold (\<lambda>i h. siftup lt h i) (rev [0..<length h div 2]) h"

section \<open>Lengths and contents\<close>

lemma length_siftdown_loop [simp]: "length (fst (siftdown_loop lt s new pos h)) = length h"
  by (induction lt s new pos h rule: siftdown_loop.induct) (subst siftdown_loop.simps, auto)

lemma length_siftdown [simp]: "length (siftdown lt h s p) = length h"
  by (simp add: siftdown_def Let_def split_def)

lemma length_siftup_loop [simp]: "length (fst (siftup_loop lt pos h)) = length h"
  by (induction lt pos h rule: siftup_loop.induct) (subst siftup_loop.simps, auto simp: Let_def)

lemma length_siftup [simp]: "length (siftup lt h p) = length h"
  by (simp add: siftup_def Let_def split_def)

lemma smaller_child_bounds:
  "2 * pos + 1 < length h \<Longrightarrow> smaller_child lt h pos < length h \<and> pos < smaller_child lt h pos
     \<and> parent (smaller_child lt h pos) = pos \<and> 0 < smaller_child lt h pos"
  by (auto simp: smaller_child_def Let_def parent_def)

text \<open>Moving the hole is a swap in the list with the hole filled.\<close>

lemma hole_swap:
  "p < length h \<Longrightarrow> q < length h \<Longrightarrow> p \<noteq> q \<Longrightarrow>
   (h[p := h ! q])[q := new] = (h[p := new])[p := (h[p := new]) ! q, q := (h[p := new]) ! p]"
  by (simp add: list_update_swap)

lemma mset_hole_swap:
  "p < length h \<Longrightarrow> q < length h \<Longrightarrow> p \<noteq> q \<Longrightarrow>
   mset ((h[p := h ! q])[q := new]) = mset (h[p := new])"
  unfolding hole_swap by (subst mset_swap) simp_all

lemma siftdown_loop_pos: "pos < length h \<Longrightarrow> snd (siftdown_loop lt s new pos h) < length h"
proof (induction lt s new pos h rule: siftdown_loop.induct)
  case (1 lt s new pos h)
  then show ?case by (subst siftdown_loop.simps) (auto simp: parent_bound)
qed

lemma mset_siftdown_loop:
  "pos < length h \<Longrightarrow>
   mset ((fst (siftdown_loop lt s new pos h))[snd (siftdown_loop lt s new pos h) := new]) =
   mset (h[pos := new])"
proof (induction lt s new pos h rule: siftdown_loop.induct)
  case (1 lt s new pos h)
  show ?case
  proof (cases "pos > s \<and> lt new (h ! parent pos)")
    case True
    let ?h = "h[pos := h ! parent pos]"
    have p: "parent pos < length h" "parent pos \<noteq> pos"
      using True 1(2) parent_bound parent_neq by auto
    have "siftdown_loop lt s new pos h = siftdown_loop lt s new (parent pos) ?h"
      using True by (subst siftdown_loop.simps) simp
    moreover have "mset (?h[parent pos := new]) = mset (h[pos := new])"
      using mset_hole_swap [of pos h "parent pos" new] p 1(2) by simp
    ultimately show ?thesis using 1(1) True p(1) by simp
  next
    case False
    then have "siftdown_loop lt s new pos h = (h, pos)" by (subst siftdown_loop.simps) auto
    then show ?thesis by simp
  qed
qed

lemma mset_siftdown [simp]: "pos < length h \<Longrightarrow> mset (siftdown lt h s pos) = mset h"
  using mset_siftdown_loop [of pos h lt s "h ! pos"] by (simp add: siftdown_def Let_def split_def)

lemma siftup_loop_pos: "pos < length h \<Longrightarrow> snd (siftup_loop lt pos h) < length h"
proof (induction lt pos h rule: siftup_loop.induct)
  case (1 lt pos h)
  then show ?case
    using smaller_child_bounds [of pos h lt] by (subst siftup_loop.simps) (auto simp: Let_def)
qed

lemma mset_siftup_loop:
  "pos < length h \<Longrightarrow>
   mset ((fst (siftup_loop lt pos h))[snd (siftup_loop lt pos h) := new]) = mset (h[pos := new])"
proof (induction lt pos h rule: siftup_loop.induct)
  case (1 lt pos h)
  show ?case
  proof (cases "2 * pos + 1 < length h")
    case True
    let ?c = "smaller_child lt h pos"
    have c: "?c < length h" "pos \<noteq> ?c" using smaller_child_bounds [OF True, of lt] by auto
    have "siftup_loop lt pos h = siftup_loop lt ?c (h[pos := h ! ?c])"
      using True by (subst siftup_loop.simps) (simp add: Let_def)
    then show ?thesis using 1 True c mset_hole_swap [of pos h ?c new] by simp
  next
    case False
    then have "siftup_loop lt pos h = (h, pos)" by (subst siftup_loop.simps) auto
    then show ?thesis by simp
  qed
qed

lemma mset_siftup [simp]: "pos < length h \<Longrightarrow> mset (siftup lt h pos) = mset h"
  using mset_siftup_loop [of pos h lt "h ! pos"] siftup_loop_pos [of pos h lt]
  by (simp add: siftup_def Let_def split_def)

lemma mset_heappush [simp]: "mset (heappush lt h x) = add_mset x (mset h)"
  by (simp add: heappush_def)

lemma mset_heapify [simp]: "mset (heapify lt h) = mset h"
proof -
  have "length (fold (\<lambda>i h. siftup lt h i) is g) = length g \<and>
        mset (fold (\<lambda>i h. siftup lt h i) is g) = mset g" if "\<forall>i \<in> set is. i < length g" for "is" g
    using that by (induction "is" arbitrary: g) auto
  moreover have "\<forall>i \<in> set (rev [0..<length h div 2]). i < length h" by auto
  ultimately show ?thesis unfolding heapify_def by blast
qed

text \<open>Popping raises on an empty heap only.\<close>

lemma heappop_Inl [simp]: "heappop lt h = Inl e \<longleftrightarrow> h = [] \<and> e = IndexError"
  by (auto simp: heappop_def Let_def)

lemma heappop_mset:
  assumes "heappop lt h = Inr (x, h')"
  shows "mset h = add_mset x (mset h') \<and> x = h ! 0 \<and> length h = Suc (length h')"
proof (cases h rule: rev_cases)
  case Nil
  then show ?thesis using assms by (simp add: heappop_def)
next
  case (snoc g y)
  show ?thesis
  proof (cases "g = []")
    case True
    then show ?thesis using assms snoc by (auto simp: heappop_def)
  next
    case False
    then obtain z zs where g: "g = z # zs" by (cases g) auto
    then show ?thesis using assms snoc by (auto simp: heappop_def nth_append)
  qed
qed

lemma heappop_total: "h \<noteq> [] \<Longrightarrow> \<exists>h'. heappop lt h = Inr (h ! 0, h')"
  using heappop_mset [of lt h] by (cases "heappop lt h") auto

section \<open>The heap order\<close>

text \<open>The part of the list from position \<^verbatim>\<open>s\<close> on is a heap when no element there is smaller than its
  parent. While an element moves up (down), the edge to its parent (the edges to its children) may be
  wrong; the children are then still no smaller than the parent of the hole.\<close>

definition heap_from :: "('a \<Rightarrow> 'a \<Rightarrow> bool) \<Rightarrow> nat \<Rightarrow> 'a list \<Rightarrow> bool" where
  "heap_from lt s xs \<longleftrightarrow>
     (\<forall>i < length xs. 0 < i \<longrightarrow> s \<le> parent i \<longrightarrow> \<not> lt (xs ! i) (xs ! parent i))"

definition skips_hole :: "('a \<Rightarrow> 'a \<Rightarrow> bool) \<Rightarrow> nat \<Rightarrow> nat \<Rightarrow> 'a list \<Rightarrow> bool" where
  "skips_hole lt s p xs \<longleftrightarrow>
     (\<forall>i < length xs. 0 < i \<longrightarrow> parent i = p \<longrightarrow> 0 < p \<longrightarrow> s \<le> parent p \<longrightarrow>
        \<not> lt (xs ! i) (xs ! parent p))"

definition up_heap :: "('a \<Rightarrow> 'a \<Rightarrow> bool) \<Rightarrow> nat \<Rightarrow> nat \<Rightarrow> 'a list \<Rightarrow> bool" where
  "up_heap lt s p xs \<longleftrightarrow>
     (\<forall>i < length xs. 0 < i \<longrightarrow> s \<le> parent i \<longrightarrow> i \<noteq> p \<longrightarrow> \<not> lt (xs ! i) (xs ! parent i)) \<and>
     skips_hole lt s p xs"

definition down_heap :: "('a \<Rightarrow> 'a \<Rightarrow> bool) \<Rightarrow> nat \<Rightarrow> nat \<Rightarrow> 'a list \<Rightarrow> bool" where
  "down_heap lt s p xs \<longleftrightarrow>
     (\<forall>i < length xs. 0 < i \<longrightarrow> s \<le> parent i \<longrightarrow> i \<noteq> p \<longrightarrow> parent i \<noteq> p \<longrightarrow>
        \<not> lt (xs ! i) (xs ! parent i)) \<and>
     skips_hole lt s p xs"

text \<open>The positions below \<^verbatim>\<open>s\<close> in the tree.\<close>

inductive below :: "nat \<Rightarrow> nat \<Rightarrow> bool" for s where
  below_refl [simp]: "below s s"
| below_child: "below s p \<Longrightarrow> parent c = p \<Longrightarrow> p < c \<Longrightarrow> below s c"

lemma below_ge: "below s p \<Longrightarrow> s \<le> p"
  by (induction rule: below.induct) auto

lemma below_parent: "below s p \<Longrightarrow> s < p \<Longrightarrow> below s (parent p) \<and> s \<le> parent p"
  by (erule below.cases) (simp_all add: below_ge)

lemma below_zero [simp]: "below 0 p"
proof (induction p rule: less_induct)
  case (less p)
  show ?case
  proof (cases "p = 0")
    case False
    then show ?thesis using less [of "parent p"] parent_less [of p]
      by (intro below_child [of 0 "parent p" p]) simp_all
  qed simp
qed

locale strict_weak_order =
  fixes lt :: "'a \<Rightarrow> 'a \<Rightarrow> bool"
  assumes asym: "lt a b \<Longrightarrow> \<not> lt b a"
    and ntrans: "\<not> lt a b \<Longrightarrow> \<not> lt b c \<Longrightarrow> \<not> lt a c"
begin

lemma irrefl: "\<not> lt a a"
  using asym by blast

lemma lt_ntrans: "lt a b \<Longrightarrow> \<not> lt c b \<Longrightarrow> lt a c"
  using ntrans by blast

text \<open>One step of the moving element upwards.\<close>

lemma up_heap_step:
  assumes u: "up_heap lt s p (h[p := new])" and p: "p < length h" "s < p" "below s p"
    and less: "lt new (h ! parent p)"
  shows "up_heap lt s (parent p) ((h[p := h ! parent p])[parent p := new])"
proof -
  let ?q = "parent p" and ?xs = "h[p := new]"
  let ?ys = "(h[p := h ! ?q])[?q := new]"
  have q: "?q < length h" "?q \<noteq> p" "s \<le> ?q" "0 < p" using p below_parent [OF p(3,2)] parent_bound [OF p(1)] parent_neq [of p] by auto
  have y: "?ys ! i = (if i = p then h ! ?q else if i = ?q then new else h ! i)" if "i < length h" for i
    using that p(1) q by (simp add: nth_list_update)
  have x: "?xs ! i = (if i = p then new else h ! i)" if "i < length h" for i
    using that p(1) by (simp add: nth_list_update)
  have edge: "\<not> lt (h ! i) (h ! parent i)"
    if "i < length h" "0 < i" "s \<le> parent i" "i \<noteq> p" "parent i \<noteq> p" for i
  proof -
    have "parent i < length h" using that(1) by (rule parent_bound)
    moreover have "\<not> lt (?xs ! i) (?xs ! parent i)" using u that(1-4) unfolding up_heap_def by simp
    ultimately show ?thesis using that(4,5) x [OF that(1)] x [of "parent i"] by simp
  qed
  have skip: "\<not> lt (h ! i) (h ! ?q)" if "i < length h" "0 < i" "parent i = p" for i
  proof -
    have "\<not> lt (?xs ! i) (?xs ! ?q)"
      using u that q unfolding up_heap_def skips_hole_def by simp
    moreover have "i \<noteq> p" using that parent_neq by blast
    ultimately show ?thesis using x [OF that(1)] x [OF q(1)] q(2) by simp
  qed
  have "\<not> lt (?ys ! i) (?ys ! parent i)"
    if i: "i < length h" "0 < i" "s \<le> parent i" "i \<noteq> ?q" for i
  proof -
    have pi: "parent i < length h" "parent i \<noteq> i" using i parent_bound parent_neq by auto
    consider "i = p" | "i \<noteq> p" "parent i = p" | "i \<noteq> p" "parent i = ?q" | "i \<noteq> p" "parent i \<noteq> p" "parent i \<noteq> ?q"
      by blast
    then show ?thesis
    proof cases
      case 1
      then show ?thesis using y [of p] y [of ?q] p(1) q asym [OF less] by simp
    next
      case 2
      then show ?thesis using skip [OF i(1,2)] y [OF i(1)] y [OF p(1)] i(4) by simp
    next
      case 3
      have "\<not> lt (h ! i) (h ! ?q)" using edge [OF i(1-3)] 3 q by simp
      then have "\<not> lt (h ! i) new" using lt_ntrans less asym by blast
      then show ?thesis using 3 y [OF i(1)] y [OF q(1)] q i(4) by simp
    next
      case 4
      then show ?thesis using edge [OF i(1-3)] y [OF i(1)] y [OF pi(1)] i(4) by simp
    qed
  qed
  moreover have "\<not> lt (?ys ! i) (?ys ! parent ?q)"
    if i: "i < length h" "0 < i" "parent i = ?q" "0 < ?q" "s \<le> parent ?q" for i
  proof -
    have g: "parent ?q < length h" "parent ?q \<noteq> ?q" "parent ?q \<noteq> p"
      using parent_bound [OF q(1)] parent_less [OF i(4)] parent_less [OF q(4)] by auto
    have e: "\<not> lt (h ! ?q) (h ! parent ?q)" using edge [of ?q] q i g by simp
    have iq: "i \<noteq> ?q" using i parent_neq [of i] by auto
    show ?thesis
    proof (cases "i = p")
      case True
      then show ?thesis using e y [OF p(1)] y [OF g(1)] g by simp
    next
      case False
      have "\<not> lt (h ! i) (h ! ?q)" using edge [OF i(1,2)] False i q by simp
      from ntrans [OF this e] show ?thesis using False iq y [OF i(1)] y [OF g(1)] g by simp
    qed
  qed
  ultimately show ?thesis unfolding up_heap_def skips_hole_def by simp
qed

lemma up_heap_done:
  assumes "up_heap lt s p xs" "p < length xs" "\<And>q. q = parent p \<Longrightarrow> s < p \<Longrightarrow> \<not> lt (xs ! p) (xs ! q)" "s \<le> p"
  shows "heap_from lt s xs"
proof -
  have "\<not> lt (xs ! i) (xs ! parent i)" if "i < length xs" "0 < i" "s \<le> parent i" for i
  proof (cases "i = p")
    case True
    have "s < p" using that True parent_ge by blast
    then show ?thesis using assms(3) [OF refl] True by simp
  next
    case False
    then show ?thesis using assms(1) that unfolding up_heap_def by simp
  qed
  then show ?thesis unfolding heap_from_def by blast
qed

lemma siftdown_loop_heap:
  assumes "up_heap lt s pos (h[pos := new])" "pos < length h" "below s pos"
  shows "heap_from lt s ((fst (siftdown_loop lt s new pos h))[snd (siftdown_loop lt s new pos h) := new])"
  using assms
proof (induction pos arbitrary: h rule: less_induct)
  case (less pos)
  let ?q = "parent pos"
  show ?case
  proof (cases "s < pos \<and> lt new (h ! ?q)")
    case True
    have e: "siftdown_loop lt s new pos h = siftdown_loop lt s new ?q (h[pos := h ! ?q])"
      using True by (subst siftdown_loop.simps) simp
    have "?q < pos" "?q < length h" using True less.prems(2) parent_less [of pos] by auto
    then show ?thesis
      unfolding e using up_heap_step [OF less.prems(1,2)] less.prems True below_parent
      by (intro less.IH) auto
  next
    case False
    then have e: "siftdown_loop lt s new pos h = (h, pos)" by (subst siftdown_loop.simps) auto
    have "\<not> lt (h[pos := new] ! pos) (h[pos := new] ! q)" if "q = ?q" "s < pos" for q
      using False that less.prems(2) irrefl by (simp add: nth_list_update)
    then have "heap_from lt s (h[pos := new])"
      using up_heap_done [OF less.prems(1)] less.prems(2) below_ge [OF less.prems(3)] by simp
    then show ?thesis unfolding e by simp
  qed
qed

lemma siftdown_heap:
  "up_heap lt s pos h \<Longrightarrow> pos < length h \<Longrightarrow> below s pos \<Longrightarrow> heap_from lt s (siftdown lt h s pos)"
  using siftdown_loop_heap [of s pos h "h ! pos"] by (simp add: siftdown_def Let_def split_def)

text \<open>One step of the hole downwards, to the place of the smaller child.\<close>

lemma smaller_child_least:
  assumes "2 * p + 1 < length h" "i < length h" "0 < i" "parent i = p"
  shows "\<not> lt (h ! i) (h ! smaller_child lt h p)"
proof (cases "i = smaller_child lt h p")
  case True
  then show ?thesis using irrefl by simp
next
  case False
  then show ?thesis
    using parent_eq [OF assms(4,3)] assms(2) asym
    by (auto simp: smaller_child_def Let_def split: if_splits)
qed

lemma down_heap_step:
  assumes d: "down_heap lt s p (h[p := new])" and c: "2 * p + 1 < length h" "below s p"
  defines "c \<equiv> smaller_child lt h p"
  shows "down_heap lt s c ((h[p := h ! c])[c := new])"
proof -
  let ?xs = "h[p := new]" and ?ys = "(h[p := h ! c])[c := new]"
  have b: "c < length h" "p < c" "parent c = p" "0 < c" "p < length h"
    using smaller_child_bounds [OF c(1), of lt] c(1) unfolding c_def by auto
  have y: "?ys ! i = (if i = c then new else if i = p then h ! c else h ! i)" if "i < length h" for i
    using that b by (simp add: nth_list_update)
  have x: "?xs ! i = (if i = p then new else h ! i)" if "i < length h" for i
    using that b by (simp add: nth_list_update)
  have edge: "\<not> lt (h ! i) (h ! parent i)"
    if "i < length h" "0 < i" "s \<le> parent i" "i \<noteq> p" "parent i \<noteq> p" for i
  proof -
    have "\<not> lt (?xs ! i) (?xs ! parent i)" using d that unfolding down_heap_def by simp
    then show ?thesis using that(4,5) x [OF that(1)] x [OF parent_bound [OF that(1)]] by simp
  qed
  have skip: "\<not> lt (h ! c) (h ! parent p)" if "0 < p" "s \<le> parent p"
  proof -
    have "skips_hole lt s p ?xs" using d unfolding down_heap_def by simp
    then have "\<not> lt (?xs ! c) (?xs ! parent p)"
      using that b unfolding skips_hole_def length_list_update by blast
    then show ?thesis
      using b x [OF b(1)] x [OF parent_bound [OF b(5)]] parent_neq [OF that(1)] by simp
  qed
  have least: "\<not> lt (h ! i) (h ! c)" if "i < length h" "0 < i" "parent i = p" for i
    unfolding c_def by (rule smaller_child_least [OF c(1) that])
  have "\<not> lt (?ys ! i) (?ys ! parent i)"
    if i: "i < length h" "0 < i" "s \<le> parent i" "i \<noteq> c" "parent i \<noteq> c" for i
  proof -
    have pi: "parent i < length h" "parent i \<noteq> i" using i parent_bound parent_neq by auto
    consider "i = p" | "i \<noteq> p" "parent i = p" | "i \<noteq> p" "parent i \<noteq> p" by blast
    then show ?thesis
    proof cases
      case 1
      then show ?thesis using skip i pi y [OF i(1)] y [OF pi(1)] by simp
    next
      case 2
      then show ?thesis using least [OF i(1,2)] i pi y [OF i(1)] y [OF pi(1)] b by simp
    next
      case 3
      then show ?thesis using edge [OF i(1-3)] i pi y [OF i(1)] y [OF pi(1)] by simp
    qed
  qed
  moreover have "\<not> lt (?ys ! i) (?ys ! p)"
    if i: "i < length h" "0 < i" "parent i = c" for i
  proof -
    have n: "i \<noteq> c" "i \<noteq> p" "c \<noteq> p" using i b parent_less [OF i(2)] by auto
    have "s \<le> c" using below_ge [OF c(2)] b by simp
    then have "\<not> lt (h ! i) (h ! c)" using edge [OF i(1,2)] i n by simp
    then show ?thesis using n y [OF i(1)] y [OF b(5)] by simp
  qed
  ultimately show ?thesis unfolding down_heap_def skips_hole_def using b(3) by simp
qed

lemma siftup_loop_heap:
  assumes "down_heap lt s pos (h[pos := new])" "pos < length h" "below s pos"
  shows "up_heap lt s (snd (siftup_loop lt pos h))
           ((fst (siftup_loop lt pos h))[snd (siftup_loop lt pos h) := new]) \<and>
         below s (snd (siftup_loop lt pos h))"
  using assms
proof (induction "length h - pos" arbitrary: pos h rule: less_induct)
  case less
  show ?case
  proof (cases "2 * pos + 1 < length h")
    case True
    let ?c = "smaller_child lt h pos"
    have c: "?c < length h" "pos < ?c" "parent ?c = pos" "0 < ?c"
      using smaller_child_bounds [OF True, of lt] by auto
    have e: "siftup_loop lt pos h = siftup_loop lt ?c (h[pos := h ! ?c])"
      using True by (subst siftup_loop.simps) (simp add: Let_def)
    have "length (h[pos := h ! ?c]) - ?c < length h - pos" using c by simp
    then show ?thesis
      unfolding e
      using down_heap_step [OF less.prems(1) True less.prems(3)] c below_child [OF less.prems(3) c(3,2)]
      by (intro less.hyps) simp_all
  next
    case False
    have "siftup_loop lt pos h = (h, pos)" using False by (subst siftup_loop.simps) simp
    moreover have "parent i \<noteq> pos" if "i < length h" "0 < i" for i
      using parent_eq [of i pos] that False by auto
    ultimately show ?thesis
      using less.prems unfolding up_heap_def down_heap_def by simp
  qed
qed

text \<open>Sifting from the root of a part whose subtrees are heaps makes the part a heap.\<close>

lemma siftup_heap:
  assumes "heap_from lt (Suc pos) h" "pos < length h"
  shows "heap_from lt pos (siftup lt h pos)"
proof -
  have n: "\<not> pos \<le> parent pos" if "0 < pos" using parent_less [OF that] by simp
  have "down_heap lt pos pos h"
    using assms(1) n unfolding down_heap_def heap_from_def skips_hole_def
    by (auto simp: Suc_le_eq le_neq_implies_less)
  then have "up_heap lt pos (snd (siftup_loop lt pos h))
           ((fst (siftup_loop lt pos h))[snd (siftup_loop lt pos h) := h ! pos]) \<and>
         below pos (snd (siftup_loop lt pos h))"
    using assms(2) siftup_loop_heap [of pos pos h "h ! pos"] by simp
  then show ?thesis
    using siftup_loop_pos [OF assms(2), of lt] siftdown_heap
    by (simp add: siftup_def Let_def split_def)
qed

lemma heappush_heap: "heap_from lt 0 h \<Longrightarrow> heap_from lt 0 (heappush lt h x)"
proof -
  assume h: "heap_from lt 0 h"
  have "\<not> lt ((h @ [x]) ! i) ((h @ [x]) ! parent i)" if "i < length h" "0 < i" for i
    using h that parent_bound [OF that(1)] unfolding heap_from_def by (simp add: nth_append)
  moreover have "parent i \<noteq> length h" if "i < Suc (length h)" "0 < i" for i
    using that parent_less [OF that(2)] by simp
  ultimately have "up_heap lt 0 (length h) (h @ [x])"
    unfolding up_heap_def skips_hole_def by (simp add: less_Suc_eq)
  then show ?thesis unfolding heappush_def by (rule siftdown_heap) simp_all
qed

lemma heapify_heap: "heap_from lt 0 (heapify lt h)"
proof -
  have "heap_from lt (length h div 2) h"
    unfolding heap_from_def
  proof (intro allI impI)
    fix i assume "i < length h" "0 < i" "length h div 2 \<le> parent i"
    then show "\<not> lt (h ! i) (h ! parent i)" using parent_eq [OF refl, of i] by linarith
  qed
  moreover have "heap_from lt n g \<Longrightarrow> n \<le> length g \<Longrightarrow>
    heap_from lt 0 (fold (\<lambda>i h. siftup lt h i) (rev [0..<n]) g)" for n g
    by (induction n arbitrary: g) (auto simp: siftup_heap)
  ultimately show ?thesis unfolding heapify_def by simp
qed

text \<open>The root of a heap is a least element.\<close>

lemma heap_root_least: "heap_from lt 0 h \<Longrightarrow> i < length h \<Longrightarrow> \<not> lt (h ! i) (h ! 0)"
proof (induction i rule: less_induct)
  case (less i)
  show ?case
  proof (cases "i = 0")
    case True
    then show ?thesis using irrefl by simp
  next
    case False
    then have "\<not> lt (h ! i) (h ! parent i)" using less.prems unfolding heap_from_def by simp
    moreover have "\<not> lt (h ! parent i) (h ! 0)"
      using False less.IH [of "parent i"] less.prems parent_less [of i] by simp
    ultimately show ?thesis by (rule ntrans)
  qed
qed

lemma heappop_heap:
  assumes h: "heap_from lt 0 h" and p: "heappop lt h = Inr (x, h')"
  shows "heap_from lt 0 h'" "y \<in> set h \<Longrightarrow> \<not> lt y x"
proof -
  show "heap_from lt 0 h'"
  proof (cases h rule: rev_cases)
    case Nil
    then show ?thesis using p by (simp add: heappop_def)
  next
    case (snoc g z)
    show ?thesis
    proof (cases "g = []")
      case True
      then show ?thesis using p snoc by (simp add: heappop_def heap_from_def)
    next
      case False
      then have e: "h' = siftup lt (g[0 := z]) 0" using p snoc by (simp add: heappop_def)
      have "\<not> lt (g[0 := z] ! i) (g[0 := z] ! parent i)"
        if i: "i < length g" "0 < i" "Suc 0 \<le> parent i" for i
      proof -
        have "\<not> lt (h ! i) (h ! parent i)" using h i snoc unfolding heap_from_def by simp
        then show ?thesis using i snoc parent_bound [OF i(1)] by (simp add: nth_append)
      qed
      then have "heap_from lt (Suc 0) (g[0 := z])" unfolding heap_from_def by simp
      then show ?thesis unfolding e using False by (intro siftup_heap) simp_all
    qed
  qed
  show "\<not> lt y x" if "y \<in> set h"
    using that heappop_mset [OF p] heap_root_least [OF h] by (auto simp: in_set_conv_nth)
qed

end

section \<open>Draining a heap\<close>

text \<open>Popping until the heap is empty, as a loop over a copy does.\<close>

function heap_drain :: "('a \<Rightarrow> 'a \<Rightarrow> bool) \<Rightarrow> 'a list \<Rightarrow> 'a list" where
  "heap_drain lt h = (case heappop lt h of Inl e \<Rightarrow> [] | Inr (x, h') \<Rightarrow> x # heap_drain lt h')"
  by pat_completeness auto
termination
  by (relation "measure (\<lambda>(lt, h). length h)") (auto dest: heappop_mset)

declare heap_drain.simps [simp del]

lemma heap_drain_Nil [simp]: "heap_drain lt [] = []"
  by (subst heap_drain.simps) (simp add: heappop_def)

lemma heap_drain_pop: "heappop lt h = Inr (x, h') \<Longrightarrow> heap_drain lt h = x # heap_drain lt h'"
  by (subst heap_drain.simps) simp

lemma mset_heap_drain [simp]: "mset (heap_drain lt h) = mset h"
proof (induction lt h rule: heap_drain.induct)
  case (1 lt h)
  show ?case
  proof (cases "heappop lt h")
    case (Inl e)
    then show ?thesis by simp
  next
    case (Inr xh)
    then show ?thesis using 1 heappop_mset [of lt h] heap_drain_pop [of lt h] by (cases xh) auto
  qed
qed

context strict_weak_order
begin

lemma heap_drain_sorted:
  "heap_from lt 0 h \<Longrightarrow> sorted_wrt (\<lambda>a b. \<not> lt b a) (heap_drain lt h)"
proof (induction "length h" arbitrary: h)
  case 0
  then show ?case by simp
next
  case (Suc n)
  then obtain x h' where p: "heappop lt h = Inr (x, h')" using heappop_total [of h lt] by fastforce
  have l: "length h' = n" and m: "mset h = add_mset x (mset h')"
    using heappop_mset [OF p] Suc.hyps(2) by auto
  have "set (heap_drain lt h') = set h'" using mset_heap_drain [of lt h'] mset_eq_setD by blast
  then show ?case
    using Suc.hyps(1) [of h'] l heappop_heap [OF Suc.prems p] m heap_drain_pop [OF p]
    by (auto dest!: mset_eq_setD [of h "x # h'", simplified])
qed

end

end
