(* ===== verification/Request_Queue.thy ===== *)
theory Request_Queue
  imports Request Heapq "HOL-Library.Product_Lexorder"
begin

text \<open>
  The waiting queues of src/vllm/v1/core/sched/request\_queue.py: the first-come-first-served queue (a
  deque) and the priority queue (a binary heap ordered by \<^verbatim>\<open>Request.__lt__\<close>). The entries are
  references to requests; the comparison of two references is the argument \<^verbatim>\<open>lt\<close>, so that the scheduler
  can instantiate it with the comparison of the requests they point to. The abstract class is the
  datatype \<^verbatim>\<open>request_queue\<close> with the methods dispatching on it.

  The locale \<^verbatim>\<open>request_bag\<close> states what every queue promises about its contents, the locale
  \<^verbatim>\<open>queue_order\<close> what it promises about the order.
\<close>

section \<open>Operations\<close>

datatype scheduling_policy = FCFS | PRIORITY

datatype 'r request_queue = FCFSRequestQueue "'r list" | PriorityRequestQueue "'r list"

subsection \<open>First come, first served\<close>

definition fcfs_add_request :: "'r \<Rightarrow> 'r list \<Rightarrow> 'r list" where
  [simp]: "fcfs_add_request r d = d @ [r]"

definition fcfs_pop_request :: "'r list \<Rightarrow> ('r \<times> 'r list) res" where
  [simp]: "fcfs_pop_request d = (case d of [] \<Rightarrow> Inl IndexError | r # d' \<Rightarrow> Inr (r, d'))"

definition fcfs_peek_request :: "'r list \<Rightarrow> 'r res" where
  [simp]: "fcfs_peek_request d = (if d = [] then Inl IndexError else Inr (d ! 0))"

definition fcfs_prepend_request :: "'r \<Rightarrow> 'r list \<Rightarrow> 'r list" where
  [simp]: "fcfs_prepend_request r d = r # d"

text \<open>\<^verbatim>\<open>extendleft\<close> adds the elements to the left one by one.\<close>

definition fcfs_prepend_requests :: "'r list \<Rightarrow> 'r list \<Rightarrow> 'r list" where
  [simp]: "fcfs_prepend_requests rs d = fold (#) rs d"

definition fcfs_remove_request :: "'r \<Rightarrow> 'r list \<Rightarrow> 'r list res" where
  [simp]: "fcfs_remove_request r d = (if r \<in> set d then Inr (remove1 r d) else Inl ValueError)"

definition fcfs_remove_requests :: "'r list \<Rightarrow> 'r list \<Rightarrow> 'r list" where
  [simp]: "fcfs_remove_requests rs d = filter (\<lambda>r. r \<notin> set rs) d"

subsection \<open>By priority\<close>

definition prio_add_request :: "('r \<Rightarrow> 'r \<Rightarrow> bool) \<Rightarrow> 'r \<Rightarrow> 'r list \<Rightarrow> 'r list" where
  [simp]: "prio_add_request lt r h = heappush lt h r"

definition prio_pop_request :: "('r \<Rightarrow> 'r \<Rightarrow> bool) \<Rightarrow> 'r list \<Rightarrow> ('r \<times> 'r list) res" where
  [simp]: "prio_pop_request lt h = (if h = [] then Inl IndexError else heappop lt h)"

definition prio_peek_request :: "'r list \<Rightarrow> 'r res" where
  [simp]: "prio_peek_request h = (if h = [] then Inl IndexError else Inr (h ! 0))"

definition prio_prepend_request :: "('r \<Rightarrow> 'r \<Rightarrow> bool) \<Rightarrow> 'r \<Rightarrow> 'r list \<Rightarrow> 'r list" where
  [simp]: "prio_prepend_request lt r h = prio_add_request lt r h"

definition prio_prepend_requests :: "('r \<Rightarrow> 'r \<Rightarrow> bool) \<Rightarrow> 'r list \<Rightarrow> 'r list \<Rightarrow> 'r list" where
  [simp]: "prio_prepend_requests lt rs h = fold (prio_add_request lt) rs h"

definition prio_remove_request :: "('r \<Rightarrow> 'r \<Rightarrow> bool) \<Rightarrow> 'r \<Rightarrow> 'r list \<Rightarrow> 'r list res" where
  [simp]: "prio_remove_request lt r h =
     (if r \<in> set h then Inr (heapify lt (remove1 r h)) else Inl ValueError)"

definition prio_remove_requests :: "('r \<Rightarrow> 'r \<Rightarrow> bool) \<Rightarrow> 'r list \<Rightarrow> 'r list \<Rightarrow> 'r list" where
  [simp]: "prio_remove_requests lt rs h = heapify lt (filter (\<lambda>r. r \<notin> set rs) h)"

definition prio_iter :: "('r \<Rightarrow> 'r \<Rightarrow> bool) \<Rightarrow> 'r list \<Rightarrow> 'r list" where
  [simp]: "prio_iter lt h = heap_drain lt h"

subsection \<open>The common interface\<close>

fun create_request_queue :: "scheduling_policy \<Rightarrow> 'r request_queue" where
  "create_request_queue PRIORITY = PriorityRequestQueue []"
| "create_request_queue FCFS = FCFSRequestQueue []"

fun q_add_request :: "('r \<Rightarrow> 'r \<Rightarrow> bool) \<Rightarrow> 'r \<Rightarrow> 'r request_queue \<Rightarrow> 'r request_queue" where
  "q_add_request lt r (FCFSRequestQueue d) = FCFSRequestQueue (fcfs_add_request r d)"
| "q_add_request lt r (PriorityRequestQueue h) = PriorityRequestQueue (prio_add_request lt r h)"

fun q_pop_request :: "('r \<Rightarrow> 'r \<Rightarrow> bool) \<Rightarrow> 'r request_queue \<Rightarrow> ('r \<times> 'r request_queue) res" where
  "q_pop_request lt (FCFSRequestQueue d) =
     bindE (fcfs_pop_request d) (\<lambda>(r, d'). Inr (r, FCFSRequestQueue d'))"
| "q_pop_request lt (PriorityRequestQueue h) =
     bindE (prio_pop_request lt h) (\<lambda>(r, h'). Inr (r, PriorityRequestQueue h'))"

fun q_peek_request :: "'r request_queue \<Rightarrow> 'r res" where
  "q_peek_request (FCFSRequestQueue d) = fcfs_peek_request d"
| "q_peek_request (PriorityRequestQueue h) = prio_peek_request h"

fun q_prepend_request :: "('r \<Rightarrow> 'r \<Rightarrow> bool) \<Rightarrow> 'r \<Rightarrow> 'r request_queue \<Rightarrow> 'r request_queue" where
  "q_prepend_request lt r (FCFSRequestQueue d) = FCFSRequestQueue (fcfs_prepend_request r d)"
| "q_prepend_request lt r (PriorityRequestQueue h) = PriorityRequestQueue (prio_prepend_request lt r h)"

fun q_iter :: "('r \<Rightarrow> 'r \<Rightarrow> bool) \<Rightarrow> 'r request_queue \<Rightarrow> 'r list" where
  "q_iter lt (FCFSRequestQueue d) = d"
| "q_iter lt (PriorityRequestQueue h) = prio_iter lt h"

fun q_prepend_requests ::
  "('r \<Rightarrow> 'r \<Rightarrow> bool) \<Rightarrow> 'r request_queue \<Rightarrow> 'r request_queue \<Rightarrow> 'r request_queue" where
  "q_prepend_requests lt rs (FCFSRequestQueue d) =
     FCFSRequestQueue (fcfs_prepend_requests (q_iter lt rs) d)"
| "q_prepend_requests lt rs (PriorityRequestQueue h) =
     PriorityRequestQueue (prio_prepend_requests lt (q_iter lt rs) h)"

fun q_remove_request :: "('r \<Rightarrow> 'r \<Rightarrow> bool) \<Rightarrow> 'r \<Rightarrow> 'r request_queue \<Rightarrow> 'r request_queue res" where
  "q_remove_request lt r (FCFSRequestQueue d) =
     bindE (fcfs_remove_request r d) (\<lambda>d'. Inr (FCFSRequestQueue d'))"
| "q_remove_request lt r (PriorityRequestQueue h) =
     bindE (prio_remove_request lt r h) (\<lambda>h'. Inr (PriorityRequestQueue h'))"

fun q_remove_requests :: "('r \<Rightarrow> 'r \<Rightarrow> bool) \<Rightarrow> 'r list \<Rightarrow> 'r request_queue \<Rightarrow> 'r request_queue" where
  "q_remove_requests lt rs (FCFSRequestQueue d) = FCFSRequestQueue (fcfs_remove_requests rs d)"
| "q_remove_requests lt rs (PriorityRequestQueue h) = PriorityRequestQueue (prio_remove_requests lt rs h)"

fun q_len :: "'r request_queue \<Rightarrow> int" where
  "q_len (FCFSRequestQueue d) = int (length d)"
| "q_len (PriorityRequestQueue h) = int (length h)"

definition q_bool :: "'r request_queue \<Rightarrow> bool" where
  "q_bool q \<longleftrightarrow> q_len q > 0"

fun q_contents :: "'r request_queue \<Rightarrow> 'r multiset" where
  "q_contents (FCFSRequestQueue d) = mset d"
| "q_contents (PriorityRequestQueue h) = mset h"

section \<open>Contents\<close>

locale request_bag =
  fixes add :: "'r \<Rightarrow> 'q \<Rightarrow> 'q" and prepend :: "'r \<Rightarrow> 'q \<Rightarrow> 'q" and prepend_all :: "'q \<Rightarrow> 'q \<Rightarrow> 'q"
    and pop :: "'q \<Rightarrow> ('r \<times> 'q) res" and peek :: "'q \<Rightarrow> 'r res"
    and remove :: "'r \<Rightarrow> 'q \<Rightarrow> 'q res" and remove_many :: "'r list \<Rightarrow> 'q \<Rightarrow> 'q"
    and nonempty :: "'q \<Rightarrow> bool" and contents :: "'q \<Rightarrow> 'r multiset"
  assumes contents_add: "contents (add r q) = add_mset r (contents q)"
    and contents_prepend: "contents (prepend r q) = add_mset r (contents q)"
    and contents_prepend_all: "contents (prepend_all p q) = contents p + contents q"
    and pop_empty: "contents q = {#} \<Longrightarrow> pop q = Inl IndexError \<and> peek q = Inl IndexError"
    and pop_nonempty: "contents q \<noteq> {#} \<Longrightarrow>
      \<exists>r q'. peek q = Inr r \<and> pop q = Inr (r, q') \<and> contents q = add_mset r (contents q')"
    and remove_absent: "r \<notin># contents q \<Longrightarrow> remove r q = Inl ValueError"
    and remove_present: "r \<in># contents q \<Longrightarrow>
      \<exists>q'. remove r q = Inr q' \<and> contents q = add_mset r (contents q')"
    and contents_remove_many: "contents (remove_many rs q) = filter_mset (\<lambda>r. r \<notin> set rs) (contents q)"
    and nonempty_iff: "nonempty q \<longleftrightarrow> contents q \<noteq> {#}"
begin

lemma pop_contents: "pop q = Inr (r, q') \<Longrightarrow> contents q = add_mset r (contents q') \<and> peek q = Inr r"
  using pop_empty [of q] pop_nonempty [of q] by (cases "contents q = {#}") auto

lemma peek_contents: "peek q = Inr r \<Longrightarrow> \<exists>q'. pop q = Inr (r, q') \<and> contents q = add_mset r (contents q')"
  using pop_empty [of q] pop_nonempty [of q] by (cases "contents q = {#}") auto

lemma peek_total: "nonempty q \<Longrightarrow> \<exists>r. peek q = Inr r"
  using pop_nonempty [of q] by (auto simp: nonempty_iff)

lemma pop_size: "pop q = Inr (r, q') \<Longrightarrow> size (contents q) = Suc (size (contents q'))"
  using pop_contents [of q r q'] by simp

text \<open>Moving the front of one queue to another keeps the joint contents.\<close>

lemma move_contents:
  "pop q = Inr (r, q') \<Longrightarrow> contents q' + contents (prepend r p) = contents q + contents p"
  using pop_contents [of q r q'] by (simp add: contents_prepend)

end

lemma mset_q_iter [simp]: "mset (q_iter lt q) = q_contents q"
  by (cases q) simp_all

lemma mset_fold_push: "mset (fold (prio_add_request lt) rs h) = mset rs + mset h"
  by (induction rs arbitrary: h) simp_all

lemma mset_fold_Cons: "mset (fold (#) rs d) = mset rs + mset d"
  by (induction rs arbitrary: d) simp_all

interpretation bag: request_bag "q_add_request lt" "q_prepend_request lt" "q_prepend_requests lt"
  "q_pop_request lt" q_peek_request "q_remove_request lt" "q_remove_requests lt" q_bool q_contents
  for lt :: "'r \<Rightarrow> 'r \<Rightarrow> bool"
proof
  fix q :: "'r request_queue"
  assume ne: "q_contents q \<noteq> {#}"
  show "\<exists>r q'. q_peek_request q = Inr r \<and> q_pop_request lt q = Inr (r, q') \<and>
          q_contents q = add_mset r (q_contents q')"
  proof (cases q)
    case (FCFSRequestQueue d)
    then show ?thesis using ne by (cases d) auto
  next
    case (PriorityRequestQueue h)
    then obtain h' where p: "heappop lt h = Inr (h ! 0, h')" using ne heappop_total [of h lt] by auto
    have "mset h = add_mset (h ! 0) (mset h')" using heappop_mset [OF p] by (rule conjunct1)
    then show ?thesis
      using PriorityRequestQueue ne p
      by (intro exI [of _ "h ! 0"] exI [of _ "PriorityRequestQueue h'"]) auto
  qed
next
  fix r :: 'r and q :: "'r request_queue"
  assume "r \<in># q_contents q"
  then show "\<exists>q'. q_remove_request lt r q = Inr q' \<and> q_contents q = add_mset r (q_contents q')"
    by (cases q) auto
next
  fix p q :: "'r request_queue"
  show "q_contents (q_prepend_requests lt p q) = q_contents p + q_contents q"
    by (cases q) (simp_all add: mset_fold_push mset_fold_Cons)
qed (rename_tac q, case_tac q; auto simp: q_bool_def mset_filter)+

section \<open>Order\<close>

text \<open>What a queue promises about the order: iterating it lists the requests as repeated pops would
  return them, as long as its structure is intact, which every operation keeps.\<close>

locale queue_order =
  fixes add :: "'r \<Rightarrow> 'q \<Rightarrow> 'q" and prepend :: "'r \<Rightarrow> 'q \<Rightarrow> 'q" and prepend_all :: "'q \<Rightarrow> 'q \<Rightarrow> 'q"
    and pop :: "'q \<Rightarrow> ('r \<times> 'q) res" and peek :: "'q \<Rightarrow> 'r res"
    and remove :: "'r \<Rightarrow> 'q \<Rightarrow> 'q res" and remove_many :: "'r list \<Rightarrow> 'q \<Rightarrow> 'q"
    and iter :: "'q \<Rightarrow> 'r list" and intact :: "'q \<Rightarrow> bool"
  assumes intact_add: "intact q \<Longrightarrow> intact (add r q)"
    and intact_prepend: "intact q \<Longrightarrow> intact (prepend r q)"
    and intact_prepend_all: "intact q \<Longrightarrow> intact (prepend_all p q)"
    and intact_remove: "intact q \<Longrightarrow> remove r q = Inr q' \<Longrightarrow> intact q'"
    and intact_remove_many: "intact q \<Longrightarrow> intact (remove_many rs q)"
    and pop_iter: "intact q \<Longrightarrow> iter q = r # rs \<Longrightarrow>
      \<exists>q'. pop q = Inr (r, q') \<and> peek q = Inr r \<and> iter q' = rs \<and> intact q'"
    and pop_none: "iter q = [] \<Longrightarrow> pop q = Inl IndexError"
begin

lemma pop_hd:
  "intact q \<Longrightarrow> pop q = Inr (r, q') \<Longrightarrow> iter q = r # iter q' \<and> intact q'"
  using pop_none [of q] pop_iter [of q] by (cases "iter q") fastforce+

end

text \<open>The states a queue of a policy can reach.\<close>

inductive queue_reach :: "('r \<Rightarrow> 'r \<Rightarrow> bool) \<Rightarrow> scheduling_policy \<Rightarrow> 'r request_queue \<Rightarrow> bool"
  for lt policy where
  reach_create: "queue_reach lt policy (create_request_queue policy)"
| reach_add: "queue_reach lt policy q \<Longrightarrow> queue_reach lt policy (q_add_request lt r q)"
| reach_prepend: "queue_reach lt policy q \<Longrightarrow> queue_reach lt policy (q_prepend_request lt r q)"
| reach_prepend_all: "queue_reach lt policy q \<Longrightarrow> queue_reach lt policy (q_prepend_requests lt p q)"
| reach_pop: "queue_reach lt policy q \<Longrightarrow> q_pop_request lt q = Inr (r, q') \<Longrightarrow> queue_reach lt policy q'"
| reach_remove: "queue_reach lt policy q \<Longrightarrow> q_remove_request lt r q = Inr q' \<Longrightarrow> queue_reach lt policy q'"
| reach_remove_many: "queue_reach lt policy q \<Longrightarrow> queue_reach lt policy (q_remove_requests lt rs q)"

fun q_intact :: "('r \<Rightarrow> 'r \<Rightarrow> bool) \<Rightarrow> 'r request_queue \<Rightarrow> bool" where
  "q_intact lt (FCFSRequestQueue d) = True"
| "q_intact lt (PriorityRequestQueue h) = heap_from lt 0 h"

fun q_policy :: "'r request_queue \<Rightarrow> scheduling_policy" where
  "q_policy (FCFSRequestQueue d) = FCFS"
| "q_policy (PriorityRequestQueue h) = PRIORITY"

lemma q_policy_ops [simp]:
  "q_policy (create_request_queue p) = p" "q_policy (q_add_request lt r q) = q_policy q"
  "q_policy (q_prepend_request lt r q) = q_policy q"
  "q_policy (q_prepend_requests lt p' q) = q_policy q" "q_policy (q_remove_requests lt rs q) = q_policy q"
  by (cases p; simp) (cases q; simp)+

lemma q_policy_pop: "q_pop_request lt q = Inr (r, q') \<Longrightarrow> q_policy q' = q_policy q"
  by (cases q) (auto split: list.splits if_splits)

lemma q_policy_remove: "q_remove_request lt r q = Inr q' \<Longrightarrow> q_policy q' = q_policy q"
  by (cases q) (auto split: if_splits)

lemma q_reach_policy: "queue_reach lt policy q \<Longrightarrow> q_policy q = policy"
  by (induction rule: queue_reach.induct) (auto dest: q_policy_pop q_policy_remove)

context strict_weak_order
begin

lemma heap_intact_add: "q_intact lt q \<Longrightarrow> q_intact lt (q_add_request lt r q)"
  by (cases q) (simp_all add: heappush_heap)

lemma heap_push_all: "heap_from lt 0 h \<Longrightarrow> heap_from lt 0 (fold (prio_add_request lt) rs h)"
  by (induction rs arbitrary: h) (simp_all add: heappush_heap)

lemma intact_pop_iter:
  assumes "q_intact lt q" "q_iter lt q = r # rs"
  shows "\<exists>q'. q_pop_request lt q = Inr (r, q') \<and> q_peek_request q = Inr r \<and> q_iter lt q' = rs \<and>
           q_intact lt q'"
proof (cases q)
  case (FCFSRequestQueue d)
  then show ?thesis using assms by simp
next
  case (PriorityRequestQueue h)
  then have "h \<noteq> []" using assms(2) by auto
  then obtain h' where p: "heappop lt h = Inr (h ! 0, h')" using heappop_total by blast
  show ?thesis
    using assms PriorityRequestQueue \<open>h \<noteq> []\<close> p heap_drain_pop [OF p] heappop_heap(1) [OF _ p] by simp
qed

end

sublocale strict_weak_order \<subseteq> queue_order "q_add_request lt" "q_prepend_request lt" "q_prepend_requests lt"
  "q_pop_request lt" q_peek_request "q_remove_request lt" "q_remove_requests lt" "q_iter lt" "q_intact lt"
proof
  fix q :: "'a request_queue"
  assume "q_iter lt q = []"
  then have "q_contents q = {#}" using mset_q_iter [of lt q] by simp
  then show "q_pop_request lt q = Inl IndexError" using bag.pop_empty by blast
next
  fix p q :: "'a request_queue"
  assume "q_intact lt q"
  then show "q_intact lt (q_prepend_requests lt p q)"
    using heap_push_all by (cases q) simp_all
next
  fix r q q'
  assume "q_remove_request lt r q = Inr q'"
  then show "q_intact lt q'" by (cases q) (auto simp: heapify_heap split: if_splits)
next
  fix r :: 'a and q :: "'a request_queue"
  assume "q_intact lt q"
  then show "q_intact lt (q_prepend_request lt r q)" by (cases q) (simp_all add: heappush_heap)
next
  fix rs and q :: "'a request_queue"
  show "q_intact lt (q_remove_requests lt rs q)" by (cases q) (simp_all add: heapify_heap)
qed (rule heap_intact_add, assumption, rule intact_pop_iter, assumption+)

context strict_weak_order
begin

lemma reach_intact: "queue_reach lt policy q \<Longrightarrow> q_intact lt q"
proof (induction rule: queue_reach.induct)
  case reach_create
  then show ?case by (cases policy) (simp_all add: heap_from_def)
next
  case (reach_pop q r q')
  then show ?case using pop_hd by blast
qed (auto intro: intact_add intact_prepend intact_prepend_all intact_remove intact_remove_many)

lemma reach_sorted:
  assumes "queue_reach lt PRIORITY q"
  shows "sorted_wrt (\<lambda>a b. \<not> lt b a) (q_iter lt q)"
proof (cases q)
  case (PriorityRequestQueue h)
  then show ?thesis using reach_intact [OF assms] heap_drain_sorted by simp
next
  case (FCFSRequestQueue d)
  then show ?thesis using q_reach_policy [OF assms] by simp
qed

end

section \<open>The order of requests\<close>

text \<open>\<^verbatim>\<open>Request.__lt__\<close> compares priority, arrival time, request id and address lexicographically.\<close>

definition request_key :: "request \<Rightarrow> int \<times> int \<times> req_id" where
  "request_key r = (priority r, arrival_time r, request_id r)"

lemma request_lt_key:
  "request_lt addr a b \<longleftrightarrow> request_key a < request_key b \<or> request_key a = request_key b \<and> addr a < addr b"
  by (auto simp: request_lt_def request_key_def less_prod_def)

interpretation req: strict_weak_order "request_lt addr" for addr
proof
  show "request_lt addr a b \<Longrightarrow> \<not> request_lt addr b a" for a b
    by (auto simp: request_lt_key)
  show "\<not> request_lt addr a b \<Longrightarrow> \<not> request_lt addr b c \<Longrightarrow> \<not> request_lt addr a c" for a b c
    unfolding request_lt_key by (metis linorder_less_linear order_less_trans)
qed

section \<open>Properties\<close>

text \<open>C12 (priority_queue_is_sort): In every state the priority queue can reach, with requests of
  pairwise different ids, iterating it lists them sorted by priority, then arrival time, then id,
  and popping returns the first of this list and leaves a queue that iterates the rest; it raises
  IndexError exactly when the queue is empty.\<close>

theorem priority_queue_is_sort:
  assumes "queue_reach (request_lt addr) PRIORITY q" "mset rs = q_contents q" "distinct (map request_id rs)"
  shows "q_iter (request_lt addr) q = sort_key request_key rs \<and>
         (case sort_key request_key rs of
            [] \<Rightarrow> q_pop_request (request_lt addr) q = Inl IndexError
          | r # rest \<Rightarrow> \<exists>q'. q_pop_request (request_lt addr) q = Inr (r, q') \<and>
              q_peek_request q = Inr r \<and> q_iter (request_lt addr) q' = rest)"
proof -
  let ?it = "q_iter (request_lt addr) q"
  have "sorted_wrt (\<lambda>a b. \<not> request_lt addr b a) ?it" by (rule req.reach_sorted [OF assms(1)])
  then have "sorted_wrt (\<lambda>a b. request_key a \<le> request_key b) ?it"
    by (rule sorted_wrt_mono_rel [rotated]) (auto simp: request_lt_key)
  then have s: "sorted (map request_key ?it)" by (simp add: sorted_wrt_map)
  have "inj_on request_key (set rs)"
    using assms(3) by (auto simp: inj_on_def distinct_map request_key_def)
  then have it: "?it = sort_key request_key rs"
    using sort_key_inj_key_eq [of rs ?it request_key] s assms(2) by simp
  show ?thesis
  proof (cases ?it)
    case Nil
    then show ?thesis using it req.pop_none by simp
  next
    case (Cons r rest)
    then show ?thesis
      using it req.pop_iter [OF req.reach_intact [OF assms(1)] Cons] by auto
  qed
qed

text \<open>The scheduler moves the requests it has to skip to a fresh
  queue by prepending them one by one, and prepends this queue to the skipped requests of earlier
  steps. Under the first-come-first-served policy the two reversals cancel: the requests skipped
  in this pass come first, in the order in which they were met.\<close>

theorem skipped_requests_keep_order:
  "q_iter lt (q_prepend_requests lt (fold (q_prepend_request lt) rs (create_request_queue FCFS))
     (FCFSRequestQueue older)) = rs @ older"
proof -
  have "fold (q_prepend_request lt) rs (FCFSRequestQueue d) = FCFSRequestQueue (rev rs @ d)" for d
    by (induction rs arbitrary: d) simp_all
  moreover have "fold (#) xs d = rev xs @ d" for xs d :: "'a list"
    by (induction xs arbitrary: d) simp_all
  ultimately show ?thesis by simp
qed

theorem priority_queue_is_sort_witness:
  "\<exists>q'. q_pop_request (request_lt (\<lambda>_. 0))
     (q_add_request (request_lt (\<lambda>_. 0)) ((plain_request ''b'' [] 1)\<lparr>priority := 1\<rparr>)
       (q_add_request (request_lt (\<lambda>_. 0)) ((plain_request ''a'' [] 1)\<lparr>priority := 2\<rparr>)
         (create_request_queue PRIORITY))) = Inr ((plain_request ''b'' [] 1)\<lparr>priority := 1\<rparr>, q')"
proof -
  let ?a = "(plain_request ''a'' [] 1)\<lparr>priority := 2\<rparr>" and ?b = "(plain_request ''b'' [] 1)\<lparr>priority := 1\<rparr>"
  let ?lt = "request_lt (\<lambda>_. 0)"
  let ?q = "q_add_request ?lt ?b (q_add_request ?lt ?a (create_request_queue PRIORITY))"
  have "queue_reach ?lt PRIORITY ?q" by (intro queue_reach.intros)
  moreover have "mset [?a, ?b] = q_contents ?q" by (simp add: bag.contents_add)
  moreover have "distinct (map request_id [?a, ?b])" by (simp add: plain_request_def)
  moreover have "sort_key request_key [?a, ?b] = [?b, ?a]"
    by (simp add: request_key_def plain_request_def)
  ultimately show ?thesis using priority_queue_is_sort [of "\<lambda>_. 0" ?q "[?a, ?b]"] by auto
qed

end
