(* ===== verification/Result_Logic.thy ===== *)
theory Result_Logic
  imports Prelude
begin

text \<open>
  Two predicates on results for reasoning backwards through the error monad. \<^verbatim>\<open>okE P m\<close> says that
  \<^verbatim>\<open>m\<close> satisfies \<^verbatim>\<open>P\<close> if it does not raise, \<^verbatim>\<open>totE P m\<close> that it does not raise and satisfies \<^verbatim>\<open>P\<close>.
  The rules push them through the constructs of the monad; calls are discharged with the
  consequence rules.
\<close>

named_theorems res_wp \<open>weakest preconditions of the error monad\<close>

definition okE :: "('a \<Rightarrow> bool) \<Rightarrow> 'a res \<Rightarrow> bool" where
  "okE P m \<longleftrightarrow> (\<forall>x. m = Inr x \<longrightarrow> P x)"

definition totE :: "('a \<Rightarrow> bool) \<Rightarrow> 'a res \<Rightarrow> bool" where
  "totE P m \<longleftrightarrow> (\<exists>x. m = Inr x \<and> P x)"

lemma okE_simps [simp, res_wp]:
  "okE P (Inl e)" "okE P (Inr x) \<longleftrightarrow> P x"
  "okE P (bindE m f) \<longleftrightarrow> okE (\<lambda>x. okE P (f x)) m"
  "okE P (assertE b k) \<longleftrightarrow> (b \<longrightarrow> okE P k)"
  by (auto simp: okE_def)

lemma totE_simps [simp, res_wp]:
  "\<not> totE P (Inl e)" "totE P (Inr x) \<longleftrightarrow> P x"
  "totE P (bindE m f) \<longleftrightarrow> totE (\<lambda>x. totE P (f x)) m"
  "totE P (assertE b k) \<longleftrightarrow> b \<and> totE P k"
  by (auto simp: totE_def)

lemma okE_if [res_wp]: "okE P (if b then m else n) \<longleftrightarrow> (if b then okE P m else okE P n)"
  by simp

lemma okE_option [res_wp]:
  "okE P (case x of None \<Rightarrow> m | Some y \<Rightarrow> f y) \<longleftrightarrow> (case x of None \<Rightarrow> okE P m | Some y \<Rightarrow> okE P (f y))"
  by (simp split: option.splits)

lemma okE_prod [res_wp]: "okE P (case x of (a, b) \<Rightarrow> f a b) \<longleftrightarrow> (case x of (a, b) \<Rightarrow> okE P (f a b))"
  by (simp split: prod.splits)

lemma okED: "okE P m \<Longrightarrow> m = Inr x \<Longrightarrow> P x"
  by (simp add: okE_def)

lemma okEI: "(\<And>x. m = Inr x \<Longrightarrow> P x) \<Longrightarrow> okE P m"
  by (simp add: okE_def)

lemma okE_conseq: "okE Q m \<Longrightarrow> (\<And>x. m = Inr x \<Longrightarrow> Q x \<Longrightarrow> P x) \<Longrightarrow> okE P m"
  by (simp add: okE_def)

lemma okE_call: "(\<And>x. m = Inr x \<Longrightarrow> Q x) \<Longrightarrow> (\<And>x. m = Inr x \<Longrightarrow> Q x \<Longrightarrow> P x) \<Longrightarrow> okE P m"
  by (simp add: okE_def)

lemma totE_conseq: "totE Q m \<Longrightarrow> (\<And>x. m = Inr x \<Longrightarrow> Q x \<Longrightarrow> P x) \<Longrightarrow> totE P m"
  by (auto simp: totE_def)

lemma okE_foldE:
  assumes "P s" "\<And>x s. x \<in> set xs \<Longrightarrow> P s \<Longrightarrow> okE P (f x s)"
  shows "okE P (foldE f xs s)"
  using assms
proof (induction xs arbitrary: s)
  case (Cons x xs)
  show ?case
    using Cons.prems Cons.IH by (auto intro: okE_conseq [OF Cons.prems(2)])
qed simp

end
