(* ===== verification/Sched_State.thy ===== *)
theory Sched_State
  imports KV_Manager Encoder_Cache Request_Queue Result_Logic
begin

text \<open>
  The state of the scheduler of src/vllm/v1/core/sched/scheduler.py and the operations its two main
  methods share: enqueueing, preempting, freeing and finishing requests, the encoder inputs of a
  request, and the transfers of the KV connector.

  Request objects are shared between the dictionary \<^verbatim>\<open>self.requests\<close> and the queues. In the model the
  dictionary is the store and the queues hold request ids; an object that has left the dictionary is
  never reached through a queue again. The connectors, the grammar compiler and the enumeration order
  of Python sets are not part of the scheduler: they are the environment, a record of functions on an
  environment state of any type that the scheduler hands on. Statistics, event logs and timestamps
  are left out.
\<close>

section \<open>Configuration and environment\<close>

datatype pause_state = UNPAUSED | PAUSED_NEW | PAUSED_ALL

record sched_config =
  sc_policy :: scheduling_policy
  sc_max_num_running_reqs :: int
  sc_max_num_scheduled_tokens :: int
  sc_max_model_len :: int
  sc_long_prefill_token_threshold :: int
  sc_enable_chunked_prefill :: bool
  sc_disable_chunked_mm_input :: bool
  sc_async_scheduling :: bool
  sc_use_pp :: bool
  sc_use_v2_model_runner :: bool
  sc_reserve_full_isl :: bool
  sc_use_eagle :: bool
  sc_num_spec_tokens :: int
  sc_num_lookahead_tokens :: int
  sc_need_mamba_block_aligned_split :: bool
  sc_cache_block_size :: int
  sc_block_size :: int
  sc_is_encoder_decoder :: bool
  sc_max_num_encoder_input_tokens :: int
  sc_max_loras :: "int option"
  sc_needs_kv_cache_zeroing :: bool
  sc_recompute_kv_load_failures :: bool
  sc_block_hasher :: "block_hasher option"

record 'c connector =
  cn_get_num_new_matched_tokens :: "'c \<Rightarrow> request \<Rightarrow> int \<Rightarrow> (int option \<times> bool) \<times> 'c"
  cn_update_state_after_alloc :: "'c \<Rightarrow> request \<Rightarrow> kv_cache_blocks \<Rightarrow> int \<Rightarrow> 'c"
  cn_request_finished :: "'c \<Rightarrow> request \<Rightarrow> int list list \<Rightarrow> bool \<times> 'c"
  cn_supports_hma :: bool
  cn_build_connector_meta :: "'c \<Rightarrow> 'c"
  cn_update_connector_output :: "'c \<Rightarrow> 'c"
  cn_reset_cache :: "'c \<Rightarrow> bool \<times> 'c"

record 'c sched_env =
  en_connector :: "'c connector option"
  en_ec_has_cache_item :: "('c \<Rightarrow> string \<Rightarrow> bool) option"
  en_ec_update_state_after_alloc :: "'c \<Rightarrow> request \<Rightarrow> int \<Rightarrow> 'c"
  en_grammar_ready :: "'c \<Rightarrow> request \<Rightarrow> bool"
  en_should_advance :: "'c \<Rightarrow> request \<Rightarrow> bool"
  en_validate_tokens :: "'c \<Rightarrow> request \<Rightarrow> token list \<Rightarrow> token list"
  en_order :: "int set \<Rightarrow> int list"
  en_req_order :: "req_id set \<Rightarrow> req_id list"

section \<open>The encoder cache manager in use\<close>

datatype enc_manager = MMCache encoder_cache | EncDecCache encdec_cache

fun em_reset :: "enc_manager \<Rightarrow> enc_manager" where
  "em_reset (MMCache e) = MMCache (enc_reset e)"
| "em_reset (EncDecCache e) = EncDecCache (ed_reset e)"

fun em_check :: "request \<Rightarrow> int \<Rightarrow> enc_manager \<Rightarrow> (bool \<times> enc_manager) res" where
  "em_check r i (MMCache e) = bindE (check_and_update_cache r i e) (\<lambda>(b, e'). Inr (b, MMCache e'))"
| "em_check r i (EncDecCache e) =
     (let (b, e') = ed_check_and_update_cache r i e in Inr (b, EncDecCache e'))"

fun em_can_allocate :: "request \<Rightarrow> int \<Rightarrow> int \<Rightarrow> int \<Rightarrow> enc_manager \<Rightarrow> (bool \<times> enc_manager) res" where
  "em_can_allocate r i budget n (MMCache e) =
     bindE (can_allocate r i budget n e) (\<lambda>(b, e'). Inr (b, MMCache e'))"
| "em_can_allocate r i budget n (EncDecCache e) =
     bindE (ed_can_allocate r i budget n e) (\<lambda>b. Inr (b, EncDecCache e))"

fun em_allocate :: "request \<Rightarrow> int \<Rightarrow> enc_manager \<Rightarrow> enc_manager res" where
  "em_allocate r i (MMCache e) = bindE (enc_allocate r i e) (\<lambda>e'. Inr (MMCache e'))"
| "em_allocate r i (EncDecCache e) = bindE (ed_allocate r i e) (\<lambda>e'. Inr (EncDecCache e'))"

fun em_cached_ids :: "request \<Rightarrow> enc_manager \<Rightarrow> int set" where
  "em_cached_ids r (MMCache e) = get_cached_input_ids r e"
| "em_cached_ids r (EncDecCache e) = ed_get_cached_input_ids r"

fun em_free_input :: "request \<Rightarrow> int \<Rightarrow> enc_manager \<Rightarrow> enc_manager res" where
  "em_free_input r i (MMCache e) = bindE (free_encoder_input r i e) (\<lambda>e'. Inr (MMCache e'))"
| "em_free_input r i (EncDecCache e) = bindE (ed_free_encoder_input r i e) (\<lambda>e'. Inr (EncDecCache e'))"

fun em_free :: "(int set \<Rightarrow> int list) \<Rightarrow> request \<Rightarrow> enc_manager \<Rightarrow> enc_manager res" where
  "em_free order r (MMCache e) = bindE (enc_free order r e) (\<lambda>e'. Inr (MMCache e'))"
| "em_free order r (EncDecCache e) = bindE (ed_free r e) (\<lambda>e'. Inr (EncDecCache e'))"

fun em_get_freed :: "enc_manager \<Rightarrow> string list \<times> enc_manager" where
  "em_get_freed (MMCache e) = (let (hs, e') = get_freed_mm_hashes e in (hs, MMCache e'))"
| "em_get_freed (EncDecCache e) = (let (hs, e') = ed_get_freed_mm_hashes e in (hs, EncDecCache e'))"

section \<open>State\<close>

record 'c scheduler =
  reqs :: "req_id \<rightharpoonup> request"
  waiting :: "req_id request_queue"
  skipped_waiting :: "req_id request_queue"
  running :: "req_id list"
  finished_req_ids :: "req_id set"
  finished_req_ids_dict :: "(int \<rightharpoonup> req_id set) option"
  num_waiting_for_streaming_input :: int
  finished_recving_kv_req_ids :: "req_id set"
  failed_recving_kv_req_ids :: "req_id set"
  prev_step_scheduled_req_ids :: "req_id set"
  enc :: enc_manager
  kv :: kv_manager
  pause :: pause_state
  envst :: 'c

definition init_scheduler ::
  "sched_config \<Rightarrow> kv_manager \<Rightarrow> int \<Rightarrow> bool \<Rightarrow> 'c \<Rightarrow> 'c scheduler" where
  "init_scheduler cfg k enc_size include_finished c =
     \<lparr>reqs = Map.empty, waiting = create_request_queue (sc_policy cfg),
      skipped_waiting = create_request_queue (sc_policy cfg), running = [],
      finished_req_ids = {},
      finished_req_ids_dict = (if include_finished then Some Map.empty else None),
      num_waiting_for_streaming_input = 0, finished_recving_kv_req_ids = {},
      failed_recving_kv_req_ids = {}, prev_step_scheduled_req_ids = {},
      enc = (if sc_is_encoder_decoder cfg then EncDecCache (init_encdec_cache enc_size)
             else MMCache (init_encoder_cache enc_size)),
      kv = k, pause = UNPAUSED, envst = c\<rparr>"

definition lookup :: "req_id \<Rightarrow> 'c scheduler \<Rightarrow> request res" where
  "lookup q s = (case reqs s q of None \<Rightarrow> Inl KeyError | Some r \<Rightarrow> Inr r)"

definition put :: "request \<Rightarrow> 'c scheduler \<Rightarrow> 'c scheduler" where
  "put r s = s\<lparr>reqs := (reqs s)(request_id r \<mapsto> r)\<rparr>"

text \<open>The comparison of queue entries is the comparison of the requests they refer to.\<close>

definition id_lt :: "(req_id \<rightharpoonup> request) \<Rightarrow> req_id \<Rightarrow> req_id \<Rightarrow> bool" where
  "id_lt m a b = request_lt (\<lambda>_. 0) (the (m a)) (the (m b))"

abbreviation req_lt :: "'c scheduler \<Rightarrow> req_id \<Rightarrow> req_id \<Rightarrow> bool" where
  "req_lt s \<equiv> id_lt (reqs s)"

interpretation ids: strict_weak_order "id_lt m" for m
proof
  show "id_lt m a b \<Longrightarrow> \<not> id_lt m b a" for a b
    unfolding id_lt_def by (rule req.asym)
  show "\<not> id_lt m a b \<Longrightarrow> \<not> id_lt m b c \<Longrightarrow> \<not> id_lt m a c" for a b c
    unfolding id_lt_def by (rule req.ntrans)
qed

definition has_encoder_inputs :: "request \<Rightarrow> bool" where
  "has_encoder_inputs r \<longleftrightarrow> mm_features r \<noteq> []"

section \<open>Queues and statuses\<close>

definition is_blocked_waiting_status :: "request_status \<Rightarrow> bool" where
  "is_blocked_waiting_status st \<longleftrightarrow>
     st \<in> {WAITING_FOR_STRUCTURED_OUTPUT_GRAMMAR, WAITING_FOR_REMOTE_KVS, WAITING_FOR_STREAMING_REQ}"

definition enqueue_waiting_request :: "request \<Rightarrow> 'c scheduler \<Rightarrow> 'c scheduler" where
  "enqueue_waiting_request r s =
     (if is_blocked_waiting_status (status r)
      then s\<lparr>skipped_waiting := q_add_request (req_lt s) (request_id r) (skipped_waiting s)\<rparr>
      else s\<lparr>waiting := q_add_request (req_lt s) (request_id r) (waiting s)\<rparr>)"

text \<open>Which of the two queues is scheduled from.\<close>

datatype which_queue = Waiting | Skipped

definition select_waiting_queue :: "sched_config \<Rightarrow> 'c scheduler \<Rightarrow> which_queue option res" where
  "select_waiting_queue cfg s =
     (if sc_policy cfg = FCFS
      then Inr (if q_bool (skipped_waiting s) then Some Skipped
                else if q_bool (waiting s) then Some Waiting else None)
      else if q_bool (waiting s) \<and> q_bool (skipped_waiting s)
      then bindE (q_peek_request (waiting s)) (\<lambda>w.
           bindE (q_peek_request (skipped_waiting s)) (\<lambda>k.
             Inr (Some (if req_lt s w k then Waiting else Skipped))))
      else Inr (if q_bool (waiting s) then Some Waiting
                else if q_bool (skipped_waiting s) then Some Skipped else None))"

fun get_queue :: "which_queue \<Rightarrow> 'c scheduler \<Rightarrow> req_id request_queue" where
  "get_queue Waiting s = waiting s"
| "get_queue Skipped s = skipped_waiting s"

fun set_queue :: "which_queue \<Rightarrow> req_id request_queue \<Rightarrow> 'c scheduler \<Rightarrow> 'c scheduler" where
  "set_queue Waiting q s = s\<lparr>waiting := q\<rparr>"
| "set_queue Skipped q s = s\<lparr>skipped_waiting := q\<rparr>"

definition preempt_request :: "'c sched_env \<Rightarrow> req_id \<Rightarrow> 'c scheduler \<Rightarrow> 'c scheduler res" where
  "preempt_request env q s =
     bindE (lookup q s) (\<lambda>r.
     assertE (status r = RUNNING)
       (bindE (kv_free r (kv s)) (\<lambda>k.
        bindE (em_free (en_order env) r (enc s)) (\<lambda>e.
          let r' = r\<lparr>status := PREEMPTED, num_computed_tokens := 0, spec_token_ids := [],
                     num_preemptions := num_preemptions r + 1\<rparr>;
              s' = put r' (s\<lparr>kv := k, enc := e\<rparr>)
          in Inr (s'\<lparr>waiting := q_prepend_request (req_lt s') q (waiting s')\<rparr>)))))"

section \<open>Finishing\<close>

definition free_blocks_of :: "request \<Rightarrow> 'c scheduler \<Rightarrow> 'c scheduler res" where
  "free_blocks_of r s =
     assertE (is_finished r)
       (bindE (kv_free r (kv s)) (\<lambda>k.
          if reqs s (request_id r) = None then Inl KeyError
          else Inr (s\<lparr>kv := k, reqs := (reqs s)(request_id r := None)\<rparr>)))"

definition connector_finished :: "'c sched_env \<Rightarrow> request \<Rightarrow> 'c scheduler \<Rightarrow> (bool \<times> 'c scheduler) res" where
  "connector_finished env r s =
     (case en_connector env of
        None \<Rightarrow> Inr (False, s)
      | Some cn \<Rightarrow>
          bindE (kv_remove_skipped_blocks (request_id r) (num_tokens r) (kv s)) (\<lambda>k.
          let ids = kv_get_block_ids (request_id r) k in
          assertE (cn_supports_hma cn \<or> num_kv_cache_groups k = 1)
            (let (delay, c) = cn_request_finished cn (envst s) r ids
             in Inr (delay, s\<lparr>kv := k, envst := c\<rparr>))))"

definition note_finished :: "request \<Rightarrow> 'c scheduler \<Rightarrow> 'c scheduler" where
  "note_finished r s =
     s\<lparr>finished_req_ids := insert (request_id r) (finished_req_ids s),
       finished_req_ids_dict :=
         map_option
           (\<lambda>d. d(client_index r \<mapsto>
                 insert (request_id r) (case d (client_index r) of None \<Rightarrow> {} | Some x \<Rightarrow> x)))
           (finished_req_ids_dict s)\<rparr>"

definition free_request :: "'c sched_env \<Rightarrow> request \<Rightarrow> bool \<Rightarrow> 'c scheduler \<Rightarrow> 'c scheduler res" where
  "free_request env r delay s =
     assertE (is_finished r)
       (bindE (connector_finished env r s) (\<lambda>(cdelay, s1).
        bindE (em_free (en_order env) r (enc s1)) (\<lambda>e.
          let s2 = note_finished r (s1\<lparr>enc := e\<rparr>) in
          if delay \<or> cdelay then Inr s2 else free_blocks_of r s2)))"

text \<open>\<^verbatim>\<open>finish_requests\<close>. The first pass collects, the queues are filtered at once, the second pass frees.
  The ids come in the order in which the interpreter enumerates them.\<close>

definition valid_to_finish :: "req_id list \<Rightarrow> 'c scheduler \<Rightarrow> req_id list" where
  "valid_to_finish ids s =
     filter (\<lambda>q. case reqs s q of None \<Rightarrow> False | Some r \<Rightarrow> \<not> is_finished r) ids"

definition has_status :: "request_status \<Rightarrow> 'c scheduler \<Rightarrow> req_id \<Rightarrow> bool" where
  "has_status st s q \<longleftrightarrow> (case reqs s q of None \<Rightarrow> False | Some r \<Rightarrow> status r = st)"

definition finish_one :: "'c sched_env \<Rightarrow> request_status \<Rightarrow> req_id \<Rightarrow> 'c scheduler \<Rightarrow> 'c scheduler res" where
  "finish_one env st q s =
     bindE (lookup q s) (\<lambda>r.
       let remote = (status r = WAITING_FOR_REMOTE_KVS);
           delay = (remote \<and> q \<notin> finished_recving_kv_req_ids s);
           s1 = (if remote
                 then s\<lparr>finished_recving_kv_req_ids := finished_recving_kv_req_ids s - {q},
                        failed_recving_kv_req_ids := failed_recving_kv_req_ids s - {q}\<rparr>
                 else s);
           r' = r\<lparr>status := st\<rparr>
       in free_request env r' delay (put r' s1))"

definition finish_requests ::
  "'c sched_env \<Rightarrow> req_id list \<Rightarrow> request_status \<Rightarrow> 'c scheduler \<Rightarrow> ((req_id \<times> int) list \<times> 'c scheduler) res" where
  "finish_requests env ids st s =
     assertE (is_finished_status st)
       (let valid = valid_to_finish (remdups ids) s;
            run = filter (has_status RUNNING s) valid;
            wait = filter (\<lambda>q. \<not> has_status RUNNING s q) valid;
            nstream = int (length (filter (has_status WAITING_FOR_STREAMING_REQ s) wait));
            s1 = s\<lparr>num_waiting_for_streaming_input := num_waiting_for_streaming_input s - nstream\<rparr>;
            s2 = (if run = [] then s1 else s1\<lparr>running := remove_all (running s1) run\<rparr>);
            s3 = (if wait = [] then s2
                  else s2\<lparr>waiting := q_remove_requests (req_lt s2) wait (waiting s2),
                          skipped_waiting := q_remove_requests (req_lt s2) wait (skipped_waiting s2)\<rparr>)
        in bindE (foldE (finish_one env st) valid s3) (\<lambda>s4.
             Inr (map (\<lambda>q. (q, client_index (the (reqs s q)))) valid, s4)))"

section \<open>Streaming sessions\<close>

definition update_request_as_session ::
  "sched_config \<Rightarrow> request \<Rightarrow> streaming_update \<Rightarrow> 'c scheduler \<Rightarrow> (request \<times> 'c scheduler) res" where
  "update_request_as_session cfg r u s =
     (let n = num_computed_tokens r;
          kept = py_slice (all_token_ids r) (num_prompt_tokens r) n;
          toks = py_upto (all_token_ids r) n;
          add = (case su_prompt_token_ids u of Some t \<Rightarrow> t | None \<Rightarrow> []);
          base = int (length toks);
          mms = (case su_mm_features u of
                   None \<Rightarrow> []
                 | Some fs \<Rightarrow> map (\<lambda>f. f\<lparr>mm_position := (mm_position f)
                                         \<lparr>pr_offset := pr_offset (mm_position f) + base\<rparr>\<rparr>) fs)
      in case prompt_token_ids r of
           None \<Rightarrow> Inl AssertionError
         | Some prompt \<Rightarrow>
             let prompt' = prompt @ kept @ add in
             bindE (update_block_hashes (sc_block_hasher cfg)
               (r\<lparr>all_token_ids := toks @ add, output_token_ids := [], prompt_token_ids := Some prompt',
                  mm_features := mm_features r @ mms\<rparr>)) (\<lambda>r1.
             let r2 = r1\<lparr>num_prompt_tokens := int (length prompt'), arrival_time := su_arrival_time u,
                         sampling := su_sampling_params u, status := WAITING\<rparr>;
                 s' = (if status r = WAITING_FOR_STREAMING_REQ
                       then s\<lparr>num_waiting_for_streaming_input := num_waiting_for_streaming_input s - 1\<rparr>
                       else s)
             in Inr (r2, put r2 s')))"

definition handle_stopped_request ::
  "sched_config \<Rightarrow> request \<Rightarrow> 'c scheduler \<Rightarrow> (bool \<times> request \<times> 'c scheduler) res" where
  "handle_stopped_request cfg r s =
     (if \<not> resumable r then Inr (True, r, s)
      else case streaming_queue r of
        Some (u # us) \<Rightarrow>
          let r1 = r\<lparr>streaming_queue := Some us\<rparr> in
          (case u of
             None \<Rightarrow> Inr (True, r1, put r1 s)
           | Some up \<Rightarrow>
               bindE (update_request_as_session cfg r1 up (put r1 s)) (\<lambda>(r2, s2).
                 Inr (False, r2, enqueue_waiting_request r2 s2)))
      | _ \<Rightarrow>
          let r1 = r\<lparr>status := WAITING_FOR_STREAMING_REQ\<rparr>;
              s1 = put r1 (s\<lparr>num_waiting_for_streaming_input := num_waiting_for_streaming_input s + 1\<rparr>)
          in Inr (False, r1, enqueue_waiting_request r1 s1))"

definition sched_add_request ::
  "sched_config \<Rightarrow> 'c sched_env \<Rightarrow> request \<Rightarrow> 'c scheduler \<Rightarrow> 'c scheduler res" where
  "sched_add_request cfg env r s =
     (case reqs s (request_id r) of
        Some ex \<Rightarrow>
          let u = streaming_update_from_request r in
          if status ex \<noteq> WAITING_FOR_STREAMING_REQ
          then (case streaming_queue ex of
                  None \<Rightarrow> Inl AssertionError
                | Some us \<Rightarrow> Inr (put (ex\<lparr>streaming_queue := Some (us @ [u])\<rparr>) s))
          else (case u of
                  Some up \<Rightarrow> bindE (update_request_as_session cfg ex up s) (\<lambda>(_, s'). Inr s')
                | None \<Rightarrow> bindE (finish_requests env [request_id r] FINISHED_ABORTED s) (\<lambda>(_, s'). Inr s'))
      | None \<Rightarrow>
          let r1 = (if resumable r then r\<lparr>streaming_queue := Some []\<rparr> else r)
          in Inr (enqueue_waiting_request r1 (put r1 s)))"

section \<open>Waiting for remote KV blocks and grammars\<close>

definition update_waiting_for_remote_kv ::
  "'c sched_env \<Rightarrow> request \<Rightarrow> 'c scheduler \<Rightarrow> (request \<times> 'c scheduler) res" where
  "update_waiting_for_remote_kv env r s =
     assertE (en_connector env \<noteq> None)
       (let q = request_id r in
        bindE
          (if q \<in> failed_recving_kv_req_ids s
           then bindE (if num_computed_tokens r \<noteq> 0
                       then kv_cache_blocks_of r (num_computed_tokens r) (kv s)
                       else bindE (kv_free r (kv s)) (\<lambda>k. Inr (r, k))) (\<lambda>(r1, k).
                Inr (r1, s\<lparr>kv := k, failed_recving_kv_req_ids := failed_recving_kv_req_ids s - {q}\<rparr>))
           else bindE (kv_cache_blocks_of r (num_computed_tokens r) (kv s)) (\<lambda>(r1, k).
                let r2 = (if num_computed_tokens r1 = num_tokens r1
                          then r1\<lparr>num_computed_tokens := num_tokens r1 - 1\<rparr> else r1);
                    r3 = (if num_cached_tokens r2 < 0
                          then r2\<lparr>num_cached_tokens := num_computed_tokens r2\<rparr> else r2)
                in Inr (r3, s\<lparr>kv := k\<rparr>))) (\<lambda>(r', s').
        if q \<notin> finished_recving_kv_req_ids s' then Inl KeyError
        else Inr (r', put r' (s'\<lparr>finished_recving_kv_req_ids := finished_recving_kv_req_ids s' - {q}\<rparr>))))"

definition try_promote_blocked_waiting_request ::
  "'c sched_env \<Rightarrow> request \<Rightarrow> 'c scheduler \<Rightarrow> (bool \<times> request \<times> 'c scheduler) res" where
  "try_promote_blocked_waiting_request env r s =
     (case status r of
        WAITING_FOR_REMOTE_KVS \<Rightarrow>
          if request_id r \<notin> finished_recving_kv_req_ids s then Inr (False, r, s)
          else bindE (update_waiting_for_remote_kv env r s) (\<lambda>(r1, s1).
               let r2 = r1\<lparr>status := (if num_preemptions r1 \<noteq> 0 then PREEMPTED else WAITING)\<rparr>
               in Inr (True, r2, put r2 s1))
      | WAITING_FOR_STRUCTURED_OUTPUT_GRAMMAR \<Rightarrow>
          if \<not> (structured_output r \<and> en_grammar_ready env (envst s) r) then Inr (False, r, s)
          else let r1 = r\<lparr>status := WAITING\<rparr> in Inr (True, r1, put r1 s)
      | WAITING_FOR_STREAMING_REQ \<Rightarrow>
          assertE (streaming_queue r = None \<or> streaming_queue r = Some []) (Inr (False, r, s))
      | _ \<Rightarrow> Inl AssertionError)"

section \<open>Encoder inputs of a request\<close>

definition free_encoder_inputs :: "sched_config \<Rightarrow> 'c sched_env \<Rightarrow> request \<Rightarrow> 'c scheduler \<Rightarrow> 'c scheduler res" where
  "free_encoder_inputs cfg env r s =
     bindE
       (foldE (\<lambda>i e.
          bindE (py_get (mm_features r) i) (\<lambda>f.
            if sc_is_encoder_decoder cfg \<and> num_computed_tokens r > 0 then em_free_input r i e
            else if pr_offset (mm_position f) + pr_length (mm_position f) \<le> num_computed_tokens r
            then em_free_input r i e
            else Inr e))
          (en_order env (em_cached_ids r (enc s))) (enc s))
       (\<lambda>e. Inr (s\<lparr>enc := e\<rparr>))"

text \<open>The loop of \<^verbatim>\<open>_try_schedule_encoder_inputs\<close> over the numbered inputs. Its local state: the number of
  new tokens, the compute budget, the hashes and the number of embeddings planned, and the inputs to
  compute and to load.\<close>

record enc_plan =
  ep_num_new :: int
  ep_budget :: int
  ep_hashes :: "string set"
  ep_num_embeds :: int
  ep_schedule :: "int list"
  ep_external :: "int list"

fun encoder_input_loop ::
  "sched_config \<Rightarrow> 'c sched_env \<Rightarrow> 'c \<Rightarrow> request \<Rightarrow> int \<Rightarrow> int \<Rightarrow> (int \<times> mm_feature) list \<Rightarrow> enc_plan \<Rightarrow>
   enc_manager \<Rightarrow> (enc_plan \<times> enc_manager) res" where
  "encoder_input_loop cfg env c r ncomp shift [] p e = Inr (p, e)"
| "encoder_input_loop cfg env c r ncomp shift ((i, f) # fs) p e =
     (let pos = mm_position f; start = pr_offset pos; ntok = pr_length pos; h = mm_identifier f in
      bindE (get_num_embeds pos) (\<lambda>nemb.
      if start \<ge> ncomp + ep_num_new p + shift then Inr (p, e)
      else if sc_is_encoder_decoder cfg \<and> ncomp > 0
      then assertE (start = 0) (encoder_input_loop cfg env c r ncomp shift fs p e)
      else if start + ntok \<le> ncomp then encoder_input_loop cfg env c r ncomp shift fs p e
      else if \<not> sc_is_encoder_decoder cfg \<and> h \<in> ep_hashes p
      then encoder_input_loop cfg env c r ncomp shift fs p e
      else
        bindE (if \<not> sc_is_encoder_decoder cfg then em_check r i e else Inr (False, e)) (\<lambda>(hit, e1).
        if hit then encoder_input_loop cfg env c r ncomp shift fs p e1
        else if sc_disable_chunked_mm_input cfg \<and> ncomp < start \<and> ncomp + ep_num_new p < start + ntok
        then Inr (p\<lparr>ep_num_new := max 0 (start - (ncomp + shift))\<rparr>, e1)
        else
          bindE (em_can_allocate r i (ep_budget p) (ep_num_embeds p) e1) (\<lambda>(ok, e2).
          if \<not> ok
          then Inr (p\<lparr>ep_num_new := (if ncomp + shift < start then start - (ncomp + shift) else 0)\<rparr>, e2)
          else
            bindE (get_embeds_indices_in_range pos (max 0 (ncomp - start))
                     (min ntok (ncomp + ep_num_new p - start))) (\<lambda>(a, b).
            if b - a = 0 then encoder_input_loop cfg env c r ncomp shift fs p e2
            else if (case en_ec_has_cache_item env of None \<Rightarrow> False | Some has \<Rightarrow> has c h)
            then encoder_input_loop cfg env c r ncomp shift fs
                   (p\<lparr>ep_hashes := insert h (ep_hashes p), ep_external := ep_external p @ [i],
                      ep_num_embeds := ep_num_embeds p + nemb\<rparr>) e2
            else encoder_input_loop cfg env c r ncomp shift fs
                   (p\<lparr>ep_num_embeds := ep_num_embeds p + nemb, ep_budget := ep_budget p - nemb,
                      ep_hashes := insert h (ep_hashes p), ep_schedule := ep_schedule p @ [i]\<rparr>) e2)))))"

definition try_schedule_encoder_inputs ::
  "sched_config \<Rightarrow> 'c sched_env \<Rightarrow> request \<Rightarrow> int \<Rightarrow> int \<Rightarrow> int \<Rightarrow> int \<Rightarrow> 'c scheduler \<Rightarrow>
   ((int list \<times> int \<times> int \<times> int list) \<times> 'c scheduler) res" where
  "try_schedule_encoder_inputs cfg env r ncomp nnew budget shift s =
     (if nnew = 0 \<or> \<not> has_encoder_inputs r then Inr (([], nnew, budget, []), s)
      else
        bindE (encoder_input_loop cfg env (envst s) r ncomp shift
                 (zip [0..int (length (mm_features r)) - 1] (mm_features r))
                 \<lparr>ep_num_new = nnew, ep_budget = budget, ep_hashes = {}, ep_num_embeds = 0,
                  ep_schedule = [], ep_external = []\<rparr> (enc s)) (\<lambda>(p, e).
        Inr ((ep_schedule p, ep_num_new p, ep_budget p, ep_external p), s\<lparr>enc := e\<rparr>)))"

definition mamba_block_aligned_split ::
  "sched_config \<Rightarrow> request \<Rightarrow> int \<Rightarrow> int \<Rightarrow> int \<Rightarrow> int res" where
  "mamba_block_aligned_split cfg r nnew nlocal next =
     assertE (next = 0)
       (let ncomp = num_computed_tokens r + nlocal + next in
        if ncomp < max (num_prompt_tokens r) (num_tokens r - 1)
        then
          (let bs = sc_cache_block_size cfg in
           if bs = 0 then Inl ZeroDivisionError
           else
             let last0 = num_tokens r - num_tokens r mod bs;
                 last = (if sc_use_eagle cfg then max (last0 - bs) 0 else last0);
                 after = ncomp + nnew
             in if after < last then Inr (nnew div bs * bs)
                else if ncomp < last \<and> last < after then Inr (last - ncomp)
                else Inr nnew)
        else Inr nnew)"

end
