(* ===== verification/Schedule.thy ===== *)
theory Schedule
  imports Sched_State
begin

text \<open>
  One scheduling step: \<^verbatim>\<open>Scheduler.schedule\<close> of src/vllm/v1/core/sched/scheduler.py with the loop over the
  running requests, the preemption loop inside it, the loop over the waiting requests, the checks at
  its end and the output for the workers, and \<^verbatim>\<open>_update_after_schedule\<close> of both scheduler classes.

  The bodies of the two loops are definitions of their own that say whether the loop goes on; all
  three loops are proved to end. The local variables of the method are the record \<^verbatim>\<open>step_state\<close>;
  \<^verbatim>\<open>num_scheduled_tokens\<close> is an association list, a dictionary in insertion order.
\<close>

section \<open>Local state\<close>

record 'c step_state =
  l_sched :: "'c scheduler"
  l_new :: "req_id list"
  l_resumed :: "req_id list"
  l_running :: "req_id list"
  l_preempted :: "req_id list"
  l_new_blocks :: "req_id \<rightharpoonup> kv_cache_blocks"
  l_num_scheduled :: "(req_id \<times> int) list"
  l_token_budget :: int
  l_encoder_inputs :: "req_id \<rightharpoonup> int list"
  l_encoder_budget :: int
  l_spec :: "req_id \<rightharpoonup> token list"
  l_index :: int
  l_loras :: "int set"
  l_skipped :: "req_id request_queue"

definition init_step :: "sched_config \<Rightarrow> 'c scheduler \<Rightarrow> 'c step_state" where
  "init_step cfg s =
     \<lparr>l_sched = s\<lparr>kv := kv_new_step_starts (kv s)\<rparr>, l_new = [], l_resumed = [], l_running = [],
      l_preempted = [], l_new_blocks = Map.empty, l_num_scheduled = [],
      l_token_budget = (if pause s = PAUSED_ALL then 0 else sc_max_num_scheduled_tokens cfg),
      l_encoder_inputs = Map.empty, l_encoder_budget = sc_max_num_encoder_input_tokens cfg,
      l_spec = Map.empty, l_index = 0, l_loras = {}, l_skipped = create_request_queue (sc_policy cfg)\<rparr>"

abbreviation on_sched :: "('c scheduler \<Rightarrow> 'c scheduler) \<Rightarrow> 'c step_state \<Rightarrow> 'c step_state" where
  "on_sched f L \<equiv> L\<lparr>l_sched := f (l_sched L)\<rparr>"

section \<open>Running requests\<close>

text \<open>\<^verbatim>\<open>max\<close> with a key returns the first of the greatest elements.\<close>

fun max_by_key :: "('a \<Rightarrow> 'k :: linorder) \<Rightarrow> 'a list \<Rightarrow> 'a res" where
  "max_by_key f [] = Inl ValueError"
| "max_by_key f (x # xs) = Inr (fold (\<lambda>y m. if f y > f m then y else m) xs x)"

definition req_priority_key :: "'c scheduler \<Rightarrow> req_id \<Rightarrow> int \<times> int" where
  "req_priority_key s q = (let r = the (reqs s q) in (priority r, arrival_time r))"

text \<open>A victim of the priority policy that was scheduled in this step gives everything back.\<close>

definition withdraw_scheduled :: "req_id \<Rightarrow> 'c step_state \<Rightarrow> 'c step_state res" where
  "withdraw_scheduled v L =
     bindE (lookup v (l_sched L)) (\<lambda>r.
     bindE (dict_pop v (l_num_scheduled L)) (\<lambda>(n, d).
     if l_new_blocks L v = None then Inl KeyError
     else
       bindE (mapE (get_num_encoder_embeds r)
                (case l_encoder_inputs L v of None \<Rightarrow> [] | Some is \<Rightarrow> is)) (\<lambda>ns.
       Inr (L\<lparr>l_running := remove1 v (l_running L), l_token_budget := l_token_budget L + n,
              l_num_scheduled := d, l_new_blocks := (l_new_blocks L)(v := None),
              l_spec := (l_spec L)(v := None), l_encoder_inputs := (l_encoder_inputs L)(v := None),
              l_encoder_budget := l_encoder_budget L + sum_list ns, l_index := l_index L - 1\<rparr>))))"

definition pick_victim :: "sched_config \<Rightarrow> 'c step_state \<Rightarrow> (req_id \<times> 'c step_state) res" where
  "pick_victim cfg L =
     (let run = running (l_sched L) in
      if sc_policy cfg = PRIORITY
      then bindE (max_by_key (req_priority_key (l_sched L)) run) (\<lambda>v.
           let L1 = on_sched (\<lambda>s. s\<lparr>running := remove1 v run\<rparr>) L in
           if v \<in> set (l_running L1) then bindE (withdraw_scheduled v L1) (\<lambda>L2. Inr (v, L2))
           else Inr (v, L1))
      else if run = [] then Inl IndexError
      else Inr (last run, on_sched (\<lambda>s. s\<lparr>running := butlast run\<rparr>) L))"

definition preempt_victim :: "'c sched_env \<Rightarrow> req_id \<Rightarrow> 'c step_state \<Rightarrow> 'c step_state res" where
  "preempt_victim env v L =
     bindE (preempt_request env v (l_sched L)) (\<lambda>s.
       Inr (L\<lparr>l_sched := s, l_preempted := l_preempted L @ [v]\<rparr>))"

definition try_allocate ::
  "sched_config \<Rightarrow> req_id \<Rightarrow> int \<Rightarrow> 'c step_state \<Rightarrow> (kv_cache_blocks option \<times> 'c step_state) res" where
  "try_allocate cfg q n L =
     bindE (lookup q (l_sched L)) (\<lambda>r.
     bindE (allocate_slots r n 0 None (sc_num_lookahead_tokens cfg) 0 False 0 (kv (l_sched L))) (\<lambda>(bs, r', k).
       Inr (bs, on_sched (\<lambda>s. put r' (s\<lparr>kv := k\<rparr>)) L)))"

text \<open>None of the three changes the running list by more than taking out the victim, which makes the
  preemption loop end.\<close>

lemma preempt_request_running: "preempt_request env q s = Inr t \<Longrightarrow> running t = running s"
  by (auto simp: preempt_request_def put_def Let_def)

lemma preempt_victim_running:
  "preempt_victim env v L = Inr L' \<Longrightarrow> running (l_sched L') = running (l_sched L) \<and> l_index L' = l_index L"
  by (auto simp: preempt_victim_def dest: preempt_request_running)

lemma try_allocate_running:
  "try_allocate cfg q n L = Inr (bs, L') \<Longrightarrow> running (l_sched L') = running (l_sched L) \<and> l_index L' = l_index L"
  by (auto simp: try_allocate_def put_def)

lemma withdraw_scheduled_running:
  "withdraw_scheduled v L = Inr L' \<Longrightarrow>
   running (l_sched L') = running (l_sched L) \<and> l_index L' = l_index L - 1"
  by (auto simp: withdraw_scheduled_def split: if_splits)

lemma max_by_key_in: "max_by_key f xs = Inr v \<Longrightarrow> v \<in> set xs"
proof (cases xs)
  case (Cons x ys)
  have "fold (\<lambda>y m. if f y > f m then y else m) ys x \<in> set (x # ys)"
    by (induction ys arbitrary: x) auto
  moreover assume "max_by_key f xs = Inr v"
  ultimately show ?thesis using Cons by simp
qed simp

lemma pick_victim_running:
  assumes "pick_victim cfg L = Inr (v, L')"
  shows "v \<in> set (running (l_sched L)) \<and>
         length (running (l_sched L)) = Suc (length (running (l_sched L'))) \<and>
         l_index L - 1 \<le> l_index L' \<and> l_index L' \<le> l_index L"
proof (cases "sc_policy cfg = PRIORITY")
  case True
  let ?run = "running (l_sched L)"
  let ?L1 = "on_sched (\<lambda>s. s\<lparr>running := remove1 v ?run\<rparr>) L"
  have v: "max_by_key (req_priority_key (l_sched L)) ?run = Inr v"
    using assms True by (auto simp: pick_victim_def Let_def split: if_splits)
  have "v \<in> set ?run" by (rule max_by_key_in [OF v])
  moreover have "L' = ?L1 \<or> withdraw_scheduled v ?L1 = Inr L'"
    using assms True v by (auto simp: pick_victim_def Let_def split: if_splits)
  ultimately show ?thesis
    using withdraw_scheduled_running [of v ?L1 L'] length_pos_if_in_set [of v ?run]
    by (auto simp: length_remove1)
next
  case False
  then show ?thesis using assms by (auto simp: pick_victim_def Let_def split: if_splits)
qed

function allocate_or_preempt ::
  "sched_config \<Rightarrow> 'c sched_env \<Rightarrow> req_id \<Rightarrow> int \<Rightarrow> 'c step_state \<Rightarrow> (kv_cache_blocks option \<times> 'c step_state) res"
where
  "allocate_or_preempt cfg env q n L =
     bindE (try_allocate cfg q n L) (\<lambda>(bs, L1).
       case bs of
         Some b \<Rightarrow> Inr (Some b, L1)
       | None \<Rightarrow>
           bindE (pick_victim cfg L1) (\<lambda>(v, L2).
           bindE (preempt_victim env v L2) (\<lambda>L3.
             if v = q then Inr (None, L3) else allocate_or_preempt cfg env q n L3)))"
  by pat_completeness auto
termination
proof (relation "measure (\<lambda>(cfg, env, q, n, L). length (running (l_sched L)))", goal_cases)
  case (2 cfg env q n L x bs L1 y v L2 L3)
  then show ?case
    using try_allocate_running [of cfg q n L bs L1] pick_victim_running [of cfg L1 v L2]
      preempt_victim_running [of env v L2 L3] by simp
qed simp

declare allocate_or_preempt.simps [simp del]

lemma allocate_or_preempt_running:
  "allocate_or_preempt cfg env q n L = Inr (bs, L') \<Longrightarrow>
   length (running (l_sched L')) - l_index L' \<le> length (running (l_sched L)) - l_index L"
proof (induction cfg env q n L rule: allocate_or_preempt.induct)
  case (1 cfg env q n L)
  obtain b L1 where a: "try_allocate cfg q n L = Inr (b, L1)"
    using 1(2) by (subst (asm) allocate_or_preempt.simps) auto
  note r1 = try_allocate_running [OF a]
  show ?case
  proof (cases b)
    case (Some b')
    then show ?thesis using 1(2) a r1 by (subst (asm) allocate_or_preempt.simps) auto
  next
    case None
    obtain v L2 where v: "pick_victim cfg L1 = Inr (v, L2)"
      using 1(2) a None by (subst (asm) allocate_or_preempt.simps) auto
    obtain L3 where p: "preempt_victim env v L2 = Inr L3"
      using 1(2) a None v by (subst (asm) allocate_or_preempt.simps) auto
    note r = r1 pick_victim_running [OF v] preempt_victim_running [OF p]
    show ?thesis
    proof (cases "v = q")
      case True
      then show ?thesis using 1(2) a None v p r by (subst (asm) allocate_or_preempt.simps) auto
    next
      case False
      then have "allocate_or_preempt cfg env q n L3 = Inr (bs, L')"
        using 1(2) a None v p by (subst (asm) allocate_or_preempt.simps) auto
      from 1(1) [OF a refl None v refl p False this] show ?thesis using r by simp
    qed
  qed
qed

definition num_tokens_running :: "sched_config \<Rightarrow> request \<Rightarrow> int \<Rightarrow> int" where
  "num_tokens_running cfg r budget =
     (let n0 = num_tokens_with_spec r + num_output_placeholders r - num_computed_tokens r;
          t = sc_long_prefill_token_threshold cfg;
          n1 = (if 0 < t \<and> t < n0 then t else n0);
          n2 = min n1 budget
      in min n2 (sc_max_model_len cfg - 1 - num_computed_tokens r))"

text \<open>Scheduling a running request for which the slots are allocated.\<close>

definition take_spec_tokens :: "req_id \<Rightarrow> int \<Rightarrow> 'c step_state \<Rightarrow> 'c step_state res" where
  "take_spec_tokens q n L =
     bindE (lookup q (l_sched L)) (\<lambda>r.
       if spec_token_ids r = [] then Inr L
       else
         let m = n + num_computed_tokens r - num_tokens r - num_output_placeholders r;
             L1 = (if m > 0
                   then L\<lparr>l_spec := (l_spec L)(q \<mapsto>
                          (if int (length (spec_token_ids r)) > m then py_upto (spec_token_ids r) m
                           else spec_token_ids r))\<rparr>
                   else L)
         in Inr (on_sched (put (r\<lparr>spec_token_ids := []\<rparr>)) L1))"

definition allocate_encoder ::
  "'c sched_env \<Rightarrow> req_id \<Rightarrow> int list \<Rightarrow> 'c step_state \<Rightarrow> 'c step_state res" where
  "allocate_encoder env q is L =
     bindE (lookup q (l_sched L)) (\<lambda>r.
     foldE (\<lambda>i L.
       bindE (em_allocate r i (enc (l_sched L))) (\<lambda>e.
         let s = (l_sched L)\<lparr>enc := e\<rparr> in
         Inr (L\<lparr>l_sched :=
           (if en_ec_has_cache_item env = None then s
            else s\<lparr>envst := en_ec_update_state_after_alloc env (envst s) r i\<rparr>)\<rparr>))) is L)"

definition schedule_encoder ::
  "'c sched_env \<Rightarrow> req_id \<Rightarrow> int list \<Rightarrow> int \<Rightarrow> int list \<Rightarrow> 'c step_state \<Rightarrow> 'c step_state res" where
  "schedule_encoder env q is budget ext L =
     bindE (if is = [] then Inr L
            else bindE (allocate_encoder env q is (L\<lparr>l_encoder_inputs := (l_encoder_inputs L)(q \<mapsto> is)\<rparr>)) (\<lambda>L1.
                 Inr (L1\<lparr>l_encoder_budget := budget\<rparr>)))
       (allocate_encoder env q ext)"

definition commit_running ::
  "'c sched_env \<Rightarrow> req_id \<Rightarrow> int \<Rightarrow> kv_cache_blocks \<Rightarrow> int list \<Rightarrow> int \<Rightarrow> int list \<Rightarrow> 'c step_state \<Rightarrow> 'c step_state res"
where
  "commit_running env q n b is budget ext L =
     bindE (take_spec_tokens q n
       (L\<lparr>l_running := l_running L @ [q], l_new_blocks := (l_new_blocks L)(q \<mapsto> b),
          l_num_scheduled := dict_set q n (l_num_scheduled L),
          l_token_budget := l_token_budget L - n, l_index := l_index L + 1\<rparr>))
       (schedule_encoder env q is budget ext)"

text \<open>How many tokens and which encoder inputs a running request gets.\<close>

definition plan_running ::
  "sched_config \<Rightarrow> 'c sched_env \<Rightarrow> request \<Rightarrow> 'c step_state \<Rightarrow>
   ((int list \<times> int \<times> int \<times> int list) \<times> 'c scheduler) res" where
  "plan_running cfg env r L =
     bindE (if has_encoder_inputs r
            then try_schedule_encoder_inputs cfg env r (num_computed_tokens r)
                   (num_tokens_running cfg r (l_token_budget L)) (l_encoder_budget L)
                   (if sc_use_eagle cfg then 1 else 0) (l_sched L)
            else Inr (([], num_tokens_running cfg r (l_token_budget L), l_encoder_budget L, []), l_sched L))
       (\<lambda>((is, n1, budget, ext), s).
     bindE (if sc_need_mamba_block_aligned_split cfg then mamba_block_aligned_split cfg r n1 0 0
            else Inr n1) (\<lambda>n. Inr ((is, n, budget, ext), s)))"

definition place_running ::
  "sched_config \<Rightarrow> 'c sched_env \<Rightarrow> req_id \<Rightarrow> int list \<times> int \<times> int \<times> int list \<Rightarrow> 'c step_state \<Rightarrow>
   (bool \<times> 'c step_state) res" where
  "place_running cfg env q plan L =
     (case plan of (is, n, budget, ext) \<Rightarrow>
        if n = 0 then Inr (True, L\<lparr>l_index := l_index L + 1\<rparr>)
        else
          bindE (allocate_or_preempt cfg env q n L) (\<lambda>(bs, L2).
            case bs of
              None \<Rightarrow> Inr (False, L2)
            | Some b \<Rightarrow>
                bindE (commit_running env q n b is budget ext L2) (\<lambda>L3. Inr (True, L3))))"

text \<open>One turn of the loop over the running requests; the result says whether the loop goes on.\<close>

definition running_step :: "sched_config \<Rightarrow> 'c sched_env \<Rightarrow> 'c step_state \<Rightarrow> (bool \<times> 'c step_state) res" where
  "running_step cfg env L =
     bindE (py_get (running (l_sched L)) (l_index L)) (\<lambda>q.
     bindE (lookup q (l_sched L)) (\<lambda>r.
       if num_output_placeholders r > 0 \<and>
          num_computed_tokens r + 2 - num_output_placeholders r \<ge> num_prompt_tokens r + max_tokens r
       then Inr (True, L\<lparr>l_index := l_index L + 1\<rparr>)
       else bindE (plan_running cfg env r L) (\<lambda>(plan, s).
              place_running cfg env q plan (L\<lparr>l_sched := s\<rparr>))))"

lemma take_spec_tokens_running:
  "take_spec_tokens q n L = Inr L' \<Longrightarrow> running (l_sched L') = running (l_sched L) \<and> l_index L' = l_index L"
  by (auto simp: take_spec_tokens_def put_def Let_def split: if_splits)

lemma allocate_encoder_running:
  assumes "allocate_encoder env q is L = Inr L'"
  shows "running (l_sched L') = running (l_sched L) \<and> l_index L' = l_index L"
proof -
  obtain r where "foldE (\<lambda>i L.
       bindE (em_allocate r i (enc (l_sched L))) (\<lambda>e.
         let s = (l_sched L)\<lparr>enc := e\<rparr> in
         Inr (L\<lparr>l_sched :=
           (if en_ec_has_cache_item env = None then s
            else s\<lparr>envst := en_ec_update_state_after_alloc env (envst s) r i\<rparr>)\<rparr>))) is L = Inr L'"
    using assms by (auto simp: allocate_encoder_def)
  then show ?thesis
    by (rule foldE_invariant
        [where P = "\<lambda>M. running (l_sched M) = running (l_sched L) \<and> l_index M = l_index L"])
      (auto simp: Let_def)
qed

lemma schedule_encoder_running:
  assumes "schedule_encoder env q is budget ext L = Inr L'"
  shows "running (l_sched L') = running (l_sched L) \<and> l_index L' = l_index L"
  using assms unfolding schedule_encoder_def
  by (auto dest!: allocate_encoder_running split: if_splits)

lemma commit_running_running:
  assumes "commit_running env q n b is budget ext L = Inr L'"
  shows "running (l_sched L') = running (l_sched L) \<and> l_index L' = l_index L + 1"
  using assms unfolding commit_running_def
  by (auto dest!: take_spec_tokens_running schedule_encoder_running)

lemma try_schedule_encoder_inputs_running:
  "try_schedule_encoder_inputs cfg env r a b c d s = Inr (x, s') \<Longrightarrow> running s' = running s"
  by (auto simp: try_schedule_encoder_inputs_def split: if_splits)

lemma plan_running_running: "plan_running cfg env r L = Inr (plan, s) \<Longrightarrow> running s = running (l_sched L)"
  by (auto simp: plan_running_def dest: try_schedule_encoder_inputs_running split: if_splits)

lemma place_running_measure:
  assumes "place_running cfg env q plan L = Inr (True, L')"
  shows "int (length (running (l_sched L'))) - l_index L' < int (length (running (l_sched L))) - l_index L"
proof -
  obtain "is" n budget ext where plan: "plan = (is, n, budget, ext)" by (cases plan) auto
  show ?thesis
  proof (cases "n = 0")
    case True
    then show ?thesis using assms plan by (auto simp: place_running_def)
  next
    case False
    obtain b L2 where a: "allocate_or_preempt cfg env q n L = Inr (Some b, L2)"
      and c: "commit_running env q n b is budget ext L2 = Inr L'"
      using assms plan False by (auto simp: place_running_def split: option.splits)
    show ?thesis using allocate_or_preempt_running [OF a] commit_running_running [OF c] by simp
  qed
qed

lemma running_step_measure:
  assumes "running_step cfg env L = Inr (True, L')"
  shows "int (length (running (l_sched L'))) - l_index L' < int (length (running (l_sched L))) - l_index L"
  using assms
  by (auto simp: running_step_def dest!: plan_running_running place_running_measure split: if_splits)

function running_loop :: "sched_config \<Rightarrow> 'c sched_env \<Rightarrow> 'c step_state \<Rightarrow> 'c step_state res" where
  "running_loop cfg env L =
     (if l_index L < int (length (running (l_sched L))) \<and> l_token_budget L > 0
      then bindE (running_step cfg env L) (\<lambda>(go_on, L').
             if go_on then running_loop cfg env L' else Inr L')
      else Inr L)"
  by pat_completeness auto
termination
proof (relation "measure (\<lambda>(cfg, env, L). nat (int (length (running (l_sched L))) - l_index L))", goal_cases)
  case (2 cfg env L x go_on L')
  then show ?case using running_step_measure [of cfg env L L'] by auto
qed simp

declare running_loop.simps [simp del]

section \<open>Waiting requests\<close>

text \<open>Moving the front of a queue to the requests skipped in this pass.\<close>

definition skip_front :: "which_queue \<Rightarrow> req_id \<Rightarrow> 'c step_state \<Rightarrow> 'c step_state res" where
  "skip_front w q L =
     (let s = l_sched L in
      bindE (q_pop_request (req_lt s) (get_queue w s)) (\<lambda>(_, rest).
        Inr (L\<lparr>l_sched := set_queue w rest s, l_skipped := q_prepend_request (req_lt s) q (l_skipped L)\<rparr>)))"

text \<open>The tokens of a waiting request that need no computation: cached here, or known to the connector;
  none when the connector cannot tell yet.\<close>

definition find_computed ::
  "'c sched_env \<Rightarrow> request \<Rightarrow> 'c scheduler \<Rightarrow>
   ((kv_cache_blocks \<times> int \<times> int \<times> bool \<times> int) option \<times> request \<times> 'c scheduler) res" where
  "find_computed env r s =
     (if num_computed_tokens r = 0
      then
        bindE (get_computed_blocks r (kv s)) (\<lambda>((bs, nlocal), k).
        let s1 = s\<lparr>kv := k\<rparr> in
        case en_connector env of
          None \<Rightarrow> assertE (nlocal \<le> num_tokens r) (Inr (Some (bs, nlocal, 0, False, nlocal), r, s1))
        | Some cn \<Rightarrow>
            let ((ext, load_async), c) = cn_get_num_new_matched_tokens cn (envst s1) r nlocal;
                s2 = s1\<lparr>envst := c\<rparr>
            in case ext of
                 None \<Rightarrow> Inr (None, r, s2)
               | Some n \<Rightarrow>
                   let r1 = r\<lparr>num_external_computed_tokens := n\<rparr> in
                   assertE (nlocal + n \<le> num_tokens r)
                     (Inr (Some (bs, nlocal, n, load_async, nlocal + n), r1, put r1 s2)))
      else Inr (Some (KVEmpty, 0, 0, False, num_computed_tokens r), r, s))"

text \<open>How many tokens and which encoder inputs a waiting request gets; none ends the pass.\<close>

definition num_tokens_waiting :: "sched_config \<Rightarrow> request \<Rightarrow> int \<Rightarrow> int" where
  "num_tokens_waiting cfg r ncomp =
     (let n0 = num_tokens r - ncomp; t = sc_long_prefill_token_threshold cfg
      in if 0 < t \<and> t < n0 then t else n0)"

definition plan_waiting ::
  "sched_config \<Rightarrow> 'c sched_env \<Rightarrow> request \<Rightarrow> int \<Rightarrow> int \<Rightarrow> bool \<Rightarrow> int \<Rightarrow> 'c step_state \<Rightarrow>
   ((int list \<times> int \<times> int \<times> int list) option \<times> 'c scheduler) res" where
  "plan_waiting cfg env r nlocal next load_async ncomp L =
     bindE
       (if load_async
        then assertE (next > 0) (Inr (Some ([], 0, l_encoder_budget L, []), l_sched L))
        else
          (let n1 = num_tokens_waiting cfg r ncomp
           in if \<not> sc_enable_chunked_prefill cfg \<and> n1 > l_token_budget L then Inr (None, l_sched L)
              else
                let n2 = min n1 (l_token_budget L) in
                assertE (n2 > 0)
                  (if has_encoder_inputs r
                   then bindE (try_schedule_encoder_inputs cfg env r ncomp n2 (l_encoder_budget L)
                                 (if sc_use_eagle cfg then 1 else 0) (l_sched L)) (\<lambda>((is, n3, b, ext), s).
                        Inr (if n3 = 0 then None else Some (is, n3, b, ext), s))
                   else Inr (Some ([], n2, l_encoder_budget L, []), l_sched L))))
       (\<lambda>(plan, s).
     case plan of
       None \<Rightarrow> Inr (None, s)
     | Some (is, n, b, ext) \<Rightarrow>
         if sc_need_mamba_block_aligned_split cfg
         then bindE (mamba_block_aligned_split cfg r n nlocal next) (\<lambda>n'.
              Inr (if n' = 0 then None else Some (is, n', b, ext), s))
         else Inr (Some (is, n, b, ext), s))"

text \<open>Taking the slots; without enough of them the references to encoder outputs are given back.\<close>

definition untouch_encoder :: "'c sched_env \<Rightarrow> request \<Rightarrow> 'c scheduler \<Rightarrow> 'c scheduler res" where
  "untouch_encoder env r s =
     (if has_encoder_inputs r then bindE (em_free (en_order env) r (enc s)) (\<lambda>e. Inr (s\<lparr>enc := e\<rparr>))
      else Inr s)"

definition allocate_waiting ::
  "sched_config \<Rightarrow> 'c sched_env \<Rightarrow> request \<Rightarrow> kv_cache_blocks \<times> int \<times> int \<times> bool \<times> int \<Rightarrow> int list \<Rightarrow> int \<Rightarrow>
   'c scheduler \<Rightarrow> (bool \<times> 'c scheduler) res" where
  "allocate_waiting cfg env r computed is n s =
     (case computed of (bs, nlocal, next, load_async, ncomp) \<Rightarrow>
      bindE (if sc_is_encoder_decoder cfg \<and> has_encoder_inputs r \<and> is \<noteq> []
             then bindE (mapE (get_num_encoder_embeds r) is) (\<lambda>ns. Inr (sum_list ns)) else Inr 0) (\<lambda>nenc.
      bindE (if sc_reserve_full_isl cfg then can_fit_full_sequence r nlocal (Some bs) next nenc (kv s)
             else Inr (True, kv s)) (\<lambda>(fit, k).
      let s1 = s\<lparr>kv := k\<rparr> in
      if \<not> fit then bindE (untouch_encoder env r s1) (\<lambda>s2. Inr (False, s2))
      else
        bindE (allocate_slots r n nlocal (Some bs)
                 (if num_computed_tokens r = 0 then 0 else sc_num_lookahead_tokens cfg) next load_async nenc
                 (kv s1)) (\<lambda>(new, r', k').
        let s2 = put r' (s1\<lparr>kv := k'\<rparr>) in
        case new of
          None \<Rightarrow> bindE (untouch_encoder env r' s2) (\<lambda>s3. Inr (False, s3))
        | Some _ \<Rightarrow>
            Inr (True, case en_connector env of
                         None \<Rightarrow> s2
                       | Some cn \<Rightarrow>
                           s2\<lparr>envst := cn_update_state_after_alloc cn (envst s2) r'
                                        (kv_get_blocks (request_id r') (kv s2)) next\<rparr>)))))"

text \<open>Taking the request out of its queue, and either starting it or letting it wait for remote
  blocks.\<close>

definition start_request ::
  "sched_config \<Rightarrow> 'c sched_env \<Rightarrow> req_id \<Rightarrow> int \<Rightarrow> int list \<times> int \<times> int \<times> int list \<Rightarrow> 'c step_state \<Rightarrow>
   'c step_state res" where
  "start_request cfg env q ncomp plan L =
     (case plan of (is, n, budget, ext) \<Rightarrow>
      bindE (lookup q (l_sched L)) (\<lambda>r.
      let s1 = (l_sched L)\<lparr>running := running (l_sched L) @ [q]\<rparr> in
      bindE (if status r = WAITING then Inr (L\<lparr>l_sched := s1, l_new := l_new L @ [q]\<rparr>)
             else if status r = PREEMPTED then Inr (L\<lparr>l_sched := s1, l_resumed := l_resumed L @ [q]\<rparr>)
             else Inl RuntimeError) (\<lambda>L1.
      let r' = r\<lparr>status := RUNNING, num_computed_tokens := ncomp,
                 num_cached_tokens := (if num_cached_tokens r < 0 then ncomp else num_cached_tokens r)\<rparr>
      in schedule_encoder env q is budget ext
           (L1\<lparr>l_loras := (case (sc_max_loras cfg, lora r) of
                            (Some _, Some lr) \<Rightarrow> insert (adapter_id lr) (l_loras L1)
                          | _ \<Rightarrow> l_loras L1),
               l_new_blocks := (l_new_blocks L1)(q \<mapsto> kv_get_blocks q (kv (l_sched L1))),
               l_num_scheduled := dict_set q n (l_num_scheduled L1),
               l_token_budget := l_token_budget L1 - n, l_sched := put r' (l_sched L1)\<rparr>))))"

definition admit_waiting ::
  "sched_config \<Rightarrow> 'c sched_env \<Rightarrow> which_queue \<Rightarrow> req_id \<Rightarrow> bool \<Rightarrow> int \<Rightarrow> int list \<times> int \<times> int \<times> int list \<Rightarrow>
   'c step_state \<Rightarrow> 'c step_state res" where
  "admit_waiting cfg env w q load_async ncomp plan L =
     (let s = l_sched L in
      bindE (q_pop_request (req_lt s) (get_queue w s)) (\<lambda>(q', rest).
      let L1 = L\<lparr>l_sched := set_queue w rest s\<rparr> in
      if load_async
      then bindE (lookup q' s) (\<lambda>r.
           let r' = r\<lparr>status := WAITING_FOR_REMOTE_KVS, num_computed_tokens := ncomp\<rparr> in
           Inr (L1\<lparr>l_sched := put r' (l_sched L1),
                   l_skipped := q_prepend_request (req_lt s) q' (l_skipped L1)\<rparr>))
      else start_request cfg env q' ncomp plan L1))"

definition exceeds_loras :: "sched_config \<Rightarrow> request \<Rightarrow> int set \<Rightarrow> bool" where
  "exceeds_loras cfg r loras \<longleftrightarrow>
     (case (sc_max_loras cfg, lora r) of
        (Some m, Some lr) \<Rightarrow> int (card loras) = m \<and> adapter_id lr \<notin> loras
      | _ \<Rightarrow> False)"

text \<open>One turn of the loop over the waiting requests, from a request that may be scheduled on.\<close>

definition place_waiting ::
  "sched_config \<Rightarrow> 'c sched_env \<Rightarrow> which_queue \<Rightarrow> req_id \<Rightarrow> request \<Rightarrow> 'c step_state \<Rightarrow>
   (bool \<times> 'c step_state) res" where
  "place_waiting cfg env w q r L =
     bindE (find_computed env r (l_sched L)) (\<lambda>(found, r1, s1).
     let L1 = L\<lparr>l_sched := s1\<rparr> in
     case found of
       None \<Rightarrow> bindE (skip_front w q L1) (\<lambda>L2. Inr (True, L2))
     | Some (bs, nlocal, next, load_async, ncomp) \<Rightarrow>
         bindE (plan_waiting cfg env r1 nlocal next load_async ncomp L1) (\<lambda>(plan, s2).
         let L2 = L1\<lparr>l_sched := s2\<rparr> in
         case plan of
           None \<Rightarrow> Inr (False, L2)
         | Some (is, n, b, ext) \<Rightarrow>
             bindE (allocate_waiting cfg env r1 (bs, nlocal, next, load_async, ncomp) is n s2) (\<lambda>(ok, s3).
             let L3 = L2\<lparr>l_sched := s3\<rparr> in
             if \<not> ok then Inr (False, L3)
             else bindE (admit_waiting cfg env w q load_async ncomp (is, n, b, ext) L3) (\<lambda>L4.
                  Inr (True, L4)))))"

definition waiting_step :: "sched_config \<Rightarrow> 'c sched_env \<Rightarrow> 'c step_state \<Rightarrow> (bool \<times> 'c step_state) res" where
  "waiting_step cfg env L =
     (if int (length (running (l_sched L))) = sc_max_num_running_reqs cfg then Inr (False, L)
      else
        bindE (select_waiting_queue cfg (l_sched L)) (\<lambda>sel.
        case sel of
          None \<Rightarrow> Inl AssertionError
        | Some w \<Rightarrow>
            bindE (q_peek_request (get_queue w (l_sched L))) (\<lambda>q.
            bindE (lookup q (l_sched L)) (\<lambda>r0.
            bindE (if is_blocked_waiting_status (status r0)
                   then try_promote_blocked_waiting_request env r0 (l_sched L)
                   else Inr (True, r0, l_sched L)) (\<lambda>(ready, r, s).
            let L1 = L\<lparr>l_sched := s\<rparr> in
            if \<not> ready \<or> exceeds_loras cfg r (l_loras L1)
            then bindE (skip_front w q L1) (\<lambda>L2. Inr (True, L2))
            else place_waiting cfg env w q r L1)))))"

text \<open>Everything before the request is taken out leaves the three lists alone.\<close>

definition same_lists :: "'c scheduler \<Rightarrow> 'c scheduler \<Rightarrow> bool" where
  "same_lists s t \<longleftrightarrow>
     running t = running s \<and> waiting t = waiting s \<and> skipped_waiting t = skipped_waiting s"

lemma same_lists_refl [simp]: "same_lists s s"
  by (simp add: same_lists_def)

lemma same_lists_trans: "same_lists s t \<Longrightarrow> same_lists t u \<Longrightarrow> same_lists s u"
  by (simp add: same_lists_def)

lemma same_lists_upd [simp]:
  "same_lists s (t\<lparr>kv := k\<rparr>) = same_lists s t" "same_lists s (t\<lparr>enc := e\<rparr>) = same_lists s t"
  "same_lists s (t\<lparr>envst := c\<rparr>) = same_lists s t" "same_lists s (t\<lparr>reqs := m\<rparr>) = same_lists s t"
  "same_lists s (t\<lparr>finished_recving_kv_req_ids := x\<rparr>) = same_lists s t"
  "same_lists s (t\<lparr>failed_recving_kv_req_ids := x\<rparr>) = same_lists s t"
  "same_lists s (put r t) = same_lists s t"
  "same_lists (t\<lparr>kv := k\<rparr>) s = same_lists t s" "same_lists (t\<lparr>enc := e\<rparr>) s = same_lists t s"
  "same_lists (t\<lparr>envst := c\<rparr>) s = same_lists t s" "same_lists (put r t) s = same_lists t s"
  by (simp_all add: same_lists_def put_def)

lemma update_remote_lists:
  "okE (\<lambda>(r', s'). same_lists s s') (update_waiting_for_remote_kv env r s)"
  by (auto simp: update_waiting_for_remote_kv_def Let_def res_wp intro!: okEI)

lemma promote_lists:
  "okE (\<lambda>(ok, r', s'). same_lists s s') (try_promote_blocked_waiting_request env r s)"
  by (auto simp: try_promote_blocked_waiting_request_def Let_def res_wp
      intro!: okE_conseq [OF update_remote_lists] split: request_status.splits)

lemma find_computed_lists: "okE (\<lambda>(found, r', s'). same_lists s s') (find_computed env r s)"
  by (auto simp: find_computed_def Let_def res_wp split: option.splits prod.splits intro!: okEI)

lemma try_schedule_encoder_inputs_lists:
  "okE (\<lambda>(x, s'). same_lists s s') (try_schedule_encoder_inputs cfg env r a b c d s)"
  by (auto simp: try_schedule_encoder_inputs_def res_wp intro!: okEI)

lemma plan_waiting_lists:
  "okE (\<lambda>(plan, s). same_lists (l_sched L) s) (plan_waiting cfg env r nlocal next load_async ncomp L)"
  by (auto simp: plan_waiting_def Let_def res_wp split: option.splits
      intro!: okEI dest!: okED [OF try_schedule_encoder_inputs_lists])

lemma untouch_encoder_lists: "okE (same_lists s) (untouch_encoder env r s)"
  by (auto simp: untouch_encoder_def res_wp intro!: okEI)

lemma allocate_waiting_lists:
  "okE (\<lambda>(ok, s'). same_lists s s') (allocate_waiting cfg env r computed is n s)"
  by (auto simp: allocate_waiting_def Let_def res_wp split: option.splits prod.splits
      intro!: okEI dest!: okED [OF untouch_encoder_lists])

definition queued :: "'c scheduler \<Rightarrow> nat" where
  "queued s = size (q_contents (waiting s)) + size (q_contents (skipped_waiting s))"

lemma same_lists_queued: "same_lists s t \<Longrightarrow> queued t = queued s"
  by (simp add: same_lists_def queued_def)

lemma same_lists_get_queue: "same_lists s t \<Longrightarrow> get_queue w t = get_queue w s"
  by (cases w) (simp_all add: same_lists_def)

lemma queued_set_queue:
  "q_pop_request lt (get_queue w s) = Inr (q, rest) \<Longrightarrow> queued s = Suc (queued (set_queue w rest s))"
  by (cases w) (auto simp: queued_def dest: bag.pop_size)

lemma skip_front_queued: "okE (\<lambda>L'. queued (l_sched L') < queued (l_sched L)) (skip_front w q L)"
  by (auto simp: skip_front_def Let_def res_wp intro!: okEI dest: queued_set_queue)

lemma allocate_encoder_lists: "okE (\<lambda>L'. same_lists (l_sched L) (l_sched L')) (allocate_encoder env q is L)"
  unfolding allocate_encoder_def
  by (auto simp: res_wp Let_def intro!: okEI dest!: okED [OF okE_foldE
      [where P = "\<lambda>M. same_lists (l_sched L) (l_sched M)"], rotated 2])

lemma schedule_encoder_lists:
  "okE (\<lambda>L'. same_lists (l_sched L) (l_sched L')) (schedule_encoder env q is budget ext L)"
  by (auto simp: schedule_encoder_def res_wp intro!: okEI dest!: okED [OF allocate_encoder_lists]
      intro: same_lists_trans)

lemma start_request_queued:
  "okE (\<lambda>L'. queued (l_sched L') = queued (l_sched L)) (start_request cfg env q ncomp plan L)"
proof -
  have q: "queued (put r t) = queued t" "queued (t\<lparr>running := x\<rparr>) = queued t" for r :: request and t :: "'a scheduler" and x
    by (simp_all add: queued_def put_def)
  show ?thesis
    by (auto simp: start_request_def res_wp Let_def q split: prod.splits intro!: okEI
        dest!: okED [OF schedule_encoder_lists] same_lists_queued)
qed

lemma admit_waiting_queued:
  "okE (\<lambda>L'. queued (l_sched L') < queued (l_sched L)) (admit_waiting cfg env w q load_async ncomp plan L)"
proof -
  have q: "queued (put r t) = queued t" for r :: request and t :: "'a scheduler"
    by (simp add: queued_def put_def)
  show ?thesis
    by (auto simp: admit_waiting_def res_wp Let_def q intro!: okEI dest!: queued_set_queue
        okED [OF start_request_queued])
qed

lemma place_waiting_queued:
  "okE (\<lambda>(go_on, L'). go_on \<longrightarrow> queued (l_sched L') < queued (l_sched L)) (place_waiting cfg env w q r L)"
  unfolding place_waiting_def
  by (auto simp: res_wp Let_def split: option.splits prod.splits
      intro!: okEI dest!: okED [OF find_computed_lists] okED [OF plan_waiting_lists]
        okED [OF allocate_waiting_lists] okED [OF skip_front_queued] okED [OF admit_waiting_queued]
        same_lists_queued)

lemma waiting_step_queued:
  assumes "waiting_step cfg env L = Inr (True, L')"
  shows "queued (l_sched L') < queued (l_sched L)"
proof -
  have "okE (\<lambda>(go_on, L'). go_on \<longrightarrow> queued (l_sched L') < queued (l_sched L)) (waiting_step cfg env L)"
    unfolding waiting_step_def
    by (auto simp: res_wp Let_def split: option.splits
        intro!: okEI dest!: okED [OF promote_lists] okED [OF skip_front_queued]
          okED [OF place_waiting_queued] same_lists_queued)
  from okED [OF this assms] show ?thesis by simp
qed

function waiting_loop :: "sched_config \<Rightarrow> 'c sched_env \<Rightarrow> 'c step_state \<Rightarrow> 'c step_state res" where
  "waiting_loop cfg env L =
     (if (q_bool (waiting (l_sched L)) \<or> q_bool (skipped_waiting (l_sched L))) \<and> l_token_budget L > 0
      then bindE (waiting_step cfg env L) (\<lambda>(go_on, L').
             if go_on then waiting_loop cfg env L' else Inr L')
      else Inr L)"
  by pat_completeness auto
termination
proof (relation "measure (\<lambda>(cfg, env, L). queued (l_sched L))", goal_cases)
  case (2 cfg env L x go_on L')
  then show ?case using waiting_step_queued [of cfg env L L'] by auto
qed simp

declare waiting_loop.simps [simp del]

section \<open>The output\<close>

record new_request_data =
  nr_req_id :: req_id
  nr_prompt_token_ids :: "token list option"
  nr_mm_features :: "mm_feature list"
  nr_sampling_params :: "sampling_params option"
  nr_pooling_params :: "pooling_params option"
  nr_block_ids :: "int list list"
  nr_num_computed_tokens :: int
  nr_lora_request :: "lora_request option"
  nr_prompt_embeds :: "int list list option"
  nr_prefill_token_ids :: "token list option"

definition new_request_data_of :: "request \<Rightarrow> int list list \<Rightarrow> token list option \<Rightarrow> new_request_data" where
  "new_request_data_of r ids prefill =
     \<lparr>nr_req_id = request_id r, nr_prompt_token_ids = prompt_token_ids r, nr_mm_features = mm_features r,
      nr_sampling_params = sampling r, nr_pooling_params = pooling r, nr_block_ids = ids,
      nr_num_computed_tokens = num_computed_tokens r, nr_lora_request = lora r,
      nr_prompt_embeds = prompt_embeds r, nr_prefill_token_ids = prefill\<rparr>"

record cached_request_data =
  cr_req_ids :: "req_id list"
  cr_resumed_req_ids :: "req_id set"
  cr_new_token_ids :: "token list list"
  cr_all_token_ids :: "req_id \<rightharpoonup> token list"
  cr_new_block_ids :: "int list list option list"
  cr_num_computed_tokens :: "int list"
  cr_num_output_tokens :: "int list"

definition empty_cached_request_data :: cached_request_data where
  "empty_cached_request_data =
     \<lparr>cr_req_ids = [], cr_resumed_req_ids = {}, cr_new_token_ids = [], cr_all_token_ids = Map.empty,
      cr_new_block_ids = [], cr_num_computed_tokens = [], cr_num_output_tokens = []\<rparr>"

record scheduler_output =
  so_scheduled_new_reqs :: "new_request_data list"
  so_scheduled_cached_reqs :: cached_request_data
  so_num_scheduled_tokens :: "(req_id \<times> int) list"
  so_total_num_scheduled_tokens :: int
  so_scheduled_spec_decode_tokens :: "req_id \<rightharpoonup> token list"
  so_scheduled_encoder_inputs :: "req_id \<rightharpoonup> int list"
  so_num_common_prefix_blocks :: "int list"
  so_preempted_req_ids :: "req_id set"
  so_finished_req_ids :: "req_id set"
  so_free_encoder_mm_hashes :: "string list"
  so_new_block_ids_to_zero :: "int list option"
  so_has_structured_output_requests :: bool
  so_pending_structured_output_tokens :: bool
  so_num_invalid_spec_tokens :: "req_id \<rightharpoonup> int"

text \<open>\<^verbatim>\<open>_make_cached_request_data\<close>: one entry per running or resumed request; \<^verbatim>\<open>resumed\<close> marks the latter.\<close>

definition add_cached_request ::
  "sched_config \<Rightarrow> 'c step_state \<Rightarrow> bool \<Rightarrow> req_id \<Rightarrow> cached_request_data \<Rightarrow> cached_request_data res" where
  "add_cached_request cfg L resumed q d =
     (let s = l_sched L in
      bindE (lookup q s) (\<lambda>r.
      bindE (if sc_use_pp cfg \<and> \<not> sc_async_scheduling cfg
             then (case map_of (l_num_scheduled L) q of
                     None \<Rightarrow> Inl KeyError
                   | Some n \<Rightarrow>
                       let m = n - int (length (case l_spec L q of None \<Rightarrow> [] | Some t \<Rightarrow> t)) in
                       Inr [py_slice (all_token_ids r) (num_computed_tokens r) (num_computed_tokens r + m)])
             else Inr []) (\<lambda>toks.
      let prev = (q \<in> prev_step_scheduled_req_ids s) in
      assertE (resumed \<longrightarrow> \<not> prev)
        (case l_new_blocks L q of
           None \<Rightarrow> Inl KeyError
         | Some b \<Rightarrow>
             Inr (d\<lparr>cr_req_ids := cr_req_ids d @ [q],
                    cr_new_token_ids := cr_new_token_ids d @ toks,
                    cr_resumed_req_ids :=
                      (if resumed then insert q (cr_resumed_req_ids d) else cr_resumed_req_ids d),
                    cr_all_token_ids :=
                      (if prev then cr_all_token_ids d else (cr_all_token_ids d)(q \<mapsto> all_token_ids r)),
                    cr_new_block_ids :=
                      cr_new_block_ids d @ [blocks_ids_or_none (pool_of (kv s)) (kv_lists (kv s) b)],
                    cr_num_computed_tokens := cr_num_computed_tokens d @ [num_computed_tokens r],
                    cr_num_output_tokens :=
                      cr_num_output_tokens d @ [num_output_tokens r + num_output_placeholders r]\<rparr>)))))"

definition make_cached_request_data ::
  "sched_config \<Rightarrow> req_id list \<Rightarrow> req_id list \<Rightarrow> 'c step_state \<Rightarrow> cached_request_data res" where
  "make_cached_request_data cfg run resumed L =
     bindE (foldE (add_cached_request cfg L False) run empty_cached_request_data)
       (foldE (add_cached_request cfg L True) resumed)"

definition make_new_request_data ::
  "'c step_state \<Rightarrow> bool \<Rightarrow> req_id \<Rightarrow> new_request_data res" where
  "make_new_request_data L prefill q =
     (let s = l_sched L in
      bindE (lookup q s) (\<lambda>r.
        case l_new_blocks L q of
          None \<Rightarrow> Inl KeyError
        | Some b \<Rightarrow> Inr (new_request_data_of r (blocks_ids (pool_of (kv s)) (kv_lists (kv s) b))
                          (if prefill then Some (all_token_ids r) else None))))"

section \<open>After the step\<close>

definition advance_request ::
  "sched_config \<Rightarrow> 'c sched_env \<Rightarrow> req_id \<times> int \<Rightarrow> 'c scheduler \<times> scheduler_output \<Rightarrow>
   ('c scheduler \<times> scheduler_output) res" where
  "advance_request cfg env e so =
     (case (e, so) of ((q, n), (s, out)) \<Rightarrow>
      bindE (lookup q s) (\<lambda>r.
      let ncomp = num_computed_tokens r + n;
          chunk = (ncomp < num_tokens r + num_output_placeholders r);
          r' = r\<lparr>num_computed_tokens := ncomp, is_prefill_chunk := chunk\<rparr>;
          out' = out\<lparr>so_has_structured_output_requests :=
                       (so_has_structured_output_requests out \<or> structured_output r \<and> \<not> chunk)\<rparr>;
          s' = put r' s
      in bindE (if has_encoder_inputs r' then free_encoder_inputs cfg env r' s' else Inr s') (\<lambda>s''.
           Inr (s'', out'))))"

text \<open>The asynchronous scheduler adds placeholders for the tokens that the step will produce.\<close>

definition add_placeholders ::
  "sched_config \<Rightarrow> req_id \<times> int \<Rightarrow> 'c scheduler \<times> scheduler_output \<Rightarrow> ('c scheduler \<times> scheduler_output) res" where
  "add_placeholders cfg e so =
     (case (e, so) of ((q, n), (s, out)) \<Rightarrow>
      bindE (lookup q s) (\<lambda>r.
        if is_prefill_chunk r then Inr (s, out)
        else
          let out' = out\<lparr>so_pending_structured_output_tokens :=
                (so_pending_structured_output_tokens out \<or> structured_output r \<and> num_output_placeholders r > 0)\<rparr>;
              nspec = int (length (case so_scheduled_spec_decode_tokens out q of None \<Rightarrow> [] | Some t \<Rightarrow> t));
              r' = r\<lparr>num_output_placeholders := num_output_placeholders r + (1 + nspec),
                     spec_token_ids := replicate (nat (sc_num_spec_tokens cfg)) (-1)\<rparr>
          in Inr (put r' s, out')))"

definition update_after_schedule ::
  "sched_config \<Rightarrow> 'c sched_env \<Rightarrow> scheduler_output \<Rightarrow> 'c scheduler \<Rightarrow> (scheduler_output \<times> 'c scheduler) res" where
  "update_after_schedule cfg env out s =
     bindE (foldE (advance_request cfg env) (so_num_scheduled_tokens out) (s, out)) (\<lambda>(s1, out1).
     let s2 = s1\<lparr>finished_req_ids := {}\<rparr> in
     bindE (if sc_async_scheduling cfg
            then foldE (add_placeholders cfg) (so_num_scheduled_tokens out1) (s2, out1)
            else Inr (s2, out1)) (\<lambda>(s3, out2). Inr (out2, s3)))"

section \<open>The step\<close>

definition scheduled_loras :: "sched_config \<Rightarrow> 'c step_state \<Rightarrow> int set res" where
  "scheduled_loras cfg L =
     (case sc_max_loras cfg of
        None \<Rightarrow> Inr {}
      | Some m \<Rightarrow>
          let ids = set (concat (map (\<lambda>q.
                case reqs (l_sched L) q of
                  None \<Rightarrow> []
                | Some r \<Rightarrow> (case lora r of None \<Rightarrow> []
                              | Some lr \<Rightarrow> if adapter_id lr > 0 then [adapter_id lr] else []))
                (l_running L)))
          in assertE (int (card ids) \<le> m) (Inr ids))"

definition schedule_waiting :: "sched_config \<Rightarrow> 'c sched_env \<Rightarrow> 'c step_state \<Rightarrow> 'c step_state res" where
  "schedule_waiting cfg env L =
     (if l_preempted L = [] \<and> pause (l_sched L) = UNPAUSED
      then bindE (waiting_loop cfg env L) (\<lambda>L'.
           Inr (if q_bool (l_skipped L')
                then on_sched (\<lambda>s. s\<lparr>skipped_waiting :=
                       q_prepend_requests (req_lt s) (l_skipped L') (skipped_waiting s)\<rparr>) L'
                else L'))
      else Inr L)"

definition step_checks :: "sched_config \<Rightarrow> 'c step_state \<Rightarrow> bool" where
  "step_checks cfg L \<longleftrightarrow>
     sum_list (map snd (l_num_scheduled L)) \<le> sc_max_num_scheduled_tokens cfg \<and> l_token_budget L \<ge> 0 \<and>
     int (length (running (l_sched L))) \<le> sc_max_num_running_reqs cfg \<and>
     length (l_new L) + length (l_resumed L) + length (l_running L) \<le> length (running (l_sched L))"

definition build_output ::
  "sched_config \<Rightarrow> 'c sched_env \<Rightarrow> 'c step_state \<Rightarrow> (scheduler_output \<times> 'c scheduler) res" where
  "build_output cfg env L =
     bindE (case running (l_sched L) of
              [] \<Rightarrow> Inr (replicate (num_kv_cache_groups (kv (l_sched L))) 0, kv (l_sched L))
            | q # _ \<Rightarrow> kv_num_common_prefix_blocks q (kv (l_sched L))) (\<lambda>(common, k).
     let L1 = on_sched (\<lambda>s. s\<lparr>kv := k\<rparr>) L;
         v2 = sc_use_v2_model_runner cfg;
         new = (if v2 then l_new L1 @ l_resumed L1 else l_new L1);
         resumed = (if v2 then [] else l_resumed L1)
     in
     bindE (mapE (make_new_request_data L1 v2) new) (\<lambda>new_data.
     bindE (make_cached_request_data cfg (l_running L1) resumed L1) (\<lambda>cached_data.
     let s1 = (l_sched L1)\<lparr>prev_step_scheduled_req_ids := fst ` set (l_num_scheduled L1)\<rparr>;
         (zero, k2) = (if sc_needs_kv_cache_zeroing cfg
                       then let (ids, k') = kv_take_new_block_ids (kv s1)
                            in (if ids = [] then None else Some ids, k')
                       else (None, kv s1));
         (hashes, e2) = em_get_freed (enc s1);
         s2 = s1\<lparr>kv := k2, enc := e2\<rparr>;
         s3 = (case en_connector env of
                 None \<Rightarrow> s2 | Some cn \<Rightarrow> s2\<lparr>envst := cn_build_connector_meta cn (envst s2)\<rparr>)
     in Inr (\<lparr>so_scheduled_new_reqs = new_data, so_scheduled_cached_reqs = cached_data,
              so_num_scheduled_tokens = l_num_scheduled L1,
              so_total_num_scheduled_tokens = sum_list (map snd (l_num_scheduled L1)),
              so_scheduled_spec_decode_tokens = l_spec L1, so_scheduled_encoder_inputs = l_encoder_inputs L1,
              so_num_common_prefix_blocks = common, so_preempted_req_ids = set (l_preempted L1),
              so_finished_req_ids = finished_req_ids s3, so_free_encoder_mm_hashes = hashes,
              so_new_block_ids_to_zero = zero, so_has_structured_output_requests = False,
              so_pending_structured_output_tokens = False, so_num_invalid_spec_tokens = Map.empty\<rparr>, s3))))"

definition schedule ::
  "sched_config \<Rightarrow> 'c sched_env \<Rightarrow> 'c scheduler \<Rightarrow> (scheduler_output \<times> 'c scheduler) res" where
  "schedule cfg env s =
     bindE (running_loop cfg env (init_step cfg s)) (\<lambda>L1.
     bindE (scheduled_loras cfg L1) (\<lambda>loras.
     bindE (schedule_waiting cfg env (L1\<lparr>l_loras := loras\<rparr>)) (\<lambda>L2.
     assertE (step_checks cfg L2)
       (bindE (build_output cfg env L2) (\<lambda>(out, s'). update_after_schedule cfg env out s')))))"

end
