(* ===== verification/Sched_Update.thy ===== *)
theory Sched_Update
  imports Schedule
begin

text \<open>
  Processing the model's output: \<^verbatim>\<open>Scheduler.update_from_output\<close> with the handling of sampled tokens,
  stops, streaming sessions, failed KV loads and finished transfers, the draft tokens of speculative
  decoding, and the resets of the caches. Log-probabilities, pooled tensors, expert routing data and
  statistics travel through the method without being looked at and are left out, as is the advance of
  a grammar, whose state is outside the scheduler.
\<close>

section \<open>Inputs and outputs\<close>

record kv_connector_output =
  ko_invalid_block_ids :: "int list"
  ko_finished_recving :: "req_id list"
  ko_finished_sending :: "req_id list"

text \<open>Of a pooled output only its presence matters; \<^verbatim>\<open>mo_pooler_output\<close> is empty when the model does not
  pool.\<close>

record model_runner_output =
  mo_req_id_to_index :: "req_id \<rightharpoonup> int"
  mo_sampled_token_ids :: "token list list"
  mo_pooler_output :: "bool list"
  mo_num_nans_in_logits :: "req_id \<rightharpoonup> int"
  mo_kv_connector_output :: "kv_connector_output option"

record engine_core_output =
  eo_request_id :: req_id
  eo_new_token_ids :: "token list"
  eo_finish_reason :: "finish_reason option"
  eo_stop_reason :: "stop_reason option"
  eo_num_cached_tokens :: int
  eo_num_external_computed_tokens :: int
  eo_num_nans_in_logits :: int

record engine_core_outputs =
  es_outputs :: "engine_core_output list"
  es_finished_requests :: "req_id set option"

section \<open>Sampled tokens\<close>

fun append_until_stop ::
  "sched_config \<Rightarrow> request \<Rightarrow> token list \<Rightarrow> token list \<Rightarrow> (token list \<times> bool \<times> request) res" where
  "append_until_stop cfg r used [] = Inr (used, False, r)"
| "append_until_stop cfg r used (t # ts) =
     bindE (append_output_token_ids (sc_block_hasher cfg) [t] r) (\<lambda>r1.
     bindE (check_stop r1 (sc_max_model_len cfg)) (\<lambda>(stopped, r2).
       if stopped then Inr (used @ [t], True, r2) else append_until_stop cfg r2 (used @ [t]) ts))"

definition base_update_request_with_output ::
  "sched_config \<Rightarrow> request \<Rightarrow> token list \<Rightarrow> (token list \<times> bool \<times> request) res" where
  "base_update_request_with_output cfg r toks = append_until_stop cfg r [] toks"

definition async_update_request_with_output ::
  "sched_config \<Rightarrow> request \<Rightarrow> token list \<Rightarrow> kv_manager \<Rightarrow> (token list \<times> bool \<times> request \<times> kv_manager) res" where
  "async_update_request_with_output cfg r toks k =
     (if discard_latest_async_tokens r
      then Inr ([], False, r\<lparr>discard_latest_async_tokens := False\<rparr>, k)
      else
        bindE (base_update_request_with_output cfg r toks) (\<lambda>(used, stopped, r1).
        let r2 = r1\<lparr>num_output_placeholders := num_output_placeholders r1 - int (length used)\<rparr> in
        assertE (num_output_placeholders r2 \<ge> 0)
          (if status r = RUNNING
           then bindE (kv_cache_blocks_of r2 (num_computed_tokens r2 - num_output_placeholders r2) k) (\<lambda>(r3, k').
                Inr (used, stopped, r3, k'))
           else Inr (used, stopped, r2, k))))"

definition update_request_with_output ::
  "sched_config \<Rightarrow> request \<Rightarrow> token list \<Rightarrow> 'c scheduler \<Rightarrow> (token list \<times> bool \<times> request \<times> 'c scheduler) res" where
  "update_request_with_output cfg r toks s =
     (if sc_async_scheduling cfg
      then bindE (async_update_request_with_output cfg r toks (kv s)) (\<lambda>(used, stopped, r', k).
           Inr (used, stopped, r', put r' (s\<lparr>kv := k\<rparr>)))
      else bindE (base_update_request_with_output cfg r toks) (\<lambda>(used, stopped, r').
           Inr (used, stopped, r', put r' s)))"

section \<open>One request\<close>

record 'c update_state =
  u_sched :: "'c scheduler"
  u_outputs :: "(int \<times> engine_core_output) list"
  u_stopped_running :: "req_id list"
  u_stopped_preempted :: "req_id list"

text \<open>Rejected draft tokens were counted as computed.\<close>

definition undo_rejected :: "scheduler_output \<Rightarrow> token list \<Rightarrow> request \<Rightarrow> request" where
  "undo_rejected out generated r =
     (case so_scheduled_spec_decode_tokens out (request_id r) of
        Some (d # ds) \<Rightarrow>
          if generated = [] then r
          else
            let rejected = int (length (d # ds)) - (int (length generated) - 1);
                r1 = (if num_computed_tokens r > 0
                      then r\<lparr>num_computed_tokens := num_computed_tokens r - rejected\<rparr> else r)
            in if num_output_placeholders r1 > 0
               then r1\<lparr>num_output_placeholders := num_output_placeholders r1 - rejected\<rparr> else r1
      | _ \<Rightarrow> r)"

text \<open>A stopped request leaves its list, at once or after the loop, and is freed unless its session goes
  on.\<close>

definition stop_request ::
  "sched_config \<Rightarrow> 'c sched_env \<Rightarrow> request_status \<Rightarrow> request \<Rightarrow> 'c update_state \<Rightarrow> (request \<times> 'c update_state) res" where
  "stop_request cfg env old_status r U =
     bindE (handle_stopped_request cfg r (u_sched U)) (\<lambda>(finished, r1, s1).
     bindE (if finished then free_request env r1 False s1 else Inr s1) (\<lambda>s2.
       let U1 = U\<lparr>u_sched := s2\<rparr> in
       Inr (r1, if old_status = RUNNING
                then U1\<lparr>u_stopped_running := List.insert (request_id r1) (u_stopped_running U1)\<rparr>
                else U1\<lparr>u_stopped_preempted := List.insert (request_id r1) (u_stopped_preempted U1)\<rparr>)))"

definition emit_output ::
  "request \<Rightarrow> token list \<Rightarrow> finish_reason option \<Rightarrow> 'c update_state \<Rightarrow> 'c update_state" where
  "emit_output r toks reason U =
     U\<lparr>u_outputs := u_outputs U @ [(client_index r,
        \<lparr>eo_request_id = request_id r, eo_new_token_ids = toks, eo_finish_reason = reason,
         eo_stop_reason = stop_reason_of r, eo_num_cached_tokens = num_cached_tokens r,
         eo_num_external_computed_tokens = num_external_computed_tokens r,
         eo_num_nans_in_logits = num_nans_in_logits r\<rparr>)]\<rparr>"

definition note_nans :: "model_runner_output \<Rightarrow> request \<Rightarrow> request" where
  "note_nans mo r =
     (case mo_num_nans_in_logits mo (request_id r) of
        None \<Rightarrow> r | Some n \<Rightarrow> r\<lparr>num_nans_in_logits := n\<rparr>)"

text \<open>A request that has been freed keeps its object; its entry in the dictionary is gone, so only a
  request that is still there is written back.\<close>

definition put_back :: "request \<Rightarrow> 'c update_state \<Rightarrow> 'c update_state" where
  "put_back r U =
     (if reqs (u_sched U) (request_id r) = None then U else U\<lparr>u_sched := put r (u_sched U)\<rparr>)"

definition process_request ::
  "sched_config \<Rightarrow> 'c sched_env \<Rightarrow> scheduler_output \<Rightarrow> model_runner_output \<Rightarrow> request \<Rightarrow> 'c update_state \<Rightarrow>
   'c update_state res" where
  "process_request cfg env out mo r0 U =
     bindE (case mo_req_id_to_index mo (request_id r0) of None \<Rightarrow> Inl KeyError | Some i \<Rightarrow> Inr i) (\<lambda>i.
     bindE (if mo_sampled_token_ids mo = [] then Inr [] else py_get (mo_sampled_token_ids mo) i) (\<lambda>generated.
     bindE (if mo_pooler_output mo = [] then Inr False else py_get (mo_pooler_output mo) i) (\<lambda>pooled.
     let r1 = undo_rejected out generated r0; s1 = put r1 (u_sched U) in
     bindE (if generated \<noteq> [] then update_request_with_output cfg r1 generated s1
            else if pooling r1 \<noteq> None \<and> pooled
            then let r2 = r1\<lparr>status := FINISHED_STOPPED\<rparr> in Inr ([], True, r2, put r2 s1)
            else Inr ([], False, r1, s1)) (\<lambda>(toks, stopped, r2, s2).
     let reason = (if stopped then get_finished_reason r2 else None); U2 = U\<lparr>u_sched := s2\<rparr> in
     bindE (if stopped then stop_request cfg env (status r1) r2 U2 else Inr (r2, U2)) (\<lambda>(r3, U3).
     let r4 = note_nans mo r3; U4 = put_back r4 U3 in
     Inr (if toks \<noteq> [] \<or> pooled \<or> stopped then emit_output r4 toks reason U4 else U4))))))"

definition update_one ::
  "sched_config \<Rightarrow> 'c sched_env \<Rightarrow> scheduler_output \<Rightarrow> model_runner_output \<Rightarrow> req_id set \<Rightarrow> req_id \<times> int \<Rightarrow>
   'c update_state \<Rightarrow> 'c update_state res" where
  "update_one cfg env out mo failed e U =
     (case e of (q, n) \<Rightarrow>
        assertE (n > 0)
          (if q \<in> failed then Inr U
           else case reqs (u_sched U) q of
             None \<Rightarrow> Inr U
           | Some r \<Rightarrow> if is_finished r then Inr U else process_request cfg env out mo r U))"

section \<open>Failed and finished transfers\<close>

record inv_state =
  iv_req :: request
  iv_affected :: bool
  iv_marked :: bool
  iv_marked_ids :: "int set"
  iv_tokens :: int
  iv_evict :: "int set"

fun invalid_block_loop ::
  "int \<Rightarrow> bool \<Rightarrow> int list \<Rightarrow> int list \<Rightarrow> int \<Rightarrow> (int \<times> int) list \<Rightarrow> inv_state \<Rightarrow> inv_state" where
  "invalid_block_loop bs evict invalid ids ncomp [] v = v"
| "invalid_block_loop bs evict invalid ids ncomp ((idx, b) # rest) v =
     invalid_block_loop bs evict invalid ids ncomp rest
       (if b \<notin> set invalid then v
        else
          let v1 = v\<lparr>iv_affected := True\<rparr> in
          if b \<in> iv_marked_ids v1 then v1
          else
            let v2 = v1\<lparr>iv_marked_ids := insert b (iv_marked_ids v1)\<rparr> in
            if iv_marked v2 then v2
            else
              let affected = ncomp - idx * bs; r = iv_req v2 in
              v2\<lparr>iv_marked := True,
                 iv_req := r\<lparr>num_computed_tokens := idx * bs,
                             num_external_computed_tokens := num_external_computed_tokens r - affected\<rparr>,
                 iv_tokens := iv_tokens v2 + affected,
                 iv_evict := (if evict then iv_evict v2 \<union> set (py_from ids idx) else iv_evict v2)\<rparr>)"

definition update_invalid_request ::
  "sched_config \<Rightarrow> bool \<Rightarrow> int list \<Rightarrow> (req_id \<times> int) list \<Rightarrow> req_id \<Rightarrow>
   (req_id set \<times> int \<times> int set \<times> int set) \<times> 'c scheduler \<Rightarrow>
   ((req_id set \<times> int \<times> int set \<times> int set) \<times> 'c scheduler) res" where
  "update_invalid_request cfg evict invalid nsched q acc =
     (case acc of ((affected, tokens, evicted, marked), s) \<Rightarrow>
      bindE (lookup q s) (\<lambda>r.
      case kv_get_block_ids q (kv s) of
        [ids] \<Rightarrow>
          let ncomp = num_computed_tokens r - (case map_of nsched q of None \<Rightarrow> 0 | Some n \<Rightarrow> n);
              nblocks = (ncomp + sc_block_size cfg - 1) div sc_block_size cfg;
              v = invalid_block_loop (sc_block_size cfg) evict invalid ids ncomp
                    (zip [0..nblocks - 1] ids)
                    \<lparr>iv_req = r, iv_affected = False, iv_marked = False, iv_marked_ids = marked,
                     iv_tokens = tokens, iv_evict = evicted\<rparr>;
              v' = (if iv_affected v \<and> \<not> iv_marked v
                    then v\<lparr>iv_tokens := iv_tokens v + (num_computed_tokens (iv_req v) - ncomp),
                           iv_req := (iv_req v)\<lparr>num_computed_tokens := ncomp\<rparr>\<rparr>
                    else v)
          in if sc_block_size cfg = 0 then Inl ZeroDivisionError
             else Inr ((if iv_affected v' then insert q affected else affected, iv_tokens v', iv_evict v',
                        iv_marked_ids v'), put (iv_req v') s)
      | _ \<Rightarrow> Inl ValueError))"

definition update_requests_with_invalid_blocks ::
  "sched_config \<Rightarrow> bool \<Rightarrow> int list \<Rightarrow> (req_id \<times> int) list \<Rightarrow> req_id list \<Rightarrow> 'c scheduler \<Rightarrow>
   ((req_id set \<times> int \<times> int set) \<times> 'c scheduler) res" where
  "update_requests_with_invalid_blocks cfg evict invalid nsched qs s =
     bindE (foldE (update_invalid_request cfg evict invalid nsched) qs (({}, 0, {}, {}), s))
       (\<lambda>((affected, tokens, evicted, _), s'). Inr ((affected, tokens, evicted), s'))"

definition handle_invalid_blocks ::
  "sched_config \<Rightarrow> 'c sched_env \<Rightarrow> int list \<Rightarrow> (req_id \<times> int) list \<Rightarrow> 'c scheduler \<Rightarrow>
   (req_id set \<times> 'c scheduler) res" where
  "handle_invalid_blocks cfg env invalid nsched s =
     bindE (update_requests_with_invalid_blocks cfg False invalid nsched
              (filter (has_status WAITING_FOR_REMOTE_KVS s) (q_iter (req_lt s) (skipped_waiting s))) s)
       (\<lambda>((async_failed, _, _), s1).
     bindE (update_requests_with_invalid_blocks cfg True invalid nsched (running s1) s1)
       (\<lambda>((sync_failed, _, evict), s2).
     if async_failed = {} \<and> sync_failed = {} then Inr ({}, s2)
     else
       bindE (if evict \<noteq> {} \<and> \<not> sc_recompute_kv_load_failures cfg
              then bindE (kv_evict_blocks (en_order env evict) (kv s2)) (\<lambda>k. Inr (s2\<lparr>kv := k\<rparr>))
              else Inr s2) (\<lambda>s3.
       if \<not> sc_recompute_kv_load_failures cfg then Inr (async_failed \<union> sync_failed, s3)
       else Inr (sync_failed,
                 s3\<lparr>failed_recving_kv_req_ids := failed_recving_kv_req_ids s3 \<union> async_failed\<rparr>))))"

definition finished_recving :: "req_id \<Rightarrow> 'c scheduler \<Rightarrow> 'c scheduler res" where
  "finished_recving q s =
     (case reqs s q of
        None \<Rightarrow> Inl AssertionError
      | Some r \<Rightarrow>
          if status r = WAITING_FOR_REMOTE_KVS
          then Inr (s\<lparr>finished_recving_kv_req_ids := insert q (finished_recving_kv_req_ids s)\<rparr>)
          else assertE (is_finished r) (free_blocks_of r s))"

definition finished_sending :: "req_id \<Rightarrow> 'c scheduler \<Rightarrow> 'c scheduler res" where
  "finished_sending q s =
     (case reqs s q of None \<Rightarrow> Inl AssertionError | Some r \<Rightarrow> free_blocks_of r s)"

definition update_from_kv_xfer_finished ::
  "'c sched_env \<Rightarrow> kv_connector_output \<Rightarrow> 'c scheduler \<Rightarrow> 'c scheduler res" where
  "update_from_kv_xfer_finished env ko s =
     (let s1 = (case en_connector env of
                  None \<Rightarrow> s | Some cn \<Rightarrow> s\<lparr>envst := cn_update_connector_output cn (envst s)\<rparr>) in
      bindE (foldE finished_recving (ko_finished_recving ko) s1)
        (foldE finished_sending (ko_finished_sending ko)))"

section \<open>The update\<close>

definition remove_stopped :: "'c update_state \<Rightarrow> 'c scheduler" where
  "remove_stopped U =
     (let s = u_sched U;
          s1 = (if u_stopped_running U = [] then s
                else s\<lparr>running := remove_all (running s) (u_stopped_running U)\<rparr>)
      in if u_stopped_preempted U = [] then s1
         else s1\<lparr>waiting := q_remove_requests (req_lt s1) (u_stopped_preempted U) (waiting s1)\<rparr>)"

definition fail_requests ::
  "sched_config \<Rightarrow> 'c sched_env \<Rightarrow> req_id set \<Rightarrow> 'c update_state \<Rightarrow> 'c update_state res" where
  "fail_requests cfg env failed U =
     (if failed = {} \<or> sc_recompute_kv_load_failures cfg then Inr U
      else
        let qs = en_req_order env failed in
        bindE (mapE (\<lambda>q. lookup q (u_sched U)) qs) (\<lambda>rs.
        bindE (finish_requests env qs FINISHED_ERROR (u_sched U)) (\<lambda>(_, s).
          Inr (fold (\<lambda>r U. emit_output (r\<lparr>num_external_computed_tokens := 0, num_nans_in_logits := 0,
                                            stop_reason_of := None\<rparr>) []
                              (if is_finished r then get_finished_reason r
                               else finished_reason_map FINISHED_ERROR) U) rs
                 (U\<lparr>u_sched := s\<rparr>)))))"

text \<open>The outputs grouped by client, with the ids of the requests that finished.\<close>

definition collect_outputs ::
  "(int \<times> engine_core_output) list \<Rightarrow> (int \<rightharpoonup> req_id set) option \<Rightarrow> int \<rightharpoonup> engine_core_outputs" where
  "collect_outputs outs fin c =
     (let mine = map snd (filter (\<lambda>e. fst e = c) outs);
          ids = (case fin of None \<Rightarrow> None | Some d \<Rightarrow> d c)
      in if mine = [] \<and> ids = None then None
         else Some \<lparr>es_outputs = mine, es_finished_requests = ids\<rparr>)"

definition update_from_output ::
  "sched_config \<Rightarrow> 'c sched_env \<Rightarrow> scheduler_output \<Rightarrow> model_runner_output \<Rightarrow> 'c scheduler \<Rightarrow>
   ((int \<rightharpoonup> engine_core_outputs) \<times> 'c scheduler) res" where
  "update_from_output cfg env out mo s =
     bindE (case mo_kv_connector_output mo of
              None \<Rightarrow> Inr ({}, s)
            | Some ko \<Rightarrow>
                if ko_invalid_block_ids ko = [] then Inr ({}, s)
                else handle_invalid_blocks cfg env (ko_invalid_block_ids ko) (so_num_scheduled_tokens out) s)
       (\<lambda>(failed, s1).
     bindE (foldE (update_one cfg env out mo failed) (so_num_scheduled_tokens out)
              \<lparr>u_sched = s1, u_outputs = [], u_stopped_running = [], u_stopped_preempted = []\<rparr>) (\<lambda>U.
     bindE (fail_requests cfg env failed (U\<lparr>u_sched := remove_stopped U\<rparr>)) (\<lambda>U1.
     bindE (case mo_kv_connector_output mo of
              None \<Rightarrow> Inr (u_sched U1)
            | Some ko \<Rightarrow> update_from_kv_xfer_finished env ko (u_sched U1)) (\<lambda>s2.
     let s3 = s2\<lparr>kv := snd (kv_take_events (kv s2))\<rparr> in
     Inr (collect_outputs (u_outputs U1) (finished_req_ids_dict s3),
          s3\<lparr>finished_req_ids_dict := map_option (\<lambda>_. Map.empty) (finished_req_ids_dict s3)\<rparr>)))))"

section \<open>Draft tokens\<close>

definition update_draft_one ::
  "'c sched_env \<Rightarrow> req_id \<times> token list \<Rightarrow> 'c scheduler \<Rightarrow> 'c scheduler" where
  "update_draft_one env e s =
     (case e of (q, toks) \<Rightarrow>
        case reqs s q of
          None \<Rightarrow> s
        | Some r \<Rightarrow>
            if is_finished r then s
            else if is_prefill_chunk r then put (r\<lparr>spec_token_ids := []\<rparr>) s
            else put (r\<lparr>spec_token_ids :=
                          (if en_should_advance env (envst s) r
                           then en_validate_tokens env (envst s) r toks else toks)\<rparr>) s)"

definition update_draft_token_ids :: "'c sched_env \<Rightarrow> req_id list \<Rightarrow> token list list \<Rightarrow> 'c scheduler \<Rightarrow> 'c scheduler" where
  "update_draft_token_ids env ids drafts s = fold (update_draft_one env) (zip ids drafts) s"

definition update_draft_in_output_one ::
  "'c sched_env \<Rightarrow> 'c scheduler \<Rightarrow> req_id \<times> token list \<Rightarrow> scheduler_output \<Rightarrow> scheduler_output" where
  "update_draft_in_output_one env s e out =
     (case e of (q, toks) \<Rightarrow>
        case reqs s q of
          None \<Rightarrow> out
        | Some r \<Rightarrow>
            if is_finished r then out
            else case so_scheduled_spec_decode_tokens out q of
              None \<Rightarrow> out
            | Some placeholders \<Rightarrow>
                if placeholders = [] then out
                else
                  let n = length placeholders;
                      cut = take n toks;
                      ok = (if en_should_advance env (envst s) r
                            then en_validate_tokens env (envst s) r cut else cut);
                      invalid = int n - int (length ok);
                      padded = ok @ replicate (nat invalid) (-1)
                  in out\<lparr>so_scheduled_spec_decode_tokens :=
                           (so_scheduled_spec_decode_tokens out)(q \<mapsto> padded),
                         so_num_invalid_spec_tokens :=
                           (if invalid \<noteq> 0 then (so_num_invalid_spec_tokens out)(q \<mapsto> invalid)
                            else so_num_invalid_spec_tokens out)\<rparr>)"

definition update_draft_token_ids_in_output ::
  "'c sched_env \<Rightarrow> req_id list \<Rightarrow> token list list \<Rightarrow> 'c scheduler \<Rightarrow> scheduler_output \<Rightarrow> scheduler_output" where
  "update_draft_token_ids_in_output env ids drafts s out =
     fold (update_draft_in_output_one env s) (zip ids drafts) (out\<lparr>so_num_invalid_spec_tokens := Map.empty\<rparr>)"

section \<open>Counts, pauses and resets\<close>

definition get_request_counts :: "'c scheduler \<Rightarrow> int \<times> int" where
  "get_request_counts s = (int (length (running s)), q_len (waiting s) + q_len (skipped_waiting s))"

definition set_pause_state :: "pause_state \<Rightarrow> 'c scheduler \<Rightarrow> 'c scheduler" where
  "set_pause_state p s = s\<lparr>pause := p\<rparr>"

definition get_num_unfinished_requests :: "'c scheduler \<Rightarrow> int" where
  "get_num_unfinished_requests s =
     (case pause s of
        PAUSED_ALL \<Rightarrow> 0
      | PAUSED_NEW \<Rightarrow> int (length (running s))
      | UNPAUSED \<Rightarrow>
          q_len (waiting s) + q_len (skipped_waiting s) - num_waiting_for_streaming_input s +
          int (length (running s)))"

definition has_finished_requests :: "'c scheduler \<Rightarrow> bool" where
  "has_finished_requests s \<longleftrightarrow> finished_req_ids s \<noteq> {}"

text \<open>Preempting all running requests, the last one first.\<close>

definition preempt_for_reset :: "'c sched_env \<Rightarrow> req_id \<Rightarrow> 'c scheduler \<Rightarrow> 'c scheduler res" where
  "preempt_for_reset env q s =
     bindE (preempt_request env q (s\<lparr>running := butlast (running s)\<rparr>)) (\<lambda>s1.
     bindE (lookup q s1) (\<lambda>r.
       Inr (put (r\<lparr>num_output_placeholders := 0, discard_latest_async_tokens := True\<rparr>) s1)))"

definition reset_connector_cache :: "'c sched_env \<Rightarrow> 'c scheduler \<Rightarrow> bool \<times> 'c scheduler" where
  "reset_connector_cache env s =
     (case en_connector env of
        None \<Rightarrow> (False, s)
      | Some cn \<Rightarrow> let (ok, c) = cn_reset_cache cn (envst s) in (ok, s\<lparr>envst := c\<rparr>))"

definition sched_reset_prefix_cache ::
  "'c sched_env \<Rightarrow> bool \<Rightarrow> bool \<Rightarrow> 'c scheduler \<Rightarrow> (bool \<times> 'c scheduler) res" where
  "sched_reset_prefix_cache env reset_running reset_connector s =
     bindE (if reset_running
            then bindE (foldE (preempt_for_reset env) (rev (running s)) s) (\<lambda>s'.
                 Inr (s'\<lparr>prev_step_scheduled_req_ids := {}\<rparr>))
            else Inr s) (\<lambda>s1.
     bindE (kv_reset_prefix_cache (kv s1)) (\<lambda>(ok, k).
     let s2 = s1\<lparr>kv := k\<rparr> in
     if reset_running \<and> \<not> ok then Inl RuntimeError
     else if reset_connector
     then let (ok', s3) = reset_connector_cache env s2 in Inr (ok' \<and> ok, s3)
     else Inr (ok, s2)))"

definition reset_encoder_cache :: "'c scheduler \<Rightarrow> 'c scheduler" where
  "reset_encoder_cache s = s\<lparr>enc := em_reset (enc s)\<rparr>"

end
