(* ===== verification/Sched_Inv.thy ===== *)
theory Sched_Inv
  imports Sched_Update
begin

text \<open>
  Where the requests are: every request the scheduler knows is in exactly one of the running list and
  the waiting queues, according to its status, until it is finished. This theory states the invariant
  for the state between calls and, with the books of a step, for the inside of \<^verbatim>\<open>schedule\<close>, and proves
  that both loops keep it and that the assertions at the end of a step hold.
\<close>

section \<open>What the cache manager does to a request\<close>

text \<open>It only fills the memo of embedding digests.\<close>

declare same_content_memo [simp]

lemma same_content_all:
  assumes "same_content r r'"
  shows "request_id r' = request_id r" "status r' = status r" "num_computed_tokens r' = num_computed_tokens r"
    "num_output_placeholders r' = num_output_placeholders r" "spec_token_ids r' = spec_token_ids r"
    "max_tokens r' = max_tokens r" "num_prompt_tokens r' = num_prompt_tokens r" "resumable r' = resumable r"
    "is_finished r' = is_finished r" "priority r' = priority r" "arrival_time r' = arrival_time r"
    "all_token_ids r' = all_token_ids r"
  using assms by (auto simp: same_content_def is_finished_def)

lemma generate_keys_content:
  "okE (\<lambda>(ks, mm, r'). same_content r r') (generate_block_hash_extra_keys digest r s e mm)"
  by (auto simp: generate_block_hash_extra_keys_def gen_prompt_embeds_extra_hash_keys_def Let_def res_wp
      same_content_refl split: option.splits intro!: okEI)

lemma stored_keys_content: "okE (\<lambda>(ks, r'). same_content r r') (stored_keys_loop p bs n is mm r)"
proof (induction "is" arbitrary: mm r)
  case (Cons i "is")
  show ?case
    by (auto simp: res_wp intro!: okEI dest!: okED [OF generate_keys_content] okED [OF Cons.IH]
        intro: same_content_trans)
qed (simp add: same_content_refl)

lemma cache_full_blocks_content:
  "okE (\<lambda>(p', r'). same_content r r') (cache_full_blocks r blocks nc nf bs g p)"
  by (auto simp: cache_full_blocks_def res_wp same_content_refl intro!: okEI
      dest!: okED [OF stored_keys_content])

lemma base_cache_content: "okE (\<lambda>(m', p', r'). same_content r r') (base_cache_blocks r n m p)"
  by (auto simp: base_cache_blocks_def Let_def res_wp same_content_refl intro!: okEI
      dest!: okED [OF cache_full_blocks_content])

lemma cache_blocks_content: "okE (\<lambda>(m', p', r'). same_content r r') (cache_blocks r n m p)"
  by (auto simp: cache_blocks_def Let_def res_wp intro!: okEI
      dest!: okED [OF base_cache_content] split: manager_class.splits)

lemma cache_each_content: "okE (\<lambda>(ms', p', r'). same_content r r') (cache_each r n ms p)"
proof (induction ms arbitrary: p r)
  case (Cons m ms)
  show ?case
    by (auto simp: res_wp intro!: okEI dest!: okED [OF cache_blocks_content] okED [OF Cons.IH]
        intro: same_content_trans)
qed (simp add: same_content_refl)

lemma coord_cache_content: "okE (\<lambda>(c', r'). same_content r r') (coord_cache_blocks r n c)"
  by (auto simp: coord_cache_blocks_def res_wp intro!: okEI dest!: okED [OF cache_each_content])

lemma kv_cache_content: "okE (\<lambda>(r', k'). same_content r r') (kv_cache_blocks_of r n k)"
  by (auto simp: kv_cache_blocks_of_def res_wp same_content_refl intro!: okEI
      dest!: okED [OF coord_cache_content])

lemma allocate_slots_content:
  "okE (\<lambda>(bs, r', k'). same_content r r') (allocate_slots r n nnc cb look ext delay nenc k)"
  unfolding allocate_slots_def Let_def
  by (auto simp: res_wp same_content_refl intro!: okEI dest!: okED [OF coord_cache_content])

section \<open>Places\<close>

text \<open>\<^verbatim>\<open>placed\<close> relates the entry of a request id in the dictionary to the number of its occurrences in the
  running list and in the waiting queues.\<close>

definition placed :: "request option \<Rightarrow> nat \<Rightarrow> nat \<Rightarrow> bool" where
  "placed x a b \<longleftrightarrow>
     (case x of
        None \<Rightarrow> a = 0 \<and> b = 0
      | Some r \<Rightarrow> if is_finished r then a = 0 \<and> b = 0
                  else if status r = RUNNING then a = 1 \<and> b = 0 else a = 0 \<and> b = 1)"

definition places :: "(req_id \<rightharpoonup> request) \<Rightarrow> req_id list \<Rightarrow> req_id multiset \<Rightarrow> bool" where
  "places m run Q \<longleftrightarrow>
     (\<forall>q r. m q = Some r \<longrightarrow> request_id r = q) \<and>
     (\<forall>q. placed (m q) (count (mset run) q) (count Q q))"

definition sched_inv :: "'c scheduler \<Rightarrow> bool" where
  "sched_inv s \<longleftrightarrow> places (reqs s) (running s) (q_contents (waiting s) + q_contents (skipped_waiting s))"

definition same_kind :: "request \<Rightarrow> request \<Rightarrow> bool" where
  "same_kind r r' \<longleftrightarrow>
     request_id r' = request_id r \<and> is_finished r' = is_finished r \<and>
     (status r' = RUNNING \<longleftrightarrow> status r = RUNNING)"

lemma same_content_kind: "same_content r r' \<Longrightarrow> same_kind r r'"
  by (simp add: same_kind_def same_content_all)

lemma same_kind_refl [simp]: "same_kind r r"
  by (simp add: same_kind_def)

lemma same_kind_trans: "same_kind a b \<Longrightarrow> same_kind b c \<Longrightarrow> same_kind a c"
  by (simp add: same_kind_def)

lemma placed_kind: "same_kind r r' \<Longrightarrow> placed (Some r') a b = placed (Some r) a b"
  by (simp add: placed_def same_kind_def)

lemma places_id: "places m run Q \<Longrightarrow> m q = Some r \<Longrightarrow> request_id r = q"
  by (simp add: places_def)

lemma places_at: "places m run Q \<Longrightarrow> placed (m q) (count (mset run) q) (count Q q)"
  by (simp add: places_def)

lemma in_run_count: "q \<in> set run \<longleftrightarrow> 0 < count (mset run) q"
  by (metis count_greater_zero_iff set_mset_mset)

lemma placed_run: "placed x a b \<Longrightarrow> 0 < a \<Longrightarrow> \<exists>r. x = Some r \<and> \<not> is_finished r \<and> status r = RUNNING \<and> a = 1 \<and> b = 0"
  by (cases x) (simp_all add: placed_def split: if_splits)

lemma placed_wait: "placed x a b \<Longrightarrow> 0 < b \<Longrightarrow> \<exists>r. x = Some r \<and> \<not> is_finished r \<and> status r \<noteq> RUNNING \<and> a = 0 \<and> b = 1"
  by (cases x) (simp_all add: placed_def split: if_splits)

lemma places_distinct:
  assumes p: "places m run Q"
  shows "distinct run"
proof -
  have "count (mset run) q = (if q \<in> set run then 1 else 0)" for q
  proof (cases "q \<in> set run")
    case True
    then show ?thesis using placed_run [OF places_at [OF p, of q]] in_run_count by metis
  qed (simp add: count_eq_zero_iff)
  then show ?thesis unfolding distinct_count_atmost_1 by blast
qed

lemma places_running:
  assumes p: "places m run Q" and q: "q \<in> set run"
  shows "\<exists>r. m q = Some r \<and> \<not> is_finished r \<and> status r = RUNNING \<and> request_id r = q \<and> count Q q = 0"
proof -
  have "0 < count (mset run) q" using q in_run_count by metis
  from placed_run [OF places_at [OF p] this] places_id [OF p] show ?thesis by blast
qed

lemma places_waiting:
  assumes p: "places m run Q" and q: "0 < count Q q"
  shows "\<exists>r. m q = Some r \<and> \<not> is_finished r \<and> status r \<noteq> RUNNING \<and> request_id r = q \<and> q \<notin> set run \<and>
           count Q q = 1"
proof -
  obtain r where r: "m q = Some r" "\<not> is_finished r" "status r \<noteq> RUNNING" "count (mset run) q = 0" "count Q q = 1"
    using placed_wait [OF places_at [OF p] q] by blast
  then have "q \<notin> set run" unfolding in_run_count by simp
  then show ?thesis using r places_id [OF p r(1)] by blast
qed

lemma places_status:
  assumes p: "places m run Q" and m: "m q = Some r" "status r = RUNNING"
  shows "q \<in> set run"
proof -
  have "count (mset run) q = 1"
    using places_at [OF p, of q] m by (simp add: placed_def is_finished_def)
  then show ?thesis unfolding in_run_count by simp
qed

lemma places_update:
  assumes p: "places m run Q" and r: "request_id r' = q"
    and same: "\<And>x. x \<noteq> q \<Longrightarrow> count (mset run') x = count (mset run) x \<and> count Q' x = count Q x"
    and at: "placed (Some r') (count (mset run') q) (count Q' q)"
  shows "places (m(q \<mapsto> r')) run' Q'"
  unfolding places_def
proof (intro conjI allI impI)
  show "request_id y = x" if "(m(q \<mapsto> r')) x = Some y" for x y
    using that r places_id [OF p, of x y] by (simp split: if_splits)
  show "placed ((m(q \<mapsto> r')) x) (count (mset run') x) (count Q' x)" for x
    using at same [of x] places_at [OF p, of x] by (cases "x = q") simp_all
qed

lemma places_kind:
  assumes p: "places m run Q" and m: "m q = Some r" "same_kind r r'"
  shows "places (m(q \<mapsto> r')) run Q"
proof (rule places_update [OF p])
  show "request_id r' = q" using m places_id [OF p, of q r] by (simp add: same_kind_def)
  show "placed (Some r') (count (mset run) q) (count Q q)"
    using places_at [OF p, of q] m by (simp add: placed_kind)
qed simp

lemma places_preempt:
  assumes p: "places m run Q" "q \<in> set run" and r: "request_id r' = q" "\<not> is_finished r'" "status r' \<noteq> RUNNING"
  shows "places (m(q \<mapsto> r')) (remove1 q run) (add_mset q Q)"
proof (rule places_update [OF p(1) r(1)])
  have "count (mset run) q = 1" "count Q q = 0"
    using places_running [OF p] places_at [OF p(1), of q] by (auto simp: placed_def)
  then show "placed (Some r') (count (mset (remove1 q run)) q) (count (add_mset q Q) q)"
    using r by (simp add: placed_def)
qed simp

lemma places_start:
  assumes p: "places m run (add_mset q Q)" and r: "request_id r' = q" "status r' = RUNNING"
  shows "places (m(q \<mapsto> r')) (run @ [q]) Q"
proof (rule places_update [OF p r(1)])
  have "q \<notin> set run" "count Q q = 0" using places_waiting [OF p, of q] by auto
  then show "placed (Some r') (count (mset (run @ [q])) q) (count Q q)"
    using r by (simp add: placed_def is_finished_def)
qed auto

section \<open>The books of a step\<close>

text \<open>The tokens given out and the tokens left add up to the budget \<^verbatim>\<open>B\<close> of the step; the requests with
  tokens are those scheduled so far, each once, with a positive number of tokens and new blocks.\<close>

definition scheduled :: "'c step_state \<Rightarrow> req_id list" where
  "scheduled L = l_running L @ l_new L @ l_resumed L"

definition ledger :: "bool \<Rightarrow> int \<Rightarrow> 'c step_state \<Rightarrow> bool" where
  "ledger ok B L \<longleftrightarrow>
     distinct (scheduled L) \<and> distinct (map fst (l_num_scheduled L)) \<and>
     set (map fst (l_num_scheduled L)) = set (scheduled L) \<and>
     (ok \<longrightarrow> (\<forall>n \<in> set (map snd (l_num_scheduled L)). 0 < n) \<and> 0 \<le> l_token_budget L) \<and>
     sum_list (map snd (l_num_scheduled L)) + l_token_budget L = B \<and>
     dom (l_new_blocks L) = set (scheduled L)"

definition step_places :: "'c step_state \<Rightarrow> bool" where
  "step_places L \<longleftrightarrow>
     places (reqs (l_sched L)) (running (l_sched L))
       (q_contents (waiting (l_sched L)) + q_contents (skipped_waiting (l_sched L)) + q_contents (l_skipped L))"

text \<open>A running request that can be given a non-negative number of tokens.\<close>

definition tok_ok :: "sched_config \<Rightarrow> request \<Rightarrow> bool" where
  "tok_ok cfg r \<longleftrightarrow>
     num_computed_tokens r \<le> num_tokens_with_spec r + num_output_placeholders r \<and>
     num_computed_tokens r \<le> sc_max_model_len cfg - 1"

text \<open>While the running requests are scheduled: those at hand so far (\<^verbatim>\<open>pre\<close>), where the scheduled ones
  are, and those to come (\<^verbatim>\<open>suf\<close>).\<close>

definition run_inv :: "sched_config \<Rightarrow> bool \<Rightarrow> int \<Rightarrow> req_id list \<Rightarrow> req_id list \<Rightarrow> req_id list \<Rightarrow> 'c step_state \<Rightarrow> bool" where
  "run_inv cfg ok B pre mid suf L \<longleftrightarrow>
     step_places L \<and> ledger ok B L \<and> l_new L = [] \<and> l_resumed L = [] \<and> q_contents (l_skipped L) = {#} \<and>
     running (l_sched L) = pre @ mid @ suf \<and> int (length pre) \<le> l_index L \<and>
     set (l_running L) \<subseteq> set pre \<and> set (l_preempted L) \<inter> set (running (l_sched L)) = {} \<and>
     (ok \<longrightarrow> (\<forall>q \<in> set suf. tok_ok cfg (the (reqs (l_sched L) q)))) \<and>
     int (length (running (l_sched L))) \<le> sc_max_num_running_reqs cfg"

lemma run_invD:
  assumes "run_inv cfg ok B pre mid suf L"
  shows "step_places L" "ledger ok B L" "running (l_sched L) = pre @ mid @ suf" "distinct (pre @ mid @ suf)"
    "int (length pre) \<le> l_index L" "set (l_running L) \<subseteq> set pre" "scheduled L = l_running L"
proof -
  have "distinct (running (l_sched L))"
    using assms places_distinct unfolding run_inv_def step_places_def by blast
  moreover show "running (l_sched L) = pre @ mid @ suf" using assms unfolding run_inv_def by blast
  ultimately show "distinct (pre @ mid @ suf)" by (rule subst [rotated])
qed (use assms in \<open>simp_all add: run_inv_def scheduled_def\<close>)

lemma lookup_step:
  assumes "step_places L" "q \<in> set (running (l_sched L))"
  shows "\<exists>r. lookup q (l_sched L) = Inr r \<and> reqs (l_sched L) q = Some r \<and> request_id r = q \<and>
           status r = RUNNING \<and> \<not> is_finished r"
  using assms places_running unfolding step_places_def lookup_def by fastforce

text \<open>Changing a request without moving it.\<close>

lemma step_places_put:
  assumes "step_places L" "reqs (l_sched L) (request_id r) = Some r0" "same_kind r0 r"
  shows "step_places (on_sched (put r) L)"
  using assms places_kind [of "reqs (l_sched L)" _ _ "request_id r" r0 r]
  by (simp add: step_places_def put_def)

lemma step_places_other [simp]:
  "step_places (on_sched (\<lambda>s. s\<lparr>kv := k\<rparr>) L) = step_places L"
  "step_places (on_sched (\<lambda>s. s\<lparr>enc := e\<rparr>) L) = step_places L"
  by (simp_all add: step_places_def)

lemma ledger_sched [simp]: "ledger ok B (L\<lparr>l_sched := s\<rparr>) = ledger ok B L"
  by (simp add: ledger_def scheduled_def)

lemma try_allocate_effect:
  "okE (\<lambda>(bs, L'). \<exists>r r' k. reqs (l_sched L) q = Some r \<and> same_content r r' \<and>
          L' = on_sched (\<lambda>s. put r' (s\<lparr>kv := k\<rparr>)) L) (try_allocate cfg q n L)"
  unfolding try_allocate_def lookup_def
  by (auto simp: res_wp intro!: okEI dest!: okED [OF allocate_slots_content] split: option.splits)

lemma try_allocate_run_inv:
  assumes inv: "run_inv cfg ok B pre [q] suf L"
  shows "okE (\<lambda>(bs, L'). run_inv cfg ok B pre [q] suf L') (try_allocate cfg q n L)"
proof (rule okE_conseq [OF try_allocate_effect], clarify)
  fix bs r r' k
  assume r: "reqs (l_sched L) q = Some r" "same_content r r'"
  have id: "request_id r = q" "request_id r' = q"
    using run_invD(1) [OF inv] places_id r(1) same_content_all(1) [OF r(2)] by (auto simp: step_places_def)
  have "step_places (on_sched (put r') (on_sched (\<lambda>s. s\<lparr>kv := k\<rparr>) L))"
    using step_places_put [of "on_sched (\<lambda>s. s\<lparr>kv := k\<rparr>) L" r' r] run_invD(1) [OF inv] r id
    by (simp add: same_content_kind)
  then show "run_inv cfg ok B pre [q] suf (on_sched (\<lambda>s. put r' (s\<lparr>kv := k\<rparr>)) L)"
    using inv run_invD(4) [OF inv] id by (auto simp: run_inv_def put_def)
qed

section \<open>Preempting\<close>

definition preempted :: "request \<Rightarrow> request" where
  "preempted r = r\<lparr>status := PREEMPTED, num_computed_tokens := 0, spec_token_ids := [],
                   num_preemptions := num_preemptions r + 1\<rparr>"

lemma preempted_simps [simp]:
  "request_id (preempted r) = request_id r" "status (preempted r) = PREEMPTED"
  "resumable (preempted r) = resumable r" "\<not> is_finished (preempted r)"
  by (simp_all add: preempted_def is_finished_def)

lemma preempt_request_effect:
  "okE (\<lambda>s'. \<exists>r. reqs s q = Some r \<and> status r = RUNNING \<and>
          reqs s' = (reqs s)(request_id r \<mapsto> preempted r) \<and>
          running s' = running s \<and> q_contents (waiting s') = add_mset q (q_contents (waiting s)) \<and>
          skipped_waiting s' = skipped_waiting s \<and> pause s' = pause s)
     (preempt_request env q s)"
  unfolding preempt_request_def lookup_def
  by (auto simp: res_wp Let_def put_def preempted_def bag.contents_prepend intro!: okEI split: option.splits)

text \<open>What the choice of a victim does: it leaves the running list, and gives back what it got in this
  step.\<close>

definition without :: "req_id \<Rightarrow> 'c step_state \<Rightarrow> 'c step_state" where
  "without v L = on_sched (\<lambda>s. s\<lparr>running := remove1 v (running s)\<rparr>) L"

lemma butlast_remove1: "distinct xs \<Longrightarrow> xs \<noteq> [] \<Longrightarrow> butlast xs = remove1 (last xs) xs"
  by (cases xs rule: rev_cases) (simp_all add: remove1_append)

lemma pick_victim_effect:
  assumes "distinct (running (l_sched L))"
  shows "okE (\<lambda>(v, L'). v \<in> set (running (l_sched L)) \<and>
           (if sc_policy cfg = PRIORITY
            then if v \<in> set (l_running L) then withdraw_scheduled v (without v L) = Inr L' else L' = without v L
            else v = last (running (l_sched L)) \<and> L' = without v L)) (pick_victim cfg L)"
proof (rule okEI, clarify)
  fix v L'
  assume p: "pick_victim cfg L = Inr (v, L')"
  have v: "v \<in> set (running (l_sched L))" using pick_victim_running [OF p] by simp
  show "v \<in> set (running (l_sched L)) \<and>
           (if sc_policy cfg = PRIORITY
            then if v \<in> set (l_running L) then withdraw_scheduled v (without v L) = Inr L' else L' = without v L
            else v = last (running (l_sched L)) \<and> L' = without v L)"
  proof (cases "sc_policy cfg = PRIORITY")
    case True
    then show ?thesis using p v by (auto simp: pick_victim_def Let_def without_def split: if_splits)
  next
    case False
    then show ?thesis
      using p v butlast_remove1 [OF assms] by (auto simp: pick_victim_def Let_def without_def split: if_splits)
  qed
qed

lemma sum_list_filter_key:
  "distinct (map fst d) \<Longrightarrow> map_of d k = Some n \<Longrightarrow>
   sum_list (map snd (filter (\<lambda>e. fst e \<noteq> k) d)) = sum_list (map snd d) - (n :: int)"
  by (rule idle_without)

lemma ledger_other [simp]:
  "ledger ok B (L\<lparr>l_spec := x1\<rparr>) = ledger ok B L" "ledger ok B (L\<lparr>l_encoder_inputs := x2\<rparr>) = ledger ok B L"
  "ledger ok B (L\<lparr>l_encoder_budget := x3\<rparr>) = ledger ok B L" "ledger ok B (L\<lparr>l_index := x4\<rparr>) = ledger ok B L"
  "ledger ok B (L\<lparr>l_loras := x5\<rparr>) = ledger ok B L" "ledger ok B (L\<lparr>l_skipped := x6\<rparr>) = ledger ok B L"
  "ledger ok B (L\<lparr>l_preempted := x7\<rparr>) = ledger ok B L"
  by (simp_all add: ledger_def scheduled_def)

lemma ledger_take_back:
  assumes l: "ledger ok B L" and n: "l_new L = []" "l_resumed L = []" and m: "map_of (l_num_scheduled L) v = Some m"
  shows "ledger ok B (L\<lparr>l_running := remove1 v (l_running L), l_token_budget := l_token_budget L + m,
           l_num_scheduled := filter (\<lambda>e. fst e \<noteq> v) (l_num_scheduled L),
           l_new_blocks := (l_new_blocks L)(v := None)\<rparr>)"
proof -
  let ?d = "filter (\<lambda>e. fst e \<noteq> v) (l_num_scheduled L)"
  have d: "distinct (map fst (l_num_scheduled L))" "distinct (l_running L)"
    "set (map fst (l_num_scheduled L)) = set (l_running L)"
    "ok \<longrightarrow> (\<forall>n \<in> set (map snd (l_num_scheduled L)). 0 < n) \<and> 0 \<le> l_token_budget L" "dom (l_new_blocks L) = set (l_running L)"
    "sum_list (map snd (l_num_scheduled L)) + l_token_budget L = B"
    using l n by (auto simp: ledger_def scheduled_def)
  have pos: "ok \<longrightarrow> 0 < m" using d(4) map_of_SomeD [OF m] by force
  have keys: "set (map fst ?d) = set (l_running L) - {v}" using d(3) by auto
  have dist: "distinct (map fst ?d)" using d(1) by (rule distinct_map_filter)
  have s: "sum_list (map snd ?d) = sum_list (map snd (l_num_scheduled L)) - m"
    by (rule sum_list_filter_key [OF d(1) m])
  have vals: "ok \<longrightarrow> (\<forall>n \<in> set (map snd ?d). 0 < n)" using d(4) by auto
  have sch: "set (remove1 v (l_running L)) = set (l_running L) - {v}" using d(2) by simp
  have dom: "dom ((l_new_blocks L)(v := None)) = set (l_running L) - {v}" using d(5) by auto
  have dr: "distinct (remove1 v (l_running L))" using d(2) by simp
  show ?thesis
    unfolding ledger_def scheduled_def using dist keys sch dom vals s pos d(4,6) n dr by auto
qed

lemma withdraw_ledger:
  assumes "ledger ok B L" "l_new L = []" "l_resumed L = []"
  shows "okE (\<lambda>L'. ledger ok B L' \<and> l_sched L' = l_sched L \<and> l_new L' = [] \<and> l_resumed L' = [] \<and>
           l_skipped L' = l_skipped L \<and> l_preempted L' = l_preempted L \<and> l_running L' = remove1 v (l_running L) \<and> l_index L' = l_index L - 1 \<and>
           (ok \<longrightarrow> l_token_budget L \<le> l_token_budget L'))
          (withdraw_scheduled v L)"
proof -
  have "ok \<Longrightarrow> 0 \<le> m" if "map_of (l_num_scheduled L) v = Some m" for m
    using assms(1) map_of_SomeD [OF that] by (force simp: ledger_def)
  then show ?thesis
    unfolding withdraw_scheduled_def dict_pop_def dict_del_def
    by (auto simp: res_wp assms(2,3) ledger_take_back [OF assms] intro!: okEI split: option.splits)
qed

text \<open>After a preemption the step goes on with the same request, unless it was the victim itself.\<close>

lemma victim_run_inv:
  assumes inv: "run_inv cfg ok B pre [q] suf L" and v: "pick_victim cfg L = Inr (v, L2)"
    and p: "preempt_victim env v L2 = Inr L3"
  shows "(\<exists>pre' suf'. run_inv cfg ok B pre' (if v = q then [] else [q]) suf' L3) \<and>
         (ok \<longrightarrow> l_token_budget L \<le> l_token_budget L3)"
proof -
  let ?run = "running (l_sched L)"
  note I = run_invD [OF inv]
  have dist: "distinct ?run" using I(3,4) by simp
  have nil: "l_new L = []" "l_resumed L = []" and skip: "q_contents (l_skipped L) = {#}"
    using inv by (auto simp: run_inv_def)
  have pk: "v \<in> set ?run" "if sc_policy cfg = PRIORITY
            then if v \<in> set (l_running L) then withdraw_scheduled v (without v L) = Inr L2 else L2 = without v L
            else v = last ?run \<and> L2 = without v L"
    using okED [OF pick_victim_effect [OF dist] v] by auto
  have fcfs: "v \<notin> set (l_running L)" if "sc_policy cfg \<noteq> PRIORITY"
  proof -
    have "v = last (q # suf)" using that pk(2) I(3) by simp
    then have "v \<in> set (q # suf)" by (metis last_in_set list.distinct(1))
    then show ?thesis using I(4,6) by auto
  qed
  have wl: "ledger ok B (without v L)" using I(2) by (simp add: without_def)
  have wn: "l_new (without v L) = []" "l_resumed (without v L) = []" using nil by (simp_all add: without_def)
  have L2: "ledger ok B L2 \<and> l_sched L2 = (l_sched L)\<lparr>running := remove1 v ?run\<rparr> \<and> l_new L2 = [] \<and> l_resumed L2 = [] \<and>
      l_skipped L2 = l_skipped L \<and> l_preempted L2 = l_preempted L \<and> l_running L2 = remove1 v (l_running L) \<and>
      l_index L2 = (if v \<in> set (l_running L) then l_index L - 1 else l_index L) \<and>
      (ok \<longrightarrow> l_token_budget L \<le> l_token_budget L2)"
  proof (cases "v \<in> set (l_running L)")
    case True
    then have "withdraw_scheduled v (without v L) = Inr L2" using pk(2) fcfs by (auto split: if_splits)
    from okED [OF withdraw_ledger [OF wl wn] this] show ?thesis using True by (simp add: without_def)
  next
    case False
    then have "L2 = without v L" using pk(2) by (auto split: if_splits)
    then show ?thesis using False wl nil by (simp add: without_def remove1_idem)
  qed
  obtain s where s: "preempt_request env v (l_sched L2) = Inr s"
    and L3: "L3 = L2\<lparr>l_sched := s, l_preempted := l_preempted L2 @ [v]\<rparr>"
    using p by (auto simp: preempt_victim_def)
  obtain r where r: "reqs (l_sched L) v = Some r" "reqs s = (reqs (l_sched L))(request_id r \<mapsto> preempted r)"
    "running s = remove1 v ?run" "q_contents (waiting s) = add_mset v (q_contents (waiting (l_sched L)))"
    "skipped_waiting s = skipped_waiting (l_sched L)"
    using okED [OF preempt_request_effect s] L2 by auto
  have id: "request_id r = v" using I(1) r(1) places_id by (auto simp: step_places_def)
  have sp: "step_places L3"
    using places_preempt [of "reqs (l_sched L)" ?run _ v "preempted r"] I(1) pk(1) id
    by (simp add: step_places_def L3 r(2-5) L2)
  have led: "ledger ok B L3" using L2 by (simp add: L3)
  have len: "int (length (remove1 v ?run)) \<le> sc_max_num_running_reqs cfg"
    using inv pk(1) by (auto simp: run_inv_def length_remove1)
  have tok: "ok \<longrightarrow> (\<forall>x \<in> set suf. x \<noteq> v \<longrightarrow> tok_ok cfg (the (reqs s x)))" using inv id by (auto simp: run_inv_def r(2))
  have lr: "set (l_running L2) \<subseteq> set pre - {v}"
    using L2 I(2,6) by (auto simp: ledger_def scheduled_def nil)
  have pre: "set (l_preempted L3) \<inter> set (remove1 v ?run) = {}"
    using inv dist unfolding run_inv_def by (auto simp: L3 L2)
  have base: "run_inv cfg ok B pre' mid suf' L3"
    if "remove1 v ?run = pre' @ mid @ suf'" "int (length pre') \<le> l_index L2" "set pre - {v} \<subseteq> set pre'"
      "ok \<longrightarrow> (\<forall>x \<in> set suf'. tok_ok cfg (the (reqs s x)))" for pre' mid suf'
    using that sp led L2 lr len skip pre by (auto simp: run_inv_def L3 r(3))
  have budget: "ok \<longrightarrow> l_token_budget L \<le> l_token_budget L3" using L2 by (simp add: L3)
  consider (self) "v = q" | (pre) "v \<in> set pre" "v \<noteq> q" | (suf) "v \<in> set suf" "v \<notin> set pre" "v \<noteq> q"
    using pk(1) I(3) by auto
  then show ?thesis
  proof cases
    case self
    then have "v \<notin> set (l_running L)" "v \<notin> set pre" "v \<notin> set suf" using I(4,6) by auto
    then have "run_inv cfg ok B pre [] suf L3"
      using self I(3,5) L2 tok by (intro base) (auto simp: remove1_append)
    then show ?thesis using self budget by auto
  next
    case pre
    then have n: "v \<notin> set suf" using I(4) by auto
    have "int (length (remove1 v pre)) = int (length pre) - 1"
      using pre(1) length_pos_if_in_set [OF pre(1)] by (simp add: length_remove1 of_nat_diff Suc_leI)
    then have "int (length (remove1 v pre)) \<le> l_index L2" using I(5) L2 by simp
    then have "run_inv cfg ok B (remove1 v pre) [q] suf L3"
      using pre n I(3,4) tok by (intro base) (auto simp: remove1_append)
    then show ?thesis using pre budget by auto
  next
    case suf
    then have "v \<notin> set (l_running L)" using I(6) by auto
    then have "run_inv cfg ok B pre [q] (remove1 v suf) L3"
      using suf I(3-5) L2 tok by (intro base) (auto simp: remove1_append)
    then show ?thesis using suf budget by auto
  qed
qed

section \<open>The loop over the running requests\<close>

lemma allocate_or_preempt_run_inv:
  assumes "run_inv cfg ok B pre [q] suf L"
  shows "okE (\<lambda>(bs, L'). (\<exists>pre' suf'. run_inv cfg ok B pre' (if bs = None then [] else [q]) suf' L') \<and>
           (ok \<longrightarrow> l_token_budget L \<le> l_token_budget L')) (allocate_or_preempt cfg env q n L)"
  using assms
proof (induction cfg env q n L arbitrary: pre suf rule: allocate_or_preempt.induct)
  case (1 cfg env q n L)
  show ?case
  proof (rule okEI, clarify)
    fix bs L'
    assume r: "allocate_or_preempt cfg env q n L = Inr (bs, L')"
    obtain b L1 where a: "try_allocate cfg q n L = Inr (b, L1)"
      using r by (subst (asm) allocate_or_preempt.simps) auto
    have i1: "run_inv cfg ok B pre [q] suf L1" using okED [OF try_allocate_run_inv [OF 1(2)] a] by simp
    have b1: "l_token_budget L1 = l_token_budget L" using okED [OF try_allocate_effect a] by auto
    show "(\<exists>pre' suf'. run_inv cfg ok B pre' (if bs = None then [] else [q]) suf' L') \<and>
           (ok \<longrightarrow> l_token_budget L \<le> l_token_budget L')"
    proof (cases b)
      case (Some b')
      then show ?thesis using r a i1 b1 by (subst (asm) allocate_or_preempt.simps) auto
    next
      case None
      obtain v L2 where v: "pick_victim cfg L1 = Inr (v, L2)"
        using r a None by (subst (asm) allocate_or_preempt.simps) auto
      obtain L3 where p: "preempt_victim env v L2 = Inr L3"
        using r a None v by (subst (asm) allocate_or_preempt.simps) auto
      note i3 = victim_run_inv [OF i1 v p]
      show ?thesis
      proof (cases "v = q")
        case True
        then have "bs = None" "L' = L3" using r a None v p by (subst (asm) allocate_or_preempt.simps, simp)+
        then show ?thesis using i3 True b1 by simp
      next
        case False
        then have r': "allocate_or_preempt cfg env q n L3 = Inr (bs, L')"
          using r a None v p by (subst (asm) allocate_or_preempt.simps) auto
        obtain pre' suf' where "run_inv cfg ok B pre' [q] suf' L3" using i3 False by auto
        from okED [OF 1(1) [OF a refl None v refl p False this] r'] show ?thesis using i3 b1 by auto
      qed
    qed
  qed
qed

text \<open>Reserving encoder outputs touches the encoder cache and its books only.\<close>

definition enc_frame :: "'c step_state \<Rightarrow> 'c step_state \<Rightarrow> bool" where
  "enc_frame L L' \<longleftrightarrow>
     same_lists (l_sched L) (l_sched L') \<and> reqs (l_sched L') = reqs (l_sched L) \<and>
     pause (l_sched L') = pause (l_sched L) \<and> l_new L' = l_new L \<and> l_resumed L' = l_resumed L \<and>
     l_running L' = l_running L \<and> l_preempted L' = l_preempted L \<and> l_new_blocks L' = l_new_blocks L \<and>
     l_num_scheduled L' = l_num_scheduled L \<and> l_token_budget L' = l_token_budget L \<and>
     l_index L' = l_index L \<and> l_skipped L' = l_skipped L"

lemma enc_frame_refl [simp]: "enc_frame L L"
  by (simp add: enc_frame_def)

lemma enc_frame_trans: "enc_frame L M \<Longrightarrow> enc_frame M N \<Longrightarrow> enc_frame L N"
  by (simp add: enc_frame_def same_lists_def)

lemma enc_frame_upd [simp]:
  "enc_frame L (M\<lparr>l_encoder_inputs := x\<rparr>) = enc_frame L M"
  "enc_frame L (M\<lparr>l_encoder_budget := b\<rparr>) = enc_frame L M"
  "enc_frame (M\<lparr>l_encoder_inputs := x\<rparr>) L = enc_frame M L"
  "enc_frame (M\<lparr>l_encoder_budget := b\<rparr>) L = enc_frame M L"
  "enc_frame L (M\<lparr>l_sched := (l_sched M)\<lparr>enc := e\<rparr>\<rparr>) = enc_frame L M"
  "enc_frame L (M\<lparr>l_sched := (l_sched M)\<lparr>enc := e, envst := c\<rparr>\<rparr>) = enc_frame L M"
  "enc_frame L (M\<lparr>l_sched := (l_sched M)\<lparr>envst := c, enc := e\<rparr>\<rparr>) = enc_frame L M"
  by (simp_all add: enc_frame_def same_lists_def)

lemma enc_frame_inv:
  assumes "enc_frame L L'"
  shows "step_places L' = step_places L" "ledger ok B L' = ledger ok B L"
    "run_inv cfg ok B pre mid suf L' = run_inv cfg ok B pre mid suf L"
proof -
  show sp: "step_places L' = step_places L" using assms by (simp add: step_places_def enc_frame_def same_lists_def)
  show l: "ledger ok B L' = ledger ok B L" using assms by (simp add: ledger_def scheduled_def enc_frame_def)
  show "run_inv cfg ok B pre mid suf L' = run_inv cfg ok B pre mid suf L"
    unfolding run_inv_def sp l using assms by (simp add: enc_frame_def same_lists_def)
qed

lemma allocate_encoder_frame: "okE (enc_frame L) (allocate_encoder env q is L)"
  unfolding allocate_encoder_def
  by (simp add: res_wp, rule okEI, rule okE_foldE [where P = "enc_frame L"])
    (auto simp: res_wp Let_def intro!: okEI)

lemma schedule_encoder_frame: "okE (enc_frame L) (schedule_encoder env q is budget ext L)"
  unfolding schedule_encoder_def
  by (auto simp: res_wp intro!: okEI dest!: okED [OF allocate_encoder_frame] intro: enc_frame_trans)

text \<open>A running request that got its slots.\<close>

lemma take_spec_tokens_effect:
  assumes "reqs (l_sched L) q = Some r" "request_id r = q"
  shows "okE (\<lambda>L'. \<exists>r' x. same_kind r r' \<and> request_id r' = q \<and>
           L' = on_sched (\<lambda>s. s\<lparr>reqs := (reqs s)(q \<mapsto> r')\<rparr>) (L\<lparr>l_spec := x\<rparr>)) (take_spec_tokens q n L)"
proof (cases "spec_token_ids r = []")
  case True
  have "L = on_sched (\<lambda>s. s\<lparr>reqs := (reqs s)(q \<mapsto> r)\<rparr>) (L\<lparr>l_spec := l_spec L\<rparr>)"
    using assms(1) by (simp add: fun_upd_idem)
  then show ?thesis
    using True assms by (auto simp: take_spec_tokens_def lookup_def intro!: exI [of _ r] exI [of _ "l_spec L"])
next
  case False
  let ?r = "r\<lparr>spec_token_ids := []\<rparr>"
  have k: "same_kind r ?r" by (simp add: same_kind_def is_finished_def)
  let ?m = "n + num_computed_tokens r - num_tokens r - num_output_placeholders r"
  have "\<exists>x. (if 0 < ?m then L\<lparr>l_spec := (l_spec L)(q \<mapsto>
            (if int (length (spec_token_ids r)) > ?m then py_upto (spec_token_ids r) ?m
             else spec_token_ids r))\<rparr> else L) = L\<lparr>l_spec := x\<rparr>"
    by (cases "0 < ?m") (auto intro: exI [of _ "l_spec L"])
  then obtain x where x: "(if 0 < ?m then L\<lparr>l_spec := (l_spec L)(q \<mapsto>
            (if int (length (spec_token_ids r)) > ?m then py_upto (spec_token_ids r) ?m
             else spec_token_ids r))\<rparr> else L) = L\<lparr>l_spec := x\<rparr>" by blast
  have "take_spec_tokens q n L = Inr (on_sched (put ?r) (L\<lparr>l_spec := x\<rparr>))"
    unfolding take_spec_tokens_def lookup_def x [symmetric] using False assms by (simp add: Let_def)
  then show ?thesis using k assms by (auto simp: put_def)
qed

lemma commit_running_inv:
  assumes inv: "run_inv cfg ok B pre [q] suf L" and n: "ok \<longrightarrow> 0 < n \<and> n \<le> l_token_budget L"
  shows "okE (run_inv cfg ok B (pre @ [q]) [] suf) (commit_running env q n b is budget ext L)"
proof -
  note I = run_invD [OF inv]
  obtain r where r: "reqs (l_sched L) q = Some r" "request_id r = q"
    using lookup_step [OF I(1), of q] I(3) by auto
  have nq: "q \<notin> set (l_running L)" using I(4,6) by auto
  have nil: "l_new L = []" "l_resumed L = []" using inv by (auto simp: run_inv_def)
  let ?L = "L\<lparr>l_running := l_running L @ [q], l_new_blocks := (l_new_blocks L)(q \<mapsto> b),
          l_num_scheduled := dict_set q n (l_num_scheduled L),
          l_token_budget := l_token_budget L - n, l_index := l_index L + 1\<rparr>"
  have d: "dict_set q n (l_num_scheduled L) = l_num_scheduled L @ [(q, n)]"
    using I(2,7) nq by (intro dict_set_fresh) (auto simp: ledger_def)
  have "ledger ok B ?L"
    using I(2,7) nq n unfolding ledger_def d scheduled_def nil by (auto simp: nil)
  moreover have "step_places ?L" using I(1) by (simp add: step_places_def)
  ultimately have i1: "run_inv cfg ok B (pre @ [q]) [] suf ?L"
    using inv by (auto simp: run_inv_def)
  have i2: "run_inv cfg ok B (pre @ [q]) [] suf (on_sched (\<lambda>s. s\<lparr>reqs := (reqs s)(q \<mapsto> r')\<rparr>) (?L\<lparr>l_spec := x\<rparr>))"
    if k: "same_kind r r'" "request_id r' = q" for r' x
  proof -
    have "step_places (on_sched (put r') ?L)"
      using step_places_put [of ?L r' r] run_invD(1) [OF i1] r k by simp
    then have "step_places (on_sched (\<lambda>s. s\<lparr>reqs := (reqs s)(q \<mapsto> r')\<rparr>) (?L\<lparr>l_spec := x\<rparr>))"
      using k by (simp add: step_places_def put_def)
    moreover have "q \<notin> set suf" using I(4) by auto
    ultimately show ?thesis using i1 by (auto simp: run_inv_def)
  qed
  have "okE (run_inv cfg ok B (pre @ [q]) [] suf) (take_spec_tokens q n ?L)"
    using r i2 by (intro okE_conseq [OF take_spec_tokens_effect [of ?L q r n]]) auto
  then show ?thesis
    unfolding commit_running_def okE_simps
    by (rule okE_conseq)
      (rule okE_conseq [OF schedule_encoder_frame], simp add: enc_frame_inv(3) [OF _, THEN iffD2])
qed

text \<open>How many tokens a plan can have.\<close>

lemma encoder_loop_bounds:
  "0 \<le> ep_num_new p \<Longrightarrow>
   okE (\<lambda>(p', e'). 0 \<le> ep_num_new p' \<and> ep_num_new p' \<le> ep_num_new p)
     (encoder_input_loop cfg env c r ncomp shift fs p e)"
proof (induction fs arbitrary: p e)
  case (Cons f fs)
  obtain i g where f: "f = (i, g)" by force
  show ?case
    using Cons.prems Cons.IH unfolding f encoder_input_loop.simps Let_def
    by (auto simp: res_wp intro!: okEI dest!: okED [OF Cons.IH, rotated])
qed simp

definition only_enc :: "'c scheduler \<Rightarrow> 'c scheduler \<Rightarrow> bool" where
  "only_enc s t \<longleftrightarrow> (\<exists>e. t = s\<lparr>enc := e\<rparr>)"

lemma only_enc_refl [simp]: "only_enc s s"
  unfolding only_enc_def by (rule exI [of _ "enc s"]) simp

lemma only_enc_upd [simp]: "only_enc s (s\<lparr>enc := e\<rparr>)"
  unfolding only_enc_def by blast

lemma try_schedule_bounds:
  "okE (\<lambda>((is, n', b, ext), s'). (0 \<le> n \<longrightarrow> 0 \<le> n' \<and> n' \<le> n) \<and> only_enc s s')
           (try_schedule_encoder_inputs cfg env r ncomp n budget shift s)"
proof -
  let ?p = "\<lparr>ep_num_new = n, ep_budget = budget, ep_hashes = {}, ep_num_embeds = 0, ep_schedule = [], ep_external = []\<rparr>"
  have "okE (\<lambda>(p', e'). 0 \<le> n \<longrightarrow> 0 \<le> ep_num_new p' \<and> ep_num_new p' \<le> n)
          (encoder_input_loop cfg env (envst s) r ncomp shift
            (zip [0..int (length (mm_features r)) - 1] (mm_features r)) ?p (enc s))"
    using encoder_loop_bounds [of ?p] by (cases "0 \<le> n") (auto intro: okEI)
  then show ?thesis
    unfolding try_schedule_encoder_inputs_def
    by (auto simp: res_wp elim!: okE_conseq)
qed

lemma mamba_bounds:
  assumes "0 \<le> n" "0 < sc_cache_block_size cfg"
  shows "okE (\<lambda>n'. 0 \<le> n' \<and> n' \<le> n) (mamba_block_aligned_split cfg r n nlocal next)"
proof -
  have "n div sc_cache_block_size cfg * sc_cache_block_size cfg \<le> n"
    using div_le_int [OF assms(2), of "n div sc_cache_block_size cfg" n] by simp
  moreover have "0 \<le> n div sc_cache_block_size cfg * sc_cache_block_size cfg"
    using assms by (simp add: pos_imp_zdiv_nonneg_iff)
  ultimately show ?thesis
    using assms unfolding mamba_block_aligned_split_def by (auto simp: Let_def)
qed

lemma num_tokens_running_bounds:
  assumes "tok_ok cfg r" "0 < budget"
  shows "0 \<le> num_tokens_running cfg r budget \<and> num_tokens_running cfg r budget \<le> budget"
  using assms by (auto simp: num_tokens_running_def Let_def tok_ok_def)

lemma plan_running_bounds:
  assumes "0 < sc_cache_block_size cfg"
  shows "okE (\<lambda>((is, n, b, ext), s).
            (tok_ok cfg r \<longrightarrow> 0 < l_token_budget L \<longrightarrow> 0 \<le> n \<and> n \<le> l_token_budget L) \<and>
            only_enc (l_sched L) s)
           (plan_running cfg env r L)"
proof -
  let ?n = "num_tokens_running cfg r (l_token_budget L)"
  let ?P = "\<lambda>((is, n, b, ext), s). (tok_ok cfg r \<longrightarrow> 0 < l_token_budget L \<longrightarrow> 0 \<le> n \<and> n \<le> l_token_budget L) \<and>
            only_enc (l_sched L) s"
  note n = num_tokens_running_bounds [of cfg r "l_token_budget L"]
  have "okE ?P (if has_encoder_inputs r
       then try_schedule_encoder_inputs cfg env r (num_computed_tokens r) ?n (l_encoder_budget L)
              (if sc_use_eagle cfg then 1 else 0) (l_sched L)
       else Inr (([], ?n, l_encoder_budget L, []), l_sched L))"
    using n by (auto intro!: okE_conseq [OF try_schedule_bounds])
  moreover have "okE (\<lambda>n'. ?P ((is, n', b, ext), t)) (mamba_block_aligned_split cfg r n1 0 0)"
    if "?P ((is, n1, b, ext), t)" for "is" n1 b ext t
  proof (cases "tok_ok cfg r \<and> 0 < l_token_budget L")
    case True
    then show ?thesis using that by (auto intro!: okE_conseq [OF mamba_bounds] assms)
  qed (use that in \<open>auto intro: okEI\<close>)
  ultimately show ?thesis
    unfolding plan_running_def okE_simps by (elim okE_conseq) auto
qed

text \<open>One turn: the request at the index is the first of those to come, since the index is past
  \<^verbatim>\<open>pre\<close>; the ones in between were looked at without getting tokens.\<close>

lemma run_inv_shift:
  assumes "run_inv cfg ok B pre [] suf L" "l_index L < int (length (running (l_sched L)))"
  shows "\<exists>pre' q suf'. run_inv cfg ok B pre' [q] suf' L \<and> int (length pre') = l_index L \<and> q \<in> set suf \<and>
           py_get (running (l_sched L)) (l_index L) = Inr q"
proof -
  let ?run = "running (l_sched L)" and ?i = "nat (l_index L)"
  note I = run_invD [OF assms(1)]
  have i: "0 \<le> l_index L" "length pre \<le> ?i" "?i < length ?run" using I(5) assms(2) by auto
  let ?k = "?i - length pre"
  have k: "?k < length suf" using i I(3) by simp
  have split: "?run = (pre @ take ?k suf) @ [suf ! ?k] @ drop (Suc ?k) suf"
    using I(3) id_take_nth_drop [OF k] by simp
  have len: "int (length (pre @ take ?k suf)) = l_index L" using i k by simp
  have "int (length (pre @ take ?k suf)) \<le> l_index L" using len by simp
  moreover have "set (l_running L) \<subseteq> set (pre @ take ?k suf)" using I(6) by auto
  moreover have "ok \<longrightarrow> (\<forall>q \<in> set (drop (Suc ?k) suf). tok_ok cfg (the (reqs (l_sched L) q)))"
    using assms(1) set_drop_subset [of "Suc ?k" suf] unfolding run_inv_def by blast
  ultimately have "run_inv cfg ok B (pre @ take ?k suf) [suf ! ?k] (drop (Suc ?k) suf) L"
    using assms(1) split unfolding run_inv_def by blast
  moreover have "py_get ?run (l_index L) = Inr (suf ! ?k)"
    using i I(3) by (simp add: py_get_nonneg nth_append)
  ultimately show ?thesis using len k nth_mem [OF k] by blast
qed

lemma run_inv_advance:
  "run_inv cfg ok B pre [q] suf L \<Longrightarrow> int (length pre) = l_index L \<Longrightarrow>
   run_inv cfg ok B (pre @ [q]) [] suf (L\<lparr>l_index := l_index L + 1\<rparr>)"
  by (auto simp: run_inv_def step_places_def)

lemma place_running_inv:
  assumes inv: "run_inv cfg ok B pre [q] suf L" and i: "int (length pre) = l_index L"
    and n: "ok \<longrightarrow> 0 \<le> n \<and> n \<le> l_token_budget L"
  shows "okE (\<lambda>(go_on, L'). \<exists>pre' suf'. run_inv cfg ok B pre' [] suf' L')
           (place_running cfg env q (is, n, b, ext) L)"
proof (cases "n = 0")
  case True
  then show ?thesis using run_inv_advance [OF inv i] by (auto simp: place_running_def)
next
  case False
  show ?thesis
  proof (rule okEI, clarify)
    fix go_on L'
    assume r: "place_running cfg env q (is, n, b, ext) L = Inr (go_on, L')"
    obtain bs L2 where a: "allocate_or_preempt cfg env q n L = Inr (bs, L2)"
      and rest: "(case bs of None \<Rightarrow> Inr (False, L2)
             | Some blocks \<Rightarrow> bindE (commit_running env q n blocks is b ext L2) (\<lambda>L3. Inr (True, L3))) =
          Inr (go_on, L')"
      using r False by (auto simp: place_running_def)
    obtain pre' suf' where i2: "run_inv cfg ok B pre' (if bs = None then [] else [q]) suf' L2"
      "ok \<longrightarrow> l_token_budget L \<le> l_token_budget L2"
      using okED [OF allocate_or_preempt_run_inv [OF inv] a] by auto
    show "\<exists>pre' suf'. run_inv cfg ok B pre' [] suf' L'"
    proof (cases bs)
      case None
      then show ?thesis using rest i2(1) by auto
    next
      case (Some blocks)
      then have c: "commit_running env q n blocks is b ext L2 = Inr L'" using rest by auto
      have "ok \<longrightarrow> 0 < n \<and> n \<le> l_token_budget L2" using i2 False n by auto
      from okED [OF commit_running_inv [OF _ this] c] i2(1) Some
      have "run_inv cfg ok B (pre' @ [q]) [] suf' L'" by simp
      then show ?thesis by blast
    qed
  qed
qed

lemma run_inv_enc:
  "run_inv cfg ok B pre mid suf (L\<lparr>l_sched := (l_sched L)\<lparr>enc := e\<rparr>\<rparr>) = run_inv cfg ok B pre mid suf L"
  by (rule enc_frame_inv(3)) simp

lemma running_step_inv:
  assumes inv: "run_inv cfg ok B pre [] suf L" and go: "l_index L < int (length (running (l_sched L)))"
    "0 < l_token_budget L" and bs: "0 < sc_cache_block_size cfg"
  shows "okE (\<lambda>(go_on, L'). \<exists>pre' suf'. run_inv cfg ok B pre' [] suf' L') (running_step cfg env L)"
proof -
  obtain pre' q suf' where i: "run_inv cfg ok B pre' [q] suf' L" "int (length pre') = l_index L" "q \<in> set suf"
    "py_get (running (l_sched L)) (l_index L) = Inr q"
    using run_inv_shift [OF inv go(1)] by blast
  obtain r where r: "lookup q (l_sched L) = Inr r" "reqs (l_sched L) q = Some r"
    using lookup_step [OF run_invD(1) [OF i(1)]] run_invD(3) [OF i(1)] by auto
  have tok: "ok \<longrightarrow> tok_ok cfg r" using inv i(3) r(2) by (force simp: run_inv_def)
  have adv: "\<exists>pre' suf'. run_inv cfg ok B pre' [] suf' (L\<lparr>l_index := l_index L + 1\<rparr>)"
    using run_inv_advance [OF i(1,2)] by blast
  have "okE (\<lambda>x. okE (\<lambda>(go_on, L'). \<exists>pre' suf'. run_inv cfg ok B pre' [] suf' L')
          (case x of (plan, s) \<Rightarrow> place_running cfg env q plan (L\<lparr>l_sched := s\<rparr>))) (plan_running cfg env r L)"
  proof (rule okE_conseq [OF plan_running_bounds [OF bs]], clarify)
    fix "is" n b ext s
    assume "only_enc (l_sched L) s"
    then obtain e where s: "s = (l_sched L)\<lparr>enc := e\<rparr>" by (auto simp: only_enc_def)
    assume "tok_ok cfg r \<longrightarrow> 0 < l_token_budget L \<longrightarrow> 0 \<le> n \<and> n \<le> l_token_budget L"
    then have "ok \<longrightarrow> 0 \<le> n \<and> n \<le> l_token_budget L" using tok go(2) by blast
    then show "okE (\<lambda>(go_on, L'). \<exists>pre' suf'. run_inv cfg ok B pre' [] suf' L')
          (place_running cfg env q (is, n, b, ext) (L\<lparr>l_sched := s\<rparr>))"
      unfolding s using i by (intro place_running_inv [where pre = pre' and suf = suf']) (simp_all add: run_inv_enc)
  qed
  then show ?thesis unfolding running_step_def using i(4) r(1) adv by simp
qed

lemma running_loop_inv:
  assumes "run_inv cfg ok B pre [] suf L" "0 < sc_cache_block_size cfg"
  shows "okE (\<lambda>L'. \<exists>pre' suf'. run_inv cfg ok B pre' [] suf' L') (running_loop cfg env L)"
  using assms
proof (induction cfg env L arbitrary: pre suf rule: running_loop.induct)
  case (1 cfg env L)
  show ?case
  proof (cases "l_index L < int (length (running (l_sched L))) \<and> l_token_budget L > 0")
    case True
    have step: "okE (\<lambda>(go_on, L'). \<exists>pre' suf'. run_inv cfg ok B pre' [] suf' L') (running_step cfg env L)"
      using running_step_inv 1(2,3) True by blast
    have "okE (\<lambda>x. okE (\<lambda>L'. \<exists>pre' suf'. run_inv cfg ok B pre' [] suf' L')
             (case x of (go_on, L') \<Rightarrow> if go_on then running_loop cfg env L' else Inr L')) (running_step cfg env L)"
    proof (rule okE_conseq [OF step], clarify)
      fix go_on L' pre' suf'
      assume s: "running_step cfg env L = Inr (go_on, L')" "run_inv cfg ok B pre' [] suf' L'"
      show "okE (\<lambda>L'. \<exists>pre' suf'. run_inv cfg ok B pre' [] suf' L')
              (if go_on then running_loop cfg env L' else Inr L')"
      proof (cases go_on)
        case t: True
        show ?thesis using 1(1) [OF True s(1) refl t s(2) 1(3)] t by simp
      next
        case False
        then show ?thesis using s(2) by auto
      qed
    qed
    then show ?thesis using True by (subst running_loop.simps) simp
  next
    case False
    then have "running_loop cfg env L = Inr L" by (subst running_loop.simps) (simp only: if_False)
    then show ?thesis using 1(2) by auto
  qed
qed

end
