(* ===== verification/Sched_Waiting.thy ===== *)
theory Sched_Waiting
  imports Sched_Inv
begin

text \<open>
  The loop over the waiting requests keeps every request in its place and the books of the step right,
  so the assertions at the end of a step hold; with them the whole step keeps the invariant.
\<close>

section \<open>Before a request is taken out of its queue\<close>

text \<open>Looking at a waiting request may rewrite its object, but it stays where it is.\<close>

definition kept :: "req_id \<Rightarrow> 'c scheduler \<Rightarrow> 'c scheduler \<Rightarrow> bool" where
  "kept q s t \<longleftrightarrow>
     same_lists s t \<and>
     (\<exists>r r'. reqs s q = Some r \<and> reqs t = (reqs s)(q \<mapsto> r') \<and> same_kind r r')"

lemma kept_refl [simp]: "kept q s s \<longleftrightarrow> (\<exists>r. reqs s q = Some r)"
  by (auto simp: kept_def intro!: exI [of _ "the (reqs s q)"] simp: fun_upd_idem)

lemma kept_trans: "kept q s t \<Longrightarrow> kept q t u \<Longrightarrow> kept q s u"
  unfolding kept_def by (metis fun_upd_same fun_upd_upd option.inject same_kind_trans same_lists_trans)

lemma kept_upd [simp]:
  "kept q s (t\<lparr>kv := k\<rparr>) = kept q s t" "kept q s (t\<lparr>enc := e\<rparr>) = kept q s t"
  "kept q s (t\<lparr>envst := c\<rparr>) = kept q s t"
  "kept q s (t\<lparr>finished_recving_kv_req_ids := x\<rparr>) = kept q s t"
  "kept q s (t\<lparr>failed_recving_kv_req_ids := x\<rparr>) = kept q s t"
  "kept q (s\<lparr>kv := k\<rparr>) t = kept q s t" "kept q (s\<lparr>enc := e\<rparr>) t = kept q s t"
  "kept q (s\<lparr>envst := c\<rparr>) t = kept q s t"
  by (simp_all add: kept_def)

lemma kept_put:
  assumes "kept q s t" "reqs t q = Some old" "same_kind old r" "request_id r = q"
  shows "kept q s (put r t)"
proof -
  from assms(1) obtain a b where ab: "same_lists s t" "reqs s q = Some a" "reqs t = (reqs s)(q \<mapsto> b)" "same_kind a b"
    by (auto simp: kept_def)
  have "reqs (put r t) = (reqs s)(q \<mapsto> r)" using ab(3) assms(4) by (simp add: put_def)
  moreover have "same_kind a r" using ab assms(2,3) by (auto intro: same_kind_trans)
  ultimately show ?thesis using ab by (auto simp: kept_def)
qed

lemma same_kind_upd [simp]:
  "same_kind r (r'\<lparr>num_computed_tokens := n\<rparr>) = same_kind r r'"
  "same_kind r (r'\<lparr>num_cached_tokens := n\<rparr>) = same_kind r r'"
  "same_kind r (r'\<lparr>num_external_computed_tokens := n\<rparr>) = same_kind r r'"
  "same_kind (r\<lparr>num_external_computed_tokens := n\<rparr>) r' = same_kind r r'"
  by (simp_all add: same_kind_def is_finished_def)

lemma same_kind_status:
  "same_kind r r' \<Longrightarrow> status r \<noteq> RUNNING \<Longrightarrow> \<not> is_finished r \<Longrightarrow> st \<in> {WAITING, PREEMPTED, WAITING_FOR_REMOTE_KVS} \<Longrightarrow>
   same_kind r (r'\<lparr>status := st\<rparr>)"
  by (auto simp: same_kind_def is_finished_def)

lemma kept_at: "kept q s t \<Longrightarrow> \<exists>r. reqs t q = Some r"
  by (auto simp: kept_def)

lemma kept_lists: "kept q s t \<Longrightarrow> same_lists s t"
  by (simp add: kept_def)

text \<open>\<^verbatim>\<open>holds q r s\<close>: \<^verbatim>\<open>r\<close> is the current object of the request \<^verbatim>\<open>q\<close>.\<close>

definition holds :: "req_id \<Rightarrow> request \<Rightarrow> 'c scheduler \<Rightarrow> bool" where
  "holds q r s \<longleftrightarrow> reqs s q = Some r \<and> request_id r = q"

lemma holds_upd [simp]:
  "holds q r (s\<lparr>kv := k\<rparr>) = holds q r s" "holds q r (s\<lparr>enc := e\<rparr>) = holds q r s" "holds q r (s\<lparr>envst := c\<rparr>) = holds q r s"
  "holds q r (s\<lparr>finished_recving_kv_req_ids := x\<rparr>) = holds q r s"
  "holds q r (s\<lparr>failed_recving_kv_req_ids := x\<rparr>) = holds q r s"
  "holds q r (put r s) \<longleftrightarrow> request_id r = q"
  by (auto simp: holds_def put_def)

lemma kept_at_put: "holds q r s \<Longrightarrow> same_kind r r' \<Longrightarrow> kept q s (put r' s)"
  by (rule kept_put [of q s s r]) (auto simp: holds_def same_kind_def)

lemma kept_put_same:
  assumes "holds q r s" "same_kind r r'" "same_lists s t" "reqs t = reqs s"
  shows "kept q s (put r' t)"
proof (rule kept_put [where old = r])
  show "kept q s t" using assms by (auto simp: kept_def holds_def fun_upd_idem intro!: exI [of _ r])
qed (use assms in \<open>auto simp: same_kind_def holds_def\<close>)

lemma at_kind: "holds q r s \<Longrightarrow> same_kind r r' \<Longrightarrow> holds q r' (put r' s)"
  by (auto simp: holds_def same_kind_def put_def)

lemma update_remote_kept:
  assumes "holds q r s"
  shows "okE (\<lambda>(r', s'). kept q s s' \<and> holds q r' s' \<and> same_kind r r') (update_waiting_for_remote_kv env r s)"
proof -
  have kc: "okE (\<lambda>(r', k'). same_kind r r') (kv_cache_blocks_of r n k)" for n k
    by (rule okE_conseq [OF kv_cache_content]) (auto intro: same_content_kind)
  have ex: "\<exists>x. reqs s q = Some x" using assms by (auto simp: holds_def)
  note kp = kept_put_same [OF assms]
  have id: "request_id r' = q" if "same_kind r r'" for r' using that assms by (auto simp: same_kind_def holds_def)
  show ?thesis
    unfolding update_waiting_for_remote_kv_def
    by (auto simp: res_wp Let_def id intro!: okEI kp dest!: okED [OF kc])
qed

lemma promote_kept:
  assumes "holds q r s" "\<not> is_finished r" "status r \<noteq> RUNNING"
  shows "okE (\<lambda>(ok, r', s'). kept q s s' \<and> holds q r' s') (try_promote_blocked_waiting_request env r s)"
proof -
  have ex: "\<exists>x. reqs s q = Some x" using assms by (auto simp: holds_def)
  have remote: "okE (\<lambda>(r1, s1). \<forall>st. st \<in> {WAITING, PREEMPTED} \<longrightarrow>
      kept q s (put (r1\<lparr>status := st\<rparr>) s1) \<and> request_id r1 = q)
      (update_waiting_for_remote_kv env r s)"
  proof (rule okE_conseq [OF update_remote_kept [OF assms(1)]], clarify)
    fix r' s' st
    assume k: "kept q s s'" "holds q r' s'" "same_kind r r'" and st: "st \<in> {WAITING, PREEMPTED}"
    have sk: "same_kind r' (r'\<lparr>status := st\<rparr>)"
      using k(3) assms(2,3) st by (auto simp: same_kind_def is_finished_def)
    show "kept q s (put (r'\<lparr>status := st\<rparr>) s') \<and> request_id r' = q"
      using kept_trans [OF k(1) kept_at_put [OF k(2) sk]] k(2) by (simp add: holds_def)
  qed
  have g: "kept q s (put (r\<lparr>status := WAITING\<rparr>) s)" "request_id r = q"
    using assms by (auto simp: holds_def intro!: kept_at_put same_kind_status)
  show ?thesis
    unfolding try_promote_blocked_waiting_request_def
    by (auto simp: res_wp Let_def g ex assms(1) intro!: okE_conseq [OF remote] split: request_status.splits)
qed


lemma holds_ex: "holds q r s \<Longrightarrow> \<exists>x. reqs s q = Some x"
  by (simp add: holds_def)

lemma find_computed_kept:
  assumes "holds q r s"
  shows "okE (\<lambda>(found, r', s'). kept q s s' \<and> holds q r' s') (find_computed env r s)"
proof -
  note ex = holds_ex [OF assms]
  have id: "request_id r = q" using assms by (simp add: holds_def)
  note kp = kept_put_same [OF assms]
  show ?thesis
    by (auto simp: find_computed_def Let_def res_wp ex id assms intro!: okEI kp split: option.splits prod.splits)
qed

text \<open>A plan that is carried out in this step has a positive number of tokens within the budget.\<close>

definition plan_ok :: "'c step_state \<Rightarrow> bool \<Rightarrow> (int list \<times> int \<times> int \<times> int list) option \<times> 'c scheduler \<Rightarrow> bool" where
  "plan_ok L load_async x \<longleftrightarrow>
     only_enc (l_sched L) (snd x) \<and>
     (case fst x of None \<Rightarrow> True
      | Some (is, n, b, ext) \<Rightarrow> \<not> load_async \<longrightarrow> 0 < n \<and> n \<le> l_token_budget L)"

lemma plan_encoder_ok:
  assumes "0 < n" "n \<le> l_token_budget L"
  shows "okE (\<lambda>((is, n3, b, ext), s). plan_ok L a (if n3 = 0 then None else Some (is, n3, b, ext), s))
           (try_schedule_encoder_inputs cfg env r ncomp n budget sh (l_sched L))"
  using assms by (intro okE_conseq [OF try_schedule_bounds]) (auto simp: plan_ok_def only_enc_def)

lemma plan_waiting_bounds:
  assumes "0 < sc_cache_block_size cfg"
  shows "okE (plan_ok L load_async) (plan_waiting cfg env r nlocal next load_async ncomp L)"
proof -
  have cut: "okE (\<lambda>n'. plan_ok L load_async (if n' = 0 then None else Some (is, n', b, ext), s))
      (mamba_block_aligned_split cfg r n nlocal next)"
    if "plan_ok L load_async (Some (is, n, b, ext), s)" for n "is" b ext s
  proof (cases load_async)
    case False
    then show ?thesis using that assms by (intro okE_conseq [OF mamba_bounds]) (auto simp: plan_ok_def)
  qed (use that in \<open>auto simp: plan_ok_def intro: okEI\<close>)
  have "okE (plan_ok L load_async) (if load_async
        then assertE (next > 0) (Inr (Some ([], 0, l_encoder_budget L, []), l_sched L))
        else
          (let n1 = num_tokens_waiting cfg r ncomp
           in if \<not> sc_enable_chunked_prefill cfg \<and> n1 > l_token_budget L then Inr (None, l_sched L)
              else
                let n2 = min n1 (l_token_budget L) in
                assertE (n2 > 0)
                  (if has_encoder_inputs r
                   then bindE (try_schedule_encoder_inputs cfg env r ncomp n2 (l_encoder_budget L)
                                 (if sc_use_eagle cfg then 1 else 0) (l_sched L)) (\<lambda>((is, n3, b, ext), s).
                        Inr (if n3 = 0 then None else Some (is, n3, b, ext), s))
                   else Inr (Some ([], n2, l_encoder_budget L, []), l_sched L))))"
  proof (cases load_async)
    case True
    then show ?thesis by (simp add: plan_ok_def)
  next
    case False
    have "okE (plan_ok L load_async) (bindE (try_schedule_encoder_inputs cfg env r ncomp m (l_encoder_budget L) sh
        (l_sched L)) (\<lambda>((is, n3, b, ext), s). Inr (if n3 = 0 then None else Some (is, n3, b, ext), s)))"
      if "0 < m" "m \<le> l_token_budget L" for m sh
      unfolding okE_simps by (rule okE_conseq [OF plan_encoder_ok [OF that]]) auto
    then show ?thesis using False by (auto simp: Let_def plan_ok_def min_def simp del: okE_simps(3))
  qed
  then show ?thesis
    unfolding plan_waiting_def okE_simps
  proof (rule okE_conseq, clarify)
    fix plan s
    assume p: "plan_ok L load_async (plan, s)"
    show "okE (plan_ok L load_async) (case plan of None \<Rightarrow> Inr (None, s)
        | Some (is, n, b, ext) \<Rightarrow>
            if sc_need_mamba_block_aligned_split cfg
            then bindE (mamba_block_aligned_split cfg r n nlocal next) (\<lambda>n'.
                 Inr (if n' = 0 then None else Some (is, n', b, ext), s))
            else Inr (Some (is, n, b, ext), s))"
    proof (cases plan)
      case (Some x)
      obtain "is" n b ext where x: "x = (is, n, b, ext)" by (cases x) auto
      show ?thesis using p cut unfolding Some x by simp
    qed (use p in simp)
  qed
qed

lemma untouch_encoder_kept:
  assumes "holds q r s"
  shows "okE (kept q s) (untouch_encoder env r' s)"
  using holds_ex [OF assms] by (auto simp: untouch_encoder_def res_wp intro!: okEI)

lemma allocate_slots_kind:
  "okE (\<lambda>(bs, r', k'). same_kind r r') (allocate_slots r n nnc cb look ext delay nenc k)"
  by (rule okE_conseq [OF allocate_slots_content]) (auto intro: same_content_kind)

lemma allocate_waiting_kept:
  assumes "holds q r s"
  shows "okE (\<lambda>(ok, s'). kept q s s') (allocate_waiting cfg env r computed is n s)"
proof -
  note ex = holds_ex [OF assms]
  have un: "okE (kept q s) (untouch_encoder env r' t)" if "kept q s t" for r' t
    using that untouch_encoder_kept [of q _ t env r']
    by (auto simp: untouch_encoder_def res_wp intro!: okEI)
  note kp = kept_put_same [OF assms]
  show ?thesis
    by (auto simp: allocate_waiting_def Let_def res_wp ex intro!: okEI kp
        dest!: okED [OF allocate_slots_kind] okED [OF un, rotated] split: option.splits prod.splits)
qed


section \<open>The loop over the waiting requests\<close>

definition wait_inv :: "sched_config \<Rightarrow> bool \<Rightarrow> int \<Rightarrow> 'c step_state \<Rightarrow> bool" where
  "wait_inv cfg ok B L \<longleftrightarrow>
     step_places L \<and> ledger ok B L \<and> set (scheduled L) \<subseteq> set (running (l_sched L)) \<and>
     int (length (running (l_sched L))) \<le> sc_max_num_running_reqs cfg"

lemma run_wait_inv:
  assumes "run_inv cfg ok B pre mid suf L"
  shows "wait_inv cfg ok B L"
proof -
  note I = run_invD [OF assms]
  have "set (scheduled L) \<subseteq> set (running (l_sched L))" using I(3,6,7) by auto
  moreover have "int (length (running (l_sched L))) \<le> sc_max_num_running_reqs cfg"
    using assms unfolding run_inv_def by blast
  ultimately show ?thesis using I(1,2) by (simp add: wait_inv_def)
qed

lemma scheduled_upd [simp]:
  "scheduled (L\<lparr>l_sched := s\<rparr>) = scheduled L" "scheduled (L\<lparr>l_skipped := k\<rparr>) = scheduled L"
  "scheduled (L\<lparr>l_loras := x\<rparr>) = scheduled L"
  by (simp_all add: scheduled_def)

lemma kept_wait_inv:
  assumes "wait_inv cfg ok B L" "kept q (l_sched L) s"
  shows "wait_inv cfg ok B (L\<lparr>l_sched := s\<rparr>)"
proof -
  obtain r r' where k: "same_lists (l_sched L) s" "reqs (l_sched L) q = Some r"
    "reqs s = (reqs (l_sched L))(q \<mapsto> r')" "same_kind r r'"
    using assms(2) by (auto simp: kept_def)
  have "step_places (L\<lparr>l_sched := s\<rparr>)"
    using assms(1) k places_kind [of "reqs (l_sched L)" "running (l_sched L)" _ q r r']
    by (simp add: wait_inv_def step_places_def same_lists_def)
  then show ?thesis using assms(1) k(1) by (simp add: wait_inv_def same_lists_def)
qed

lemma enc_frame_wait_inv: "enc_frame L L' \<Longrightarrow> wait_inv cfg ok B L' = wait_inv cfg ok B L"
  using enc_frame_inv(1,2) [of L L'] by (simp add: wait_inv_def enc_frame_def same_lists_def scheduled_def)

lemma pop_split:
  assumes "q_pop_request lt (get_queue w s) = Inr (q, rest)"
  shows "q_contents (waiting s) + q_contents (skipped_waiting s) =
           add_mset q (q_contents (waiting (set_queue w rest s)) + q_contents (skipped_waiting (set_queue w rest s)))"
    "reqs (set_queue w rest s) = reqs s" "running (set_queue w rest s) = running s"
    "pause (set_queue w rest s) = pause s"
  using bag.pop_contents [OF assms] by (cases w; simp)+

lemma skip_front_inv:
  assumes "wait_inv cfg ok B L" "q_peek_request (get_queue w (l_sched L)) = Inr q"
  shows "okE (wait_inv cfg ok B) (skip_front w q L)"
proof -
  have "wait_inv cfg ok B (L\<lparr>l_sched := set_queue w rest (l_sched L),
      l_skipped := q_prepend_request (req_lt (l_sched L)) q (l_skipped L)\<rparr>)"
    if p: "q_pop_request (req_lt (l_sched L)) (get_queue w (l_sched L)) = Inr (x, rest)" for x rest
  proof -
    have "x = q" using bag.pop_contents [OF p] assms(2) by simp
    then show ?thesis
      using assms(1) pop_split [OF p] by (simp add: wait_inv_def step_places_def bag.contents_prepend)
  qed
  then show ?thesis by (auto simp: skip_front_def Let_def res_wp intro!: okEI)
qed

text \<open>A request that is taken out of its queue and started.\<close>

lemma start_request_inv:
  assumes p: "places (reqs (l_sched L)) (running (l_sched L)) (add_mset q
        (q_contents (waiting (l_sched L)) + q_contents (skipped_waiting (l_sched L)) + q_contents (l_skipped L)))"
    and l: "ledger ok B L" "set (scheduled L) \<subseteq> set (running (l_sched L))"
      "int (length (running (l_sched L))) < sc_max_num_running_reqs cfg"
    and n: "0 < n" "n \<le> l_token_budget L"
  shows "okE (wait_inv cfg ok B) (start_request cfg env q ncomp (is, n, b, ext) L)"
proof -
  let ?s = "l_sched L"
  obtain r where r: "reqs ?s q = Some r" "request_id r = q" "q \<notin> set (running ?s)"
    using places_waiting [OF p, of q] by auto
  then have nq: "q \<notin> set (scheduled L)" using l(2) by auto
  have d: "dict_set q n (l_num_scheduled L) = l_num_scheduled L @ [(q, n)]"
    using l(1) nq by (intro dict_set_fresh) (auto simp: ledger_def)
  have inv: "wait_inv cfg ok B M"
    if m: "reqs (l_sched M) = (reqs ?s)(q \<mapsto> the (reqs (l_sched M) q))"
      "request_id (the (reqs (l_sched M) q)) = q" "status (the (reqs (l_sched M) q)) = RUNNING"
      "running (l_sched M) = running ?s @ [q]" "waiting (l_sched M) = waiting ?s"
      "skipped_waiting (l_sched M) = skipped_waiting ?s" "l_skipped M = l_skipped L"
      "l_num_scheduled M = l_num_scheduled L @ [(q, n)]" "l_token_budget M = l_token_budget L - n"
      "dom (l_new_blocks M) = insert q (dom (l_new_blocks L))" "l_running M = l_running L"
      "l_new M = l_new L @ [q] \<and> l_resumed M = l_resumed L \<or> l_new M = l_new L \<and> l_resumed M = l_resumed L @ [q]"
    for M
  proof -
    have "step_places M"
      using places_start [OF p m(2,3)] unfolding m(1) [symmetric] by (simp add: step_places_def m(4-7))
    moreover have "ledger ok B M" using m(8-12) l(1) nq n by (auto simp: ledger_def scheduled_def)
    moreover have "set (scheduled M) \<subseteq> set (running (l_sched M))"
      using m(4,11,12) l(2) by (auto simp: scheduled_def)
    ultimately show ?thesis using l(3) by (simp add: wait_inv_def m(4))
  qed
  have sched: "okE (wait_inv cfg ok B) (schedule_encoder env q is b ext M)" if "wait_inv cfg ok B M" for M
    using that by (intro okE_conseq [OF schedule_encoder_frame]) (simp add: enc_frame_wait_inv)
  show ?thesis
    unfolding start_request_def lookup_def
    by (auto simp: Let_def res_wp d r put_def intro!: sched inv)
qed


lemma admit_waiting_inv:
  assumes inv: "wait_inv cfg ok B L" and len: "int (length (running (l_sched L))) < sc_max_num_running_reqs cfg"
    and n: "\<not> load_async \<Longrightarrow> 0 < n \<and> n \<le> l_token_budget L"
  shows "okE (wait_inv cfg ok B) (admit_waiting cfg env w q load_async ncomp (is, n, b, ext) L)"
proof (rule okEI)
  fix L'
  assume a: "admit_waiting cfg env w q load_async ncomp (is, n, b, ext) L = Inr L'"
  let ?s = "l_sched L"
  obtain x rest where p: "q_pop_request (req_lt ?s) (get_queue w ?s) = Inr (x, rest)"
    using a by (auto simp: admit_waiting_def Let_def)
  let ?t = "set_queue w rest ?s" and ?L = "L\<lparr>l_sched := set_queue w rest ?s\<rparr>"
  note split = pop_split [OF p]
  have places: "places (reqs ?s) (running ?s) (add_mset x
      (q_contents (waiting ?t) + q_contents (skipped_waiting ?t) + q_contents (l_skipped L)))"
    using inv split(1) by (simp add: wait_inv_def step_places_def)
  show "wait_inv cfg ok B L'"
  proof (cases load_async)
    case False
    have "start_request cfg env x ncomp (is, n, b, ext) ?L = Inr L'"
      using a p False by (simp add: admit_waiting_def Let_def)
    moreover have "okE (wait_inv cfg ok B) (start_request cfg env x ncomp (is, n, b, ext) ?L)"
      using inv len n [OF False] places
      by (intro start_request_inv) (simp_all add: wait_inv_def split(2,3))
    ultimately show ?thesis by (rule okED [rotated])
  next
    case True
    obtain r where r: "reqs ?s x = Some r" "request_id r = x" "\<not> is_finished r" "status r \<noteq> RUNNING"
      using places_waiting [OF places, of x] by auto
    let ?r = "r\<lparr>status := WAITING_FOR_REMOTE_KVS, num_computed_tokens := ncomp\<rparr>"
    have L': "L' = ?L\<lparr>l_sched := put ?r ?t, l_skipped := q_prepend_request (req_lt ?s) x (l_skipped L)\<rparr>"
      using a p True r(1) by (auto simp: admit_waiting_def Let_def lookup_def)
    have "same_kind r ?r" using r by (simp add: same_kind_def is_finished_def)
    from places_kind [OF places r(1) this] have "step_places L'"
      unfolding L' by (simp add: step_places_def put_def r(2) split(2,3) bag.contents_prepend)
    then show ?thesis
      using inv unfolding wait_inv_def by (simp add: L' put_def split(3))
  qed
qed

lemma place_waiting_inv:
  assumes inv: "wait_inv cfg ok B L" and len: "int (length (running (l_sched L))) < sc_max_num_running_reqs cfg"
    and q: "q_peek_request (get_queue w (l_sched L)) = Inr q" "holds q r (l_sched L)"
    and bs: "0 < sc_cache_block_size cfg"
  shows "okE (\<lambda>(go_on, L'). wait_inv cfg ok B L') (place_waiting cfg env w q r L)"
proof (rule okEI, clarify)
  fix go_on L'
  assume p: "place_waiting cfg env w q r L = Inr (go_on, L')"
  obtain found r1 s1 where f: "find_computed env r (l_sched L) = Inr (found, r1, s1)"
    using p by (auto simp: place_waiting_def)
  have k1: "kept q (l_sched L) s1" and h1: "holds q r1 s1" using okED [OF find_computed_kept [OF q(2)] f] by auto
  let ?L1 = "L\<lparr>l_sched := s1\<rparr>"
  have i1: "wait_inv cfg ok B ?L1" by (rule kept_wait_inv [OF inv k1])
  show "wait_inv cfg ok B L'"
  proof (cases found)
    case None
    have "q_peek_request (get_queue w (l_sched ?L1)) = Inr q"
      using q(1) same_lists_get_queue [OF kept_lists [OF k1]] by simp
    from skip_front_inv [OF i1 this] show ?thesis
      using p f None by (auto simp: place_waiting_def dest: okED)
  next
    case (Some c)
    obtain blocks nlocal nxt load_async ncomp where c: "c = (blocks, nlocal, nxt, load_async, ncomp)"
      by (cases c) auto
    obtain plan s2 where pl: "plan_waiting cfg env r1 nlocal nxt load_async ncomp ?L1 = Inr (plan, s2)"
      using p f Some c by (auto simp: place_waiting_def Let_def)
    have ok: "plan_ok ?L1 load_async (plan, s2)" by (rule okED [OF plan_waiting_bounds [OF bs] pl])
    then obtain e where s2: "s2 = s1\<lparr>enc := e\<rparr>" by (auto simp: plan_ok_def only_enc_def)
    have i2: "wait_inv cfg ok B (L\<lparr>l_sched := s2\<rparr>)" and k2: "kept q (l_sched L) s2"
      using k1 by (auto simp: s2 intro: kept_wait_inv [OF inv])
    show ?thesis
    proof (cases plan)
      case None
      then show ?thesis using p f Some c pl i2 by (auto simp: place_waiting_def Let_def)
    next
      case plan: (Some y)
      obtain "is" n b ext where y: "y = (is, n, b, ext)" by (cases y) auto
      obtain fit s3 where al: "allocate_waiting cfg env r1 (blocks, nlocal, nxt, load_async, ncomp) is n s2 = Inr (fit, s3)"
        and rest: "(if \<not> fit then Inr (False, L\<lparr>l_sched := s3\<rparr>)
          else bindE (admit_waiting cfg env w q load_async ncomp (is, n, b, ext) (L\<lparr>l_sched := s3\<rparr>)) (\<lambda>L4.
                 Inr (True, L4))) = Inr (go_on, L')"
        using p f Some c pl plan y by (auto simp: place_waiting_def Let_def)
      have "holds q r1 s2" using h1 by (simp add: s2)
      from okED [OF allocate_waiting_kept [OF this] al] have "kept q s2 s3" by simp
      then have k3: "kept q (l_sched L) s3" by (rule kept_trans [OF k2])
      have i3: "wait_inv cfg ok B (L\<lparr>l_sched := s3\<rparr>)" by (rule kept_wait_inv [OF inv k3])
      have len3: "int (length (running (l_sched (L\<lparr>l_sched := s3\<rparr>)))) < sc_max_num_running_reqs cfg"
        using len kept_lists [OF k3] by (simp add: same_lists_def)
      have n: "0 < n \<and> n \<le> l_token_budget (L\<lparr>l_sched := s3\<rparr>)" if "\<not> load_async"
        using ok that by (simp add: plan_ok_def plan y)
      have "okE (wait_inv cfg ok B) (admit_waiting cfg env w q load_async ncomp (is, n, b, ext) (L\<lparr>l_sched := s3\<rparr>))"
        by (rule admit_waiting_inv [OF i3 len3]) (rule n)
      then show ?thesis using rest i3 by (auto split: if_splits dest: okED)
    qed
  qed
qed

lemma waiting_step_inv:
  assumes inv: "wait_inv cfg ok B L" and bs: "0 < sc_cache_block_size cfg"
  shows "okE (\<lambda>(go_on, L'). wait_inv cfg ok B L') (waiting_step cfg env L)"
proof (rule okEI, clarify)
  fix go_on L'
  assume w: "waiting_step cfg env L = Inr (go_on, L')"
  let ?s = "l_sched L"
  show "wait_inv cfg ok B L'"
  proof (cases "int (length (running ?s)) = sc_max_num_running_reqs cfg")
    case True
    then show ?thesis using w inv by (simp add: waiting_step_def)
  next
    case False
    then have len: "int (length (running ?s)) < sc_max_num_running_reqs cfg" using inv by (simp add: wait_inv_def)
    obtain wq q r0 where sel: "select_waiting_queue cfg ?s = Inr (Some wq)"
      and q: "q_peek_request (get_queue wq ?s) = Inr q" and r0: "lookup q ?s = Inr r0"
      using w False by (auto simp: waiting_step_def split: option.splits)
    have c: "0 < count (q_contents (waiting ?s) + q_contents (skipped_waiting ?s) + q_contents (l_skipped L)) q"
      using bag.peek_contents [OF q, of "\<lambda>_ _. False"] by (cases wq) auto
    have "places (reqs ?s) (running ?s)
        (q_contents (waiting ?s) + q_contents (skipped_waiting ?s) + q_contents (l_skipped L))"
      using inv by (simp add: wait_inv_def step_places_def)
    from places_waiting [OF this c] r0 have h: "holds q r0 ?s" "\<not> is_finished r0" "status r0 \<noteq> RUNNING"
      by (auto simp: holds_def lookup_def)
    obtain ready r s where pr: "(if is_blocked_waiting_status (status r0)
                   then try_promote_blocked_waiting_request env r0 ?s
                   else Inr (True, r0, ?s)) = Inr (ready, r, s)"
      and rest: "(if \<not> ready \<or> exceeds_loras cfg r (l_loras L)
            then bindE (skip_front wq q (L\<lparr>l_sched := s\<rparr>)) (\<lambda>L2. Inr (True, L2))
            else place_waiting cfg env wq q r (L\<lparr>l_sched := s\<rparr>)) = Inr (go_on, L')"
      using w False sel q r0 by (auto simp: waiting_step_def Let_def)
    have k: "kept q ?s s" and hr: "holds q r s"
      using okED [OF promote_kept [OF h]] pr h(1) by (auto simp: holds_def split: if_splits)
    let ?L = "L\<lparr>l_sched := s\<rparr>"
    have i: "wait_inv cfg ok B ?L" by (rule kept_wait_inv [OF inv k])
    have sl: "same_lists ?s s" by (rule kept_lists [OF k])
    have q': "q_peek_request (get_queue wq (l_sched ?L)) = Inr q" using q same_lists_get_queue [OF sl] by simp
    have len': "int (length (running (l_sched ?L))) < sc_max_num_running_reqs cfg"
      using len sl by (simp add: same_lists_def)
    show ?thesis
      using rest skip_front_inv [OF i q'] place_waiting_inv [OF i len' q' _ bs] hr
      by (auto split: if_splits dest: okED)
  qed
qed

lemma waiting_loop_inv:
  assumes "wait_inv cfg ok B L" "0 < sc_cache_block_size cfg"
  shows "okE (wait_inv cfg ok B) (waiting_loop cfg env L)"
  using assms
proof (induction cfg env L rule: waiting_loop.induct)
  case (1 cfg env L)
  show ?case
  proof (cases "(q_bool (waiting (l_sched L)) \<or> q_bool (skipped_waiting (l_sched L))) \<and> l_token_budget L > 0")
    case True
    have "okE (wait_inv cfg ok B) (case x of (go_on, L') \<Rightarrow> if go_on then waiting_loop cfg env L' else Inr L')"
      if s: "waiting_step cfg env L = Inr x" "case x of (go_on, L') \<Rightarrow> wait_inv cfg ok B L'" for x
      using 1(1) [OF True s(1)] s(2) 1(3) by (cases x) auto
    then have "okE (\<lambda>x. okE (wait_inv cfg ok B) (case x of (go_on, L') \<Rightarrow> if go_on then waiting_loop cfg env L' else Inr L'))
        (waiting_step cfg env L)"
      by (rule okE_conseq [OF waiting_step_inv [OF 1(2,3)]])
    then show ?thesis using True by (subst waiting_loop.simps) simp
  next
    case False
    then have "waiting_loop cfg env L = Inr L" by (subst waiting_loop.simps) (simp only: if_False)
    then show ?thesis using 1(2) by simp
  qed
qed


lemma schedule_waiting_inv:
  assumes inv: "wait_inv cfg ok B L" and bs: "0 < sc_cache_block_size cfg" and skip: "q_contents (l_skipped L) = {#}"
  shows "okE (\<lambda>L'. ledger ok B L' \<and> set (scheduled L') \<subseteq> set (running (l_sched L')) \<and> sched_inv (l_sched L') \<and>
           int (length (running (l_sched L'))) \<le> sc_max_num_running_reqs cfg) (schedule_waiting cfg env L)"
proof -
  have finish: "ledger ok B M \<and> set (scheduled M) \<subseteq> set (running (l_sched M)) \<and> sched_inv (l_sched M) \<and>
           int (length (running (l_sched M))) \<le> sc_max_num_running_reqs cfg"
    if "wait_inv cfg ok B M" "q_contents (l_skipped M) = {#}" for M
    using that by (simp add: wait_inv_def sched_inv_def step_places_def)
  have requeue: "wait_inv cfg ok B (M\<lparr>l_sched := (l_sched M)\<lparr>skipped_waiting :=
      q_prepend_requests lt (l_skipped M) (skipped_waiting (l_sched M))\<rparr>, l_skipped := create_request_queue FCFS\<rparr>)"
    if "wait_inv cfg ok B M" for M lt
    using that by (simp add: wait_inv_def step_places_def bag.contents_prepend_all add_ac)
  have "okE (\<lambda>M. ledger ok B (if q_bool (l_skipped M) then on_sched (\<lambda>s. s\<lparr>skipped_waiting :=
        q_prepend_requests (req_lt s) (l_skipped M) (skipped_waiting s)\<rparr>) M else M) \<and>
      set (scheduled M) \<subseteq> set (running (l_sched M)) \<and>
      sched_inv (l_sched (if q_bool (l_skipped M) then on_sched (\<lambda>s. s\<lparr>skipped_waiting :=
        q_prepend_requests (req_lt s) (l_skipped M) (skipped_waiting s)\<rparr>) M else M)) \<and>
      int (length (running (l_sched M))) \<le> sc_max_num_running_reqs cfg) (waiting_loop cfg env L)"
  proof (rule okE_conseq [OF waiting_loop_inv [OF inv bs]])
    fix M
    assume i: "wait_inv cfg ok B M"
    show "ledger ok B (if q_bool (l_skipped M) then on_sched (\<lambda>s. s\<lparr>skipped_waiting :=
        q_prepend_requests (req_lt s) (l_skipped M) (skipped_waiting s)\<rparr>) M else M) \<and>
      set (scheduled M) \<subseteq> set (running (l_sched M)) \<and>
      sched_inv (l_sched (if q_bool (l_skipped M) then on_sched (\<lambda>s. s\<lparr>skipped_waiting :=
        q_prepend_requests (req_lt s) (l_skipped M) (skipped_waiting s)\<rparr>) M else M)) \<and>
      int (length (running (l_sched M))) \<le> sc_max_num_running_reqs cfg"
      using finish [OF requeue [OF i]] i
      by (auto simp: wait_inv_def sched_inv_def step_places_def bag.nonempty_iff bag.contents_prepend_all add_ac)
  qed
  then show ?thesis
    unfolding schedule_waiting_def using finish [OF inv skip] by (auto elim!: okE_conseq)
qed

section \<open>The step\<close>

lemma init_step_inv:
  assumes "sched_inv s" "int (length (running s)) \<le> sc_max_num_running_reqs cfg"
    "ok \<longrightarrow> 0 \<le> sc_max_num_scheduled_tokens cfg \<and> (\<forall>q \<in> set (running s). tok_ok cfg (the (reqs s q)))"
  shows "run_inv cfg ok (if pause s = PAUSED_ALL then 0 else sc_max_num_scheduled_tokens cfg) [] [] (running s) (init_step cfg s)"
  using assms by (cases "sc_policy cfg")
    (auto simp: run_inv_def init_step_def step_places_def sched_inv_def ledger_def scheduled_def)

text \<open>With \<^verbatim>\<open>ok\<close>, a step needs running requests that can be given tokens and yields correct books; without
  it, it still keeps every request in its place.\<close>

definition step_ready :: "sched_config \<Rightarrow> bool \<Rightarrow> 'c scheduler \<Rightarrow> bool" where
  "step_ready cfg ok s \<longleftrightarrow>
     sched_inv s \<and> int (length (running s)) \<le> sc_max_num_running_reqs cfg \<and> 0 < sc_cache_block_size cfg \<and>
     (ok \<longrightarrow> 0 \<le> sc_max_num_scheduled_tokens cfg \<and> (\<forall>q \<in> set (running s). tok_ok cfg (the (reqs s q))))"

definition step_budget :: "sched_config \<Rightarrow> 'c scheduler \<Rightarrow> int" where
  "step_budget cfg s = (if pause s = PAUSED_ALL then 0 else sc_max_num_scheduled_tokens cfg)"

lemma step_books:
  assumes "ledger True B L" "set (scheduled L) \<subseteq> set (running (l_sched L))"
    "int (length (running (l_sched L))) \<le> sc_max_num_running_reqs cfg" "B \<le> sc_max_num_scheduled_tokens cfg"
  shows "step_checks cfg L"
proof -
  have d: "distinct (scheduled L)" using assms(1) by (simp add: ledger_def)
  have "length (scheduled L) = card (set (scheduled L))" by (rule distinct_card [OF d, symmetric])
  also have "\<dots> \<le> card (set (running (l_sched L)))" by (rule card_mono [OF finite_set assms(2)])
  also have "\<dots> \<le> length (running (l_sched L))" by (rule card_length)
  finally show ?thesis using assms by (auto simp: step_checks_def ledger_def scheduled_def)
qed

lemma both_loops:
  assumes ready: "step_ready cfg ok s"
    and run: "running_loop cfg env (init_step cfg s) = Inr L1"
    and wait: "schedule_waiting cfg env (L1\<lparr>l_loras := loras\<rparr>) = Inr L2"
  shows "ledger ok (step_budget cfg s) L2"
    "set (scheduled L2) \<subseteq> set (running (l_sched L2))" "sched_inv (l_sched L2)"
    "int (length (running (l_sched L2))) \<le> sc_max_num_running_reqs cfg"
proof -
  have bs: "0 < sc_cache_block_size cfg" using ready by (simp add: step_ready_def)
  have "run_inv cfg ok (step_budget cfg s) [] [] (running s) (init_step cfg s)"
    unfolding step_budget_def using ready by (intro init_step_inv) (simp_all add: step_ready_def)
  from okED [OF running_loop_inv [OF this bs] run]
  obtain pre suf where i: "run_inv cfg ok (step_budget cfg s) pre [] suf L1" by auto
  have "wait_inv cfg ok (step_budget cfg s) L1" by (rule run_wait_inv [OF i])
  then have w: "wait_inv cfg ok (step_budget cfg s) (L1\<lparr>l_loras := loras\<rparr>)"
    by (simp add: wait_inv_def step_places_def)
  have k: "q_contents (l_skipped (L1\<lparr>l_loras := loras\<rparr>)) = {#}" using i by (simp add: run_inv_def)
  show "ledger ok (step_budget cfg s) L2" "set (scheduled L2) \<subseteq> set (running (l_sched L2))" "sched_inv (l_sched L2)"
    "int (length (running (l_sched L2))) \<le> sc_max_num_running_reqs cfg"
    using okED [OF schedule_waiting_inv [OF w bs k] wait] by auto
qed


section \<open>Preempted requests\<close>

text \<open>The pass over the waiting requests, which takes place only when nothing was preempted, preempts
  nothing.\<close>

lemma skip_front_preempted: "okE (\<lambda>L'. l_preempted L' = l_preempted L) (skip_front w q L)"
  by (auto simp: skip_front_def Let_def res_wp intro!: okEI)

lemma start_request_preempted:
  "okE (\<lambda>L'. l_preempted L' = l_preempted L) (start_request cfg env q ncomp plan L)"
proof -
  have f: "okE (\<lambda>L'. l_preempted L' = l_preempted M) (schedule_encoder env q is b ext M)" for "is" b ext M
    by (rule okE_conseq [OF schedule_encoder_frame]) (simp add: enc_frame_def)
  show ?thesis
    by (auto simp: start_request_def res_wp Let_def intro!: okEI dest!: okED [OF f] split: prod.splits)
qed

lemma admit_waiting_preempted:
  "okE (\<lambda>L'. l_preempted L' = l_preempted L) (admit_waiting cfg env w q load_async ncomp plan L)"
  by (auto simp: admit_waiting_def res_wp Let_def intro!: okEI dest!: okED [OF start_request_preempted])

lemma waiting_step_preempted:
  "okE (\<lambda>(go_on, L'). l_preempted L' = l_preempted L) (waiting_step cfg env L)"
proof -
  have place: "okE (\<lambda>(go_on, L'). l_preempted L' = l_preempted M) (place_waiting cfg env w q r M)" for w q r M
    unfolding place_waiting_def
    by (auto simp: res_wp Let_def intro!: okEI dest!: okED [OF skip_front_preempted]
        okED [OF admit_waiting_preempted] split: option.splits prod.splits)
  show ?thesis
    unfolding waiting_step_def
    by (auto simp: res_wp Let_def intro!: okEI dest!: okED [OF skip_front_preempted] okED [OF place]
        split: option.splits)
qed

lemma waiting_loop_preempted: "okE (\<lambda>L'. l_preempted L' = l_preempted L) (waiting_loop cfg env L)"
proof (induction cfg env L rule: waiting_loop.induct)
  case (1 cfg env L)
  show ?case
  proof (rule okEI)
    fix L'
    assume w: "waiting_loop cfg env L = Inr L'"
    show "l_preempted L' = l_preempted L"
    proof (cases "(q_bool (waiting (l_sched L)) \<or> q_bool (skipped_waiting (l_sched L))) \<and> l_token_budget L > 0")
      case True
      then obtain g M where s: "waiting_step cfg env L = Inr (g, M)"
        and rest: "(if g then waiting_loop cfg env M else Inr M) = Inr L'"
        using w by (subst (asm) waiting_loop.simps) auto
      have "l_preempted M = l_preempted L" using okED [OF waiting_step_preempted s] by simp
      then show ?thesis using okED [OF 1 [OF True s refl]] rest by (cases g) auto
    next
      case False
      then have "waiting_loop cfg env L = Inr L" by (subst waiting_loop.simps) (simp only: if_False)
      then show ?thesis using w by simp
    qed
  qed
qed

lemma schedule_waiting_preempted:
  assumes "set (l_preempted L) \<inter> set (running (l_sched L)) = {}"
  shows "okE (\<lambda>L'. set (l_preempted L') \<inter> set (running (l_sched L')) = {}) (schedule_waiting cfg env L)"
  using assms
  by (auto simp: schedule_waiting_def intro!: okEI dest!: okED [OF waiting_loop_preempted] split: if_splits)


lemma both_loops_preempted:
  assumes ready: "step_ready cfg ok s"
    and run: "running_loop cfg env (init_step cfg s) = Inr L1"
    and wait: "schedule_waiting cfg env (L1\<lparr>l_loras := loras\<rparr>) = Inr L2"
  shows "set (l_preempted L2) \<inter> set (running (l_sched L2)) = {}"
proof -
  have bs: "0 < sc_cache_block_size cfg" using ready by (simp add: step_ready_def)
  have "run_inv cfg ok (step_budget cfg s) [] [] (running s) (init_step cfg s)"
    unfolding step_budget_def using ready by (intro init_step_inv) (simp_all add: step_ready_def)
  from okED [OF running_loop_inv [OF this bs] run]
  have "set (l_preempted L1) \<inter> set (running (l_sched L1)) = {}" by (auto simp: run_inv_def)
  then have "set (l_preempted (L1\<lparr>l_loras := loras\<rparr>)) \<inter> set (running (l_sched (L1\<lparr>l_loras := loras\<rparr>))) = {}"
    by simp
  from okED [OF schedule_waiting_preempted [OF this] wait] show ?thesis .
qed

end
