(* ===== verification/Sched_Step.thy ===== *)
theory Sched_Step
  imports Sched_Waiting
begin

text \<open>
  The whole step: what the output says about the requests, and what the step leaves behind. The two
  loops are covered by the theories before; here the output is built and the counters are advanced.
\<close>

section \<open>Changing objects in place\<close>

definition all_kept :: "'c scheduler \<Rightarrow> 'c scheduler \<Rightarrow> bool" where
  "all_kept s t \<longleftrightarrow> same_lists s t \<and> rel_fun (=) (rel_option same_kind) (reqs s) (reqs t)"

lemma rel_option_kind_refl [simp]: "rel_option same_kind x x"
  by (cases x) simp_all

lemma rel_option_kind_trans:
  "rel_option same_kind x y \<Longrightarrow> rel_option same_kind y z \<Longrightarrow> rel_option same_kind x z"
  by (cases x; cases y; cases z) (auto intro: same_kind_trans)

lemma all_kept_refl [simp]: "all_kept s s"
  by (simp add: all_kept_def rel_fun_def)

lemma all_kept_trans: "all_kept s t \<Longrightarrow> all_kept t u \<Longrightarrow> all_kept s u"
  unfolding all_kept_def rel_fun_def by (blast intro: same_lists_trans rel_option_kind_trans)

lemma all_kept_eq: "same_lists s t \<Longrightarrow> reqs t = reqs s \<Longrightarrow> all_kept s t"
  by (simp add: all_kept_def rel_fun_def)

lemma all_kept_upd [simp]:
  "all_kept s (t\<lparr>kv := k\<rparr>) = all_kept s t" "all_kept s (t\<lparr>enc := e\<rparr>) = all_kept s t"
  "all_kept s (t\<lparr>envst := c\<rparr>) = all_kept s t" "all_kept s (t\<lparr>finished_req_ids := f\<rparr>) = all_kept s t"
  "all_kept s (t\<lparr>finished_req_ids_dict := fd\<rparr>) = all_kept s t"
  "all_kept s (t\<lparr>failed_recving_kv_req_ids := fr\<rparr>) = all_kept s t"
  "all_kept s (t\<lparr>finished_recving_kv_req_ids := fr\<rparr>) = all_kept s t"
  "all_kept s (t\<lparr>prev_step_scheduled_req_ids := p\<rparr>) = all_kept s t"
  "all_kept s (t\<lparr>pause := ps\<rparr>) = all_kept s t"
  "all_kept s (t\<lparr>num_waiting_for_streaming_input := n\<rparr>) = all_kept s t"
  by (simp_all add: all_kept_def same_lists_def)

lemma all_kept_put:
  assumes "reqs s (request_id r) = Some old" "same_kind old r"
  shows "all_kept s (put r s)"
  using assms by (auto simp: all_kept_def rel_fun_def put_def same_lists_def)

lemma placed_rel: "rel_option same_kind x y \<Longrightarrow> placed y a b = placed x a b"
  by (cases x; cases y) (auto dest: placed_kind)

lemma places_rel:
  assumes "places m run Q" "rel_fun (=) (rel_option same_kind) m m'"
  shows "places m' run Q"
proof -
  have r: "rel_option same_kind (m q) (m' q)" for q using assms(2) by (simp add: rel_fun_def)
  have "request_id x = q" if "m' q = Some x" for q x
    using r [of q] that places_id [OF assms(1), of q] by (cases "m q") (auto simp: same_kind_def)
  then show ?thesis using assms(1) placed_rel [OF r] by (simp add: places_def)
qed

lemma all_kept_inv: "all_kept s t \<Longrightarrow> sched_inv s \<Longrightarrow> sched_inv t \<and> running t = running s"
  using places_rel by (simp add: all_kept_def sched_inv_def same_lists_def)

lemma sched_inv_id: "sched_inv s \<Longrightarrow> reqs s q = Some r \<Longrightarrow> request_id r = q"
  unfolding sched_inv_def by (rule places_id)

section \<open>The output\<close>

definition computed_of :: "'c scheduler \<Rightarrow> req_id \<Rightarrow> int" where
  "computed_of s q = num_computed_tokens (the (reqs s q))"

lemma add_cached_effect:
  "okE (\<lambda>d'. cr_req_ids d' = cr_req_ids d @ [q] \<and>
          cr_num_computed_tokens d' = cr_num_computed_tokens d @ [computed_of (l_sched L) q])
     (add_cached_request cfg L resumed q d)"
  unfolding add_cached_request_def lookup_def
  by (auto simp: Let_def res_wp computed_of_def intro!: okEI split: option.splits)

lemma cached_fold:
  "okE (\<lambda>d'. cr_req_ids d' = cr_req_ids d @ qs \<and>
          cr_num_computed_tokens d' = cr_num_computed_tokens d @ map (computed_of (l_sched L)) qs)
     (foldE (add_cached_request cfg L resumed) qs d)"
proof (induction qs arbitrary: d)
  case (Cons q qs)
  show ?case
    by (auto intro!: okEI dest!: okED [OF add_cached_effect] okED [OF Cons.IH])
qed simp

lemma make_cached_effect:
  "okE (\<lambda>d. cr_req_ids d = run @ resumed \<and>
          cr_num_computed_tokens d = map (computed_of (l_sched L)) (run @ resumed))
     (make_cached_request_data cfg run resumed L)"
  unfolding make_cached_request_data_def
  by (auto simp: empty_cached_request_data_def intro!: okEI dest!: okED [OF cached_fold])

lemma make_new_effect:
  assumes "\<And>q r. reqs (l_sched L) q = Some r \<Longrightarrow> request_id r = q"
  shows "okE (\<lambda>ds. map nr_req_id ds = qs \<and> map nr_num_computed_tokens ds = map (computed_of (l_sched L)) qs)
     (mapE (make_new_request_data L prefill) qs)"
proof (induction qs)
  case (Cons q qs)
  have "okE (\<lambda>d. nr_req_id d = q \<and> nr_num_computed_tokens d = computed_of (l_sched L) q)
      (make_new_request_data L prefill q)"
    using assms by (auto simp: make_new_request_data_def lookup_def Let_def res_wp new_request_data_of_def
        computed_of_def intro!: okEI split: option.splits)
  then show ?case by (auto intro!: okEI dest!: okED okED [OF Cons.IH])
qed simp

text \<open>The workers are told each scheduled request once, with the number of tokens computed before the
  step.\<close>

definition tells :: "'c step_state \<Rightarrow> scheduler_output \<Rightarrow> bool" where
  "tells L out \<longleftrightarrow>
     mset (map nr_req_id (so_scheduled_new_reqs out)) + mset (cr_req_ids (so_scheduled_cached_reqs out)) =
       mset (scheduled L) \<and>
     map nr_num_computed_tokens (so_scheduled_new_reqs out) =
       map (computed_of (l_sched L)) (map nr_req_id (so_scheduled_new_reqs out)) \<and>
     cr_num_computed_tokens (so_scheduled_cached_reqs out) =
       map (computed_of (l_sched L)) (cr_req_ids (so_scheduled_cached_reqs out)) \<and>
     so_num_scheduled_tokens out = l_num_scheduled L \<and>
     so_total_num_scheduled_tokens out = sum_list (map snd (l_num_scheduled L)) \<and>
     so_preempted_req_ids out = set (l_preempted L)"

lemma computed_of_upd [simp]:
  "computed_of (s\<lparr>kv := k\<rparr>) = computed_of s" "computed_of (s\<lparr>enc := e\<rparr>) = computed_of s"
  "computed_of (s\<lparr>envst := c\<rparr>) = computed_of s"
  by (simp_all add: computed_of_def fun_eq_iff)

lemma build_output_effect:
  assumes "sched_inv (l_sched L)"
  shows "okE (\<lambda>(out, s'). tells L out \<and> same_lists (l_sched L) s' \<and> reqs s' = reqs (l_sched L))
           (build_output cfg env L)"
proof (rule okEI, clarify)
  fix out s'
  assume b: "build_output cfg env L = Inr (out, s')"
  define new where "new = (if sc_use_v2_model_runner cfg then l_new L @ l_resumed L else l_new L)"
  define res where "res = (if sc_use_v2_model_runner cfg then [] else l_resumed L)"
  obtain common k where c: "(case running (l_sched L) of
              [] \<Rightarrow> Inr (replicate (num_kv_cache_groups (kv (l_sched L))) 0, kv (l_sched L))
            | q # _ \<Rightarrow> kv_num_common_prefix_blocks q (kv (l_sched L))) = Inr (common, k)"
    using b by (auto simp: build_output_def)
  let ?L = "on_sched (\<lambda>s. s\<lparr>kv := k\<rparr>) L"
  obtain nd where n: "mapE (make_new_request_data ?L (sc_use_v2_model_runner cfg)) new = Inr nd"
    using b c by (auto simp: build_output_def Let_def new_def split: if_splits)
  obtain cd where m: "make_cached_request_data cfg (l_running L) res ?L = Inr cd"
    using b c n by (auto simp: build_output_def Let_def new_def res_def split: if_splits)
  have out: "so_scheduled_new_reqs out = nd \<and> so_scheduled_cached_reqs out = cd \<and>
      so_num_scheduled_tokens out = l_num_scheduled L \<and>
      so_total_num_scheduled_tokens out = sum_list (map snd (l_num_scheduled L)) \<and>
      so_preempted_req_ids out = set (l_preempted L) \<and> same_lists (l_sched L) s' \<and> reqs s' = reqs (l_sched L)"
    using b c n m
    by (auto simp: build_output_def Let_def new_def res_def same_lists_def split: if_splits option.splits prod.splits)
  have "\<And>q r. reqs (l_sched ?L) q = Some r \<Longrightarrow> request_id r = q" using sched_inv_id [OF assms] by simp
  note nd = okED [OF make_new_effect [OF this] n] and cd = okED [OF make_cached_effect m]
  have "mset new + mset (l_running L @ res) = mset (scheduled L)"
    by (auto simp: new_def res_def scheduled_def)
  then show "tells L out \<and> same_lists (l_sched L) s' \<and> reqs s' = reqs (l_sched L)"
    using out nd cd unfolding tells_def by auto
qed

section \<open>Advancing the counters\<close>

definition flags_only :: "scheduler_output \<Rightarrow> scheduler_output \<Rightarrow> bool" where
  "flags_only out out' \<longleftrightarrow>
     out'\<lparr>so_has_structured_output_requests := False, so_pending_structured_output_tokens := False\<rparr> =
     out\<lparr>so_has_structured_output_requests := False, so_pending_structured_output_tokens := False\<rparr>"

lemma flags_only_refl [simp]: "flags_only out out"
  by (simp add: flags_only_def)

lemma flags_only_trans: "flags_only a b \<Longrightarrow> flags_only b c \<Longrightarrow> flags_only a c"
  by (simp add: flags_only_def)

lemma flags_only_upd [simp]:
  "flags_only out (out'\<lparr>so_has_structured_output_requests := a\<rparr>) = flags_only out out'"
  "flags_only out (out'\<lparr>so_pending_structured_output_tokens := b\<rparr>) = flags_only out out'"
  by (simp_all add: flags_only_def)

lemma flags_only_eq:
  "flags_only out out' \<Longrightarrow> tells L out' = tells L out \<and> so_num_scheduled_tokens out' = so_num_scheduled_tokens out \<and>
     so_scheduled_new_reqs out' = so_scheduled_new_reqs out \<and>
     so_scheduled_cached_reqs out' = so_scheduled_cached_reqs out \<and>
     so_preempted_req_ids out' = so_preempted_req_ids out \<and>
     so_total_num_scheduled_tokens out' = so_total_num_scheduled_tokens out"
  by (cases out; cases out') (simp add: flags_only_def tells_def)

definition ids_ok :: "'c scheduler \<Rightarrow> bool" where
  "ids_ok s \<longleftrightarrow> (\<forall>q r. reqs s q = Some r \<longrightarrow> request_id r = q)"

lemma all_kept_ids: "all_kept s t \<Longrightarrow> ids_ok s \<Longrightarrow> ids_ok t"
  unfolding ids_ok_def all_kept_def rel_fun_def
  by (metis option.rel_distinct(1) option.rel_inject(2) option.exhaust same_kind_def)

text \<open>\<^verbatim>\<open>advanced d s t\<close>: the tokens of \<^verbatim>\<open>d\<close> count as computed in \<^verbatim>\<open>t\<close>.\<close>

definition advanced :: "(req_id \<times> int) list \<Rightarrow> 'c scheduler \<Rightarrow> 'c scheduler \<Rightarrow> bool" where
  "advanced d s t \<longleftrightarrow>
     (\<forall>q. computed_of t q = computed_of s q + (case map_of d q of None \<Rightarrow> 0 | Some n \<Rightarrow> n)) \<and>
     (\<forall>q \<in> fst ` set d. reqs s q \<noteq> None)"

lemma advance_effect:
  assumes "ids_ok s"
  shows "okE (\<lambda>(s', out'). all_kept s s' \<and> flags_only out out' \<and> advanced [(q, n)] s s')
           (advance_request cfg env (q, n) (s, out))"
proof -
  have put: "all_kept s (put (r\<lparr>num_computed_tokens := a, is_prefill_chunk := b\<rparr>) s) \<and>
      computed_of (put (r\<lparr>num_computed_tokens := a, is_prefill_chunk := b\<rparr>) s) = (computed_of s)(q := a)"
    if "reqs s q = Some r" for r a b
  proof -
    have "request_id r = q" using assms that by (simp add: ids_ok_def)
    then show ?thesis
      using that all_kept_put [of s "r\<lparr>num_computed_tokens := a, is_prefill_chunk := b\<rparr>" r]
      by (auto simp: computed_of_def put_def fun_eq_iff same_kind_def is_finished_def)
  qed
  have enc: "okE (\<lambda>s'. all_kept t s' \<and> computed_of s' = computed_of t) (free_encoder_inputs cfg env r t)" for r t
    by (auto simp: free_encoder_inputs_def res_wp intro!: okEI)
  have c: "computed_of s q = num_computed_tokens r" if "reqs s q = Some r" for r
    using that by (simp add: computed_of_def)
  show ?thesis
    unfolding advance_request_def lookup_def advanced_def
    by (auto simp: Let_def res_wp put c intro!: okEI dest!: okED [OF enc]
        intro: all_kept_trans [OF conjunct1 [OF put]] split: option.splits)
qed


lemma advanced_append:
  assumes a: "advanced [e] s t" and b: "advanced d t u" and k: "all_kept s t" and e: "fst e \<notin> fst ` set d"
  shows "advanced (e # d) s u"
proof -
  obtain q n where en: "e = (q, n)" by (cases e)
  have c: "computed_of u x = computed_of s x + (case map_of (e # d) x of None \<Rightarrow> 0 | Some n \<Rightarrow> n)" for x
  proof (cases "x = q")
    case True
    then have "map_of d x = None" using e by (simp add: en map_of_eq_None_iff)
    then show ?thesis using a b True by (simp add: advanced_def en)
  next
    case False
    then show ?thesis using a b by (simp add: advanced_def en)
  qed
  have "reqs s x \<noteq> None" if "reqs t x \<noteq> None" for x
    using k that unfolding all_kept_def rel_fun_def by (metis option.rel_distinct(1) option.exhaust)
  then show ?thesis using a b c by (simp add: advanced_def en)
qed

lemma advance_fold:
  assumes "ids_ok s" "distinct (map fst d)"
  shows "okE (\<lambda>(s', out'). all_kept s s' \<and> flags_only out out' \<and> advanced d s s')
           (foldE (advance_request cfg env) d (s, out))"
  using assms
proof (induction d arbitrary: s out)
  case (Cons e d)
  obtain q n where e: "e = (q, n)" by (cases e)
  show ?case unfolding e foldE.simps okE_simps
  proof (rule okE_conseq [OF advance_effect [OF Cons.prems(1)]], clarify)
    fix t out1
    assume t: "all_kept s t" "flags_only out out1" "advanced [(q, n)] s t"
    have ids: "ids_ok t" by (rule all_kept_ids [OF t(1) Cons.prems(1)])
    have dist: "distinct (map fst d)" and q: "fst (q, n) \<notin> fst ` set d" using Cons.prems(2) by (auto simp: e)
    show "okE (\<lambda>(s', out'). all_kept s s' \<and> flags_only out out' \<and> advanced ((q, n) # d) s s')
            (foldE (advance_request cfg env) d (t, out1))"
    proof (rule okE_conseq [OF Cons.IH [OF ids dist]], clarify)
      fix u out2
      assume u: "all_kept t u" "flags_only out1 out2" "advanced d t u"
      show "all_kept s u \<and> flags_only out out2 \<and> advanced ((q, n) # d) s u"
        using all_kept_trans [OF t(1) u(1)] flags_only_trans [OF t(2) u(2)] advanced_append [OF t(3) u(3) t(1) q]
        by simp
    qed
  qed
qed (simp add: advanced_def)

lemma placeholders_effect:
  assumes "ids_ok s"
  shows "okE (\<lambda>(s', out'). all_kept s s' \<and> flags_only out out' \<and> computed_of s' = computed_of s)
           (add_placeholders cfg e (s, out))"
proof -
  obtain q n where e: "e = (q, n)" by (cases e)
  have put: "all_kept s (put (r\<lparr>num_output_placeholders := a, spec_token_ids := b\<rparr>) s) \<and>
      computed_of (put (r\<lparr>num_output_placeholders := a, spec_token_ids := b\<rparr>) s) = computed_of s"
    if "reqs s q = Some r" for r a b
  proof -
    have "request_id r = q" using assms that by (simp add: ids_ok_def)
    then show ?thesis
      using that all_kept_put [of s "r\<lparr>num_output_placeholders := a, spec_token_ids := b\<rparr>" r]
      by (auto simp: computed_of_def put_def fun_eq_iff same_kind_def is_finished_def)
  qed
  show ?thesis
    unfolding add_placeholders_def lookup_def e
    by (auto simp: Let_def res_wp put intro!: okEI split: option.splits)
qed

lemma placeholders_fold:
  assumes "ids_ok s"
  shows "okE (\<lambda>(s', out'). all_kept s s' \<and> flags_only out out' \<and> computed_of s' = computed_of s)
           (foldE (add_placeholders cfg) d (s, out))"
proof (rule okE_foldE [where P = "\<lambda>(s', out'). all_kept s s' \<and> flags_only out out' \<and> computed_of s' = computed_of s"],
    simp, clarify)
  fix a b t out1
  assume t: "all_kept s t" "flags_only out out1" "computed_of t = computed_of s"
  show "okE (\<lambda>(s', out'). all_kept s s' \<and> flags_only out out' \<and> computed_of s' = computed_of s)
      (add_placeholders cfg (a, b) (t, out1))"
    by (rule okE_conseq [OF placeholders_effect [OF all_kept_ids [OF t(1) assms]]])
      (use t in \<open>auto intro: all_kept_trans flags_only_trans\<close>)
qed

lemma update_after_effect:
  assumes "ids_ok s" "distinct (map fst (so_num_scheduled_tokens out))"
  shows "okE (\<lambda>(out', s'). all_kept s s' \<and> flags_only out out' \<and> advanced (so_num_scheduled_tokens out) s s')
           (update_after_schedule cfg env out s)"
proof (rule okEI, clarify)
  fix out' s'
  assume u: "update_after_schedule cfg env out s = Inr (out', s')"
  obtain s1 out1 where a: "foldE (advance_request cfg env) (so_num_scheduled_tokens out) (s, out) = Inr (s1, out1)"
    using u by (auto simp: update_after_schedule_def)
  note A = okED [OF advance_fold [OF assms] a]
  let ?s = "s1\<lparr>finished_req_ids := {}\<rparr>"
  have ids: "ids_ok ?s" using A all_kept_ids [OF _ assms(1)] by (auto simp: ids_ok_def)
  have b: "all_kept ?s s' \<and> flags_only out1 out' \<and> computed_of s' = computed_of ?s"
    using u a okED [OF placeholders_fold [OF ids]]
    by (auto simp: update_after_schedule_def Let_def split: if_splits)
  have c: "computed_of ?s = computed_of s1" by (simp add: computed_of_def fun_eq_iff)
  have "all_kept s s'" using A b all_kept_trans [of s ?s s'] by auto
  then show "all_kept s s' \<and> flags_only out out' \<and> advanced (so_num_scheduled_tokens out) s s'"
    using A b c by (auto simp: advanced_def intro: flags_only_trans)
qed

section \<open>The step\<close>

lemma schedule_parts:
  assumes "schedule cfg env s = Inr (out', s')"
  obtains L1 loras L2 out t where
    "running_loop cfg env (init_step cfg s) = Inr L1"
    "schedule_waiting cfg env (L1\<lparr>l_loras := loras\<rparr>) = Inr L2"
    "build_output cfg env L2 = Inr (out, t)" "update_after_schedule cfg env out t = Inr (out', s')"
  using assms that by (auto simp: schedule_def)

lemma schedule_effect:
  assumes ready: "step_ready cfg ok s" and s: "schedule cfg env s = Inr (out, s')"
  shows "sched_inv s' \<and> int (length (running s')) \<le> sc_max_num_running_reqs cfg \<and>
    (\<exists>L. ledger ok (step_budget cfg s) L \<and> set (scheduled L) \<subseteq> set (running s') \<and> tells L out \<and>
         set (l_preempted L) \<inter> set (running s') = {} \<and> advanced (l_num_scheduled L) (l_sched L) s')"
proof -
  obtain L1 loras L2 out1 t where p: "running_loop cfg env (init_step cfg s) = Inr L1"
    "schedule_waiting cfg env (L1\<lparr>l_loras := loras\<rparr>) = Inr L2"
    "build_output cfg env L2 = Inr (out1, t)" "update_after_schedule cfg env out1 t = Inr (out, s')"
    using schedule_parts [OF s] by blast
  note loops = both_loops [OF ready p(1,2)]
  have b: "tells L2 out1" "same_lists (l_sched L2) t" "reqs t = reqs (l_sched L2)"
    using okED [OF build_output_effect [OF loops(3)] p(3)] by auto
  have k1: "all_kept (l_sched L2) t" by (rule all_kept_eq [OF b(2,3)])
  have inv: "sched_inv t" and run: "running t = running (l_sched L2)" using all_kept_inv [OF k1 loops(3)] by auto
  have ids: "ids_ok t" using sched_inv_id [OF inv] by (simp add: ids_ok_def)
  have nst: "so_num_scheduled_tokens out1 = l_num_scheduled L2" using b(1) by (simp add: tells_def)
  have dist: "distinct (map fst (so_num_scheduled_tokens out1))" using loops(1) nst by (simp add: ledger_def)
  have u: "all_kept t s'" "flags_only out1 out" "advanced (l_num_scheduled L2) t s'"
    using okED [OF update_after_effect [OF ids dist] p(4)] nst by auto
  have fin: "sched_inv s'" "running s' = running (l_sched L2)" using all_kept_inv [OF u(1) inv] run by auto
  have adv: "advanced (l_num_scheduled L2) (l_sched L2) s'"
    using u(3) b(3) by (simp add: advanced_def computed_of_def)
  have t: "tells L2 out" using b(1) flags_only_eq [OF u(2)] by blast
  show ?thesis using fin loops t adv both_loops_preempted [OF ready p(1,2)] by auto
qed

end
