(* ===== verification/Sched_Ops.thy ===== *)
theory Sched_Ops
  imports Sched_Step
begin

text \<open>
  The other operations that move requests: adding, finishing, and the forced preemption of a reset.
  Each keeps every request in its place. While several requests are being finished, those that have
  left the queues but are not yet marked form the set \<^verbatim>\<open>V\<close>.
\<close>

section \<open>Places with requests in transit\<close>

definition places_but :: "req_id set \<Rightarrow> (req_id \<rightharpoonup> request) \<Rightarrow> req_id list \<Rightarrow> req_id multiset \<Rightarrow> bool" where
  "places_but V m run Q \<longleftrightarrow>
     (\<forall>q r. m q = Some r \<longrightarrow> request_id r = q) \<and>
     (\<forall>q. if q \<in> V then count (mset run) q = 0 \<and> count Q q = 0
          else placed (m q) (count (mset run) q) (count Q q))"

definition sched_inv_but :: "req_id set \<Rightarrow> 'c scheduler \<Rightarrow> bool" where
  "sched_inv_but V s \<longleftrightarrow>
     places_but V (reqs s) (running s) (q_contents (waiting s) + q_contents (skipped_waiting s))"

lemma sched_inv_but_empty [simp]: "sched_inv_but {} s = sched_inv s"
  by (simp add: sched_inv_but_def sched_inv_def places_but_def places_def)

lemma sched_inv_but_upd [simp]:
  "sched_inv_but V (s\<lparr>kv := k\<rparr>) = sched_inv_but V s" "sched_inv_but V (s\<lparr>enc := e\<rparr>) = sched_inv_but V s"
  "sched_inv_but V (s\<lparr>envst := c\<rparr>) = sched_inv_but V s"
  "sched_inv_but V (s\<lparr>finished_req_ids := f\<rparr>) = sched_inv_but V s"
  "sched_inv_but V (s\<lparr>finished_req_ids_dict := fd\<rparr>) = sched_inv_but V s"
  "sched_inv_but V (s\<lparr>finished_recving_kv_req_ids := fr\<rparr>) = sched_inv_but V s"
  "sched_inv_but V (s\<lparr>failed_recving_kv_req_ids := fa\<rparr>) = sched_inv_but V s"
  "sched_inv_but V (s\<lparr>num_waiting_for_streaming_input := n\<rparr>) = sched_inv_but V s"
  "sched_inv_but V (s\<lparr>prev_step_scheduled_req_ids := p\<rparr>) = sched_inv_but V s"
  "sched_inv_but V (s\<lparr>pause := pp\<rparr>) = sched_inv_but V s"
  by (simp_all add: sched_inv_but_def)

lemmas sched_inv_upd [simp] = sched_inv_but_upd [where V = "{}", unfolded sched_inv_but_empty]

text \<open>A finished request may be in the dictionary or not.\<close>

lemma settle_places:
  assumes "places_but (insert q V) m run Q" "q \<notin> V"
    "x = None \<or> (\<exists>r. x = Some r \<and> is_finished r \<and> request_id r = q)"
  shows "places_but V (m(q := x)) run Q"
  unfolding places_but_def
proof (intro conjI allI impI)
  note a = assms(1) [unfolded places_but_def]
  show "request_id r = y" if "(m(q := x)) y = Some r" for y r
    using a assms(3) that by (auto split: if_splits)
  have x: "placed x 0 0" using assms(3) by (auto simp: placed_def)
  have q: "count (mset run) q = 0 \<and> count Q q = 0" using a by (metis insertI1)
  show "if y \<in> V then count (mset run) y = 0 \<and> count Q y = 0
      else placed ((m(q := x)) y) (count (mset run) y) (count Q y)" for y
  proof (cases "y = q")
    case True
    have "placed ((m(q := x)) q) (count (mset run) q) (count Q q)"
      using x by (simp only: fun_upd_same conjunct1 [OF q] conjunct2 [OF q])
    then show ?thesis using True assms(2) by simp
  next
    case False
    have "if y \<in> insert q V then count (mset run) y = 0 \<and> count Q y = 0 else placed (m y) (count (mset run) y) (count Q y)"
      using a by blast
    then show ?thesis using False by simp
  qed
qed

lemma drop_places:
  assumes "places_but V m run Q" "m q = Some r" "is_finished r" "q \<notin> V"
  shows "places_but V (m(q := None)) run Q"
proof -
  have "placed (m q) (count (mset run) q) (count Q q)"
    using assms(1,4) unfolding places_but_def by metis
  then have "placed None (count (mset run) q) (count Q q)"
    using assms(2,3) by (simp add: placed_def)
  then show ?thesis using assms(1) unfolding places_but_def by auto
qed

lemma drop_finished:
  assumes "sched_inv s" "reqs s q = Some r" "is_finished r" "same_lists s t" "reqs t = (reqs s)(q := None)"
  shows "sched_inv t"
  using drop_places [of "{}" "reqs s" "running s" _ q r] assms
  unfolding sched_inv_but_empty [symmetric] sched_inv_but_def by (simp add: same_lists_def)

section \<open>Freeing\<close>

text \<open>Freeing leaves the lists alone and drops the request from the dictionary or keeps it.\<close>

lemma free_request_effect:
  "okE (\<lambda>s'. same_lists s s' \<and> is_finished r \<and>
          (reqs s' = reqs s \<or> reqs s (request_id r) \<noteq> None \<and> reqs s' = (reqs s)(request_id r := None)))
     (free_request env r delay s)"
  by (auto simp: free_request_def connector_finished_def free_blocks_of_def note_finished_def res_wp Let_def
      same_lists_def intro!: okEI split: option.splits prod.splits if_splits)

lemma free_blocks_of_effect:
  "okE (\<lambda>s'. same_lists s s' \<and> is_finished r \<and> reqs s (request_id r) \<noteq> None \<and>
          reqs s' = (reqs s)(request_id r := None)) (free_blocks_of r s)"
  by (auto simp: free_blocks_of_def res_wp same_lists_def intro!: okEI split: if_splits)

lemma finish_one_effect:
  assumes "reqs s q = Some r" "request_id r = q"
  shows "okE (\<lambda>s'. same_lists s s' \<and>
           (\<exists>x. reqs s' = (reqs s)(q := x) \<and> (x = Some (r\<lparr>status := st\<rparr>) \<or> x = None))) (finish_one env st q s)"
proof -
  have free: "okE (\<lambda>s'. same_lists s s' \<and>
      (\<exists>x. reqs s' = (reqs s)(q := x) \<and> (x = Some (r\<lparr>status := st\<rparr>) \<or> x = None)))
      (free_request env (r\<lparr>status := st\<rparr>) delay (put (r\<lparr>status := st\<rparr>) t))"
    if "same_lists s t" "reqs t = reqs s" for delay t
    by (rule okE_conseq [OF free_request_effect]) (use that assms in \<open>auto simp: put_def same_lists_def\<close>)
  show ?thesis
    unfolding finish_one_def lookup_def by (auto simp: assms Let_def res_wp intro!: free)
qed

lemma finish_one_inv:
  assumes inv: "sched_inv_but (insert q V) s" and q: "q \<notin> V" and st: "is_finished_status st"
  shows "okE (sched_inv_but V) (finish_one env st q s)"
proof (cases "reqs s q")
  case None
  then show ?thesis by (simp add: finish_one_def lookup_def)
next
  case (Some r)
  have id: "request_id r = q" using inv Some by (simp add: sched_inv_but_def places_but_def)
  have fin: "is_finished (r\<lparr>status := st\<rparr>)" using st by (simp add: is_finished_def)
  show ?thesis
  proof (rule okE_conseq [OF finish_one_effect [OF Some id]], clarify)
    fix s' x
    assume l: "same_lists s s'" and x: "reqs s' = (reqs s)(q := x)" "x = Some (r\<lparr>status := st\<rparr>) \<or> x = None"
    have "x = None \<or> (\<exists>r. x = Some r \<and> is_finished r \<and> request_id r = q)" using x(2) fin id by auto
    from settle_places [OF inv [unfolded sched_inv_but_def] q this]
    show "sched_inv_but V s'" using l x(1) by (simp add: sched_inv_but_def same_lists_def)
  qed
qed

lemma finish_all_inv:
  assumes "sched_inv_but (set qs \<union> V) s" "distinct qs" "set qs \<inter> V = {}" "is_finished_status st"
  shows "okE (sched_inv_but V) (foldE (finish_one env st) qs s)"
  using assms
proof (induction qs arbitrary: s)
  case (Cons q qs)
  have "okE (sched_inv_but (set qs \<union> V)) (finish_one env st q s)"
    using Cons.prems by (intro finish_one_inv) auto
  then show ?case
    using Cons.prems by (auto intro!: okE_conseq [OF _ Cons.IH])
qed simp

section \<open>Finishing requests\<close>

text \<open>Taking a set of requests out of the lists.\<close>

lemma mset_remove_all_of:
  assumes "distinct lst"
  shows "mset (remove_all lst items) = filter_mset (\<lambda>x. x \<notin> set items) (mset lst)"
proof -
  have r1: "remove1 x lst = filter (\<lambda>y. y \<noteq> x) lst" for x 
    using distinct_remove1_removeAll [OF assms, of x] by (auto simp: removeAll_filter_not_eq intro: filter_cong)
  have "remove_all lst items = filter (\<lambda>x. x \<notin> set items) lst"
  proof (cases "remdups items")
    case Nil
    then show ?thesis by (simp add: remove_all_def)
  next
    case (Cons x xs)
    have eq: "set items = set (x # xs)" using Cons by (metis set_remdups)
    show ?thesis
    proof (cases xs)
      case Nil
      then show ?thesis using Cons eq by (simp add: remove_all_def r1)
    next
      case (Cons y ys)
      then show ?thesis using \<open>remdups items = x # xs\<close> by (simp add: remove_all_def)
    qed
  qed
  then show ?thesis by simp
qed

lemma valid_to_finish_iff:
  "q \<in> set (valid_to_finish ids s) \<longleftrightarrow> q \<in> set ids \<and> (\<exists>r. reqs s q = Some r \<and> \<not> is_finished r)"
  by (auto simp: valid_to_finish_def split: option.splits)

lemma has_status_iff: "has_status st s q \<longleftrightarrow> (\<exists>r. reqs s q = Some r \<and> status r = st)"
  by (auto simp: has_status_def split: option.splits)

lemma places_take_out:
  assumes p: "places m run Q" and R: "\<forall>q \<in> R. \<exists>r. m q = Some r \<and> status r = RUNNING"
    and W: "\<forall>q \<in> W. \<exists>r. m q = Some r \<and> status r \<noteq> RUNNING"
    and run: "mset run' = filter_mset (\<lambda>x. x \<notin> R) (mset run)" and Q: "Q' = filter_mset (\<lambda>x. x \<notin> W) Q"
  shows "places_but (R \<union> W) m run' Q'"
  unfolding places_but_def
proof (intro conjI allI impI)
  show "request_id r = q" if "m q = Some r" for q r by (rule places_id [OF p that])
  show "if q \<in> R \<union> W then count (mset run') q = 0 \<and> count Q' q = 0
      else placed (m q) (count (mset run') q) (count Q' q)" for q
  proof -
    have at: "placed (m q) (count (mset run) q) (count Q q)" by (rule places_at [OF p])
    consider (run) "q \<in> R" | (wait) "q \<in> W" "q \<notin> R" | (other) "q \<notin> R \<union> W" by blast
    then show ?thesis
    proof cases
      case run
      then obtain r where "m q = Some r" "status r = RUNNING" using R by blast
      then have "count Q q = 0" using at by (simp add: placed_def split: if_splits)
      then show ?thesis using run assms(4) Q by simp
    next
      case wait
      then obtain r where "m q = Some r" "status r \<noteq> RUNNING" using W by blast
      then have "count (mset run) q = 0" using at by (simp only: placed_def option.case if_False split: if_splits)
      then have "count (mset run') q = 0" unfolding assms(4) by simp
      then show ?thesis using wait Q by simp
    next
      case other
      then show ?thesis using at assms(4) Q by simp
    qed
  qed
qed

lemma finish_requests_inv:
  assumes inv: "sched_inv s"
  shows "okE (\<lambda>(xs, s'). sched_inv s' \<and> length (running s') \<le> length (running s)) (finish_requests env ids st s)"
proof -
  define valid where "valid = valid_to_finish (remdups ids) s"
  define run where "run = filter (has_status RUNNING s) valid"
  define wait where "wait = filter (\<lambda>q. \<not> has_status RUNNING s q) valid"
  define n where "n = int (length (filter (has_status WAITING_FOR_STREAMING_REQ s) wait))"
  define s2 where "s2 = (let s1 = s\<lparr>num_waiting_for_streaming_input := num_waiting_for_streaming_input s - n\<rparr> in
      if run = [] then s1 else s1\<lparr>running := remove_all (running s1) run\<rparr>)"
  define s3 where "s3 = (if wait = [] then s2
      else s2\<lparr>waiting := q_remove_requests (req_lt s2) wait (waiting s2),
              skipped_waiting := q_remove_requests (req_lt s2) wait (skipped_waiting s2)\<rparr>)"
  have eq: "finish_requests env ids st s =
      assertE (is_finished_status st) (bindE (foldE (finish_one env st) valid s3) (\<lambda>s4.
        Inr (map (\<lambda>q. (q, client_index (the (reqs s q)))) valid, s4)))"
    unfolding finish_requests_def s3_def s2_def Let_def valid_def [symmetric] run_def [symmetric]
      wait_def [symmetric] n_def [symmetric] by (rule refl)
  have dist: "distinct (running s)" using inv places_distinct by (simp add: sched_inv_def) 
  have s2: "reqs s2 = reqs s" "waiting s2 = waiting s" "skipped_waiting s2 = skipped_waiting s"
    "mset (running s2) = filter_mset (\<lambda>x. x \<notin> set run) (mset (running s))"
    by (auto simp: s2_def Let_def mset_remove_all_of [OF dist])
  have s3: "reqs s3 = reqs s" "mset (running s3) = filter_mset (\<lambda>x. x \<notin> set run) (mset (running s))"
    "q_contents (waiting s3) + q_contents (skipped_waiting s3) =
       filter_mset (\<lambda>x. x \<notin> set wait) (q_contents (waiting s) + q_contents (skipped_waiting s))"
    using s2 by (auto simp: s3_def bag.contents_remove_many)
  have "places_but (set run \<union> set wait) (reqs s) (running s3) (q_contents (waiting s3) + q_contents (skipped_waiting s3))"
    by (rule places_take_out [OF inv [unfolded sched_inv_def] _ _ s3(2,3)])
      (auto simp: run_def wait_def valid_def valid_to_finish_iff has_status_iff)
  moreover have "set run \<union> set wait = set valid" by (auto simp: run_def wait_def)
  ultimately have but: "sched_inv_but (set valid \<union> {}) s3" by (simp add: sched_inv_but_def s3(1))
  have dv: "distinct valid" by (simp add: valid_def valid_to_finish_def)
  have len: "okE (\<lambda>t. running t = running s3) (foldE (finish_one env st) valid s3)"
  proof (rule okE_foldE [where P = "\<lambda>t. running t = running s3"], simp)
    fix q and t :: "'a scheduler"
    assume "running t = running s3"
    then show "okE (\<lambda>t. running t = running s3) (finish_one env st q t)"
      by (auto simp: finish_one_def lookup_def res_wp Let_def put_def intro!: okEI split: option.splits
          dest!: okED [OF free_request_effect] simp: same_lists_def)
  qed
  have le: "length (running s3) \<le> length (running s)"
    using s3(2) size_filter_mset_lesseq [of "\<lambda>x. x \<notin> set run" "mset (running s)"] by (metis size_mset)
  show ?thesis unfolding eq
    using finish_all_inv [OF but dv, of st env] len le
    by (auto simp: okE_def)
qed

end
