(* ===== verification/Sched_Props.thy ===== *)
theory Sched_Props
  imports Sched_Step Lifecycle
begin

text \<open>
  The properties of a scheduling step, with a small scheduler to which they are applied: the cache of
  three usable blocks of the lifecycle theory and one waiting request of three tokens.
\<close>

section \<open>Properties\<close>

text \<open>C2 (schedule_correct): A step that starts in a state with every request in its place, and with running requests
  that can be given tokens, keeps every request in its place and at most the allowed number of requests
  running. Each scheduled request is running and gets a positive number of tokens, all together at most
  the budget of the step, which is zero while the scheduler is paused; the workers are told each
  scheduled request exactly once, with the number of tokens computed so far, and the scheduler then
  counts the scheduled tokens as computed. No request is both preempted and scheduled.\<close>

theorem schedule_correct:
  assumes "step_ready cfg True s" "schedule cfg env s = Inr (out, s')"
  shows "sched_inv s' \<and> int (length (running s')) \<le> sc_max_num_running_reqs cfg \<and>
    distinct (map fst (so_num_scheduled_tokens out)) \<and>
    (\<forall>(q, n) \<in> set (so_num_scheduled_tokens out). 0 < n \<and> q \<in> set (running s')) \<and>
    so_total_num_scheduled_tokens out = sum_list (map snd (so_num_scheduled_tokens out)) \<and>
    so_total_num_scheduled_tokens out \<le> (if pause s = PAUSED_ALL then 0 else sc_max_num_scheduled_tokens cfg) \<and>
    mset (map nr_req_id (so_scheduled_new_reqs out)) + mset (cr_req_ids (so_scheduled_cached_reqs out)) =
      mset (map fst (so_num_scheduled_tokens out)) \<and>
    (\<forall>(q, c) \<in> set (zip (map nr_req_id (so_scheduled_new_reqs out) @ cr_req_ids (so_scheduled_cached_reqs out))
                        (map nr_num_computed_tokens (so_scheduled_new_reqs out) @
                         cr_num_computed_tokens (so_scheduled_cached_reqs out))).
       \<exists>n. (q, n) \<in> set (so_num_scheduled_tokens out) \<and> num_computed_tokens (the (reqs s' q)) = c + n) \<and>
    so_preempted_req_ids out \<inter> set (map fst (so_num_scheduled_tokens out)) = {}"
proof -
  obtain L where L: "ledger True (step_budget cfg s) L" "set (scheduled L) \<subseteq> set (running s')" "tells L out"
    "set (l_preempted L) \<inter> set (running s') = {}" "advanced (l_num_scheduled L) (l_sched L) s'"
    and inv: "sched_inv s'" "int (length (running s')) \<le> sc_max_num_running_reqs cfg"
    using schedule_effect [OF assms] by blast
  let ?d = "so_num_scheduled_tokens out"
  have d: "?d = l_num_scheduled L" using L(3) by (simp add: tells_def)
  have dist: "distinct (map fst ?d)" and keys: "set (map fst ?d) = set (scheduled L)"
    using L(1) by (simp_all add: d ledger_def)
  have ms: "mset (map fst ?d) = mset (scheduled L)"
    using dist keys L(1) set_eq_iff_mset_eq_distinct [of "map fst ?d" "scheduled L"] by (simp add: ledger_def)
  have each: "\<forall>(q, n) \<in> set ?d. 0 < n \<and> q \<in> set (running s')"
    using L(1,2) keys by (force simp: ledger_def d)
  have told: "num_computed_tokens (the (reqs s' q)) = computed_of (l_sched L) q + n" if "(q, n) \<in> set ?d" for q n
    using L(5) map_of_is_SomeI [OF dist that] by (simp add: d advanced_def computed_of_def)
  let ?new = "so_scheduled_new_reqs out" and ?old = "so_scheduled_cached_reqs out"
  let ?qs = "map nr_req_id ?new @ cr_req_ids ?old"
  have cs: "map nr_num_computed_tokens ?new @ cr_num_computed_tokens ?old = map (computed_of (l_sched L)) ?qs"
    using L(3) by (simp add: tells_def)
  have qs: "mset ?qs = mset (scheduled L)" using L(3) by (simp add: tells_def)
  have "\<exists>n. (q, n) \<in> set ?d \<and> num_computed_tokens (the (reqs s' q)) = c + n"
    if "(q, c) \<in> set (zip ?qs (map (computed_of (l_sched L)) ?qs))" for q c
  proof -
    have q: "q \<in> set ?qs" "c = computed_of (l_sched L) q" using that by (auto simp: set_zip)
    then have "q \<in> set (map fst ?d)" unfolding keys mset_eq_setD [OF qs, symmetric] by blast
    then obtain n where "(q, n) \<in> set ?d" by auto
    then show ?thesis using told q(2) by auto
  qed
  then show ?thesis
    using inv dist each L ms qs keys unfolding cs
    by (auto simp: tells_def ledger_def step_budget_def d [symmetric])
qed

text \<open>C18 (step_assertions_hold): Under the same conditions the four assertions at the end of the step, on the token budget, the
  number of running requests and the number of scheduled ones, never fail: leaving them out does not
  change the result of any step.\<close>

theorem step_assertions_hold:
  assumes "step_ready cfg True s"
  shows "schedule cfg env s =
     bindE (running_loop cfg env (init_step cfg s)) (\<lambda>L1.
     bindE (scheduled_loras cfg L1) (\<lambda>loras.
     bindE (schedule_waiting cfg env (L1\<lparr>l_loras := loras\<rparr>)) (\<lambda>L2.
     bindE (build_output cfg env L2) (\<lambda>(out, s'). update_after_schedule cfg env out s'))))"
proof (cases "running_loop cfg env (init_step cfg s)")
  case (Inr L1)
  have "step_checks cfg L2" if "schedule_waiting cfg env (L1\<lparr>l_loras := loras\<rparr>) = Inr L2" for loras L2
  proof (rule step_books)
    note l = both_loops [OF assms Inr that]
    show "ledger True (step_budget cfg s) L2" "set (scheduled L2) \<subseteq> set (running (l_sched L2))"
      "int (length (running (l_sched L2))) \<le> sc_max_num_running_reqs cfg" by (fact l)+
    show "step_budget cfg s \<le> sc_max_num_scheduled_tokens cfg"
      using assms by (simp add: step_ready_def step_budget_def)
  qed
  then show ?thesis unfolding schedule_def Inr by (auto intro!: bindE_cong split: sum.splits)
qed (simp add: schedule_def)

section \<open>A small scheduler\<close>

definition sample_sched_config :: sched_config where
  "sample_sched_config =
     \<lparr>sc_policy = FCFS, sc_max_num_running_reqs = 2, sc_max_num_scheduled_tokens = 8, sc_max_model_len = 16,
      sc_long_prefill_token_threshold = 0, sc_enable_chunked_prefill = True, sc_disable_chunked_mm_input = False,
      sc_async_scheduling = False, sc_use_pp = False, sc_use_v2_model_runner = False, sc_reserve_full_isl = False,
      sc_use_eagle = False, sc_num_spec_tokens = 0, sc_num_lookahead_tokens = 0,
      sc_need_mamba_block_aligned_split = False, sc_cache_block_size = 2, sc_block_size = 2,
      sc_is_encoder_decoder = False, sc_max_num_encoder_input_tokens = 0, sc_max_loras = None,
      sc_needs_kv_cache_zeroing = False, sc_recompute_kv_load_failures = True, sc_block_hasher = None\<rparr>"

definition sample_env :: "unit sched_env" where
  "sample_env =
     \<lparr>en_connector = None, en_ec_has_cache_item = None, en_ec_update_state_after_alloc = (\<lambda>c _ _. c),
      en_grammar_ready = (\<lambda>_ _. False), en_should_advance = (\<lambda>_ _. False), en_validate_tokens = (\<lambda>_ _ ts. ts),
      en_order = (\<lambda>_. []), en_req_order = (\<lambda>_. [])\<rparr>"

definition sample_sched :: "kv_manager \<Rightarrow> unit scheduler" where
  "sample_sched k = init_scheduler sample_sched_config k 0 False ()"

definition sample_step :: "(scheduler_output \<times> unit scheduler) res" where
  "sample_step =
     bindE sample_init (\<lambda>k.
     bindE (sched_add_request sample_sched_config sample_env sample_request (sample_sched k))
       (schedule sample_sched_config sample_env))"


lemma sample_step_result:
  "(case sample_step of Inr (out, s) \<Rightarrow> Inr (so_num_scheduled_tokens out, running s) | Inl e \<Rightarrow> Inl e) =
     Inr ([(''a'', 3)], [''a''])"
  by code_simp


lemma sample_step_parts:
  obtains k s out s' where "sample_init = Inr k"
    "sched_add_request sample_sched_config sample_env sample_request (sample_sched k) = Inr s"
    "schedule sample_sched_config sample_env s = Inr (out, s')"
    "so_num_scheduled_tokens out = [(''a'', 3)]" "running s' = [''a'']"
  using sample_step_result that
  by (auto simp: sample_step_def bindE_def split: sum.splits prod.splits)

lemma sample_ready:
  assumes "sched_add_request sample_sched_config sample_env sample_request (sample_sched k) = Inr s"
  shows "step_ready sample_sched_config True s"
proof -
  have s: "reqs s = [''a'' \<mapsto> sample_request]" "running s = []" "q_contents (waiting s) = {#''a''#}"
    "q_contents (skipped_waiting s) = {#}"
    using assms by (auto simp: sched_add_request_def sample_sched_def init_scheduler_def sample_sched_config_def
        sample_request_def plain_request_def enqueue_waiting_request_def is_blocked_waiting_status_def put_def
        fcfs_add_request_def)
  have "places (reqs s) (running s) (q_contents (waiting s) + q_contents (skipped_waiting s))"
    unfolding s places_def
    by (auto simp: placed_def sample_request_def plain_request_def is_finished_def)
  then show ?thesis by (simp add: step_ready_def sched_inv_def s(2) sample_sched_config_def)
qed

theorem schedule_correct_witness:
  "\<exists>k s out s'. sample_init = Inr k \<and>
     sched_add_request sample_sched_config sample_env sample_request (sample_sched k) = Inr s \<and>
     schedule sample_sched_config sample_env s = Inr (out, s') \<and> so_num_scheduled_tokens out = [(''a'', 3)] \<and>
     so_total_num_scheduled_tokens out = 3 \<and> sched_inv s'"
proof -
  obtain k s out s' where p: "sample_init = Inr k"
    "sched_add_request sample_sched_config sample_env sample_request (sample_sched k) = Inr s"
    "schedule sample_sched_config sample_env s = Inr (out, s')"
    "so_num_scheduled_tokens out = [(''a'', 3)]" "running s' = [''a'']" by (rule sample_step_parts)
  show ?thesis using schedule_correct [OF sample_ready [OF p(2)] p(3)] p by auto
qed

theorem step_assertions_hold_witness:
  "\<exists>k s L1 loras L2 x. sample_init = Inr k \<and>
     sched_add_request sample_sched_config sample_env sample_request (sample_sched k) = Inr s \<and>
     running_loop sample_sched_config sample_env (init_step sample_sched_config s) = Inr L1 \<and>
     schedule_waiting sample_sched_config sample_env (L1\<lparr>l_loras := loras\<rparr>) = Inr L2 \<and>
     build_output sample_sched_config sample_env L2 = Inr x"
proof -
  obtain k s out s' where p: "sample_init = Inr k"
    "sched_add_request sample_sched_config sample_env sample_request (sample_sched k) = Inr s"
    "schedule sample_sched_config sample_env s = Inr (out, s')" by (rule sample_step_parts)
  show ?thesis using p(3) [unfolded step_assertions_hold [OF sample_ready [OF p(2)]]] p(1,2) by auto blast
qed

end
