(* ===== verification/Sched_Reach.thy ===== *)
theory Sched_Reach
  imports Sched_Ops Sched_Props
begin

text \<open>
  Processing the output of a step and the reachable states of a scheduler: every request it knows has
  its one place, whatever the order of additions, steps, outputs, aborts, pauses and resets.

  An output may stop a request that was preempted after the step was issued; \<^verbatim>\<open>update_from_output\<close> then
  removes it from the main waiting queue and from no other. The steps are therefore given with a switch:
  when it is on, only \<^verbatim>\<open>calm\<close> outputs are processed, those whose preempted requests are in the main waiting
  queue and not resumable, and every request keeps its one place; when it is off, any output is, and
  \<^verbatim>\<open>stopped_request_stays_queued\<close> is a run after which a queue holds a request that has ended.
\<close>

section \<open>The block hasher\<close>

definition hasher_ok :: "sched_config \<Rightarrow> bool" where
  "hasher_ok cfg \<longleftrightarrow>
     (\<forall>h r hs r'. sc_block_hasher cfg = Some h \<longrightarrow> h r = Inr (hs, r') \<longrightarrow> same_content r r')"

lemma hash_loop_content: "okE (\<lambda>(hs, r'). same_content r r') (hash_loop H n digest bs nt r start mm prev)"
proof (induction H n digest bs nt r start mm prev rule: hash_loop.induct)
  case (1 H n digest bs nt r start mm prev)
  show ?case
  proof (cases "bs \<le> 0 \<or> start + bs > nt")
    case True
    then have "hash_loop H n digest bs nt r start mm prev = Inr ([], r)" by (subst hash_loop.simps) (simp only: if_True)
    then show ?thesis by (simp add: same_content_refl)
  next
    case False
    show ?thesis
    proof (rule okEI, clarify)
      fix hs r''
      assume h: "hash_loop H n digest bs nt r start mm prev = Inr (hs, r'')"
      obtain keys mm' r' where g: "generate_block_hash_extra_keys digest r start (start + bs) mm = Inr (keys, mm', r')"
        using h False by (subst (asm) hash_loop.simps) (auto split: sum.splits)
      let ?h = "hash_block_tokens H n prev (py_slice (all_token_ids r) start (start + bs)) keys"
      obtain hs' where "hash_loop H n digest bs nt r' (start + bs) mm' (Some ?h) = Inr (hs', r'')"
        using h False g by (subst (asm) hash_loop.simps) (auto simp: Let_def split: sum.splits)
      from okED [OF 1 [OF False g refl refl refl] this] okED [OF generate_keys_content g]
      show "same_content r r''" by (auto intro: same_content_trans)
    qed
  qed
qed

lemma block_hasher_ok:
  "sc_block_hasher cfg = None \<or> sc_block_hasher cfg = Some (request_block_hasher bs H n digest) \<Longrightarrow> hasher_ok cfg"
  using okED [OF hash_loop_content]
  by (fastforce simp: hasher_ok_def request_block_hasher_def Let_def same_content_refl split: if_splits)

section \<open>Objects along the way\<close>

text \<open>What matters of a request for its place.\<close>

definition same_state :: "request \<Rightarrow> request \<Rightarrow> bool" where
  "same_state r r' \<longleftrightarrow>
     request_id r' = request_id r \<and> status r' = status r \<and> resumable r' = resumable r \<and>
     streaming_queue r' = streaming_queue r"

lemma same_state_refl [simp]: "same_state r r"
  by (simp add: same_state_def)

lemma same_state_trans: "same_state a b \<Longrightarrow> same_state b c \<Longrightarrow> same_state a c"
  by (simp add: same_state_def)

lemma same_state_kind: "same_state r r' \<Longrightarrow> same_kind r r'"
  by (simp add: same_state_def same_kind_def is_finished_def)

lemma same_content_state: "same_content r r' \<Longrightarrow> same_state r r'"
  by (auto simp: same_content_def same_state_def)

lemma same_state_upd [simp]:
  "same_state r (r'\<lparr>num_computed_tokens := n\<rparr>) = same_state r r'"
  "same_state r (r'\<lparr>num_output_placeholders := n\<rparr>) = same_state r r'"
  "same_state r (r'\<lparr>num_external_computed_tokens := n\<rparr>) = same_state r r'"
  "same_state r (r'\<lparr>discard_latest_async_tokens := b\<rparr>) = same_state r r'"
  "same_state r (r'\<lparr>spec_token_ids := ts\<rparr>) = same_state r r'"
  "same_state r (r'\<lparr>block_hashes := hs\<rparr>) = same_state r r'"
  "same_state r (r'\<lparr>num_nans_in_logits := n\<rparr>) = same_state r r'"
  by (simp_all add: same_state_def)

lemma update_hashes_state:
  "hasher_ok cfg \<Longrightarrow> okE (same_state r) (update_block_hashes (sc_block_hasher cfg) r)"
  by (auto simp: update_block_hashes_def hasher_ok_def intro!: okEI split: option.splits)
    (blast intro: same_content_state)

lemma append_output_state:
  assumes "hasher_ok cfg"
  shows "okE (same_state r) (append_output_token_ids (sc_block_hasher cfg) toks r)"
  unfolding append_output_token_ids_def
  by (rule okE_conseq [OF update_hashes_state [OF assms]]) (simp add: same_state_def)

text \<open>The stop check: the request goes on unchanged or is finished.\<close>

definition goes_on :: "request \<Rightarrow> bool \<Rightarrow> request \<Rightarrow> bool" where
  "goes_on r stopped r' \<longleftrightarrow>
     request_id r' = request_id r \<and> resumable r' = resumable r \<and> streaming_queue r' = streaming_queue r \<and>
     (if stopped then is_finished r' else status r' = status r)"

lemma check_stop_goes_on: "okE (\<lambda>(stopped, r'). goes_on r stopped r') (check_stop r n)"
  by (auto simp: check_stop_def goes_on_def is_finished_def intro!: okEI split: option.splits if_splits)

lemma goes_on_state: "same_state r r1 \<Longrightarrow> goes_on r1 b r2 \<Longrightarrow> goes_on r b r2"
  by (auto simp: same_state_def goes_on_def)

lemma append_until_stop_goes_on:
  assumes "hasher_ok cfg"
  shows "okE (\<lambda>(used, stopped, r'). goes_on r stopped r') (append_until_stop cfg r used ts)"
proof (induction ts arbitrary: r used)
  case Nil
  show ?case by (simp add: goes_on_def)
next
  case (Cons t ts)
  show ?case
  proof (rule okEI, clarify)
    fix used' stopped r'
    assume a: "append_until_stop cfg r used (t # ts) = Inr (used', stopped, r')"
    then obtain r1 b r2 where p: "append_output_token_ids (sc_block_hasher cfg) [t] r = Inr r1"
      "check_stop r1 (sc_max_model_len cfg) = Inr (b, r2)"
      "(if b then Inr (used @ [t], True, r2) else append_until_stop cfg r2 (used @ [t]) ts) = Inr (used', stopped, r')"
      by auto
    have 1: "goes_on r b r2"
      using okED [OF append_output_state [OF assms] p(1)] okED [OF check_stop_goes_on p(2)]
      by (auto intro: goes_on_state)
    show "goes_on r stopped r'"
    proof (cases b)
      case True
      then show ?thesis using p(3) 1 by simp
    next
      case False
      then have "goes_on r2 stopped r'" using p(3) okED [OF Cons.IH] by auto
      then show ?thesis using 1 False by (auto simp: goes_on_def)
    qed
  qed
qed

lemma goes_on_upd [simp]:
  "goes_on r b (r'\<lparr>num_output_placeholders := n\<rparr>) = goes_on r b r'"
  by (simp add: goes_on_def is_finished_def)

lemma goes_on_content: "goes_on r b r1 \<Longrightarrow> same_content r1 r2 \<Longrightarrow> goes_on r b r2"
  using same_content_state [of r1 r2] by (auto simp: goes_on_def same_state_def is_finished_def)

lemma update_with_output_effect:
  assumes "hasher_ok cfg"
  shows "okE (\<lambda>(used, stopped, r', s'). goes_on r stopped r' \<and> (\<exists>k. s' = put r' (s\<lparr>kv := k\<rparr>)))
           (update_request_with_output cfg r toks s)"
proof -
  have s: "\<exists>k. put r' s = put r' (s\<lparr>kv := k\<rparr>)" for r' by (rule exI [of _ "kv s"]) simp
  have base: "okE (\<lambda>(used, stopped, r'). goes_on r stopped r') (base_update_request_with_output cfg r toks)"
    unfolding base_update_request_with_output_def by (rule append_until_stop_goes_on [OF assms])
  have "okE (\<lambda>(used, stopped, r', k). goes_on r stopped r') (async_update_request_with_output cfg r toks k)" for k
    unfolding async_update_request_with_output_def
    by (auto simp: res_wp Let_def goes_on_def [of r False] intro!: okEI dest!: okED [OF base] okED [OF kv_cache_content]
        dest: goes_on_content [OF goes_on_upd [THEN iffD2]])
  then show ?thesis
    unfolding update_request_with_output_def
    using s base by (auto simp: res_wp intro!: okEI dest!: okED)
qed

section \<open>Stopping\<close>

text \<open>A streaming session takes over the next input and waits.\<close>

lemma session_effect:
  assumes "hasher_ok cfg"
  shows "okE (\<lambda>(r', s'). request_id r' = request_id r \<and> status r' = WAITING \<and> same_lists s s' \<and>
           reqs s' = (reqs s)(request_id r \<mapsto> r')) (update_request_as_session cfg r u s)"
  unfolding update_request_as_session_def
  by (auto simp: res_wp Let_def same_state_def put_def same_lists_def intro!: okEI
      dest!: okED [OF update_hashes_state [OF assms]] split: option.splits)

text \<open>Where a request is after it was stopped: gone or finished and in no queue anew, or waiting for the
  next input of its session.\<close>

definition w_of :: "'c scheduler \<Rightarrow> req_id multiset" where
  "w_of s = q_contents (waiting s)"

definition k_of :: "'c scheduler \<Rightarrow> req_id multiset" where
  "k_of s = q_contents (skipped_waiting s)"

definition settled :: "req_id \<Rightarrow> bool \<Rightarrow> request option \<Rightarrow> 'c scheduler \<Rightarrow> 'c scheduler \<Rightarrow> bool" where
  "settled q session x s s' \<longleftrightarrow>
     (w_of s' = w_of s \<and> k_of s' = k_of s \<and> (\<forall>r. x = Some r \<longrightarrow> is_finished r \<and> request_id r = q)) \<or>
     (session \<and> w_of s' = add_mset q (w_of s) \<and> k_of s' = k_of s \<and>
        (\<exists>r. x = Some r \<and> status r = WAITING \<and> request_id r = q)) \<or>
     (session \<and> w_of s' = w_of s \<and> k_of s' = add_mset q (k_of s) \<and>
        (\<exists>r. x = Some r \<and> status r = WAITING_FOR_STREAMING_REQ \<and> request_id r = q))"

lemma enqueue_effect:
  "running (enqueue_waiting_request r s) = running s" "reqs (enqueue_waiting_request r s) = reqs s"
  "w_of (enqueue_waiting_request r s) = (if is_blocked_waiting_status (status r) then w_of s else add_mset (request_id r) (w_of s))"
  "k_of (enqueue_waiting_request r s) = (if is_blocked_waiting_status (status r) then add_mset (request_id r) (k_of s) else k_of s)"
  by (simp_all add: enqueue_waiting_request_def w_of_def k_of_def bag.contents_add)

lemma w_k_lists: "same_lists s t \<Longrightarrow> w_of t = w_of s \<and> k_of t = k_of s \<and> running t = running s"
  by (simp add: same_lists_def w_of_def k_of_def)

lemma put_sel [simp]:
  "reqs (put r s) = (reqs s)(request_id r \<mapsto> r)" "running (put r s) = running s"
  by (simp_all add: put_def)

lemma w_k_upd [simp]:
  "w_of (put r s) = w_of s" "k_of (put r s) = k_of s"
  "w_of (s\<lparr>num_waiting_for_streaming_input := n\<rparr>) = w_of s" "k_of (s\<lparr>num_waiting_for_streaming_input := n\<rparr>) = k_of s"
  "w_of (s\<lparr>kv := k\<rparr>) = w_of s" "k_of (s\<lparr>kv := k\<rparr>) = k_of s"
  by (simp_all add: w_of_def k_of_def put_def)

lemma handle_stopped_effect:
  assumes h: "hasher_ok cfg" and r: "is_finished r" "request_id r = q" "reqs s q = Some r"
  shows "okE (\<lambda>(finished, r', s'). running s' = running s \<and>
           (if finished then w_of s' = w_of s \<and> k_of s' = k_of s \<and> is_finished r' \<and> request_id r' = q \<and>
                             reqs s' = (reqs s)(q \<mapsto> r')
            else settled q (resumable r) (Some r') s s' \<and> request_id r' = q \<and> reqs s' = (reqs s)(q \<mapsto> r')))
           (handle_stopped_request cfg r s)"
proof (cases "resumable r")
  case False
  then show ?thesis using r by (simp add: handle_stopped_request_def fun_upd_idem)
next
  case res: True
  show ?thesis
  proof (cases "streaming_queue r = None \<or> streaming_queue r = Some []")
    case True
    then show ?thesis
      using r res by (auto simp: handle_stopped_request_def Let_def enqueue_effect is_blocked_waiting_status_def
          settled_def)
  next
    case False
    then obtain u us where sq: "streaming_queue r = Some (u # us)" by (auto simp: neq_Nil_conv)
    let ?r = "r\<lparr>streaming_queue := Some us\<rparr>"
    show ?thesis
    proof (cases u)
      case None
      then show ?thesis
        using r res sq by (auto simp: handle_stopped_request_def Let_def is_finished_def)
    next
      case (Some up)
      have "okE (\<lambda>(r2, s2). settled q True (Some r2) s (enqueue_waiting_request r2 s2) \<and> request_id r2 = q \<and>
          reqs s2 = (reqs s)(q \<mapsto> r2) \<and> running s2 = running s) (update_request_as_session cfg ?r up (put ?r s))"
      proof (rule okE_conseq [OF session_effect [OF h]], clarify)
        fix r2 s2
        assume e: "request_id r2 = request_id ?r" "status r2 = WAITING" "same_lists (put ?r s) s2"
          "reqs s2 = (reqs (put ?r s))(request_id ?r \<mapsto> r2)"
        have "w_of s2 = w_of s" "k_of s2 = k_of s" "running s2 = running s"
          using w_k_lists [OF e(3)] by simp_all
        then show "settled q True (Some r2) s (enqueue_waiting_request r2 s2) \<and> request_id r2 = q \<and>
          reqs s2 = (reqs s)(q \<mapsto> r2) \<and> running s2 = running s"
          using e r(2) by (simp add: settled_def enqueue_effect is_blocked_waiting_status_def)
      qed
      then show ?thesis
        using res sq Some by (auto simp: handle_stopped_request_def Let_def enqueue_effect elim!: okE_conseq)
    qed
  qed
qed


definition stopped_at :: "req_id \<Rightarrow> bool \<Rightarrow> request_status \<Rightarrow> 'c update_state \<Rightarrow> request \<Rightarrow> 'c update_state \<Rightarrow> bool" where
  "stopped_at q session st U r' U' \<longleftrightarrow> request_id r' = q \<and>
     (\<exists>x. (x = None \<or> x = Some r') \<and> settled q session x (u_sched U) (u_sched U') \<and>
        reqs (u_sched U') = (reqs (u_sched U))(q := x)) \<and>
     running (u_sched U') = running (u_sched U) \<and>
     u_stopped_running U' = (if st = RUNNING then List.insert q (u_stopped_running U) else u_stopped_running U) \<and>
     u_stopped_preempted U' = (if st = RUNNING then u_stopped_preempted U else List.insert q (u_stopped_preempted U))"

lemma stop_request_effect:
  assumes h: "hasher_ok cfg" and r: "is_finished r" "request_id r = q" "reqs (u_sched U) q = Some r"
  shows "okE (\<lambda>(r', U'). stopped_at q (resumable r) st U r' U') (stop_request cfg env st r U)"
proof (rule okEI, clarify)
  fix r' U'
  assume s: "stop_request cfg env st r U = Inr (r', U')"
  obtain finished s1 s2 where hs: "handle_stopped_request cfg r (u_sched U) = Inr (finished, r', s1)"
    and f: "(if finished then free_request env r' False s1 else Inr s1) = Inr s2"
    and U': "U' = (let V = U\<lparr>u_sched := s2\<rparr> in
        if st = RUNNING then V\<lparr>u_stopped_running := List.insert (request_id r') (u_stopped_running V)\<rparr>
        else V\<lparr>u_stopped_preempted := List.insert (request_id r') (u_stopped_preempted V)\<rparr>)"
    using s by (auto simp: stop_request_def Let_def split: sum.splits prod.splits)
  note e = okED [OF handle_stopped_effect [OF h r] hs, simplified]
  have id: "request_id r' = q" using e by (auto split: if_splits)
  have "\<exists>x. (x = None \<or> x = Some r') \<and> settled q (resumable r) x (u_sched U) s2 \<and>
        reqs s2 = (reqs (u_sched U))(q := x) \<and> running s2 = running (u_sched U)"
  proof (cases finished)
    case False
    then show ?thesis using e f by auto
  next
    case True
    then have "free_request env r' False s1 = Inr s2" using f by simp
    note g = okED [OF free_request_effect this]
    then have l: "w_of s2 = w_of s1" "k_of s2 = k_of s1" "running s2 = running s1" using w_k_lists by blast+
    have "reqs s2 = reqs s1 \<or> reqs s2 = (reqs s1)(q := None)" using g id by auto
    then show ?thesis
    proof
      assume "reqs s2 = reqs s1"
      then show ?thesis using e True l by (intro exI [of _ "Some r'"]) (simp add: settled_def)
    next
      assume "reqs s2 = (reqs s1)(q := None)"
      then show ?thesis using e True l by (intro exI [of _ None]) (simp add: settled_def)
    qed
  qed
  then show "stopped_at q (resumable r) st U r' U'"
    unfolding stopped_at_def U' using id by (auto simp: Let_def)
qed

section \<open>One request\<close>

definition processed :: "req_id \<Rightarrow> request \<Rightarrow> 'c update_state \<Rightarrow> 'c update_state \<Rightarrow> bool" where
  "processed q r U U' \<longleftrightarrow>
     running (u_sched U') = running (u_sched U) \<and>
     (\<exists>x. reqs (u_sched U') = (reqs (u_sched U))(q := x) \<and>
        ((u_stopped_running U' = u_stopped_running U \<and> u_stopped_preempted U' = u_stopped_preempted U \<and>
          w_of (u_sched U') = w_of (u_sched U) \<and> k_of (u_sched U') = k_of (u_sched U) \<and>
          (\<exists>r'. x = Some r' \<and> same_kind r r')) \<or>
         (settled q (resumable r) x (u_sched U) (u_sched U') \<and>
          u_stopped_running U' = (if status r = RUNNING then List.insert q (u_stopped_running U) else u_stopped_running U) \<and>
          u_stopped_preempted U' =
            (if status r = RUNNING then u_stopped_preempted U else List.insert q (u_stopped_preempted U)))))"

lemma undo_rejected_state [simp]: "same_state r (undo_rejected out toks r)"
  by (auto simp: undo_rejected_def Let_def split: option.splits list.splits)

lemma note_nans_state [simp]: "same_state r (note_nans mo r)"
  by (auto simp: note_nans_def split: option.splits)

lemma emit_sel [simp]:
  "u_sched (emit_output r toks reason U) = u_sched U"
  "u_stopped_running (emit_output r toks reason U) = u_stopped_running U"
  "u_stopped_preempted (emit_output r toks reason U) = u_stopped_preempted U"
  by (simp_all add: emit_output_def)

lemma put_back_eq:
  assumes "reqs (u_sched U) (request_id r) = x" "x = None \<or> x = Some old" "same_state old r"
  shows "reqs (u_sched (put_back r U)) = (reqs (u_sched U))(request_id r := (if x = None then None else Some r)) \<and>
     running (u_sched (put_back r U)) = running (u_sched U) \<and> w_of (u_sched (put_back r U)) = w_of (u_sched U) \<and>
     k_of (u_sched (put_back r U)) = k_of (u_sched U) \<and>
     u_stopped_running (put_back r U) = u_stopped_running U \<and>
     u_stopped_preempted (put_back r U) = u_stopped_preempted U"
  using assms by (auto simp: put_back_def fun_upd_idem)

lemma settled_state:
  assumes "settled q b x s s'" "x = None \<or> x = Some old" "same_state old r"
  shows "settled q b (if x = None then None else Some r) s s'"
  using assms unfolding settled_def same_state_def is_finished_def by (cases x) auto

lemma settled_from:
  "settled q b x s s' \<Longrightarrow> w_of s'' = w_of s' \<Longrightarrow> k_of s'' = k_of s' \<Longrightarrow> w_of s = w_of t \<Longrightarrow> k_of s = k_of t \<Longrightarrow>
   settled q b x t s''"
  by (simp add: settled_def)

lemma process_request_effect:
  assumes h: "hasher_ok cfg" and r: "request_id r = q" "reqs (u_sched U) q = Some r"
  shows "okE (processed q r U) (process_request cfg env out mo r U)"
proof (rule okEI)
  fix U'
  assume p: "process_request cfg env out mo r U = Inr U'"
  obtain gen pooled where rest: "(let r1 = undo_rejected out gen r; s1 = put r1 (u_sched U) in
     bindE (if gen \<noteq> [] then update_request_with_output cfg r1 gen s1
            else if pooling r1 \<noteq> None \<and> pooled
            then let r2 = r1\<lparr>status := FINISHED_STOPPED\<rparr> in Inr ([], True, r2, put r2 s1)
            else Inr ([], False, r1, s1)) (\<lambda>(toks, stopped, r2, s2).
     let reason = (if stopped then get_finished_reason r2 else None); U2 = U\<lparr>u_sched := s2\<rparr> in
     bindE (if stopped then stop_request cfg env (status r1) r2 U2 else Inr (r2, U2)) (\<lambda>(r3, U3).
     let r4 = note_nans mo r3; U4 = put_back r4 U3 in
     Inr (if toks \<noteq> [] \<or> pooled \<or> stopped then emit_output r4 toks reason U4 else U4)))) = Inr U'"
    using p unfolding process_request_def by auto
  let ?r1 = "undo_rejected out gen r" and ?s = "u_sched U"
  have s1: "same_state r ?r1" by simp
  obtain toks stopped r2 s2 where up: "(if gen \<noteq> [] then update_request_with_output cfg ?r1 gen (put ?r1 ?s)
            else if pooling ?r1 \<noteq> None \<and> pooled
            then let r2 = ?r1\<lparr>status := FINISHED_STOPPED\<rparr> in Inr ([], True, r2, put r2 (put ?r1 ?s))
            else Inr ([], False, ?r1, put ?r1 ?s)) = Inr (toks, stopped, r2, s2)"
    using rest by (auto simp: Let_def)
  have both: "goes_on ?r1 stopped r2 \<and> (\<exists>k. s2 = put r2 ((put ?r1 ?s)\<lparr>kv := k\<rparr>))"
  proof (cases "gen = []")
    case False
    then have u: "update_request_with_output cfg ?r1 gen (put ?r1 ?s) = Inr (toks, stopped, r2, s2)" using up by simp
    show ?thesis using okED [OF update_with_output_effect [OF h] u] by simp
  next
    case True
    have kv: "\<exists>k. put y t = put y (t\<lparr>kv := k\<rparr>)" for y and t :: "'a scheduler" by (rule exI [of _ "kv t"]) simp
    have "put ?r1 ?s = put ?r1 (put ?r1 ?s)" by (simp add: put_def)
    then show ?thesis
      using up True kv [of r2 "put ?r1 ?s"] by (auto simp: Let_def goes_on_def is_finished_def split: if_splits)
  qed
  then have g: "goes_on ?r1 stopped r2" and s2: "\<exists>k. s2 = put r2 ((put ?r1 ?s)\<lparr>kv := k\<rparr>)" by auto
  have id: "request_id ?r1 = q" "request_id r2 = q" using s1 g r(1) by (simp_all add: same_state_def goes_on_def)
  have st: "reqs s2 = (reqs ?s)(q \<mapsto> r2)" "running s2 = running ?s" "w_of s2 = w_of ?s" "k_of s2 = k_of ?s"
    using s2 id by (auto simp: w_of_def k_of_def put_def)
  let ?U2 = "U\<lparr>u_sched := s2\<rparr>"
  obtain r3 U3 where stop: "(if stopped then stop_request cfg env (status ?r1) r2 ?U2 else Inr (r2, ?U2)) = Inr (r3, U3)"
    and U': "u_sched U' = u_sched (put_back (note_nans mo r3) U3)"
      "u_stopped_running U' = u_stopped_running (put_back (note_nans mo r3) U3)"
      "u_stopped_preempted U' = u_stopped_preempted (put_back (note_nans mo r3) U3)"
    using rest up by (auto simp: Let_def)
  have status: "status ?r1 = status r" "resumable r2 = resumable r" using s1 g by (simp_all add: same_state_def goes_on_def)
  show "processed q r U U'"
  proof (cases stopped)
    case False
    then have e: "r3 = r2" "U3 = ?U2" using stop by auto
    have nn: "same_state r2 (note_nans mo r2)" by simp
    then have id4: "request_id (note_nans mo r2) = q" using id by (simp add: same_state_def)
    have "same_kind r (note_nans mo r2)"
      using g s1 nn False by (auto simp: goes_on_def same_state_def same_kind_def is_finished_def)
    then show ?thesis
      using put_back_eq [of ?U2 "note_nans mo r2" "Some r2" r2] st id4 nn
      unfolding processed_def U' e by (intro conjI exI [of _ "Some (note_nans mo r2)"]) auto
  next
    case True
    have fin: "is_finished r2" using g True by (simp add: goes_on_def)
    have stop2: "stop_request cfg env (status r) r2 ?U2 = Inr (r3, U3)" using stop True status by simp
    have "reqs (u_sched ?U2) q = Some r2" by (simp add: st)
    note eff = okED [OF stop_request_effect [OF h fin id(2) this] stop2]
    have ex: "\<exists>x. (x = None \<or> x = Some r3) \<and> settled q (resumable r) x s2 (u_sched U3) \<and>
        reqs (u_sched U3) = (reqs s2)(q := x)"
      using eff status(2) by (simp add: stopped_at_def)
    have x1: "request_id r3 = q" "running (u_sched U3) = running s2"
      "u_stopped_running U3 = (if status r = RUNNING then List.insert q (u_stopped_running U) else u_stopped_running U)"
      "u_stopped_preempted U3 = (if status r = RUNNING then u_stopped_preempted U else List.insert q (u_stopped_preempted U))"
      using eff by (simp_all add: stopped_at_def)
    obtain x where x: "x = None \<or> x = Some r3" "settled q (resumable r) x s2 (u_sched U3)"
      "reqs (u_sched U3) = (reqs s2)(q := x)" using ex by blast
    have nn: "same_state r3 (note_nans mo r3)" by simp
    then have id4: "request_id (note_nans mo r3) = q" using x1(1) by (simp add: same_state_def)
    let ?x = "if x = None then None else Some (note_nans mo r3)"
    have pb: "reqs (u_sched (put_back (note_nans mo r3) U3)) = (reqs (u_sched U3))(q := ?x) \<and>
     running (u_sched (put_back (note_nans mo r3) U3)) = running (u_sched U3) \<and>
     w_of (u_sched (put_back (note_nans mo r3) U3)) = w_of (u_sched U3) \<and>
     k_of (u_sched (put_back (note_nans mo r3) U3)) = k_of (u_sched U3) \<and>
     u_stopped_running (put_back (note_nans mo r3) U3) = u_stopped_running U3 \<and>
     u_stopped_preempted (put_back (note_nans mo r3) U3) = u_stopped_preempted U3"
      using put_back_eq [of U3 "note_nans mo r3" x r3] x(1,3) id4 nn by simp
    have "settled q (resumable r) ?x ?s (u_sched (put_back (note_nans mo r3) U3))"
      by (rule settled_from [OF settled_state [OF x(2,1) nn]]) (use pb st in simp_all)
    then show ?thesis
      using pb x(3) x1 st unfolding processed_def U' by (intro conjI exI [of _ ?x]) auto
  qed
qed

lemma update_one_effect:
  assumes h: "hasher_ok cfg" and ids: "\<forall>q r. reqs (u_sched U) q = Some r \<longrightarrow> request_id r = q"
  shows "okE (\<lambda>U'. U' = U \<or> (\<exists>r. reqs (u_sched U) q = Some r \<and> \<not> is_finished r \<and> processed q r U U'))
           (update_one cfg env out mo failed (q, n) U)"
proof (cases "reqs (u_sched U) q")
  case None
  then show ?thesis by (simp add: update_one_def)
next
  case (Some r)
  have "request_id r = q" using ids Some by blast
  then show ?thesis
    using process_request_effect [OF h _ Some, of env out mo] Some by (auto simp: update_one_def okE_def)
qed

section \<open>All requests of an output\<close>

text \<open>The side condition on the requests \<^verbatim>\<open>qs\<close> of an output.\<close>

definition calm :: "'c scheduler \<Rightarrow> req_id list \<Rightarrow> bool" where
  "calm s qs \<longleftrightarrow>
     (\<forall>q r. q \<in> set qs \<longrightarrow> reqs s q = Some r \<longrightarrow> \<not> is_finished r \<longrightarrow> status r \<noteq> RUNNING \<longrightarrow>
        \<not> resumable r \<and> count (k_of s) q = 0)"

text \<open>During the loop a stopped request is settled except for the list it is going to leave.\<close>

definition at_place :: "'c update_state \<Rightarrow> req_id \<Rightarrow> bool" where
  "at_place U q \<longleftrightarrow>
     (let s = u_sched U; run = count (mset (running s)) q; w = count (w_of s) q; k = count (k_of s) q in
      if q \<in> set (u_stopped_running U) then placed (reqs s q) 0 (w + k)
      else if q \<in> set (u_stopped_preempted U) then placed (reqs s q) run k
      else placed (reqs s q) run (w + k))"

definition untouched :: "'c scheduler \<Rightarrow> 'c update_state \<Rightarrow> req_id \<Rightarrow> bool" where
  "untouched s U q \<longleftrightarrow>
     q \<notin> set (u_stopped_running U) \<and> q \<notin> set (u_stopped_preempted U) \<and> reqs (u_sched U) q = reqs s q \<and>
     count (w_of (u_sched U)) q = count (w_of s) q \<and> count (k_of (u_sched U)) q = count (k_of s) q"

definition upd_inv :: "'c scheduler \<Rightarrow> req_id list \<Rightarrow> 'c update_state \<Rightarrow> bool" where
  "upd_inv s todo U \<longleftrightarrow>
     running (u_sched U) = running s \<and>
     set (u_stopped_running U) \<inter> set (u_stopped_preempted U) = {} \<and>
     (\<forall>q r. reqs (u_sched U) q = Some r \<longrightarrow> request_id r = q) \<and>
     (\<forall>q. at_place U q) \<and> (\<forall>q \<in> set todo. untouched s U q)"

lemma processed_frame:
  assumes "processed q r U U'" "y \<noteq> q"
  shows "reqs (u_sched U') y = reqs (u_sched U) y" "running (u_sched U') = running (u_sched U)"
    "count (w_of (u_sched U')) y = count (w_of (u_sched U)) y" "count (k_of (u_sched U')) y = count (k_of (u_sched U)) y"
    "y \<in> set (u_stopped_running U') \<longleftrightarrow> y \<in> set (u_stopped_running U)"
    "y \<in> set (u_stopped_preempted U') \<longleftrightarrow> y \<in> set (u_stopped_preempted U)"
proof -
  have q: "q \<noteq> y" using assms(2) by simp
  note p = assms(1) [unfolded processed_def]
  from p show "running (u_sched U') = running (u_sched U)" by (elim conjE)
  from p obtain x where "reqs (u_sched U') = (reqs (u_sched U))(q := x)" by (elim conjE exE)
  then show "reqs (u_sched U') y = reqs (u_sched U) y" using assms(2) by simp
  have "(w_of (u_sched U') = w_of (u_sched U) \<or> w_of (u_sched U') = add_mset q (w_of (u_sched U))) \<and>
    (k_of (u_sched U') = k_of (u_sched U) \<or> k_of (u_sched U') = add_mset q (k_of (u_sched U)))"
    using p unfolding settled_def by blast
  then show "count (w_of (u_sched U')) y = count (w_of (u_sched U)) y" "count (k_of (u_sched U')) y = count (k_of (u_sched U)) y"
    using q by auto
  have "(u_stopped_running U' = u_stopped_running U \<or> u_stopped_running U' = List.insert q (u_stopped_running U)) \<and>
    (u_stopped_preempted U' = u_stopped_preempted U \<or> u_stopped_preempted U' = List.insert q (u_stopped_preempted U))"
    using p by (cases "status r = RUNNING") auto
  then show "y \<in> set (u_stopped_running U') \<longleftrightarrow> y \<in> set (u_stopped_running U)"
    "y \<in> set (u_stopped_preempted U') \<longleftrightarrow> y \<in> set (u_stopped_preempted U)"
    using assms(2) by auto
qed

lemma processed_other:
  assumes "processed q r U U'" "y \<noteq> q"
  shows "at_place U' y = at_place U y" "untouched s U' y = untouched s U y"
  unfolding at_place_def untouched_def Let_def by (simp_all only: processed_frame [OF assms])

lemma count_notin: "q \<notin> set xs \<Longrightarrow> count (mset xs) q = 0"
  by simp

lemma settled_placed:
  "settled q b x s s' \<Longrightarrow> count (w_of s) q = 0 \<Longrightarrow> count (k_of s) q = 0 \<Longrightarrow>
   placed x 0 (count (w_of s') q + count (k_of s') q)"
  unfolding settled_def by (elim disjE conjE exE; cases x) (simp_all add: placed_def is_finished_def)

lemma settled_no_session:
  "settled q False x s s' \<Longrightarrow> w_of s' = w_of s \<and> k_of s' = k_of s \<and> placed x 0 0"
  unfolding settled_def by (cases x) (simp_all add: placed_def)

lemma settled_id: "settled q b x s s' \<Longrightarrow> x = Some y \<Longrightarrow> request_id y = q"
  unfolding settled_def by auto

lemma processed_same:
  assumes p: "processed q r U U'" and r: "reqs (u_sched U) q = Some r" "\<not> is_finished r" "request_id r = q"
    and c: "status r \<noteq> RUNNING \<longrightarrow> \<not> resumable r \<and> count (k_of (u_sched U)) q = 0"
    and u: "q \<notin> set (u_stopped_running U)" "q \<notin> set (u_stopped_preempted U)" "at_place U q"
  shows "at_place U' q \<and> (\<forall>y. reqs (u_sched U') q = Some y \<longrightarrow> request_id y = q)"
proof -
  obtain x where run: "running (u_sched U') = running (u_sched U)" and x: "reqs (u_sched U') = (reqs (u_sched U))(q := x)"
    and c2: "(u_stopped_running U' = u_stopped_running U \<and> u_stopped_preempted U' = u_stopped_preempted U \<and>
          w_of (u_sched U') = w_of (u_sched U) \<and> k_of (u_sched U') = k_of (u_sched U) \<and>
          (\<exists>r'. x = Some r' \<and> same_kind r r')) \<or>
         (settled q (resumable r) x (u_sched U) (u_sched U') \<and>
          u_stopped_running U' = (if status r = RUNNING then List.insert q (u_stopped_running U) else u_stopped_running U) \<and>
          u_stopped_preempted U' =
            (if status r = RUNNING then u_stopped_preempted U else List.insert q (u_stopped_preempted U)))"
    using p unfolding processed_def by blast
  have pl: "placed (Some r) (count (mset (running (u_sched U))) q) (count (w_of (u_sched U)) q + count (k_of (u_sched U)) q)"
    using u r by (simp add: at_place_def Let_def)
  from c2 show ?thesis
  proof (elim disjE conjE exE)
    fix r' assume e: "u_stopped_running U' = u_stopped_running U" "u_stopped_preempted U' = u_stopped_preempted U"
      "w_of (u_sched U') = w_of (u_sched U)" "k_of (u_sched U') = k_of (u_sched U)" "x = Some r'" "same_kind r r'"
    show ?thesis using e(6) pl u(1,2) r(3)
      by (simp add: at_place_def Let_def e x run placed_kind [OF e(6)] same_kind_def)
  next
    assume s: "settled q (resumable r) x (u_sched U) (u_sched U')"
      and sr: "u_stopped_running U' = (if status r = RUNNING then List.insert q (u_stopped_running U) else u_stopped_running U)"
      and sp: "u_stopped_preempted U' =
            (if status r = RUNNING then u_stopped_preempted U else List.insert q (u_stopped_preempted U))"
    have id: "\<forall>y. reqs (u_sched U') q = Some y \<longrightarrow> request_id y = q" using settled_id [OF s] by (simp add: x)
    have "at_place U' q"
    proof (cases "status r = RUNNING")
      case True
      then have z: "count (w_of (u_sched U)) q = 0" "count (k_of (u_sched U)) q = 0" using pl r(2) by (simp_all add: placed_def)
      show ?thesis using settled_placed [OF s z] True by (simp add: at_place_def Let_def sr x)
    next
      case False
      then have z: "count (mset (running (u_sched U))) q = 0" "count (k_of (u_sched U)) q = 0" "\<not> resumable r"
        using pl r(2) c by (simp_all add: placed_def split: if_splits)
      have "w_of (u_sched U') = w_of (u_sched U) \<and> k_of (u_sched U') = k_of (u_sched U) \<and> placed x 0 0"
        by (rule settled_no_session) (use s z(3) in simp)
      then show ?thesis using False z u(1) by (simp add: at_place_def Let_def sr sp x run count_notin)
    qed
    then show ?thesis using id by simp
  qed
qed

lemma update_one_inv:
  assumes h: "hasher_ok cfg" and inv: "upd_inv s (q # todo) U" and q: "q \<notin> set todo" and c: "calm s (q # todo)"
  shows "okE (upd_inv s todo) (update_one cfg env out mo failed (q, n) U)"
proof -
  have ids: "\<forall>q r. reqs (u_sched U) q = Some r \<longrightarrow> request_id r = q" using inv by (simp add: upd_inv_def)
  show ?thesis
  proof (rule okE_conseq [OF update_one_effect [OF h ids]], elim disjE exE conjE)
    fix U' assume "U' = U"
    then show "upd_inv s todo U'" using inv by (simp add: upd_inv_def)
  next
    fix U' r
    assume r: "reqs (u_sched U) q = Some r" "\<not> is_finished r" and p: "processed q r U U'"
    have un: "untouched s U q" and pl: "at_place U q" using inv by (simp_all add: upd_inv_def)
    have cq: "status r \<noteq> RUNNING \<longrightarrow> \<not> resumable r \<and> count (k_of (u_sched U)) q = 0"
      using c un r unfolding calm_def untouched_def by (metis list.set_intros(1))
    have un2: "q \<notin> set (u_stopped_running U)" "q \<notin> set (u_stopped_preempted U)" using un by (simp_all add: untouched_def)
    note same = processed_same [OF p r ids [rule_format, OF r(1)] cq un2 pl]
    have "at_place U' y" for y using same processed_other(1) [OF p, of y] inv by (cases "y = q") (simp_all add: upd_inv_def)
    moreover have "\<forall>y \<in> set todo. untouched s U' y" using processed_other(2) [OF p, of _ s] q inv unfolding upd_inv_def by (metis list.set_intros(2))
    moreover have "request_id z = y" if "reqs (u_sched U') y = Some z" for y z
    proof (cases "y = q")
      case True
      then show ?thesis using same that by blast
    next
      case False
      then have "reqs (u_sched U') y = reqs (u_sched U) y" using p by (auto simp: processed_def)
      then show ?thesis using that ids by simp
    qed
    moreover have "running (u_sched U') = running s" "set (u_stopped_running U') \<inter> set (u_stopped_preempted U') = {}"
      using p inv un2 unfolding processed_def upd_inv_def by (cases "status r = RUNNING"; auto)+
    ultimately show "upd_inv s todo U'" by (simp add: upd_inv_def)
  qed
qed

lemma update_all_inv:
  assumes "hasher_ok cfg" "upd_inv s (map fst d) U" "distinct (map fst d)" "calm s (map fst d)"
  shows "okE (upd_inv s []) (foldE (update_one cfg env out mo failed) d U)"
  using assms
proof (induction d arbitrary: U)
  case (Cons e d)
  obtain q n where e: "e = (q, n)" by (cases e)
  have "okE (upd_inv s (map fst d)) (update_one cfg env out mo failed (q, n) U)"
    by (rule update_one_inv) (use Cons.prems in \<open>auto simp: e\<close>)
  then show ?case
    using Cons.prems by (auto simp: e calm_def intro!: okE_conseq [OF _ Cons.IH])
qed simp

text \<open>Taking the stopped requests out of their lists restores the invariant.\<close>

lemma remove_stopped_inv:
  assumes inv: "upd_inv s [] U" and s: "sched_inv s"
  shows "sched_inv (remove_stopped U) \<and> length (running (remove_stopped U)) \<le> length (running s)"
proof -
  let ?S = "set (u_stopped_running U)" and ?T = "set (u_stopped_preempted U)" and ?R = "remove_stopped U"
  have run: "running (u_sched U) = running s" using inv by (simp add: upd_inv_def)
  have dist: "distinct (running (u_sched U))" using s places_distinct unfolding run by (simp add: sched_inv_def)
  have m: "reqs ?R = reqs (u_sched U)" "skipped_waiting ?R = skipped_waiting (u_sched U)"
    "mset (running ?R) = filter_mset (\<lambda>x. x \<notin> ?S) (mset (running (u_sched U)))"
    "q_contents (waiting ?R) = filter_mset (\<lambda>x. x \<notin> ?T) (q_contents (waiting (u_sched U)))"
    by (auto simp: remove_stopped_def Let_def mset_remove_all_of [OF dist] bag.contents_remove_many)
  have "placed (reqs ?R q) (count (mset (running ?R)) q) (count (q_contents (waiting ?R) + q_contents (skipped_waiting ?R)) q)" for q
  proof -
    have "at_place U q" "?S \<inter> ?T = {}" using inv by (simp_all add: upd_inv_def)
    then show ?thesis
      unfolding m by (auto simp: at_place_def Let_def w_of_def k_of_def)
  qed
  then have "sched_inv ?R" using inv by (simp add: sched_inv_def places_def upd_inv_def m(1))
  moreover have "size (mset (running ?R)) \<le> size (mset (running s))"
    unfolding m(3) run by (rule size_filter_mset_lesseq)
  ultimately show ?thesis by simp
qed

section \<open>The other parts of an update\<close>

definition all_state :: "'c scheduler \<Rightarrow> 'c scheduler \<Rightarrow> bool" where
  "all_state s t \<longleftrightarrow> same_lists s t \<and> rel_fun (=) (rel_option same_state) (reqs s) (reqs t)"

lemma rel_option_state_refl [simp]: "rel_option same_state x x"
  by (cases x) simp_all

lemma rel_option_state_trans:
  "rel_option same_state x y \<Longrightarrow> rel_option same_state y z \<Longrightarrow> rel_option same_state x z"
  by (cases x; cases y; cases z) (auto intro: same_state_trans)

lemma all_state_refl [simp]: "all_state s s"
  by (simp add: all_state_def rel_fun_def)

lemma all_state_trans: "all_state s t \<Longrightarrow> all_state t u \<Longrightarrow> all_state s u"
  unfolding all_state_def rel_fun_def by (blast intro: same_lists_trans rel_option_state_trans)

lemma all_state_kept: "all_state s t \<Longrightarrow> all_kept s t"
  unfolding all_state_def all_kept_def rel_fun_def
  by (metis (mono_tags, lifting) option.rel_mono_strong same_state_kind)

lemma all_state_calm:
  assumes "all_state s t" "calm s qs"
  shows "calm t qs"
  unfolding calm_def
proof (intro allI impI)
  fix q r
  assume r: "q \<in> set qs" "reqs t q = Some r" "\<not> is_finished r" "status r \<noteq> RUNNING"
  have k: "k_of t = k_of s" using assms(1) by (simp add: all_state_def same_lists_def k_of_def)
  have "rel_option same_state (reqs s q) (reqs t q)" using assms(1) by (simp add: all_state_def rel_fun_def)
  then obtain r2 where r2: "reqs s q = Some r2" "same_state r2 r" using r(2) by (cases "reqs s q") auto
  show "\<not> resumable r \<and> count (k_of t) q = 0"
    using assms(2) r r2 unfolding calm_def k by (auto simp: same_state_def is_finished_def)
qed

lemma all_state_put:
  assumes "reqs s (request_id r) = Some old" "same_state old r"
  shows "all_state s (put r s)"
  using assms by (auto simp: all_state_def rel_fun_def put_def same_lists_def)

lemma all_state_upd [simp]:
  "all_state s (t\<lparr>kv := k\<rparr>) = all_state s t"
  "all_state s (t\<lparr>failed_recving_kv_req_ids := fr\<rparr>) = all_state s t"
  by (simp_all add: all_state_def same_lists_def)

lemma invalid_block_loop_state:
  "same_state r (iv_req v) \<Longrightarrow> same_state r (iv_req (invalid_block_loop bs evict invalid ids ncomp zs v))"
  by (induction bs evict invalid ids ncomp zs v rule: invalid_block_loop.induct) (auto simp: Let_def)

lemma update_invalid_effect:
  assumes "\<forall>q r. reqs s q = Some r \<longrightarrow> request_id r = q"
  shows "okE (\<lambda>(x, s'). all_state s s') (update_invalid_request cfg evict invalid nsched q (a, s))"
proof -
  obtain affected tokens evicted marked where a: "a = (affected, tokens, evicted, marked)" by (cases a)
  have put: "all_state s (put r' s)" if "reqs s q = Some r" "same_state r r'" for r r'
    using all_state_put [of s r' r] that assms by (auto simp: same_state_def)
  show ?thesis
    unfolding update_invalid_request_def a lookup_def
    by (auto simp: res_wp Let_def invalid_block_loop_state intro!: okEI put split: option.splits list.splits)
qed

lemma all_state_ids:
  assumes "all_state s t" "\<forall>q r. reqs s q = Some r \<longrightarrow> request_id r = q"
  shows "\<forall>q r. reqs t q = Some r \<longrightarrow> request_id r = q"
proof (intro allI impI)
  fix q r assume r: "reqs t q = Some r"
  have "rel_option same_state (reqs s q) (reqs t q)" using assms(1) by (simp add: all_state_def rel_fun_def)
  then show "request_id r = q" using r assms(2) by (cases "reqs s q") (auto simp: same_state_def)
qed

lemma update_invalid_all_effect:
  assumes "\<forall>q r. reqs s q = Some r \<longrightarrow> request_id r = q"
  shows "okE (\<lambda>(x, s'). all_state s s') (update_requests_with_invalid_blocks cfg evict invalid nsched qs s)"
proof -
  have "okE (\<lambda>(x, s'). all_state s s')
      (foldE (update_invalid_request cfg evict invalid nsched) qs (a, s))" for a
  proof (rule okE_foldE [where P = "\<lambda>(x, s'). all_state s s'"], simp, clarify)
    fix q b1 b2 b3 b4 and t :: "'a scheduler"
    assume t: "all_state s t"
    show "okE (\<lambda>(x, s'). all_state s s') (update_invalid_request cfg evict invalid nsched q ((b1, b2, b3, b4), t))"
      by (rule okE_conseq [OF update_invalid_effect [OF all_state_ids [OF t assms]]]) (use t in \<open>auto intro: all_state_trans\<close>)
  qed
  then show ?thesis by (auto simp: update_requests_with_invalid_blocks_def okE_def)
qed

lemma handle_invalid_effect:
  assumes "\<forall>q r. reqs s q = Some r \<longrightarrow> request_id r = q"
  shows "okE (\<lambda>(x, s'). all_state s s') (handle_invalid_blocks cfg env invalid nsched s)"
proof (rule okEI, clarify)
  fix failed s'
  assume h: "handle_invalid_blocks cfg env invalid nsched s = Inr (failed, s')"
  obtain x1 s1 x2 s2 where a: "update_requests_with_invalid_blocks cfg False invalid nsched
        (filter (has_status WAITING_FOR_REMOTE_KVS s) (q_iter (req_lt s) (skipped_waiting s))) s = Inr (x1, s1)"
    and b: "update_requests_with_invalid_blocks cfg True invalid nsched (running s1) s1 = Inr (x2, s2)"
    using h unfolding handle_invalid_blocks_def by auto
  have s1: "all_state s s1" using okED [OF update_invalid_all_effect [OF assms] a] by simp
  have s2: "all_state s1 s2" using okED [OF update_invalid_all_effect [OF all_state_ids [OF s1 assms]] b] by simp
  have "all_state s2 s'"
    using h a b unfolding handle_invalid_blocks_def
    by (auto split: prod.splits if_splits sum.splits)
  then show "all_state s s'" using s1 s2 all_state_trans by blast
qed

lemma finished_transfer_inv:
  assumes "sched_inv s"
  shows "okE (\<lambda>s'. sched_inv s' \<and> running s' = running s) (finished_recving q s)"
    "okE (\<lambda>s'. sched_inv s' \<and> running s' = running s) (finished_sending q s)"
proof -
  have free: "okE (\<lambda>s'. sched_inv s' \<and> running s' = running s) (free_blocks_of r s)" if r: "reqs s q = Some r" for r
  proof (rule okE_conseq [OF free_blocks_of_effect], elim conjE)
    fix s'
    assume f: "same_lists s s'" "is_finished r" "reqs s' = (reqs s)(request_id r := None)"
    have id: "request_id r = q" by (rule sched_inv_id [OF assms r])
    show "sched_inv s' \<and> running s' = running s"
      using drop_finished [OF assms r f(2,1)] f id by (simp add: same_lists_def)
  qed
  show "okE (\<lambda>s'. sched_inv s' \<and> running s' = running s) (finished_recving q s)"
    unfolding finished_recving_def using free assms by (auto split: option.splits)
  show "okE (\<lambda>s'. sched_inv s' \<and> running s' = running s) (finished_sending q s)"
    unfolding finished_sending_def using free by (auto split: option.splits)
qed

lemma transfers_inv:
  assumes "sched_inv s"
  shows "okE (\<lambda>s'. sched_inv s' \<and> running s' = running s) (update_from_kv_xfer_finished env ko s)"
proof -
  define s1 where "s1 = (case en_connector env of None \<Rightarrow> s | Some cn \<Rightarrow> s\<lparr>envst := cn_update_connector_output cn (envst s)\<rparr>)"
  have s1: "sched_inv s1" "running s1 = running s" using assms by (auto simp: s1_def split: option.splits)
  let ?P = "\<lambda>t. sched_inv t \<and> running t = running s"
  have step: "okE ?P (finished_recving q t)" "okE ?P (finished_sending q t)" if "?P t" for q and t :: "'a scheduler"
    using finished_transfer_inv [of t] that by auto
  have "okE ?P (foldE finished_recving qs t)" "okE ?P (foldE finished_sending qs t)" if "?P t" for qs and t :: "'a scheduler"
    using that step by (auto intro!: okE_foldE [where P = ?P])
  note folds = this
  show ?thesis unfolding update_from_kv_xfer_finished_def s1_def [symmetric] Let_def okE_simps
    by (rule okE_conseq [OF folds(1) folds(2)]) (use s1 in auto)
qed

lemma fail_requests_inv:
  assumes "sched_inv (u_sched U)"
  shows "okE (\<lambda>U'. sched_inv (u_sched U') \<and> length (running (u_sched U')) \<le> length (running (u_sched U)))
           (fail_requests cfg env failed U)"
proof -
  have emit: "u_sched (fold (\<lambda>r U. emit_output (g r) [] (f r) U) rs V) = u_sched V" for g f rs V
    by (induction rs arbitrary: V) simp_all
  show ?thesis
    unfolding fail_requests_def
    using finish_requests_inv [OF assms] assms
    by (auto simp: res_wp Let_def emit okE_def split: prod.splits)
qed

theorem update_from_output_inv:
  assumes h: "hasher_ok cfg" and inv: "sched_inv s"
    and d: "distinct (map fst (so_num_scheduled_tokens out))" "calm s (map fst (so_num_scheduled_tokens out))"
  shows "okE (\<lambda>(res, s'). sched_inv s' \<and> length (running s') \<le> length (running s))
           (update_from_output cfg env out mo s)"
proof (rule okEI, clarify)
  fix res s'
  assume u: "update_from_output cfg env out mo s = Inr (res, s')"
  have ids: "\<forall>q r. reqs s q = Some r \<longrightarrow> request_id r = q" using sched_inv_id [OF inv] by blast
  define U0 where "U0 = (\<lambda>t :: 'a scheduler. \<lparr>u_sched = t, u_outputs = [], u_stopped_running = [], u_stopped_preempted = []\<rparr>)"
  obtain failed s1 U U1 s2 where
    a: "(case mo_kv_connector_output mo of None \<Rightarrow> Inr ({}, s)
            | Some ko \<Rightarrow>
                if ko_invalid_block_ids ko = [] then Inr ({}, s)
                else handle_invalid_blocks cfg env (ko_invalid_block_ids ko) (so_num_scheduled_tokens out) s) = Inr (failed, s1)"
    and b: "foldE (update_one cfg env out mo failed) (so_num_scheduled_tokens out) (U0 s1) = Inr U"
    and c: "fail_requests cfg env failed (U\<lparr>u_sched := remove_stopped U\<rparr>) = Inr U1"
    and e: "(case mo_kv_connector_output mo of None \<Rightarrow> Inr (u_sched U1)
            | Some ko \<Rightarrow> update_from_kv_xfer_finished env ko (u_sched U1)) = Inr s2"
    and s': "sched_inv s' = sched_inv s2" "running s' = running s2"
    using u unfolding update_from_output_def Let_def bindE_def U0_def
    by (auto split: sum.splits prod.splits)
  have s1: "all_state s s1"
    using a okED [OF handle_invalid_effect [OF ids]] by (auto split: option.splits if_splits)
  have inv1: "sched_inv s1" "running s1 = running s" using all_kept_inv [OF all_state_kept [OF s1] inv] by auto
  have "upd_inv s1 (map fst (so_num_scheduled_tokens out)) (U0 s1)"
    using inv1(1) unfolding upd_inv_def at_place_def untouched_def U0_def sched_inv_def places_def w_of_def k_of_def
    by (simp add: Let_def)
  from okED [OF update_all_inv [OF h this d(1) all_state_calm [OF s1 d(2)]] b]
  have R: "sched_inv (remove_stopped U) \<and> length (running (remove_stopped U)) \<le> length (running s)"
    using remove_stopped_inv inv1 by metis
  have U1: "sched_inv (u_sched U1) \<and> length (running (u_sched U1)) \<le> length (running s)"
    using okED [OF fail_requests_inv c] R by auto
  then have "sched_inv s2 \<and> length (running s2) \<le> length (running s)"
    using e okED [OF transfers_inv [of "u_sched U1" env]] by (auto split: option.splits)
  then show "sched_inv s' \<and> length (running s') \<le> length (running s)" using s' by simp
qed

section \<open>Adding, drafts and resets\<close>

lemma places_add:
  assumes "places m run Q" "m q = None" "request_id r = q" "\<not> is_finished r" "status r \<noteq> RUNNING"
  shows "places (m(q \<mapsto> r)) run (add_mset q Q)"
  by (rule places_update [OF assms(1,3)]) (use places_at [OF assms(1), of q] assms in \<open>auto simp: placed_def\<close>)

lemma all_kept_inv2: "all_kept s t \<Longrightarrow> sched_inv s \<Longrightarrow> sched_inv t \<and> length (running t) \<le> length (running s)"
  using all_kept_inv [of s t] by simp

lemma session_kept:
  assumes "hasher_ok cfg" "sched_inv s" "reqs s q = Some r" "status r = WAITING_FOR_STREAMING_REQ"
  shows "okE (\<lambda>(r', s'). all_kept s s') (update_request_as_session cfg r u s)"
proof (rule okE_conseq [OF session_effect [OF assms(1)]], clarify)
  fix r' s'
  assume e: "request_id r' = request_id r" "status r' = WAITING" "same_lists s s'" "reqs s' = (reqs s)(request_id r \<mapsto> r')"
  have "same_kind r r'" using e(1,2) assms(4) by (simp add: same_kind_def is_finished_def)
  then show "all_kept s s'" using e(3,4) assms(3) sched_inv_id [OF assms(2,3)]
    by (auto simp: all_kept_def rel_fun_def)
qed

lemma add_request_inv:
  assumes h: "hasher_ok cfg" and inv: "sched_inv s" and r: "\<not> is_finished r" "status r \<noteq> RUNNING"
  shows "okE (\<lambda>s'. sched_inv s' \<and> length (running s') \<le> length (running s)) (sched_add_request cfg env r s)"
proof (cases "reqs s (request_id r)")
  case None
  let ?r = "if resumable r then r\<lparr>streaming_queue := Some []\<rparr> else r"
  have k: "request_id ?r = request_id r" "\<not> is_finished ?r" "status ?r \<noteq> RUNNING" using r by (simp_all add: is_finished_def)
  from places_add [OF inv [unfolded sched_inv_def] None k]
  have "sched_inv (enqueue_waiting_request ?r (put ?r s))"
    using k(1) by (simp add: sched_inv_def enqueue_waiting_request_def bag.contents_add put_def)
  then show ?thesis using None by (simp add: sched_add_request_def Let_def enqueue_effect)
next
  case (Some ex)
  let ?P = "\<lambda>s'. sched_inv s' \<and> length (running s') \<le> length (running s)"
  have put: "?P (put (ex\<lparr>streaming_queue := us\<rparr>) s)" for us
    by (rule all_kept_inv2 [OF all_kept_put inv])
      (use Some sched_inv_id [OF inv Some] in \<open>auto simp: same_kind_def is_finished_def\<close>)
  have sess: "okE (\<lambda>(r', s'). ?P s') (update_request_as_session cfg ex up s)"
    if "status ex = WAITING_FOR_STREAMING_REQ" for up
    using session_kept [OF h inv Some that, of up] all_kept_inv2 [OF _ inv] by (auto simp: okE_def)
  have fin: "okE (\<lambda>(xs, s'). ?P s') (finish_requests env [request_id r] FINISHED_ABORTED s)"
    by (rule finish_requests_inv [OF inv])
  show ?thesis
    unfolding sched_add_request_def Some option.case Let_def
    using put sess fin by (auto simp: res_wp split: option.splits)
qed

lemma update_draft_kept:
  assumes "\<forall>q r. reqs s q = Some r \<longrightarrow> request_id r = q"
  shows "all_state s (update_draft_one env e s)"
proof -
  have "all_state s (put (r\<lparr>spec_token_ids := ts\<rparr>) s)" if "reqs s q = Some r" for q r ts
    by (rule all_state_put [where old = r]) (use assms that in auto)
  then show ?thesis by (auto simp: update_draft_one_def split: prod.splits option.splits)
qed

lemma update_drafts_kept:
  assumes "\<forall>q r. reqs s q = Some r \<longrightarrow> request_id r = q"
  shows "all_state s (fold (update_draft_one env) es s)"
  using assms
proof (induction es arbitrary: s)
  case (Cons e es)
  have a: "all_state s (update_draft_one env e s)" by (rule update_draft_kept [OF Cons.prems])
  show ?case using Cons.IH [OF all_state_ids [OF a Cons.prems]] all_state_trans [OF a] by simp
qed simp

lemma preempt_for_reset_inv:
  assumes inv: "sched_inv s" and q: "running s \<noteq> []" "q = last (running s)"
  shows "okE (\<lambda>s'. sched_inv s' \<and> running s' = butlast (running s)) (preempt_for_reset env q s)"
proof -
  have d: "distinct (running s)" using inv places_distinct by (simp add: sched_inv_def)
  have bl: "butlast (running s) = remove1 q (running s)" using butlast_remove1 [OF d q(1)] q(2) by simp
  have mem: "q \<in> set (running s)" using q by simp
  show ?thesis unfolding preempt_for_reset_def okE_simps
  proof (rule okE_conseq [OF preempt_request_effect], clarify)
    fix t :: "'a scheduler" and r
    assume e: "reqs (s\<lparr>running := butlast (running s)\<rparr>) q = Some r" "status r = RUNNING"
      "reqs t = (reqs (s\<lparr>running := butlast (running s)\<rparr>))(request_id r \<mapsto> preempted r)"
      "running t = running (s\<lparr>running := butlast (running s)\<rparr>)"
      "q_contents (waiting t) = add_mset q (q_contents (waiting (s\<lparr>running := butlast (running s)\<rparr>)))"
      "skipped_waiting t = skipped_waiting (s\<lparr>running := butlast (running s)\<rparr>)"
    have id: "request_id r = q" using sched_inv_id [OF inv] e(1) by simp
    let ?r = "(preempted r)\<lparr>num_output_placeholders := 0, discard_latest_async_tokens := True\<rparr>"
    have k: "request_id ?r = q" "\<not> is_finished ?r" "status ?r \<noteq> RUNNING" using id by (simp_all add: is_finished_def)
    from places_preempt [OF inv [unfolded sched_inv_def] mem k]
    have "sched_inv (put ?r t)" using e k(1) id bl by (simp add: sched_inv_def put_def)
    then show "okE (\<lambda>x. sched_inv (put (x\<lparr>num_output_placeholders := 0, discard_latest_async_tokens := True\<rparr>) t) \<and>
        running (put (x\<lparr>num_output_placeholders := 0, discard_latest_async_tokens := True\<rparr>) t) = butlast (running s))
        (lookup q t)"
      using e id by (simp add: lookup_def)
  qed
qed

lemma preempt_all_inv:
  assumes "sched_inv s"
  shows "okE (\<lambda>s'. sched_inv s' \<and> running s' = []) (foldE (preempt_for_reset env) (rev (running s)) s)"
  using assms
proof (induction "rev (running s)" arbitrary: s)
  case Nil
  then show ?case by simp
next
  case (Cons q qs)
  have run: "running s = rev qs @ [q]" using Cons.hyps(2) by (metis rev_rev_ident rev.simps(2))
  have q: "running s \<noteq> []" "q = last (running s)" using run by simp_all
  show ?case unfolding Cons.hyps(2) [symmetric] foldE.simps okE_simps
  proof (rule okE_conseq [OF preempt_for_reset_inv [OF Cons.prems q]], elim conjE)
    fix t :: "'a scheduler"
    assume t: "sched_inv t" "running t = butlast (running s)"
    have qs: "qs = rev (running t)" using t(2) run by simp
    show "okE (\<lambda>s'. sched_inv s' \<and> running s' = []) (foldE (preempt_for_reset env) qs t)"
      using Cons.hyps(1) [OF qs t(1)] qs by simp
  qed
qed

lemma reset_prefix_inv:
  assumes "sched_inv s"
  shows "okE (\<lambda>(ok, s'). sched_inv s' \<and> length (running s') \<le> length (running s))
           (sched_reset_prefix_cache env reset_running reset_connector s)"
proof -
  let ?Q = "\<lambda>t. sched_inv t \<and> length (running t) \<le> length (running s)"
  have pre: "okE ?Q (if reset_running
            then bindE (foldE (preempt_for_reset env) (rev (running s)) s) (\<lambda>s'. Inr (s'\<lparr>prev_step_scheduled_req_ids := {}\<rparr>))
            else Inr s)"
    using preempt_all_inv [OF assms, of env] assms by (auto simp: okE_def)
  have post: "okE (\<lambda>(ok, s'). ?Q s') (let s2 = t\<lparr>kv := k\<rparr> in
     if reset_running \<and> \<not> ok then Inl RuntimeError
     else if reset_connector
     then let (ok', s3) = reset_connector_cache env s2 in Inr (ok' \<and> ok, s3)
     else Inr (ok, s2))" if "?Q t" for t k ok
    using that by (auto simp: Let_def reset_connector_cache_def split: option.splits prod.splits)
  show ?thesis unfolding sched_reset_prefix_cache_def okE_simps(3)
  proof (rule okE_conseq [OF pre], goal_cases)
    case (1 t)
    have t: "?Q t" by (rule 1(2))
    show ?case by (rule okEI) (simp only: split_paired_all prod.case post [OF t])
  qed
qed

section \<open>Reachable states\<close>

text \<open>
  The operations of the scheduler as the steps of a transition system. A step of the engine is
  \<^verbatim>\<open>Step\<close>, then \<^verbatim>\<open>Output\<close>, with anything in between. Requests arrive in a state in which a front end
  creates them. The ids of an output are the keys of a dictionary. The switch \<^verbatim>\<open>calmly\<close> restricts the
  outputs to calm ones.
\<close>

inductive sched_step ::
  "sched_config \<Rightarrow> 'c sched_env \<Rightarrow> bool \<Rightarrow> 'c scheduler \<Rightarrow> 'c scheduler \<Rightarrow> bool" for cfg env calmly where
  Add: "\<lbrakk>\<not> is_finished r; status r \<noteq> RUNNING; sched_add_request cfg env r s = Inr s'\<rbrakk> \<Longrightarrow>
     sched_step cfg env calmly s s'"
| Step: "schedule cfg env s = Inr (out, s') \<Longrightarrow> sched_step cfg env calmly s s'"
| Drafts: "update_draft_token_ids env ids drafts s = s' \<Longrightarrow> sched_step cfg env calmly s s'"
| Output: "\<lbrakk>distinct (map fst (so_num_scheduled_tokens out)); calmly \<longrightarrow> calm s (map fst (so_num_scheduled_tokens out));
     update_from_output cfg env out mo s = Inr (res, s')\<rbrakk> \<Longrightarrow> sched_step cfg env calmly s s'"
| Finish: "finish_requests env ids st s = Inr (xs, s') \<Longrightarrow> sched_step cfg env calmly s s'"
| Pause: "set_pause_state p s = s' \<Longrightarrow> sched_step cfg env calmly s s'"
| Reset_prefix: "sched_reset_prefix_cache env reset_running reset_connector s = Inr (ok, s') \<Longrightarrow>
     sched_step cfg env calmly s s'"
| Reset_encoder: "reset_encoder_cache s = s' \<Longrightarrow> sched_step cfg env calmly s s'"

inductive sched_reach ::
  "sched_config \<Rightarrow> 'c sched_env \<Rightarrow> bool \<Rightarrow> 'c scheduler \<Rightarrow> 'c scheduler \<Rightarrow> bool" for cfg env calmly start where
  reach_start: "sched_reach cfg env calmly start start"
| reach_step: "sched_reach cfg env calmly start s \<Longrightarrow> sched_step cfg env calmly s s' \<Longrightarrow> sched_reach cfg env calmly start s'"

definition sched_good :: "sched_config \<Rightarrow> 'c scheduler \<Rightarrow> bool" where
  "sched_good cfg s \<longleftrightarrow> sched_inv s \<and> int (length (running s)) \<le> sc_max_num_running_reqs cfg"

lemma sched_good_step:
  assumes cfg: "hasher_ok cfg" "0 < sc_cache_block_size cfg"
    and good: "sched_good cfg s" and step: "sched_step cfg env True s s'"
  shows "sched_good cfg s'"
proof -
  have inv: "sched_inv s" and len: "int (length (running s)) \<le> sc_max_num_running_reqs cfg"
    using good by (simp_all add: sched_good_def)
  have fewer: "sched_good cfg s'" if "sched_inv s' \<and> length (running s') \<le> length (running s)"
    using that len by (simp add: sched_good_def)
  from step show ?thesis
  proof cases
    case (Add r)
    show ?thesis by (rule fewer) (rule okED [OF add_request_inv [OF cfg(1) inv Add(1,2)] Add(3)])
  next
    case (Step out)
    have "step_ready cfg False s" using inv len cfg(2) by (simp add: step_ready_def)
    from schedule_effect [OF this Step] show ?thesis by (simp add: sched_good_def)
  next
    case (Drafts ids drafts)
    have ids: "\<forall>q r. reqs s q = Some r \<longrightarrow> request_id r = q" using sched_inv_id [OF inv] by blast
    show ?thesis
      by (rule fewer, rule all_kept_inv2 [OF all_state_kept inv])
        (use Drafts update_drafts_kept [OF ids] in \<open>auto simp: update_draft_token_ids_def\<close>)
  next
    case (Output out mo res)
    show ?thesis by (rule fewer) (use okED [OF update_from_output_inv [OF cfg(1) inv Output(1) Output(2) [THEN mp, OF TrueI]] Output(3)] in simp)
  next
    case (Finish ids st xs)
    show ?thesis by (rule fewer) (use okED [OF finish_requests_inv [OF inv] Finish] in simp)
  next
    case (Pause p)
    then show ?thesis using good by (auto simp: sched_good_def set_pause_state_def)
  next
    case (Reset_prefix reset_running reset_connector ok)
    show ?thesis by (rule fewer) (use okED [OF reset_prefix_inv [OF inv] Reset_prefix] in simp)
  next
    case Reset_encoder
    then show ?thesis using good by (auto simp: sched_good_def reset_encoder_cache_def)
  qed
qed

lemma init_good: "0 \<le> sc_max_num_running_reqs cfg \<Longrightarrow> sched_good cfg (init_scheduler cfg k n f c)"
  by (cases "sc_policy cfg")
    (simp_all add: sched_good_def sched_inv_def places_def placed_def init_scheduler_def)

lemma sched_reach_good:
  assumes "sched_reach cfg env True start s" "hasher_ok cfg" "0 < sc_cache_block_size cfg" "sched_good cfg start"
  shows "sched_good cfg s"
  using assms by (induction rule: sched_reach.induct) (auto intro: sched_good_step)

text \<open>C1 (no_request_lost): Whatever additions, steps, model outputs, drafts, aborts, pauses and resets a scheduler goes
  through, in any order, as long as each output is calm when it is processed (a request of it that was
  preempted meanwhile is in the main waiting queue, not in the queue of those put aside, and is not a
  resumable session): every request it knows has exactly one place. A running request is once in the
  running list and in no queue, an unfinished one that is not running is once in exactly one of the two
  waiting queues, a finished one and an unknown id are nowhere; and never more requests run than allowed.
  Without the condition the code breaks this, see \<^verbatim>\<open>stopped_request_stays_queued\<close>.\<close>

theorem no_request_lost:
  assumes "sched_reach cfg env True (init_scheduler cfg k enc_size include c) s"
    "sc_block_hasher cfg = None \<or> sc_block_hasher cfg = Some (request_block_hasher bs H n digest)"
    "0 < sc_cache_block_size cfg" "0 \<le> sc_max_num_running_reqs cfg"
  shows "(case reqs s q of
      None \<Rightarrow> q \<notin> set (running s) \<and> q \<notin># q_contents (waiting s) \<and> q \<notin># q_contents (skipped_waiting s)
    | Some r \<Rightarrow> request_id r = q \<and>
        count (mset (running s)) q = (if \<not> is_finished r \<and> status r = RUNNING then 1 else 0) \<and>
        count (q_contents (waiting s)) q + count (q_contents (skipped_waiting s)) q =
          (if \<not> is_finished r \<and> status r \<noteq> RUNNING then 1 else 0)) \<and>
    int (length (running s)) \<le> sc_max_num_running_reqs cfg"
proof -
  have "sched_good cfg s"
    using sched_reach_good [OF assms(1) block_hasher_ok [OF assms(2)] assms(3) init_good [OF assms(4)]] .
  then have inv: "sched_inv s" and len: "int (length (running s)) \<le> sc_max_num_running_reqs cfg"
    by (simp_all add: sched_good_def)
  have pl: "placed (reqs s q) (count (mset (running s)) q) (count (q_contents (waiting s) + q_contents (skipped_waiting s)) q)"
    using inv places_at unfolding sched_inv_def by blast
  show ?thesis
  proof (cases "reqs s q")
    case None
    then show ?thesis using pl len
      by (simp add: placed_def count_eq_zero_iff)
  next
    case (Some r)
    then show ?thesis using pl len sched_inv_id [OF inv Some] by (auto simp: placed_def split: if_splits)
  qed
qed

section \<open>A small run\<close>

definition sample_model_output :: model_runner_output where
  "sample_model_output =
     \<lparr>mo_req_id_to_index = [''a'' \<mapsto> 0], mo_sampled_token_ids = [[7]], mo_pooler_output = [],
      mo_num_nans_in_logits = Map.empty, mo_kv_connector_output = None\<rparr>"

definition sample_run ::
  "(scheduler_output \<times> unit scheduler \<times> unit scheduler \<times> unit scheduler) res" where
  "sample_run =
     bindE sample_step (\<lambda>(out, s1).
     bindE (update_from_output sample_sched_config sample_env out sample_model_output s1) (\<lambda>(_, s2).
     bindE (finish_requests sample_env [''a''] FINISHED_ABORTED s2) (\<lambda>(_, s3). Inr (out, s1, s2, s3))))"

lemma sample_run_result:
  "(case sample_run of
      Inr (out, s1, s2, s3) \<Rightarrow>
        Inr (map fst (so_num_scheduled_tokens out), map_option status (reqs s1 ''a''),
             running s2, map_option all_token_ids (reqs s2 ''a''), map_option status (reqs s3 ''a''), running s3)
    | Inl e \<Rightarrow> Inl e) =
   Inr ([''a''], Some RUNNING, [''a''], Some [4, 5, 6, 7], None, [])"
  by code_simp

lemma sample_reach_step:
  assumes "sched_add_request sample_sched_config sample_env sample_request (sample_sched k) = Inr s"
    "schedule sample_sched_config sample_env s = Inr (out, s1)"
  shows "sched_reach sample_sched_config sample_env True
           (init_scheduler sample_sched_config k 0 False ()) s1"
  using reach_step [OF reach_step [OF reach_start Add] Step, OF _ _ assms(1) [unfolded sample_sched_def] assms(2)]
  by (simp add: sample_request_def plain_request_def is_finished_def)

theorem no_request_lost_witness:
  "\<exists>k s1 s2 s3.
     sched_reach sample_sched_config sample_env True (init_scheduler sample_sched_config k 0 False ()) s3 \<and>
     map_option status (reqs s1 ''a'') = Some RUNNING \<and> map_option all_token_ids (reqs s2 ''a'') = Some [4, 5, 6, 7] \<and>
     sched_step sample_sched_config sample_env True s1 s2 \<and> sched_step sample_sched_config sample_env True s2 s3 \<and>
     reqs s3 ''a'' = None \<and> ''a'' \<notin># q_contents (waiting s3)"
proof -
  obtain k s out s1 r2 s2 x3 s3 where
    p: "sched_add_request sample_sched_config sample_env sample_request (sample_sched k) = Inr s"
      "schedule sample_sched_config sample_env s = Inr (out, s1)"
      "update_from_output sample_sched_config sample_env out sample_model_output s1 = Inr (r2, s2)"
      "finish_requests sample_env [''a''] FINISHED_ABORTED s2 = Inr (x3, s3)"
    and v: "map fst (so_num_scheduled_tokens out) = [''a'']" "map_option status (reqs s1 ''a'') = Some RUNNING"
      "map_option all_token_ids (reqs s2 ''a'') = Some [4, 5, 6, 7]" "map_option status (reqs s3 ''a'') = None"
    using sample_run_result by (auto simp: sample_run_def sample_step_def bindE_def split: sum.splits prod.splits)
  have out: "sched_step sample_sched_config sample_env True s1 s2"
    by (rule Output [OF _ _ p(3)]) (use v(1,2) in \<open>auto simp: calm_def\<close>)
  have fin: "sched_step sample_sched_config sample_env True s2 s3" by (rule Finish [OF p(4)])
  note r3 = reach_step [OF reach_step [OF sample_reach_step [OF p(1,2)] out] fin]
  have "0 < sc_cache_block_size sample_sched_config" "0 \<le> sc_max_num_running_reqs sample_sched_config"
    "sc_block_hasher sample_sched_config = None" by (simp_all add: sample_sched_config_def)
  from no_request_lost [OF r3 disjI1 [OF this(3)] this(1,2), of "''a''"] v(4)
  have "reqs s3 ''a'' = None" "''a'' \<notin># q_contents (waiting s3)" by auto
  then show ?thesis using r3 out fin v(2,3) by blast
qed

section \<open>A request that ended stays in a queue\<close>

text \<open>A connector that knows at once that it has nothing for a request, and when it is asked again needs
  more time.\<close>

definition undecided_connector :: "bool connector" where
  "undecided_connector =
     \<lparr>cn_get_num_new_matched_tokens = (\<lambda>asked r n. ((if asked then None else Some 0, False), True)),
      cn_update_state_after_alloc = (\<lambda>c _ _ _. c), cn_request_finished = (\<lambda>c _ _. (False, c)),
      cn_supports_hma = True, cn_build_connector_meta = (\<lambda>c. c), cn_update_connector_output = (\<lambda>c. c),
      cn_reset_cache = (\<lambda>c. (True, c))\<rparr>"

definition undecided_env :: "bool sched_env" where
  "undecided_env =
     \<lparr>en_connector = Some undecided_connector, en_ec_has_cache_item = None,
      en_ec_update_state_after_alloc = (\<lambda>c _ _. c), en_grammar_ready = (\<lambda>_ _. False),
      en_should_advance = (\<lambda>_ _. False), en_validate_tokens = (\<lambda>_ _ ts. ts),
      en_order = (\<lambda>_. []), en_req_order = (\<lambda>_. [])\<rparr>"

definition late_init :: "kv_manager res" where
  "late_init = init_kv_manager (sample_config\<lparr>num_blocks := 2\<rparr>) 16 2 False False False False 1 1 (None, False, \<lambda>_. [])"

text \<open>A request for one token is scheduled and preempted by a reset of the prefix cache, the next step puts it
  aside because of the connector, and then the output of the first step arrives with its last token.\<close>

definition late_run :: "(bool scheduler \<times> bool scheduler \<times> scheduler_output) res" where
  "late_run =
     bindE late_init (\<lambda>k.
     bindE (sched_add_request sample_sched_config undecided_env (plain_request ''a'' [4] 1)
              (init_scheduler sample_sched_config k 0 False False)) (\<lambda>s.
     bindE (schedule sample_sched_config undecided_env s) (\<lambda>(out, s1).
     bindE (sched_reset_prefix_cache undecided_env True False s1) (\<lambda>(_, s2).
     bindE (schedule sample_sched_config undecided_env s2) (\<lambda>(_, s3).
     bindE (update_from_output sample_sched_config undecided_env out sample_model_output s3) (\<lambda>(_, s4).
     Inr (s3, s4, out)))))))"

lemma late_run_result:
  "(case late_run of
      Inl e \<Rightarrow> Inl e
    | Inr (s3, s4, out) \<Rightarrow>
        Inr (map_option status (reqs s3 ''a''), skipped_waiting s3, map_option status (reqs s4 ''a''),
             skipped_waiting s4, map fst (so_num_scheduled_tokens out))) =
   Inr (Some PREEMPTED, FCFSRequestQueue [''a''], None, FCFSRequestQueue [''a''], [''a''])"
  by code_simp

text \<open>C32 (stopped_request_stays_queued): There is a run of the scheduler, with any output allowed, in which the output
  of an earlier step stops a request that was preempted and put aside meanwhile. The request is freed
  and no longer known, but its entry stays in the queue of the requests put aside.\<close>

theorem stopped_request_stays_queued:
  "\<exists>k s3 out s4 res. late_init = Inr k \<and>
     sched_reach sample_sched_config undecided_env False (init_scheduler sample_sched_config k 0 False False) s3 \<and>
     map_option status (reqs s3 ''a'') = Some PREEMPTED \<and> ''a'' \<in># q_contents (skipped_waiting s3) \<and>
     update_from_output sample_sched_config undecided_env out sample_model_output s3 = Inr (res, s4) \<and>
     sched_reach sample_sched_config undecided_env False (init_scheduler sample_sched_config k 0 False False) s4 \<and>
     reqs s4 ''a'' = None \<and> ''a'' \<in># q_contents (skipped_waiting s4)"
proof -
  obtain k s out s1 ok s2 out2 s3 res s4 where
    p: "late_init = Inr k"
      "sched_add_request sample_sched_config undecided_env (plain_request ''a'' [4] 1)
         (init_scheduler sample_sched_config k 0 False False) = Inr s"
      "schedule sample_sched_config undecided_env s = Inr (out, s1)"
      "sched_reset_prefix_cache undecided_env True False s1 = Inr (ok, s2)"
      "schedule sample_sched_config undecided_env s2 = Inr (out2, s3)"
      "update_from_output sample_sched_config undecided_env out sample_model_output s3 = Inr (res, s4)"
    and v: "map_option status (reqs s3 ''a'') = Some PREEMPTED" "skipped_waiting s3 = FCFSRequestQueue [''a'']"
      "map_option status (reqs s4 ''a'') = None" "skipped_waiting s4 = FCFSRequestQueue [''a'']"
      "map fst (so_num_scheduled_tokens out) = [''a'']"
    using late_run_result by (auto simp: late_run_def bindE_def split: sum.splits prod.splits)
  have "\<not> is_finished (plain_request ''a'' [4] 1)" "status (plain_request ''a'' [4] 1) \<noteq> RUNNING"
    by (simp_all add: plain_request_def is_finished_def)
  note r1 = reach_step [OF reach_start Add [OF this p(2), of False]]
  note r3 = reach_step [OF reach_step [OF reach_step [OF r1 Step [OF p(3)]] Reset_prefix [OF p(4)]] Step [OF p(5)]]
  have "sched_step sample_sched_config undecided_env False s3 s4"
    by (rule Output [OF _ _ p(6)]) (simp_all add: v(5))
  from reach_step [OF r3 this] show ?thesis using p(1,6) r3 v by (intro exI conjI) (assumption | simp)+
qed

end
