(* ===== verification/Offload_Policy.thy ===== *)
theory Offload_Policy
  imports Prelude Complex_Main
begin

text \<open>
  The cache policies of the CPU offloading manager (src/vllm/v1/kv_offload/cpu/policies): Python's
  ordered dictionaries, the least-recently-used policy, the adaptive replacement policy, and the
  contract both satisfy as a locale. A block object is shared by nothing outside the policy, so a change
  of its reference count is a change of the entry that holds it.
\<close>

section \<open>Ordered dictionaries\<close>

type_synonym 'v odict = "(bytes \<times> 'v) list"

definition od_get :: "'v odict \<Rightarrow> bytes \<Rightarrow> 'v option" where
  "od_get d k = map_of d k"

definition od_has :: "bytes \<Rightarrow> 'v odict \<Rightarrow> bool" where
  "od_has k d \<longleftrightarrow> k \<in> set (map fst d)"

definition od_del :: "bytes \<Rightarrow> 'v odict \<Rightarrow> 'v odict" where
  "od_del k d = filter (\<lambda>e. fst e \<noteq> k) d"

text \<open>Assignment keeps the position of a key that is present.\<close>

definition od_set :: "bytes \<Rightarrow> 'v \<Rightarrow> 'v odict \<Rightarrow> 'v odict" where
  "od_set k v d =
     (if od_has k d then map (\<lambda>e. if fst e = k then (k, v) else e) d else d @ [(k, v)])"

definition od_move_to_end :: "bytes \<Rightarrow> 'v odict \<Rightarrow> 'v odict" where
  "od_move_to_end k d = filter (\<lambda>e. fst e \<noteq> k) d @ filter (\<lambda>e. fst e = k) d"

lemma od_get_simps [simp]:
  "od_get [] k = None" "od_get (e # d) k = (if fst e = k then Some (snd e) else od_get d k)"
  by (simp_all add: od_get_def)

lemma od_get_append: "od_get (xs @ ys) k = (case od_get xs k of None \<Rightarrow> od_get ys k | Some v \<Rightarrow> Some v)"
  by (simp add: od_get_def map_add_def split: option.splits)

lemma od_has_iff: "od_has k d \<longleftrightarrow> (\<exists>v. od_get d k = Some v)"
  by (induction d) (auto simp: od_has_def)

lemma od_get_None: "od_get d k = None \<longleftrightarrow> \<not> od_has k d"
  by (cases "od_get d k") (auto simp: od_has_iff)

lemma od_get_del [simp]: "od_get (od_del k d) x = (if x = k then None else od_get d x)"
  by (induction d) (auto simp: od_del_def)

lemma od_keys_del [simp]: "set (map fst (od_del k d)) = set (map fst d) - {k}"
  by (auto simp: od_del_def)

lemma od_distinct_del: "distinct (map fst d) \<Longrightarrow> distinct (map fst (od_del k d))"
  by (simp add: od_del_def distinct_map_filter)

lemma od_keys_map: "map fst (map (\<lambda>e. if fst e = k then (k, v) else e) d) = map fst d"
  by (induction d) auto

lemma od_get_set [simp]: "od_get (od_set k v d) x = (if x = k then Some v else od_get d x)"
proof (cases "od_has k d")
  case True
  have "od_get (map (\<lambda>e. if fst e = k then (k, v) else e) d) x =
      (if x = k then (if od_has k d then Some v else None) else od_get d x)"
    by (induction d) (force simp: od_has_def)+
  then show ?thesis using True by (simp add: od_set_def)
next
  case False
  then have "od_get d k = None" by (simp add: od_get_None)
  then show ?thesis using False by (auto simp: od_set_def od_get_append split: option.splits)
qed

lemma od_keys_set [simp]: "set (map fst (od_set k v d)) = insert k (set (map fst d))"
proof (cases "od_has k d")
  case True
  then have "map fst (od_set k v d) = map fst d" by (simp only: od_set_def if_True od_keys_map)
  then show ?thesis using True by (auto simp: od_has_def simp del: set_map)
qed (simp add: od_set_def)

lemma od_distinct_set: "distinct (map fst d) \<Longrightarrow> distinct (map fst (od_set k v d))"
  by (cases "od_has k d") (simp_all only: od_set_def if_True if_False od_keys_map, simp add: od_has_def)

lemma od_get_move [simp]: "od_get (od_move_to_end k d) x = od_get d x"
proof -
  have "od_get (filter (\<lambda>e. fst e \<noteq> k) d) x = (if x = k then None else od_get d x)"
    "od_get (filter (\<lambda>e. fst e = k) d) x = (if x = k then od_get d x else None)"
    by (induction d) auto
  then show ?thesis by (auto simp: od_move_to_end_def od_get_append split: option.splits)
qed

lemma od_keys_move [simp]: "set (map fst (od_move_to_end k d)) = set (map fst d)"
  by (auto simp: od_move_to_end_def)

lemma od_distinct_move: "distinct (map fst d) \<Longrightarrow> distinct (map fst (od_move_to_end k d))"
  by (auto simp: od_move_to_end_def distinct_map_filter)

lemma od_entry: "distinct (map fst d) \<Longrightarrow> (k, v) \<in> set d \<longleftrightarrow> od_get d k = Some v"
  by (simp add: od_get_def)

section \<open>Blocks\<close>

text \<open>The reference count is a C integer of 32 bits; minus one marks a block that is being written.\<close>

record block_status =
  bs_ref_cnt :: "32 word"
  bs_block_id :: int

definition new_block_status :: "int \<Rightarrow> block_status" where
  "new_block_status i = \<lparr>bs_ref_cnt = -1, bs_block_id = i\<rparr>"

definition is_ready :: "block_status \<Rightarrow> bool" where
  "is_ready b \<longleftrightarrow> 0 \<le> sint (bs_ref_cnt b)"

lemma new_block_status_simps [simp]:
  "\<not> is_ready (new_block_status i)" "bs_block_id (new_block_status i) = i" "bs_ref_cnt (new_block_status i) \<noteq> 0"
  by (simp_all add: new_block_status_def is_ready_def)

definition evictable :: "bytes set \<Rightarrow> bytes \<times> block_status \<Rightarrow> bool" where
  "evictable prot e \<longleftrightarrow> bs_ref_cnt (snd e) = 0 \<and> fst e \<notin> prot"

section \<open>The contract of a policy\<close>

locale offload_policy =
  fixes get :: "'p \<Rightarrow> bytes \<Rightarrow> block_status option"
    and ins :: "bytes \<Rightarrow> block_status \<Rightarrow> 'p \<Rightarrow> 'p"
    and rem :: "bytes \<Rightarrow> 'p \<Rightarrow> 'p res"
    and touch :: "bytes list \<Rightarrow> 'p \<Rightarrow> 'p"
    and upd :: "bytes \<Rightarrow> block_status \<Rightarrow> 'p \<Rightarrow> 'p"
    and evict :: "int \<Rightarrow> bytes set \<Rightarrow> 'p \<Rightarrow> ((bytes \<times> block_status) list \<times> 'p) option res"
    and ok :: "'p \<Rightarrow> bool"
  assumes ins_ok: "ok p \<Longrightarrow> get p h = None \<Longrightarrow> ok (ins h b p)"
    and get_ins: "ok p \<Longrightarrow> get p h = None \<Longrightarrow> get (ins h b p) = (get p)(h \<mapsto> b)"
    and rem_ok: "ok p \<Longrightarrow> get p h = Some b \<Longrightarrow> \<exists>p'. rem h p = Inr p' \<and> ok p' \<and> get p' = (get p)(h := None)"
    and touch_ok: "ok p \<Longrightarrow> ok (touch hs p)"
    and get_touch: "ok p \<Longrightarrow> get (touch hs p) = get p"
    and upd_ok: "ok p \<Longrightarrow> get p h = Some b \<Longrightarrow> ok (upd h b' p)"
    and get_upd: "ok p \<Longrightarrow> get p h = Some b \<Longrightarrow> get (upd h b' p) = (get p)(h \<mapsto> b')"
    and evict_total: "ok p \<Longrightarrow> 0 < n \<Longrightarrow> \<exists>r. evict n prot p = Inr r"
    and evict_some: "ok p \<Longrightarrow> 0 < n \<Longrightarrow> evict n prot p = Inr (Some (vs, p')) \<Longrightarrow>
      ok p' \<and> int (length vs) = n \<and> distinct (map fst vs) \<and>
      (\<forall>e \<in> set vs. get p (fst e) = Some (snd e) \<and> evictable prot e) \<and>
      get p' = (\<lambda>h. if h \<in> set (map fst vs) then None else get p h)"
begin

text \<open>A block in use or protected survives an eviction.\<close>

lemma evict_keeps:
  assumes "ok p" "0 < n" "evict n prot p = Inr (Some (vs, p'))" "get p h = Some b" "bs_ref_cnt b \<noteq> 0 \<or> h \<in> prot"
  shows "get p' h = Some b"
proof -
  note e = evict_some [OF assms(1-3)]
  have "h \<notin> set (map fst vs)" using e assms(4,5) by (auto simp: evictable_def)
  then show ?thesis using e assms(4) by simp
qed

text \<open>Inserting the new blocks of a store.\<close>

lemma insert_all:
  assumes "ok p" "distinct hs" "\<forall>h \<in> set hs. get p h = None" "length bs = length hs"
  shows "ok (fold (\<lambda>(h, b). ins h b) (zip hs bs) p) \<and>
    get (fold (\<lambda>(h, b). ins h b) (zip hs bs) p) =
      (\<lambda>h. case map_of (zip hs bs) h of None \<Rightarrow> get p h | Some b \<Rightarrow> Some b)"
  using assms
proof (induction hs arbitrary: bs p)
  case (Cons h hs)
  obtain b bs' where bs: "bs = b # bs'" using Cons.prems(4) by (cases bs) auto
  let ?p = "ins h b p"
  have g: "get ?p = (get p)(h \<mapsto> b)" using Cons.prems by (intro get_ins) auto
  have I: "ok (fold (\<lambda>(h, b). ins h b) (zip hs bs') ?p) \<and>
    get (fold (\<lambda>(h, b). ins h b) (zip hs bs') ?p) =
      (\<lambda>h. case map_of (zip hs bs') h of None \<Rightarrow> get ?p h | Some b \<Rightarrow> Some b)"
    by (rule Cons.IH) (use Cons.prems ins_ok g in \<open>auto simp: bs\<close>)
  have "map_of (zip hs bs') h = None" using Cons.prems by (auto simp: map_of_eq_None_iff dest: set_zip_leftD)
  then show ?case using I g by (auto simp: bs fun_eq_iff split: option.splits)
qed simp

end

text \<open>A policy that refuses only when there are too few candidates.\<close>

locale exact_policy = offload_policy +
  assumes evict_none: "ok p \<Longrightarrow> 0 < n \<Longrightarrow> evict n prot p = Inr None \<Longrightarrow>
    int (card {h. \<exists>b. get p h = Some b \<and> evictable prot (h, b)}) < n"
    and get_finite: "finite {h. get p h \<noteq> None}"
begin

lemma evict_iff:
  assumes "ok p" "0 < n"
  shows "(\<exists>x. evict n prot p = Inr (Some x)) \<longleftrightarrow> n \<le> int (card {h. \<exists>b. get p h = Some b \<and> evictable prot (h, b)})"
    (is "_ \<longleftrightarrow> n \<le> int (card ?E)")
proof
  assume "\<exists>x. evict n prot p = Inr (Some x)"
  then obtain vs p' where e: "evict n prot p = Inr (Some (vs, p'))" by auto
  note s = evict_some [OF assms e]
  have "set (map fst vs) \<subseteq> ?E" using s by force
  moreover have "finite ?E" by (rule finite_subset [OF _ get_finite [of p]]) auto
  ultimately have "card (set (map fst vs)) \<le> card ?E" by (rule card_mono [rotated])
  then show "n \<le> int (card ?E)" using s distinct_card [of "map fst vs"] by simp
next
  assume n: "n \<le> int (card ?E)"
  obtain r where r: "evict n prot p = Inr r" using evict_total [OF assms] by blast
  then show "\<exists>x. evict n prot p = Inr (Some x)" using evict_none [OF assms] n by (cases r) force+
qed

end

section \<open>Least recently used\<close>

record lru_policy =
  lru_blocks :: "block_status odict"

definition init_lru :: "int \<Rightarrow> lru_policy" where
  "init_lru cache_capacity = \<lparr>lru_blocks = []\<rparr>"

definition lru_get :: "lru_policy \<Rightarrow> bytes \<Rightarrow> block_status option" where
  "lru_get p h = od_get (lru_blocks p) h"

definition lru_insert :: "bytes \<Rightarrow> block_status \<Rightarrow> lru_policy \<Rightarrow> lru_policy" where
  "lru_insert h b p = p\<lparr>lru_blocks := od_set h b (lru_blocks p)\<rparr>"

definition lru_remove :: "bytes \<Rightarrow> lru_policy \<Rightarrow> lru_policy res" where
  "lru_remove h p =
     (if od_has h (lru_blocks p) then Inr (p\<lparr>lru_blocks := od_del h (lru_blocks p)\<rparr>) else Inl KeyError)"

definition lru_touch_one :: "bytes \<Rightarrow> lru_policy \<Rightarrow> lru_policy" where
  "lru_touch_one h p =
     (if od_has h (lru_blocks p) then p\<lparr>lru_blocks := od_move_to_end h (lru_blocks p)\<rparr> else p)"

definition lru_touch :: "bytes list \<Rightarrow> lru_policy \<Rightarrow> lru_policy" where
  "lru_touch hs p = fold lru_touch_one (rev hs) p"

text \<open>Setting the reference count of a block object.\<close>

definition lru_update :: "bytes \<Rightarrow> block_status \<Rightarrow> lru_policy \<Rightarrow> lru_policy" where
  "lru_update h b p = p\<lparr>lru_blocks := od_set h b (lru_blocks p)\<rparr>"

fun lru_scan ::
  "int \<Rightarrow> bytes set \<Rightarrow> (bytes \<times> block_status) list \<Rightarrow> (bytes \<times> block_status) list \<Rightarrow> (bytes \<times> block_status) list" where
  "lru_scan n prot [] cs = cs"
| "lru_scan n prot (e # es) cs =
     (if evictable prot e
      then if int (length (cs @ [e])) = n then cs @ [e] else lru_scan n prot es (cs @ [e])
      else lru_scan n prot es cs)"

definition lru_evict ::
  "int \<Rightarrow> bytes set \<Rightarrow> lru_policy \<Rightarrow> ((bytes \<times> block_status) list \<times> lru_policy) option res" where
  "lru_evict n prot p =
     (if n = 0 then Inr (Some ([], p))
      else
        let cs = lru_scan n prot (lru_blocks p) [] in
        if int (length cs) < n then Inr None
        else Inr (Some (cs, p\<lparr>lru_blocks := fold (\<lambda>e. od_del (fst e)) cs (lru_blocks p)\<rparr>)))"

definition lru_ok :: "lru_policy \<Rightarrow> bool" where
  "lru_ok p \<longleftrightarrow> distinct (map fst (lru_blocks p))"

lemma lru_touch_effect: "lru_get (lru_touch hs p) = lru_get p \<and> (lru_ok p \<longrightarrow> lru_ok (lru_touch hs p))"
proof -
  have one: "lru_get (lru_touch_one h p) = lru_get p \<and> (lru_ok p \<longrightarrow> lru_ok (lru_touch_one h p))" for h p
    by (auto simp: lru_touch_one_def lru_get_def lru_ok_def fun_eq_iff od_distinct_move)
  have "lru_get (fold lru_touch_one xs p) = lru_get p \<and> (lru_ok p \<longrightarrow> lru_ok (fold lru_touch_one xs p))" for xs p
    using one by (induction xs arbitrary: p) auto
  then show ?thesis by (simp add: lru_touch_def)
qed

text \<open>The scan takes the first candidates, all of them if there are too few.\<close>

lemma lru_scan_take:
  "int (length cs) < n \<Longrightarrow>
   lru_scan n prot es cs = cs @ take (nat (n - int (length cs))) (filter (evictable prot) es)"
proof (induction es arbitrary: cs)
  case (Cons e es)
  show ?case
  proof (cases "evictable prot e \<and> int (length cs) + 1 < n")
    case True
    then have "nat (n - int (length cs)) = Suc (nat (n - int (length (cs @ [e]))))" by (simp, arith)
    then show ?thesis using True Cons.IH [of "cs @ [e]"] by simp
  next
    case False
    then show ?thesis using Cons by (auto simp: le_less)
  qed
qed simp

lemma od_del_many:
  "od_get (fold (\<lambda>e. od_del (fst e)) cs d) h = (if h \<in> set (map fst cs) then None else od_get d h)"
  "distinct (map fst d) \<Longrightarrow> distinct (map fst (fold (\<lambda>e. od_del (fst e)) cs d))"
  by (induction cs arbitrary: d) (auto intro: od_distinct_del)

lemma od_candidates:
  assumes "distinct (map fst d)"
  shows "length (filter (evictable prot) d) = card {h. \<exists>b. od_get d h = Some b \<and> evictable prot (h, b)}"
proof -
  have "{h. \<exists>b. od_get d h = Some b \<and> evictable prot (h, b)} = set (map fst (filter (evictable prot) d))"
    by (force simp: od_entry [OF assms, symmetric])
  then show ?thesis
    using distinct_card [of "map fst (filter (evictable prot) d)"] assms by (simp add: distinct_map_filter)
qed

lemma lru_evict_effect:
  assumes "lru_ok p" "0 < n"
  shows "lru_evict n prot p =
    (let es = filter (evictable prot) (lru_blocks p); vs = take (nat n) es in
     Inr (if int (length es) < n then None
          else Some (vs, p\<lparr>lru_blocks := fold (\<lambda>e. od_del (fst e)) vs (lru_blocks p)\<rparr>)))"
  using assms by (auto simp: lru_evict_def Let_def lru_scan_take)

interpretation lru: exact_policy lru_get lru_insert lru_remove lru_touch lru_update lru_evict lru_ok
proof
  fix p :: lru_policy and h b b' and n :: int and prot vs p' hs
  assume p: "lru_ok p"
  show "lru_ok (lru_insert h b p)" using p by (simp add: lru_ok_def lru_insert_def od_distinct_set)
  show "lru_get (lru_insert h b p) = (lru_get p)(h \<mapsto> b)" by (auto simp: lru_get_def lru_insert_def fun_eq_iff)
  show "\<exists>p'. lru_remove h p = Inr p' \<and> lru_ok p' \<and> lru_get p' = (lru_get p)(h := None)" if "lru_get p h = Some b"
    using p that by (auto simp: lru_remove_def lru_get_def lru_ok_def od_has_iff fun_eq_iff od_distinct_del)
  show "lru_ok (lru_touch hs p)" using p lru_touch_effect by blast
  show "lru_get (lru_touch hs p) = lru_get p" using lru_touch_effect by blast
  show "lru_ok (lru_update h b' p)" using p by (simp add: lru_ok_def lru_update_def od_distinct_set)
  show "lru_get (lru_update h b' p) = (lru_get p)(h \<mapsto> b')" by (auto simp: lru_get_def lru_update_def fun_eq_iff)
  assume n: "0 < n"
  show "\<exists>r. lru_evict n prot p = Inr r" using lru_evict_effect [OF p n] by (simp add: Let_def)
  show "int (card {h. \<exists>b. lru_get p h = Some b \<and> evictable prot (h, b)}) < n" if "lru_evict n prot p = Inr None"
    using that lru_evict_effect [OF p n, of prot] od_candidates [of "lru_blocks p" prot] p
    by (simp add: Let_def lru_get_def lru_ok_def split: if_splits)
  assume e: "lru_evict n prot p = Inr (Some (vs, p'))"
  let ?es = "filter (evictable prot) (lru_blocks p)"
  have len: "n \<le> int (length ?es)" and vs: "vs = take (nat n) ?es"
    and p': "p' = p\<lparr>lru_blocks := fold (\<lambda>e. od_del (fst e)) vs (lru_blocks p)\<rparr>"
    using e lru_evict_effect [OF p n, of prot] by (auto simp: Let_def split: if_splits)
  have d: "distinct (map fst (lru_blocks p))" using p by (simp add: lru_ok_def)
  have "set vs \<subseteq> set ?es" unfolding vs by (rule set_take_subset)
  then have mem: "\<forall>e \<in> set vs. lru_get p (fst e) = Some (snd e) \<and> evictable prot e"
    by (auto simp: lru_get_def od_entry [OF d, symmetric])
  have "distinct (map fst vs)" using d by (simp add: vs take_map [symmetric] distinct_map_filter)
  moreover have "lru_ok p'" by (simp add: lru_ok_def p' od_del_many(2) [OF d])
  moreover have "int (length vs) = n" using len n by (simp add: vs)
  moreover have "lru_get p' = (\<lambda>h. if h \<in> set (map fst vs) then None else lru_get p h)"
    by (rule ext) (simp add: p' lru_get_def od_del_many(1))
  ultimately show "lru_ok p' \<and> int (length vs) = n \<and> distinct (map fst vs) \<and>
      (\<forall>e \<in> set vs. lru_get p (fst e) = Some (snd e) \<and> evictable prot e) \<and>
      lru_get p' = (\<lambda>h. if h \<in> set (map fst vs) then None else lru_get p h)"
    using mem by blast
next
  show "finite {h. lru_get p h \<noteq> None}" for p
    using finite_dom_map_of [of "lru_blocks p"] by (simp add: lru_get_def od_get_def dom_def)
qed

end
