(* ===== verification/Offload_Arc.thy ===== *)
theory Offload_Arc
  imports Offload_Policy
begin

text \<open>
  The adaptive replacement policy (src/vllm/v1/kv_offload/cpu/policies/arc.py): recent and frequent
  blocks, the ghost lists of what was evicted from either, and a target size of the recent part that
  ghost hits move. The target is a float; Python's float operations are exact rational operations
  followed by rounding to 53 significant bits, half to even.
\<close>

section \<open>Floats\<close>

fun num_bits :: "nat \<Rightarrow> nat" where
  "num_bits n = (if n = 0 then 0 else Suc (num_bits (n div 2)))"

declare num_bits.simps [simp del]

definition pow2 :: "int \<Rightarrow> rat" where
  "pow2 e = (if 0 \<le> e then 2 ^ nat e else 1 / 2 ^ nat (- e))"

definition round_half_even :: "rat \<Rightarrow> int" where
  "round_half_even m =
     (let f = \<lfloor>m\<rfloor>; d = m - of_int f in
      if d < 1 / 2 then f else if 1 / 2 < d then f + 1 else if even f then f else f + 1)"

text \<open>The numbers here are sizes and ratios of sizes, far from the ends of the exponent range.\<close>

definition to_float :: "rat \<Rightarrow> rat" where
  "to_float x =
     (if x = 0 then 0
      else
        let (a, d) = quotient_of \<bar>x\<bar>;
            e0 = int (num_bits (nat a)) - int (num_bits (nat d)) - 53;
            e = (if \<bar>x\<bar> / pow2 e0 < 2 ^ 53 then e0 else e0 + 1)
        in sgn x * of_int (round_half_even (\<bar>x\<bar> / pow2 e)) * pow2 e)"

definition py_int_of :: "rat \<Rightarrow> int" where
  "py_int_of x = (if x < 0 then \<lceil>x\<rceil> else \<lfloor>x\<rfloor>)"

lemma pow2_pos: "0 < pow2 e"
  by (simp add: pow2_def)

lemma round_half_even_nonneg: "0 \<le> m \<Longrightarrow> 0 \<le> round_half_even m"
  by (auto simp: round_half_even_def Let_def)

lemma to_float_nonneg: "0 \<le> x \<Longrightarrow> 0 \<le> to_float x"
  by (auto simp: to_float_def Let_def split: prod.splits
      intro!: mult_nonneg_nonneg round_half_even_nonneg divide_nonneg_pos pow2_pos less_imp_le [OF pow2_pos])

section \<open>State and operations\<close>

record arc_policy =
  cache_capacity :: int
  target_t1_size :: rat
  arc_t1 :: "block_status odict"
  arc_t2 :: "block_status odict"
  arc_b1 :: "unit odict"
  arc_b2 :: "unit odict"

definition init_arc :: "int \<Rightarrow> arc_policy" where
  "init_arc capacity =
     \<lparr>cache_capacity = capacity, target_t1_size = 0, arc_t1 = [], arc_t2 = [], arc_b1 = [], arc_b2 = []\<rparr>"

definition arc_get :: "arc_policy \<Rightarrow> bytes \<Rightarrow> block_status option" where
  "arc_get p h = (case od_get (arc_t1 p) h of Some b \<Rightarrow> Some b | None \<Rightarrow> od_get (arc_t2 p) h)"

definition arc_insert :: "bytes \<Rightarrow> block_status \<Rightarrow> arc_policy \<Rightarrow> arc_policy" where
  "arc_insert h b p =
     p\<lparr>arc_t1 := od_set h b (arc_t1 p), arc_b1 := od_del h (arc_b1 p), arc_b2 := od_del h (arc_b2 p)\<rparr>"

definition arc_remove :: "bytes \<Rightarrow> arc_policy \<Rightarrow> arc_policy res" where
  "arc_remove h p =
     Inr (if od_has h (arc_t1 p) then p\<lparr>arc_t1 := od_del h (arc_t1 p)\<rparr>
          else p\<lparr>arc_t2 := od_del h (arc_t2 p)\<rparr>)"

definition arc_update :: "bytes \<Rightarrow> block_status \<Rightarrow> arc_policy \<Rightarrow> arc_policy" where
  "arc_update h b p =
     (if od_has h (arc_t1 p) then p\<lparr>arc_t1 := od_set h b (arc_t1 p)\<rparr>
      else p\<lparr>arc_t2 := od_set h b (arc_t2 p)\<rparr>)"

definition ghost_delta :: "unit odict \<Rightarrow> unit odict \<Rightarrow> rat" where
  "ghost_delta hit other = max 1 (to_float (of_nat (length other) / of_nat (length hit)))"

definition arc_touch_one :: "bytes \<Rightarrow> arc_policy \<Rightarrow> arc_policy" where
  "arc_touch_one h p =
     (case od_get (arc_t1 p) h of
        Some b \<Rightarrow>
          let p1 = p\<lparr>arc_t1 := od_del h (arc_t1 p)\<rparr> in
          if \<not> is_ready b then p1\<lparr>arc_t1 := od_set h b (arc_t1 p1)\<rparr>
          else p1\<lparr>arc_t2 := od_set h b (arc_t2 p1)\<rparr>
      | None \<Rightarrow>
          if od_has h (arc_t2 p) then p\<lparr>arc_t2 := od_move_to_end h (arc_t2 p)\<rparr>
          else if od_has h (arc_b1 p)
          then p\<lparr>target_t1_size := min (to_float (target_t1_size p + ghost_delta (arc_b1 p) (arc_b2 p)))
                                      (of_int (cache_capacity p)),
                 arc_b1 := od_move_to_end h (arc_b1 p)\<rparr>
          else if od_has h (arc_b2 p)
          then p\<lparr>target_t1_size := max (to_float (target_t1_size p - ghost_delta (arc_b2 p) (arc_b1 p))) 0,
                 arc_b2 := od_move_to_end h (arc_b2 p)\<rparr>
          else p)"

definition arc_touch :: "bytes list \<Rightarrow> arc_policy \<Rightarrow> arc_policy" where
  "arc_touch hs p = fold arc_touch_one (rev hs) p"

section \<open>Eviction\<close>

definition arc_find :: "bytes set \<Rightarrow> block_status odict \<Rightarrow> (bytes \<times> block_status) option" where
  "arc_find excluded d = find (evictable excluded) d"

text \<open>The selection simulates the size of the recent part; a candidate carries where it was found.\<close>

fun arc_select ::
  "nat \<Rightarrow> bytes set \<Rightarrow> arc_policy \<Rightarrow> int \<Rightarrow> (bytes \<times> block_status \<times> bool) list \<Rightarrow>
   (bytes \<times> block_status \<times> bool) list option" where
  "arc_select 0 prot p v cs = Some cs"
| "arc_select (Suc k) prot p v cs =
     (let excluded = prot \<union> set (map fst cs) in
      case (if v \<ge> py_int_of (target_t1_size p) then arc_find excluded (arc_t1 p) else None) of
        Some (h, b) \<Rightarrow> arc_select k prot p (v - 1) (cs @ [(h, b, True)])
      | None \<Rightarrow>
          (case arc_find excluded (arc_t2 p) of
             Some (h, b) \<Rightarrow> arc_select k prot p v (cs @ [(h, b, False)])
           | None \<Rightarrow> None))"

fun arc_take_out :: "bytes \<times> block_status \<times> bool \<Rightarrow> arc_policy \<Rightarrow> arc_policy" where
  "arc_take_out (h, b, from_t1) p =
     (if from_t1 then p\<lparr>arc_t1 := od_del h (arc_t1 p), arc_b1 := od_set h () (arc_b1 p)\<rparr>
      else p\<lparr>arc_t2 := od_del h (arc_t2 p), arc_b2 := od_set h () (arc_b2 p)\<rparr>)"

text \<open>\<^verbatim>\<open>popitem\<close> raises when the dictionary is empty.\<close>

definition trim_ghost :: "int \<Rightarrow> unit odict \<Rightarrow> unit odict res" where
  "trim_ghost capacity g =
     (let k = nat (int (length g) - capacity) in if k > length g then Inl KeyError else Inr (drop k g))"

definition arc_evict ::
  "int \<Rightarrow> bytes set \<Rightarrow> arc_policy \<Rightarrow> ((bytes \<times> block_status) list \<times> arc_policy) option res" where
  "arc_evict n prot p =
     (if n = 0 then Inr (Some ([], p))
      else case arc_select (nat n) prot p (int (length (arc_t1 p))) [] of
        None \<Rightarrow> Inr None
      | Some cs \<Rightarrow>
          let p1 = fold arc_take_out cs p in
          bindE (trim_ghost (cache_capacity p) (arc_b1 p1)) (\<lambda>g1.
          bindE (trim_ghost (cache_capacity p) (arc_b2 p1)) (\<lambda>g2.
            Inr (Some (map (\<lambda>(h, b, f). (h, b)) cs, p1\<lparr>arc_b1 := g1, arc_b2 := g2\<rparr>)))))"

section \<open>Invariant\<close>

definition arc_ok :: "arc_policy \<Rightarrow> bool" where
  "arc_ok p \<longleftrightarrow>
     0 \<le> cache_capacity p \<and> 0 \<le> target_t1_size p \<and>
     int (length (arc_b1 p)) \<le> cache_capacity p \<and> int (length (arc_b2 p)) \<le> cache_capacity p \<and>
     distinct (map fst (arc_t1 p)) \<and> distinct (map fst (arc_t2 p)) \<and>
     set (map fst (arc_t1 p)) \<inter> set (map fst (arc_t2 p)) = {}"

lemma arc_get_None: "arc_get p h = None \<longleftrightarrow> od_get (arc_t1 p) h = None \<and> od_get (arc_t2 p) h = None"
  by (auto simp: arc_get_def split: option.splits)

lemma arc_okD:
  assumes "arc_ok p"
  shows "0 \<le> cache_capacity p" "distinct (map fst (arc_t1 p))" "distinct (map fst (arc_t2 p))"
    "od_has h (arc_t1 p) \<Longrightarrow> \<not> od_has h (arc_t2 p)"
  using assms by (auto simp: arc_ok_def od_has_def)

lemma length_od_del: "length (od_del h d) \<le> length d"
  by (simp add: od_del_def)

lemma length_od_move [simp]: "length (od_move_to_end h d) = length d"
  using sum_length_filter_compl [of "\<lambda>e. fst e = h" d] by (simp add: od_move_to_end_def)

lemma arc_insert_ok:
  assumes "arc_ok p" "arc_get p h = None"
  shows "arc_ok (arc_insert h b p)" "arc_get (arc_insert h b p) = (arc_get p)(h \<mapsto> b)"
proof -
  have no: "od_get (arc_t1 p) h = None" "od_get (arc_t2 p) h = None" using assms(2) by (simp_all add: arc_get_None)
  then have "h \<notin> set (map fst (arc_t2 p))" by (simp add: od_get_None od_has_def)
  then show "arc_ok (arc_insert h b p)"
    using assms(1) length_od_del [of h "arc_b1 p"] length_od_del [of h "arc_b2 p"]
    unfolding arc_ok_def arc_insert_def by (simp add: od_distinct_set od_keys_set [unfolded set_map])
  show "arc_get (arc_insert h b p) = (arc_get p)(h \<mapsto> b)"
    by (auto simp: arc_get_def arc_insert_def fun_eq_iff split: option.splits)
qed

lemma arc_remove_ok:
  assumes "arc_ok p" "arc_get p h = Some b"
  shows "\<exists>p'. arc_remove h p = Inr p' \<and> arc_ok p' \<and> arc_get p' = (arc_get p)(h := None)"
proof (cases "od_has h (arc_t1 p)")
  case True
  then have "od_get (arc_t2 p) h = None" using arc_okD(4) [OF assms(1)] by (simp add: od_get_None)
  then show ?thesis using True assms(1)
    by (auto simp: arc_remove_def arc_ok_def od_distinct_del arc_get_def fun_eq_iff simp del: set_map split: option.splits)
next
  case False
  then have "od_get (arc_t1 p) h = None" by (simp add: od_get_None)
  then show ?thesis using False assms(1)
    by (auto simp: arc_remove_def arc_ok_def od_distinct_del arc_get_def fun_eq_iff simp del: set_map split: option.splits)
qed

lemma arc_update_ok:
  assumes "arc_ok p" "arc_get p h = Some b"
  shows "arc_ok (arc_update h b' p)" "arc_get (arc_update h b' p) = (arc_get p)(h \<mapsto> b')"
proof -
  show "arc_get (arc_update h b' p) = (arc_get p)(h \<mapsto> b')"
    by (auto simp: arc_update_def arc_get_def fun_eq_iff od_has_iff split: option.splits)
  show "arc_ok (arc_update h b' p)"
  proof (cases "od_has h (arc_t1 p)")
    case True
    then have "insert h (set (map fst (arc_t1 p))) = set (map fst (arc_t1 p))" by (auto simp: od_has_def)
    then show ?thesis using True assms(1) by (simp add: arc_update_def arc_ok_def od_distinct_set del: set_map)
  next
    case False
    then have "od_has h (arc_t2 p)" using assms(2) by (auto simp: arc_get_def od_has_iff split: option.splits)
    then have "insert h (set (map fst (arc_t2 p))) = set (map fst (arc_t2 p))" by (auto simp: od_has_def)
    then show ?thesis using False assms(1) by (simp add: arc_update_def arc_ok_def od_distinct_set del: set_map)
  qed
qed

lemma arc_touch_one_ok:
  assumes "arc_ok p"
  shows "arc_ok (arc_touch_one h p) \<and> arc_get (arc_touch_one h p) = arc_get p"
proof (cases "od_get (arc_t1 p) h")
  case (Some b)
  then have has: "od_has h (arc_t1 p)" by (simp add: od_has_iff)
  then have no: "h \<notin> set (map fst (arc_t2 p))" using arc_okD(4) [OF assms] by (simp add: od_has_def)
  have keys: "insert h (set (map fst (arc_t1 p))) = set (map fst (arc_t1 p))" using has by (auto simp: od_has_def)
  have g2: "od_get (arc_t2 p) h = None" using no by (simp add: od_get_None od_has_def)
  show ?thesis
    using assms Some no keys g2
    by (auto simp: arc_touch_one_def Let_def arc_ok_def od_distinct_set od_distinct_del arc_get_def fun_eq_iff
        simp del: set_map split: option.splits)
next
  case None
  have delta: "1 \<le> ghost_delta a c" for a c by (simp add: ghost_delta_def)
  have "0 \<le> to_float (target_t1_size p + ghost_delta a c)" for a c
    using assms delta [of a c] by (intro to_float_nonneg) (simp add: arc_ok_def)
  then show ?thesis
    using assms None
    by (auto simp: arc_touch_one_def arc_ok_def od_distinct_move arc_get_def fun_eq_iff simp del: set_map split: option.splits)
qed

lemma arc_touch_ok: "arc_ok p \<Longrightarrow> arc_ok (arc_touch hs p) \<and> arc_get (arc_touch hs p) = arc_get p"
proof -
  have "arc_ok p \<Longrightarrow> arc_ok (fold arc_touch_one xs p) \<and> arc_get (fold arc_touch_one xs p) = arc_get p" for xs
    by (induction xs arbitrary: p) (auto simp: arc_touch_one_ok)
  then show "arc_ok p \<Longrightarrow> arc_ok (arc_touch hs p) \<and> arc_get (arc_touch hs p) = arc_get p" by (simp add: arc_touch_def)
qed

text \<open>Every selected candidate is an unprotected idle block of the part it was found in.\<close>

definition chosen :: "bytes set \<Rightarrow> arc_policy \<Rightarrow> bytes \<times> block_status \<times> bool \<Rightarrow> bool" where
  "chosen prot p c \<longleftrightarrow>
     (case c of (h, b, f) \<Rightarrow> evictable prot (h, b) \<and> od_get (if f then arc_t1 p else arc_t2 p) h = Some b)"

lemma arc_find_some:
  assumes "arc_find excluded d = Some (h, b)" "distinct (map fst d)"
  shows "evictable excluded (h, b)" "od_get d h = Some b"
proof -
  have "evictable excluded (h, b)" "(h, b) \<in> set d"
    using assms(1) unfolding arc_find_def find_Some_iff by (metis nth_mem)+
  then show "evictable excluded (h, b)" "od_get d h = Some b" using od_entry [OF assms(2)] by auto
qed

lemma arc_select_some:
  assumes "arc_select k prot p v cs = Some cs'" "arc_ok p" "distinct (map fst cs)" "\<forall>c \<in> set cs. chosen prot p c"
  shows "distinct (map fst cs') \<and> (\<forall>c \<in> set cs'. chosen prot p c) \<and> length cs' = length cs + k"
  using assms
proof (induction k prot p v cs arbitrary: cs' rule: arc_select.induct)
  case (2 k prot p v cs)
  let ?ex = "prot \<union> set (map fst cs)"
  let ?c1 = "if v \<ge> py_int_of (target_t1_size p) then arc_find ?ex (arc_t1 p) else None"
  have add: "distinct (map fst (cs @ [(h, b, f)])) \<and> (\<forall>c \<in> set (cs @ [(h, b, f)]). chosen prot p c)"
    if "arc_find ?ex (if f then arc_t1 p else arc_t2 p) = Some (h, b)" for h b f
  proof -
    have d: "distinct (map fst (if f then arc_t1 p else arc_t2 p))" using arc_okD [OF 2(4)] by simp
    show ?thesis using arc_find_some [OF that d] 2(5,6) by (auto simp: chosen_def evictable_def)
  qed
  show ?case
  proof (cases ?c1)
    case (Some hb)
    obtain h b where hb: "hb = (h, b)" by (cases hb)
    then have f: "arc_find ?ex (if True then arc_t1 p else arc_t2 p) = Some (h, b)" using Some by (simp split: if_splits)
    have "arc_select k prot p (v - 1) (cs @ [(h, b, True)]) = Some cs'" using 2(3) Some hb by (simp add: Let_def del: set_map)
    from 2(2) [OF refl Some hb [symmetric] this 2(4)] add [OF f] show ?thesis by auto
  next
    case None
    then obtain h b where f: "arc_find ?ex (arc_t2 p) = Some (h, b)"
      "arc_select k prot p v (cs @ [(h, b, False)]) = Some cs'"
      using 2(3) None by (auto simp: Let_def simp del: set_map split: option.splits)
    have f2: "arc_find ?ex (if False then arc_t1 p else arc_t2 p) = Some (h, b)" using f(1) by simp
    from 2(1) [OF refl None f(1) refl f(2) 2(4)] add [OF f2] show ?thesis by auto
  qed
qed simp

lemma take_out_many:
  "od_get (arc_t1 (fold arc_take_out cs p)) h = (if \<exists>b. (h, b, True) \<in> set cs then None else od_get (arc_t1 p) h)"
  "od_get (arc_t2 (fold arc_take_out cs p)) h = (if \<exists>b. (h, b, False) \<in> set cs then None else od_get (arc_t2 p) h)"
  "cache_capacity (fold arc_take_out cs p) = cache_capacity p"
  "target_t1_size (fold arc_take_out cs p) = target_t1_size p"
  by (induction cs arbitrary: p) auto

lemma take_out_distinct:
  assumes "distinct (map fst (arc_t1 p)) \<and> distinct (map fst (arc_t2 p))"
  shows "distinct (map fst (arc_t1 (fold arc_take_out cs p))) \<and> distinct (map fst (arc_t2 (fold arc_take_out cs p)))"
  using assms
proof (induction cs arbitrary: p)
  case (Cons c cs)
  have "distinct (map fst (arc_t1 (arc_take_out c p))) \<and> distinct (map fst (arc_t2 (arc_take_out c p)))"
    using Cons.prems by (cases c) (simp add: od_distinct_del)
  from Cons.IH [OF this] show ?case by simp
qed simp

lemma trim_ghost_ok:
  assumes "0 \<le> capacity"
  shows "\<exists>g'. trim_ghost capacity g = Inr g' \<and> int (length g') \<le> capacity"
  using assms by (auto simp: trim_ghost_def Let_def)

lemma arc_evict_cases:
  assumes "arc_ok p" "0 < n"
  shows "(arc_select (nat n) prot p (int (length (arc_t1 p))) [] = None \<and> arc_evict n prot p = Inr None) \<or>
    (\<exists>cs g1 g2. arc_select (nat n) prot p (int (length (arc_t1 p))) [] = Some cs \<and>
       int (length g1) \<le> cache_capacity p \<and> int (length g2) \<le> cache_capacity p \<and>
       arc_evict n prot p = Inr (Some (map (\<lambda>(h, b, f). (h, b)) cs, (fold arc_take_out cs p)\<lparr>arc_b1 := g1, arc_b2 := g2\<rparr>)))"
proof (cases "arc_select (nat n) prot p (int (length (arc_t1 p))) []")
  case None
  then show ?thesis using assms by (simp add: arc_evict_def)
next
  case (Some cs)
  let ?p = "fold arc_take_out cs p"
  obtain g1 g2 where "trim_ghost (cache_capacity p) (arc_b1 ?p) = Inr g1" "int (length g1) \<le> cache_capacity p"
    "trim_ghost (cache_capacity p) (arc_b2 ?p) = Inr g2" "int (length g2) \<le> cache_capacity p"
    using trim_ghost_ok [OF arc_okD(1) [OF assms(1)]] by metis
  then show ?thesis using Some assms(2)
    by (intro disjI2 exI [of _ cs] exI [of _ g1] exI [of _ g2]) (simp add: arc_evict_def Let_def)
qed

lemma arc_evict_some:
  assumes p: "arc_ok p" "0 < n" and e: "arc_evict n prot p = Inr (Some (vs, p'))"
  shows "arc_ok p' \<and> int (length vs) = n \<and> distinct (map fst vs) \<and>
      (\<forall>e \<in> set vs. arc_get p (fst e) = Some (snd e) \<and> evictable prot e) \<and>
      arc_get p' = (\<lambda>h. if h \<in> set (map fst vs) then None else arc_get p h)"
proof -
  obtain cs g1 g2 where s: "arc_select (nat n) prot p (int (length (arc_t1 p))) [] = Some cs"
    and g: "int (length g1) \<le> cache_capacity p" "int (length g2) \<le> cache_capacity p"
    and vs: "vs = map (\<lambda>(h, b, f). (h, b)) cs" and p': "p' = (fold arc_take_out cs p)\<lparr>arc_b1 := g1, arc_b2 := g2\<rparr>"
    using arc_evict_cases [OF p, of prot] e by auto
  have c: "distinct (map fst cs)" "\<forall>c \<in> set cs. chosen prot p c" "length cs = nat n"
    using arc_select_some [OF s p(1)] by auto
  have fsts: "map fst vs = map fst cs" by (simp add: vs split_def)
  have t12: "od_get (arc_t1 p) h = Some b \<Longrightarrow> od_get (arc_t2 p) h = None" for h b
    using arc_okD(4) [OF p(1), of h] od_has_iff [of h "arc_t1 p"] od_get_None [of "arc_t2 p" h] by blast
  have mem: "\<forall>e \<in> set vs. arc_get p (fst e) = Some (snd e) \<and> evictable prot e"
  proof
    fix e assume "e \<in> set vs"
    then obtain h b f where e: "e = (h, b)" "(h, b, f) \<in> set cs" by (auto simp: vs)
    then have ch: "chosen prot p (h, b, f)" using c(2) by blast
    then show "arc_get p (fst e) = Some (snd e) \<and> evictable prot e"
      using t12 e(1) by (cases f; cases "od_get (arc_t1 p) h") (auto simp: chosen_def arc_get_def)
  qed
  have "arc_get p' h = (if h \<in> set (map fst vs) then None else arc_get p h)" for h
  proof (cases "h \<in> set (map fst cs)")
    case True
    then obtain b f where m: "(h, b, f) \<in> set cs" by auto
    then have ch: "chosen prot p (h, b, f)" using c(2) by blast
    have uniq: "(h, b', f') \<in> set cs \<Longrightarrow> f' = f" for b' f'
      using eq_key_imp_eq_value [OF c(1)] m by blast
    have "arc_get p' h = None"
      using ch m t12 [of h] unfolding arc_get_None p'
      by (cases f; cases "od_get (arc_t1 p) h") (auto simp: take_out_many chosen_def)
    then show ?thesis using True fsts by simp
  next
    case False
    then have "\<nexists>b f. (h, b, f) \<in> set cs" by force
    then show ?thesis using False fsts by (simp add: arc_get_def p' take_out_many split: option.splits)
  qed
  moreover have "arc_ok p'"
  proof -
    let ?q = "fold arc_take_out cs p"
    have "od_has h (arc_t1 ?q) \<Longrightarrow> od_has h (arc_t1 p)" "od_has h (arc_t2 ?q) \<Longrightarrow> od_has h (arc_t2 p)" for h
      by (auto simp: od_has_iff take_out_many split: if_splits)
    then have "set (map fst (arc_t1 ?q)) \<inter> set (map fst (arc_t2 ?q)) = {}"
      using arc_okD(4) [OF p(1)] unfolding od_has_def by blast
    then show ?thesis using p(1) g take_out_distinct [of p cs] by (simp add: arc_ok_def p' take_out_many)
  qed
  moreover have "int (length vs) = n" using c(3) p(2) by (simp add: vs)
  moreover have "distinct (map fst vs)" unfolding fsts by (rule c(1))
  ultimately show ?thesis using mem by blast
qed

interpretation arc: offload_policy arc_get arc_insert arc_remove arc_touch arc_update arc_evict arc_ok
proof
  show "\<exists>r. arc_evict n prot p = Inr r" if "arc_ok p" "0 < n" for p n prot
    using arc_evict_cases [OF that, of prot] by auto
qed (fact arc_insert_ok arc_remove_ok arc_update_ok arc_evict_some arc_touch_ok [THEN conjunct1]
    arc_touch_ok [THEN conjunct2])+

end
