(* ===== verification/Offload.thy ===== *)
theory Offload
  imports Offload_Arc Result_Logic "HOL-Library.Multiset"
begin

text \<open>
  The CPU offloading manager (src/vllm/v1/kv_offload/cpu/manager.py) over either cache policy, the
  manager that stores only reused blocks (src/vllm/v1/kv_offload/reuse_manager.py), and the transfers
  between the two memories as a transition system. A call that fails an assertion is an error value.
\<close>

section \<open>The policy in use\<close>

datatype cache_policy = LRU lru_policy | ARC arc_policy

fun pol_get :: "cache_policy \<Rightarrow> bytes \<Rightarrow> block_status option" where
  "pol_get (LRU p) h = lru_get p h"
| "pol_get (ARC p) h = arc_get p h"

fun pol_insert :: "bytes \<Rightarrow> block_status \<Rightarrow> cache_policy \<Rightarrow> cache_policy" where
  "pol_insert h b (LRU p) = LRU (lru_insert h b p)"
| "pol_insert h b (ARC p) = ARC (arc_insert h b p)"

fun pol_remove :: "bytes \<Rightarrow> cache_policy \<Rightarrow> cache_policy res" where
  "pol_remove h (LRU p) = bindE (lru_remove h p) (\<lambda>q. Inr (LRU q))"
| "pol_remove h (ARC p) = bindE (arc_remove h p) (\<lambda>q. Inr (ARC q))"

fun pol_touch :: "bytes list \<Rightarrow> cache_policy \<Rightarrow> cache_policy" where
  "pol_touch hs (LRU p) = LRU (lru_touch hs p)"
| "pol_touch hs (ARC p) = ARC (arc_touch hs p)"

fun pol_update :: "bytes \<Rightarrow> block_status \<Rightarrow> cache_policy \<Rightarrow> cache_policy" where
  "pol_update h b (LRU p) = LRU (lru_update h b p)"
| "pol_update h b (ARC p) = ARC (arc_update h b p)"

fun pol_evict ::
  "int \<Rightarrow> bytes set \<Rightarrow> cache_policy \<Rightarrow> ((bytes \<times> block_status) list \<times> cache_policy) option res" where
  "pol_evict n prot (LRU p) = bindE (lru_evict n prot p) (\<lambda>r. Inr (map_option (map_prod id LRU) r))"
| "pol_evict n prot (ARC p) = bindE (arc_evict n prot p) (\<lambda>r. Inr (map_option (map_prod id ARC) r))"

fun pol_ok :: "cache_policy \<Rightarrow> bool" where
  "pol_ok (LRU p) = lru_ok p"
| "pol_ok (ARC p) = arc_ok p"

lemma pol_get_fun: "pol_get (LRU p) = lru_get p" "pol_get (ARC q) = arc_get q"
  by (simp_all add: fun_eq_iff)

interpretation pol: offload_policy pol_get pol_insert pol_remove pol_touch pol_update pol_evict pol_ok
proof
  fix p h b b' and n :: int and prot vs p' hs
  assume ok: "pol_ok p"
  show "pol_ok (pol_touch hs p)" using ok lru.touch_ok arc.touch_ok by (cases p) auto
  show "pol_get (pol_touch hs p) = pol_get p" using ok lru.get_touch arc.get_touch by (cases p) (auto simp: pol_get_fun)
  show "\<exists>r. pol_evict n prot p = Inr r" if "0 < n"
    using ok lru.evict_total [OF _ that] arc.evict_total [OF _ that] by (cases p) fastforce+
  show "pol_ok p' \<and> int (length vs) = n \<and> distinct (map fst vs) \<and>
      (\<forall>e \<in> set vs. pol_get p (fst e) = Some (snd e) \<and> evictable prot e) \<and>
      pol_get p' = (\<lambda>h. if h \<in> set (map fst vs) then None else pol_get p h)"
    if n: "0 < n" "pol_evict n prot p = Inr (Some (vs, p'))"
  proof (cases p)
    case (LRU q)
    then obtain q' where q': "lru_evict n prot q = Inr (Some (vs, q'))" "p' = LRU q'" using n(2) by auto
    have "lru_ok q" using ok LRU by simp
    from lru.evict_some [OF this n(1) q'(1)] show ?thesis unfolding LRU q'(2) pol_get_fun pol_ok.simps .
  next
    case (ARC q)
    then obtain q' where q': "arc_evict n prot q = Inr (Some (vs, q'))" "p' = ARC q'" using n(2) by auto
    have "arc_ok q" using ok ARC by simp
    from arc.evict_some [OF this n(1) q'(1)] show ?thesis unfolding ARC q'(2) pol_get_fun pol_ok.simps .
  qed
  {
    assume g: "pol_get p h = None"
    show "pol_ok (pol_insert h b p)" using ok g lru.ins_ok arc.ins_ok by (cases p) auto
    show "pol_get (pol_insert h b p) = (pol_get p)(h \<mapsto> b)"
      using ok g lru.get_ins arc.get_ins by (cases p) (auto simp: pol_get_fun)
  next
    assume g: "pol_get p h = Some b"
    show "\<exists>p'. pol_remove h p = Inr p' \<and> pol_ok p' \<and> pol_get p' = (pol_get p)(h := None)"
      using ok g lru.rem_ok [of _ h b] arc.rem_ok [of _ h b] by (cases p) (fastforce simp: pol_get_fun)+
    show "pol_ok (pol_update h b' p)" using ok g lru.upd_ok arc.upd_ok by (cases p) auto
    show "pol_get (pol_update h b' p) = (pol_get p)(h \<mapsto> b')"
      using ok g lru.get_upd arc.get_upd by (cases p) (auto simp: pol_get_fun)
  }
qed

section \<open>The manager\<close>

record offloading_event =
  ev_block_hashes :: "bytes list"
  ev_block_size :: int
  ev_medium :: string
  ev_removed :: bool

record cpu_manager =
  om_block_size :: int
  om_num_blocks :: int
  om_num_allocated :: int
  om_free_list :: "int list"
  om_events :: "offloading_event list option"
  om_policy :: cache_policy

record prepare_store_output =
  ps_to_store :: "bytes list"
  ps_block_ids :: "int list"
  ps_evicted :: "bytes list"

definition init_cpu_manager :: "int \<Rightarrow> int \<Rightarrow> string \<Rightarrow> bool \<Rightarrow> cpu_manager res" where
  "init_cpu_manager block_size num_blocks policy enable_events =
     bindE (if policy = ''lru'' then Inr (LRU (init_lru num_blocks))
            else if policy = ''arc'' then Inr (ARC (init_arc num_blocks))
            else Inl ValueError) (\<lambda>p.
       Inr \<lparr>om_block_size = block_size, om_num_blocks = num_blocks, om_num_allocated = 0,
            om_free_list = [], om_events = (if enable_events then Some [] else None), om_policy = p\<rparr>)"

definition om_num_free_blocks :: "cpu_manager \<Rightarrow> int" where
  "om_num_free_blocks m = int (length (om_free_list m)) + om_num_blocks m - om_num_allocated m"

definition om_allocate_blocks :: "bytes list \<Rightarrow> cpu_manager \<Rightarrow> (block_status list \<times> cpu_manager) res" where
  "om_allocate_blocks hs m =
     (let free = om_free_list m;
          num_fresh = min (int (length hs)) (om_num_blocks m - om_num_allocated m);
          num_reused = int (length hs) - num_fresh
      in assertE (int (length free) \<ge> num_reused)
           (Inr (map new_block_status
                   ([om_num_allocated m .. om_num_allocated m + num_fresh - 1] @ take (nat num_reused) (rev free)),
                 m\<lparr>om_num_allocated := om_num_allocated m + max 0 num_fresh,
                   om_free_list := take (length free - nat num_reused) free\<rparr>)))"

definition om_free_block :: "block_status \<Rightarrow> cpu_manager \<Rightarrow> cpu_manager" where
  "om_free_block b m = m\<lparr>om_free_list := om_free_list m @ [bs_block_id b]\<rparr>"

definition om_note :: "bytes list \<Rightarrow> bool \<Rightarrow> cpu_manager \<Rightarrow> cpu_manager" where
  "om_note hs removed m =
     (case om_events m of
        Some es \<Rightarrow>
          if hs = [] then m
          else m\<lparr>om_events := Some (es @ [\<lparr>ev_block_hashes = hs, ev_block_size = om_block_size m,
                                           ev_medium = ''CPU'', ev_removed = removed\<rparr>])\<rparr>
      | None \<Rightarrow> m)"

definition om_get :: "cpu_manager \<Rightarrow> bytes \<Rightarrow> block_status option" where
  "om_get m h = pol_get (om_policy m) h"

fun om_lookup :: "bytes list \<Rightarrow> cpu_manager \<Rightarrow> int" where
  "om_lookup [] m = 0"
| "om_lookup (h # hs) m =
     (case om_get m h of
        None \<Rightarrow> 0
      | Some b \<Rightarrow> if \<not> is_ready b then 0 else 1 + om_lookup hs m)"

definition om_set :: "bytes \<Rightarrow> block_status \<Rightarrow> cpu_manager \<Rightarrow> cpu_manager" where
  "om_set h b m = m\<lparr>om_policy := pol_update h b (om_policy m)\<rparr>"

definition om_load_one :: "bytes \<Rightarrow> int list \<times> cpu_manager \<Rightarrow> (int list \<times> cpu_manager) res" where
  "om_load_one h acc =
     (case acc of (ids, m) \<Rightarrow>
      case om_get m h of
        None \<Rightarrow> Inl AssertionError
      | Some b \<Rightarrow>
          assertE (is_ready b)
            (Inr (ids @ [bs_block_id b], om_set h (b\<lparr>bs_ref_cnt := bs_ref_cnt b + 1\<rparr>) m)))"

definition om_prepare_load :: "bytes list \<Rightarrow> cpu_manager \<Rightarrow> (int list \<times> cpu_manager) res" where
  "om_prepare_load hs m = foldE om_load_one hs ([], m)"

definition om_touch :: "bytes list \<Rightarrow> cpu_manager \<Rightarrow> cpu_manager" where
  "om_touch hs m = m\<lparr>om_policy := pol_touch hs (om_policy m)\<rparr>"

definition om_unload_one :: "bytes \<Rightarrow> cpu_manager \<Rightarrow> cpu_manager res" where
  "om_unload_one h m =
     (case om_get m h of
        None \<Rightarrow> Inl AssertionError
      | Some b \<Rightarrow> assertE (sint (bs_ref_cnt b) > 0) (Inr (om_set h (b\<lparr>bs_ref_cnt := bs_ref_cnt b - 1\<rparr>) m)))"

definition om_complete_load :: "bytes list \<Rightarrow> cpu_manager \<Rightarrow> cpu_manager res" where
  "om_complete_load hs m = foldE om_unload_one hs m"

definition om_prepare_store ::
  "bytes list \<Rightarrow> cpu_manager \<Rightarrow> (prepare_store_output option \<times> cpu_manager) res" where
  "om_prepare_store hs m =
     (let ts = filter (\<lambda>h. om_get m h = None) hs in
      if ts = [] then Inr (Some \<lparr>ps_to_store = [], ps_block_ids = [], ps_evicted = []\<rparr>, m)
      else
        let n = int (length ts) - om_num_free_blocks m in
        bindE (if n > 0 then pol_evict n (set hs) (om_policy m) else Inr (Some ([], om_policy m))) (\<lambda>r.
        case r of
          None \<Rightarrow> Inr (None, m)
        | Some (vs, p) \<Rightarrow>
            let m1 = fold (\<lambda>e. om_free_block (snd e)) vs (m\<lparr>om_policy := p\<rparr>);
                m2 = om_note (map fst vs) True m1
            in bindE (om_allocate_blocks ts m2) (\<lambda>(bs, m3).
               assertE (length bs = length ts)
                 (Inr (Some \<lparr>ps_to_store = ts, ps_block_ids = map bs_block_id bs, ps_evicted = map fst vs\<rparr>,
                       m3\<lparr>om_policy := fold (\<lambda>(h, b). pol_insert h b) (zip ts bs) (om_policy m3)\<rparr>)))))"

definition om_store_done :: "bytes \<Rightarrow> bytes list \<times> cpu_manager \<Rightarrow> (bytes list \<times> cpu_manager) res" where
  "om_store_done h acc =
     (case acc of (stored, m) \<Rightarrow>
      case om_get m h of
        None \<Rightarrow> Inr (stored, m)
      | Some b \<Rightarrow>
          if is_ready b then Inr (stored, m)
          else Inr (stored @ [h], om_set h (b\<lparr>bs_ref_cnt := 0\<rparr>) m))"

definition om_store_failed :: "bytes \<Rightarrow> cpu_manager \<Rightarrow> cpu_manager res" where
  "om_store_failed h m =
     (case om_get m h of
        None \<Rightarrow> Inr m
      | Some b \<Rightarrow>
          if is_ready b then Inr m
          else bindE (pol_remove h (om_policy m)) (\<lambda>p. Inr (om_free_block b (m\<lparr>om_policy := p\<rparr>))))"

definition om_complete_store :: "bytes list \<Rightarrow> bool \<Rightarrow> cpu_manager \<Rightarrow> cpu_manager res" where
  "om_complete_store hs success m =
     (if success
      then bindE (foldE om_store_done hs ([], m)) (\<lambda>(stored, m'). Inr (om_note stored False m'))
      else foldE om_store_failed hs m)"

definition om_take_events :: "cpu_manager \<Rightarrow> offloading_event list \<times> cpu_manager" where
  "om_take_events m =
     (case om_events m of None \<Rightarrow> ([], m) | Some es \<Rightarrow> (es, m\<lparr>om_events := Some []\<rparr>))"

end
