(* ===== verification/Offload_Safe.thy ===== *)
theory Offload_Safe
  imports Offload
begin

text \<open>
  What the offloading manager guarantees: every slot of the CPU buffer has one owner, and a slot that a
  transfer reads or writes is neither evicted nor handed out until the transfer is done.
\<close>

section \<open>Slots\<close>

text \<open>An assignment of slots to hashes, the free slots, and how many slots were ever handed out.\<close>

definition slots_ok :: "(bytes \<rightharpoonup> int) \<Rightarrow> int list \<Rightarrow> int \<Rightarrow> bool" where
  "slots_ok f free n \<longleftrightarrow>
     0 \<le> n \<and> distinct free \<and> inj_on f (dom f) \<and> set free \<inter> ran f = {} \<and> set free \<union> ran f = {0..<n}"

lemma slots_inj: "slots_ok f free n \<Longrightarrow> f h = Some i \<Longrightarrow> f h' = Some i \<Longrightarrow> h = h'"
  by (metis slots_ok_def domI inj_onD)

lemma slots_range: "slots_ok f free n \<Longrightarrow> f h = Some i \<Longrightarrow> 0 \<le> i \<and> i < n \<and> i \<notin> set free"
proof -
  assume s: "slots_ok f free n" and h: "f h = Some i"
  have "i \<in> ran f" using h by (rule ranI)
  then show "0 \<le> i \<and> i < n \<and> i \<notin> set free" using s unfolding slots_ok_def by auto
qed

lemma ran_drop: "inj_on f (dom f) \<Longrightarrow> f h = Some i \<Longrightarrow> ran (f(h := None)) = ran f - {i}"
proof -
  assume f: "inj_on f (dom f)" "f h = Some i"
  have u: "f x = Some i \<Longrightarrow> x = h" for x using f by (metis domI inj_onD)
  show "ran (f(h := None)) = ran f - {i}"
  proof (rule set_eqI)
    fix j
    have "(\<exists>x. x \<noteq> h \<and> f x = Some j) \<longleftrightarrow> (\<exists>x. f x = Some j) \<and> j \<noteq> i" using u f(2) by (metis option.inject)
    then show "j \<in> ran (f(h := None)) \<longleftrightarrow> j \<in> ran f - {i}" by (auto simp: ran_def)
  qed
qed

lemma slots_drop:
  assumes "slots_ok f free n" "f h = Some i"
  shows "slots_ok (f(h := None)) (free @ [i]) n"
proof -
  have s: "distinct free" "inj_on f (dom f)" "set free \<inter> ran f = {}" "set free \<union> ran f = {0..<n}" "0 \<le> n"
    using assms(1) by (simp_all add: slots_ok_def)
  have i: "i \<in> ran f" using assms(2) by (rule ranI)
  have r: "ran (f(h := None)) = ran f - {i}" by (rule ran_drop [OF s(2) assms(2)])
  have "inj_on (f(h := None)) (dom (f(h := None)))" using s(2) by (auto simp: inj_on_def)
  then show ?thesis unfolding slots_ok_def r using s i by auto
qed

lemma slots_drop_many:
  assumes "slots_ok f free n" "distinct (map fst es)" "\<forall>e \<in> set es. f (fst e) = Some (snd e)"
  shows "slots_ok (\<lambda>h. if h \<in> set (map fst es) then None else f h) (free @ map snd es) n"
  using assms
proof (induction es arbitrary: f free)
  case (Cons e es)
  have "slots_ok (f(fst e := None)) (free @ [snd e]) n" using Cons.prems by (intro slots_drop) auto
  from Cons.IH [OF this] Cons.prems
  have "slots_ok (\<lambda>h. if h \<in> set (map fst es) then None else (f(fst e := None)) h) ((free @ [snd e]) @ map snd es) n" by force
  moreover have "(\<lambda>h. if h \<in> set (map fst es) then None else (f(fst e := None)) h) =
      (\<lambda>h. if h \<in> set (map fst (e # es)) then None else f h)" by auto
  ultimately show ?case by (simp only: append_assoc append_Cons append_Nil list.map)
qed simp

lemma slots_add:
  assumes f: "inj_on f (dom f)" and h: "f h = None" and i: "i \<notin> ran f"
  shows "inj_on (f(h \<mapsto> i)) (dom (f(h \<mapsto> i)))" "ran (f(h \<mapsto> i)) = insert i (ran f)"
proof -
  have "i \<noteq> j" if "f x = Some j" for x j using i that by (auto simp: ran_def)
  then show "inj_on (f(h \<mapsto> i)) (dom (f(h \<mapsto> i)))" using f h by (auto simp: inj_on_def dom_def)
  show "ran (f(h \<mapsto> i)) = insert i (ran f)" using h by (rule ran_map_upd)
qed

lemma slots_fresh:
  assumes s: "slots_ok f free n" and h: "f h = None"
  shows "slots_ok (f(h \<mapsto> n)) free (n + 1)"
proof -
  have n: "n \<notin> ran f" "n \<notin> set free" using s by (auto simp: slots_ok_def)
  have "insert n {0..<n} = {0..<n + 1}" using s by (auto simp: slots_ok_def)
  then show ?thesis using s n slots_add [OF _ h n(1)] unfolding slots_ok_def by auto
qed

lemma slots_reuse:
  assumes s: "slots_ok f (free @ [i]) n" and h: "f h = None"
  shows "slots_ok (f(h \<mapsto> i)) free n"
proof -
  have i: "i \<notin> ran f" using s by (auto simp: slots_ok_def)
  show ?thesis using s slots_add [OF _ h i] unfolding slots_ok_def by auto
qed

lemma map_add_zip_Cons:
  "h \<notin> set hs \<Longrightarrow> (f(h \<mapsto> i)) ++ map_of (zip hs is) = f ++ map_of (zip (h # hs) (i # is))"
proof -
  assume h: "h \<notin> set hs"
  have "map_of (zip hs is) h = None" using h by (auto simp: map_of_eq_None_iff dest: set_zip_leftD)
  then show ?thesis by (auto simp: fun_eq_iff map_add_def split: option.splits)
qed

lemma slots_fresh_many:
  assumes "slots_ok f free n" "distinct hs" "\<forall>h \<in> set hs. f h = None"
  shows "slots_ok (f ++ map_of (zip hs [n..n + int (length hs) - 1])) free (n + int (length hs))"
  using assms
proof (induction hs arbitrary: f n)
  case (Cons h hs)
  have s: "slots_ok (f(h \<mapsto> n)) free (n + 1)" using Cons.prems by (intro slots_fresh) auto
  have u: "[n..n + int (length (h # hs)) - 1] = n # [n + 1..(n + 1) + int (length hs) - 1]"
    by (simp add: upto_rec1)
  have e: "n + int (length (h # hs)) = (n + 1) + int (length hs)" by simp
  have h: "h \<notin> set hs" using Cons.prems by simp
  have "slots_ok ((f(h \<mapsto> n)) ++ map_of (zip hs [n + 1..(n + 1) + int (length hs) - 1])) free ((n + 1) + int (length hs))"
    by (rule Cons.IH [OF s]) (use Cons.prems in auto)
  then show ?case unfolding u unfolding e map_add_zip_Cons [OF h] .
qed simp

lemma slots_reuse_many:
  assumes "slots_ok f free n" "distinct hs" "\<forall>h \<in> set hs. f h = None" "length hs \<le> length free"
  shows "slots_ok (f ++ map_of (zip hs (take (length hs) (rev free)))) (take (length free - length hs) free) n"
  using assms
proof (induction hs arbitrary: f free)
  case (Cons h hs)
  obtain fr i where fr: "free = fr @ [i]" using Cons.prems(4) by (cases free rule: rev_cases) auto
  have s: "slots_ok (f(h \<mapsto> i)) fr n" using Cons.prems fr by (intro slots_reuse) auto
  have "slots_ok ((f(h \<mapsto> i)) ++ map_of (zip hs (take (length hs) (rev fr)))) (take (length fr - length hs) fr) n"
    by (rule Cons.IH [OF s]) (use Cons.prems fr in auto)
  moreover have h: "h \<notin> set hs" using Cons.prems by simp
  moreover have "i # take (length hs) (rev fr) = take (length (h # hs)) (rev free)"
    "take (length fr - length hs) fr = take (length free - length (h # hs)) free" by (simp_all add: fr)
  ultimately show ?case unfolding map_add_zip_Cons [OF h] by (simp only:)
qed simp

lemma slots_alloc:
  assumes s: "slots_ok f free n" and d: "distinct hs" "\<forall>h \<in> set hs. f h = None" and k: "k \<le> length free" "k \<le> length hs"
  shows "slots_ok (f ++ map_of (zip hs ([n..n + (int (length hs) - int k) - 1] @ take k (rev free))))
           (take (length free - k) free) (n + (int (length hs) - int k))"
proof -
  let ?j = "length hs - k"
  let ?a = "take ?j hs" and ?b = "drop ?j hs"
  have ab: "hs = ?a @ ?b" "length ?a = ?j" "length ?b = k" using k(2) by simp_all
  have j: "int (length hs) - int k = int (length ?a)" using k(2) by simp
  let ?f = "f ++ map_of (zip ?a [n..n + int (length ?a) - 1])"
  have s1: "slots_ok ?f free (n + int (length ?a))"
    by (rule slots_fresh_many [OF s]) (use d in \<open>auto dest: in_set_takeD\<close>)
  have disj: "set ?a \<inter> set ?b = {}" using d(1) by (rule set_take_disj_set_drop_if_distinct) simp
  have nb: "\<forall>h \<in> set ?b. ?f h = None"
    using d(2) disj by (auto simp: map_add_def map_of_eq_None_iff dest: set_zip_leftD in_set_dropD split: option.splits)
  have "slots_ok (?f ++ map_of (zip ?b (take (length ?b) (rev free)))) (take (length free - length ?b) free)
      (n + int (length ?a))"
    by (rule slots_reuse_many [OF s1 _ nb]) (use d(1) k ab(3) in auto)
  moreover have "?f ++ map_of (zip ?b (take k (rev free))) =
      f ++ map_of (zip hs ([n..n + (int (length hs) - int k) - 1] @ take k (rev free)))"
  proof -
    let ?ids = "[n..n + int (length ?a) - 1]"
    have len: "length ?ids = length ?a" by simp
    have z: "zip hs (?ids @ take k (rev free)) = zip ?a ?ids @ zip ?b (take k (rev free))"
      using zip_append [OF len [symmetric], of ?b "take k (rev free)"] ab(1) by simp
    have dom: "dom (map_of (zip ?a ?ids)) \<inter> dom (map_of (zip ?b (take k (rev free)))) = {}"
      using disj by (auto dest!: map_of_SomeD set_zip_leftD)
    show ?thesis unfolding j z map_of_append
      using map_add_comm [OF dom] by (metis map_add_assoc)
  qed
  ultimately show ?thesis unfolding j ab(3) by simp
qed

section \<open>The invariant of the manager\<close>

definition om_slot :: "cpu_manager \<Rightarrow> bytes \<rightharpoonup> int" where
  "om_slot m h = map_option bs_block_id (om_get m h)"

definition om_inv :: "cpu_manager \<Rightarrow> bool" where
  "om_inv m \<longleftrightarrow>
     pol_ok (om_policy m) \<and> om_num_allocated m \<le> om_num_blocks m \<and>
     slots_ok (om_slot m) (om_free_list m) (om_num_allocated m)"

lemma om_get_set:
  assumes "om_inv m" "om_get m h = Some b"
  shows "om_get (om_set h b' m) = (om_get m)(h \<mapsto> b')"
  using pol.get_upd [of "om_policy m" h b b'] assms by (simp add: om_inv_def om_get_def om_set_def fun_eq_iff)

lemma om_set_inv:
  assumes "om_inv m" "om_get m h = Some b" "bs_block_id b' = bs_block_id b"
  shows "om_inv (om_set h b' m)"
proof -
  have "om_slot (om_set h b' m) = om_slot m"
    using om_get_set [OF assms(1,2)] assms(2,3) by (auto simp: om_slot_def fun_eq_iff)
  moreover have "pol_ok (om_policy (om_set h b' m))"
    using pol.upd_ok [of "om_policy m" h b b'] assms by (simp add: om_inv_def om_set_def om_get_def)
  ultimately show ?thesis using assms(1) by (simp add: om_inv_def om_set_def)
qed

lemma om_set_simps [simp]: "om_num_blocks (om_set h b m) = om_num_blocks m"
  by (simp add: om_set_def)

lemma om_touch_inv:
  assumes "om_inv m"
  shows "om_inv (om_touch hs m)" "om_get (om_touch hs m) = om_get m" "om_num_blocks (om_touch hs m) = om_num_blocks m"
proof -
  have ok: "pol_ok (om_policy m)" using assms by (simp add: om_inv_def)
  show g: "om_get (om_touch hs m) = om_get m" using pol.get_touch [OF ok] by (simp add: om_touch_def om_get_def fun_eq_iff)
  then have "om_slot (om_touch hs m) = om_slot m" by (simp add: om_slot_def fun_eq_iff)
  then show "om_inv (om_touch hs m)"
    using assms pol.touch_ok [OF ok] by (simp add: om_inv_def om_touch_def)
qed (simp add: om_touch_def)

lemma om_note_simps [simp]:
  "om_policy (om_note hs b m) = om_policy m" "om_get (om_note hs b m) = om_get m"
  "om_num_allocated (om_note hs b m) = om_num_allocated m" "om_num_blocks (om_note hs b m) = om_num_blocks m"
  "om_free_list (om_note hs b m) = om_free_list m"
  by (auto simp: om_note_def om_get_def fun_eq_iff split: option.splits)

lemma om_inv_note [simp]: "om_inv (om_note hs b m) = om_inv m"
  by (simp add: om_inv_def om_slot_def [abs_def])

lemma om_drop_inv:
  assumes "om_inv m" "om_get m h = Some b" "pol_ok p" "pol_get p = (pol_get (om_policy m))(h := None)"
  shows "om_inv (om_free_block b (m\<lparr>om_policy := p\<rparr>))" "om_get (om_free_block b (m\<lparr>om_policy := p\<rparr>)) = (om_get m)(h := None)"
proof -
  let ?m = "om_free_block b (m\<lparr>om_policy := p\<rparr>)"
  show g: "om_get ?m = (om_get m)(h := None)" using assms(4) by (simp add: om_get_def om_free_block_def fun_eq_iff)
  then have "om_slot ?m = (om_slot m)(h := None)" by (simp add: om_slot_def fun_eq_iff)
  moreover have "slots_ok ((om_slot m)(h := None)) (om_free_list m @ [bs_block_id b]) (om_num_allocated m)"
    by (rule slots_drop) (use assms(1,2) in \<open>simp_all add: om_inv_def om_slot_def\<close>)
  ultimately show "om_inv ?m" using assms(1,3) by (simp add: om_inv_def om_free_block_def)
qed

lemma free_fold_simps:
  "om_policy (fold (\<lambda>e. om_free_block (snd e)) vs m) = om_policy m"
  "om_num_allocated (fold (\<lambda>e. om_free_block (snd e)) vs m) = om_num_allocated m"
  "om_num_blocks (fold (\<lambda>e. om_free_block (snd e)) vs m) = om_num_blocks m"
  "om_free_list (fold (\<lambda>e. om_free_block (snd e)) vs m) = om_free_list m @ map (bs_block_id \<circ> snd) vs"
  by (induction vs arbitrary: m) (simp_all add: om_free_block_def)

text \<open>Making room: after the eviction the policy has forgotten the victims and their slots are free.\<close>

lemma om_evict_inv:
  assumes inv: "om_inv m" and p: "pol_ok p" and d: "distinct (map fst vs)"
    and mem: "\<forall>e \<in> set vs. om_get m (fst e) = Some (snd e)"
    and g: "pol_get p = (\<lambda>h. if h \<in> set (map fst vs) then None else om_get m h)"
  defines "m' \<equiv> fold (\<lambda>e. om_free_block (snd e)) vs (m\<lparr>om_policy := p\<rparr>)"
  shows "om_inv m'" "om_get m' = (\<lambda>h. if h \<in> set (map fst vs) then None else om_get m h)"
    "om_num_free_blocks m' = om_num_free_blocks m + int (length vs)" "om_num_blocks m' = om_num_blocks m"
proof -
  let ?es = "map (\<lambda>e. (fst e, bs_block_id (snd e))) vs"
  show gm: "om_get m' = (\<lambda>h. if h \<in> set (map fst vs) then None else om_get m h)"
    using g by (simp add: m'_def om_get_def free_fold_simps fun_eq_iff)
  have so: "slots_ok (om_slot m) (om_free_list m) (om_num_allocated m)" using inv by (simp add: om_inv_def)
  have keys: "map fst ?es = map fst vs" and ids: "map snd ?es = map (bs_block_id \<circ> snd) vs" by simp_all
  have "slots_ok (\<lambda>h. if h \<in> set (map fst ?es) then None else om_slot m h) (om_free_list m @ map snd ?es) (om_num_allocated m)"
    by (rule slots_drop_many [OF so]) (use d mem in \<open>auto simp: om_slot_def keys simp del: map_map\<close>)
  moreover have "om_slot m' = (\<lambda>h. if h \<in> set (map fst ?es) then None else om_slot m h)"
    unfolding keys by (simp add: om_slot_def gm fun_eq_iff)
  ultimately show "om_inv m'"
    using inv p by (simp add: om_inv_def m'_def free_fold_simps comp_def)
  show "om_num_free_blocks m' = om_num_free_blocks m + int (length vs)" "om_num_blocks m' = om_num_blocks m"
    by (simp_all add: om_num_free_blocks_def m'_def free_fold_simps)
qed

lemma om_allocate_total:
  assumes "om_num_allocated m \<le> om_num_blocks m" "int (length hs) \<le> om_num_free_blocks m"
  obtains k where "k \<le> length (om_free_list m)" "k \<le> length hs"
    "om_num_allocated m + (int (length hs) - int k) \<le> om_num_blocks m"
    "om_allocate_blocks hs m =
     Inr (map new_block_status ([om_num_allocated m .. om_num_allocated m + (int (length hs) - int k) - 1] @
                                take k (rev (om_free_list m))),
          m\<lparr>om_num_allocated := om_num_allocated m + (int (length hs) - int k),
            om_free_list := take (length (om_free_list m) - k) (om_free_list m)\<rparr>)"
proof -
  define fresh where "fresh = min (int (length hs)) (om_num_blocks m - om_num_allocated m)"
  define k where "k = nat (int (length hs) - fresh)"
  have f: "0 \<le> fresh" "fresh \<le> int (length hs)" "fresh \<le> om_num_blocks m - om_num_allocated m"
    using assms(1) by (simp_all add: fresh_def)
  have k: "int k = int (length hs) - fresh" using f by (simp add: k_def)
  then have fresh: "fresh = int (length hs) - int k" by simp
  have le: "int k \<le> int (length (om_free_list m))"
    using k assms(2) by (simp add: om_num_free_blocks_def fresh_def min_def split: if_splits)
  show thesis
  proof (rule that [of k])
    show "om_allocate_blocks hs m =
     Inr (map new_block_status ([om_num_allocated m .. om_num_allocated m + (int (length hs) - int k) - 1] @
                                take k (rev (om_free_list m))),
          m\<lparr>om_num_allocated := om_num_allocated m + (int (length hs) - int k),
            om_free_list := take (length (om_free_list m) - k) (om_free_list m)\<rparr>)"
      unfolding om_allocate_blocks_def Let_def fresh_def [symmetric] k_def [symmetric] fresh [symmetric]
      using le k f by (simp add: max_def)
  qed (use le k f in simp_all)
qed

text \<open>Handing out slots for new hashes.\<close>

lemma map_of_zip_map: "map_of (zip xs (map f ys)) h = map_option f (map_of (zip xs ys) h)"
proof (induction xs arbitrary: ys)
  case (Cons x xs)
  then show ?case by (cases ys) auto
qed simp

lemma om_hand_out:
  assumes inv: "om_inv m" and n: "int (length ts) \<le> om_num_free_blocks m"
    and ts: "distinct ts" "\<forall>h \<in> set ts. om_get m h = None"
  obtains bs m1 where "om_allocate_blocks ts m = Inr (bs, m1)" "length bs = length ts"
    "om_inv (m1\<lparr>om_policy := fold (\<lambda>(h, b). pol_insert h b) (zip ts bs) (om_policy m1)\<rparr>)"
    "om_get (m1\<lparr>om_policy := fold (\<lambda>(h, b). pol_insert h b) (zip ts bs) (om_policy m1)\<rparr>) =
       om_get m ++ map_of (zip ts bs)"
    "bs = map new_block_status (map bs_block_id bs)" "om_num_blocks m1 = om_num_blocks m"
proof -
  have ok: "pol_ok (om_policy m)" and le: "om_num_allocated m \<le> om_num_blocks m"
    and so: "slots_ok (om_slot m) (om_free_list m) (om_num_allocated m)" using inv by (simp_all add: om_inv_def)
  obtain k where k: "k \<le> length (om_free_list m)" "k \<le> length ts"
    "om_num_allocated m + (int (length ts) - int k) \<le> om_num_blocks m"
    and a: "om_allocate_blocks ts m =
     Inr (map new_block_status ([om_num_allocated m .. om_num_allocated m + (int (length ts) - int k) - 1] @
                                take k (rev (om_free_list m))),
          m\<lparr>om_num_allocated := om_num_allocated m + (int (length ts) - int k),
            om_free_list := take (length (om_free_list m) - k) (om_free_list m)\<rparr>)"
    by (rule om_allocate_total [OF le n])
  define ids where "ids = [om_num_allocated m .. om_num_allocated m + (int (length ts) - int k) - 1] @
      take k (rev (om_free_list m))"
  define bs where "bs = map new_block_status ids"
  define m1 where "m1 = m\<lparr>om_num_allocated := om_num_allocated m + (int (length ts) - int k),
            om_free_list := take (length (om_free_list m) - k) (om_free_list m)\<rparr>"
  let ?m = "m1\<lparr>om_policy := fold (\<lambda>(h, b). pol_insert h b) (zip ts bs) (om_policy m1)\<rparr>"
  have len: "length bs = length ts" using k by (simp add: bs_def ids_def)
  have I: "pol_ok (fold (\<lambda>(h, b). pol_insert h b) (zip ts bs) (om_policy m)) \<and>
    pol_get (fold (\<lambda>(h, b). pol_insert h b) (zip ts bs) (om_policy m)) =
      (\<lambda>h. case map_of (zip ts bs) h of None \<Rightarrow> pol_get (om_policy m) h | Some b \<Rightarrow> Some b)"
    by (rule pol.insert_all) (use ok ts len in \<open>simp_all add: om_get_def\<close>)
  then have g: "om_get ?m = om_get m ++ map_of (zip ts bs)"
    by (simp add: om_get_def [abs_def] m1_def map_add_def)
  have "om_slot ?m = om_slot m ++ map_of (zip ts ids)"
    unfolding om_slot_def g by (auto simp: fun_eq_iff map_add_def bs_def map_of_zip_map comp_def split: option.splits)
  moreover have "slots_ok (om_slot m ++ map_of (zip ts ids)) (take (length (om_free_list m) - k) (om_free_list m))
      (om_num_allocated m + (int (length ts) - int k))"
    unfolding ids_def by (rule slots_alloc [OF so ts(1) _ k(1,2)]) (use ts(2) in \<open>simp add: om_slot_def\<close>)
  ultimately have "om_inv ?m" using I k by (simp add: om_inv_def m1_def)
  moreover have "bs = map new_block_status (map bs_block_id bs)" by (simp add: bs_def comp_def)
  moreover have "om_num_blocks m1 = om_num_blocks m" by (simp add: m1_def)
  moreover have "om_allocate_blocks ts m = Inr (bs, m1)" unfolding a bs_def ids_def m1_def ..
  ultimately show thesis using that len g by blast
qed

text \<open>A store is refused or gets its slots; it never fails. Blocks in use and blocks of the request stay.\<close>

definition store_effect :: "bytes list \<Rightarrow> cpu_manager \<Rightarrow> prepare_store_output option \<times> cpu_manager \<Rightarrow> bool" where
  "store_effect hs m r \<longleftrightarrow>
     (case r of
        (None, m') \<Rightarrow> m' = m
      | (Some out, m') \<Rightarrow>
          om_inv m' \<and> om_num_blocks m' = om_num_blocks m \<and>
          ps_to_store out = filter (\<lambda>h. om_get m h = None) hs \<and>
          length (ps_block_ids out) = length (ps_to_store out) \<and>
          (\<forall>h \<in> set (ps_evicted out). h \<notin> set hs \<and> (\<exists>b. om_get m h = Some b \<and> bs_ref_cnt b = 0)) \<and>
          om_get m' = (\<lambda>h. if h \<in> set (ps_evicted out) then None else om_get m h) ++
                       map_of (zip (ps_to_store out) (map new_block_status (ps_block_ids out))))"

lemma prepare_store_effect:
  assumes inv: "om_inv m" and hs: "distinct hs"
  shows "totE (store_effect hs m) (om_prepare_store hs m)"
proof -
  define ts where "ts = filter (\<lambda>h. om_get m h = None) hs"
  define n where "n = int (length ts) - om_num_free_blocks m"
  have ts: "distinct ts" "\<forall>h \<in> set ts. om_get m h = None" using hs by (simp_all add: ts_def)
  have ok: "pol_ok (om_policy m)" using inv by (simp add: om_inv_def)
  define place where "place = (\<lambda>vs p. let m1 = fold (\<lambda>e. om_free_block (snd e)) vs (m\<lparr>om_policy := p\<rparr>);
                m2 = om_note (map fst vs) True m1
            in bindE (om_allocate_blocks ts m2) (\<lambda>(bs, m3).
               assertE (length bs = length ts)
                 (Inr (Some \<lparr>ps_to_store = ts, ps_block_ids = map bs_block_id bs, ps_evicted = map fst vs\<rparr>,
                       m3\<lparr>om_policy := fold (\<lambda>(h, b). pol_insert h b) (zip ts bs) (om_policy m3)\<rparr>))))"
  have eq: "om_prepare_store hs m =
     (if ts = [] then Inr (Some \<lparr>ps_to_store = [], ps_block_ids = [], ps_evicted = []\<rparr>, m)
      else bindE (if n > 0 then pol_evict n (set hs) (om_policy m) else Inr (Some ([], om_policy m))) (\<lambda>r.
        case r of None \<Rightarrow> Inr (None, m) | Some (vs, p) \<Rightarrow> place vs p))"
    unfolding om_prepare_store_def Let_def ts_def [symmetric] n_def [symmetric] place_def by (rule refl)
  have placed: "totE (store_effect hs m) (place vs p)"
    if v: "pol_ok p" "distinct (map fst vs)" "\<forall>e \<in> set vs. om_get m (fst e) = Some (snd e) \<and> evictable (set hs) e"
      "pol_get p = (\<lambda>h. if h \<in> set (map fst vs) then None else om_get m h)" "n \<le> int (length vs)" for vs p
  proof -
    let ?m1 = "fold (\<lambda>e. om_free_block (snd e)) vs (m\<lparr>om_policy := p\<rparr>)"
    let ?m2 = "om_note (map fst vs) True ?m1"
    have mem: "\<forall>e \<in> set vs. om_get m (fst e) = Some (snd e)" using v(3) by blast
    note E = om_evict_inv [OF inv v(1,2) mem v(4)]
    have inv2: "om_inv ?m2" using E(1) by simp
    have free: "int (length ts) \<le> om_num_free_blocks ?m2"
      using E(3) v(5) by (simp add: om_num_free_blocks_def n_def)
    have miss: "\<forall>h \<in> set ts. om_get ?m2 h = None" using ts(2) by (simp add: E(2))
    obtain bs m3 where a: "om_allocate_blocks ts ?m2 = Inr (bs, m3)" "length bs = length ts"
      "om_inv (m3\<lparr>om_policy := fold (\<lambda>(h, b). pol_insert h b) (zip ts bs) (om_policy m3)\<rparr>)"
      "om_get (m3\<lparr>om_policy := fold (\<lambda>(h, b). pol_insert h b) (zip ts bs) (om_policy m3)\<rparr>) =
         om_get ?m2 ++ map_of (zip ts bs)"
      "bs = map new_block_status (map bs_block_id bs)" "om_num_blocks m3 = om_num_blocks ?m2"
      by (rule om_hand_out [OF inv2 free ts(1) miss])
    have ev: "\<forall>h \<in> set (map fst vs). h \<notin> set hs \<and> (\<exists>b. om_get m h = Some b \<and> bs_ref_cnt b = 0)"
      using v(3) by (auto simp: evictable_def)
    let ?out = "\<lparr>ps_to_store = ts, ps_block_ids = map bs_block_id bs, ps_evicted = map fst vs\<rparr>"
    let ?m' = "m3\<lparr>om_policy := fold (\<lambda>(h, b). pol_insert h b) (zip ts bs) (om_policy m3)\<rparr>"
    have "place vs p = Inr (Some ?out, ?m')" unfolding place_def Let_def a(1) using a(2) by simp
    moreover have "store_effect hs m (Some ?out, ?m')"
      unfolding store_effect_def using a E(2,4) ev by (simp add: ts_def)
    ultimately show ?thesis by (simp add: totE_def)
  qed
  show ?thesis
  proof (cases "ts = []")
    case True
    have "om_get m = (\<lambda>h. if False then None else om_get m h) ++ Map.empty" by simp
    then show ?thesis unfolding eq using True inv by (simp add: store_effect_def ts_def)
  next
    case False
    show ?thesis
    proof (cases "n > 0")
      case True
      obtain r where r: "pol_evict n (set hs) (om_policy m) = Inr r" using pol.evict_total [OF ok True] by blast
      show ?thesis
      proof (cases r)
        case None
        then show ?thesis unfolding eq using False True r by (simp add: store_effect_def)
      next
        case (Some vp)
        obtain vs p where vp: "vp = (vs, p)" by (cases vp)
        note e = pol.evict_some [OF ok True r [unfolded Some vp]]
        have "totE (store_effect hs m) (place vs p)" by (rule placed) (use e in \<open>auto simp: om_get_def fun_eq_iff\<close>)
        then show ?thesis unfolding eq using False True r Some vp by simp
      qed
    next
      case n: False
      have "totE (store_effect hs m) (place [] (om_policy m))"
        by (rule placed) (use ok n in \<open>auto simp: om_get_def fun_eq_iff\<close>)
      then show ?thesis unfolding eq using False n by simp
    qed
  qed
qed

section \<open>Transfers\<close>

text \<open>
  The manager together with the transfers under way: the slots being read, with repetitions, and the
  slots being written. The client completes loads it has prepared, and completes the store of hashes
  whatever their state.
\<close>

record offload_sys =
  os_manager :: cpu_manager
  os_loads :: "(bytes \<times> int) multiset"
  os_stores :: "bytes \<rightharpoonup> int"

definition entry_ok :: "bytes \<Rightarrow> block_status option \<Rightarrow> (bytes \<times> int) multiset \<Rightarrow> int option \<Rightarrow> bool" where
  "entry_ok h x L st \<longleftrightarrow>
     (case x of
        None \<Rightarrow> st = None \<and> (\<forall>i. (h, i) \<notin># L)
      | Some b \<Rightarrow>
          (case st of
             Some i \<Rightarrow> i = bs_block_id b \<and> bs_ref_cnt b = -1 \<and> (\<forall>i. (h, i) \<notin># L)
           | None \<Rightarrow> (\<forall>i. (h, i) \<in># L \<longrightarrow> i = bs_block_id b) \<and> sint (bs_ref_cnt b) = int (count L (h, bs_block_id b))))"

definition sys_inv :: "offload_sys \<Rightarrow> bool" where
  "sys_inv s \<longleftrightarrow> om_inv (os_manager s) \<and>
     (\<forall>h. entry_ok h (om_get (os_manager s) h) (os_loads s) (os_stores s h))"

lemma entry_other: "h' \<noteq> h \<Longrightarrow> entry_ok h' x (add_mset (h, i) L) st = entry_ok h' x L st"
  by (auto simp: entry_ok_def split: option.splits)

lemma entry_other_diff: "h' \<noteq> h \<Longrightarrow> entry_ok h' x (L - {#(h, i)#}) st = entry_ok h' x L st"
  by (auto simp: entry_ok_def in_diff_count split: option.splits)

lemma entry_ready: "entry_ok h (Some b) L st \<Longrightarrow> is_ready b \<longleftrightarrow> st = None"
  by (auto simp: entry_ok_def is_ready_def split: option.splits)

lemma sint_inc: "sint w < 2 ^ 31 - 1 \<Longrightarrow> 0 \<le> sint w \<Longrightarrow> sint (w + 1 :: 32 word) = sint w + 1"
  by (simp add: sint_word_add signed_take_bit_int_eq_self)

lemma sint_dec: "0 < sint w \<Longrightarrow> sint (w - 1 :: 32 word) = sint w - 1"
  using sint_lt [of w] by (simp add: sint_word_diff signed_take_bit_int_eq_self)

text \<open>Beginning and ending one read.\<close>

lemma load_one_step:
  assumes s: "sys_inv s" and size: "size (os_loads s) < 2 ^ 31 - 1"
  shows "okE (\<lambda>(ids', m'). \<exists>i. ids' = ids @ [i] \<and> om_num_blocks m' = om_num_blocks (os_manager s) \<and>
           sys_inv (s\<lparr>os_manager := m', os_loads := add_mset (h, i) (os_loads s)\<rparr>))
           (om_load_one h (ids, os_manager s))"
proof (cases "om_get (os_manager s) h")
  case None
  then show ?thesis by (simp add: om_load_one_def)
next
  case (Some b)
  let ?m = "os_manager s" and ?b = "b\<lparr>bs_ref_cnt := bs_ref_cnt b + 1\<rparr>" and ?i = "bs_block_id b"
  have inv: "om_inv ?m" and e: "entry_ok h (Some b) (os_loads s) (os_stores s h)"
    using s Some by (simp_all add: sys_inv_def) metis
  have "sys_inv (s\<lparr>os_manager := om_set h ?b ?m, os_loads := add_mset (h, ?i) (os_loads s)\<rparr>)" if r: "is_ready b"
  proof -
    have st: "os_stores s h = None" using entry_ready [OF e] r by simp
    then have c: "sint (bs_ref_cnt b) = int (count (os_loads s) (h, ?i))" "\<forall>i. (h, i) \<in># os_loads s \<longrightarrow> i = ?i"
      using e by (simp_all add: entry_ok_def)
    have "int (count (os_loads s) (h, ?i)) < 2 ^ 31 - 1" using count_le_size [of "os_loads s" "(h, ?i)"] size by simp
    then have "sint (bs_ref_cnt ?b) = sint (bs_ref_cnt b) + 1" using c(1) by (simp add: sint_inc)
    then have new: "entry_ok h (Some ?b) (add_mset (h, ?i) (os_loads s)) (os_stores s h)"
      using c st by (simp add: entry_ok_def)
    have "entry_ok x (om_get (om_set h ?b ?m) x) (add_mset (h, ?i) (os_loads s)) (os_stores s x)" for x
      unfolding om_get_set [OF inv Some] using new s by (cases "x = h") (simp_all add: entry_other sys_inv_def)
    then show ?thesis using om_set_inv [OF inv Some, of ?b] by (simp add: sys_inv_def)
  qed
  then show ?thesis using Some by (simp add: om_load_one_def)
qed

lemma unload_one_step:
  assumes s: "sys_inv s" and h: "(h, i) \<in># os_loads s"
  shows "totE (\<lambda>m'. om_num_blocks m' = om_num_blocks (os_manager s) \<and>
           sys_inv (s\<lparr>os_manager := m', os_loads := os_loads s - {#(h, i)#}\<rparr>)) (om_unload_one h (os_manager s))"
proof -
  let ?m = "os_manager s"
  have inv: "om_inv ?m" and e: "entry_ok h (om_get ?m h) (os_loads s) (os_stores s h)" using s by (simp_all add: sys_inv_def)
  obtain b where b: "om_get ?m h = Some b" using e h by (cases "om_get ?m h") (auto simp: entry_ok_def)
  have st: "os_stores s h = None" using e h b by (cases "os_stores s h") (auto simp: entry_ok_def)
  then have c: "sint (bs_ref_cnt b) = int (count (os_loads s) (h, i))" "i = bs_block_id b"
    "\<forall>j. (h, j) \<in># os_loads s \<longrightarrow> j = i"
    using e h b by (auto simp: entry_ok_def)
  have pos: "0 < sint (bs_ref_cnt b)" using c(1) h by (simp add: count_greater_zero_iff)
  let ?b = "b\<lparr>bs_ref_cnt := bs_ref_cnt b - 1\<rparr>"
  have "sint (bs_ref_cnt ?b) = int (count (os_loads s - {#(h, i)#}) (h, i))"
    using sint_dec [OF pos] c(1) pos by simp
  then have new: "entry_ok h (Some ?b) (os_loads s - {#(h, i)#}) (os_stores s h)"
    using c st by (auto simp: entry_ok_def dest: in_diffD)
  have "entry_ok x (om_get (om_set h ?b ?m) x) (os_loads s - {#(h, i)#}) (os_stores s x)" for x
    unfolding om_get_set [OF inv b] using new s by (cases "x = h") (simp_all add: entry_other_diff sys_inv_def)
  then have "sys_inv (s\<lparr>os_manager := om_set h ?b ?m, os_loads := os_loads s - {#(h, i)#}\<rparr>)"
    using om_set_inv [OF inv b, of ?b] by (simp add: sys_inv_def)
  then show ?thesis using b pos by (simp add: om_unload_one_def)
qed

text \<open>Ending one write.\<close>

lemma store_done_step:
  assumes s: "sys_inv s"
  shows "totE (\<lambda>(st', m'). om_num_blocks m' = om_num_blocks (os_manager s) \<and>
           sys_inv (s\<lparr>os_manager := m', os_stores := (os_stores s)(h := None)\<rparr>)) (om_store_done h (st, os_manager s))"
proof -
  let ?m = "os_manager s"
  have inv: "om_inv ?m" and e: "entry_ok h (om_get ?m h) (os_loads s) (os_stores s h)" using s by (simp_all add: sys_inv_def)
  have same: "totE (\<lambda>(st', m'). om_num_blocks m' = om_num_blocks ?m \<and>
      sys_inv (s\<lparr>os_manager := m', os_stores := (os_stores s)(h := None)\<rparr>)) (Inr (st, ?m))" if "os_stores s h = None"
    using that s by (simp add: fun_upd_idem)
  show ?thesis
  proof (cases "om_get ?m h")
    case None
    then have "os_stores s h = None" using e by (simp add: entry_ok_def)
    then show ?thesis using same None by (simp add: om_store_done_def)
  next
    case (Some b)
    show ?thesis
    proof (cases "is_ready b")
      case True
      then show ?thesis using same Some entry_ready [OF e [unfolded Some]] by (simp add: om_store_done_def)
    next
      case False
      let ?b = "b\<lparr>bs_ref_cnt := 0\<rparr>"
      have no: "\<forall>i. (h, i) \<notin># os_loads s"
        using e False Some entry_ready [OF e [unfolded Some]] by (auto simp: entry_ok_def)
      then have new: "entry_ok h (Some ?b) (os_loads s) None" by (auto simp: entry_ok_def count_eq_zero_iff)
      have "entry_ok x (om_get (om_set h ?b ?m) x) (os_loads s) (((os_stores s)(h := None)) x)" for x
        unfolding om_get_set [OF inv Some] using new s by (cases "x = h") (simp_all add: sys_inv_def)
      then have "sys_inv (s\<lparr>os_manager := om_set h ?b ?m, os_stores := (os_stores s)(h := None)\<rparr>)"
        using om_set_inv [OF inv Some, of ?b] by (simp add: sys_inv_def)
      then show ?thesis using False Some by (simp add: om_store_done_def)
    qed
  qed
qed

lemma store_failed_step:
  assumes s: "sys_inv s"
  shows "totE (\<lambda>m'. om_num_blocks m' = om_num_blocks (os_manager s) \<and>
           sys_inv (s\<lparr>os_manager := m', os_stores := (os_stores s)(h := None)\<rparr>)) (om_store_failed h (os_manager s))"
proof -
  let ?m = "os_manager s"
  have inv: "om_inv ?m" and e: "entry_ok h (om_get ?m h) (os_loads s) (os_stores s h)" using s by (simp_all add: sys_inv_def)
  have same: "totE (\<lambda>m'. om_num_blocks m' = om_num_blocks ?m \<and>
      sys_inv (s\<lparr>os_manager := m', os_stores := (os_stores s)(h := None)\<rparr>)) (Inr ?m)" if "os_stores s h = None"
    using that s by (simp add: fun_upd_idem)
  show ?thesis
  proof (cases "om_get ?m h")
    case None
    then have "os_stores s h = None" using e by (simp add: entry_ok_def)
    then show ?thesis using same None by (simp add: om_store_failed_def)
  next
    case (Some b)
    show ?thesis
    proof (cases "is_ready b")
      case True
      then show ?thesis using same Some entry_ready [OF e [unfolded Some]] by (simp add: om_store_failed_def)
    next
      case False
      have ok: "pol_ok (om_policy ?m)" using inv by (simp add: om_inv_def)
      obtain p where p: "pol_remove h (om_policy ?m) = Inr p" "pol_ok p" "pol_get p = (pol_get (om_policy ?m))(h := None)"
        using pol.rem_ok [OF ok, of h b] Some by (auto simp: om_get_def)
      let ?m' = "om_free_block b (?m\<lparr>om_policy := p\<rparr>)"
      note D = om_drop_inv [OF inv Some p(2,3)]
      have "\<forall>i. (h, i) \<notin># os_loads s"
        using e False Some entry_ready [OF e [unfolded Some]] by (auto simp: entry_ok_def)
      then have "entry_ok x (om_get ?m' x) (os_loads s) (((os_stores s)(h := None)) x)" for x
        unfolding D(2) using s by (cases "x = h") (simp_all add: sys_inv_def entry_ok_def)
      then have "sys_inv (s\<lparr>os_manager := ?m', os_stores := (os_stores s)(h := None)\<rparr>)" using D(1) by (simp add: sys_inv_def)
      moreover have "om_num_blocks ?m' = om_num_blocks ?m" by (simp add: om_free_block_def)
      ultimately show ?thesis using False Some p(1) by (simp add: om_store_failed_def)
    qed
  qed
qed

section \<open>Whole operations\<close>

lemma prepare_load_step:
  assumes "sys_inv s" "size (os_loads s) + length hs < 2 ^ 31"
  shows "okE (\<lambda>(ids', m'). \<exists>new. ids' = ids @ new \<and> length new = length hs \<and>
           om_num_blocks m' = om_num_blocks (os_manager s) \<and>
           sys_inv (s\<lparr>os_manager := m', os_loads := os_loads s + mset (zip hs new)\<rparr>))
           (foldE om_load_one hs (ids, os_manager s))"
  using assms
proof (induction hs arbitrary: s ids)
  case (Cons h hs)
  have size: "size (os_loads s) < 2 ^ 31 - 1" using Cons.prems(2) by simp
  show ?case unfolding foldE.simps okE_simps
  proof (rule okE_conseq [OF load_one_step [OF Cons.prems(1) size]], clarify)
    fix m1 i
    let ?s = "s\<lparr>os_manager := m1, os_loads := add_mset (h, i) (os_loads s)\<rparr>"
    assume m1: "om_num_blocks m1 = om_num_blocks (os_manager s)" and inv: "sys_inv ?s"
    have "okE (\<lambda>(ids', m'). \<exists>new. ids' = (ids @ [i]) @ new \<and> length new = length hs \<and>
           om_num_blocks m' = om_num_blocks (os_manager ?s) \<and>
           sys_inv (?s\<lparr>os_manager := m', os_loads := os_loads ?s + mset (zip hs new)\<rparr>))
           (foldE om_load_one hs (ids @ [i], os_manager ?s))"
      by (rule Cons.IH [OF inv]) (use Cons.prems(2) in simp)
    then have I: "okE (\<lambda>(ids', m'). \<exists>new. ids' = (ids @ [i]) @ new \<and> length new = length hs \<and>
           om_num_blocks m' = om_num_blocks m1 \<and>
           sys_inv (s\<lparr>os_manager := m', os_loads := add_mset (h, i) (os_loads s) + mset (zip hs new)\<rparr>))
           (foldE om_load_one hs (ids @ [i], m1))" by simp
    show "okE (\<lambda>(ids', m'). \<exists>new. ids' = ids @ new \<and> length new = length (h # hs) \<and>
           om_num_blocks m' = om_num_blocks (os_manager s) \<and>
           sys_inv (s\<lparr>os_manager := m', os_loads := os_loads s + mset (zip (h # hs) new)\<rparr>))
           (foldE om_load_one hs (ids @ [i], m1))"
    proof (rule okE_conseq [OF I], clarify)
      fix m' new
      assume "length new = length hs" "om_num_blocks m' = om_num_blocks m1"
        "sys_inv (s\<lparr>os_manager := m', os_loads := add_mset (h, i) (os_loads s) + mset (zip hs new)\<rparr>)"
      then show "\<exists>n. (ids @ [i]) @ new = ids @ n \<and> length n = length (h # hs) \<and>
           om_num_blocks m' = om_num_blocks (os_manager s) \<and>
           sys_inv (s\<lparr>os_manager := m', os_loads := os_loads s + mset (zip (h # hs) n)\<rparr>)"
        using m1 by (intro exI [of _ "i # new"]) simp
    qed
  qed
qed simp

text \<open>Loading never fails when every block is ready.\<close>

lemma load_total:
  assumes "sys_inv s" "size (os_loads s) + length hs < 2 ^ 31"
    "\<forall>h \<in> set hs. \<exists>b. om_get (os_manager s) h = Some b \<and> is_ready b"
  shows "\<exists>x. foldE om_load_one hs (ids, os_manager s) = Inr x"
  using assms
proof (induction hs arbitrary: s ids)
  case (Cons h hs)
  let ?m = "os_manager s"
  obtain b where b: "om_get ?m h = Some b" "is_ready b" using Cons.prems(3) by auto
  let ?b = "b\<lparr>bs_ref_cnt := bs_ref_cnt b + 1\<rparr>"
  have inv: "om_inv ?m" using Cons.prems(1) by (simp add: sys_inv_def)
  have one: "om_load_one h (ids, ?m) = Inr (ids @ [bs_block_id b], om_set h ?b ?m)" using b by (simp add: om_load_one_def)
  have size: "size (os_loads s) < 2 ^ 31 - 1" using Cons.prems(2) by simp
  have inv2: "sys_inv (s\<lparr>os_manager := om_set h ?b ?m, os_loads := add_mset (h, bs_block_id b) (os_loads s)\<rparr>)"
    (is "sys_inv ?s") using okED [OF load_one_step [OF Cons.prems(1) size] one] by auto
  have "is_ready ?b"
  proof -
    have "entry_ok h (om_get (os_manager ?s) h) (os_loads ?s) (os_stores ?s h)" using inv2 unfolding sys_inv_def by blast
    then have "entry_ok h (Some ?b) (os_loads ?s) (os_stores s h)" using om_get_set [OF inv b(1), of ?b] by simp
    moreover have "entry_ok h (om_get ?m h) (os_loads s) (os_stores s h)" using Cons.prems(1) unfolding sys_inv_def by blast
    then have "os_stores s h = None" using entry_ready [of h b] b by simp
    ultimately show ?thesis using entry_ready [of h ?b] by simp
  qed
  then have "\<forall>x \<in> set hs. \<exists>b. om_get (os_manager ?s) x = Some b \<and> is_ready b"
    using Cons.prems(3) om_get_set [OF inv b(1), of ?b] by auto
  then have "\<exists>x. foldE om_load_one hs (ids @ [bs_block_id b], os_manager ?s) = Inr x"
    using Cons.IH [OF inv2] Cons.prems(2) by simp
  then show ?case by (simp add: one)
qed simp

lemma complete_load_step:
  assumes "sys_inv s" "mset xs \<subseteq># os_loads s"
  shows "totE (\<lambda>m'. om_num_blocks m' = om_num_blocks (os_manager s) \<and>
           sys_inv (s\<lparr>os_manager := m', os_loads := os_loads s - mset xs\<rparr>))
           (om_complete_load (map fst xs) (os_manager s))"
  unfolding om_complete_load_def
  using assms
proof (induction xs arbitrary: s)
  case (Cons x xs)
  obtain h i where x: "x = (h, i)" by (cases x)
  have mem: "(h, i) \<in># os_loads s" using Cons.prems(2) by (simp add: x insert_subset_eq_iff)
  show ?case unfolding list.map foldE.simps totE_simps x fst_conv
  proof (rule totE_conseq [OF unload_one_step [OF Cons.prems(1) mem]], elim conjE)
    fix m1
    let ?s = "s\<lparr>os_manager := m1, os_loads := os_loads s - {#(h, i)#}\<rparr>"
    assume m1: "om_num_blocks m1 = om_num_blocks (os_manager s)" and inv: "sys_inv ?s"
    have "mset xs \<subseteq># os_loads ?s" using Cons.prems(2) by (simp add: x insert_subset_eq_iff)
    from Cons.IH [OF inv this] m1
    show "totE (\<lambda>m'. om_num_blocks m' = om_num_blocks (os_manager s) \<and>
           sys_inv (s\<lparr>os_manager := m', os_loads := os_loads s - mset ((h, i) # xs)\<rparr>))
           (foldE om_unload_one (map fst xs) m1)" by simp
  qed
qed simp

lemma complete_store_step:
  assumes "sys_inv s"
  shows "totE (\<lambda>m'. om_num_blocks m' = om_num_blocks (os_manager s) \<and>
           sys_inv (s\<lparr>os_manager := m', os_stores := os_stores s |` (- set hs)\<rparr>))
           (om_complete_store hs success (os_manager s))"
proof -
  have del: "((f :: bytes \<rightharpoonup> int)(h := None)) |` (- set hs) = f |` (- set (h # hs))" for f h hs
    by (auto simp: fun_eq_iff restrict_map_def)
  define ok where "ok m S \<longleftrightarrow> om_num_blocks m = om_num_blocks (os_manager s) \<and>
      sys_inv (s\<lparr>os_manager := m, os_stores := S\<rparr>)" for m S
  have start: "ok (os_manager s) (os_stores s)" using assms by (simp add: ok_def)
  have one: "totE (\<lambda>(st', m'). ok m' (S(h := None))) (om_store_done h (st, m))"
    "totE (\<lambda>m'. ok m' (S(h := None))) (om_store_failed h m)" if "ok m S" for h st m S
    using store_done_step [of "s\<lparr>os_manager := m, os_stores := S\<rparr>" h st]
      store_failed_step [of "s\<lparr>os_manager := m, os_stores := S\<rparr>" h] that
    by (auto simp: ok_def totE_def)
  have done_all: "totE (\<lambda>(st', m'). ok m' (S |` (- set hs))) (foldE om_store_done hs (st, m))" if "ok m S" for st m S
    using that
  proof (induction hs arbitrary: m S st)
    case (Cons h hs)
    show ?case unfolding foldE.simps totE_simps del [symmetric]
      by (rule totE_conseq [OF one(1) [OF Cons.prems]], clarify) (rule Cons.IH)
  qed (simp add: restrict_map_def)
  have failed_all: "totE (\<lambda>m'. ok m' (S |` (- set hs))) (foldE om_store_failed hs m)" if "ok m S" for m S
    using that
  proof (induction hs arbitrary: m S)
    case (Cons h hs)
    show ?case unfolding foldE.simps totE_simps del [symmetric]
      by (rule totE_conseq [OF one(2) [OF Cons.prems]]) (rule Cons.IH)
  qed (simp add: restrict_map_def)
  show ?thesis
  proof (cases success)
    case True
    obtain st' m' where f: "foldE om_store_done hs ([], os_manager s) = Inr (st', m')" "ok m' (os_stores s |` (- set hs))"
      using done_all [OF start, of "[]"] by (auto simp: totE_def)
    have "ok (om_note st' False m') (os_stores s |` (- set hs))" using f(2) by (simp add: ok_def sys_inv_def)
    then show ?thesis using f(1) True by (simp add: om_complete_store_def ok_def)
  next
    case False
    then show ?thesis using failed_all [OF start] by (simp add: om_complete_store_def ok_def)
  qed
qed

text \<open>The slots of a store are added to the writes under way.\<close>

definition stores_after :: "prepare_store_output option \<Rightarrow> (bytes \<rightharpoonup> int) \<Rightarrow> (bytes \<rightharpoonup> int)" where
  "stores_after out S =
     (case out of None \<Rightarrow> S | Some x \<Rightarrow> S ++ map_of (zip (ps_to_store x) (ps_block_ids x)))"

lemma prepare_store_step:
  assumes s: "sys_inv s" and hs: "distinct hs"
  shows "totE (\<lambda>(out, m'). om_num_blocks m' = om_num_blocks (os_manager s) \<and>
           sys_inv (s\<lparr>os_manager := m', os_stores := stores_after out (os_stores s)\<rparr>))
           (om_prepare_store hs (os_manager s))"
proof -
  let ?m = "os_manager s"
  have inv: "om_inv ?m" using s by (simp add: sys_inv_def)
  show ?thesis
  proof (rule totE_conseq [OF prepare_store_effect [OF inv hs]], clarify)
    fix out m'
    assume eff: "store_effect hs ?m (out, m')"
    show "om_num_blocks m' = om_num_blocks ?m \<and>
           sys_inv (s\<lparr>os_manager := m', os_stores := stores_after out (os_stores s)\<rparr>)"
    proof (cases out)
      case None
      then show ?thesis using eff s by (simp add: store_effect_def stores_after_def)
    next
      case (Some x)
      let ?ts = "ps_to_store x" and ?ids = "ps_block_ids x"
      have e: "om_inv m'" "om_num_blocks m' = om_num_blocks ?m" "?ts = filter (\<lambda>h. om_get ?m h = None) hs"
        "\<forall>h \<in> set (ps_evicted x). h \<notin> set hs \<and> (\<exists>b. om_get ?m h = Some b \<and> bs_ref_cnt b = 0)"
        "om_get m' = (\<lambda>h. if h \<in> set (ps_evicted x) then None else om_get ?m h) ++
                       map_of (zip ?ts (map new_block_status ?ids))"
        using eff Some by (simp_all add: store_effect_def)
      have "entry_ok h (om_get m' h) (os_loads s) ((os_stores s ++ map_of (zip ?ts ?ids)) h)" for h
      proof -
        have old: "entry_ok h (om_get ?m h) (os_loads s) (os_stores s h)" using s by (simp add: sys_inv_def)
        show ?thesis
        proof (cases "map_of (zip ?ts ?ids) h")
          case (Some i)
          then have "h \<in> set ?ts" by (auto dest: map_of_SomeD set_zip_leftD)
          then have no: "om_get ?m h = None" using e(3) by simp
          have "om_get m' h = Some (new_block_status i)"
            unfolding e(5) by (simp add: map_add_def map_of_zip_map Some)
          then show ?thesis using old no Some by (simp add: entry_ok_def new_block_status_def map_add_def)
        next
          case None
          then have g: "om_get m' h = (if h \<in> set (ps_evicted x) then None else om_get ?m h)"
            unfolding e(5) by (simp add: map_add_def map_of_zip_map)
          have st: "(os_stores s ++ map_of (zip ?ts ?ids)) h = os_stores s h" using None by (simp add: map_add_def)
          show ?thesis
          proof (cases "h \<in> set (ps_evicted x)")
            case True
            then obtain b where b: "om_get ?m h = Some b" "bs_ref_cnt b = 0" using e(4) by blast
            then have "os_stores s h = None" using old by (auto simp: entry_ok_def split: option.splits)
            moreover have "(h, i) \<notin># os_loads s" for i
              using old b calculation by (auto simp: entry_ok_def count_eq_zero_iff)
            ultimately show ?thesis unfolding g st using True by (simp add: entry_ok_def)
          qed (use old in \<open>simp add: g st\<close>)
        qed
      qed
      then show ?thesis using e Some by (simp add: sys_inv_def stores_after_def)
    qed
  qed
qed

end
