(* ===== verification/Offload_Props.thy ===== *)
theory Offload_Props
  imports Offload_Safe
begin

text \<open>
  The properties of CPU offloading: the transfer system, what holds in each of its states, when a store
  is refused, and the filter of reused blocks.
\<close>

section \<open>The transfer system\<close>

inductive off_step :: "offload_sys \<Rightarrow> offload_sys \<Rightarrow> bool" where
  Touch: "off_step s (s\<lparr>os_manager := om_touch hs (os_manager s)\<rparr>)"
| Begin_load: "\<lbrakk>om_prepare_load hs (os_manager s) = Inr (ids, m'); size (os_loads s) + length hs < 2 ^ 31\<rbrakk> \<Longrightarrow>
     off_step s (s\<lparr>os_manager := m', os_loads := os_loads s + mset (zip hs ids)\<rparr>)"
| End_load: "\<lbrakk>mset xs \<subseteq># os_loads s; om_complete_load (map fst xs) (os_manager s) = Inr m'\<rbrakk> \<Longrightarrow>
     off_step s (s\<lparr>os_manager := m', os_loads := os_loads s - mset xs\<rparr>)"
| Begin_store: "\<lbrakk>distinct hs; om_prepare_store hs (os_manager s) = Inr (out, m')\<rbrakk> \<Longrightarrow>
     off_step s (s\<lparr>os_manager := m', os_stores := stores_after out (os_stores s)\<rparr>)"
| End_store: "om_complete_store hs success (os_manager s) = Inr m' \<Longrightarrow>
     off_step s (s\<lparr>os_manager := m', os_stores := os_stores s |` (- set hs)\<rparr>)"
| Events: "om_take_events (os_manager s) = (es, m') \<Longrightarrow> off_step s (s\<lparr>os_manager := m'\<rparr>)"

inductive off_reach :: "int \<Rightarrow> offload_sys \<Rightarrow> bool" for num_blocks where
  off_start: "init_cpu_manager block_size num_blocks policy events = Inr m \<Longrightarrow>
     off_reach num_blocks \<lparr>os_manager = m, os_loads = {#}, os_stores = Map.empty\<rparr>"
| off_next: "off_reach num_blocks s \<Longrightarrow> off_step s s' \<Longrightarrow> off_reach num_blocks s'"

lemma off_step_inv:
  assumes "off_step s s'" "sys_inv s"
  shows "sys_inv s' \<and> om_num_blocks (os_manager s') = om_num_blocks (os_manager s)"
  using assms
proof (cases rule: off_step.cases)
  case (Touch hs)
  have "om_inv (os_manager s)" using assms(2) by (simp add: sys_inv_def)
  then show ?thesis using Touch om_touch_inv [of "os_manager s" hs] assms(2) by (simp add: sys_inv_def)
next
  case (Begin_load hs ids m')
  then show ?thesis
    using okED [OF prepare_load_step [OF assms(2) Begin_load(3), of "[]"] Begin_load(2) [unfolded om_prepare_load_def]] by simp
next
  case (End_load xs m')
  then show ?thesis using complete_load_step [OF assms(2) End_load(2)] by (simp add: totE_def)
next
  case (Begin_store hs out m')
  then show ?thesis using prepare_store_step [OF assms(2) Begin_store(2)] by (simp add: totE_def)
next
  case (End_store hs success m')
  then show ?thesis using complete_store_step [OF assms(2), of hs success] by (simp add: totE_def)
next
  case (Events es m')
  then have "om_policy m' = om_policy (os_manager s)" "om_num_blocks m' = om_num_blocks (os_manager s)"
    "om_num_allocated m' = om_num_allocated (os_manager s)" "om_free_list m' = om_free_list (os_manager s)"
    by (auto simp: om_take_events_def split: option.splits)
  then show ?thesis using Events assms(2)
    by (simp add: sys_inv_def om_inv_def om_slot_def [abs_def] om_get_def)
qed

lemma init_manager_inv:
  assumes "init_cpu_manager bs n policy events = Inr m" "0 \<le> n"
  shows "om_inv m" "om_get m = Map.empty" "om_num_blocks m = n"
proof -
  have p: "om_policy m = LRU (init_lru n) \<or> om_policy m = ARC (init_arc n)"
    and m: "om_num_blocks m = n" "om_num_allocated m = 0" "om_free_list m = []"
    using assms(1) by (auto simp: init_cpu_manager_def split: if_splits)
  show g: "om_get m = Map.empty"
    using p by (auto simp: fun_eq_iff om_get_def init_lru_def init_arc_def lru_get_def arc_get_def)
  have "pol_ok (om_policy m)" using p assms(2) by (auto simp: init_lru_def init_arc_def lru_ok_def arc_ok_def)
  moreover have "om_slot m = Map.empty" by (simp add: om_slot_def g fun_eq_iff)
  ultimately show "om_inv m" using m assms(2) by (simp add: om_inv_def slots_ok_def)
  show "om_num_blocks m = n" by (rule m)
qed

lemma off_reach_inv: "off_reach n s \<Longrightarrow> 0 \<le> n \<Longrightarrow> sys_inv s \<and> om_num_blocks (os_manager s) = n"
proof (induction rule: off_reach.induct)
  case (off_start block_size policy events m)
  note I = init_manager_inv [OF off_start(1,2)]
  show ?case using I by (simp add: sys_inv_def entry_ok_def)
qed (auto dest: off_step_inv)

section \<open>Properties\<close>

text \<open>C6 (offload_transfers_safe): In every state of the transfer system a slot that is being read belongs to the hash
  it is read for, which is still stored and ready; a slot that is being written belongs to a hash that
  is not yet readable; slots under transfer are within the buffer and not free, and two transfers that
  use the same slot are for the same hash. So no eviction and no store ever overwrites a slot under a
  running transfer, whatever the policy.\<close>

theorem offload_transfers_safe:
  assumes "off_reach n s" "0 \<le> n"
  defines "busy \<equiv> \<lambda>h i. (h, i) \<in># os_loads s \<or> os_stores s h = Some i"
  shows "((h, i) \<in># os_loads s \<longrightarrow>
      (\<exists>b. om_get (os_manager s) h = Some b \<and> is_ready b \<and> bs_block_id b = i \<and> bs_ref_cnt b \<noteq> 0)) \<and>
    (os_stores s h = Some i \<longrightarrow> (\<exists>b. om_get (os_manager s) h = Some b \<and> \<not> is_ready b \<and> bs_block_id b = i)) \<and>
    (busy h i \<longrightarrow> 0 \<le> i \<and> i < n \<and> i \<notin> set (om_free_list (os_manager s))) \<and>
    (busy h i \<longrightarrow> busy h' i \<longrightarrow> h = h')"
proof -
  let ?m = "os_manager s"
  have s: "sys_inv s" and n: "om_num_blocks ?m = n" using off_reach_inv [OF assms(1,2)] by auto
  have so: "slots_ok (om_slot ?m) (om_free_list ?m) (om_num_allocated ?m)" "om_num_allocated ?m \<le> n"
    using s n by (simp_all add: sys_inv_def om_inv_def)
  have e: "entry_ok h (om_get ?m h) (os_loads s) (os_stores s h)" for h using s by (simp add: sys_inv_def)
  have load: "\<exists>b. om_get ?m h = Some b \<and> is_ready b \<and> bs_block_id b = i \<and> bs_ref_cnt b \<noteq> 0" if l: "(h, i) \<in># os_loads s" for h i
  proof -
    obtain b where b: "om_get ?m h = Some b" using e [of h] l by (cases "om_get ?m h") (auto simp: entry_ok_def)
    have st: "os_stores s h = None" using e [of h] l b by (cases "os_stores s h") (auto simp: entry_ok_def)
    then have c: "sint (bs_ref_cnt b) = int (count (os_loads s) (h, i))" "bs_block_id b = i"
      using e [of h] b l by (auto simp: entry_ok_def)
    have "bs_ref_cnt b \<noteq> 0" using c(1) l by (metis count_eq_zero_iff of_nat_eq_0_iff sint_0)
    then show ?thesis using b c entry_ready [OF e [of h, unfolded b]] st by blast
  qed
  have store: "\<exists>b. om_get ?m h = Some b \<and> \<not> is_ready b \<and> bs_block_id b = i" if st: "os_stores s h = Some i" for h i
  proof -
    obtain b where b: "om_get ?m h = Some b" using e [of h] st by (cases "om_get ?m h") (auto simp: entry_ok_def)
    then show ?thesis using e [of h] st entry_ready [OF e [of h, unfolded b]] by (simp add: entry_ok_def)
  qed
  have slot: "om_slot ?m h = Some i" if "busy h i" for h i
    using that load store unfolding busy_def om_slot_def by fastforce
  show ?thesis
    using load [of h i] store [of h i] slot [of h i] slot [of h' i] slots_range [OF so(1), of h i] slots_inj [OF so(1), of h i h'] so(2)
    by auto
qed

text \<open>C20 (offload_calls_never_fail): In every state of the transfer system no call of a correct client fails: preparing to
  load ready blocks, ending loads under way, preparing to store distinct hashes and ending a store,
  successful or not, raise no error.\<close>

theorem offload_calls_never_fail:
  assumes "off_reach n s" "0 \<le> n"
  shows "((\<forall>h \<in> set hs. \<exists>b. om_get (os_manager s) h = Some b \<and> is_ready b) \<longrightarrow>
      size (os_loads s) + length hs < 2 ^ 31 \<longrightarrow> \<not> isl (om_prepare_load hs (os_manager s))) \<and>
    (mset xs \<subseteq># os_loads s \<longrightarrow> \<not> isl (om_complete_load (map fst xs) (os_manager s))) \<and>
    (distinct hs \<longrightarrow> \<not> isl (om_prepare_store hs (os_manager s))) \<and>
    \<not> isl (om_complete_store hs success (os_manager s))"
proof -
  have s: "sys_inv s" using off_reach_inv [OF assms] by simp
  have load: "\<not> isl (om_prepare_load hs (os_manager s))"
    if "\<forall>h \<in> set hs. \<exists>b. om_get (os_manager s) h = Some b \<and> is_ready b" "size (os_loads s) + length hs < 2 ^ 31"
    using load_total [OF s that(2,1), of "[]"] by (auto simp: om_prepare_load_def)
  have "\<not> isl (om_complete_load (map fst xs) (os_manager s))" if "mset xs \<subseteq># os_loads s"
    using complete_load_step [OF s that] by (auto simp: totE_def)
  moreover have "\<not> isl (om_prepare_store hs (os_manager s))" if "distinct hs"
    using prepare_store_step [OF s that] by (auto simp: totE_def)
  moreover have "\<not> isl (om_complete_store hs success (os_manager s))"
    using complete_store_step [OF s, of hs success] by (auto simp: totE_def)
  ultimately show ?thesis using load by blast
qed

text \<open>C34 (lru_refuses_iff_full): With the least-recently-used policy a store is refused exactly when the new blocks need more
  slots than are free or hold an idle block that is not itself among the hashes of the store.\<close>

theorem lru_refuses_iff_full:
  assumes "off_reach n s" "0 \<le> n" "distinct hs" "om_policy (os_manager s) = LRU p"
  shows "om_prepare_store hs (os_manager s) = Inr (None, os_manager s) \<longleftrightarrow>
    om_num_free_blocks (os_manager s) +
      int (card {h. \<exists>b. om_get (os_manager s) h = Some b \<and> bs_ref_cnt b = 0 \<and> h \<notin> set hs}) <
    int (length (filter (\<lambda>h. om_get (os_manager s) h = None) hs))"
proof -
  let ?m = "os_manager s"
  let ?E = "{h. \<exists>b. om_get ?m h = Some b \<and> bs_ref_cnt b = 0 \<and> h \<notin> set hs}"
  define ts where "ts = filter (\<lambda>h. om_get ?m h = None) hs"
  define k where "k = int (length ts) - om_num_free_blocks ?m"
  have s: "sys_inv s" using off_reach_inv [OF assms(1,2)] by simp
  then have inv: "om_inv ?m" by (simp add: sys_inv_def)
  then have ok: "lru_ok p" and free: "0 \<le> om_num_free_blocks ?m"
    using assms(4) by (simp_all add: om_inv_def om_num_free_blocks_def)
  have E: "{h. \<exists>b. lru_get p h = Some b \<and> evictable (set hs) (h, b)} = ?E"
    using assms(4) by (auto simp: om_get_def evictable_def)
  obtain x where x: "om_prepare_store hs ?m = Inr x" "store_effect hs ?m x"
    using prepare_store_effect [OF inv assms(3)] by (auto simp: totE_def)
  have pe: "om_prepare_store hs ?m = Inr (None, ?m) \<longleftrightarrow>
      ts \<noteq> [] \<and> 0 < k \<and> lru_evict k (set hs) p = Inr None"
  proof (cases "ts \<noteq> [] \<and> 0 < k")
    case True
    obtain r where r: "lru_evict k (set hs) p = Inr r" using lru.evict_total [OF ok] True by blast
    then have pr: "pol_evict k (set hs) (om_policy ?m) = Inr (map_option (map_prod id LRU) r)" using assms(4) by simp
    show ?thesis
    proof (cases r)
      case None
      then have "om_prepare_store hs ?m = Inr (None, ?m)"
        using True pr unfolding om_prepare_store_def Let_def ts_def [symmetric] k_def [symmetric] by simp
      then show ?thesis using True r None by simp
    next
      case (Some vp)
      then have "om_prepare_store hs ?m \<noteq> Inr (None, ?m)"
        using True pr unfolding om_prepare_store_def Let_def ts_def [symmetric] k_def [symmetric]
        by (auto split: prod.splits)
      then show ?thesis using r Some by simp
    qed
  next
    case False
    then have "om_prepare_store hs ?m \<noteq> Inr (None, ?m)"
      unfolding om_prepare_store_def Let_def ts_def [symmetric] k_def [symmetric] by auto
    then show ?thesis using False by blast
  qed
  also have "\<dots> \<longleftrightarrow> ts \<noteq> [] \<and> 0 < k \<and> int (card ?E) < k"
  proof (cases "0 < k")
    case True
    obtain r where "lru_evict k (set hs) p = Inr r" using lru.evict_total [OF ok True] by blast
    then show ?thesis using lru.evict_iff [OF ok True, of "set hs"] True unfolding E by (cases r) auto
  qed simp
  also have "\<dots> \<longleftrightarrow> om_num_free_blocks ?m + int (card ?E) < int (length ts)"
    using free by (auto simp: k_def)
  finally show ?thesis by (simp add: ts_def)
qed

section \<open>A refusal with room left\<close>

text \<open>Two blocks; the first evicted one is looked up twice again, so that the recent part is meant to be as
  large as the buffer; the block that is then looked up is frequent and being loaded.\<close>

definition crowded :: "string \<Rightarrow> (cpu_manager \<times> prepare_store_output option) res" where
  "crowded policy =
     bindE (init_cpu_manager 16 2 policy False) (\<lambda>m0.
     bindE (om_prepare_store [[1]] m0) (\<lambda>(_, m1).
     bindE (om_complete_store [[1]] True m1) (\<lambda>m2.
     bindE (om_prepare_store [[2], [3]] m2) (\<lambda>(_, m3).
     bindE (om_complete_store [[2], [3]] True m3) (\<lambda>m4.
     let m5 = om_touch [[2]] (om_touch [[1]] (om_touch [[1]] m4)) in
     bindE (om_prepare_load [[2]] m5) (\<lambda>(_, m6).
     bindE (om_prepare_store [[4]] m6) (\<lambda>(out, m7). Inr (m6, out))))))))"

text \<open>The adaptive policy can refuse a store although an idle block that is not asked for could be
  evicted: while the recent part is below its target size only frequent blocks are considered, even
  when all of them are in use. After the same calls the least-recently-used policy makes room.\<close>

theorem arc_refuses_with_room:
  "(case crowded ''arc'' of
      Inl e \<Rightarrow> False
    | Inr (m, out) \<Rightarrow> out = None \<and> map_option bs_ref_cnt (om_get m [3]) = Some 0) \<and>
   (case crowded ''lru'' of
      Inl e \<Rightarrow> False
    | Inr (m, out) \<Rightarrow> map_option ps_evicted out = Some [[3]] \<and> map_option bs_ref_cnt (om_get m [3]) = Some 0)"
proof -
  have "(case crowded ''arc'' of Inl e \<Rightarrow> Inl e
      | Inr (m, out) \<Rightarrow> Inr (map_option ps_evicted out, map_option bs_ref_cnt (om_get m [3]))) = Inr (None, Some 0)"
    by code_simp
  moreover have "(case crowded ''lru'' of Inl e \<Rightarrow> Inl e
      | Inr (m, out) \<Rightarrow> Inr (map_option ps_evicted out, map_option bs_ref_cnt (om_get m [3]))) = Inr (Some [[3]], Some 0)"
    by code_simp
  ultimately show ?thesis by (auto split: sum.splits prod.splits)
qed

section \<open>Only reused blocks are stored\<close>

record reuse_manager =
  rm_backing :: cpu_manager
  rm_store_threshold :: int
  rm_max_tracker_size :: int
  rm_counts :: "int odict"

definition init_reuse_manager :: "cpu_manager \<Rightarrow> int \<Rightarrow> int \<Rightarrow> reuse_manager res" where
  "init_reuse_manager backing threshold max_size =
     (if threshold < 2 then Inl ValueError
      else if max_size < 1 then Inl ValueError
      else Inr \<lparr>rm_backing = backing, rm_store_threshold = threshold, rm_max_tracker_size = max_size,
                rm_counts = []\<rparr>)"

definition track_one :: "int \<Rightarrow> bytes \<Rightarrow> int odict \<Rightarrow> int odict" where
  "track_one max_size h d =
     (case od_get d h of
        Some n \<Rightarrow> od_set h (n + 1) (od_move_to_end h d)
      | None \<Rightarrow>
          let d1 = (if int (length d) \<ge> max_size then tl d else d)
          in od_set h 1 d1)"

definition rm_lookup :: "bytes list \<Rightarrow> reuse_manager \<Rightarrow> int \<times> reuse_manager" where
  "rm_lookup hs r =
     (om_lookup hs (rm_backing r),
      r\<lparr>rm_counts := fold (track_one (rm_max_tracker_size r)) hs (rm_counts r)\<rparr>)"

definition rm_prepare_store ::
  "bytes list \<Rightarrow> reuse_manager \<Rightarrow> (prepare_store_output option \<times> reuse_manager) res" where
  "rm_prepare_store hs r =
     (let eligible = filter (\<lambda>h. (case od_get (rm_counts r) h of None \<Rightarrow> 0 | Some n \<Rightarrow> n) \<ge> rm_store_threshold r) hs in
      bindE (om_prepare_store eligible (rm_backing r)) (\<lambda>(out, m). Inr (out, r\<lparr>rm_backing := m\<rparr>)))"

definition rm_prepare_load :: "bytes list \<Rightarrow> reuse_manager \<Rightarrow> (int list \<times> reuse_manager) res" where
  "rm_prepare_load hs r = bindE (om_prepare_load hs (rm_backing r)) (\<lambda>(ids, m). Inr (ids, r\<lparr>rm_backing := m\<rparr>))"

definition rm_touch :: "bytes list \<Rightarrow> reuse_manager \<Rightarrow> reuse_manager" where
  "rm_touch hs r = r\<lparr>rm_backing := om_touch hs (rm_backing r)\<rparr>"

definition rm_complete_load :: "bytes list \<Rightarrow> reuse_manager \<Rightarrow> reuse_manager res" where
  "rm_complete_load hs r = bindE (om_complete_load hs (rm_backing r)) (\<lambda>m. Inr (r\<lparr>rm_backing := m\<rparr>))"

definition rm_complete_store :: "bytes list \<Rightarrow> bool \<Rightarrow> reuse_manager \<Rightarrow> reuse_manager res" where
  "rm_complete_store hs success r =
     bindE (om_complete_store hs success (rm_backing r)) (\<lambda>m. Inr (r\<lparr>rm_backing := m\<rparr>))"

definition rm_take_events :: "reuse_manager \<Rightarrow> offloading_event list \<times> reuse_manager" where
  "rm_take_events r = (let (es, m) = om_take_events (rm_backing r) in (es, r\<lparr>rm_backing := m\<rparr>))"

text \<open>A run of the manager with the hashes looked up so far.\<close>

inductive reuse_run :: "reuse_manager \<Rightarrow> bytes multiset \<Rightarrow> reuse_manager \<Rightarrow> bool" for start where
  Reuse_start: "reuse_run start {#} start"
| Reuse_lookup: "\<lbrakk>reuse_run start seen r; rm_lookup hs r = (hits, r')\<rbrakk> \<Longrightarrow> reuse_run start (seen + mset hs) r'"
| Reuse_store: "\<lbrakk>reuse_run start seen r; rm_prepare_store hs r = Inr (out, r')\<rbrakk> \<Longrightarrow> reuse_run start seen r'"
| Reuse_load: "\<lbrakk>reuse_run start seen r; rm_prepare_load hs r = Inr (ids, r')\<rbrakk> \<Longrightarrow> reuse_run start seen r'"
| Reuse_touch: "\<lbrakk>reuse_run start seen r; rm_touch hs r = r'\<rbrakk> \<Longrightarrow> reuse_run start seen r'"
| Reuse_loaded: "\<lbrakk>reuse_run start seen r; rm_complete_load hs r = Inr r'\<rbrakk> \<Longrightarrow> reuse_run start seen r'"
| Reuse_stored: "\<lbrakk>reuse_run start seen r; rm_complete_store hs success r = Inr r'\<rbrakk> \<Longrightarrow> reuse_run start seen r'"
| Reuse_events: "\<lbrakk>reuse_run start seen r; rm_take_events r = (es, r')\<rbrakk> \<Longrightarrow> reuse_run start seen r'"

definition tracks :: "int \<Rightarrow> bytes multiset \<Rightarrow> int odict \<Rightarrow> bool" where
  "tracks max_size seen d \<longleftrightarrow>
     distinct (map fst d) \<and> int (length d) \<le> max_size \<and>
     (\<forall>h n. od_get d h = Some n \<longrightarrow> 1 \<le> n \<and> n \<le> int (count seen h))"

lemma length_od_set: "length (od_set h v d) = (if od_has h d then length d else Suc (length d))"
  by (simp add: od_set_def)

lemma track_one_ok:
  assumes t: "tracks k seen d" and k: "1 \<le> k"
  shows "tracks k (add_mset h seen) (track_one k h d)"
proof (cases "od_get d h")
  case (Some n)
  have "od_has h (od_move_to_end h d)" using Some by (simp add: od_has_iff)
  then have "length (track_one k h d) = length d" using Some by (simp add: track_one_def length_od_set)
  moreover have "od_get (track_one k h d) x = (if x = h then Some (n + 1) else od_get d x)" for x
    using Some by (simp add: track_one_def)
  moreover have "distinct (map fst (track_one k h d))"
    using t Some by (simp add: tracks_def track_one_def od_distinct_set od_distinct_move)
  ultimately show ?thesis using t Some unfolding tracks_def by (auto split: if_splits) force+
next
  case None
  let ?d = "if int (length d) \<ge> k then tl d else d"
  have d: "distinct (map fst ?d)" "int (length ?d) < k"
    using t k by (auto simp: tracks_def map_tl distinct_tl)
  have sub: "od_get ?d x = Some n \<Longrightarrow> od_get d x = Some n" for x n
  proof (cases d)
    case (Cons e es)
    then have "\<not> od_has (fst e) es" using t by (simp add: tracks_def od_has_def)
    then show "od_get ?d x = Some n \<Longrightarrow> od_get d x = Some n"
      using od_has_iff [of "fst e" es] Cons by (auto split: if_splits)
  next
    case Nil
    then show "od_get ?d x = Some n \<Longrightarrow> od_get d x = Some n" by (simp split: if_splits)
  qed
  have no: "od_get ?d h = None" using sub [of h] None by (cases "od_get ?d h") auto
  have eq: "track_one k h d = od_set h 1 ?d" using None by (simp add: track_one_def Let_def)
  have "\<not> od_has h ?d" using no by (simp add: od_get_None)
  then have "int (length (track_one k h d)) \<le> k" using d(2) unfolding eq by (simp add: length_od_set)
  moreover have "distinct (map fst (track_one k h d))" unfolding eq using d(1) by (rule od_distinct_set)
  moreover have "1 \<le> n \<and> n \<le> int (count (add_mset h seen) x)" if "od_get (track_one k h d) x = Some n" for x n
  proof (cases "x = h")
    case True
    then show ?thesis using that unfolding eq by simp
  next
    case False
    then have "od_get d x = Some n" using that sub unfolding eq by simp
    then show ?thesis using t False by (auto simp: tracks_def)
  qed
  ultimately show ?thesis by (simp add: tracks_def)
qed

lemma track_all_ok:
  "tracks k seen d \<Longrightarrow> 1 \<le> k \<Longrightarrow> tracks k (seen + mset hs) (fold (track_one k) hs d)"
proof (induction hs arbitrary: seen d)
  case (Cons h hs)
  from Cons.IH [OF track_one_ok [OF Cons.prems, of h] Cons.prems(2)] show ?case by simp
qed simp

lemma reuse_run_tracks:
  assumes "reuse_run start seen r" "init_reuse_manager m threshold max_size = Inr start"
  shows "tracks max_size seen (rm_counts r) \<and> rm_store_threshold r = threshold \<and> rm_max_tracker_size r = max_size"
  using assms
proof (induction rule: reuse_run.induct)
  case Reuse_start
  then show ?case by (auto simp: init_reuse_manager_def tracks_def split: if_splits)
next
  case (Reuse_lookup seen r hs hits r')
  have "1 \<le> max_size" using Reuse_lookup.prems by (auto simp: init_reuse_manager_def split: if_splits)
  then show ?case using Reuse_lookup track_all_ok by (auto simp: rm_lookup_def)
qed (auto simp: rm_prepare_store_def rm_prepare_load_def rm_touch_def rm_complete_load_def rm_complete_store_def
    rm_take_events_def Let_def split: prod.splits)

text \<open>C35 (only_reused_stored): The reuse filter passes on to the store only hashes that were looked up at least as often as
  the threshold says, and its table never holds more entries than allowed.\<close>

theorem only_reused_stored:
  assumes "reuse_run start seen r" "init_reuse_manager m threshold max_size = Inr start"
    "rm_prepare_store hs r = Inr (Some out, r')"
  shows "(\<forall>h \<in> set (ps_to_store out). h \<in> set hs \<and> threshold \<le> int (count seen h)) \<and>
    int (length (rm_counts r)) \<le> max_size"
proof -
  note T = reuse_run_tracks [OF assms(1,2)]
  have two: "2 \<le> threshold" using assms(2) by (auto simp: init_reuse_manager_def split: if_splits)
  let ?el = "filter (\<lambda>h. (case od_get (rm_counts r) h of None \<Rightarrow> 0 | Some n \<Rightarrow> n) \<ge> rm_store_threshold r) hs"
  obtain m' where "om_prepare_store ?el (rm_backing r) = Inr (Some out, m')"
    using assms(3) by (auto simp: rm_prepare_store_def Let_def)
  then have "set (ps_to_store out) \<subseteq> set ?el"
    by (auto simp: om_prepare_store_def Let_def split: if_splits option.splits prod.splits)
  moreover have "threshold \<le> int (count seen h)" if "h \<in> set ?el" for h
    using that T two by (cases "od_get (rm_counts r) h") (auto simp: tracks_def intro: order_trans)
  ultimately show ?thesis using T by (auto simp: tracks_def)
qed

section \<open>Small runs\<close>

text \<open>Two blocks stored, one being read, and a store that evicts the other.\<close>

definition sample_offload ::
  "(prepare_store_output option \<times> int list \<times> prepare_store_output option \<times> cpu_manager list) res" where
  "sample_offload =
     bindE (init_cpu_manager 16 2 ''lru'' True) (\<lambda>m0.
     bindE (om_prepare_store [[1], [2]] m0) (\<lambda>(o1, m1).
     bindE (om_complete_store [[1], [2]] True m1) (\<lambda>m2.
     bindE (om_prepare_load [[1]] m2) (\<lambda>(ids, m3).
     bindE (om_prepare_store [[3]] m3) (\<lambda>(o2, m4). Inr (o1, ids, o2, [m0, m1, m2, m3, m4]))))))"

lemma sample_offload_result:
  "(case sample_offload of
      Inr (o1, ids, o2, ms) \<Rightarrow>
        Inr (map_option ps_to_store o1, ids,
             map_option (\<lambda>x. (ps_to_store x, ps_block_ids x, ps_evicted x)) o2,
             map (\<lambda>m. map_option bs_ref_cnt (om_get m [1])) ms,
             (case om_policy (last ms) of LRU p \<Rightarrow> map fst (lru_blocks p) | ARC p \<Rightarrow> []))
    | Inl e \<Rightarrow> Inl e) =
   Inr (Some [[1], [2]], [0], Some ([[3]], [1], [[2]]), [None, Some (-1), Some 0, Some 1, Some 1], [[1], [3]])"
  by code_simp

definition sample_transfers :: "cpu_manager \<Rightarrow> offload_sys" where
  "sample_transfers m = \<lparr>os_manager = m, os_loads = {#([1], 0)#}, os_stores = [[3] \<mapsto> 1]\<rparr>"

lemma sample_transfers_reach:
  obtains m p where "off_reach 2 (sample_transfers m)" "om_policy m = LRU p" "map fst (lru_blocks p) = [[1], [3]]"
proof -
  obtain ids o2 m0 o1 m1 m2 m3 m4 where
    m: "init_cpu_manager 16 2 ''lru'' True = Inr m0" "om_prepare_store [[1], [2]] m0 = Inr (o1, m1)"
      "om_complete_store [[1], [2]] True m1 = Inr m2" "om_prepare_load [[1]] m2 = Inr (ids, m3)"
      "om_prepare_store [[3]] m3 = Inr (o2, m4)"
    and v: "map_option ps_to_store o1 = Some [[1], [2]]" "ids = [0]"
      "map_option (\<lambda>x. (ps_to_store x, ps_block_ids x, ps_evicted x)) o2 = Some ([[3]], [1], [[2]])"
      "(case om_policy m4 of LRU p \<Rightarrow> map fst (lru_blocks p) | ARC p \<Rightarrow> []) = [[1], [3]]"
    using sample_offload_result by (auto simp: sample_offload_def bindE_def split: sum.splits prod.splits)
  obtain p where p: "om_policy m4 = LRU p" "map fst (lru_blocks p) = [[1], [3]]"
    using v(4) by (cases "om_policy m4") auto
  let ?sys = "\<lambda>m L S. \<lparr>os_manager = m, os_loads = L, os_stores = S\<rparr>"
  have "(stores_after o1 Map.empty |` (- set [[1], [2]])) h = None" for h
  proof -
    obtain x where x: "o1 = Some x" "ps_to_store x = [[1], [2]]" using v(1) by auto
    have "map_of (zip [[1], [2]] (ps_block_ids x)) h = None" if "h \<notin> set [[1], [2]]"
      using that by (auto simp: map_of_eq_None_iff simp del: zip_Cons_Cons set_simps dest!: set_zip_leftD)
    then show ?thesis
      by (simp add: stores_after_def x restrict_map_def del: zip_Cons_Cons)
  qed
  then have S1: "stores_after o1 Map.empty |` (- set [[1], [2]]) = Map.empty" by (simp add: fun_eq_iff)
  have "off_reach 2 (?sys m0 {#} Map.empty)" by (rule off_start [OF m(1)])
  then have "off_reach 2 (?sys m1 {#} (stores_after o1 Map.empty))"
    using off_next Begin_store [of "[[1], [2]]" "?sys m0 {#} Map.empty" o1 m1] m(2) by simp
  then have "off_reach 2 (?sys m2 {#} Map.empty)"
    using off_next End_store [of "[[1], [2]]" True "?sys m1 {#} (stores_after o1 Map.empty)" m2] m(3) S1 by simp
  then have "off_reach 2 (?sys m3 {#([1], 0)#} Map.empty)"
    using off_next Begin_load [of "[[1]]" "?sys m2 {#} Map.empty" ids m3] m(4) v(2) by simp
  then have "off_reach 2 (?sys m4 {#([1], 0)#} (stores_after o2 Map.empty))"
    using off_next Begin_store [of "[[3]]" "?sys m3 {#([1], 0)#} Map.empty" o2 m4] m(5) by simp
  moreover have "stores_after o2 Map.empty = [[3] \<mapsto> 1]" using v(3) by (auto simp: stores_after_def)
  ultimately show thesis using that [of m4 p] p by (simp add: sample_transfers_def)
qed

theorem offload_transfers_safe_witness:
  "\<exists>m b. off_reach 2 (sample_transfers m) \<and> om_get m [1] = Some b \<and> is_ready b \<and> bs_block_id b = 0 \<and>
     bs_ref_cnt b \<noteq> 0 \<and> 0 \<notin> set (om_free_list m)"
proof -
  obtain m p where m: "off_reach 2 (sample_transfers m)" by (rule sample_transfers_reach)
  show ?thesis
    using offload_transfers_safe [OF m, of "[1]" 0] m by (auto simp: sample_transfers_def)
qed

theorem offload_calls_never_fail_witness:
  "\<exists>m. off_reach 2 (sample_transfers m) \<and> \<not> isl (om_prepare_load [[1]] m) \<and> \<not> isl (om_complete_load [[1]] m) \<and>
     \<not> isl (om_prepare_store [[1], [4]] m) \<and> \<not> isl (om_complete_store [[3]] False m)"
proof -
  obtain m p where m: "off_reach 2 (sample_transfers m)" by (rule sample_transfers_reach)
  have "\<exists>b. om_get m [1] = Some b \<and> is_ready b"
  proof -
    have "\<forall>h. entry_ok h (om_get m h) {#([1], 0)#} (([[3] \<mapsto> 1] :: bytes \<rightharpoonup> int) h)"
      using off_reach_inv [OF m] by (simp add: sample_transfers_def sys_inv_def)
    from spec [OF this, of "[1]"]
    have "entry_ok [1] (om_get m [1]) {#([1], 0)#} None" by simp
    then show ?thesis by (auto simp: entry_ok_def is_ready_def split: option.splits)
  qed
  then show ?thesis
    using offload_calls_never_fail [OF m, of "[[1]]" "[([1], 0)]"] offload_calls_never_fail [OF m, of "[[1], [4]]"]
      offload_calls_never_fail [OF m, of "[[3]]" _ False] m by (auto simp: sample_transfers_def)
qed

theorem lru_refuses_iff_full_witness:
  "\<exists>m p. off_reach 2 (sample_transfers m) \<and> om_policy m = LRU p \<and>
     (om_prepare_store [[4]] m = Inr (None, m) \<longleftrightarrow>
      om_num_free_blocks m + int (card {h. \<exists>b. om_get m h = Some b \<and> bs_ref_cnt b = 0 \<and> h \<notin> set [[4]]}) <
      int (length (filter (\<lambda>h. om_get m h = None) [[4]])))"
proof -
  obtain m p where m: "off_reach 2 (sample_transfers m)" "om_policy m = LRU p" by (rule sample_transfers_reach)
  show ?thesis
    using lru_refuses_iff_full [OF m(1), of "[[4]]" p] m by (auto simp: sample_transfers_def)
qed

text \<open>A hash looked up twice is stored, one looked up once is not.\<close>

definition sample_reuse :: "(reuse_manager \<times> reuse_manager \<times> prepare_store_output option) res" where
  "sample_reuse =
     bindE (init_cpu_manager 16 2 ''lru'' False) (\<lambda>m.
     bindE (init_reuse_manager m 2 8) (\<lambda>r0.
     bindE (rm_prepare_store [[1], [2]] (snd (rm_lookup [[1]] (snd (rm_lookup [[1], [2]] r0))))) (\<lambda>(out, r).
       Inr (r0, r, out))))"

lemma sample_reuse_result:
  "(case sample_reuse of Inr (r0, r, out) \<Rightarrow> Inr (map_option ps_to_store out) | Inl e \<Rightarrow> Inl e) = Inr (Some [[1]])"
  by code_simp

theorem only_reused_stored_witness:
  "\<exists>m r0 r r' out. init_reuse_manager m 2 8 = Inr r0 \<and> reuse_run r0 {#[1], [2], [1]#} r \<and>
     rm_prepare_store [[1], [2]] r = Inr (Some out, r') \<and> ps_to_store out = [[1]] \<and> int (length (rm_counts r)) \<le> 8"
proof -
  obtain m r0' r' out where s: "init_reuse_manager m 2 8 = Inr r0'"
    "rm_prepare_store [[1], [2]] (snd (rm_lookup [[1]] (snd (rm_lookup [[1], [2]] r0')))) = Inr (Some out, r')"
    "ps_to_store out = [[1]]"
    using sample_reuse_result by (auto simp: sample_reuse_def bindE_def split: sum.splits prod.splits)
  let ?r1 = "snd (rm_lookup [[1], [2]] r0')"
  have "reuse_run r0' ({#} + mset [[1], [2]]) ?r1"
    by (rule Reuse_lookup [OF Reuse_start, where hits = "fst (rm_lookup [[1], [2]] r0')"]) simp
  then have "reuse_run r0' ({#} + mset [[1], [2]] + mset [[1]]) (snd (rm_lookup [[1]] ?r1))"
    by (rule Reuse_lookup [where hits = "fst (rm_lookup [[1]] ?r1)"]) simp
  then have run: "reuse_run r0' {#[1], [2], [1]#} (snd (rm_lookup [[1]] ?r1))" by (simp add: add_mset_commute)
  show ?thesis using only_reused_stored [OF run s(1,2)] run s by blast
qed

end
