(* ===== verification/Ngram.thy ===== *)
theory Ngram
  imports Result_Logic "HOL-Library.While_Combinator"
begin

text \<open>
  The n-gram proposer of speculative decoding (src/vllm/v1/spec_decode/ngram_proposer.py): the search of
  the longest n-gram at the end of the tokens that occurs earlier, by the failure function of the
  reversed tokens, and the proposals of a batch. The search is compiled without bounds checks; the
  model raises IndexError where it would leave an array, and is undefined where the loop would not end.
\<close>

section \<open>The search\<close>

record ngram_state =
  ng_i :: nat
  ng_prev :: nat
  ng_lps :: "nat list"
  ng_longest :: nat
  ng_position :: nat

definition arr_get :: "'a list \<Rightarrow> nat \<Rightarrow> 'a res" where
  "arr_get xs i = (if i < length xs then Inr (xs ! i) else Inl IndexError)"

definition arr_set :: "'a list \<Rightarrow> nat \<Rightarrow> 'a \<Rightarrow> 'a list res" where
  "arr_set xs i x = (if i < length xs then Inr (xs[i := x]) else Inl IndexError)"

definition init_ngram :: "nat \<Rightarrow> ngram_state" where
  "init_ngram max_ngram =
     \<lparr>ng_i = 1, ng_prev = 0, ng_lps = replicate max_ngram 0, ng_longest = 0, ng_position = 0\<rparr>"

definition ngram_body :: "token list \<Rightarrow> nat \<Rightarrow> ngram_state \<Rightarrow> ngram_state res" where
  "ngram_body tokens max_ngram st =
     (let i = ng_i st; prev = ng_prev st in
      bindE (arr_get tokens prev) (\<lambda>a.
      bindE (arr_get tokens i) (\<lambda>b.
        if a = b then
          let prev1 = prev + 1;
              (longest, position) = (if prev1 \<ge> ng_longest st then (prev1, i) else (ng_longest st, ng_position st))
          in bindE (if i < max_ngram then arr_set (ng_lps st) i prev1 else Inr (ng_lps st)) (\<lambda>lps.
             bindE (if prev1 = max_ngram then arr_get lps (max_ngram - 1) else Inr prev1) (\<lambda>prev2.
               Inr \<lparr>ng_i = i + 1, ng_prev = prev2, ng_lps = lps, ng_longest = longest, ng_position = position\<rparr>))
        else if prev \<noteq> 0 then bindE (arr_get (ng_lps st) (prev - 1)) (\<lambda>p. Inr (st\<lparr>ng_prev := p\<rparr>))
        else Inr (st\<lparr>ng_i := i + 1\<rparr>))))"

definition ngram_loop :: "token list \<Rightarrow> nat \<Rightarrow> ngram_state res option" where
  "ngram_loop tokens max_ngram =
     while_option (\<lambda>x. case x of Inl e \<Rightarrow> False | Inr st \<Rightarrow> ng_i st < length tokens)
       (\<lambda>x. bindE x (ngram_body tokens max_ngram)) (Inr (init_ngram max_ngram))"

definition find_longest_matched_ngram ::
  "token list \<Rightarrow> nat \<Rightarrow> nat \<Rightarrow> int \<Rightarrow> int \<Rightarrow> token list res option" where
  "find_longest_matched_ngram origin min_ngram max_ngram max_model_len k =
     (let total = length origin in
      if total < min_ngram then Some (Inr [])
      else
        let k1 = min k (max_model_len - int total) in
        if k1 \<le> 0 then Some (Inr [])
        else map_option (\<lambda>r. bindE r (\<lambda>st.
               if ng_longest st < min_ngram then Inr []
               else
                 let start = int total - 1 - int (ng_position st) + int (ng_longest st);
                     k2 = min k1 (int total - start)
                 in Inr (py_slice origin start (start + k2))))
               (ngram_loop (rev origin) max_ngram))"

section \<open>The reference\<close>

text \<open>Where the last \<^verbatim>\<open>v\<close> tokens occur before the end, and the longest such \<^verbatim>\<open>v\<close>.\<close>

definition earlier_starts :: "token list \<Rightarrow> nat \<Rightarrow> nat list" where
  "earlier_starts s v = filter (\<lambda>p. take v (drop p s) = drop (length s - v) s) [0..<length s - v]"

definition reference_proposal :: "token list \<Rightarrow> nat \<Rightarrow> nat \<Rightarrow> int \<Rightarrow> int \<Rightarrow> token list" where
  "reference_proposal s min_ngram max_ngram max_model_len k =
     (if length s < min_ngram then []
      else case filter (\<lambda>v. earlier_starts s v \<noteq> []) (rev [min_ngram..<Suc max_ngram]) of
        [] \<Rightarrow> []
      | v # _ \<Rightarrow> take (nat (min k (max_model_len - int (length s)))) (drop (hd (earlier_starts s v) + v) s))"

section \<open>Matches\<close>

text \<open>The first \<^verbatim>\<open>v\<close> tokens of \<^verbatim>\<open>t\<close> are the last \<^verbatim>\<open>v\<close> of its first \<^verbatim>\<open>j\<close>, shorter than all \<^verbatim>\<open>j\<close>.\<close>

definition is_border :: "token list \<Rightarrow> nat \<Rightarrow> nat \<Rightarrow> bool" where
  "is_border t v j \<longleftrightarrow> v < j \<and> j \<le> length t \<and> take v t = drop (j - v) (take j t)"

lemma border_nth: "is_border t v j \<longleftrightarrow> v < j \<and> j \<le> length t \<and> (\<forall>a < v. t ! a = t ! (j - v + a))"
  unfolding is_border_def by (auto simp: list_eq_iff_nth_eq)

lemma border_zero [simp]: "is_border t 0 j \<longleftrightarrow> 0 < j \<and> j \<le> length t"
  by (auto simp: border_nth)

lemma border_Suc:
  "is_border t (Suc v) (Suc j) \<longleftrightarrow> is_border t v j \<and> j < length t \<and> t ! v = t ! j"
  unfolding border_nth by (auto simp: less_Suc_eq)

lemma border_trans: "is_border t u v \<Longrightarrow> is_border t v j \<Longrightarrow> is_border t u j"
  unfolding border_nth
proof (intro conjI allI impI; elim conjE)
  fix a
  assume a: "\<forall>a<u. t ! a = t ! (v - u + a)" "\<forall>a<v. t ! a = t ! (j - v + a)" "u < v" "v < j" "a < u"
  have "t ! a = t ! (v - u + a)" using a(1,5) by blast
  also have "\<dots> = t ! (j - v + (v - u + a))" using a(2,3,5) by simp
  finally show "t ! a = t ! (j - u + a)" using a(3,4) by simp
qed auto

lemma border_below:
  assumes "is_border t u j" "is_border t v j" "u < v"
  shows "is_border t u v"
  unfolding border_nth
proof (intro conjI allI impI)
  have v: "v < j" "j \<le> length t" "\<forall>a < v. t ! a = t ! (j - v + a)" using assms(2) by (simp_all add: border_nth)
  then show "v \<le> length t" by simp
  fix a assume a: "a < u"
  have "t ! a = t ! (j - u + a)" using assms(1) a by (simp add: border_nth)
  also have "j - u + a = j - v + (v - u + a)" using assms(3) v(1) a by simp
  also have "t ! \<dots> = t ! (v - u + a)" using v(3) assms(3) a by simp
  finally show "t ! a = t ! (v - u + a)" .
qed (rule assms(3))

definition longest_border :: "token list \<Rightarrow> nat \<Rightarrow> nat \<Rightarrow> bool" where
  "longest_border t v j \<longleftrightarrow> is_border t v j \<and> (\<forall>u. is_border t u j \<longrightarrow> u \<le> v)"

section \<open>The invariant of the loop\<close>

text \<open>
  The candidate \<^verbatim>\<open>prev\<close> is a border of what was read, and no longer candidate can be extended. The
  table holds the longest borders of the first prefixes. The best match so far is the longest, and
  among those the last.
\<close>

definition best_match :: "token list \<Rightarrow> nat \<Rightarrow> nat \<Rightarrow> nat \<Rightarrow> nat \<Rightarrow> bool" where
  "best_match t m i longest position \<longleftrightarrow>
     longest \<le> m \<and>
     (\<forall>j v. j \<le> i \<longrightarrow> v \<le> m \<longrightarrow> is_border t v j \<longrightarrow> v \<le> longest) \<and>
     (0 < longest \<longrightarrow> position < i \<and> is_border t longest (Suc position) \<and>
        (\<forall>j. j \<le> i \<longrightarrow> is_border t longest j \<longrightarrow> j \<le> Suc position))"

definition ngram_inv :: "token list \<Rightarrow> nat \<Rightarrow> ngram_state \<Rightarrow> bool" where
  "ngram_inv t m st \<longleftrightarrow>
     (let i = ng_i st; prev = ng_prev st; lps = ng_lps st in
      0 < i \<and> i \<le> length t \<and> prev < m \<and> is_border t prev i \<and>
      (\<forall>v. is_border t v i \<longrightarrow> v < m \<longrightarrow> prev < v \<longrightarrow> i < length t \<longrightarrow> t ! v \<noteq> t ! i) \<and>
      length lps = m \<and> (\<forall>j < m. j < i \<longrightarrow> longest_border t (lps ! j) (Suc j)) \<and>
      (\<forall>j < m. i \<le> j \<longrightarrow> lps ! j = 0) \<and>
      best_match t m i (ng_longest st) (ng_position st))"

lemma border_one: "is_border t v (Suc 0) \<longleftrightarrow> v = 0 \<and> t \<noteq> []"
  by (cases t) (auto simp: border_nth)

lemma init_ngram_inv:
  assumes "0 < m" "t \<noteq> []"
  shows "ngram_inv t m (init_ngram m)"
proof -
  have "j \<le> Suc 0 \<Longrightarrow> is_border t v j \<Longrightarrow> v = 0" for v j
    using border_one [of t v] by (cases j) (auto simp: border_nth le_Suc_eq)
  then show ?thesis
    using assms by (auto simp: ngram_inv_def init_ngram_def best_match_def longest_border_def border_one Suc_le_eq)
qed

text \<open>Advancing when the longest border of the next prefix, up to the cap, is \<^verbatim>\<open>w\<close>.\<close>

lemma best_match_next:
  assumes b: "best_match t m i longest position" and w: "is_border t w (Suc i)" "w \<le> m"
    and most: "\<And>v. is_border t v (Suc i) \<Longrightarrow> v \<le> m \<Longrightarrow> v \<le> w"
  shows "0 < w \<Longrightarrow> longest \<le> w \<Longrightarrow> best_match t m (Suc i) w i"
    "w < longest \<or> w = 0 \<Longrightarrow> best_match t m (Suc i) longest position"
proof -
  have old: "j \<le> i \<Longrightarrow> v \<le> m \<Longrightarrow> is_border t v j \<Longrightarrow> v \<le> longest" for j v using b by (simp add: best_match_def)
  {
    assume "0 < w" "longest \<le> w"
    then show "best_match t m (Suc i) w i"
      unfolding best_match_def using w most old by (auto simp: le_Suc_eq intro: order_trans)
  next
    assume lt: "w < longest \<or> w = 0"
    have "is_border t longest (Suc i) \<Longrightarrow> longest = 0" using most [of longest] b lt by (auto simp: best_match_def)
    then show "best_match t m (Suc i) longest position"
      using b w most lt unfolding best_match_def by (auto simp: le_Suc_eq) (meson le_trans less_or_eq_imp_le)+
  }
qed

lemma ngram_invD:
  assumes "ngram_inv t m st"
  shows "0 < ng_i st" "ng_i st \<le> length t" "ng_prev st < m" "is_border t (ng_prev st) (ng_i st)"
    "is_border t v (ng_i st) \<Longrightarrow> v < m \<Longrightarrow> ng_prev st < v \<Longrightarrow> ng_i st < length t \<Longrightarrow> t ! v \<noteq> t ! ng_i st"
    "length (ng_lps st) = m" "j < m \<Longrightarrow> j < ng_i st \<Longrightarrow> longest_border t (ng_lps st ! j) (Suc j)"
    "j < m \<Longrightarrow> ng_i st \<le> j \<Longrightarrow> ng_lps st ! j = 0"
    "best_match t m (ng_i st) (ng_longest st) (ng_position st)"
  using assms by (simp_all add: ngram_inv_def Let_def)

text \<open>The longest border that the cap allows, at the next prefix.\<close>

lemma capped_match:
  assumes inv: "ngram_inv t m st" and i: "ng_i st < length t"
  shows "t ! ng_prev st = t ! ng_i st \<Longrightarrow> is_border t (Suc (ng_prev st)) (Suc (ng_i st))"
    "t ! ng_prev st = t ! ng_i st \<Longrightarrow> is_border t v (Suc (ng_i st)) \<Longrightarrow> v \<le> m \<Longrightarrow> v \<le> Suc (ng_prev st)"
    "t ! ng_prev st \<noteq> t ! ng_i st \<Longrightarrow> ng_prev st = 0 \<Longrightarrow> is_border t v (Suc (ng_i st)) \<Longrightarrow> v \<le> m \<Longrightarrow> v = 0"
proof -
  note D = ngram_invD [OF inv]
  show "t ! ng_prev st = t ! ng_i st \<Longrightarrow> is_border t (Suc (ng_prev st)) (Suc (ng_i st))"
    using D(4) i by (simp add: border_Suc)
  show "v \<le> Suc (ng_prev st)" if "t ! ng_prev st = t ! ng_i st" "is_border t v (Suc (ng_i st))" "v \<le> m"
    using that D(5) [of "v - 1"] i by (cases v) (auto simp: border_Suc Suc_le_eq less_Suc_eq_le intro: leI)
  show "v = 0" if "t ! ng_prev st \<noteq> t ! ng_i st" "ng_prev st = 0" "is_border t v (Suc (ng_i st))" "v \<le> m"
    using that D(5) [of "v - 1"] i by (cases v; cases "v - 1") (auto simp: border_Suc Suc_le_eq)
qed

lemma ngram_match_step:
  assumes inv: "ngram_inv t m st" and i: "ng_i st < length t" and eq: "t ! ng_prev st = t ! ng_i st"
  shows "\<exists>st'. ngram_body t m st = Inr st' \<and> ngram_inv t m st' \<and> ng_i st' = Suc (ng_i st) \<and> ng_prev st' \<le> Suc (ng_prev st)"
proof -
  note D = ngram_invD [OF inv]
  let ?i = "ng_i st" and ?w = "Suc (ng_prev st)"
  let ?lps = "if ?i < m then (ng_lps st)[?i := ?w] else ng_lps st"
  let ?best = "if ng_longest st \<le> ?w then (?w, ?i) else (ng_longest st, ng_position st)"
  let ?prev = "if ?w = m then ?lps ! (m - 1) else ?w"
  let ?st = "\<lparr>ng_i = Suc ?i, ng_prev = ?prev, ng_lps = ?lps, ng_longest = fst ?best, ng_position = snd ?best\<rparr>"
  have m: "0 < m" and wm: "?w \<le> m" using D(3) by simp_all
  have pl: "ng_prev st < length t" using D(4) i by (auto simp: border_nth)
  have body: "ngram_body t m st = Inr ?st"
    using pl i m D(6) eq unfolding ngram_body_def Let_def by (auto simp: arr_get_def arr_set_def split: prod.splits)
  note b = capped_match(1) [OF inv i eq] and most = capped_match(2) [OF inv i eq]
  have lps: "longest_border t (?lps ! j) (Suc j)" if "j < m" "j < Suc ?i" for j
  proof (cases "j = ?i")
    case True
    have "u \<le> ?w" if "is_border t u (Suc ?i)" for u
      using most [OF that] that \<open>j < m\<close> True by (auto simp: border_nth)
    then show ?thesis using True \<open>j < m\<close> b D(6) by (simp add: longest_border_def)
  next
    case False
    then have "?lps ! j = ng_lps st ! j" by simp
    then show ?thesis using D(7) [of j] that False by simp
  qed
  have rest: "?lps ! j = 0" if "j < m" "Suc ?i \<le> j" for j using D(8) [of j] that by simp
  have best: "best_match t m (Suc ?i) (fst ?best) (snd ?best)"
    using best_match_next [OF D(9) b wm most] by (simp add: not_le)
  have prev: "?prev < m \<and> is_border t ?prev (Suc ?i) \<and> (\<forall>v. is_border t v (Suc ?i) \<longrightarrow> v < m \<longrightarrow> v \<le> ?prev) \<and> ?prev \<le> ?w"
  proof (cases "?w = m")
    case False
    then show ?thesis using b wm most by auto
  next
    case True
    have mi: "m < Suc ?i" using b True by (simp add: border_nth)
    have L: "longest_border t (?lps ! (m - 1)) (Suc (m - 1))" by (rule lps) (use m mi in auto)
    then have L': "is_border t (?lps ! (m - 1)) m" "\<And>u. is_border t u m \<Longrightarrow> u \<le> ?lps ! (m - 1)"
      using m by (simp_all add: longest_border_def)
    have bm: "is_border t m (Suc ?i)" using b True by simp
    have "is_border t (?lps ! (m - 1)) (Suc ?i)" by (rule border_trans [OF L'(1) bm])
    moreover have "v \<le> ?lps ! (m - 1)" if "is_border t v (Suc ?i)" "v < m" for v
      by (rule L'(2)) (rule border_below [OF that(1) bm that(2)])
    moreover have "?lps ! (m - 1) < m" using L'(1) by (simp add: border_nth)
    ultimately show ?thesis using True by simp
  qed
  have "ngram_inv t m ?st"
    unfolding ngram_inv_def Let_def ngram_state.simps
  proof (intro conjI allI impI)
    show "length ?lps = m" using D(6) by simp
    show "t ! v \<noteq> t ! Suc ?i" if "is_border t v (Suc ?i)" "v < m" "?prev < v" for v
      using prev that by (metis not_le)
  qed (use i prev lps rest best in \<open>simp_all\<close>)
  then show ?thesis using body prev by auto
qed

lemma ngram_fallback_step:
  assumes inv: "ngram_inv t m st" and i: "ng_i st < length t" and neq: "t ! ng_prev st \<noteq> t ! ng_i st" "ng_prev st \<noteq> 0"
  shows "\<exists>st'. ngram_body t m st = Inr st' \<and> ngram_inv t m st' \<and> ng_i st' = ng_i st \<and> ng_prev st' < ng_prev st"
proof -
  note D = ngram_invD [OF inv]
  let ?i = "ng_i st" and ?v = "ng_prev st"
  let ?p = "ng_lps st ! (?v - 1)"
  have vi: "?v < ?i" using D(4) by (simp add: border_nth)
  have body: "ngram_body t m st = Inr (st\<lparr>ng_prev := ?p\<rparr>)"
    using neq vi i D(2,3,6) unfolding ngram_body_def Let_def by (simp add: arr_get_def)
  have L: "longest_border t ?p (Suc (?v - 1))" by (rule D(7)) (use D(3) vi in simp_all)
  then have p: "is_border t ?p ?v" "\<And>u. is_border t u ?v \<Longrightarrow> u \<le> ?p" using neq(2) by (simp_all add: longest_border_def)
  then have less: "?p < ?v" by (simp add: border_nth)
  have "t ! v \<noteq> t ! ?i" if v: "is_border t v ?i" "v < m" "?p < v" for v
  proof -
    consider "v < ?v" | "v = ?v" | "?v < v" by linarith
    then show ?thesis
    proof cases
      case 1
      then have "v \<le> ?p" using p(2) border_below [OF v(1) D(4)] by blast
      then show ?thesis using v(3) by simp
    next
      case 2
      then show ?thesis using neq(1) by simp
    next
      case 3
      then show ?thesis using D(5) v i by blast
    qed
  qed
  then have "ngram_inv t m (st\<lparr>ng_prev := ?p\<rparr>)"
    using D less border_trans [OF p(1) D(4)] by (simp add: ngram_inv_def)
  then show ?thesis using body less by auto
qed

lemma ngram_skip_step:
  assumes inv: "ngram_inv t m st" and i: "ng_i st < length t" and neq: "t ! ng_prev st \<noteq> t ! ng_i st" "ng_prev st = 0"
  shows "\<exists>st'. ngram_body t m st = Inr st' \<and> ngram_inv t m st' \<and> ng_i st' = Suc (ng_i st) \<and> ng_prev st' = ng_prev st"
proof -
  note D = ngram_invD [OF inv]
  let ?i = "ng_i st"
  have tl: "0 < length t" using i by linarith
  have body: "ngram_body t m st = Inr (st\<lparr>ng_i := Suc ?i\<rparr>)"
    using neq i tl unfolding ngram_body_def Let_def by (simp add: arr_get_def)
  note most = capped_match(3) [OF inv i neq]
  have zero: "is_border t 0 (Suc ?i)" using i by simp
  have lps: "longest_border t (ng_lps st ! j) (Suc j)" if "j < m" "j < Suc ?i" for j
  proof (cases "j = ?i")
    case True
    have "u \<le> 0" if "is_border t u (Suc ?i)" for u using most [OF that] that \<open>j < m\<close> True by (auto simp: border_nth)
    then show ?thesis using True D(8) [of j] \<open>j < m\<close> zero by (simp add: longest_border_def)
  qed (use D(7) that in simp)
  have best: "best_match t m (Suc ?i) (ng_longest st) (ng_position st)"
    by (rule best_match_next(2) [OF D(9) zero]) (use most in auto)
  have "ngram_inv t m (st\<lparr>ng_i := Suc ?i\<rparr>)"
    unfolding ngram_inv_def Let_def
  proof (intro conjI allI impI)
    let ?st = "st\<lparr>ng_i := Suc ?i\<rparr>"
    show "t ! v \<noteq> t ! ng_i ?st" if "is_border t v (ng_i ?st)" "v < m" "ng_prev ?st < v" for v
      using most [of v] that neq(2) by simp
  qed (use D(3,6) neq(2) i zero lps best D(8) in simp_all)
  then show ?thesis using body by auto
qed

lemma ngram_step:
  assumes "ngram_inv t m st" "ng_i st < length t"
  shows "\<exists>st'. ngram_body t m st = Inr st' \<and> ngram_inv t m st' \<and>
    2 * (length t - ng_i st') + ng_prev st' < 2 * (length t - ng_i st) + ng_prev st"
proof -
  consider "t ! ng_prev st = t ! ng_i st" | "t ! ng_prev st \<noteq> t ! ng_i st" "ng_prev st \<noteq> 0"
    | "t ! ng_prev st \<noteq> t ! ng_i st" "ng_prev st = 0" by blast
  then show ?thesis
    using ngram_match_step [OF assms] ngram_fallback_step [OF assms] ngram_skip_step [OF assms] assms(2)
    by cases (force simp: Suc_diff_Suc)+
qed

text \<open>The loop ends, without leaving an array, in a state that satisfies the invariant.\<close>

lemma ngram_loop_ends:
  assumes "0 < m" "t \<noteq> []"
  shows "\<exists>st. ngram_loop t m = Some (Inr st) \<and> ngram_inv t m st \<and> ng_i st = length t"
proof -
  let ?b = "\<lambda>x :: ngram_state res. case x of Inl e \<Rightarrow> False | Inr st \<Rightarrow> ng_i st < length t"
  let ?c = "\<lambda>x. bindE x (ngram_body t m)"
  let ?P = "\<lambda>x. \<exists>st. x = Inr st \<and> ngram_inv t m st"
  let ?f = "\<lambda>x :: ngram_state res. case x of Inl e \<Rightarrow> 0 | Inr st \<Rightarrow> 2 * (length t - ng_i st) + ng_prev st"
  have step: "?P (?c x) \<and> ?f (?c x) < ?f x" if P: "?P x" "?b x" for x
  proof -
    obtain st where st: "x = Inr st" "ngram_inv t m st" "ng_i st < length t" using P by auto
    then show ?thesis using ngram_step [OF st(2,3)] by force
  qed
  have start: "?P (Inr (init_ngram m))" using init_ngram_inv [OF assms] by blast
  obtain x where x: "while_option ?b ?c (Inr (init_ngram m)) = Some x"
    using measure_while_option_Some [of ?P ?b ?c ?f, OF _ start] step by blast
  have "?P x" by (rule while_option_rule [where P = ?P, OF _ x start]) (use step in blast)
  moreover have "\<not> ?b x" by (rule while_option_stop [OF x])
  ultimately show ?thesis using x ngram_invD(2) [of t m] by (fastforce simp: ngram_loop_def)
qed

section \<open>The search finds the reference\<close>

lemma border_rev:
  "is_border (rev s) v j \<longleftrightarrow> v < j \<and> j \<le> length s \<and> take v (drop (length s - j) s) = drop (length s - v) s"
proof -
  have "take v (rev s) = drop (j - v) (take j (rev s)) \<longleftrightarrow> take v (drop (length s - j) s) = drop (length s - v) s"
    if "v < j" "j \<le> length s"
  proof -
    have "take v (rev s) = rev (drop (length s - v) s)" by (simp add: take_rev)
    moreover have "drop (j - v) (take j (rev s)) = rev (take v (drop (length s - j) s))"
      using that by (simp add: take_rev drop_rev)
    ultimately show ?thesis by auto
  qed
  then show ?thesis by (auto simp: is_border_def)
qed

lemma earlier_start_border:
  "p \<in> set (earlier_starts s v) \<longleftrightarrow> p < length s - v \<and> is_border (rev s) v (length s - p)"
  by (auto simp: earlier_starts_def border_rev)

lemma border_earlier_start:
  "is_border (rev s) v j \<Longrightarrow> length s - j \<in> set (earlier_starts s v)"
  unfolding earlier_start_border by (auto simp: border_rev)

lemma hd_filter_upt:
  assumes "P p" "p < n" "\<And>q. q < p \<Longrightarrow> \<not> P q"
  shows "hd (filter P [0..<n]) = p"
proof -
  have "[0..<n] = [0..<p] @ p # [Suc p..<n]" using assms(2) upt_add_eq_append [of 0 p "n - p"] upt_conv_Cons [of p n] by simp
  moreover have "filter P [0..<p] = []" using assms(3) by (simp add: filter_empty_conv)
  ultimately show ?thesis using assms(1) by simp
qed

lemma filter_rev_upt:
  assumes "a \<le> v" "v < b" "P v" "\<And>u. v < u \<Longrightarrow> u < b \<Longrightarrow> \<not> P u"
  shows "\<exists>vs. filter P (rev [a..<b]) = v # vs"
proof -
  have "[a..<b] = [a..<v] @ v # [Suc v..<b]"
    using assms(1,2) upt_add_eq_append [of a v "b - v"] upt_conv_Cons [of v b] by simp
  moreover have "filter P (rev [Suc v..<b]) = []" using assms(4) by (auto simp: filter_empty_conv)
  ultimately show ?thesis using assms(3) by simp
qed

lemma best_match_reference:
  assumes b: "best_match (rev s) m (length s) longest position" and min: "0 < lo"
  shows "if longest < lo then filter (\<lambda>v. earlier_starts s v \<noteq> []) (rev [lo..<Suc m]) = []
     else (\<exists>vs. filter (\<lambda>v. earlier_starts s v \<noteq> []) (rev [lo..<Suc m]) = longest # vs) \<and>
          hd (earlier_starts s longest) = length s - Suc position \<and> Suc position + longest \<le> length s + longest \<and>
          length s - Suc position + longest < length s \<and> position < length s"
proof -
  have most: "v \<le> longest" if v: "earlier_starts s v \<noteq> []" "v \<le> m" for v
  proof -
    obtain p where "p \<in> set (earlier_starts s v)" using v(1) by (cases "earlier_starts s v") auto
    then have "is_border (rev s) v (length s - p)" by (simp add: earlier_start_border)
    then show ?thesis using b v(2) unfolding best_match_def by (meson diff_le_self)
  qed
  show ?thesis
  proof (cases "longest < lo")
    case True
    have "earlier_starts s v = []" if "lo \<le> v" "v \<le> m" for v using most [of v] that True by fastforce
    then show ?thesis using True by (auto simp: filter_empty_conv)
  next
    case False
    then have pos: "0 < longest" using min by simp
    then have B: "longest \<le> m" "position < length s" "is_border (rev s) longest (Suc position)"
      "\<And>j. j \<le> length s \<Longrightarrow> is_border (rev s) longest j \<Longrightarrow> j \<le> Suc position"
      using b by (simp_all add: best_match_def)
    let ?p = "length s - Suc position"
    have mem: "?p \<in> set (earlier_starts s longest)" by (rule border_earlier_start [OF B(3)])
    have "\<exists>vs. filter (\<lambda>v. earlier_starts s v \<noteq> []) (rev [lo..<Suc m]) = longest # vs"
      by (rule filter_rev_upt) (use False B(1) mem most in \<open>fastforce+\<close>)
    moreover have "hd (earlier_starts s longest) = ?p"
      unfolding earlier_starts_def
    proof (rule hd_filter_upt)
      show "take longest (drop ?p s) = drop (length s - longest) s" "?p < length s - longest"
        using mem by (simp_all add: earlier_starts_def)
      fix q assume q: "q < ?p"
      show "take longest (drop q s) \<noteq> drop (length s - longest) s"
      proof
        assume "take longest (drop q s) = drop (length s - longest) s"
        then have "q \<in> set (earlier_starts s longest)" using q \<open>?p < length s - longest\<close> by (simp add: earlier_starts_def)
        then have "is_border (rev s) longest (length s - q)" by (simp add: earlier_start_border)
        then have "length s - q \<le> Suc position" by (rule B(4) [rotated]) simp
        then show False using q by simp
      qed
    qed
    moreover have "?p + longest < length s" using B(3) by (auto simp: border_nth)
    ultimately show ?thesis using False B(2) by simp
  qed
qed

lemma reference_length: "length (reference_proposal s lo hi mml k) \<le> nat (min k (mml - int (length s)))"
  by (auto simp: reference_proposal_def split: list.splits)

lemma find_ngram_reference:
  assumes "0 < lo" "0 < hi"
  shows "find_longest_matched_ngram s lo hi mml k = Some (Inr (reference_proposal s lo hi mml k))"
proof -
  let ?k1 = "min k (mml - int (length s))"
  consider "length s < lo" | "\<not> length s < lo" "?k1 \<le> 0" | "\<not> length s < lo" "0 < ?k1" by linarith
  then show ?thesis
  proof cases
    case 1
    then show ?thesis by (simp add: find_longest_matched_ngram_def reference_proposal_def)
  next
    case 2
    then have "reference_proposal s lo hi mml k = []" using reference_length [of s lo hi mml k] by simp
    then show ?thesis using 2 by (simp add: find_longest_matched_ngram_def Let_def)
  next
    case 3
    have "rev s \<noteq> []" using 3(1) assms(1) by auto
    then obtain st where st: "ngram_loop (rev s) hi = Some (Inr st)" "ngram_inv (rev s) hi st" "ng_i st = length s"
      using ngram_loop_ends [OF assms(2), of "rev s"] by auto
    have b: "best_match (rev s) hi (length s) (ng_longest st) (ng_position st)" using ngram_invD(9) [OF st(2)] st(3) by simp
    note R = best_match_reference [OF b assms(1)]
    show ?thesis
    proof (cases "ng_longest st < lo")
      case True
      then show ?thesis using 3 R st(1) by (simp add: find_longest_matched_ngram_def reference_proposal_def Let_def)
    next
      case False
      let ?p = "length s - Suc (ng_position st)" and ?v = "ng_longest st"
      have r: "\<exists>vs. filter (\<lambda>v. earlier_starts s v \<noteq> []) (rev [lo..<Suc hi]) = ?v # vs"
        "hd (earlier_starts s ?v) = ?p" "?p + ?v < length s" "ng_position st < length s"
        using R unfolding if_not_P [OF False] by blast+
      have start: "int (length s) - 1 - int (ng_position st) + int ?v = int (?p + ?v)" using r(4) by (simp add: of_nat_diff)
      let ?k2 = "min ?k1 (int (length s) - int (?p + ?v))"
      have k2: "0 \<le> ?k2" using 3 r(3) by simp
      have k: "\<not> ?k1 \<le> 0" using 3(2) by linarith
      have "py_slice s (int (?p + ?v)) (int (?p + ?v) + ?k2) = take (nat ?k2) (drop (?p + ?v) s)"
        using k2 by (simp add: py_slice_nonneg nat_add_distrib)
      also have "\<dots> = take (nat ?k1) (drop (?p + ?v) s)"
        using k2 r(3) by (cases "?k1 \<le> int (length s) - int (?p + ?v)") (simp_all add: min_def)
      finally have slice: "py_slice s (int (?p + ?v)) (int (?p + ?v) + ?k2) = take (nat ?k1) (drop (?p + ?v) s)" .
      have "find_longest_matched_ngram s lo hi mml k = Some (Inr (py_slice s (int (?p + ?v)) (int (?p + ?v) + ?k2)))"
        unfolding find_longest_matched_ngram_def Let_def
        by (simp only: 3(1) False st(1) start k if_False option.map(2) bindE_simps)
      moreover have "reference_proposal s lo hi mml k = take (nat ?k1) (drop (?p + ?v) s)"
        using 3(1) r(1,2) by (auto simp: reference_proposal_def)
      ultimately show ?thesis using slice by simp
    qed
  qed
qed

section \<open>Batches\<close>

record ngram_proposer =
  np_min_n :: nat
  np_max_n :: nat
  np_k :: int
  np_max_model_len :: int
  np_draft :: "token list list"
  np_num_drafts :: "int list"

definition bindO :: "'a res option \<Rightarrow> ('a \<Rightarrow> 'b res option) \<Rightarrow> 'b res option" where
  "bindO m f = (case m of None \<Rightarrow> None | Some (Inl e) \<Rightarrow> Some (Inl e) | Some (Inr x) \<Rightarrow> f x)"

lemma bindO_simps [simp]:
  "bindO None f = None" "bindO (Some (Inl e)) f = Some (Inl e)" "bindO (Some (Inr x)) f = f x"
  by (simp_all add: bindO_def)

text \<open>A slice assignment needs a row that is long enough.\<close>

definition store_draft :: "nat \<Rightarrow> token list \<Rightarrow> ngram_proposer \<Rightarrow> ngram_proposer res" where
  "store_draft idx out p =
     bindE (arr_set (np_num_drafts p) idx (int (length out))) (\<lambda>nums.
       if out = [] then Inr (p\<lparr>np_num_drafts := nums\<rparr>)
       else bindE (arr_get (np_draft p) idx) (\<lambda>row.
         if length out > length row then Inl ValueError
         else bindE (arr_set (np_draft p) idx (out @ drop (length out) row)) (\<lambda>rows.
           Inr (p\<lparr>np_num_drafts := nums, np_draft := rows\<rparr>))))"

fun batch_propose_numba ::
  "nat list \<Rightarrow> int list \<Rightarrow> token list list \<Rightarrow> ngram_proposer \<Rightarrow> ngram_proposer res option" where
  "batch_propose_numba [] nums toks p = Some (Inr p)"
| "batch_propose_numba (idx # rest) nums toks p =
     bindO (Some (arr_get nums idx)) (\<lambda>n.
     bindO (Some (arr_get toks idx)) (\<lambda>row.
     bindO (find_longest_matched_ngram (py_upto row n) (np_min_n p) (np_max_n p) (np_max_model_len p) (np_k p)) (\<lambda>out.
     bindO (Some (store_draft idx out p)) (batch_propose_numba rest nums toks))))"

definition collect_draft :: "nat list \<Rightarrow> ngram_proposer \<Rightarrow> nat \<Rightarrow> token list res" where
  "collect_draft valid p i =
     (if i \<notin> set valid then Inr []
      else bindE (arr_get (np_num_drafts p) i) (\<lambda>n.
        if n > 0 then bindE (arr_get (np_draft p) i) (\<lambda>row. Inr (py_upto row n)) else Inr []))"

definition batch_propose ::
  "nat \<Rightarrow> nat list \<Rightarrow> int list \<Rightarrow> token list list \<Rightarrow> ngram_proposer \<Rightarrow>
   (token list list \<times> ngram_proposer) res option" where
  "batch_propose num_requests valid nums toks p =
     bindO (if valid \<noteq> [] then batch_propose_numba valid nums toks p else Some (Inr p)) (\<lambda>p1.
     bindO (Some (mapE (collect_draft valid p1) [0..<num_requests])) (\<lambda>drafts. Some (Inr (drafts, p1))))"

text \<open>The requests that sampled a token and are not at the maximum length.\<close>

fun valid_ngram_requests :: "int \<Rightarrow> nat \<Rightarrow> token list list \<Rightarrow> int list \<Rightarrow> nat list res" where
  "valid_ngram_requests max_len i [] nums = Inr []"
| "valid_ngram_requests max_len i (ids # rest) nums =
     bindE (if ids = [] then Inr False else bindE (arr_get nums i) (\<lambda>n. Inr (\<not> n \<ge> max_len))) (\<lambda>ok.
     bindE (valid_ngram_requests max_len (Suc i) rest nums) (\<lambda>is. Inr (if ok then i # is else is)))"

definition ngram_propose ::
  "token list list \<Rightarrow> int list \<Rightarrow> token list list \<Rightarrow> ngram_proposer \<Rightarrow> (token list list \<times> ngram_proposer) res option" where
  "ngram_propose sampled nums toks p =
     bindO (Some (valid_ngram_requests (np_max_model_len p) 0 sampled nums)) (\<lambda>valid.
       batch_propose (length sampled) valid nums toks p)"

text \<open>Construction allocates the buffers and runs a batch without tokens, to compile the search.\<close>

definition init_ngram_proposer :: "nat \<Rightarrow> nat \<Rightarrow> nat \<Rightarrow> nat \<Rightarrow> nat \<Rightarrow> ngram_proposer res option" where
  "init_ngram_proposer min_n max_n k max_model_len max_num_seqs =
     bindO (ngram_propose (replicate 1024 []) (replicate 1024 0) (replicate 1024 (replicate max_model_len 0))
        \<lparr>np_min_n = min_n, np_max_n = max_n, np_k = int k, np_max_model_len = int max_model_len,
         np_draft = replicate max_num_seqs (replicate k 0), np_num_drafts = replicate max_num_seqs 0\<rparr>)
       (\<lambda>(drafts, p). Some (Inr p))"

lemma valid_requests:
  assumes "i + length sampled \<le> length nums"
  shows "valid_ngram_requests max_len i sampled nums =
    Inr (filter (\<lambda>j. sampled ! (j - i) \<noteq> [] \<and> nums ! j < max_len) [i..<i + length sampled])"
  using assms
proof (induction sampled arbitrary: i)
  case (Cons ids rest)
  have eq: "filter (\<lambda>j. (ids # rest) ! (j - i) \<noteq> [] \<and> nums ! j < max_len) [Suc i..<i + length (ids # rest)] =
      filter (\<lambda>j. rest ! (j - Suc i) \<noteq> [] \<and> nums ! j < max_len) [Suc i..<Suc i + length rest]"
    by (auto simp: nth_Cons' intro!: filter_cong)
  have up: "[i..<i + length (ids # rest)] = i # [Suc i..<i + length (ids # rest)]" by (rule upt_conv_Cons) simp
  show ?case
    using Cons.prems unfolding up filter.simps eq
    by (auto simp: Cons.IH [of "Suc i"] arr_get_def not_le)
qed simp

text \<open>The buffers have a row for every request, with room for a proposal.\<close>

definition buffers_ok :: "nat \<Rightarrow> ngram_proposer \<Rightarrow> bool" where
  "buffers_ok n p \<longleftrightarrow> n \<le> length (np_draft p) \<and> n \<le> length (np_num_drafts p) \<and>
     (\<forall>row \<in> set (np_draft p). nat (np_k p) \<le> length row)"

definition same_params :: "ngram_proposer \<Rightarrow> ngram_proposer \<Rightarrow> bool" where
  "same_params p p' \<longleftrightarrow> np_min_n p' = np_min_n p \<and> np_max_n p' = np_max_n p \<and> np_k p' = np_k p \<and>
     np_max_model_len p' = np_max_model_len p"

definition has_draft :: "ngram_proposer \<Rightarrow> nat \<Rightarrow> token list \<Rightarrow> bool" where
  "has_draft p i out \<longleftrightarrow>
     i < length (np_num_drafts p) \<and> np_num_drafts p ! i = int (length out) \<and> i < length (np_draft p) \<and>
     take (length out) (np_draft p ! i) = out \<and> length out \<le> length (np_draft p ! i)"

lemma store_draft_effect:
  assumes b: "buffers_ok n p" and i: "idx < n" and out: "length out \<le> nat (np_k p)"
  obtains p' where "store_draft idx out p = Inr p'" "buffers_ok n p'" "same_params p p'" "has_draft p' idx out"
    "\<And>j x. j \<noteq> idx \<Longrightarrow> has_draft p j x \<Longrightarrow> has_draft p' j x"
proof -
  let ?row = "np_draft p ! idx"
  have l: "idx < length (np_draft p)" "idx < length (np_num_drafts p)" "length out \<le> length ?row"
    using b i out by (auto simp: buffers_ok_def dest: bspec [of _ _ ?row] nth_mem)
  define p' where "p' = p\<lparr>np_num_drafts := (np_num_drafts p)[idx := int (length out)],
      np_draft := (if out = [] then np_draft p else (np_draft p)[idx := out @ drop (length out) ?row])\<rparr>"
  have "store_draft idx out p = Inr p'" using l by (simp add: store_draft_def p'_def arr_set_def arr_get_def)
  moreover have "buffers_ok n p'"
    using b l out by (auto simp: buffers_ok_def p'_def dest!: set_update_subset_insert [THEN subsetD])
  moreover have "same_params p p'" by (simp add: same_params_def p'_def)
  moreover have "has_draft p' idx out" using l by (auto simp: has_draft_def p'_def)
  moreover have "has_draft p' j x" if "j \<noteq> idx" "has_draft p j x" for j x
    using that by (auto simp: has_draft_def p'_def)
  ultimately show thesis using that by blast
qed

lemma batch_numba_effect:
  assumes "buffers_ok n p" "0 < np_min_n p" "0 < np_max_n p" "distinct idxs" "\<forall>i \<in> set idxs. i < n"
    "n \<le> length nums" "n \<le> length toks"
  shows "\<exists>p'. batch_propose_numba idxs nums toks p = Some (Inr p') \<and> buffers_ok n p' \<and> same_params p p' \<and>
    (\<forall>i \<in> set idxs. has_draft p' i (reference_proposal (py_upto (toks ! i) (nums ! i)) (np_min_n p) (np_max_n p)
                                     (np_max_model_len p) (np_k p))) \<and>
    (\<forall>j x. j \<notin> set idxs \<longrightarrow> has_draft p j x \<longrightarrow> has_draft p' j x)"
  using assms
proof (induction idxs arbitrary: p)
  case Nil
  then show ?case by (simp add: same_params_def)
next
  case (Cons i idxs)
  let ?out = "reference_proposal (py_upto (toks ! i) (nums ! i)) (np_min_n p) (np_max_n p) (np_max_model_len p) (np_k p)"
  have "length ?out \<le> nat (min (np_k p) (np_max_model_len p - int (length (py_upto (toks ! i) (nums ! i)))))"
    by (rule reference_length)
  then have len: "length ?out \<le> nat (np_k p)" by simp
  obtain p1 where p1: "store_draft i ?out p = Inr p1" "buffers_ok n p1" "same_params p p1" "has_draft p1 i ?out"
    "\<And>j x. j \<noteq> i \<Longrightarrow> has_draft p j x \<Longrightarrow> has_draft p1 j x"
    using store_draft_effect [OF Cons.prems(1) _ len, of i] Cons.prems(5) by auto
  have sp: "np_min_n p1 = np_min_n p" "np_max_n p1 = np_max_n p" "np_k p1 = np_k p" "np_max_model_len p1 = np_max_model_len p"
    using p1(3) by (simp_all add: same_params_def)
  obtain p' where p': "batch_propose_numba idxs nums toks p1 = Some (Inr p')" "buffers_ok n p'" "same_params p1 p'"
    "\<forall>i \<in> set idxs. has_draft p' i (reference_proposal (py_upto (toks ! i) (nums ! i)) (np_min_n p1) (np_max_n p1)
                                     (np_max_model_len p1) (np_k p1))"
    "\<forall>j x. j \<notin> set idxs \<longrightarrow> has_draft p1 j x \<longrightarrow> has_draft p' j x"
    using Cons.IH [OF p1(2)] Cons.prems sp by auto
  have "batch_propose_numba (i # idxs) nums toks p = Some (Inr p')"
    using Cons.prems p1(1) p'(1) find_ngram_reference [OF Cons.prems(2,3)] by (simp add: arr_get_def)
  moreover have "has_draft p' i ?out" using p'(5) p1(4) Cons.prems(4) by simp
  ultimately show ?case using p' p1(5) sp by (auto simp: same_params_def)
qed

lemma collect_draft_has:
  "has_draft p i out \<Longrightarrow> i \<in> set valid \<Longrightarrow> collect_draft valid p i = Inr out"
  by (auto simp: collect_draft_def has_draft_def arr_get_def py_upto_nonneg)

lemma batch_propose_effect:
  assumes "buffers_ok (length sampled) p" "0 < np_min_n p" "0 < np_max_n p"
    "length sampled \<le> length nums" "length sampled \<le> length toks"
  shows "\<exists>p'. buffers_ok (length sampled) p' \<and> same_params p p' \<and> ngram_propose sampled nums toks p =
    Some (Inr (map (\<lambda>i. if sampled ! i \<noteq> [] \<and> nums ! i < np_max_model_len p
                        then reference_proposal (py_upto (toks ! i) (nums ! i)) (np_min_n p) (np_max_n p)
                               (np_max_model_len p) (np_k p)
                        else []) [0..<length sampled], p'))"
proof -
  let ?valid = "filter (\<lambda>i. sampled ! i \<noteq> [] \<and> nums ! i < np_max_model_len p) [0..<length sampled]"
  have v: "valid_ngram_requests (np_max_model_len p) 0 sampled nums = Inr ?valid"
    using valid_requests [of 0 sampled nums] assms(4) by simp
  have d: "distinct ?valid" and lt: "\<forall>i \<in> set ?valid. i < length sampled" by simp_all
  obtain p' where p': "batch_propose_numba ?valid nums toks p = Some (Inr p')" "buffers_ok (length sampled) p'" "same_params p p'"
    "\<forall>i \<in> set ?valid. has_draft p' i (reference_proposal (py_upto (toks ! i) (nums ! i)) (np_min_n p) (np_max_n p)
                                     (np_max_model_len p) (np_k p))"
    using batch_numba_effect [OF assms(1-3) d lt assms(4,5)] by blast
  have run: "(if ?valid \<noteq> [] then batch_propose_numba ?valid nums toks p else Some (Inr p)) = Some (Inr p')"
    using p'(1) by (cases "?valid = []") simp_all
  have "mapE (collect_draft ?valid p') [0..<length sampled] =
      Inr (map (\<lambda>i. if sampled ! i \<noteq> [] \<and> nums ! i < np_max_model_len p
                        then reference_proposal (py_upto (toks ! i) (nums ! i)) (np_min_n p) (np_max_n p)
                               (np_max_model_len p) (np_k p)
                        else []) [0..<length sampled])"
  proof (rule mapE_all_Inr)
    fix i assume i: "i \<in> set [0..<length sampled]"
    show "collect_draft ?valid p' i = Inr (if sampled ! i \<noteq> [] \<and> nums ! i < np_max_model_len p
                        then reference_proposal (py_upto (toks ! i) (nums ! i)) (np_min_n p) (np_max_n p)
                               (np_max_model_len p) (np_k p)
                        else [])"
    proof (cases "i \<in> set ?valid")
      case True
      then show ?thesis using collect_draft_has [OF _ True] p'(4) by simp
    next
      case False
      then show ?thesis using i by (auto simp: collect_draft_def)
    qed
  qed
  then show ?thesis using run v p'(2,3) by (auto simp: ngram_propose_def batch_propose_def)
qed

lemma init_ngram_proposer_effect:
  "init_ngram_proposer min_n max_n k max_model_len max_num_seqs = Some (Inr
     \<lparr>np_min_n = min_n, np_max_n = max_n, np_k = int k, np_max_model_len = int max_model_len,
      np_draft = replicate max_num_seqs (replicate k 0), np_num_drafts = replicate max_num_seqs 0\<rparr>)"
proof -
  have none: "valid_ngram_requests ml 0 (replicate 1024 []) (replicate 1024 0) = Inr []" for ml
    using valid_requests [of 0 "replicate 1024 []" "replicate 1024 0" ml] by (simp add: filter_empty_conv)
  have drafts: "mapE (collect_draft [] q) is = Inr (map (\<lambda>i. []) is)" for q "is"
    by (rule mapE_all_Inr) (simp add: collect_draft_def)
  show ?thesis
    unfolding init_ngram_proposer_def ngram_propose_def batch_propose_def none by (simp add: drafts)
qed

lemma init_ngram_proposer_buffers:
  "init_ngram_proposer min_n max_n k max_model_len n = Some (Inr p) \<Longrightarrow> buffers_ok n p"
  unfolding init_ngram_proposer_effect by (auto simp: buffers_ok_def)

section \<open>Properties\<close>

text \<open>C25 (ngram_search_terminates): the search loop ends for every context and every positive n-gram cap,
  without reading or writing outside its arrays (it is compiled without bounds checks), after reading
  every token.\<close>

theorem ngram_search_terminates:
  assumes "0 < max_ngram" "tokens \<noteq> []"
  shows "\<exists>st. ngram_loop tokens max_ngram = Some (Inr st) \<and> ng_i st = length tokens \<and>
    length (ng_lps st) = max_ngram \<and> ng_longest st \<le> max_ngram"
  using ngram_loop_ends [OF assms] ngram_invD(6,9) by (fastforce simp: best_match_def)

theorem ngram_search_terminates_witness:
  "\<exists>st. ngram_loop [3, 1, 2, 3, 1] 2 = Some (Inr st) \<and> ng_i st = length [3, 1, 2, 3, 1::token] \<and>
    length (ng_lps st) = 2 \<and> ng_longest st \<le> 2"
  by (rule ngram_search_terminates) simp_all

text \<open>C15 (ngram_proposals_correct): proposing for a batch never fails; it gives a request that sampled
  tokens and has room the reference proposal for its own tokens - what follows the first earlier occurrence
  of the longest n-gram of an allowed size that ends the tokens - and every other request nothing; a
  proposal never exceeds the number of speculative tokens or the maximum length, and the buffers can be
  used for the next batch.\<close>

theorem ngram_proposals_correct:
  assumes "buffers_ok (length sampled) p" "0 < np_min_n p" "0 < np_max_n p"
    "length sampled \<le> length nums" "length sampled \<le> length toks"
  shows "\<exists>drafts p'. ngram_propose sampled nums toks p = Some (Inr (drafts, p')) \<and>
    buffers_ok (length sampled) p' \<and> same_params p p' \<and> length drafts = length sampled \<and>
    (\<forall>i < length sampled. drafts ! i =
       (if sampled ! i \<noteq> [] \<and> nums ! i < np_max_model_len p
        then reference_proposal (py_upto (toks ! i) (nums ! i)) (np_min_n p) (np_max_n p)
               (np_max_model_len p) (np_k p)
        else []) \<and>
       int (length (drafts ! i)) \<le> max 0 (min (np_k p) (np_max_model_len p - int (length (py_upto (toks ! i) (nums ! i))))))"
proof -
  have cap: "int (length (reference_proposal s lo hi mml k)) \<le> max 0 (min k (mml - int (length s)))" for s lo hi mml k
    using reference_length [of s lo hi mml k] by linarith
  from batch_propose_effect [OF assms] show ?thesis using cap by fastforce
qed

theorem ngram_proposals_correct_witness:
  "\<exists>p drafts p'. init_ngram_proposer 2 3 2 10 2 = Some (Inr p) \<and>
     ngram_propose [[7], []] [6, 3] [[5, 7, 9, 8, 5, 7], [1, 2, 1]] p = Some (Inr (drafts, p')) \<and> drafts = [[9, 8], []]"
proof -
  obtain p where p: "init_ngram_proposer 2 3 2 10 2 = Some (Inr p)" by (simp add: init_ngram_proposer_effect)
  have b: "buffers_ok 2 p" by (rule init_ngram_proposer_buffers [OF p])
  have par: "np_min_n p = 2" "np_max_n p = 3" "np_max_model_len p = 10" "np_k p = 2"
    using p by (auto simp: init_ngram_proposer_effect)
  let ?s = "[[7], []] :: token list list" and ?n = "[6, 3] :: int list"
    and ?t = "[[5, 7, 9, 8, 5, 7], [1, 2, 1]] :: token list list"
  have ref: "reference_proposal (py_upto (?t ! 0) (?n ! 0)) 2 3 10 2 = [9, 8]" by code_simp
  obtain drafts p' where d: "ngram_propose ?s ?n ?t p = Some (Inr (drafts, p'))" "length drafts = 2"
    "\<forall>i < 2. drafts ! i =
       (if ?s ! i \<noteq> [] \<and> ?n ! i < 10 then reference_proposal (py_upto (?t ! i) (?n ! i)) 2 3 10 2 else [])"
    using ngram_proposals_correct [of ?s p ?n ?t] b par by (auto simp: numeral_2_eq_2)
  have "drafts ! 0 = [9, 8]" "drafts ! 1 = []" using d(3) [rule_format, of 0] d(3) [rule_format, of 1] ref by simp_all
  then have "drafts = [[9, 8], []]" using d(2) by (auto simp: length_Suc_conv numeral_2_eq_2)
  then show ?thesis using p d(1) by blast
qed

end
