(* ===== verification/Cache_Config.thy ===== *)
theory Cache_Config
  imports Complex_Main KV_Spec Result_Logic
begin

text \<open>
  How the engine lays out the cache memory (src/vllm/v1/core/kv\_cache\_utils.py): the grouping of the layers
  by format, the check that one request of the maximum length fits, the search of the longest length that
  fits, the number of blocks and the tensors of every worker, and the configuration of the scheduler.
  A dictionary from layer names to formats is its list of entries in insertion order; the formats of the
  layers are formats of single layers.
\<close>

section \<open>Memory of a request\<close>

type_synonym spec_dict = "(string \<times> kv_cache_spec) list"

record engine_config =
  ec_vllm :: vllm_config
  ec_original_max_model_len :: int
  ec_num_gpu_blocks_override :: "int option"
  ec_disable_hybrid :: bool

definition sumE :: "int res list \<Rightarrow> int res" where
  "sumE ms = foldE (\<lambda>m acc. bindE m (\<lambda>x. Inr (acc + x))) ms 0"

definition floordivE :: "int \<Rightarrow> int \<Rightarrow> int res" where
  "floordivE a b = (if b = 0 then Inl ZeroDivisionError else Inr (a div b))"

definition cdivE :: "int \<Rightarrow> int \<Rightarrow> int res" where
  "cdivE a b = (if b = 0 then Inl ZeroDivisionError else Inr (cdiv a b))"

definition total_memory_usage_bytes :: "vllm_config \<Rightarrow> kv_cache_spec list \<Rightarrow> int res" where
  "total_memory_usage_bytes c specs = sumE (map (max_memory_usage_bytes c) specs)"

text \<open>The binary search, with the test as an argument: the code has it twice.\<close>

function search_len :: "(int \<Rightarrow> bool res) \<Rightarrow> int \<Rightarrow> int \<Rightarrow> int \<Rightarrow> int res" where
  "search_len fits left right best =
     (if left \<le> right
      then let mid = (left + right) div 2 in
        bindE (fits mid) (\<lambda>b. if b then search_len fits (mid + 1) right mid else search_len fits left (mid - 1) best)
      else Inr best)"
  by pat_completeness auto
termination by (relation "measure (\<lambda>(fits, left, right, best). nat (right - left + 1))") auto

declare search_len.simps [simp del]

definition longest_fitting :: "(int \<Rightarrow> bool res) \<Rightarrow> int \<Rightarrow> int res" where
  "longest_fitting fits original =
     bindE (fits 1) (\<lambda>b. if \<not> b then Inr 0 else search_len fits 1 original 1)"

definition estimate_max_model_len :: "vllm_config \<Rightarrow> kv_cache_spec list \<Rightarrow> int \<Rightarrow> int res" where
  "estimate_max_model_len c specs available =
     longest_fitting (\<lambda>n. bindE (total_memory_usage_bytes (c\<lparr>max_model_len := n\<rparr>) specs) (\<lambda>m. Inr (m \<le> available)))
       (max_model_len c)"

definition check_enough_memory :: "int \<Rightarrow> int res \<Rightarrow> (int \<Rightarrow> int res) \<Rightarrow> unit res" where
  "check_enough_memory available needed estimate =
     (if available \<le> 0 then Inl ValueError
      else bindE needed (\<lambda>n. if n > available then bindE (estimate available) (\<lambda>_. Inl ValueError) else Inr ()))"

definition check_enough_kv_cache_memory :: "vllm_config \<Rightarrow> spec_dict \<Rightarrow> int \<Rightarrow> unit res" where
  "check_enough_kv_cache_memory c specs available =
     (if specs = [] then Inr ()
      else check_enough_memory available (total_memory_usage_bytes c (map snd specs))
             (estimate_max_model_len c (map snd specs)))"

section \<open>Groups of layers\<close>

definition spec_of :: "spec_dict \<Rightarrow> string \<Rightarrow> kv_cache_spec res" where
  "spec_of specs n = (case map_of specs n of None \<Rightarrow> Inl KeyError | Some s \<Rightarrow> Inr s)"

definition create_kv_cache_group_specs :: "spec_dict \<Rightarrow> string list list \<Rightarrow> kv_cache_group list res" where
  "create_kv_cache_group_specs specs names =
     mapE (\<lambda>ns. bindE (mapE (spec_of specs) ns) (\<lambda>ls.
                bindE (merge ls) (\<lambda>m. Inr \<lparr>layer_names = ns, group_spec = m\<rparr>))) names"

definition is_kv_cache_spec_uniform :: "spec_dict \<Rightarrow> bool res" where
  "is_kv_cache_spec_uniform specs =
     (if specs = [] then Inr True
      else case merge (map snd specs) of
             Inl AssertionError \<Rightarrow> Inr False
           | Inl e \<Rightarrow> Inl e
           | Inr _ \<Rightarrow> Inr True)"

definition max_layers :: "kv_cache_group list \<Rightarrow> int res" where
  "max_layers gs = (if gs = [] then Inl ValueError else Inr (Max (set (map (\<lambda>g. int (length (layer_names g))) gs))))"

text \<open>The quotient of the concurrency is a Python float; here it is exact.\<close>

definition get_max_concurrency :: "vllm_config \<Rightarrow> kv_cache_config \<Rightarrow> rat res" where
  "get_max_concurrency c cfg =
     bindE (max_layers (kv_cache_groups cfg)) (\<lambda>n.
     bindE (total_memory_usage_bytes c (map group_spec (kv_cache_groups cfg))) (\<lambda>m.
     bindE (page_size_bytes (group_spec (hd (kv_cache_groups cfg)))) (\<lambda>pg.
     bindE (cdivE (n * m) (pg * n)) (\<lambda>per_request.
       if per_request = 0 then Inl ZeroDivisionError
       else Inr (of_int (num_blocks cfg) / of_int per_request)))))"

definition may_override_num_blocks :: "engine_config \<Rightarrow> int \<Rightarrow> int" where
  "may_override_num_blocks c n = (case ec_num_gpu_blocks_override c of None \<Rightarrow> n | Some k \<Rightarrow> k)"

definition get_num_blocks :: "engine_config \<Rightarrow> int \<Rightarrow> int \<Rightarrow> int \<Rightarrow> int res" where
  "get_num_blocks c num_layers available page =
     bindE (floordivE available page) (\<lambda>q.
     bindE (floordivE q num_layers) (\<lambda>n. Inr (may_override_num_blocks c (max n 0))))"

definition get_uniform_page_size :: "kv_cache_spec list \<Rightarrow> int res" where
  "get_uniform_page_size specs =
     bindE (mapE page_size_bytes specs) (\<lambda>ps. assertE (card (set ps) = 1) (Inr (hd ps)))"

definition get_groups_uniform_spec :: "spec_dict \<Rightarrow> kv_cache_group list res" where
  "get_groups_uniform_spec specs = create_kv_cache_group_specs specs [map fst specs]"

fun uniform_parts :: "kv_cache_spec \<Rightarrow> spec_dict option" where
  "uniform_parts (UniformTypeKVCacheSpecs bs ss) = Some ss"
| "uniform_parts _ = None"

definition get_groups_uniform_type :: "kv_cache_spec \<Rightarrow> kv_cache_group list" where
  "get_groups_uniform_type u =
     [\<lparr>layer_names = (case uniform_parts u of None \<Rightarrow> [] | Some ss \<Rightarrow> map fst ss), group_spec = u\<rparr>]"

definition is_kv_cache_page_size_uniform :: "spec_dict \<Rightarrow> bool res" where
  "is_kv_cache_page_size_uniform specs = bindE (mapE (\<lambda>s. page_size_bytes (snd s)) specs) (\<lambda>ps. Inr (card (set ps) = 1))"

definition unify_page_of :: "int \<Rightarrow> string \<times> kv_cache_spec \<Rightarrow> (string \<times> kv_cache_spec) res" where
  "unify_page_of largest l =
     bindE (page_size_bytes (snd l)) (\<lambda>p.
       if p = largest then Inr l
       else if p = 0 then Inl ZeroDivisionError
       else if largest mod p \<noteq> 0 then Inl NotImplementedError
       else let s = copy_with_new_block_size (snd l) (block_size (snd l) * (largest div p)) in
            bindE (page_size_bytes s) (\<lambda>p'. assertE (p' = largest) (Inr (fst l, s))))"

definition unify_kv_cache_spec_page_size :: "spec_dict \<Rightarrow> spec_dict res" where
  "unify_kv_cache_spec_page_size specs =
     bindE (mapE (\<lambda>s. page_size_bytes (snd s)) specs) (\<lambda>ps.
       if card (set ps) \<le> 1 then Inr specs else mapE (unify_page_of (Max (set ps))) specs)"

definition is_attention_free :: "spec_dict \<Rightarrow> bool" where
  "is_attention_free specs \<longleftrightarrow> specs = []"

text \<open>The layers by format, formats and layers in the order of the model.\<close>

fun add_layer :: "string \<times> kv_cache_spec \<Rightarrow> (kv_cache_spec \<times> string list) list \<Rightarrow> (kv_cache_spec \<times> string list) list" where
  "add_layer l [] = [(snd l, [fst l])]"
| "add_layer l ((s, ns) # gs) = (if s = snd l then (s, ns @ [fst l]) # gs else (s, ns) # add_layer l gs)"

definition same_type_layers :: "spec_dict \<Rightarrow> (kv_cache_spec \<times> string list) list" where
  "same_type_layers specs = fold add_layer specs []"

text \<open>\<^verbatim>\<open>xs[i::n]\<close>\<close>

definition py_stride :: "'a list \<Rightarrow> nat \<Rightarrow> nat \<Rightarrow> 'a list" where
  "py_stride xs i n = map ((!) xs) (filter (\<lambda>j. i \<le> j \<and> (j - i) mod n = 0) [0..<length xs])"

text \<open>\<^verbatim>\<open>largest < smallest * 1.5\<close>, exact on the numbers of layers.\<close>

definition layers_per_group :: "string list list \<Rightarrow> nat" where
  "layers_per_group types =
     (let smallest = Min (set (map length types)); largest = Max (set (map length types)) in
      if 2 * largest < 3 * smallest then largest else smallest)"

definition split_type :: "nat \<Rightarrow> string list \<Rightarrow> string list list" where
  "split_type group_size layers =
     (let n = nat (cdiv (int (length layers)) (int group_size)) in map (\<lambda>i. py_stride layers i n) [0..<n])"

definition get_groups_uniform_page_size :: "spec_dict \<Rightarrow> kv_cache_group list res" where
  "get_groups_uniform_page_size specs =
     (let types = map snd (same_type_layers specs) in
      if types = [] then Inl ValueError
      else create_kv_cache_group_specs specs (concat (map (split_type (layers_per_group types)) types)))"

fun unify_spec :: "kv_cache_spec \<Rightarrow> kv_cache_spec" where
  "unify_spec (SlidingWindowSpec a w) = FullAttentionSpec a (head_size a) (Some w) None"
| "unify_spec (ChunkedLocalAttentionSpec a c) = FullAttentionSpec a (head_size a) None (Some c)"
| "unify_spec s = s"

fun is_sliding :: "kv_cache_spec \<Rightarrow> bool" where
  "is_sliding (SlidingWindowSpec a w) = True" | "is_sliding _ = False"

fun is_chunked :: "kv_cache_spec \<Rightarrow> bool" where
  "is_chunked (ChunkedLocalAttentionSpec a c) = True" | "is_chunked _ = False"

definition one_type :: "spec_dict \<Rightarrow> bool res" where
  "one_type specs = bindE (is_kv_cache_spec_uniform specs) (\<lambda>u. if u then Inr True else is_uniform_type specs)"

definition unify_hybrid_kv_cache_specs :: "spec_dict \<Rightarrow> spec_dict res" where
  "unify_hybrid_kv_cache_specs specs =
     bindE (one_type specs) (\<lambda>u.
       if u then Inr specs
       else
         let ls = map snd specs;
             specs' = (if list_ex is_full_attention ls \<and> (list_ex is_sliding ls \<or> list_ex is_chunked ls)
                       then map (\<lambda>(n, s). (n, unify_spec s)) specs else specs)
         in bindE (one_type specs') (\<lambda>u'. if \<not> u' then Inl ValueError else Inr specs'))"

definition get_kv_cache_groups :: "engine_config \<Rightarrow> spec_dict \<Rightarrow> kv_cache_group list res" where
  "get_kv_cache_groups c specs0 =
     bindE (if ec_disable_hybrid c then unify_hybrid_kv_cache_specs specs0 else Inr specs0) (\<lambda>specs.
       if is_attention_free specs then Inr []
       else bindE (is_kv_cache_spec_uniform specs) (\<lambda>u.
         if u then get_groups_uniform_spec specs
         else bindE (from_specs specs) (\<lambda>ut.
           case ut of
             Some us \<Rightarrow> Inr (get_groups_uniform_type us)
           | None \<Rightarrow> bindE (unify_kv_cache_spec_page_size specs) get_groups_uniform_page_size)))"

section \<open>The configuration of a worker\<close>

definition single_uniform :: "kv_cache_group list \<Rightarrow> spec_dict option" where
  "single_uniform gs = (case gs of [g] \<Rightarrow> uniform_parts (group_spec g) | _ \<Rightarrow> None)"

definition shared_layers :: "kv_cache_group list \<Rightarrow> nat \<Rightarrow> string list" where
  "shared_layers gs i = map (\<lambda>g. layer_names g ! i) (filter (\<lambda>g. i < length (layer_names g)) gs)"

definition get_kv_cache_config_from_groups :: "engine_config \<Rightarrow> kv_cache_group list \<Rightarrow> int \<Rightarrow> kv_cache_config res" where
  "get_kv_cache_config_from_groups c gs available =
     (if gs = [] then Inr \<lparr>num_blocks = 1, kv_cache_tensors = [], kv_cache_groups = gs\<rparr>
      else case single_uniform gs of
        Some parts \<Rightarrow>
          bindE (page_size_bytes (group_spec (hd gs))) (\<lambda>pg.
          bindE (floordivE available pg) (\<lambda>q.
          let n = may_override_num_blocks c q in
          bindE (mapE (\<lambda>l. bindE (spec_of parts l) (\<lambda>s. bindE (page_size_bytes s) (\<lambda>p.
                       Inr \<lparr>tensor_size = p * n, shared_by = [l]\<rparr>))) (layer_names (hd gs))) (\<lambda>ts.
          Inr \<lparr>num_blocks = n, kv_cache_tensors = ts, kv_cache_groups = gs\<rparr>)))
      | None \<Rightarrow>
          bindE (max_layers gs) (\<lambda>group_size.
          bindE (get_uniform_page_size (map group_spec gs)) (\<lambda>pg.
          assertE (group_size > 0)
            (bindE (get_num_blocks c group_size available pg) (\<lambda>n.
             Inr \<lparr>num_blocks = n,
                  kv_cache_tensors = map (\<lambda>i. \<lparr>tensor_size = pg * n, shared_by = shared_layers gs i\<rparr>) [0..<nat group_size],
                  kv_cache_groups = gs\<rparr>)))))"

definition max_memory_usage_from_groups :: "vllm_config \<Rightarrow> kv_cache_group list \<Rightarrow> int res" where
  "max_memory_usage_from_groups c gs =
     (if gs = [] then Inr 0
      else case single_uniform gs of
        Some parts \<Rightarrow> total_memory_usage_bytes c (map snd parts)
      | None \<Rightarrow>
          bindE (max_layers gs) (\<lambda>group_size.
          bindE (get_uniform_page_size (map group_spec gs)) (\<lambda>pg.
          bindE (sumE (map (\<lambda>g. bindE (max_memory_usage_bytes c (group_spec g)) (\<lambda>m. cdivE m pg)) gs)) (\<lambda>blocks.
            Inr (group_size * pg * blocks)))))"

definition groups_fit :: "vllm_config \<Rightarrow> kv_cache_group list \<Rightarrow> int \<Rightarrow> int \<Rightarrow> bool res" where
  "groups_fit c gs available n =
     bindE (max_memory_usage_from_groups (c\<lparr>max_model_len := n\<rparr>) gs) (\<lambda>m. Inr (m \<le> available))"

definition estimate_max_model_len_from_groups :: "vllm_config \<Rightarrow> kv_cache_group list \<Rightarrow> int \<Rightarrow> int res" where
  "estimate_max_model_len_from_groups c gs available =
     longest_fitting (groups_fit c gs available) (max_model_len c)"

definition auto_fit_step :: "vllm_config \<Rightarrow> kv_cache_group list \<times> int \<Rightarrow> int \<Rightarrow> int res" where
  "auto_fit_step c w fit =
     (if fst w = [] then Inr fit
      else bindE (estimate_max_model_len_from_groups c (fst w) (snd w)) (\<lambda>m. Inr (if m < fit then m else fit)))"

definition auto_fit_max_model_len :: "vllm_config \<Rightarrow> kv_cache_group list list \<Rightarrow> int list \<Rightarrow> vllm_config res" where
  "auto_fit_max_model_len c projected available =
     (if list_all (\<lambda>gs. gs = []) projected then Inr c
      else if available = [] then Inl IndexError
      else bindE (foldE (auto_fit_step c) (zip projected available) (max_model_len c)) (\<lambda>fit.
             if fit \<le> 0 then Inl ValueError
             else Inr (if fit \<ge> max_model_len c then c else c\<lparr>max_model_len := fit\<rparr>)))"

definition project_group :: "spec_dict \<Rightarrow> kv_cache_group \<Rightarrow> kv_cache_group res" where
  "project_group worker g =
     (let ns = filter (\<lambda>n. n \<in> fst ` set worker) (layer_names g) in
      bindE (case uniform_parts (group_spec g) of
               Some parts \<Rightarrow>
                 if ns \<noteq> []
                 then bindE (mapE (\<lambda>n. bindE (spec_of parts n) (\<lambda>s. Inr (n, s))) ns) (\<lambda>ps.
                        Inr (UniformTypeKVCacheSpecs (block_size (group_spec g)) ps))
                 else Inr (group_spec g)
             | None \<Rightarrow> Inr (group_spec g)) (\<lambda>s.
        Inr \<lparr>layer_names = ns, group_spec = s\<rparr>))"

definition project_kv_cache_groups_to_worker :: "kv_cache_group list \<Rightarrow> spec_dict \<Rightarrow> kv_cache_group list res" where
  "project_kv_cache_groups_to_worker gs worker = mapE (project_group worker) gs"

section \<open>The configurations of all workers\<close>

definition report_kv_cache_config :: "vllm_config \<Rightarrow> kv_cache_config \<Rightarrow> unit res" where
  "report_kv_cache_config c cfg =
     (if kv_cache_groups cfg = [] then Inl ValueError
      else bindE (get_max_concurrency c cfg) (\<lambda>_. Inr ()))"

text \<open>Entering the layers of a worker into the dictionary of the model.\<close>

definition merge_layer :: "string \<times> kv_cache_spec \<Rightarrow> spec_dict \<Rightarrow> spec_dict res" where
  "merge_layer l merged =
     (case map_of merged (fst l) of
        None \<Rightarrow> Inr (merged @ [l])
      | Some s \<Rightarrow> assertE (s = snd l) (Inr merged))"

definition merge_worker_specs :: "spec_dict list \<Rightarrow> spec_dict res" where
  "merge_worker_specs workers = foldE (\<lambda>w merged. foldE merge_layer w merged) workers []"

definition check_worker :: "vllm_config \<Rightarrow> kv_cache_group list \<times> int \<Rightarrow> unit \<Rightarrow> unit res" where
  "check_worker c w u =
     (if fst w = [] then Inr ()
      else check_enough_memory (snd w) (max_memory_usage_from_groups c (fst w))
             (estimate_max_model_len_from_groups c (fst w)))"

definition worker_config :: "engine_config \<Rightarrow> kv_cache_group list \<times> spec_dict \<times> int \<Rightarrow> kv_cache_config res" where
  "worker_config c w =
     assertE (sum_list (map (\<lambda>g. length (layer_names g)) (fst w)) = length (fst (snd w)))
       (get_kv_cache_config_from_groups c (fst w) (snd (snd w)))"

definition shrink_tensor :: "int \<Rightarrow> int \<Rightarrow> kv_cache_tensor \<Rightarrow> kv_cache_tensor res" where
  "shrink_tensor old new t =
     (if old = 0 then Inl ZeroDivisionError
      else assertE (tensor_size t mod old = 0) (Inr (t\<lparr>tensor_size := tensor_size t div old * new\<rparr>)))"

definition shrink_config :: "vllm_config \<Rightarrow> int \<Rightarrow> kv_cache_config \<Rightarrow> kv_cache_config res" where
  "shrink_config c n cfg =
     bindE (mapE (shrink_tensor (num_blocks cfg) n) (kv_cache_tensors cfg)) (\<lambda>ts.
     let cfg' = cfg\<lparr>num_blocks := n, kv_cache_tensors := ts\<rparr> in
     bindE (if kv_cache_groups cfg = [] then Inr () else report_kv_cache_config c cfg') (\<lambda>_. Inr cfg'))"

definition get_kv_cache_configs ::
  "engine_config \<Rightarrow> spec_dict list \<Rightarrow> int list \<Rightarrow> (kv_cache_config list \<times> engine_config) res" where
  "get_kv_cache_configs c0 workers available =
     bindE (merge_worker_specs workers) (\<lambda>merged.
     bindE (get_kv_cache_groups c0 merged) (\<lambda>gs.
     bindE (mapE (project_kv_cache_groups_to_worker gs) workers) (\<lambda>projected.
     bindE (if ec_original_max_model_len c0 = -1
            then bindE (auto_fit_max_model_len (ec_vllm c0) projected available) (\<lambda>v. Inr (c0\<lparr>ec_vllm := v\<rparr>))
            else Inr c0) (\<lambda>c.
     bindE (foldE (check_worker (ec_vllm c)) (zip projected available) ()) (\<lambda>_.
     bindE (mapE (worker_config c) (zip projected (zip workers available))) (\<lambda>cfgs.
       if cfgs = [] then Inl ValueError
       else bindE (mapE (shrink_config (ec_vllm c) (Min (set (map num_blocks cfgs)))) cfgs) (\<lambda>cfgs'. Inr (cfgs', c))))))))"

text \<open>The scheduler gets the configuration of an arbitrary worker.\<close>

definition scheduler_group :: "kv_cache_group \<Rightarrow> kv_cache_group res" where
  "scheduler_group g =
     (case uniform_parts (group_spec g) of
        None \<Rightarrow> Inr g
      | Some [] \<Rightarrow> Inl StopIteration
      | Some ((n, s) # _) \<Rightarrow> Inr (g\<lparr>group_spec := s\<rparr>))"

definition generate_scheduler_kv_cache_config :: "kv_cache_config list \<Rightarrow> kv_cache_config res" where
  "generate_scheduler_kv_cache_config cfgs =
     (case cfgs of
        [] \<Rightarrow> Inl IndexError
      | cfg # _ \<Rightarrow>
          assertE (list_all (\<lambda>c. num_blocks c = num_blocks cfg) cfgs)
            (bindE (mapE scheduler_group (kv_cache_groups cfg)) (\<lambda>gs. Inr (cfg\<lparr>kv_cache_groups := gs\<rparr>))))"

end
