(* ===== verification/Cache_Config_Props.thy ===== *)
theory Cache_Config_Props
  imports Cache_Config "HOL-Library.Multiset"
begin

text \<open>
  Properties of the cache layout: the binary search finds the longest length that fits, the groups
  partition the layers, and the tensors of every worker fit its memory.
\<close>

section \<open>The binary search\<close>

lemma search_len_finds:
  assumes fits: "\<And>n. 1 \<le> n \<Longrightarrow> fits n = Inr (P n)" and anti: "\<And>m n. 1 \<le> m \<Longrightarrow> m \<le> n \<Longrightarrow> P n \<Longrightarrow> P m"
    and "1 \<le> l" "l \<le> b + 1" "1 \<le> b" "b \<le> max 1 N" "P b" "r \<le> N" "\<And>n. r < n \<Longrightarrow> n \<le> N \<Longrightarrow> \<not> P n"
  shows "totE (\<lambda>m. 1 \<le> m \<and> m \<le> max 1 N \<and> P m \<and> (\<forall>n. m < n \<longrightarrow> n \<le> N \<longrightarrow> \<not> P n)) (search_len fits l r b)"
  using assms(3-)
proof (induction "nat (r - l + 1)" arbitrary: l r b rule: less_induct)
  case less
  show ?case
  proof (cases "l \<le> r")
    case False
    have "\<not> P n" if "b < n" "n \<le> N" for n using less.prems that False by (cases "r < n") auto
    then show ?thesis using less.prems False by (simp add: search_len.simps)
  next
    case True
    let ?mid = "(l + r) div 2"
    have mid: "l \<le> ?mid" "?mid \<le> r" "1 \<le> ?mid" using True less.prems(1) by auto
    have step: "search_len fits l r b = (if P ?mid then search_len fits (?mid + 1) r ?mid else search_len fits l (?mid - 1) b)"
      by (subst search_len.simps) (simp add: True Let_def fits [OF mid(3)])
    show ?thesis
    proof (cases "P ?mid")
      case P: True
      show ?thesis unfolding step if_P [OF P]
        by (rule less.hyps) (use less.prems mid P in auto)
    next
      case P: False
      have no: "\<not> P n" if "?mid - 1 < n" for n using anti [of ?mid n] P mid(3) that by auto
      show ?thesis unfolding step if_not_P [OF P]
        by (rule less.hyps) (use less.prems mid no in auto)
    qed
  qed
qed

lemma longest_fitting_finds:
  assumes "\<And>n. 1 \<le> n \<Longrightarrow> fits n = Inr (P n)" "\<And>m n. 1 \<le> m \<Longrightarrow> m \<le> n \<Longrightarrow> P n \<Longrightarrow> P m"
  shows "totE (\<lambda>m. if P 1 then 1 \<le> m \<and> m \<le> max 1 N \<and> P m \<and> (\<forall>n. m < n \<longrightarrow> n \<le> N \<longrightarrow> \<not> P n) else m = 0)
    (longest_fitting fits N)"
proof (cases "P 1")
  case True
  have "totE (\<lambda>m. 1 \<le> m \<and> m \<le> max 1 N \<and> P m \<and> (\<forall>n. m < n \<longrightarrow> n \<le> N \<longrightarrow> \<not> P n)) (search_len fits 1 N 1)"
    by (rule search_len_finds [OF assms]) (use True in auto)
  then show ?thesis using True assms(1) [of 1] by (simp add: longest_fitting_def)
next
  case False
  then show ?thesis using assms(1) [of 1] by (simp add: longest_fitting_def)
qed

section \<open>The memory of a request grows with its length\<close>

definition layer_ok :: "kv_cache_spec \<Rightarrow> bool" where
  "layer_ok s \<longleftrightarrow> uniform_parts s = None \<and> 0 < block_size s \<and> (\<forall>p. page_size_bytes s = Inr p \<longrightarrow> 0 < p)"

text \<open>How many pages of a layer a request of the maximum length needs.\<close>

fun pages_needed :: "vllm_config \<Rightarrow> kv_cache_spec \<Rightarrow> int" where
  "pages_needed c (ChunkedLocalAttentionSpec a ch) = cdiv (min (ch + max_num_batched_tokens c) (max_model_len c)) (af_block_size a)"
| "pages_needed c (SlidingWindowSpec a w) =
     cdiv (min (w - 1 + max_num_batched_tokens c) (max_model_len c)) (af_block_size a) + 1"
| "pages_needed c (EncoderOnlyAttentionSpec a) = 0"
| "pages_needed c (CrossAttentionSpec a) = cdiv (max_num_encoder_input_tokens c) (af_block_size a)"
| "pages_needed c (MambaSpec m) =
     (if cfg_mamba_cache_mode c = ''all'' then cdiv (max_model_len c) (mf_block_size m)
      else if cfg_mamba_cache_mode c = ''align'' then 2 + num_speculative_blocks m else 1 + num_speculative_blocks m)"
| "pages_needed c s = cdiv (let w = dcp_world_size c * pcp_world_size c in
     if w > 1 then cdiv (max_model_len c) w else max_model_len c) (block_size s)"

text \<open>Only sliding windows restrict the configuration.\<close>

lemma max_memory_pages:
  assumes "layer_ok s" "page_size_bytes s = Inr p" "is_sliding s \<longrightarrow> dcp_world_size c = 1"
  shows "max_memory_usage_bytes c s = Inr (pages_needed c s * p)"
  using assms by (cases s) (auto simp: layer_ok_def full_max_memory_def Let_def)

lemma max_memory_raises:
  "layer_ok s \<Longrightarrow> max_memory_usage_bytes c s = Inr m \<Longrightarrow> (\<exists>p. page_size_bytes s = Inr p) \<or> (\<exists>a. s = EncoderOnlyAttentionSpec a)"
  by (cases s) (auto simp: layer_ok_def)

lemma max_memory_sliding: "max_memory_usage_bytes c s = Inr m \<Longrightarrow> is_sliding s \<Longrightarrow> dcp_world_size c = 1"
  by (cases s) auto

lemma pages_needed_mono:
  assumes "layer_ok s" "n \<le> n'"
  shows "pages_needed (c\<lparr>max_model_len := n\<rparr>) s \<le> pages_needed (c\<lparr>max_model_len := n'\<rparr>) s"
  using assms by (cases s) (auto simp: layer_ok_def Let_def intro!: cdiv_mono)

text \<open>The memory at another length.\<close>

lemma max_memory_len:
  assumes "layer_ok s" "max_memory_usage_bytes c s = Inr m"
  shows "\<exists>f. mono f \<and> (\<forall>n. max_memory_usage_bytes (c\<lparr>max_model_len := n\<rparr>) s = Inr (f n))"
proof (cases "\<exists>a. s = EncoderOnlyAttentionSpec a")
  case True
  then show ?thesis by (auto intro!: exI [of _ "\<lambda>n. 0"] simp: mono_def)
next
  case False
  obtain p where p: "page_size_bytes s = Inr p" using max_memory_raises [OF assms] False by blast
  have p0: "0 < p" using assms(1) p by (simp add: layer_ok_def)
  let ?f = "\<lambda>n. pages_needed (c\<lparr>max_model_len := n\<rparr>) s * p"
  have "mono ?f" using pages_needed_mono [OF assms(1)] p0 by (auto simp: mono_def intro!: mult_right_mono)
  moreover have "max_memory_usage_bytes (c\<lparr>max_model_len := n\<rparr>) s = Inr (?f n)" for n
    by (rule max_memory_pages [OF assms(1) p]) (use max_memory_sliding [OF assms(2)] in simp)
  ultimately show ?thesis by blast
qed

text \<open>Sums of results.\<close>

lemma sumE_from: "foldE (\<lambda>m acc. bindE m (\<lambda>x. Inr (acc + x))) ms (a :: int) = bindE (sumE ms) (\<lambda>x. Inr (a + x))"
proof (induction ms arbitrary: a)
  case (Cons m ms)
  show ?case
  proof (cases m)
    case (Inr x)
    then show ?thesis using Cons [of "a + x"] Cons [of x] by (simp add: sumE_def bindE_assoc add.assoc)
  qed (simp add: sumE_def)
qed (simp add: sumE_def)

lemma sumE_simps [simp]:
  "sumE [] = Inr 0" "sumE (m # ms) = bindE m (\<lambda>x. bindE (sumE ms) (\<lambda>y. Inr (x + y)))"
proof -
  show "sumE (m # ms) = bindE m (\<lambda>x. bindE (sumE ms) (\<lambda>y. Inr (x + y)))"
    unfolding sumE_def [of "m # ms"] by (cases m) (simp_all add: sumE_from [of ms])
qed (simp add: sumE_def)

lemma sumE_eq_Inr: "sumE (map f xs) = Inr t \<longleftrightarrow> (\<exists>ys. mapE f xs = Inr ys \<and> t = sum_list ys)"
  by (induction xs arbitrary: t) auto

lemma mapE_member: "mapE f xs = Inr ys \<Longrightarrow> x \<in> set xs \<Longrightarrow> \<exists>y \<in> set ys. f x = Inr y"
  by (induction xs arbitrary: ys) auto

lemma sumE_len:
  assumes "\<And>x. x \<in> set xs \<Longrightarrow> \<exists>f. mono f \<and> (\<forall>n. g x n = Inr (f (n :: int)))"
  shows "\<exists>f :: int \<Rightarrow> int. mono f \<and> (\<forall>n. sumE (map (\<lambda>x. g x n) xs) = Inr (f n))"
  using assms
proof (induction xs)
  case Nil
  show ?case by (rule exI [of _ "\<lambda>n. 0"]) (simp add: mono_def)
next
  case (Cons x xs)
  obtain f where f: "mono f" "\<And>n. g x n = Inr (f n)" using Cons.prems [of x] by auto
  have "\<exists>h :: int \<Rightarrow> int. mono h \<and> (\<forall>n. sumE (map (\<lambda>x. g x n) xs) = Inr (h n))" by (rule Cons.IH) (rule Cons.prems, simp)
  then obtain h where h: "mono h" "\<And>n. sumE (map (\<lambda>x. g x n) xs) = Inr (h n)" by blast
  have "mono (\<lambda>n. f n + h n)" using f(1) h(1) by (auto simp: mono_def intro: add_mono)
  moreover have "sumE (map (\<lambda>x. g x n) (x # xs)) = Inr (f n + h n)" for n using f(2) h(2) by simp
  ultimately show ?case by blast
qed

text \<open>The groups that the configuration builds: either formats of single layers, or one group of layers
  of one type.\<close>

definition groups_ok :: "kv_cache_group list \<Rightarrow> bool" where
  "groups_ok gs \<longleftrightarrow> (case single_uniform gs of
     Some parts \<Rightarrow> \<forall>l \<in> set parts. layer_ok (snd l) | None \<Rightarrow> \<forall>g \<in> set gs. layer_ok (group_spec g))"

lemma max_layersD:
  assumes "max_layers gs = Inr n"
  shows "gs \<noteq> []" "g \<in> set gs \<Longrightarrow> int (length (layer_names g)) \<le> n" "\<exists>g \<in> set gs. n = int (length (layer_names g))"
proof -
  have g: "gs \<noteq> []" "n = Max (set (map (\<lambda>g. int (length (layer_names g))) gs))"
    using assms by (simp_all add: max_layers_def split: if_splits)
  then show "gs \<noteq> []" "g \<in> set gs \<Longrightarrow> int (length (layer_names g)) \<le> n" by simp_all
  have "n \<in> set (map (\<lambda>g. int (length (layer_names g))) gs)" unfolding g(2) by (rule Max_in) (use g(1) in auto)
  then show "\<exists>g \<in> set gs. n = int (length (layer_names g))" by auto
qed

lemma groups_memory_len:
  assumes ok: "groups_ok gs" and m: "max_memory_usage_from_groups c gs = Inr m"
  shows "\<exists>f. mono f \<and> (\<forall>n. max_memory_usage_from_groups (c\<lparr>max_model_len := n\<rparr>) gs = Inr (f n))"
proof -
  consider "gs = []" | parts where "single_uniform gs = Some parts" "gs \<noteq> []" | "single_uniform gs = None" "gs \<noteq> []"
    by (cases "gs = []"; cases "single_uniform gs") auto
  then show ?thesis
  proof cases
    case 1
    then show ?thesis by (auto intro!: exI [of _ "\<lambda>n. 0"] simp: max_memory_usage_from_groups_def mono_def)
  next
    case 2
    have ys: "\<exists>ys. mapE (max_memory_usage_bytes c) (map snd parts) = Inr ys"
      using m 2 by (auto simp: max_memory_usage_from_groups_def total_memory_usage_bytes_def sumE_eq_Inr simp del: map_map)
    have "\<exists>f. mono f \<and> (\<forall>n. max_memory_usage_bytes (c\<lparr>max_model_len := n\<rparr>) s = Inr (f n))" if s: "s \<in> set (map snd parts)" for s
    proof -
      have "\<exists>m. max_memory_usage_bytes c s = Inr m"
        using ys s mapE_member by fast
      moreover have "layer_ok s" using ok 2(1) s by (auto simp: groups_ok_def)
      ultimately show ?thesis using max_memory_len by blast
    qed
    then have "\<exists>f :: int \<Rightarrow> int. mono f \<and> (\<forall>n. sumE (map (\<lambda>s. max_memory_usage_bytes (c\<lparr>max_model_len := n\<rparr>) s) (map snd parts)) = Inr (f n))"
      by (rule sumE_len)
    then show ?thesis using 2 by (simp add: max_memory_usage_from_groups_def total_memory_usage_bytes_def del: map_map)
  next
    case 3
    obtain gsz pg blocks where e: "max_layers gs = Inr gsz" "get_uniform_page_size (map group_spec gs) = Inr pg"
      "sumE (map (\<lambda>g. bindE (max_memory_usage_bytes c (group_spec g)) (\<lambda>m. cdivE m pg)) gs) = Inr blocks"
      using m 3 by (auto simp: max_memory_usage_from_groups_def)
    have lg: "\<And>g. g \<in> set gs \<Longrightarrow> layer_ok (group_spec g)" using ok 3 by (simp add: groups_ok_def)
    have pos: "0 < pg"
    proof -
      obtain g gs' where g: "gs = g # gs'" using 3(2) by (cases gs) auto
      then have "page_size_bytes (group_spec g) = Inr pg" using e(2) by (auto simp: get_uniform_page_size_def)
      then show ?thesis using lg [of g] g by (simp add: layer_ok_def)
    qed
    have gsz: "0 \<le> gsz" using max_layersD(3) [OF e(1)] by auto
    have "\<exists>f. mono f \<and> (\<forall>n. bindE (max_memory_usage_bytes (c\<lparr>max_model_len := n\<rparr>) (group_spec g)) (\<lambda>m. cdivE m pg) = Inr (f n))"
      if g: "g \<in> set gs" for g
    proof -
      obtain ys where "mapE (\<lambda>g. bindE (max_memory_usage_bytes c (group_spec g)) (\<lambda>m. cdivE m pg)) gs = Inr ys"
        using e(3) by (auto simp: sumE_eq_Inr)
      then have "\<exists>y. bindE (max_memory_usage_bytes c (group_spec g)) (\<lambda>m. cdivE m pg) = Inr y"
        using mapE_member [OF _ g] by fast
      then obtain m' where "max_memory_usage_bytes c (group_spec g) = Inr m'" by auto
      from max_memory_len [OF lg [OF g] this]
      obtain f where f: "mono f" "\<And>n. max_memory_usage_bytes (c\<lparr>max_model_len := n\<rparr>) (group_spec g) = Inr (f n)" by blast
      have "mono (\<lambda>n. cdiv (f n) pg)" using f(1) pos by (auto simp: mono_def intro: cdiv_mono)
      then show ?thesis using f(2) pos by (auto intro!: exI [of _ "\<lambda>n. cdiv (f n) pg"] simp: cdivE_def)
    qed
    then have "\<exists>f :: int \<Rightarrow> int. mono f \<and>
      (\<forall>n. sumE (map (\<lambda>g. bindE (max_memory_usage_bytes (c\<lparr>max_model_len := n\<rparr>) (group_spec g)) (\<lambda>m. cdivE m pg)) gs) = Inr (f n))"
      by (rule sumE_len)
    then obtain f :: "int \<Rightarrow> int" where f: "mono f"
      "\<And>n. sumE (map (\<lambda>g. bindE (max_memory_usage_bytes (c\<lparr>max_model_len := n\<rparr>) (group_spec g)) (\<lambda>m. cdivE m pg)) gs) = Inr (f n)"
      by blast
    have "mono (\<lambda>n. gsz * pg * f n)" using f(1) gsz pos by (auto simp: mono_def intro: mult_left_mono)
    moreover have "max_memory_usage_from_groups (c\<lparr>max_model_len := n\<rparr>) gs = Inr (gsz * pg * f n)" for n
      using 3 e(1,2) f(2) by (simp add: max_memory_usage_from_groups_def)
    ultimately show ?thesis by blast
  qed
qed

lemma longest_length_found:
  assumes ok: "groups_ok gs" and m: "max_memory_usage_from_groups c gs = Inr m"
  obtains n P where "estimate_max_model_len_from_groups c gs available = Inr n"
    "\<forall>l. groups_fit c gs available l = Inr (P l)" "\<forall>k l. k \<le> l \<longrightarrow> P l \<longrightarrow> P k"
    "if P 1 then 1 \<le> n \<and> n \<le> max 1 (max_model_len c) \<and> P n \<and> (\<forall>l. n < l \<longrightarrow> l \<le> max_model_len c \<longrightarrow> \<not> P l) else n = 0"
proof -
  obtain f where f: "mono f" "\<And>n. max_memory_usage_from_groups (c\<lparr>max_model_len := n\<rparr>) gs = Inr (f n)"
    using groups_memory_len [OF assms] by blast
  let ?P = "\<lambda>l. f l \<le> available"
  have fits: "groups_fit c gs available l = Inr (?P l)" for l using f(2) by (simp add: groups_fit_def)
  have anti: "?P k" if "k \<le> l" "?P l" for k l using monoD [OF f(1) that(1)] that(2) by simp
  have "totE (\<lambda>n. if ?P 1 then 1 \<le> n \<and> n \<le> max 1 (max_model_len c) \<and> ?P n \<and> (\<forall>l. n < l \<longrightarrow> l \<le> max_model_len c \<longrightarrow> \<not> ?P l)
      else n = 0) (longest_fitting (groups_fit c gs available) (max_model_len c))"
    by (rule longest_fitting_finds) (use fits anti in auto)
  then obtain n where n: "estimate_max_model_len_from_groups c gs available = Inr n"
    "if ?P 1 then 1 \<le> n \<and> n \<le> max 1 (max_model_len c) \<and> ?P n \<and> (\<forall>l. n < l \<longrightarrow> l \<le> max_model_len c \<longrightarrow> \<not> ?P l) else n = 0"
    unfolding totE_def estimate_max_model_len_from_groups_def by blast
  show thesis by (rule that [OF n(1) _ _ n(2)]) (use fits anti in blast)+
qed

section \<open>The groups partition the layers\<close>

lemma split_upt: "k < n \<Longrightarrow> [0..<n] = [0..<k] @ k # [Suc k..<n]"
  using upt_add_eq_append [of 0 k "n - k"] upt_conv_Cons [of k n] by simp

lemma mset_by_key:
  assumes "\<forall>x \<in> set xs. key x < n"
  shows "mset (concat (map (\<lambda>i. filter (\<lambda>x. key x = i) xs) [0..<n])) = mset xs"
  using assms
proof (induction xs)
  case Nil
  have "concat (map (\<lambda>i. []) is) = []" for "is" :: "nat list" by (induction "is") auto
  then show ?case by simp
next
  case (Cons x xs)
  let ?F = "\<lambda>i. filter (\<lambda>x. key x = i) xs"
  have k: "key x < n" using Cons.prems by simp
  have "map (\<lambda>i. filter (\<lambda>x. key x = i) (x # xs)) [0..<n] = map ?F [0..<key x] @ (x # ?F (key x)) # map ?F [Suc (key x)..<n]"
    unfolding split_upt [OF k] by simp
  moreover have "map ?F [0..<n] = map ?F [0..<key x] @ ?F (key x) # map ?F [Suc (key x)..<n]"
    unfolding split_upt [OF k] by simp
  ultimately show ?case using Cons by simp
qed

lemma stride_filter: "i < n \<Longrightarrow> py_stride xs i n = map ((!) xs) (filter (\<lambda>j. j mod n = i) [0..<length xs])"
proof -
  assume i: "i < n"
  have "i \<le> j \<and> (j - i) mod n = 0 \<longleftrightarrow> j mod n = i" for j
  proof
    assume "i \<le> j \<and> (j - i) mod n = 0"
    then show "j mod n = i" using i by (metis le_add_diff_inverse mod_add_right_eq mod_less add.right_neutral)
  next
    assume "j mod n = i"
    then show "i \<le> j \<and> (j - i) mod n = 0" by (auto simp: mod_less_eq_dividend minus_mod_eq_mult_div)
  qed
  then show ?thesis by (simp add: py_stride_def)
qed

lemma strides_partition: "0 < n \<Longrightarrow> mset (concat (map (\<lambda>i. py_stride xs i n) [0..<n])) = mset xs"
proof -
  assume n: "0 < n"
  have "map (\<lambda>i. py_stride xs i n) [0..<n] = map (\<lambda>i. map ((!) xs) (filter (\<lambda>j. j mod n = i) [0..<length xs])) [0..<n]"
    by (rule map_cong [OF refl]) (rule stride_filter, simp)
  then have "concat (map (\<lambda>i. py_stride xs i n) [0..<n]) = map ((!) xs) (concat (map (\<lambda>i. filter (\<lambda>j. j mod n = i) [0..<length xs]) [0..<n]))"
    by (simp only: map_concat map_map comp_def)
  also have "mset \<dots> = image_mset ((!) xs) (mset [0..<length xs])"
    unfolding mset_map using mset_by_key [of "[0..<length xs]" "\<lambda>j. j mod n" n] n by simp
  also have "\<dots> = mset xs" by (metis map_nth mset_map)
  finally show ?thesis .
qed

lemma stride_size:
  assumes "0 < n" "i < n" "length xs \<le> n * k"
  shows "length (py_stride xs i n) \<le> k" "i < length xs \<Longrightarrow> py_stride xs i n \<noteq> []"
proof -
  let ?js = "filter (\<lambda>j. j mod n = i) [0..<length xs]"
  have "inj_on (\<lambda>j. j div n) (set ?js)"
  proof (rule inj_onI)
    fix j k assume "j \<in> set ?js" "k \<in> set ?js" "j div n = k div n"
    then have "j mod n = k mod n" "j div n = k div n" by simp_all
    then show "j = k" by (metis div_mult_mod_eq)
  qed
  moreover have "(\<lambda>j. j div n) ` set ?js \<subseteq> {..<k}"
    using assms(1,3) by (auto simp: less_mult_imp_div_less mult.commute intro: less_le_trans)
  ultimately have "card (set ?js) \<le> k" using card_inj_on_le [of "\<lambda>j. j div n" "set ?js" "{..<k}"] by simp
  then show "length (py_stride xs i n) \<le> k" using distinct_card [of ?js] assms(2) by (simp add: stride_filter)
  show "py_stride xs i n \<noteq> []" if "i < length xs"
    using assms(2) that by (auto simp: stride_filter filter_empty_conv intro: bexI [of _ i])
qed

text \<open>The layers by format.\<close>

definition typed_layers :: "spec_dict \<Rightarrow> (kv_cache_spec \<times> string list) list \<Rightarrow> bool" where
  "typed_layers specs gs \<longleftrightarrow> (\<forall>(s, ns) \<in> set gs. ns \<noteq> [] \<and> (\<forall>n \<in> set ns. (n, s) \<in> set specs))"

lemma add_layer_typed:
  assumes "typed_layers specs gs" "l \<in> set specs"
  shows "typed_layers specs (add_layer l gs) \<and>
    mset (concat (map snd (add_layer l gs))) = add_mset (fst l) (mset (concat (map snd gs)))"
  using assms by (induction l gs rule: add_layer.induct) (auto simp: typed_layers_def)

lemma same_type_layers_typed:
  "typed_layers specs (same_type_layers specs) \<and> mset (concat (map snd (same_type_layers specs))) = mset (map fst specs)"
proof -
  have "typed_layers specs (fold add_layer ls gs) \<and>
      mset (concat (map snd (fold add_layer ls gs))) = mset (map fst ls) + mset (concat (map snd gs))"
    if "set ls \<subseteq> set specs" "typed_layers specs gs" for ls gs
    using that
  proof (induction ls arbitrary: gs)
    case (Cons l ls)
    have "typed_layers specs (add_layer l gs)"
      "mset (concat (map snd (add_layer l gs))) = add_mset (fst l) (mset (concat (map snd gs)))"
      using add_layer_typed [OF Cons.prems(2), of l] Cons.prems(1) by simp_all
    then show ?case using Cons.IH [of "add_layer l gs"] Cons.prems(1) by simp
  qed simp
  from this [of specs "[]"] show ?thesis by (simp add: same_type_layers_def typed_layers_def)
qed

lemma same_type_layers_nonempty: "specs \<noteq> [] \<Longrightarrow> same_type_layers specs \<noteq> []"
  using same_type_layers_typed [of specs] by auto

lemma layers_per_group_pos: "types \<noteq> [] \<Longrightarrow> [] \<notin> set types \<Longrightarrow> 0 < layers_per_group types"
proof -
  assume t: "types \<noteq> []" "[] \<notin> set types"
  have "Min (set (map length types)) \<in> set (map length types)" by (rule Min_in) (use t in auto)
  then have "0 < Min (set (map length types))" using t(2) by auto
  moreover have "Min (set (map length types)) \<le> Max (set (map length types))"
    by (rule Max_ge) (simp, rule Min_in, use t(1) in auto)
  ultimately show ?thesis by (simp add: layers_per_group_def Let_def)
qed

text \<open>A format is split into groups of at most \<^verbatim>\<open>k\<close> layers, none empty.\<close>

lemma split_type_partition:
  assumes "0 < k" "layers \<noteq> []"
  shows "mset (concat (split_type k layers)) = mset layers" "ns \<in> set (split_type k layers) \<Longrightarrow> ns \<noteq> [] \<and> length ns \<le> k \<and> set ns \<subseteq> set layers"
proof -
  let ?L = "length layers" and ?n = "nat (cdiv (int (length layers)) (int k))"
  have b: "int ?L \<le> cdiv (int ?L) (int k) * int k" "cdiv (int ?L) (int k) * int k < int ?L + int k"
    using cdiv_bounds [of "int k" "int ?L"] assms(1) by simp_all
  have c0: "0 \<le> cdiv (int ?L) (int k)" using assms(1) by (simp add: cdiv_nonneg)
  have len: "?L \<le> ?n * k" using b(1) c0 by (metis nat_0_le of_nat_le_iff of_nat_mult)
  then have n: "0 < ?n" using assms(2) by (cases "?n = 0") auto
  have "cdiv (int ?L) (int k) \<le> int ?L" using cdiv_least [of "int k" "int ?L" "int ?L"] mult_left_mono [of 1 "int k" "int ?L"] assms(1) by simp
  then have small: "?n \<le> ?L" by simp
  show part: "mset (concat (split_type k layers)) = mset layers"
    using strides_partition [OF n] by (simp add: split_type_def Let_def)
  assume ns: "ns \<in> set (split_type k layers)"
  then obtain i where i: "i < ?n" "ns = py_stride layers i ?n" by (auto simp: split_type_def Let_def)
  have "set ns \<subseteq> set (concat (split_type k layers))" using ns by auto
  also have "\<dots> = set layers" using part by (metis set_mset_mset)
  finally show "ns \<noteq> [] \<and> length ns \<le> k \<and> set ns \<subseteq> set layers"
    using stride_size [OF n i(1) len] i small by simp
qed

text \<open>A merged format has the page and the block size of the first layer.\<close>

lemma merge_first:
  assumes "merge (s # rest) = Inr m"
  shows "page_size_bytes m = page_size_bytes s" "block_size m = block_size s" "uniform_parts m = uniform_parts s"
  using assms by (cases s; auto simp: Let_def merged_ok_def mla_page_def)+

lemma merge_layer_ok: "merge ls = Inr m \<Longrightarrow> \<forall>s \<in> set ls. layer_ok s \<Longrightarrow> ls \<noteq> [] \<and> layer_ok m \<and> page_size_bytes m = page_size_bytes (hd ls)"
  using merge_first by (cases ls) (auto simp: layer_ok_def)

lemma unify_spec_layer: "layer_ok (unify_spec s) = layer_ok s"
  by (cases s) (auto simp: layer_ok_def attention_page_def full_page_def algebra_simps)

lemma list_all2_right: "list_all2 P xs ys \<Longrightarrow> y \<in> set ys \<Longrightarrow> \<exists>x \<in> set xs. P x y"
  by (induction rule: list_all2_induct) auto

lemma create_groups:
  assumes "create_kv_cache_group_specs specs names = Inr gs" "\<forall>l \<in> set specs. layer_ok (snd l)"
  shows "map layer_names gs = names"
    "\<forall>g \<in> set gs. layer_names g \<noteq> [] \<and> layer_ok (group_spec g) \<and>
       (\<exists>s. (hd (layer_names g), s) \<in> set specs \<and> page_size_bytes (group_spec g) = page_size_bytes s)"
proof -
  let ?one = "\<lambda>ns. bindE (mapE (spec_of specs) ns) (\<lambda>ls. bindE (merge ls) (\<lambda>m. Inr \<lparr>layer_names = ns, group_spec = m\<rparr>))"
  have l2: "list_all2 (\<lambda>ns g. ?one ns = Inr g) names gs" using assms(1) by (simp add: create_kv_cache_group_specs_def mapE_eq_Inr)
  have one: "layer_names g = ns \<and> layer_names g \<noteq> [] \<and> layer_ok (group_spec g) \<and>
      (\<exists>s. (hd (layer_names g), s) \<in> set specs \<and> page_size_bytes (group_spec g) = page_size_bytes s)" if g: "?one ns = Inr g" for ns g
  proof -
    obtain ls m where m: "mapE (spec_of specs) ns = Inr ls" "merge ls = Inr m" "g = \<lparr>layer_names = ns, group_spec = m\<rparr>" using g by auto
    have l: "list_all2 (\<lambda>n s. (n, s) \<in> set specs) ns ls"
      using m(1) unfolding mapE_eq_Inr by (rule list_all2_mono) (auto simp: spec_of_def map_of_SomeD split: option.splits)
    have "\<forall>s \<in> set ls. layer_ok s" using list_all2_right [OF l] assms(2) by force
    then have ok: "ls \<noteq> []" "layer_ok m" "page_size_bytes m = page_size_bytes (hd ls)" using merge_layer_ok [OF m(2)] by simp_all
    then obtain n ns' s ls' where "ns = n # ns'" "ls = s # ls'" "(n, s) \<in> set specs" using l by (cases ls; cases ns) auto
    then show ?thesis using ok m(3) by auto
  qed
  have "list_all2 (\<lambda>ns g. layer_names g = ns) names gs" by (rule list_all2_mono [OF l2]) (use one in blast)
  then show "map layer_names gs = names" by (induction rule: list_all2_induct) auto
  show "\<forall>g \<in> set gs. layer_names g \<noteq> [] \<and> layer_ok (group_spec g) \<and>
       (\<exists>s. (hd (layer_names g), s) \<in> set specs \<and> page_size_bytes (group_spec g) = page_size_bytes s)"
  proof
    fix g assume "g \<in> set gs"
    then obtain ns where "?one ns = Inr g" using list_all2_right [OF l2] by blast
    then show "layer_names g \<noteq> [] \<and> layer_ok (group_spec g) \<and>
       (\<exists>s. (hd (layer_names g), s) \<in> set specs \<and> page_size_bytes (group_spec g) = page_size_bytes s)" using one by blast
  qed
qed

lemma unify_pages:
  assumes "unify_kv_cache_spec_page_size specs = Inr specs'" "\<forall>l \<in> set specs. layer_ok (snd l)"
  shows "map fst specs' = map fst specs" "\<forall>l \<in> set specs'. layer_ok (snd l)"
    "\<exists>p. \<forall>l \<in> set specs'. page_size_bytes (snd l) = Inr p"
proof -
  obtain ps where ps: "mapE (\<lambda>s. page_size_bytes (snd s)) specs = Inr ps"
    "(if card (set ps) \<le> 1 then Inr specs else mapE (unify_page_of (Max (set ps))) specs) = Inr specs'"
    using assms(1) by (auto simp: unify_kv_cache_spec_page_size_def)
  have mem: "\<exists>p \<in> set ps. page_size_bytes (snd l) = Inr p" if "l \<in> set specs" for l using mapE_member [OF ps(1) that] .
  have "map fst specs' = map fst specs \<and> (\<forall>l \<in> set specs'. layer_ok (snd l)) \<and>
    (\<exists>p. \<forall>l \<in> set specs'. page_size_bytes (snd l) = Inr p)"
  proof (cases "card (set ps) \<le> 1")
    case True
    then consider "set ps = {}" | p where "set ps = {p}" using card_1_singletonE [of "set ps"] by (cases "card (set ps)") auto
    then have "\<exists>p. \<forall>l \<in> set specs. page_size_bytes (snd l) = Inr p" using mem by cases fastforce+
    then show ?thesis using True ps(2) assms(2) by simp
  next
    case False
    let ?max = "Max (set ps)"
    have l2: "list_all2 (\<lambda>l l'. unify_page_of ?max l = Inr l') specs specs'" using False ps(2) by (simp add: mapE_eq_Inr)
    have max: "0 < ?max"
    proof -
      have "?max \<in> set ps" by (rule Max_in) (use False in \<open>auto simp: card_gt_0_iff not_le\<close>)
      moreover have "0 < p" if "p \<in> set ps" for p
      proof -
        have "list_all2 (\<lambda>l p. page_size_bytes (snd l) = Inr p) specs ps" using ps(1) by (simp add: mapE_eq_Inr)
        from list_all2_right [OF this that] obtain l where "l \<in> set specs" "page_size_bytes (snd l) = Inr p" by blast
        then show ?thesis using assms(2) by (auto simp: layer_ok_def)
      qed
      ultimately show ?thesis by blast
    qed
    have one: "fst l' = fst l \<and> layer_ok (snd l') \<and> page_size_bytes (snd l') = Inr ?max"
      if l: "unify_page_of ?max l = Inr l'" "layer_ok (snd l)" for l l'
    proof -
      obtain p where p: "page_size_bytes (snd l) = Inr p" using l(1) by (auto simp: unify_page_of_def)
      have p0: "0 < p" using l(2) p by (simp add: layer_ok_def)
      show ?thesis
      proof (cases "p = ?max")
        case True
        then show ?thesis using l p by (simp add: unify_page_of_def)
      next
        case False
        let ?s = "copy_with_new_block_size (snd l) (block_size (snd l) * (?max div p))"
        have s: "?max mod p = 0" "l' = (fst l, ?s)" "page_size_bytes ?s = Inr ?max"
          using l(1) p p0 False by (auto simp: unify_page_of_def Let_def split: if_splits)
        have "0 < ?max div p" using s(1) max p0 by (metis mult_eq_0_iff mult_div_mod_eq add.right_neutral div_int_pos_iff less_le not_less order.strict_implies_order pos_imp_zdiv_nonneg_iff)
        then have "0 < block_size (snd l) * (?max div p)" using l(2) by (simp add: layer_ok_def)
        then have "layer_ok ?s" using l(2) s(3) max by (cases "snd l") (auto simp: layer_ok_def copy_with_new_block_size_def)
        then show ?thesis using s by simp
      qed
    qed
    have "map fst specs' = map fst specs \<and> (\<forall>l \<in> set specs'. layer_ok (snd l) \<and> page_size_bytes (snd l) = Inr ?max)"
      using l2 assms(2)
    proof (induction rule: list_all2_induct)
      case (Cons x xs y ys)
      then show ?case using one [of x y] by simp
    qed simp
    then show ?thesis by blast
  qed
  then show "map fst specs' = map fst specs" "\<forall>l \<in> set specs'. layer_ok (snd l)"
    "\<exists>p. \<forall>l \<in> set specs'. page_size_bytes (snd l) = Inr p" by blast+
qed

text \<open>Grouping by format.\<close>

lemma in_concat_map: "x \<in> set (concat (map f xs)) \<Longrightarrow> \<exists>y \<in> set xs. x \<in> set (f y)"
  by auto

lemma groups_uniform_page_size:
  assumes "get_groups_uniform_page_size specs = Inr gs" "\<forall>l \<in> set specs. layer_ok (snd l)"
    "\<forall>l \<in> set specs. page_size_bytes (snd l) = Inr p"
  shows "mset (concat (map layer_names gs)) = mset (map fst specs)"
    "\<forall>g \<in> set gs. layer_names g \<noteq> [] \<and> layer_ok (group_spec g) \<and> page_size_bytes (group_spec g) = Inr p"
    "\<exists>k. \<forall>g \<in> set gs. length (layer_names g) \<le> k"
proof -
  let ?types = "map snd (same_type_layers specs)" and ?k = "layers_per_group (map snd (same_type_layers specs))"
  have t: "?types \<noteq> []" "create_kv_cache_group_specs specs (concat (map (split_type ?k) ?types)) = Inr gs"
    using assms(1) by (auto simp: get_groups_uniform_page_size_def Let_def split: if_splits)
  have typed: "typed_layers specs (same_type_layers specs)" "mset (concat ?types) = mset (map fst specs)"
    using same_type_layers_typed by blast+
  have ne: "[] \<notin> set ?types" using typed(1) by (auto simp: typed_layers_def)
  have k: "0 < ?k" by (rule layers_per_group_pos [OF t(1) ne])
  have names: "map layer_names gs = concat (map (split_type ?k) ?types)" by (rule create_groups(1) [OF t(2) assms(2)])
  have "mset (concat (concat (map (split_type ?k) ts))) = mset (concat ts)" if "[] \<notin> set ts" for ts
    using that by (induction ts) (auto simp: split_type_partition(1) [OF k])
  then show "mset (concat (map layer_names gs)) = mset (map fst specs)" using ne typed(2) unfolding names by metis
  show "\<forall>g \<in> set gs. layer_names g \<noteq> [] \<and> layer_ok (group_spec g) \<and> page_size_bytes (group_spec g) = Inr p"
    using create_groups(2) [OF t(2) assms(2)] assms(3) by fastforce
  have "length (layer_names g) \<le> ?k" if "g \<in> set gs" for g
  proof -
    have "layer_names g \<in> set (concat (map (split_type ?k) ?types))" using that unfolding names [symmetric] by simp
    then obtain ts where "ts \<in> set ?types" "layer_names g \<in> set (split_type ?k ts)" using in_concat_map by metis
    then show ?thesis using split_type_partition(2) [OF k] ne by metis
  qed
  then show "\<exists>k. \<forall>g \<in> set gs. length (layer_names g) \<le> k" by blast
qed

definition single_formats :: "spec_dict \<Rightarrow> bool" where
  "single_formats specs \<longleftrightarrow> (\<forall>l \<in> set specs. layer_ok (snd l))"

lemma unify_hybrid_layers:
  assumes "unify_hybrid_kv_cache_specs specs = Inr specs'" "single_formats specs"
  shows "map fst specs' = map fst specs \<and> single_formats specs'"
proof -
  have "specs' = specs \<or> specs' = map (\<lambda>l. (fst l, unify_spec (snd l))) specs"
    using assms(1) by (auto simp: unify_hybrid_kv_cache_specs_def Let_def case_prod_unfold split: if_splits)
  then show ?thesis using assms(2) by (elim disjE) (simp_all add: single_formats_def unify_spec_layer comp_def)
qed

lemma groups_partition:
  assumes "get_kv_cache_groups c specs = Inr gs" "single_formats specs"
  shows "mset (concat (map layer_names gs)) = mset (map fst specs) \<and> (\<forall>g \<in> set gs. layer_names g \<noteq> []) \<and> groups_ok gs \<and>
    (1 < length gs \<longrightarrow> (\<exists>p > 0. \<forall>g \<in> set gs. uniform_parts (group_spec g) = None \<and> page_size_bytes (group_spec g) = Inr p))"
proof -
  obtain specs1 where s1: "(if ec_disable_hybrid c then unify_hybrid_kv_cache_specs specs else Inr specs) = Inr specs1"
    "(if is_attention_free specs1 then Inr []
       else bindE (is_kv_cache_spec_uniform specs1) (\<lambda>u.
         if u then get_groups_uniform_spec specs1
         else bindE (from_specs specs1) (\<lambda>ut.
           case ut of
             Some us \<Rightarrow> Inr (get_groups_uniform_type us)
           | None \<Rightarrow> bindE (unify_kv_cache_spec_page_size specs1) get_groups_uniform_page_size))) = Inr gs"
    using assms(1) unfolding get_kv_cache_groups_def bindE_eq_Inr by blast
  have names: "map fst specs1 = map fst specs" and ok: "\<forall>l \<in> set specs1. layer_ok (snd l)"
    using s1(1) unify_hybrid_layers [OF _ assms(2)] assms(2) by (auto simp: single_formats_def split: if_splits)
  consider "specs1 = []" | "specs1 \<noteq> []" "get_groups_uniform_spec specs1 = Inr gs"
    | us where "specs1 \<noteq> []" "from_specs specs1 = Inr (Some us)" "gs = get_groups_uniform_type us"
    | specs2 where "specs1 \<noteq> []" "unify_kv_cache_spec_page_size specs1 = Inr specs2" "get_groups_uniform_page_size specs2 = Inr gs"
    using s1(2) by (auto simp: is_attention_free_def split: if_splits option.splits)
  then show ?thesis
  proof cases
    case 1
    then show ?thesis using s1(2) names by (simp add: is_attention_free_def groups_ok_def single_uniform_def)
  next
    case 2
    note g = create_groups [OF 2(2) [unfolded get_groups_uniform_spec_def] ok]
    then obtain g where "gs = [g]" "layer_names g = map fst specs1" by auto
    then show ?thesis using g(2) names by (auto simp: groups_ok_def single_uniform_def layer_ok_def)
  next
    case 3
    then obtain bs where "us = UniformTypeKVCacheSpecs bs specs1" by (auto simp: from_specs_def split: if_splits list.splits)
    then show ?thesis using 3 names ok by (auto simp: get_groups_uniform_type_def groups_ok_def single_uniform_def)
  next
    case 4
    note u = unify_pages [OF 4(2) ok]
    then obtain p where p: "\<forall>l \<in> set specs2. page_size_bytes (snd l) = Inr p" by blast
    note g = groups_uniform_page_size [OF 4(3) u(2) p]
    have none: "\<forall>g \<in> set gs. uniform_parts (group_spec g) = None" using g(2) by (auto simp: layer_ok_def)
    then have "single_uniform gs = None" by (auto simp: single_uniform_def split: list.splits)
    then have gok: "groups_ok gs" using g(2) by (simp add: groups_ok_def)
    have "1 < length gs \<longrightarrow> 0 < p"
      using g(2) by (cases gs) (auto simp: layer_ok_def)
    then show ?thesis using g none gok names u(1) by auto
  qed
qed

end
