(* ===== verification/Cache_Config_Workers.thy ===== *)
theory Cache_Config_Workers
  imports Cache_Config_Props
begin

text \<open>
  The configurations of the workers: every layer of a worker gets one tensor with room for its pages in
  all blocks, the tensors fit the memory of the worker, and all workers have the same number of blocks.
\<close>

section \<open>The tensors of one worker\<close>

lemma mset_concat_append: "mset (concat (map (\<lambda>i. f i @ h i) is)) = mset (concat (map f is)) + mset (concat (map h is))"
  by (induction "is") auto

lemma mset_nth_prefix:
  "length ns \<le> G \<Longrightarrow> mset (concat (map (\<lambda>i. if i < length ns then [ns ! i] else []) [0..<G])) = mset ns"
proof -
  assume G: "length ns \<le> G"
  have up: "[0..<G] = [0..<length ns] @ [length ns..<G]" using upt_add_eq_append [of 0 "length ns" "G - length ns"] G by simp
  have "concat (map (\<lambda>i. if i < length ns then [ns ! i] else []) [0..<length ns]) = map ((!) ns) [0..<length ns]"
    by (subst map_cong [OF refl, where g = "\<lambda>i. [ns ! i]"]) (simp_all add: concat_map_singleton)
  moreover have "concat (map (\<lambda>i. if i < length ns then [ns ! i] else []) [length ns..<G]) = []" by auto
  ultimately show ?thesis unfolding up by (simp add: map_nth)
qed

lemma shared_layers_partition:
  "\<forall>g \<in> set gs. length (layer_names g) \<le> G \<Longrightarrow> mset (concat (map (shared_layers gs) [0..<G])) = mset (concat (map layer_names gs))"
proof (induction gs)
  case Nil
  have "concat (map (\<lambda>i. []) is) = []" for "is" :: "nat list" by (induction "is") auto
  then show ?case by (simp add: shared_layers_def)
next
  case (Cons g gs)
  have "shared_layers (g # gs) = (\<lambda>i. (if i < length (layer_names g) then [layer_names g ! i] else []) @ shared_layers gs i)"
    by (auto simp: shared_layers_def)
  then show ?case
    using Cons mset_nth_prefix [of "layer_names g" G] by (simp add: mset_concat_append)
qed

text \<open>The page of a layer in its group.\<close>

definition layer_page :: "kv_cache_group \<Rightarrow> string \<Rightarrow> int res" where
  "layer_page g l =
     (case uniform_parts (group_spec g) of
        None \<Rightarrow> page_size_bytes (group_spec g)
      | Some parts \<Rightarrow> bindE (spec_of parts l) page_size_bytes)"

definition room_for_pages :: "kv_cache_config \<Rightarrow> bool" where
  "room_for_pages cfg \<longleftrightarrow> (\<forall>t \<in> set (kv_cache_tensors cfg). \<forall>g \<in> set (kv_cache_groups cfg).
     \<forall>l \<in> set (shared_by t) \<inter> set (layer_names g). \<exists>p. layer_page g l = Inr p \<and> tensor_size t = p * num_blocks cfg)"

definition config_fits :: "kv_cache_config \<Rightarrow> kv_cache_group list \<Rightarrow> int \<Rightarrow> bool" where
  "config_fits cfg gs available \<longleftrightarrow>
     kv_cache_groups cfg = gs \<and> 0 \<le> num_blocks cfg \<and> room_for_pages cfg \<and>
     mset (concat (map shared_by (kv_cache_tensors cfg))) = mset (concat (map layer_names gs)) \<and>
     (\<forall>t \<in> set (kv_cache_tensors cfg). 0 \<le> tensor_size t) \<and> sum_list (map tensor_size (kv_cache_tensors cfg)) \<le> available"

text \<open>Groups as they reach a worker: the formats of a uniform type are those of the layers left.\<close>

definition worker_groups_ok :: "kv_cache_group list \<Rightarrow> bool" where
  "worker_groups_ok gs \<longleftrightarrow> groups_ok gs \<and>
     (\<forall>parts. single_uniform gs = Some parts \<longrightarrow>
        layer_names (hd gs) = [] \<or> layer_names (hd gs) = map fst parts \<and> distinct (map fst parts))"

lemma single_uniformE:
  assumes "single_uniform gs = Some parts"
  obtains g bs where "gs = [g]" "group_spec g = UniformTypeKVCacheSpecs bs parts"
proof -
  obtain g where g: "gs = [g]" "uniform_parts (group_spec g) = Some parts"
    using assms by (auto simp: single_uniform_def split: list.splits)
  then obtain bs where "group_spec g = UniformTypeKVCacheSpecs bs parts" by (cases "group_spec g") auto
  with g(1) that show thesis by blast
qed

lemma uniform_page: "page_size_bytes (UniformTypeKVCacheSpecs bs parts) = sumE (map (\<lambda>l. page_size_bytes (snd l)) parts)"
  by (simp add: sumE_def)

lemma sum_list_le: "(\<And>x. x \<in> set xs \<Longrightarrow> f x \<le> (g x :: int)) \<Longrightarrow> sum_list (map f xs) \<le> sum_list (map g xs)"
  by (rule sum_list_mono)

lemma sum_replicate_map: "(\<And>x. x \<in> set xs \<Longrightarrow> f x = (a :: int)) \<Longrightarrow> sum_list (map f xs) = int (length xs) * a"
  by (induction xs) (simp_all add: algebra_simps)

lemma uniform_config:
  assumes su: "single_uniform gs = Some parts" and ok: "worker_groups_ok gs" and av: "0 < available"
    and no: "ec_num_gpu_blocks_override c = None"
    and cfg: "get_kv_cache_config_from_groups c gs available = Inr cfg"
  shows "config_fits cfg gs available"
proof -
  obtain g bs where g: "gs = [g]" "group_spec g = UniformTypeKVCacheSpecs bs parts" by (rule single_uniformE [OF su])
  let ?tensor = "\<lambda>n l. bindE (spec_of parts l) (\<lambda>s. bindE (page_size_bytes s) (\<lambda>p. Inr \<lparr>tensor_size = p * n, shared_by = [l]\<rparr>))"
  obtain pg ts where pg: "sumE (map (\<lambda>l. page_size_bytes (snd l)) parts) = Inr pg" "pg \<noteq> 0"
    and ts: "mapE (?tensor (available div pg)) (layer_names g) = Inr ts"
      "cfg = \<lparr>num_blocks = available div pg, kv_cache_tensors = ts, kv_cache_groups = gs\<rparr>"
    using cfg su g no
    by (auto simp: get_kv_cache_config_from_groups_def uniform_page floordivE_def may_override_num_blocks_def Let_def
        simp del: page_size_bytes.simps split: if_splits)
  let ?n = "available div pg"
  have lok: "\<forall>l \<in> set parts. layer_ok (snd l)" using ok su by (simp add: worker_groups_ok_def groups_ok_def)
  obtain ps where ps: "mapE (\<lambda>l. page_size_bytes (snd l)) parts = Inr ps" "pg = sum_list ps" using pg(1) unfolding sumE_eq_Inr by blast
  have pos: "\<forall>p \<in> set ps. 0 < p"
  proof
    fix p assume "p \<in> set ps"
    then obtain l where "l \<in> set parts" "page_size_bytes (snd l) = Inr p" using list_all2_right [OF ps(1) [unfolded mapE_eq_Inr]] by blast
    then show "0 < p" using lok by (auto simp: layer_ok_def)
  qed
  have "0 \<le> pg" unfolding ps(2) using pos by (intro sum_list_nonneg) auto
  then have pg0: "0 < pg" using pg(2) by simp
  have n0: "0 \<le> ?n" using av pg0 by (simp add: pos_imp_zdiv_nonneg_iff)
  have l2: "list_all2 (\<lambda>l t. ?tensor ?n l = Inr t) (layer_names g) ts" using ts(1) by (simp add: mapE_eq_Inr)
  have each: "\<exists>p. shared_by t = [l] \<and> layer_page g l = Inr p \<and> tensor_size t = p * ?n \<and> 0 < p" if lt: "?tensor ?n l = Inr t" for l t
  proof -
    obtain s p where s: "spec_of parts l = Inr s" "page_size_bytes s = Inr p" "t = \<lparr>tensor_size = p * ?n, shared_by = [l]\<rparr>" using lt by auto
    have "(l, s) \<in> set parts" using s(1) by (auto simp: spec_of_def map_of_SomeD split: option.splits)
    then have "0 < p" using lok s(2) by (auto simp: layer_ok_def)
    then show ?thesis using s g(2) by (simp add: layer_page_def)
  qed
  have names: "map shared_by ts = map (\<lambda>l. [l]) (layer_names g)"
    using l2 by (induction rule: list_all2_induct) (use each in force)+
  have room: "room_for_pages cfg"
    unfolding room_for_pages_def
  proof (intro ballI)
    fix t g' l assume a: "t \<in> set (kv_cache_tensors cfg)" "g' \<in> set (kv_cache_groups cfg)" "l \<in> set (shared_by t) \<inter> set (layer_names g')"
    have "t \<in> set ts" "g' = g" using a ts(2) g(1) by simp_all
    then obtain l' where "?tensor ?n l' = Inr t" using list_all2_right [OF l2] by blast
    from each [OF this] show "\<exists>p. layer_page g' l = Inr p \<and> tensor_size t = p * num_blocks cfg"
      using a(3) ts(2) \<open>g' = g\<close> by auto
  qed
  have nonneg: "\<forall>t \<in> set ts. 0 \<le> tensor_size t"
  proof
    fix t assume "t \<in> set ts"
    then obtain l' where "?tensor ?n l' = Inr t" using list_all2_right [OF l2] by blast
    from each [OF this] show "0 \<le> tensor_size t" using n0 by auto
  qed
  have total: "sum_list (map tensor_size ts) \<le> available"
  proof (cases "layer_names g = []")
    case True
    then show ?thesis using l2 av by simp
  next
    case False
    then have d: "layer_names g = map fst parts" "distinct (map fst parts)" using ok su g(1) by (auto simp: worker_groups_ok_def)
    have spec: "spec_of parts (fst l) = Inr (snd l)" if "l \<in> set parts" for l
      using map_of_is_SomeI [OF d(2)] that by (cases l) (simp add: spec_of_def)
    have "map tensor_size ts = map (\<lambda>p. p * ?n) ps"
    proof -
      have t2: "list_all2 (\<lambda>l t. ?tensor ?n (fst l) = Inr t) parts ts" using l2 d(1) by (simp add: list_all2_map1)
      have len: "length ts = length parts" "length ps = length parts"
        using list_all2_lengthD [OF t2] list_all2_lengthD [OF ps(1) [unfolded mapE_eq_Inr]] by simp_all
      show ?thesis
      proof (rule nth_equalityI)
        fix i assume "i < length (map tensor_size ts)"
        then have i: "i < length parts" using len by simp
        have "?tensor ?n (fst (parts ! i)) = Inr (ts ! i)" "page_size_bytes (snd (parts ! i)) = Inr (ps ! i)"
          using list_all2_nthD [OF t2 i] list_all2_nthD [OF ps(1) [unfolded mapE_eq_Inr] i] by simp_all
        then have "ts ! i = \<lparr>tensor_size = ps ! i * ?n, shared_by = [fst (parts ! i)]\<rparr>" using spec [OF nth_mem [OF i]] by simp
        then show "map tensor_size ts ! i = map (\<lambda>p. p * ?n) ps ! i" using i len by simp
      qed (use len in simp)
    qed
    then have "sum_list (map tensor_size ts) = pg * ?n" by (simp add: ps(2) sum_list_mult_const)
    also have "\<dots> \<le> available" using pg0 by (metis mult.commute div_mult_mod_eq le_add_same_cancel1 pos_mod_sign)
    finally show ?thesis .
  qed
  have "concat (map (\<lambda>l. [l]) (layer_names g)) = layer_names g" by (induction "layer_names g") auto
  then show ?thesis using room nonneg total names ts(2) g(1) n0 by (simp add: config_fits_def concat_map_singleton)
qed

lemma div_div_mult_le: "0 < b \<Longrightarrow> 0 < d \<Longrightarrow> d * (b * (a div b div d)) \<le> (a :: int)"
proof -
  assume b: "0 < b" "0 < d"
  have "a div b div d * d \<le> a div b" using b(2) by (metis div_mult_mod_eq le_add_same_cancel1 pos_mod_sign)
  then have "b * (a div b div d * d) \<le> b * (a div b)" using b(1) by (intro mult_left_mono) auto
  also have "\<dots> \<le> a" using b(1) by (metis mult.commute div_mult_mod_eq le_add_same_cancel1 pos_mod_sign)
  finally show ?thesis by (simp add: ac_simps)
qed

lemma uniform_page_size_all:
  assumes "get_uniform_page_size specs = Inr pg" "s \<in> set specs"
  shows "page_size_bytes s = Inr pg"
proof -
  obtain ps where ps: "mapE page_size_bytes specs = Inr ps" "card (set ps) = 1" "pg = hd ps"
    using assms(1) by (auto simp: get_uniform_page_size_def)
  obtain p where p: "page_size_bytes s = Inr p" "p \<in> set ps" using mapE_member [OF ps(1) assms(2)] by blast
  obtain q where "set ps = {q}" using ps(2) by (rule card_1_singletonE)
  moreover have "ps \<noteq> []" using p(2) by auto
  ultimately have "hd ps = p" using p(2) hd_in_set [of ps] by auto
  then show ?thesis using p(1) ps(3) by simp
qed

lemma shared_config:
  assumes su: "single_uniform gs = None" and gs: "gs \<noteq> []" and ok: "groups_ok gs" and av: "0 < available"
    and no: "ec_num_gpu_blocks_override c = None"
    and cfg: "get_kv_cache_config_from_groups c gs available = Inr cfg"
  shows "config_fits cfg gs available"
    "\<exists>G pg. max_layers gs = Inr G \<and> get_uniform_page_size (map group_spec gs) = Inr pg \<and> 0 < G \<and> 0 < pg
       \<and> num_blocks cfg = available div pg div G"
proof -
  obtain G pg n where e: "max_layers gs = Inr G" "get_uniform_page_size (map group_spec gs) = Inr pg" "0 < G"
    "get_num_blocks c G available pg = Inr n"
    "cfg = \<lparr>num_blocks = n, kv_cache_tensors = map (\<lambda>i. \<lparr>tensor_size = pg * n, shared_by = shared_layers gs i\<rparr>) [0..<nat G],
            kv_cache_groups = gs\<rparr>"
    using cfg su gs by (auto simp: get_kv_cache_config_from_groups_def)
  have lok: "\<forall>g \<in> set gs. layer_ok (group_spec g)" using ok su by (simp add: groups_ok_def)
  have pages: "page_size_bytes (group_spec g) = Inr pg" if "g \<in> set gs" for g
    using uniform_page_size_all [OF e(2)] that by simp
  have pg: "0 < pg" using gs pages [of "hd gs"] lok by (cases gs) (auto simp: layer_ok_def)
  have q: "0 \<le> available div pg" using av pg by (simp add: pos_imp_zdiv_nonneg_iff)
  then have q2: "0 \<le> available div pg div G" using e(3) by (simp add: pos_imp_zdiv_nonneg_iff)
  have n: "n = available div pg div G"
    using e(3,4) no pg q2 by (auto simp: get_num_blocks_def floordivE_def may_override_num_blocks_def)
  have n0: "0 \<le> n" using n q2 by simp
  have room: "room_for_pages cfg"
    unfolding room_for_pages_def
  proof (intro ballI)
    fix t g l assume a: "t \<in> set (kv_cache_tensors cfg)" "g \<in> set (kv_cache_groups cfg)" "l \<in> set (shared_by t) \<inter> set (layer_names g)"
    then have "g \<in> set gs" "tensor_size t = pg * n" using e(5) by auto
    moreover have "layer_page g l = page_size_bytes (group_spec g)"
      using lok \<open>g \<in> set gs\<close> by (auto simp: layer_page_def layer_ok_def)
    ultimately show "\<exists>p. layer_page g l = Inr p \<and> tensor_size t = p * num_blocks cfg" using pages e(5) by simp
  qed
  have "mset (concat (map (shared_layers gs) [0..<nat G])) = mset (concat (map layer_names gs))"
    by (rule shared_layers_partition) (use max_layersD(2) [OF e(1)] in fastforce)
  moreover have "sum_list (map tensor_size (kv_cache_tensors cfg)) = G * (pg * n)"
    using e(3,5) sum_replicate_map [of "[0..<nat G]" "\<lambda>i. pg * n" "pg * n"] by (simp add: comp_def)
  moreover have "G * (pg * n) \<le> available" unfolding n by (rule div_div_mult_le [OF pg e(3)])
  ultimately show "config_fits cfg gs available" using room e(5) n0 pg by (simp add: config_fits_def comp_def)
  show "\<exists>G pg. max_layers gs = Inr G \<and> get_uniform_page_size (map group_spec gs) = Inr pg \<and> 0 < G \<and> 0 < pg
       \<and> num_blocks cfg = available div pg div G" using e n pg by auto
qed

section \<open>Shrinking to the smallest number of blocks\<close>

lemma shrink_config_fits:
  assumes fits: "config_fits cfg gs available" and n: "0 \<le> n" "n \<le> num_blocks cfg" and s: "shrink_config c n cfg = Inr cfg'"
  shows "config_fits cfg' gs available" "num_blocks cfg' = n"
proof -
  obtain ts where ts: "mapE (shrink_tensor (num_blocks cfg) n) (kv_cache_tensors cfg) = Inr ts"
    "cfg' = cfg\<lparr>num_blocks := n, kv_cache_tensors := ts\<rparr>"
    using s by (auto simp: shrink_config_def Let_def)
  then show "num_blocks cfg' = n" by simp
  let ?old = "num_blocks cfg"
  have l2: "list_all2 (\<lambda>t t'. shrink_tensor ?old n t = Inr t') (kv_cache_tensors cfg) ts" using ts(1) by (simp add: mapE_eq_Inr)
  have one: "?old \<noteq> 0 \<and> shared_by t' = shared_by t \<and> tensor_size t mod ?old = 0 \<and> tensor_size t' = tensor_size t div ?old * n"
    if "shrink_tensor ?old n t = Inr t'" for t t'
    using that by (auto simp: shrink_tensor_def split: if_splits)
  have pos: "0 < ?old" if "?old \<noteq> 0" using fits that by (simp add: config_fits_def)
  have size: "0 \<le> tensor_size t' \<and> tensor_size t' \<le> tensor_size t" if t: "t \<in> set (kv_cache_tensors cfg)" "shrink_tensor ?old n t = Inr t'" for t t'
  proof -
    have o: "?old \<noteq> 0" "tensor_size t mod ?old = 0" "tensor_size t' = tensor_size t div ?old * n" using one [OF t(2)] by simp_all
    have t0: "0 \<le> tensor_size t" using fits t(1) by (simp add: config_fits_def)
    have "0 \<le> tensor_size t div ?old" using t0 pos [OF o(1)] by (simp add: pos_imp_zdiv_nonneg_iff)
    then have "0 \<le> tensor_size t div ?old * n" "tensor_size t div ?old * n \<le> tensor_size t div ?old * ?old"
      using n by (simp_all add: mult_left_mono)
    moreover have "tensor_size t div ?old * ?old = tensor_size t" using o(2) by auto
    ultimately show ?thesis using o(3) by simp
  qed
  have shared: "map shared_by ts = map shared_by (kv_cache_tensors cfg)"
    using l2 by (induction rule: list_all2_induct) (use one in force)+
  have "sum_list (map tensor_size ts) \<le> sum_list (map tensor_size (kv_cache_tensors cfg))"
  proof -
    have "list_all2 (\<lambda>t t'. t \<in> set (kv_cache_tensors cfg) \<and> shrink_tensor ?old n t = Inr t') (kv_cache_tensors cfg) ts"
      using l2 by (simp add: list_all2_conv_all_nth)
    then have "list_all2 (\<lambda>t t'. tensor_size t' \<le> tensor_size t) (kv_cache_tensors cfg) ts"
      by (rule list_all2_mono) (use size in blast)
    then show ?thesis by (induction rule: list_all2_induct) auto
  qed
  moreover have "\<forall>t' \<in> set ts. 0 \<le> tensor_size t'" using list_all2_right [OF l2] size by blast
  moreover have "room_for_pages cfg'"
    unfolding room_for_pages_def
  proof (intro ballI)
    fix t' g l assume a: "t' \<in> set (kv_cache_tensors cfg')" "g \<in> set (kv_cache_groups cfg')" "l \<in> set (shared_by t') \<inter> set (layer_names g)"
    then obtain t where t: "t \<in> set (kv_cache_tensors cfg)" "shrink_tensor ?old n t = Inr t'" using list_all2_right [OF l2] ts(2) by auto
    have "l \<in> set (shared_by t) \<inter> set (layer_names g)" "g \<in> set (kv_cache_groups cfg)" using a one [OF t(2)] ts(2) by simp_all
    then obtain p where p: "layer_page g l = Inr p" "tensor_size t = p * ?old"
      using fits t(1) unfolding config_fits_def room_for_pages_def by blast
    have "tensor_size t' = p * n" using p(2) one [OF t(2)] by simp
    then show "\<exists>p. layer_page g l = Inr p \<and> tensor_size t' = p * num_blocks cfg'" using p(1) ts(2) by simp
  qed
  ultimately show "config_fits cfg' gs available" using fits n(1) ts(2) shared by (simp add: config_fits_def)
qed

section \<open>The groups of a worker\<close>

lemma project_group_effect:
  assumes "project_group w g = Inr g'"
  shows "layer_names g' = filter (\<lambda>n. n \<in> fst ` set w) (layer_names g)"
    "uniform_parts (group_spec g) = None \<Longrightarrow> group_spec g' = group_spec g"
    "uniform_parts (group_spec g) = Some parts \<Longrightarrow> \<exists>parts'. uniform_parts (group_spec g') = Some parts' \<and> set parts' \<subseteq> set parts
       \<and> (layer_names g' = [] \<or> layer_names g' = map fst parts')"
proof -
  let ?ns = "filter (\<lambda>n. n \<in> fst ` set w) (layer_names g)"
  show "layer_names g' = ?ns" "uniform_parts (group_spec g) = None \<Longrightarrow> group_spec g' = group_spec g"
    using assms by (auto simp: project_group_def Let_def)
  assume u: "uniform_parts (group_spec g) = Some parts"
  show "\<exists>parts'. uniform_parts (group_spec g') = Some parts' \<and> set parts' \<subseteq> set parts
       \<and> (layer_names g' = [] \<or> layer_names g' = map fst parts')"
  proof (cases "?ns = []")
    case True
    then show ?thesis using assms u by (auto simp: project_group_def Let_def)
  next
    case False
    then obtain ps where ps: "mapE (\<lambda>n. bindE (spec_of parts n) (\<lambda>s. Inr (n, s))) ?ns = Inr ps"
      "g' = \<lparr>layer_names = ?ns, group_spec = UniformTypeKVCacheSpecs (block_size (group_spec g)) ps\<rparr>"
      using assms u by (auto simp: project_group_def Let_def)
    have "list_all2 (\<lambda>n p. n = fst p \<and> p \<in> set parts) ?ns ps"
      using ps(1) unfolding mapE_eq_Inr
      by (rule list_all2_mono) (auto simp: spec_of_def map_of_SomeD split: option.splits)
    then have "map fst ps = ?ns \<and> set ps \<subseteq> set parts"
      by (induction rule: list_all2_induct) auto
    then show ?thesis using ps(2) by simp
  qed
qed

lemma project_groups_ok:
  assumes p: "project_kv_cache_groups_to_worker gs w = Inr gs'" and ok: "groups_ok gs"
    and d: "distinct (concat (map layer_names gs))"
  shows "worker_groups_ok gs'"
    "concat (map layer_names gs') = filter (\<lambda>n. n \<in> fst ` set w) (concat (map layer_names gs))"
    "single_uniform gs = None \<Longrightarrow> map group_spec gs' = map group_spec gs \<and> single_uniform gs' = None"
    "gs' = [] \<longleftrightarrow> gs = []"
proof -
  have l2: "list_all2 (\<lambda>g g'. project_group w g = Inr g') gs gs'"
    using p by (simp add: project_kv_cache_groups_to_worker_def mapE_eq_Inr)
  show "gs' = [] \<longleftrightarrow> gs = []" using list_all2_lengthD [OF l2] by auto
  show "concat (map layer_names gs') = filter (\<lambda>n. n \<in> fst ` set w) (concat (map layer_names gs))"
    using l2 by (induction rule: list_all2_induct) (auto simp: project_group_effect(1))
  have none: "single_uniform gs = None \<Longrightarrow> map group_spec gs' = map group_spec gs \<and> single_uniform gs' = None"
  proof -
    assume su: "single_uniform gs = None"
    then have "\<forall>g \<in> set gs. uniform_parts (group_spec g) = None" using ok by (simp add: groups_ok_def layer_ok_def)
    with l2 have eq: "map group_spec gs' = map group_spec gs"
      by (induction rule: list_all2_induct) (auto simp: project_group_effect(2))
    moreover have "single_uniform gs' = None"
      using su arg_cong [OF eq, of length] eq by (auto simp: single_uniform_def split: list.splits)
    ultimately show ?thesis by blast
  qed
  then show "single_uniform gs = None \<Longrightarrow> map group_spec gs' = map group_spec gs \<and> single_uniform gs' = None" .
  show "worker_groups_ok gs'"
  proof (cases "single_uniform gs")
    case None
    have "layer_ok (group_spec g)" if "g \<in> set gs'" for g
    proof -
      have "group_spec g \<in> set (map group_spec gs')" using that by simp
      then have "group_spec g \<in> set (map group_spec gs)" unfolding conjunct1 [OF none [OF None]] .
      then show ?thesis using ok None by (auto simp: groups_ok_def)
    qed
    then show ?thesis using none [OF None] by (simp add: worker_groups_ok_def groups_ok_def)
  next
    case (Some parts)
    obtain g bs where g: "gs = [g]" "group_spec g = UniformTypeKVCacheSpecs bs parts" by (rule single_uniformE [OF Some])
    then obtain g' where g': "gs' = [g']" "project_group w g = Inr g'" using l2 by (auto simp: list_all2_Cons1)
    obtain parts' where parts': "uniform_parts (group_spec g') = Some parts'" "set parts' \<subseteq> set parts"
      "layer_names g' = [] \<or> layer_names g' = map fst parts'"
      using project_group_effect(3) [OF g'(2), of parts] g(2) by auto
    have "distinct (layer_names g')" using d g(1) project_group_effect(1) [OF g'(2)] by simp
    moreover have "\<forall>l \<in> set parts'. layer_ok (snd l)" using ok Some parts'(2) by (auto simp: groups_ok_def)
    ultimately show ?thesis using parts' g'(1) by (auto simp: worker_groups_ok_def groups_ok_def single_uniform_def)
  qed
qed

section \<open>All workers\<close>

lemma merge_layer_inv:
  assumes "merge_layer l m = Inr m'" "distinct (map fst m)" "set m \<subseteq> U" "l \<in> U"
  shows "distinct (map fst m') \<and> set m' \<subseteq> U"
  using assms by (auto simp: merge_layer_def map_of_eq_None_iff split: option.splits)

lemma merge_worker_specs_ok:
  assumes "merge_worker_specs ws = Inr merged"
  shows "distinct (map fst merged) \<and> set merged \<subseteq> \<Union> (set ` set ws)"
proof -
  let ?P = "\<lambda>m. distinct (map fst m) \<and> set m \<subseteq> \<Union> (set ` set ws)"
  have inner: "?P m'" if f: "foldE merge_layer w m = Inr m'" "?P m" "w \<in> set ws" for w m m'
    by (rule foldE_invariant [OF f(1), where P = ?P]) (use f merge_layer_inv [where U = "\<Union> (set ` set ws)"] in blast)+
  have "?P merged"
    by (rule foldE_invariant [OF assms [unfolded merge_worker_specs_def], where P = ?P]) (use inner in auto)
  then show ?thesis .
qed

text \<open>The smallest number of blocks.\<close>

lemma check_worker_passes:
  assumes "foldE (check_worker c) ws () = Inr u" "w \<in> set ws" "fst w \<noteq> []"
  shows "0 < snd w \<and> (\<exists>m. max_memory_usage_from_groups c (fst w) = Inr m \<and> m \<le> snd w)"
  using assms(1,2)
proof (induction ws)
  case (Cons x ws)
  then show ?case
    using assms(3) by (auto simp: check_worker_def check_enough_memory_def split: if_splits)
qed simp

lemma worker_config_fits:
  assumes "worker_config c (gs, w, available) = Inr cfg" "worker_groups_ok gs" "gs \<noteq> [] \<longrightarrow> 0 < available" "0 \<le> available"
    "ec_num_gpu_blocks_override c = None" "distinct (concat (map layer_names gs))" "set (concat (map layer_names gs)) \<subseteq> fst ` set w"
    "distinct (map fst w)"
  shows "config_fits cfg gs available" "mset (concat (map layer_names gs)) = mset (map fst w)" "0 \<le> num_blocks cfg"
proof -
  have count: "sum_list (map (\<lambda>g. length (layer_names g)) gs) = length w" and
    cfg: "get_kv_cache_config_from_groups c gs available = Inr cfg" using assms(1) by (simp_all add: worker_config_def)
  have "length (concat (map layer_names gs)) = length (map fst w)" using count by (simp add: length_concat comp_def)
  moreover have "card (set (concat (map layer_names gs))) = length (concat (map layer_names gs))" by (rule distinct_card [OF assms(6)])
  moreover have "card (set (map fst w)) = length (map fst w)" by (rule distinct_card [OF assms(8)])
  moreover have "set (concat (map layer_names gs)) \<subseteq> set (map fst w)" using assms(7) by simp
  ultimately have "set (concat (map layer_names gs)) = set (map fst w)" by (metis List.finite_set card_subset_eq)
  then show "mset (concat (map layer_names gs)) = mset (map fst w)" using set_eq_iff_mset_eq_distinct [OF assms(6,8)] by blast
  show fits: "config_fits cfg gs available"
  proof (cases "gs = []")
    case True
    then have "cfg = \<lparr>num_blocks = 1, kv_cache_tensors = [], kv_cache_groups = []\<rparr>"
      using cfg by (simp add: get_kv_cache_config_from_groups_def)
    then show ?thesis using True assms(4) by (simp add: config_fits_def room_for_pages_def)
  next
    case False
    show ?thesis
    proof (cases "single_uniform gs")
      case None
      then show ?thesis using shared_config(1) [OF None False _ _ assms(5) cfg] assms(2,3) False by (simp add: worker_groups_ok_def)
    next
      case (Some parts)
      then show ?thesis using uniform_config [OF Some assms(2) _ assms(5) cfg] assms(3) False by blast
    qed
  qed
  then show "0 \<le> num_blocks cfg" by (simp add: config_fits_def)
qed

text \<open>The parts of a successful computation.\<close>

lemma cache_configs_parts:
  assumes "get_kv_cache_configs c0 workers available = Inr (cfgs', c)"
  obtains merged gs projected cfgs u where
    "merge_worker_specs workers = Inr merged" "get_kv_cache_groups c0 merged = Inr gs"
    "mapE (project_kv_cache_groups_to_worker gs) workers = Inr projected"
    "foldE (check_worker (ec_vllm c)) (zip projected available) () = Inr u"
    "mapE (worker_config c) (zip projected (zip workers available)) = Inr cfgs" "cfgs \<noteq> []"
    "mapE (shrink_config (ec_vllm c) (Min (set (map num_blocks cfgs)))) cfgs = Inr cfgs'"
    "ec_num_gpu_blocks_override c = ec_num_gpu_blocks_override c0"
proof -
  obtain merged gs projected c1 u cfgs cfgs1 where a:
    "merge_worker_specs workers = Inr merged" "get_kv_cache_groups c0 merged = Inr gs"
    "mapE (project_kv_cache_groups_to_worker gs) workers = Inr projected"
    "(if ec_original_max_model_len c0 = -1
            then bindE (auto_fit_max_model_len (ec_vllm c0) projected available) (\<lambda>v. Inr (c0\<lparr>ec_vllm := v\<rparr>))
            else Inr c0) = Inr c1"
    "foldE (check_worker (ec_vllm c1)) (zip projected available) () = Inr u"
    "mapE (worker_config c1) (zip projected (zip workers available)) = Inr cfgs" "cfgs \<noteq> []"
    "mapE (shrink_config (ec_vllm c1) (Min (set (map num_blocks cfgs)))) cfgs = Inr cfgs1" "cfgs1 = cfgs'" "c1 = c"
    using assms unfolding get_kv_cache_configs_def bindE_eq_Inr by (auto split: if_splits)
  have "ec_num_gpu_blocks_override c = ec_num_gpu_blocks_override c0" using a(4,10) by (auto split: if_splits)
  with a that show thesis by blast
qed

text \<open>What a worker gets: its part of the groups, a configuration of its own memory, and that configuration with
  the common number of blocks.\<close>

definition worker_result :: "kv_cache_group list \<Rightarrow> engine_config \<Rightarrow> int \<Rightarrow> spec_dict \<Rightarrow> int \<Rightarrow> kv_cache_config \<Rightarrow> bool" where
  "worker_result gs c n w available cfg' \<longleftrightarrow> (\<exists>gs' cfg. project_kv_cache_groups_to_worker gs w = Inr gs' \<and>
       worker_config c (gs', w, available) = Inr cfg \<and> n \<le> num_blocks cfg \<and>
       config_fits cfg' gs' available \<and> num_blocks cfg' = n \<and>
       mset (concat (map layer_names gs')) = mset (map fst w) \<and> worker_groups_ok gs' \<and>
       (single_uniform gs = None \<longrightarrow> map group_spec gs' = map group_spec gs \<and> single_uniform gs' = None) \<and>
       (gs' \<noteq> [] \<longrightarrow> 0 < available \<and> (\<exists>m. max_memory_usage_from_groups (ec_vllm c) gs' = Inr m \<and> m \<le> available)))"

lemma cache_configs_nth:
  assumes "get_kv_cache_configs c0 workers available = Inr (cfgs', c)" "ec_num_gpu_blocks_override c0 = None"
    and layers: "\<forall>w \<in> set workers. distinct (map fst w) \<and> single_formats w"
    and mem: "\<forall>a \<in> set available. 0 \<le> a"
  obtains gs n where "length cfgs' = min (length workers) (length available)" "groups_ok gs"
    "\<forall>i < length cfgs'. worker_result gs c n (workers ! i) (available ! i) (cfgs' ! i)"
    "\<exists>i < length cfgs'. \<exists>gs' cfg. project_kv_cache_groups_to_worker gs (workers ! i) = Inr gs' \<and>
       worker_config c (gs', workers ! i, available ! i) = Inr cfg \<and> num_blocks cfg = n"
proof -
  obtain merged gs projected cfgs u where a:
    "merge_worker_specs workers = Inr merged" "get_kv_cache_groups c0 merged = Inr gs"
    "mapE (project_kv_cache_groups_to_worker gs) workers = Inr projected"
    "foldE (check_worker (ec_vllm c)) (zip projected available) () = Inr u"
    "mapE (worker_config c) (zip projected (zip workers available)) = Inr cfgs" "cfgs \<noteq> []"
    "mapE (shrink_config (ec_vllm c) (Min (set (map num_blocks cfgs)))) cfgs = Inr cfgs'"
    "ec_num_gpu_blocks_override c = ec_num_gpu_blocks_override c0"
    by (rule cache_configs_parts [OF assms(1)])
  let ?n = "Min (set (map num_blocks cfgs))"
  have m: "distinct (map fst merged)" "set merged \<subseteq> \<Union> (set ` set workers)" using merge_worker_specs_ok [OF a(1)] by simp_all
  have "single_formats merged" using m(2) layers by (auto simp: single_formats_def)
  then have gs: "mset (concat (map layer_names gs)) = mset (map fst merged)" "groups_ok gs" using groups_partition [OF a(2)] by blast+
  have d: "distinct (concat (map layer_names gs))" using m(1) gs(1) by (metis mset_eq_imp_distinct_iff)
  have lp: "length projected = length workers" and pr: "\<And>i. i < length workers \<Longrightarrow> project_kv_cache_groups_to_worker gs (workers ! i) = Inr (projected ! i)"
    using a(3) by (simp_all add: mapE_eq_Inr list_all2_conv_all_nth)
  have lc: "length cfgs = min (length workers) (length available)" using a(5) lp by (simp add: mapE_eq_Inr list_all2_conv_all_nth)
  have wc: "worker_config c (projected ! i, workers ! i, available ! i) = Inr (cfgs ! i)" if "i < length cfgs" for i
    using a(5) lp lc that by (simp add: mapE_eq_Inr list_all2_conv_all_nth)
  have lc': "length cfgs' = length cfgs" and sh: "\<And>i. i < length cfgs \<Longrightarrow> shrink_config (ec_vllm c) ?n (cfgs ! i) = Inr (cfgs' ! i)"
    using a(7) by (simp_all add: mapE_eq_Inr list_all2_conv_all_nth)
  have fit: "config_fits (cfgs ! i) (projected ! i) (available ! i) \<and> mset (concat (map layer_names (projected ! i))) = mset (map fst (workers ! i))
      \<and> 0 \<le> num_blocks (cfgs ! i) \<and> (projected ! i \<noteq> [] \<longrightarrow> 0 < available ! i \<and>
          (\<exists>m. max_memory_usage_from_groups (ec_vllm c) (projected ! i) = Inr m \<and> m \<le> available ! i))"
    if i: "i < length cfgs" for i
  proof -
    have iw: "i < length workers" "i < length available" using i lc by simp_all
    note p = project_groups_ok [OF pr [OF iw(1)] gs(2) d]
    have "(projected ! i, available ! i) \<in> set (zip projected available)" using iw lp by (force simp: in_set_zip)
    from check_worker_passes [OF a(4) this]
    have chk: "projected ! i \<noteq> [] \<longrightarrow> 0 < available ! i \<and>
          (\<exists>m. max_memory_usage_from_groups (ec_vllm c) (projected ! i) = Inr m \<and> m \<le> available ! i)" by simp
    have av: "projected ! i \<noteq> [] \<longrightarrow> 0 < available ! i" using chk by blast
    have d1: "distinct (concat (map layer_names (projected ! i)))" using d unfolding p(2) by (rule distinct_filter)
    have sub: "set (concat (map layer_names (projected ! i))) \<subseteq> fst ` set (workers ! i)" unfolding p(2) by auto
    have a0: "0 \<le> available ! i" using mem iw(2) by simp
    have dw: "distinct (map fst (workers ! i))" using layers iw(1) by simp
    have no: "ec_num_gpu_blocks_override c = None" using assms(2) a(8) by simp
    show ?thesis using worker_config_fits [OF wc [OF i] p(1) av a0 no d1 sub dw] chk by simp
  qed
  have nin: "?n \<in> set (map num_blocks cfgs)" by (rule Min_in) (use a(6) in auto)
  then obtain k where k: "k < length cfgs" "num_blocks (cfgs ! k) = ?n" by (auto simp: in_set_conv_nth)
  have n0: "0 \<le> ?n" using fit [OF k(1)] k(2) by simp
  show thesis
  proof (rule that [of gs ?n])
    show "length cfgs' = min (length workers) (length available)" using lc lc' by simp
    show "\<forall>i < length cfgs'. worker_result gs c ?n (workers ! i) (available ! i) (cfgs' ! i)"
    proof (intro allI impI)
  fix i assume i: "i < length cfgs'"
    then have iw: "i < length workers" "i < length cfgs" using lc lc' by simp_all
    have le: "?n \<le> num_blocks (cfgs ! i)" using iw(2) by (intro Min_le) auto
    have sf: "config_fits (cfgs' ! i) (projected ! i) (available ! i)" "num_blocks (cfgs' ! i) = ?n"
      using shrink_config_fits [OF _ n0 le sh [OF iw(2)]] fit [OF iw(2)] by blast+
    note p = project_groups_ok [OF pr [OF iw(1)] gs(2) d]
    show "worker_result gs c ?n (workers ! i) (available ! i) (cfgs' ! i)"
      unfolding worker_result_def using pr [OF iw(1)] wc [OF iw(2)] le sf fit [OF iw(2)] p(1,3)
      by (intro exI [of _ "projected ! i"] exI [of _ "cfgs ! i"]) simp
    qed
  next
    show "\<exists>i < length cfgs'. \<exists>gs' cfg. project_kv_cache_groups_to_worker gs (workers ! i) = Inr gs' \<and>
       worker_config c (gs', workers ! i, available ! i) = Inr cfg \<and> num_blocks cfg = ?n"
      using k pr [of k] wc [OF k(1)] lc lc' by auto
  qed (rule gs(2))
qed

section \<open>Properties\<close>

text \<open>C38 (longest_length_correct): the automatic choice of the maximum length terminates with the largest length up to the
  configured one whose caches fit the memory of the worker; every shorter length fits, every longer one does
  not; it is 0 exactly when not even one token fits.\<close>

theorem longest_length_correct:
  assumes "groups_ok gs" "max_memory_usage_from_groups c gs = Inr m"
  shows "\<exists>n. estimate_max_model_len_from_groups c gs available = Inr n \<and>
    (if groups_fit c gs available 1 = Inr True
     then 1 \<le> n \<and> n \<le> max 1 (max_model_len c) \<and>
       (\<forall>l. l \<le> n \<longrightarrow> groups_fit c gs available l = Inr True) \<and>
       (\<forall>l. n < l \<longrightarrow> l \<le> max_model_len c \<longrightarrow> groups_fit c gs available l = Inr False)
     else n = 0 \<and> (\<forall>l \<ge> 1. groups_fit c gs available l = Inr False))"
proof -
  obtain n P where n: "estimate_max_model_len_from_groups c gs available = Inr n"
    "\<forall>l. groups_fit c gs available l = Inr (P l)" "\<forall>k l. k \<le> l \<longrightarrow> P l \<longrightarrow> P k"
    "if P 1 then 1 \<le> n \<and> n \<le> max 1 (max_model_len c) \<and> P n \<and> (\<forall>l. n < l \<longrightarrow> l \<le> max_model_len c \<longrightarrow> \<not> P l) else n = 0"
    by (rule longest_length_found [OF assms, of available])
  show ?thesis
  proof (cases "P 1")
    case True
    have n4: "1 \<le> n" "n \<le> max 1 (max_model_len c)" "P n" "\<forall>l. n < l \<longrightarrow> l \<le> max_model_len c \<longrightarrow> \<not> P l"
      using n(4) unfolding if_P [OF True] by blast+
    have "\<forall>l. l \<le> n \<longrightarrow> P l" using n(3) n4(3) by blast
    then show ?thesis using n(1,2) True n4 by simp
  next
    case False
    have "\<forall>l \<ge> 1. \<not> P l" "n = 0" using n(3) n(4) False by (blast, simp)
    then show ?thesis using n(1,2) False by simp
  qed
qed

text \<open>C37 (groups_partition_layers): the grouping puts every layer of the model into exactly one group and leaves no
  group empty; when there are several groups they are of single formats with one common positive page, so that
  their layers can share tensors.\<close>

theorem groups_partition_layers:
  assumes "get_kv_cache_groups c specs = Inr gs" "single_formats specs"
  shows "mset (concat (map layer_names gs)) = mset (map fst specs) \<and> (\<forall>g \<in> set gs. layer_names g \<noteq> []) \<and>
    (1 < length gs \<longrightarrow> (\<exists>p > 0. \<forall>g \<in> set gs. uniform_parts (group_spec g) = None \<and> page_size_bytes (group_spec g) = Inr p))"
  using groups_partition [OF assms] by blast

text \<open>C36 (worker_tensors_fit): when the configurations are computed without an override, there is one for every
  worker, all with the same number of blocks; every layer of a worker is in exactly one tensor of its
  configuration, the tensor holds exactly one page of the layer per block, and the tensors of a worker together
  do not exceed its memory.\<close>

theorem worker_tensors_fit:
  assumes "get_kv_cache_configs c0 workers available = Inr (cfgs, c)" "ec_num_gpu_blocks_override c0 = None"
    "\<forall>w \<in> set workers. distinct (map fst w) \<and> single_formats w" "\<forall>a \<in> set available. 0 \<le> a"
  shows "\<exists>n \<ge> 0. length cfgs = min (length workers) (length available) \<and> (\<forall>i < length cfgs.
    num_blocks (cfgs ! i) = n \<and> room_for_pages (cfgs ! i) \<and>
    mset (concat (map layer_names (kv_cache_groups (cfgs ! i)))) = mset (map fst (workers ! i)) \<and>
    mset (concat (map shared_by (kv_cache_tensors (cfgs ! i)))) = mset (map fst (workers ! i)) \<and>
    sum_list (map tensor_size (kv_cache_tensors (cfgs ! i))) \<le> available ! i)"
proof -
  obtain gs n where a: "length cfgs = min (length workers) (length available)" "groups_ok gs"
    "\<forall>i < length cfgs. worker_result gs c n (workers ! i) (available ! i) (cfgs ! i)"
    "\<exists>i < length cfgs. \<exists>gs' cfg. project_kv_cache_groups_to_worker gs (workers ! i) = Inr gs' \<and>
       worker_config c (gs', workers ! i, available ! i) = Inr cfg \<and> num_blocks cfg = n"
    by (rule cache_configs_nth [OF assms])
  obtain k where "k < length cfgs" using a(4) by blast
  from a(3) [rule_format, OF this] have "0 \<le> n" unfolding worker_result_def config_fits_def by blast
  moreover have "num_blocks (cfgs ! i) = n \<and> room_for_pages (cfgs ! i) \<and>
    mset (concat (map layer_names (kv_cache_groups (cfgs ! i)))) = mset (map fst (workers ! i)) \<and>
    mset (concat (map shared_by (kv_cache_tensors (cfgs ! i)))) = mset (map fst (workers ! i)) \<and>
    sum_list (map tensor_size (kv_cache_tensors (cfgs ! i))) \<le> available ! i" if "i < length cfgs" for i
    using a(3) [rule_format, OF that] unfolding worker_result_def config_fits_def by auto
  ultimately show ?thesis using a(1) by blast
qed

text \<open>How many blocks one request of the maximum length needs in all groups.\<close>

definition blocks_per_request :: "vllm_config \<Rightarrow> kv_cache_group list \<Rightarrow> int res" where
  "blocks_per_request c gs =
     (let specs = map group_spec gs in
      bindE (get_uniform_page_size specs) (\<lambda>pg. sumE (map (\<lambda>s. bindE (max_memory_usage_bytes c s) (\<lambda>m. cdivE m pg)) specs)))"

lemma blocks_per_request_specs:
  "map group_spec gs = map group_spec gs' \<Longrightarrow> blocks_per_request c gs = blocks_per_request c gs'"
  by (simp only: blocks_per_request_def)

lemma memory_check_blocks:
  assumes su: "single_uniform gs = None" "gs \<noteq> []" and ok: "groups_ok gs" and av: "0 < available"
    and no: "ec_num_gpu_blocks_override c = None"
    and cfg: "get_kv_cache_config_from_groups c gs available = Inr cfg"
    and m: "max_memory_usage_from_groups v gs = Inr m" "m \<le> available"
  shows "\<exists>b. blocks_per_request v gs = Inr b \<and> b \<le> num_blocks cfg"
proof -
  obtain G pg where e: "max_layers gs = Inr G" "get_uniform_page_size (map group_spec gs) = Inr pg" "0 < G" "0 < pg"
    "num_blocks cfg = available div pg div G"
    using shared_config(2) [OF su ok av no cfg] by blast
  obtain b where b: "sumE (map (\<lambda>g. bindE (max_memory_usage_bytes v (group_spec g)) (\<lambda>m. cdivE m pg)) gs) = Inr b" "m = G * pg * b"
    using m(1) su e(1,2) by (auto simp: max_memory_usage_from_groups_def)
  have "b * G * pg \<le> available" using m(2) b(2) by (simp add: ac_simps)
  then have "b * G \<le> available div pg" using div_le_int [OF e(4)] by blast
  then have "b \<le> available div pg div G" using div_le_int [OF e(3)] by blast
  then show ?thesis using e b by (simp add: blocks_per_request_def Let_def comp_def)
qed

text \<open>The memory check is sound: when the configurations are computed, the common number
  of blocks is at least the number that one request of the (possibly reduced) maximum length needs in all its
  groups, on every worker, although the workers shrink to the smallest of them.\<close>

theorem blocks_hold_longest_request:
  assumes "get_kv_cache_configs c0 workers available = Inr (cfgs, c)" "ec_num_gpu_blocks_override c0 = None"
    "\<forall>w \<in> set workers. distinct (map fst w) \<and> single_formats w" "\<forall>a \<in> set available. 0 \<le> a"
    "cfg \<in> set cfgs" "kv_cache_groups cfg \<noteq> []" "\<forall>g \<in> set (kv_cache_groups cfg). uniform_parts (group_spec g) = None"
  shows "\<exists>b. blocks_per_request (ec_vllm c) (kv_cache_groups cfg) = Inr b \<and> b \<le> num_blocks cfg"
proof -
  obtain gs n where a: "length cfgs = min (length workers) (length available)" "groups_ok gs"
    "\<forall>i < length cfgs. worker_result gs c n (workers ! i) (available ! i) (cfgs ! i)"
    "\<exists>i < length cfgs. \<exists>gs' cfg. project_kv_cache_groups_to_worker gs (workers ! i) = Inr gs' \<and>
       worker_config c (gs', workers ! i, available ! i) = Inr cfg \<and> num_blocks cfg = n"
    by (rule cache_configs_nth [OF assms(1-4)])
  have no: "ec_num_gpu_blocks_override c = None" by (rule cache_configs_parts [OF assms(1)]) (use assms(2) in simp)
  obtain i where i: "i < length cfgs" "cfg = cfgs ! i" using assms(5) by (auto simp: in_set_conv_nth)
  have groups_i: "\<exists>gs'. project_kv_cache_groups_to_worker gs (workers ! i) = Inr gs' \<and> kv_cache_groups cfg = gs' \<and> num_blocks cfg = n"
    using a(3) [rule_format, OF i(1)] i(2) unfolding worker_result_def config_fits_def by auto
  then obtain gsi where gsi: "project_kv_cache_groups_to_worker gs (workers ! i) = Inr gsi" "kv_cache_groups cfg = gsi" "num_blocks cfg = n" by blast
  have su: "single_uniform gs = None"
  proof (cases "single_uniform gs")
    case (Some parts)
    obtain g bs where g: "gs = [g]" "group_spec g = UniformTypeKVCacheSpecs bs parts" by (rule single_uniformE [OF Some])
    obtain g' where "gsi = [g']" "project_group (workers ! i) g = Inr g'"
      using gsi(1) g(1) by (auto simp: project_kv_cache_groups_to_worker_def)
    then have "\<exists>parts'. uniform_parts (group_spec g') = Some parts'" "g' \<in> set (kv_cache_groups cfg)"
      using project_group_effect(3) [of "workers ! i" g g' parts] g(2) gsi(2) by auto
    then show ?thesis using assms(7) by auto
  qed
  obtain k gs' cfg' where k: "k < length cfgs" "project_kv_cache_groups_to_worker gs (workers ! k) = Inr gs'"
    "worker_config c (gs', workers ! k, available ! k) = Inr cfg'" "num_blocks cfg' = n" using a(4) by blast
  from a(3) [rule_format, OF k(1)] k(2) have K: "worker_groups_ok gs'" "map group_spec gs' = map group_spec gs" "single_uniform gs' = None"
    "gs' \<noteq> [] \<longrightarrow> 0 < available ! k \<and> (\<exists>m. max_memory_usage_from_groups (ec_vllm c) gs' = Inr m \<and> m \<le> available ! k)"
    using su unfolding worker_result_def by auto
  have I: "map group_spec gsi = map group_spec gs" using a(3) [rule_format, OF i(1)] gsi(1) su unfolding worker_result_def by auto
  have ne: "gs' \<noteq> []" using assms(6) gsi(2) K(2) I by auto
  then obtain m where m: "0 < available ! k" "max_memory_usage_from_groups (ec_vllm c) gs' = Inr m" "m \<le> available ! k" using K(4) by blast
  have "get_kv_cache_config_from_groups c gs' (available ! k) = Inr cfg'" using k(3) by (simp add: worker_config_def)
  from memory_check_blocks [OF K(3) ne _ m(1) no this m(2,3)] K(1)
  obtain b where "blocks_per_request (ec_vllm c) gs' = Inr b" "b \<le> num_blocks cfg'" by (auto simp: worker_groups_ok_def)
  moreover have "blocks_per_request (ec_vllm c) gs' = blocks_per_request (ec_vllm c) gsi"
    by (rule blocks_per_request_specs) (simp add: K(2) I)
  ultimately show ?thesis using gsi(2,3) k(4) by auto
qed

end
