(* ===== verification/Config_Start.thy ===== *)
theory Config_Start
  imports Cache_Config_Workers Lifecycle
begin

text \<open>
  From the layout to the cache manager: the configuration of the scheduler starts a manager, how many of
  its blocks one request can use, and sample layouts.
\<close>

section \<open>The manager of a computed layout\<close>

lemma decoder_layer: "decoder_spec s \<Longrightarrow> uniform_parts s = None"
  by (cases s) (auto simp: decoder_spec_def)

lemma scheduler_config_same:
  assumes "generate_scheduler_kv_cache_config cfgs = Inr cfg" "\<forall>g \<in> set (kv_cache_groups (hd cfgs)). uniform_parts (group_spec g) = None"
  shows "cfg = hd cfgs" "cfg \<in> set cfgs"
proof -
  obtain c cs where cs: "cfgs = c # cs" using assms(1) by (cases cfgs) (auto simp: generate_scheduler_kv_cache_config_def)
  have "mapE scheduler_group (kv_cache_groups c) = Inr (map id (kv_cache_groups c))"
    by (rule mapE_all_Inr) (use assms(2) cs in \<open>simp add: scheduler_group_def\<close>)
  then show "cfg = hd cfgs" "cfg \<in> set cfgs" using assms(1) cs by (auto simp: generate_scheduler_kv_cache_config_def)
qed

text \<open>A decoder layer needs at least one page.\<close>

lemma decoder_pages:
  assumes "decoder_spec s" "0 < block_size s" "1 \<le> max_model_len c" "0 \<le> max_num_batched_tokens c"
    "dcp_world_size c = 1" "pcp_world_size c = 1"
  shows "1 \<le> pages_needed c s"
proof -
  have pos: "1 \<le> cdiv a b" if "1 \<le> a" "0 < b" for a b using cdiv_least [of b a 0] that by simp
  show ?thesis
  proof (cases s)
    case (SlidingWindowSpec a w)
    then have "0 \<le> cdiv (min (w - 1 + max_num_batched_tokens c) (max_model_len c)) (af_block_size a)"
      using assms by (intro cdiv_nonneg) (simp_all add: decoder_spec_def)
    then show ?thesis using SlidingWindowSpec by simp
  next
    case (ChunkedLocalAttentionSpec a ch)
    then have "1 \<le> min (ch + max_num_batched_tokens c) (max_model_len c)" "0 < af_block_size a"
      using assms by (simp_all add: decoder_spec_def)
    from pos [OF this] show ?thesis using ChunkedLocalAttentionSpec by simp
  qed (use assms pos [OF assms(3,2)] in \<open>simp_all add: decoder_spec_def\<close>)
qed

text \<open>The blocks of one request are at least one for every group.\<close>

lemma blocks_per_request_least:
  assumes gs: "gs \<noteq> []" "\<forall>g \<in> set gs. decoder_spec (group_spec g) \<and> 0 < block_size (group_spec g) \<and> layer_ok (group_spec g)"
    and c: "1 \<le> max_model_len c" "0 \<le> max_num_batched_tokens c" "dcp_world_size c = 1" "pcp_world_size c = 1"
    and b: "blocks_per_request c gs = Inr b"
  shows "int (length gs) \<le> b"
proof -
  obtain pg where pg: "get_uniform_page_size (map group_spec gs) = Inr pg"
    "sumE (map (\<lambda>s. bindE (max_memory_usage_bytes c s) (\<lambda>m. cdivE m pg)) (map group_spec gs)) = Inr b"
    using b by (auto simp: blocks_per_request_def Let_def simp del: map_map)
  obtain ys where ys: "mapE (\<lambda>s. bindE (max_memory_usage_bytes c s) (\<lambda>m. cdivE m pg)) (map group_spec gs) = Inr ys" "b = sum_list ys"
    using pg(2) unfolding sumE_eq_Inr by blast
  have "1 \<le> y" if "y \<in> set ys" for y
  proof -
    from list_all2_right [OF ys(1) [unfolded mapE_eq_Inr] that]
    obtain g where g: "g \<in> set gs" "bindE (max_memory_usage_bytes c (group_spec g)) (\<lambda>m. cdivE m pg) = Inr y" by auto
    have p: "page_size_bytes (group_spec g) = Inr pg" using uniform_page_size_all [OF pg(1)] g(1) by simp
    have ok: "decoder_spec (group_spec g)" "0 < block_size (group_spec g)" "layer_ok (group_spec g)" using gs(2) g(1) by blast+
    then have p0: "0 < pg" using p by (simp add: layer_ok_def)
    have "1 * pg \<le> pages_needed c (group_spec g) * pg"
      using decoder_pages [OF ok(1,2) c] p0 by (intro mult_right_mono) auto
    then have "1 \<le> cdiv (pages_needed c (group_spec g) * pg) pg"
      using cdiv_bounds [OF p0, of "pages_needed c (group_spec g) * pg"] p0
      by (metis less_le_not_le linorder_not_less mult_le_cancel_right order_trans)
    then show ?thesis using g(2) max_memory_pages [OF ok(3) p] c(3) p0 by (auto simp: cdivE_def)
  qed
  then have "int (length ys) \<le> sum_list ys" using sum_list_le [of ys "\<lambda>y. 1" "\<lambda>y. y"] by (simp add: sum_list_triv)
  moreover have "length ys = length gs" using list_all2_lengthD [OF ys(1) [unfolded mapE_eq_Inr]] by simp
  ultimately show ?thesis using ys(2) by simp
qed

text \<open>C39 (layout_starts_manager): the layout of a decoder model starts a consistent cache manager with all blocks but the null
  block free, and their number is at most one short of the blocks that one request of the maximum length needs.\<close>

theorem layout_starts_manager:
  assumes "get_kv_cache_configs c0 workers available = Inr (cfgs, c)" "ec_num_gpu_blocks_override c0 = None"
    "\<forall>w \<in> set workers. distinct (map fst w) \<and> single_formats w" "\<forall>a \<in> set available. 0 \<le> a"
    "generate_scheduler_kv_cache_config cfgs = Inr cfg"
    "wf_config (cfg\<lparr>num_blocks := 1\<rparr>) caching hbs" "kv_cache_groups (hd cfgs) \<noteq> []"
    "\<forall>g \<in> set (kv_cache_groups (hd cfgs)). decoder_spec (group_spec g) \<and> layer_ok (group_spec g)"
    "1 \<le> max_model_len (ec_vllm c)" "0 \<le> max_num_batched_tokens (ec_vllm c)"
    "dcp_world_size (ec_vllm c) = 1" "pcp_world_size (ec_vllm c) = 1"
  shows "\<exists>k b. init_kv_manager cfg (max_model_len (ec_vllm c)) hbs caching eagle stats events 1 1 env = Inr k \<and> kv_ok k \<and>
    get_num_free_blocks (pool_of k) = num_blocks cfg - 1 \<and>
    blocks_per_request (ec_vllm c) (kv_cache_groups cfg) = Inr b \<and> b - 1 \<le> get_num_free_blocks (pool_of k)"
proof -
  have none: "\<forall>g \<in> set (kv_cache_groups (hd cfgs)). uniform_parts (group_spec g) = None" using assms(8) decoder_layer by blast
  have cfg: "cfg = hd cfgs" "cfg \<in> set cfgs" by (rule scheduler_config_same [OF assms(5) none])+
  obtain b where b: "blocks_per_request (ec_vllm c) (kv_cache_groups cfg) = Inr b" "b \<le> num_blocks cfg"
    using blocks_hold_longest_request [OF assms(1-4) cfg(2)] assms(7) none cfg(1) by blast
  have "\<forall>g \<in> set (kv_cache_groups cfg). decoder_spec (group_spec g) \<and> 0 < block_size (group_spec g) \<and> layer_ok (group_spec g)"
    using assms(8) cfg(1) by (auto simp: layer_ok_def)
  then have "int (length (kv_cache_groups cfg)) \<le> b" using blocks_per_request_least [OF _ _ assms(9-12) b(1)] assms(7) cfg(1) by blast
  then have "0 < num_blocks cfg" using b(2) assms(7) cfg(1) by (cases "kv_cache_groups cfg") auto
  then have "wf_config cfg caching hbs" using assms(6)
    by (cases "length (kv_cache_groups cfg) = 1") (simp_all add: wf_config_def)
  then obtain k where "init_kv_manager cfg (max_model_len (ec_vllm c)) hbs caching eagle stats events 1 1 env = Inr k" "kv_ok k"
    "get_num_free_blocks (pool_of k) = num_blocks cfg - 1" using kv_init_correct by metis
  then show ?thesis using b by auto
qed

text \<open>A fresh manager of one full-attention group refuses a request that needs all blocks.\<close>

lemma fresh_full_refuses:
  assumes wf: "wf_config cfg caching hbs" and g: "kv_cache_groups cfg = [g]" "group_spec g = FullAttentionSpec a hv w ch"
    and r: "num_computed_tokens r = 0" "0 < n" "n \<le> mml" "num_blocks cfg \<le> cdiv n (af_block_size a)"
  shows "\<exists>k. init_kv_manager cfg mml hbs caching eagle stats events 1 1 env = Inr k \<and> kv_ok k \<and>
    get_num_free_blocks (pool_of k) = num_blocks cfg - 1 \<and> allocate_slots r n 0 None 0 0 delay 0 k = Inr (None, r, k)"
proof -
  obtain k where k: "init_kv_manager cfg mml hbs caching eagle stats events 1 1 env = Inr k" "kv_ok k" "k_max_model_len k = mml"
    "fresh_coordinator cfg caching hbs (coord k)" using fresh_kv_ok [OF wf] by blast
  have m: "managers (coord k) = [fresh_manager (group_spec g) caching 0 (pool_of k)]"
    using k(4) g(1) by (simp add: fresh_coordinator_def pool_of_def)
  let ?m = "fresh_manager (group_spec g) caching 0 (pool_of k)"
  have mm: "m_class ?m = FullAttentionManager" "m_block_size ?m = af_block_size a" "num_cached_block ?m = Map.empty"
    "blocks_get rid ?m = []" "\<not> is_cross ?m" for rid
    using g(2) by (simp_all add: fresh_manager_def base_init_def blocks_get_def is_cross_def)
  have p: "c_pool (coord k) = pool_of k" by (simp add: pool_of_def)
  have free: "get_num_free_blocks (pool_of k) = num_blocks cfg - 1"
    using kv_init_correct [OF wf, of mml eagle stats events env] k(1) by auto
  have skip: "coord_remove_skipped_blocks (request_id r) 0 (coord k) = Inr (coord k)"
    using mm p m by (simp add: coord_remove_skipped_blocks_def on_managers_def remove_skipped_blocks_def
        base_remove_skipped_blocks_def get_num_skipped_tokens_def)
  have bs: "0 < af_block_size a" using wf g by (simp add: wf_config_def)
  have "0 \<le> cdiv n (af_block_size a)" using r(2) bs by (simp add: cdiv_nonneg)
  then have num: "coord_num_blocks_to_allocate (request_id r) n (kv_lists k KVEmpty) 0 0 n (coord k) = Inr (cdiv n (af_block_size a), coord k)"
    using mm p k(2) m by (simp add: coord_num_blocks_to_allocate_def on_managers_def nth_or_raise_def kv_lists_def kv_ok_def
        get_num_blocks_to_allocate_def base_num_blocks_to_allocate_def Let_def get_num_skipped_tokens_def
        get_num_evictable_blocks_def py_from_nonneg)
  have mml: "k_max_model_len k = mml" "0 \<le> mml" using k(3) r(2,3) by simp_all
  have "allocate_slots r n 0 None 0 0 delay 0 k = Inr (None, r, k)"
    using r skip num free mml p by (simp add: allocate_slots_def Let_def)
  then show ?thesis using k(1,2) free by blast
qed

section \<open>Sample layouts\<close>

definition small_fields :: attention_fields where
  "small_fields = \<lparr>af_block_size = 16, num_kv_heads = 1, head_size = 4, dtype = \<lparr>dt_name = ''half'', dt_size = 2\<rparr>,
                   af_page_size_padded = None\<rparr>"

definition full_layer :: kv_cache_spec where
  "full_layer = FullAttentionSpec small_fields 4 None None"

definition window_layer :: kv_cache_spec where
  "window_layer = SlidingWindowSpec small_fields 8"

definition sample_engine :: "int \<Rightarrow> engine_config" where
  "sample_engine n =
     \<lparr>ec_vllm = \<lparr>max_model_len = n, max_num_batched_tokens = 64, max_num_encoder_input_tokens = 0, dcp_world_size = 1,
                pcp_world_size = 1, cfg_mamba_cache_mode = ''none''\<rparr>,
      ec_original_max_model_len = n, ec_num_gpu_blocks_override = None, ec_disable_hybrid = False\<rparr>"

text \<open>Two pipeline stages of a model with two full layers and four window layers.\<close>

definition two_stages :: "spec_dict list" where
  "two_stages =
     [[(''f0'', full_layer), (''s0'', window_layer), (''s1'', window_layer)],
      [(''f1'', full_layer), (''s2'', window_layer), (''s3'', window_layer)]]"

lemma sample_layers: "layer_ok full_layer" "layer_ok window_layer" "decoder_spec full_layer" "decoder_spec window_layer"
  "block_size full_layer = 16" "block_size window_layer = 16"
  by (simp_all add: layer_ok_def full_layer_def window_layer_def small_fields_def padded_page_def full_page_def
      attention_page_def decoder_spec_def)

text \<open>What \<^verbatim>\<open>get_kv_cache_configs\<close> computes for the stages, with 4000 and 3000 bytes.\<close>

definition stage_config :: "string \<Rightarrow> string \<Rightarrow> string \<Rightarrow> kv_cache_config" where
  "stage_config f s t =
     \<lparr>num_blocks = 11, kv_cache_tensors = [\<lparr>tensor_size = 2816, shared_by = [f, s, t]\<rparr>],
      kv_cache_groups = [\<lparr>layer_names = [f], group_spec = full_layer\<rparr>, \<lparr>layer_names = [s], group_spec = window_layer\<rparr>,
                         \<lparr>layer_names = [t], group_spec = window_layer\<rparr>]\<rparr>"

lemma two_stages_configs:
  "get_kv_cache_configs (sample_engine 32) two_stages [4000, 3000] =
     Inr ([stage_config ''f0'' ''s0'' ''s1'', stage_config ''f1'' ''s2'' ''s3''], sample_engine 32)"
  by code_simp

lemma one_layer_configs:
  "get_kv_cache_configs (sample_engine 32) [[(''f0'', full_layer)]] [512] =
     Inr ([\<lparr>num_blocks = 2, kv_cache_tensors = [\<lparr>tensor_size = 512, shared_by = [''f0'']\<rparr>],
            kv_cache_groups = [\<lparr>layer_names = [''f0''], group_spec = full_layer\<rparr>]\<rparr>], sample_engine 32)"
  by code_simp

text \<open>C40 (accepted_length_never_fits): the memory check ignores the null block. With memory for exactly the two
  blocks of a request of 32 tokens the configuration is accepted with a maximum length of 32, but the manager
  that is built has one usable block, and a request with a prompt of 31 tokens is refused although nothing else
  is in the cache.\<close>

theorem accepted_length_never_fits:
  "\<exists>cfgs cfg k. get_kv_cache_configs (sample_engine 32) [[(''f0'', full_layer)]] [512] = Inr (cfgs, sample_engine 32) \<and>
     generate_scheduler_kv_cache_config cfgs = Inr cfg \<and>
     init_kv_manager cfg 32 16 True False False False 1 1 (None, False, \<lambda>_. []) = Inr k \<and> kv_ok k \<and>
     get_num_free_blocks (pool_of k) = 1 \<and>
     allocate_slots (plain_request ''a'' (replicate 31 7) 1) 31 0 None 0 0 False 0 k =
       Inr (None, plain_request ''a'' (replicate 31 7) 1, k)"
proof -
  let ?g = "\<lparr>layer_names = [''f0''], group_spec = full_layer\<rparr>"
  let ?cfg = "\<lparr>num_blocks = 2, kv_cache_tensors = [\<lparr>tensor_size = 512, shared_by = [''f0'']\<rparr>], kv_cache_groups = [?g]\<rparr>"
  have gen: "generate_scheduler_kv_cache_config [?cfg] = Inr ?cfg"
    by (simp add: generate_scheduler_kv_cache_config_def scheduler_group_def full_layer_def)
  have wf: "wf_config ?cfg True 16" using sample_layers by (simp add: wf_config_def)
  let ?r = "plain_request ''a'' (replicate 31 7) 1"
  have "\<exists>k. init_kv_manager ?cfg 32 16 True False False False 1 1 (None, False, \<lambda>_. []) = Inr k \<and> kv_ok k \<and>
      get_num_free_blocks (pool_of k) = num_blocks ?cfg - 1 \<and> allocate_slots ?r 31 0 None 0 0 False 0 k = Inr (None, ?r, k)"
    by (rule fresh_full_refuses [OF wf, of ?g small_fields 4 None None])
      (simp_all add: full_layer_def plain_request_def small_fields_def cdiv_def)
  then show ?thesis using one_layer_configs gen by auto
qed

section \<open>Witnesses\<close>

definition stage_groups :: "kv_cache_group list" where
  "stage_groups = kv_cache_groups (stage_config ''f0'' ''s0'' ''s1'')"

theorem longest_length_correct_witness:
  "\<exists>n. estimate_max_model_len_from_groups (ec_vllm (sample_engine 4000)) stage_groups 4000 = Inr n \<and> 1 \<le> n \<and> n < 4000 \<and>
     groups_fit (ec_vllm (sample_engine 4000)) stage_groups 4000 n = Inr True \<and>
     groups_fit (ec_vllm (sample_engine 4000)) stage_groups 4000 (n + 1) = Inr False"
proof -
  have m: "max_memory_usage_from_groups (ec_vllm (sample_engine 4000)) stage_groups = Inr 67072" by code_simp
  have fits: "groups_fit (ec_vllm (sample_engine 4000)) stage_groups 4000 1 = Inr True"
    "groups_fit (ec_vllm (sample_engine 4000)) stage_groups 4000 4000 = Inr False" by code_simp+
  have ok: "groups_ok stage_groups"
    using sample_layers by (simp add: groups_ok_def single_uniform_def stage_groups_def stage_config_def)
  obtain n where n: "estimate_max_model_len_from_groups (ec_vllm (sample_engine 4000)) stage_groups 4000 = Inr n" "1 \<le> n"
    "n \<le> max 1 (max_model_len (ec_vllm (sample_engine 4000)))"
    "\<forall>l. l \<le> n \<longrightarrow> groups_fit (ec_vllm (sample_engine 4000)) stage_groups 4000 l = Inr True"
    "\<forall>l. n < l \<longrightarrow> l \<le> max_model_len (ec_vllm (sample_engine 4000)) \<longrightarrow> groups_fit (ec_vllm (sample_engine 4000)) stage_groups 4000 l = Inr False"
    using longest_length_correct [OF ok m, of 4000] unfolding if_P [OF fits(1)] by blast
  have mml: "max_model_len (ec_vllm (sample_engine 4000)) = 4000" by (simp add: sample_engine_def)
  have "n \<noteq> 4000" using n(4) fits(2) by force
  then show ?thesis using n mml by auto
qed

theorem groups_partition_layers_witness:
  "\<exists>gs. get_kv_cache_groups (sample_engine 32) (concat two_stages) = Inr gs \<and>
     map layer_names gs = [[''f0'', ''f1''], [''s0'', ''s2''], [''s1'', ''s3'']] \<and>
     (\<exists>p > 0. page_size_bytes (group_spec (gs ! 0)) = Inr p \<and> page_size_bytes (group_spec (gs ! 2)) = Inr p)"
proof -
  let ?gs = "[\<lparr>layer_names = [''f0'', ''f1''], group_spec = full_layer\<rparr>, \<lparr>layer_names = [''s0'', ''s2''], group_spec = window_layer\<rparr>,
     \<lparr>layer_names = [''s1'', ''s3''], group_spec = window_layer\<rparr>]"
  have gs: "get_kv_cache_groups (sample_engine 32) (concat two_stages) = Inr ?gs" by code_simp
  have "single_formats (concat two_stages)" using sample_layers by (simp add: single_formats_def two_stages_def)
  from groups_partition_layers [OF gs this] show ?thesis using gs by auto
qed

lemma two_stages_ok: "\<forall>w \<in> set two_stages. distinct (map fst w) \<and> single_formats w"
  using sample_layers by (simp add: two_stages_def single_formats_def)

theorem worker_tensors_fit_witness:
  "\<exists>cfgs c. get_kv_cache_configs (sample_engine 32) two_stages [4000, 3000] = Inr (cfgs, c) \<and> length cfgs = 2 \<and>
     num_blocks (cfgs ! 0) = num_blocks (cfgs ! 1) \<and> room_for_pages (cfgs ! 1) \<and>
     sum_list (map tensor_size (kv_cache_tensors (cfgs ! 1))) \<le> 3000"
proof -
  let ?cfgs = "[stage_config ''f0'' ''s0'' ''s1'', stage_config ''f1'' ''s2'' ''s3'']"
  have len: "length two_stages = 2" by (simp add: two_stages_def)
  obtain n where n: "\<forall>i < 2. num_blocks (?cfgs ! i) = n \<and> room_for_pages (?cfgs ! i) \<and>
      sum_list (map tensor_size (kv_cache_tensors (?cfgs ! i))) \<le> [4000, 3000] ! i"
    using worker_tensors_fit [OF two_stages_configs _ two_stages_ok] len by (force simp: sample_engine_def)
  show ?thesis using two_stages_configs n [rule_format, of 0] n [rule_format, of 1] by auto
qed

theorem layout_starts_manager_witness:
  "\<exists>cfgs c cfg k b. get_kv_cache_configs (sample_engine 32) two_stages [4000, 3000] = Inr (cfgs, c) \<and>
     generate_scheduler_kv_cache_config cfgs = Inr cfg \<and>
     init_kv_manager cfg 32 16 False False False False 1 1 (None, False, \<lambda>_. []) = Inr k \<and>
     get_num_free_blocks (pool_of k) = 10 \<and> blocks_per_request (ec_vllm c) (kv_cache_groups cfg) = Inr b \<and> b \<le> 11"
proof -
  let ?cfg = "stage_config ''f0'' ''s0'' ''s1''"
  have gen: "generate_scheduler_kv_cache_config [?cfg, stage_config ''f1'' ''s2'' ''s3''] = Inr ?cfg"
    by (simp add: generate_scheduler_kv_cache_config_def scheduler_group_def stage_config_def full_layer_def window_layer_def)
  have wf: "wf_config (?cfg\<lparr>num_blocks := 1\<rparr>) False 16"
    using sample_layers by (simp add: wf_config_def stage_config_def)
  have "\<exists>k b. init_kv_manager ?cfg (max_model_len (ec_vllm (sample_engine 32))) 16 False False False False 1 1 (None, False, \<lambda>_. []) = Inr k
      \<and> kv_ok k \<and> get_num_free_blocks (pool_of k) = num_blocks ?cfg - 1 \<and>
      blocks_per_request (ec_vllm (sample_engine 32)) (kv_cache_groups ?cfg) = Inr b \<and> b - 1 \<le> get_num_free_blocks (pool_of k)"
    by (rule layout_starts_manager [OF two_stages_configs _ two_stages_ok _ gen wf])
      (use sample_layers in \<open>simp_all add: sample_engine_def stage_config_def\<close>)
  then obtain k b where k: "init_kv_manager ?cfg 32 16 False False False False 1 1 (None, False, \<lambda>_. []) = Inr k"
    "get_num_free_blocks (pool_of k) = 10" "blocks_per_request (ec_vllm (sample_engine 32)) (kv_cache_groups ?cfg) = Inr b"
    "b - 1 \<le> get_num_free_blocks (pool_of k)"
    by (auto simp: sample_engine_def stage_config_def)
  then show ?thesis using two_stages_configs gen by force
qed

end
