(* ===== verification/Connector.thy ===== *)
theory Connector
  imports Sched_Update Offload_Props
begin

text \<open>
  The offloading connector (src/vllm/distributed/kv_transfer/kv_connector/v1/offloading): its part in the
  scheduler process, which drives the offloading manager and decides what to copy, its part in the worker
  process, which turns the decisions into jobs and reports what is done, and the handlers that expand the
  blocks of a job into the pairs that are copied (src/vllm/v1/kv_offload/worker). A request is kept by
  its id, its current object is read in the argument \<^verbatim>\<open>objs\<close>; the order in which the interpreter
  enumerates a set is an argument as well.
\<close>

section \<open>The manager in use\<close>

datatype off_manager = Plain cpu_manager | Filtered reuse_manager

text \<open>An offloading manager may answer that a lookup should be tried later; these two never do.\<close>

fun ofm_lookup :: "bytes list \<Rightarrow> off_manager \<Rightarrow> int option \<times> off_manager" where
  "ofm_lookup hs (Plain m) = (Some (om_lookup hs m), Plain m)"
| "ofm_lookup hs (Filtered r) = map_prod Some Filtered (rm_lookup hs r)"

fun ofm_prepare_load :: "bytes list \<Rightarrow> off_manager \<Rightarrow> (int list \<times> off_manager) res" where
  "ofm_prepare_load hs (Plain m) = bindE (om_prepare_load hs m) (\<lambda>(ids, m'). Inr (ids, Plain m'))"
| "ofm_prepare_load hs (Filtered r) = bindE (rm_prepare_load hs r) (\<lambda>(ids, r'). Inr (ids, Filtered r'))"

fun ofm_touch :: "bytes list \<Rightarrow> off_manager \<Rightarrow> off_manager" where
  "ofm_touch hs (Plain m) = Plain (om_touch hs m)"
| "ofm_touch hs (Filtered r) = Filtered (rm_touch hs r)"

fun ofm_complete_load :: "bytes list \<Rightarrow> off_manager \<Rightarrow> off_manager res" where
  "ofm_complete_load hs (Plain m) = bindE (om_complete_load hs m) (\<lambda>m'. Inr (Plain m'))"
| "ofm_complete_load hs (Filtered r) = bindE (rm_complete_load hs r) (\<lambda>r'. Inr (Filtered r'))"

fun ofm_prepare_store :: "bytes list \<Rightarrow> off_manager \<Rightarrow> (prepare_store_output option \<times> off_manager) res" where
  "ofm_prepare_store hs (Plain m) = bindE (om_prepare_store hs m) (\<lambda>(out, m'). Inr (out, Plain m'))"
| "ofm_prepare_store hs (Filtered r) = bindE (rm_prepare_store hs r) (\<lambda>(out, r'). Inr (out, Filtered r'))"

fun ofm_complete_store :: "bytes list \<Rightarrow> bool \<Rightarrow> off_manager \<Rightarrow> off_manager res" where
  "ofm_complete_store hs ok (Plain m) = bindE (om_complete_store hs ok m) (\<lambda>m'. Inr (Plain m'))"
| "ofm_complete_store hs ok (Filtered r) = bindE (rm_complete_store hs ok r) (\<lambda>r'. Inr (Filtered r'))"

fun ofm_take_events :: "off_manager \<Rightarrow> offloading_event list \<times> off_manager" where
  "ofm_take_events (Plain m) = map_prod id Plain (om_take_events m)"
| "ofm_take_events (Filtered r) = map_prod id Filtered (rm_take_events r)"

text \<open>\<^verbatim>\<open>CPUOffloadingSpec.get_manager\<close>: thresholds below two switch the filter off.\<close>

definition get_offload_manager ::
  "int list \<Rightarrow> int \<Rightarrow> int \<Rightarrow> string \<Rightarrow> bool \<Rightarrow> int \<Rightarrow> int \<Rightarrow> off_manager res" where
  "get_offload_manager gpu_block_sizes factor nblocks policy events threshold max_tracker =
     assertE (length gpu_block_sizes = 1)
       (bindE (init_cpu_manager (hd gpu_block_sizes * factor) nblocks policy events) (\<lambda>m.
        if threshold \<ge> 2 then bindE (init_reuse_manager m threshold max_tracker) (\<lambda>r. Inr (Filtered r))
        else Inr (Plain m)))"

section \<open>Transfers\<close>

datatype load_store_spec =
    GPULoadStoreSpec (ls_block_ids: "int list") "int list" "int list option"
  | CPULoadStoreSpec (ls_block_ids: "int list")

type_synonym transfer_spec = "load_store_spec \<times> load_store_spec"

definition gpu_load_store_spec :: "int list \<Rightarrow> int list \<Rightarrow> int list option \<Rightarrow> load_store_spec res" where
  "gpu_load_store_spec ids group_sizes indices =
     assertE (sum_list group_sizes = int (length ids))
       (assertE (case indices of None \<Rightarrow> True | Some xs \<Rightarrow> length xs = length group_sizes)
         (Inr (GPULoadStoreSpec ids group_sizes indices)))"

record connector_meta =
  cm_reqs_to_load :: "(req_id \<times> transfer_spec) list"
  cm_reqs_to_store :: "(req_id \<times> transfer_spec) list"
  cm_reqs_to_flush :: "req_id set"

section \<open>The connector in the scheduler\<close>

record off_connector =
  oc_gpu_block_size :: int
  oc_offloaded_block_size :: int
  oc_block_size_factor :: int
  oc_manager :: off_manager
  oc_requests :: "req_id set"
  oc_request_block_ids :: "req_id \<rightharpoonup> int list"
  oc_reqs_to_load :: "(req_id \<times> transfer_spec) list"
  oc_next_stored_block_idx :: "req_id \<rightharpoonup> int"
  oc_blocks_being_loaded :: "bytes set option"
  oc_reqs_being_stored :: "req_id \<rightharpoonup> bytes set"
  oc_reqs_being_loaded :: "req_id \<rightharpoonup> bytes set"

definition init_off_connector :: "int list \<Rightarrow> int \<Rightarrow> off_manager \<Rightarrow> bool \<Rightarrow> off_connector res" where
  "init_off_connector gpu_block_sizes factor m enable_prefix_caching =
     assertE (length gpu_block_sizes = 1)
       (Inr \<lparr>oc_gpu_block_size = hd gpu_block_sizes, oc_offloaded_block_size = hd gpu_block_sizes * factor,
             oc_block_size_factor = factor, oc_manager = m, oc_requests = {}, oc_request_block_ids = Map.empty,
             oc_reqs_to_load = [], oc_next_stored_block_idx = Map.empty,
             oc_blocks_being_loaded = (if enable_prefix_caching then Some {} else None),
             oc_reqs_being_stored = Map.empty, oc_reqs_being_loaded = Map.empty\<rparr>)"

text \<open>\<^verbatim>\<open>itertools.islice\<close> with a start, a stop and a step.\<close>

definition islice_step :: "'a list \<Rightarrow> int \<Rightarrow> int option \<Rightarrow> int \<Rightarrow> 'a list res" where
  "islice_step xs start stop step =
     (if start < 0 \<or> (case stop of None \<Rightarrow> False | Some e \<Rightarrow> e < 0) \<or> step < 1 then Inl ValueError
      else
        let lim = (case stop of None \<Rightarrow> int (length xs) | Some e \<Rightarrow> min e (int (length xs)))
        in Inr (map (\<lambda>k. xs ! nat (start + k * step)) [0..(lim - start + step - 1) div step - 1]))"

definition oc_get_block_hashes :: "int \<Rightarrow> request \<Rightarrow> int \<Rightarrow> int option \<Rightarrow> bytes list res" where
  "oc_get_block_hashes f r start_idx end_idx =
     islice_step (block_hashes r) (f * start_idx + f - 1)
       (case end_idx of None \<Rightarrow> None | Some e \<Rightarrow> if e = 0 then None else Some (f * e)) f"

definition oc_get_num_new_matched_tokens ::
  "request \<Rightarrow> int \<Rightarrow> off_connector \<Rightarrow> ((int option \<times> bool) \<times> off_connector) res" where
  "oc_get_num_new_matched_tokens r num_computed c =
     (let f = oc_block_size_factor c; obs = oc_offloaded_block_size c; nblocks = num_tokens r div obs in
      assertE (int (length (block_hashes r)) div f = nblocks)
        (bindE (oc_get_block_hashes f r 0 None) (\<lambda>hs.
         let c1 = c\<lparr>oc_manager := ofm_touch hs (oc_manager c)\<rparr> in
         if obs * nblocks - num_computed < obs then Inr ((Some 0, False), c1)
         else
           let start = num_computed div obs in
           bindE (oc_get_block_hashes f r start None) (\<lambda>hs1.
           let (answer, m) = ofm_lookup hs1 (oc_manager c1); c2 = c1\<lparr>oc_manager := m\<rparr> in
           case answer of
             None \<Rightarrow> Inr ((None, False), c2)
           | Some found \<Rightarrow>
               let num_hit_tokens = obs * (start + found) - num_computed in
               if found = 0 then Inr ((Some 0, False), c2)
               else if num_hit_tokens < obs then Inr ((Some 0, False), c2)
               else if oc_blocks_being_loaded c2 = None \<or> oc_blocks_being_loaded c2 = Some {}
               then Inr ((Some num_hit_tokens, True), c2)
               else bindE (oc_get_block_hashes f r start (Some (start + found))) (\<lambda>hs2.
                    if \<exists>h \<in> set hs2. h \<in> the (oc_blocks_being_loaded c2) then Inr ((None, False), c2)
                    else Inr ((Some num_hit_tokens, True), c2))))))"

definition getd :: "'v \<Rightarrow> 'k \<Rightarrow> ('k \<rightharpoonup> 'v) \<Rightarrow> 'v" where
  "getd d k m = (case m k of None \<Rightarrow> d | Some v \<Rightarrow> v)"

definition oc_update_state_after_alloc ::
  "request \<Rightarrow> block_pool \<Rightarrow> bref list list \<Rightarrow> int \<Rightarrow> off_connector \<Rightarrow> off_connector res" where
  "oc_update_state_after_alloc r p blocks num_external c =
     (let rid = request_id r; f = oc_block_size_factor c; obs = oc_offloaded_block_size c;
          gbs = oc_gpu_block_size c;
          c1 = c\<lparr>oc_requests := insert rid (oc_requests c),
                 oc_request_block_ids := (oc_request_block_ids c)(rid \<mapsto> [])\<rparr>
      in if num_external = 0 then Inr c1
         else
           bindE (py_get blocks 0) (\<lambda>group.
           let block_ids = map (\<lambda>b. block_id (blk p b)) group;
               num_computed_gpu_blocks = int (length (filter (\<lambda>b. hash_of p b \<noteq> None) group));
               num_computed_tokens = num_computed_gpu_blocks * gbs;
               full_block_tokens = num_computed_tokens + num_external;
               num_pending = int (length block_ids) - num_computed_gpu_blocks;
               start = num_computed_tokens div obs;
               nblocks = full_block_tokens div obs
           in assertE (full_block_tokens mod obs = 0)
             (assertE (num_external = num_pending * gbs)
             (assertE (int (length (block_hashes r)) div f \<ge> nblocks)
             (bindE (oc_get_block_hashes f r start (Some nblocks)) (\<lambda>hs.
              bindE (ofm_prepare_load hs (oc_manager c1)) (\<lambda>(src, m).
              bindE (gpu_load_store_spec (py_from block_ids num_computed_gpu_blocks) [num_pending]
                       (Some [num_computed_gpu_blocks])) (\<lambda>dst.
              let mine = getd {} rid (oc_reqs_being_loaded c1) \<union> set hs in
              Inr (c1\<lparr>oc_manager := m,
                      oc_reqs_to_load := dict_set rid (CPULoadStoreSpec src, dst) (oc_reqs_to_load c1),
                      oc_reqs_being_loaded := (oc_reqs_being_loaded c1)(rid \<mapsto> mine),
                      oc_next_stored_block_idx := (oc_next_stored_block_idx c1)(rid \<mapsto> nblocks),
                      oc_blocks_being_loaded := map_option (\<lambda>B. B \<union> mine) (oc_blocks_being_loaded c1)\<rparr>)))))))))"

section \<open>Storing\<close>

text \<open>\<^verbatim>\<open>yield_req_data\<close>: the new and the cached requests of a step.\<close>

definition yield_req_data :: "scheduler_output \<Rightarrow> (req_id \<times> int list list option \<times> bool) list" where
  "yield_req_data out =
     map (\<lambda>d. (nr_req_id d, Some (nr_block_ids d), False)) (so_scheduled_new_reqs out) @
     (let d = so_scheduled_cached_reqs out in
      zip (cr_req_ids d) (zip (cr_new_block_ids d) (map (\<lambda>q. q \<in> cr_resumed_req_ids d) (cr_req_ids d))))"

text \<open>The GPU blocks of the offloaded blocks that are to be stored.\<close>

fun gather_src :: "int \<Rightarrow> int list \<Rightarrow> bytes set \<Rightarrow> int \<Rightarrow> bytes list \<Rightarrow> int list res" where
  "gather_src f block_ids wanted idx [] = Inr []"
| "gather_src f block_ids wanted idx (h # hs) =
     (if h \<notin> wanted then gather_src f block_ids wanted (idx + 1) hs
      else bindE (mapE (\<lambda>i. py_get block_ids (idx * f + i)) [0..f - 1]) (\<lambda>xs.
           bindE (gather_src f block_ids wanted (idx + 1) hs) (\<lambda>ys. Inr (xs @ ys))))"

definition note_block_ids ::
  "req_id \<Rightarrow> int list list option \<Rightarrow> bool \<Rightarrow> off_connector \<Rightarrow> (int list \<times> off_connector) res" where
  "note_block_ids rid groups preempted c =
     (let c1 = (if preempted then c\<lparr>oc_request_block_ids := (oc_request_block_ids c)(rid \<mapsto> [])\<rparr> else c) in
      case oc_request_block_ids c1 rid of
        None \<Rightarrow> Inl KeyError
      | Some ids \<Rightarrow>
          (case groups of
             Some (new # _) \<Rightarrow>
               Inr (ids @ new, c1\<lparr>oc_request_block_ids := (oc_request_block_ids c1)(rid \<mapsto> ids @ new)\<rparr>)
           | _ \<Rightarrow> Inr (ids, c1)))"

definition store_new_blocks ::
  "request \<Rightarrow> req_id \<Rightarrow> int list \<Rightarrow> int \<Rightarrow> int \<Rightarrow> off_connector \<Rightarrow> (transfer_spec option \<times> off_connector) res" where
  "store_new_blocks r rid block_ids start nblocks c =
     (let f = oc_block_size_factor c in
      assertE (int (length (block_hashes r)) \<ge> nblocks * f)
        (bindE (oc_get_block_hashes f r start (Some nblocks)) (\<lambda>hs.
         bindE (ofm_prepare_store hs (oc_manager c)) (\<lambda>(out, m).
         let c1 = c\<lparr>oc_manager := m\<rparr> in
         case out of
           None \<Rightarrow> Inr (None, c1)
         | Some x \<Rightarrow>
             let c2 = c1\<lparr>oc_next_stored_block_idx := (oc_next_stored_block_idx c1)(rid \<mapsto> nblocks)\<rparr> in
             if ps_to_store x = [] then Inr (None, c2)
             else
               let wanted = set (ps_to_store x) in
               bindE (oc_get_block_hashes f r 0 (Some nblocks)) (\<lambda>all_hs.
               let c3 = c2\<lparr>oc_manager := ofm_touch all_hs (oc_manager c2)\<rparr> in
               bindE (gather_src f block_ids wanted start hs) (\<lambda>src_ids.
               bindE (gpu_load_store_spec src_ids [int (length src_ids)] None) (\<lambda>src.
               Inr (Some (src, CPULoadStoreSpec (ps_block_ids x)),
                    c3\<lparr>oc_reqs_being_stored :=
                         (oc_reqs_being_stored c3)(rid \<mapsto> getd {} rid (oc_reqs_being_stored c3) \<union> wanted)\<rparr>))))))))"

definition store_one ::
  "(req_id \<rightharpoonup> request) \<Rightarrow> scheduler_output \<Rightarrow> req_id \<times> int list list option \<times> bool \<Rightarrow>
   (req_id \<times> transfer_spec) list \<times> off_connector \<Rightarrow> ((req_id \<times> transfer_spec) list \<times> off_connector) res" where
  "store_one objs out e acc =
     (case (e, acc) of ((rid, groups, preempted), (d, c)) \<Rightarrow>
      bindE (note_block_ids rid groups preempted c) (\<lambda>(block_ids, c1).
      case (if rid \<in> oc_requests c1 then objs rid else None) of
        None \<Rightarrow> Inl KeyError
      | Some r \<Rightarrow>
          (case map_of (so_num_scheduled_tokens out) rid of
             None \<Rightarrow> Inl KeyError
           | Some new_tokens \<Rightarrow>
               let total = min (num_computed_tokens r + new_tokens) (num_tokens r);
                   nblocks = total div oc_offloaded_block_size c1;
                   start = getd 0 rid (oc_next_stored_block_idx c1)
               in if nblocks - start \<le> 0 then Inr (d, c1)
                  else bindE (store_new_blocks r rid block_ids start nblocks c1) (\<lambda>(t, c2).
                       Inr (case t of None \<Rightarrow> d | Some spec \<Rightarrow> dict_set rid spec d, c2)))))"

definition get_reqs_to_store ::
  "(req_id \<rightharpoonup> request) \<Rightarrow> scheduler_output \<Rightarrow> off_connector \<Rightarrow> ((req_id \<times> transfer_spec) list \<times> off_connector) res" where
  "get_reqs_to_store objs out c = foldE (store_one objs out) (yield_req_data out) ([], c)"

definition flush_one :: "(bytes set \<Rightarrow> bytes list) \<Rightarrow> req_id \<Rightarrow> off_connector \<Rightarrow> off_connector res" where
  "flush_one order rid c =
     (let hs = getd {} rid (oc_reqs_being_stored c) in
      if hs = {} then Inr c
      else bindE (ofm_complete_store (order hs) True (oc_manager c)) (\<lambda>m.
           Inr (c\<lparr>oc_manager := m, oc_reqs_being_stored := (oc_reqs_being_stored c)(rid \<mapsto> {})\<rparr>)))"

definition oc_build_connector_meta ::
  "(bytes set \<Rightarrow> bytes list) \<Rightarrow> (req_id set \<Rightarrow> req_id list) \<Rightarrow> (req_id \<rightharpoonup> request) \<Rightarrow> scheduler_output \<Rightarrow>
   off_connector \<Rightarrow> (connector_meta \<times> off_connector) res" where
  "oc_build_connector_meta order req_order objs out c =
     bindE (get_reqs_to_store objs out c) (\<lambda>(stores, c1).
     let c2 = c1\<lparr>oc_reqs_to_load := []\<rparr> in
     bindE (foldE (flush_one order) (req_order (so_preempted_req_ids out)) c2) (\<lambda>c3.
       Inr (\<lparr>cm_reqs_to_load = oc_reqs_to_load c, cm_reqs_to_store = stores,
             cm_reqs_to_flush = so_preempted_req_ids out\<rparr>, c3)))"

section \<open>Reports of the worker\<close>

definition sent_one :: "(bytes set \<Rightarrow> bytes list) \<Rightarrow> req_id \<Rightarrow> off_connector \<Rightarrow> off_connector res" where
  "sent_one order rid c =
     (let hs = getd {} rid (oc_reqs_being_stored c);
          c1 = c\<lparr>oc_reqs_being_stored := (oc_reqs_being_stored c)(rid := None)\<rparr>
      in if hs = {} then Inr c1
         else bindE (ofm_complete_store (order hs) True (oc_manager c1)) (\<lambda>m. Inr (c1\<lparr>oc_manager := m\<rparr>)))"

definition received_one :: "(bytes set \<Rightarrow> bytes list) \<Rightarrow> req_id \<Rightarrow> off_connector \<Rightarrow> off_connector res" where
  "received_one order rid c =
     (let hs = getd {} rid (oc_reqs_being_loaded c);
          c1 = c\<lparr>oc_reqs_being_loaded := (oc_reqs_being_loaded c)(rid := None)\<rparr>
      in if hs = {} then Inr c1
         else bindE (ofm_complete_load (order hs) (oc_manager c1)) (\<lambda>m.
              Inr (c1\<lparr>oc_manager := m,
                      oc_blocks_being_loaded := map_option (\<lambda>B. B - hs) (oc_blocks_being_loaded c1)\<rparr>)))"

definition oc_update_connector_output ::
  "(bytes set \<Rightarrow> bytes list) \<Rightarrow> kv_connector_output \<Rightarrow> off_connector \<Rightarrow> off_connector res" where
  "oc_update_connector_output order ko c =
     bindE (foldE (sent_one order) (ko_finished_sending ko) c) (foldE (received_one order) (ko_finished_recving ko))"

definition oc_request_finished :: "request \<Rightarrow> off_connector \<Rightarrow> bool \<times> off_connector" where
  "oc_request_finished r c =
     (let rid = request_id r;
          c1 = c\<lparr>oc_requests := oc_requests c - {rid}, oc_request_block_ids := (oc_request_block_ids c)(rid := None),
                 oc_next_stored_block_idx := (oc_next_stored_block_idx c)(rid := None)\<rparr>
      in (oc_reqs_being_stored c1 rid \<noteq> None, c1))"

definition connector_event :: "offloading_event \<Rightarrow> kv_cache_event" where
  "connector_event e =
     (if ev_removed e then BlockRemoved (map ExtBytes (ev_block_hashes e)) (ev_medium e)
      else BlockStored \<lparr>st_block_hashes = map ExtBytes (ev_block_hashes e), st_parent_block_hash = None, st_token_ids = [],
                        st_block_size = ev_block_size e, st_lora_id = None, st_medium = ev_medium e,
                        st_lora_name = None, st_extra_keys = None\<rparr>)"

definition oc_take_events :: "off_connector \<Rightarrow> kv_cache_event list \<times> off_connector" where
  "oc_take_events c =
     (let (es, m) = ofm_take_events (oc_manager c) in (map connector_event es, c\<lparr>oc_manager := m\<rparr>))"

end
