(* ===== verification/Connector_Props.thy ===== *)
theory Connector_Props
  imports Connector
begin

text \<open>
  What the scheduler's part of the offloading connector guarantees: every one of its operations is a
  sequence of transfers of the offloading manager, so the safety of the transfers carries over; tokens
  that were announced as loadable can be loaded; and no block is loaded twice at the same time.
\<close>

section \<open>The manager behind the filter\<close>

fun backing :: "off_manager \<Rightarrow> cpu_manager" where
  "backing (Plain m) = m"
| "backing (Filtered r) = rm_backing r"

text \<open>The hashes that a store passes on to the manager.\<close>

fun eligible :: "off_manager \<Rightarrow> bytes list \<Rightarrow> bytes list" where
  "eligible (Plain m) hs = hs"
| "eligible (Filtered r) hs =
     filter (\<lambda>h. (case od_get (rm_counts r) h of None \<Rightarrow> 0 | Some n \<Rightarrow> n) \<ge> rm_store_threshold r) hs"

lemma distinct_eligible: "distinct hs \<Longrightarrow> distinct (eligible m hs)"
  by (cases m) simp_all

lemma backing_touch [simp]: "backing (ofm_touch hs m) = om_touch hs (backing m)"
  by (cases m) (simp_all add: rm_touch_def)

lemma fst_ofm_lookup [simp]: "fst (ofm_lookup hs m) = Some (om_lookup hs (backing m))"
  and backing_lookup [simp]: "backing (snd (ofm_lookup hs m)) = backing m"
  by (cases m; simp add: rm_lookup_def)+

lemma okE_prepare_load:
  "okE P (ofm_prepare_load hs m) \<longleftrightarrow>
     (\<forall>ids m'. ofm_prepare_load hs m = Inr (ids, m') \<longrightarrow> om_prepare_load hs (backing m) = Inr (ids, backing m') \<longrightarrow> P (ids, m'))"
  by (cases m) (auto simp: okE_def rm_prepare_load_def)

lemma okE_complete_load:
  "okE P (ofm_complete_load hs m) \<longleftrightarrow>
     (\<forall>m'. ofm_complete_load hs m = Inr m' \<longrightarrow> om_complete_load hs (backing m) = Inr (backing m') \<longrightarrow> P m')"
  by (cases m) (auto simp: okE_def rm_complete_load_def)

lemma okE_prepare_store:
  "okE P (ofm_prepare_store hs m) \<longleftrightarrow>
     (\<forall>out m'. ofm_prepare_store hs m = Inr (out, m') \<longrightarrow>
        om_prepare_store (eligible m hs) (backing m) = Inr (out, backing m') \<longrightarrow> P (out, m'))"
  by (cases m) (auto simp: okE_def rm_prepare_store_def)

lemma okE_complete_store:
  "okE P (ofm_complete_store hs success m) \<longleftrightarrow>
     (\<forall>m'. ofm_complete_store hs success m = Inr m' \<longrightarrow>
        om_complete_store hs success (backing m) = Inr (backing m') \<longrightarrow> P m')"
  by (cases m) (auto simp: okE_def rm_complete_store_def)

lemma backing_take_events: "om_take_events (backing m) = map_prod id backing (ofm_take_events m)"
  by (cases m) (simp_all add: rm_take_events_def map_prod_def split: prod.splits)

lemma isl_bindE: "isl (bindE m f) \<longleftrightarrow> isl m \<or> (\<exists>x. m = Inr x \<and> isl (f x))"
  by (cases m) auto

lemma isl_manager_calls:
  "isl (ofm_prepare_load hs m) \<longleftrightarrow> isl (om_prepare_load hs (backing m))"
  "isl (ofm_complete_load hs m) \<longleftrightarrow> isl (om_complete_load hs (backing m))"
  "isl (ofm_prepare_store hs m) \<longleftrightarrow> isl (om_prepare_store (eligible m hs) (backing m))"
  "isl (ofm_complete_store hs success m) \<longleftrightarrow> isl (om_complete_store hs success (backing m))"
  by (cases m; force simp: rm_prepare_load_def rm_complete_load_def rm_prepare_store_def rm_complete_store_def
      isl_bindE)+

section \<open>The hashes of offloaded blocks\<close>

text \<open>The hash of an offloaded block is the hash of the last of its GPU blocks.\<close>

definition off_hashes :: "int \<Rightarrow> request \<Rightarrow> bytes list" where
  "off_hashes f r = map (\<lambda>k. block_hashes r ! nat (f * k + f - 1)) [0..int (length (block_hashes r)) div f - 1]"

lemma length_off_hashes [simp]: "length (off_hashes f r) = nat (int (length (block_hashes r)) div f)"
  by (simp add: off_hashes_def)

lemma nth_off_hashes:
  "k < length (off_hashes f r) \<Longrightarrow> off_hashes f r ! k = block_hashes r ! nat (f * int k + f - 1)"
  by (simp add: off_hashes_def)

lemma off_hash_range:
  assumes "1 \<le> f" "k < length (off_hashes f r)"
  shows "0 \<le> f * int k + f - 1" "nat (f * int k + f - 1) < length (block_hashes r)"
proof -
  let ?n = "int (length (block_hashes r))"
  have "int k + 1 \<le> ?n div f" using assms(2) by simp
  then have "f * (int k + 1) \<le> f * (?n div f)" using assms(1) by (intro mult_left_mono) auto
  also have "\<dots> \<le> ?n" using assms(1) by (simp add: minus_mod_eq_mult_div [symmetric])
  finally have "f * int k + f \<le> ?n" by (simp add: algebra_simps)
  moreover have "0 \<le> f * int k" using assms(1) by simp
  ultimately show "0 \<le> f * int k + f - 1" "nat (f * int k + f - 1) < length (block_hashes r)"
    using assms(1) by linarith+
qed

lemma distinct_off_hashes:
  assumes "distinct (block_hashes r)" "1 \<le> f"
  shows "distinct (off_hashes f r)"
proof (unfold distinct_conv_nth, intro allI impI)
  fix i j
  assume ij: "i < length (off_hashes f r)" "j < length (off_hashes f r)" "i \<noteq> j"
  note I = off_hash_range [OF assms(2) ij(1)] and J = off_hash_range [OF assms(2) ij(2)]
  have "f * int i \<noteq> f * int j" using ij(3) assms(2) by simp
  then have "nat (f * int i + f - 1) \<noteq> nat (f * int j + f - 1)" using I(1) J(1) by linarith
  then show "off_hashes f r ! i \<noteq> off_hashes f r ! j"
    using I(2) J(2) ij nth_off_hashes assms(1) by (simp add: nth_eq_iff_index_eq)
qed

lemma islice_hashes:
  fixes r :: request
  assumes f: "1 \<le> f" and s: "0 \<le> s" and stop: "stop = None \<or> (\<exists>e > 0. stop = Some (f * e))"
  defines "m \<equiv> (case stop of None \<Rightarrow> int (length (off_hashes f r)) | Some e \<Rightarrow> e div f)"
  shows "islice_step (block_hashes r) (f * s + f - 1) stop f = Inr (drop (nat s) (take (nat m) (off_hashes f r)))"
proof -
  let ?n = "int (length (block_hashes r))"
  define lim where "lim = (case stop of None \<Rightarrow> ?n | Some e \<Rightarrow> min e ?n)"
  have lim: "lim div f = min m (?n div f)"
  proof (cases stop)
    case None
    then show ?thesis using f by (simp add: lim_def m_def pos_imp_zdiv_nonneg_iff)
  next
    case (Some e)
    then obtain e' where e: "e = f * e'" using stop by auto
    have "min (f * e') ?n div f = min e' (?n div f)"
    proof (cases "f * e' \<le> ?n")
      case True
      then have "e' \<le> ?n div f" using f by (simp add: zdiv_mono1 [of "f * e'" ?n f, simplified])
      then show ?thesis using True f by simp
    next
      case False
      have "?n div f \<le> (f * e') div f" using False f by (intro zdiv_mono1) auto
      then show ?thesis using False f by (simp add: min_def)
    qed
    then show ?thesis using f by (simp add: lim_def m_def Some e)
  qed
  have cnt: "(lim - (f * s + f - 1) + f - 1) div f = min m (?n div f) - s"
  proof -
    have "(lim - (f * s + f - 1) + f - 1) = lim + f * (- s)" by simp
    moreover have "(lim + f * (- s)) div f = - s + lim div f" using f by (intro div_mult_self2) simp
    ultimately show ?thesis using lim by simp
  qed
  have "0 \<le> m" using f stop by (auto simp: m_def pos_imp_zdiv_nonneg_iff)
  have eq: "map (\<lambda>k. block_hashes r ! nat (f * s + f - 1 + k * f)) [0..min m (?n div f) - s - 1] =
      drop (nat s) (take (nat m) (off_hashes f r))" (is "?l = ?r")
  proof (rule nth_equalityI)
    show len: "length ?l = length ?r" using s f \<open>0 \<le> m\<close> by (simp add: min_def) linarith
    fix i assume i: "i < length ?l"
    have r: "i + nat s < length (off_hashes f r)" "i + nat s < nat m"
      using i unfolding len by (auto simp del: length_off_hashes)
    have "?r ! i = block_hashes r ! nat (f * int (i + nat s) + f - 1)" using r nth_off_hashes by (simp add: add.commute)
    moreover have "f * int (i + nat s) + f - 1 = f * s + f - 1 + int i * f" using s by (simp add: algebra_simps)
    moreover have "?l ! i = block_hashes r ! nat (f * s + f - 1 + int i * f)" using i by simp
    ultimately show "?l ! i = ?r ! i" by (simp only:)
  qed
  have start: "\<not> f * s + f - 1 < 0"
  proof -
    have "0 \<le> f * s" using f s by simp
    then show ?thesis using f by linarith
  qed
  have st: "\<not> (case stop of None \<Rightarrow> False | Some e \<Rightarrow> e < 0)"
  proof (cases stop)
    case (Some e)
    then obtain e' where "e = f * e'" "0 < e'" using stop by auto
    then have "0 \<le> e" using f by (intro mult_nonneg_nonneg [of f e', folded \<open>e = f * e'\<close>]) auto
    then show ?thesis using Some by simp
  qed simp
  show ?thesis unfolding islice_step_def Let_def lim_def [symmetric] using start st f eq cnt by simp
qed

lemma get_block_hashes_all:
  "1 \<le> f \<Longrightarrow> 0 \<le> s \<Longrightarrow> oc_get_block_hashes f r s None = Inr (drop (nat s) (off_hashes f r))"
  using islice_hashes [of f s None r] by (simp add: oc_get_block_hashes_def)

lemma get_block_hashes_upto:
  "1 \<le> f \<Longrightarrow> 0 \<le> s \<Longrightarrow> 0 < e \<Longrightarrow> oc_get_block_hashes f r s (Some e) = Inr (drop (nat s) (take (nat e) (off_hashes f r)))"
  using islice_hashes [of f s "Some (f * e)" r] by (simp add: oc_get_block_hashes_def)

section \<open>The transfers the connector has started\<close>

text \<open>\<^verbatim>\<open>owned_once F D\<close>: the sets of the requests in \<^verbatim>\<open>F\<close> divide \<^verbatim>\<open>D\<close>. The writes under way are the blocks that
  some request is storing, each by one request; the reads under way are the blocks of all loads, with
  multiplicity.\<close>

definition owned_once :: "(req_id \<rightharpoonup> bytes set) \<Rightarrow> bytes set \<Rightarrow> bool" where
  "owned_once S D \<longleftrightarrow> (\<forall>q. finite (getd {} q S)) \<and> (\<forall>h. h \<in> D \<longleftrightarrow> (\<exists>q. h \<in> getd {} q S)) \<and>
     (\<forall>q q'. q \<noteq> q' \<longrightarrow> getd {} q S \<inter> getd {} q' S = {})"

definition all_loads :: "(req_id \<rightharpoonup> bytes set) \<Rightarrow> bytes multiset" where
  "all_loads L = (\<Sum>q \<in> dom L. mset_set (getd {} q L))"

definition off_rel :: "off_connector \<Rightarrow> offload_sys \<Rightarrow> bool" where
  "off_rel c s \<longleftrightarrow> os_manager s = backing (oc_manager c) \<and> owned_once (oc_reqs_being_stored c) (dom (os_stores s)) \<and>
     finite (dom (oc_reqs_being_loaded c)) \<and> (\<forall>q. finite (getd {} q (oc_reqs_being_loaded c))) \<and>
     image_mset fst (os_loads s) = all_loads (oc_reqs_being_loaded c)"

text \<open>\<^verbatim>\<open>ahead s c\<close>: from \<^verbatim>\<open>s\<close> a sequence of transfers leads to a state that the connector agrees with.\<close>

definition ahead :: "offload_sys \<Rightarrow> off_connector \<Rightarrow> bool" where
  "ahead s c \<longleftrightarrow> (\<exists>s'. off_step\<^sup>*\<^sup>* s s' \<and> sys_inv s' \<and> off_rel c s')"

lemma getd_upd [simp]: "getd d q (m(q' \<mapsto> v)) = (if q = q' then v else getd d q m)"
  "getd d q (m(q' := None)) = (if q = q' then d else getd d q m)"
  by (simp_all add: getd_def)

lemma aheadE:
  assumes "ahead s c"
  obtains s' where "off_step\<^sup>*\<^sup>* s s'" "sys_inv s'" "off_rel c s'"
  using assms by (auto simp: ahead_def)

lemma ahead_step:
  assumes "off_step\<^sup>*\<^sup>* s s1" "off_step s1 s2" "sys_inv s1" "off_rel c s2"
  shows "ahead s c"
  using assms off_step_inv [OF assms(2,3)] unfolding ahead_def by (meson rtranclp.rtrancl_into_rtrancl)

text \<open>Fields that the relation does not read.\<close>

lemma off_rel_frame:
  assumes "off_rel c s" "oc_manager c' = oc_manager c" "oc_reqs_being_stored c' = oc_reqs_being_stored c"
    "oc_reqs_being_loaded c' = oc_reqs_being_loaded c"
  shows "off_rel c' s"
  using assms by (simp add: off_rel_def)

lemma ahead_frame:
  assumes "ahead s c" "oc_manager c' = oc_manager c" "oc_reqs_being_stored c' = oc_reqs_being_stored c"
    "oc_reqs_being_loaded c' = oc_reqs_being_loaded c"
  shows "ahead s c'"
  using assms off_rel_frame unfolding ahead_def by metis

lemma ahead_touch:
  assumes "ahead s c" "oc_manager c' = ofm_touch hs (oc_manager c)" "oc_reqs_being_stored c' = oc_reqs_being_stored c"
    "oc_reqs_being_loaded c' = oc_reqs_being_loaded c"
  shows "ahead s c'"
proof -
  obtain t where t: "off_step\<^sup>*\<^sup>* s t" "sys_inv t" "off_rel c t" using assms(1) by (rule aheadE)
  have "off_rel c' (t\<lparr>os_manager := om_touch hs (os_manager t)\<rparr>)" using t(3) assms by (simp add: off_rel_def)
  then show ?thesis using ahead_step [OF t(1) Touch t(2)] by blast
qed

lemma ahead_lookup:
  assumes "ahead s c" "oc_manager c' = snd (ofm_lookup hs (oc_manager c))"
    "oc_reqs_being_stored c' = oc_reqs_being_stored c" "oc_reqs_being_loaded c' = oc_reqs_being_loaded c"
  shows "ahead s c'"
  using assms by (auto simp: ahead_def off_rel_def)

section \<open>Loads\<close>

lemma all_loads_upd:
  assumes "finite (dom L)" "finite H" "getd {} q L \<inter> H = {}" "finite (getd {} q L)"
  shows "all_loads (L(q \<mapsto> getd {} q L \<union> H)) = all_loads L + mset_set H"
proof -
  let ?g = "\<lambda>L x. mset_set (getd {} x L)"
  have sum: "(\<Sum>x \<in> dom M. ?g M x) = ?g M q + (\<Sum>x \<in> dom M - {q}. ?g M x)" if "finite (dom M)" for M
    using that by (cases "q \<in> dom M") (auto simp: sum.remove getd_def domIff)
  let ?M = "L(q \<mapsto> getd {} q L \<union> H)"
  have d: "dom ?M - {q} = dom L - {q}" "finite (dom ?M)" using assms(1) by auto
  have "(\<Sum>x \<in> dom L - {q}. ?g ?M x) = (\<Sum>x \<in> dom L - {q}. ?g L x)" by (rule sum.cong) auto
  then have "all_loads ?M = ?g ?M q + (\<Sum>x \<in> dom L - {q}. ?g L x)"
    unfolding all_loads_def sum [OF d(2)] d(1) by simp
  also have "?g ?M q = ?g L q + mset_set H" using mset_set_Union [OF assms(4,2,3)] by simp
  finally show ?thesis unfolding all_loads_def sum [OF assms(1)] by (simp add: ac_simps)
qed

lemma all_loads_del:
  assumes "finite (dom L)"
  shows "all_loads L = mset_set (getd {} q L) + all_loads (L(q := None))"
proof (cases "q \<in> dom L")
  case True
  have "(\<Sum>x \<in> dom L - {q}. mset_set (getd {} x (L(q := None)))) = (\<Sum>x \<in> dom L - {q}. mset_set (getd {} x L))"
    by (rule sum.cong) auto
  then show ?thesis using True assms by (simp add: all_loads_def sum.remove)
next
  case False
  then have "L(q := None) = L" by auto
  then show ?thesis using False by (simp add: getd_def domIff)
qed

lemma choose_loads:
  "mset hs \<subseteq># image_mset fst M \<Longrightarrow> \<exists>xs. map fst xs = hs \<and> mset xs \<subseteq># M"
proof (induction hs arbitrary: M)
  case (Cons h hs)
  have "h \<in># image_mset fst M" using Cons.prems by (auto dest: mset_subset_eqD)
  then obtain x where x: "x \<in># M" "fst x = h" by auto
  then obtain N where N: "M = add_mset x N" by (metis multi_member_split)
  then have "mset hs \<subseteq># image_mset fst N" using Cons.prems x by simp
  then obtain xs where "map fst xs = hs" "mset xs \<subseteq># N" using Cons.IH by blast
  then show ?case using x N by (intro exI [of _ "x # xs"]) simp
qed simp

definition num_loads :: "off_connector \<Rightarrow> nat" where
  "num_loads c = size (all_loads (oc_reqs_being_loaded c))"

lemma ahead_load:
  assumes a: "ahead s c" and d: "distinct hs" and free: "getd {} q (oc_reqs_being_loaded c) = {}"
    and n: "num_loads c + length hs < 2 ^ 31"
  shows "okE (\<lambda>(ids, m). \<forall>c'. oc_manager c' = m \<longrightarrow> oc_reqs_being_stored c' = oc_reqs_being_stored c \<longrightarrow>
      oc_reqs_being_loaded c' = (oc_reqs_being_loaded c)(q \<mapsto> getd {} q (oc_reqs_being_loaded c) \<union> set hs) \<longrightarrow> ahead s c')
    (ofm_prepare_load hs (oc_manager c))"
  unfolding okE_prepare_load
proof (clarify)
  fix ids m and c' :: off_connector
  assume m: "om_prepare_load hs (backing (oc_manager c)) = Inr (ids, backing (oc_manager c'))"
    and c': "oc_reqs_being_stored c' = oc_reqs_being_stored c"
      "oc_reqs_being_loaded c' = (oc_reqs_being_loaded c)(q \<mapsto> getd {} q (oc_reqs_being_loaded c) \<union> set hs)"
  obtain t where t: "off_step\<^sup>*\<^sup>* s t" "sys_inv t" "off_rel c t" using a by (rule aheadE)
  have r: "os_manager t = backing (oc_manager c)" "finite (dom (oc_reqs_being_loaded c))"
    "image_mset fst (os_loads t) = all_loads (oc_reqs_being_loaded c)"
    using t(3) by (simp_all add: off_rel_def)
  have "size (os_loads t) = num_loads c" unfolding num_loads_def r(3) [symmetric] by simp
  then have size: "size (os_loads t) + length hs < 2 ^ 31" using n by simp
  have len: "length ids = length hs"
    using okED [OF prepare_load_step [OF t(2) size, of "[]"] m [unfolded om_prepare_load_def r(1) [symmetric]]] by auto
  let ?t = "t\<lparr>os_manager := backing (oc_manager c'), os_loads := os_loads t + mset (zip hs ids)\<rparr>"
  have "off_step t ?t" by (rule Begin_load [OF m [folded r(1)] size])
  moreover have "image_mset fst (mset (zip hs ids)) = mset_set (set hs)"
    using d len by (simp add: mset_set_set flip: mset_map)
  then have "off_rel c' ?t"
    using t(3) all_loads_upd [OF r(2), of "set hs" q] free by (auto simp: off_rel_def c')
  ultimately show "ahead s c'" using ahead_step t by blast
qed

lemma ahead_received:
  assumes a: "ahead s c" and o: "\<forall>H. finite H \<longrightarrow> set (order H) = H \<and> distinct (order H)"
  shows "totE (ahead s) (received_one order q c)"
proof -
  let ?L = "oc_reqs_being_loaded c"
  define H where "H = getd {} q ?L"
  obtain t where t: "off_step\<^sup>*\<^sup>* s t" "sys_inv t" "off_rel c t" using a by (rule aheadE)
  have r: "os_manager t = backing (oc_manager c)" "finite (dom ?L)" "finite H"
    "image_mset fst (os_loads t) = all_loads ?L"
    using t(3) by (simp_all add: off_rel_def H_def)
  note D = all_loads_del [OF r(2), of q, folded H_def]
  show ?thesis
  proof (cases "H = {}")
    case True
    have "off_rel (c\<lparr>oc_reqs_being_loaded := ?L(q := None)\<rparr>) t" using t(3) r D True by (auto simp: off_rel_def)
    then show ?thesis using t True by (auto simp: received_one_def H_def [symmetric] ahead_def)
  next
    case False
    have oH: "set (order H) = H" "distinct (order H)" using o r(3) by simp_all
    then have ms: "mset (order H) = mset_set H" by (metis mset_set_set)
    then have "mset (order H) \<subseteq># image_mset fst (os_loads t)" using r(4) D by simp
    then obtain xs where xs: "map fst xs = order H" "mset xs \<subseteq># os_loads t" using choose_loads by blast
    obtain b where b: "om_complete_load (order H) (backing (oc_manager c)) = Inr b"
      using complete_load_step [OF t(2) xs(2)] r(1) xs(1) by (auto simp: totE_def)
    have "\<not> isl (ofm_complete_load (order H) (oc_manager c))" unfolding isl_manager_calls b by simp
    then obtain m where m: "ofm_complete_load (order H) (oc_manager c) = Inr m"
      by (cases "ofm_complete_load (order H) (oc_manager c)") auto
    have mb: "backing m = b"
      using m b okE_complete_load [of "\<lambda>m'. om_complete_load (order H) (backing (oc_manager c)) = Inr (backing m')" "order H" "oc_manager c"]
      by (simp add: okE_def)
    let ?t = "t\<lparr>os_manager := b, os_loads := os_loads t - mset xs\<rparr>"
    have step: "off_step t ?t" by (rule End_load [OF xs(2)]) (simp add: xs(1) r(1) b)
    have "image_mset fst (os_loads t - mset xs) = all_loads (?L(q := None))"
      using xs r(4) D ms by (simp add: image_mset_Diff flip: mset_map)
    then have "off_rel c' ?t" if "oc_manager c' = m" "oc_reqs_being_stored c' = oc_reqs_being_stored c"
      "oc_reqs_being_loaded c' = ?L(q := None)" for c' :: off_connector
      using t(3) that mb r(2) by (auto simp: off_rel_def)
    then have "ahead s c'" if "oc_manager c' = m" "oc_reqs_being_stored c' = oc_reqs_being_stored c"
      "oc_reqs_being_loaded c' = ?L(q := None)" for c' :: off_connector
      using that ahead_step [OF t(1) step t(2)] by blast
    then show ?thesis using False m by (simp add: received_one_def Let_def H_def [symmetric])
  qed
qed

section \<open>Stores\<close>

text \<open>A request starts to store new blocks; and all blocks that a request is storing are done: its set becomes
  empty or is forgotten.\<close>

lemma owned_onceI:
  assumes "\<And>q. finite (g q)" "\<And>h q. h \<in> g q \<Longrightarrow> h \<in> D" "\<And>h. h \<in> D \<Longrightarrow> \<exists>q. h \<in> g q"
    "\<And>h q q'. h \<in> g q \<Longrightarrow> h \<in> g q' \<Longrightarrow> q = q'" "\<And>q. getd {} q S = g q"
  shows "owned_once S D"
  unfolding owned_once_def using assms(1-4) unfolding assms(5) by blast

lemma owned_onceD:
  assumes "owned_once S D"
  shows "finite (getd {} q S)" "h \<in> getd {} q S \<Longrightarrow> h \<in> D" "h \<in> D \<Longrightarrow> \<exists>q. h \<in> getd {} q S"
    "h \<in> getd {} q S \<Longrightarrow> h \<in> getd {} q' S \<Longrightarrow> q = q'"
  using assms unfolding owned_once_def by blast+

lemma owned_once_add:
  assumes S: "owned_once S D" and N: "finite N" "D \<inter> N = {}"
  shows "owned_once (S(q \<mapsto> getd {} q S \<union> N)) (D \<union> N)"
proof (rule owned_onceI [where g = "\<lambda>x. if x = q then getd {} q S \<union> N else getd {} x S"])
  fix h
  show "\<exists>x. h \<in> (if x = q then getd {} q S \<union> N else getd {} x S)" if "h \<in> D \<union> N"
  proof (cases "h \<in> N")
    case False
    then obtain x where "h \<in> getd {} x S" using \<open>h \<in> D \<union> N\<close> owned_onceD(3) [OF S] by blast
    then show ?thesis by (intro exI [of _ x]) auto
  qed (intro exI [of _ q], simp)
next
  fix h x y
  show "h \<in> (if x = q then getd {} q S \<union> N else getd {} x S) \<Longrightarrow> h \<in> D \<union> N"
    using owned_onceD(2) [OF S, of h x] by (auto split: if_splits)
  assume "h \<in> (if x = q then getd {} q S \<union> N else getd {} x S)" "h \<in> (if y = q then getd {} q S \<union> N else getd {} y S)"
  then show "x = y" using N(2) owned_onceD(2,4) [OF S, of h] by (auto split: if_splits)
qed (use owned_onceD(1) [OF S] N(1) in auto)

lemma owned_once_drop:
  assumes S: "owned_once S D" and S': "getd {} q S' = {}" "\<And>x. x \<noteq> q \<Longrightarrow> getd {} x S' = getd {} x S"
  shows "owned_once S' (D - getd {} q S)"
proof (rule owned_onceI [where g = "\<lambda>x. if x = q then {} else getd {} x S"])
  fix h
  show "\<exists>x. h \<in> (if x = q then {} else getd {} x S)" if h: "h \<in> D - getd {} q S"
  proof -
    obtain x where "h \<in> getd {} x S" using h owned_onceD(3) [OF S] by blast
    then show ?thesis using h by (intro exI [of _ x]) auto
  qed
next
  fix h x y
  show "h \<in> (if x = q then {} else getd {} x S) \<Longrightarrow> h \<in> D - getd {} q S"
    using owned_onceD(2) [OF S, of h x] owned_onceD(4) [OF S, of h x q] by (auto split: if_splits)
  show "h \<in> (if x = q then {} else getd {} x S) \<Longrightarrow> h \<in> (if y = q then {} else getd {} y S) \<Longrightarrow> x = y"
    using owned_onceD(4) [OF S, of h x y] by (simp split: if_splits)
qed (use owned_onceD(1) [OF S] S' in auto)

lemma ahead_store:
  assumes a: "ahead s c" and d: "distinct hs"
  shows "okE (\<lambda>(out, m). \<forall>c' :: off_connector. oc_manager c' = m \<longrightarrow> oc_reqs_being_loaded c' = oc_reqs_being_loaded c \<longrightarrow>
      (case out of
         None \<Rightarrow> oc_reqs_being_stored c' = oc_reqs_being_stored c
       | Some x \<Rightarrow> oc_reqs_being_stored c' =
           (oc_reqs_being_stored c)(q \<mapsto> getd {} q (oc_reqs_being_stored c) \<union> set (ps_to_store x)) \<or>
           (ps_to_store x = [] \<and> oc_reqs_being_stored c' = oc_reqs_being_stored c)) \<longrightarrow> ahead s c')
    (ofm_prepare_store hs (oc_manager c))"
  unfolding okE_prepare_store
proof (clarify)
  fix out m and c' :: off_connector
  let ?hs = "eligible (oc_manager c) hs" and ?S = "oc_reqs_being_stored c"
  assume m: "om_prepare_store ?hs (backing (oc_manager c)) = Inr (out, backing (oc_manager c'))"
    and L: "oc_reqs_being_loaded c' = oc_reqs_being_loaded c"
    and S: "case out of
         None \<Rightarrow> oc_reqs_being_stored c' = ?S
       | Some x \<Rightarrow> oc_reqs_being_stored c' = ?S(q \<mapsto> getd {} q ?S \<union> set (ps_to_store x)) \<or>
           (ps_to_store x = [] \<and> oc_reqs_being_stored c' = ?S)"
  obtain t where t: "off_step\<^sup>*\<^sup>* s t" "sys_inv t" "off_rel c t" using a by (rule aheadE)
  have r: "os_manager t = backing (oc_manager c)" "owned_once ?S (dom (os_stores t))"
    using t(3) by (simp_all add: off_rel_def)
  have dist: "distinct ?hs" using d by (rule distinct_eligible)
  let ?t = "t\<lparr>os_manager := backing (oc_manager c'), os_stores := stores_after out (os_stores t)\<rparr>"
  have step: "off_step t ?t" by (rule Begin_store [OF dist m [folded r(1)]])
  have inv: "om_inv (os_manager t)" using t(2) by (simp add: sys_inv_def)
  have eff: "store_effect ?hs (os_manager t) (out, backing (oc_manager c'))"
    using prepare_store_effect [OF inv dist] m [folded r(1)] by (simp add: totE_def)
  have "owned_once (oc_reqs_being_stored c') (dom (stores_after out (os_stores t)))"
  proof (cases out)
    case None
    then show ?thesis using S r(2) by (simp add: stores_after_def)
  next
    case (Some x)
    have len: "length (ps_to_store x) = length (ps_block_ids x)" and
      ts: "ps_to_store x = filter (\<lambda>h. om_get (os_manager t) h = None) ?hs"
      using eff Some by (simp_all add: store_effect_def)
    have dom: "dom (stores_after out (os_stores t)) = dom (os_stores t) \<union> set (ps_to_store x)"
      using len by (auto simp: Some stores_after_def dom_map_add dom_map_of_zip)
    have new: "h \<notin> dom (os_stores t)" if "h \<in> set (ps_to_store x)" for h
    proof -
      have "entry_ok h (om_get (os_manager t) h) (os_loads t) (os_stores t h)" using t(2) unfolding sys_inv_def by blast
      then show ?thesis using that ts by (auto simp: entry_ok_def)
    qed
    show ?thesis
    proof (cases "ps_to_store x = [] \<and> oc_reqs_being_stored c' = ?S")
      case True
      then show ?thesis using r(2) dom by simp
    next
      case False
      then have S': "oc_reqs_being_stored c' = ?S(q \<mapsto> getd {} q ?S \<union> set (ps_to_store x))" using S Some by auto
      show ?thesis unfolding dom S' using new by (intro owned_once_add r(2)) auto
    qed
  qed
  then have "off_rel c' ?t" using t(3) L by (simp add: off_rel_def)
  then show "ahead s c'" using ahead_step [OF t(1) step t(2)] by blast
qed

lemma ahead_stored:
  assumes a: "ahead s c" and o: "set hs = getd {} q (oc_reqs_being_stored c)"
  shows "totE (\<lambda>m. \<forall>c' :: off_connector. oc_manager c' = m \<longrightarrow> oc_reqs_being_loaded c' = oc_reqs_being_loaded c \<longrightarrow>
      getd {} q (oc_reqs_being_stored c') = {} \<longrightarrow>
      (\<forall>q'. q' \<noteq> q \<longrightarrow> getd {} q' (oc_reqs_being_stored c') = getd {} q' (oc_reqs_being_stored c)) \<longrightarrow> ahead s c')
    (ofm_complete_store hs True (oc_manager c))"
proof -
  obtain t where t: "off_step\<^sup>*\<^sup>* s t" "sys_inv t" "off_rel c t" using a by (rule aheadE)
  have r: "os_manager t = backing (oc_manager c)" "owned_once (oc_reqs_being_stored c) (dom (os_stores t))"
    using t(3) by (simp_all add: off_rel_def)
  obtain b where b: "om_complete_store hs True (backing (oc_manager c)) = Inr b"
    using complete_store_step [OF t(2), of hs True] r(1) by (auto simp: totE_def)
  have "\<not> isl (ofm_complete_store hs True (oc_manager c))" unfolding isl_manager_calls b by simp
  then obtain m where m: "ofm_complete_store hs True (oc_manager c) = Inr m"
    by (cases "ofm_complete_store hs True (oc_manager c)") auto
  have mb: "backing m = b"
    using m b okE_complete_store [of "\<lambda>m'. om_complete_store hs True (backing (oc_manager c)) = Inr (backing m')" hs True "oc_manager c"]
    by (simp add: okE_def)
  let ?t = "t\<lparr>os_manager := b, os_stores := os_stores t |` (- set hs)\<rparr>"
  have step: "off_step t ?t" by (rule End_store) (use b r(1) in simp)
  have "ahead s c'" if c': "oc_manager c' = m" "oc_reqs_being_loaded c' = oc_reqs_being_loaded c"
    "getd {} q (oc_reqs_being_stored c') = {}"
    "\<forall>q'. q' \<noteq> q \<longrightarrow> getd {} q' (oc_reqs_being_stored c') = getd {} q' (oc_reqs_being_stored c)" for c' :: off_connector
  proof -
    have "dom (os_stores t |` (- set hs)) = dom (os_stores t) - getd {} q (oc_reqs_being_stored c)" using o by auto
    then have "owned_once (oc_reqs_being_stored c') (dom (os_stores t |` (- set hs)))"
      using owned_once_drop [OF r(2) c'(3)] c'(4) by simp
    then have "off_rel c' ?t" using t(3) c' mb by (simp add: off_rel_def)
    then show ?thesis using ahead_step [OF t(1) step t(2)] by blast
  qed
  then show ?thesis using m by (simp add: totE_def)
qed

lemma ahead_finite: "ahead s c \<Longrightarrow> finite (getd {} q (oc_reqs_being_stored c))"
  by (auto simp: ahead_def off_rel_def owned_once_def)

lemma ahead_sent:
  assumes a: "ahead s c" and o: "\<forall>H. finite H \<longrightarrow> set (order H) = H"
  shows "totE (ahead s) (sent_one order q c)"
proof -
  define H where "H = getd {} q (oc_reqs_being_stored c)"
  have oH: "set (order H) = getd {} q (oc_reqs_being_stored c)" using o ahead_finite [OF a] by (simp add: H_def)
  show ?thesis
  proof (cases "H = {}")
    case True
    obtain t where t: "off_step\<^sup>*\<^sup>* s t" "sys_inv t" "off_rel c t" using a by (rule aheadE)
    have "owned_once ((oc_reqs_being_stored c)(q := None)) (dom (os_stores t) - getd {} q (oc_reqs_being_stored c))"
      using t(3) by (intro owned_once_drop) (auto simp: off_rel_def)
    then show ?thesis using t True by (auto simp: sent_one_def H_def [symmetric] ahead_def off_rel_def)
  next
    case False
    then show ?thesis using ahead_stored [OF a oH]
      by (auto simp: sent_one_def Let_def H_def [symmetric] elim!: totE_conseq)
  qed
qed

lemma ahead_flush:
  assumes a: "ahead s c" and o: "\<forall>H. finite H \<longrightarrow> set (order H) = H"
  shows "totE (ahead s) (flush_one order q c)"
proof -
  define H where "H = getd {} q (oc_reqs_being_stored c)"
  have oH: "set (order H) = getd {} q (oc_reqs_being_stored c)" using o ahead_finite [OF a] by (simp add: H_def)
  show ?thesis using a ahead_stored [OF a oH]
    by (cases "H = {}") (auto simp: flush_one_def Let_def H_def [symmetric] elim!: totE_conseq)
qed

lemma totE_foldE:
  assumes "P s" "\<And>x s. P s \<Longrightarrow> totE P (f x s)"
  shows "totE P (foldE f xs s)"
  using assms(1)
proof (induction xs arbitrary: s)
  case (Cons x xs)
  show ?case unfolding foldE.simps totE_simps by (rule totE_conseq [OF assms(2) [OF Cons.prems]]) (rule Cons.IH)
qed simp

lemma ahead_output:
  assumes "ahead s c" "\<forall>H. finite H \<longrightarrow> set (order H) = H \<and> distinct (order H)"
  shows "totE (ahead s) (oc_update_connector_output order ko c)"
  unfolding oc_update_connector_output_def totE_simps
  by (rule totE_conseq [OF totE_foldE [where P = "ahead s"]])
    (use assms in \<open>auto intro!: totE_foldE ahead_sent ahead_received\<close>)

section \<open>The steps of the scheduler\<close>

lemma ahead_match:
  assumes "ahead s c"
  shows "okE (\<lambda>(res, c'). ahead s c') (oc_get_num_new_matched_tokens r n c)"
proof -
  have k1: "ahead s (c\<lparr>oc_manager := ofm_touch hs (oc_manager c)\<rparr>)" for hs
    using assms by (rule ahead_touch) simp_all
  have k2: "ahead s (c\<lparr>oc_manager := snd (ofm_lookup hs1 (ofm_touch hs (oc_manager c)))\<rparr>)" for hs hs1
    using k1 [of hs] by (rule ahead_lookup [where hs = hs1]) simp_all
  show ?thesis
    by (auto simp: oc_get_num_new_matched_tokens_def Let_def split_beta k1 k2 intro!: okEI)
qed

section \<open>Loading what was found\<close>

definition sizes_ok :: "off_connector \<Rightarrow> bool" where
  "sizes_ok c \<longleftrightarrow> 1 \<le> oc_gpu_block_size c \<and> 1 \<le> oc_block_size_factor c \<and>
     oc_offloaded_block_size c = oc_gpu_block_size c * oc_block_size_factor c"

lemma sizes_pos: "sizes_ok c \<Longrightarrow> 1 \<le> oc_offloaded_block_size c"
proof -
  assume c: "sizes_ok c"
  then have "1 * 1 \<le> oc_gpu_block_size c * oc_block_size_factor c" unfolding sizes_ok_def by (intro mult_mono) auto
  then show ?thesis using c by (simp add: sizes_ok_def)
qed

text \<open>With prefix caching no block is loaded for two requests at the same time.\<close>

definition loads_once :: "off_connector \<Rightarrow> bool" where
  "loads_once c \<longleftrightarrow> (\<forall>B. oc_blocks_being_loaded c = Some B \<longrightarrow> owned_once (oc_reqs_being_loaded c) B)"

definition found_hashes :: "off_connector \<Rightarrow> request \<Rightarrow> int \<Rightarrow> int \<Rightarrow> bytes list" where
  "found_hashes c r start e =
     drop (nat start) (take (nat e) (off_hashes (oc_block_size_factor c) r))"

lemma om_lookup_takeWhile:
  "om_lookup hs m = int (length (takeWhile (\<lambda>h. case om_get m h of None \<Rightarrow> False | Some b \<Rightarrow> is_ready b) hs))"
  by (induction hs) (auto split: option.splits)

text \<open>What an answer with tokens to load says.\<close>

lemma match_found:
  assumes c: "sizes_ok c" and n: "0 \<le> n" and m: "oc_get_num_new_matched_tokens r n c = Inr ((Some k, b), c')" and b: "b"
  defines "obs \<equiv> oc_offloaded_block_size c"
  obtains e where "0 < e" "k = obs * e - n" "obs \<le> k" "e \<le> int (length (off_hashes (oc_block_size_factor c) r))"
    "\<forall>h \<in> set (found_hashes c r (n div obs) e). \<exists>b. om_get (backing (oc_manager c')) h = Some b \<and> is_ready b"
    "\<forall>B. oc_blocks_being_loaded c = Some B \<longrightarrow> set (found_hashes c r (n div obs) e) \<inter> B = {}"
    "\<exists>m'. c' = c\<lparr>oc_manager := m'\<rparr>"
proof -
  let ?f = "oc_block_size_factor c" and ?start = "n div obs"
  let ?hs = "off_hashes ?f r"
  have f: "1 \<le> ?f" and obs: "1 \<le> obs" using c sizes_pos [OF c] by (simp_all add: sizes_ok_def obs_def)
  have start: "0 \<le> ?start" using n obs by (simp add: pos_imp_zdiv_nonneg_iff)
  let ?m1 = "ofm_touch ?hs (oc_manager c)"
  let ?m2 = "snd (ofm_lookup (drop (nat ?start) ?hs) ?m1)"
  define found where "found = om_lookup (drop (nat ?start) ?hs) (backing ?m1)"
  have all: "oc_get_block_hashes ?f r 0 None = Inr ?hs" "oc_get_block_hashes ?f r ?start None = Inr (drop (nat ?start) ?hs)"
    using get_block_hashes_all [OF f, of 0 r] get_block_hashes_all [OF f start, of r] by simp_all
  have res: "found \<noteq> 0" "k = obs * (?start + found) - n" "obs \<le> k" "c' = c\<lparr>oc_manager := ?m2\<rparr>"
    and seen: "\<forall>B. oc_blocks_being_loaded c = Some B \<longrightarrow> B \<noteq> {} \<longrightarrow>
      (\<forall>hs2. oc_get_block_hashes ?f r ?start (Some (?start + found)) = Inr hs2 \<longrightarrow> set hs2 \<inter> B = {})"
    using m b all unfolding oc_get_num_new_matched_tokens_def Let_def obs_def [symmetric]
    by (auto simp: split_beta found_def split: if_splits)
  let ?rdy = "\<lambda>h. case om_get (backing ?m1) h of None \<Rightarrow> False | Some b \<Rightarrow> is_ready b"
  have found: "found = int (length (takeWhile ?rdy (drop (nat ?start) ?hs)))"
    unfolding found_def by (rule om_lookup_takeWhile)
  define e where "e = ?start + found"
  have "0 \<le> found" unfolding found by simp
  then have e: "0 < e" using res(1) start by (simp add: e_def)
  have "length (takeWhile ?rdy (drop (nat ?start) ?hs)) \<le> length (drop (nat ?start) ?hs)" by (rule length_takeWhile_le)
  moreover have "length (takeWhile ?rdy (drop (nat ?start) ?hs)) \<noteq> 0" using res(1) found by simp
  ultimately have le: "e \<le> int (length ?hs)" using start unfolding e_def found length_drop by linarith
  have tw: "found_hashes c r ?start e = takeWhile ?rdy (drop (nat ?start) ?hs)"
  proof -
    have "nat e = nat ?start + length (takeWhile ?rdy (drop (nat ?start) ?hs))" using start found by (simp add: e_def nat_add_distrib)
    then show ?thesis unfolding found_hashes_def by (simp add: drop_take takeWhile_eq_take [symmetric] flip: takeWhile_eq_take)
  qed
  have "\<forall>h \<in> set (found_hashes c r ?start e). \<exists>b. om_get (backing (oc_manager c')) h = Some b \<and> is_ready b"
    unfolding tw res(4) by (auto dest!: set_takeWhileD split: option.splits)
  moreover have "\<forall>B. oc_blocks_being_loaded c = Some B \<longrightarrow> set (found_hashes c r ?start e) \<inter> B = {}"
    using seen get_block_hashes_upto [OF f start e, of r] unfolding found_hashes_def e_def by auto
  ultimately show thesis using that [of e] e res le by (auto simp: e_def)
qed

lemma alloc_eq:
  assumes c: "sizes_ok c" and g: "blocks = g # gs" and k: "0 < k"
    and m: "m = int (length (filter (\<lambda>b. hash_of p b \<noteq> None) g))" "k = (int (length g) - m) * oc_gpu_block_size c"
    and e: "m * oc_gpu_block_size c + k = oc_offloaded_block_size c * e" "e \<le> int (length (off_hashes (oc_block_size_factor c) r))"
  defines "q \<equiv> request_id r"
  defines "hs \<equiv> found_hashes c r (m * oc_gpu_block_size c div oc_offloaded_block_size c) e"
  defines "mine \<equiv> getd {} q (oc_reqs_being_loaded c) \<union> set hs"
  shows "oc_update_state_after_alloc r p blocks k c =
    bindE (ofm_prepare_load hs (oc_manager c)) (\<lambda>(src, m').
      Inr (c\<lparr>oc_requests := insert q (oc_requests c), oc_request_block_ids := (oc_request_block_ids c)(q \<mapsto> []),
             oc_manager := m',
             oc_reqs_to_load := dict_set q (CPULoadStoreSpec src,
                GPULoadStoreSpec (map (\<lambda>b. block_id (blk p b)) (drop (nat m) g)) [int (length g) - m] (Some [m]))
                (oc_reqs_to_load c),
             oc_reqs_being_loaded := (oc_reqs_being_loaded c)(q \<mapsto> mine),
             oc_next_stored_block_idx := (oc_next_stored_block_idx c)(q \<mapsto> e),
             oc_blocks_being_loaded := map_option (\<lambda>B. B \<union> mine) (oc_blocks_being_loaded c)\<rparr>))"
proof -
  let ?f = "oc_block_size_factor c" and ?obs = "oc_offloaded_block_size c" and ?gbs = "oc_gpu_block_size c"
  have f: "1 \<le> ?f" "1 \<le> ?gbs" and obs: "1 \<le> ?obs" using c sizes_pos [OF c] by (simp_all add: sizes_ok_def)
  have m0: "0 \<le> m" "m \<le> int (length g)" by (simp_all add: m(1))
  have mg: "0 \<le> m * ?gbs" using m0 f by simp
  then have "0 < ?obs * e" using e(1) k by linarith
  then have e0: "0 < e" using obs by (simp add: zero_less_mult_iff)
  have start: "0 \<le> m * ?gbs div ?obs" using mg obs by (simp add: pos_imp_zdiv_nonneg_iff)
  have full: "(m * ?gbs + k) mod ?obs = 0" "(m * ?gbs + k) div ?obs = e" unfolding e(1) using obs by simp_all
  have len: "e \<le> int (length (block_hashes r)) div ?f" using e(2) e0 by (simp split: if_splits)
  have from_m: "py_from (map (\<lambda>b. block_id (blk p b)) g) m = map (\<lambda>b. block_id (blk p b)) (drop (nat m) g)"
    using m0 by (simp add: py_from_nonneg drop_map)
  have dst: "gpu_load_store_spec (map (\<lambda>b. block_id (blk p b)) (drop (nat m) g)) [int (length g) - m] (Some [m]) =
      Inr (GPULoadStoreSpec (map (\<lambda>b. block_id (blk p b)) (drop (nat m) g)) [int (length g) - m] (Some [m]))"
    using m0 by (simp add: gpu_load_store_spec_def)
  have hs: "oc_get_block_hashes ?f r (m * ?gbs div ?obs) (Some e) = Inr hs"
    using get_block_hashes_upto [OF f(1) start e0, of r] by (simp add: hs_def found_hashes_def)
  have get0: "py_get blocks 0 = Inr g" by (simp add: g py_get_def)
  have "k \<noteq> 0" using k by simp
  then show ?thesis
    unfolding oc_update_state_after_alloc_def Let_def get0 bindE_simps length_map m(1) [symmetric]
    using len by (simp add: full hs from_m dst q_def mine_def m(2) [symmetric] del: fun_upd_apply)
qed

text \<open>The connector takes the tokens it announced: no assertion fails, the load begins, and no block is loaded
  twice.\<close>

lemma alloc_after_match:
  assumes a: "ahead s c" and c: "sizes_ok c" and once: "loads_once c"
    and m: "oc_get_num_new_matched_tokens r n c = Inr ((Some k, True), c1)" "0 \<le> n"
    and r: "distinct (block_hashes r)" "getd {} (request_id r) (oc_reqs_being_loaded c) = {}"
    and bound: "num_loads c + length (block_hashes r) < 2 ^ 31"
    and g: "blocks = g # gs" "n = int (length (filter (\<lambda>b. hash_of p b \<noteq> None) g)) * oc_gpu_block_size c"
      "n + k = int (length g) * oc_gpu_block_size c"
  shows "totE (\<lambda>c2. ahead s c2 \<and> loads_once c2) (oc_update_state_after_alloc r p blocks k c1)"
proof -
  let ?f = "oc_block_size_factor c" and ?obs = "oc_offloaded_block_size c" and ?gbs = "oc_gpu_block_size c"
  let ?m = "int (length (filter (\<lambda>b. hash_of p b \<noteq> None) g))" and ?q = "request_id r"
  have a1: "ahead s c1" using okED [OF ahead_match [OF a] m(1)] by simp
  obtain e where e: "0 < e" "k = ?obs * e - n" "?obs \<le> k" "e \<le> int (length (off_hashes ?f r))"
    and ready: "\<forall>h \<in> set (found_hashes c r (n div ?obs) e). \<exists>b. om_get (backing (oc_manager c1)) h = Some b \<and> is_ready b"
    and new: "\<forall>B. oc_blocks_being_loaded c = Some B \<longrightarrow> set (found_hashes c r (n div ?obs) e) \<inter> B = {}"
    and c1: "\<exists>m'. c1 = c\<lparr>oc_manager := m'\<rparr>"
    using match_found [OF c m(2,1) TrueI] by blast
  have c1_eq: "sizes_ok c1" "oc_gpu_block_size c1 = ?gbs" "oc_offloaded_block_size c1 = ?obs" "oc_block_size_factor c1 = ?f"
    "oc_reqs_being_loaded c1 = oc_reqs_being_loaded c" "oc_blocks_being_loaded c1 = oc_blocks_being_loaded c"
    "found_hashes c1 = found_hashes c" "num_loads c1 = num_loads c"
    using c1 c by (auto simp: sizes_ok_def found_hashes_def fun_eq_iff num_loads_def)
  define hs where "hs = found_hashes c r (n div ?obs) e"
  have k: "0 < k" using e(3) sizes_pos [OF c] by simp
  have k2: "k = (int (length g) - ?m) * oc_gpu_block_size c1" "?m * oc_gpu_block_size c1 + k = oc_offloaded_block_size c1 * e"
    "e \<le> int (length (off_hashes (oc_block_size_factor c1) r))"
    using g(2,3) e(2,4) by (simp_all add: c1_eq algebra_simps)
  note A = alloc_eq [OF c1_eq(1) g(1) k refl k2, unfolded c1_eq(2,3,5,6,7) g(2) [symmetric], folded hs_def]
  have "length (off_hashes ?f r) \<le> length (block_hashes r)"
  proof -
    have "int (length (block_hashes r)) div ?f \<le> int (length (block_hashes r))"
      using c zdiv_mono2 [of "int (length (block_hashes r))" 1 ?f] by (simp add: sizes_ok_def)
    then show ?thesis by simp
  qed
  then have len: "length hs \<le> length (block_hashes r)" by (simp add: hs_def found_hashes_def)
  have d: "distinct hs" using distinct_off_hashes [OF r(1), of ?f] c by (simp add: hs_def found_hashes_def sizes_ok_def)
  have n1: "num_loads c1 + length hs < 2 ^ 31" using bound len c1_eq(8) by simp
  obtain t where t: "off_step\<^sup>*\<^sup>* s t" "sys_inv t" "off_rel c1 t" using a1 by (rule aheadE)
  have tm: "os_manager t = backing (oc_manager c1)" using t(3) by (simp add: off_rel_def)
  have "size (os_loads t) = size (image_mset fst (os_loads t))" by simp
  also have "\<dots> = num_loads c1" using t(3) by (simp only: off_rel_def num_loads_def)
  finally have "size (os_loads t) + length hs < 2 ^ 31" using n1 by simp
  then have "\<exists>x. om_prepare_load hs (os_manager t) = Inr x"
    using load_total [OF t(2), of hs "[]"] ready by (simp add: om_prepare_load_def tm hs_def)
  then have "\<not> isl (ofm_prepare_load hs (oc_manager c1))" by (auto simp: isl_manager_calls tm)
  then obtain src m' where pl: "ofm_prepare_load hs (oc_manager c1) = Inr (src, m')"
    by (cases "ofm_prepare_load hs (oc_manager c1)") auto
  have free: "getd {} ?q (oc_reqs_being_loaded c1) = {}" using r(2) by (simp add: c1_eq)
  note L = okED [OF ahead_load [OF a1 d free n1] pl, unfolded split_conv, rule_format]
  show ?thesis unfolding A pl bindE_simps split_conv totE_simps
  proof (intro conjI L)
    show "loads_once (c1\<lparr>oc_requests := insert ?q (oc_requests c1), oc_request_block_ids := (oc_request_block_ids c1)(?q \<mapsto> []),
             oc_manager := m',
             oc_reqs_to_load := dict_set ?q (CPULoadStoreSpec src,
                GPULoadStoreSpec (map (\<lambda>b. block_id (blk p b)) (drop (nat ?m) g)) [int (length g) - ?m] (Some [?m]))
                (oc_reqs_to_load c1),
             oc_reqs_being_loaded := (oc_reqs_being_loaded c)(?q \<mapsto> getd {} ?q (oc_reqs_being_loaded c) \<union> set hs),
             oc_next_stored_block_idx := (oc_next_stored_block_idx c1)(?q \<mapsto> e),
             oc_blocks_being_loaded := map_option (\<lambda>B. B \<union> (getd {} ?q (oc_reqs_being_loaded c) \<union> set hs))
               (oc_blocks_being_loaded c)\<rparr>)"
      using once new owned_once_add [of "oc_reqs_being_loaded c" _ "set hs" ?q] r(2)
      by (auto simp: loads_once_def hs_def Int_commute)
  qed (simp_all add: c1_eq)
qed

section \<open>Building the metadata\<close>

text \<open>What an operation that starts no load leaves as it is.\<close>

definition same_loads :: "off_connector \<Rightarrow> off_connector \<Rightarrow> bool" where
  "same_loads c c' \<longleftrightarrow> oc_gpu_block_size c' = oc_gpu_block_size c \<and> oc_offloaded_block_size c' = oc_offloaded_block_size c \<and>
     oc_block_size_factor c' = oc_block_size_factor c \<and> oc_reqs_being_loaded c' = oc_reqs_being_loaded c \<and>
     oc_blocks_being_loaded c' = oc_blocks_being_loaded c"

lemma same_loads_trans: "same_loads c d \<Longrightarrow> same_loads d e \<Longrightarrow> same_loads c e"
  by (simp add: same_loads_def)

lemma same_loads_refl [simp]: "same_loads c c"
  by (simp add: same_loads_def)

lemma same_loadsD: "same_loads c c' \<Longrightarrow> sizes_ok c \<Longrightarrow> sizes_ok c'" "same_loads c c' \<Longrightarrow> loads_once c \<Longrightarrow> loads_once c'"
  by (simp_all add: same_loads_def sizes_ok_def loads_once_def)

text \<open>The state while metadata are built.\<close>

definition building :: "offload_sys \<Rightarrow> off_connector \<Rightarrow> off_connector \<Rightarrow> bool" where
  "building s c d \<longleftrightarrow> ahead s d \<and> same_loads c d"

lemma store_new_building:
  assumes b: "building s c0 c" and c: "sizes_ok c0" and r: "distinct (block_hashes r)" and e: "start < e"
  shows "okE (\<lambda>(t, c'). building s c0 c') (store_new_blocks r q ids start e c)"
proof -
  let ?f = "oc_block_size_factor c"
  have f: "1 \<le> ?f" and a: "ahead s c" and same: "same_loads c0 c"
    using b c same_loadsD(1) by (auto simp: building_def sizes_ok_def)
  show ?thesis
  proof (cases "start < 0")
    case True
    have "?f * start \<le> ?f * (- 1)" using True f by (intro mult_left_mono) auto
    then have "oc_get_block_hashes ?f r start (Some e) = Inl ValueError"
      by (simp add: oc_get_block_hashes_def islice_step_def)
    then show ?thesis by (simp add: store_new_blocks_def Let_def)
  next
    case False
    define hs where "hs = drop (nat start) (take (nat e) (off_hashes ?f r))"
    have hs: "oc_get_block_hashes ?f r start (Some e) = Inr hs"
      using get_block_hashes_upto [OF f, of start e r] False e by (simp add: hs_def)
    have "distinct hs" using distinct_off_hashes [OF r f] by (simp add: hs_def)
    note store = ahead_store [OF a this, of q]
    show ?thesis
    proof (rule okEI, clarify)
      fix t c'
      assume x: "store_new_blocks r q ids start e c = Inr (t, c')"
      then obtain out m where m: "ofm_prepare_store hs (oc_manager c) = Inr (out, m)"
        by (auto simp: store_new_blocks_def Let_def hs)
      note S = okED [OF store m, unfolded split_conv, rule_format]
      let ?S = "oc_reqs_being_stored c"
      have same': "same_loads c c'"
        using x m by (auto simp: store_new_blocks_def Let_def hs same_loads_def split: option.splits if_splits)
      consider "out = None" "oc_manager c' = m" "oc_reqs_being_stored c' = ?S"
        | y where "out = Some y" "ps_to_store y = []" "oc_manager c' = m" "oc_reqs_being_stored c' = ?S"
        | y all_hs where "out = Some y" "oc_manager c' = ofm_touch all_hs m"
            "oc_reqs_being_stored c' = ?S(q \<mapsto> getd {} q ?S \<union> set (ps_to_store y))"
        using x m by (auto simp: store_new_blocks_def Let_def hs split: option.splits if_splits)
      then have "ahead s c'"
      proof cases
        case 1
        then show ?thesis using S [of c'] same' by (simp add: same_loads_def)
      next
        case (2 y)
        then show ?thesis using S [of c'] same' by (simp add: same_loads_def)
      next
        case (3 y all_hs)
        let ?d = "c\<lparr>oc_manager := m, oc_reqs_being_stored := ?S(q \<mapsto> getd {} q ?S \<union> set (ps_to_store y))\<rparr>"
        have "ahead s ?d" using S [of ?d] 3 by simp
        then show ?thesis by (rule ahead_touch [where hs = all_hs]) (use 3 same' in \<open>simp_all add: same_loads_def\<close>)
      qed
      then show "building s c0 c'" using same_loads_trans [OF same same'] by (simp add: building_def)
    qed
  qed
qed

lemma store_one_building:
  assumes b: "building s c0 (snd acc)" and c: "sizes_ok c0" and r: "\<forall>q r. objs q = Some r \<longrightarrow> distinct (block_hashes r)"
  shows "okE (\<lambda>acc'. building s c0 (snd acc')) (store_one objs out x acc)"
proof -
  obtain q groups pre d c1 where e: "x = (q, groups, pre)" "acc = (d, c1)" by (metis prod_cases3 surj_pair)
  have "okE (\<lambda>(ids, c2). same_loads c1 c2 \<and> oc_manager c2 = oc_manager c1 \<and>
      oc_reqs_being_stored c2 = oc_reqs_being_stored c1) (note_block_ids q groups pre c1)"
    unfolding note_block_ids_def Let_def by (simp add: same_loads_def split: option.split list.split)
  then have note_ids: "okE (\<lambda>(ids, c2). building s c0 c2) (note_block_ids q groups pre c1)"
  proof (rule okE_conseq, clarify)
    fix ids c2
    assume c2: "same_loads c1 c2" "oc_manager c2 = oc_manager c1" "oc_reqs_being_stored c2 = oc_reqs_being_stored c1"
    have "ahead s c1" using b by (simp add: building_def e)
    then have "ahead s c2" by (rule ahead_frame) (use c2 in \<open>simp_all add: same_loads_def\<close>)
    then show "building s c0 c2" using b same_loads_trans [OF _ c2(1), of c0] by (simp add: building_def e)
  qed
  show ?thesis
    unfolding store_one_def e split_conv okE_simps
  proof (rule okE_conseq [OF note_ids], clarify)
    fix ids c2
    assume b2: "building s c0 c2"
    have new: "okE (\<lambda>x. okE (\<lambda>acc'. building s c0 (snd acc'))
        (case x of (t, c3) \<Rightarrow> Inr (case t of None \<Rightarrow> d | Some spec \<Rightarrow> dict_set q spec d, c3)))
      (store_new_blocks r q ids start nb c2)" if "distinct (block_hashes r)" "start < nb" for r start nb
      by (rule okE_conseq [OF store_new_building [OF b2 c that]]) auto
    show "okE (\<lambda>acc'. building s c0 (snd acc'))
      (case (if q \<in> oc_requests c2 then objs q else None) of
         None \<Rightarrow> Inl KeyError
       | Some r \<Rightarrow>
          (case map_of (so_num_scheduled_tokens out) q of
             None \<Rightarrow> Inl KeyError
           | Some new_tokens \<Rightarrow>
               let total = min (num_computed_tokens r + new_tokens) (num_tokens r);
                   nblocks = total div oc_offloaded_block_size c2;
                   start = getd 0 q (oc_next_stored_block_idx c2)
               in if nblocks - start \<le> 0 then Inr (d, c2)
                  else bindE (store_new_blocks r q ids start nblocks c2) (\<lambda>(t, c3).
                       Inr (case t of None \<Rightarrow> d | Some spec \<Rightarrow> dict_set q spec d, c3))))"
      using b2 r by (auto simp: Let_def intro!: new split: option.splits if_splits)
  qed
qed

lemma totE_okE: "totE P m \<Longrightarrow> okE P m"
  by (auto simp: totE_def okE_def)

lemma flush_building:
  assumes "building s c0 c" "\<forall>H. finite H \<longrightarrow> set (order H) = H"
  shows "totE (building s c0) (flush_one order q c)"
proof -
  have "totE (ahead s) (flush_one order q c)" using assms ahead_flush by (simp add: building_def)
  moreover have "okE (same_loads c) (flush_one order q c)"
    by (auto simp: flush_one_def Let_def same_loads_def okE_def)
  moreover have "same_loads c0 d" if "same_loads c d" for d
    using assms(1) that same_loads_trans by (auto simp: building_def)
  ultimately show ?thesis unfolding building_def totE_def okE_def by blast
qed

lemma ahead_build:
  assumes a: "ahead s c" and c: "sizes_ok c" and r: "\<forall>q r. objs q = Some r \<longrightarrow> distinct (block_hashes r)"
    and o: "\<forall>H. finite H \<longrightarrow> set (order H) = H"
  shows "okE (\<lambda>(md, c'). building s c c') (oc_build_connector_meta order req_order objs out c)"
proof -
  have start: "building s c (snd (([] :: (req_id \<times> transfer_spec) list), c))" using a by (simp add: building_def)
  have stores: "okE (\<lambda>acc. building s c (snd acc)) (get_reqs_to_store objs out c)"
    unfolding get_reqs_to_store_def by (rule okE_foldE [where P = "\<lambda>acc. building s c (snd acc)", OF start]) (rule store_one_building [OF _ c r])
  have flushed: "okE (building s c) (foldE (flush_one order) (req_order (so_preempted_req_ids out)) (c1\<lparr>oc_reqs_to_load := []\<rparr>))"
    if "building s c c1" for c1
  proof -
    have "building s c (c1\<lparr>oc_reqs_to_load := []\<rparr>)"
      using that ahead_frame [of s c1 "c1\<lparr>oc_reqs_to_load := []\<rparr>"] by (simp add: building_def same_loads_def)
    then show ?thesis
      by (intro totE_okE) (rule totE_foldE [where P = "building s c", OF _ flush_building [OF _ o]])
  qed
  show ?thesis
    unfolding oc_build_connector_meta_def Let_def okE_simps
  proof (rule okE_conseq [OF stores], goal_cases)
    case (1 x)
    then show ?case using flushed [of "snd x"] by (cases x) (auto intro: okE_conseq)
  qed
qed

section \<open>Reachable connectors\<close>

text \<open>The steps of the connector as the scheduler takes them: it asks for every waiting request; a request is
  admitted without tokens to load, or with the tokens just announced for it, when its blocks have been
  allocated: the cached ones first, one block per GPU block size of tokens. A request whose load is under
  way is not asked for again. The hashes of a request differ from each other.\<close>

inductive oc_step ::
  "(bytes set \<Rightarrow> bytes list) \<Rightarrow> (req_id set \<Rightarrow> req_id list) \<Rightarrow> off_connector \<Rightarrow> off_connector \<Rightarrow> bool"
  for order req_order where
  Ask: "oc_get_num_new_matched_tokens r n c = Inr (answer, c') \<Longrightarrow> oc_step order req_order c c'"
| Admit: "oc_update_state_after_alloc r p blocks 0 c = Inr c' \<Longrightarrow> oc_step order req_order c c'"
| Load: "\<lbrakk>oc_get_num_new_matched_tokens r n c = Inr ((Some k, True), c1); 0 \<le> n; distinct (block_hashes r);
     getd {} (request_id r) (oc_reqs_being_loaded c) = {}; num_loads c + length (block_hashes r) < 2 ^ 31;
     blocks = g # gs; n = int (length (filter (\<lambda>b. hash_of p b \<noteq> None) g)) * oc_gpu_block_size c;
     n + k = int (length g) * oc_gpu_block_size c; oc_update_state_after_alloc r p blocks k c1 = Inr c'\<rbrakk> \<Longrightarrow>
     oc_step order req_order c c'"
| Build: "\<lbrakk>\<forall>q r. objs q = Some r \<longrightarrow> distinct (block_hashes r);
     oc_build_connector_meta order req_order objs out c = Inr (md, c')\<rbrakk> \<Longrightarrow> oc_step order req_order c c'"
| Report: "oc_update_connector_output order ko c = Inr c' \<Longrightarrow> oc_step order req_order c c'"
| Finish: "oc_request_finished r c = (delay, c') \<Longrightarrow> oc_step order req_order c c'"
| Take: "oc_take_events c = (evs, c') \<Longrightarrow> oc_step order req_order c c'"

inductive oc_reach ::
  "(bytes set \<Rightarrow> bytes list) \<Rightarrow> (req_id set \<Rightarrow> req_id list) \<Rightarrow> int \<Rightarrow> off_connector \<Rightarrow> bool"
  for order req_order n where
  oc_start: "\<lbrakk>get_offload_manager sizes f n policy events threshold max_tracker = Inr m; 1 \<le> hd sizes; 1 \<le> f;
     init_off_connector sizes f m caching = Inr c\<rbrakk> \<Longrightarrow> oc_reach order req_order n c"
| oc_next: "oc_reach order req_order n c \<Longrightarrow> oc_step order req_order c c' \<Longrightarrow> oc_reach order req_order n c'"

definition lists_sets :: "(bytes set \<Rightarrow> bytes list) \<Rightarrow> bool" where
  "lists_sets order \<longleftrightarrow> (\<forall>H. finite H \<longrightarrow> set (order H) = H \<and> distinct (order H))"

definition good :: "offload_sys \<Rightarrow> off_connector \<Rightarrow> bool" where
  "good s c \<longleftrightarrow> ahead s c \<and> sizes_ok c \<and> loads_once c"

lemma good_buildingI: "good s c \<Longrightarrow> building s c c' \<Longrightarrow> good s c'"
  using same_loadsD [of c c'] by (simp add: good_def building_def)

lemma match_same_loads: "okE (\<lambda>(res, c'). same_loads c c') (oc_get_num_new_matched_tokens r n c)"
  by (auto simp: oc_get_num_new_matched_tokens_def Let_def split_beta same_loads_def intro!: okEI)

lemma received_loads_once:
  assumes "loads_once c"
  shows "okE loads_once (received_one order q c)"
proof (rule okEI)
  fix c'
  let ?H = "getd {} q (oc_reqs_being_loaded c)"
  assume "received_one order q c = Inr c'"
  then have c': "oc_reqs_being_loaded c' = (oc_reqs_being_loaded c)(q := None)"
    "oc_blocks_being_loaded c' = map_option (\<lambda>B. B - ?H) (oc_blocks_being_loaded c)"
    by (auto simp: received_one_def Let_def option.map_ident split: if_splits)
  have "owned_once ((oc_reqs_being_loaded c)(q := None)) (B - ?H)" if "oc_blocks_being_loaded c = Some B" for B
    by (rule owned_once_drop) (use assms that in \<open>auto simp: loads_once_def\<close>)
  then show "loads_once c'" using c' by (auto simp: loads_once_def)
qed

lemma output_same:
  assumes "sizes_ok c" "loads_once c"
  shows "okE (\<lambda>c'. sizes_ok c' \<and> loads_once c') (oc_update_connector_output order ko c)"
proof -
  let ?P = "\<lambda>c. sizes_ok c \<and> loads_once c"
  have sent: "okE ?P (sent_one order q c)" if "?P c" for q c
    using that by (auto simp: sent_one_def Let_def sizes_ok_def loads_once_def okE_def)
  have recvd: "okE ?P (received_one order q c)" if c: "?P c" for q c
  proof -
    have "okE sizes_ok (received_one order q c)"
      using c by (auto simp: received_one_def Let_def sizes_ok_def okE_def)
    then show ?thesis using received_loads_once [of c order q] c by (simp add: okE_def)
  qed
  show ?thesis unfolding oc_update_connector_output_def okE_simps
    by (rule okE_conseq [OF okE_foldE [where P = ?P]]) (use assms sent recvd in \<open>auto intro!: okE_foldE [where P = ?P]\<close>)
qed

lemma oc_step_good:
  assumes "oc_step order req_order c c'" "good s c" "lists_sets order"
  shows "good s c'"
  using assms(1)
proof (cases rule: oc_step.cases)
  case (Ask r n answer)
  have "ahead s c'" using okED [OF ahead_match Ask] assms(2) by (cases answer) (simp add: good_def)
  moreover have "same_loads c c'" using okED [OF match_same_loads Ask] by (cases answer) simp
  ultimately show ?thesis using assms(2) good_buildingI by (simp add: building_def)
next
  case (Admit r p blocks)
  then have c': "c' = c\<lparr>oc_requests := insert (request_id r) (oc_requests c),
      oc_request_block_ids := (oc_request_block_ids c)(request_id r \<mapsto> [])\<rparr>"
    by (simp add: oc_update_state_after_alloc_def Let_def)
  have "ahead s c'" by (rule ahead_frame [of s c]) (use assms(2) in \<open>simp_all add: c' good_def\<close>)
  then show ?thesis using assms(2) good_buildingI by (simp add: building_def same_loads_def c')
next
  case (Load r n k c1 blocks g gs p)
  have g: "ahead s c" "sizes_ok c" "loads_once c" using assms(2) by (simp_all add: good_def)
  have "ahead s c' \<and> loads_once c'"
    using alloc_after_match [OF g Load(1-8)] Load(9) by (simp add: totE_def)
  moreover have "same_loads c c1" using okED [OF match_same_loads Load(1)] by simp
  moreover have "okE (\<lambda>d. oc_gpu_block_size d = oc_gpu_block_size c1 \<and> oc_offloaded_block_size d = oc_offloaded_block_size c1 \<and>
      oc_block_size_factor d = oc_block_size_factor c1) (oc_update_state_after_alloc r p blocks k c1)"
    by (auto simp: oc_update_state_after_alloc_def Let_def okE_def)
  ultimately show ?thesis using g(2) Load(9) by (auto simp: good_def sizes_ok_def same_loads_def okE_def)
next
  case (Build objs out md)
  have "building s c c'"
    using okED [OF ahead_build [of s c objs order req_order out] Build(2)] assms(2,3) Build(1)
    by (simp add: good_def lists_sets_def)
  then show ?thesis using assms(2) good_buildingI by blast
next
  case (Report ko)
  have "ahead s c'" using ahead_output [of s c order ko] assms(2,3) Report by (simp add: good_def lists_sets_def totE_def)
  then show ?thesis using okED [OF output_same Report] assms(2) by (simp add: good_def)
next
  case (Finish r delay)
  then have c': "oc_manager c' = oc_manager c" "oc_reqs_being_stored c' = oc_reqs_being_stored c" "same_loads c c'"
    by (auto simp: oc_request_finished_def Let_def same_loads_def)
  have "ahead s c'" by (rule ahead_frame [of s c]) (use c' assms(2) in \<open>simp_all add: good_def same_loads_def\<close>)
  then show ?thesis using assms(2) c' good_buildingI by (simp add: building_def)
next
  case (Take evs)
  obtain es m where m: "ofm_take_events (oc_manager c) = (es, m)" by (cases "ofm_take_events (oc_manager c)")
  then have c': "c' = c\<lparr>oc_manager := m\<rparr>" using Take by (simp add: oc_take_events_def)
  obtain t where t: "off_step\<^sup>*\<^sup>* s t" "sys_inv t" "off_rel c t" using assms(2) aheadE unfolding good_def by blast
  have "om_take_events (os_manager t) = (es, backing m)"
    using t(3) m backing_take_events [of "oc_manager c"] by (simp add: off_rel_def)
  then have "off_step t (t\<lparr>os_manager := backing m\<rparr>)" by (rule Events)
  moreover have "off_rel c' (t\<lparr>os_manager := backing m\<rparr>)" using t(3) by (simp add: off_rel_def c')
  ultimately have "ahead s c'" using ahead_step t by blast
  then show ?thesis using assms(2) good_buildingI by (simp add: building_def same_loads_def c')
qed

lemma manager_backing:
  "get_offload_manager sizes f n policy events threshold max_tracker = Inr m \<Longrightarrow>
   \<exists>bs. init_cpu_manager bs n policy events = Inr (backing m)"
  by (auto simp: get_offload_manager_def init_reuse_manager_def split: if_splits)

lemma oc_reach_good:
  assumes "oc_reach order req_order n c" "0 \<le> n" "lists_sets order"
  shows "\<exists>s. off_reach n s \<and> good s c"
  using assms(1)
proof (induction rule: oc_reach.induct)
  case (oc_start sizes f policy events threshold max_tracker m caching c)
  obtain bs where m: "init_cpu_manager bs n policy events = Inr (backing m)" using manager_backing [OF oc_start(1)] by blast
  define s where "s = \<lparr>os_manager = backing m, os_loads = {#}, os_stores = Map.empty\<rparr>"
  have s: "off_reach n s" unfolding s_def by (rule off_start [OF m])
  have c: "oc_manager c = m" "oc_reqs_being_stored c = Map.empty" "oc_reqs_being_loaded c = Map.empty"
    "oc_blocks_being_loaded c = None \<or> oc_blocks_being_loaded c = Some {}" "sizes_ok c"
    using oc_start(2-4) by (auto simp: init_off_connector_def sizes_ok_def)
  have "owned_once Map.empty {}" by (simp add: owned_once_def getd_def)
  then have "off_rel c s" "loads_once c"
    using c by (auto simp: off_rel_def s_def all_loads_def getd_def loads_once_def)
  moreover have "sys_inv s" using off_reach_inv [OF s assms(2)] by simp
  ultimately have "good s c" using c(5) by (auto simp: good_def ahead_def)
  then show ?case using s by blast
next
  case (oc_next c c')
  then show ?case using oc_step_good assms(3) by blast
qed

lemma off_steps_reach: "off_step\<^sup>*\<^sup>* s t \<Longrightarrow> off_reach n s \<Longrightarrow> off_reach n t"
  by (induction rule: rtranclp_induct) (auto intro: off_next)

section \<open>Properties\<close>

text \<open>C7 (connector_refines_transfers): Every reachable connector agrees with a reachable state of the transfer
  system: the writes under way are the blocks its requests are storing, the reads under way are the blocks
  of its loads; and every further step of the connector is a sequence of transfers to a state that agrees
  again. So all that is proved of the transfers holds under the connector, with either policy and with or
  without the filter of reused blocks.\<close>

theorem connector_refines_transfers:
  assumes "oc_reach order req_order n c" "0 \<le> n" "lists_sets order"
  shows "\<exists>s. off_reach n s \<and> off_rel c s \<and>
    (\<forall>c'. oc_step order req_order c c' \<longrightarrow> (\<exists>s'. off_step\<^sup>*\<^sup>* s s' \<and> off_rel c' s'))"
proof -
  obtain s where s: "off_reach n s" "good s c" using oc_reach_good [OF assms] by blast
  obtain t where t: "off_step\<^sup>*\<^sup>* s t" "sys_inv t" "off_rel c t" using s(2) aheadE unfolding good_def by blast
  have "good t c" using s(2) t by (auto simp: good_def ahead_def)
  then have "ahead t c'" if "oc_step order req_order c c'" for c' using oc_step_good [OF that _ assms(3)] by (simp add: good_def)
  then show ?thesis using off_steps_reach [OF t(1) s(1)] t(3) by (meson aheadE)
qed

text \<open>C8 (connector_transfers_safe): In every reachable connector a block that a request loads is in the
  buffer, ready and referenced, a block that a request stores is in the buffer and not ready, no block is
  stored by two requests, and with prefix caching none is loaded for two.\<close>

theorem connector_transfers_safe:
  assumes "oc_reach order req_order n c" "0 \<le> n" "lists_sets order"
  shows "(h \<in> getd {} q (oc_reqs_being_loaded c) \<longrightarrow>
      (\<exists>b. om_get (backing (oc_manager c)) h = Some b \<and> is_ready b \<and> bs_ref_cnt b \<noteq> 0)) \<and>
    (h \<in> getd {} q (oc_reqs_being_stored c) \<longrightarrow>
      (\<exists>b. om_get (backing (oc_manager c)) h = Some b \<and> \<not> is_ready b)) \<and>
    (h \<in> getd {} q (oc_reqs_being_stored c) \<longrightarrow> h \<in> getd {} q' (oc_reqs_being_stored c) \<longrightarrow> q = q') \<and>
    (oc_blocks_being_loaded c \<noteq> None \<longrightarrow>
      h \<in> getd {} q (oc_reqs_being_loaded c) \<longrightarrow> h \<in> getd {} q' (oc_reqs_being_loaded c) \<longrightarrow> q = q')"
proof -
  obtain s where s: "off_reach n s" "good s c" using oc_reach_good [OF assms] by blast
  obtain t where t: "off_step\<^sup>*\<^sup>* s t" "sys_inv t" "off_rel c t" using s(2) aheadE unfolding good_def by blast
  let ?L = "oc_reqs_being_loaded c" and ?S = "oc_reqs_being_stored c"
  have r: "os_manager t = backing (oc_manager c)" "owned_once ?S (dom (os_stores t))" "finite (dom ?L)"
    "\<forall>q. finite (getd {} q ?L)" "image_mset fst (os_loads t) = all_loads ?L"
    using t(3) by (simp_all add: off_rel_def)
  have e: "entry_ok h (om_get (backing (oc_manager c)) h) (os_loads t) (os_stores t h)"
    using t(2) r(1) unfolding sys_inv_def by metis
  have load: "\<exists>b. om_get (backing (oc_manager c)) h = Some b \<and> is_ready b \<and> bs_ref_cnt b \<noteq> 0" if h: "h \<in> getd {} q ?L"
  proof -
    have "h \<in># all_loads ?L" using all_loads_del [OF r(3), of q] h r(4) by simp
    then obtain i where i: "(h, i) \<in># os_loads t" unfolding r(5) [symmetric] by auto
    then obtain b where b: "om_get (backing (oc_manager c)) h = Some b" "os_stores t h = None"
      using e by (auto simp: entry_ok_def split: option.splits)
    then have "sint (bs_ref_cnt b) = int (count (os_loads t) (h, i))" using e i by (auto simp: entry_ok_def)
    then have "bs_ref_cnt b \<noteq> 0" using i by (metis count_eq_zero_iff of_nat_eq_0_iff sint_0)
    then show ?thesis using b e entry_ready [of h b] by simp
  qed
  have store: "\<exists>b. om_get (backing (oc_manager c)) h = Some b \<and> \<not> is_ready b" if "h \<in> getd {} q ?S"
  proof -
    have "h \<in> dom (os_stores t)" using owned_onceD(2) [OF r(2) that] .
    then show ?thesis using e entry_ready [of h] by (auto simp: entry_ok_def split: option.splits)
  qed
  have "q = q'" if "oc_blocks_being_loaded c \<noteq> None" "h \<in> getd {} q ?L" "h \<in> getd {} q' ?L"
    using that s(2) owned_onceD(4) by (auto simp: good_def loads_once_def)
  then show ?thesis using load store owned_onceD(4) [OF r(2)] by blast
qed

text \<open>C10 (connector_never_fails): In every reachable connector the tokens it has just announced can be loaded
  into the blocks that were allocated for them, and no report of the worker raises an error, whatever
  requests it names.\<close>

theorem connector_never_fails:
  assumes "oc_reach order req_order n c" "0 \<le> n" "lists_sets order"
  shows "\<not> isl (oc_update_connector_output order ko c) \<and>
    (oc_get_num_new_matched_tokens r m c = Inr ((Some k, True), c1) \<longrightarrow> 0 \<le> m \<longrightarrow> distinct (block_hashes r) \<longrightarrow>
     getd {} (request_id r) (oc_reqs_being_loaded c) = {} \<longrightarrow> num_loads c + length (block_hashes r) < 2 ^ 31 \<longrightarrow>
     m = int (length (filter (\<lambda>b. hash_of p b \<noteq> None) g)) * oc_gpu_block_size c \<longrightarrow>
     m + k = int (length g) * oc_gpu_block_size c \<longrightarrow>
     \<not> isl (oc_update_state_after_alloc r p (g # gs) k c1))"
proof -
  obtain s where s: "off_reach n s" "good s c" using oc_reach_good [OF assms] by blast
  then have g: "ahead s c" "sizes_ok c" "loads_once c" by (simp_all add: good_def)
  have "\<not> isl (oc_update_connector_output order ko c)"
    using ahead_output [OF g(1), of order ko] assms(3) by (auto simp: lists_sets_def totE_def)
  moreover have "\<not> isl (oc_update_state_after_alloc r p (g # gs) k c1)"
    if m: "oc_get_num_new_matched_tokens r m c = Inr ((Some k, True), c1)" "0 \<le> m" "distinct (block_hashes r)"
      "getd {} (request_id r) (oc_reqs_being_loaded c) = {}" "num_loads c + length (block_hashes r) < 2 ^ 31"
      "m = int (length (filter (\<lambda>b. hash_of p b \<noteq> None) g)) * oc_gpu_block_size c"
      "m + k = int (length g) * oc_gpu_block_size c"
  proof -
    obtain x where "oc_update_state_after_alloc r p (g # gs) k c1 = Inr x"
      using alloc_after_match [OF g m(1-5) refl m(6,7)] unfolding totE_def by blast
    then show ?thesis by simp
  qed
  ultimately show ?thesis by blast
qed

section \<open>A small run\<close>

text \<open>GPU blocks of two tokens, offloaded blocks of four, a buffer of four blocks. The request \<^verbatim>\<open>a\<close> of eight
  tokens stores two blocks and is done; the request \<^verbatim>\<open>b\<close> with the same tokens loads them.\<close>

definition eight_tokens :: "req_id \<Rightarrow> request" where
  "eight_tokens q = (plain_request q [1, 2, 3, 4, 5, 6, 7, 8] 4)\<lparr>block_hashes := [[1], [2], [3], [4]]\<rparr>"

definition unused_pool :: block_pool where
  "unused_pool = \<lparr>num_gpu_blocks = 8, enable_caching = True, hash_block_size = 2,
     free_block_queue = \<lparr>store = (\<lambda>b. new_block (case b of Blk i \<Rightarrow> int i | _ \<Rightarrow> -1)), num_free_blocks = 7\<rparr>,
     cached_block_hash_to_block = Map.empty, null_block = Blk 0, enable_kv_cache_events = False,
     kv_event_queue = [], metrics = None, env_int_hashes = False, env_digest = (\<lambda>_. [])\<rparr>"

definition first_step :: scheduler_output where
  "first_step = \<lparr>so_scheduled_new_reqs = [new_request_data_of (eight_tokens ''a'') [[3, 1, 2, 5]] None],
     so_scheduled_cached_reqs = empty_cached_request_data, so_num_scheduled_tokens = [(''a'', 8)],
     so_total_num_scheduled_tokens = 8, so_scheduled_spec_decode_tokens = Map.empty,
     so_scheduled_encoder_inputs = Map.empty, so_num_common_prefix_blocks = [0], so_preempted_req_ids = {},
     so_finished_req_ids = {}, so_free_encoder_mm_hashes = [], so_new_block_ids_to_zero = None,
     so_has_structured_output_requests = False, so_pending_structured_output_tokens = False,
     so_num_invalid_spec_tokens = Map.empty\<rparr>"

definition sent_a :: kv_connector_output where
  "sent_a = \<lparr>ko_invalid_block_ids = [], ko_finished_recving = [], ko_finished_sending = [''a'']\<rparr>"

definition sample_connector :: "(off_connector list \<times> connector_meta \<times> int option \<times> bool) res" where
  "sample_connector =
     bindE (get_offload_manager [2] 2 4 ''lru'' False 0 8) (\<lambda>m.
     bindE (init_off_connector [2] 2 m True) (\<lambda>c0.
     bindE (oc_update_state_after_alloc (eight_tokens ''a'') unused_pool [] 0 c0) (\<lambda>c1.
     bindE (oc_build_connector_meta sorted_list_of_set (\<lambda>_. []) [''a'' \<mapsto> eight_tokens ''a''] first_step c1) (\<lambda>(md, c2).
     bindE (oc_update_connector_output sorted_list_of_set sent_a c2) (\<lambda>c3.
     bindE (oc_get_num_new_matched_tokens (eight_tokens ''b'') 0 c3) (\<lambda>(answer, c4).
     bindE (oc_update_state_after_alloc (eight_tokens ''b'') unused_pool [[Blk 4, Blk 6, Blk 3, Blk 7]] 8 c4) (\<lambda>c5.
       Inr ([c0, c1, c2, c3, c4, c5], md, answer))))))))"

lemma sample_connector_result:
  "(case sample_connector of
      Inr (cs, md, answer) \<Rightarrow>
        Inr (answer, cm_reqs_to_store md, map (getd {} ''a'' \<circ> oc_reqs_being_stored) cs,
             map (getd {} ''b'' \<circ> oc_reqs_being_loaded) cs, oc_reqs_to_load (last cs))
    | Inl e \<Rightarrow> Inl e) =
   Inr ((Some 8, True), [(''a'', GPULoadStoreSpec [3, 1, 2, 5] [4] None, CPULoadStoreSpec [0, 1])],
        [{}, {}, {[2], [4]}, {}, {}, {}], [{}, {}, {}, {}, {}, {[2], [4]}],
        [(''b'', CPULoadStoreSpec [0, 1], GPULoadStoreSpec [4, 6, 3, 7] [4] (Some [0]))])"
  by code_simp

lemma sample_lists: "lists_sets sorted_list_of_set"
  by (simp add: lists_sets_def)

lemma output_keeps_loads:
  "ko_finished_recving ko = [] \<Longrightarrow>
   okE (\<lambda>c'. oc_reqs_being_loaded c' = oc_reqs_being_loaded c) (oc_update_connector_output order ko c)"
proof -
  let ?P = "\<lambda>c'. oc_reqs_being_loaded c' = oc_reqs_being_loaded c"
  assume no: "ko_finished_recving ko = []"
  have "okE ?P (sent_one order q d)" if "?P d" for q d
    using that by (auto simp: sent_one_def Let_def okE_def)
  then have "okE ?P (foldE (sent_one order) (ko_finished_sending ko) c)" by (intro okE_foldE) simp_all
  then show ?thesis unfolding oc_update_connector_output_def no okE_simps by (rule okE_conseq) simp
qed

lemma sample_connector_reach:
  obtains c0 c1 c2 c3 c4 c5 md where "sample_connector = Inr ([c0, c1, c2, c3, c4, c5], md, Some 8, True)"
    "oc_reach sorted_list_of_set (\<lambda>_. []) 4 c1" "oc_block_size_factor c1 = 2" "oc_block_size_factor c3 = 2"
    "oc_update_state_after_alloc (eight_tokens ''b'') unused_pool [[Blk 4, Blk 6, Blk 3, Blk 7]] 8 c4 = Inr c5"
    "oc_reach sorted_list_of_set (\<lambda>_. []) 4 c3" "oc_reach sorted_list_of_set (\<lambda>_. []) 4 c5"
    "oc_get_num_new_matched_tokens (eight_tokens ''b'') 0 c3 = Inr ((Some 8, True), c4)"
    "getd {} ''b'' (oc_reqs_being_loaded c3) = {}" "num_loads c3 = 0" "oc_gpu_block_size c3 = 2"
    "getd {} ''b'' (oc_reqs_being_loaded c5) = {[2], [4]}"
proof -
  let ?R = "oc_reach sorted_list_of_set (\<lambda>_. []) 4"
  obtain m c0 c1 md c2 c3 c4 c5 where
    c: "get_offload_manager [2] 2 4 ''lru'' False 0 8 = Inr m" "init_off_connector [2] 2 m True = Inr c0"
      "oc_update_state_after_alloc (eight_tokens ''a'') unused_pool [] 0 c0 = Inr c1"
      "oc_build_connector_meta sorted_list_of_set (\<lambda>_. []) [''a'' \<mapsto> eight_tokens ''a''] first_step c1 = Inr (md, c2)"
      "oc_update_connector_output sorted_list_of_set sent_a c2 = Inr c3"
      "oc_get_num_new_matched_tokens (eight_tokens ''b'') 0 c3 = Inr ((Some 8, True), c4)"
      "oc_update_state_after_alloc (eight_tokens ''b'') unused_pool [[Blk 4, Blk 6, Blk 3, Blk 7]] 8 c4 = Inr c5"
    and v: "getd {} ''b'' (oc_reqs_being_loaded c3) = {}" "getd {} ''b'' (oc_reqs_being_loaded c5) = {[2], [4]}"
    using sample_connector_result by (auto simp: sample_connector_def bindE_def split: sum.splits prod.splits)
  have r0: "?R c0" by (rule oc_start [OF c(1) _ _ c(2)]) simp_all
  then have r1: "?R c1" by (rule oc_next) (rule Admit [OF c(3)])
  then have r2: "?R c2" by (rule oc_next) (rule Build [OF _ c(4)], auto simp: eight_tokens_def split: if_splits)
  then have r3: "?R c3" by (rule oc_next) (rule Report [OF c(5)])
  have c1: "c1 = c0\<lparr>oc_requests := insert (request_id (eight_tokens ''a'')) (oc_requests c0),
      oc_request_block_ids := (oc_request_block_ids c0)(request_id (eight_tokens ''a'') \<mapsto> [])\<rparr>"
    using c(3) by (simp add: oc_update_state_after_alloc_def Let_def)
  have run: "sample_connector = Inr ([c0, c1, c2, c3, c4, c5], md, Some 8, True)"
    unfolding sample_connector_def by (simp add: c)
  have c0: "oc_reqs_being_loaded c0 = Map.empty" "oc_gpu_block_size c0 = 2" "oc_block_size_factor c0 = 2"
    using c(2) by (simp_all add: init_off_connector_def) auto
  obtain s where g: "good s c1" using oc_reach_good [OF r1 _ sample_lists] by auto
  have "same_loads c1 c2"
    using okED [OF ahead_build [of s c1 "[''a'' \<mapsto> eight_tokens ''a'']"] c(4)] g
    by (auto simp: good_def building_def eight_tokens_def split: if_splits)
  moreover have "oc_reqs_being_loaded c3 = oc_reqs_being_loaded c2"
    using okED [OF output_keeps_loads c(5)] by (simp add: sent_a_def)
  ultimately have n: "num_loads c3 = 0" using c0(1) c1 by (simp add: same_loads_def num_loads_def all_loads_def)
  let ?sizes = "\<lambda>c'. oc_gpu_block_size c' = oc_gpu_block_size c2 \<and> oc_block_size_factor c' = oc_block_size_factor c2"
  have "okE ?sizes (oc_update_connector_output sorted_list_of_set sent_a c2)"
    unfolding oc_update_connector_output_def okE_simps
    by (rule okE_conseq [OF okE_foldE [where P = ?sizes]])
      (auto simp: sent_a_def sent_one_def Let_def okE_def)
  then have gbs: "oc_gpu_block_size c3 = 2" "oc_block_size_factor c3 = 2" "oc_block_size_factor c1 = 2"
    using c(5) \<open>same_loads c1 c2\<close> c0(2,3) c1 by (simp_all add: okE_def same_loads_def)
  have "?R c5"
    by (rule oc_next [OF r3], rule Load [OF c(6) _ _ _ _ refl _ _ c(7)])
      (simp_all add: eight_tokens_def plain_request_def v(1) [unfolded eight_tokens_def] n gbs unused_pool_def blk_def new_block_def)
  then show thesis using that [OF run r1 gbs(3,2) c(7) r3 _ c(6) v(1) n gbs(1) v(2)] by blast
qed

theorem connector_refines_transfers_witness:
  "\<exists>c s. oc_reach sorted_list_of_set (\<lambda>_. []) 4 c \<and> getd {} ''b'' (oc_reqs_being_loaded c) = {[2], [4]} \<and>
     off_reach 4 s \<and> off_rel c s"
proof -
  obtain c where c: "oc_reach sorted_list_of_set (\<lambda>_. []) 4 c" "getd {} ''b'' (oc_reqs_being_loaded c) = {[2], [4]}"
    by (rule sample_connector_reach)
  show ?thesis using connector_refines_transfers [OF c(1) _ sample_lists] c by auto
qed

theorem connector_transfers_safe_witness:
  "\<exists>c b. oc_reach sorted_list_of_set (\<lambda>_. []) 4 c \<and> [2] \<in> getd {} ''b'' (oc_reqs_being_loaded c) \<and>
     om_get (backing (oc_manager c)) [2] = Some b \<and> is_ready b \<and> bs_ref_cnt b \<noteq> 0"
proof -
  obtain c where c: "oc_reach sorted_list_of_set (\<lambda>_. []) 4 c" "getd {} ''b'' (oc_reqs_being_loaded c) = {[2], [4]}"
    by (rule sample_connector_reach)
  show ?thesis using connector_transfers_safe [OF c(1) _ sample_lists, of "[2]" "''b''"] c by auto
qed

theorem connector_never_fails_witness:
  "\<exists>c c1. oc_reach sorted_list_of_set (\<lambda>_. []) 4 c \<and>
     oc_get_num_new_matched_tokens (eight_tokens ''b'') 0 c = Inr ((Some 8, True), c1) \<and>
     \<not> isl (oc_update_state_after_alloc (eight_tokens ''b'') unused_pool [[Blk 4, Blk 6, Blk 3, Blk 7]] 8 c1)"
proof -
  obtain c3 c4 where c: "oc_reach sorted_list_of_set (\<lambda>_. []) 4 c3"
    "oc_get_num_new_matched_tokens (eight_tokens ''b'') 0 c3 = Inr ((Some 8, True), c4)"
    "getd {} ''b'' (oc_reqs_being_loaded c3) = {}" "num_loads c3 = 0" "oc_gpu_block_size c3 = 2"
    by (rule sample_connector_reach)
  have "\<not> isl (oc_update_state_after_alloc (eight_tokens ''b'') unused_pool [[Blk 4, Blk 6, Blk 3, Blk 7]] 8 c4)"
    using connector_never_fails [OF c(1) _ sample_lists, of _ "eight_tokens ''b''" 0 8 c4 unused_pool "[Blk 4, Blk 6, Blk 3, Blk 7]" "[]"] c
    by (simp add: eight_tokens_def plain_request_def unused_pool_def blk_def new_block_def)
  then show ?thesis using c by blast
qed

end
