(* ===== verification/Connector_Worker.thy ===== *)
theory Connector_Worker
  imports Connector
begin

text \<open>
  The offloading connector in the worker process: the expansion of block ids to pairs of blocks, the two
  handlers (one per direction) with their queues of submitted transfers, and the bookkeeping of jobs. The
  device executes the transfers of a handler in the order of submission; whether the event at the end of a
  transfer has occurred is the argument \<^verbatim>\<open>query\<close>. Tensors, streams and the registration of
  the caches are left out, and so are the statistics of the transfers.
\<close>

section \<open>The pairs of blocks of a transfer\<close>

text \<open>The code writes into an array that the caller made as long as the result.\<close>

fun expand_blocks :: "int \<Rightarrow> int \<Rightarrow> int list \<Rightarrow> int list" where
  "expand_blocks f skip [] = []"
| "expand_blocks f skip (b # bs) = map (\<lambda>k. b * f + k) [skip..f - 1] @ expand_blocks f 0 bs"

definition expand_block_ids :: "int list \<Rightarrow> int \<Rightarrow> int \<Rightarrow> int list res" where
  "expand_block_ids ids f skip = assertE (skip < f) (Inr (expand_blocks f skip ids))"

definition transfer_pairs :: "int \<Rightarrow> int \<Rightarrow> transfer_spec \<Rightarrow> (int \<times> int) list res" where
  "transfer_pairs src_factor dst_factor spec =
     (let src = ls_block_ids (fst spec); dst = ls_block_ids (snd spec);
          src_count = int (length src) * src_factor;
          dst_count = int (length dst) * dst_factor;
          skip = (- int (length dst)) mod src_factor
      in assertE (dst_count = src_count - skip)
           (bindE (expand_block_ids src src_factor skip) (\<lambda>a.
            bindE (expand_block_ids dst dst_factor 0) (\<lambda>b. Inr (zip a b)))))"

record transfer_handler =
  th_src_factor :: int
  th_dst_factor :: int
  th_transfers :: "(int \<times> (int \<times> int) list) list"

definition init_handler :: "int \<Rightarrow> bool \<Rightarrow> transfer_handler" where
  "init_handler f gpu_to_cpu =
     \<lparr>th_src_factor = (if gpu_to_cpu then 1 else f), th_dst_factor = (if gpu_to_cpu then f else 1), th_transfers = []\<rparr>"

definition th_transfer_async :: "int \<Rightarrow> transfer_spec \<Rightarrow> transfer_handler \<Rightarrow> transfer_handler res" where
  "th_transfer_async job spec h =
     bindE (transfer_pairs (th_src_factor h) (th_dst_factor h) spec) (\<lambda>pairs.
       Inr (h\<lparr>th_transfers := th_transfers h @ [(job, pairs)]\<rparr>))"

definition th_get_finished :: "(int \<Rightarrow> bool) \<Rightarrow> transfer_handler \<Rightarrow> int list \<times> transfer_handler" where
  "th_get_finished query h =
     (map fst (takeWhile (\<lambda>t. query (fst t)) (th_transfers h)),
      h\<lparr>th_transfers := dropWhile (\<lambda>t. query (fst t)) (th_transfers h)\<rparr>)"

section \<open>The connector in the worker\<close>

record off_worker =
  ow_job_counter :: int
  ow_jobs :: "int \<rightharpoonup> req_id \<times> bool"
  ow_load_job :: "req_id \<rightharpoonup> int"
  ow_store_jobs :: "req_id \<rightharpoonup> int set"
  ow_unsubmitted :: "(int \<times> transfer_spec) list"
  ow_waiting :: "req_id set"
  ow_gpu_to_cpu :: transfer_handler
  ow_cpu_to_gpu :: transfer_handler

definition init_off_worker :: "int \<Rightarrow> off_worker" where
  "init_off_worker f =
     \<lparr>ow_job_counter = 0, ow_jobs = Map.empty, ow_load_job = Map.empty, ow_store_jobs = Map.empty,
      ow_unsubmitted = [], ow_waiting = {}, ow_gpu_to_cpu = init_handler f True, ow_cpu_to_gpu = init_handler f False\<rparr>"

definition generate_job_id :: "off_worker \<Rightarrow> int \<times> off_worker" where
  "generate_job_id w = (ow_job_counter w, w\<lparr>ow_job_counter := ow_job_counter w + 1\<rparr>)"

text \<open>An exception of the handler is caught and reported as a failure to submit.\<close>

definition ow_transfer_async :: "int \<Rightarrow> transfer_spec \<Rightarrow> off_worker \<Rightarrow> (bool \<times> off_worker) res" where
  "ow_transfer_async job spec w =
     (case spec of
        (GPULoadStoreSpec _ _ _, CPULoadStoreSpec _) \<Rightarrow>
          Inr (case th_transfer_async job spec (ow_gpu_to_cpu w) of
                 Inl _ \<Rightarrow> (False, w) | Inr h \<Rightarrow> (True, w\<lparr>ow_gpu_to_cpu := h\<rparr>))
      | (CPULoadStoreSpec _, GPULoadStoreSpec _ _ _) \<Rightarrow>
          Inr (case th_transfer_async job spec (ow_cpu_to_gpu w) of
                 Inl _ \<Rightarrow> (False, w) | Inr h \<Rightarrow> (True, w\<lparr>ow_cpu_to_gpu := h\<rparr>))
      | _ \<Rightarrow> Inl AssertionError)"

definition submit_one :: "int \<times> transfer_spec \<Rightarrow> off_worker \<Rightarrow> off_worker res" where
  "submit_one js w = bindE (ow_transfer_async (fst js) (snd js) w) (\<lambda>(success, w'). assertE success (Inr w'))"

definition submit_stores :: "off_worker \<Rightarrow> off_worker res" where
  "submit_stores w = bindE (foldE submit_one (ow_unsubmitted w) w) (\<lambda>w'. Inr (w'\<lparr>ow_unsubmitted := []\<rparr>))"

text \<open>The result is the set of jobs whose end the call waits for.\<close>

definition ow_handle_preemptions :: "connector_meta \<Rightarrow> off_worker \<Rightarrow> (int set \<times> off_worker) res" where
  "ow_handle_preemptions md w =
     bindE (submit_stores w) (\<lambda>w'. Inr (\<Union>rid \<in> cm_reqs_to_flush md. getd {} rid (ow_store_jobs w'), w'))"

definition load_one :: "req_id \<times> transfer_spec \<Rightarrow> off_worker \<Rightarrow> off_worker res" where
  "load_one e w =
     (let rid = fst e; (job, w1) = generate_job_id w; w2 = w1\<lparr>ow_jobs := (ow_jobs w1)(job \<mapsto> (rid, False))\<rparr> in
      assertE (ow_load_job w2 rid = None)
        (submit_one (job, snd e) (w2\<lparr>ow_load_job := (ow_load_job w2)(rid \<mapsto> job)\<rparr>)))"

definition ow_start_kv_transfers :: "connector_meta \<Rightarrow> off_worker \<Rightarrow> off_worker res" where
  "ow_start_kv_transfers md w = bindE (submit_stores w) (foldE load_one (cm_reqs_to_load md))"

definition defer_store :: "req_id \<times> transfer_spec \<Rightarrow> off_worker \<Rightarrow> off_worker" where
  "defer_store e w =
     (let rid = fst e; (job, w1) = generate_job_id w in
      w1\<lparr>ow_jobs := (ow_jobs w1)(job \<mapsto> (rid, True)),
         ow_store_jobs := (ow_store_jobs w1)(rid \<mapsto> insert job (getd {} rid (ow_store_jobs w1))),
         ow_unsubmitted := ow_unsubmitted w1 @ [(job, snd e)]\<rparr>)"

definition ow_prepare_store_kv :: "connector_meta \<Rightarrow> off_worker \<Rightarrow> off_worker" where
  "ow_prepare_store_kv md w = fold defer_store (cm_reqs_to_store md) w"

type_synonym finished_reqs = "req_id set \<times> req_id set"

definition finish_job :: "int \<Rightarrow> finished_reqs \<times> off_worker \<Rightarrow> (finished_reqs \<times> off_worker) res" where
  "finish_job job acc =
     (case acc of ((sent, recvd), w) \<Rightarrow>
      case ow_jobs w job of
        None \<Rightarrow> Inl KeyError
      | Some (rid, is_store) \<Rightarrow>
          let w1 = w\<lparr>ow_jobs := (ow_jobs w)(job := None)\<rparr> in
          if is_store then
            let jobs = getd {} rid (ow_store_jobs w1) in
            if job \<notin> jobs then Inl KeyError
            else
              let w2 = w1\<lparr>ow_store_jobs := (ow_store_jobs w1)(rid \<mapsto> jobs - {job})\<rparr> in
              if jobs - {job} \<noteq> {} then Inr ((sent, recvd), w2)
              else if rid \<in> ow_waiting w2
              then Inr ((insert rid sent, recvd),
                        w2\<lparr>ow_waiting := ow_waiting w2 - {rid}, ow_store_jobs := (ow_store_jobs w2)(rid := None)\<rparr>)
              else Inr ((sent, recvd), w2)
          else
            (case ow_load_job w1 rid of
               None \<Rightarrow> Inl KeyError
             | Some j \<Rightarrow>
                 assertE (job = j) (Inr ((sent, insert rid recvd), w1\<lparr>ow_load_job := (ow_load_job w1)(rid := None)\<rparr>))))"

definition note_finished_req :: "req_id \<Rightarrow> finished_reqs \<times> off_worker \<Rightarrow> finished_reqs \<times> off_worker" where
  "note_finished_req rid acc =
     (case acc of ((sent, recvd), w) \<Rightarrow>
      case ow_store_jobs w rid of
        None \<Rightarrow> acc
      | Some jobs \<Rightarrow>
          if jobs \<noteq> {} then ((sent, recvd), w\<lparr>ow_waiting := insert rid (ow_waiting w)\<rparr>)
          else ((insert rid sent, recvd), w\<lparr>ow_store_jobs := (ow_store_jobs w)(rid := None)\<rparr>))"

text \<open>The two handlers are kept in a set: \<^verbatim>\<open>stores_first\<close> says which of them is asked first.\<close>

definition ow_results :: "bool \<Rightarrow> (int \<Rightarrow> bool) \<Rightarrow> off_worker \<Rightarrow> int list \<times> off_worker" where
  "ow_results stores_first query w =
     (let (a, h1) = th_get_finished query (ow_gpu_to_cpu w); (b, h2) = th_get_finished query (ow_cpu_to_gpu w)
      in (if stores_first then a @ b else b @ a, w\<lparr>ow_gpu_to_cpu := h1, ow_cpu_to_gpu := h2\<rparr>))"

definition ow_get_finished ::
  "bool \<Rightarrow> (int \<Rightarrow> bool) \<Rightarrow> req_id list \<Rightarrow> off_worker \<Rightarrow> (finished_reqs \<times> off_worker) res" where
  "ow_get_finished stores_first query finished w =
     (let (jobs, w1) = ow_results stores_first query w in
      bindE (foldE finish_job jobs (({}, {}), w1)) (\<lambda>acc. Inr (fold note_finished_req finished acc)))"

text \<open>One step of the worker: \<^verbatim>\<open>handle_preemptions\<close> before the input batch is prepared, the loads before
  the model runs, then the stores and the report. When a draft model runs after the model, the stores are
  put off until after the report. A step without scheduled tokens has no stores.\<close>

definition worker_step ::
  "bool \<Rightarrow> bool \<Rightarrow> (int \<Rightarrow> bool) \<Rightarrow> connector_meta \<Rightarrow> req_id list \<Rightarrow> off_worker \<Rightarrow> (finished_reqs \<times> off_worker) res" where
  "worker_step defer_finalize stores_first query md finished w =
     bindE (ow_handle_preemptions md w) (\<lambda>(waited, w1).
     bindE (ow_start_kv_transfers md w1) (\<lambda>w2.
     let w3 = (if defer_finalize then w2 else ow_prepare_store_kv md w2) in
     bindE (ow_get_finished stores_first query finished w3) (\<lambda>(reported, w4).
       Inr (reported, if defer_finalize then ow_prepare_store_kv md w4 else w4))))"

end
