(* ===== verification/Connector_Copy.thy ===== *)
theory Connector_Copy
  imports Connector_Props Connector_Worker
begin

text \<open>
  What a store and a later load copy: the pairs of blocks that the handlers compute from the metadata of
  the connector. The content of a GPU block that was offloaded comes back in the block at the same
  position of the request that loads it.
\<close>

section \<open>Expanded blocks\<close>

lemma length_expand: "0 \<le> f \<Longrightarrow> length (expand_blocks f 0 ids) = length ids * nat f"
  by (induction ids) (simp_all add: nat_mult_distrib)

lemma nth_expand:
  "i < length ids \<Longrightarrow> 0 \<le> j \<Longrightarrow> j < f \<Longrightarrow> expand_blocks f 0 ids ! (i * nat f + nat j) = ids ! i * f + j"
proof (induction ids arbitrary: i)
  case (Cons b bs)
  show ?case
  proof (cases i)
    case 0
    then show ?thesis using Cons.prems by (simp add: nth_append nat_less_iff)
  next
    case (Suc i')
    have "expand_blocks f 0 (b # bs) ! (i * nat f + nat j) = expand_blocks f 0 bs ! (i' * nat f + nat j)"
      using Cons.prems by (simp add: Suc nth_append)
    then show ?thesis using Cons Suc by simp
  qed
qed simp

lemma expand_skip:
  assumes "0 \<le> skip" "skip \<le> f" "ids \<noteq> [] \<or> skip = 0"
  shows "expand_blocks f skip ids = drop (nat skip) (expand_blocks f 0 ids)"
proof (cases ids)
  case (Cons b bs)
  have "[skip..f - 1] = drop (nat skip) [0..f - 1]"
    using assms(1,2) by (intro nth_equalityI) auto
  then show ?thesis using assms by (simp add: Cons drop_map)
qed (use assms in simp)

lemma expand_one [simp]: "expand_blocks 1 0 ids = ids"
  by (induction ids) simp_all

lemma div_block: "b * f \<le> x \<Longrightarrow> x \<le> f - 1 + b * f \<Longrightarrow> x div f = (b :: int)"
  by (rule int_div_pos_eq [of x f b "x - b * f"]) (simp_all add: algebra_simps)

lemma div_expand: "x \<in> set (expand_blocks f 0 ids) \<Longrightarrow> x div f \<in> set ids"
  by (induction ids) (auto simp: div_block)

lemma distinct_expand: "1 \<le> f \<Longrightarrow> distinct ids \<Longrightarrow> distinct (expand_blocks f 0 ids)"
proof (induction ids)
  case (Cons b bs)
  have "x div f = b" if "x \<in> set (map (\<lambda>k. b * f + k) [0..f - 1])" for x using that by (auto simp: div_block)
  then have "set (map (\<lambda>k. b * f + k) [0..f - 1]) \<inter> set (expand_blocks f 0 bs) = {}"
    using div_expand [of _ f bs] Cons.prems(2) by (metis disjoint_iff distinct.simps(2))
  then show ?case using Cons by (simp add: distinct_map)
qed simp

text \<open>Copying by pairs from one memory to another.\<close>

definition copy_pairs :: "(int \<times> int) list \<Rightarrow> (int \<Rightarrow> 'a) \<Rightarrow> (int \<Rightarrow> 'a) \<Rightarrow> int \<Rightarrow> 'a" where
  "copy_pairs ps from_mem to_mem = fold (\<lambda>(a, b) m. m(b := from_mem a)) ps to_mem"

lemma copy_pairs_other: "x \<notin> snd ` set ps \<Longrightarrow> copy_pairs ps u v x = v x"
  unfolding copy_pairs_def by (induction ps arbitrary: v) auto

lemma copy_pairs_nth:
  "distinct (map snd ps) \<Longrightarrow> i < length ps \<Longrightarrow> copy_pairs ps u v (snd (ps ! i)) = u (fst (ps ! i))"
proof (induction ps arbitrary: i v)
  case (Cons p ps)
  obtain a b where p: "p = (a, b)" by (cases p)
  have step: "copy_pairs ((a, b) # ps) u v = copy_pairs ps u (v(b := u a))" by (simp add: copy_pairs_def)
  show ?case
  proof (cases i)
    case 0
    have "b \<notin> snd ` set ps" using Cons.prems(1) by (simp add: p)
    then show ?thesis using 0 by (simp add: step p copy_pairs_other)
  qed (use Cons in \<open>simp add: step p\<close>)
qed simp

section \<open>The blocks of a store\<close>

lemma mapE_get:
  assumes "0 \<le> a" "mapE (\<lambda>i. py_get xs (a + i)) [0..f - 1] = Inr ys"
  shows "ys = map (\<lambda>i. xs ! nat (a + i)) [0..f - 1]"
proof -
  have A: "list_all2 (\<lambda>i y. py_get xs (a + i) = Inr y) [0..f - 1] ys" using assms(2) by (simp add: mapE_eq_Inr)
  show ?thesis
  proof (rule nth_equalityI)
    show "length ys = length (map (\<lambda>i. xs ! nat (a + i)) [0..f - 1])" using list_all2_lengthD [OF A] by simp
    fix j assume j: "j < length ys"
    then have "py_get xs (a + int j) = Inr (ys ! j)" using list_all2_nthD2 [OF A j] list_all2_lengthD [OF A] by simp
    then show "ys ! j = map (\<lambda>i. xs ! nat (a + i)) [0..f - 1] ! j"
      using assms(1) j list_all2_lengthD [OF A] by (auto simp: py_get_def Let_def split: if_splits)
  qed
qed

text \<open>\<^verbatim>\<open>kept W idx hs\<close>: the positions of the wanted hashes.\<close>

fun kept :: "bytes set \<Rightarrow> int \<Rightarrow> bytes list \<Rightarrow> int list" where
  "kept W idx [] = []"
| "kept W idx (h # hs) = (if h \<in> W then idx # kept W (idx + 1) hs else kept W (idx + 1) hs)"

lemma length_kept: "length (kept W idx hs) = length (filter (\<lambda>h. h \<in> W) hs)"
  by (induction hs arbitrary: idx) auto

lemma nth_kept:
  "j < length (kept W idx hs) \<Longrightarrow> idx \<le> kept W idx hs ! j \<and> kept W idx hs ! j < idx + int (length hs) \<and>
     hs ! nat (kept W idx hs ! j - idx) = filter (\<lambda>h. h \<in> W) hs ! j"
proof (induction hs arbitrary: idx j)
  case (Cons h hs)
  have IH: "idx + 1 \<le> kept W (idx + 1) hs ! j \<and> kept W (idx + 1) hs ! j < idx + 1 + int (length hs) \<and>
      (h # hs) ! nat (kept W (idx + 1) hs ! j - idx) = filter (\<lambda>h. h \<in> W) hs ! j"
    if "j < length (kept W (idx + 1) hs)" for j
  proof -
    have I: "idx + 1 \<le> kept W (idx + 1) hs ! j" "kept W (idx + 1) hs ! j < idx + 1 + int (length hs)"
      "hs ! nat (kept W (idx + 1) hs ! j - (idx + 1)) = filter (\<lambda>h. h \<in> W) hs ! j"
      using Cons.IH [OF that] by simp_all
    have "nat (kept W (idx + 1) hs ! j - idx) = Suc (nat (kept W (idx + 1) hs ! j - (idx + 1)))" using I(1) by simp
    then show ?thesis using I by simp
  qed
  show ?case
  proof (cases "h \<in> W")
    case True
    show ?thesis
    proof (cases j)
      case (Suc j')
      then show ?thesis using IH [of j'] Cons.prems True by auto
    qed (use True in simp)
  qed (use IH [of j] Cons.prems in auto)
qed simp

lemma gather_src_eq:
  assumes "0 \<le> idx" "0 \<le> f" "gather_src f ids W idx hs = Inr xs"
  shows "xs = concat (map (\<lambda>k. map (\<lambda>i. ids ! nat (k * f + i)) [0..f - 1]) (kept W idx hs))"
  using assms
proof (induction hs arbitrary: idx xs)
  case (Cons h hs)
  show ?case
  proof (cases "h \<in> W")
    case True
    then obtain a b where a: "mapE (\<lambda>i. py_get ids (idx * f + i)) [0..f - 1] = Inr a"
      "gather_src f ids W (idx + 1) hs = Inr b" "xs = a @ b" using Cons.prems by auto
    then show ?thesis using mapE_get [OF _ a(1)] Cons.IH [OF _ _ a(2)] Cons.prems True by simp
  qed (use Cons in auto)
qed simp

lemma nth_concat_blocks:
  assumes "0 \<le> f" "k < length ks" "0 \<le> i" "i < f"
  shows "concat (map (\<lambda>k. map (g k) [0..f - 1]) ks) ! (k * nat f + nat i) = g (ks ! k) i"
  using assms(2)
proof (induction ks arbitrary: k)
  case (Cons x ks)
  then show ?case using assms(1,3,4) by (cases k) (simp_all add: nth_append nat_less_iff)
qed simp

lemma length_concat_blocks:
  "0 \<le> f \<Longrightarrow> length (concat (map (\<lambda>k. map (g k) [0..f - 1]) ks)) = length ks * nat f"
  by (induction ks) simp_all

lemma filter_kept: "(\<And>h. h \<in> set hs \<Longrightarrow> h \<in> W \<longleftrightarrow> P h) \<Longrightarrow> filter (\<lambda>h. h \<in> W) hs = filter P hs"
  by (rule filter_cong) simp_all

lemma eligible_filter: "\<exists>P. eligible m hs = filter P hs"
  by (cases m) (auto intro: exI [of _ "\<lambda>_. True"])

text \<open>After a store the slot of every hash to be stored holds, sub-block by sub-block, the GPU blocks of the
  hash; a slot of another hash is not touched.\<close>

lemma store_copies:
  assumes a: "ahead s c" and c: "sizes_ok c" and r: "distinct (block_hashes r)" and e: "0 \<le> start" "start < e"
    and st: "store_new_blocks r q ids start e c = Inr (Some spec, c1)"
  defines "f \<equiv> oc_block_size_factor c"
  shows "\<exists>ps. transfer_pairs 1 f spec = Inr ps \<and>
    (\<forall>k i h. h \<in> getd {} q (oc_reqs_being_stored c1) - getd {} q (oc_reqs_being_stored c) \<longrightarrow>
       h = off_hashes f r ! k \<longrightarrow> k < length (off_hashes f r) \<longrightarrow> 0 \<le> i \<longrightarrow> i < f \<longrightarrow>
       (\<exists>slot. om_slot (backing (oc_manager c1)) h = Some slot \<and>
         (\<forall>gpu cpu :: int \<Rightarrow> 'a. copy_pairs ps gpu cpu (slot * f + i) = gpu (ids ! nat (int k * f + i)))))"
proof -
  have f: "1 \<le> f" "0 \<le> f" using c by (simp_all add: sizes_ok_def f_def)
  define hs where "hs = drop (nat start) (take (nat e) (off_hashes f r))"
  have hs: "oc_get_block_hashes f r start (Some e) = Inr hs"
    using get_block_hashes_upto [OF f(1) e(1), of e r] e by (simp add: hs_def)
  have off: "distinct (off_hashes f r)" using distinct_off_hashes [OF r f(1)] .
  then have d: "distinct hs" by (simp add: hs_def)
  obtain x m all_hs src where m: "ofm_prepare_store hs (oc_manager c) = Inr (Some x, m)" "ps_to_store x \<noteq> []"
    and src: "gather_src f ids (set (ps_to_store x)) start hs = Inr src"
    and spec: "spec = (GPULoadStoreSpec src [int (length src)] None, CPULoadStoreSpec (ps_block_ids x))"
    and c1: "oc_manager c1 = ofm_touch all_hs m"
      "oc_reqs_being_stored c1 = (oc_reqs_being_stored c)(q \<mapsto> getd {} q (oc_reqs_being_stored c) \<union> set (ps_to_store x))"
    using st hs by (auto simp: store_new_blocks_def Let_def f_def [symmetric] gpu_load_store_spec_def
        split: option.splits if_splits)
  obtain t where t: "off_step\<^sup>*\<^sup>* s t" "sys_inv t" "off_rel c t" using a by (rule aheadE)
  have inv: "om_inv (backing (oc_manager c))" using t(2,3) by (simp add: sys_inv_def off_rel_def)
  have om: "om_prepare_store (eligible (oc_manager c) hs) (backing (oc_manager c)) = Inr (Some x, backing m)"
    using m(1) okE_prepare_store [of "\<lambda>(out, m'). om_prepare_store (eligible (oc_manager c) hs) (backing (oc_manager c)) = Inr (out, backing m')"
        hs "oc_manager c"] by (simp add: okE_def)
  have "store_effect (eligible (oc_manager c) hs) (backing (oc_manager c)) (Some x, backing m)"
    using prepare_store_effect [OF inv distinct_eligible [OF d, of "oc_manager c"]] om by (simp add: totE_def)
  then have eff: "om_inv (backing m)" "length (ps_block_ids x) = length (ps_to_store x)"
    "ps_to_store x = filter (\<lambda>h. om_get (backing (oc_manager c)) h = None) (eligible (oc_manager c) hs)"
    "om_get (backing m) = (\<lambda>h. if h \<in> set (ps_evicted x) then None else om_get (backing (oc_manager c)) h) ++
                           map_of (zip (ps_to_store x) (map new_block_status (ps_block_ids x)))"
    by (simp_all add: store_effect_def)
  obtain P where P: "eligible (oc_manager c) hs = filter P hs" using eligible_filter by blast
  let ?W = "set (ps_to_store x)" and ?slots = "ps_block_ids x"
  have kept_hs: "filter (\<lambda>h. h \<in> ?W) hs = ps_to_store x"
    using filter_kept [of hs ?W "\<lambda>h. P h \<and> om_get (backing (oc_manager c)) h = None"] unfolding eff(3) P
    by (simp add: conj_commute)
  have dW: "distinct (ps_to_store x)" using d unfolding eff(3) P by simp
  define ks where "ks = kept ?W start hs"
  have lk: "length ks = length ?slots" by (simp add: ks_def length_kept kept_hs eff(2))
  have src_eq: "src = concat (map (\<lambda>k. map (\<lambda>i. ids ! nat (k * f + i)) [0..f - 1]) ks)"
    unfolding ks_def using e(1) f(2) src by (rule gather_src_eq)
  have len: "length src = length ?slots * nat f" unfolding src_eq length_concat_blocks [OF f(2)] lk ..
  define ps where "ps = zip src (expand_blocks f 0 ?slots)"
  have tp: "transfer_pairs 1 f spec = Inr ps"
    using len f by (simp add: transfer_pairs_def spec expand_block_ids_def ps_def)
  have lps: "length ps = length ?slots * nat f" using len length_expand [OF f(2)] by (simp add: ps_def)
  have slot: "om_slot (backing (oc_manager c1)) (ps_to_store x ! j) = Some (?slots ! j)" if "j < length ?slots" for j
  proof -
    have "map_of (zip (ps_to_store x) (map new_block_status ?slots)) (ps_to_store x ! j) = Some (new_block_status (?slots ! j))"
      using that eff(2) dW by (simp add: map_of_zip_nth)
    then have g: "om_get (backing m) (ps_to_store x ! j) = Some (new_block_status (?slots ! j))" unfolding eff(4) by (simp add: map_add_def)
    have "om_get (om_touch all_hs (backing m)) = om_get (backing m)"
      using eff(1) pol.get_touch by (auto simp: om_inv_def om_get_def om_touch_def fun_eq_iff)
    then show ?thesis using g by (simp add: c1 om_slot_def new_block_status_def)
  qed
  have inj: "distinct ?slots"
  proof (unfold distinct_conv_nth, intro allI impI)
    fix i j assume ij: "i < length ?slots" "j < length ?slots" "i \<noteq> j"
    have "om_inv (backing (oc_manager c1))" using om_touch_inv [OF eff(1), of all_hs] by (simp add: c1)
    then have so: "slots_ok (om_slot (backing (oc_manager c1))) (om_free_list (backing (oc_manager c1))) (om_num_allocated (backing (oc_manager c1)))"
      by (simp add: om_inv_def)
    show "?slots ! i \<noteq> ?slots ! j"
    proof
      assume "?slots ! i = ?slots ! j"
      then have "ps_to_store x ! i = ps_to_store x ! j" using slots_inj [OF so slot [OF ij(1)]] slot [OF ij(2)] by simp
      then show False using dW ij eff(2) by (simp add: nth_eq_iff_index_eq)
    qed
  qed
  have snd_ps: "map snd ps = expand_blocks f 0 ?slots" using len length_expand [OF f(2)] by (simp add: ps_def)
  have dps: "distinct (map snd ps)" unfolding snd_ps by (rule distinct_expand [OF f(1) inj])
  have copy: "\<exists>slot. om_slot (backing (oc_manager c1)) h = Some slot \<and>
      (\<forall>gpu cpu :: int \<Rightarrow> 'a. copy_pairs ps gpu cpu (slot * f + i) = gpu (ids ! nat (int k * f + i)))"
    if h: "h \<in> getd {} q (oc_reqs_being_stored c1) - getd {} q (oc_reqs_being_stored c)" "h = off_hashes f r ! k"
      "k < length (off_hashes f r)" and i: "0 \<le> i" "i < f" for k i h
  proof -
    have "h \<in> ?W" using h(1) by (auto simp: c1)
    then obtain j where j: "j < length ?slots" "ps_to_store x ! j = h" using eff(2) by (auto simp: in_set_conv_nth)
    have jk: "j < length (kept ?W start hs)" using j(1) lk by (simp add: ks_def)
    have K: "start \<le> ks ! j" "ks ! j < start + int (length hs)" "hs ! nat (ks ! j - start) = h"
      using nth_kept [OF jk] j(2) kept_hs by (simp_all add: ks_def)
    have pos: "nat (ks ! j - start) < length hs" using K by simp
    have B: "nat start + nat (ks ! j - start) < min (length (off_hashes f r)) (nat e)"
      using pos unfolding hs_def length_drop length_take by linarith
    then have "hs ! nat (ks ! j - start) = off_hashes f r ! (nat start + nat (ks ! j - start))"
      by (simp add: hs_def del: length_off_hashes)
    moreover have N: "nat start + nat (ks ! j - start) = nat (ks ! j)" using K(1) e(1) by simp
    moreover have "nat (ks ! j) < length (off_hashes f r)" using B unfolding N by linarith
    ultimately have "k = nat (ks ! j)" using h(2,3) K(3) off by (metis nth_eq_iff_index_eq)
    then have kj: "ks ! j = int k" using K(1) e(1) by simp
    let ?n = "j * nat f + nat i"
    have "?n < Suc j * nat f" using i by (simp add: nat_less_iff)
    also have "\<dots> \<le> length ?slots * nat f" using j(1) by (intro mult_le_mono1) simp
    finally have n: "?n < length ps" using lps by simp
    have "snd (ps ! ?n) = ?slots ! j * f + i"
      using n nth_expand [OF j(1) i] by (simp add: ps_def)
    moreover have "fst (ps ! ?n) = ids ! nat (int k * f + i)"
    proof -
      have "src ! ?n = ids ! nat (ks ! j * f + i)" unfolding src_eq
        by (rule nth_concat_blocks [OF f(2) _ i]) (use j(1) lk in simp)
      then show ?thesis using n kj by (simp add: ps_def)
    qed
    ultimately have "copy_pairs ps gpu cpu (?slots ! j * f + i) = gpu (ids ! nat (int k * f + i))" for gpu cpu :: "int \<Rightarrow> 'a"
      using copy_pairs_nth [OF dps n, of gpu cpu] by simp
    then show ?thesis using slot [OF j(1)] j(2) by auto
  qed
  show ?thesis using tp copy by (intro exI [of _ ps]) blast
qed

section \<open>The blocks of a load\<close>

lemma load_one_slot:
  assumes "om_inv m" "om_load_one h (ids, m) = Inr (ids', m')"
  shows "om_inv m' \<and> om_slot m' = om_slot m \<and> (\<exists>i. om_slot m h = Some i \<and> ids' = ids @ [i])"
proof -
  obtain b where b: "om_get m h = Some b" "ids' = ids @ [bs_block_id b]"
    "m' = om_set h (b\<lparr>bs_ref_cnt := bs_ref_cnt b + 1\<rparr>) m"
    using assms(2) by (auto simp: om_load_one_def split: option.splits)
  have "om_slot m' = om_slot m"
    using om_get_set [OF assms(1) b(1)] b(1,3) by (auto simp: om_slot_def fun_eq_iff)
  then show ?thesis using om_set_inv [OF assms(1) b(1)] b by (simp add: om_slot_def)
qed

lemma load_slots:
  "om_inv m \<Longrightarrow> foldE om_load_one hs (ids, m) = Inr (ids', m') \<Longrightarrow>
   om_slot m' = om_slot m \<and> (\<exists>new. ids' = ids @ new \<and> map Some new = map (om_slot m) hs)"
proof (induction hs arbitrary: ids m)
  case (Cons h hs)
  obtain ids1 m1 where o: "om_load_one h (ids, m) = Inr (ids1, m1)" "foldE om_load_one hs (ids1, m1) = Inr (ids', m')"
    using Cons.prems(2) by (auto simp: )
  then obtain i where i: "om_inv m1" "om_slot m1 = om_slot m" "om_slot m h = Some i" "ids1 = ids @ [i]"
    using load_one_slot [OF Cons.prems(1)] by blast
  then obtain new where "om_slot m' = om_slot m" "ids' = ids1 @ new" "map Some new = map (om_slot m) hs"
    using Cons.IH [OF i(1) o(2)] by auto
  then show ?case using i by (intro conjI exI [of _ "i # new"]) simp_all
qed simp

lemma load_pairs:
  fixes m e f :: int
  assumes f: "1 \<le> f" and m: "0 \<le> m" and len: "int (length dst) = e * f - m" "int (length src) = e - m div f" "dst \<noteq> []"
  shows "transfer_pairs f 1 (CPULoadStoreSpec src, GPULoadStoreSpec dst gs idx) =
      Inr (zip (drop (nat (m mod f)) (expand_blocks f 0 src)) dst)"
    "j < length dst \<Longrightarrow> drop (nat (m mod f)) (expand_blocks f 0 src) ! j =
       src ! nat ((m + int j) div f - m div f) * f + (m + int j) mod f"
    "length (drop (nat (m mod f)) (expand_blocks f 0 src)) = length dst"
proof -
  let ?x = "m mod f"
  have x: "0 \<le> ?x" "?x < f" using f by simp_all
  have dm: "m = m div f * f + ?x" by simp
  have cnt: "int (length dst) = int (length src) * f - ?x" using dm unfolding len by (simp add: algebra_simps)
  have "- int (length dst) = ?x + f * (- int (length src))" using cnt by (simp add: algebra_simps)
  then have "(- int (length dst)) mod f = (?x + f * (- int (length src))) mod f" by simp
  also have "\<dots> = ?x" by (simp only: mod_mult_self2 mod_mod_trivial)
  finally have skip: "(- int (length dst)) mod f = ?x" .
  have "0 < int (length dst)" using len(3) by simp
  then have "src \<noteq> []" using cnt x by auto
  then have ex: "expand_blocks f ?x src = drop (nat ?x) (expand_blocks f 0 src)"
    using x by (intro expand_skip) auto
  show "transfer_pairs f 1 (CPULoadStoreSpec src, GPULoadStoreSpec dst gs idx) =
      Inr (zip (drop (nat ?x) (expand_blocks f 0 src)) dst)"
    unfolding transfer_pairs_def Let_def fst_conv snd_conv load_store_spec.sel skip expand_block_ids_def ex
    using cnt x by simp
  have lx: "int (length (expand_blocks f 0 src)) = int (length src) * f" using f by (simp add: length_expand)
  show L: "length (drop (nat ?x) (expand_blocks f 0 src)) = length dst"
    using lx cnt x by (simp add: nat_diff_distrib' of_nat_diff)
  assume j: "j < length dst"
  define a where "a = (m + int j) div f - m div f"
  define b where "b = (m + int j) mod f"
  have b: "0 \<le> b" "b < f" using f by (simp_all add: b_def)
  have a: "0 \<le> a" using f by (simp add: a_def zdiv_mono1)
  have eq: "?x + int j = a * f + b" unfolding a_def b_def using dm
    by (simp add: left_diff_distrib minus_mod_eq_div_mult [symmetric])
  have "a * f + b < int (length src) * f" using eq j cnt by simp
  then have "a * f < int (length src) * f" using b by linarith
  then have al: "a < int (length src)" using f by simp
  have "nat ?x + j = nat a * nat f + nat b"
  proof -
    have "int (nat ?x + j) = int (nat a * nat f + nat b)" using eq x a b f by simp
    then show ?thesis by (simp only: of_nat_eq_iff)
  qed
  then have "drop (nat ?x) (expand_blocks f 0 src) ! j = expand_blocks f 0 src ! (nat a * nat f + nat b)"
    using L j by simp
  also have "\<dots> = src ! nat a * f + b" by (rule nth_expand) (use al a b in auto)
  finally show "drop (nat ?x) (expand_blocks f 0 src) ! j =
       src ! nat ((m + int j) div f - m div f) * f + (m + int j) mod f" by (simp add: a_def b_def)
qed

text \<open>A block that is loaded gets the sub-block at its position from the slot of its offloaded block.\<close>

lemma load_copies:
  assumes a: "ahead s d" and c: "sizes_ok d"
    and match: "oc_get_num_new_matched_tokens r n d = Inr ((Some k, True), d1)" "0 \<le> n"
    and g: "n = int (length (filter (\<lambda>b. hash_of p b \<noteq> None) g)) * oc_gpu_block_size d"
      "n + k = int (length g) * oc_gpu_block_size d"
    and alloc: "oc_update_state_after_alloc r p (g # gs) k d1 = Inr d2"
  defines "f \<equiv> oc_block_size_factor d"
  shows "\<exists>ld ps. map_of (oc_reqs_to_load d2) (request_id r) = Some ld \<and> transfer_pairs f 1 ld = Inr ps \<and>
    (distinct (map (\<lambda>b. block_id (blk p b)) g) \<longrightarrow>
     (\<forall>j. length (filter (\<lambda>b. hash_of p b \<noteq> None) g) \<le> j \<longrightarrow> j < length g \<longrightarrow>
      nat (int j div f) < length (off_hashes f r) \<and>
      (\<exists>slot. om_slot (backing (oc_manager d1)) (off_hashes f r ! nat (int j div f)) = Some slot \<and>
        (\<forall>cpu gpu :: int \<Rightarrow> 'a. copy_pairs ps cpu gpu (block_id (blk p (g ! j))) = cpu (slot * f + int j mod f)))))"
proof -
  let ?obs = "oc_offloaded_block_size d" and ?gbs = "oc_gpu_block_size d"
  define m where "m = int (length (filter (\<lambda>b. hash_of p b \<noteq> None) g))"
  have f: "1 \<le> f" "1 \<le> ?gbs" "?obs = ?gbs * f" using c by (simp_all add: sizes_ok_def f_def)
  have m0: "0 \<le> m" "m \<le> int (length g)" by (simp_all add: m_def)
  have a1: "ahead s d1" using okED [OF ahead_match [OF a] match(1)] by simp
  obtain e where e: "0 < e" "k = ?obs * e - n" "?obs \<le> k" "e \<le> int (length (off_hashes f r))" and d1: "\<exists>m'. d1 = d\<lparr>oc_manager := m'\<rparr>"
    using match_found [OF c match(2,1) TrueI] unfolding f_def by blast
  have k: "0 < k" using e(3) sizes_pos [OF c] by simp
  have d1_eq: "sizes_ok d1" "oc_gpu_block_size d1 = ?gbs" "oc_offloaded_block_size d1 = ?obs" "oc_block_size_factor d1 = f"
    "found_hashes d1 = found_hashes d"
    using d1 c by (auto simp: sizes_ok_def f_def found_hashes_def fun_eq_iff)
  have "int (length g) * ?gbs = e * f * ?gbs" using g(2) e(2) f(3) by (auto simp: ac_simps)
  then have lg: "int (length g) = e * f" using f(2) by simp
  have nm: "n = m * ?gbs" using g(1) by (simp add: m_def)
  have start: "n div ?obs = m div f" using f(2) unfolding nm f(3) by (simp add: mult.commute)
  have k2: "k = (int (length g) - m) * oc_gpu_block_size d1" "m * oc_gpu_block_size d1 + k = oc_offloaded_block_size d1 * e"
    "e \<le> int (length (off_hashes (oc_block_size_factor d1) r))"
    using g(2) e(2,4) nm by (simp_all add: d1_eq algebra_simps)
  define hs where "hs = drop (nat (m div f)) (take (nat e) (off_hashes f r))"
  have hs: "found_hashes d1 r (m * oc_gpu_block_size d1 div oc_offloaded_block_size d1) e = hs"
    using start unfolding nm by (simp add: found_hashes_def d1_eq hs_def f_def)
  obtain src m' where pl: "ofm_prepare_load hs (oc_manager d1) = Inr (src, m')"
    and ld: "map_of (oc_reqs_to_load d2) (request_id r) =
      Some (CPULoadStoreSpec src, GPULoadStoreSpec (map (\<lambda>b. block_id (blk p b)) (drop (nat m) g)) [int (length g) - m] (Some [m]))"
    using alloc unfolding alloc_eq [OF d1_eq(1) refl k m_def k2, of gs] hs by (auto simp: map_of_dict_set)
  let ?dst = "map (\<lambda>b. block_id (blk p b)) (drop (nat m) g)"
  obtain t where t: "off_step\<^sup>*\<^sup>* s t" "sys_inv t" "off_rel d1 t" using a1 by (rule aheadE)
  have inv: "om_inv (backing (oc_manager d1))" using t(2,3) by (simp add: sys_inv_def off_rel_def)
  have "om_prepare_load hs (backing (oc_manager d1)) = Inr (src, backing m')"
    using pl okE_prepare_load [of "\<lambda>(ids, m'). om_prepare_load hs (backing (oc_manager d1)) = Inr (ids, backing m')" hs "oc_manager d1"]
    by (simp add: okE_def)
  then have slots: "map Some src = map (om_slot (backing (oc_manager d1))) hs"
    using load_slots [OF inv, of hs "[]"] by (auto simp: om_prepare_load_def)
  have mf: "0 \<le> m div f" "m div f \<le> e"
    using m0 f(1) lg zdiv_mono1 [of m "e * f" f] by (simp_all add: pos_imp_zdiv_nonneg_iff)
  have lhs: "int (length hs) = e - m div f" using e(4) mf unfolding hs_def length_drop length_take by linarith
  have ls: "int (length src) = e - m div f" using arg_cong [OF slots, of length] lhs by simp
  have "0 < (int (length g) - m) * ?gbs" using k k2(1) by (simp add: d1_eq)
  then have gm: "m < int (length g)" using f(2) by (simp add: zero_less_mult_iff)
  have ldst: "int (length ?dst) = e * f - m" "?dst \<noteq> []" using m0 lg gm by auto
  note P = load_pairs [OF f(1) m0(1) ldst(1) ls ldst(2)]
  define ps where "ps = zip (drop (nat (m mod f)) (expand_blocks f 0 src)) ?dst"
  have snd_ps: "map snd ps = ?dst" unfolding ps_def using P(3) by simp
  have copy: "nat (int j div f) < length (off_hashes f r) \<and>
      (\<exists>slot. om_slot (backing (oc_manager d1)) (off_hashes f r ! nat (int j div f)) = Some slot \<and>
        (\<forall>cpu gpu :: int \<Rightarrow> 'a. copy_pairs ps cpu gpu (block_id (blk p (g ! j))) = cpu (slot * f + int j mod f)))"
    if dg: "distinct (map (\<lambda>b. block_id (blk p b)) g)" and j: "m \<le> int j" "j < length g" for j
  proof -
    have dps: "distinct (map snd ps)" unfolding snd_ps using dg by (simp flip: drop_map)
    define i where "i = j - nat m"
    have ij: "m + int i = int j" "nat m + i = j" using j(1) m0(1) by (auto simp: i_def)
    have i: "i < length ?dst" using j ij by simp
    have "f * (int j div f) \<le> int j" using f(1) by (simp add: minus_mod_eq_mult_div [symmetric])
    also have "\<dots> < f * e" using j(2) lg by (simp add: mult.commute)
    finally have q: "m div f \<le> int j div f" "int j div f < e" using j f(1) by (simp_all add: zdiv_mono1)
    define a where "a = nat (int j div f - m div f)"
    have al: "a < length src" using q ls by (simp add: a_def)
    have ai: "nat (m div f) + a = nat (int j div f)" using q mf by (simp add: a_def)
    have lo: "nat (int j div f) < length (off_hashes f r)" using q mf e(4) by linarith
    have "hs ! a = off_hashes f r ! nat (int j div f)"
    proof -
      have je: "nat (int j div f) < nat e" using q mf by simp
      then have "nat (m div f) \<le> length (take (nat e) (off_hashes f r))"
        using lo ai unfolding length_take by linarith
      then have "hs ! a = take (nat e) (off_hashes f r) ! (nat (m div f) + a)" unfolding hs_def by (rule nth_drop)
      then show ?thesis using je ai by simp
    qed
    moreover have "Some (src ! a) = om_slot (backing (oc_manager d1)) (hs ! a)"
      using arg_cong [OF slots, of "\<lambda>xs. xs ! a"] al lhs ls by simp
    moreover have "copy_pairs ps cpu gpu (block_id (blk p (g ! j))) = cpu (src ! a * f + int j mod f)" for cpu gpu :: "int \<Rightarrow> 'a"
    proof -
      have n: "i < length ps" using i P(3) by (simp add: ps_def)
      have "snd (ps ! i) = block_id (blk p (g ! j))" using i n P(3) ij by (simp add: ps_def)
      moreover have "fst (ps ! i) = src ! a * f + int j mod f" using n i P(2) [OF i] P(3) ij by (simp add: ps_def a_def del: nth_drop)
      ultimately show ?thesis using copy_pairs_nth [OF dps n, of cpu gpu] by simp
    qed
    ultimately show ?thesis using lo by (intro conjI exI [of _ "src ! a"]) simp_all
  qed
  show ?thesis
    by (rule exI, rule exI [of _ ps], intro conjI, rule ld, unfold ps_def, rule P(1), intro allI impI, unfold ps_def [symmetric],
      rule copy) (simp_all add: m_def)
qed

section \<open>The property\<close>

text \<open>C9 (offload_roundtrip): A request stores blocks and later a request, perhaps another one, loads. The
  handlers accept both transfers. When the two requests have the same hash at the same offloaded block,
  this block was stored by the first, kept its slot, and the slot was not written in between, then every
  GPU block the second loads for it gets exactly the content that the GPU block at the same position of
  the first request had when it was stored; however many cached blocks precede the load.\<close>

theorem offload_roundtrip:
  assumes reach: "oc_reach order req_order nb c" "oc_reach order req_order nb d" "0 \<le> nb" "lists_sets order"
    and same_size: "oc_block_size_factor d = oc_block_size_factor c"
    and store: "store_new_blocks r q ids start e c = Inr (Some st, c1)" "0 \<le> start" "start < e" "distinct (block_hashes r)"
    and match: "oc_get_num_new_matched_tokens r' n d = Inr ((Some k, True), d1)" "0 \<le> n"
    and g: "n = int (length (filter (\<lambda>b. hash_of p b \<noteq> None) g)) * oc_gpu_block_size d"
      "n + k = int (length g) * oc_gpu_block_size d" "distinct (map (\<lambda>b. block_id (blk p b)) g)"
    and load: "oc_update_state_after_alloc r' p (g # gs) k d1 = Inr d2"
  defines "f \<equiv> oc_block_size_factor c"
  shows "\<exists>ps ld ps'. transfer_pairs 1 f st = Inr ps \<and> map_of (oc_reqs_to_load d2) (request_id r') = Some ld \<and>
    transfer_pairs f 1 ld = Inr ps' \<and>
    (\<forall>(gpu :: int \<Rightarrow> 'a) cpu cpu' gpu' j h slot. length (filter (\<lambda>b. hash_of p b \<noteq> None) g) \<le> j \<longrightarrow> j < length g \<longrightarrow>
       h = off_hashes f r' ! nat (int j div f) \<longrightarrow> nat (int j div f) < length (off_hashes f r) \<longrightarrow>
       h = off_hashes f r ! nat (int j div f) \<longrightarrow>
       h \<in> getd {} q (oc_reqs_being_stored c1) - getd {} q (oc_reqs_being_stored c) \<longrightarrow>
       om_slot (backing (oc_manager c1)) h = Some slot \<longrightarrow> om_slot (backing (oc_manager d1)) h = Some slot \<longrightarrow>
       (\<forall>i. 0 \<le> i \<longrightarrow> i < f \<longrightarrow> cpu' (slot * f + i) = copy_pairs ps gpu cpu (slot * f + i)) \<longrightarrow>
       copy_pairs ps' cpu' gpu' (block_id (blk p (g ! j))) = gpu (ids ! j))"
proof -
  obtain s where s: "good s c" using oc_reach_good [OF reach(1,3,4)] by blast
  obtain s' where s': "good s' d" using oc_reach_good [OF reach(2,3,4)] by blast
  have f: "1 \<le> f" using s by (simp add: good_def sizes_ok_def f_def)
  obtain ps where ps: "transfer_pairs 1 f st = Inr ps" and P: "\<And>k i h. h \<in> getd {} q (oc_reqs_being_stored c1) - getd {} q (oc_reqs_being_stored c) \<Longrightarrow>
       h = off_hashes f r ! k \<Longrightarrow> k < length (off_hashes f r) \<Longrightarrow> 0 \<le> i \<Longrightarrow> i < f \<Longrightarrow>
       (\<exists>slot. om_slot (backing (oc_manager c1)) h = Some slot \<and>
         (\<forall>gpu cpu :: int \<Rightarrow> 'a. copy_pairs ps gpu cpu (slot * f + i) = gpu (ids ! nat (int k * f + i))))"
    using store_copies [OF _ _ store(4,2,3,1), of s, folded f_def, where 'a = 'a] s unfolding good_def by blast
  obtain ld ps' where ld: "map_of (oc_reqs_to_load d2) (request_id r') = Some ld" "transfer_pairs f 1 ld = Inr ps'"
    and L: "\<And>j. length (filter (\<lambda>b. hash_of p b \<noteq> None) g) \<le> j \<Longrightarrow> j < length g \<Longrightarrow>
      (\<exists>slot. om_slot (backing (oc_manager d1)) (off_hashes f r' ! nat (int j div f)) = Some slot \<and>
        (\<forall>cpu gpu :: int \<Rightarrow> 'a. copy_pairs ps' cpu gpu (block_id (blk p (g ! j))) = cpu (slot * f + int j mod f)))"
    using load_copies [OF _ _ match g(1,2) load, of s', unfolded same_size, folded f_def, where 'a = 'a] s' g(3) unfolding good_def by blast
  have "copy_pairs ps' cpu' gpu' (block_id (blk p (g ! j))) = gpu (ids ! j)"
    if j: "length (filter (\<lambda>b. hash_of p b \<noteq> None) g) \<le> j" "j < length g" and h: "h = off_hashes f r' ! nat (int j div f)"
      "nat (int j div f) < length (off_hashes f r)" "h = off_hashes f r ! nat (int j div f)"
      "h \<in> getd {} q (oc_reqs_being_stored c1) - getd {} q (oc_reqs_being_stored c)"
      and slot: "om_slot (backing (oc_manager c1)) h = Some slot" "om_slot (backing (oc_manager d1)) h = Some slot"
      and mem: "\<forall>i. 0 \<le> i \<longrightarrow> i < f \<longrightarrow> cpu' (slot * f + i) = copy_pairs ps gpu cpu (slot * f + i)" for gpu cpu cpu' gpu' :: "int \<Rightarrow> 'a" and j h slot
  proof -
    have b: "0 \<le> int j mod f" "int j mod f < f" using f by simp_all
    have jj: "int (nat (int j div f)) * f + int j mod f = int j" using f by (simp add: pos_imp_zdiv_nonneg_iff)
    have "copy_pairs ps' cpu' gpu' (block_id (blk p (g ! j))) = cpu' (slot * f + int j mod f)"
      using L [OF j] h(1) slot(2) by auto
    also have "\<dots> = copy_pairs ps gpu cpu (slot * f + int j mod f)" using mem b by blast
    also have "\<dots> = gpu (ids ! nat (int (nat (int j div f)) * f + int j mod f))"
      using P [OF h(4,3,2) b] slot(1) by auto
    finally show ?thesis unfolding jj by simp
  qed
  then show ?thesis using ps ld by (intro exI conjI) blast+
qed

text \<open>In the small run the second block of the request that loads gets what the second block of the request that
  stored had.\<close>

lemma sample_copy_result:
  "(case sample_connector of
      Inr (cs, md, answer) \<Rightarrow>
        bindE (store_new_blocks (eight_tokens ''a'') ''a'' [3, 1, 2, 5] 0 2 (cs ! 1)) (\<lambda>(st, c').
          Inr (st, map_of (oc_reqs_to_load (cs ! 5)) ''b'', getd {} ''a'' (oc_reqs_being_stored (cs ! 1)),
               getd {} ''a'' (oc_reqs_being_stored c'), om_slot (backing (oc_manager c')) [2],
               om_slot (backing (oc_manager (cs ! 4))) [2]))
    | Inl e \<Rightarrow> Inl e) =
   Inr (Some (GPULoadStoreSpec [3, 1, 2, 5] [4] None, CPULoadStoreSpec [0, 1]),
        Some (CPULoadStoreSpec [0, 1], GPULoadStoreSpec [4, 6, 3, 7] [4] (Some [0])), {}, {[2], [4]}, Some 0, Some 0)"
  by code_simp

theorem offload_roundtrip_witness:
  "\<exists>ps ps'. transfer_pairs 1 2 (GPULoadStoreSpec [3, 1, 2, 5] [4] None, CPULoadStoreSpec [0, 1]) = Inr ps \<and>
     transfer_pairs 2 1 (CPULoadStoreSpec [0, 1], GPULoadStoreSpec [4, 6, 3, 7] [4] (Some [0])) = Inr ps' \<and>
     copy_pairs ps' (copy_pairs ps (\<lambda>a. a + 100) (\<lambda>a. 0)) (\<lambda>a. 0) 6 = 101"
proof -
  obtain c0 c1 c2 c3 c4 c5 md where run: "sample_connector = Inr ([c0, c1, c2, c3, c4, c5], md, Some 8, True)"
    and c1: "oc_reach sorted_list_of_set (\<lambda>_. []) 4 c1" "oc_block_size_factor c1 = 2" "oc_block_size_factor c3 = 2"
    and alloc: "oc_update_state_after_alloc (eight_tokens ''b'') unused_pool [[Blk 4, Blk 6, Blk 3, Blk 7]] 8 c4 = Inr c5"
    and c3: "oc_reach sorted_list_of_set (\<lambda>_. []) 4 c3"
      "oc_get_num_new_matched_tokens (eight_tokens ''b'') 0 c3 = Inr ((Some 8, True), c4)" "oc_gpu_block_size c3 = 2"
    by (rule sample_connector_reach)
  let ?st = "(GPULoadStoreSpec [3, 1, 2, 5] [4] None, CPULoadStoreSpec [0, 1])"
  let ?ld = "(CPULoadStoreSpec [0, 1], GPULoadStoreSpec [4, 6, 3, 7] [4] (Some [0]))"
  obtain c' where st: "store_new_blocks (eight_tokens ''a'') ''a'' [3, 1, 2, 5] 0 2 c1 = Inr (Some ?st, c')"
    and v: "map_of (oc_reqs_to_load c5) ''b'' = Some ?ld" "getd {} ''a'' (oc_reqs_being_stored c1) = {}"
      "getd {} ''a'' (oc_reqs_being_stored c') = {[2], [4]}" "om_slot (backing (oc_manager c')) [2] = Some 0"
      "om_slot (backing (oc_manager c4)) [2] = Some 0"
    using sample_copy_result by (auto simp: run bindE_def split: sum.splits prod.splits)
  have off: "off_hashes 2 (eight_tokens q) = [[2], [4]]" for q
    by (simp add: off_hashes_def eight_tokens_def upto_rec1)
  have d: "distinct (block_hashes (eight_tokens ''a''))" by (simp add: eight_tokens_def)
  have gs: "oc_block_size_factor c3 = oc_block_size_factor c1" "(0 :: int) \<le> 4" "(0 :: int) \<le> 0" "(0 :: int) < 2"
    using c1 by simp_all
  let ?g = "[Blk 4, Blk 6, Blk 3, Blk 7]"
  have g: "0 = int (length (filter (\<lambda>b. hash_of unused_pool b \<noteq> None) ?g)) * oc_gpu_block_size c3"
    "0 + 8 = int (length ?g) * oc_gpu_block_size c3" "distinct (map (\<lambda>b. block_id (blk unused_pool b)) ?g)"
    using c3(3) by (simp_all add: unused_pool_def blk_def new_block_def)
  have hit: "length (filter (\<lambda>b. hash_of unused_pool b \<noteq> None) ?g) \<le> 1" "1 < length ?g"
    by (simp_all add: unused_pool_def blk_def new_block_def)
  note T = offload_roundtrip [OF c1(1) c3(1) gs(2) sample_lists gs(1) st gs(3,4) d c3(2) gs(3) g alloc, unfolded c1(2) off v(2,3)]
  obtain ps ld ps' where ps: "transfer_pairs 1 2 ?st = Inr ps" "map_of (oc_reqs_to_load c5) (request_id (eight_tokens ''b'')) = Some ld"
    "transfer_pairs 2 1 ld = Inr ps'"
    and P: "copy_pairs ps' (copy_pairs ps (\<lambda>a. a + 100) (\<lambda>a. 0)) (\<lambda>a. 0) (block_id (blk unused_pool (?g ! 1))) = [3, 1, 2, 5] ! 1 + (100 :: int)"
    using T
    apply (elim exE conjE)
    apply (drule spec [of _ "\<lambda>a. a + 100"], drule spec [of _ "\<lambda>a. 0"])
    subgoal for ps ld ps'
      apply (drule spec [of _ "copy_pairs ps (\<lambda>a. a + 100) (\<lambda>a. 0)"], drule spec [of _ "\<lambda>a. 0"], drule spec [of _ 1],
          drule spec [of _ "[2]"], drule spec [of _ 0])
      using hit v(4,5) by simp
    done
  have "copy_pairs ps' (copy_pairs ps (\<lambda>a. a + 100) (\<lambda>a. 0)) (\<lambda>a. 0) 6 = (101 :: int)"
    using P by (simp add: unused_pool_def blk_def new_block_def)
  then show ?thesis using ps v(1) by (auto simp: eight_tokens_def plain_request_def)
qed

end
