(* ===== verification/Connector_Jobs.thy ===== *)
theory Connector_Jobs
  imports Connector_Copy
begin

text \<open>
  The worker's part of the offloading connector: its books of jobs agree with each other and with what is
  queued, a step of the worker raises no error, and it reports exactly the requests that are done.
\<close>

section \<open>The books\<close>

text \<open>The jobs in the queues of the handlers and those not yet submitted.\<close>

definition queued :: "off_worker \<Rightarrow> int list" where
  "queued w = map fst (th_transfers (ow_gpu_to_cpu w)) @ map fst (th_transfers (ow_cpu_to_gpu w)) @ map fst (ow_unsubmitted w)"

definition store_ok :: "int \<Rightarrow> transfer_spec \<Rightarrow> bool" where
  "store_ok f spec \<longleftrightarrow> (case spec of (GPULoadStoreSpec _ _ _, CPULoadStoreSpec _) \<Rightarrow> \<not> isl (transfer_pairs 1 f spec) | _ \<Rightarrow> False)"

definition load_ok :: "int \<Rightarrow> transfer_spec \<Rightarrow> bool" where
  "load_ok f spec \<longleftrightarrow> (case spec of (CPULoadStoreSpec _, GPULoadStoreSpec _ _ _) \<Rightarrow> \<not> isl (transfer_pairs f 1 spec) | _ \<Rightarrow> False)"

definition handlers_ok :: "int \<Rightarrow> off_worker \<Rightarrow> bool" where
  "handlers_ok f w \<longleftrightarrow> th_src_factor (ow_gpu_to_cpu w) = 1 \<and> th_dst_factor (ow_gpu_to_cpu w) = f \<and>
     th_src_factor (ow_cpu_to_gpu w) = f \<and> th_dst_factor (ow_cpu_to_gpu w) = 1"

text \<open>\<^verbatim>\<open>books_of ps w\<close>: every job is known once, the jobs of a request are those listed for it, and a request
  that waits has jobs left. The jobs \<^verbatim>\<open>ps\<close> have been taken out of the queues but not out of the books.\<close>

definition books_of :: "int list \<Rightarrow> off_worker \<Rightarrow> bool" where
  "books_of ps w \<longleftrightarrow> distinct (ps @ queued w) \<and> set (ps @ queued w) = dom (ow_jobs w) \<and>
     (\<forall>j \<in> dom (ow_jobs w). j < ow_job_counter w) \<and>
     (\<forall>j q. ow_jobs w j = Some (q, True) \<longleftrightarrow> j \<in> getd {} q (ow_store_jobs w)) \<and>
     (\<forall>j q. ow_jobs w j = Some (q, False) \<longleftrightarrow> ow_load_job w q = Some j) \<and>
     (\<forall>q \<in> ow_waiting w. getd {} q (ow_store_jobs w) \<noteq> {})"

definition worker_ok :: "int \<Rightarrow> off_worker \<Rightarrow> bool" where
  "worker_ok f w \<longleftrightarrow> handlers_ok f w \<and> books_of [] w \<and> (\<forall>e \<in> set (ow_unsubmitted w). store_ok f (snd e))"

lemma booksD:
  assumes "books_of ps w"
  shows "distinct (ps @ queued w)" "set (ps @ queued w) = dom (ow_jobs w)" "ow_jobs w j = Some x \<Longrightarrow> j < ow_job_counter w"
    "ow_jobs w j = Some (q, True) \<longleftrightarrow> j \<in> getd {} q (ow_store_jobs w)"
    "ow_jobs w j = Some (q, False) \<longleftrightarrow> ow_load_job w q = Some j"
    "q \<in> ow_waiting w \<Longrightarrow> getd {} q (ow_store_jobs w) \<noteq> {}"
  using assms unfolding books_of_def by blast+

section \<open>Submitting\<close>

lemma submit_store:
  assumes "handlers_ok f w" "store_ok f spec"
  obtains ps where "submit_one (j, spec) w =
    Inr (w\<lparr>ow_gpu_to_cpu := (ow_gpu_to_cpu w)\<lparr>th_transfers := th_transfers (ow_gpu_to_cpu w) @ [(j, ps)]\<rparr>\<rparr>)"
proof -
  obtain a b c d ps where s: "spec = (GPULoadStoreSpec a b c, CPULoadStoreSpec d)" "transfer_pairs 1 f spec = Inr ps"
    using assms(2)
    by (cases spec; cases "fst spec"; cases "snd spec"; cases "transfer_pairs 1 f spec") (auto simp: store_ok_def)
  have "th_transfer_async j spec (ow_gpu_to_cpu w) = Inr ((ow_gpu_to_cpu w)\<lparr>th_transfers := th_transfers (ow_gpu_to_cpu w) @ [(j, ps)]\<rparr>)"
    using s(2) assms(1) by (simp add: th_transfer_async_def handlers_ok_def)
  then show thesis using that [of ps] s(1) by (simp add: submit_one_def ow_transfer_async_def)
qed

lemma submit_load:
  assumes "handlers_ok f w" "load_ok f spec"
  obtains ps where "submit_one (j, spec) w =
    Inr (w\<lparr>ow_cpu_to_gpu := (ow_cpu_to_gpu w)\<lparr>th_transfers := th_transfers (ow_cpu_to_gpu w) @ [(j, ps)]\<rparr>\<rparr>)"
proof -
  obtain a b c d ps where s: "spec = (CPULoadStoreSpec d, GPULoadStoreSpec a b c)" "transfer_pairs f 1 spec = Inr ps"
    using assms(2)
    by (cases spec; cases "fst spec"; cases "snd spec"; cases "transfer_pairs f 1 spec") (auto simp: load_ok_def)
  have "th_transfer_async j spec (ow_cpu_to_gpu w) = Inr ((ow_cpu_to_gpu w)\<lparr>th_transfers := th_transfers (ow_cpu_to_gpu w) @ [(j, ps)]\<rparr>)"
    using s(2) assms(1) by (simp add: th_transfer_async_def handlers_ok_def)
  then show thesis using that [of ps] s(1) by (simp add: submit_one_def ow_transfer_async_def)
qed

lemma submit_all:
  assumes "handlers_ok f w" "\<forall>e \<in> set us. store_ok f (snd e)"
  shows "\<exists>ts. map fst ts = map fst us \<and> foldE submit_one us w =
    Inr (w\<lparr>ow_gpu_to_cpu := (ow_gpu_to_cpu w)\<lparr>th_transfers := th_transfers (ow_gpu_to_cpu w) @ ts\<rparr>\<rparr>)"
  using assms
proof (induction us arbitrary: w)
  case (Cons u us)
  obtain ps where ps: "submit_one u w =
      Inr (w\<lparr>ow_gpu_to_cpu := (ow_gpu_to_cpu w)\<lparr>th_transfers := th_transfers (ow_gpu_to_cpu w) @ [(fst u, ps)]\<rparr>\<rparr>)"
    using submit_store [OF Cons.prems(1), of "snd u" "fst u"] Cons.prems(2) by auto
  let ?w = "w\<lparr>ow_gpu_to_cpu := (ow_gpu_to_cpu w)\<lparr>th_transfers := th_transfers (ow_gpu_to_cpu w) @ [(fst u, ps)]\<rparr>\<rparr>"
  have "handlers_ok f ?w" using Cons.prems(1) by (simp add: handlers_ok_def)
  then obtain ts where "map fst ts = map fst us" "foldE submit_one us ?w =
      Inr (?w\<lparr>ow_gpu_to_cpu := (ow_gpu_to_cpu ?w)\<lparr>th_transfers := th_transfers (ow_gpu_to_cpu ?w) @ ts\<rparr>\<rparr>)"
    using Cons.IH [of ?w] Cons.prems(2) by auto
  then show ?case by (intro exI [of _ "(fst u, ps) # ts"]) (simp add: ps)
qed simp

text \<open>What a part of the step leaves as it is.\<close>

definition same_books :: "off_worker \<Rightarrow> off_worker \<Rightarrow> bool" where
  "same_books w w' \<longleftrightarrow> ow_jobs w' = ow_jobs w \<and> ow_load_job w' = ow_load_job w \<and> ow_store_jobs w' = ow_store_jobs w \<and>
     ow_waiting w' = ow_waiting w \<and> ow_job_counter w' = ow_job_counter w"

lemma books_same:
  "books_of ps w \<Longrightarrow> same_books w w' \<Longrightarrow> mset (ps' @ queued w') = mset (ps @ queued w) \<Longrightarrow> books_of ps' w'"
proof -
  assume "books_of ps w" "same_books w w'" and m: "mset (ps' @ queued w') = mset (ps @ queued w)"
  then show "books_of ps' w'"
    using mset_eq_setD [OF m] mset_eq_imp_distinct_iff [OF m] unfolding books_of_def same_books_def by metis
qed

lemma submit_stores_ok:
  assumes "worker_ok f w"
  shows "totE (\<lambda>w'. worker_ok f w' \<and> same_books w w' \<and> ow_unsubmitted w' = []) (submit_stores w)"
proof -
  have h: "handlers_ok f w" "books_of [] w" "\<forall>e \<in> set (ow_unsubmitted w). store_ok f (snd e)"
    using assms by (simp_all add: worker_ok_def)
  obtain ts where ts: "map fst ts = map fst (ow_unsubmitted w)" "foldE submit_one (ow_unsubmitted w) w =
      Inr (w\<lparr>ow_gpu_to_cpu := (ow_gpu_to_cpu w)\<lparr>th_transfers := th_transfers (ow_gpu_to_cpu w) @ ts\<rparr>\<rparr>)"
    using submit_all [OF h(1,3)] by blast
  let ?w = "w\<lparr>ow_gpu_to_cpu := (ow_gpu_to_cpu w)\<lparr>th_transfers := th_transfers (ow_gpu_to_cpu w) @ ts\<rparr>, ow_unsubmitted := []\<rparr>"
  have "books_of [] ?w" by (rule books_same [OF h(2)]) (simp_all add: same_books_def queued_def ts(1) ac_simps flip: mset_map)
  then show ?thesis using h(1) by (simp add: submit_stores_def ts(2) worker_ok_def same_books_def handlers_ok_def)
qed

lemma load_one_ok:
  assumes w: "worker_ok f w" and e: "load_ok f (snd e)" "ow_load_job w (fst e) = None" and u: "ow_unsubmitted w = []"
  shows "totE (\<lambda>w'. worker_ok f w' \<and> ow_unsubmitted w' = [] \<and> (\<exists>j. ow_load_job w' = (ow_load_job w)(fst e \<mapsto> j)) \<and>
      ow_store_jobs w' = ow_store_jobs w \<and> ow_waiting w' = ow_waiting w) (load_one e w)"
proof -
  let ?q = "fst e" and ?j = "ow_job_counter w"
  have h: "handlers_ok f w" and b: "books_of [] w" using w by (simp_all add: worker_ok_def)
  let ?w = "w\<lparr>ow_job_counter := ?j + 1, ow_jobs := (ow_jobs w)(?j \<mapsto> (?q, False)), ow_load_job := (ow_load_job w)(?q \<mapsto> ?j)\<rparr>"
  have h': "handlers_ok f ?w" using h by (simp add: handlers_ok_def)
  obtain ps where ps: "submit_one (?j, snd e) ?w =
      Inr (?w\<lparr>ow_cpu_to_gpu := (ow_cpu_to_gpu ?w)\<lparr>th_transfers := th_transfers (ow_cpu_to_gpu ?w) @ [(?j, ps)]\<rparr>\<rparr>)"
    using submit_load [OF h' e(1), of ?j] by blast
  let ?w' = "?w\<lparr>ow_cpu_to_gpu := (ow_cpu_to_gpu ?w)\<lparr>th_transfers := th_transfers (ow_cpu_to_gpu ?w) @ [(?j, ps)]\<rparr>\<rparr>"
  have one: "load_one e w = Inr ?w'"
    using ps e(2) by (simp add: load_one_def generate_job_id_def Let_def)
  have fresh: "ow_jobs w ?j = None" using booksD(3) [OF b, of ?j] by (cases "ow_jobs w ?j") auto
  then have nq: "?j \<notin> set (queued w)" using booksD(2) [OF b] by auto
  have no: "?j \<notin> getd {} q (ow_store_jobs w)" "ow_load_job w q \<noteq> Some ?j" for q
    using booksD(4,5) [OF b, of ?j q] fresh by auto
  have "books_of [] ?w'"
    unfolding books_of_def
  proof (intro conjI allI ballI)
    show "distinct ([] @ queued ?w')" using booksD(1) [OF b] nq by (auto simp: queued_def)
    show "set ([] @ queued ?w') = dom (ow_jobs ?w')" using booksD(2) [OF b] by (auto simp: queued_def)
    fix j q
    show "j < ow_job_counter ?w'" if "j \<in> dom (ow_jobs ?w')"
      using that booksD(3) [OF b, of j] by (force split: if_splits)
    show "(ow_jobs ?w' j = Some (q, True)) = (j \<in> getd {} q (ow_store_jobs ?w'))" using booksD(4) [OF b, of j q] no by auto
    show "(ow_jobs ?w' j = Some (q, False)) = (ow_load_job ?w' q = Some j)"
      using booksD(5) [OF b, of j q] no(2) e(2) by auto
    show "getd {} q (ow_store_jobs ?w') \<noteq> {}" if "q \<in> ow_waiting ?w'" using that booksD(6) [OF b, of q] by simp
  qed
  then show ?thesis using one h' u by (auto simp: worker_ok_def handlers_ok_def)
qed

lemma loads_ok:
  assumes "worker_ok f w" "\<forall>e \<in> set es. load_ok f (snd e)" "distinct (map fst es)" "\<forall>q \<in> fst ` set es. ow_load_job w q = None"
    "ow_unsubmitted w = []"
  shows "totE (\<lambda>w'. worker_ok f w' \<and> dom (ow_load_job w') = dom (ow_load_job w) \<union> fst ` set es \<and>
      ow_store_jobs w' = ow_store_jobs w \<and> ow_waiting w' = ow_waiting w) (foldE load_one es w)"
  using assms
proof (induction es arbitrary: w)
  case (Cons e es)
  have one: "totE (\<lambda>w'. worker_ok f w' \<and> ow_unsubmitted w' = [] \<and> (\<exists>j. ow_load_job w' = (ow_load_job w)(fst e \<mapsto> j)) \<and>
      ow_store_jobs w' = ow_store_jobs w \<and> ow_waiting w' = ow_waiting w) (load_one e w)"
    by (rule load_one_ok) (use Cons.prems in auto)
  show ?case unfolding foldE.simps totE_simps
  proof (rule totE_conseq [OF one], elim conjE exE)
    fix w' j
    assume w': "worker_ok f w'" "ow_unsubmitted w' = []" "ow_load_job w' = (ow_load_job w)(fst e \<mapsto> j)"
      "ow_store_jobs w' = ow_store_jobs w" "ow_waiting w' = ow_waiting w"
    have "fst e \<notin> fst ` set es" using Cons.prems(3) by simp
    then have "\<forall>q \<in> fst ` set es. ow_load_job w' q = None" using Cons.prems(4) w'(3) by (metis fun_upd_other image_eqI insertCI list.simps(15) image_insert)
    from Cons.IH [OF w'(1) _ _ this w'(2)] Cons.prems(2,3)
    have "totE (\<lambda>w2. worker_ok f w2 \<and> dom (ow_load_job w2) = dom (ow_load_job w') \<union> fst ` set es \<and>
      ow_store_jobs w2 = ow_store_jobs w' \<and> ow_waiting w2 = ow_waiting w') (foldE load_one es w')" by simp
    moreover have "dom (ow_load_job w') = insert (fst e) (dom (ow_load_job w))" by (simp add: w'(3))
    ultimately show "totE (\<lambda>w'. worker_ok f w' \<and> dom (ow_load_job w') = dom (ow_load_job w) \<union> fst ` set (e # es) \<and>
      ow_store_jobs w' = ow_store_jobs w \<and> ow_waiting w' = ow_waiting w) (foldE load_one es w')"
      by (simp add: w'(4,5))
  qed
qed simp

text \<open>The stores of a step become jobs that are not submitted yet.\<close>

lemma defer_store_ok:
  assumes w: "worker_ok f w" and e: "store_ok f (snd e)"
  shows "worker_ok f (defer_store e w)" "dom (ow_store_jobs (defer_store e w)) = insert (fst e) (dom (ow_store_jobs w))"
    "ow_load_job (defer_store e w) = ow_load_job w" "ow_waiting (defer_store e w) = ow_waiting w"
proof -
  let ?q = "fst e" and ?j = "ow_job_counter w" and ?w = "defer_store e w"
  have h: "handlers_ok f w" and b: "books_of [] w" using w by (simp_all add: worker_ok_def)
  have d: "ow_jobs ?w = (ow_jobs w)(?j \<mapsto> (?q, True))" "ow_load_job ?w = ow_load_job w" "ow_waiting ?w = ow_waiting w"
    "ow_store_jobs ?w = (ow_store_jobs w)(?q \<mapsto> insert ?j (getd {} ?q (ow_store_jobs w)))" "ow_job_counter ?w = ?j + 1"
    "ow_unsubmitted ?w = ow_unsubmitted w @ [(?j, snd e)]" "queued ?w = queued w @ [?j]"
    "ow_gpu_to_cpu ?w = ow_gpu_to_cpu w" "ow_cpu_to_gpu ?w = ow_cpu_to_gpu w"
    by (simp_all add: defer_store_def generate_job_id_def Let_def queued_def)
  have fresh: "ow_jobs w ?j = None" using booksD(3) [OF b, of ?j] by (cases "ow_jobs w ?j") auto
  then have nq: "?j \<notin> set (queued w)" using booksD(2) [OF b] by auto
  have no: "?j \<notin> getd {} q (ow_store_jobs w)" "ow_load_job w q \<noteq> Some ?j" for q
    using booksD(4,5) [OF b, of ?j q] fresh by auto
  have "books_of [] ?w"
    unfolding books_of_def d
  proof (intro conjI allI ballI)
    show "distinct ([] @ queued w @ [?j])" using booksD(1) [OF b] nq by simp
    show "set ([] @ queued w @ [?j]) = dom ((ow_jobs w)(?j \<mapsto> (?q, True)))" using booksD(2) [OF b] by auto
    fix j q
    show "j < ?j + 1" if "j \<in> dom ((ow_jobs w)(?j \<mapsto> (?q, True)))"
      using that booksD(3) [OF b, of j] by (force split: if_splits)
    show "(((ow_jobs w)(?j \<mapsto> (?q, True))) j = Some (q, True)) =
        (j \<in> getd {} q ((ow_store_jobs w)(?q \<mapsto> insert ?j (getd {} ?q (ow_store_jobs w)))))"
      using booksD(4) [OF b, of j q] no(1) [of q] by auto
    show "(((ow_jobs w)(?j \<mapsto> (?q, True))) j = Some (q, False)) = (ow_load_job w q = Some j)"
      using booksD(5) [OF b, of j q] no(2) by auto
    show "getd {} q ((ow_store_jobs w)(?q \<mapsto> insert ?j (getd {} ?q (ow_store_jobs w)))) \<noteq> {}" if "q \<in> ow_waiting w"
      using that booksD(6) [OF b, of q] by auto
  qed
  then show "worker_ok f ?w" using w e by (auto simp: worker_ok_def handlers_ok_def d)
  show "dom (ow_store_jobs ?w) = insert ?q (dom (ow_store_jobs w))" "ow_load_job ?w = ow_load_job w" "ow_waiting ?w = ow_waiting w"
    unfolding d by auto
qed

lemma defer_stores_ok:
  assumes "worker_ok f w" "\<forall>e \<in> set es. store_ok f (snd e)"
  shows "worker_ok f (fold defer_store es w) \<and> dom (ow_store_jobs (fold defer_store es w)) = dom (ow_store_jobs w) \<union> fst ` set es \<and>
    ow_load_job (fold defer_store es w) = ow_load_job w \<and> ow_waiting (fold defer_store es w) = ow_waiting w"
  using assms
proof (induction es arbitrary: w)
  case (Cons e es)
  have e: "store_ok f (snd e)" using Cons.prems(2) by simp
  note D = defer_store_ok [OF Cons.prems(1) e]
  show ?case using Cons.IH [OF D(1)] Cons.prems(2) D(2-4) by auto
qed simp

section \<open>Finishing\<close>

text \<open>What has been reported since \<^verbatim>\<open>w0\<close>: the requests whose entry is gone.\<close>

definition reported :: "off_worker \<Rightarrow> finished_reqs \<Rightarrow> off_worker \<Rightarrow> bool" where
  "reported w0 rep w \<longleftrightarrow>
     dom (ow_store_jobs w) = dom (ow_store_jobs w0) - fst rep \<and> fst rep \<subseteq> dom (ow_store_jobs w0) \<and>
     dom (ow_load_job w) = dom (ow_load_job w0) - snd rep \<and> snd rep \<subseteq> dom (ow_load_job w0)"

lemma finish_job_ok:
  assumes b: "books_of (j # ps) w" and r: "reported w0 rep w" and wt: "ow_waiting w = ow_waiting w0 - fst rep" "fst rep \<subseteq> ow_waiting w0"
  shows "totE (\<lambda>(rep', w'). books_of ps w' \<and> reported w0 rep' w' \<and> ow_waiting w' = ow_waiting w0 - fst rep' \<and> fst rep' \<subseteq> ow_waiting w0 \<and>
      ow_unsubmitted w' = ow_unsubmitted w \<and> ow_gpu_to_cpu w' = ow_gpu_to_cpu w \<and> ow_cpu_to_gpu w' = ow_cpu_to_gpu w)
    (finish_job j (rep, w))"
proof -
  have "j \<in> dom (ow_jobs w)" using booksD(2) [OF b] by auto
  then obtain q st where q: "ow_jobs w j = Some (q, st)" by auto
  have q0: "distinct (ps @ queued w)" "set (ps @ queued w) = dom (ow_jobs w) - {j}" using booksD(1,2) [OF b] by auto
  have ctr: "\<forall>i \<in> dom (ow_jobs w) - {j}. i < ow_job_counter w" using booksD(3) [OF b] by auto
  show ?thesis
  proof (cases st)
    case True
    let ?J = "getd {} q (ow_store_jobs w)"
    have j: "j \<in> ?J" using booksD(4) [OF b, of j q] q True by simp
    have sq: "q \<in> dom (ow_store_jobs w)" using j by (auto simp: getd_def split: option.splits)
    have jobs: "((ow_jobs w)(j := None)) i = Some (q', True) \<longleftrightarrow> i \<in> (if q' = q then ?J - {j} else getd {} q' (ow_store_jobs w))"
      "((ow_jobs w)(j := None)) i = Some (q', False) \<longleftrightarrow> ow_load_job w q' = Some i" for i q'
      using booksD(4,5) [OF b, of i q'] q True by auto
    have rest: "books_of ps w'" if w': "ow_jobs w' = (ow_jobs w)(j := None)" "ow_load_job w' = ow_load_job w"
      "ow_job_counter w' = ow_job_counter w" "queued w' = queued w"
      "\<And>q'. getd {} q' (ow_store_jobs w') = (if q' = q then ?J - {j} else getd {} q' (ow_store_jobs w))"
      "\<And>q'. q' \<in> ow_waiting w' \<Longrightarrow> q' \<in> ow_waiting w \<and> (q' = q \<longrightarrow> ?J - {j} \<noteq> {})" for w' :: off_worker
      unfolding books_of_def w'(1-5) using q0 ctr jobs booksD(6) [OF b] w'(6) by auto
    show ?thesis
    proof (cases "?J - {j} = {} \<and> q \<in> ow_waiting w")
      case True
      let ?w = "w\<lparr>ow_jobs := (ow_jobs w)(j := None), ow_waiting := ow_waiting w - {q},
          ow_store_jobs := ((ow_store_jobs w)(q \<mapsto> ?J - {j}))(q := None)\<rparr>"
      have f: "finish_job j (rep, w) = Inr ((insert q (fst rep), snd rep), ?w)"
        using q \<open>st\<close> j True by (cases rep) (simp add: finish_job_def Let_def)
      have "books_of ps ?w" by (rule rest) (use True in \<open>auto simp: queued_def\<close>)
      moreover have "reported w0 (insert q (fst rep), snd rep) ?w" using r sq by (auto simp: reported_def)
      ultimately show ?thesis using f wt True by auto
    next
      case False
      let ?w = "w\<lparr>ow_jobs := (ow_jobs w)(j := None), ow_store_jobs := (ow_store_jobs w)(q \<mapsto> ?J - {j})\<rparr>"
      have f: "finish_job j (rep, w) = Inr (rep, ?w)"
        using q \<open>st\<close> j False by (cases rep) (auto simp: finish_job_def Let_def)
      have "books_of ps ?w" by (rule rest) (use False in \<open>auto simp: queued_def\<close>)
      moreover have "reported w0 rep ?w" using r sq by (auto simp: reported_def)
      ultimately show ?thesis using f wt by simp
    qed
  next
    case False
    have l: "ow_load_job w q = Some j" using booksD(5) [OF b, of j q] q False by simp
    let ?w = "w\<lparr>ow_jobs := (ow_jobs w)(j := None), ow_load_job := (ow_load_job w)(q := None)\<rparr>"
    have f: "finish_job j (rep, w) = Inr ((fst rep, insert q (snd rep)), ?w)"
      using q False l by (cases rep) (simp add: finish_job_def Let_def)
    have jobs: "((ow_jobs w)(j := None)) i = Some (q', True) \<longleftrightarrow> i \<in> getd {} q' (ow_store_jobs w)"
      "((ow_jobs w)(j := None)) i = Some (q', False) \<longleftrightarrow> ((ow_load_job w)(q := None)) q' = Some i" for i q'
      using booksD(4,5) [OF b, of i q'] booksD(5) [OF b, of i q] q False l by auto
    have qd: "queued ?w = queued w" by (simp add: queued_def)
    have "books_of ps ?w" unfolding books_of_def qd using q0 ctr jobs booksD(6) [OF b] by auto
    moreover have "reported w0 (fst rep, insert q (snd rep)) ?w" using r l by (auto simp: reported_def)
    ultimately show ?thesis using f wt by simp
  qed
qed

lemma finish_jobs_ok:
  assumes "books_of (js @ ps) w" "reported w0 rep w" "ow_waiting w = ow_waiting w0 - fst rep" "fst rep \<subseteq> ow_waiting w0"
  shows "totE (\<lambda>(rep', w'). books_of ps w' \<and> reported w0 rep' w' \<and> ow_waiting w' = ow_waiting w0 - fst rep' \<and> fst rep' \<subseteq> ow_waiting w0 \<and>
      ow_unsubmitted w' = ow_unsubmitted w \<and> ow_gpu_to_cpu w' = ow_gpu_to_cpu w \<and> ow_cpu_to_gpu w' = ow_cpu_to_gpu w)
    (foldE finish_job js (rep, w))"
  using assms
proof (induction js arbitrary: rep w)
  case (Cons j js)
  have b: "books_of (j # (js @ ps)) w" using Cons.prems(1) by simp
  show ?case unfolding foldE.simps totE_simps
  proof (rule totE_conseq [OF finish_job_ok [OF b Cons.prems(2-4)]], clarify)
    fix s r w'
    assume "books_of (js @ ps) w'" "reported w0 (s, r) w'" "ow_waiting w' = ow_waiting w0 - fst (s, r)" "fst (s, r) \<subseteq> ow_waiting w0"
      and eq: "ow_unsubmitted w' = ow_unsubmitted w" "ow_gpu_to_cpu w' = ow_gpu_to_cpu w" "ow_cpu_to_gpu w' = ow_cpu_to_gpu w"
    from Cons.IH [OF this(1-4)] eq
    show "totE (\<lambda>(rep', w'). books_of ps w' \<and> reported w0 rep' w' \<and> ow_waiting w' = ow_waiting w0 - fst rep' \<and> fst rep' \<subseteq> ow_waiting w0 \<and>
      ow_unsubmitted w' = ow_unsubmitted w \<and> ow_gpu_to_cpu w' = ow_gpu_to_cpu w \<and> ow_cpu_to_gpu w' = ow_cpu_to_gpu w)
      (foldE finish_job js ((s, r), w'))" by simp
  qed
qed simp

text \<open>The notices of finished requests.\<close>

definition noted :: "off_worker \<Rightarrow> req_id set \<Rightarrow> finished_reqs \<Rightarrow> off_worker \<Rightarrow> bool" where
  "noted w0 F rep w \<longleftrightarrow> books_of [] w \<and> reported w0 rep w \<and>
     ow_waiting w = (ow_waiting w0 \<union> (F \<inter> dom (ow_store_jobs w0))) - fst rep \<and> fst rep \<subseteq> ow_waiting w0 \<union> F"

lemma note_one_ok:
  assumes n: "noted w0 F rep w" and f: "note_finished_req q (rep, w) = (rep', w')"
  shows "noted w0 (insert q F) rep' w' \<and> ow_unsubmitted w' = ow_unsubmitted w \<and> ow_gpu_to_cpu w' = ow_gpu_to_cpu w \<and>
    ow_cpu_to_gpu w' = ow_cpu_to_gpu w"
proof -
  have b: "books_of [] w" and r: "reported w0 rep w"
    and wt: "ow_waiting w = (ow_waiting w0 \<union> (F \<inter> dom (ow_store_jobs w0))) - fst rep" "fst rep \<subseteq> ow_waiting w0 \<union> F"
    using n by (simp_all add: noted_def)
  have dom: "dom (ow_store_jobs w) = dom (ow_store_jobs w0) - fst rep" "fst rep \<subseteq> dom (ow_store_jobs w0)"
    using r by (simp_all add: reported_def)
  show ?thesis
  proof (cases "ow_store_jobs w q")
    case None
    then have same: "rep' = rep" "w' = w" using f by (cases rep; simp add: note_finished_req_def)+
    have "q \<in> fst rep \<or> q \<notin> dom (ow_store_jobs w0)" using None dom by auto
    then show ?thesis using n wt by (auto simp: noted_def same)
  next
    case (Some J)
    then have q: "q \<in> dom (ow_store_jobs w0)" "q \<notin> fst rep" using dom by auto
    show ?thesis
    proof (cases "J = {}")
      case True
      then have w': "rep' = (insert q (fst rep), snd rep)" "w' = w\<lparr>ow_store_jobs := (ow_store_jobs w)(q := None)\<rparr>"
        using f Some by (cases rep; simp add: note_finished_req_def)+
      have g: "getd {} x ((ow_store_jobs w)(q := None)) = getd {} x (ow_store_jobs w)" for x
        using Some True by (simp add: getd_def)
      have nq: "q \<notin> ow_waiting w" using booksD(6) [OF b, of q] Some True by (auto simp: getd_def)
      have "books_of [] w'" using b by (simp add: books_of_def w'(2) g queued_def del: getd_upd)
      moreover have "reported w0 rep' w'" using r q by (auto simp: reported_def w')
      ultimately show ?thesis using wt q nq by (auto simp: noted_def w')
    next
      case False
      then have w': "rep' = rep" "w' = w\<lparr>ow_waiting := insert q (ow_waiting w)\<rparr>"
        using f Some by (cases rep; simp add: note_finished_req_def)+
      have "books_of [] w'" using b False Some by (auto simp: books_of_def w'(2) queued_def getd_def)
      moreover have "reported w0 rep' w'" using r by (simp add: reported_def w')
      ultimately show ?thesis using wt q by (auto simp: noted_def w')
    qed
  qed
qed

lemma note_all_ok:
  assumes "noted w0 F rep w" "fold note_finished_req qs (rep, w) = (rep', w')"
  shows "noted w0 (F \<union> set qs) rep' w' \<and> ow_unsubmitted w' = ow_unsubmitted w \<and> ow_gpu_to_cpu w' = ow_gpu_to_cpu w \<and>
    ow_cpu_to_gpu w' = ow_cpu_to_gpu w"
  using assms
proof (induction qs arbitrary: F rep w)
  case (Cons q qs)
  obtain rep1 w1 where o: "note_finished_req q (rep, w) = (rep1, w1)" by (cases "note_finished_req q (rep, w)")
  note N = note_one_ok [OF Cons.prems(1) o]
  have "fold note_finished_req qs (rep1, w1) = (rep', w')" using Cons.prems(2) o by simp
  from Cons.IH [OF _ this] N show ?case by (simp add: Un_commute) (metis Un_insert_right Un_commute)
qed simp

lemma get_finished_ok:
  assumes w: "worker_ok f w"
  shows "totE (\<lambda>(rep, w'). worker_ok f w' \<and> noted w (set qs) rep w') (ow_get_finished first query qs w)"
proof -
  have h: "handlers_ok f w" and b: "books_of [] w" and u: "\<forall>e \<in> set (ow_unsubmitted w). store_ok f (snd e)"
    using w by (simp_all add: worker_ok_def)
  obtain js w1 where r: "ow_results first query w = (js, w1)" by (cases "ow_results first query w")
  let ?q = "\<lambda>t. query (fst t)" and ?a = "th_transfers (ow_gpu_to_cpu w)" and ?b = "th_transfers (ow_cpu_to_gpu w)"
  have w1: "w1 = w\<lparr>ow_gpu_to_cpu := (ow_gpu_to_cpu w)\<lparr>th_transfers := dropWhile ?q ?a\<rparr>,
      ow_cpu_to_gpu := (ow_cpu_to_gpu w)\<lparr>th_transfers := dropWhile ?q ?b\<rparr>\<rparr>"
    and js: "mset js = mset (map fst (takeWhile ?q ?a)) + mset (map fst (takeWhile ?q ?b))"
    using r by (auto simp: ow_results_def th_get_finished_def)
  have split: "mset (map fst xs) = mset (map fst (takeWhile ?q xs)) + mset (map fst (dropWhile ?q xs))" for xs :: "(int \<times> (int \<times> int) list) list"
    by (metis map_append mset_append takeWhile_dropWhile_id)
  have "books_of js w1"
    by (rule books_same [OF b]) (simp_all add: w1 same_books_def queued_def js split [of ?a] split [of ?b] ac_simps del: mset_map)
  then have b1: "books_of (js @ []) w1" by simp
  have rep0: "reported w ({}, {}) w1" by (simp add: reported_def w1)
  have h1: "handlers_ok f w1" using h by (simp add: handlers_ok_def w1)
  show ?thesis
    unfolding ow_get_finished_def r Let_def split_conv totE_simps
  proof (rule totE_conseq [OF finish_jobs_ok [OF b1 rep0]])
    show "ow_waiting w1 = ow_waiting w - fst ({}, {})" "fst ({}, {}) \<subseteq> ow_waiting w" by (simp_all add: w1)
    fix acc
    assume A: "case acc of (rep', w') \<Rightarrow> books_of [] w' \<and> reported w rep' w' \<and> ow_waiting w' = ow_waiting w - fst rep' \<and>
        fst rep' \<subseteq> ow_waiting w \<and> ow_unsubmitted w' = ow_unsubmitted w1 \<and> ow_gpu_to_cpu w' = ow_gpu_to_cpu w1 \<and>
        ow_cpu_to_gpu w' = ow_cpu_to_gpu w1"
    obtain rep2 w2 where acc: "acc = (rep2, w2)" by (cases acc)
    have n: "noted w {} rep2 w2" using A by (simp add: noted_def acc)
    obtain rep3 w3 where fin: "fold note_finished_req qs acc = (rep3, w3)" by (cases "fold note_finished_req qs acc")
    note N = note_all_ok [OF n fin [unfolded acc]]
    have "worker_ok f w3" using N A h1 u by (auto simp: worker_ok_def noted_def handlers_ok_def acc w1)
    then show "case fold note_finished_req qs acc of (rep, w') \<Rightarrow> worker_ok f w' \<and> noted w (set qs) rep w'" using N by (simp add: fin)
  qed
qed

section \<open>A step of the worker\<close>

lemma init_worker_ok: "worker_ok f (init_off_worker f)"
  by (simp add: worker_ok_def books_of_def handlers_ok_def init_off_worker_def init_handler_def queued_def getd_def)

lemma same_books_trans: "same_books u v \<Longrightarrow> same_books v w \<Longrightarrow> same_books u w"
  by (simp add: same_books_def)

lemma before_model_ok:
  assumes w: "worker_ok f w" and l: "\<forall>e \<in> set (cm_reqs_to_load md). load_ok f (snd e)"
    "distinct (map fst (cm_reqs_to_load md))" "\<forall>q \<in> fst ` set (cm_reqs_to_load md). ow_load_job w q = None"
  shows "totE (\<lambda>(waited, w1). totE (\<lambda>w2. worker_ok f w2 \<and>
      dom (ow_load_job w2) = dom (ow_load_job w) \<union> fst ` set (cm_reqs_to_load md) \<and>
      ow_store_jobs w2 = ow_store_jobs w \<and> ow_waiting w2 = ow_waiting w) (ow_start_kv_transfers md w1)) (ow_handle_preemptions md w)"
  unfolding ow_handle_preemptions_def totE_simps
proof (rule totE_conseq [OF submit_stores_ok [OF w]], elim conjE, unfold totE_simps split_conv)
  fix w1
  assume w1: "worker_ok f w1" "same_books w w1" "ow_unsubmitted w1 = []"
  show "totE (\<lambda>w2. worker_ok f w2 \<and>
      dom (ow_load_job w2) = dom (ow_load_job w) \<union> fst ` set (cm_reqs_to_load md) \<and>
      ow_store_jobs w2 = ow_store_jobs w \<and> ow_waiting w2 = ow_waiting w) (ow_start_kv_transfers md w1)"
    unfolding ow_start_kv_transfers_def totE_simps
  proof (rule totE_conseq [OF submit_stores_ok [OF w1(1)]], elim conjE)
    fix w2
    assume w2: "worker_ok f w2" "same_books w1 w2" "ow_unsubmitted w2 = []"
    have sb: "same_books w w2" by (rule same_books_trans [OF w1(2) w2(2)])
    then have "\<forall>q \<in> fst ` set (cm_reqs_to_load md). ow_load_job w2 q = None" using l(3) by (simp add: same_books_def)
    from loads_ok [OF w2(1) l(1,2) this w2(3)] sb
    show "totE (\<lambda>w2. worker_ok f w2 \<and>
      dom (ow_load_job w2) = dom (ow_load_job w) \<union> fst ` set (cm_reqs_to_load md) \<and>
      ow_store_jobs w2 = ow_store_jobs w \<and> ow_waiting w2 = ow_waiting w) (foldE load_one (cm_reqs_to_load md) w2)"
      by (simp add: same_books_def)
  qed
qed

text \<open>\<^verbatim>\<open>step_effect\<close>: what a step changes in the books, seen from outside.\<close>

definition step_effect :: "connector_meta \<Rightarrow> req_id set \<Rightarrow> off_worker \<Rightarrow> finished_reqs \<Rightarrow> off_worker \<Rightarrow> bool" where
  "step_effect md F w rep w' \<longleftrightarrow>
     dom (ow_store_jobs w') = (dom (ow_store_jobs w) \<union> fst ` set (cm_reqs_to_store md)) - fst rep \<and>
     fst rep \<subseteq> dom (ow_store_jobs w) \<inter> (ow_waiting w \<union> F) \<and>
     ow_waiting w' = (ow_waiting w \<union> (F \<inter> dom (ow_store_jobs w))) - fst rep \<and>
     dom (ow_load_job w') = (dom (ow_load_job w) \<union> fst ` set (cm_reqs_to_load md)) - snd rep \<and>
     snd rep \<subseteq> dom (ow_load_job w) \<union> fst ` set (cm_reqs_to_load md)"

definition meta_ok :: "int \<Rightarrow> connector_meta \<Rightarrow> req_id set \<Rightarrow> off_worker \<Rightarrow> bool" where
  "meta_ok f md F w \<longleftrightarrow> (\<forall>e \<in> set (cm_reqs_to_load md). load_ok f (snd e)) \<and> distinct (map fst (cm_reqs_to_load md)) \<and>
     (\<forall>q \<in> fst ` set (cm_reqs_to_load md). ow_load_job w q = None) \<and> (\<forall>e \<in> set (cm_reqs_to_store md). store_ok f (snd e)) \<and>
     fst ` set (cm_reqs_to_store md) \<inter> (ow_waiting w \<union> F) = {}"

lemma worker_step_ok:
  assumes w: "worker_ok f w" and m: "meta_ok f md (set qs) w"
  shows "totE (\<lambda>(rep, w'). worker_ok f w' \<and> step_effect md (set qs) w rep w') (worker_step defer first query md qs w)"
proof -
  have l: "\<forall>e \<in> set (cm_reqs_to_load md). load_ok f (snd e)" "distinct (map fst (cm_reqs_to_load md))"
    "\<forall>q \<in> fst ` set (cm_reqs_to_load md). ow_load_job w q = None"
    and st: "\<forall>e \<in> set (cm_reqs_to_store md). store_ok f (snd e)"
      "fst ` set (cm_reqs_to_store md) \<inter> (ow_waiting w \<union> set qs) = {}"
    using m by (simp_all add: meta_ok_def)
  show ?thesis
    unfolding worker_step_def totE_simps
  proof (rule totE_conseq [OF before_model_ok [OF w l]], clarify, unfold totE_simps)
    fix w1
    assume "totE (\<lambda>w2. worker_ok f w2 \<and> dom (ow_load_job w2) = dom (ow_load_job w) \<union> fst ` set (cm_reqs_to_load md) \<and>
      ow_store_jobs w2 = ow_store_jobs w \<and> ow_waiting w2 = ow_waiting w) (ow_start_kv_transfers md w1)"
    then show "totE (\<lambda>w2. totE (\<lambda>(rep, w'). worker_ok f w' \<and> step_effect md (set qs) w rep w')
      (let w3 = if defer then w2 else ow_prepare_store_kv md w2
       in bindE (ow_get_finished first query qs w3) (\<lambda>(reported, w4).
            Inr (reported, if defer then ow_prepare_store_kv md w4 else w4)))) (ow_start_kv_transfers md w1)"
    proof (rule totE_conseq, elim conjE)
      fix w2
      assume w2: "worker_ok f w2" "dom (ow_load_job w2) = dom (ow_load_job w) \<union> fst ` set (cm_reqs_to_load md)"
        "ow_store_jobs w2 = ow_store_jobs w" "ow_waiting w2 = ow_waiting w"
      define w3 where "w3 = (if defer then w2 else ow_prepare_store_kv md w2)"
      note D = defer_stores_ok [OF _ st(1), folded ow_prepare_store_kv_def]
      have w3: "worker_ok f w3" "dom (ow_store_jobs w3) = dom (ow_store_jobs w) \<union> (if defer then {} else fst ` set (cm_reqs_to_store md))"
        "ow_load_job w3 = ow_load_job w2" "ow_waiting w3 = ow_waiting w"
        using D [OF w2(1)] w2 by (simp_all add: w3_def)
      show "totE (\<lambda>(rep, w'). worker_ok f w' \<and> step_effect md (set qs) w rep w')
        (let w3 = if defer then w2 else ow_prepare_store_kv md w2
         in bindE (ow_get_finished first query qs w3) (\<lambda>(reported, w4).
              Inr (reported, if defer then ow_prepare_store_kv md w4 else w4)))"
        unfolding Let_def totE_simps w3_def [symmetric]
      proof (rule totE_conseq [OF get_finished_ok [OF w3(1)]], clarify, unfold totE_simps split_conv)
        fix s r w4
        assume w4: "worker_ok f w4" "noted w3 (set qs) (s, r) w4"
        let ?w = "if defer then ow_prepare_store_kv md w4 else w4"
        have ok: "worker_ok f ?w" "ow_load_job ?w = ow_load_job w4" "ow_waiting ?w = ow_waiting w4"
          "dom (ow_store_jobs ?w) = dom (ow_store_jobs w4) \<union> (if defer then fst ` set (cm_reqs_to_store md) else {})"
          using D [OF w4(1)] w4(1) by simp_all
        have n: "dom (ow_store_jobs w4) = dom (ow_store_jobs w3) - s" "s \<subseteq> dom (ow_store_jobs w3)"
          "dom (ow_load_job w4) = dom (ow_load_job w3) - r" "r \<subseteq> dom (ow_load_job w3)"
          "ow_waiting w4 = (ow_waiting w3 \<union> (set qs \<inter> dom (ow_store_jobs w3))) - s" "s \<subseteq> ow_waiting w3 \<union> set qs"
          using w4(2) by (simp_all add: noted_def reported_def)
        have s: "s \<inter> fst ` set (cm_reqs_to_store md) = {}" using n(6) w3(4) st(2) by auto
        have "step_effect md (set qs) w (s, r) ?w"
          unfolding step_effect_def ok n fst_conv snd_conv w3 w2(2)
        proof (intro conjI)
          show "dom (ow_store_jobs w) \<union> (if defer then {} else fst ` set (cm_reqs_to_store md)) - s \<union>
              (if defer then fst ` set (cm_reqs_to_store md) else {}) = dom (ow_store_jobs w) \<union> fst ` set (cm_reqs_to_store md) - s"
            using s by auto
          show "s \<subseteq> dom (ow_store_jobs w) \<inter> (ow_waiting w \<union> set qs)" using n(2,6) w3(2,4) s by (auto split: if_splits)
          show "ow_waiting w \<union> set qs \<inter> (dom (ow_store_jobs w) \<union> (if defer then {} else fst ` set (cm_reqs_to_store md))) - s =
              ow_waiting w \<union> set qs \<inter> dom (ow_store_jobs w) - s" using st(2) by auto
          show "r \<subseteq> dom (ow_load_job w) \<union> fst ` set (cm_reqs_to_load md)" using n(4) w3(3) w2(2) by simp
        qed simp
        then show "worker_ok f ?w \<and> step_effect md (set qs) w (s, r) ?w" using ok(1) by blast
      qed
    qed
  qed
qed

end
