(* ===== verification/Spec2Isabelle.thy ===== *)
theory Spec2Isabelle
  imports Lookup External_Tokens Memory_Bounds Cache_Metrics Sched_Reach Offload_Props Ngram Config_Start Connector_Jobs
begin

text \<open>
  A verification library for the core of the inference engine: the scheduler and the key/value cache
  it administers, with what surrounds them (src/vllm/v1/core, src/vllm/v1/request.py,
  src/vllm/v1/kv\_cache\_interface.py, src/vllm/v1/kv\_offload, and the n-gram proposer of
  src/vllm/v1/spec\_decode). This theory imports all others; each theory opens with what it holds.

  \<^bold>\<open>The program.\<close> A request (request.py) enters the waiting queue of the scheduler. Each step of the
  scheduler (core/sched/scheduler.py) gives the running requests tokens within a budget, asks the cache
  manager (core/kv\_cache\_manager.py) for room, preempts requests when there is none, and starts waiting
  requests with the longest prefix found in the cache; the model runs, and the scheduler updates the
  requests from its output. The cache manager forwards to a coordinator (core/kv\_cache\_coordinator.py)
  with one manager per group of layers (core/single\_type\_kv\_cache\_manager.py) over one pool of blocks
  (core/block\_pool.py), which keeps free blocks in a doubly linked queue and cached blocks in an index by
  hash (core/kv\_cache\_utils.py). The same file decides at start how the memory is divided into groups,
  tensors and blocks. The encoder cache (core/encoder\_cache\_manager.py) does for encoder outputs what the
  block pool does for attention state. Blocks may be offloaded to main memory (kv\_offload) by a connector.

  \<^bold>\<open>Theories and code.\<close> The definitions carry the names of the code and stand in its order.
  \<^item> \<^verbatim>\<open>Prelude\<close>, \<^verbatim>\<open>Result_Logic\<close>: exceptions as values of \<^verbatim>\<open>py_error\<close>, the error monad, loops
    that may raise (\<^verbatim>\<open>foldE\<close>), Python slices, indexing and division; two predicates (\<^verbatim>\<open>okE\<close>,
    \<^verbatim>\<open>totE\<close>) to reason backwards through the monad.
  \<^item> \<^verbatim>\<open>Free_Queue\<close> (class FreeKVCacheBlockQueue, objects as an explicit store with pointers),
    \<^verbatim>\<open>Block_Hash\<close> (block keys, extra keys, chained hashes, the incremental hasher of a request),
    \<^verbatim>\<open>Block_Map\<close> and \<^verbatim>\<open>Block_Pool\<close> (core/block\_pool.py), \<^verbatim>\<open>Cache_Metrics\<close> (core/kv\_cache\_metrics.py).
  \<^item> \<^verbatim>\<open>Request\<close>: the request object, its status life cycle and the stop checks of core/sched/utils.py.
  \<^item> \<^verbatim>\<open>KV_Spec\<close>: the layer formats of kv\_cache\_interface.py. \<^verbatim>\<open>Cache_Config\<close>,
    \<^verbatim>\<open>Cache_Config_Props\<close>, \<^verbatim>\<open>Cache_Config_Workers\<close>, \<^verbatim>\<open>Config_Start\<close>: from the formats to the
    configurations of the workers and of the scheduler, and to a manager built from them.
  \<^item> \<^verbatim>\<open>Cache_Hit\<close>, \<^verbatim>\<open>Hit_Correct\<close>: the prefix searches; \<^verbatim>\<open>Single_Type\<close>, \<^verbatim>\<open>Manager_Inv\<close>,
    \<^verbatim>\<open>Slots\<close>, \<^verbatim>\<open>Memory_Bounds\<close>: the managers of one group, by dispatch on their class.
  \<^item> \<^verbatim>\<open>Coordinator\<close>, \<^verbatim>\<open>Coord_Inv\<close>, \<^verbatim>\<open>External_Tokens\<close>; \<^verbatim>\<open>KV_Manager\<close>, \<^verbatim>\<open>Lifecycle\<close>,
    \<^verbatim>\<open>Lookup\<close>: the coordinator and the cache manager, and the manager as a step relation.
  \<^item> \<^verbatim>\<open>Heapq\<close>, \<^verbatim>\<open>Request_Queue\<close>: the waiting queues, with the heap of Python's standard library.
    \<^verbatim>\<open>Encoder_Cache\<close>: the encoder cache and the workers' copy of it.
  \<^item> \<^verbatim>\<open>Sched_State\<close>, \<^verbatim>\<open>Schedule\<close>, \<^verbatim>\<open>Sched_Update\<close>: the scheduler's state, \<^verbatim>\<open>schedule()\<close> and
    \<^verbatim>\<open>update_from_output()\<close> with everything they call; \<^verbatim>\<open>Sched_Inv\<close>, \<^verbatim>\<open>Sched_Waiting\<close>,
    \<^verbatim>\<open>Sched_Step\<close>, \<^verbatim>\<open>Sched_Props\<close>, \<^verbatim>\<open>Sched_Ops\<close>, \<^verbatim>\<open>Sched_Reach\<close>: its invariant through the two
    loops of a step, the update and all other operations.
  \<^item> \<^verbatim>\<open>Offload_Policy\<close>, \<^verbatim>\<open>Offload_Arc\<close>, \<^verbatim>\<open>Offload\<close>, \<^verbatim>\<open>Offload_Safe\<close>, \<^verbatim>\<open>Offload_Props\<close>: the
    offloading manager over either eviction policy, the manager that filters reused blocks, and the
    transfers between the memories as a step relation.
  \<^item> \<^verbatim>\<open>Connector\<close>, \<^verbatim>\<open>Connector_Props\<close>: the scheduler's side of the offloading connector
    (distributed/kv\_transfer/kv\_connector/v1/offloading/scheduler.py) and its simulation by those transfers.
    \<^verbatim>\<open>Connector_Worker\<close>, \<^verbatim>\<open>Connector_Copy\<close>, \<^verbatim>\<open>Connector_Jobs\<close>: the workers' side
    (offloading/worker.py, kv\_offload/worker), the pairs of blocks it copies and its books of jobs.
  \<^item> \<^verbatim>\<open>Ngram\<close>: the proposer that looks for the end of the tokens earlier in them.

  \<^bold>\<open>What is proved.\<close> The state of a component is a record, an operation a function from states to
  results; the objects that the code shares by reference (blocks, requests) live in an explicit store.
  \<^item> \<^emph>\<open>Cache.\<close> The free queue refines a list and the index a multimap; the reference count of a block is
    the number of block-list entries for it in every state reachable from construction (\<^verbatim>\<open>kv_step\<close>, one
    rule per method of the cache manager that changes state), and the free queue holds exactly the
    unreferenced blocks; allocation never raises on the scheduler's calls and
    refuses exactly for lack of blocks; freeing all requests gives all blocks back; a prefix search
    returns the longest cached prefix, and equal hashes of requests whose hashes the request hasher
    computed mean equal prefixes.
  \<^item> \<^emph>\<open>Layout.\<close> Groups partition the layers, the tensors of a worker fit its memory, the binary search
    returns the longest length that fits, and the layout starts a consistent manager.
  \<^item> \<^emph>\<open>Scheduler.\<close> In every state reachable with calm outputs (see below) each request is in exactly one
    place, the one its status names; a step schedules running requests only, each once and within the budget, and its closing
    assertions hold. The priority queue behaves as sorting would.
  \<^item> \<^emph>\<open>Encoder cache, offloading, proposer.\<close> The workers hold nothing but what the cache
    believes they hold, and all of it unless the priority policy withdraws an input it has planned; no
    transfer ever reads or writes a slot that was given to another block, what was offloaded comes
    back in the right blocks, and the connector never fails on the reports of its workers; proposals are
    what follows the first earlier occurrence of the longest n-gram, and the search ends.
  \<^item> \<^emph>\<open>Defects.\<close> Several theorems state what the code does where it departs from its purpose: the names of
    adapters and cache salts collide, earlier images are missing from some hashes, a hit can be evicted by
    the allocation for another group, an encoder input of a request preempted in the step that planned it
    is believed to be computed, a request that ended stays in the skipped queue, sink blocks disable the
    reset, and the memory check ignores the null block. They are properties of the code as it is, not assumptions of other theorems.

  \<^bold>\<open>Parameters, bounds and side conditions.\<close>
  \<^item> The hash function, the seed and the digest of embeddings are arguments; statements on equal prefixes
    assume that the function does not collide on the inputs that occur. Clock readings, random draws and
    the order in which the interpreter enumerates a set are arguments.
  \<^item> Connectors, grammars and the encoder connector are a record of functions on a state of their own
    (\<^verbatim>\<open>sched_env\<close>), so the scheduler's theorems hold for all of them.
  \<^item> Python integers are \<^verbatim>\<open>int\<close>; the reference counts of offloaded blocks are 32-bit words, and a load may
    begin while fewer than two to the power of 31 are under way. Usage and concurrency, floats that are
    only reported, are rationals; the target size of the adaptive policy is rounded to a double after
    each operation, since evictions depend on it.
  \<^item> Block sizes are positive; the proofs take decode and prefill context parallelism to be one. The
    invariants of the managers are proved for full, multi-head latent, sliding-window and chunked-local
    attention, external tokens for a single group; Mamba, cross-attention and sink managers are modelled,
    with fewer theorems.
  \<^item> Loops are structural or have a measure; the search of the proposer is a while loop that may not
    end, and is proved to. No fuel is used.
  \<^item> The step relation of the scheduler has a switch. The theorem that no request is lost is about runs
    with \<^verbatim>\<open>calm\<close> outputs only: a request of an output that was preempted meanwhile is in the main waiting
    queue, not put aside, and not a resumable session. With any output allowed the code breaks the property
    (\<^verbatim>\<open>stopped_request_stays_queued\<close>).
  \<^item> The theorem on chained hashes under appends (and so the one on equal hashes) takes the multi-modal inputs
    to be in order and all but the last to end before the first block not hashed yet; otherwise the code
    forgets inputs (\<^verbatim>\<open>earlier_image_missing_from_hash\<close>).
  \<^item> The theorem on a lookup followed by an allocation is for a single full-attention group.

  \<^bold>\<open>Not modelled, and why.\<close> The model runner and workers (but for the set of encoder outputs they
  hold and their side of the offloading connector), the model executor, kernels and quantization, rejection sampling and draft models compute with tensors on devices, and their meaning is in libraries
  outside the repository. The engine core, the output processor and the API servers are processes,
  sockets and event loops around the scheduler, and text handling that rests on the tokenizers of a
  library. Network connectors rest on third-party transfer libraries. Configuration, command line,
  benchmarks, examples and tests hold no state of their own. Statistics, logging, log-probabilities,
  expert routing and the grammar bitmask are left out of the scheduler.
\<close>

end
